(* ===== verification/Quoting.thy ===== *)
theory Quoting
  imports Prelude
begin

text \<open>
  SQL identifier quoting (\<open>packages/server/src/service/quoting.ts\<close>): every place that inlines
  a table path into DDL or binds it into a Malloy \<open>FROM\<close> goes through these functions.

  The specification is a reader of one delimited SQL identifier, in which a doubled
  delimiter stands for the delimiter itself; the locale \<open>delimited_identifier\<close> is what a
  dialect's quoting owes it, and the path lemmas are proved once inside the locale.
\<close>

subsection \<open>The operations\<close>

definition bareTableName :: "string \<Rightarrow> string" where
  "bareTableName tableName =
     (case last_index_of (CHR ''.'') tableName of
        Some lastDot \<Rightarrow> drop (Suc lastDot) tableName
      | None \<Rightarrow> tableName)"

definition BACKTICK_DIALECTS :: "string set" where
  "BACKTICK_DIALECTS = {''standardsql'', ''mysql'', ''databricks''}"

definition quoteIdentifier :: "string \<Rightarrow> string \<Rightarrow> string" where
  "quoteIdentifier identifier dialect =
     (if dialect \<in> BACKTICK_DIALECTS
      then [backtick] @ replace_all backtick [backtick, backtick] identifier @ [backtick]
      else [dquote] @ replace_all dquote [dquote, dquote] identifier @ [dquote])"

definition quoteTablePath :: "string \<Rightarrow> string \<Rightarrow> string" where
  "quoteTablePath tableName dialect =
     join ''.'' (map (\<lambda>segment. quoteIdentifier segment dialect) (split_on (CHR ''.'') tableName))"

definition QUALIFIED_RENAME_TARGET_DIALECTS :: "string set" where
  "QUALIFIED_RENAME_TARGET_DIALECTS = {''snowflake'', ''mysql'', ''trino''}"

definition quoteRenameTarget :: "string \<Rightarrow> string \<Rightarrow> string" where
  "quoteRenameTarget tableName dialect =
     (if dialect \<in> QUALIFIED_RENAME_TARGET_DIALECTS
      then quoteTablePath tableName dialect
      else quoteIdentifier (bareTableName tableName) dialect)"

definition isQuotedIdentifierPath :: "string \<Rightarrow> bool" where
  "isQuotedIdentifierPath tableName \<longleftrightarrow> dquote \<in> set tableName \<or> backtick \<in> set tableName"

definition quoteManifestTablePath :: "string \<Rightarrow> string \<Rightarrow> string" where
  "quoteManifestTablePath tableName dialect =
     (if isQuotedIdentifierPath tableName then tableName else quoteTablePath tableName dialect)"

subsection \<open>How a SQL engine reads a delimited identifier\<close>

fun read_body :: "char \<Rightarrow> string \<Rightarrow> (string \<times> string) option" where
  "read_body q [] = None"
| "read_body q (c # cs) =
     (if c \<noteq> q then map_option (apfst ((#) c)) (read_body q cs)
      else (case cs of
              d # ds \<Rightarrow> if d = q then map_option (apfst ((#) q)) (read_body q ds) else Some ([], cs)
            | [] \<Rightarrow> Some ([], [])))"

fun read_delimited :: "char \<Rightarrow> string \<Rightarrow> (string \<times> string) option" where
  "read_delimited q [] = None"
| "read_delimited q (c # cs) = (if c = q then read_body q cs else None)"

text \<open>A dotted path of delimited identifiers, and nothing after it.\<close>

fun read_path_fuel :: "nat \<Rightarrow> char \<Rightarrow> string \<Rightarrow> string list option" where
  "read_path_fuel 0 q s = None"
| "read_path_fuel (Suc n) q s =
     (case read_delimited q s of
        None \<Rightarrow> None
      | Some (w, []) \<Rightarrow> Some [w]
      | Some (w, c # rest) \<Rightarrow>
          if c = CHR ''.'' then map_option ((#) w) (read_path_fuel n q rest) else None)"

definition read_path :: "char \<Rightarrow> string \<Rightarrow> string list option" where
  "read_path q s = read_path_fuel (length s) q s"

subsection \<open>The contract of a dialect's quoting\<close>

locale delimited_identifier =
  fixes q :: char and quote :: "string \<Rightarrow> string"
  assumes read_quote:
      "rest = [] \<or> hd rest \<noteq> q \<Longrightarrow> read_delimited q (quote w @ rest) = Some (w, rest)"
    and delim_not_dot: "q \<noteq> CHR ''.''"
    and quote_delim: "q \<in> set (quote w)"
begin

lemma quote_inj: "quote v = quote w \<Longrightarrow> v = w"
  using read_quote [of "[]" v] read_quote [of "[]" w] by simp

lemma quote_nonempty: "quote w \<noteq> []"
  using read_quote [of "[]" w] by (cases "quote w") auto

lemma read_path_fuel_join:
  "ws \<noteq> [] \<Longrightarrow> length ws \<le> n \<Longrightarrow> read_path_fuel n q (join ''.'' (map quote ws)) = Some ws"
proof (induction ws arbitrary: n rule: induct_list012)
  case 1
  then show ?case by simp
next
  case (2 w)
  then show ?case using read_quote [of "[]" w] by (cases n) auto
next
  case (3 w v ws)
  then obtain m where n: "n = Suc m" by (cases n) auto
  let ?rest = "CHR ''.'' # join ''.'' (map quote (v # ws))"
  have "read_delimited q (quote w @ ?rest) = Some (w, ?rest)"
    by (rule read_quote) (use delim_not_dot in auto)
  moreover have "read_path_fuel m q (join ''.'' (map quote (v # ws))) = Some (v # ws)"
    using "3.IH"(2) "3.prems" n by simp
  ultimately show ?case using n by simp
qed

lemma length_join_quote: "length ws \<le> length (join ''.'' (map quote ws))"
proof (induction ws rule: induct_list012)
  case (2 w)
  then show ?case using quote_nonempty [of w] by (cases "quote w") auto
next
  case (3 w v ws)
  then show ?case using quote_nonempty [of w] by (cases "quote w") auto
qed simp

lemma read_path_join: "ws \<noteq> [] \<Longrightarrow> read_path q (join ''.'' (map quote ws)) = Some ws"
  by (simp add: read_path_def read_path_fuel_join length_join_quote)

lemma path_inj: "ws \<noteq> [] \<Longrightarrow> vs \<noteq> [] \<Longrightarrow>
    join ''.'' (map quote ws) = join ''.'' (map quote vs) \<Longrightarrow> ws = vs"
  by (metis read_path_join option.inject)

lemma path_delim: "ws \<noteq> [] \<Longrightarrow> q \<in> set (join ''.'' (map quote ws))"
  by (induction ws rule: induct_list012) (auto simp: quote_delim)

end

subsection \<open>Both quoting rules keep the contract\<close>

definition quote_with :: "char \<Rightarrow> string \<Rightarrow> string" where
  "quote_with q w = [q] @ replace_all q [q, q] w @ [q]"

lemma read_body_doubled:
  "rest = [] \<or> hd rest \<noteq> q \<Longrightarrow> read_body q (replace_all q [q, q] w @ q # rest) = Some (w, rest)"
  by (induction w) (auto split: list.splits)

interpretation backtick_quoted: delimited_identifier backtick "quote_with backtick"
  by unfold_locales (simp_all add: quote_with_def read_body_doubled char_defs)

interpretation dquote_quoted: delimited_identifier dquote "quote_with dquote"
  by unfold_locales (simp_all add: quote_with_def read_body_doubled char_defs)

definition quote_char :: "string \<Rightarrow> char" where
  "quote_char dialect = (if dialect \<in> BACKTICK_DIALECTS then backtick else dquote)"

lemma quoteIdentifier_quote_with: "quoteIdentifier w d = quote_with (quote_char d) w"
  by (simp add: quoteIdentifier_def quote_with_def quote_char_def)

lemma quote_char_cases: "quote_char d = backtick \<or> quote_char d = dquote"
  by (simp add: quote_char_def)

lemma quoteTablePath_join:
  "quoteTablePath t d = join ''.'' (map (quote_with (quote_char d)) (split_on (CHR ''.'') t))"
  by (simp add: quoteTablePath_def quoteIdentifier_quote_with)

lemma read_path_quoted:
  "ws \<noteq> [] \<Longrightarrow> read_path (quote_char d) (join ''.'' (map (quote_with (quote_char d)) ws)) = Some ws"
  using quote_char_cases [of d] backtick_quoted.read_path_join dquote_quoted.read_path_join by auto

lemma read_delimited_quoteIdentifier:
  "read_delimited (quote_char d) (quoteIdentifier w d) = Some (w, [])"
  using quote_char_cases [of d] backtick_quoted.read_quote [of "[]" w] dquote_quoted.read_quote [of "[]" w]
  by (auto simp: quoteIdentifier_quote_with)

subsection \<open>Bare names\<close>

lemma last_index_of_None [simp]: "last_index_of c s = None \<longleftrightarrow> c \<notin> set s"
  by (induction s) (auto split: option.splits)

lemma drop_last_index: "last_index_of c s = Some i \<Longrightarrow> drop (Suc i) s = last (split_on c s)"
proof (induction s arbitrary: i)
  case Nil
  then show ?case by simp
next
  case (Cons x xs)
  show ?case
  proof (cases "last_index_of c xs")
    case None
    then have "split_on c xs = [xs]" by simp
    with Cons.prems None show ?thesis by (auto split: if_splits)
  next
    case (Some j)
    then have "c \<in> set xs" using last_index_of_None [of c xs] by (metis option.distinct(1))
    then have "length (split_on c xs) \<noteq> 1"
      by (metis join.simps(2) join_split_on length_0_conv length_Suc_conv One_nat_def split_on_parts
          list.set_intros(1))
    with Cons.IH [OF Some] Cons.prems Some show ?thesis
      by (auto split: list.splits)
  qed
qed

lemma bareTableName_last: "bareTableName t = last (split_on (CHR ''.'') t)"
  by (auto simp: bareTableName_def drop_last_index split: option.splits)

subsection \<open>Properties\<close>

text \<open>
  A quoted table path is inert: whatever characters the container and table names hold
  (delimiters included), a SQL engine that reads the path in the dialect's quoting gets
  back exactly the dot segments of the logical path, in order, with nothing left over.
\<close>

theorem quoteTablePath_reads_back:
  "read_path (quote_char dialect) (quoteTablePath tableName dialect)
     = Some (split_on (CHR ''.'') tableName)"
  by (simp add: quoteTablePath_join read_path_quoted)

text \<open>
  The target of a rename names the same table on every dialect: the whole path where a
  qualified target is required, its last segment elsewhere, each read back literally.
\<close>

theorem quoteRenameTarget_reads_back:
  "read_path (quote_char dialect) (quoteRenameTarget tableName dialect)
     = Some (if dialect \<in> QUALIFIED_RENAME_TARGET_DIALECTS then split_on (CHR ''.'') tableName
             else [last (split_on (CHR ''.'') tableName)])"
  using read_path_quoted [of "[last (split_on (CHR ''.'') tableName)]" dialect]
  by (simp add: quoteRenameTarget_def quoteTablePath_join read_path_quoted
      bareTableName_last quoteIdentifier_quote_with)

text \<open>
  Binding a manifest name is idempotent: a name that has been quoted for a dialect passes
  every later bind site unchanged.
\<close>

lemma isQuoted_quoteTablePath: "isQuotedIdentifierPath (quoteTablePath t d)"
  using quote_char_cases [of d] backtick_quoted.path_delim [of "split_on (CHR ''.'') t"]
    dquote_quoted.path_delim [of "split_on (CHR ''.'') t"]
  by (auto simp: isQuotedIdentifierPath_def quoteTablePath_join)

theorem quoteManifestTablePath_idem:
  "quoteManifestTablePath (quoteManifestTablePath t dialect) dialect'
     = quoteManifestTablePath t dialect"
  by (simp add: quoteManifestTablePath_def isQuoted_quoteTablePath)

end
