(* ===== verification/QueryText.thy ===== *)
theory QueryText
  imports Prelude
begin

text \<open>
  Pure parsing of caller-authored Malloy query text
  (\<open>packages/server/src/service/query_text.ts\<close>): the blanking of comments and string literals
  that every pattern scan over a query runs first, the run target, and the derivation edges
  \<open>source: NAME is BASE\<close> that the authorization gate and the query boundary follow.

  The loops of the source move an index over the text and write into a copy of it. Here the
  text that is still ahead is the argument, and each function returns what it writes for the
  characters it consumes followed by what the rest of the loop writes. Regular expressions are
  hand-translated matchers: in each of them every repetition is followed by a character outside
  the repeated class, so greedy matching never backtracks into a different match.
\<close>

subsection \<open>Blanking comments and literal bodies\<close>

definition blank_text :: "string \<Rightarrow> string" where
  "blank_text = map (\<lambda>c. if c = nl then c else CHR '' '')"

text \<open>Text up to and including the next \<open>*/\<close>, and what follows; \<open>None\<close> if it is not closed.\<close>

fun split_close :: "string \<Rightarrow> (string \<times> string) option" where
  "split_close [] = None"
| "split_close (c # s) =
     (if c = CHR ''*'' \<and> take 1 s = ''/'' then Some (c # take 1 s, drop 1 s)
      else map_option (apfst ((#) c)) (split_close s))"

text \<open>Text up to and including the next backtick, and what follows.\<close>

fun split_backtick :: "string \<Rightarrow> (string \<times> string) option" where
  "split_backtick [] = None"
| "split_backtick (c # s) =
     (if c = backtick then Some ([c], s) else map_option (apfst ((#) c)) (split_backtick s))"

text \<open>
  The body of a string literal opened by \<open>q\<close>: everything before the closing \<open>q\<close>, a backslash
  taking the next character with it, and the text from the closing \<open>q\<close> on.
\<close>

fun literal_body :: "char \<Rightarrow> string \<Rightarrow> string \<times> string" where
  "literal_body q [] = ([], [])"
| "literal_body q [c] = (if c = q then ([], [c]) else ([c], []))"
| "literal_body q (c # d # s) =
     (if c = q then ([], c # d # s)
      else if c = backslash then apfst (\<lambda>b. c # d # b) (literal_body q s)
      else apfst ((#) c) (literal_body q (d # s)))"

lemma split_close_append: "split_close s = Some (a, b) \<Longrightarrow> s = a @ b"
proof (induction s arbitrary: a b)
  case (Cons c s)
  then show ?case by (cases s) (auto split: if_splits)
qed simp

lemma split_close_length: "split_close s = Some (a, b) \<Longrightarrow> length b \<le> length s"
  by (auto dest: split_close_append)

lemma split_backtick_append: "split_backtick s = Some (a, b) \<Longrightarrow> s = a @ b"
  by (induction s arbitrary: a b) (auto split: if_splits)

lemma split_backtick_nonempty: "split_backtick s = Some (a, b) \<Longrightarrow> a \<noteq> []"
  by (cases s) (auto split: if_splits)

lemma split_close_nonempty: "split_close s = Some (a, b) \<Longrightarrow> a \<noteq> []"
  by (cases s) (auto split: if_splits)

lemma literal_body_append: "fst (literal_body q s) @ snd (literal_body q s) = s"
  by (induction q s rule: literal_body.induct) auto

lemma literal_body_rest: "snd (literal_body q s) = [] \<or> hd (snd (literal_body q s)) = q"
  by (induction q s rule: literal_body.induct) auto

lemma literal_body_length: "length (snd (literal_body q s)) \<le> length s"
  using literal_body_append [of q s] by (metis length_append le_add2)

function stripMalloyCommentsAndLiterals :: "string \<Rightarrow> string" where
  "stripMalloyCommentsAndLiterals [] = []"
| "stripMalloyCommentsAndLiterals (c # s) =
     (let two = take 2 (c # s) in
      if two = ''--'' \<or> two = ''//'' then
        blank_text (takeWhile (\<lambda>x. x \<noteq> nl) (c # s)) @
        (case dropWhile (\<lambda>x. x \<noteq> nl) (c # s) of
           [] \<Rightarrow> [] | n # rest \<Rightarrow> n # stripMalloyCommentsAndLiterals rest)
      else if two = ''/*'' then
        (case split_close (drop 1 s) of
           None \<Rightarrow> blank_text (c # s)
         | Some (body, rest) \<Rightarrow>
             blank_text (''/*'' @ body) @ stripMalloyCommentsAndLiterals rest)
      else if c = backtick then
        (case split_backtick s of
           None \<Rightarrow> c # s
         | Some (ident, rest) \<Rightarrow> c # ident @ stripMalloyCommentsAndLiterals rest)
      else if c = squote \<or> c = dquote then
        c # blank_text (fst (literal_body c s)) @
        (case snd (literal_body c s) of
           [] \<Rightarrow> [] | d # rest \<Rightarrow> d # stripMalloyCommentsAndLiterals rest)
      else c # stripMalloyCommentsAndLiterals s)"
  by pat_completeness auto
termination
proof (relation "measure length", goal_cases)
  case (2 c s two n rest)
  have "length (dropWhile (\<lambda>x. x \<noteq> nl) (c # s)) \<le> length (c # s)"
    by (rule length_dropWhile_le)
  with 2 show ?case by simp
next
  case (3 c s two p body rest)
  then have "length rest \<le> length (drop 1 s)" by (auto dest: split_close_length)
  then show ?case by simp
next
  case (4 c s two p ident rest)
  then show ?case by (auto dest: split_backtick_append)
next
  case (5 c s two d rest)
  then show ?case using literal_body_length [of c s] by simp
qed simp_all

declare stripMalloyCommentsAndLiterals.simps(2) [simp del]

subsection \<open>One step of the scan\<close>

definition opens_line :: "string \<Rightarrow> bool" where
  "opens_line s \<longleftrightarrow> take 2 s = ''--'' \<or> take 2 s = ''//''"

definition opens_block :: "string \<Rightarrow> bool" where
  "opens_block s \<longleftrightarrow> take 2 s = ''/*''"

definition plain_at :: "char \<Rightarrow> string \<Rightarrow> bool" where
  "plain_at c s \<longleftrightarrow> \<not> opens_line (c # s) \<and> \<not> opens_block (c # s)
     \<and> c \<noteq> backtick \<and> c \<noteq> squote \<and> c \<noteq> dquote"

lemma opens_line_hd: "opens_line s \<Longrightarrow> hd s = CHR ''-'' \<or> hd s = CHR ''/''"
  by (cases s) (auto simp: opens_line_def)

lemma opens_block_hd: "opens_block s \<Longrightarrow> hd s = CHR ''/''"
  by (cases s) (auto simp: opens_block_def)

lemma not_opens [simp]:
  "c \<noteq> CHR ''-'' \<Longrightarrow> c \<noteq> CHR ''/'' \<Longrightarrow> \<not> opens_line (c # s)"
  "c \<noteq> CHR ''/'' \<Longrightarrow> \<not> opens_block (c # s)"
  using opens_line_hd [of "c # s"] opens_block_hd [of "c # s"] by auto

lemma opens_line_not_block: "opens_line s \<Longrightarrow> \<not> opens_block s"
  by (auto simp: opens_line_def opens_block_def)

lemma opens_line_neq_Nil [simp]: "\<not> opens_line []" and opens_block_neq_Nil [simp]: "\<not> opens_block []"
  by (simp_all add: opens_line_def opens_block_def)

lemma strip_line:
  "opens_line s \<Longrightarrow> stripMalloyCommentsAndLiterals s =
     blank_text (takeWhile (\<lambda>x. x \<noteq> nl) s) @
     (case dropWhile (\<lambda>x. x \<noteq> nl) s of
        [] \<Rightarrow> [] | n # rest \<Rightarrow> n # stripMalloyCommentsAndLiterals rest)"
  by (cases s) (auto simp: stripMalloyCommentsAndLiterals.simps(2) opens_line_def Let_def)

lemma strip_block:
  "opens_block (c # s) \<Longrightarrow> stripMalloyCommentsAndLiterals (c # s) =
     (case split_close (drop 1 s) of
        None \<Rightarrow> blank_text (c # s)
      | Some (body, rest) \<Rightarrow> blank_text (''/*'' @ body) @ stripMalloyCommentsAndLiterals rest)"
  by (auto simp: stripMalloyCommentsAndLiterals.simps(2) opens_block_def Let_def)

lemma strip_ident:
  "stripMalloyCommentsAndLiterals (backtick # s) =
     (case split_backtick s of
        None \<Rightarrow> backtick # s
      | Some (ident, rest) \<Rightarrow> backtick # ident @ stripMalloyCommentsAndLiterals rest)"
  by (cases "split_backtick s")
    (simp_all add: stripMalloyCommentsAndLiterals.simps(2) Let_def char_defs)

lemma strip_literal:
  "c = squote \<or> c = dquote \<Longrightarrow> stripMalloyCommentsAndLiterals (c # s) =
     c # blank_text (fst (literal_body c s)) @
     (case snd (literal_body c s) of
        [] \<Rightarrow> [] | d # rest \<Rightarrow> d # stripMalloyCommentsAndLiterals rest)"
  by (auto simp: stripMalloyCommentsAndLiterals.simps(2) Let_def char_defs)

lemma strip_plain:
  "plain_at c s \<Longrightarrow> stripMalloyCommentsAndLiterals (c # s) = c # stripMalloyCommentsAndLiterals s"
  by (auto simp: stripMalloyCommentsAndLiterals.simps(2) Let_def plain_at_def opens_line_def
      opens_block_def)

lemmas strip_steps = strip_line strip_block strip_ident strip_literal strip_plain

text \<open>Induction along the scan: one case per kind of token, with the rest of the text smaller.\<close>

lemma scan_induct [case_names Nil line block ident literal plain]:
  assumes Nil: "P []"
    and line: "\<And>s. opens_line s \<Longrightarrow>
      (\<And>n rest. dropWhile (\<lambda>x. x \<noteq> nl) s = n # rest \<Longrightarrow> P rest) \<Longrightarrow> P s"
    and block: "\<And>c s. opens_block (c # s) \<Longrightarrow>
      (\<And>body rest. split_close (drop 1 s) = Some (body, rest) \<Longrightarrow> P rest) \<Longrightarrow> P (c # s)"
    and ident: "\<And>s. (\<And>w rest. split_backtick s = Some (w, rest) \<Longrightarrow> P rest) \<Longrightarrow> P (backtick # s)"
    and literal: "\<And>c s. c = squote \<or> c = dquote \<Longrightarrow>
      (\<And>d rest. snd (literal_body c s) = d # rest \<Longrightarrow> P rest) \<Longrightarrow> P (c # s)"
    and plain: "\<And>c s. plain_at c s \<Longrightarrow> P s \<Longrightarrow> P (c # s)"
  shows "P s"
proof (induction s rule: length_induct)
  case (1 s)
  then have IH: "\<And>t. length t < length s \<Longrightarrow> P t" by blast
  show ?case
  proof (cases s)
    case s: (Cons c t)
    consider "opens_line s" | "opens_block s" | "c = backtick" | "c = squote \<or> c = dquote"
      | "plain_at c t"
      using s by (auto simp: plain_at_def)
    then show ?thesis
    proof cases
      case 1
      show ?thesis
      proof (rule line [OF 1])
        fix n rest assume "dropWhile (\<lambda>x. x \<noteq> nl) s = n # rest"
        then have "Suc (length rest) \<le> length s"
          using length_dropWhile_le [of "\<lambda>x. x \<noteq> nl" s] by simp
        then show "P rest" using IH by simp
      qed
    next
      case 2
      then show ?thesis unfolding s
        by (rule block) (rule IH, auto simp: s dest!: split_close_length)
    next
      case 3
      then show ?thesis unfolding s
        by (metis IH ident le_imp_less_Suc length_Cons length_append le_add2 s split_backtick_append)
    next
      case 4
      then show ?thesis unfolding s
        by (rule literal) (rule IH, use literal_body_length [of c t] in \<open>simp add: s\<close>)
    next
      case 5
      then show ?thesis unfolding s by (rule plain) (rule IH, simp add: s)
    qed
  qed (simp add: Nil)
qed

subsection \<open>What blanking keeps\<close>

text \<open>A character of the result is the one of the input, or a space where the input had no newline.\<close>

definition masks :: "char \<Rightarrow> char \<Rightarrow> bool" where
  "masks c d \<longleftrightarrow> d = c \<or> (c \<noteq> nl \<and> d = CHR '' '')"

lemma masks_refl [simp]: "masks c c"
  by (simp add: masks_def)

lemma masks_same [simp]: "list_all2 masks s s"
  by (simp add: list.rel_refl)

lemma masks_blank [simp]: "list_all2 masks s (blank_text s)"
  by (induction s) (auto simp: blank_text_def masks_def)

lemma masks_split:
  "list_all2 masks a a' \<Longrightarrow> list_all2 masks b b' \<Longrightarrow> list_all2 masks (a @ b) (a' @ b')"
  by (rule list_all2_appendI)

lemma masks_line:
  assumes "\<And>n rest. dropWhile p s = n # rest \<Longrightarrow> list_all2 masks rest (f rest)"
  shows "list_all2 masks s (blank_text (takeWhile p s) @
           (case dropWhile p s of [] \<Rightarrow> [] | n # rest \<Rightarrow> n # f rest))"
proof -
  have "list_all2 masks (dropWhile p s) (case dropWhile p s of [] \<Rightarrow> [] | n # rest \<Rightarrow> n # f rest)"
    using assms by (auto split: list.split)
  then have "list_all2 masks (takeWhile p s @ dropWhile p s) (blank_text (takeWhile p s) @
           (case dropWhile p s of [] \<Rightarrow> [] | n # rest \<Rightarrow> n # f rest))"
    by (intro masks_split) auto
  then show ?thesis by simp
qed

lemma masks_literal:
  assumes "\<And>d rest. snd p = d # rest \<Longrightarrow> list_all2 masks rest (f rest)"
    and "fst p @ snd p = s"
  shows "list_all2 masks s (blank_text (fst p) @
           (case snd p of [] \<Rightarrow> [] | d # rest \<Rightarrow> d # f rest))"
proof -
  have "list_all2 masks (fst p @ snd p)
      (blank_text (fst p) @ (case snd p of [] \<Rightarrow> [] | d # rest \<Rightarrow> d # f rest))"
    using assms(1) by (intro masks_split) (auto split: list.split)
  with assms(2) show ?thesis by simp
qed

lemma masks_strip: "list_all2 masks s (stripMalloyCommentsAndLiterals s)"
proof (induction s rule: scan_induct)
  case (line s)
  then show ?case by (simp add: strip_line masks_line)
next
  case (block c s)
  then have "take 1 s = ''*''" and c: "c = CHR ''/''" by (auto simp: opens_block_def)
  then obtain t where s: "s = CHR ''*'' # t" by (cases s) auto
  show ?case
  proof (cases "split_close t")
    case None
    with block s show ?thesis by (simp add: strip_block)
  next
    case (Some p)
    obtain body rest where p: "p = (body, rest)" by (cases p)
    have "c # s = (''/*'' @ body) @ rest"
      using Some p s c by (auto dest: split_close_append)
    moreover have "list_all2 masks rest (stripMalloyCommentsAndLiterals rest)"
      using block.IH Some p s by simp
    moreover have "stripMalloyCommentsAndLiterals (c # s)
        = blank_text (''/*'' @ body) @ stripMalloyCommentsAndLiterals rest"
      using block.hyps Some p s by (simp add: strip_block)
    ultimately show ?thesis by (metis masks_blank masks_split)
  qed
next
  case (ident s)
  show ?case
  proof (cases "split_backtick s")
    case None
    then show ?thesis by (simp add: strip_ident)
  next
    case (Some p)
    with ident show ?thesis
      by (cases p) (auto simp: strip_ident dest!: split_backtick_append intro: masks_split)
  qed
next
  case (literal c s)
  then show ?case by (simp add: strip_literal masks_literal literal_body_append)
next
  case (plain c s)
  then show ?case by (simp add: strip_plain)
qed simp

subsection \<open>Text the scan has closed\<close>

text \<open>
  \<open>scan_closed b s\<close>: reading \<open>s\<close>, the scan is not left inside a block comment, a backticked name
  or a string literal; \<open>b\<close> says whether it may be left inside a line comment.
\<close>

function scan_closed :: "bool \<Rightarrow> string \<Rightarrow> bool" where
  "scan_closed b [] = True"
| "scan_closed b (c # s) =
     (if opens_line (c # s) then
        (case dropWhile (\<lambda>x. x \<noteq> nl) (c # s) of [] \<Rightarrow> b | n # rest \<Rightarrow> scan_closed b rest)
      else if opens_block (c # s) then
        (case split_close (drop 1 s) of None \<Rightarrow> False | Some (body, rest) \<Rightarrow> scan_closed b rest)
      else if c = backtick then
        (case split_backtick s of None \<Rightarrow> False | Some (w, rest) \<Rightarrow> scan_closed b rest)
      else if c = squote \<or> c = dquote then
        (case snd (literal_body c s) of [] \<Rightarrow> False | d # rest \<Rightarrow> scan_closed b rest)
      else scan_closed b s)"
  by pat_completeness auto
termination
proof (relation "measure (length \<circ> snd)", goal_cases)
  case (2 b c s n rest)
  have "length (dropWhile (\<lambda>x. x \<noteq> nl) (c # s)) \<le> length (c # s)"
    by (rule length_dropWhile_le)
  with 2 show ?case by simp
next
  case (3 b c s p body rest)
  then have "length rest \<le> length (drop 1 s)" by (auto dest: split_close_length)
  then show ?case by simp
next
  case (4 b c s p w rest)
  then show ?case by (auto dest: split_backtick_append)
next
  case (5 b c s d rest)
  then show ?case using literal_body_length [of c s] by simp
qed simp_all

declare scan_closed.simps(2) [simp del]

lemma split_close_append_rest: "split_close s = Some (a, r) \<Longrightarrow> split_close (s @ t) = Some (a, r @ t)"
proof (induction s arbitrary: a)
  case (Cons c s)
  then show ?case by (cases s) (auto split: if_splits)
qed simp

lemma split_backtick_append_rest:
  "split_backtick s = Some (a, r) \<Longrightarrow> split_backtick (s @ t) = Some (a, r @ t)"
  by (induction s arbitrary: a) (auto split: if_splits)

lemma literal_body_append_rest:
  "literal_body q s = (b, d # r) \<Longrightarrow> literal_body q (s @ t) = (b, d # r @ t)"
proof (induction q s arbitrary: b rule: literal_body.induct)
  case (2 q c)
  then show ?case by (cases t) (auto split: if_splits)
next
  case (3 q c d' s)
  then show ?case by (auto split: if_splits simp: apfst_def map_prod_def split: prod.splits)
qed simp

lemma opens_line_append: "opens_line s \<Longrightarrow> opens_line (s @ t)"
  by (cases s; cases "tl s") (auto simp: opens_line_def)

lemma opens_block_append: "opens_block s \<Longrightarrow> opens_block (s @ t)"
  by (cases s; cases "tl s") (auto simp: opens_block_def)

lemma opens_junction:
  assumes "t = [] \<or> hd t \<notin> set ''-/*'' \<or> last s \<notin> set ''-/''" and "s \<noteq> []"
  shows "opens_line (s @ t) = opens_line s" and "opens_block (s @ t) = opens_block s"
proof -
  consider (one) c where "s = [c]" | (more) c d u where "s = c # d # u"
    using assms(2) by (metis list.exhaust)
  then have "opens_line (s @ t) = opens_line s \<and> opens_block (s @ t) = opens_block s"
    by cases (use assms(1) in \<open>cases t; auto simp: opens_line_def opens_block_def\<close>)+
  then show "opens_line (s @ t) = opens_line s" and "opens_block (s @ t) = opens_block s" by auto
qed

lemma scan_closed_steps:
  "opens_line s \<Longrightarrow> scan_closed b s =
     (case dropWhile (\<lambda>x. x \<noteq> nl) s of [] \<Rightarrow> b | n # rest \<Rightarrow> scan_closed b rest)"
  "opens_block (c # s) \<Longrightarrow> scan_closed b (c # s) =
     (case split_close (drop 1 s) of None \<Rightarrow> False | Some (body, rest) \<Rightarrow> scan_closed b rest)"
  "scan_closed b (backtick # s) =
     (case split_backtick s of None \<Rightarrow> False | Some (w, rest) \<Rightarrow> scan_closed b rest)"
  "c = squote \<or> c = dquote \<Longrightarrow> scan_closed b (c # s) =
     (case snd (literal_body c s) of [] \<Rightarrow> False | d # rest \<Rightarrow> scan_closed b rest)"
  "plain_at c s \<Longrightarrow> scan_closed b (c # s) = scan_closed b s"
proof -
  show "opens_line s \<Longrightarrow> scan_closed b s =
     (case dropWhile (\<lambda>x. x \<noteq> nl) s of [] \<Rightarrow> b | n # rest \<Rightarrow> scan_closed b rest)"
    by (cases s) (simp_all add: scan_closed.simps(2))
  show "opens_block (c # s) \<Longrightarrow> scan_closed b (c # s) =
     (case split_close (drop 1 s) of None \<Rightarrow> False | Some (body, rest) \<Rightarrow> scan_closed b rest)"
    using opens_line_not_block [of "c # s"] by (auto simp: scan_closed.simps(2))
  have "backtick \<noteq> CHR ''-'' \<and> backtick \<noteq> CHR ''/''" by (simp add: char_defs)
  then show "scan_closed b (backtick # s) =
     (case split_backtick s of None \<Rightarrow> False | Some (w, rest) \<Rightarrow> scan_closed b rest)"
    by (simp add: scan_closed.simps(2))
  show "c = squote \<or> c = dquote \<Longrightarrow> scan_closed b (c # s) =
     (case snd (literal_body c s) of [] \<Rightarrow> False | d # rest \<Rightarrow> scan_closed b rest)"
    by (elim disjE; simp add: scan_closed.simps(2) char_defs)
  show "plain_at c s \<Longrightarrow> scan_closed b (c # s) = scan_closed b s"
    by (auto simp: scan_closed.simps(2) plain_at_def)
qed

lemma plain_nl [simp]: "plain_at nl s"
  by (simp add: plain_at_def char_defs)

lemma strip_nl [simp]:
  "stripMalloyCommentsAndLiterals (nl # s) = nl # stripMalloyCommentsAndLiterals s"
  by (simp add: strip_plain)

lemma dropWhile_hit: "dropWhile p s = n # rest \<Longrightarrow>
    dropWhile p (s @ t) = n # rest @ t \<and> takeWhile p (s @ t) = takeWhile p s"
  by (induction s) (auto split: if_splits)

lemma dropWhile_miss: "dropWhile p s = [] \<Longrightarrow>
    dropWhile p (s @ t) = dropWhile p t \<and> takeWhile p (s @ t) = s @ takeWhile p t \<and> takeWhile p s = s"
  by (induction s) (auto split: if_splits)

lemma strip_open_line:
  assumes "opens_line s" and "nl \<notin> set s" and "t = [] \<or> hd t = nl"
  shows "stripMalloyCommentsAndLiterals (s @ t) = blank_text s @ stripMalloyCommentsAndLiterals t"
proof -
  have "dropWhile (\<lambda>x. x \<noteq> nl) s = []" using assms(2) by (auto simp: dropWhile_eq_Nil_conv)
  from dropWhile_miss [OF this, of t]
  have eq: "takeWhile (\<lambda>x. x \<noteq> nl) (s @ t) = s" "dropWhile (\<lambda>x. x \<noteq> nl) (s @ t) = t"
    using assms(3) by (cases t; force)+
  show ?thesis
    unfolding strip_line [OF opens_line_append [OF assms(1)]] eq using assms(3) by (cases t) auto
qed

text \<open>No comment opener or closer is formed where \<open>s\<close> meets \<open>t\<close>.\<close>

definition junction_ok :: "string \<Rightarrow> string \<Rightarrow> bool" where
  "junction_ok s t \<longleftrightarrow> s = [] \<or> t = [] \<or> hd t \<notin> set ''-/*'' \<or> last s \<notin> set ''-/''"

lemma junction_ok_suffix: "junction_ok s t \<Longrightarrow> s = a @ rest \<Longrightarrow> junction_ok rest t"
  by (cases "rest = []") (auto simp: junction_ok_def)

lemma junction_ok_nl [simp]: "junction_ok s (nl # t)"
  by (simp add: junction_ok_def char_defs)

text \<open>
  The scan of closed text does not depend on what follows: the two parts of a text are blanked
  independently.
\<close>

lemma scan_append:
  assumes "scan_closed b s" and "b \<Longrightarrow> t = [] \<or> hd t = nl" and "junction_ok s t"
  shows "stripMalloyCommentsAndLiterals (s @ t)
           = stripMalloyCommentsAndLiterals s @ stripMalloyCommentsAndLiterals t
         \<and> (\<not> b \<longrightarrow> scan_closed b' (s @ t) = scan_closed b' t)"
  using assms(1,3)
proof (induction s rule: scan_induct)
  case (line s)
  show ?case
  proof (cases "dropWhile (\<lambda>x. x \<noteq> nl) s")
    case Nil
    with line have b: b and t: "t = [] \<or> hd t = nl" by (auto simp: scan_closed_steps assms(2))
    have "nl \<notin> set s" using Nil by auto
    then show ?thesis
      using strip_open_line [OF line.hyps, of t] strip_open_line [OF line.hyps, of "[]"] b t by simp
  next
    case (Cons n rest)
    have "s = (takeWhile (\<lambda>x. x \<noteq> nl) s @ [n]) @ rest"
      using Cons by (metis append_Cons append_Nil append_assoc takeWhile_dropWhile_id)
    then have j: "junction_ok rest t" by (rule junction_ok_suffix [OF line.prems(2)])
    have cl: "scan_closed b rest" using line Cons by (simp add: scan_closed_steps)
    show ?thesis
      using line.IH [OF Cons cl j] dropWhile_hit [OF Cons, of t]
        opens_line_append [OF line.hyps, of t] line.hyps Cons
      by (simp add: strip_line scan_closed_steps)
  qed
next
  case (block c s)
  then obtain body rest where r: "split_close (drop 1 s) = Some (body, rest)"
      and cl: "scan_closed b rest"
    by (auto simp: scan_closed_steps split: option.splits)
  have s: "s \<noteq> []" using block.hyps by (cases s) (auto simp: opens_block_def)
  have "drop 1 s = body @ rest" using r by (rule split_close_append)
  then have "c # s = (c # take 1 s @ body) @ rest"
    by (metis append_Cons append_assoc append_take_drop_id)
  then have j: "junction_ok rest t" by (rule junction_ok_suffix [OF block.prems(2)])
  have "split_close (drop 1 (s @ t)) = Some (body, rest @ t)"
    using split_close_append_rest [OF r, of t] s by (cases s) auto
  then show ?case
    using block.IH [OF r cl j] block.hyps r opens_block_append [OF block.hyps, of t]
    by (simp add: strip_block scan_closed_steps)
next
  case (ident s)
  then obtain w rest where r: "split_backtick s = Some (w, rest)" and cl: "scan_closed b rest"
    by (auto simp: scan_closed_steps split: option.splits)
  have "backtick # s = (backtick # w) @ rest" using r by (auto dest: split_backtick_append)
  then show ?case
    using ident.IH [OF r cl] junction_ok_suffix [OF ident.prems(2)] r
      split_backtick_append_rest [OF r, of t]
    by (simp add: strip_ident scan_closed_steps)
next
  case (literal c s)
  then obtain d rest where r: "snd (literal_body c s) = d # rest" and cl: "scan_closed b rest"
    by (auto simp: scan_closed_steps split: list.splits)
  have "c # s = (c # fst (literal_body c s) @ [d]) @ rest"
    using literal_body_append [of c s] r by (metis append_Cons append_Nil append_assoc)
  then have j: "junction_ok rest t" by (rule junction_ok_suffix [OF literal.prems(2)])
  have "literal_body c (s @ t) = (fst (literal_body c s), d # rest @ t)"
    by (rule literal_body_append_rest) (metis prod.collapse r)
  then show ?case
    using literal.IH [OF r cl j] literal.hyps r by (simp add: strip_literal scan_closed_steps)
next
  case (plain c s)
  have "opens_line ((c # s) @ t) = opens_line (c # s)" "opens_block ((c # s) @ t) = opens_block (c # s)"
    using opens_junction [of t "c # s"] plain.prems(2) by (auto simp: junction_ok_def)
  with plain.hyps have "plain_at c (s @ t)" by (simp add: plain_at_def)
  then show ?case
    using plain.IH junction_ok_suffix [OF plain.prems(2), of "[c]" s] plain.hyps plain.prems(1)
    by (simp add: strip_plain scan_closed_steps)
qed simp

lemmas strip_append = scan_append [THEN conjunct1]

lemma scan_closed_append:
  "scan_closed False s \<Longrightarrow> junction_ok s t \<Longrightarrow> scan_closed b (s @ t) = scan_closed b t"
  using scan_append [of False s t b] by simp

subsection \<open>Blanking twice\<close>

lemma blank_text_simps [simp]:
  "blank_text [] = []"
  "blank_text (c # s) = (if c = nl then c else CHR '' '') # blank_text s"
  "blank_text (s @ t) = blank_text s @ blank_text t"
  "blank_text (blank_text s) = blank_text s"
  by (simp_all add: blank_text_def comp_def)

lemma set_blank_text: "set (blank_text s) \<subseteq> {nl, CHR '' ''}"
  by (induction s) auto

lemma plain_blank: "c \<in> {nl, CHR '' ''} \<Longrightarrow> plain_at c s"
  by (auto simp: plain_at_def char_defs)

lemma strip_blank_append:
  "stripMalloyCommentsAndLiterals (blank_text s @ t) = blank_text s @ stripMalloyCommentsAndLiterals t"
  by (induction s) (simp_all add: strip_plain plain_blank)

lemma blank_body_closes:
  assumes "q = squote \<or> q = dquote" and "r = [] \<or> hd r = q"
  shows "literal_body q (blank_text b @ r) = (blank_text b, r)"
proof -
  have "literal_body q r = ([], r)" using assms(2) by (cases r; cases "tl r") auto
  moreover have "literal_body q (c # s) = apfst ((#) c) (literal_body q s)"
    if "c \<in> {nl, CHR '' ''}" for c s
    using that assms(1) by (cases s) (auto simp: char_defs)
  ultimately show ?thesis by (induction b) auto
qed

lemma strip_hd: "s \<noteq> [] \<Longrightarrow>
    hd (stripMalloyCommentsAndLiterals s) = hd s \<or> hd (stripMalloyCommentsAndLiterals s) = CHR '' ''"
  using masks_strip [of s] by (cases s) (auto simp: list_all2_Cons1 masks_def)

lemma strip_eq_Nil [simp]: "stripMalloyCommentsAndLiterals s = [] \<longleftrightarrow> s = []"
  using masks_strip [of s] by (auto dest: list_all2_lengthD)

lemma plain_at_strip: "plain_at c s \<Longrightarrow> plain_at c (stripMalloyCommentsAndLiterals s)"
  using strip_hd [of s]
  by (cases s; cases "stripMalloyCommentsAndLiterals s")
     (auto simp: plain_at_def opens_line_def opens_block_def)

lemma strip_strip:
  "stripMalloyCommentsAndLiterals (stripMalloyCommentsAndLiterals s) = stripMalloyCommentsAndLiterals s"
proof (induction s rule: scan_induct)
  case (line s)
  show ?case
  proof (cases "dropWhile (\<lambda>x. x \<noteq> nl) s")
    case (Cons n rest)
    then have "n = nl" using hd_dropWhile [of "\<lambda>x. x \<noteq> nl" s] by auto
    then show ?thesis using line Cons by (simp add: strip_line strip_blank_append)
  qed (use line.hyps strip_blank_append [of s "[]"] strip_open_line [of s "[]"] in auto)
next
  case (block c s)
  then show ?case
    using strip_blank_append [of "c # s" "[]"]
    by (auto simp: strip_block strip_blank_append simp del: blank_text_simps(2) split: option.splits)
next
  case (ident s)
  show ?case
  proof (cases "split_backtick s")
    case (Some p)
    then obtain w rest where p: "split_backtick s = Some (w, rest)" by (cases p) auto
    have "split_backtick (w @ u) = Some (w, u)" for u
      using p by (induction s arbitrary: w) (auto split: if_splits)
    with ident p show ?thesis by (simp add: strip_ident)
  qed (simp add: strip_ident)
next
  case (literal c s)
  have lb: "snd (literal_body c s) = [] \<or> hd (snd (literal_body c s)) = c" by (rule literal_body_rest)
  show ?case
  proof (cases "snd (literal_body c s)")
    case Nil
    then show ?thesis
      using literal.hyps blank_body_closes [of c "[]" "fst (literal_body c s)"]
      by (simp add: strip_literal)
  next
    case (Cons d rest)
    then show ?thesis
      using literal.hyps literal.IH [OF Cons] lb
        blank_body_closes [of c "c # stripMalloyCommentsAndLiterals rest" "fst (literal_body c s)"]
      by (auto simp: strip_literal)
  qed
next
  case (plain c s)
  then show ?case by (simp add: strip_plain plain_at_strip)
qed simp

subsection \<open>Pattern scans\<close>

text \<open>Building blocks of the regular expressions: a literal word, \<open>\s*\<close>, and an identifier
  \<open>(?:`([^`]+)`|(\w+))\<close> for a class of word characters.\<close>

definition match_lit :: "string \<Rightarrow> string \<Rightarrow> string option" where
  "match_lit p s = (if prefix p s then Some (drop (length p) s) else None)"

definition skip_ws :: "string \<Rightarrow> string" where
  "skip_ws s = dropWhile js_space s"

definition skip_ws1 :: "string \<Rightarrow> string option" where
  "skip_ws1 s = (if s \<noteq> [] \<and> js_space (hd s) then Some (dropWhile js_space s) else None)"

definition match_ident :: "(char \<Rightarrow> bool) \<Rightarrow> string \<Rightarrow> (string \<times> string) option" where
  "match_ident word s =
     (case s of
        [] \<Rightarrow> None
      | c # t \<Rightarrow>
          if c = backtick then
            (let name = takeWhile (\<lambda>x. x \<noteq> backtick) t; rest = dropWhile (\<lambda>x. x \<noteq> backtick) t in
             if name \<noteq> [] \<and> rest \<noteq> [] then Some (name, tl rest) else None)
          else if word c then Some (takeWhile word s, dropWhile word s)
          else None)"

fun search :: "(string \<Rightarrow> 'a option) \<Rightarrow> string \<Rightarrow> 'a option" where
  "search f [] = f []"
| "search f (c # s) = (case f (c # s) of Some r \<Rightarrow> Some r | None \<Rightarrow> search f s)"

fun search_at_lines :: "(string \<Rightarrow> 'a option) \<Rightarrow> bool \<Rightarrow> string \<Rightarrow> 'a option" where
  "search_at_lines f bol [] = (if bol then f [] else None)"
| "search_at_lines f bol (c # s) =
     (case (if bol then f (c # s) else None) of
        Some r \<Rightarrow> Some r
      | None \<Rightarrow> search_at_lines f (c = nl \<or> c = CHR 0x0D) s)"

text \<open>
  All matches of a global regular expression, left to right. The guard is the progress a match
  makes; it holds for every matcher used here (\<open>match_decl_shorter\<close>).
\<close>

function all_matches :: "(string \<Rightarrow> ('a \<times> string) option) \<Rightarrow> string \<Rightarrow> 'a list" where
  "all_matches f [] = []"
| "all_matches f (c # s) =
     (case f (c # s) of
        None \<Rightarrow> all_matches f s
      | Some (x, rest) \<Rightarrow> x # (if length rest < length (c # s) then all_matches f rest else []))"
  by pat_completeness auto
termination by (relation "measure (length \<circ> snd)") auto

definition match_run :: "string \<Rightarrow> string option" where
  "match_run s =
     (case match_lit ''run'' s of
        None \<Rightarrow> None
      | Some t \<Rightarrow>
          (case match_lit '':'' (skip_ws t) of
             None \<Rightarrow> None
           | Some u \<Rightarrow> map_option fst (match_ident is_word (skip_ws u))))"

definition match_arrow :: "string \<Rightarrow> string option" where
  "match_arrow s =
     (case match_ident is_word (skip_ws s) of
        None \<Rightarrow> None
      | Some (name, rest) \<Rightarrow> (if prefix ''->'' (skip_ws rest) then Some name else None))"

definition extractRunTargetSourceName :: "string option \<Rightarrow> string option" where
  "extractRunTargetSourceName query =
     (case query of
        None \<Rightarrow> None
      | Some text \<Rightarrow>
          if text = [] then None
          else (case search match_run text of
                  Some name \<Rightarrow> Some name
                | None \<Rightarrow> search_at_lines match_arrow True text))"

definition match_source_alias :: "string \<Rightarrow> ((string \<times> string) \<times> string) option" where
  "match_source_alias s =
     Option.bind (match_lit ''source'' s) (\<lambda>t.
     Option.bind (match_lit '':'' (skip_ws t)) (\<lambda>u.
     Option.bind (match_ident is_word (skip_ws u)) (\<lambda>(name, v).
     Option.bind (skip_ws1 v) (\<lambda>w.
     Option.bind (match_lit ''is'' w) (\<lambda>x.
     Option.bind (skip_ws1 x) (\<lambda>y.
     map_option (\<lambda>(base, rest). ((name, base), rest)) (match_ident is_word y)))))))"

definition buildSourceAliasMap :: "string \<Rightarrow> (string \<times> string) list" where
  "buildSourceAliasMap query =
     foldl (\<lambda>aliasOf (name, base). AList.update name base aliasOf) []
       (all_matches match_source_alias query)"

text \<open>\<open>\p{L}\<close>, \<open>\p{N}\<close> and the underscore, on code units below 256.\<close>

definition is_unicode_word :: "char \<Rightarrow> bool" where
  "is_unicode_word c \<longleftrightarrow> is_word c \<or>
     (let n = (of_char c :: nat) in
      n \<in> {170, 178, 179, 181, 185, 186, 188, 189, 190} \<or> (192 \<le> n \<and> n \<noteq> 215 \<and> n \<noteq> 247))"

text \<open>\<open>(?:\s*\([^)]*\))?\<close>: an optional parameter list.\<close>

definition skip_params :: "string \<Rightarrow> string" where
  "skip_params s =
     (case match_lit ''('' (skip_ws s) of
        None \<Rightarrow> s
      | Some t \<Rightarrow>
          (case dropWhile (\<lambda>c. c \<noteq> CHR '')'') t of [] \<Rightarrow> s | _ # rest \<Rightarrow> rest))"

definition match_derivation :: "string \<Rightarrow> ((string \<times> string) \<times> string) option" where
  "match_derivation s =
     Option.bind (if prefix ''source'' s then Some (drop 6 s) else match_lit ''query'' s) (\<lambda>t.
     Option.bind (match_lit '':'' (skip_ws t)) (\<lambda>u.
     Option.bind (match_ident is_unicode_word (skip_ws u)) (\<lambda>(name, v).
     Option.bind (skip_ws1 (skip_params v)) (\<lambda>w.
     Option.bind (match_lit ''is'' w) (\<lambda>x.
     let y = skip_ws x; z = (case match_lit ''('' y of Some z \<Rightarrow> skip_ws z | None \<Rightarrow> y) in
     map_option (\<lambda>(base, rest). ((name, base), rest)) (match_ident is_unicode_word z))))))"

definition add_base :: "(string \<times> string list) list \<Rightarrow> string \<times> string \<Rightarrow> (string \<times> string list) list" where
  "add_base basesOf edge =
     (let (name, base) = edge;
          bases = (case map_of basesOf name of Some bs \<Rightarrow> bs | None \<Rightarrow> [])
      in AList.update name (if base \<in> set bases then bases else bases @ [base]) basesOf)"

definition buildDerivationBaseMap :: "string \<Rightarrow> (string \<times> string list) list" where
  "buildDerivationBaseMap text = foldl add_base [] (all_matches match_derivation text)"

subsection \<open>What the scans find\<close>

lemma dropWhile_length_le [simp]: "length (dropWhile p s) \<le> length s"
  by (rule length_dropWhile_le)

lemma match_lit_shorter: "match_lit p s = Some t \<Longrightarrow> length t \<le> length s"
  by (auto simp: match_lit_def split: if_splits)

lemma match_ident_shorter: "match_ident w s = Some (n, t) \<Longrightarrow> length t < length s"
proof (cases s)
  case (Cons c u)
  assume "match_ident w s = Some (n, t)"
  moreover have "length (tl (dropWhile p u)) \<le> length u" for p
    by (metis diff_le_self dropWhile_length_le le_trans length_tl)
  ultimately show ?thesis
    using Cons dropWhile_length_le [of w u]
    by (auto simp: match_ident_def Let_def le_imp_less_Suc split: if_splits)
qed (simp add: match_ident_def)

lemma skip_ws_shorter: "length (skip_ws s) \<le> length s"
  by (simp add: skip_ws_def)

lemma skip_ws1_shorter: "skip_ws1 s = Some t \<Longrightarrow> length t \<le> length s"
  by (auto simp: skip_ws1_def split: if_splits)

lemma match_source_alias_shorter:
  "match_source_alias s = Some (e, rest) \<Longrightarrow> length rest < length s"
  unfolding match_source_alias_def
  by (auto simp: bind_eq_Some_conv dest!: match_lit_shorter match_ident_shorter skip_ws1_shorter)
     (meson le_less_trans less_imp_le less_le_trans skip_ws_shorter le_trans)

definition bases_of :: "(string \<times> string list) list \<Rightarrow> string \<Rightarrow> string set" where
  "bases_of al n = (case map_of al n of Some bs \<Rightarrow> set bs | None \<Rightarrow> {})"

lemma bases_of_add_base:
  "bases_of (add_base al (m, b)) n = bases_of al n \<union> (if m = n then {b} else {})"
  by (auto simp: bases_of_def add_base_def update_conv' Let_def split: option.splits)

lemma bases_of_foldl:
  "bases_of (foldl add_base al es) n = bases_of al n \<union> {b. (n, b) \<in> set es}"
proof (induction es arbitrary: al)
  case (Cons e es)
  then show ?case by (cases e) (auto simp: bases_of_add_base)
qed simp

lemma derivation_bases:
  "bases_of (buildDerivationBaseMap text) name = {base. (name, base) \<in> set (all_matches match_derivation text)}"
  by (simp add: buildDerivationBaseMap_def bases_of_foldl) (simp add: bases_of_def)

lemma alias_last_wins:
  "map_of (foldl (\<lambda>m (name, base). AList.update name base m) al es) n
     = (case map_of (rev es) n of Some b \<Rightarrow> Some b | None \<Rightarrow> map_of al n)"
  by (induction es arbitrary: al)
     (auto simp: update_conv' map_add_def split: option.splits)

lemma plain_text:
  "\<forall>c \<in> set s. c \<notin> {CHR ''-'', CHR ''/'', backtick, squote, dquote} \<Longrightarrow>
   scan_closed b s \<and> stripMalloyCommentsAndLiterals s = s"
proof (induction s)
  case (Cons c s)
  then have "plain_at c s" by (simp add: plain_at_def)
  with Cons show ?case by (simp add: strip_plain scan_closed_steps)
qed simp

lemma word_plain: "is_word c \<Longrightarrow> c \<notin> {CHR ''-'', CHR ''/'', backtick, squote, dquote}"
  by (auto simp: char_class_defs char_defs)

lemma word_not_space: "is_word c \<Longrightarrow> \<not> js_space c"
  by (auto simp: char_class_defs Let_def)

lemma word_unicode: "is_word c \<Longrightarrow> is_unicode_word c"
  by (simp add: is_unicode_word_def)

lemma match_ident_word:
  assumes "n \<noteq> []" and "\<forall>c \<in> set n. is_word c" and "r = [] \<or> \<not> is_unicode_word (hd r)"
  shows "match_ident is_unicode_word (n @ r) = Some (n, r)"
proof -
  obtain c m where n: "n = c # m" using assms(1) by (cases n) auto
  have "takeWhile is_unicode_word (n @ r) = n" "dropWhile is_unicode_word (n @ r) = r"
    using assms by (cases r; auto simp: word_unicode takeWhile_append dropWhile_append)+
  moreover have "c \<noteq> backtick" "is_unicode_word c"
    using assms(2) n word_plain [of c] by (auto simp: word_unicode)
  ultimately show ?thesis by (simp add: match_ident_def n)
qed

lemma skip_ws_word: "n \<noteq> [] \<Longrightarrow> \<forall>c \<in> set n. is_word c \<Longrightarrow> skip_ws (n @ r) = n @ r"
  by (cases n) (auto simp: skip_ws_def word_not_space)

lemma skip_lits [simp]:
  "skip_ws (CHR '' '' # s) = skip_ws s" "skip_ws1 (CHR '' '' # s) = Some (skip_ws s)"
  "skip_ws (CHR ''i'' # s) = CHR ''i'' # s" "skip_ws (CHR '':'' # s) = CHR '':'' # s"
  "skip_ws (nl # s) = skip_ws s"
  by (simp_all add: skip_ws_def skip_ws1_def js_space_def nl_def)

lemma skip_ws_blank: "skip_ws (blank_text c @ t) = skip_ws t"
proof -
  have "js_space d" if "d \<in> {nl, CHR '' ''}" for d
    using that by (auto simp: js_space_def nl_def)
  then show ?thesis
    using set_blank_text [of c] by (auto simp: skip_ws_def dropWhile_append1 intro!: dropWhile_append2)
qed

text \<open>What an author writes between two tokens: white space and comments, which are closed and blanked.\<close>

definition gap :: "string \<Rightarrow> bool" where
  "gap g \<longleftrightarrow> scan_closed False g \<and> list_all js_space (stripMalloyCommentsAndLiterals g)"

lemma skip_ws_space: "list_all js_space g \<Longrightarrow> skip_ws (g @ t) = skip_ws t"
  by (auto simp: skip_ws_def list_all_iff intro!: dropWhile_append2)

lemma skip_ws1_space: "list_all js_space g \<Longrightarrow> g \<noteq> [] \<Longrightarrow> skip_ws1 (g @ t) = Some (skip_ws t)"
  using skip_ws_space [of g t] by (cases g) (auto simp: skip_ws1_def skip_ws_def)

lemma space_no_word:
  assumes "list_all js_space g" and "g \<noteq> []"
  shows "\<not> is_unicode_word (hd (g @ t))"
proof -
  from assms have "js_space (hd (g @ t))" by (cases g) auto
  then show ?thesis by (auto simp: is_unicode_word_def char_class_defs Let_def)
qed

lemma match_derivation_spaced:
  assumes kw: "kw \<in> {''source'', ''query''}" and n: "n \<noteq> []" "\<forall>c \<in> set n. is_word c" and b: "b \<noteq> []" "\<forall>c \<in> set b. is_word c"
    and g: "list_all js_space g1" "list_all js_space g2" "list_all js_space g3" "g3 \<noteq> []" "list_all js_space g4"
    and r: "r = [] \<or> \<not> is_unicode_word (hd r)"
  shows "match_derivation (kw @ g1 @ '':'' @ g2 @ n @ g3 @ ''is'' @ g4 @ b @ r) = Some ((n, b), r)"
proof -
  have 1: "match_ident is_unicode_word (n @ g3 @ u) = Some (n, g3 @ u)" for u
    by (rule match_ident_word [OF n]) (use space_no_word [OF g(3,4)] in blast)
  have 2: "skip_ws (n @ u) = n @ u" "skip_ws (b @ u) = b @ u" for u
    using n b by (simp_all add: skip_ws_word)
  have 3: "skip_params (g3 @ ''is'' @ u) = g3 @ ''is'' @ u" for u
    by (simp add: skip_params_def match_lit_def skip_ws_space [OF g(3)])
  have "\<not> prefix ''('' (b @ r)"
    using b by (cases b) (auto simp: char_class_defs)
  then show ?thesis
    using kw 1 2 3 match_ident_word [OF b r] skip_ws_space [OF g(1)] skip_ws_space [OF g(2)] skip_ws1_space [OF g(3,4)] skip_ws_space [OF g(5)]
    by (auto simp: match_derivation_def match_lit_def Let_def)
qed

text \<open>Text without a keyword of a declaration has no match that starts in it.\<close>

lemma keyword_straddles:
  assumes "p \<in> {''source'', ''query''}" and "kw \<in> {''source'', ''query''}" and "v \<noteq> []" and "\<not> prefix p v"
  shows "\<not> prefix p (v @ kw @ x)"
  using assms by (auto simp: prefix_append append_eq_Cons_conv Cons_eq_append_conv)

lemma all_matches_skip:
  assumes "\<forall>u v. p = u @ v \<and> v \<noteq> [] \<longrightarrow> f (v @ t) = None"
  shows "all_matches f (p @ t) = all_matches f t"
  using assms
proof (induction p)
  case (Cons c p)
  have "f ((c # p) @ t) = None" using Cons.prems by (metis append_Nil list.distinct(1))
  moreover have "\<forall>u v. p = u @ v \<and> v \<noteq> [] \<longrightarrow> f (v @ t) = None" using Cons.prems by (metis append_Cons)
  ultimately show ?case using Cons.IH by simp
qed simp

lemma no_match_before:
  assumes "\<not> sublist ''source'' p" and "\<not> sublist ''query'' p" and "kw \<in> {''source'', ''query''}"
  shows "all_matches match_derivation (p @ kw @ x) = all_matches match_derivation (kw @ x)"
proof (rule all_matches_skip, intro allI impI)
  fix u v assume v: "p = u @ v \<and> v \<noteq> []"
  have "\<not> prefix k v" if "k \<in> {''source'', ''query''}" for k
    using that assms(1,2) v by (auto simp: sublist_append prefix_imp_sublist)
  then have "\<not> prefix k (v @ kw @ x)" if "k \<in> {''source'', ''query''}" for k
    using keyword_straddles [OF that assms(3)] v that by blast
  then show "match_derivation (v @ kw @ x) = None"
    by (simp add: match_derivation_def match_lit_def)
qed

subsection \<open>Properties\<close>

text \<open>
  Blanking is space-for-character: the result has the length and the line structure of the
  input, every character of it is the input's or a space, and running it again changes nothing.
\<close>

theorem strip_is_mask:
  "list_all2 masks text (stripMalloyCommentsAndLiterals text)
   \<and> length (stripMalloyCommentsAndLiterals text) = length text
   \<and> map (\<lambda>c. c = nl) (stripMalloyCommentsAndLiterals text) = map (\<lambda>c. c = nl) text
   \<and> stripMalloyCommentsAndLiterals (stripMalloyCommentsAndLiterals text)
        = stripMalloyCommentsAndLiterals text"
proof -
  have "map (\<lambda>c. c = nl) t = map (\<lambda>c. c = nl) s" if "list_all2 masks s t" for s t
    using that by (induction rule: list_all2_induct) (auto simp: masks_def nl_def)
  then show ?thesis
    using masks_strip [of "text"] by (simp add: strip_strip list_all2_lengthD)
qed

text \<open>
  C20: A comment cannot hide a derivation from the gate: whatever white space, line comments and block comments
  a caller writes between the words of its first declaration of a source or a query, and whatever precedes
  it, comments, literals and quoted names included, the scan over the blanked text records the edge.
\<close>

theorem comment_cannot_hide_derivation:
  assumes "kw \<in> {''source'', ''query''}"
    and "name \<noteq> []" "\<forall>c \<in> set name. is_word c" "base \<noteq> []" "\<forall>c \<in> set base. is_word c"
    and "gap g1" "gap g2" "gap g3" "g3 \<noteq> []" "gap g4" "g4 \<noteq> []"
    and "rest = [] \<or> \<not> is_unicode_word (hd rest)"
    and "scan_closed False before" "\<not> sublist ''source'' (stripMalloyCommentsAndLiterals before)"
      "\<not> sublist ''query'' (stripMalloyCommentsAndLiterals before)"
  shows "base \<in> bases_of (buildDerivationBaseMap (stripMalloyCommentsAndLiterals
           (before @ kw @ g1 @ '':'' @ g2 @ name @ g3 @ ''is'' @ g4 @ base @ rest))) name"
proof -
  let ?strip = stripMalloyCommentsAndLiterals
  have word: "scan_closed False w \<and> ?strip w = w" if "\<forall>c \<in> set w. is_word c" for w
    by (rule plain_text) (use that word_plain in blast)
  have ends: "last w \<notin> set ''-/''" if "w \<noteq> []" "\<forall>c \<in> set w. is_word c" for w
    using that word_plain [of "last w"] by auto
  have starts: "hd w \<notin> set ''-/*''" if "w \<noteq> []" "\<forall>c \<in> set w. is_word c" for w
  proof -
    have "is_word (hd w)" using that by (cases w) auto
    then show ?thesis by (auto simp: char_class_defs)
  qed
  have after: "?strip (w @ t) = w @ ?strip t" if "w \<noteq> []" "\<forall>c \<in> set w. is_word c" for w t
    using strip_append [of False w t] word [OF that(2)] ends [OF that] by (simp add: junction_ok_def)
  have over: "?strip (g @ w @ t) = ?strip g @ ?strip (w @ t)" if "gap g" "w \<noteq> []" "hd w \<notin> set ''-/*''" for g w t
    using strip_append [of False g "w @ t"] that by (auto simp: junction_ok_def gap_def)
  have kw: "kw \<noteq> []" "\<forall>c \<in> set kw. is_word c" "hd kw \<notin> set ''-/*''" "\<forall>c \<in> set ''is''. is_word c"
    using assms(1) by (auto simp: char_class_defs)
  have colon: "?strip ('':'' @ t) = '':'' @ ?strip t" for t
    using strip_append [of False "'':''" t] plain_text [of "'':''"] by (simp add: junction_ok_def char_defs)
  have "?strip (before @ kw @ g1 @ '':'' @ g2 @ name @ g3 @ ''is'' @ g4 @ base @ rest)
      = ?strip before @ ?strip (kw @ g1 @ '':'' @ g2 @ name @ g3 @ ''is'' @ g4 @ base @ rest)"
    using strip_append [OF assms(13)] kw by (simp add: junction_ok_def)
  also have "?strip (kw @ g1 @ '':'' @ g2 @ name @ g3 @ ''is'' @ g4 @ base @ rest)
      = kw @ ?strip g1 @ '':'' @ ?strip g2 @ name @ ?strip g3 @ ''is'' @ ?strip g4 @ base @ ?strip rest"
    using after [OF kw(1,2)] over [OF assms(6), of "'':''"] colon over [OF assms(7), of name] after [OF assms(2,3)]
      over [OF assms(8), of "''is''"] after [OF _ kw(4)] over [OF assms(10), of base] after [OF assms(4,5)]
      starts [OF assms(2,3)] starts [OF assms(4,5)] by (simp add: assms(2,4))
  finally have blanked: "?strip (before @ kw @ g1 @ '':'' @ g2 @ name @ g3 @ ''is'' @ g4 @ base @ rest)
      = ?strip before @ kw @ ?strip g1 @ '':'' @ ?strip g2 @ name @ ?strip g3 @ ''is'' @ ?strip g4 @ base @ ?strip rest" .
  have "?strip rest = [] \<or> \<not> is_unicode_word (hd (?strip rest))"
    using assms(12) strip_hd [of rest] by (auto simp: is_unicode_word_def char_class_defs)
  moreover have "list_all js_space (?strip g)" if "gap g" for g using that by (simp add: gap_def)
  ultimately have "match_derivation (kw @ ?strip g1 @ '':'' @ ?strip g2 @ name @ ?strip g3 @ ''is'' @ ?strip g4 @ base @ ?strip rest)
      = Some ((name, base), ?strip rest)"
    using assms by (intro match_derivation_spaced) simp_all
  moreover obtain c t where "kw = c # t" using kw(1) by (cases kw) auto
  ultimately have "(name, base) \<in> set (all_matches match_derivation
      (kw @ ?strip g1 @ '':'' @ ?strip g2 @ name @ ?strip g3 @ ''is'' @ ?strip g4 @ base @ ?strip rest))"
    by simp
  then show ?thesis unfolding derivation_bases blanked using no_match_before [OF assms(14,15,1)] by simp
qed

theorem comment_cannot_hide_derivation_witness:
  "''protected'' \<in> bases_of (buildDerivationBaseMap (stripMalloyCommentsAndLiterals
     (''-- source: x is y'' @ nl # ''run: q'' @ [nl] @ ''source'' @ '' /* : */ '' @ '':'' @ [] @ ''mine'' @ '' '' @ ''is'' @ (''-- it'' @ [nl])
       @ ''protected'' @ '' extend''))) ''mine''"
proof -
  have gaps: "gap '' /* : */ ''" "gap []" "gap '' ''" "gap (''-- it'' @ [nl])" by code_simp+
  have before: "scan_closed False (''-- source: x is y'' @ nl # ''run: q'' @ [nl])"
    "\<not> sublist ''source'' (stripMalloyCommentsAndLiterals (''-- source: x is y'' @ nl # ''run: q'' @ [nl]))"
    "\<not> sublist ''query'' (stripMalloyCommentsAndLiterals (''-- source: x is y'' @ nl # ''run: q'' @ [nl]))" by code_simp+
  have "\<forall>c \<in> set ''mine''. is_word c" "\<forall>c \<in> set ''protected''. is_word c" "\<not> is_unicode_word (CHR '' '')"
    by (simp_all add: char_class_defs is_unicode_word_def)
  from comment_cannot_hide_derivation [OF _ _ this(1) _ this(2) gaps(1,2,3) _ gaps(4) _ _ before, of "''source''" "'' extend''"] this(3)
  show ?thesis by simp
qed

text \<open>
  The derivation map keeps every base a name is declared with: its bases are exactly those
  of all matched declarations, in no case only the last one, so one more declaration can only
  add a base to check.
\<close>

theorem derivation_map_keeps_every_base:
  "bases_of (buildDerivationBaseMap text) name
     = {base. (name, base) \<in> set (all_matches match_derivation text)}
   \<and> map_of (buildSourceAliasMap text) name
     = map_of (rev (all_matches match_source_alias text)) name"
  by (simp add: derivation_bases buildSourceAliasMap_def alias_last_wins split: option.splits)

end
