(* ===== verification/Filters.thy ===== *)
theory Filters
  imports QueryText
begin

text \<open>
  Source filters (\<open>packages/server/src/service/filter.ts\<close>): parsing of \<open>#(filter)\<close> annotations,
  the \<open>where:\<close> clause built from the values a caller supplies, and its injection into the query.

  The lemmas show that a supplied value cannot leave the literal it is written into, that a
  required filter is enforced, and that the injected refinement is not swallowed by the
  caller's own query text.
\<close>

subsection \<open>Data\<close>

datatype FilterType = Equal | In | Like | Greater_than | Less_than

record FilterDefinition =
  fname :: string
  dimension :: string
  ftype :: FilterType
  implicit :: bool
  required :: bool

text \<open>A filter value is a string or an array of strings.\<close>

datatype filter_value = Scalar string | Multi "string list"

type_synonym FilterParams = "string \<rightharpoonup> filter_value"

text \<open>The errors thrown, with the values their messages quote; the last is reading \<open>[0]\<close> of an
  empty array and using it as a string.\<close>

datatype filter_error =
    InvalidFilterType string
  | UnknownFilterParameter string
  | UnknownFilterFlag string
  | MissingDimension
  | MissingType
  | FilterValidationError string string
  | TypeError

definition VALID_FILTER_TYPES :: "(string \<times> FilterType) list" where
  "VALID_FILTER_TYPES =
     [(''equal'', Equal), (''in'', In), (''like'', Like), (''greater_than'', Greater_than),
      (''less_than'', Less_than)]"

definition ANNOTATION_PREFIX :: string where
  "ANNOTATION_PREFIX = ''#(filter)''"

subsection \<open>Annotation parsing\<close>

text \<open>The tokenizer's loop: \<open>quote\<close> is the open quote character, if any.\<close>

fun tokenize_loop :: "string \<Rightarrow> char option \<Rightarrow> string \<Rightarrow> string list \<Rightarrow> string list" where
  "tokenize_loop [] inQuote current tokens =
     (if current \<noteq> [] then tokens @ [current] else tokens)"
| "tokenize_loop (ch # input) (Some quoteChar) current tokens =
     (if ch = quoteChar then tokenize_loop input None current tokens
      else tokenize_loop input (Some quoteChar) (current @ [ch]) tokens)"
| "tokenize_loop (ch # input) None current tokens =
     (if ch = dquote \<or> ch = squote then tokenize_loop input (Some ch) current tokens
      else if ch = CHR '' '' \<or> ch = CHR 0x09 then
        (if current \<noteq> [] then tokenize_loop input None [] (tokens @ [current])
         else tokenize_loop input None current tokens)
      else tokenize_loop input None (current @ [ch]) tokens)"

definition tokenize :: "string \<Rightarrow> string list" where
  "tokenize input = tokenize_loop input None [] []"

text \<open>The variables of the loop over the tokens.\<close>

record annotation_vars =
  v_name :: "string option"
  v_dimension :: "string option"
  v_type :: "FilterType option"
  v_implicit :: bool
  v_required :: bool

definition parse_token :: "string \<Rightarrow> annotation_vars \<Rightarrow> filter_error + annotation_vars" where
  "parse_token token v =
     (case index_of (CHR ''='') token of
        Some eqIndex \<Rightarrow>
          (let key = js_lower (take eqIndex token); val = drop (Suc eqIndex) token in
           if key = ''name'' then Inr (v\<lparr>v_name := Some val\<rparr>)
           else if key = ''dimension'' then Inr (v\<lparr>v_dimension := Some val\<rparr>)
           else if key = ''type'' then
             (case map_of VALID_FILTER_TYPES val of
                None \<Rightarrow> Inl (InvalidFilterType val)
              | Some t \<Rightarrow> Inr (v\<lparr>v_type := Some t\<rparr>))
           else Inl (UnknownFilterParameter key))
      | None \<Rightarrow>
          (let flag = js_lower token in
           if flag = ''implicit'' then Inr (v\<lparr>v_implicit := True\<rparr>)
           else if flag = ''required'' then Inr (v\<lparr>v_required := True\<rparr>)
           else Inl (UnknownFilterFlag token)))"

fun parse_tokens :: "string list \<Rightarrow> annotation_vars \<Rightarrow> filter_error + annotation_vars" where
  "parse_tokens [] v = Inr v"
| "parse_tokens (t # ts) v = bind_r (parse_token t v) (parse_tokens ts)"

definition no_vars :: annotation_vars where
  "no_vars = \<lparr>v_name = None, v_dimension = None, v_type = None, v_implicit = False, v_required = False\<rparr>"

definition parseFilterAnnotation :: "string \<Rightarrow> filter_error + FilterDefinition option" where
  "parseFilterAnnotation annotation =
     (let trimmed = js_trim annotation in
      if \<not> prefix ANNOTATION_PREFIX trimmed then Inr None
      else bind_r (parse_tokens (tokenize (js_trim (drop (length ANNOTATION_PREFIX) trimmed))) no_vars)
        (\<lambda>v. case v_dimension v of
               None \<Rightarrow> Inl MissingDimension
             | Some dim \<Rightarrow>
                 if dim = [] then Inl MissingDimension
                 else (case v_type v of
                         None \<Rightarrow> Inl MissingType
                       | Some t \<Rightarrow>
                           Inr (Some \<lparr>fname = (case v_name v of Some n \<Rightarrow> n | None \<Rightarrow> dim),
                                      dimension = dim, ftype = t,
                                      implicit = v_implicit v, required = v_required v\<rparr>))))"

fun parse_filters_loop ::
  "string list \<Rightarrow> (string \<times> FilterDefinition) list \<Rightarrow> filter_error + (string \<times> FilterDefinition) list"
where
  "parse_filters_loop [] byName = Inr byName"
| "parse_filters_loop (a # as) byName =
     bind_r (parseFilterAnnotation a)
       (\<lambda>parsed. case parsed of
          None \<Rightarrow> parse_filters_loop as byName
        | Some d \<Rightarrow> parse_filters_loop as (AList.update (fname d) d byName))"

definition parseFilters :: "string list \<Rightarrow> filter_error + FilterDefinition list" where
  "parseFilters annotations =
     bind_r (parse_filters_loop annotations []) (\<lambda>byName. Inr (map snd byName))"

subsection \<open>Clause generation\<close>

definition escapeMalloyString :: "string \<Rightarrow> string" where
  "escapeMalloyString v =
     replace_all squote [backslash, squote] (replace_all backslash [backslash, backslash] v)"

definition isBooleanLiteral :: "string \<Rightarrow> bool" where
  "isBooleanLiteral v \<longleftrightarrow> (let lower = js_lower v in lower = ''true'' \<or> lower = ''false'')"

definition iso_date_classes :: "(char \<Rightarrow> bool) list" where
  "iso_date_classes =
     replicate 4 is_digit @ [(=) (CHR ''-'')] @ replicate 2 is_digit @ [(=) (CHR ''-'')] @
     replicate 2 is_digit"

definition iso_timestamp_classes :: "(char \<Rightarrow> bool) list" where
  "iso_timestamp_classes =
     iso_date_classes @ [\<lambda>c. c = CHR ''T'' \<or> c = CHR '' ''] @ replicate 2 is_digit @
     [(=) (CHR '':'')] @ replicate 2 is_digit"

definition isDateLiteral :: "string \<Rightarrow> bool" where
  "isDateLiteral v \<longleftrightarrow>
     (match_classes iso_date_classes v \<and> length v = length iso_date_classes)
     \<or> match_classes iso_timestamp_classes v"

definition malloyLiteral :: "string \<Rightarrow> string" where
  "malloyLiteral v =
     (if isBooleanLiteral v then js_lower v
      else if isDateLiteral v then ''@'' @ take 10 v
      else [squote] @ escapeMalloyString v @ [squote])"

text \<open>\<open>Array.isArray(value) ? value[0] : value\<close>, then used as a string.\<close>

definition value_head :: "filter_value \<Rightarrow> filter_error + string" where
  "value_head val =
     (case val of Scalar v \<Rightarrow> Inr v | Multi [] \<Rightarrow> Inl TypeError | Multi (v # _) \<Rightarrow> Inr v)"

definition value_list :: "filter_value \<Rightarrow> string list" where
  "value_list val = (case val of Scalar v \<Rightarrow> [v] | Multi vs \<Rightarrow> vs)"

definition like_pattern :: "string \<Rightarrow> string" where
  "like_pattern v =
     (let escaped = escapeMalloyString (js_lower v) in
      if prefix ''%'' escaped \<or> suffix ''%'' escaped then escaped else ''%'' @ escaped @ ''%'')"

definition buildPredicate :: "FilterDefinition \<Rightarrow> filter_value \<Rightarrow> filter_error + string" where
  "buildPredicate f val =
     (let dim = [backtick] @ dimension f @ [backtick] in
      case ftype f of
        Equal \<Rightarrow> bind_r (value_head val) (\<lambda>v. Inr (dim @ '' = '' @ malloyLiteral v))
      | In \<Rightarrow>
          (let values = value_list val in
           if length values = 1 then Inr (dim @ '' = '' @ malloyLiteral (hd values))
           else Inr (''('' @ join '' or '' (map (\<lambda>v. dim @ '' = '' @ malloyLiteral v) values) @ '')''))
      | Like \<Rightarrow> bind_r (value_head val)
          (\<lambda>v. Inr (''lower('' @ dim @ '') ~ '' @ [squote] @ like_pattern v @ [squote]))
      | Greater_than \<Rightarrow> bind_r (value_head val) (\<lambda>v. Inr (dim @ '' > '' @ malloyLiteral v))
      | Less_than \<Rightarrow> bind_r (value_head val) (\<lambda>v. Inr (dim @ '' < '' @ malloyLiteral v)))"

definition hasValue :: "filter_value option \<Rightarrow> bool" where
  "hasValue val =
     (case val of None \<Rightarrow> False | Some (Scalar v) \<Rightarrow> v \<noteq> [] | Some (Multi vs) \<Rightarrow> vs \<noteq> [])"

fun build_predicates :: "FilterDefinition list \<Rightarrow> FilterParams \<Rightarrow> filter_error + string list" where
  "build_predicates [] params = Inr []"
| "build_predicates (f # fs) params =
     (let val = params (fname f) in
      if \<not> hasValue val then
        (if required f then Inl (FilterValidationError (fname f) (dimension f))
         else build_predicates fs params)
      else bind_r (buildPredicate f (the val)) (\<lambda>p.
             bind_r (build_predicates fs params) (\<lambda>ps. Inr (p # ps))))"

definition buildFilterClause :: "FilterDefinition list \<Rightarrow> FilterParams \<Rightarrow> filter_error + string" where
  "buildFilterClause filters params =
     bind_r (build_predicates filters params)
       (\<lambda>predicates. Inr (if predicates = [] then [] else join '' and '' predicates))"

definition injectFilterRefinement :: "string \<Rightarrow> string \<Rightarrow> string" where
  "injectFilterRefinement query filterClause =
     (if filterClause = [] then query
      else js_trim_end query @ [nl] @ ''+ {where: '' @ filterClause @ ''}'')"

subsection \<open>A value stays inside its literal\<close>

text \<open>How Malloy reads a literal after its opening quote: a backslash makes the next character
  literal, the quote character closes.\<close>

fun read_literal :: "char \<Rightarrow> string \<Rightarrow> (string \<times> string) option" where
  "read_literal q [] = None"
| "read_literal q [c] = (if c = q then Some ([], []) else None)"
| "read_literal q (c # d # s) =
     (if c = q then Some ([], d # s)
      else if c = backslash then map_option (apfst ((#) d)) (read_literal q s)
      else map_option (apfst ((#) c)) (read_literal q (d # s)))"

lemma escape_simps [simp]:
  "escapeMalloyString [] = []"
  "escapeMalloyString (c # v) =
     (if c = squote then [backslash, squote] else if c = backslash then [backslash, backslash] else [c])
     @ escapeMalloyString v"
  by (simp_all add: escapeMalloyString_def char_defs)

lemma read_literal_Cons:
  "c \<noteq> q \<Longrightarrow> c \<noteq> backslash \<Longrightarrow> read_literal q (c # s) = map_option (apfst ((#) c)) (read_literal q s)"
  by (cases s) auto

lemma literal_body_Cons:
  "c \<noteq> q \<Longrightarrow> c \<noteq> backslash \<Longrightarrow> literal_body q (c # s) = apfst ((#) c) (literal_body q s)"
  by (cases s) auto

lemma squote_neq_backslash [simp]: "squote \<noteq> backslash" "backslash \<noteq> squote"
  by (simp_all add: char_defs)

lemma read_literal_escape: "read_literal squote (escapeMalloyString v @ squote # rest) = Some (v, rest)"
proof (induction v)
  case Nil
  show ?case by (cases rest) auto
qed (simp add: read_literal_Cons)

lemma literal_body_escape:
  "literal_body squote (escapeMalloyString v @ squote # rest) = (escapeMalloyString v, squote # rest)"
proof (induction v)
  case Nil
  show ?case by (cases rest) auto
qed (simp add: literal_body_Cons)

subsection \<open>Every predicate is closed text\<close>

lemma closed_cat:
  "scan_closed False s \<Longrightarrow> scan_closed False t \<Longrightarrow> t = [] \<or> hd t \<notin> set ''-/*'' \<Longrightarrow>
   scan_closed False (s @ t)"
  by (subst scan_closed_append) (auto simp: junction_ok_def)

lemma closed_plain:
  "\<forall>c \<in> set s. c \<notin> {CHR ''-'', CHR ''/'', backtick, squote, dquote} \<Longrightarrow> scan_closed False s"
  by (simp add: plain_text)

lemma closed_quoted: "scan_closed False (squote # escapeMalloyString v @ [squote])"
  using literal_body_escape [of v "[]"] by (simp add: scan_closed_steps)

lemma closed_backticked:
  assumes "backtick \<notin> set d"
  shows "scan_closed False (backtick # d @ [backtick])"
proof -
  have "split_backtick (d @ [backtick]) = Some (d @ [backtick], [])"
    using assms by (induction d) auto
  then show ?thesis by (simp add: scan_closed_steps)
qed

lemma digit_plain: "is_digit c \<Longrightarrow> c \<notin> {CHR ''-'', CHR ''/'', backtick, squote, dquote}"
  by (auto simp: is_digit_def char_defs)

lemma dash_digit_plain: "is_digit d \<Longrightarrow> plain_at (CHR ''-'') (d # s)"
  using digit_plain [of d] by (auto simp: plain_at_def opens_line_def opens_block_def char_defs)

lemma digit_plain_at: "is_digit c \<Longrightarrow> plain_at c s"
  using digit_plain [of c] by (auto simp: plain_at_def)

lemma match_classes_nth:
  "match_classes ps s \<Longrightarrow> i < length ps \<Longrightarrow> i < length s \<and> (ps ! i) (s ! i)"
  by (induction ps s arbitrary: i rule: match_classes.induct) (auto simp: nth_Cons split: nat.splits)

lemma iso_date_list:
  "iso_date_classes = [is_digit, is_digit, is_digit, is_digit, (=) (CHR ''-''), is_digit, is_digit,
     (=) (CHR ''-''), is_digit, is_digit]"
  by (simp add: iso_date_classes_def numeral_eq_Suc)

lemma take_10: "10 \<le> length v \<Longrightarrow>
    take 10 v = [v ! 0, v ! 1, v ! 2, v ! 3, v ! 4, v ! 5, v ! 6, v ! 7, v ! 8, v ! 9]"
  by (simp add: list_eq_iff_nth_eq nth_Cons' less_Suc_eq numeral_eq_Suc)

lemma iso_date_shape:
  assumes "match_classes iso_date_classes v"
  shows "take 10 v = [v ! 0, v ! 1, v ! 2, v ! 3, CHR ''-'', v ! 5, v ! 6, CHR ''-'', v ! 8, v ! 9]"
    and "\<forall>i \<in> {0, 1, 2, 3, 5, 6, 8, 9}. is_digit (v ! i)"
proof -
  note nth = match_classes_nth [OF assms, unfolded iso_date_list]
  have "10 \<le> length v" using match_classes_length [OF assms] by (simp add: iso_date_list)
  then show "take 10 v = [v ! 0, v ! 1, v ! 2, v ! 3, CHR ''-'', v ! 5, v ! 6, CHR ''-'', v ! 8, v ! 9]"
    using nth [of 4] nth [of 7] by (simp add: take_10)
  show "\<forall>i \<in> {0, 1, 2, 3, 5, 6, 8, 9}. is_digit (v ! i)"
    using nth [of 0] nth [of 1] nth [of 2] nth [of 3] nth [of 5] nth [of 6] nth [of 8] nth [of 9]
    by simp
qed

lemma match_classes_append:
  "match_classes (ps @ qs) s \<Longrightarrow> match_classes ps s"
  by (induction ps s rule: match_classes.induct) auto

lemma closed_step: "plain_at c s \<Longrightarrow> scan_closed b s \<Longrightarrow> scan_closed b (c # s)"
  by (simp add: scan_closed_steps)

lemma closed_date:
  assumes "isDateLiteral v"
  shows "scan_closed False (CHR ''@'' # take 10 v)"
proof -
  have m: "match_classes iso_date_classes v"
    using assms by (auto simp: isDateLiteral_def iso_timestamp_classes_def dest: match_classes_append)
  have "plain_at (CHR ''@'') s" for s by (simp add: plain_at_def char_defs)
  then show ?thesis
    unfolding iso_date_shape(1) [OF m] using iso_date_shape(2) [OF m]
    by (auto intro!: closed_step simp: digit_plain_at dash_digit_plain)
qed

text \<open>A fragment: closed, nonempty text that cannot complete a comment opener before it.\<close>

definition frag :: "string \<Rightarrow> bool" where
  "frag s \<longleftrightarrow> scan_closed False s \<and> s \<noteq> [] \<and> hd s \<notin> set ''-/*''"

lemma frag_cat: "frag s \<Longrightarrow> frag t \<Longrightarrow> frag (s @ t)"
  unfolding frag_def by (metis append_is_Nil_conv closed_cat hd_append2)

lemma frag_closed: "frag s \<Longrightarrow> scan_closed False s"
  by (simp add: frag_def)

lemma frag_join: "ws \<noteq> [] \<Longrightarrow> (\<And>w. w \<in> set ws \<Longrightarrow> frag w) \<Longrightarrow> frag sep \<Longrightarrow> frag (join sep ws)"
  by (induction ws rule: induct_list012) (simp_all add: frag_cat)

lemma frag_plain:
  assumes "s \<noteq> []" and "hd s \<noteq> CHR ''*''"
    and "\<forall>c \<in> set s. c \<notin> {CHR ''-'', CHR ''/'', backtick, squote, dquote}"
  shows "frag s"
proof -
  have "hd s \<in> set s" using assms(1) by simp
  with assms(3) have "hd s \<noteq> CHR ''-''" "hd s \<noteq> CHR ''/''" by blast+
  with assms show ?thesis by (simp add: frag_def closed_plain)
qed

lemma frag_words:
  "frag '' = ''" "frag '' > ''" "frag '' < ''" "frag '' or ''" "frag '' and ''" "frag ''(''" "frag '')''"
  "frag ''()''" "frag ''true''" "frag ''false''" "frag ''lower(''" "frag '') ~ ''" "frag ''}''"
  by (rule frag_plain; simp add: char_defs)+

lemma frag_quoted: "frag ([squote] @ escapeMalloyString v @ [squote])"
  using closed_quoted [of v] by (simp add: frag_def squote_def)

lemma frag_backticked: "backtick \<notin> set d \<Longrightarrow> frag ([backtick] @ d @ [backtick])"
  using closed_backticked [of d] by (simp add: frag_def backtick_def)

lemma frag_literal: "frag (malloyLiteral v)"
proof -
  have "isDateLiteral v \<Longrightarrow> frag (''@'' @ take 10 v)"
    using closed_date [of v] by (simp add: frag_def)
  then show ?thesis
    using frag_quoted [of v] frag_words
    by (auto simp: malloyLiteral_def isBooleanLiteral_def Let_def)
qed

lemma escape_append: "escapeMalloyString (s @ t) = escapeMalloyString s @ escapeMalloyString t"
  by (induction s) simp_all

lemma like_pattern_escaped: "\<exists>w. like_pattern v = escapeMalloyString w"
proof -
  have pc: "escapeMalloyString ''%'' = ''%''" by (simp add: char_defs)
  have "like_pattern v = escapeMalloyString (js_lower v)
      \<or> like_pattern v = escapeMalloyString (''%'' @ js_lower v @ ''%'')"
    unfolding escape_append pc by (simp only: like_pattern_def Let_def) (simp split: if_split)
  then show ?thesis by blast
qed

lemma frag_predicate:
  assumes "buildPredicate f val = Inr p" and "backtick \<notin> set (dimension f)"
  shows "frag p"
proof -
  let ?dim = "[backtick] @ dimension f @ [backtick]"
  have dim: "frag ?dim" by (rule frag_backticked [OF assms(2)])
  have cmp: "frag op \<Longrightarrow> frag (?dim @ op @ malloyLiteral v)" for op v
    by (rule frag_cat [OF dim frag_cat [OF _ frag_literal]])
  show ?thesis
  proof (cases "ftype f")
    case In
    let ?conds = "map (\<lambda>v. ?dim @ '' = '' @ malloyLiteral v) (value_list val)"
    have "?conds \<noteq> [] \<Longrightarrow> frag (join '' or '' ?conds)"
      by (rule frag_join) (use cmp [OF frag_words(1)] frag_words(4) in auto)
    then have "?conds \<noteq> [] \<Longrightarrow> frag (''('' @ join '' or '' ?conds @ '')'')"
      by (rule frag_cat [OF frag_words(6) frag_cat [OF _ frag_words(7)]])
    then have "frag (''('' @ join '' or '' ?conds @ '')'')"
      by (cases "value_list val = []") (use frag_words(8) in simp_all)
    moreover have "p = ?dim @ '' = '' @ malloyLiteral (hd (value_list val))
        \<or> p = ''('' @ join '' or '' ?conds @ '')''"
      using assms(1) In by (simp add: buildPredicate_def Let_def split: if_splits)
    ultimately show ?thesis using cmp [OF frag_words(1)] by metis
  next
    case Like
    then obtain v where p: "p = ''lower('' @ ?dim @ '') ~ '' @ [squote] @ like_pattern v @ [squote]"
      using assms(1) by (auto simp: buildPredicate_def Let_def bind_r_eq_Inr)
    obtain w where "like_pattern v = escapeMalloyString w" using like_pattern_escaped by blast
    with p have "p = ''lower('' @ ?dim @ '') ~ '' @ ([squote] @ escapeMalloyString w @ [squote])" by simp
    then show ?thesis by (simp only:) (intro frag_cat dim frag_words frag_quoted)
  qed (use assms(1) frag_words(1-3) [THEN cmp] in
      \<open>auto simp: buildPredicate_def Let_def bind_r_eq_Inr\<close>)
qed

lemma build_predicates_frag:
  "build_predicates fs params = Inr ps \<Longrightarrow> \<forall>f \<in> set fs. backtick \<notin> set (dimension f) \<Longrightarrow> p \<in> set ps \<Longrightarrow> frag p"
  by (induction fs arbitrary: ps)
     (auto simp: Let_def bind_r_eq_Inr frag_predicate split: if_splits)

lemma frag_clause:
  assumes "buildFilterClause fs params = Inr clause" and "clause \<noteq> []"
    and "\<forall>f \<in> set fs. backtick \<notin> set (dimension f)"
  shows "frag clause"
proof -
  obtain ps where ps: "build_predicates fs params = Inr ps" and c: "clause = join '' and '' ps" "ps \<noteq> []"
    using assms(1,2) by (auto simp: buildFilterClause_def bind_r_eq_Inr split: if_splits)
  from build_predicates_frag [OF ps assms(3)] c frag_words(5) show ?thesis
    by (auto intro!: frag_join)
qed

subsection \<open>Which filters apply\<close>

definition missing :: "FilterParams \<Rightarrow> FilterDefinition \<Rightarrow> bool" where
  "missing params f \<longleftrightarrow> required f \<and> \<not> hasValue (params (fname f))"

lemma value_head_hasValue: "hasValue (Some val) \<Longrightarrow> \<exists>v. value_head val = Inr v"
  by (auto simp: hasValue_def value_head_def split: filter_value.splits list.splits)

lemma buildPredicate_total: "hasValue (Some val) \<Longrightarrow> \<exists>p. buildPredicate f val = Inr p"
  using value_head_hasValue [of val]
  by (cases "ftype f") (auto simp: buildPredicate_def Let_def)

lemma build_predicates_cases:
  "build_predicates fs params =
     (case List.find (missing params) fs of
        Some f \<Rightarrow> Inl (FilterValidationError (fname f) (dimension f))
      | None \<Rightarrow> mapM_r (\<lambda>f. buildPredicate f (the (params (fname f))))
                  [f \<leftarrow> fs. hasValue (params (fname f))])"
proof (induction fs)
  case Nil
  show ?case by simp
next
  case (Cons f fs)
  show ?case
  proof (cases "hasValue (params (fname f))")
    case True
    then obtain val where val: "params (fname f) = Some val" by (auto simp: hasValue_def split: option.splits)
    with True obtain p where "buildPredicate f val = Inr p"
      using buildPredicate_total [of val f] by auto
    with True val Cons.IH show ?thesis
      by (auto simp: missing_def bind_r_def split: option.splits sum.splits)
  next
    case False
    with Cons.IH show ?thesis by (simp add: missing_def split: option.split)
  qed
qed

subsection \<open>Annotations\<close>

definition type_name :: "FilterType \<Rightarrow> string" where
  "type_name t = (case t of Equal \<Rightarrow> ''equal'' | In \<Rightarrow> ''in'' | Like \<Rightarrow> ''like''
     | Greater_than \<Rightarrow> ''greater_than'' | Less_than \<Rightarrow> ''less_than'')"

text \<open>
  The documented way to write a definition down: space-separated parts, the name and the
  dimension quoted, so that they may hold blanks.
\<close>

definition annotation_parts :: "FilterDefinition \<Rightarrow> (string \<times> string option) list" where
  "annotation_parts d =
     [(''name='', Some (fname d)), (''dimension='', Some (dimension d))] @
     (if implicit d then [(''implicit'', None)] else []) @
     (if required d then [(''required'', None)] else []) @
     [(''type='' @ type_name (ftype d), None)]"

definition part_text :: "string \<times> string option \<Rightarrow> string" where
  "part_text p = fst p @ (case snd p of None \<Rightarrow> [] | Some w \<Rightarrow> dquote # w @ [dquote])"

definition part_token :: "string \<times> string option \<Rightarrow> string" where
  "part_token p = fst p @ (case snd p of None \<Rightarrow> [] | Some w \<Rightarrow> w)"

definition annotation_body :: "FilterDefinition \<Rightarrow> string" where
  "annotation_body d = join '' '' (map part_text (annotation_parts d))"

definition part_ok :: "string \<times> string option \<Rightarrow> bool" where
  "part_ok p \<longleftrightarrow> fst p \<noteq> []
     \<and> (\<forall>c \<in> set (fst p). c \<noteq> dquote \<and> c \<noteq> squote \<and> c \<noteq> CHR '' '' \<and> c \<noteq> CHR 0x09)
     \<and> (case snd p of None \<Rightarrow> True | Some w \<Rightarrow> dquote \<notin> set w)"

lemma tokenize_word:
  "\<forall>c \<in> set w. c \<noteq> dquote \<and> c \<noteq> squote \<and> c \<noteq> CHR '' '' \<and> c \<noteq> CHR 0x09 \<Longrightarrow>
   tokenize_loop (w @ s) None cur toks = tokenize_loop s None (cur @ w) toks"
  by (induction w arbitrary: cur) auto

lemma tokenize_quoted:
  "q = dquote \<or> q = squote \<Longrightarrow> q \<notin> set w \<Longrightarrow>
   tokenize_loop (q # w @ q # s) None cur toks = tokenize_loop s None (cur @ w) toks"
proof -
  assume q: "q = dquote \<or> q = squote" "q \<notin> set w"
  have "tokenize_loop (w @ q # s) (Some q) cur toks = tokenize_loop s None (cur @ w) toks"
    using q(2) by (induction w arbitrary: cur) auto
  with q(1) show ?thesis by auto
qed

lemma tokenize_space:
  "cur \<noteq> [] \<Longrightarrow> tokenize_loop (CHR '' '' # s) None cur toks = tokenize_loop s None [] (toks @ [cur])"
  by (simp add: char_defs)

lemma tokenize_part:
  "part_ok p \<Longrightarrow> tokenize_loop (part_text p @ s) None [] toks = tokenize_loop s None (part_token p) toks"
  by (cases "snd p")
     (simp_all add: part_ok_def part_text_def part_token_def tokenize_word tokenize_quoted
       del: tokenize_loop.simps)

lemma part_token_nonempty: "part_ok p \<Longrightarrow> part_token p \<noteq> []"
  by (simp add: part_ok_def part_token_def)

lemma tokenize_parts:
  "ps \<noteq> [] \<Longrightarrow> \<forall>p \<in> set ps. part_ok p \<Longrightarrow>
   tokenize_loop (join '' '' (map part_text ps)) None [] toks = toks @ map part_token ps"
proof (induction ps arbitrary: toks rule: induct_list012)
  case (2 p)
  then show ?case using tokenize_part [of p "[]" toks] part_token_nonempty [of p] by simp
next
  case (3 p q ps)
  then show ?case
    using tokenize_part [of p "CHR '' '' # join '' '' (map part_text (q # ps))" toks]
    by (simp add: tokenize_space part_token_nonempty del: tokenize_loop.simps)
qed simp

lemma annotation_parts_ok:
  "dquote \<notin> set (fname d) \<Longrightarrow> dquote \<notin> set (dimension d) \<Longrightarrow> p \<in> set (annotation_parts d) \<Longrightarrow> part_ok p"
  by (cases "ftype d")
     (auto simp: annotation_parts_def part_ok_def type_name_def char_defs split: if_splits)

lemma tokenize_annotation:
  assumes "dquote \<notin> set (fname d)" and "dquote \<notin> set (dimension d)"
  shows "tokenize (annotation_body d) = map part_token (annotation_parts d)"
  using tokenize_parts [of "annotation_parts d" "[]"] annotation_parts_ok [OF assms]
  by (simp add: tokenize_def annotation_body_def annotation_parts_def)

lemma parse_type: "map_of VALID_FILTER_TYPES (type_name t) = Some t"
  by (cases t) (simp_all add: VALID_FILTER_TYPES_def type_name_def)

lemma js_lower_keys [simp]:
  "js_lower ''name'' = ''name''" "js_lower ''dimension'' = ''dimension''" "js_lower ''type'' = ''type''"
  "js_lower ''implicit'' = ''implicit''" "js_lower ''required'' = ''required''"
  by (simp_all add: js_lower_def lower_char_def)

lemma parse_token_keys:
  "parse_token (''name='' @ n) v = Inr (v\<lparr>v_name := Some n\<rparr>)"
  "parse_token (''dimension='' @ n) v = Inr (v\<lparr>v_dimension := Some n\<rparr>)"
  "parse_token (''type='' @ type_name t) v = Inr (v\<lparr>v_type := Some t\<rparr>)"
  "parse_token ''implicit'' v = Inr (v\<lparr>v_implicit := True\<rparr>)"
  "parse_token ''required'' v = Inr (v\<lparr>v_required := True\<rparr>)"
  by (simp_all add: parse_token_def parse_type)

lemma type_name_last: "type_name t \<noteq> [] \<and> \<not> js_space (last (type_name t))"
  by (cases t) (auto simp: type_name_def js_space_def)

lemma js_trim_annotation:
  "js_trim (ANNOTATION_PREFIX @ CHR '' '' # annotation_body d) = ANNOTATION_PREFIX @ CHR '' '' # annotation_body d"
  "js_trim (CHR '' '' # annotation_body d) = annotation_body d"
proof -
  have last: "last (annotation_body d) = last (type_name (ftype d))" "annotation_body d \<noteq> []"
    using type_name_last [of "ftype d"]
    by (simp_all add: annotation_body_def annotation_parts_def part_text_def)
  have hd: "hd (annotation_body d) = CHR ''n''"
    by (simp add: annotation_body_def annotation_parts_def part_text_def)
  then show "js_trim (ANNOTATION_PREFIX @ CHR '' '' # annotation_body d)
      = ANNOTATION_PREFIX @ CHR '' '' # annotation_body d"
    using last type_name_last [of "ftype d"]
    by (intro js_trim_id) (simp add: ANNOTATION_PREFIX_def js_space_def)
  have "js_trim_start (CHR '' '' # annotation_body d) = annotation_body d"
    using last hd js_trim_start_id [of "annotation_body d"]
    by (simp add: js_trim_start_def js_space_def)
  then show "js_trim (CHR '' '' # annotation_body d) = annotation_body d"
    using last type_name_last [of "ftype d"] by (simp add: js_trim_def js_trim_end_id)
qed

lemma parse_annotation:
  assumes "dquote \<notin> set (fname d)" and "dquote \<notin> set (dimension d)" and "dimension d \<noteq> []"
  shows "parseFilterAnnotation (ANNOTATION_PREFIX @ CHR '' '' # annotation_body d) = Inr (Some d)"
proof -
  have "parse_tokens (tokenize (annotation_body d)) no_vars
      = Inr \<lparr>v_name = Some (fname d), v_dimension = Some (dimension d), v_type = Some (ftype d),
             v_implicit = implicit d, v_required = required d\<rparr>"
    using parse_token_keys
    by (simp add: tokenize_annotation [OF assms(1,2)] annotation_parts_def part_token_def no_vars_def)
  with assms(3) show ?thesis
    by (simp add: parseFilterAnnotation_def js_trim_annotation Let_def)
qed

text \<open>Later annotations override earlier ones of the same name.\<close>

definition set_filter :: "(string \<times> FilterDefinition) list \<Rightarrow> FilterDefinition \<Rightarrow> (string \<times> FilterDefinition) list" where
  "set_filter m d = AList.update (fname d) d m"

lemma parse_filters_loop_fold:
  "parse_filters_loop as m =
     bind_r (mapM_r parseFilterAnnotation as) (\<lambda>ps. Inr (foldl set_filter m (somes ps)))"
  by (induction as arbitrary: m)
     (auto simp: bind_r_def set_filter_def split: sum.splits option.splits)

lemma set_filter_keyed:
  "\<forall>(k, d) \<in> set m. k = fname d \<Longrightarrow> distinct (map fst m) \<Longrightarrow>
   (\<forall>(k, d) \<in> set (set_filter m e). k = fname d) \<and> distinct (map fst (set_filter m e))"
  unfolding set_filter_def by (rule conjI [OF _ distinct_update]) (induction m; auto)+

lemma foldl_set_filter:
  "\<forall>(k, d) \<in> set m. k = fname d \<Longrightarrow> distinct (map fst m) \<Longrightarrow>
   (\<forall>(k, d) \<in> set (foldl set_filter m ds). k = fname d)
   \<and> distinct (map fst (foldl set_filter m ds))
   \<and> map_of (foldl set_filter m ds) n
       = (case List.find (\<lambda>d. fname d = n) (rev ds) of Some d \<Rightarrow> Some d | None \<Rightarrow> map_of m n)"
proof (induction ds arbitrary: m)
  case (Cons d ds)
  from Cons.IH [of "set_filter m d"] set_filter_keyed [OF Cons.prems, of d]
  show ?case
    by (auto simp: find_append set_filter_def update_conv' split: option.splits)
qed simp

lemma find_keyed:
  "\<forall>(k, d) \<in> set m. k = fname d \<Longrightarrow> List.find (\<lambda>d. fname d = n) (map snd m) = map_of m n"
  by (induction m) auto

subsection \<open>Properties\<close>

text \<open>
  C9: A filter value is inert. A value that is not a bare boolean, an ISO date or an ISO timestamp is written
  as a literal that Malloy's literal rule reads back as exactly that value, with the text after it untouched.
  A boolean is written in lower case, a date as itself, and of a timestamp only its date is written, so the
  time of day is lost; these are letters, digits and dashes only. In every case the text is closed: no value
  opens a comment, a name or a string that reaches past its own literal.
\<close>

theorem filter_literal_inert:
  "(if isBooleanLiteral v then malloyLiteral v = js_lower v \<and> js_lower v \<in> {''true'', ''false''}
    else if isDateLiteral v
      then malloyLiteral v = ''@'' @ take 10 v \<and> list_all (\<lambda>c. is_digit c \<or> c = CHR ''-'') (take 10 v)
        \<and> (take 10 v = v \<or> match_classes iso_timestamp_classes v)
    else hd (malloyLiteral v) = squote
       \<and> read_literal squote (tl (malloyLiteral v) @ rest) = Some (v, rest))
   \<and> scan_closed False (malloyLiteral v)"
proof -
  have "list_all (\<lambda>c. is_digit c \<or> c = CHR ''-'') (take 10 v) \<and> (take 10 v = v \<or> match_classes iso_timestamp_classes v)"
    if "isDateLiteral v"
  proof -
    have m: "match_classes iso_date_classes v"
      using that by (auto simp: isDateLiteral_def iso_timestamp_classes_def dest: match_classes_append)
    have "take 10 v = v \<or> match_classes iso_timestamp_classes v"
      using that by (auto simp: isDateLiteral_def iso_date_classes_def)
    then show ?thesis unfolding iso_date_shape(1) [OF m] using iso_date_shape(2) [OF m] by simp
  qed
  then show ?thesis
    using read_literal_escape [of v rest] frag_closed [OF frag_literal [of v]]
    by (auto simp: malloyLiteral_def isBooleanLiteral_def Let_def)
qed

text \<open>
  C3: The injected filter cannot be neutralised. If the caller's query is not left inside a block
  comment, a backticked name or a string literal (text the compiler refuses anyway) then,
  whatever line comment it ends in, the refinement after it is read as syntax from its opening
  to its closing brace, and the query before it is unchanged.
\<close>

theorem injected_filter_is_syntax:
  assumes "buildFilterClause filters params = Inr clause" and "clause \<noteq> []"
    and "\<forall>f \<in> set filters. backtick \<notin> set (dimension f)"
    and "scan_closed True (js_trim_end query)"
  shows "stripMalloyCommentsAndLiterals (injectFilterRefinement query clause)
      = stripMalloyCommentsAndLiterals (js_trim_end query) @ [nl] @
        ''+ {where: '' @ stripMalloyCommentsAndLiterals clause @ ''}''"
proof -
  let ?strip = stripMalloyCommentsAndLiterals
  have fr: "frag clause" by (rule frag_clause [OF assms(1-3)])
  have cl: "frag (clause @ ''}'')" by (rule frag_cat [OF fr frag_words(13)])
  have "?strip (clause @ ''}'') = ?strip clause @ ?strip ''}''"
    using frag_closed [OF fr] by (intro strip_append [of False]) (simp_all add: junction_ok_def)
  also have "?strip ''}'' = ''}''"
    using plain_text [of "''}''"] by (simp add: char_defs)
  finally have body: "?strip (clause @ ''}'') = ?strip clause @ ''}''" .
  have pre: "scan_closed False ''+ {where: '' \<and> ?strip ''+ {where: '' = ''+ {where: ''"
    by (rule plain_text) (simp add: char_defs)
  then have "?strip (''+ {where: '' @ clause @ ''}'') = ''+ {where: '' @ ?strip (clause @ ''}'')"
    using strip_append [of False "''+ {where: ''" "clause @ ''}''"] by (simp add: junction_ok_def)
  moreover have "?strip (js_trim_end query @ nl # ''+ {where: '' @ clause @ ''}'')
      = ?strip (js_trim_end query) @ ?strip (nl # ''+ {where: '' @ clause @ ''}'')"
    by (rule strip_append [OF assms(4)]) simp_all
  ultimately show ?thesis
    using assms(2) body by (simp add: injectFilterRefinement_def)
qed

definition demo_filter :: FilterDefinition where
  "demo_filter = \<lparr>fname = ''region'', dimension = ''region'', ftype = Equal, implicit = False, required = True\<rparr>"

theorem injected_filter_is_syntax_witness:
  "stripMalloyCommentsAndLiterals
     (injectFilterRefinement ''run: x -> v // tail'' ([backtick] @ ''region'' @ [backtick] @ '' = '' @ malloyLiteral ''EU''))
   = stripMalloyCommentsAndLiterals (js_trim_end ''run: x -> v // tail'') @ [nl] @
     ''+ {where: '' @ stripMalloyCommentsAndLiterals
        ([backtick] @ ''region'' @ [backtick] @ '' = '' @ malloyLiteral ''EU'') @ ''}''"
proof (rule injected_filter_is_syntax)
  show "buildFilterClause [demo_filter] [''region'' \<mapsto> Scalar ''EU'']
      = Inr ([backtick] @ ''region'' @ [backtick] @ '' = '' @ malloyLiteral ''EU'')"
    by (simp add: buildFilterClause_def demo_filter_def hasValue_def buildPredicate_def value_head_def)
  show "\<forall>f \<in> set [demo_filter]. backtick \<notin> set (dimension f)"
    by (simp add: demo_filter_def backtick_def)
  show "scan_closed True (js_trim_end ''run: x -> v // tail'')"
    by (simp add: js_trim_end_def js_space_def scan_closed.simps(2) opens_line_def opens_block_def char_defs)
qed simp

text \<open>
  Required filters are enforced and supplied filters are applied. Building the clause fails
  exactly when a required filter has no value, naming the first such filter; otherwise it
  succeeds with the conjunction, in declaration order, of one predicate per filter that has
  a value.
\<close>

theorem buildFilterClause_enforces:
  "buildFilterClause filters params =
     (case List.find (missing params) filters of
        Some f \<Rightarrow> Inl (FilterValidationError (fname f) (dimension f))
      | None \<Rightarrow> Inr (join '' and ''
          (map (\<lambda>f. projr (buildPredicate f (the (params (fname f)))))
             [f \<leftarrow> filters. hasValue (params (fname f))])))"
proof -
  have "mapM_r (\<lambda>f. buildPredicate f (the (params (fname f)))) fs
      = Inr (map (\<lambda>f. projr (buildPredicate f (the (params (fname f))))) fs)"
    if "\<forall>f \<in> set fs. hasValue (params (fname f))" for fs
    unfolding mapM_r_Inr list_all2_conv_all_nth
  proof (intro conjI allI impI, simp)
    fix i assume i: "i < length fs"
    then have "hasValue (params (fname (fs ! i)))" using that by simp
    then obtain val where "params (fname (fs ! i)) = Some val" "hasValue (Some val)"
      by (auto simp: hasValue_def split: option.splits)
    then show "buildPredicate (fs ! i) (the (params (fname (fs ! i))))
        = Inr (map (\<lambda>f. projr (buildPredicate f (the (params (fname f))))) fs ! i)"
      using buildPredicate_total [of val "fs ! i"] i by auto
  qed
  then show ?thesis
    by (simp add: buildFilterClause_def build_predicates_cases split: option.split)
qed

text \<open>
  The documented annotation form is read back: for every definition whose name and dimension
  hold no double quote, parsing its annotation gives the definition itself.
\<close>

theorem annotation_round_trip:
  assumes "dquote \<notin> set (fname d)" and "dquote \<notin> set (dimension d)" and "dimension d \<noteq> []"
  shows "parseFilterAnnotation (ANNOTATION_PREFIX @ CHR '' '' # annotation_body d) = Inr (Some d)"
  by (rule parse_annotation [OF assms])

theorem annotation_round_trip_witness:
  "parseFilterAnnotation (ANNOTATION_PREFIX @ CHR '' '' # annotation_body
     \<lparr>fname = ''Order status'', dimension = ''status'', ftype = In, implicit = True, required = True\<rparr>)
   = Inr (Some \<lparr>fname = ''Order status'', dimension = ''status'', ftype = In, implicit = True, required = True\<rparr>)"
  by (rule annotation_round_trip) (simp_all add: dquote_def)

text \<open>
  Annotations of an extending source override inherited ones: parsing fails exactly as the
  first malformed annotation does, and otherwise yields one definition per name, for each name
  the last one declared.
\<close>

theorem parseFilters_last_wins:
  assumes "parseFilters annotations = Inr ds"
  shows "distinct (map fname ds) \<and>
    (\<exists>ps. mapM_r parseFilterAnnotation annotations = Inr ps \<and>
       (\<forall>n. List.find (\<lambda>d. fname d = n) ds = List.find (\<lambda>d. fname d = n) (rev (somes ps))))"
proof -
  obtain ps where ps: "mapM_r parseFilterAnnotation annotations = Inr ps"
    and ds: "ds = map snd (foldl set_filter [] (somes ps))"
    using assms by (auto simp: parseFilters_def parse_filters_loop_fold bind_r_eq_Inr)
  let ?m = "foldl set_filter [] (somes ps)"
  have m: "\<forall>(k, d) \<in> set ?m. k = fname d" "distinct (map fst ?m)"
    and look: "map_of ?m n = (case List.find (\<lambda>d. fname d = n) (rev (somes ps)) of
        Some d \<Rightarrow> Some d | None \<Rightarrow> map_of [] n)" for n
    using foldl_set_filter [of "[]" "somes ps"] by simp_all
  have "map fname ds = map fst ?m" using m(1) unfolding ds by (induction ?m) auto
  with m(2) have "distinct (map fname ds)" by simp
  moreover have "List.find (\<lambda>d. fname d = n) ds = List.find (\<lambda>d. fname d = n) (rev (somes ps))" for n
    using find_keyed [OF m(1), of n] look [of n] by (simp add: ds split: option.splits)
  ultimately show ?thesis using ps by blast
qed

theorem parseFilters_last_wins_witness:
  "distinct (map fname [demo_filter]) \<and>
    (\<exists>ps. mapM_r parseFilterAnnotation [''#(filter) dimension=region type=in'',
             ''#(filter) dimension=region type=equal required''] = Inr ps \<and>
       (\<forall>n. List.find (\<lambda>d. fname d = n) [demo_filter] = List.find (\<lambda>d. fname d = n) (rev (somes ps))))"
  by (rule parseFilters_last_wins) code_simp

end
