(* ===== verification/PathSafety.thy ===== *)
theory PathSafety
  imports Prelude
begin

text \<open>
  Path safety (\<open>packages/server/src/path_safety.ts\<close>): the allowlists on request data and the
  resolve-and-contain join. \<open>path.resolve\<close> and \<open>path.isAbsolute\<close> are Node's, on POSIX.

  The lemmas connect the string comparison the code makes on resolved paths with containment
  of their segments, and show that what the allowlists admit never fails the containment check.
\<close>

subsection \<open>Node's path.resolve\<close>

definition slash :: char where "slash = CHR ''/''"

text \<open>Arguments are joined from the last one back, until an absolute one; then the working directory.\<close>

fun resolve_join :: "string \<Rightarrow> string list \<Rightarrow> string \<Rightarrow> string" where
  "resolve_join cwd [] acc = cwd @ slash # acc"
| "resolve_join cwd (p # ps) acc =
     (if p = [] then resolve_join cwd ps acc
      else if hd p = slash then p @ slash # acc
      else resolve_join cwd ps (p @ slash # acc))"

text \<open>Normalisation of an absolute path: empty and \<open>.\<close> segments vanish, \<open>..\<close> removes the one before.\<close>

fun norm_segs :: "string list \<Rightarrow> string list \<Rightarrow> string list" where
  "norm_segs acc [] = rev acc"
| "norm_segs acc (s # ss) =
     (if s = [] \<or> s = ''.'' then norm_segs acc ss
      else if s = ''..'' then norm_segs (tl acc) ss
      else norm_segs (s # acc) ss)"

definition abs_path :: "string list \<Rightarrow> string" where
  "abs_path segs = slash # join [slash] segs"

definition path_resolve :: "string \<Rightarrow> string list \<Rightarrow> string" where
  "path_resolve cwd args = abs_path (norm_segs [] (split_on slash (resolve_join cwd (rev args) [])))"

subsection \<open>The operations\<close>

text \<open>Every rejection is a \<open>BadRequestError\<close>; the constructor says which message.\<close>

datatype path_error =
    InvalidPackageName | InvalidModelPath
  | EnvironmentNotString | EnvironmentBadLength | EnvironmentNul | EnvironmentTraversal
  | EnvironmentNotAbsolute | OutsideOfRoot

definition name_char :: "char \<Rightarrow> bool" where
  "name_char c \<longleftrightarrow> is_upper c \<or> is_lower c \<or> is_digit c \<or> c = CHR ''.'' \<or> c = CHR ''_'' \<or> c = CHR ''-''"

definition SAFE_NAME_RE :: "string \<Rightarrow> bool" where
  "SAFE_NAME_RE s \<longleftrightarrow>
     s \<noteq> ''.'' \<and> s \<noteq> ''..'' \<and> \<not> prefix ''.'' s
     \<and> list_all name_char s \<and> 1 \<le> length s \<and> length s \<le> 255"

text \<open>The argument is of type \<open>unknown\<close>: \<open>None\<close> is a value that is not a string.\<close>

definition assertSafePackageName :: "string option \<Rightarrow> path_error + string" where
  "assertSafePackageName packageName =
     (case packageName of
        None \<Rightarrow> Inl InvalidPackageName
      | Some s \<Rightarrow> if SAFE_NAME_RE s then Inr s else Inl InvalidPackageName)"

definition MAX_MODEL_PATH_LEN :: nat where "MAX_MODEL_PATH_LEN = 1024"

definition assertSafeRelativeModelPath :: "string option \<Rightarrow> path_error + string" where
  "assertSafeRelativeModelPath modelPath =
     (case modelPath of
        None \<Rightarrow> Inl InvalidModelPath
      | Some s \<Rightarrow>
          if length s = 0 \<or> length s > MAX_MODEL_PATH_LEN \<or> CHR 0x00 \<in> set s
             \<or> CHR 0x5C \<in> set s \<or> prefix [slash] s
          then Inl InvalidModelPath
          else if list_ex (\<lambda>segment. segment = [] \<or> segment = ''.'' \<or> segment = ''..''
                             \<or> prefix ''.'' segment) (split_on slash s)
          then Inl InvalidModelPath
          else Inr s)"

definition MAX_ENVIRONMENT_PATH_LEN :: nat where "MAX_ENVIRONMENT_PATH_LEN = 4096"

definition printable :: "char \<Rightarrow> bool" where
  "printable c \<longleftrightarrow> (let n = (of_char c :: nat) in 32 \<le> n \<and> n \<le> 126)"

definition SAFE_ENVIRONMENT_PATH_RE :: "string \<Rightarrow> bool" where
  "SAFE_ENVIRONMENT_PATH_RE s \<longleftrightarrow>
     (prefix [slash] s \<and> list_all printable (drop 1 s))
     \<or> (match_classes [\<lambda>c. is_upper c \<or> is_lower c, (=) (CHR '':''), \<lambda>c. c = CHR 0x5C \<or> c = slash] s
        \<and> list_all printable (drop 3 s))"

definition assertSafeEnvironmentPath :: "string option \<Rightarrow> path_error + string" where
  "assertSafeEnvironmentPath environmentPath =
     (case environmentPath of
        None \<Rightarrow> Inl EnvironmentNotString
      | Some s \<Rightarrow>
          if length s = 0 \<or> length s > MAX_ENVIRONMENT_PATH_LEN then Inl EnvironmentBadLength
          else if CHR 0x00 \<in> set s then Inl EnvironmentNul
          else if sublist ''..'' s then Inl EnvironmentTraversal
          else if \<not> SAFE_ENVIRONMENT_PATH_RE s then Inl EnvironmentNotAbsolute
          else Inr s)"

definition safeJoinUnderRoot :: "string \<Rightarrow> string \<Rightarrow> string list \<Rightarrow> path_error + string" where
  "safeJoinUnderRoot cwd root segments =
     (let resolvedRoot = path_resolve cwd [root];
          joined = path_resolve cwd (resolvedRoot # segments);
          rootWithSep = (if suffix [slash] resolvedRoot then resolvedRoot else resolvedRoot @ [slash])
      in if joined \<noteq> resolvedRoot \<and> \<not> prefix rootWithSep joined then Inl OutsideOfRoot else Inr joined)"

subsection \<open>Canonical paths\<close>

definition good_seg :: "string \<Rightarrow> bool" where
  "good_seg s \<longleftrightarrow> s \<noteq> [] \<and> s \<noteq> ''.'' \<and> s \<noteq> ''..'' \<and> slash \<notin> set s"

lemma good_segD: "good_seg s \<Longrightarrow> s \<noteq> [] \<and> slash \<notin> set s"
  by (simp add: good_seg_def)

lemma norm_segs_good:
  "\<forall>s \<in> set acc. good_seg s \<Longrightarrow> \<forall>s \<in> set ss. slash \<notin> set s \<Longrightarrow>
   \<forall>s \<in> set (norm_segs acc ss). good_seg s"
proof (induction acc ss rule: norm_segs.induct)
  case (2 acc s ss)
  have tl: "\<forall>s \<in> set (tl acc). good_seg s" using "2.prems"(1) by (cases acc) auto
  consider "s = [] \<or> s = ''.''" | "s \<noteq> [] \<and> s \<noteq> ''.'' \<and> s = ''..''"
    | "s \<noteq> [] \<and> s \<noteq> ''.'' \<and> s \<noteq> ''..''" by blast
  then show ?case
  proof cases
    case 1
    with 2 show ?thesis by simp
  next
    case 2
    with "2.IH"(2) "2.prems"(2) tl show ?thesis by simp
  next
    case 3
    with "2.prems"(2) have "good_seg s" by (simp add: good_seg_def)
    with 3 "2.IH"(3) "2.prems" show ?thesis by simp
  qed
qed simp

lemma norm_segs_append: "norm_segs acc (xs @ ys) = norm_segs (rev (norm_segs acc xs)) ys"
  by (induction acc xs rule: norm_segs.induct) auto

lemma norm_segs_id: "\<forall>s \<in> set ss. good_seg s \<Longrightarrow> norm_segs acc ss = rev acc @ ss"
  by (induction ss arbitrary: acc) (auto simp: good_seg_def)

lemma split_on_append: "split_on c (xs @ c # ys) = split_on c xs @ split_on c ys"
  by (induction xs) (auto split: list.splits)

lemma split_abs_path:
  assumes "\<forall>s \<in> set segs. good_seg s"
  shows "split_on slash (abs_path segs) = [] # (if segs = [] then [[]] else segs)"
proof -
  have "split_on slash (join [slash] segs) = segs" if "segs \<noteq> []"
  proof (rule split_on_join [OF that])
    fix w assume "w \<in> set segs"
    then have "good_seg w" using assms by simp
    then show "slash \<notin> set w" by (simp add: good_segD)
  qed
  then show ?thesis by (cases "segs = []") (simp_all add: abs_path_def)
qed

lemma norm_abs_path:
  assumes "\<forall>s \<in> set segs. good_seg s"
  shows "norm_segs [] (split_on slash (abs_path segs)) = segs"
  using norm_segs_id [OF assms, of "[]"] by (simp add: split_abs_path [OF assms])

lemma abs_path_inj:
  assumes "\<forall>s \<in> set xs. good_seg s" and "\<forall>s \<in> set ys. good_seg s" and "abs_path xs = abs_path ys"
  shows "xs = ys"
proof -
  have "xs = norm_segs [] (split_on slash (abs_path xs))" by (rule norm_abs_path [OF assms(1), symmetric])
  also have "\<dots> = ys" unfolding assms(3) by (rule norm_abs_path [OF assms(2)])
  finally show ?thesis .
qed

text \<open>The trailing-separator prefix test on canonical strings is the prefix test on segments.\<close>

lemma join_append:
  "xs \<noteq> [] \<Longrightarrow> ys \<noteq> [] \<Longrightarrow> join sep (xs @ ys) = join sep xs @ sep @ join sep ys"
  by (induction xs rule: induct_list012) (auto simp: neq_Nil_conv)

lemma abs_path_prefix:
  assumes "\<forall>s \<in> set xs. good_seg s" and "\<forall>s \<in> set ys. good_seg s" and "xs \<noteq> []"
  shows "prefix (abs_path xs @ [slash]) (abs_path ys) \<longleftrightarrow> strict_prefix xs ys"
proof
  assume "strict_prefix xs ys"
  then obtain zs where "ys = xs @ zs" "zs \<noteq> []" by (auto elim: strict_prefixE')
  then show "prefix (abs_path xs @ [slash]) (abs_path ys)"
    using assms(3) by (simp add: abs_path_def join_append)
next
  assume "prefix (abs_path xs @ [slash]) (abs_path ys)"
  then obtain t where t: "abs_path ys = abs_path xs @ slash # t" by (auto elim: prefixE)
  have "split_on slash (abs_path ys) = split_on slash (abs_path xs) @ split_on slash t"
    by (simp add: t split_on_append)
  then have "(if ys = [] then [[]] else ys) = xs @ split_on slash t"
    using assms by (simp add: split_abs_path)
  moreover have "ys \<noteq> []" using t by (auto simp: abs_path_def)
  ultimately have "ys = xs @ split_on slash t" by simp
  then show "strict_prefix xs ys" by (auto simp: strict_prefix_def)
qed

lemma abs_path_suffix:
  assumes "\<forall>s \<in> set xs. good_seg s"
  shows "suffix [slash] (abs_path xs) \<longleftrightarrow> xs = []"
proof (cases xs rule: rev_cases)
  case (snoc ys y)
  have y: "y \<noteq> [] \<and> slash \<notin> set y" using assms snoc good_segD [of y] by simp
  then have "last (abs_path xs) = last y"
    using snoc join_append [of ys "[y]" "[slash]"] by (cases "ys = []") (simp_all add: abs_path_def)
  moreover have "last y \<noteq> slash" using y by (metis last_in_set)
  ultimately have "\<not> suffix [slash] (abs_path xs)" by (auto simp: suffix_def)
  with snoc show ?thesis by simp
qed (simp add: abs_path_def)

definition resolved_segs :: "string \<Rightarrow> string list \<Rightarrow> string list" where
  "resolved_segs cwd args = norm_segs [] (split_on slash (resolve_join cwd (rev args) []))"

lemma resolved_segs_good: "\<forall>s \<in> set (resolved_segs cwd args). good_seg s"
  unfolding resolved_segs_def by (rule norm_segs_good) (auto dest: split_on_parts)

lemma path_resolve_segs: "path_resolve cwd args = abs_path (resolved_segs cwd args)"
  by (simp add: path_resolve_def resolved_segs_def)

lemma safeJoin_segs:
  "safeJoinUnderRoot cwd root segments =
     (let R = resolved_segs cwd [root]; J = resolved_segs cwd (abs_path R # segments) in
      if prefix R J then Inr (abs_path J) else Inl OutsideOfRoot)"
proof -
  define R where "R = resolved_segs cwd [root]"
  define J where "J = resolved_segs cwd (abs_path R # segments)"
  have R: "\<forall>s \<in> set R. good_seg s" and J: "\<forall>s \<in> set J. good_seg s"
    by (simp_all add: R_def J_def resolved_segs_good)
  have "abs_path J \<noteq> abs_path R \<and>
      \<not> prefix (if suffix [slash] (abs_path R) then abs_path R else abs_path R @ [slash]) (abs_path J)
      \<longleftrightarrow> \<not> prefix R J"
  proof (cases "R = []")
    case True
    then show ?thesis by (simp add: abs_path_def)
  next
    case False
    have eq: "abs_path J = abs_path R \<longleftrightarrow> J = R" using abs_path_inj [OF J R] by blast
    show ?thesis
      unfolding abs_path_suffix [OF R] using False abs_path_prefix [OF R J False] eq
      by (simp add: prefix_order.le_less) blast
  qed
  then show ?thesis
    unfolding safeJoinUnderRoot_def path_resolve_segs Let_def R_def [symmetric] J_def [symmetric]
    by presburger
qed

subsection \<open>What the allowlists admit\<close>

lemma safe_name_good:
  assumes "assertSafePackageName (Some name) = Inr name"
  shows "good_seg name"
proof -
  have n: "SAFE_NAME_RE name"
    using assms by (auto simp: assertSafePackageName_def split: if_splits)
  then have "\<forall>c \<in> set name. name_char c" by (simp add: SAFE_NAME_RE_def list_all_iff)
  moreover have "\<not> name_char slash" by (simp add: name_char_def char_class_defs slash_def)
  ultimately have "slash \<notin> set name" by blast
  with n show ?thesis by (auto simp: SAFE_NAME_RE_def good_seg_def)
qed

lemma safe_model_good:
  assumes "assertSafeRelativeModelPath (Some m) = Inr m" and "s \<in> set (split_on slash m)"
  shows "good_seg s"
proof -
  have "\<not> list_ex (\<lambda>segment. segment = [] \<or> segment = ''.'' \<or> segment = ''..'' \<or> prefix ''.'' segment)
      (split_on slash m)"
    using assms(1) by (auto simp: assertSafeRelativeModelPath_def split: if_splits)
  with assms(2) have "s \<noteq> [] \<and> s \<noteq> ''.'' \<and> s \<noteq> ''..''" unfolding list_ex_iff by blast
  with split_on_parts [OF assms(2)] show ?thesis by (simp add: good_seg_def)
qed

lemma safe_model_relative:
  "assertSafeRelativeModelPath (Some m) = Inr m \<Longrightarrow> m \<noteq> [] \<and> hd m \<noteq> slash"
  by (cases m) (auto simp: assertSafeRelativeModelPath_def split: if_splits)

lemma good_seg_relative: "good_seg s \<Longrightarrow> s \<noteq> [] \<and> hd s \<noteq> slash"
  by (cases s) (auto simp: good_seg_def)

text \<open>Relative pieces are appended, in order, to a canonical root.\<close>

lemma resolve_relative:
  assumes "\<forall>p \<in> set ps. p \<noteq> [] \<and> hd p \<noteq> slash"
  shows "resolve_join cwd (rev (abs_path R # ps)) acc
           = abs_path R @ slash # concat (map (\<lambda>p. p @ [slash]) ps) @ acc"
  using assms
proof (induction ps arbitrary: acc rule: rev_induct)
  case Nil
  show ?case by (simp add: abs_path_def)
next
  case (snoc p ps)
  then show ?case by simp
qed

lemma split_on_concat:
  "split_on c (concat (map (\<lambda>p. p @ [c]) ps)) = concat (map (split_on c) ps) @ [[]]"
  by (induction ps) (simp_all add: split_on_append)

lemma norm_segs_skip_last: "norm_segs acc (ss @ [[]]) = norm_segs acc ss"
  by (simp add: norm_segs_append)

lemma norm_segs_root_tail: "norm_segs acc ([] # ss) = norm_segs acc ss"
  by simp

lemma resolved_segs_relative:
  assumes R: "\<forall>s \<in> set R. good_seg s"
    and ps: "\<forall>p \<in> set ps. p \<noteq> [] \<and> hd p \<noteq> slash \<and> (\<forall>s \<in> set (split_on slash p). good_seg s)"
  shows "resolved_segs cwd (abs_path R # ps) = R @ concat (map (split_on slash) ps)"
proof -
  have "\<forall>p \<in> set ps. p \<noteq> [] \<and> hd p \<noteq> slash" using ps by blast
  then have "resolve_join cwd (rev (abs_path R # ps)) []
      = abs_path R @ slash # concat (map (\<lambda>p. p @ [slash]) ps)"
    by (subst resolve_relative) simp_all
  then have "resolved_segs cwd (abs_path R # ps)
      = norm_segs [] (split_on slash (abs_path R) @ concat (map (split_on slash) ps) @ [[]])"
    by (simp only: resolved_segs_def split_on_append split_on_concat)
  also have "\<dots> = norm_segs (rev R) (concat (map (split_on slash) ps))"
    by (simp only: norm_segs_append [of "[]" "split_on slash (abs_path R)"] norm_abs_path [OF R]
        norm_segs_skip_last)
  also have "\<dots> = R @ concat (map (split_on slash) ps)"
    using ps by (subst norm_segs_id) auto
  finally show ?thesis .
qed

subsection \<open>Properties\<close>

text \<open>
  C39: The join contains: it succeeds exactly when the resolved segments extend those of the
  resolved root, and then returns the resolved path; comparing strings with a trailing
  separator is comparing segments, so no sibling directory with a longer name, no \<open>..\<close> and no
  absolute segment gets through.
\<close>

theorem safeJoin_contains:
  "safeJoinUnderRoot cwd root segments =
     (let R = resolved_segs cwd [root]; J = resolved_segs cwd (path_resolve cwd [root] # segments) in
      if prefix R J then Inr (path_resolve cwd (path_resolve cwd [root] # segments)) else Inl OutsideOfRoot)"
  by (simp add: safeJoin_segs path_resolve_segs Let_def)

text \<open>
  What the allowlists admit always joins: for a package name and a model path that passed
  their checks, the containment check never fires, and the result is the root's segments
  followed by the package name and the model path's own segments.
\<close>

theorem allowlisted_paths_join:
  assumes "assertSafePackageName (Some name) = Inr name"
    and "assertSafeRelativeModelPath (Some model) = Inr model"
  shows "safeJoinUnderRoot cwd root [name, model]
      = Inr (abs_path (resolved_segs cwd [root] @ name # split_on slash model))"
proof -
  let ?R = "resolved_segs cwd [root]"
  have name: "good_seg name" by (rule safe_name_good [OF assms(1)])
  then have "split_on slash name = [name]" by (simp add: good_seg_def)
  moreover have "\<forall>s \<in> set ?R. good_seg s" by (rule resolved_segs_good)
  ultimately have "resolved_segs cwd (abs_path ?R # [name, model]) = ?R @ name # split_on slash model"
    using name good_seg_relative [OF name] safe_model_relative [OF assms(2)] safe_model_good [OF assms(2)]
    by (subst resolved_segs_relative) auto
  then show ?thesis by (simp add: safeJoin_segs Let_def)
qed

theorem allowlisted_paths_join_witness:
  "safeJoinUnderRoot ''/srv'' ''data/../env'' [''pkg-1.0'', ''models/a.malloy'']
     = Inr (abs_path (resolved_segs ''/srv'' [''data/../env''] @ ''pkg-1.0'' # split_on slash ''models/a.malloy''))"
proof (rule allowlisted_paths_join)
  show "assertSafePackageName (Some ''pkg-1.0'') = Inr ''pkg-1.0''"
    by (simp add: assertSafePackageName_def SAFE_NAME_RE_def name_char_def char_class_defs)
  show "assertSafeRelativeModelPath (Some ''models/a.malloy'') = Inr ''models/a.malloy''"
    by (simp add: assertSafeRelativeModelPath_def MAX_MODEL_PATH_LEN_def slash_def)
qed

end
