(* ===== verification/Freshness.thy ===== *)
theory Freshness
  imports Complex_Main Prelude
begin

text \<open>
  The per-query freshness gate for persisted sources (\<open>packages/server/src/service/freshness.ts\<close>)
  and the memo of its result that a package keeps (\<open>Package.getFreshBuildManifest\<close> in
  \<open>packages/server/src/service/package.ts\<close>).

  Instants are milliseconds since the epoch. \<open>Date.parse\<close>, whose accepted formats are up to
  the engine, is the parameter \<open>parse\<close> (\<open>None\<close> for NaN); every lemma holds for any such function.
  Numbers of seconds may be fractional and are rationals.

  The memo's contract is the locale \<open>deadline_memo\<close>: a computation that also returns an instant
  until which its result does not change.
\<close>

subsection \<open>Entries and decisions\<close>

datatype freshness_fallback = Live | Stale_ok | Fail

record FreshnessAwareManifestEntry =
  tableName :: string
  connectionName :: "string option"
  dataAsOf :: "string option"
  freshnessWindowSeconds :: "rat option"
  freshnessFallback :: "freshness_fallback option"

datatype FreshnessDecision = Serve_table | Serve_live

text \<open>A manifest is an object keyed by source entity id, in the order of its entries.\<close>

type_synonym FreshnessManifest = "(string \<times> FreshnessAwareManifestEntry) list"
type_synonym ManifestEntries = "(string \<times> string) list"

definition evaluateManifestFreshness ::
  "(string \<Rightarrow> int option) \<Rightarrow> FreshnessAwareManifestEntry \<Rightarrow> int \<Rightarrow> FreshnessDecision" where
  "evaluateManifestFreshness parse entry now =
     (case freshnessWindowSeconds entry of
        None \<Rightarrow> Serve_table
      | Some window \<Rightarrow>
          (case dataAsOf entry of
             None \<Rightarrow> Serve_table
           | Some asOf \<Rightarrow>
               (case parse asOf of
                  None \<Rightarrow> Serve_table
                | Some dataAsOfMs \<Rightarrow>
                    let ageSeconds = (of_int (now - dataAsOfMs) :: rat) / 1000;
                        stale = ageSeconds > window
                    in if \<not> stale then Serve_table
                       else if freshnessFallback entry = Some Stale_ok then Serve_table
                       else Serve_live)))"

definition staleSinceMs ::
  "(string \<Rightarrow> int option) \<Rightarrow> FreshnessAwareManifestEntry \<Rightarrow> rat option" where
  "staleSinceMs parse entry =
     (case (freshnessWindowSeconds entry, dataAsOf entry) of
        (Some window, Some asOf) \<Rightarrow>
          (case parse asOf of
             None \<Rightarrow> None
           | Some dataAsOfMs \<Rightarrow> Some (of_int dataAsOfMs + window * 1000))
      | _ \<Rightarrow> None)"

definition earlier :: "rat option \<Rightarrow> rat \<Rightarrow> rat option" where
  "earlier nextStaleSince flipAt =
     (case nextStaleSince of None \<Rightarrow> Some flipAt | Some n \<Rightarrow> Some (min n flipAt))"

text \<open>The loop over the entries, with its two accumulators.\<close>

fun filter_fresh_loop ::
  "(string \<Rightarrow> int option) \<Rightarrow> int \<Rightarrow> FreshnessManifest \<Rightarrow> ManifestEntries \<Rightarrow> rat option
     \<Rightarrow> ManifestEntries \<times> rat option" where
  "filter_fresh_loop parse now [] manifest nextStaleSince = (manifest, nextStaleSince)"
| "filter_fresh_loop parse now ((sourceEntityId, entry) # es) manifest nextStaleSince =
     (if evaluateManifestFreshness parse entry now = Serve_live
      then filter_fresh_loop parse now es manifest nextStaleSince
      else
        (let manifest' = AList.update sourceEntityId (tableName entry) manifest in
         case staleSinceMs parse entry of
           Some flipAt \<Rightarrow>
             if flipAt > of_int now
             then filter_fresh_loop parse now es manifest' (earlier nextStaleSince flipAt)
             else filter_fresh_loop parse now es manifest' nextStaleSince
         | None \<Rightarrow> filter_fresh_loop parse now es manifest' nextStaleSince))"

definition filterFreshManifest ::
  "(string \<Rightarrow> int option) \<Rightarrow> FreshnessManifest \<Rightarrow> int \<Rightarrow> ManifestEntries \<times> rat option" where
  "filterFreshManifest parse entries now = filter_fresh_loop parse now entries [] None"

subsection \<open>The memo\<close>

text \<open>\<open>validUntil = None\<close> is \<open>Infinity\<close>.\<close>

record 'm fresh_cache =
  manifest :: 'm
  validUntil :: "rat option"

definition before :: "int \<Rightarrow> rat option \<Rightarrow> bool" where
  "before now deadline = (case deadline of None \<Rightarrow> True | Some d \<Rightarrow> of_int now < d)"

definition memo_read ::
  "(int \<Rightarrow> 'm \<times> rat option) \<Rightarrow> 'm fresh_cache option \<Rightarrow> int \<Rightarrow> 'm \<times> 'm fresh_cache option" where
  "memo_read compute cache now =
     (case cache of
        Some c \<Rightarrow>
          if before now (validUntil c) then (manifest c, cache)
          else (let (m, next) = compute now in (m, Some \<lparr>manifest = m, validUntil = next\<rparr>))
      | None \<Rightarrow> (let (m, next) = compute now in (m, Some \<lparr>manifest = m, validUntil = next\<rparr>)))"

definition getFreshBuildManifest ::
  "(string \<Rightarrow> int option) \<Rightarrow> FreshnessManifest option \<Rightarrow> ManifestEntries fresh_cache option \<Rightarrow> int
     \<Rightarrow> ManifestEntries option \<times> ManifestEntries fresh_cache option" where
  "getFreshBuildManifest parse freshnessEntries cache now =
     (case freshnessEntries of
        None \<Rightarrow> (None, cache)
      | Some entries \<Rightarrow>
          (let (m, cache') = memo_read (filterFreshManifest parse entries) cache now
           in (Some m, cache')))"

text \<open>Successive reads of one package.\<close>

fun memo_reads ::
  "(int \<Rightarrow> 'm \<times> rat option) \<Rightarrow> 'm fresh_cache option \<Rightarrow> int list \<Rightarrow> 'm list" where
  "memo_reads compute cache [] = []"
| "memo_reads compute cache (t # ts) =
     (let (m, cache') = memo_read compute cache t in m # memo_reads compute cache' ts)"

locale deadline_memo =
  fixes compute :: "int \<Rightarrow> 'm \<times> rat option" and regular :: "int \<Rightarrow> bool"
  assumes stable:
    "regular t \<Longrightarrow> t \<le> t' \<Longrightarrow> before t' (snd (compute t)) \<Longrightarrow> fst (compute t') = fst (compute t)"
begin

definition cache_ok :: "int \<Rightarrow> 'm fresh_cache option \<Rightarrow> bool" where
  "cache_ok t cache \<longleftrightarrow>
     (\<forall>c. cache = Some c \<longrightarrow> (\<forall>t'. t \<le> t' \<and> before t' (validUntil c) \<longrightarrow> fst (compute t') = manifest c))"

lemma cache_ok_None: "cache_ok t None"
  by (simp add: cache_ok_def)

lemma cache_ok_mono: "cache_ok t cache \<Longrightarrow> t \<le> t' \<Longrightarrow> cache_ok t' cache"
  by (auto simp: cache_ok_def)

lemma memo_read_correct:
  assumes "cache_ok t cache" and "regular t"
  shows "fst (memo_read compute cache t) = fst (compute t) \<and> cache_ok t (snd (memo_read compute cache t))"
  using assms stable [OF assms(2)]
  by (auto simp: memo_read_def cache_ok_def split: option.splits prod.splits)

lemma memo_reads_correct:
  "cache_ok t0 cache \<Longrightarrow> sorted (t0 # ts) \<Longrightarrow> \<forall>t \<in> set ts. regular t \<Longrightarrow>
   memo_reads compute cache ts = map (fst \<circ> compute) ts"
proof (induction ts arbitrary: t0 cache)
  case (Cons t ts)
  from Cons.prems have ok: "cache_ok t cache" by (auto intro: cache_ok_mono)
  with Cons.prems memo_read_correct [of t cache]
  have "fst (memo_read compute cache t) = fst (compute t)" and "cache_ok t (snd (memo_read compute cache t))"
    by auto
  with Cons.IH [of t "snd (memo_read compute cache t)"] Cons.prems show ?case
    by (auto split: prod.splits)
qed simp

end

subsection \<open>The filter has that contract away from the boundaries\<close>

lemma evaluate_serve_live:
  "evaluateManifestFreshness parse e now = Serve_live \<longleftrightarrow>
     (\<exists>s. staleSinceMs parse e = Some s \<and> of_int now > s) \<and> freshnessFallback e \<noteq> Some Stale_ok"
  by (auto simp: evaluateManifestFreshness_def staleSinceMs_def Let_def field_simps
      split: option.splits)

lemma filter_fresh_loop_fst:
  "fst (filter_fresh_loop parse now es m n)
     = foldl (\<lambda>m (k, e). if evaluateManifestFreshness parse e now = Serve_live then m
                           else AList.update k (tableName e) m) m es"
  by (induction parse now es m n rule: filter_fresh_loop.induct)
     (auto simp: Let_def split: option.splits)

lemma filter_fresh_loop_snd:
  "before t (snd (filter_fresh_loop parse now es m n)) \<longleftrightarrow>
     before t n \<and> (\<forall>(k, e) \<in> set es. \<forall>s. evaluateManifestFreshness parse e now = Serve_table
        \<longrightarrow> staleSinceMs parse e = Some s \<longrightarrow> of_int now < s \<longrightarrow> of_int t < s)"
proof (induction parse now es m n rule: filter_fresh_loop.induct)
  case (2 parse now k e es m n)
  have "before t (earlier n s) \<longleftrightarrow> before t n \<and> of_int t < s" for s
    by (auto simp: before_def earlier_def split: option.splits)
  with 2 show ?case
    by (cases "evaluateManifestFreshness parse e now"; cases "staleSinceMs parse e") (auto simp: Let_def)
qed simp

definition at_boundary :: "(string \<Rightarrow> int option) \<Rightarrow> FreshnessManifest \<Rightarrow> int \<Rightarrow> bool" where
  "at_boundary parse entries now \<longleftrightarrow> (\<exists>(k, e) \<in> set entries. staleSinceMs parse e = Some (of_int now))"

lemma filter_stable:
  assumes "\<not> at_boundary parse entries t" and "t \<le> t'"
    and "before t' (snd (filterFreshManifest parse entries t))"
  shows "fst (filterFreshManifest parse entries t') = fst (filterFreshManifest parse entries t)"
proof -
  have "evaluateManifestFreshness parse e t' = evaluateManifestFreshness parse e t"
    if e: "(k, e) \<in> set entries" for k e
  proof (cases "staleSinceMs parse e")
    case None
    then have "evaluateManifestFreshness parse e u \<noteq> Serve_live" for u
      by (simp add: evaluate_serve_live)
    then show ?thesis by (metis FreshnessDecision.exhaust)
  next
    case (Some s)
    have "s < of_int t \<or> of_int t < s"
      using assms(1) e Some by (auto simp: at_boundary_def neq_iff)
    moreover have "of_int t' < s" if "of_int t < s"
    proof -
      have "evaluateManifestFreshness parse e t = Serve_table"
        using that Some evaluate_serve_live [of parse e t]
        by (metis FreshnessDecision.exhaust not_less_iff_gr_or_eq option.inject)
      then show ?thesis
        using assms(3) e Some that
        unfolding filterFreshManifest_def filter_fresh_loop_snd by (auto simp: before_def)
    qed
    moreover have "of_int t \<le> (of_int t' :: rat)" using assms(2) by simp
    ultimately have "evaluateManifestFreshness parse e t' = Serve_live
        \<longleftrightarrow> evaluateManifestFreshness parse e t = Serve_live"
      using Some by (auto simp: evaluate_serve_live)
    then show ?thesis by (metis FreshnessDecision.exhaust)
  qed
  then have "foldl (\<lambda>m (k, e). if evaluateManifestFreshness parse e t' = Serve_live then m
        else AList.update k (tableName e) m) [] entries
      = foldl (\<lambda>m (k, e). if evaluateManifestFreshness parse e t = Serve_live then m
        else AList.update k (tableName e) m) [] entries"
    by (intro foldl_cong) auto
  then show ?thesis by (simp add: filterFreshManifest_def filter_fresh_loop_fst)
qed

interpretation fresh_memo: deadline_memo "filterFreshManifest parse entries" "\<lambda>t. \<not> at_boundary parse entries t"
  for parse entries
  by unfold_locales (rule filter_stable)

fun package_reads ::
  "(string \<Rightarrow> int option) \<Rightarrow> FreshnessManifest option \<Rightarrow> ManifestEntries fresh_cache option \<Rightarrow> int list
     \<Rightarrow> ManifestEntries option list" where
  "package_reads parse freshnessEntries cache [] = []"
| "package_reads parse freshnessEntries cache (t # ts) =
     (let (m, cache') = getFreshBuildManifest parse freshnessEntries cache t
      in m # package_reads parse freshnessEntries cache' ts)"

lemma package_reads_memo:
  "package_reads parse (Some entries) cache ts
     = map Some (memo_reads (filterFreshManifest parse entries) cache ts)"
  by (induction ts arbitrary: cache)
     (auto simp: getFreshBuildManifest_def Let_def split: prod.splits)

subsection \<open>Properties\<close>

text \<open>
  The decision is a one-way deadline on data age: a query is sent to the live source exactly
  when the entry has a window and a readable anchor, the instant is past anchor plus window,
  and the fallback is not \<open>stale_ok\<close>; and once live, an entry stays live.
\<close>

theorem freshness_decision:
  "evaluateManifestFreshness parse e now = Serve_live \<longleftrightarrow>
     (\<exists>w asOf d. freshnessWindowSeconds e = Some w \<and> dataAsOf e = Some asOf \<and> parse asOf = Some d
        \<and> of_int now > of_int d + w * 1000) \<and> freshnessFallback e \<noteq> Some Stale_ok"
  by (auto simp: evaluate_serve_live staleSinceMs_def split: option.splits)

text \<open>
  C33: The memo is transparent away from the boundaries: for reads at non-decreasing instants, none
  of them the very millisecond at which an entry crosses its window, every read returns what
  recomputing the filter at that instant would return.
\<close>

theorem memoised_manifest_correct:
  assumes "sorted ts" and "\<forall>t \<in> set ts. \<not> at_boundary parse entries t"
  shows "package_reads parse (Some entries) None ts
           = map (\<lambda>t. Some (fst (filterFreshManifest parse entries t))) ts"
proof (cases ts)
  case (Cons t us)
  with assms fresh_memo.memo_reads_correct [of parse entries t None ts]
  have "memo_reads (filterFreshManifest parse entries) None ts
      = map (fst \<circ> filterFreshManifest parse entries) ts"
    by (simp add: fresh_memo.cache_ok_None)
  then show ?thesis by (simp add: package_reads_memo)
qed simp

definition demo_entry :: FreshnessAwareManifestEntry where
  "demo_entry = \<lparr>tableName = ''t'', connectionName = None, dataAsOf = Some ''0'',
     freshnessWindowSeconds = Some 1, freshnessFallback = Some Live\<rparr>"

theorem memoised_manifest_correct_witness:
  "package_reads (\<lambda>_. Some 0) (Some [(''s'', demo_entry)]) None [500, 900, 1001, 5000]
     = map (\<lambda>t. Some (fst (filterFreshManifest (\<lambda>_. Some 0) [(''s'', demo_entry)] t))) [500, 900, 1001, 5000]
   \<and> map (\<lambda>t. fst (filterFreshManifest (\<lambda>_. Some 0) [(''s'', demo_entry)] t)) [900, 1001]
     = [[(''s'', ''t'')], []]"
proof
  show "package_reads (\<lambda>_. Some 0) (Some [(''s'', demo_entry)]) None [500, 900, 1001, 5000]
      = map (\<lambda>t. Some (fst (filterFreshManifest (\<lambda>_. Some 0) [(''s'', demo_entry)] t))) [500, 900, 1001, 5000]"
    by (rule memoised_manifest_correct) (simp_all add: at_boundary_def staleSinceMs_def demo_entry_def)
  show "map (\<lambda>t. fst (filterFreshManifest (\<lambda>_. Some 0) [(''s'', demo_entry)] t)) [900, 1001]
      = [[(''s'', ''t'')], []]"
    by (simp add: filterFreshManifest_def evaluateManifestFreshness_def staleSinceMs_def demo_entry_def)
qed

text \<open>
  At a boundary the memo is not transparent. An entry read at the very millisecond its window
  ends is still fresh, so it is included, but its deadline is not in the future and is dropped:
  the memo never expires, and every later read serves the table although the entry is stale
  and its fallback says live.
\<close>

theorem boundary_read_pins_stale_table:
  assumes "staleSinceMs parse e = Some (of_int now)" and "freshnessFallback e \<noteq> Some Stale_ok"
    and "now < later"
  shows "package_reads parse (Some [(k, e)]) None [now, later]
           = [Some [(k, tableName e)], Some [(k, tableName e)]]
         \<and> evaluateManifestFreshness parse e later = Serve_live"
proof -
  have "evaluateManifestFreshness parse e now \<noteq> Serve_live"
    using assms(1) by (simp add: evaluate_serve_live)
  then have "filterFreshManifest parse [(k, e)] now = ([(k, tableName e)], None)"
    using assms(1) by (simp add: filterFreshManifest_def)
  then have "package_reads parse (Some [(k, e)]) None [now, later]
      = [Some [(k, tableName e)], Some [(k, tableName e)]]"
    by (simp add: getFreshBuildManifest_def memo_read_def before_def)
  moreover have "evaluateManifestFreshness parse e later = Serve_live"
    using assms by (simp add: evaluate_serve_live)
  ultimately show ?thesis by blast
qed

theorem boundary_read_pins_stale_table_witness:
  "package_reads (\<lambda>_. Some 0) (Some [(''s'', demo_entry)]) None [1000, 99000]
     = [Some [(''s'', tableName demo_entry)], Some [(''s'', tableName demo_entry)]]
   \<and> evaluateManifestFreshness (\<lambda>_. Some 0) demo_entry 99000 = Serve_live"
  by (rule boundary_read_pins_stale_table) (simp_all add: staleSinceMs_def demo_entry_def)

end
