(* ===== verification/LoadPool.thy ===== *)
theory LoadPool
  imports Prelude "HOL-Library.Multiset"
begin

text \<open>
  The package-load worker pool (\<open>package_load/package_load_pool.ts\<close>): the queue of submitted
  loads, the job map, the worker objects and the promises the pool settles, as one record, and
  every callback of the pool as a function on it.

  A load is named by its ticket, the number of the \<open>loadPackage\<close> call that made its promise. A
  \<open>PoolWorker\<close> is an object that the \<open>workers\<close> array, a \<open>JobContext\<close> and a suspended
  \<open>dispatchToWorker\<close> share, so workers live in a heap and the others hold their number.
  \<open>dispatchToWorker\<close> suspends at \<open>await pw.ready\<close>: \<open>awaiting\<close> holds the suspended calls in the
  order they suspended, and the event loop resumes them, oldest first, once the handler that
  settled their promise has returned (\<open>drain\<close>). \<open>settled\<close> logs every call of a promise's
  \<open>resolve\<close> or \<open>reject\<close>. A job's timer is armed exactly while its context is in the job map:
  each path that deletes the context calls the \<open>resolve\<close> or \<open>reject\<close> that clears it.
\<close>

subsection \<open>Data\<close>

datatype UrlReader = DefaultUrlReader | CustomUrlReader nat

record LoadPackageJob =
  packagePath :: string
  packageName :: string
  malloyConfig :: nat
  defaultConnectionName :: "string option"
  urlReader :: "UrlReader option"
  buildManifest :: "string option"
  replacement :: "(string \<times> string) option"
  collectProblems :: "bool option"

record SerializedError =
  err_name :: string
  err_message :: string
  err_stack :: "string option"
  malloyProblems :: "string list option"
  isCompilationError :: bool

text \<open>The errors a load may be rejected with.\<close>

datatype PoolError =
    PoolShuttingDown
  | ShutdownBeforeDispatch
  | JobTimedOut string
  | NotReadyInTime nat
  | ExitedBeforeReady nat int
  | ExitedUnexpectedly nat int
  | WorkerErrored string
  | PlainError string string "string option" "string list option"
  | ModelCompilationError string "string list option" "string option"

datatype ReadyPromise = Pending | Resolved | Rejected PoolError

text \<open>The messages a worker is sent.\<close>

datatype ToWorker =
    LoadPackage nat string string "string option" "string option"
      "(string \<times> string) option" "bool option"
  | ShutdownMsg

record JobContext =
  jc_worker :: nat
  jc_connections :: nat
  jc_urlReader :: UrlReader
  jc_ticket :: nat
  jc_path :: string

record QueuedJob =
  qj_request :: LoadPackageJob
  qj_ticket :: nat

record PoolWorker =
  ready :: ReadyPromise
  spawnTimer :: bool
  inFlight :: "nat list"
  exited :: bool

record 'p Pool =
  maxWorkers :: nat
  workers :: "nat list"
  heap :: "nat \<Rightarrow> PoolWorker option"
  queue :: "QueuedJob list"
  jobs :: "(nat \<times> JobContext) list"
  awaiting :: "(nat \<times> QueuedJob) list"
  nextWorkerId :: nat
  nextJobId :: nat
  nextTicket :: nat
  shuttingDown :: bool
  settled :: "(nat \<times> (PoolError + 'p)) list"
  posted :: "(nat \<times> ToWorker) list"
  terminated :: "nat list"

subsection \<open>Configuration\<close>

text \<open>\<open>getPackageLoadWorkerCount\<close> and the job timeout on the raw value of their variable.\<close>

definition getPackageLoadWorkerCount :: "string option \<Rightarrow> string + int" where
  "getPackageLoadWorkerCount raw =
     (case raw of None \<Rightarrow> Inr 1
      | Some r \<Rightarrow> (case js_parse_int r of
          None \<Rightarrow> Inl r
        | Some parsed \<Rightarrow> if parsed < 1 then Inl r else Inr parsed))"

definition PACKAGE_LOAD_JOB_TIMEOUT_MS :: "string option \<Rightarrow> int" where
  "PACKAGE_LOAD_JOB_TIMEOUT_MS raw =
     (case raw of None \<Rightarrow> 120000
      | Some r \<Rightarrow> (case js_parse_int r of
          None \<Rightarrow> 120000
        | Some parsed \<Rightarrow> if parsed \<le> 0 then 120000 else parsed))"

definition new_pool :: "nat \<Rightarrow> nat + 'p Pool" where
  "new_pool n =
     (if n < 1 then Inl n
      else Inr \<lparr>maxWorkers = n, workers = [], heap = (\<lambda>_. None), queue = [], jobs = [],
                awaiting = [], nextWorkerId = 0, nextJobId = 0, nextTicket = 0,
                shuttingDown = False, settled = [], posted = [], terminated = []\<rparr>)"

subsection \<open>Primitive updates\<close>

definition settle :: "nat \<Rightarrow> PoolError + 'p \<Rightarrow> 'p Pool \<Rightarrow> 'p Pool" where
  "settle t r st = st\<lparr>settled := settled st @ [(t, r)]\<rparr>"

definition upd_worker :: "nat \<Rightarrow> (PoolWorker \<Rightarrow> PoolWorker) \<Rightarrow> 'p Pool \<Rightarrow> 'p Pool" where
  "upd_worker w f st = st\<lparr>heap := (heap st)(w := map_option f (heap st w))\<rparr>"

definition post :: "nat \<Rightarrow> ToWorker \<Rightarrow> 'p Pool \<Rightarrow> 'p Pool" where
  "post w msg st = st\<lparr>posted := posted st @ [(w, msg)]\<rparr>"

definition terminate :: "nat \<Rightarrow> 'p Pool \<Rightarrow> 'p Pool" where
  "terminate w st = st\<lparr>terminated := terminated st @ [w]\<rparr>"

definition is_exited :: "'p Pool \<Rightarrow> nat \<Rightarrow> bool" where
  "is_exited st w = (case heap st w of None \<Rightarrow> True | Some p \<Rightarrow> exited p)"

definition in_flight :: "'p Pool \<Rightarrow> nat \<Rightarrow> nat list" where
  "in_flight st w = (case heap st w of None \<Rightarrow> [] | Some p \<Rightarrow> inFlight p)"

definition pool_size :: "'p Pool \<Rightarrow> nat" where
  "pool_size st = length (filter (\<lambda>w. \<not> is_exited st w) (workers st))"

definition readyReject :: "PoolError \<Rightarrow> PoolWorker \<Rightarrow> PoolWorker" where
  "readyReject e p = (case ready p of Pending \<Rightarrow> p\<lparr>ready := Rejected e\<rparr> | _ \<Rightarrow> p)"

definition readyResolve :: "PoolWorker \<Rightarrow> PoolWorker" where
  "readyResolve p = (case ready p of Pending \<Rightarrow> p\<lparr>ready := Resolved\<rparr> | _ \<Rightarrow> p)"

subsection \<open>Dispatch\<close>

definition spawnWorker :: "'p Pool \<Rightarrow> nat \<times> 'p Pool" where
  "spawnWorker st =
     (let i = nextWorkerId st + 1 in
      (i, st\<lparr>nextWorkerId := i,
             heap := (heap st)(i \<mapsto> \<lparr>ready = Pending, spawnTimer = True, inFlight = [],
                                        exited = False\<rparr>)\<rparr>))"

definition findIdleOrSpawnable :: "'p Pool \<Rightarrow> (nat \<times> 'p Pool) option" where
  "findIdleOrSpawnable st =
     (let alive = filter (\<lambda>w. \<not> is_exited st w) (workers st) in
      case List.find (\<lambda>w. in_flight st w = []) alive of
        Some w \<Rightarrow> Some (w, st)
      | None \<Rightarrow>
          if length alive < maxWorkers st
          then (let (w, st') = spawnWorker st in Some (w, st'\<lparr>workers := workers st' @ [w]\<rparr>))
          else None)"

text \<open>The loop of \<open>tryDispatch\<close>; the call of \<open>dispatchToWorker\<close> runs up to its \<open>await\<close>.\<close>

fun dispatch_loop :: "QueuedJob list \<Rightarrow> 'p Pool \<Rightarrow> 'p Pool" where
  "dispatch_loop [] st = st"
| "dispatch_loop (qj # qs) st =
     (case findIdleOrSpawnable st of
        None \<Rightarrow> st
      | Some (w, st') \<Rightarrow>
          dispatch_loop qs (st'\<lparr>queue := qs, awaiting := awaiting st' @ [(w, qj)]\<rparr>))"

definition tryDispatch :: "'p Pool \<Rightarrow> 'p Pool" where
  "tryDispatch st = (if shuttingDown st then st else dispatch_loop (queue st) st)"

definition loadPackage :: "LoadPackageJob \<Rightarrow> 'p Pool \<Rightarrow> 'p Pool" where
  "loadPackage request st =
     (let t = nextTicket st; st1 = st\<lparr>nextTicket := t + 1\<rparr> in
      if shuttingDown st then settle t (Inl PoolShuttingDown) st1
      else tryDispatch (st1\<lparr>queue := queue st1 @ [\<lparr>qj_request = request, qj_ticket = t\<rparr>]\<rparr>))"

text \<open>What \<open>dispatchToWorker\<close> does after \<open>await pw.ready\<close>, by how the promise settled.\<close>

definition dispatch_ready :: "nat \<Rightarrow> QueuedJob \<Rightarrow> 'p Pool \<Rightarrow> 'p Pool" where
  "dispatch_ready w qj st =
     (let j = nextJobId st + 1; r = qj_request qj;
          ctx = \<lparr>jc_worker = w, jc_connections = malloyConfig r,
                 jc_urlReader = (case urlReader r of None \<Rightarrow> DefaultUrlReader | Some u \<Rightarrow> u),
                 jc_ticket = qj_ticket qj, jc_path = packagePath r\<rparr>;
          st1 = st\<lparr>nextJobId := j, jobs := AList.update j ctx (jobs st)\<rparr>;
          st2 = upd_worker w (\<lambda>p. p\<lparr>inFlight := inFlight p @ [j]\<rparr>) st1
      in post w (LoadPackage j (packagePath r) (packageName r) (defaultConnectionName r)
                  (buildManifest r) (replacement r) (collectProblems r)) st2)"

definition dispatch_failed :: "PoolError \<Rightarrow> QueuedJob \<Rightarrow> 'p Pool \<Rightarrow> 'p Pool" where
  "dispatch_failed e qj st = tryDispatch (settle (qj_ticket qj) (Inl e) st)"

subsection \<open>The event loop\<close>

definition settled_ready :: "'p Pool \<Rightarrow> nat \<Rightarrow> bool" where
  "settled_ready st w = (case heap st w of None \<Rightarrow> False | Some p \<Rightarrow> ready p \<noteq> Pending)"

text \<open>One resumption: the oldest suspended call whose promise has settled.\<close>

definition resume :: "'p Pool \<Rightarrow> 'p Pool option" where
  "resume st =
     (case List.extract (\<lambda>(w, _). settled_ready st w) (awaiting st) of
        None \<Rightarrow> None
      | Some (before, (w, qj), rest) \<Rightarrow>
          (let st1 = st\<lparr>awaiting := before @ rest\<rparr> in
           case heap st w of
             Some p \<Rightarrow> (case ready p of
                 Rejected e \<Rightarrow> Some (dispatch_failed e qj st1)
               | _ \<Rightarrow> Some (dispatch_ready w qj st1))
           | None \<Rightarrow> None))"

lemma dispatch_loop_measure:
  "queue st = qs \<Longrightarrow>
   length (queue (dispatch_loop qs st)) + length (awaiting (dispatch_loop qs st))
     = length (queue st) + length (awaiting st)"
proof (induction qs arbitrary: st)
  case Nil
  then show ?case by simp
next
  case (Cons qj qs)
  show ?case
  proof (cases "findIdleOrSpawnable st")
    case None
    then show ?thesis by simp
  next
    case (Some a)
    obtain w st' where a: "a = (w, st')" by (cases a)
    have same: "awaiting st' = awaiting st"
      using Some a by (auto simp: findIdleOrSpawnable_def spawnWorker_def Let_def
          split: option.splits if_splits)
    show ?thesis
      using Cons.IH [of "st'\<lparr>queue := qs, awaiting := awaiting st' @ [(w, qj)]\<rparr>"]
        Cons.prems Some a same by simp
  qed
qed

lemma tryDispatch_measure:
  "length (queue (tryDispatch st)) + length (awaiting (tryDispatch st))
     = length (queue st) + length (awaiting st)"
  by (simp add: tryDispatch_def dispatch_loop_measure)

lemma resume_measure:
  assumes "resume st = Some st'"
  shows "length (queue st') + length (awaiting st') < length (queue st) + length (awaiting st)"
proof -
  obtain before w qj rest where
    x: "List.extract (\<lambda>(w, _). settled_ready st w) (awaiting st) = Some (before, (w, qj), rest)"
    using assms by (auto simp: resume_def split: option.splits)
  have len: "length (awaiting st) = Suc (length (before @ rest))"
    using x by (simp add: List.extract_Some_iff)
  show ?thesis
    using assms x len tryDispatch_measure
    by (auto simp: resume_def dispatch_failed_def dispatch_ready_def settle_def post_def
        upd_worker_def Let_def tryDispatch_measure split: option.splits ReadyPromise.splits)
qed

text \<open>The event loop resumes every call whose promise has settled before the next event.\<close>

function drain :: "'p Pool \<Rightarrow> 'p Pool" where
  "drain st = (case resume st of None \<Rightarrow> st | Some st' \<Rightarrow> drain st')"
  by pat_completeness auto
termination
  by (relation "measure (\<lambda>st. length (queue st) + length (awaiting st))")
     (auto simp: resume_measure)

declare drain.simps [simp del]

subsection \<open>Settling a job\<close>

definition remove_job :: "nat \<Rightarrow> nat \<Rightarrow> 'p Pool \<Rightarrow> 'p Pool" where
  "remove_job w j st =
     upd_worker w (\<lambda>p. p\<lparr>inFlight := removeAll j (inFlight p)\<rparr>)
       (st\<lparr>jobs := AList.delete j (jobs st)\<rparr>)"

definition completeJob :: "nat \<Rightarrow> nat \<Rightarrow> 'p \<Rightarrow> 'p Pool \<Rightarrow> 'p Pool" where
  "completeJob w j result st =
     (case map_of (jobs st) j of
        None \<Rightarrow> st
      | Some ctx \<Rightarrow> tryDispatch (settle (jc_ticket ctx) (Inr result) (remove_job w j st)))"

text \<open>
  An error crosses the worker boundary as data: a compile error is rebuilt as a
  \<open>ModelCompilationError\<close> (which downstream code maps to HTTP 424), any other keeps its name.
\<close>

definition deserializeError :: "SerializedError \<Rightarrow> PoolError" where
  "deserializeError s =
     (if isCompilationError s
      then ModelCompilationError (err_message s) (malloyProblems s) (err_stack s)
      else PlainError (err_name s) (err_message s) (err_stack s) (malloyProblems s))"

definition errorJob :: "nat \<Rightarrow> nat \<Rightarrow> SerializedError \<Rightarrow> 'p Pool \<Rightarrow> 'p Pool" where
  "errorJob w j err st =
     (case map_of (jobs st) j of
        None \<Rightarrow> st
      | Some ctx \<Rightarrow>
          tryDispatch (settle (jc_ticket ctx) (Inl (deserializeError err)) (remove_job w j st)))"

definition failJob :: "nat \<Rightarrow> PoolError \<Rightarrow> 'p Pool \<Rightarrow> 'p Pool" where
  "failJob j e st =
     (case map_of (jobs st) j of
        None \<Rightarrow> st
      | Some ctx \<Rightarrow> settle (jc_ticket ctx) (Inl e) (remove_job (jc_worker ctx) j st))"

definition handleJobTimeout :: "nat \<Rightarrow> nat \<Rightarrow> string \<Rightarrow> 'p Pool \<Rightarrow> 'p Pool" where
  "handleJobTimeout w j path st = terminate w (failJob j (JobTimedOut path) st)"

subsection \<open>Worker callbacks and shutdown\<close>

definition on_ready :: "nat \<Rightarrow> 'p Pool \<Rightarrow> 'p Pool" where
  "on_ready w st = upd_worker w (\<lambda>p. readyResolve (p\<lparr>spawnTimer := False\<rparr>)) st"

definition on_spawn_timeout :: "nat \<Rightarrow> 'p Pool \<Rightarrow> 'p Pool" where
  "on_spawn_timeout w st =
     terminate w (upd_worker w (\<lambda>p. readyReject (NotReadyInTime w) (p\<lparr>spawnTimer := False\<rparr>)) st)"

definition on_error :: "nat \<Rightarrow> string \<Rightarrow> 'p Pool \<Rightarrow> 'p Pool" where
  "on_error w err st =
     upd_worker w (\<lambda>p. readyReject (WorkerErrored err) (p\<lparr>spawnTimer := False\<rparr>)) st"

definition mark_exited :: "nat \<Rightarrow> int \<Rightarrow> 'p Pool \<Rightarrow> 'p Pool" where
  "mark_exited w code st =
     upd_worker w (\<lambda>p. readyReject (ExitedBeforeReady w code)
                          (p\<lparr>exited := True, spawnTimer := False\<rparr>)) st"

definition on_exit :: "nat \<Rightarrow> int \<Rightarrow> 'p Pool \<Rightarrow> 'p Pool" where
  "on_exit w code st =
     (let st1 = mark_exited w code st;
          st2 = fold (\<lambda>j. failJob j (ExitedUnexpectedly w code)) (in_flight st1 w) st1;
          st3 = upd_worker w (\<lambda>p. p\<lparr>inFlight := []\<rparr>) st2;
          st4 = st3\<lparr>workers := remove1 w (workers st3)\<rparr>
      in tryDispatch st4)"

definition shutdown :: "'p Pool \<Rightarrow> 'p Pool" where
  "shutdown st =
     (if shuttingDown st then st
      else let queued = queue st;
               st1 = st\<lparr>shuttingDown := True, queue := []\<rparr>;
               st2 = fold (\<lambda>qj. settle (qj_ticket qj) (Inl ShutdownBeforeDispatch)) queued st1
           in fold (\<lambda>w s. if is_exited s w then s else post w ShutdownMsg s) (workers st2) st2)"

subsection \<open>Events\<close>

datatype 'p Event =
    Submit LoadPackageJob
  | Shutdown
  | Ready nat
  | Result nat nat 'p
  | ErrorResult nat nat SerializedError
  | SpawnTimeout nat
  | WorkerError nat string
  | WorkerExit nat int
  | JobTimeout nat

text \<open>One event, run to the point where the event loop takes the next one.\<close>

definition handler :: "'p Event \<Rightarrow> 'p Pool \<Rightarrow> 'p Pool" where
  "handler ev st =
     (case ev of
        Submit r \<Rightarrow> loadPackage r st
      | Shutdown \<Rightarrow> shutdown st
      | Ready w \<Rightarrow> on_ready w st
      | Result w j p \<Rightarrow> completeJob w j p st
      | ErrorResult w j e \<Rightarrow> errorJob w j e st
      | SpawnTimeout w \<Rightarrow> on_spawn_timeout w st
      | WorkerError w e \<Rightarrow> on_error w e st
      | WorkerExit w c \<Rightarrow> on_exit w c st
      | JobTimeout j \<Rightarrow> (case map_of (jobs st) j of
            None \<Rightarrow> st | Some ctx \<Rightarrow> handleJobTimeout (jc_worker ctx) j (jc_path ctx) st))"

definition pool_step :: "'p Event \<Rightarrow> 'p Pool \<Rightarrow> 'p Pool" where
  "pool_step ev st = drain (handler ev st)"

text \<open>
  Which events the runtime can deliver: a worker that has not exited may send a message, fail
  or exit, and exits once; it answers only loads it was sent; a timer fires only while armed.
\<close>

definition has_load :: "nat \<Rightarrow> nat \<Rightarrow> 'p Pool \<Rightarrow> bool" where
  "has_load w j st =
     list_ex (\<lambda>(v, msg). v = w \<and> (case msg of LoadPackage i _ _ _ _ _ _ \<Rightarrow> i = j | _ \<Rightarrow> False))
       (posted st)"

fun enabled :: "'p Event \<Rightarrow> 'p Pool \<Rightarrow> bool" where
  "enabled (Submit r) st = True"
| "enabled Shutdown st = True"
| "enabled (Ready w) st = (\<not> is_exited st w)"
| "enabled (Result w j p) st = (\<not> is_exited st w \<and> has_load w j st)"
| "enabled (ErrorResult w j e) st = (\<not> is_exited st w \<and> has_load w j st)"
| "enabled (SpawnTimeout w) st = (case heap st w of None \<Rightarrow> False | Some p \<Rightarrow> spawnTimer p)"
| "enabled (WorkerError w e) st = (\<not> is_exited st w)"
| "enabled (WorkerExit w c) st = (\<not> is_exited st w)"
| "enabled (JobTimeout j) st = (map_of (jobs st) j \<noteq> None)"

inductive reachable :: "'p Pool \<Rightarrow> bool" where
  start: "new_pool n = Inr st \<Longrightarrow> reachable st"
| step: "reachable st \<Longrightarrow> enabled ev st \<Longrightarrow> reachable (pool_step ev st)"

text \<open>A run: events delivered in turn, \<open>None\<close> when one of them cannot occur.\<close>

fun run_events :: "'p Event list \<Rightarrow> 'p Pool \<Rightarrow> 'p Pool option" where
  "run_events [] st = Some st"
| "run_events (ev # evs) st = (if enabled ev st then run_events evs (pool_step ev st) else None)"

lemma run_events_reachable: "reachable st \<Longrightarrow> run_events evs st = Some st' \<Longrightarrow> reachable st'"
  by (induction evs arbitrary: st) (auto split: if_splits intro: reachable.step)

subsection \<open>Invariants\<close>

definition owned :: "'p Pool \<Rightarrow> nat list" where
  "owned st = map qj_ticket (queue st) @ map (qj_ticket \<circ> snd) (awaiting st) @
     map (jc_ticket \<circ> snd) (jobs st) @ map fst (settled st)"

definition inv_tickets :: "'p Pool \<Rightarrow> bool" where
  "inv_tickets st \<longleftrightarrow> mset (owned st) = mset [0..<nextTicket st]"

definition inv_jobs :: "'p Pool \<Rightarrow> bool" where
  "inv_jobs st \<longleftrightarrow>
     distinct (map fst (jobs st)) \<and>
     (\<forall>j ctx. map_of (jobs st) j = Some ctx \<longrightarrow>
        j \<le> nextJobId st \<and> j \<in> set (in_flight st (jc_worker ctx))) \<and>
     (\<forall>w j. j \<in> set (in_flight st w) \<longrightarrow>
        (\<exists>ctx. map_of (jobs st) j = Some ctx \<and> jc_worker ctx = w)) \<and>
     (\<forall>w j. has_load w j st \<longrightarrow> j \<le> nextJobId st \<and>
        (\<forall>ctx. map_of (jobs st) j = Some ctx \<longrightarrow> jc_worker ctx = w))"

text \<open>Suspended dispatches name worker objects; no call waits for ever on an exited worker.\<close>

definition inv_await :: "'p Pool \<Rightarrow> bool" where
  "inv_await st \<longleftrightarrow>
     (\<forall>(w, qj) \<in> set (awaiting st). \<exists>p. heap st w = Some p \<and> (ready p = Resolved \<longrightarrow> \<not> exited p))
     \<and> (\<forall>w p. heap st w = Some p \<and> exited p \<longrightarrow> ready p \<noteq> Pending)"

text \<open>The array holds the workers that have not exited, and those in \<open>X\<close> that are exiting.\<close>

definition inv_workers :: "nat set \<Rightarrow> 'p Pool \<Rightarrow> bool" where
  "inv_workers X st \<longleftrightarrow>
     (\<forall>w. w \<in> set (workers st) \<longleftrightarrow> (\<exists>p. heap st w = Some p \<and> (exited p \<longrightarrow> w \<in> X))) \<and>
     (\<forall>w p. heap st w = Some p \<and> exited p \<and> w \<notin> X \<longrightarrow> inFlight p = []) \<and>
     (\<forall>w p. heap st w = Some p \<longrightarrow> w \<le> nextWorkerId st) \<and>
     distinct (workers st) \<and> length (workers st) \<le> maxWorkers st \<and> 1 \<le> maxWorkers st"

text \<open>A load waits in the queue only while there is a worker whose end will dispatch it.\<close>

definition inv_queue :: "'p Pool \<Rightarrow> bool" where
  "inv_queue st \<longleftrightarrow> (queue st \<noteq> [] \<longrightarrow> workers st \<noteq> [] \<and> \<not> shuttingDown st)"

definition quiescent :: "'p Pool \<Rightarrow> bool" where
  "quiescent st \<longleftrightarrow> (\<forall>(w, qj) \<in> set (awaiting st). \<not> settled_ready st w)"

definition inv_core :: "nat set \<Rightarrow> 'p Pool \<Rightarrow> bool" where
  "inv_core X st \<longleftrightarrow> inv_tickets st \<and> inv_jobs st \<and> inv_await st \<and> inv_workers X st"

definition pool_inv :: "'p Pool \<Rightarrow> bool" where
  "pool_inv st \<longleftrightarrow> inv_core {} st \<and> inv_queue st"

lemma inv_coreI:
  "inv_tickets st \<Longrightarrow> inv_jobs st \<Longrightarrow> inv_await st \<Longrightarrow> inv_workers X st \<Longrightarrow> inv_core X st"
  by (simp add: inv_core_def)

lemma AList_delete_mset:
  "distinct (map fst al) \<Longrightarrow> map_of al k = Some v \<Longrightarrow>
   mset al = add_mset (k, v) (mset (AList.delete k al))"
proof (induction al)
  case (Cons a al)
  then show ?case by (cases a) (auto simp: delete_notin_dom map_of_eq_None_iff)
qed simp

lemma AList_update_fresh: "k \<notin> fst ` set al \<Longrightarrow> AList.update k v al = al @ [(k, v)]"
  by (induction al) auto

lemma upd_worker_sel [simp]:
  "maxWorkers (upd_worker w f st) = maxWorkers st" "workers (upd_worker w f st) = workers st"
  "queue (upd_worker w f st) = queue st" "jobs (upd_worker w f st) = jobs st"
  "awaiting (upd_worker w f st) = awaiting st" "nextWorkerId (upd_worker w f st) = nextWorkerId st"
  "nextJobId (upd_worker w f st) = nextJobId st" "nextTicket (upd_worker w f st) = nextTicket st"
  "shuttingDown (upd_worker w f st) = shuttingDown st" "settled (upd_worker w f st) = settled st"
  "posted (upd_worker w f st) = posted st"
  "heap (upd_worker w f st) = (heap st)(w := map_option f (heap st w))"
  by (simp_all add: upd_worker_def)

lemma settle_sel [simp]:
  "maxWorkers (settle t r st) = maxWorkers st" "workers (settle t r st) = workers st"
  "queue (settle t r st) = queue st" "jobs (settle t r st) = jobs st"
  "awaiting (settle t r st) = awaiting st" "nextWorkerId (settle t r st) = nextWorkerId st"
  "nextJobId (settle t r st) = nextJobId st" "nextTicket (settle t r st) = nextTicket st"
  "shuttingDown (settle t r st) = shuttingDown st" "posted (settle t r st) = posted st"
  "heap (settle t r st) = heap st" "settled (settle t r st) = settled st @ [(t, r)]"
  by (simp_all add: settle_def)

lemma post_sel [simp]:
  "maxWorkers (post w msg st) = maxWorkers st" "workers (post w msg st) = workers st"
  "queue (post w msg st) = queue st" "jobs (post w msg st) = jobs st"
  "awaiting (post w msg st) = awaiting st" "nextWorkerId (post w msg st) = nextWorkerId st"
  "nextJobId (post w msg st) = nextJobId st" "nextTicket (post w msg st) = nextTicket st"
  "shuttingDown (post w msg st) = shuttingDown st" "settled (post w msg st) = settled st"
  "heap (post w msg st) = heap st" "posted (post w msg st) = posted st @ [(w, msg)]"
  by (simp_all add: post_def)

lemma terminate_sel [simp]:
  "maxWorkers (terminate w st) = maxWorkers st" "workers (terminate w st) = workers st"
  "queue (terminate w st) = queue st" "jobs (terminate w st) = jobs st"
  "awaiting (terminate w st) = awaiting st" "nextWorkerId (terminate w st) = nextWorkerId st"
  "nextJobId (terminate w st) = nextJobId st" "nextTicket (terminate w st) = nextTicket st"
  "shuttingDown (terminate w st) = shuttingDown st" "settled (terminate w st) = settled st"
  "heap (terminate w st) = heap st" "posted (terminate w st) = posted st"
  by (simp_all add: terminate_def)

declare map_of_eq_Some_iff [simp del]

lemmas inv_defs = inv_tickets_def inv_jobs_def inv_await_def inv_workers_def
lemmas view_defs = owned_def in_flight_def has_load_def is_exited_def settled_ready_def

text \<open>Each invariant reads few fields: an update elsewhere keeps it.\<close>

lemma inv_jobs_cong:
  "jobs st' = jobs st \<Longrightarrow> nextJobId st' = nextJobId st \<Longrightarrow> heap st' = heap st \<Longrightarrow>
   (\<And>w j. has_load w j st' = has_load w j st) \<Longrightarrow> inv_jobs st' = inv_jobs st"
  unfolding inv_jobs_def in_flight_def by simp

lemma inv_workers_cong:
  "workers st' = workers st \<Longrightarrow> nextWorkerId st' = nextWorkerId st \<Longrightarrow> heap st' = heap st \<Longrightarrow>
   maxWorkers st' = maxWorkers st \<Longrightarrow> inv_workers X st' = inv_workers X st"
  unfolding inv_workers_def by simp

lemma inv_await_cong:
  "awaiting st' = awaiting st \<Longrightarrow> heap st' = heap st \<Longrightarrow> inv_await st' = inv_await st"
  unfolding inv_await_def by simp

text \<open>Settling a job: its context leaves the map, its id leaves its worker, its ticket is logged.\<close>

lemma settle_job_inv:
  assumes inv: "inv_core X st" and job: "map_of (jobs st) j = Some ctx" and w: "jc_worker ctx = w"
  shows "inv_core X (settle (jc_ticket ctx) r (remove_job w j st))"
proof (rule inv_coreI)
  let ?st = "settle (jc_ticket ctx) r (remove_job w j st)"
  have d: "distinct (map fst (jobs st))" using inv by (simp add: inv_core_def inv_jobs_def)
  have "mset (map (jc_ticket \<circ> snd) (jobs st))
      = add_mset (jc_ticket ctx) (mset (map (jc_ticket \<circ> snd) (AList.delete j (jobs st))))"
    using arg_cong [OF AList_delete_mset [OF d job], of "image_mset (jc_ticket \<circ> snd)"] by simp
  then show "inv_tickets ?st"
    using inv by (simp add: inv_core_def inv_tickets_def owned_def remove_job_def)
  have del: "map_of (AList.delete j (jobs st)) k = (if k = j then None else map_of (jobs st) k)" for k
    by (simp add: delete_conv)
  have fl: "in_flight ?st v = (if v = w then removeAll j (in_flight st v) else in_flight st v)" for v
    by (auto simp: in_flight_def remove_job_def split: option.splits)
  have J: "inv_jobs st" using inv by (simp add: inv_core_def)
  have "jobs ?st = AList.delete j (jobs st)" "nextJobId ?st = nextJobId st"
    "has_load v k ?st = has_load v k st" for v k
    by (simp_all add: remove_job_def has_load_def)
  then show "inv_jobs ?st"
    using J job w unfolding inv_jobs_def fl
    by (simp add: del distinct_delete split: if_splits) (metis option.inject)
  show "inv_await ?st"
    using inv by (fastforce simp: inv_core_def inv_await_def remove_job_def)
  show "inv_workers X ?st"
    using inv by (fastforce simp: inv_core_def inv_workers_def remove_job_def)
qed

lemma failJob_inv: "inv_core X st \<Longrightarrow> inv_core X (failJob j e st)"
  by (auto simp: failJob_def settle_job_inv split: option.split)

lemma spawn_inv:
  assumes inv: "inv_core {} st" and room: "length (workers st) < maxWorkers st"
    and sp: "spawnWorker st = (w, st')"
  shows "inv_core {} (st'\<lparr>workers := workers st' @ [w]\<rparr>)"
    and "heap st' w = Some \<lparr>ready = Pending, spawnTimer = True, inFlight = [], exited = False\<rparr>"
    and "queue st' = queue st" "awaiting st' = awaiting st" "shuttingDown st' = shuttingDown st"
proof -
  let ?st = "st'\<lparr>workers := workers st' @ [w]\<rparr>"
  have fresh: "heap st (nextWorkerId st + 1) = None"
    using inv unfolding inv_core_def inv_workers_def by (metis Suc_eq_plus1 not_less_eq_eq not_Some_eq order_refl)
  have w: "w = nextWorkerId st + 1"
    and st': "st' = st\<lparr>nextWorkerId := w, heap := (heap st)(w \<mapsto> \<lparr>ready = Pending,
        spawnTimer = True, inFlight = [], exited = False\<rparr>)\<rparr>"
    using sp by (auto simp: spawnWorker_def Let_def)
  have fl: "in_flight ?st v = in_flight st v" for v
    using fresh by (auto simp: in_flight_def st' w)
  have new: "w \<notin> set (workers st)"
    using inv fresh by (auto simp: inv_core_def inv_workers_def w)
  show "inv_core {} ?st"
  proof (rule inv_coreI)
    show "inv_tickets ?st" using inv by (simp add: inv_core_def inv_tickets_def owned_def st')
    have "has_load v j ?st = has_load v j st" for v j by (simp add: has_load_def st')
    then show "inv_jobs ?st" using inv unfolding inv_core_def inv_jobs_def fl by (simp add: st')
    show "inv_await ?st"
      using inv by (fastforce simp: inv_core_def inv_await_def st')
    show "inv_workers {} ?st"
      using inv room new by (auto simp: inv_core_def inv_workers_def st' w le_SucI)
  qed
  show "heap st' w = Some \<lparr>ready = Pending, spawnTimer = True, inFlight = [], exited = False\<rparr>"
    "queue st' = queue st" "awaiting st' = awaiting st" "shuttingDown st' = shuttingDown st"
    by (simp_all add: st')
qed

lemma alive_workers:
  assumes "inv_workers {} st"
  shows "filter (\<lambda>w. \<not> is_exited st w) (workers st) = workers st"
  using assms by (auto simp: inv_workers_def is_exited_def filter_id_conv)

lemma find_worker_inv:
  assumes inv: "inv_core {} st" and found: "findIdleOrSpawnable st = Some (w, st')"
  shows "inv_core {} st'" and "\<exists>p. heap st' w = Some p \<and> \<not> exited p" and "queue st' = queue st"
    and "awaiting st' = awaiting st" and "shuttingDown st' = shuttingDown st" and "workers st' \<noteq> []"
proof -
  note al = alive_workers [of st]
  have W: "inv_workers {} st" using inv by (simp add: inv_core_def)
  have "inv_core {} st' \<and> (\<exists>p. heap st' w = Some p \<and> \<not> exited p) \<and> queue st' = queue st
      \<and> awaiting st' = awaiting st \<and> shuttingDown st' = shuttingDown st \<and> workers st' \<noteq> []"
  proof (cases "List.find (\<lambda>w. in_flight st w = []) (workers st)")
    case None
    then have room: "length (workers st) < maxWorkers st"
      and sp: "spawnWorker st = (w, snd (spawnWorker st))"
      and st': "st' = (snd (spawnWorker st))\<lparr>workers := workers (snd (spawnWorker st)) @ [w]\<rparr>"
      using found by (auto simp: findIdleOrSpawnable_def al [OF W] Let_def split: if_splits prod.splits)
    show ?thesis using spawn_inv [OF inv room sp] by (simp add: st')
  next
    case (Some v)
    then have "st' = st" "w = v"
      using found by (simp_all add: findIdleOrSpawnable_def al [OF W] Let_def)
    moreover have "v \<in> set (workers st)" using Some by (auto simp: find_Some_iff)
    ultimately have "st' = st" "w = v" "v \<in> set (workers st)" by auto
    then show ?thesis using inv W by (auto simp: inv_workers_def)
  qed
  then show "inv_core {} st'" "\<exists>p. heap st' w = Some p \<and> \<not> exited p" "queue st' = queue st"
    "awaiting st' = awaiting st" "shuttingDown st' = shuttingDown st" "workers st' \<noteq> []"
    by auto
qed

lemma find_worker_None:
  assumes "inv_core {} st" and "findIdleOrSpawnable st = None"
  shows "workers st \<noteq> []" and "\<forall>w \<in> set (workers st). in_flight st w \<noteq> []"
    and "length (workers st) = maxWorkers st"
proof -
  have W: "inv_workers {} st" using assms by (simp add: inv_core_def)
  have "List.find (\<lambda>w. in_flight st w = []) (workers st) = None"
    and full: "\<not> length (workers st) < maxWorkers st"
    using assms(2) by (auto simp: findIdleOrSpawnable_def alive_workers [OF W] Let_def
        split: option.splits if_splits prod.splits)
  then show "\<forall>w \<in> set (workers st). in_flight st w \<noteq> []" by (auto simp: find_None_iff)
  show "workers st \<noteq> []" "length (workers st) = maxWorkers st"
    using full W by (auto simp: inv_workers_def)
qed

lemma dispatch_one_inv:
  assumes inv: "inv_core {} st" and q: "queue st = qj # qs"
    and w: "\<exists>p. heap st w = Some p \<and> \<not> exited p"
  shows "inv_core {} (st\<lparr>queue := qs, awaiting := awaiting st @ [(w, qj)]\<rparr>)" (is "inv_core {} ?st")
proof (rule inv_coreI)
  show "inv_tickets ?st" using inv q by (simp add: inv_core_def inv_tickets_def owned_def)
  show "inv_jobs ?st"
    using inv by (subst inv_jobs_cong [of _ st]) (auto simp: inv_core_def has_load_def)
  show "inv_await ?st" using inv w by (auto simp: inv_core_def inv_await_def)
  show "inv_workers {} ?st"
    using inv by (subst inv_workers_cong [of _ st]) (auto simp: inv_core_def)
qed

lemma dispatch_loop_inv:
  "inv_core {} st \<Longrightarrow> queue st = qs \<Longrightarrow> \<not> shuttingDown st \<Longrightarrow> pool_inv (dispatch_loop qs st)"
proof (induction qs arbitrary: st)
  case Nil
  then show ?case by (simp add: pool_inv_def inv_queue_def)
next
  case (Cons qj qs)
  show ?case
  proof (cases "findIdleOrSpawnable st")
    case None
    with Cons.prems show ?thesis
      by (simp add: pool_inv_def inv_queue_def find_worker_None(1))
  next
    case (Some a)
    obtain w st' where a: "a = (w, st')" by (cases a)
    note f = find_worker_inv [OF Cons.prems(1) Some [unfolded a]]
    show ?thesis
      using Cons.IH [OF dispatch_one_inv [OF f(1) _ f(2), of qj qs]] Cons.prems f Some a by simp
  qed
qed

lemma tryDispatch_inv:
  "inv_core {} st \<Longrightarrow> queue st = [] \<or> \<not> shuttingDown st \<Longrightarrow> pool_inv (tryDispatch st)"
  using dispatch_loop_inv [of st "queue st"]
  by (cases "shuttingDown st") (auto simp: tryDispatch_def pool_inv_def inv_queue_def)

text \<open>Resuming a suspended dispatch.\<close>

lemma dispatch_ready_inv:
  assumes inv: "inv_core {} st" and aw: "awaiting st = before @ (w, qj) # rest"
    and w: "heap st w = Some p" "ready p = Resolved"
  shows "inv_core {} (dispatch_ready w qj (st\<lparr>awaiting := before @ rest\<rparr>))" (is "inv_core {} ?st")
proof (rule inv_coreI)
  have J: "inv_jobs st" and A: "inv_await st" and W: "inv_workers {} st"
    using inv by (simp_all add: inv_core_def)
  have J1: "map_of (jobs st) j = Some ctx \<Longrightarrow> j \<le> nextJobId st \<and> j \<noteq> Suc (nextJobId st)"
    "map_of (jobs st) j = Some ctx \<Longrightarrow> jc_worker ctx = v \<Longrightarrow> j \<in> set (in_flight st v)"
    and J2: "j \<in> set (in_flight st v) \<Longrightarrow>
        j \<noteq> Suc (nextJobId st) \<and> (\<exists>ctx. map_of (jobs st) j = Some ctx \<and> jc_worker ctx = v)"
    and J3: "has_load v j st \<Longrightarrow> j \<le> nextJobId st \<and> j \<noteq> Suc (nextJobId st)"
        "has_load v j st \<Longrightarrow> map_of (jobs st) j = Some ctx \<Longrightarrow> jc_worker ctx = v" for j v ctx
    using J unfolding inv_jobs_def by (metis Suc_n_not_le_n)+
  have live: "\<not> exited p" using A aw w by (auto simp: inv_await_def)
  have fresh: "nextJobId st + 1 \<notin> fst ` set (jobs st)"
    using J by (metis (no_types, lifting) Suc_eq_plus1 inv_jobs_def map_of_eq_None_iff not_less_eq_eq
        not_Some_eq order_refl)
  obtain c where js: "jobs ?st = jobs st @ [(nextJobId st + 1, c)]" and c: "jc_worker c = w"
      "jc_ticket c = qj_ticket qj"
    using AList_update_fresh [OF fresh] by (simp add: dispatch_ready_def Let_def)
  have hp: "heap ?st = (heap st)(w \<mapsto> p\<lparr>inFlight := inFlight p @ [nextJobId st + 1]\<rparr>)"
    and po: "\<exists>a b c d e f. posted ?st
        = posted st @ [(w, LoadPackage (nextJobId st + 1) a b c d e f)]"
    and nj: "nextJobId ?st = nextJobId st + 1"
    and oth: "queue ?st = queue st" "awaiting ?st = before @ rest" "settled ?st = settled st"
      "nextTicket ?st = nextTicket st" "workers ?st = workers st" "maxWorkers ?st = maxWorkers st"
      "nextWorkerId ?st = nextWorkerId st"
    using w by (auto simp: dispatch_ready_def Let_def)
  show "inv_tickets ?st"
    using inv c by (simp add: inv_core_def inv_tickets_def owned_def js oth aw)
  have mo: "map_of (jobs ?st) k = (if k = nextJobId st + 1 then Some c else map_of (jobs st) k)" for k
  proof (cases "k = nextJobId st + 1")
    case True
    then have "map_of (jobs st) k = None" using fresh by (simp add: map_of_eq_None_iff)
    with True show ?thesis by (simp add: js map_add_def)
  next
    case False
    then show ?thesis by (simp add: js map_add_def split: option.split)
  qed
  have fl: "in_flight ?st v
      = (if v = w then in_flight st w @ [nextJobId st + 1] else in_flight st v)" for v
    using w by (auto simp: in_flight_def hp)
  have hl: "has_load v k ?st \<longleftrightarrow> has_load v k st \<or> (v = w \<and> k = nextJobId st + 1)" for v k
    using po by (auto simp: has_load_def)
  show "inv_jobs ?st"
    unfolding inv_jobs_def mo fl hl nj
  proof (intro conjI allI impI, goal_cases)
    case 1
    then show ?case using J fresh by (auto simp: js inv_jobs_def)
  qed (use c in \<open>auto simp: le_SucI split: if_splits dest: J1 J2 J3\<close>)
  show "inv_await ?st"
    using A live w unfolding inv_await_def oth aw hp by (fastforce split: if_splits)
  show "inv_workers {} ?st"
    using W live w unfolding inv_workers_def oth hp by (auto split: if_splits)
qed

lemma settle_await_inv:
  assumes inv: "inv_core {} st" and aw: "awaiting st = before @ (w, qj) # rest"
  shows "inv_core {} (settle (qj_ticket qj) r (st\<lparr>awaiting := before @ rest\<rparr>))" (is "inv_core {} ?st")
proof (rule inv_coreI)
  show "inv_tickets ?st" using inv aw by (simp add: inv_core_def inv_tickets_def owned_def)
  show "inv_jobs ?st"
    using inv by (subst inv_jobs_cong [of _ st]) (auto simp: inv_core_def has_load_def)
  show "inv_await ?st" using inv aw by (auto simp: inv_core_def inv_await_def)
  show "inv_workers {} ?st"
    using inv by (subst inv_workers_cong [of _ st]) (auto simp: inv_core_def)
qed

lemma resume_cases:
  assumes "resume st = Some st'"
  obtains before w qj rest p where "awaiting st = before @ (w, qj) # rest" "heap st w = Some p"
    "ready p = Resolved" "st' = dispatch_ready w qj (st\<lparr>awaiting := before @ rest\<rparr>)"
  | before w qj rest p e where "awaiting st = before @ (w, qj) # rest" "heap st w = Some p"
    "ready p = Rejected e" "st' = dispatch_failed e qj (st\<lparr>awaiting := before @ rest\<rparr>)"
  using assms
  by (auto simp: resume_def List.extract_Some_iff settled_ready_def Let_def
      split: option.splits ReadyPromise.splits)

lemma resume_inv:
  assumes inv: "pool_inv st" and r: "resume st = Some st'"
  shows "pool_inv st'"
  using r
proof (cases rule: resume_cases)
  case (1 before w qj rest p)
  have "inv_core {} st" using inv by (simp add: pool_inv_def)
  then have "inv_core {} st'" unfolding 1(4) by (rule dispatch_ready_inv [OF _ 1(1-3)])
  moreover have "queue st' = queue st" "workers st' = workers st" "shuttingDown st' = shuttingDown st"
    using 1 by (simp_all add: dispatch_ready_def Let_def)
  ultimately show ?thesis using inv by (simp add: pool_inv_def inv_queue_def)
next
  case (2 before w qj rest p e)
  show ?thesis
    unfolding 2(4) dispatch_failed_def
    using settle_await_inv [OF _ 2(1)] inv
    by (intro tryDispatch_inv) (auto simp: pool_inv_def inv_queue_def)
qed

lemma drain_inv: "pool_inv st \<Longrightarrow> pool_inv (drain st)"
proof (induction st rule: drain.induct)
  case (1 st)
  then show ?case by (subst drain.simps) (auto split: option.split intro: resume_inv)
qed

lemma drain_quiescent:
  assumes "pool_inv st"
  shows "quiescent (drain st)"
  using assms
proof (induction st rule: drain.induct)
  case (1 st)
  show ?case
  proof (cases "resume st")
    case None
    have "quiescent st"
      using None 1(2)
      by (auto simp: resume_def quiescent_def settled_ready_def List.extract_None_iff
          extract_Some_iff Let_def pool_inv_def inv_core_def inv_await_def
          split: option.splits ReadyPromise.splits prod.splits)
    with None show ?thesis by (subst drain.simps) simp
  next
    case (Some st')
    with 1 show ?thesis by (subst drain.simps) (auto intro: resume_inv)
  qed
qed

text \<open>Handlers.\<close>

lemma loadPackage_inv:
  assumes inv: "pool_inv st"
  shows "pool_inv (loadPackage r st)"
proof (cases "shuttingDown st")
  case True
  have c: "inv_core {} st" using inv by (simp add: pool_inv_def)
  let ?st = "settle (nextTicket st) (Inl PoolShuttingDown) (st\<lparr>nextTicket := nextTicket st + 1\<rparr>)"
  have "inv_core {} ?st"
  proof (rule inv_coreI)
    show "inv_tickets ?st" using c by (simp add: inv_core_def inv_tickets_def owned_def)
    show "inv_jobs ?st" using c by (subst inv_jobs_cong [of _ st]) (auto simp: inv_core_def has_load_def)
    show "inv_await ?st" using c by (subst inv_await_cong [of _ st]) (auto simp: inv_core_def)
    show "inv_workers {} ?st" using c by (subst inv_workers_cong [of _ st]) (auto simp: inv_core_def)
  qed
  with True inv show ?thesis by (simp add: loadPackage_def pool_inv_def inv_queue_def Let_def)
next
  case False
  have c: "inv_core {} st" using inv by (simp add: pool_inv_def)
  let ?st = "st\<lparr>nextTicket := nextTicket st + 1,
      queue := queue st @ [\<lparr>qj_request = r, qj_ticket = nextTicket st\<rparr>]\<rparr>"
  have "inv_core {} ?st"
  proof (rule inv_coreI)
    show "inv_tickets ?st" using c by (simp add: inv_core_def inv_tickets_def owned_def)
    show "inv_jobs ?st" using c by (subst inv_jobs_cong [of _ st]) (auto simp: inv_core_def has_load_def)
    show "inv_await ?st" using c by (subst inv_await_cong [of _ st]) (auto simp: inv_core_def)
    show "inv_workers {} ?st" using c by (subst inv_workers_cong [of _ st]) (auto simp: inv_core_def)
  qed
  with False show ?thesis by (simp add: loadPackage_def tryDispatch_inv Let_def)
qed

lemma settle_dispatch_inv:
  assumes inv: "pool_inv st" and load: "has_load w j st" and job: "map_of (jobs st) j = Some ctx"
  shows "pool_inv (tryDispatch (settle (jc_ticket ctx) r (remove_job w j st)))"
proof (rule tryDispatch_inv)
  have "jc_worker ctx = w" using inv load job by (auto simp: pool_inv_def inv_core_def inv_jobs_def)
  with inv job show "inv_core {} (settle (jc_ticket ctx) r (remove_job w j st))"
    by (simp add: settle_job_inv pool_inv_def)
  show "queue (settle (jc_ticket ctx) r (remove_job w j st)) = [] \<or>
      \<not> shuttingDown (settle (jc_ticket ctx) r (remove_job w j st))"
    using inv by (auto simp: remove_job_def pool_inv_def inv_queue_def)
qed

lemma failJob_sel [simp]:
  "queue (failJob j e st) = queue st" "workers (failJob j e st) = workers st"
  "shuttingDown (failJob j e st) = shuttingDown st" "awaiting (failJob j e st) = awaiting st"
  by (auto simp: failJob_def remove_job_def split: option.split)

lemma is_exited_failJob [simp]: "is_exited (failJob j e st) w = is_exited st w"
  by (auto simp: failJob_def remove_job_def is_exited_def split: option.split)

lemma terminate_inv: "inv_core X st \<Longrightarrow> inv_core X (terminate w st)"
  by (simp add: inv_core_def inv_tickets_def owned_def inv_jobs_cong [of "terminate w st" st]
      has_load_def inv_workers_cong [of "terminate w st" st] inv_await_cong [of "terminate w st" st])

lemma timeout_inv:
  assumes "pool_inv st"
  shows "pool_inv (handleJobTimeout w j path st)"
  using assms by (simp add: handleJobTimeout_def pool_inv_def terminate_inv failJob_inv inv_queue_def)

text \<open>A change of a worker's promise and timer.\<close>

lemma upd_ready_inv:
  assumes inv: "inv_core X st"
    and f: "\<And>p. inFlight (f p) = inFlight p" "\<And>p. exited (f p) = exited p"
      "\<And>p. heap st w = Some p \<Longrightarrow> ready (f p) = Resolved \<Longrightarrow> ready p = Resolved \<or> \<not> exited p"
      "\<And>p. ready p \<noteq> Pending \<Longrightarrow> ready (f p) \<noteq> Pending"
  shows "inv_core X (upd_worker w f st)"
proof (rule inv_coreI)
  show "inv_tickets (upd_worker w f st)" using inv by (simp add: inv_core_def inv_tickets_def owned_def)
  have "in_flight (upd_worker w f st) v = in_flight st v" for v
    by (auto simp: in_flight_def f split: option.split)
  moreover have "has_load v j (upd_worker w f st) = has_load v j st" for v j by (simp add: has_load_def)
  ultimately show "inv_jobs (upd_worker w f st)"
    using inv unfolding inv_core_def inv_jobs_def by simp
  show "inv_await (upd_worker w f st)"
    using inv f by (fastforce simp: inv_core_def inv_await_def)
  show "inv_workers X (upd_worker w f st)"
    using inv f by (fastforce simp: inv_core_def inv_workers_def)
qed

lemma readyReject_sel [simp]:
  "inFlight (readyReject e p) = inFlight p" "exited (readyReject e p) = exited p"
  "ready (readyReject e p) \<noteq> Pending"
  "ready (readyReject e p) = Resolved \<longleftrightarrow> ready p = Resolved"
  by (auto simp: readyReject_def split: ReadyPromise.split)

lemma readyResolve_sel [simp]:
  "inFlight (readyResolve p) = inFlight p" "exited (readyResolve p) = exited p"
  "ready (readyResolve p) \<noteq> Pending"
  by (auto simp: readyResolve_def split: ReadyPromise.split)

lemma on_ready_inv:
  assumes "pool_inv st" and "\<not> is_exited st w"
  shows "pool_inv (on_ready w st)"
proof -
  have "inv_core {} (on_ready w st)"
    unfolding on_ready_def using assms
    by (intro upd_ready_inv) (auto simp: pool_inv_def is_exited_def)
  with assms show ?thesis by (simp add: pool_inv_def inv_queue_def on_ready_def)
qed

lemma on_error_inv: "pool_inv st \<Longrightarrow> pool_inv (on_error w e st)"
proof -
  assume inv: "pool_inv st"
  then have "inv_core {} (on_error w e st)"
    unfolding on_error_def by (intro upd_ready_inv) (auto simp: pool_inv_def)
  with inv show ?thesis by (simp add: pool_inv_def inv_queue_def on_error_def)
qed

lemma on_spawn_timeout_inv: "pool_inv st \<Longrightarrow> pool_inv (on_spawn_timeout w st)"
proof -
  assume inv: "pool_inv st"
  then have "inv_core {} (on_spawn_timeout w st)"
    unfolding on_spawn_timeout_def by (intro terminate_inv upd_ready_inv) (auto simp: pool_inv_def)
  with inv show ?thesis by (simp add: pool_inv_def inv_queue_def on_spawn_timeout_def)
qed

text \<open>A worker's exit: every job on it fails, then the array forgets it.\<close>

lemma mark_exited_inv:
  assumes inv: "inv_core {} st" and q: "quiescent st" and live: "\<not> is_exited st w"
  shows "inv_core {w} (mark_exited w code st)" (is "inv_core {w} ?st")
proof (rule inv_coreI)
  obtain p where p: "heap st w = Some p" "\<not> exited p"
    using live by (auto simp: is_exited_def split: option.splits)
  show "inv_tickets ?st" using inv by (simp add: inv_core_def inv_tickets_def owned_def mark_exited_def)
  have "in_flight ?st v = in_flight st v" for v
    by (auto simp: in_flight_def mark_exited_def split: option.split)
  moreover have "has_load v j ?st = has_load v j st" for v j by (simp add: has_load_def mark_exited_def)
  ultimately show "inv_jobs ?st"
    using inv unfolding inv_core_def inv_jobs_def by (simp add: mark_exited_def)
  show "inv_await ?st"
    using inv q p unfolding inv_core_def inv_await_def quiescent_def settled_ready_def mark_exited_def
    by (fastforce split: if_splits)
  show "inv_workers {w} ?st"
    using inv p unfolding inv_core_def inv_workers_def mark_exited_def by (auto split: if_splits)
qed

lemma in_flight_failJob:
  assumes "inv_jobs st"
  shows "in_flight (failJob j e st) w = removeAll j (in_flight st w)"
proof (cases "map_of (jobs st) j")
  case None
  then have "j \<notin> set (in_flight st w)" using assms unfolding inv_jobs_def by fastforce
  with None show ?thesis by (simp add: failJob_def removeAll_id)
next
  case (Some ctx)
  have "w \<noteq> jc_worker ctx \<Longrightarrow> j \<notin> set (in_flight st w)"
    using assms Some unfolding inv_jobs_def by fastforce
  with Some show ?thesis
    by (auto simp: failJob_def remove_job_def in_flight_def split: option.split)
qed

lemma fail_all_inv:
  "inv_core X st \<Longrightarrow> inv_core X (fold (\<lambda>j. failJob j e) js st)
     \<and> in_flight (fold (\<lambda>j. failJob j e) js st) w = fold removeAll js (in_flight st w)
     \<and> queue (fold (\<lambda>j. failJob j e) js st) = queue st
     \<and> workers (fold (\<lambda>j. failJob j e) js st) = workers st
     \<and> is_exited (fold (\<lambda>j. failJob j e) js st) w = is_exited st w
     \<and> shuttingDown (fold (\<lambda>j. failJob j e) js st) = shuttingDown st"
proof (induction js arbitrary: st)
  case (Cons j js)
  have "inv_jobs st" using Cons.prems by (simp add: inv_core_def)
  then show ?case using Cons failJob_inv [OF Cons.prems, of j e] by (simp add: in_flight_failJob)
qed simp

lemma fold_removeAll_self: "set xs \<subseteq> set js \<Longrightarrow> fold removeAll js xs = []"
proof (induction js arbitrary: xs)
  case (Cons j js)
  then show ?case by (auto intro!: Cons.IH)
qed simp

lemma forget_inv:
  assumes inv: "inv_core {w} st" and ex: "is_exited st w" and idle: "in_flight st w = []"
  shows "inv_core {} ((upd_worker w (\<lambda>p. p\<lparr>inFlight := []\<rparr>) st)\<lparr>workers := remove1 w (workers st)\<rparr>)"
    (is "inv_core {} ?st")
proof (rule inv_coreI)
  show "inv_tickets ?st" using inv by (simp add: inv_core_def inv_tickets_def owned_def)
  have "in_flight ?st v = in_flight st v" for v
    using idle by (auto simp: in_flight_def split: option.splits)
  moreover have "has_load v j ?st = has_load v j st" for v j by (simp add: has_load_def)
  ultimately show "inv_jobs ?st"
    using inv unfolding inv_core_def inv_jobs_def by simp
  show "inv_await ?st"
    using inv by (fastforce simp: inv_core_def inv_await_def)
  have "length (remove1 w (workers st)) \<le> length (workers st)" by (simp add: length_remove1)
  then show "inv_workers {} ?st"
    using inv ex unfolding inv_core_def inv_workers_def is_exited_def
    by (auto simp: length_remove1 split: option.splits if_splits)
qed

lemma on_exit_inv:
  assumes inv: "pool_inv st" and q: "quiescent st" and live: "\<not> is_exited st w"
  shows "pool_inv (on_exit w code st)"
proof -
  define st1 where "st1 = mark_exited w code st"
  define st2 where "st2 = fold (\<lambda>j. failJob j (ExitedUnexpectedly w code)) (in_flight st1 w) st1"
  have i1: "inv_core {w} st1"
    unfolding st1_def using inv q live by (simp add: mark_exited_inv pool_inv_def)
  have ex: "is_exited st1 w"
    by (auto simp: st1_def mark_exited_def is_exited_def split: option.split)
  note f = fail_all_inv [OF i1, of "ExitedUnexpectedly w code" "in_flight st1 w" w, folded st2_def]
  have "in_flight st2 w = []" using f by (simp add: fold_removeAll_self)
  then have "inv_core {} ((upd_worker w (\<lambda>p. p\<lparr>inFlight := []\<rparr>) st2)\<lparr>workers := remove1 w (workers st2)\<rparr>)"
    using f ex by (intro forget_inv) auto
  moreover have "queue st2 = [] \<or> \<not> shuttingDown st2"
    using f inv by (auto simp: st1_def mark_exited_def pool_inv_def inv_queue_def)
  ultimately show ?thesis
    by (simp add: on_exit_def Let_def tryDispatch_inv flip: st1_def st2_def)
qed

lemma settle_all_sel:
  "maxWorkers (fold (\<lambda>qj. settle (qj_ticket qj) r) qs st) = maxWorkers st"
  "workers (fold (\<lambda>qj. settle (qj_ticket qj) r) qs st) = workers st"
  "queue (fold (\<lambda>qj. settle (qj_ticket qj) r) qs st) = queue st"
  "jobs (fold (\<lambda>qj. settle (qj_ticket qj) r) qs st) = jobs st"
  "awaiting (fold (\<lambda>qj. settle (qj_ticket qj) r) qs st) = awaiting st"
  "nextWorkerId (fold (\<lambda>qj. settle (qj_ticket qj) r) qs st) = nextWorkerId st"
  "nextJobId (fold (\<lambda>qj. settle (qj_ticket qj) r) qs st) = nextJobId st"
  "nextTicket (fold (\<lambda>qj. settle (qj_ticket qj) r) qs st) = nextTicket st"
  "shuttingDown (fold (\<lambda>qj. settle (qj_ticket qj) r) qs st) = shuttingDown st"
  "posted (fold (\<lambda>qj. settle (qj_ticket qj) r) qs st) = posted st"
  "heap (fold (\<lambda>qj. settle (qj_ticket qj) r) qs st) = heap st"
  "settled (fold (\<lambda>qj. settle (qj_ticket qj) r) qs st) = settled st @ map (\<lambda>qj. (qj_ticket qj, r)) qs"
  by (induction qs arbitrary: st) simp_all

lemma post_shutdown_inv:
  "inv_core X st \<Longrightarrow> inv_core X (post w ShutdownMsg st)"
  by (simp add: inv_core_def inv_tickets_def owned_def inv_jobs_cong [of "post w ShutdownMsg st" st]
      has_load_def inv_workers_cong [of "post w ShutdownMsg st" st]
      inv_await_cong [of "post w ShutdownMsg st" st])

lemma post_all_inv:
  "inv_core X st \<Longrightarrow> inv_core X (fold (\<lambda>w s. if is_exited s w then s else post w ShutdownMsg s) ws st)
     \<and> queue (fold (\<lambda>w s. if is_exited s w then s else post w ShutdownMsg s) ws st) = queue st"
  by (induction ws arbitrary: st) (simp_all add: post_shutdown_inv)

lemma shutdown_inv:
  assumes inv: "pool_inv st"
  shows "pool_inv (shutdown st)"
proof (cases "shuttingDown st")
  case True
  with inv show ?thesis by (simp add: shutdown_def)
next
  case False
  let ?st = "fold (\<lambda>qj. settle (qj_ticket qj) (Inl ShutdownBeforeDispatch)) (queue st)
      (st\<lparr>shuttingDown := True, queue := []\<rparr>)"
  have c: "inv_core {} st" using inv by (simp add: pool_inv_def)
  have "inv_core {} ?st"
  proof (rule inv_coreI)
    have "map fst (map (\<lambda>qj. (qj_ticket qj, Inl ShutdownBeforeDispatch :: PoolError + 'a)) (queue st))
        = map qj_ticket (queue st)" by simp
    then show "inv_tickets ?st"
      using c by (simp add: inv_core_def inv_tickets_def owned_def settle_all_sel comp_def ac_simps)
    show "inv_jobs ?st"
      using c by (subst inv_jobs_cong [of _ st]) (auto simp: inv_core_def has_load_def settle_all_sel)
    show "inv_await ?st"
      using c by (subst inv_await_cong [of _ st]) (auto simp: inv_core_def settle_all_sel)
    show "inv_workers {} ?st"
      using c by (subst inv_workers_cong [of _ st]) (auto simp: inv_core_def settle_all_sel)
  qed
  from post_all_inv [OF this] show ?thesis
    using False by (simp add: shutdown_def Let_def pool_inv_def inv_queue_def settle_all_sel)
qed

lemma handler_inv:
  assumes "pool_inv st" and "quiescent st" and "enabled ev st"
  shows "pool_inv (handler ev st)"
  using assms
  by (cases ev)
     (auto simp: handler_def loadPackage_inv shutdown_inv on_ready_inv on_error_inv on_exit_inv
       on_spawn_timeout_inv timeout_inv completeJob_def errorJob_def settle_dispatch_inv
       split: option.split)

lemma reachable_inv: "reachable st \<Longrightarrow> pool_inv st \<and> quiescent st"
proof (induction rule: reachable.induct)
  case (start n st)
  then show ?case
    by (auto simp: new_pool_def pool_inv_def inv_core_def inv_defs view_defs inv_queue_def
        quiescent_def split: if_splits)
next
  case (step st ev)
  then show ?case by (simp add: pool_step_def handler_inv drain_inv drain_quiescent)
qed

text \<open>A load's promise is pending while the load is queued, awaits a worker or runs.\<close>

definition pending :: "'p Pool \<Rightarrow> nat list" where
  "pending st = map qj_ticket (queue st) @ map (qj_ticket \<circ> snd) (awaiting st) @
     map (jc_ticket \<circ> snd) (jobs st)"

lemma owned_distinct: "inv_tickets st \<Longrightarrow> distinct (owned st) \<and> set (owned st) = {..<nextTicket st}"
proof -
  assume "inv_tickets st"
  then have m: "mset (owned st) = mset [0..<nextTicket st]" by (simp only: inv_tickets_def)
  then have "set (owned st) = {..<nextTicket st}"
    using mset_eq_setD [OF m] by (simp add: lessThan_atLeast0)
  moreover have "distinct (owned st)"
    using mset_eq_imp_distinct_iff [OF m] by simp
  ultimately show ?thesis by simp
qed

lemma no_workers_no_pending:
  assumes "pool_inv st" and "quiescent st" and "workers st = []"
  shows "pending st = []"
proof -
  have W: "inv_workers {} st" and A: "inv_await st" and J: "inv_jobs st" and Q: "inv_queue st"
    using assms by (simp_all add: pool_inv_def inv_core_def)
  have dead: "exited p \<and> inFlight p = []" if "heap st w = Some p" for w p
    using W that assms(3) unfolding inv_workers_def by fastforce
  have "awaiting st = []"
  proof (rule ccontr)
    assume "awaiting st \<noteq> []"
    then obtain w qj where m: "(w, qj) \<in> set (awaiting st)" by (cases "awaiting st") auto
    then obtain p where p: "heap st w = Some p" using A by (fastforce simp: inv_await_def)
    then have "ready p \<noteq> Pending" using A dead [OF p] unfolding inv_await_def by blast
    with m p assms(2) show False by (auto simp: quiescent_def settled_ready_def)
  qed
  moreover have "jobs st = []"
  proof (rule ccontr)
    assume "jobs st \<noteq> []"
    then obtain j ctx where "map_of (jobs st) j = Some ctx"
      by (metis list.exhaust map_of_Cons_code(2) prod.exhaust)
    then have "j \<in> set (in_flight st (jc_worker ctx))" using J by (simp add: inv_jobs_def)
    with dead show False by (auto simp: in_flight_def split: option.splits)
  qed
  moreover have "queue st = []" using Q assms(3) by (auto simp: inv_queue_def)
  ultimately show ?thesis by (simp add: pending_def)
qed

subsection \<open>Properties\<close>

text \<open>
  C18: Whatever events occur in whatever order, every submitted load is in exactly one place: the
  queue, a dispatch waiting for its worker, the job map, or the log of settled promises. So no
  load is ever lost, none runs twice, and no promise is settled twice.
\<close>

theorem every_load_in_one_place:
  assumes "reachable st"
  shows "distinct (pending st @ map fst (settled st))
    \<and> set (pending st @ map fst (settled st)) = {..<nextTicket st}"
proof -
  have "inv_tickets st" using reachable_inv [OF assms] by (simp add: pool_inv_def inv_core_def)
  from owned_distinct [OF this] show ?thesis by (simp add: owned_def pending_def)
qed

definition demo_job :: LoadPackageJob where
  "demo_job = \<lparr>packagePath = ''/p'', packageName = ''p'', malloyConfig = 0,
     defaultConnectionName = None, urlReader = None, buildManifest = None, replacement = None,
     collectProblems = None\<rparr>"

definition demo_pool :: "nat Pool" where
  "demo_pool = (case new_pool 2 of Inr st \<Rightarrow> st)"

definition demo_events :: "nat Event list" where
  "demo_events = [Submit demo_job, Submit demo_job, Ready 1, Result 1 1 7, Shutdown, WorkerExit 1 0]"

definition demo_end :: "nat Pool" where
  "demo_end = the (run_events demo_events demo_pool)"

lemma demo_start: "reachable demo_pool"
  by (rule reachable.start [of 2]) (simp add: demo_pool_def new_pool_def)

lemma demo_runs:
  "run_events demo_events demo_pool \<noteq> None" "workers demo_end = []" "nextTicket demo_end = 2"
  "settled demo_end = [(0, Inr 7), (1, Inl (ExitedUnexpectedly 1 0))]"
  by code_simp+

lemma demo_end_reachable: "reachable demo_end"
  using run_events_reachable [OF demo_start, of demo_events] demo_runs(1)
  by (auto simp: demo_end_def)

lemma every_load_in_one_place_witness:
  "distinct (pending demo_end @ map fst (settled demo_end))
    \<and> set (pending demo_end @ map fst (settled demo_end)) = {..<nextTicket demo_end}"
  by (rule every_load_in_one_place [OF demo_end_reachable])

text \<open>
  C32: Once every worker has exited, every promise made so far has settled, and when the pool is
  not shutting down nothing is left to do: an exit fails the jobs of its worker, the dispatches
  that waited for it, and starts a worker for whatever is still queued.
\<close>

theorem no_worker_left_all_settled:
  assumes "reachable st" and "workers st = []"
  shows "set (map fst (settled st)) = {..<nextTicket st}
    \<and> queue st = [] \<and> awaiting st = [] \<and> jobs st = []"
proof -
  have none: "pending st = []"
    using reachable_inv [OF assms(1)] assms(2) by (intro no_workers_no_pending) auto
  have "inv_tickets st" using reachable_inv [OF assms(1)] by (simp add: pool_inv_def inv_core_def)
  from owned_distinct [OF this] none show ?thesis by (simp add: owned_def pending_def)
qed

lemma no_worker_left_all_settled_witness:
  "set (map fst (settled demo_end)) = {..<nextTicket demo_end} \<and> queue demo_end = []"
  using no_worker_left_all_settled [OF demo_end_reachable demo_runs(2)] by simp

text \<open>
  The pool's books agree. The array of workers holds live workers only, never more than
  \<open>maxWorkers\<close> of them; the job map and the workers' \<open>inFlight\<close> sets name the same jobs; a job's
  context names a live worker; and a load waits in the queue only while a worker exists and no
  shutdown has begun.
\<close>

theorem pool_books_agree:
  assumes "reachable st"
  shows "pool_size st = length (workers st) \<and> length (workers st) \<le> maxWorkers st
    \<and> (j \<in> set (in_flight st w) \<longleftrightarrow> (\<exists>ctx. map_of (jobs st) j = Some ctx \<and> jc_worker ctx = w))
    \<and> (\<forall>ctx. map_of (jobs st) j = Some ctx \<longrightarrow> jc_worker ctx \<in> set (workers st))
    \<and> (queue st = [] \<or> workers st \<noteq> [] \<and> \<not> shuttingDown st)"
proof (intro conjI)
  have I: "inv_workers {} st" "inv_jobs st" "inv_queue st"
    using reachable_inv [OF assms] by (simp_all add: pool_inv_def inv_core_def)
  show "pool_size st = length (workers st)" using I(1) by (simp add: pool_size_def alive_workers)
  show "length (workers st) \<le> maxWorkers st" using I(1) by (simp add: inv_workers_def)
  show "j \<in> set (in_flight st w) \<longleftrightarrow> (\<exists>ctx. map_of (jobs st) j = Some ctx \<and> jc_worker ctx = w)"
    using I(2) unfolding inv_jobs_def by blast
  show "\<forall>ctx. map_of (jobs st) j = Some ctx \<longrightarrow> jc_worker ctx \<in> set (workers st)"
  proof (intro allI impI)
    fix ctx
    assume "map_of (jobs st) j = Some ctx"
    then have "j \<in> set (in_flight st (jc_worker ctx))" using I(2) by (simp add: inv_jobs_def)
    then show "jc_worker ctx \<in> set (workers st)"
      using I(1) unfolding inv_workers_def in_flight_def by (fastforce split: option.splits)
  qed
  show "queue st = [] \<or> workers st \<noteq> [] \<and> \<not> shuttingDown st" using I(3) by (auto simp: inv_queue_def)
qed

lemma pool_books_agree_witness:
  "pool_size demo_end = length (workers demo_end) \<and> length (workers demo_end) \<le> maxWorkers demo_end"
  using pool_books_agree [OF demo_end_reachable] by blast

text \<open>
  A worker may be given two loads at once although it is documented to run one: loads
  submitted before their worker is ready all see an empty \<open>inFlight\<close> (the id is added only after
  \<open>await pw.ready\<close>), so both go to worker 1 while the pool may still start a second worker.
\<close>

theorem two_loads_on_one_worker:
  "map_option (\<lambda>st. (maxWorkers st, workers st, in_flight st 1))
     (run_events [Submit r1, Submit r2, Ready 1] demo_pool) = Some (2, [1], [1, 2])"
  by code_simp

text \<open>
  After a timeout the next load is not given a fresh worker: the worker that is being
  terminated is still in the array and idle, so the load goes to it and fails with its exit.
\<close>

theorem load_after_timeout_dies_with_worker:
  "map_option (\<lambda>st. (maxWorkers st, terminated st, settled st))
     (run_events [Submit r1, Ready 1, JobTimeout 1, Submit r2, WorkerExit 1 c] demo_pool)
   = Some (2, [1], [(0, Inl (JobTimedOut (packagePath r1))), (1, Inl (ExitedUnexpectedly 1 c))])"
  by code_simp

subsection \<open>Proxied requests of a worker\<close>

text \<open>
  A worker asks the main thread for connection metadata, schemas and file contents. The live
  connections and the URL reader are objects of other packages: they are arguments here, a call
  that may throw a sum. Each request is answered by one message to the worker that sent it.
\<close>

datatype Thrown = ErrorObject string string "string option" | ThrownValue string

definition serializeError :: "Thrown \<Rightarrow> SerializedError" where
  "serializeError e =
     (case e of
        ErrorObject n m s \<Rightarrow> \<lparr>err_name = n, err_message = m, err_stack = s, malloyProblems = None,
                               isCompilationError = False\<rparr>
      | ThrownValue v \<Rightarrow> \<lparr>err_name = ''Error'', err_message = v, err_stack = None,
                           malloyProblems = None, isCompilationError = False\<rparr>)"

record FetchOptions =
  refreshTimestamp :: "nat option"

text \<open>\<open>buildFetchOptions\<close> copies the one known option and drops whatever else the wire object has.\<close>

definition buildFetchOptions :: "'x FetchOptions_scheme \<Rightarrow> FetchOptions" where
  "buildFetchOptions opts = \<lparr>refreshTimestamp = refreshTimestamp opts\<rparr>"

datatype ('s, 'q) RpcReply =
    RpcError nat SerializedError
  | MetadataResponse nat string string string
  | TablesResponse nat 's "(string \<times> string) list"
  | SqlResponse nat "string + 'q"
  | UrlResponse nat string

definition unknown_job :: "nat \<Rightarrow> SerializedError" where
  "unknown_job j = \<lparr>err_name = ''Error'', err_message = ''Unknown jobId job-'' @ digits_of j,
     err_stack = None, malloyProblems = None, isCompilationError = False\<rparr>"

text \<open>The shape the four handlers share: look the job up, try the call, answer.\<close>

definition answer ::
  "'p Pool \<Rightarrow> nat \<Rightarrow> nat \<Rightarrow> (JobContext \<Rightarrow> Thrown + ('s, 'q) RpcReply) \<Rightarrow> ('s, 'q) RpcReply" where
  "answer st requestId jobId call =
     (case map_of (jobs st) jobId of
        None \<Rightarrow> RpcError requestId (unknown_job jobId)
      | Some ctx \<Rightarrow> (case call ctx of
            Inl e \<Rightarrow> RpcError requestId (serializeError e)
          | Inr r \<Rightarrow> r))"

definition handleConnectionMetadata ::
  "(nat \<Rightarrow> string \<Rightarrow> Thrown + 'c) \<Rightarrow> ('c \<Rightarrow> string) \<Rightarrow> ('c \<Rightarrow> (Thrown + string) option) \<Rightarrow>
   'p Pool \<Rightarrow> nat \<Rightarrow> nat \<Rightarrow> string \<Rightarrow> ('s, 'q) RpcReply" where
  "handleConnectionMetadata lookup dialectName getDigest st requestId jobId name =
     answer st requestId jobId (\<lambda>ctx.
       bind_r (lookup (jc_connections ctx) name) (\<lambda>conn.
       bind_r (case getDigest conn of None \<Rightarrow> Inr name | Some d \<Rightarrow> d) (\<lambda>digest.
       Inr (MetadataResponse requestId name (dialectName conn) digest))))"

definition handleSchemaForTables ::
  "(nat \<Rightarrow> string \<Rightarrow> Thrown + 'c) \<Rightarrow>
   ('c \<Rightarrow> (string \<times> string) list \<Rightarrow> FetchOptions \<Rightarrow> Thrown + ('s \<times> (string \<times> string) list)) \<Rightarrow>
   'p Pool \<Rightarrow> nat \<Rightarrow> nat \<Rightarrow> string \<Rightarrow> (string \<times> string) list \<Rightarrow> FetchOptions \<Rightarrow> ('s, 'q) RpcReply" where
  "handleSchemaForTables lookup fetch st requestId jobId name tables opts =
     answer st requestId jobId (\<lambda>ctx.
       bind_r (lookup (jc_connections ctx) name) (\<lambda>conn.
       bind_r (fetch conn tables (buildFetchOptions opts)) (\<lambda>(schemas, errors).
       Inr (TablesResponse requestId schemas errors))))"

definition handleSchemaForSql ::
  "(nat \<Rightarrow> string \<Rightarrow> Thrown + 'c) \<Rightarrow>
   ('c \<Rightarrow> string \<Rightarrow> FetchOptions \<Rightarrow> Thrown + (string option \<times> 'q)) \<Rightarrow>
   'p Pool \<Rightarrow> nat \<Rightarrow> nat \<Rightarrow> string \<Rightarrow> string \<Rightarrow> FetchOptions \<Rightarrow> ('s, 'q) RpcReply" where
  "handleSchemaForSql lookup fetch st requestId jobId name sentence opts =
     answer st requestId jobId (\<lambda>ctx.
       bind_r (lookup (jc_connections ctx) name) (\<lambda>conn.
       bind_r (fetch conn sentence (buildFetchOptions opts)) (\<lambda>(err, structDef).
       Inr (SqlResponse requestId (case err of Some e \<Rightarrow> Inl e | None \<Rightarrow> Inr structDef)))))"

definition handleReadUrl ::
  "(string \<Rightarrow> Thrown + 'u) \<Rightarrow> (UrlReader \<Rightarrow> 'u \<Rightarrow> Thrown + (string + string)) \<Rightarrow>
   'p Pool \<Rightarrow> nat \<Rightarrow> nat \<Rightarrow> string \<Rightarrow> ('s, 'q) RpcReply" where
  "handleReadUrl newUrl readURL st requestId jobId url =
     answer st requestId jobId (\<lambda>ctx.
       bind_r (newUrl url) (\<lambda>u.
       bind_r (readURL (jc_urlReader ctx) u) (\<lambda>raw.
       Inr (UrlResponse requestId (case raw of Inl s \<Rightarrow> s | Inr contents \<Rightarrow> contents)))))"

fun reply_id :: "('s, 'q) RpcReply \<Rightarrow> nat" where
  "reply_id (RpcError i e) = i"
| "reply_id (MetadataResponse i n d g) = i"
| "reply_id (TablesResponse i s e) = i"
| "reply_id (SqlResponse i r) = i"
| "reply_id (UrlResponse i c) = i"

lemma answer_id:
  "(\<And>ctx r. call ctx = Inr r \<Longrightarrow> reply_id r = i) \<Longrightarrow> reply_id (answer st i j call) = i"
  by (auto simp: answer_def split: option.split sum.split)

lemma answer_settled:
  "map_of (jobs st) j = None \<Longrightarrow> answer st i j call = RpcError i (unknown_job j)"
  by (simp add: answer_def)

text \<open>
  A proxied request is always answered, under its own request id, whatever the connection or
  the reader does; and once its job has settled (a straggler of a failed load) the answer is an
  error: no connection of another load is ever reached through it.
\<close>

theorem rpc_answered_under_own_id:
  "reply_id (handleConnectionMetadata lookup dialectName getDigest st i j name) = i
   \<and> reply_id (handleSchemaForTables lookup fetchT st i j name tables opts) = i
   \<and> reply_id (handleSchemaForSql lookup fetchQ st i j name sentence opts) = i
   \<and> reply_id (handleReadUrl newUrl readURL st i j url) = i
   \<and> (map_of (jobs st) j = None \<longrightarrow>
        handleConnectionMetadata lookup dialectName getDigest st i j name = RpcError i (unknown_job j)
      \<and> handleSchemaForTables lookup fetchT st i j name tables opts = RpcError i (unknown_job j)
      \<and> handleSchemaForSql lookup fetchQ st i j name sentence opts = RpcError i (unknown_job j)
      \<and> handleReadUrl newUrl readURL st i j url = RpcError i (unknown_job j))"
  unfolding handleConnectionMetadata_def handleSchemaForTables_def handleSchemaForSql_def
    handleReadUrl_def
  by (intro conjI impI answer_id answer_settled) (auto simp: bind_r_eq_Inr)

lemma rpc_answered_under_own_id_witness:
  "handleReadUrl Inr (\<lambda>_ u. Inr (Inl u)) demo_pool 5 3 ''file:///x''
     = (RpcError 5 (unknown_job 3) :: (nat, nat) RpcReply)"
  by (rule rpc_answered_under_own_id [THEN conjunct2, THEN conjunct2, THEN conjunct2, THEN conjunct2,
        THEN mp, THEN conjunct2, THEN conjunct2, THEN conjunct2])
     (simp add: demo_pool_def new_pool_def)

end
