(* ===== verification/Config.thy ===== *)
theory Config
  imports Prelude Complex_Main
begin

text \<open>
  Settings read from the environment (\<open>config.ts\<close>): the parsers every setting goes through, the
  settings themselves with their ranges, and the substitution of environment variables in the
  configuration file. The environment is a function from names to values.

  A fraction is the exact value of the decimal numeral, before its rounding to a double; a
  numeral that rounds to infinity is rejected as the code does.
\<close>

type_synonym env = "string \<Rightarrow> string option"

datatype ConfigError =
    InvalidInt string string
  | InvalidFloat string string string
  | InvalidBool string string
  | MustBePositive string int
  | MustBeNonNegative string int
  | MustBeInUnit string rat
  | LowNotBelowHigh rat rat
  | BelowMinimum string int int
  | InvalidChoice string string
  | InvalidSize string string
  | CannotUseDirectory string string
  | InvalidUrl "string option"
  | InvalidSimilarity rat
  | EnvVarNotSet string

subsection \<open>Parsers\<close>

definition int_string :: "int \<Rightarrow> string" where
  "int_string v = (if v < 0 then CHR ''-'' # digits_of (nat (- v)) else digits_of (nat v))"

definition parseIntEnv :: "env \<Rightarrow> string \<Rightarrow> ConfigError + int option" where
  "parseIntEnv env name =
     (case env name of
        None \<Rightarrow> Inr None
      | Some raw \<Rightarrow>
          if js_trim raw = [] then Inr None
          else (case js_parse_int raw of
              None \<Rightarrow> Inl (InvalidInt name raw)
            | Some value \<Rightarrow>
                if int_string value \<noteq> js_trim raw then Inl (InvalidInt name raw)
                else Inr (Some value)))"

text \<open>
  The numerals of \<open>parseFloatEnv\<close>'s expression and their exact value: digits with an optional
  point, at least one digit, and an optional exponent.
\<close>

definition split_sign :: "string \<Rightarrow> bool \<times> string" where
  "split_sign s =
     (if s \<noteq> [] \<and> hd s = CHR ''-'' then (True, tl s)
      else if s \<noteq> [] \<and> hd s = CHR ''+'' then (False, tl s) else (False, s))"

definition parse_exponent :: "string \<Rightarrow> int option" where
  "parse_exponent s =
     (if s = [] then Some 0
      else if hd s = CHR ''e'' \<or> hd s = CHR ''E'' then
        (let (neg, ds) = split_sign (tl s) in
         if ds \<noteq> [] \<and> list_all is_digit ds
         then Some (if neg then - int (digits_val ds) else int (digits_val ds)) else None)
      else None)"

definition decimal_value :: "string \<Rightarrow> rat option" where
  "decimal_value s =
     (let (neg, u) = split_sign s;
          ds1 = takeWhile is_digit u; r1 = dropWhile is_digit u;
          dot = (r1 \<noteq> [] \<and> hd r1 = CHR ''.'');
          ds2 = (if dot then takeWhile is_digit (tl r1) else []);
          r2 = (if dot then dropWhile is_digit (tl r1) else r1)
      in if ds1 = [] \<and> ds2 = [] then None
         else (case parse_exponent r2 of
             None \<Rightarrow> None
           | Some e \<Rightarrow>
               (let m = of_nat (digits_val (ds1 @ ds2)) / 10 ^ length ds2;
                    v = (if 0 \<le> e then m * 10 ^ nat e else m / 10 ^ nat (- e))
                in Some (if neg then - v else v))))"

text \<open>Numerals of this magnitude or more round to infinity.\<close>

definition infinite_from :: rat where
  "infinite_from = 2 ^ 1024 - 2 ^ 970"

definition parseFloatEnv :: "env \<Rightarrow> string \<Rightarrow> string \<Rightarrow> ConfigError + rat option" where
  "parseFloatEnv env name example =
     (case env name of
        None \<Rightarrow> Inr None
      | Some raw \<Rightarrow>
          if js_trim raw = [] then Inr None
          else (case decimal_value (js_trim raw) of
              None \<Rightarrow> Inl (InvalidFloat name raw example)
            | Some value \<Rightarrow>
                if \<bar>value\<bar> \<ge> infinite_from then Inl (InvalidFloat name raw example)
                else Inr (Some value)))"

definition parseBoolEnv :: "env \<Rightarrow> string \<Rightarrow> ConfigError + bool option" where
  "parseBoolEnv env name =
     (case env name of
        None \<Rightarrow> Inr None
      | Some raw \<Rightarrow>
          if js_trim raw = [] then Inr None
          else (let normalised = js_lower (js_trim raw) in
            if normalised \<in> set [''1'', ''true'', ''yes'', ''on''] then Inr (Some True)
            else if normalised \<in> set [''0'', ''false'', ''no'', ''off''] then Inr (Some False)
            else Inl (InvalidBool name raw)))"

definition or_default :: "'a option \<Rightarrow> 'a \<Rightarrow> 'a" where
  "or_default x d = (case x of None \<Rightarrow> d | Some v \<Rightarrow> v)"

lemma or_default_simps [simp]: "or_default None d = d" "or_default (Some v) d = v"
  by (simp_all add: or_default_def)

subsection \<open>Settings\<close>

record MemoryGovernorConfig =
  maxMemoryBytes :: int
  highWaterFraction :: rat
  lowWaterFraction :: rat
  checkIntervalMs :: int
  backpressureEnabled :: bool

definition DEFAULT_HIGH_WATER_FRACTION :: rat where "DEFAULT_HIGH_WATER_FRACTION = 8 / 10"
definition DEFAULT_LOW_WATER_FRACTION :: rat where "DEFAULT_LOW_WATER_FRACTION = 7 / 10"
definition DEFAULT_CHECK_INTERVAL_MS :: int where "DEFAULT_CHECK_INTERVAL_MS = 5000"
definition MIN_CHECK_INTERVAL_MS :: int where "MIN_CHECK_INTERVAL_MS = 100"

definition check_governor ::
  "int \<Rightarrow> rat \<Rightarrow> rat \<Rightarrow> int \<Rightarrow> bool \<Rightarrow> ConfigError + MemoryGovernorConfig" where
  "check_governor maxBytes high low interval enabled =
     (if high \<le> 0 \<or> high \<ge> 1 then Inl (MustBeInUnit ''PUBLISHER_MEMORY_HIGH_WATER_FRACTION'' high)
      else if low \<le> 0 \<or> low \<ge> 1 then Inl (MustBeInUnit ''PUBLISHER_MEMORY_LOW_WATER_FRACTION'' low)
      else if low \<ge> high then Inl (LowNotBelowHigh low high)
      else if interval < MIN_CHECK_INTERVAL_MS
      then Inl (BelowMinimum ''PUBLISHER_MEMORY_CHECK_INTERVAL_MS'' MIN_CHECK_INTERVAL_MS interval)
      else Inr \<lparr>maxMemoryBytes = maxBytes, highWaterFraction = high, lowWaterFraction = low,
                checkIntervalMs = interval, backpressureEnabled = enabled\<rparr>)"

definition getMemoryGovernorConfig :: "env \<Rightarrow> ConfigError + MemoryGovernorConfig option" where
  "getMemoryGovernorConfig env =
     bind_r (parseIntEnv env ''PUBLISHER_MAX_MEMORY_BYTES'') (\<lambda>maxMem.
     case maxMem of
       None \<Rightarrow> Inr None
     | Some maxBytes \<Rightarrow>
         if maxBytes = 0 then Inr None
         else if maxBytes < 0 then Inl (MustBePositive ''PUBLISHER_MAX_MEMORY_BYTES'' maxBytes)
         else
           bind_r (parseFloatEnv env ''PUBLISHER_MEMORY_HIGH_WATER_FRACTION'' ''0.8'') (\<lambda>high.
           bind_r (parseFloatEnv env ''PUBLISHER_MEMORY_LOW_WATER_FRACTION'' ''0.7'') (\<lambda>low.
           bind_r (parseIntEnv env ''PUBLISHER_MEMORY_CHECK_INTERVAL_MS'') (\<lambda>interval.
           bind_r (parseBoolEnv env ''PUBLISHER_MEMORY_BACKPRESSURE'') (\<lambda>bp.
           bind_r (check_governor maxBytes (or_default high DEFAULT_HIGH_WATER_FRACTION)
                     (or_default low DEFAULT_LOW_WATER_FRACTION)
                     (or_default interval DEFAULT_CHECK_INTERVAL_MS) (or_default bp True))
             (\<lambda>c. Inr (Some c)))))))"

text \<open>The five integer limits: all but the default row limit accept 0, which disables them.\<close>

definition non_negative :: "env \<Rightarrow> string \<Rightarrow> int \<Rightarrow> ConfigError + int" where
  "non_negative env name dflt =
     bind_r (parseIntEnv env name) (\<lambda>raw. case raw of
         None \<Rightarrow> Inr dflt
       | Some v \<Rightarrow> if v < 0 then Inl (MustBeNonNegative name v) else Inr v)"

definition getMaxQueryRows :: "env \<Rightarrow> ConfigError + int" where
  "getMaxQueryRows env = non_negative env ''PUBLISHER_MAX_QUERY_ROWS'' 100000"

definition getMaxResponseBytes :: "env \<Rightarrow> ConfigError + int" where
  "getMaxResponseBytes env = non_negative env ''PUBLISHER_MAX_RESPONSE_BYTES'' 50000000"

definition getDefaultQueryRowLimit :: "env \<Rightarrow> ConfigError + int" where
  "getDefaultQueryRowLimit env =
     bind_r (parseIntEnv env ''PUBLISHER_DEFAULT_QUERY_ROW_LIMIT'') (\<lambda>raw. case raw of
         None \<Rightarrow> Inr 1000
       | Some v \<Rightarrow>
           if v \<le> 0 then Inl (MustBePositive ''PUBLISHER_DEFAULT_QUERY_ROW_LIMIT'' v) else Inr v)"

definition getQueryTimeoutMs :: "env \<Rightarrow> ConfigError + int" where
  "getQueryTimeoutMs env = non_negative env ''PUBLISHER_QUERY_TIMEOUT_MS'' 300000"

definition getMaxConcurrentQueries :: "env \<Rightarrow> ConfigError + int" where
  "getMaxConcurrentQueries env = non_negative env ''PUBLISHER_MAX_CONCURRENT_QUERIES'' 32"

text \<open>Settings that are one of a few words, matched without regard to case.\<close>

datatype ExtensionFetchPolicy = OnDemand | LocalOnly
datatype S3CredentialChainPolicy = ChainAny | DestinationsOnly | ChainOff
datatype PersistStorageMode = StorageOff | WriteOnly | StorageOn
datatype QueryMetadataMode = MetadataOn | MetadataOff

definition choice :: "env \<Rightarrow> string \<Rightarrow> 'a \<Rightarrow> (string \<times> 'a) list \<Rightarrow> ConfigError + 'a" where
  "choice env name dflt table =
     (case env name of
        None \<Rightarrow> Inr dflt
      | Some raw \<Rightarrow>
          if js_trim raw = [] then Inr dflt
          else (case map_of table (js_lower (js_trim raw)) of
              Some v \<Rightarrow> Inr v
            | None \<Rightarrow> Inl (InvalidChoice name raw)))"

definition getExtensionFetchPolicy :: "env \<Rightarrow> ConfigError + ExtensionFetchPolicy" where
  "getExtensionFetchPolicy env = choice env ''EXTENSION_FETCH_POLICY'' OnDemand
     [(''on-demand'', OnDemand), (''local-only'', LocalOnly)]"

definition getS3CredentialChainPolicy :: "env \<Rightarrow> ConfigError + S3CredentialChainPolicy" where
  "getS3CredentialChainPolicy env = choice env ''S3_CREDENTIAL_CHAIN_POLICY'' ChainAny
     [(''any'', ChainAny), (''destinations-only'', DestinationsOnly), (''off'', ChainOff)]"

definition getPersistStorageMode :: "env \<Rightarrow> ConfigError + PersistStorageMode" where
  "getPersistStorageMode env = choice env ''PERSIST_STORAGE_MODE'' StorageOff
     [(''off'', StorageOff), (''write-only'', WriteOnly), (''on'', StorageOn)]"

definition getQueryMetadataMode :: "env \<Rightarrow> ConfigError + QueryMetadataMode" where
  "getQueryMetadataMode env = choice env ''PUBLISHER_QUERY_METADATA'' MetadataOff
     [(''on'', MetadataOn), (''off'', MetadataOff)]"

definition getPersistCollisionEnforce :: "env \<Rightarrow> ConfigError + bool" where
  "getPersistCollisionEnforce env =
     bind_r (parseBoolEnv env ''PERSIST_COLLISION_ENFORCE'') (\<lambda>b. Inr (or_default b False))"

definition schemaEmbeddingEnabled :: "env \<Rightarrow> ConfigError + bool" where
  "schemaEmbeddingEnabled env =
     bind_r (parseBoolEnv env ''EMBEDDING_INDEX_CONNECTION_SCHEMA'') (\<lambda>b. Inr (or_default b False))"

datatype CorsOrigins = DenyCors | AllowAny | AllowList "string list"

definition getMcpCorsOrigins :: "env \<Rightarrow> CorsOrigins" where
  "getMcpCorsOrigins env =
     (case env ''MCP_CORS_ORIGINS'' of
        None \<Rightarrow> DenyCors
      | Some raw \<Rightarrow>
          if js_trim raw = [] then DenyCors
          else if js_trim raw = ''*'' then AllowAny
          else (let origins = filter (\<lambda>s. length s > 0) (map js_trim (split_on CHR '','' (js_trim raw)))
                in if length origins > 0 then AllowList origins else DenyCors))"

record MaterializationSchedulerConfig =
  tickIntervalMs :: int
  maxFiresPerTick :: int

definition getMaterializationSchedulerConfig ::
  "env \<Rightarrow> ConfigError + MaterializationSchedulerConfig option" where
  "getMaterializationSchedulerConfig env =
     bind_r (parseBoolEnv env ''PUBLISHER_LOCAL_MATERIALIZATION_SCHEDULER'') (\<lambda>enabled.
     if \<not> or_default enabled False then Inr None
     else
       bind_r (parseIntEnv env ''PUBLISHER_MATERIALIZATION_SCHEDULER_INTERVAL_MS'') (\<lambda>tick.
       bind_r (parseIntEnv env ''PUBLISHER_MATERIALIZATION_SCHEDULER_MAX_FIRES_PER_TICK'') (\<lambda>fires.
       (let t = or_default tick 60000; f = or_default fires 10 in
        if t < 1000
        then Inl (BelowMinimum ''PUBLISHER_MATERIALIZATION_SCHEDULER_INTERVAL_MS'' 1000 t)
        else if f \<le> 0
        then Inl (MustBePositive ''PUBLISHER_MATERIALIZATION_SCHEDULER_MAX_FIRES_PER_TICK'' f)
        else Inr (Some \<lparr>tickIntervalMs = t, maxFiresPerTick = f\<rparr>)))))"

record EmbeddingConfig =
  apiKey :: string
  model :: string
  baseUrl :: string
  dimensions :: "int option"
  minSimilarity :: rat

definition strip_slashes :: "string \<Rightarrow> string" where
  "strip_slashes s = rev (dropWhile (\<lambda>c. c = CHR ''/'') (rev s))"

definition trimmed_or :: "string option \<Rightarrow> string \<Rightarrow> string" where
  "trimmed_or raw d = (case raw of None \<Rightarrow> d | Some r \<Rightarrow> if js_trim r = [] then d else js_trim r)"

text \<open>\<open>is_url\<close> says whether the runtime's \<open>new URL\<close> accepts a string.\<close>

definition getEmbeddingConfig :: "(string \<Rightarrow> bool) \<Rightarrow> env \<Rightarrow> ConfigError + EmbeddingConfig option" where
  "getEmbeddingConfig is_url env =
     (let key = trimmed_or (env ''EMBEDDING_API_KEY'') [] in
      if key = [] then Inr None
      else
        (let base = strip_slashes (trimmed_or (env ''EMBEDDING_API_BASE'') ''https://api.openai.com/v1'')
         in if \<not> is_url base then Inl (InvalidUrl (env ''EMBEDDING_API_BASE''))
            else
              (let m = trimmed_or (env ''EMBEDDING_MODEL'') ''text-embedding-3-small'' in
               bind_r (parseIntEnv env ''EMBEDDING_DIMENSIONS'') (\<lambda>dims.
               if (case dims of None \<Rightarrow> False | Some d \<Rightarrow> d \<le> 0)
               then Inl (MustBePositive ''EMBEDDING_DIMENSIONS'' (the dims))
               else
                 bind_r (parseFloatEnv env ''EMBEDDING_MIN_SIMILARITY'' ''0.35'') (\<lambda>sim.
                 (let s = or_default sim (2 / 10) in
                  if s < 0 \<or> s \<ge> 1 then Inl (InvalidSimilarity s)
                  else Inr (Some \<lparr>apiKey = key, model = m, baseUrl = base, dimensions = dims,
                                  minSimilarity = s\<rparr>)))))))"

subsection \<open>DuckDB resources\<close>

definition isDuckDBMemoryLimitDisabled :: "env \<Rightarrow> bool" where
  "isDuckDBMemoryLimitDisabled env =
     (case env ''PUBLISHER_DUCKDB_MEMORY_LIMIT'' of
        None \<Rightarrow> False | Some raw \<Rightarrow> js_lower (js_trim raw) = ''off'')"

definition getDuckDBMemoryLimit :: "env \<Rightarrow> string option" where
  "getDuckDBMemoryLimit env =
     (case env ''PUBLISHER_DUCKDB_MEMORY_LIMIT'' of
        None \<Rightarrow> None
      | Some raw \<Rightarrow> if js_trim raw = [] \<or> js_lower (js_trim raw) = ''off'' then None
                   else Some (js_trim raw))"

definition trimmed :: "env \<Rightarrow> string \<Rightarrow> string option" where
  "trimmed env name =
     (case env name of
        None \<Rightarrow> None | Some raw \<Rightarrow> if js_trim raw = [] then None else Some (js_trim raw))"

definition getDuckLakeRowGroupSizeBytes :: "env \<Rightarrow> string option" where
  "getDuckLakeRowGroupSizeBytes env = trimmed env ''PUBLISHER_DUCKLAKE_ROW_GROUP_SIZE_BYTES''"

definition getDuckLakeTargetFileSizeBytes :: "env \<Rightarrow> string option" where
  "getDuckLakeTargetFileSizeBytes env = trimmed env ''PUBLISHER_DUCKLAKE_TARGET_FILE_SIZE_BYTES''"

definition getDuckDBTempDirectory :: "env \<Rightarrow> string option" where
  "getDuckDBTempDirectory env = trimmed env ''PUBLISHER_DUCKDB_TEMP_DIRECTORY''"

text \<open>
  The expression \<open>DUCKDB_BYTE_SIZE\<close>. Its negative look-ahead refuses a zero amount before a
  letter; then digits, an optional fraction, white space and a unit. No alternative of the
  expression can match a shorter run of digits, so the runs are taken whole.
\<close>

definition byte_units :: "string list" where
  "byte_units = [''b'', ''kb'', ''kib'', ''mb'', ''mib'', ''gb'', ''gib'', ''tb'', ''tib'']"

definition is_letter :: "char \<Rightarrow> bool" where
  "is_letter c \<longleftrightarrow> is_upper c \<or> is_lower c"

definition drop_fraction :: "(char \<Rightarrow> bool) \<Rightarrow> string \<Rightarrow> string" where
  "drop_fraction p s =
     (if s \<noteq> [] \<and> hd s = CHR ''.'' \<and> takeWhile p (tl s) \<noteq> [] then dropWhile p (tl s) else s)"

definition zero_amount :: "string \<Rightarrow> bool" where
  "zero_amount s =
     (let z = (\<lambda>c. c = CHR ''0''); r = dropWhile js_space (drop_fraction z (dropWhile z s))
      in takeWhile z s \<noteq> [] \<and> r \<noteq> [] \<and> is_letter (hd r))"

definition DUCKDB_BYTE_SIZE :: "string \<Rightarrow> bool" where
  "DUCKDB_BYTE_SIZE s \<longleftrightarrow>
     \<not> zero_amount s \<and> takeWhile is_digit s \<noteq> [] \<and>
     js_lower (dropWhile js_space (drop_fraction is_digit (dropWhile is_digit s))) \<in> set byte_units"

definition check_size :: "string \<Rightarrow> string option \<Rightarrow> ConfigError + unit" where
  "check_size name v =
     (case v of None \<Rightarrow> Inr ()
      | Some s \<Rightarrow> if DUCKDB_BYTE_SIZE s then Inr () else Inl (InvalidSize name s))"

text \<open>\<open>prepare_dir\<close> creates the directory and checks it is writable: \<open>Some\<close> is its error.\<close>

definition assertDuckDBResourceConfig :: "(string \<Rightarrow> string option) \<Rightarrow> env \<Rightarrow> ConfigError + unit" where
  "assertDuckDBResourceConfig prepare_dir env =
     bind_r (check_size ''PUBLISHER_DUCKDB_MEMORY_LIMIT'' (getDuckDBMemoryLimit env)) (\<lambda>_.
     bind_r (check_size ''PUBLISHER_DUCKLAKE_ROW_GROUP_SIZE_BYTES'' (getDuckLakeRowGroupSizeBytes env)) (\<lambda>_.
     bind_r (check_size ''PUBLISHER_DUCKLAKE_TARGET_FILE_SIZE_BYTES'' (getDuckLakeTargetFileSizeBytes env)) (\<lambda>_.
     case getDuckDBTempDirectory env of
       None \<Rightarrow> Inr ()
     | Some d \<Rightarrow> (case prepare_dir d of
           None \<Rightarrow> Inr () | Some detail \<Rightarrow> Inl (CannotUseDirectory d detail)))))"

subsection \<open>The configuration file\<close>

datatype Json =
  JNull | JBool bool | JNum rat | JStr string | JArr "Json list" | JObj "(string \<times> Json) list"

text \<open>One match of \<open>/\$\{([A-Z_][A-Z0-9_]*)\}/\<close> at the head of the string: name and rest.\<close>

definition env_head :: "char \<Rightarrow> bool" where "env_head c \<longleftrightarrow> is_upper c \<or> c = CHR ''_''"
definition env_char :: "char \<Rightarrow> bool" where "env_char c \<longleftrightarrow> is_upper c \<or> is_digit c \<or> c = CHR ''_''"

fun match_env :: "string \<Rightarrow> (string \<times> string) option" where
  "match_env (c # d # s) =
     (let name = takeWhile env_char s; rest = dropWhile env_char s in
      if c = CHR ''$'' \<and> d = CHR 0x7B \<and> name \<noteq> [] \<and> env_head (hd name) \<and>
         rest \<noteq> [] \<and> hd rest = CHR 0x7D
      then Some (name, tl rest) else None)"
| "match_env s = None"

lemma match_env_shorter: "match_env s = Some (v, rest) \<Longrightarrow> length rest < length s"
proof (induction s rule: match_env.induct)
  case (1 c d s)
  have "length (dropWhile env_char s) \<le> length s" by (rule length_dropWhile_le)
  then show ?case using 1 by (auto simp: Let_def split: if_splits)
qed simp_all

function substituteEnvVars :: "env \<Rightarrow> string \<Rightarrow> ConfigError + string" where
  "substituteEnvVars env s =
     (case match_env s of
        Some (name, rest) \<Rightarrow>
          (case env name of
             None \<Rightarrow> Inl (EnvVarNotSet name)
           | Some v \<Rightarrow> bind_r (substituteEnvVars env rest) (\<lambda>t. Inr (v @ t)))
      | None \<Rightarrow> (case s of
            [] \<Rightarrow> Inr []
          | c # cs \<Rightarrow> bind_r (substituteEnvVars env cs) (\<lambda>t. Inr (c # t))))"
  by pat_completeness auto
termination
  by (relation "measure (length \<circ> snd)") (auto dest: match_env_shorter)

declare substituteEnvVars.simps [simp del]

fun processConfigValue :: "env \<Rightarrow> Json \<Rightarrow> ConfigError + Json"
  and process_items :: "env \<Rightarrow> Json list \<Rightarrow> ConfigError + Json list"
  and process_entries :: "env \<Rightarrow> (string \<times> Json) list \<Rightarrow> ConfigError + (string \<times> Json) list" where
  "processConfigValue env (JStr s) = bind_r (substituteEnvVars env s) (\<lambda>t. Inr (JStr t))"
| "processConfigValue env (JArr vs) = bind_r (process_items env vs) (\<lambda>us. Inr (JArr us))"
| "processConfigValue env (JObj kvs) = bind_r (process_entries env kvs) (\<lambda>us. Inr (JObj us))"
| "processConfigValue env JNull = Inr JNull"
| "processConfigValue env (JBool b) = Inr (JBool b)"
| "processConfigValue env (JNum q) = Inr (JNum q)"
| "process_items env [] = Inr []"
| "process_items env (v # vs) =
     bind_r (processConfigValue env v) (\<lambda>u. bind_r (process_items env vs) (\<lambda>us. Inr (u # us)))"
| "process_entries env [] = Inr []"
| "process_entries env ((k, v) # kvs) =
     bind_r (processConfigValue env v) (\<lambda>u. bind_r (process_entries env kvs) (\<lambda>us. Inr ((k, u) # us)))"

subsection \<open>Lemmas\<close>

lemma digits_val_snoc: "digits_val (ds @ [d]) = 10 * digits_val ds + digit_val d"
  by (simp add: digits_val_def)

lemma digit_char: "n < 10 \<Longrightarrow> is_digit (char_of (48 + n)) \<and> digit_val (char_of (48 + n)) = n"
  by (simp add: is_digit_def digit_val_def)

lemma digits_of_digits: "list_all is_digit (digits_of n) \<and> digits_of n \<noteq> [] \<and> digits_val (digits_of n) = n"
proof (induction n rule: digits_of.induct)
  case (1 n)
  show ?case
  proof (cases "n < 10")
    case True
    then show ?thesis
      by (subst (1 2 3) digits_of.simps) (simp add: digit_char, simp add: digits_val_def digit_char)
  next
    case False
    have "digits_of n = digits_of (n div 10) @ [char_of (48 + n mod 10)]"
      using False by (subst digits_of.simps) simp
    moreover have "n mod 10 < 10" by simp
    ultimately show ?thesis using 1 False by (simp add: digits_val_snoc digit_char)
  qed
qed

lemma digit_not_space: "is_digit c \<Longrightarrow> \<not> js_space c \<and> c \<noteq> CHR ''-'' \<and> c \<noteq> CHR ''+''"
  by (auto simp: is_digit_def js_space_def Let_def)

lemma takeWhile_digits:
  "list_all is_digit ds \<Longrightarrow> list_all js_space sp \<Longrightarrow> takeWhile is_digit (ds @ sp) = ds"
  by (induction ds) (auto simp: takeWhile_eq_Nil_iff list_all_iff dest: digit_not_space hd_in_set)

lemma parse_int_of_string:
  assumes s: "js_trim_start raw = int_string v @ sp" and sp: "list_all js_space sp"
  shows "js_parse_int raw = Some v"
proof -
  obtain d ds where c: "digits_of (nat \<bar>v\<bar>) = d # ds" "is_digit d" "list_all is_digit ds"
    using digits_of_digits [of "nat \<bar>v\<bar>"] by (cases "digits_of (nat \<bar>v\<bar>)") auto
  have val: "digits_val (d # ds) = nat \<bar>v\<bar>" using digits_of_digits [of "nat \<bar>v\<bar>"] c by simp
  show ?thesis
  proof (cases "v < 0")
    case True
    then have "int_string v = CHR ''-'' # d # ds" using c by (simp add: int_string_def)
    with True c val sp s show ?thesis by (simp add: js_parse_int_def Let_def takeWhile_digits)
  next
    case False
    then have "int_string v = d # ds" using c by (simp add: int_string_def)
    with False c val sp s digit_not_space [OF c(2)] show ?thesis
      by (simp add: js_parse_int_def Let_def takeWhile_digits)
  qed
qed

lemma trim_end_split:
  obtains sp where "s = js_trim_end s @ sp" "list_all js_space sp"
proof -
  have "rev s = takeWhile js_space (rev s) @ dropWhile js_space (rev s)" by simp
  then have "s = js_trim_end s @ rev (takeWhile js_space (rev s))"
    unfolding js_trim_end_def by (metis rev_append rev_rev_ident)
  moreover have "list_all js_space (rev (takeWhile js_space (rev s)))"
    by (auto simp: list_all_iff dest: set_takeWhileD)
  ultimately show thesis by (rule that)
qed

lemma choice_cases:
  "choice env name d table = Inr v \<Longrightarrow> v = d \<or> v \<in> snd ` set table"
  by (auto simp: choice_def split: option.splits if_splits dest!: map_of_SomeD)
     (metis image_iff snd_conv)

lemma check_governor_band:
  "check_governor b high low interval bp = Inr c \<Longrightarrow> 0 < b \<Longrightarrow>
   0 < maxMemoryBytes c \<and> 0 < lowWaterFraction c \<and> lowWaterFraction c < highWaterFraction c
     \<and> highWaterFraction c < 1 \<and> 100 \<le> checkIntervalMs c"
  by (auto simp: check_governor_def MIN_CHECK_INTERVAL_MS_def split: if_splits)

definition var_name :: "string \<Rightarrow> bool" where
  "var_name v \<longleftrightarrow> v \<noteq> [] \<and> env_head (hd v) \<and> list_all env_char v"

lemma match_env_hit:
  assumes "var_name v"
  shows "match_env (CHR ''$'' # CHR 0x7B # v @ CHR 0x7D # post) = Some (v, post)"
proof -
  have "\<not> env_char (CHR 0x7D)" by (simp add: env_char_def is_upper_def is_digit_def)
  then have "takeWhile env_char (v @ CHR 0x7D # post) = v"
    "dropWhile env_char (v @ CHR 0x7D # post) = CHR 0x7D # post"
    using assms by (simp_all add: var_name_def takeWhile_append2 dropWhile_append2 list_all_iff)
  with assms show ?thesis by (simp add: var_name_def Let_def)
qed

lemma substitute_prefix:
  "CHR ''$'' \<notin> set pre \<Longrightarrow>
   substituteEnvVars env (pre @ s) = bind_r (substituteEnvVars env s) (\<lambda>t. Inr (pre @ t))"
proof (induction pre)
  case Nil
  show ?case by (cases "substituteEnvVars env s") simp_all
next
  case (Cons c pre)
  have "match_env (c # pre @ s) = None"
    using Cons.prems by (cases "pre @ s") (auto simp: Let_def)
  then have "substituteEnvVars env (c # pre @ s)
      = bind_r (substituteEnvVars env (pre @ s)) (\<lambda>t. Inr (c # t))"
    by (subst substituteEnvVars.simps) simp
  with Cons show ?case by (cases "substituteEnvVars env s") simp_all
qed

lemma substitute_plain: "CHR ''$'' \<notin> set s \<Longrightarrow> substituteEnvVars env s = Inr s"
  using substitute_prefix [of s env "[]"] by (simp add: substituteEnvVars.simps [of env "[]"])

lemma accepted_governor:
  assumes "getMemoryGovernorConfig env = Inr r"
  shows "case r of
      None \<Rightarrow> parseIntEnv env ''PUBLISHER_MAX_MEMORY_BYTES'' \<in> {Inr None, Inr (Some 0)}
    | Some c \<Rightarrow> 0 < maxMemoryBytes c \<and> 0 < lowWaterFraction c
        \<and> lowWaterFraction c < highWaterFraction c \<and> highWaterFraction c < 1
        \<and> 100 \<le> checkIntervalMs c"
proof -
  obtain m where m: "parseIntEnv env ''PUBLISHER_MAX_MEMORY_BYTES'' = Inr m"
    using assms by (auto simp: getMemoryGovernorConfig_def bind_r_eq_Inr)
  show ?thesis
  proof (cases "m = None \<or> m = Some 0")
    case True
    with assms m have "r = None" by (auto simp: getMemoryGovernorConfig_def)
    with True m show ?thesis by auto
  next
    case False
    then obtain b where b: "m = Some b" "b \<noteq> 0" by auto
    have pos: "0 < b" using assms m b
      by (cases "b < 0") (simp_all add: getMemoryGovernorConfig_def)
    obtain high low interval bp c where "check_governor b high low interval bp = Inr c" "r = Some c"
      using assms m b pos by (auto simp: getMemoryGovernorConfig_def bind_r_eq_Inr)
    with check_governor_band pos show ?thesis by auto
  qed
qed

text \<open>What an accepted limit is worth: a row limit is positive, the caps are not negative.\<close>

lemma non_negative_ge: "non_negative env name d = Inr v \<Longrightarrow> 0 \<le> d \<Longrightarrow> 0 \<le> v"
  unfolding non_negative_def bind_r_eq_Inr
  by (elim exE conjE, case_tac a; simp split: if_split_asm)

lemma default_row_limit_pos: "getDefaultQueryRowLimit env = Inr v \<Longrightarrow> 0 < v"
  unfolding getDefaultQueryRowLimit_def bind_r_eq_Inr
  by (elim exE conjE, case_tac a; simp split: if_split_asm)

lemma max_query_rows_ge: "getMaxQueryRows env = Inr v \<Longrightarrow> 0 \<le> v"
  unfolding getMaxQueryRows_def by (erule non_negative_ge) simp

subsection \<open>Properties\<close>

text \<open>
  An integer setting is accepted exactly when the trimmed variable is the canonical decimal
  numeral of the value read: no prefix, no sign, no padding is ever taken for a number.
\<close>

theorem parseIntEnv_canonical:
  "parseIntEnv env name = Inr (Some v) \<longleftrightarrow>
     (\<exists>raw. env name = Some raw \<and> js_trim raw = int_string v)"
proof
  assume "parseIntEnv env name = Inr (Some v)"
  then show "\<exists>raw. env name = Some raw \<and> js_trim raw = int_string v"
    by (auto simp: parseIntEnv_def split: option.splits if_splits)
next
  assume "\<exists>raw. env name = Some raw \<and> js_trim raw = int_string v"
  then obtain raw where raw: "env name = Some raw" "js_trim raw = int_string v" by blast
  obtain sp where "js_trim_start raw = js_trim raw @ sp" "list_all js_space sp"
    using trim_end_split [of "js_trim_start raw"] unfolding js_trim_def .
  then have "js_parse_int raw = Some v" using parse_int_of_string raw(2) by simp
  moreover have "int_string v \<noteq> []"
    using digits_of_digits by (simp add: int_string_def)
  ultimately show "parseIntEnv env name = Inr (Some v)" using raw by (simp add: parseIntEnv_def)
qed

text \<open>
  A memory governor that is configured at all has a positive budget and a hysteresis band
  strictly inside it, and it is off exactly when the budget is unset or 0.
\<close>

theorem governor_config_band:
  assumes "getMemoryGovernorConfig env = Inr r"
  shows "case r of
      None \<Rightarrow> parseIntEnv env ''PUBLISHER_MAX_MEMORY_BYTES'' \<in> {Inr None, Inr (Some 0)}
    | Some c \<Rightarrow> 0 < maxMemoryBytes c \<and> 0 < lowWaterFraction c
        \<and> lowWaterFraction c < highWaterFraction c \<and> highWaterFraction c < 1
        \<and> 100 \<le> checkIntervalMs c"
  using assms by (rule accepted_governor)

definition demo_env :: env where
  "demo_env = [''PUBLISHER_MAX_MEMORY_BYTES'' \<mapsto> '' 1000 '']"

lemma demo_env_max: "parseIntEnv demo_env ''PUBLISHER_MAX_MEMORY_BYTES'' = Inr (Some 1000)"
  by code_simp

lemma demo_env_config:
  "getMemoryGovernorConfig demo_env
     = Inr (Some \<lparr>maxMemoryBytes = 1000, highWaterFraction = 8 / 10, lowWaterFraction = 7 / 10,
          checkIntervalMs = 5000, backpressureEnabled = True\<rparr>)"
  unfolding getMemoryGovernorConfig_def demo_env_max
  by (simp add: parseFloatEnv_def parseBoolEnv_def parseIntEnv_def demo_env_def check_governor_def
      DEFAULT_HIGH_WATER_FRACTION_def DEFAULT_LOW_WATER_FRACTION_def DEFAULT_CHECK_INTERVAL_MS_def
      MIN_CHECK_INTERVAL_MS_def)

lemma governor_config_band_witness:
  "\<exists>c. getMemoryGovernorConfig demo_env = Inr (Some c) \<and> maxMemoryBytes c = 1000
     \<and> lowWaterFraction c < highWaterFraction c"
  using governor_config_band [OF demo_env_config] demo_env_config by auto

text \<open>
  Substitution in the configuration file is a single pass: the value of a variable is copied
  as it is, even when it looks like a reference itself, a variable that is not set is an error,
  and text without a reference is unchanged.
\<close>

theorem substitution_single_pass:
  assumes "CHR ''$'' \<notin> set pre" and "var_name v"
  shows "substituteEnvVars env (pre @ CHR ''$'' # CHR 0x7B # v @ CHR 0x7D # post)
     = (case env v of
          None \<Rightarrow> Inl (EnvVarNotSet v)
        | Some x \<Rightarrow> bind_r (substituteEnvVars env post) (\<lambda>t. Inr (pre @ x @ t)))
   \<and> substituteEnvVars env pre = Inr pre"
proof -
  have "substituteEnvVars env (CHR ''$'' # CHR 0x7B # v @ CHR 0x7D # post)
     = (case env v of None \<Rightarrow> Inl (EnvVarNotSet v)
        | Some x \<Rightarrow> bind_r (substituteEnvVars env post) (\<lambda>t. Inr (x @ t)))"
    by (subst substituteEnvVars.simps) (simp only: match_env_hit [OF assms(2)] option.case prod.case)
  with substitute_prefix [OF assms(1)] substitute_plain [OF assms(1)] show ?thesis
    by (auto simp: bind_r_def split: option.split sum.split)
qed

lemma substitution_single_pass_witness:
  "substituteEnvVars [''HOME'' \<mapsto> ''${HOME}''] (''at '' @ CHR ''$'' # CHR 0x7B # ''HOME'' @ CHR 0x7D # ''/x'')
     = Inr ''at ${HOME}/x''"
proof -
  have "var_name ''HOME''" by code_simp
  with substitution_single_pass [of "''at ''" "''HOME''" "[''HOME'' \<mapsto> ''${HOME}'']" "''/x''"]
  show ?thesis by (simp add: substitute_plain)
qed

end
