(* ===== verification/Admission.thy ===== *)
theory Admission
  imports Config
begin

text \<open>
  Admission control: the memory governor (\<open>service/package_memory_governor.ts\<close>) that refuses new
  package loads, and the query slots (\<open>query_concurrency.ts\<close>) that refuse new queries. Telemetry
  and log lines are left out; the counter of activations is kept.
\<close>

subsection \<open>The memory governor\<close>

record Governor =
  config :: MemoryGovernorConfig
  highWaterBytes :: int
  lowWaterBytes :: int
  timer :: bool
  backpressured :: bool
  lastSampledRss :: int
  lastSampledAt :: "int option"
  activations :: nat

definition new_governor :: "MemoryGovernorConfig \<Rightarrow> Governor" where
  "new_governor c = \<lparr>config = c,
     highWaterBytes = \<lfloor>rat_of_int (maxMemoryBytes c) * highWaterFraction c\<rfloor>,
     lowWaterBytes = \<lfloor>rat_of_int (maxMemoryBytes c) * lowWaterFraction c\<rfloor>,
     timer = False, backpressured = False, lastSampledRss = 0, lastSampledAt = None,
     activations = 0\<rparr>"

text \<open>One sample: \<open>None\<close> when the sampler throws. \<open>now\<close> is the clock.\<close>

definition tick :: "int option \<Rightarrow> int \<Rightarrow> Governor \<Rightarrow> Governor" where
  "tick sample now g =
     (case sample of
        None \<Rightarrow> g
      | Some rss \<Rightarrow>
          (let g1 = g\<lparr>lastSampledRss := rss, lastSampledAt := Some now\<rparr> in
           if \<not> backpressureEnabled (config g1) then g1
           else if rss \<ge> highWaterBytes g1 \<and> \<not> backpressured g1
           then g1\<lparr>backpressured := True, activations := activations g1 + 1\<rparr>
           else if rss \<le> lowWaterBytes g1 \<and> backpressured g1
           then g1\<lparr>backpressured := False\<rparr>
           else g1))"

definition start :: "int option \<Rightarrow> int \<Rightarrow> Governor \<Rightarrow> Governor" where
  "start sample now g = (if timer g then g else (tick sample now g)\<lparr>timer := True\<rparr>)"

definition stop :: "Governor \<Rightarrow> Governor" where
  "stop g = (if timer g then g\<lparr>timer := False\<rparr> else g)\<lparr>backpressured := False\<rparr>"

definition isBackpressured :: "Governor \<Rightarrow> bool" where
  "isBackpressured g = backpressured g"

record MemoryGovernorStatus =
  rssBytes :: int
  st_maxMemoryBytes :: int
  st_highWaterBytes :: int
  st_lowWaterBytes :: int
  st_backpressured :: bool
  st_lastSampledAt :: "int option"

definition getStatus :: "Governor \<Rightarrow> MemoryGovernorStatus" where
  "getStatus g = \<lparr>rssBytes = lastSampledRss g, st_maxMemoryBytes = maxMemoryBytes (config g),
     st_highWaterBytes = highWaterBytes g, st_lowWaterBytes = lowWaterBytes g,
     st_backpressured = backpressured g, st_lastSampledAt = lastSampledAt g\<rparr>"

definition ticks :: "(int option \<times> int) list \<Rightarrow> Governor \<Rightarrow> Governor" where
  "ticks samples g = fold (\<lambda>(s, now). tick s now) samples g"

text \<open>A sample decides when it lies outside the open band between the two marks.\<close>

definition decisive :: "Governor \<Rightarrow> int option \<Rightarrow> bool" where
  "decisive g s = (case s of None \<Rightarrow> False | Some r \<Rightarrow> r \<ge> highWaterBytes g \<or> r \<le> lowWaterBytes g)"

lemma tick_marks [simp]:
  "highWaterBytes (tick s n g) = highWaterBytes g" "lowWaterBytes (tick s n g) = lowWaterBytes g"
  "config (tick s n g) = config g" "timer (tick s n g) = timer g"
  by (auto simp: tick_def Let_def split: option.split)

lemma decisive_tick [simp]: "decisive (tick s n g) = decisive g"
  by (intro ext) (simp add: decisive_def split: option.split)

lemma tick_flag:
  assumes "backpressureEnabled (config g)" and "lowWaterBytes g < highWaterBytes g"
  shows "backpressured (tick s n g)
     = (if decisive g s then (case s of None \<Rightarrow> False | Some r \<Rightarrow> r \<ge> highWaterBytes g)
        else backpressured g)"
  using assms by (auto simp: tick_def decisive_def Let_def split: option.split)

lemma ticks_flag:
  "backpressureEnabled (config g) \<Longrightarrow> lowWaterBytes g < highWaterBytes g \<Longrightarrow>
   backpressured (ticks samples g)
     = (case List.find (decisive g) (rev (map fst samples)) of
          Some (Some r) \<Rightarrow> r \<ge> highWaterBytes g
        | _ \<Rightarrow> backpressured g)"
proof (induction samples arbitrary: g)
  case Nil
  then show ?case by (simp add: ticks_def)
next
  case (Cons a samples)
  obtain s n where a: "a = (s, n)" by (cases a)
  have step: "ticks (a # samples) g = ticks samples (tick s n g)" by (simp add: ticks_def a)
  have nn: "decisive g None = False" by (simp add: decisive_def)
  have "List.find (decisive g) (rev (map fst samples)) \<noteq> Some None"
    using nn by (auto simp: find_Some_iff)
  with Cons.IH [of "tick s n g"] Cons.prems tick_flag [OF Cons.prems, of s n] show ?case
    unfolding step by (auto simp: a find_append nn split: option.splits)
qed

text \<open>
  Back-pressure is a function of the history with hysteresis: it is on exactly when the most
  recent sample outside the band between the marks was at or above the high one, failed samples
  and samples inside the band change nothing, and before any such sample the flag is unchanged.
\<close>

theorem backpressure_hysteresis:
  assumes "backpressureEnabled (config g)" and "lowWaterBytes g < highWaterBytes g"
  shows "isBackpressured (ticks samples g)
     = (case List.find (decisive g) (rev (map fst samples)) of
          Some (Some r) \<Rightarrow> r \<ge> highWaterBytes g
        | _ \<Rightarrow> isBackpressured g)"
  using ticks_flag [OF assms, of samples]
  by (simp add: isBackpressured_def split: option.split option.split_asm)

definition demo_governor :: Governor where
  "demo_governor = new_governor \<lparr>maxMemoryBytes = 1000, highWaterFraction = 8 / 10,
     lowWaterFraction = 7 / 10, checkIntervalMs = 5000, backpressureEnabled = True\<rparr>"

lemma backpressure_hysteresis_witness:
  "isBackpressured (ticks [(Some 900, 1), (Some 750, 2), (None, 3)] demo_governor)"
  using backpressure_hysteresis [of demo_governor "[(Some 900, 1), (Some 750, 2), (None, 3)]"]
  by (simp add: demo_governor_def new_governor_def decisive_def)

text \<open>The marks of a governor whose configuration was accepted.\<close>

lemma marks_ordered:
  assumes "0 < maxMemoryBytes c" "0 < lowWaterFraction c" "lowWaterFraction c < highWaterFraction c"
    "highWaterFraction c < 1"
  shows "0 \<le> lowWaterBytes (new_governor c)"
    "lowWaterBytes (new_governor c) \<le> highWaterBytes (new_governor c)"
    "highWaterBytes (new_governor c) < maxMemoryBytes c"
proof -
  let ?m = "rat_of_int (maxMemoryBytes c)"
  have m: "0 < ?m" using assms by simp
  show "0 \<le> lowWaterBytes (new_governor c)"
    using m assms by (simp add: new_governor_def)
  show "lowWaterBytes (new_governor c) \<le> highWaterBytes (new_governor c)"
    using m assms by (simp add: new_governor_def floor_mono)
  have "?m * highWaterFraction c < ?m" using m assms by simp
  then show "highWaterBytes (new_governor c) < maxMemoryBytes c"
    by (simp add: new_governor_def floor_less_iff)
qed

subsection \<open>Query slots\<close>

text \<open>
  The module's counter \<open>active\<close> and the \<open>released\<close> flag each handle closes over. A handle given
  while the limit is off releases nothing.
\<close>

datatype QuerySlotHandle = PassThrough | Slot nat

record Slots =
  active :: int
  released :: "nat \<Rightarrow> bool"
  nextSlot :: nat

definition no_slots :: Slots where
  "no_slots = \<lparr>active = 0, released = (\<lambda>_. False), nextSlot = 0\<rparr>"

text \<open>\<open>Inl limit\<close> is the \<open>ServiceUnavailableError\<close> (HTTP 503) that names the limit.\<close>

definition tryAcquireQuerySlot :: "int \<Rightarrow> Slots \<Rightarrow> int + (QuerySlotHandle \<times> Slots)" where
  "tryAcquireQuerySlot limit st =
     (if limit \<le> 0 then Inr (PassThrough, st)
      else if active st \<ge> limit then Inl limit
      else Inr (Slot (nextSlot st), st\<lparr>active := active st + 1, nextSlot := nextSlot st + 1\<rparr>))"

definition release :: "QuerySlotHandle \<Rightarrow> Slots \<Rightarrow> Slots" where
  "release h st =
     (case h of
        PassThrough \<Rightarrow> st
      | Slot i \<Rightarrow>
          if released st i then st
          else st\<lparr>released := (released st)(i := True), active := max 0 (active st - 1)\<rparr>)"

text \<open>
  \<open>queryConcurrencyMiddleware\<close>: a request that gets a slot registers the handle's release with the
  response's \<open>finish\<close> and \<open>close\<close> events, each of which may fire, in any order; one that does
  not is answered by the error handler.
\<close>

definition queryConcurrencyMiddleware ::
  "int \<Rightarrow> Slots \<Rightarrow> int + (QuerySlotHandle list \<times> Slots)" where
  "queryConcurrencyMiddleware limit st =
     (case tryAcquireQuerySlot limit st of
        Inl e \<Rightarrow> Inl e
      | Inr (h, st') \<Rightarrow> Inr ([h, h], st'))"

datatype SlotEvent = Request int | Fire QuerySlotHandle

text \<open>Only handles that were given out can fire.\<close>

fun given :: "QuerySlotHandle \<Rightarrow> Slots \<Rightarrow> bool" where
  "given PassThrough st = True"
| "given (Slot i) st = (i < nextSlot st)"

definition slot_step :: "SlotEvent \<Rightarrow> Slots \<Rightarrow> Slots" where
  "slot_step ev st =
     (case ev of
        Request limit \<Rightarrow> (case queryConcurrencyMiddleware limit st of Inl _ \<Rightarrow> st | Inr (_, st') \<Rightarrow> st')
      | Fire h \<Rightarrow> if given h st then release h st else st)"

definition outstanding :: "Slots \<Rightarrow> nat set" where
  "outstanding st = {i. i < nextSlot st \<and> \<not> released st i}"

definition slot_inv :: "Slots \<Rightarrow> bool" where
  "slot_inv st \<longleftrightarrow> active st = int (card (outstanding st)) \<and> (\<forall>i \<ge> nextSlot st. \<not> released st i)"

lemma finite_outstanding [simp]: "finite (outstanding st)"
  by (rule finite_subset [of _ "{..<nextSlot st}"]) (auto simp: outstanding_def)

lemma slot_step_inv: "slot_inv st \<Longrightarrow> slot_inv (slot_step ev st)"
proof (cases ev)
  case (Request limit)
  assume inv: "slot_inv st"
  show ?thesis
  proof (cases "0 < limit \<and> active st < limit")
    case True
    let ?st = "st\<lparr>active := active st + 1, nextSlot := nextSlot st + 1\<rparr>"
    have "outstanding ?st = insert (nextSlot st) (outstanding st)"
      using inv by (auto simp: outstanding_def slot_inv_def)
    moreover have "nextSlot st \<notin> outstanding st" by (simp add: outstanding_def)
    ultimately have "slot_inv ?st" using inv by (simp add: slot_inv_def)
    with True Request show ?thesis
      by (simp add: slot_step_def queryConcurrencyMiddleware_def tryAcquireQuerySlot_def)
  next
    case False
    with inv Request show ?thesis
      by (auto simp: slot_step_def queryConcurrencyMiddleware_def tryAcquireQuerySlot_def)
  qed
next
  case (Fire h)
  assume inv: "slot_inv st"
  show ?thesis
  proof (cases "\<exists>i. h = Slot i \<and> i \<in> outstanding st")
    case True
    then obtain i where i: "h = Slot i" "i \<in> outstanding st" by blast
    let ?st = "release h st"
    have o: "outstanding ?st = outstanding st - {i}"
      using i by (auto simp: outstanding_def release_def)
    have "0 < card (outstanding st)" using i(2) by (auto simp: card_gt_0_iff)
    then have "slot_inv ?st"
      using inv i card_Diff_singleton [OF i(2)] o
      by (auto simp: slot_inv_def release_def outstanding_def)
    with Fire i show ?thesis by (simp add: slot_step_def outstanding_def)
  next
    case False
    then have "slot_step ev st = st"
      using Fire by (cases h) (auto simp: slot_step_def release_def outstanding_def)
    with inv show ?thesis by simp
  qed
qed

lemma slots_inv: "slot_inv (fold slot_step evs no_slots)"
proof -
  have "slot_inv no_slots" by (simp add: slot_inv_def no_slots_def outstanding_def)
  moreover have "slot_inv st \<Longrightarrow> slot_inv (fold slot_step evs st)" for st
    by (induction evs arbitrary: st) (simp_all add: slot_step_inv)
  ultimately show ?thesis by blast
qed

lemma active_bound:
  "active st \<le> L \<Longrightarrow> 0 \<le> L \<Longrightarrow> \<forall>limit. Request limit \<in> set evs \<longrightarrow> limit \<le> L \<Longrightarrow>
   active (fold slot_step evs st) \<le> L"
proof (induction evs arbitrary: st)
  case (Cons ev evs)
  have "active (slot_step ev st) \<le> L"
    using Cons.prems
    by (cases ev) (auto simp: slot_step_def queryConcurrencyMiddleware_def tryAcquireQuerySlot_def
        release_def split: QuerySlotHandle.split)
  with Cons show ?case by simp
qed simp

text \<open>
  The slot counter never drifts: after any sequence of requests and of \<open>finish\<close> and \<open>close\<close>
  events, repeated or in any order, it is the number of queries that hold a slot, so a request
  is refused exactly when the limit is on and that many queries are running, and never more
  than the largest limit in force run at once.
\<close>

theorem slots_count_running_queries:
  assumes "0 \<le> L" and "\<forall>limit. Request limit \<in> set evs \<longrightarrow> limit \<le> L"
  shows "let st = fold slot_step evs no_slots in
     active st = int (card (outstanding st)) \<and> active st \<le> L
     \<and> (tryAcquireQuerySlot limit st = Inl limit \<longleftrightarrow> 0 < limit \<and> limit \<le> int (card (outstanding st)))"
  using slots_inv [of evs] active_bound [of no_slots L evs] assms
  by (simp add: Let_def slot_inv_def no_slots_def tryAcquireQuerySlot_def)

lemma slots_count_running_queries_witness:
  "active (fold slot_step [Request 2, Request 2, Request 2, Fire (Slot 0), Fire (Slot 0)] no_slots) \<le> 2"
  using slots_count_running_queries [of 2 "[Request 2, Request 2, Request 2, Fire (Slot 0), Fire (Slot 0)]"]
  by (metis (no_types, lifting) SlotEvent.distinct(1) SlotEvent.inject(1) empty_iff insert_iff
      list.set(1) list.set(2) order_refl zero_le_numeral)

end
