(* ===== verification/ResultCaps.thy ===== *)
theory ResultCaps
  imports Prelude
begin

text \<open>
  Caps on query results (\<open>service/model_limits.ts\<close>, \<open>stream_helpers.ts\<close>) and the accounting of
  the time a package load waits for schema fetches (\<open>package_load/rpc_wait_accountant.ts\<close>). A
  function that records a metric before it throws returns the metrics it recorded beside its
  result. A cap of 0 (or below) is off.
\<close>

datatype QueryCapSource = ConnectionSql | ModelQuery | NotebookCell
datatype QueryCapType = CapRows | CapBytes | CapUnserializable

type_synonym metrics = "(QueryCapType \<times> QueryCapSource) list"

datatype LimitError =
    TooManyRows int
  | TooManyBytes int int
  | Unserializable int "int option"
  | EngineError string
  | StreamFailed string

subsection \<open>Row limit of a model query\<close>

text \<open>A user limit that is absent (or 0, which is as good as absent in a condition) gives way.\<close>

definition resolveModelQueryRowLimit :: "int option \<Rightarrow> int \<Rightarrow> int \<Rightarrow> int" where
  "resolveModelQueryRowLimit userLimit defaultLimit maxRows =
     (let requested = (case userLimit of None \<Rightarrow> defaultLimit
                       | Some u \<Rightarrow> if u \<noteq> 0 \<and> u > 0 then u else defaultLimit)
      in if maxRows \<le> 0 then requested else min requested (maxRows + 1))"

datatype QueryRowLimitSource = FromQuery | ServerDefault

definition queryRowLimitSource :: "int option \<Rightarrow> QueryRowLimitSource" where
  "queryRowLimitSource userLimit =
     (case userLimit of None \<Rightarrow> ServerDefault
      | Some u \<Rightarrow> if u \<noteq> 0 \<and> u > 0 then FromQuery else ServerDefault)"

definition assertWithinModelRowLimit ::
  "int \<Rightarrow> int \<Rightarrow> QueryCapSource \<Rightarrow> metrics \<times> (LimitError + unit)" where
  "assertWithinModelRowLimit rowCount maxRows src =
     (if maxRows > 0 \<and> rowCount > maxRows then ([(CapRows, src)], Inl (TooManyRows maxRows))
      else ([], Inr ()))"

text \<open>\<open>Buffer.byteLength (s, "utf8")\<close>: a code unit below 128 takes one byte, one below 256 two.\<close>

definition utf8_length :: "string \<Rightarrow> int" where
  "utf8_length s = sum_list (map (\<lambda>c. if (of_char c :: nat) < 128 then 1 else 2) s)"

definition assertWithinModelByteLimit ::
  "string \<Rightarrow> int \<Rightarrow> QueryCapSource \<Rightarrow> metrics \<times> (LimitError + unit)" where
  "assertWithinModelByteLimit serialized maxBytes src =
     (if maxBytes \<le> 0 then ([], Inr ())
      else (let serializedBytes = utf8_length serialized in
        if serializedBytes > maxBytes
        then ([(CapBytes, src)], Inl (TooManyBytes maxBytes serializedBytes))
        else ([], Inr ())))"

fun js_includes :: "string \<Rightarrow> string \<Rightarrow> bool" where
  "js_includes pat [] = (pat = [])"
| "js_includes pat (c # s) = (take (length pat) (c # s) = pat \<or> js_includes pat s)"

text \<open>How \<open>JSON.stringify\<close> ended: a range error carries the engine's message.\<close>

datatype StringifyOutcome = Serialized string | RangeError string | OtherError string

definition stringifyQueryResponse ::
  "StringifyOutcome \<Rightarrow> int \<Rightarrow> int \<Rightarrow> QueryCapSource \<Rightarrow> metrics \<times> (LimitError + string)" where
  "stringifyQueryResponse outcome rowCount maxBytes src =
     (case outcome of
        Serialized s \<Rightarrow> ([], Inr s)
      | OtherError m \<Rightarrow> ([], Inl (EngineError m))
      | RangeError m \<Rightarrow>
          if js_includes ''call stack'' (js_lower m) then ([], Inl (EngineError m))
          else ([(CapUnserializable, src)],
                Inl (Unserializable rowCount (if maxBytes > 0 then Some maxBytes else None))))"

subsection \<open>Streamed queries\<close>

text \<open>
  The connection yields rows, each with its JSON text, and then ends or fails. The loop of
  \<open>streamSqlWithBudget\<close> keeps the rows read so far and their bytes; leaving it early aborts the
  iterator, whose failure is then swallowed. \<open>pulled\<close> counts the rows taken from the iterator.
\<close>

record 'r StreamResult =
  recorded :: metrics
  pulled :: nat
  outcome :: "LimitError + 'r list"

fun stream_loop ::
  "('r \<times> string) list \<Rightarrow> string option \<Rightarrow> int \<Rightarrow> int \<Rightarrow> 'r list \<Rightarrow> int \<Rightarrow> 'r StreamResult" where
  "stream_loop [] failure maxRows maxBytes rows byteTotal =
     \<lparr>recorded = [], pulled = length rows,
      outcome = (case failure of None \<Rightarrow> Inr rows | Some e \<Rightarrow> Inl (StreamFailed e))\<rparr>"
| "stream_loop ((row, json) # rest) failure maxRows maxBytes rows byteTotal =
     (let rows' = rows @ [row];
          byteTotal' = (if maxBytes > 0 then byteTotal + utf8_length json else byteTotal)
      in if maxBytes > 0 \<and> byteTotal' > maxBytes
         then \<lparr>recorded = [(CapBytes, ConnectionSql)], pulled = length rows',
               outcome = Inl (TooManyBytes maxBytes byteTotal')\<rparr>
         else if maxRows > 0 \<and> int (length rows') > maxRows
         then \<lparr>recorded = [(CapRows, ConnectionSql)], pulled = length rows',
               outcome = Inl (TooManyRows maxRows)\<rparr>
         else stream_loop rest failure maxRows maxBytes rows' byteTotal')"

definition streamSqlWithBudget ::
  "('r \<times> string) list \<Rightarrow> string option \<Rightarrow> int \<Rightarrow> int \<Rightarrow> 'r StreamResult" where
  "streamSqlWithBudget stream failure maxRows maxBytes =
     stream_loop stream failure maxRows maxBytes [] 0"

definition stream_bytes :: "('r \<times> string) list \<Rightarrow> int" where
  "stream_bytes rs = sum_list (map (utf8_length \<circ> snd) rs)"

lemma utf8_nonneg: "0 \<le> utf8_length s"
  unfolding utf8_length_def by (rule sum_list_nonneg) auto

lemma stream_bytes_nonneg: "0 \<le> stream_bytes rs"
  unfolding stream_bytes_def by (rule sum_list_nonneg) (auto simp: utf8_nonneg)

lemma stream_loop_Inr:
  "outcome (stream_loop rs failure maxRows maxBytes rows n) = Inr res \<longleftrightarrow>
     failure = None \<and> res = rows @ map fst rs
     \<and> (maxBytes \<le> 0 \<or> rs = [] \<or> n + stream_bytes rs \<le> maxBytes)
     \<and> (maxRows \<le> 0 \<or> rs = [] \<or> int (length rows + length rs) \<le> maxRows)"
proof (induction rs arbitrary: rows n)
  case Nil
  show ?case by (auto split: option.split)
next
  case (Cons a rs)
  obtain row json where a: "a = (row, json)" by (cases a)
  show ?case
    using Cons.IH [of "rows @ [row]"] stream_bytes_nonneg [of rs]
    by (auto simp: a Let_def stream_bytes_def)
qed

lemma stream_loop_pulled:
  "0 < maxRows \<Longrightarrow> int (length rows) \<le> maxRows \<Longrightarrow>
   int (pulled (stream_loop rs failure maxRows maxBytes rows n)) \<le> maxRows + 1"
proof (induction rs arbitrary: rows n)
  case (Cons a rs)
  obtain row json where a: "a = (row, json)" by (cases a)
  from Cons show ?case by (auto simp: a Let_def)
qed simp

lemma stream_loop_metrics:
  "recorded (stream_loop rs failure maxRows maxBytes rows n) = [] \<longleftrightarrow>
     (case outcome (stream_loop rs failure maxRows maxBytes rows n) of
        Inr _ \<Rightarrow> True | Inl e \<Rightarrow> (\<exists>m. e = StreamFailed m))"
proof (induction rs arbitrary: rows n)
  case Nil
  show ?case by (simp split: option.split)
next
  case (Cons a rs)
  obtain row json where a: "a = (row, json)" by (cases a)
  show ?case using Cons.IH by (simp add: a Let_def)
qed

text \<open>
  A streamed query returns either every row the connection produced or an error, never a
  part: it succeeds exactly when the stream ends normally within both caps. It never takes more
  than one row beyond the row cap, and it records a cap metric exactly when a cap was the cause.
\<close>

theorem stream_all_or_error:
  "(outcome (streamSqlWithBudget stream failure maxRows maxBytes) = Inr rows \<longleftrightarrow>
      failure = None \<and> rows = map fst stream
      \<and> (maxBytes \<le> 0 \<or> stream_bytes stream \<le> maxBytes)
      \<and> (maxRows \<le> 0 \<or> int (length stream) \<le> maxRows))
   \<and> (maxRows \<le> 0 \<or> int (pulled (streamSqlWithBudget stream failure maxRows maxBytes)) \<le> maxRows + 1)
   \<and> (recorded (streamSqlWithBudget stream failure maxRows maxBytes) = [] \<longleftrightarrow>
      (case outcome (streamSqlWithBudget stream failure maxRows maxBytes) of
         Inr _ \<Rightarrow> True | Inl e \<Rightarrow> (\<exists>m. e = StreamFailed m)))"
  unfolding streamSqlWithBudget_def
  using stream_loop_Inr [of stream failure maxRows maxBytes "[]" 0 rows]
    stream_loop_pulled [of maxRows "[]" stream failure maxBytes 0]
    stream_loop_metrics [of stream failure maxRows maxBytes "[]" 0]
  by (cases "0 < maxRows") (auto simp: stream_bytes_def)

text \<open>
  The sentinel row makes the hard cap loud. When the database returns as many rows as it has
  up to the limit it was given, the check throws exactly when the rows asked for exceed the cap;
  otherwise the caller has every row it asked for: the cap never shortens a result in silence.
\<close>

theorem row_cap_never_truncates:
  fixes available :: int
  assumes "0 < defaultLimit"
  shows "let requested = resolveModelQueryRowLimit userLimit defaultLimit 0;
       fetched = min available (resolveModelQueryRowLimit userLimit defaultLimit maxRows)
     in (snd (assertWithinModelRowLimit fetched maxRows src) = Inl (TooManyRows maxRows) \<longleftrightarrow>
           0 < maxRows \<and> maxRows < min available requested)
      \<and> (snd (assertWithinModelRowLimit fetched maxRows src) = Inr () \<longrightarrow>
           fetched = min available requested)"
  by (auto simp: Let_def resolveModelQueryRowLimit_def assertWithinModelRowLimit_def)

lemma row_cap_never_truncates_witness:
  "snd (assertWithinModelRowLimit (min 5000 (resolveModelQueryRowLimit (Some 7000) 1000 100)) 100 ModelQuery)
     = Inl (TooManyRows 100)"
  using row_cap_never_truncates [of 1000 "Some 7000" 5000 100 ModelQuery]
  by (simp add: Let_def resolveModelQueryRowLimit_def)

subsection \<open>Waiting time of a package load\<close>

text \<open>\<open>RpcWaitAccountant\<close>; \<open>now\<close> is the clock at the call.\<close>

record Accountant =
  acc_inFlight :: int
  waitStartMs :: int
  accumMs :: int
  startedCount :: nat
  activeJobId :: "string option"

definition new_accountant :: Accountant where
  "new_accountant = \<lparr>acc_inFlight = 0, waitStartMs = 0, accumMs = 0, startedCount = 0,
     activeJobId = None\<rparr>"

definition begin_job :: "string \<Rightarrow> Accountant \<Rightarrow> Accountant" where
  "begin_job j a = \<lparr>acc_inFlight = 0, waitStartMs = 0, accumMs = 0, startedCount = 0,
     activeJobId = Some j\<rparr>"

definition noteStart :: "string \<Rightarrow> int \<Rightarrow> Accountant \<Rightarrow> Accountant" where
  "noteStart j now a =
     (if Some j \<noteq> activeJobId a then a
      else (let a1 = (if acc_inFlight a = 0 then a\<lparr>waitStartMs := now\<rparr> else a)
            in a1\<lparr>acc_inFlight := acc_inFlight a1 + 1, startedCount := startedCount a1 + 1\<rparr>))"

definition noteSettle :: "string \<Rightarrow> int \<Rightarrow> Accountant \<Rightarrow> Accountant" where
  "noteSettle j now a =
     (if Some j \<noteq> activeJobId a then a
      else (let a1 = a\<lparr>acc_inFlight := acc_inFlight a - 1\<rparr>
            in if acc_inFlight a1 = 0
               then a1\<lparr>accumMs := accumMs a1 + (now - waitStartMs a1)\<rparr> else a1))"

definition waitMs :: "Accountant \<Rightarrow> int" where "waitMs a = accumMs a"
definition fetches :: "Accountant \<Rightarrow> nat" where "fetches a = startedCount a"

text \<open>A trace: fetches of some job that start (\<open>True\<close>) or settle, with their times.\<close>

type_synonym fetch_event = "bool \<times> string \<times> int"

definition note_event :: "fetch_event \<Rightarrow> Accountant \<Rightarrow> Accountant" where
  "note_event e a = (case e of (st, j, now) \<Rightarrow> if st then noteStart j now a else noteSettle j now a)"

text \<open>The time during which a fetch of the job is outstanding, from the trace alone.\<close>

fun busy_time :: "string \<Rightarrow> int \<Rightarrow> int \<Rightarrow> fetch_event list \<Rightarrow> int" where
  "busy_time j t n [] = 0"
| "busy_time j t n ((st, k, u) # es) =
     (if n > 0 then u - t else 0) +
     busy_time j u (if k = j then (if st then n + 1 else n - 1) else n) es"

text \<open>Every settled fetch of the job has started, and none is left at the end.\<close>

fun balanced :: "string \<Rightarrow> int \<Rightarrow> fetch_event list \<Rightarrow> bool" where
  "balanced j n [] = (n = 0)"
| "balanced j n ((st, k, u) # es) =
     (if k = j then (if st then balanced j (n + 1) es else n > 0 \<and> balanced j (n - 1) es)
      else balanced j n es)"

lemma note_other:
  "activeJobId a = Some j \<Longrightarrow> k \<noteq> j \<Longrightarrow> note_event (st, k, u) a = a"
  by (simp add: note_event_def noteStart_def noteSettle_def)

lemma accountant_run:
  assumes "activeJobId a = Some j" and "acc_inFlight a = n" and "0 \<le> n" and "balanced j n es"
  shows "waitMs (fold note_event es a) =
     accumMs a + (if n > 0 then t - waitStartMs a else 0) + busy_time j t n es"
  using assms
proof (induction es arbitrary: a n t)
  case Nil
  then show ?case by (simp add: waitMs_def)
next
  case (Cons e es)
  obtain st k u where e: "e = (st, k, u)" by (cases e)
  show ?case
  proof (cases "k = j")
    case False
    then show ?thesis
      using Cons.IH [of a n u] Cons.prems by (simp add: e note_other)
  next
    case True
    show ?thesis
    proof (cases st)
      case start: True
      let ?a = "note_event e a"
      have s: "activeJobId ?a = Some j" "acc_inFlight ?a = n + 1" "accumMs ?a = accumMs a"
        "waitStartMs ?a = (if n = 0 then u else waitStartMs a)"
        using Cons.prems True start by (simp_all add: e note_event_def noteStart_def Let_def)
      have "balanced j (n + 1) es" using Cons.prems True start by (simp add: e)
      from Cons.IH [OF s(1,2) _ this, of u] show ?thesis
        using Cons.prems True start s by (simp add: e)
    next
      case settle: False
      let ?a = "note_event e a"
      have n: "0 < n" "balanced j (n - 1) es" using Cons.prems True settle by (simp_all add: e)
      have s: "activeJobId ?a = Some j" "acc_inFlight ?a = n - 1" "waitStartMs ?a = waitStartMs a"
        "accumMs ?a = (if n = 1 then accumMs a + (u - waitStartMs a) else accumMs a)"
        using Cons.prems True settle by (simp_all add: e note_event_def noteSettle_def Let_def)
      from Cons.IH [OF s(1,2) _ n(2), of u] show ?thesis
        using Cons.prems True settle n s by (simp add: e)
    qed
  qed
qed

text \<open>
  The reported wait of a load is the length of the union of its fetches: overlapping fetches
  count once, and whatever an earlier load left behind, before or during this one, counts nothing.
\<close>

theorem wait_is_union_of_fetches:
  assumes "balanced j 0 es"
  shows "waitMs (fold note_event es (begin_job j a)) = busy_time j t 0 es"
  using accountant_run [of "begin_job j a" j 0 es t] assms by (simp add: begin_job_def)

lemma wait_is_union_of_fetches_witness:
  "waitMs (fold note_event [(True, ''b'', 10), (True, ''b'', 12), (False, ''a'', 13), (False, ''b'', 15),
      (False, ''b'', 20)] (begin_job ''b'' new_accountant)) = 10"
  using wait_is_union_of_fetches [of "''b''" "[(True, ''b'', 10), (True, ''b'', 12), (False, ''a'', 13),
      (False, ''b'', 15), (False, ''b'', 20)]" new_accountant 0]
  by simp

end
