(* ===== verification/Watermark.thy ===== *)
theory Watermark
  imports Complex_Main Quoting "HOL-Library.Char_ord" "HOL-Library.List_Lexorder"
begin

text \<open>
  Watermark boundaries (first part of \<open>service/incremental_apply.ts\<close>): canonical scalar text with a
  Malloy type, how one is read off a warehouse row, compared, and spelled as a SQL literal.

  JavaScript's conversions between text and IEEE numbers are parameters: \<open>numOf\<close> is \<open>Number\<close>,
  \<open>dateNumber\<close> the same of a \<open>Date\<close>, and \<open>numText\<close> is \<open>String\<close> of a finite number, which are rationals here.
\<close>

subsection \<open>Boundaries\<close>

record WatermarkBound =
  malloyType :: string
  boundValue :: string

datatype BoundError =
    NotUtcTimestamp string
  | NotIsoDate string
  | NotFiniteNumber string
  | NoLiteralRendering string
  | NullWatermark
  | BoundTypesDiffer string string

definition RENDERABLE_TYPES :: "string list" where
  "RENDERABLE_TYPES = [''date'', ''timestamp'', ''number'', ''string'']"

definition isRenderableWatermarkType :: "string \<Rightarrow> bool" where
  "isRenderableWatermarkType t \<longleftrightarrow> t \<in> set RENDERABLE_TYPES"

definition backslash_dialect :: "string \<Rightarrow> bool" where
  "backslash_dialect dialect \<longleftrightarrow> dialect = ''snowflake'' \<or> dialect = ''standardsql''"

definition escapeSqlString :: "string \<Rightarrow> string \<Rightarrow> string" where
  "escapeSqlString txt dialect =
     (let quoted = replace_all squote [squote, squote] txt in
      if backslash_dialect dialect then replace_all backslash [backslash, backslash] quoted else quoted)"

subsection \<open>Dates and times\<close>

definition date_classes :: "(char \<Rightarrow> bool) list" where
  "date_classes = (let d = is_digit; m = (\<lambda>c. c = CHR ''-'') in [d, d, d, d, m, d, d, m, d, d])"

definition time_classes :: "(char \<Rightarrow> bool) list" where
  "time_classes = (let d = is_digit; c = (\<lambda>c. c = CHR '':'') in [d, d, c, d, d, c, d, d])"

text \<open>\<open>(?:\.\d+)?Z?$\<close>.\<close>

definition fraction_and_zone :: "string \<Rightarrow> bool" where
  "fraction_and_zone s \<longleftrightarrow>
     (case s of
        [] \<Rightarrow> True
      | c # ds \<Rightarrow> (if c = CHR ''.'' \<and> takeWhile is_digit ds \<noteq> [] then dropWhile is_digit ds else s) \<in> {[], ''Z''})"

definition secondsPrecision :: "string \<Rightarrow> BoundError + string" where
  "secondsPrecision txt =
     (let t = js_trim txt in
      if match_classes (date_classes @ [\<lambda>c. c = CHR ''T'' \<or> c = CHR '' ''] @ time_classes) t \<and> fraction_and_zone (drop 19 t)
      then Inr (take 10 t @ '' '' @ take 8 (drop 11 t))
      else Inl (NotUtcTimestamp txt))"

definition datePrecision :: "string \<Rightarrow> BoundError + string" where
  "datePrecision txt =
     (let t = js_trim txt in if match_classes date_classes t then Inr (take 10 t) else Inl (NotIsoDate txt))"

subsection \<open>Numbers\<close>

datatype js_number = NaN | PosInf | NegInf | Finite rat

definition isFinite :: "js_number \<Rightarrow> bool" where
  "isFinite n = (case n of Finite _ \<Rightarrow> True | _ \<Rightarrow> False)"

text \<open>\<open>a - b\<close>; of the difference only the sign is used, and that is exact.\<close>

fun js_minus :: "js_number \<Rightarrow> js_number \<Rightarrow> js_number" where
  "js_minus NaN b = NaN"
| "js_minus (Finite a) b = (case b of Finite c \<Rightarrow> Finite (a - c) | PosInf \<Rightarrow> NegInf | NegInf \<Rightarrow> PosInf | NaN \<Rightarrow> NaN)"
| "js_minus PosInf b = (if b = NaN \<or> b = PosInf then NaN else PosInf)"
| "js_minus NegInf b = (if b = NaN \<or> b = NegInf then NaN else NegInf)"

definition nonpositive :: "js_number \<Rightarrow> bool" where
  "nonpositive n = (case n of Finite r \<Rightarrow> r \<le> 0 | NegInf \<Rightarrow> True | _ \<Rightarrow> False)"

record js_numbers =
  numOf :: "string \<Rightarrow> js_number"
  numText :: "rat \<Rightarrow> string"
  dateNumber :: "string \<Rightarrow> js_number"

definition renderNumber :: "js_numbers \<Rightarrow> string \<Rightarrow> BoundError + string" where
  "renderNumber js txt = (case numOf js txt of Finite n \<Rightarrow> Inr (numText js n) | _ \<Rightarrow> Inl (NotFiniteNumber txt))"

subsection \<open>Literals, values and comparison\<close>

definition renderSqlBound :: "js_numbers \<Rightarrow> WatermarkBound \<Rightarrow> string \<Rightarrow> BoundError + string" where
  "renderSqlBound js bound dialect =
     (if malloyType bound = ''date''
        then bind_r (datePrecision (boundValue bound)) (\<lambda>d. Inr (''DATE '' @ squote # d @ [squote]))
      else if malloyType bound = ''timestamp''
        then bind_r (secondsPrecision (boundValue bound)) (\<lambda>t. Inr (''TIMESTAMP '' @ squote # t @ [squote]))
      else if malloyType bound = ''number'' then renderNumber js (boundValue bound)
      else if malloyType bound = ''string'' then Inr (squote # escapeSqlString (boundValue bound) dialect @ [squote])
      else Inl (NoLiteralRendering (malloyType bound)))"

text \<open>
  What a driver hands back for one column: nothing, a \<open>Date\<close> (by its ISO text), a wrapper with a
  \<open>value\<close> (by the text of that value), a string, or anything else by its text.
\<close>

datatype cell = CellNull | CellDate string | CellWrapped string | CellString string | CellOther string

fun cell_text :: "cell \<Rightarrow> string" where
  "cell_text CellNull = ''null''"
| "cell_text (CellDate stamp) = stamp"
| "cell_text (CellWrapped t) = t"
| "cell_text (CellString t) = t"
| "cell_text (CellOther t) = t"

definition canonicalBoundValue :: "js_numbers \<Rightarrow> string \<Rightarrow> cell \<Rightarrow> BoundError + WatermarkBound" where
  "canonicalBoundValue js t raw =
     (case raw of
        CellNull \<Rightarrow> Inl NullWatermark
      | CellDate stamp \<Rightarrow> Inr \<lparr>malloyType = t, boundValue = (if t = ''date'' then take 10 stamp else take 19 stamp)\<rparr>
      | _ \<Rightarrow> map_sum id (\<lambda>txt. \<lparr>malloyType = t, boundValue = txt\<rparr>)
          (if t = ''date'' then datePrecision (cell_text raw)
           else if t = ''timestamp'' then secondsPrecision (cell_text raw)
           else if t = ''number'' then renderNumber js (cell_text raw)
           else Inr (cell_text raw)))"

text \<open>The run clock, by its ISO text.\<close>

definition snapshotBound :: "js_numbers \<Rightarrow> string \<Rightarrow> string \<Rightarrow> BoundError + WatermarkBound" where
  "snapshotBound js t now = canonicalBoundValue js t (CellDate now)"

definition compareBounds :: "js_numbers \<Rightarrow> WatermarkBound \<Rightarrow> WatermarkBound \<Rightarrow> BoundError + js_number" where
  "compareBounds js a b =
     (if malloyType a \<noteq> malloyType b then Inl (BoundTypesDiffer (malloyType a) (malloyType b))
      else if malloyType a = ''number'' then Inr (js_minus (numOf js (boundValue a)) (numOf js (boundValue b)))
      else Inr (Finite (if boundValue a < boundValue b then - 1 else if boundValue a > boundValue b then 1 else 0)))"

subsection \<open>Shapes\<close>

lemma match_classes_app:
  "match_classes (ps @ qs) s \<longleftrightarrow> match_classes ps s \<and> match_classes qs (drop (length ps) s)"
  by (induction ps s rule: match_classes.induct) (auto elim: match_classes.elims)

lemma match_classes_hd: "match_classes (p # ps) s \<longleftrightarrow> s \<noteq> [] \<and> p (hd s) \<and> match_classes ps (tl s)"
  by (cases s) auto

lemma match_classes_take: "match_classes ps (take (length ps) s) \<longleftrightarrow> match_classes ps s"
  by (induction ps s rule: match_classes.induct) auto

lemma match_classes_exact: "match_classes ps s \<Longrightarrow> match_classes ps (take (length ps) s @ r)"
  by (induction ps s rule: match_classes.induct) auto

lemma match_classes_set:
  "match_classes ps s \<Longrightarrow> \<forall>p \<in> set ps. \<forall>c. p c \<longrightarrow> P c \<Longrightarrow> \<forall>c \<in> set (take (length ps) s). P c"
  by (induction ps s rule: match_classes.induct) auto

lemma class_lengths [simp]: "length date_classes = 10" "length time_classes = 8"
  by (simp_all add: date_classes_def time_classes_def Let_def)

definition timestamp_shape :: "string \<Rightarrow> bool" where
  "timestamp_shape s \<longleftrightarrow>
     length s = 19 \<and> match_classes (date_classes @ [\<lambda>c. c = CHR ''T'' \<or> c = CHR '' ''] @ time_classes) s"

definition date_shape :: "string \<Rightarrow> bool" where
  "date_shape s \<longleftrightarrow> length s = 10 \<and> match_classes date_classes s"

lemma is_digit_not_space: "is_digit c \<Longrightarrow> \<not> js_space c"
  by (auto simp: is_digit_def js_space_def Let_def)

lemma date_shape_trim: "date_shape s \<Longrightarrow> js_trim s = s"
proof (rule js_trim_id)
  assume "date_shape s"
  then have "is_digit (hd s)" "is_digit (last s)"
    by (auto simp: date_shape_def date_classes_def Let_def numeral_eq_Suc length_Suc_conv)
  then show "s = [] \<or> (\<not> js_space (hd s) \<and> \<not> js_space (last s))" by (auto dest: is_digit_not_space)
qed

lemma timestamp_shape_trim: "timestamp_shape s \<Longrightarrow> js_trim s = s"
proof (rule js_trim_id)
  assume "timestamp_shape s"
  then have "is_digit (hd s)" "is_digit (last s)"
    by (auto simp: timestamp_shape_def date_classes_def time_classes_def Let_def numeral_eq_Suc length_Suc_conv)
  then show "s = [] \<or> (\<not> js_space (hd s) \<and> \<not> js_space (last s))" by (auto dest: is_digit_not_space)
qed

lemma datePrecision_shape:
  assumes "datePrecision txt = Inr d"
  shows "date_shape d"
proof -
  from assms have m: "match_classes date_classes (js_trim txt)" and d: "d = take 10 (js_trim txt)"
    by (auto simp: datePrecision_def Let_def split: if_splits)
  show ?thesis
    using match_classes_length [OF m] match_classes_take [of date_classes "js_trim txt"] m d
    by (simp add: date_shape_def)
qed

lemma secondsPrecision_shape:
  assumes "secondsPrecision txt = Inr t"
  shows "timestamp_shape t" and "t ! 10 = CHR '' ''"
proof -
  let ?s = "js_trim txt"
  from assms have m: "match_classes (date_classes @ [\<lambda>c. c = CHR ''T'' \<or> c = CHR '' ''] @ time_classes) ?s"
    and t: "t = take 10 ?s @ '' '' @ take 8 (drop 11 ?s)"
    by (auto simp: secondsPrecision_def Let_def split: if_splits)
  have len: "19 \<le> length ?s" using match_classes_length [OF m] by simp
  from m have d: "match_classes date_classes ?s" and tm: "match_classes time_classes (drop 11 ?s)"
    by (auto simp: match_classes_app match_classes_hd tl_drop drop_Suc [symmetric])
  have "match_classes date_classes t" using match_classes_exact [OF d] t by simp
  moreover have "match_classes time_classes (drop 11 t)"
    using match_classes_take [of time_classes "drop 11 ?s"] tm t len by simp
  moreover show "t ! 10 = CHR '' ''" using t len by (simp add: nth_append)
  moreover have "length t = 19" using t len by simp
  ultimately show "timestamp_shape t"
    using t len by (simp add: timestamp_shape_def match_classes_app)
qed

lemma datePrecision_id: "date_shape d \<Longrightarrow> datePrecision d = Inr d"
  by (simp add: datePrecision_def date_shape_trim date_shape_def)

lemma secondsPrecision_total:
  assumes "timestamp_shape t"
  shows "\<exists>u. secondsPrecision t = Inr u"
  using assms timestamp_shape_trim [OF assms]
  by (auto simp: secondsPrecision_def timestamp_shape_def fraction_and_zone_def)

text \<open>How an engine reads a string literal: a doubled quote is a quote; \<open>bs\<close> says whether a backslash escapes.\<close>

fun read_sql_literal :: "bool \<Rightarrow> string \<Rightarrow> (string \<times> string) option" where
  "read_sql_literal bs [] = None"
| "read_sql_literal bs (c # s) =
     (if c = squote then
        (case s of d # s' \<Rightarrow> if d = squote then map_option (apfst ((#) squote)) (read_sql_literal bs s') else Some ([], s)
         | [] \<Rightarrow> Some ([], []))
      else if bs \<and> c = backslash then
        (case s of [] \<Rightarrow> None | d # s' \<Rightarrow> map_option (apfst ((#) d)) (read_sql_literal bs s'))
      else map_option (apfst ((#) c)) (read_sql_literal bs s))"

lemma escapeSqlString_Cons:
  "escapeSqlString (c # s) d =
     (if c = squote then [squote, squote] else if c = backslash \<and> backslash_dialect d then [backslash, backslash] else [c])
       @ escapeSqlString s d"
  by (auto simp: escapeSqlString_def Let_def char_defs)

lemma read_escaped:
  "rest = [] \<or> hd rest \<noteq> squote \<Longrightarrow>
   read_sql_literal (backslash_dialect d) (escapeSqlString v d @ squote # rest) = Some (v, rest)"
proof (induction v)
  case Nil
  then show ?case by (cases rest) (simp_all add: escapeSqlString_def)
next
  case (Cons c v)
  then show ?case by (auto simp: escapeSqlString_Cons char_defs)
qed

lemma read_plain:
  "squote \<notin> set v \<Longrightarrow> backslash \<notin> set v \<Longrightarrow> rest = [] \<or> hd rest \<noteq> squote \<Longrightarrow>
   read_sql_literal bs (v @ squote # rest) = Some (v, rest)"
proof (induction v)
  case Nil
  then show ?case by (cases rest) simp_all
qed auto

lemma digit_no_delim: "is_digit c \<Longrightarrow> c \<noteq> squote \<and> c \<noteq> backslash"
  by (auto simp: is_digit_def Let_def char_defs)

lemma classes_no_delim:
  "\<forall>p \<in> set (date_classes @ [\<lambda>c. c = CHR ''T'' \<or> c = CHR '' ''] @ time_classes). \<forall>c. p c \<longrightarrow> c \<noteq> squote \<and> c \<noteq> backslash"
  by (auto simp: date_classes_def time_classes_def Let_def dest: digit_no_delim) (auto simp: char_defs)

lemma date_shape_plain: "date_shape d \<Longrightarrow> squote \<notin> set d \<and> backslash \<notin> set d"
  using match_classes_set [of date_classes d "\<lambda>c. c \<noteq> squote \<and> c \<noteq> backslash"] classes_no_delim
  unfolding date_shape_def by auto

lemma timestamp_shape_plain: "timestamp_shape d \<Longrightarrow> squote \<notin> set d \<and> backslash \<notin> set d"
  using match_classes_set [OF _ classes_no_delim, of d] unfolding timestamp_shape_def by auto

subsection \<open>Properties\<close>

text \<open>
  A boundary that is spelled into a statement is one literal and no more: whatever the text, the
  engine reads the value back and goes on exactly where the statement does. Engines that know a
  doubled quote are meant: the text of a string boundary is not readable by BigQuery.
\<close>

theorem bound_literal_reads_back:
  assumes "renderSqlBound js bound dialect = Inr txt" and "malloyType bound \<noteq> ''number''"
    and "rest = [] \<or> hd rest \<noteq> squote"
  shows "\<exists>keyword literal v. txt @ rest = keyword @ squote # literal
    \<and> keyword \<in> {'''', ''DATE '', ''TIMESTAMP ''}
    \<and> read_sql_literal (backslash_dialect dialect) literal = Some (v, rest)
    \<and> (if malloyType bound = ''string'' then v = boundValue bound
       else if malloyType bound = ''date'' then datePrecision (boundValue bound) = Inr v
       else secondsPrecision (boundValue bound) = Inr v)"
proof -
  consider d where "malloyType bound = ''date''" "datePrecision (boundValue bound) = Inr d" "txt = ''DATE '' @ squote # d @ [squote]"
    | t where "malloyType bound = ''timestamp''" "secondsPrecision (boundValue bound) = Inr t"
        "txt = ''TIMESTAMP '' @ squote # t @ [squote]"
    | "malloyType bound = ''string''" "txt = squote # escapeSqlString (boundValue bound) dialect @ [squote]"
    using assms(1,2) by (auto simp: renderSqlBound_def bind_r_eq_Inr split: if_splits)
  then show ?thesis
  proof cases
    case 1
    then show ?thesis using date_shape_plain [OF datePrecision_shape [OF 1(2)]] assms(3)
      by (intro exI [of _ "''DATE ''"] exI [of _ "d @ squote # rest"] exI [of _ d]) (simp add: read_plain)
  next
    case 2
    have "read_sql_literal (backslash_dialect dialect) (t @ squote # rest) = Some (t, rest)"
      using timestamp_shape_plain [OF secondsPrecision_shape(1) [OF 2(2)]] assms(3) by (intro read_plain) simp_all
    moreover have "txt @ rest = ''TIMESTAMP '' @ squote # (t @ squote # rest)" by (simp only: 2(3) append.simps append_assoc)
    moreover have "malloyType bound \<noteq> ''string''" "malloyType bound \<noteq> ''date''" using 2(1) by simp_all
    ultimately show ?thesis unfolding if_not_P [OF \<open>malloyType bound \<noteq> ''string''\<close>] if_not_P [OF \<open>malloyType bound \<noteq> ''date''\<close>]
      using 2(2) by blast
  next
    case 3
    then show ?thesis using read_escaped [OF assms(3)]
      by (intro exI [of _ "[]"] exI [of _ "escapeSqlString (boundValue bound) dialect @ squote # rest"]
          exI [of _ "boundValue bound"]) simp
  qed
qed

lemma bound_literal_reads_back_witness:
  "\<exists>literal. read_sql_literal True literal = Some ([squote, backslash], '' AND 1'')"
proof -
  have "renderSqlBound js \<lparr>malloyType = ''string'', boundValue = [squote, backslash]\<rparr> ''snowflake''
      = Inr [squote, squote, squote, backslash, backslash, squote]" for js
    by (simp add: renderSqlBound_def escapeSqlString_Cons backslash_dialect_def char_defs escapeSqlString_def)
  from bound_literal_reads_back [OF this, of "'' AND 1''"] obtain keyword literal v
    where "read_sql_literal (backslash_dialect ''snowflake'') literal = Some (v, '' AND 1'')" "v = [squote, backslash]"
    by (simp add: squote_def) blast
  moreover have "backslash_dialect ''snowflake''" by code_simp
  ultimately show ?thesis by metis
qed

text \<open>
  A BigQuery literal has backslash escapes and no doubled quote, so the spelling chosen for it ends
  at the first apostrophe of the value.
\<close>

fun read_bigquery_literal :: "string \<Rightarrow> (string \<times> string) option" where
  "read_bigquery_literal [] = None"
| "read_bigquery_literal (c # s) =
     (if c = squote then Some ([], s)
      else if c = backslash then (case s of [] \<Rightarrow> None | d # s' \<Rightarrow> map_option (apfst ((#) d)) (read_bigquery_literal s'))
      else map_option (apfst ((#) c)) (read_bigquery_literal s))"

lemma bigquery_apostrophe_ends_literal:
  "read_bigquery_literal (escapeSqlString (''O'' @ squote # ''Brien'') ''standardsql'' @ [squote])
     = Some (''O'', squote # ''Brien'' @ [squote])"
  by (simp add: escapeSqlString_Cons escapeSqlString_def backslash_dialect_def char_defs)

definition numbers_read_back :: "js_numbers \<Rightarrow> bool" where
  "numbers_read_back js \<longleftrightarrow> (\<forall>n txt. numOf js txt = Finite n \<longrightarrow> numOf js (numText js n) = Finite n)"

definition stamp_shape :: "string \<Rightarrow> bool" where
  "stamp_shape s \<longleftrightarrow> timestamp_shape (take 19 s)"

lemma stamp_date: "stamp_shape s \<Longrightarrow> date_shape (take 10 s)"
  using match_classes_take [of date_classes s] match_classes_take [of date_classes "take 19 s"]
  by (auto simp: stamp_shape_def timestamp_shape_def date_shape_def match_classes_app)

text \<open>The text of a cell, canonical for its type.\<close>

definition canonical_text :: "js_numbers \<Rightarrow> string \<Rightarrow> string \<Rightarrow> BoundError + string" where
  "canonical_text js t txt =
     (if t = ''date'' then datePrecision txt else if t = ''timestamp'' then secondsPrecision txt
      else if t = ''number'' then renderNumber js txt else Inr txt)"

lemma canonicalBoundValue_text:
  "\<forall>stamp. raw \<noteq> CellDate stamp \<Longrightarrow> canonicalBoundValue js t raw = Inr bound \<Longrightarrow>
   malloyType bound = t \<and> canonical_text js t (cell_text raw) = Inr (boundValue bound)"
  by (cases raw; cases "canonical_text js t (cell_text raw)")
    (auto simp: canonicalBoundValue_def canonical_text_def split: if_splits)

lemma canonical_text_renders:
  assumes "canonical_text js (malloyType bound) txt = Inr (boundValue bound)"
    and "isRenderableWatermarkType (malloyType bound)" and "numbers_read_back js"
  shows "\<exists>out. renderSqlBound js bound dialect = Inr out"
proof -
  consider "malloyType bound = ''date''" | "malloyType bound = ''timestamp''" | "malloyType bound = ''number''"
    | "malloyType bound = ''string''"
    using assms(2) by (auto simp: isRenderableWatermarkType_def RENDERABLE_TYPES_def)
  then show ?thesis
  proof cases
    case 1
    with assms(1) have "datePrecision txt = Inr (boundValue bound)" by (simp add: canonical_text_def)
    with 1 datePrecision_id [OF datePrecision_shape] show ?thesis by (simp add: renderSqlBound_def)
  next
    case 2
    with assms(1) have "secondsPrecision txt = Inr (boundValue bound)" by (simp add: canonical_text_def)
    with secondsPrecision_total [OF secondsPrecision_shape(1)]
    obtain u where "secondsPrecision (boundValue bound) = Inr u" by blast
    with 2 show ?thesis by (simp add: renderSqlBound_def)
  next
    case 3
    with assms(1,3) show ?thesis
      by (auto simp: canonical_text_def renderSqlBound_def renderNumber_def numbers_read_back_def split: js_number.splits)
  qed (simp add: renderSqlBound_def)
qed

text \<open>
  C29: What is taken off a warehouse can always be spelled into the next statement: a boundary of a
  renderable type, read from any cell a driver returns, never fails to render, provided \<open>Number\<close> reads
  back what \<open>String\<close> prints and a \<open>Date\<close> is not the value of a number.
\<close>

theorem canonical_bound_renders:
  assumes "canonicalBoundValue js t raw = Inr bound" and "isRenderableWatermarkType t" and "numbers_read_back js"
    and "\<forall>stamp. raw = CellDate stamp \<longrightarrow> stamp_shape stamp \<and> t \<noteq> ''number''"
  shows "malloyType bound = t \<and> (\<exists>txt. renderSqlBound js bound dialect = Inr txt)"
proof (cases "\<exists>stamp. raw = CellDate stamp")
  case True
  then obtain stamp where "raw = CellDate stamp" by blast
  with assms have b: "bound = \<lparr>malloyType = t, boundValue = (if t = ''date'' then take 10 stamp else take 19 stamp)\<rparr>"
    and s: "stamp_shape stamp" and t: "t \<in> {''date'', ''timestamp'', ''string''}"
    by (auto simp: canonicalBoundValue_def isRenderableWatermarkType_def RENDERABLE_TYPES_def)
  have "\<exists>u. secondsPrecision (take 19 stamp) = Inr u"
    using s by (intro secondsPrecision_total) (simp add: stamp_shape_def)
  then show ?thesis using t datePrecision_id [OF stamp_date [OF s]] b by (auto simp: renderSqlBound_def)
next
  case False
  with canonicalBoundValue_text [OF _ assms(1)] have c: "malloyType bound = t"
      "canonical_text js (malloyType bound) (cell_text raw) = Inr (boundValue bound)" by auto
  with canonical_text_renders [OF c(2) _ assms(3)] assms(2) show ?thesis by simp
qed

lemma canonical_bound_renders_witness:
  "\<exists>txt. renderSqlBound \<lparr>numOf = \<lambda>_. Finite 0, numText = \<lambda>_. ''0'', dateNumber = \<lambda>_. NaN\<rparr> \<lparr>malloyType = ''timestamp'', boundValue = ''2024-01-31T10:00:00''\<rparr> ''duckdb'' = Inr txt"
proof -
  let ?js = "\<lparr>numOf = \<lambda>_. Finite 0, numText = \<lambda>_. ''0'', dateNumber = \<lambda>_. NaN\<rparr>"
  have "canonicalBoundValue ?js ''timestamp'' (CellDate ''2024-01-31T10:00:00.123Z'')
      = Inr \<lparr>malloyType = ''timestamp'', boundValue = ''2024-01-31T10:00:00''\<rparr>" by code_simp
  moreover have "stamp_shape ''2024-01-31T10:00:00.123Z''" by code_simp
  moreover have "numbers_read_back ?js" by (simp add: numbers_read_back_def)
  ultimately show ?thesis
    using canonical_bound_renders [of ?js "''timestamp''" "CellDate ''2024-01-31T10:00:00.123Z''" _ "''duckdb''"]
    by (auto simp: isRenderableWatermarkType_def RENDERABLE_TYPES_def renderSqlBound_def)
qed

subsection \<open>The order of boundaries\<close>

definition bound_ok :: "js_numbers \<Rightarrow> WatermarkBound \<Rightarrow> bool" where
  "bound_ok js b \<longleftrightarrow> malloyType b = ''number'' \<longrightarrow> isFinite (numOf js (boundValue b))"

definition bound_le :: "js_numbers \<Rightarrow> WatermarkBound \<Rightarrow> WatermarkBound \<Rightarrow> bool" where
  "bound_le js a b \<longleftrightarrow> (\<exists>n. compareBounds js a b = Inr n \<and> nonpositive n)"

lemma bound_le_text:
  "malloyType a \<noteq> ''number'' \<Longrightarrow> bound_le js a b \<longleftrightarrow> malloyType b = malloyType a \<and> boundValue a \<le> boundValue b"
  by (auto simp: bound_le_def compareBounds_def nonpositive_def)

lemma bound_le_number:
  "malloyType a = ''number'' \<Longrightarrow> numOf js (boundValue a) = Finite x \<Longrightarrow> numOf js (boundValue b) = Finite y \<Longrightarrow>
   bound_le js a b \<longleftrightarrow> malloyType b = ''number'' \<and> x \<le> y"
  by (auto simp: bound_le_def compareBounds_def nonpositive_def)

lemma finite_number: "isFinite n \<longleftrightarrow> (\<exists>r. n = Finite r)"
  by (cases n) (auto simp: isFinite_def)

lemma bound_le_refl [simp]: "bound_ok js a \<Longrightarrow> bound_le js a a"
  by (cases "malloyType a = ''number''") (auto simp: bound_le_text bound_le_number bound_ok_def finite_number)

lemma bound_le_trans:
  assumes "bound_le js a b" and "bound_le js b c" and "bound_ok js a" and "bound_ok js b" and "bound_ok js c"
  shows "bound_le js a c"
proof (cases "malloyType a = ''number''")
  case True
  then obtain x y z where "numOf js (boundValue a) = Finite x" "numOf js (boundValue b) = Finite y"
      "numOf js (boundValue c) = Finite z" "malloyType b = ''number''" "malloyType c = ''number''"
    using assms by (auto simp: bound_ok_def finite_number bound_le_def compareBounds_def split: if_splits)
  with True assms(1,2) show ?thesis by (auto simp: bound_le_number)
next
  case False
  with assms(1,2) show ?thesis by (auto simp: bound_le_text)
qed

lemma bound_le_total:
  assumes "malloyType a = malloyType b" and "bound_ok js a" and "bound_ok js b"
  shows "bound_le js a b \<or> bound_le js b a"
proof (cases "malloyType a = ''number''")
  case True
  then obtain x y where "numOf js (boundValue a) = Finite x" "numOf js (boundValue b) = Finite y"
    using assms by (auto simp: bound_ok_def finite_number)
  with True assms(1) show ?thesis by (auto simp: bound_le_number)
next
  case False
  with assms(1) show ?thesis by (auto simp: bound_le_text)
qed

text \<open>The half-open range of a delta.\<close>

definition in_range :: "js_numbers \<Rightarrow> WatermarkBound \<Rightarrow> WatermarkBound \<Rightarrow> WatermarkBound \<Rightarrow> bool" where
  "in_range js start finish v \<longleftrightarrow> bound_le js start v \<and> \<not> bound_le js finish v"

text \<open>
  The same instant has two spellings: a \<open>Date\<close> keeps the \<open>T\<close>, text does not, and the one without is
  taken to lie before every time of its day.
\<close>

lemma canonical_spelling_depends_on_driver:
  "canonicalBoundValue js ''timestamp'' (CellDate ''2024-01-31T08:00:00.000Z'')
     = Inr \<lparr>malloyType = ''timestamp'', boundValue = ''2024-01-31T08:00:00''\<rparr>"
  "canonicalBoundValue js ''timestamp'' (CellString ''2024-01-31T23:00:00Z'')
     = Inr \<lparr>malloyType = ''timestamp'', boundValue = ''2024-01-31 23:00:00''\<rparr>"
  "compareBounds js \<lparr>malloyType = ''timestamp'', boundValue = ''2024-01-31 23:00:00''\<rparr>
     \<lparr>malloyType = ''timestamp'', boundValue = ''2024-01-31T08:00:00''\<rparr> = Inr (Finite (- 1))"
  by code_simp+

end
