(* ===== verification/Strategy.thy ===== *)
theory Strategy
  imports Main
begin

text \<open>How a delta is written to its table (\<open>IncrementalStrategy\<close> of \<open>storage/DatabaseInterface.ts\<close>).\<close>

datatype IncrementalStrategy = RangeReplace | Merge

end
