(* ===== verification/DeltaStep.thy ===== *)
theory DeltaStep
  imports Watermark Strategy
begin

text \<open>
  One incremental refresh (\<open>service/incremental_apply.ts\<close>): the probes of the target table, the
  statements of a delta, the script that carries them and its rollback, the lineage check and the
  plan. A statement is the text the code sends; \<open>SqlRunner\<close>, the warehouse's answer to it, is a
  parameter, as is Malloy's \<open>decodeDottedTablePath\<close>.
\<close>

subsection \<open>Table paths\<close>

datatype FoldCase = Lower | Upper

record Segment =
  segmentValue :: string
  quoted :: bool

definition INCREMENTAL_TARGET_DML_DIALECTS :: "string list" where
  "INCREMENTAL_TARGET_DML_DIALECTS = [''postgres'', ''snowflake'', ''standardsql'', ''duckdb'']"

text \<open>The entries of \<open>TABLE_PATH_OPTIONS\<close>, of which only the case folding matters here.\<close>

definition TABLE_PATH_OPTIONS :: "string \<Rightarrow> FoldCase option option" where
  "TABLE_PATH_OPTIONS dialect =
     (if dialect = ''postgres'' then Some (Some Lower)
      else if dialect = ''snowflake'' then Some (Some Upper)
      else if dialect = ''standardsql'' \<or> dialect = ''duckdb'' then Some None
      else None)"

definition upper_char :: "char \<Rightarrow> char" where
  "upper_char c = (if is_lower c then char_of (of_char c - 32 :: nat) else c)"

text \<open>
  \<open>toUpperCase\<close> of an unquoted segment, which \<open>bareIdentRegex\<close> confines to ASCII. \<open>decode\<close> is
  \<open>None\<close> where the path does not parse.
\<close>

type_synonym decoder = "string \<Rightarrow> string \<Rightarrow> Segment list option"

definition fold_segment :: "FoldCase option \<Rightarrow> Segment \<Rightarrow> string" where
  "fold_segment foldCase s =
     (case foldCase of
        None \<Rightarrow> segmentValue s
      | Some f \<Rightarrow> if quoted s then segmentValue s
          else (case f of Lower \<Rightarrow> js_lower (segmentValue s) | Upper \<Rightarrow> map upper_char (segmentValue s)))"

definition decodeTablePathSegments :: "decoder \<Rightarrow> string \<Rightarrow> string \<Rightarrow> string list option" where
  "decodeTablePathSegments decode dialect tablePath =
     (case TABLE_PATH_OPTIONS dialect of
        None \<Rightarrow> None
      | Some foldCase \<Rightarrow> map_option (map (fold_segment foldCase)) (decode dialect tablePath))"

subsection \<open>Probes\<close>

text \<open>The rows of an answer; \<open>None\<close> is a row that is not an object.\<close>

type_synonym row = "(string \<times> cell) list"
type_synonym SqlRunner = "string \<Rightarrow> string + row option list"

definition probeSelect :: "string \<Rightarrow> string \<Rightarrow> string" where
  "probeSelect dialect innerSelect =
     (if dialect = ''postgres''
      then ''SELECT row_to_json(__p) AS '' @ [dquote] @ ''row'' @ [dquote] @ '' FROM ('' @ innerSelect @ '') AS __p''
      else innerSelect)"

definition probeRows :: "row option list \<Rightarrow> row list" where
  "probeRows rows = somes rows"

definition sql_text :: "string \<Rightarrow> string \<Rightarrow> string" where
  "sql_text dialect v = [squote] @ escapeSqlString v dialect @ [squote]"

text \<open>The lines of a probe, with the indentation the source's templates leave in them.\<close>

definition line :: "nat \<Rightarrow> string" where
  "line indent = nl # replicate indent (CHR '' '')"

definition column_probe :: "nat \<Rightarrow> string \<Rightarrow> string \<Rightarrow> string list \<Rightarrow> string \<Rightarrow> string" where
  "column_probe indent dialect container conditions order =
     ''SELECT column_name AS '' @ quoteIdentifier ''column_name'' dialect
     @ line indent @ ''FROM '' @ container
     @ line indent @ ''WHERE '' @ join (line (indent + 2) @ ''AND '') conditions
     @ line indent @ ''ORDER BY '' @ order"

definition target_columns_sql :: "string \<Rightarrow> string list \<Rightarrow> string option" where
  "target_columns_sql dialect segments =
     (let n = length segments; table = ''table_name = '' @ sql_text dialect (last segments) in
      if dialect = ''duckdb'' then
        Some (column_probe 14 dialect ''duckdb_columns()''
          [''database_name = '' @ sql_text dialect (hd segments),
           ''schema_name = '' @ sql_text dialect (if n \<ge> 3 then segments ! (n - 2) else ''main''),
           table] ''column_index'')
      else if dialect = ''postgres'' \<or> dialect = ''snowflake'' then
        Some (probeSelect dialect (column_probe 11 dialect
          ((if dialect = ''snowflake'' \<and> n \<ge> 3 then quoteIdentifier (segments ! (n - 3)) dialect @ ''.'' else [])
             @ ''information_schema.columns'')
          [''table_schema = '' @ (if n \<ge> 2 then sql_text dialect (segments ! (n - 2)) else ''current_schema()''),
           table] ''ordinal_position''))
      else if n < 2 then None
      else Some (column_probe 14 dialect
          (join ''.'' (map (\<lambda>s. quoteIdentifier s dialect) (butlast segments)) @ ''.INFORMATION_SCHEMA.COLUMNS'')
          [table] ''ordinal_position''))"

text \<open>The columns of the table, or none with the error; a cell that is not a string is dropped.\<close>

definition column_names :: "row list \<Rightarrow> string list" where
  "column_names rows = somes (map (\<lambda>r. case map_of r ''column_name'' of
      Some (CellString s) \<Rightarrow> if s \<noteq> [] then Some s else None | _ \<Rightarrow> None) rows)"

definition probeTargetColumns :: "SqlRunner \<Rightarrow> decoder \<Rightarrow> string \<Rightarrow> string \<Rightarrow> string list" where
  "probeTargetColumns runner decode dialect physicalTableName =
     (case decodeTablePathSegments decode dialect physicalTableName of
        None \<Rightarrow> []
      | Some segments \<Rightarrow>
          if segments = [] then []
          else (case target_columns_sql dialect segments of
              None \<Rightarrow> []
            | Some sql \<Rightarrow> (case runner sql of Inl e \<Rightarrow> [] | Inr rows \<Rightarrow> column_names (probeRows rows))))"

definition probeTargetNonEmpty :: "SqlRunner \<Rightarrow> string \<Rightarrow> string \<Rightarrow> bool" where
  "probeTargetNonEmpty runner dialect quotedTablePath =
     (case runner (probeSelect dialect (''SELECT 1 AS present FROM '' @ quotedTablePath @ '' LIMIT 1'')) of
        Inl e \<Rightarrow> False
      | Inr rows \<Rightarrow> probeRows rows \<noteq> [])"

text \<open>\<open>Inl\<close> the error, \<open>Inr None\<close> no row with a value.\<close>

datatype ProbeError = QueryFailed string | BadBound BoundError

definition probeMaxWatermark ::
  "js_numbers \<Rightarrow> SqlRunner \<Rightarrow> string \<Rightarrow> string \<Rightarrow> string \<Rightarrow> string \<Rightarrow> ProbeError + WatermarkBound option" where
  "probeMaxWatermark js runner dialect innerSelect watermarkName t =
     (case runner (probeSelect dialect
         (''SELECT MAX('' @ quoteIdentifier watermarkName dialect @ '') AS '' @ quoteIdentifier ''watermark_max'' dialect
            @ '' FROM ('' @ innerSelect @ '') AS __w'')) of
        Inl e \<Rightarrow> Inl (QueryFailed e)
      | Inr rows \<Rightarrow>
          (case probeRows rows of
             [] \<Rightarrow> Inr None
           | r # _ \<Rightarrow> (case map_of r ''watermark_max'' of
                 None \<Rightarrow> Inr None
               | Some CellNull \<Rightarrow> Inr None
               | Some raw \<Rightarrow> (case canonicalBoundValue js t raw of Inl e \<Rightarrow> Inl (BadBound e) | Inr b \<Rightarrow> Inr (Some b)))))"

definition POSTGRES_MERGE_MIN_VERSION_NUM :: rat where "POSTGRES_MERGE_MIN_VERSION_NUM = 150000"

text \<open>\<open>Number\<close> of a cell; an absent one is NaN.\<close>

definition cell_number :: "js_numbers \<Rightarrow> cell option \<Rightarrow> js_number" where
  "cell_number js v = (case v of
      None \<Rightarrow> NaN
    | Some CellNull \<Rightarrow> Finite 0
    | Some (CellDate stamp) \<Rightarrow> dateNumber js stamp
    | Some (CellWrapped t) \<Rightarrow> NaN
    | Some (CellString t) \<Rightarrow> numOf js t
    | Some (CellOther t) \<Rightarrow> numOf js t)"

definition probePostgresVersion :: "js_numbers \<Rightarrow> SqlRunner \<Rightarrow> rat option" where
  "probePostgresVersion js runner =
     (case runner (probeSelect ''postgres''
         (''SELECT current_setting('' @ squote # ''server_version_num'' @ squote # '') AS version_num'')) of
        Inl e \<Rightarrow> None
      | Inr rows \<Rightarrow>
          (case cell_number js (case probeRows rows of [] \<Rightarrow> None | r # _ \<Rightarrow> map_of r ''version_num'') of
             Finite n \<Rightarrow> Some n | _ \<Rightarrow> None))"

subsection \<open>The statements of a delta\<close>

definition range_text :: "js_numbers \<Rightarrow> string \<Rightarrow> string \<Rightarrow> WatermarkBound \<Rightarrow> WatermarkBound \<Rightarrow> BoundError + string" where
  "range_text js dialect watermarkName start finish =
     bind_r (renderSqlBound js start dialect) (\<lambda>s. bind_r (renderSqlBound js finish dialect) (\<lambda>f.
       Inr (quoteIdentifier watermarkName dialect @ '' >= '' @ s @ '' AND ''
         @ quoteIdentifier watermarkName dialect @ '' < '' @ f)))"

definition deltaSelect ::
  "js_numbers \<Rightarrow> string \<Rightarrow> string \<Rightarrow> string \<Rightarrow> WatermarkBound \<Rightarrow> WatermarkBound \<Rightarrow> BoundError + string" where
  "deltaSelect js dialect sourceSQL watermarkName start finish =
     bind_r (range_text js dialect watermarkName start finish) (\<lambda>rg.
       Inr (''SELECT * FROM ('' @ sourceSQL @ '') AS __d WHERE '' @ rg))"

definition shapeMismatch :: "string list \<Rightarrow> string list \<Rightarrow> (string list \<times> string list) option" where
  "shapeMismatch deltaColumns targetColumns =
     (let missing = List.filter (\<lambda>c. c \<notin> set targetColumns) deltaColumns;
          extra = List.filter (\<lambda>c. c \<notin> set deltaColumns) targetColumns
      in if missing = [] \<and> extra = [] then None else Some (missing, extra))"

datatype DeltaError = BoundFailed BoundError | CarriesDollarQuotes | ReadFailed string

text \<open>A text that contains the two-character delimiter of a Snowflake block.\<close>

definition snowflakeScriptingBlock :: "string list \<Rightarrow> DeltaError + string" where
  "snowflakeScriptingBlock statements =
     (let body = join [nl] (map (\<lambda>s. ''  '' @ s @ '';'') statements);
          block = ''BEGIN'' @ [nl] @ ''  BEGIN TRANSACTION;'' @ [nl] @ body @ [nl] @ ''  COMMIT;'' @ [nl]
            @ ''EXCEPTION'' @ [nl] @ ''  WHEN OTHER THEN'' @ [nl] @ ''    ROLLBACK;'' @ [nl] @ ''    RAISE;'' @ [nl] @ ''END''
      in if sublist ''$$'' block then Inl CarriesDollarQuotes
         else Inr (''EXECUTE IMMEDIATE $$'' @ [nl] @ block @ [nl] @ ''$$''))"

definition transaction_begin :: "string \<Rightarrow> string" where
  "transaction_begin dialect = (if dialect = ''standardsql'' then ''BEGIN TRANSACTION'' else ''BEGIN'')"

definition transaction_commit :: "string \<Rightarrow> string" where
  "transaction_commit dialect = (if dialect = ''standardsql'' then ''COMMIT TRANSACTION'' else ''COMMIT'')"

definition transaction_rollback :: "string \<Rightarrow> string" where
  "transaction_rollback dialect = (if dialect = ''standardsql'' then ''ROLLBACK TRANSACTION'' else ''ROLLBACK'')"

text \<open>\<open>columnList\<close> and the three parts of a \<open>MERGE\<close>.\<close>

definition column_list :: "string \<Rightarrow> string list \<Rightarrow> string" where
  "column_list dialect columns = join '', '' (map (\<lambda>c. quoteIdentifier c dialect) columns)"

definition merge_on :: "string \<Rightarrow> string list \<Rightarrow> string" where
  "merge_on dialect mergeKeys = join '' AND '' (map (\<lambda>k. let q = quoteIdentifier k dialect in
     ''(__t.'' @ q @ '' = __s.'' @ q @ '' OR (__t.'' @ q @ '' IS NULL AND __s.'' @ q @ '' IS NULL))'') mergeKeys)"

definition merge_updates :: "string \<Rightarrow> string list \<Rightarrow> string list \<Rightarrow> string list" where
  "merge_updates dialect columns mergeKeys = map (\<lambda>c. let q = quoteIdentifier c dialect in q @ '' = __s.'' @ q)
     (List.filter (\<lambda>c. c \<notin> set mergeKeys) columns)"

definition merge_statement :: "string \<Rightarrow> string \<Rightarrow> string \<Rightarrow> string list \<Rightarrow> string list \<Rightarrow> string" where
  "merge_statement dialect quotedTablePath deltaSQL columns mergeKeys =
     join [nl] ([''MERGE INTO '' @ quotedTablePath @ '' AS __t'',
        ''USING ('' @ deltaSQL @ '') AS __s'',
        ''ON '' @ merge_on dialect mergeKeys]
      @ (if merge_updates dialect columns mergeKeys \<noteq> []
         then [''WHEN MATCHED THEN UPDATE SET '' @ join '', '' (merge_updates dialect columns mergeKeys)] else [])
      @ [''WHEN NOT MATCHED THEN INSERT ('' @ column_list dialect columns @ '') VALUES (''
         @ join '', '' (map (\<lambda>c. ''__s.'' @ quoteIdentifier c dialect) columns) @ '')''])"

definition deltaStatements ::
  "js_numbers \<Rightarrow> string \<Rightarrow> string \<Rightarrow> string \<Rightarrow> string list \<Rightarrow> string list \<Rightarrow> string
   \<Rightarrow> WatermarkBound \<Rightarrow> WatermarkBound \<Rightarrow> DeltaError + string list" where
  "deltaStatements js dialect quotedTablePath deltaSQL columns mergeKeys watermarkName start finish =
     (if mergeKeys \<noteq> [] then Inr [merge_statement dialect quotedTablePath deltaSQL columns mergeKeys]
      else (case range_text js dialect watermarkName start finish of
          Inl e \<Rightarrow> Inl (BoundFailed e)
        | Inr rg \<Rightarrow>
            (let body = [''DELETE FROM '' @ quotedTablePath @ '' WHERE '' @ rg,
                   ''INSERT INTO '' @ quotedTablePath @ '' ('' @ column_list dialect columns @ '') SELECT ''
                     @ column_list dialect columns @ '' FROM ('' @ deltaSQL @ '') AS __s'']
             in if dialect = ''snowflake'' then bind_r (snowflakeScriptingBlock body) (\<lambda>b. Inr [b])
                else Inr ([transaction_begin dialect] @ body @ [transaction_commit dialect]))))"

definition deltaScript :: "string list \<Rightarrow> string" where
  "deltaScript statements = join [nl] (map (\<lambda>s. s @ '';'') statements)"

text \<open>
  \<open>applyDeltaScript\<close>: everything it sends, and the error it throws. \<open>fails\<close> is the warehouse's answer to
  a script; that the rollback itself may fail is only logged.
\<close>

definition applyDeltaScript :: "(string \<Rightarrow> string option) \<Rightarrow> string \<Rightarrow> string list \<Rightarrow> string list \<times> string option" where
  "applyDeltaScript fails dialect statements =
     (case fails (deltaScript statements) of
        None \<Rightarrow> ([deltaScript statements], None)
      | Some err \<Rightarrow>
          (if length statements > 1 then ([deltaScript statements, transaction_rollback dialect], Some err)
           else ([deltaScript statements], Some err)))"

subsection \<open>Lineage\<close>

record IncrementalLineage =
  linTable :: string
  linConnection :: string
  linStorage :: "string option"
  linSource :: string
  linWatermark :: string
  linType :: string
  linMergeKeys :: "string list"
  linStrategy :: IncrementalStrategy

record RecordedBoundary =
  recSource :: string
  recValue :: string
  recType :: string
  recWatermark :: string
  recMergeKeys :: "string list"
  recStrategy :: IncrementalStrategy
  recTable :: string
  recConnection :: string
  recStorage :: "string option"

datatype StepReason =
    Forced | NoBoundary | LineageChanged | TableRenamed | MergeUnsupported | TableUnreadable | TableEmptied
  | ShapeMismatch | LedgerUnreadable | PlanFailed | ChainedStorage | FrontierUnreadable | NotAdvanced

definition ledgerLineageMismatch :: "RecordedBoundary \<Rightarrow> IncrementalLineage \<Rightarrow> StepReason option" where
  "ledgerLineageMismatch entry lineage =
     (if recTable entry \<noteq> linTable lineage then Some TableRenamed
      else if recStorage entry \<noteq> linStorage lineage then Some TableRenamed
      else if recSource entry \<noteq> linSource lineage then Some LineageChanged
      else if recConnection entry \<noteq> linConnection lineage then Some LineageChanged
      else if recWatermark entry \<noteq> linWatermark lineage then Some LineageChanged
      else if recType entry \<noteq> linType lineage then Some LineageChanged
      else if recStrategy entry \<noteq> linStrategy lineage then Some LineageChanged
      else if recMergeKeys entry \<noteq> linMergeKeys lineage then Some LineageChanged
      else None)"

subsection \<open>The plan\<close>

datatype IncrementalStep =
    Seed StepReason
  | Skip StepReason (coveredBound: WatermarkBound)
  | Delta (startBound: WatermarkBound) (finishBound: WatermarkBound) (coveredBound: WatermarkBound) "string list"

record DeltaTarget =
  dialectOf :: string
  runnerOf :: SqlRunner
  quotedPath :: string
  logicalPath :: string
  deltaRows :: "WatermarkBound \<Rightarrow> WatermarkBound \<Rightarrow> DeltaError + string"
  probeSourceFrontier :: "ProbeError + WatermarkBound option"

definition warehouseDeltaTarget ::
  "js_numbers \<Rightarrow> string \<Rightarrow> SqlRunner \<Rightarrow> string \<Rightarrow> IncrementalLineage \<Rightarrow> string \<Rightarrow> DeltaTarget" where
  "warehouseDeltaTarget js dialect runner quotedTablePath lineage sourceSQL =
     \<lparr>dialectOf = dialect, runnerOf = runner, quotedPath = quotedTablePath, logicalPath = linTable lineage,
      deltaRows = (\<lambda>start finish. map_sum BoundFailed id
        (deltaSelect js dialect sourceSQL (linWatermark lineage) start finish)),
      probeSourceFrontier = probeMaxWatermark js runner dialect sourceSQL (linWatermark lineage) (linType lineage)\<rparr>"

definition temporal :: "string \<Rightarrow> bool" where
  "temporal t \<longleftrightarrow> t = ''date'' \<or> t = ''timestamp''"

definition resolveDeltaEnd :: "js_numbers \<Rightarrow> DeltaTarget \<Rightarrow> IncrementalLineage \<Rightarrow> string \<Rightarrow> ProbeError + WatermarkBound option" where
  "resolveDeltaEnd js target lineage now =
     (if temporal (linType lineage) then map_sum BadBound Some (snapshotBound js (linType lineage) now)
      else probeSourceFrontier target)"

definition recorded_start :: "RecordedBoundary \<Rightarrow> WatermarkBound" where
  "recorded_start entry = \<lparr>malloyType = recType entry, boundValue = recValue entry\<rparr>"

definition planIncrementalStep ::
  "js_numbers \<Rightarrow> decoder \<Rightarrow> DeltaTarget \<Rightarrow> IncrementalLineage \<Rightarrow> RecordedBoundary option \<Rightarrow> bool \<Rightarrow> string
   \<Rightarrow> string list \<Rightarrow> rat option \<Rightarrow> DeltaError + IncrementalStep" where
  "planIncrementalStep js decode target lineage ledgerEntry forceRefresh now columns postgresVersionNum =
     (if forceRefresh then Inr (Seed Forced)
      else case ledgerEntry of
        None \<Rightarrow> Inr (Seed NoBoundary)
      | Some entry \<Rightarrow>
          (case ledgerLineageMismatch entry lineage of
             Some reason \<Rightarrow> Inr (Seed reason)
           | None \<Rightarrow>
               if linStrategy lineage = Merge \<and> dialectOf target = ''postgres''
                   \<and> (case postgresVersionNum of Some v \<Rightarrow> v | None \<Rightarrow> 0) < POSTGRES_MERGE_MIN_VERSION_NUM
                 then Inr (Seed MergeUnsupported)
               else
                 (let found = probeTargetColumns (runnerOf target) decode (dialectOf target) (logicalPath target);
                      start = recorded_start entry in
                  if found = [] then Inr (Seed TableUnreadable)
                  else if \<not> probeTargetNonEmpty (runnerOf target) (dialectOf target) (quotedPath target)
                    then Inr (Seed TableEmptied)
                  else (case resolveDeltaEnd js target lineage now of
                      Inl e \<Rightarrow> Inr (Skip FrontierUnreadable start)
                    | Inr None \<Rightarrow> Inr (Skip NotAdvanced start)
                    | Inr (Some finish) \<Rightarrow>
                        bind_r (map_sum BoundFailed id (compareBounds js finish start)) (\<lambda>order.
                          if nonpositive order then Inr (Skip NotAdvanced start)
                          else if shapeMismatch columns found \<noteq> None then Inr (Seed ShapeMismatch)
                          else bind_r (deltaRows target start finish) (\<lambda>deltaSQL.
                            bind_r (deltaStatements js (dialectOf target) (quotedPath target) deltaSQL columns
                                (linMergeKeys lineage) (linWatermark lineage) start finish) (\<lambda>statements.
                              Inr (Delta start finish finish statements))))))))"

text \<open>The boundary a full rebuild reaches.\<close>

definition seedCoveredThrough ::
  "js_numbers \<Rightarrow> SqlRunner \<Rightarrow> string \<Rightarrow> IncrementalLineage \<Rightarrow> string \<Rightarrow> string \<Rightarrow> ProbeError + WatermarkBound option" where
  "seedCoveredThrough js runner dialect lineage quotedTablePath now =
     (case probeMaxWatermark js runner dialect
         (''SELECT '' @ quoteIdentifier (linWatermark lineage) dialect @ '' FROM '' @ quotedTablePath)
         (linWatermark lineage) (linType lineage) of
        Inr (Some frontier) \<Rightarrow>
          (if temporal (linType lineage) then map_sum BadBound Some (snapshotBound js (linType lineage) now)
           else Inr (Some frontier))
      | unread \<Rightarrow> unread)"

subsection \<open>Lemmas\<close>

lemma lineage_matches:
  "ledgerLineageMismatch entry lineage = None \<longleftrightarrow>
     recTable entry = linTable lineage \<and> recStorage entry = linStorage lineage \<and> recSource entry = linSource lineage
     \<and> recConnection entry = linConnection lineage \<and> recWatermark entry = linWatermark lineage
     \<and> recType entry = linType lineage \<and> recStrategy entry = linStrategy lineage
     \<and> recMergeKeys entry = linMergeKeys lineage"
  by (simp add: ledgerLineageMismatch_def)

lemma shape_matches: "shapeMismatch as bs = None \<longleftrightarrow> set as = set bs"
  by (auto simp: shapeMismatch_def Let_def filter_empty_conv split: if_splits)

lemma plan_delta:
  assumes "planIncrementalStep js decode target lineage ledgerEntry forceRefresh now columns version
     = Inr (Delta start finish covered statements)"
  obtains entry deltaSQL order where "\<not> forceRefresh" and "ledgerEntry = Some entry" and "ledgerLineageMismatch entry lineage = None"
    and "start = recorded_start entry" and "covered = finish"
    and "resolveDeltaEnd js target lineage now = Inr (Some finish)"
    and "compareBounds js finish start = Inr order" and "\<not> nonpositive order"
    and "probeTargetNonEmpty (runnerOf target) (dialectOf target) (quotedPath target)"
    and "set columns = set (probeTargetColumns (runnerOf target) decode (dialectOf target) (logicalPath target))"
    and "deltaRows target start finish = Inr deltaSQL"
    and "deltaStatements js (dialectOf target) (quotedPath target) deltaSQL columns
          (linMergeKeys lineage) (linWatermark lineage) start finish = Inr statements"
  using assms
  by (auto simp: planIncrementalStep_def Let_def bind_r_eq_Inr map_sum_eq_Inr shape_matches
      split: option.splits if_splits sum.splits)

lemma plan_skip_or_delta_start:
  assumes "planIncrementalStep js decode target lineage ledgerEntry forceRefresh now columns version = Inr step"
    and "\<forall>reason. step \<noteq> Seed reason"
  shows "\<exists>entry. ledgerEntry = Some entry \<and> ledgerLineageMismatch entry lineage = None
    \<and> (case step of Skip _ bound \<Rightarrow> bound = recorded_start entry | Delta start _ _ _ \<Rightarrow> start = recorded_start entry | _ \<Rightarrow> True)"
  using assms
  by (auto simp: planIncrementalStep_def Let_def bind_r_eq_Inr map_sum_eq_Inr
      split: option.splits if_splits sum.splits)

subsection \<open>Properties\<close>

text \<open>
  A delta is planned only on top of what is recorded: the boundary is that of this table, store,
  connection, content address, watermark, strategy and merge keys; the delta starts exactly at it and
  ends strictly later, at the run clock for a temporal watermark; the table has rows and exactly the
  columns the delta writes; and what is reported as covered is what the statements were built for.
\<close>

theorem delta_extends_recorded_boundary:
  assumes "planIncrementalStep js decode target lineage ledgerEntry forceRefresh now columns version
     = Inr (Delta start finish covered statements)"
  shows "\<not> forceRefresh
    \<and> (\<exists>value. ledgerEntry = Some \<lparr>recSource = linSource lineage, recValue = value, recType = linType lineage,
          recWatermark = linWatermark lineage, recMergeKeys = linMergeKeys lineage, recStrategy = linStrategy lineage,
          recTable = linTable lineage, recConnection = linConnection lineage, recStorage = linStorage lineage\<rparr>
        \<and> start = \<lparr>malloyType = linType lineage, boundValue = value\<rparr>)
    \<and> covered = finish \<and> malloyType finish = linType lineage \<and> \<not> bound_le js finish start
    \<and> (temporal (linType lineage) \<longrightarrow> snapshotBound js (linType lineage) now = Inr finish)
    \<and> probeTargetNonEmpty (runnerOf target) (dialectOf target) (quotedPath target)
    \<and> set columns = set (probeTargetColumns (runnerOf target) decode (dialectOf target) (logicalPath target))
    \<and> (\<exists>deltaSQL. deltaRows target start finish = Inr deltaSQL
        \<and> deltaStatements js (dialectOf target) (quotedPath target) deltaSQL columns (linMergeKeys lineage)
             (linWatermark lineage) start finish = Inr statements)"
  using assms
proof (rule plan_delta)
  fix entry deltaSQL order
  assume p: "\<not> forceRefresh" "ledgerEntry = Some entry" "ledgerLineageMismatch entry lineage = None"
    "start = recorded_start entry" "covered = finish" "resolveDeltaEnd js target lineage now = Inr (Some finish)"
    "compareBounds js finish start = Inr order" "\<not> nonpositive order"
    "probeTargetNonEmpty (runnerOf target) (dialectOf target) (quotedPath target)"
    "set columns = set (probeTargetColumns (runnerOf target) decode (dialectOf target) (logicalPath target))"
    "deltaRows target start finish = Inr deltaSQL"
    "deltaStatements js (dialectOf target) (quotedPath target) deltaSQL columns
        (linMergeKeys lineage) (linWatermark lineage) start finish = Inr statements"
  have t: "malloyType finish = malloyType start" using p(7) by (auto simp: compareBounds_def split: if_splits)
  have "\<not> bound_le js finish start" using p(7,8) by (simp add: bound_le_def)
  moreover have "temporal (linType lineage) \<longrightarrow> snapshotBound js (linType lineage) now = Inr finish"
    using p(6) by (auto simp: resolveDeltaEnd_def map_sum_eq_Inr)
  ultimately show ?thesis using p t
    by (cases entry) (auto simp: lineage_matches recorded_start_def)
qed

text \<open>A Postgres table refreshed by range, and a warehouse that answers the two probes.\<close>

definition demo_js :: js_numbers where
  "demo_js = \<lparr>numOf = (\<lambda>_. NaN), numText = (\<lambda>_. []), dateNumber = (\<lambda>_. NaN)\<rparr>"

definition demo_lineage :: IncrementalLineage where
  "demo_lineage = \<lparr>linTable = ''t'', linConnection = ''pg'', linStorage = None, linSource = ''h'',
     linWatermark = ''day'', linType = ''date'', linMergeKeys = [], linStrategy = RangeReplace\<rparr>"

definition demo_boundary :: "string \<Rightarrow> RecordedBoundary" where
  "demo_boundary v = \<lparr>recSource = ''h'', recValue = v, recType = ''date'', recWatermark = ''day'', recMergeKeys = [],
     recStrategy = RangeReplace, recTable = ''t'', recConnection = ''pg'', recStorage = None\<rparr>"

definition demo_runner :: SqlRunner where
  "demo_runner sql = Inr [Some [(''column_name'', CellString ''day'')], Some [(''column_name'', CellString ''n'')]]"

definition demo_target :: DeltaTarget where
  "demo_target = warehouseDeltaTarget demo_js ''postgres'' demo_runner (quoteTablePath ''t'' ''postgres'') demo_lineage ''SELECT 1''"

definition demo_decode :: decoder where
  "demo_decode dialect path = Some [\<lparr>segmentValue = path, quoted = False\<rparr>]"

definition demo_delta :: "string list" where
  "demo_delta = (case planIncrementalStep demo_js demo_decode demo_target demo_lineage (Some (demo_boundary ''2024-01-30''))
       False ''2024-02-01T00:00:00.000Z'' [''n'', ''day''] None of Inr (Delta _ _ _ sts) \<Rightarrow> sts | _ \<Rightarrow> [])"

lemma demo_plan:
  "planIncrementalStep demo_js demo_decode demo_target demo_lineage (Some (demo_boundary ''2024-01-30'')) False
     ''2024-02-01T00:00:00.000Z'' [''n'', ''day''] None
   = Inr (Delta \<lparr>malloyType = ''date'', boundValue = ''2024-01-30''\<rparr> \<lparr>malloyType = ''date'', boundValue = ''2024-02-01''\<rparr>
       \<lparr>malloyType = ''date'', boundValue = ''2024-02-01''\<rparr> demo_delta)"
  by code_simp

lemma delta_extends_recorded_boundary_witness:
  "snapshotBound demo_js ''date'' ''2024-02-01T00:00:00.000Z'' = Inr \<lparr>malloyType = ''date'', boundValue = ''2024-02-01''\<rparr>"
  using delta_extends_recorded_boundary [OF demo_plan] by (simp add: demo_lineage_def temporal_def)

text \<open>The statements of a range replacement; \<open>rg\<close> is the predicate.\<close>

definition replace_statements :: "string \<Rightarrow> string \<Rightarrow> string \<Rightarrow> string list \<Rightarrow> string \<Rightarrow> string list" where
  "replace_statements dialect quotedTablePath sourceSQL columns rg =
     [''DELETE FROM '' @ quotedTablePath @ '' WHERE '' @ rg,
      ''INSERT INTO '' @ quotedTablePath @ '' ('' @ column_list dialect columns @ '') SELECT '' @ column_list dialect columns
        @ '' FROM (SELECT * FROM ('' @ sourceSQL @ '') AS __d WHERE '' @ rg @ '') AS __s'']"

text \<open>Up to the next pair of dollars.\<close>

fun read_dollar_block :: "string \<Rightarrow> (string \<times> string) option" where
  "read_dollar_block (c # d # s) =
     (if c = CHR ''$'' \<and> d = CHR ''$'' then Some ([], s) else map_option (apfst ((#) c)) (read_dollar_block (d # s)))"
| "read_dollar_block s = None"

lemma read_dollar_block:
  "\<not> sublist ''$$'' s \<Longrightarrow> s = [] \<or> last s \<noteq> CHR ''$'' \<Longrightarrow> read_dollar_block (s @ ''$$'' @ rest) = Some (s, rest)"
proof (induction s)
  case (Cons c s)
  have "\<not> sublist ''$$'' s" using Cons.prems(1) by (auto simp: sublist_Cons_right)
  moreover have "s = [] \<or> last s \<noteq> CHR ''$''" using Cons.prems(2) by (auto split: if_splits)
  ultimately have ih: "read_dollar_block (s @ ''$$'' @ rest) = Some (s, rest)" by (rule Cons.IH)
  show ?case
  proof (cases s)
    case Nil
    then show ?thesis using Cons.prems(2) ih by simp
  next
    case (Cons d s')
    then have "\<not> (c = CHR ''$'' \<and> d = CHR ''$'')" using Cons.prems(1) by (auto simp: sublist_Cons_right)
    with Cons ih show ?thesis by auto
  qed
qed simp

lemma sublist_nl: "\<not> sublist ''$$'' s \<Longrightarrow> \<not> sublist ''$$'' (nl # s @ [nl])"
proof (induction s)
  case Nil
  then show ?case by (simp add: sublist_Cons_right nl_def)
next
  case (Cons c s)
  then show ?case
    by (cases s) (auto simp: sublist_Cons_right nl_def)
qed

text \<open>
  A range replacement deletes exactly what it reads: the predicate of the deletion is the predicate
  of the query whose rows are inserted, over the same half-open range, the two stand in one transaction,
  and on Snowflake the whole block lies between the delimiters that carry it, whatever the source's SQL
  contains.
\<close>

theorem range_replacement_exact:
  assumes "deltaSelect js dialect sourceSQL watermarkName start finish = Inr deltaSQL"
    and "deltaStatements js dialect path deltaSQL columns [] watermarkName start finish = Inr statements"
  shows "\<exists>rg. range_text js dialect watermarkName start finish = Inr rg
    \<and> (if dialect = ''snowflake''
       then \<exists>before after block. statements = [''EXECUTE IMMEDIATE $$'' @ block @ ''$$'']
          \<and> read_dollar_block (block @ ''$$'') = Some (block, [])
          \<and> block = before @ ''  BEGIN TRANSACTION;'' @ [nl]
              @ join [nl] (map (\<lambda>s. ''  '' @ s @ '';'') (replace_statements dialect path sourceSQL columns rg))
              @ [nl] @ ''  COMMIT;'' @ after
       else statements = [transaction_begin dialect] @ replace_statements dialect path sourceSQL columns rg
              @ [transaction_commit dialect])"
proof -
  obtain rg where rg: "range_text js dialect watermarkName start finish = Inr rg"
      "deltaSQL = ''SELECT * FROM ('' @ sourceSQL @ '') AS __d WHERE '' @ rg"
    using assms(1) by (auto simp: deltaSelect_def bind_r_eq_Inr)
  let ?body = "replace_statements dialect path sourceSQL columns rg"
  have body: "[''DELETE FROM '' @ path @ '' WHERE '' @ rg, ''INSERT INTO '' @ path @ '' ('' @ column_list dialect columns @
      '') SELECT '' @ column_list dialect columns @ '' FROM ('' @ deltaSQL @ '') AS __s''] = ?body"
    by (simp add: replace_statements_def rg(2))
  have s: "(if dialect = ''snowflake'' then bind_r (snowflakeScriptingBlock ?body) (\<lambda>b. Inr [b])
      else Inr ([transaction_begin dialect] @ ?body @ [transaction_commit dialect])) = Inr statements"
    using assms(2) by (simp only: deltaStatements_def rg(1) sum.case Let_def body simp_thms if_False)
  show ?thesis
  proof (cases "dialect = ''snowflake''")
    case False
    with s rg(1) show ?thesis by auto
  next
    case True
    define block where "block = ''BEGIN'' @ [nl] @ ''  BEGIN TRANSACTION;'' @ [nl] @ join [nl] (map (\<lambda>s. ''  '' @ s @ '';'') ?body)
      @ [nl] @ ''  COMMIT;'' @ [nl] @ ''EXCEPTION'' @ [nl] @ ''  WHEN OTHER THEN'' @ [nl] @ ''    ROLLBACK;'' @ [nl]
      @ ''    RAISE;'' @ [nl] @ ''END''"
    from True s have b: "\<not> sublist ''$$'' block" "statements = [''EXECUTE IMMEDIATE $$'' @ [nl] @ block @ [nl] @ ''$$'']"
      by (auto simp: snowflakeScriptingBlock_def Let_def block_def split: if_splits)
    have "last (nl # block @ [nl]) \<noteq> CHR ''$''" by (simp add: nl_def)
    with read_dollar_block [OF sublist_nl [OF b(1)], of "[]"]
    have "read_dollar_block ((nl # block @ [nl]) @ ''$$'') = Some (nl # block @ [nl], [])" by simp
    moreover have "statements = [''EXECUTE IMMEDIATE $$'' @ (nl # block @ [nl]) @ ''$$'']" using b(2) by simp
    moreover have "nl # block @ [nl] = (nl # ''BEGIN'' @ [nl]) @ ''  BEGIN TRANSACTION;'' @ [nl]
        @ join [nl] (map (\<lambda>s. ''  '' @ s @ '';'') ?body) @ [nl] @ ''  COMMIT;''
        @ ([nl] @ ''EXCEPTION'' @ [nl] @ ''  WHEN OTHER THEN'' @ [nl] @ ''    ROLLBACK;'' @ [nl] @ ''    RAISE;'' @ [nl] @ ''END'' @ [nl])"
      unfolding block_def by simp
    ultimately show ?thesis unfolding if_P [OF True] using rg(1) by (intro exI conjI)
  qed
qed

lemma range_replacement_exact_witness:
  "\<exists>rg. demo_delta = [''BEGIN''] @ replace_statements ''postgres'' ([dquote] @ ''t'' @ [dquote]) ''SELECT 1'' [''n'', ''day''] rg @ [''COMMIT'']"
proof -
  let ?start = "\<lparr>malloyType = ''date'', boundValue = ''2024-01-30''\<rparr>"
  let ?finish = "\<lparr>malloyType = ''date'', boundValue = ''2024-02-01''\<rparr>"
  obtain sql where sql: "deltaSelect demo_js ''postgres'' ''SELECT 1'' ''day'' ?start ?finish = Inr sql"
      "deltaStatements demo_js ''postgres'' ([dquote] @ ''t'' @ [dquote]) sql [''n'', ''day''] [] ''day'' ?start ?finish = Inr demo_delta"
  proof -
    have "case deltaSelect demo_js ''postgres'' ''SELECT 1'' ''day'' ?start ?finish of Inl _ \<Rightarrow> False
      | Inr sql \<Rightarrow> deltaStatements demo_js ''postgres'' ([dquote] @ ''t'' @ [dquote]) sql [''n'', ''day''] [] ''day'' ?start ?finish = Inr demo_delta"
      by code_simp
    then show ?thesis by (auto split: sum.splits intro: that)
  qed
  from range_replacement_exact [OF this] show ?thesis
    by (auto simp: transaction_begin_def transaction_commit_def)
qed

end
