(* ===== verification/Incremental.thy ===== *)
theory Incremental
  imports ResultCaps Strategy
begin

text \<open>
  The incremental-refresh declaration of a persisted source (\<open>service/incremental_declaration.ts\<close>)
  and the publish gate over it (\<open>service/incremental_policy.ts\<close>).

  The compiled source belongs to the Malloy compiler. What the code reads of it is the argument of
  the definitions: the persist tag as the answers of its methods (\<open>has\<close>, \<open>array\<close>, \<open>text\<close>,
  \<open>entries\<close>, where \<open>None\<close> for the entries stands for their failure), the output columns as names
  and types, and the query definition as segments of fields. A message of the gate is a
  constructor with the values it quotes.
\<close>

subsection \<open>Inputs\<close>

record Tag =
  tag_has :: "string \<Rightarrow> bool"
  tag_array :: "string \<Rightarrow> bool"
  tag_text :: "string \<Rightarrow> string option"
  tag_entries :: "string list option"

text \<open>A field of a query segment; \<open>Unreadable\<close> is a shape on which the reader throws.\<close>

datatype QueryField =
    FieldRef string "string list"
  | NamedField string "string option"
  | Unreadable

type_synonym WireColumn = "string \<times> string"

definition REFRESH_MODES :: "string list" where "REFRESH_MODES = [''full'', ''incremental'']"

definition RECOGNIZED_PERSIST_KEYS :: "string list" where
  "RECOGNIZED_PERSIST_KEYS = [''persist'', ''name'', ''storage'', ''realization'', ''refresh'',
     ''watermark'', ''merge_key'', ''freshness'', ''queryMetadata'', ''sharing'', ''schedule'']"

definition ORDERABLE_TYPES :: "string list" where
  "ORDERABLE_TYPES = [''number'', ''string'', ''date'', ''timestamp'']"

definition INCREMENTAL_SOURCE_RANGE_DIALECTS :: "string list" where
  "INCREMENTAL_SOURCE_RANGE_DIALECTS = [''postgres'', ''snowflake'', ''standardsql'']"

definition MERGE_CAPABLE_DIALECTS :: "string list" where
  "MERGE_CAPABLE_DIALECTS = [''postgres'', ''snowflake'', ''standardsql'', ''duckdb'']"

subsection \<open>The declaration\<close>

datatype ResolvedName =
    Dimension (rn_name: string) (rn_type: string)
  | Aggregate (rn_name: string) (rn_type: string)
  | Unresolved (rn_name: string)

datatype PersistKey = KRefresh | KWatermark | KMergeKey

fun key_text :: "PersistKey \<Rightarrow> string" where
  "key_text KRefresh = ''refresh''"
| "key_text KWatermark = ''watermark''"
| "key_text KMergeKey = ''merge_key''"

datatype MalformedValue =
    ArrayValue PersistKey
  | EmptyValue PersistKey
  | EmptyEntry PersistKey
  | DuplicateName PersistKey string

record IncrementalDeclaration =
  refresh :: "string option"
  incremental :: bool
  invalidRefresh :: "string option"
  declaredWatermark :: bool
  declaredMergeKey :: bool
  watermark :: "ResolvedName option"
  watermarkOrderable :: bool
  mergeKeys :: "ResolvedName list"
  watermarkInMergeKeys :: bool
  strategy :: "IncrementalStrategy option"
  malformed :: "MalformedValue list"
  unknownKeys :: "string list"
  calculateFields :: "string list"
  outputColumns :: "string list"

text \<open>
  The names of a segment list's aggregate and window fields. The walk keeps what it found when it
  meets something it cannot read, and stops.
\<close>

definition field_name :: "QueryField \<Rightarrow> string option" where
  "field_name f = (case f of
       FieldRef e path \<Rightarrow> (if path = [] then None else Some (last path))
     | NamedField e n \<Rightarrow> n
     | Unreadable \<Rightarrow> None)"

definition expression_type :: "QueryField \<Rightarrow> string" where
  "expression_type f = (case f of FieldRef e _ \<Rightarrow> e | NamedField e _ \<Rightarrow> e | Unreadable \<Rightarrow> [])"

definition add_field :: "bool \<Rightarrow> QueryField \<Rightarrow> string list \<times> string list \<Rightarrow> string list \<times> string list" where
  "add_field isFinalSegment f acc =
     (let (aggregates, analytics) = acc in
      case field_name f of
        None \<Rightarrow> acc
      | Some name \<Rightarrow>
          if name = [] then acc
          else if js_includes ''analytic'' (expression_type f) then (aggregates, analytics @ [name])
          else if expression_type f = ''aggregate'' \<and> isFinalSegment
          then (aggregates @ [name], analytics)
          else acc)"

fun walk_fields :: "(bool \<times> QueryField) list \<Rightarrow> string list \<times> string list \<Rightarrow> string list \<times> string list" where
  "walk_fields [] acc = acc"
| "walk_fields ((final, f) # fs) acc =
     (if f = Unreadable then acc else walk_fields fs (add_field final f acc))"

definition queryDefinitionFieldKinds :: "QueryField list list \<Rightarrow> string list \<times> string list" where
  "queryDefinitionFieldKinds pipeline =
     walk_fields
       (concat (map (\<lambda>(index, segment). map (\<lambda>f. (index + 1 = length pipeline, f)) segment)
          (enumerate 0 pipeline)))
       ([], [])"

definition outputColumnTypes :: "WireColumn list \<Rightarrow> (string \<times> string) list" where
  "outputColumnTypes cols =
     fold (\<lambda>(n, t) m. if n \<noteq> [] \<and> t \<noteq> [] then AList.update n t m else m) cols []"

definition resolveName :: "string \<Rightarrow> (string \<times> string) list \<Rightarrow> string list \<Rightarrow> ResolvedName" where
  "resolveName name columns aggregates =
     (case map_of columns name of
        None \<Rightarrow> Unresolved name
      | Some t \<Rightarrow> if name \<in> set aggregates then Aggregate name t else Dimension name t)"

text \<open>What one key of the tag says: whether it is declared, its text, what is wrong with it.\<close>

definition readKey ::
  "Tag option \<Rightarrow> PersistKey \<Rightarrow> bool \<times> string option \<times> MalformedValue option" where
  "readKey tag key =
     (case tag of
        None \<Rightarrow> (False, None, None)
      | Some t \<Rightarrow>
          if \<not> tag_has t (key_text key) then (False, None, None)
          else if tag_array t (key_text key) then (True, None, Some (ArrayValue key))
          else (case tag_text t (key_text key) of
              None \<Rightarrow> (True, None, Some (EmptyValue key))
            | Some v \<Rightarrow>
                if js_trim v = [] then (True, None, Some (EmptyValue key))
                else (True, Some (js_trim v), None)))"

text \<open>The loop over the pieces of \<open>merge_key=\<close>: the names kept and the problems found so far.\<close>

fun split_keys :: "string list \<Rightarrow> string list \<Rightarrow> MalformedValue list \<Rightarrow> string list \<times> MalformedValue list" where
  "split_keys [] seen bad = (seen, bad)"
| "split_keys (piece # pieces) seen bad =
     (let name = js_trim piece in
      if name = []
      then split_keys pieces seen
             (if EmptyEntry KMergeKey \<in> set bad then bad else bad @ [EmptyEntry KMergeKey])
      else if name \<in> set seen then split_keys pieces seen (bad @ [DuplicateName KMergeKey name])
      else split_keys pieces (seen @ [name]) bad)"

definition somes_of :: "'a option \<Rightarrow> 'a list" where
  "somes_of x = (case x of None \<Rightarrow> [] | Some v \<Rightarrow> [v])"

definition resolveIncrementalDeclaration ::
  "Tag option \<Rightarrow> string option \<Rightarrow> WireColumn list \<Rightarrow> QueryField list list \<Rightarrow> IncrementalDeclaration" where
  "resolveIncrementalDeclaration tag fieldRefresh cols pipeline =
     (let columns = outputColumnTypes cols;
          (aggregates, analytics) = queryDefinitionFieldKinds pipeline;
          (rawRefreshDeclared, rawRefreshText, rawRefreshBad) = readKey tag KRefresh;
          refr = (case fieldRefresh of Some r \<Rightarrow> Some r | None \<Rightarrow> rawRefreshText);
          inc = (refr = Some ''incremental'');
          invalid = (case refr of None \<Rightarrow> None
                     | Some r \<Rightarrow> if r \<in> set REFRESH_MODES then None else Some r);
          (wDeclared, wText, wBad) = readKey tag KWatermark;
          w = map_option (\<lambda>n. resolveName n columns aggregates) wText;
          orderable = (case w of None \<Rightarrow> False
                       | Some (Unresolved _) \<Rightarrow> False
                       | Some r \<Rightarrow> rn_type r \<in> set ORDERABLE_TYPES);
          (mDeclared, mText, mBad) = readKey tag KMergeKey;
          bad0 = somes_of rawRefreshBad @ somes_of wBad @ somes_of mBad;
          (names, bad) = (case mText of None \<Rightarrow> ([], bad0)
                          | Some v \<Rightarrow> split_keys (split_on CHR '','' v) [] bad0);
          keys = map (\<lambda>n. resolveName n columns aggregates) names
      in \<lparr>refresh = refr, incremental = inc, invalidRefresh = invalid,
          declaredWatermark = wDeclared, declaredMergeKey = mDeclared,
          watermark = w, watermarkOrderable = orderable, mergeKeys = keys,
          watermarkInMergeKeys = (case w of None \<Rightarrow> False
            | Some x \<Rightarrow> list_ex (\<lambda>k. rn_name k = rn_name x) keys),
          strategy = (case w of
              Some (Dimension _ _) \<Rightarrow>
                if inc then Some (if length keys > 0 then Merge else RangeReplace) else None
            | _ \<Rightarrow> None),
          malformed = bad,
          unknownKeys = (case tag of None \<Rightarrow> []
            | Some t \<Rightarrow> (case tag_entries t of None \<Rightarrow> []
                | Some ks \<Rightarrow> filter (\<lambda>k. k \<notin> set RECOGNIZED_PERSIST_KEYS) ks)),
          calculateFields = analytics,
          outputColumns = map fst columns\<rparr>)"

definition declaresIncremental :: "IncrementalDeclaration \<Rightarrow> bool" where
  "declaresIncremental d \<longleftrightarrow>
     incremental d \<or> declaredWatermark d \<or> declaredMergeKey d \<or> invalidRefresh d \<noteq> None"

subsection \<open>The publish gate\<close>

record IncrementalPolicySource =
  sourceName :: string
  modelPath :: "string option"
  dialect :: "string option"
  storageDestination :: "string option"
  sourceEntityId :: "string option"
  decl :: IncrementalDeclaration

text \<open>The rejections, by the source they name and the values they quote.\<close>

datatype Rejection =
    InvalidMode string string
  | MalformedKey string MalformedValue
  | KeysWithoutMode string "string list" "string option"
  | MergeKeyAlone string
  | NoWatermark string
  | UnsupportedDialect string string
  | NoMergeStatement string string
  | DanglingNames string "string list" "string list"
  | AggregateNames string "string list"
  | WatermarkNotOrderable string string string
  | WatermarkIsMergeKey string string
  | WindowFields string "string list"

definition is_unresolved :: "ResolvedName \<Rightarrow> bool" where
  "is_unresolved n = (case n of Unresolved _ \<Rightarrow> True | _ \<Rightarrow> False)"

definition is_aggregate :: "ResolvedName \<Rightarrow> bool" where
  "is_aggregate n = (case n of Aggregate _ _ \<Rightarrow> True | _ \<Rightarrow> False)"

definition unresolved :: "ResolvedName option list \<Rightarrow> ResolvedName list" where
  "unresolved names = filter is_unresolved (somes names)"

definition aggregateBacked :: "ResolvedName option list \<Rightarrow> ResolvedName list" where
  "aggregateBacked names = filter is_aggregate (somes names)"

text \<open>Rules 4, 5, 1, 3 and 2, which every source is held to.\<close>

definition coherence_rules :: "string \<Rightarrow> IncrementalDeclaration \<Rightarrow> Rejection list" where
  "coherence_rules src d =
     (case invalidRefresh d of None \<Rightarrow> [] | Some v \<Rightarrow> [InvalidMode src v]) @
     map (MalformedKey src) (malformed d) @
     (if \<not> incremental d \<and> (declaredWatermark d \<or> declaredMergeKey d)
      then [KeysWithoutMode src
              ((if declaredWatermark d then [''watermark=''] else []) @
               (if declaredMergeKey d then [''merge_key=''] else []))
              (if refresh d = Some [] then None else refresh d)]
      else []) @
     (if declaredMergeKey d \<and> \<not> declaredWatermark d then [MergeKeyAlone src] else []) @
     (if incremental d \<and> \<not> declaredWatermark d then [NoWatermark src] else [])"

text \<open>Rules 6 to 12, for a source that asked to be incremental.\<close>

definition machinery_rules :: "string \<Rightarrow> string option \<Rightarrow> IncrementalDeclaration \<Rightarrow> Rejection list" where
  "machinery_rules src dial d =
     (let dia = (case dial of None \<Rightarrow> [] | Some x \<Rightarrow> x) in
      if dia \<notin> set INCREMENTAL_SOURCE_RANGE_DIALECTS
      then [UnsupportedDialect src (if dia = [] then ''unknown'' else dia)]
      else if declaredMergeKey d \<and> dia \<notin> set MERGE_CAPABLE_DIALECTS then [NoMergeStatement src dia]
      else []) @
     (let dangling = unresolved (watermark d # map Some (mergeKeys d)) in
      if dangling \<noteq> [] then [DanglingNames src (map rn_name dangling) (outputColumns d)] else []) @
     (let aggs = aggregateBacked (watermark d # map Some (mergeKeys d)) in
      if aggs \<noteq> [] then [AggregateNames src (map rn_name aggs)] else []) @
     (case watermark d of None \<Rightarrow> []
      | Some w \<Rightarrow> if \<not> is_unresolved w \<and> \<not> watermarkOrderable d
                  then [WatermarkNotOrderable src (rn_name w) (rn_type w)] else []) @
     (case watermark d of None \<Rightarrow> []
      | Some w \<Rightarrow> if watermarkInMergeKeys d then [WatermarkIsMergeKey src (rn_name w)] else []) @
     (if calculateFields d \<noteq> [] then [WindowFields src (rev (remdups (rev (calculateFields d))))] else [])"

definition rejectionsForSource :: "IncrementalPolicySource \<Rightarrow> Rejection list" where
  "rejectionsForSource s =
     coherence_rules (sourceName s) (decl s) @
     (if \<not> incremental (decl s) then []
      else machinery_rules (sourceName s) (dialect s) (decl s))"

definition incrementalPolicyRejections :: "IncrementalPolicySource list \<Rightarrow> Rejection list" where
  "incrementalPolicyRejections sources = concat (map rejectionsForSource sources)"

subsection \<open>Advisories\<close>

definition plus_join :: "string list \<Rightarrow> string" where "plus_join = join ''+''"

definition strategy_text :: "IncrementalStrategy option \<Rightarrow> string" where
  "strategy_text s = (case s of None \<Rightarrow> [] | Some Merge \<Rightarrow> ''merge'' | Some RangeReplace \<Rightarrow> ''range_replace'')"

definition recordedLineage :: "IncrementalDeclaration \<Rightarrow> string" where
  "recordedLineage d = join ''|''
     [if incremental d then ''incremental'' else ''full'',
      (case watermark d of None \<Rightarrow> [] | Some w \<Rightarrow> rn_name w),
      (case watermark d of None \<Rightarrow> [] | Some w \<Rightarrow> if is_unresolved w then [] else rn_type w),
      strategy_text (strategy d),
      plus_join (map rn_name (mergeKeys d))]"

text \<open>A warning names the model file and the source; a source is told apart by its position.\<close>

datatype Advisory =
    SharedAddress string string "string list" bool
  | UnknownKey string string string
  | RangeReplaces string string string bool

type_synonym group = "(nat \<times> IncrementalPolicySource) list"

definition group_by_address :: "group \<Rightarrow> (string \<times> group) list" where
  "group_by_address sources =
     fold (\<lambda>(i, s) m. case sourceEntityId s of
             None \<Rightarrow> m
           | Some a \<Rightarrow> if a = [] then m
               else (case map_of m a of
                   Some g \<Rightarrow> AList.update a (g @ [(i, s)]) m
                 | None \<Rightarrow> AList.update a [(i, s)] m))
       sources []"

definition model_of :: "IncrementalPolicySource \<Rightarrow> string" where
  "model_of s = (case modelPath s of None \<Rightarrow> [] | Some p \<Rightarrow> p)"

definition group_advisories :: "group \<Rightarrow> Advisory list" where
  "group_advisories g =
     (if length g < 2 then []
      else if \<not> list_ex (\<lambda>(_, s). incremental (decl s)) g then []
      else (let conflicting = 1 < length (remdups (map (\<lambda>(_, s). recordedLineage (decl s)) g)) in
        map (\<lambda>(i, s). SharedAddress (model_of s) (sourceName s)
               (map (sourceName \<circ> snd) (filter (\<lambda>(j, _). j \<noteq> i) g)) conflicting) g))"

definition sharedAddressAdvisories :: "IncrementalPolicySource list \<Rightarrow> Advisory list" where
  "sharedAddressAdvisories sources =
     concat (map (group_advisories \<circ> snd) (group_by_address (enumerate 0 sources)))"

definition source_advisories :: "IncrementalPolicySource \<Rightarrow> Advisory list" where
  "source_advisories s =
     (let d = decl s in
      map (UnknownKey (model_of s) (sourceName s)) (unknownKeys d) @
      (case watermark d of None \<Rightarrow> []
       | Some w \<Rightarrow>
           if incremental d \<and> \<not> declaredMergeKey d
           then [RangeReplaces (model_of s) (sourceName s) (rn_name w)
                   (case storageDestination s of None \<Rightarrow> False | Some x \<Rightarrow> x \<noteq> [])]
           else []))"

definition incrementalPolicyAdvisories :: "IncrementalPolicySource list \<Rightarrow> Advisory list" where
  "incrementalPolicyAdvisories sources =
     sharedAddressAdvisories sources @ concat (map source_advisories sources)"

subsection \<open>Lemmas\<close>

lemma readKey_declared:
  "readKey tag k = (dec, txt, bad) \<Longrightarrow>
   (dec \<longleftrightarrow> txt \<noteq> None \<or> bad \<noteq> None) \<and> (txt = None \<or> bad = None) \<and> (\<forall>v. txt = Some v \<longrightarrow> v \<noteq> [])"
  by (auto simp: readKey_def split: option.splits if_splits)

lemma split_keys_bad: "prefix bad (snd (split_keys pieces seen bad))"
  by (induction pieces seen bad rule: split_keys.induct) (auto simp: Let_def dest: append_prefixD)

lemma split_keys_grows: "set seen \<subseteq> set (fst (split_keys pieces seen bad))"
  by (induction pieces seen bad rule: split_keys.induct) (auto simp: Let_def)

lemma split_keys_clean:
  "snd (split_keys pieces seen bad) = bad \<Longrightarrow>
   (EmptyEntry KMergeKey \<notin> set bad \<or> (\<exists>p \<in> set pieces. js_trim p \<noteq> [])) \<Longrightarrow> pieces \<noteq> [] \<Longrightarrow>
   fst (split_keys pieces seen bad) \<noteq> []"
proof (induction pieces seen bad rule: split_keys.induct)
  case (2 piece pieces seen bad)
  define name where "name = js_trim piece"
  consider "name = []" "EmptyEntry KMergeKey \<notin> set bad" | "name = []" "EmptyEntry KMergeKey \<in> set bad"
    | "name \<noteq> []" "name \<in> set seen" | "name \<noteq> []" "name \<notin> set seen" by blast
  then show ?case
  proof cases
    case 1
    have "prefix (bad @ [EmptyEntry KMergeKey])
        (snd (split_keys pieces seen (bad @ [EmptyEntry KMergeKey])))" by (rule split_keys_bad)
    with 2(4) 1 show ?thesis by (auto simp: Let_def prefix_def simp flip: name_def)
  next
    case 2
    note c = this
    have "\<exists>p \<in> set pieces. js_trim p \<noteq> []" using "2.prems" c by (auto simp: name_def)
    moreover from this have "pieces \<noteq> []" by auto
    ultimately show ?thesis
      using "2.IH"(1) "2.prems" c by (auto simp: Let_def simp flip: name_def)
  next
    case 3
    then have "set seen \<noteq> {}" by auto
    with split_keys_grows [of seen pieces "bad @ [DuplicateName KMergeKey name]"] 3
    show ?thesis by (auto simp: Let_def simp flip: name_def)
  next
    case 4
    with split_keys_grows [of "seen @ [name]" pieces bad]
    show ?thesis by (auto simp: Let_def simp flip: name_def)
  qed
qed simp

lemma split_keys_distinct: "distinct seen \<Longrightarrow> distinct (fst (split_keys pieces seen bad))"
  by (induction pieces seen bad rule: split_keys.induct) (auto simp: Let_def)

lemma resolveName_name [simp]: "rn_name (resolveName n cols aggs) = n"
  by (simp add: resolveName_def split: option.split)

lemma resolveName_Dimension:
  "resolveName n cols aggs = Dimension m t \<longleftrightarrow> m = n \<and> map_of cols n = Some t \<and> n \<notin> set aggs"
  and Dimension_resolveName:
  "Dimension m t = resolveName n cols aggs \<longleftrightarrow> m = n \<and> map_of cols n = Some t \<and> n \<notin> set aggs"
  by (auto simp: resolveName_def split: option.splits)

lemma not_bad_is_dimension:
  "\<not> is_unresolved r \<Longrightarrow> \<not> is_aggregate r \<Longrightarrow> r = Dimension (rn_name r) (rn_type r)"
  by (cases r) (simp_all add: is_unresolved_def is_aggregate_def)

text \<open>What the resolution guarantees of a declaration that has no malformed value.\<close>

lemma resolve_watermark:
  assumes d: "d = resolveIncrementalDeclaration tag fr cols pipeline" and ok: "malformed d = []"
  shows "declaredWatermark d \<longleftrightarrow> watermark d \<noteq> None"
proof -
  obtain wd wt wb where w: "readKey tag KWatermark = (wd, wt, wb)" by (metis prod_cases3)
  obtain md mt mb where m: "readKey tag KMergeKey = (md, mt, mb)" by (metis prod_cases3)
  obtain rd rt rb where r: "readKey tag KRefresh = (rd, rt, rb)" by (metis prod_cases3)
  let ?bad = "somes_of rb @ somes_of wb @ somes_of mb"
  have "prefix ?bad (malformed d)"
    using split_keys_bad [of ?bad]
    by (auto simp: d resolveIncrementalDeclaration_def Let_def w m r split: prod.split option.split)
       (metis snd_conv)
  with ok have "wb = None" by (auto simp: somes_of_def split: option.splits)
  with readKey_declared [OF w] show ?thesis
    by (auto simp: d resolveIncrementalDeclaration_def Let_def w m r split: prod.split)
qed

lemma resolve_merge_key:
  assumes d: "d = resolveIncrementalDeclaration tag fr cols pipeline" and ok: "malformed d = []"
  shows "declaredMergeKey d \<longleftrightarrow> mergeKeys d \<noteq> []"
proof -
  obtain wd wt wb where w: "readKey tag KWatermark = (wd, wt, wb)" by (metis prod_cases3)
  obtain md mt mb where m: "readKey tag KMergeKey = (md, mt, mb)" by (metis prod_cases3)
  obtain rd rt rb where r: "readKey tag KRefresh = (rd, rt, rb)" by (metis prod_cases3)
  let ?bad = "somes_of rb @ somes_of wb @ somes_of mb"
  have mal: "malformed d = (case mt of None \<Rightarrow> ?bad
      | Some v \<Rightarrow> snd (split_keys (split_on CHR '','' v) [] ?bad))"
    and keys: "mergeKeys d = [] \<longleftrightarrow> (case mt of None \<Rightarrow> True
      | Some v \<Rightarrow> fst (split_keys (split_on CHR '','' v) [] ?bad) = [])"
    and dec: "declaredMergeKey d = md"
    by (auto simp: d resolveIncrementalDeclaration_def Let_def w m r split: prod.split option.split)
  show ?thesis
  proof (cases mt)
    case None
    with mal ok have "mb = None" by (auto simp: somes_of_def split: option.splits)
    with None readKey_declared [OF m] show ?thesis by (simp add: dec keys)
  next
    case (Some v)
    have nil: "?bad = []"
      using split_keys_bad [of ?bad "split_on CHR '','' v" "[]"] mal ok Some by simp
    with mal ok Some have "snd (split_keys (split_on CHR '','' v) [] []) = []" by simp
    from split_keys_clean [OF this] have "fst (split_keys (split_on CHR '','' v) [] []) \<noteq> []" by simp
    with Some nil readKey_declared [OF m] show ?thesis by (simp add: dec keys)
  qed
qed

lemma resolve_names:
  assumes d: "d = resolveIncrementalDeclaration tag fr cols pipeline"
  shows "distinct (map rn_name (mergeKeys d))"
    and "k \<in> set (mergeKeys d) \<or> watermark d = Some k \<Longrightarrow> k = Dimension n t \<Longrightarrow>
      map_of (outputColumnTypes cols) n = Some t \<and> n \<notin> set (fst (queryDefinitionFieldKinds pipeline))"
proof -
  show "distinct (map rn_name (mergeKeys d))"
    using split_keys_distinct [of "[]"]
    by (auto simp: d resolveIncrementalDeclaration_def Let_def comp_def split: prod.split option.split)
       (metis distinct.simps(1) fst_conv)
  show "k \<in> set (mergeKeys d) \<or> watermark d = Some k \<Longrightarrow> k = Dimension n t \<Longrightarrow>
      map_of (outputColumnTypes cols) n = Some t \<and> n \<notin> set (fst (queryDefinitionFieldKinds pipeline))"
    by (auto simp: d resolveIncrementalDeclaration_def Let_def resolveName_Dimension Dimension_resolveName
        split: prod.splits option.splits)
qed

lemma resolve_strategy:
  assumes "d = resolveIncrementalDeclaration tag fr cols pipeline"
  shows "strategy d = (case watermark d of
      Some (Dimension _ _) \<Rightarrow>
        if incremental d then Some (if mergeKeys d \<noteq> [] then Merge else RangeReplace) else None
    | _ \<Rightarrow> None)"
    and "watermark d = Some (Dimension n t) \<Longrightarrow> watermarkOrderable d \<longleftrightarrow> t \<in> set ORDERABLE_TYPES"
    and "watermarkInMergeKeys d = (case watermark d of None \<Rightarrow> False
      | Some w \<Rightarrow> list_ex (\<lambda>k. rn_name k = rn_name w) (mergeKeys d))"
    and "incremental d \<longleftrightarrow> refresh d = Some ''incremental''"
    and "invalidRefresh d = None \<longleftrightarrow> refresh d = None \<or> the (refresh d) \<in> set REFRESH_MODES"
  by (auto simp: assms resolveIncrementalDeclaration_def Let_def
      split: prod.splits option.splits ResolvedName.splits)

lemma machinery_accepts:
  assumes "machinery_rules src dial d = []" and "watermark d = Some w"
  shows "dial \<noteq> None \<and> the dial \<in> set INCREMENTAL_SOURCE_RANGE_DIALECTS"
    and "declaredMergeKey d \<Longrightarrow> the dial \<in> set MERGE_CAPABLE_DIALECTS"
    and "w = Dimension (rn_name w) (rn_type w)" and "watermarkOrderable d"
    and "k \<in> set (mergeKeys d) \<Longrightarrow> k = Dimension (rn_name k) (rn_type k)"
    and "\<not> watermarkInMergeKeys d" and "calculateFields d = []"
proof -
  have u: "unresolved (watermark d # map Some (mergeKeys d)) = []"
    and a: "aggregateBacked (watermark d # map Some (mergeKeys d)) = []"
    using assms by (auto simp: machinery_rules_def Let_def split: if_splits)
  have dim: "r = Dimension (rn_name r) (rn_type r)" if "r = w \<or> r \<in> set (mergeKeys d)" for r
    using u a that assms(2)
    by (intro not_bad_is_dimension)
       (auto simp: unresolved_def aggregateBacked_def filter_empty_conv split: if_splits)
  then show "w = Dimension (rn_name w) (rn_type w)" by blast
  show "k \<in> set (mergeKeys d) \<Longrightarrow> k = Dimension (rn_name k) (rn_type k)" using dim by blast
  have "\<not> is_unresolved w" using dim [of w] by (metis ResolvedName.simps(10) is_unresolved_def)
  with assms show "watermarkOrderable d"
    by (auto simp: machinery_rules_def Let_def split: if_splits)
  show "dial \<noteq> None \<and> the dial \<in> set INCREMENTAL_SOURCE_RANGE_DIALECTS"
    "declaredMergeKey d \<Longrightarrow> the dial \<in> set MERGE_CAPABLE_DIALECTS"
    "\<not> watermarkInMergeKeys d" "calculateFields d = []"
    using assms by (auto simp: machinery_rules_def Let_def INCREMENTAL_SOURCE_RANGE_DIALECTS_def
        split: if_splits option.splits)
qed

text \<open>
  What the build path relies on: the watermark is an orderable dimension of the materialized
  output, the merge keys are other dimensions of it, without repetition, and the strategy is the
  one the author declared.
\<close>

definition coherent :: "WireColumn list \<Rightarrow> IncrementalPolicySource \<Rightarrow> bool" where
  "coherent cols s \<longleftrightarrow> (let d = decl s in
     if incremental d
     then (case watermark d of
         Some (Dimension w t) \<Rightarrow>
           map_of (outputColumnTypes cols) w = Some t \<and> t \<in> set ORDERABLE_TYPES
           \<and> distinct (w # map rn_name (mergeKeys d))
           \<and> list_all (\<lambda>k. map_of (outputColumnTypes cols) (rn_name k) = Some (rn_type k)) (mergeKeys d)
           \<and> strategy d = Some (if declaredMergeKey d then Merge else RangeReplace)
           \<and> (case dialect s of None \<Rightarrow> False
              | Some x \<Rightarrow> x \<in> set INCREMENTAL_SOURCE_RANGE_DIALECTS)
           \<and> calculateFields d = []
       | _ \<Rightarrow> False)
     else \<not> declaredWatermark d \<and> \<not> declaredMergeKey d \<and> strategy d = None
       \<and> refresh d \<in> {None, Some ''full''})"

text \<open>
  The publish gate is sound: a source it does not reject is either plainly not incremental,
  with no incremental key and no strategy, or carries a declaration the build path can act on, in
  which a declared merge key always selects the merge strategy and its absence the range replace.
\<close>

theorem accepted_declaration_is_coherent:
  assumes "decl s = resolveIncrementalDeclaration tag fr cols pipeline"
    and "rejectionsForSource s = []"
  shows "coherent cols s"
proof -
  let ?d = "decl s"
  have co: "coherence_rules (sourceName s) ?d = []"
    using assms(2) by (simp add: rejectionsForSource_def)
  then have mal: "malformed ?d = []" and inv: "invalidRefresh ?d = None"
    by (auto simp: coherence_rules_def split: option.splits)
  note W = resolve_watermark [OF assms(1) mal] and M = resolve_merge_key [OF assms(1) mal]
  note N = resolve_names [OF assms(1)] and S = resolve_strategy [OF assms(1)]
  show ?thesis
  proof (cases "incremental ?d")
    case False
    then have "\<not> declaredWatermark ?d" "\<not> declaredMergeKey ?d"
      using co by (auto simp: coherence_rules_def split: if_splits)
    moreover have "refresh ?d \<in> {None, Some ''full''}"
      using inv S(5) False S(4) by (cases "refresh ?d") (auto simp: REFRESH_MODES_def)
    ultimately show ?thesis
      using False S(1) by (simp add: coherent_def Let_def split: option.split ResolvedName.split)
  next
    case True
    then have "declaredWatermark ?d" using co by (auto simp: coherence_rules_def split: if_splits)
    then obtain w where w: "watermark ?d = Some w" using W by auto
    have mr: "machinery_rules (sourceName s) (dialect s) ?d = []"
      using assms(2) True by (simp add: rejectionsForSource_def)
    note A = machinery_accepts [OF mr w]
    have wd: "watermark ?d = Some (Dimension (rn_name w) (rn_type w))" using w A(3) by simp
    have "list_all (\<lambda>k. map_of (outputColumnTypes cols) (rn_name k) = Some (rn_type k)) (mergeKeys ?d)"
      using N(2) A(5) by (auto simp: list_all_iff)
    moreover have "rn_name w \<notin> rn_name ` set (mergeKeys ?d)"
      using A(6) w S(3) by (auto simp: list_ex_iff)
    ultimately show ?thesis
      using True wd N A(1,4,7) S(1) S(2) [OF wd] M
      by (auto simp: coherent_def Let_def split: option.split)
  qed
qed

definition demo_tag :: Tag where
  "demo_tag = \<lparr>tag_has = (\<lambda>k. k \<in> set [''refresh'', ''watermark'', ''merge_key'']),
     tag_array = (\<lambda>k. False),
     tag_text = [''refresh'' \<mapsto> ''incremental'', ''watermark'' \<mapsto> ''day'', ''merge_key'' \<mapsto> ''id, region''],
     tag_entries = Some [''refresh'', ''watermark'', ''merge_key'']\<rparr>"

definition demo_columns :: "WireColumn list" where
  "demo_columns = [(''id'', ''number''), (''region'', ''string''), (''day'', ''date''), (''total'', ''number'')]"

definition demo_pipeline :: "QueryField list list" where
  "demo_pipeline = [[FieldRef ''scalar'' [''day''], NamedField ''aggregate'' (Some ''total'')]]"

definition demo_source :: IncrementalPolicySource where
  "demo_source = \<lparr>sourceName = ''orders'', modelPath = None, dialect = Some ''postgres'',
     storageDestination = None, sourceEntityId = Some ''abc'',
     decl = resolveIncrementalDeclaration (Some demo_tag) (Some ''incremental'') demo_columns demo_pipeline\<rparr>"

lemma demo_source_accepted: "rejectionsForSource demo_source = []"
  by code_simp

lemma accepted_declaration_is_coherent_witness:
  "coherent demo_columns demo_source \<and> incremental (decl demo_source)"
proof
  show "coherent demo_columns demo_source"
    by (rule accepted_declaration_is_coherent [OF _ demo_source_accepted]) (simp add: demo_source_def)
  show "incremental (decl demo_source)" by code_simp
qed

text \<open>Advisories on a shared content address.\<close>

declare map_of_eq_Some_iff [simp del]

definition address_step :: "nat \<times> IncrementalPolicySource \<Rightarrow> (string \<times> group) list \<Rightarrow> (string \<times> group) list" where
  "address_step = (\<lambda>(i, s) m. case sourceEntityId s of
             None \<Rightarrow> m
           | Some a \<Rightarrow> if a = [] then m
               else (case map_of m a of
                   Some g \<Rightarrow> AList.update a (g @ [(i, s)]) m
                 | None \<Rightarrow> AList.update a [(i, s)] m))"

definition members :: "string \<Rightarrow> group \<Rightarrow> group" where
  "members a xs = filter (\<lambda>(_, s). sourceEntityId s = Some a) xs"

definition group_at :: "(string \<times> group) list \<Rightarrow> string \<Rightarrow> group" where
  "group_at m a = (case map_of m a of None \<Rightarrow> [] | Some g \<Rightarrow> g)"

lemma address_step:
  assumes "distinct (map fst m)" and "map_of m [] = None"
  shows "distinct (map fst (address_step x m))" "map_of (address_step x m) [] = None"
    "a \<noteq> [] \<Longrightarrow> group_at (address_step x m) a = group_at m a @ members a [x]"
  using assms
  by (auto simp: address_step_def members_def group_at_def distinct_update update_conv
      split: option.split prod.split)

lemma address_fold:
  "distinct (map fst m) \<Longrightarrow> map_of m [] = None \<Longrightarrow>
   distinct (map fst (fold address_step xs m)) \<and> map_of (fold address_step xs m) [] = None
   \<and> (\<forall>a. a \<noteq> [] \<longrightarrow> group_at (fold address_step xs m) a = group_at m a @ members a xs)"
proof (induction xs arbitrary: m)
  case Nil
  then show ?case by (simp add: members_def)
next
  case (Cons x xs)
  from Cons.IH [OF address_step(1,2) [OF Cons.prems]] address_step(3) [OF Cons.prems]
  show ?case by (simp add: members_def)
qed

lemma groups:
  "distinct (map fst (group_by_address xs)) \<and> map_of (group_by_address xs) [] = None
   \<and> (\<forall>a. a \<noteq> [] \<longrightarrow> group_at (group_by_address xs) a = members a xs)"
  using address_fold [of "[]" xs] by (simp add: group_by_address_def address_step_def group_at_def)

lemma group_advisories_Nil [simp]: "group_advisories [] = []"
  by (simp add: group_advisories_def)

lemma shared_groups:
  "set (sharedAddressAdvisories sources)
     = (\<Union>a \<in> {a. a \<noteq> []}. set (group_advisories (members a (enumerate 0 sources))))"
    (is "?L = ?R")
proof -
  let ?m = "group_by_address (enumerate 0 sources)"
  note g = groups [of "enumerate 0 sources"]
  have "?L = (\<Union>p \<in> set ?m. set (group_advisories (snd p)))"
    by (simp add: sharedAddressAdvisories_def)
  also have "\<dots> = (\<Union>a \<in> {a. a \<noteq> []}. set (group_advisories (group_at ?m a)))"
  proof (intro equalityI subsetI)
    fix v
    assume "v \<in> (\<Union>p \<in> set ?m. set (group_advisories (snd p)))"
    then obtain a h where p: "(a, h) \<in> set ?m" "v \<in> set (group_advisories h)" by auto
    then have "map_of ?m a = Some h" using g by (auto intro: map_of_is_SomeI)
    moreover from this g have "a \<noteq> []" by auto
    ultimately show "v \<in> (\<Union>a \<in> {a. a \<noteq> []}. set (group_advisories (group_at ?m a)))"
      using p by (auto simp: group_at_def intro!: exI [of _ a])
  next
    fix v
    assume "v \<in> (\<Union>a \<in> {a. a \<noteq> []}. set (group_advisories (group_at ?m a)))"
    then obtain a where "v \<in> set (group_advisories (group_at ?m a))" by auto
    then obtain h where "map_of ?m a = Some h" "v \<in> set (group_advisories h)"
      by (auto simp: group_at_def split: option.splits)
    then show "v \<in> (\<Union>p \<in> set ?m. set (group_advisories (snd p)))"
      by (force dest: map_of_SomeD)
  qed
  also have "\<dots> = ?R" using g by simp
  finally show ?thesis .
qed

lemma several_distinct: "1 < length (remdups xs) \<longleftrightarrow> (\<exists>x \<in> set xs. \<exists>y \<in> set xs. x \<noteq> y)"
  using card_le_Suc0_iff_eq [of "set xs"] by (auto simp: length_remdups_card_conv not_less not_le)

definition disagree :: "group \<Rightarrow> bool" where
  "disagree G \<longleftrightarrow> (\<exists>x \<in> snd ` set G. \<exists>y \<in> snd ` set G. recordedLineage (decl x) \<noteq> recordedLineage (decl y))"

definition some_incremental :: "group \<Rightarrow> bool" where
  "some_incremental G \<longleftrightarrow> (\<exists>x \<in> snd ` set G. incremental (decl x))"

definition shared_warning :: "group \<Rightarrow> nat \<Rightarrow> IncrementalPolicySource \<Rightarrow> Advisory" where
  "shared_warning G i s = SharedAddress (model_of s) (sourceName s)
     (map (sourceName \<circ> snd) (filter (\<lambda>(j, _). j \<noteq> i) G)) (disagree G)"

lemma group_advisories_map:
  "group_advisories G =
     (if 2 \<le> length G \<and> some_incremental G then map (\<lambda>(i, s). shared_warning G i s) G else [])"
proof -
  have e: "set (map (\<lambda>(_, s). recordedLineage (decl s)) G)
      = (\<lambda>s. recordedLineage (decl s)) ` snd ` set G"
    by (auto simp: image_iff) force
  have conf: "1 < length (remdups (map (\<lambda>(_, s). recordedLineage (decl s)) G)) \<longleftrightarrow> disagree G"
    unfolding several_distinct e disagree_def by auto
  have inc: "list_ex (\<lambda>(_, s). incremental (decl s)) G \<longleftrightarrow> some_incremental G"
    by (simp add: some_incremental_def list_ex_iff case_prod_beta)
  show ?thesis
    unfolding group_advisories_def Let_def conf inc shared_warning_def by simp
qed

text \<open>
  Every source that shares its content address with another, when any of them is
  incremental, is warned, with the others' names, and no other source is; the warning says the
  declarations disagree exactly when two of the recorded lineages differ.
\<close>

theorem shared_address_warns_every_member:
  "set (sharedAddressAdvisories sources) =
     {shared_warning G i s | i s G a. (i, s) \<in> set G \<and> a \<noteq> []
        \<and> G = members a (enumerate 0 sources) \<and> 2 \<le> length G \<and> some_incremental G}"
proof -
  have "v \<in> set (group_advisories G) \<longleftrightarrow>
      2 \<le> length G \<and> some_incremental G \<and> (\<exists>i s. v = shared_warning G i s \<and> (i, s) \<in> set G)" for v G
    by (auto simp: group_advisories_map)
  then show ?thesis unfolding shared_groups by blast
qed

text \<open>
  The lineage is joined without escaping: two declarations may differ and still compare equal.
\<close>

definition plus_decl :: "ResolvedName list \<Rightarrow> IncrementalDeclaration" where
  "plus_decl keys = (decl demo_source)\<lparr>mergeKeys := keys\<rparr>"

lemma recordedLineage_ambiguous:
  "recordedLineage (plus_decl [Dimension ''a'' ''number'', Dimension ''b'' ''number''])
     = recordedLineage (plus_decl [Dimension ''a+b'' ''number''])"
  by (simp add: recordedLineage_def plus_decl_def plus_join_def)

end
