(* ===== verification/IncrementalRun.thy ===== *)
theory IncrementalRun
  imports DeltaStep Incremental
begin

text \<open>
  Incremental refreshes over time (\<open>service/incremental_build.ts\<close>,
  \<open>storage/duckdb/IncrementalLedgerRepository.ts\<close>, and the calls \<open>service/materialization_service.ts\<close>
  makes): which source is on the delta path, the ledger of covered boundaries, and how a refresh reads,
  advances and clears it. The theory ends with what any history of refreshes leaves behind.
\<close>

subsection \<open>The ledger\<close>

text \<open>
  The primary key: environment, connection, store (empty for the source warehouse) and table. The
  merge keys are stored as JSON text, the list they encode here.
\<close>

type_synonym ledger_key = "string \<times> string \<times> string \<times> string"

record ledger_row =
  rowPackage :: string
  rowSource :: string
  rowValue :: string
  rowType :: string
  rowWatermark :: string
  rowMergeKeys :: "string list"
  rowStrategy :: IncrementalStrategy
  rowAdvancedBy :: string
  rowAdvancedAt :: string
  rowCreatedAt :: string

type_synonym ledger_db = "ledger_key \<Rightarrow> ledger_row option"

definition store_text :: "string option \<Rightarrow> string" where
  "store_text storage = (case storage of Some s \<Rightarrow> s | None \<Rightarrow> [])"

definition ledger_key :: "string \<Rightarrow> IncrementalLineage \<Rightarrow> ledger_key" where
  "ledger_key env lin = (env, linConnection lin, store_text (linStorage lin), linTable lin)"

definition mapRow :: "ledger_key \<Rightarrow> ledger_row \<Rightarrow> RecordedBoundary" where
  "mapRow key r = (case key of (env, connection, store, table) \<Rightarrow>
     \<lparr>recSource = rowSource r, recValue = rowValue r, recType = rowType r, recWatermark = rowWatermark r,
      recMergeKeys = rowMergeKeys r, recStrategy = rowStrategy r, recTable = table, recConnection = connection,
      recStorage = (if store \<noteq> [] then Some store else None)\<rparr>)"

definition ledger_get :: "ledger_db \<Rightarrow> string \<Rightarrow> IncrementalLineage \<Rightarrow> RecordedBoundary option" where
  "ledger_get db env lin = map_option (mapRow (ledger_key env lin)) (db (ledger_key env lin))"

text \<open>An upsert keeps \<open>created_at\<close> and overwrites the rest.\<close>

definition ledger_upsert :: "string \<Rightarrow> ledger_key \<Rightarrow> ledger_row \<Rightarrow> ledger_db \<Rightarrow> ledger_db" where
  "ledger_upsert clock key r db = db(key \<mapsto>
     r\<lparr>rowAdvancedAt := clock, rowCreatedAt := (case db key of Some old \<Rightarrow> rowCreatedAt old | None \<Rightarrow> clock)\<rparr>)"

definition deleteEntry :: "ledger_key \<Rightarrow> ledger_db \<Rightarrow> ledger_db" where
  "deleteEntry key db = db(key := None)"

definition deleteByEnvironmentId :: "string \<Rightarrow> ledger_db \<Rightarrow> ledger_db" where
  "deleteByEnvironmentId env db = (\<lambda>key. if fst key = env then None else db key)"

definition deleteByPackage :: "string \<Rightarrow> string \<Rightarrow> ledger_db \<Rightarrow> ledger_db" where
  "deleteByPackage env pkg db = (\<lambda>key. case db key of
      Some r \<Rightarrow> if fst key = env \<and> rowPackage r = pkg then None else Some r | None \<Rightarrow> None)"

subsection \<open>The run\<close>

definition ledgerTableKey :: "string \<Rightarrow> string option \<Rightarrow> string \<Rightarrow> string" where
  "ledgerTableKey connection storage table = join [CHR 0x00] [connection, store_text storage, table]"

text \<open>The caller's entries, the last of a table winning.\<close>

definition indexCallerLedger :: "RecordedBoundary list \<Rightarrow> string \<Rightarrow> RecordedBoundary option" where
  "indexCallerLedger entries =
     foldl (\<lambda>index e. index(ledgerTableKey (recConnection e) (recStorage e) (recTable e) \<mapsto> e)) Map.empty entries"

text \<open>
  A \<open>storage=\<close> destination (\<open>service/incremental_storage.ts\<close>): the delta is written in DuckDB, its rows
  come through a passthrough read of the source warehouse. The public projection, the passthrough
  read and its wrapping are those of other modules.
\<close>

definition storageDeltaTarget ::
  "js_numbers \<Rightarrow> (string \<Rightarrow> string + string) \<Rightarrow> (string \<Rightarrow> string + string) \<Rightarrow> (string \<Rightarrow> string) \<Rightarrow> SqlRunner
   \<Rightarrow> string \<Rightarrow> string \<Rightarrow> string \<Rightarrow> string \<Rightarrow> IncrementalLineage \<Rightarrow> string \<Rightarrow> DeltaTarget" where
  "storageDeltaTarget js project read wrap runSQL sourceDialect destinationName table quotedTablePath lin buildSQL =
     \<lparr>dialectOf = ''duckdb'', runnerOf = runSQL, quotedPath = quotedTablePath,
      logicalPath = destinationName @ ''.'' @ table,
      deltaRows = (\<lambda>start finish.
        bind_r (map_sum BoundFailed id (deltaSelect js sourceDialect buildSQL (linWatermark lin) start finish)) (\<lambda>sql.
        bind_r (map_sum ReadFailed id (project sql)) (\<lambda>bounded.
          map_sum ReadFailed id (read bounded)))),
      probeSourceFrontier =
        (case runSQL (wrap (''SELECT MAX('' @ quoteIdentifier (linWatermark lin) sourceDialect @ '') AS ''
             @ quoteIdentifier ''watermark_max'' sourceDialect @ '' FROM ('' @ buildSQL @ '') AS __w'')) of
           Inl e \<Rightarrow> Inl (QueryFailed e)
         | Inr rows \<Rightarrow> (case rows of
             Some r # _ \<Rightarrow> (case map_of r ''watermark_max'' of
                 None \<Rightarrow> Inr None
               | Some CellNull \<Rightarrow> Inr None
               | Some raw \<Rightarrow> (case canonicalBoundValue js (linType lin) raw of
                     Inl e \<Rightarrow> Inl (BadBound e) | Inr b \<Rightarrow> Inr (Some b)))
           | _ \<Rightarrow> Inr None))\<rparr>"

record RunContext =
  ctxEnvironment :: string
  ctxPackage :: string
  ctxMaterialization :: string
  ctxForce :: bool
  ctxNow :: string
  ctxCallerLedger :: "(string \<Rightarrow> RecordedBoundary option) option"

definition incrementalLineage ::
  "IncrementalDeclaration option \<Rightarrow> string \<Rightarrow> string \<Rightarrow> string \<Rightarrow> string \<Rightarrow> string option \<Rightarrow> string
   \<Rightarrow> IncrementalLineage option" where
  "incrementalLineage declaration sourceDialect targetDialect table connection storage contentAddress =
     (case declaration of
        None \<Rightarrow> None
      | Some d \<Rightarrow>
          if \<not> incremental d then None
          else (case (watermark d, strategy d) of
              (Some (Dimension wname wtype), Some strat) \<Rightarrow>
                if \<not> watermarkOrderable d \<or> \<not> isRenderableWatermarkType wtype then None
                else if sourceDialect \<notin> set INCREMENTAL_SOURCE_RANGE_DIALECTS then None
                else if targetDialect \<notin> set INCREMENTAL_TARGET_DML_DIALECTS then None
                else if \<exists>k \<in> set (mergeKeys d). \<forall>n t. k \<noteq> Dimension n t then None
                else Some \<lparr>linTable = table, linConnection = connection, linStorage = storage, linSource = contentAddress,
                   linWatermark = wname, linType = wtype, linMergeKeys = map rn_name (mergeKeys d), linStrategy = strat\<rparr>
            | _ \<Rightarrow> None))"

datatype RunError = CallerEntryStale StepReason | ScriptFailed string | RebuildFailed

text \<open>
  What may go wrong outside the publisher during one refresh; the clock is the ledger's. A rebuild
  writes a staging table, drops the table and renames: it may fail with the table as it was, or with the table gone.
\<close>

datatype rebuild_end = Rebuilt | Table_kept | Table_gone

record faults =
  getFails :: bool
  upsertFails :: bool
  deleteFails :: bool
  scriptFails :: "string \<Rightarrow> string option"
  rebuildEnd :: rebuild_end
  clock :: string

definition planSourceRefresh ::
  "js_numbers \<Rightarrow> decoder \<Rightarrow> ledger_db \<Rightarrow> faults \<Rightarrow> RunContext \<Rightarrow> IncrementalLineage \<Rightarrow> DeltaTarget
   \<Rightarrow> string list \<Rightarrow> bool \<Rightarrow> RunError + IncrementalStep" where
  "planSourceRefresh js decode db fl ctx lin target cols reseed =
     (let forced = ctxForce ctx \<or> reseed;
          planned = (\<lambda>entry. case planIncrementalStep js decode target lin entry forced (ctxNow ctx) cols
              (if linStrategy lin = Merge \<and> dialectOf target = ''postgres'' \<and> entry \<noteq> None
               then probePostgresVersion js (runnerOf target) else None) of
            Inl e \<Rightarrow> Seed PlanFailed | Inr s \<Rightarrow> s)
      in case ctxCallerLedger ctx of
        Some index \<Rightarrow>
          (case planned (index (ledgerTableKey (linConnection lin) (linStorage lin) (linTable lin))) of
             Seed reason \<Rightarrow> if reason = LineageChanged \<or> reason = TableRenamed then Inl (CallerEntryStale reason)
                 else Inr (Seed reason)
           | s \<Rightarrow> Inr s)
      | None \<Rightarrow>
          if getFails fl then Inr (Seed LedgerUnreadable)
          else Inr (planned (ledger_get db (ctxEnvironment ctx) lin)))"

definition advanceLedger ::
  "faults \<Rightarrow> RunContext \<Rightarrow> IncrementalLineage \<Rightarrow> WatermarkBound \<Rightarrow> ledger_db \<Rightarrow> ledger_db" where
  "advanceLedger fl ctx lin covered db =
     (if ctxCallerLedger ctx \<noteq> None \<or> upsertFails fl then db
      else ledger_upsert (clock fl) (ledger_key (ctxEnvironment ctx) lin)
        \<lparr>rowPackage = ctxPackage ctx, rowSource = linSource lin, rowValue = boundValue covered,
         rowType = malloyType covered, rowWatermark = linWatermark lin, rowMergeKeys = linMergeKeys lin,
         rowStrategy = linStrategy lin, rowAdvancedBy = ctxMaterialization ctx, rowAdvancedAt = [], rowCreatedAt = []\<rparr> db)"

definition resetLedger :: "faults \<Rightarrow> RunContext \<Rightarrow> IncrementalLineage \<Rightarrow> ledger_db \<Rightarrow> ledger_db" where
  "resetLedger fl ctx lin db =
     (if ctxCallerLedger ctx \<noteq> None \<or> deleteFails fl then db else deleteEntry (ledger_key (ctxEnvironment ctx) lin) db)"

definition advanceLedgerAfterSeed ::
  "js_numbers \<Rightarrow> faults \<Rightarrow> RunContext \<Rightarrow> IncrementalLineage \<Rightarrow> DeltaTarget \<Rightarrow> ledger_db
   \<Rightarrow> ledger_db \<times> WatermarkBound option" where
  "advanceLedgerAfterSeed js fl ctx lin target db =
     (case seedCoveredThrough js (runnerOf target) (dialectOf target) lin (quotedPath target) (ctxNow ctx) of
        Inr (Some b) \<Rightarrow> (advanceLedger fl ctx lin b db, Some b)
      | _ \<Rightarrow> (db, None))"

text \<open>What a step did: the ledger, the texts sent, and the boundary in force if the table was served in place.\<close>

datatype outcome = NotApplied | Unchanged WatermarkBound | DeltaApplied WatermarkBound

definition applyIncrementalStep ::
  "faults \<Rightarrow> RunContext \<Rightarrow> IncrementalLineage \<Rightarrow> IncrementalStep \<Rightarrow> DeltaTarget \<Rightarrow> ledger_db
   \<Rightarrow> ledger_db \<times> string list \<times> (RunError + outcome)" where
  "applyIncrementalStep fl ctx lin plan target db =
     (case plan of
        Seed _ \<Rightarrow> (db, [], Inr NotApplied)
      | Skip _ covered \<Rightarrow> (db, [], Inr (Unchanged covered))
      | Delta _ _ covered statements \<Rightarrow>
          (case applyDeltaScript (scriptFails fl) (dialectOf target) statements of
             (sent, Some e) \<Rightarrow> (db, sent, Inl (ScriptFailed e))
           | (sent, None) \<Rightarrow> (advanceLedger fl ctx lin covered db, sent, Inr (DeltaApplied covered))))"

text \<open>
  One source of a build: the delta if there is one, else the boundary is cleared, the table rebuilt
  (\<open>rebuildEnd\<close> is how its DDL ended) and the boundary of the rebuilt table recorded.
\<close>

definition rebuild_source ::
  "js_numbers \<Rightarrow> faults \<Rightarrow> RunContext \<Rightarrow> IncrementalLineage \<Rightarrow> DeltaTarget \<Rightarrow> ledger_db
   \<Rightarrow> ledger_db \<times> (RunError + WatermarkBound option)" where
  "rebuild_source js fl ctx lin target db =
     (let cleared = resetLedger fl ctx lin db in
      if rebuildEnd fl \<noteq> Rebuilt then (cleared, Inl RebuildFailed)
      else (case advanceLedgerAfterSeed js fl ctx lin target cleared of (db', b) \<Rightarrow> (db', Inr b)))"

subsection \<open>Histories\<close>

text \<open>
  What happened to the tables, beside the ledger: the boundary a table's last rebuild reached, whatever was
  probed or recorded of it (\<open>riReached\<close>, none while there is no table), and the ranges applied to it since. A refresh
  whose script fails adds nothing, and a rebuild that fails leaves the table as it was or none.
\<close>

record history =
  ledger :: ledger_db
  base :: "ledger_key \<Rightarrow> WatermarkBound option"
  applied :: "ledger_key \<Rightarrow> (WatermarkBound \<times> WatermarkBound) list"

record refresh_input =
  riContext :: RunContext
  riLineage :: IncrementalLineage
  riTarget :: DeltaTarget
  riColumns :: "string list"
  riReseed :: bool
  riFaults :: faults
  riReached :: WatermarkBound

datatype ledger_event = Refresh refresh_input | PackageDeleted string string | EnvironmentDeleted string

definition row_bound :: "ledger_row \<Rightarrow> WatermarkBound" where
  "row_bound r = \<lparr>malloyType = rowType r, boundValue = rowValue r\<rparr>"

definition refresh_source :: "js_numbers \<Rightarrow> decoder \<Rightarrow> refresh_input \<Rightarrow> history \<Rightarrow> history" where
  "refresh_source js decode ri st =
     (let ctx = riContext ri; lin = riLineage ri; target = riTarget ri; fl = riFaults ri;
          key = ledger_key (ctxEnvironment ctx) lin
      in case planSourceRefresh js decode (ledger st) fl ctx lin target (riColumns ri) (riReseed ri) of
        Inl _ \<Rightarrow> st
      | Inr plan \<Rightarrow>
          (case applyIncrementalStep fl ctx lin plan target (ledger st) of
             (db, _, Inl _) \<Rightarrow> st\<lparr>ledger := db\<rparr>
           | (db, _, Inr NotApplied) \<Rightarrow>
               (case rebuild_source js fl ctx lin target db of
                  (db', Inl _) \<Rightarrow> if rebuildEnd fl = Table_kept then st\<lparr>ledger := db'\<rparr>
                    else st\<lparr>ledger := db', base := (base st)(key := None), applied := (applied st)(key := [])\<rparr>
                | (db', Inr _) \<Rightarrow> st\<lparr>ledger := db', base := (base st)(key := Some (riReached ri)),
                    applied := (applied st)(key := [])\<rparr>)
           | (db, _, Inr (Unchanged _)) \<Rightarrow> st\<lparr>ledger := db\<rparr>
           | (db, _, Inr (DeltaApplied _)) \<Rightarrow>
               st\<lparr>ledger := db, applied := (applied st)(key := applied st key @ [(startBound plan, finishBound plan)])\<rparr>))"

fun ledger_step :: "js_numbers \<Rightarrow> decoder \<Rightarrow> ledger_event \<Rightarrow> history \<Rightarrow> history" where
  "ledger_step js decode (Refresh ri) st = refresh_source js decode ri st"
| "ledger_step js decode (PackageDeleted env pkg) st = st\<lparr>ledger := deleteByPackage env pkg (ledger st)\<rparr>"
| "ledger_step js decode (EnvironmentDeleted env) st = st\<lparr>ledger := deleteByEnvironmentId env (ledger st)\<rparr>"

definition fresh_history :: history where
  "fresh_history = \<lparr>ledger = Map.empty, base = Map.empty, applied = (\<lambda>_. [])\<rparr>"

definition run_history :: "js_numbers \<Rightarrow> decoder \<Rightarrow> ledger_event list \<Rightarrow> history" where
  "run_history js decode events = fold (ledger_step js decode) events fresh_history"

text \<open>Every value from the rebuild's boundary to the recorded one lies in a range that was applied.\<close>

definition covered :: "js_numbers \<Rightarrow> (WatermarkBound \<times> WatermarkBound) list \<Rightarrow> WatermarkBound \<Rightarrow> WatermarkBound \<Rightarrow> bool" where
  "covered js ranges from till \<longleftrightarrow>
     (\<forall>v. in_range js from till v \<longrightarrow> (\<exists>(s, f) \<in> set ranges. in_range js s f v))"

definition no_gap :: "js_numbers \<Rightarrow> ledger_key \<Rightarrow> history \<Rightarrow> bool" where
  "no_gap js key st \<longleftrightarrow> (\<forall>r. ledger st key = Some r \<longrightarrow>
     (\<exists>b. base st key = Some b \<and> covered js (applied st key) b (row_bound r)))"

text \<open>The boundary a seed has to record, if its probe answers.\<close>

definition probed :: "js_numbers \<Rightarrow> refresh_input \<Rightarrow> WatermarkBound option" where
  "probed js ri = (case seedCoveredThrough js (runnerOf (riTarget ri)) (dialectOf (riTarget ri)) (riLineage ri)
       (quotedPath (riTarget ri)) (ctxNow (riContext ri)) of Inr (Some b) \<Rightarrow> Some b | _ \<Rightarrow> None)"

text \<open>
  The boundary of a seed (the run's clock for a time, the table's greatest value for another type) is not past
  what the rebuild reached: no value lies from the one to the other.
\<close>

definition probe_sound :: "js_numbers \<Rightarrow> refresh_input \<Rightarrow> bool" where
  "probe_sound js ri \<longleftrightarrow> (\<forall>b. probed js ri = Some b \<longrightarrow> (\<forall>v. \<not> in_range js (riReached ri) b v))"

text \<open>
  The refresh keeps its boundary in our ledger, and a rebuild does not both fail to clear the old boundary and
  leave the ledger without its own: a failed clear is only logged, and the rebuild goes on.
\<close>

definition boundary_kept :: "js_numbers \<Rightarrow> refresh_input \<Rightarrow> bool" where
  "boundary_kept js ri \<longleftrightarrow> ctxCallerLedger (riContext ri) = None \<and>
     (\<not> deleteFails (riFaults ri) \<or> rebuildEnd (riFaults ri) = Table_kept
      \<or> rebuildEnd (riFaults ri) = Rebuilt \<and> \<not> upsertFails (riFaults ri) \<and> probed js ri \<noteq> None)"

definition refresh_key :: "refresh_input \<Rightarrow> ledger_key" where
  "refresh_key ri = ledger_key (ctxEnvironment (riContext ri)) (riLineage ri)"

lemma covered_self: "covered js ranges b b"
  by (simp add: covered_def in_range_def)

lemma covered_extend:
  assumes "covered js ranges b s"
  shows "covered js (ranges @ [(s, f)]) b f"
  unfolding covered_def
proof (intro allI impI)
  fix v
  assume v: "in_range js b f v"
  show "\<exists>(s', f') \<in> set (ranges @ [(s, f)]). in_range js s' f' v"
  proof (cases "bound_le js s v")
    case True
    with v have "in_range js s f v" by (simp add: in_range_def)
    then show ?thesis by auto
  next
    case False
    with v have "in_range js b s v" by (simp add: in_range_def)
    with assms show ?thesis unfolding covered_def by fastforce
  qed
qed

lemma covered_more: "covered js ranges b s \<Longrightarrow> covered js (ranges @ [x]) b s"
  unfolding covered_def by auto

text \<open>A delta starts at the row of its own table when the store is ours.\<close>

lemma plan_delta_start:
  assumes "planSourceRefresh js decode db fl ctx lin target cols reseed = Inr (Delta s f c statements)"
    and "ctxCallerLedger ctx = None"
  shows "c = f \<and> (\<exists>r. db (ledger_key (ctxEnvironment ctx) lin) = Some r \<and> s = row_bound r)"
proof -
  obtain entry v where e: "ledger_get db (ctxEnvironment ctx) lin = entry"
      "planIncrementalStep js decode target lin entry (ctxForce ctx \<or> reseed) (ctxNow ctx) cols v = Inr (Delta s f c statements)"
    using assms by (auto simp: planSourceRefresh_def Let_def split: if_splits sum.splits)
  from e(2) have "c = f \<and> (\<exists>e. entry = Some e \<and> s = recorded_start e)"
    by (rule plan_delta) simp
  with e(1) show ?thesis
    by (auto simp: ledger_get_def mapRow_def recorded_start_def row_bound_def split: prod.splits)
qed

lemma plan_delta_covered:
  assumes "planSourceRefresh js decode db fl ctx lin target cols reseed = Inr (Delta s f c statements)"
  shows "c = f"
proof -
  obtain entry forced v where
      "planIncrementalStep js decode target lin entry forced (ctxNow ctx) cols v = Inr (Delta s f c statements)"
    using assms by (auto simp: planSourceRefresh_def Let_def split: if_splits sum.splits option.splits IncrementalStep.splits)
  then show ?thesis by (rule plan_delta) simp
qed

lemma upsert_row: "(ledger_upsert clk key r db key' = Some r') \<Longrightarrow>
    (key' = key \<and> row_bound r' = row_bound r) \<or> (key' \<noteq> key \<and> db key' = Some r')"
  by (auto simp: ledger_upsert_def row_bound_def split: if_splits)

lemma advance_row:
  assumes "advanceLedger fl ctx lin b db key = Some r"
  shows "db key = Some r
    \<or> (key = ledger_key (ctxEnvironment ctx) lin \<and> ctxCallerLedger ctx = None \<and> row_bound r = b)"
  using assms upsert_row
  by (fastforce simp: advanceLedger_def row_bound_def split: if_splits)

lemma reset_row: "resetLedger fl ctx lin db key = Some r \<Longrightarrow> db key = Some r"
  by (auto simp: resetLedger_def deleteEntry_def split: if_splits)

lemma advance_other: "key \<noteq> ledger_key (ctxEnvironment ctx) lin \<Longrightarrow> advanceLedger fl ctx lin b db key = db key"
  by (simp add: advanceLedger_def ledger_upsert_def)

lemma reset_other: "key \<noteq> ledger_key (ctxEnvironment ctx) lin \<Longrightarrow> resetLedger fl ctx lin db key = db key"
  by (simp add: resetLedger_def deleteEntry_def)

lemma rebuild_other:
  "rebuild_source js fl ctx lin target db = (db', res) \<Longrightarrow> key \<noteq> ledger_key (ctxEnvironment ctx) lin \<Longrightarrow> db' key = db key"
  using advance_other [of key ctx lin fl] reset_other [of key ctx lin fl db]
  by (auto simp: rebuild_source_def advanceLedgerAfterSeed_def Let_def split: if_splits prod.splits sum.splits option.splits)

text \<open>What a rebuild leaves in the row of its table.\<close>

lemma rebuild_row:
  assumes "rebuild_source js (riFaults ri) (riContext ri) (riLineage ri) (riTarget ri) db = (db', res)"
    and kept: "boundary_kept js ri" and "db' (refresh_key ri) = Some r"
  shows "(\<exists>e. res = Inl e) \<and> rebuildEnd (riFaults ri) = Table_kept \<and> db (refresh_key ri) = Some r
    \<or> (\<exists>b. res = Inr b) \<and> probed js ri = Some (row_bound r)"
proof -
  let ?fl = "riFaults ri" and ?ctx = "riContext ri" and ?lin = "riLineage ri"
  let ?cleared = "resetLedger ?fl ?ctx ?lin db"
  have cleared: "\<not> deleteFails ?fl \<Longrightarrow> ?cleared (refresh_key ri) = None"
    using kept by (simp add: boundary_kept_def resetLedger_def deleteEntry_def refresh_key_def)
  show ?thesis
  proof (cases "rebuildEnd ?fl = Rebuilt")
    case False
    with assms(1) have "db' = ?cleared" "\<exists>e. res = Inl e" by (auto simp: rebuild_source_def Let_def)
    with assms(3) cleared kept False reset_row [of ?fl ?ctx ?lin db "refresh_key ri" r] show ?thesis
      by (auto simp: boundary_kept_def)
  next
    case True
    show ?thesis
    proof (cases "probed js ri")
      case None
      with True assms(1) have "db' = ?cleared"
        by (auto simp: rebuild_source_def advanceLedgerAfterSeed_def probed_def Let_def split: sum.splits option.splits)
      with assms(3) cleared kept None True show ?thesis by (auto simp: boundary_kept_def)
    next
      case (Some b)
      with True assms(1) have db: "db' = advanceLedger ?fl ?ctx ?lin b ?cleared" "res = Inr (Some b)"
        by (auto simp: rebuild_source_def advanceLedgerAfterSeed_def probed_def Let_def split: sum.splits option.splits)
      show ?thesis
      proof (cases "upsertFails ?fl")
        case True
        with db(1) have "db' = ?cleared" by (simp add: advanceLedger_def)
        with assms(3) cleared kept True \<open>rebuildEnd ?fl = Rebuilt\<close> show ?thesis by (auto simp: boundary_kept_def)
      next
        case False
        with assms(3) db kept Some show ?thesis
          by (auto simp: advanceLedger_def ledger_upsert_def boundary_kept_def refresh_key_def row_bound_def)
      qed
    qed
  qed
qed

lemma no_gap_row:
  assumes "no_gap js key st" and "ledger st key = Some r"
  obtains b where "base st key = Some b" and "covered js (applied st key) b (row_bound r)"
  using assms unfolding no_gap_def by blast

lemma no_gap_fewer_rows:
  assumes "no_gap js key st" and "\<And>r. db key = Some r \<Longrightarrow> ledger st key = Some r"
  shows "no_gap js key (st\<lparr>ledger := db\<rparr>)"
  using assms unfolding no_gap_def by simp

lemma no_gap_delta:
  assumes "no_gap js key st" and key: "key = ledger_key (ctxEnvironment ctx) lin"
    and start: "ctxCallerLedger ctx = None \<longrightarrow> (\<exists>r. ledger st key = Some r \<and> s = row_bound r)"
  shows "no_gap js key (st\<lparr>ledger := advanceLedger fl ctx lin f (ledger st),
     applied := (applied st)(key := applied st key @ [(s, f)])\<rparr>)"
  unfolding no_gap_def
proof (intro allI impI)
  fix r
  let ?db = "advanceLedger fl ctx lin f (ledger st)"
  let ?st = "st\<lparr>ledger := ?db, applied := (applied st)(key := applied st key @ [(s, f)])\<rparr>"
  assume "ledger ?st key = Some r"
  then have "?db key = Some r" by simp
  from advance_row [OF this] key consider
      "ledger st key = Some r"
    | "ctxCallerLedger ctx = None" "row_bound r = f" by metis
  then show "\<exists>b. base ?st key = Some b \<and> covered js (applied ?st key) b (row_bound r)"
  proof cases
    case 1
    with no_gap_row [OF assms(1)] obtain b where "base st key = Some b" "covered js (applied st key) b (row_bound r)" .
    then show ?thesis by (auto intro: covered_more)
  next
    case 2
    with start obtain r0 where "ledger st key = Some r0" "s = row_bound r0" by auto
    with no_gap_row [OF assms(1)] obtain b where "base st key = Some b" "covered js (applied st key) b s" by metis
    then show ?thesis using 2(2) by (auto intro: covered_extend)
  qed
qed

lemma apply_delta:
  assumes "applyIncrementalStep fl ctx lin plan target db = (db', sent, Inr (DeltaApplied c))"
  shows "(\<exists>s f statements. plan = Delta s f c statements) \<and> db' = advanceLedger fl ctx lin c db"
  using assms by (auto simp: applyIncrementalStep_def split: IncrementalStep.splits prod.splits option.splits)

lemma apply_in_place:
  assumes "applyIncrementalStep fl ctx lin plan target db = (db', sent, res)" and "\<forall>c. res \<noteq> Inr (DeltaApplied c)"
  shows "db' = db"
  using assms by (auto simp: applyIncrementalStep_def split: IncrementalStep.splits prod.splits option.splits)

text \<open>A refresh touches its own table and row alone.\<close>

lemma refresh_other:
  assumes "key \<noteq> refresh_key ri"
  shows "ledger (refresh_source js decode ri st) key = ledger st key \<and> base (refresh_source js decode ri st) key = base st key
    \<and> applied (refresh_source js decode ri st) key = applied st key"
proof -
  let ?ctx = "riContext ri" and ?lin = "riLineage ri" and ?target = "riTarget ri" and ?fl = "riFaults ri"
  have apply_other: "applyIncrementalStep ?fl ?ctx ?lin plan ?target db = (db', sent, res) \<Longrightarrow> db' key = db key" for plan db db' sent res
    using assms advance_other [of key ?ctx ?lin ?fl]
    by (auto simp: applyIncrementalStep_def refresh_key_def split: IncrementalStep.splits prod.splits option.splits)
  show ?thesis
  proof (cases "planSourceRefresh js decode (ledger st) ?fl ?ctx ?lin ?target (riColumns ri) (riReseed ri)")
    case (Inl e)
    then show ?thesis by (simp add: refresh_source_def Let_def)
  next
    case plan: (Inr plan)
    obtain db sent res where a: "applyIncrementalStep ?fl ?ctx ?lin plan ?target (ledger st) = (db, sent, res)"
      by (metis prod_cases3)
    obtain db' r where r: "rebuild_source js ?fl ?ctx ?lin ?target db = (db', r)" by fastforce
    have same: "db key = ledger st key" "db' key = db key"
      using apply_other [OF a] rebuild_other [OF r] assms by (simp_all add: refresh_key_def)
    consider e where "res = Inl e" | "res = Inr NotApplied" | c where "res = Inr (Unchanged c)" | c where "res = Inr (DeltaApplied c)"
      by (metis outcome.exhaust sum.exhaust)
    then show ?thesis
      by cases (use plan a r same assms in \<open>auto simp: refresh_source_def refresh_key_def Let_def split: sum.split\<close>)
  qed
qed

lemma no_gap_other:
  "no_gap js key st \<Longrightarrow> key \<noteq> refresh_key ri \<Longrightarrow> no_gap js key (refresh_source js decode ri st)"
  using refresh_other [of key ri js decode st] by (simp add: no_gap_def)

lemma no_gap_rebuild:
  assumes "no_gap js (refresh_key ri) st" and "boundary_kept js ri" and "probe_sound js ri"
    and r: "rebuild_source js (riFaults ri) (riContext ri) (riLineage ri) (riTarget ri) (ledger st) = (db, res)"
  shows "no_gap js (refresh_key ri) (case res of
      Inl _ \<Rightarrow> if rebuildEnd (riFaults ri) = Table_kept then st\<lparr>ledger := db\<rparr>
        else st\<lparr>ledger := db, base := (base st)(refresh_key ri := None), applied := (applied st)(refresh_key ri := [])\<rparr>
    | Inr _ \<Rightarrow> st\<lparr>ledger := db, base := (base st)(refresh_key ri := Some (riReached ri)),
        applied := (applied st)(refresh_key ri := [])\<rparr>)"
proof (cases "db (refresh_key ri)")
  case None
  then show ?thesis by (auto simp: no_gap_def split: sum.split)
next
  case (Some row)
  from rebuild_row [OF r assms(2) Some] show ?thesis
  proof
    assume kept: "(\<exists>e. res = Inl e) \<and> rebuildEnd (riFaults ri) = Table_kept \<and> ledger st (refresh_key ri) = Some row"
    have "no_gap js (refresh_key ri) (st\<lparr>ledger := db\<rparr>)"
      by (rule no_gap_fewer_rows [OF assms(1)]) (use kept Some in simp)
    with kept show ?thesis by auto
  next
    assume rebuilt: "(\<exists>b. res = Inr b) \<and> probed js ri = Some (row_bound row)"
    with assms(3) have "covered js [] (riReached ri) (row_bound row)" by (simp add: probe_sound_def covered_def)
    with rebuilt Some show ?thesis by (auto simp: no_gap_def)
  qed
qed

lemma refresh_no_gap:
  assumes "no_gap js (refresh_key ri) st" and "boundary_kept js ri" and "probe_sound js ri"
  shows "no_gap js (refresh_key ri) (refresh_source js decode ri st)"
proof -
  let ?ctx = "riContext ri" and ?lin = "riLineage ri" and ?target = "riTarget ri" and ?fl = "riFaults ri"
  have key: "ledger_key (ctxEnvironment ?ctx) ?lin = refresh_key ri" by (simp add: refresh_key_def)
  show ?thesis
  proof (cases "planSourceRefresh js decode (ledger st) ?fl ?ctx ?lin ?target (riColumns ri) (riReseed ri)")
    case (Inl e)
    with assms(1) show ?thesis by (simp add: refresh_source_def Let_def)
  next
    case plan: (Inr plan)
    obtain db sent res where a: "applyIncrementalStep ?fl ?ctx ?lin plan ?target (ledger st) = (db, sent, res)"
      by (metis prod_cases3)
    consider e where "res = Inl e" | "res = Inr NotApplied" | c where "res = Inr (Unchanged c)" | c where "res = Inr (DeltaApplied c)"
      by (metis outcome.exhaust sum.exhaust)
    then show ?thesis
    proof cases
      case 1
      with apply_in_place [OF a] plan a assms(1) show ?thesis by (simp add: refresh_source_def Let_def)
    next
      case 2
      have db: "db = ledger st" using apply_in_place [OF a] 2 by simp
      obtain db' r where r: "rebuild_source js ?fl ?ctx ?lin ?target (ledger st) = (db', r)" by fastforce
      from no_gap_rebuild [OF assms r] plan a 2 db r show ?thesis
        by (cases r) (simp_all add: refresh_source_def Let_def key split: if_splits)
    next
      case 3
      with apply_in_place [OF a] plan a assms(1) show ?thesis by (simp add: refresh_source_def Let_def)
    next
      case 4
      with apply_delta a obtain s f statements where p: "plan = Delta s f c statements"
          "db = advanceLedger ?fl ?ctx ?lin c (ledger st)" by blast
      from plan_delta_start [OF plan [unfolded p(1)]] plan_delta_covered [OF plan [unfolded p(1)]]
      have "c = f" and "ctxCallerLedger ?ctx = None \<longrightarrow> (\<exists>r. ledger st (refresh_key ri) = Some r \<and> s = row_bound r)"
        by (auto simp: key)
      with no_gap_delta [OF assms(1) key [symmetric]] plan a 4 p show ?thesis by (simp add: refresh_source_def Let_def key)
    qed
  qed
qed

lemma run_history_no_gap:
  assumes "\<forall>ri. Refresh ri \<in> set events \<longrightarrow> refresh_key ri = key \<longrightarrow> boundary_kept js ri \<and> probe_sound js ri"
  shows "no_gap js key (run_history js decode events)"
proof -
  have "no_gap js key (fold (ledger_step js decode) events st)" if "no_gap js key st" for st
    using assms that
  proof (induction events arbitrary: st)
    case (Cons e events)
    have "no_gap js key (ledger_step js decode e st)"
    proof (cases e)
      case (Refresh ri)
      then show ?thesis
        using Cons.prems refresh_no_gap [of js ri st decode] no_gap_other [of js key st ri decode]
        by (cases "refresh_key ri = key") auto
    next
      case (PackageDeleted env pkg)
      have "no_gap js key (st\<lparr>ledger := deleteByPackage env pkg (ledger st)\<rparr>)"
        by (rule no_gap_fewer_rows [OF Cons.prems(2)]) (simp add: deleteByPackage_def split: option.splits if_splits)
      with PackageDeleted show ?thesis by simp
    next
      case (EnvironmentDeleted env)
      have "no_gap js key (st\<lparr>ledger := deleteByEnvironmentId env (ledger st)\<rparr>)"
        by (rule no_gap_fewer_rows [OF Cons.prems(2)]) (simp add: deleteByEnvironmentId_def split: if_splits)
      with EnvironmentDeleted show ?thesis by simp
    qed
    with Cons show ?case by simp
  qed simp
  moreover have "no_gap js key fresh_history" by (simp add: no_gap_def fresh_history_def)
  ultimately show ?thesis by (simp add: run_history_def)
qed


text \<open>A rebuild on the first of the month, a delta on the second whose boundary is lost, another on the third.\<close>

definition demo_warehouse :: SqlRunner where
  "demo_warehouse sql = Inr [Some [(''column_name'', CellString ''day''), (''watermark_max'', CellString ''2024-01-31'')],
     Some [(''column_name'', CellString ''n'')]]"

definition demo_day :: "string \<Rightarrow> WatermarkBound" where
  "demo_day d = \<lparr>malloyType = ''date'', boundValue = d\<rparr>"

definition demo_refresh :: "string \<Rightarrow> string \<Rightarrow> bool \<Rightarrow> refresh_input" where
  "demo_refresh now reached lost =
     \<lparr>riContext = \<lparr>ctxEnvironment = ''e'', ctxPackage = ''p'', ctxMaterialization = ''m'', ctxForce = False, ctxNow = now,
        ctxCallerLedger = None\<rparr>,
      riLineage = demo_lineage,
      riTarget = warehouseDeltaTarget demo_js ''postgres'' demo_warehouse (quoteTablePath ''t'' ''postgres'') demo_lineage ''SELECT 1'',
      riColumns = [''n'', ''day''], riReseed = False,
      riFaults = \<lparr>getFails = False, upsertFails = lost, deleteFails = False, scriptFails = (\<lambda>_. None), rebuildEnd = Rebuilt,
        clock = now\<rparr>, riReached = demo_day reached\<rparr>"

definition demo_events :: "ledger_event list" where
  "demo_events = [Refresh (demo_refresh ''2024-02-01T00:00:00.000Z'' ''2024-02-01'' False), Refresh (demo_refresh ''2024-02-02T00:00:00.000Z'' ''2024-02-02'' True),
     Refresh (demo_refresh ''2024-02-03T00:00:00.000Z'' ''2024-02-03'' False)]"

definition demo_key :: ledger_key where "demo_key = (''e'', ''pg'', [], ''t'')"

lemma demo_history:
  "map_option row_bound (ledger (run_history demo_js demo_decode demo_events) demo_key) = Some (demo_day ''2024-02-03'')
   \<and> base (run_history demo_js demo_decode demo_events) demo_key = Some (demo_day ''2024-02-01'')
   \<and> applied (run_history demo_js demo_decode demo_events) demo_key
     = [(demo_day ''2024-02-01'', demo_day ''2024-02-02''), (demo_day ''2024-02-01'', demo_day ''2024-02-03'')]"
  by code_simp


text \<open>
  A second rebuild, by a host whose clock is a day behind, reaches the second of the month; the boundary of the
  third can neither be cleared nor overwritten. The ledger is a day ahead of the table, and the next delta starts there.
\<close>

definition demo_lost_clear :: "ledger_event list" where
  "demo_lost_clear = [Refresh (demo_refresh ''2024-02-03T00:00:00.000Z'' ''2024-02-03'' False),
     Refresh ((demo_refresh ''2024-02-02T00:00:00.000Z'' ''2024-02-02'' True)
       \<lparr>riReseed := True, riFaults := (riFaults (demo_refresh [] [] True))\<lparr>deleteFails := True\<rparr>\<rparr>)]"

lemma lost_clear_leaves_gap:
  "map_option row_bound (ledger (run_history demo_js demo_decode demo_lost_clear) demo_key) = Some (demo_day ''2024-02-03'')
   \<and> base (run_history demo_js demo_decode demo_lost_clear) demo_key = Some (demo_day ''2024-02-02'')
   \<and> applied (run_history demo_js demo_decode demo_lost_clear) demo_key = []
   \<and> in_range demo_js (demo_day ''2024-02-02'') (demo_day ''2024-02-03'') (demo_day ''2024-02-02'')"
proof (intro conjI)
  show "in_range demo_js (demo_day ''2024-02-02'') (demo_day ''2024-02-03'') (demo_day ''2024-02-02'')"
    by (simp add: in_range_def bound_le_text demo_day_def)
qed code_simp+

text \<open>
  A delta whose script fails changes nothing that is recorded: the error reaches the caller, the
  boundary stays where it was, and if the script opened a transaction the last thing sent is its
  rollback, so a pooled connection is not left inside it.
\<close>

theorem failed_delta_rolls_back:
  assumes "applyIncrementalStep fl ctx lin (Delta s f c statements) target db = (db', sent, Inl err)"
  shows "db' = db \<and> hd sent = deltaScript statements \<and> (\<exists>e. err = ScriptFailed e \<and> scriptFails fl (hd sent) = Some e)
    \<and> (length statements > 1 \<longrightarrow> last sent = transaction_rollback (dialectOf target))"
  using assms by (auto simp: applyIncrementalStep_def applyDeltaScript_def split: option.splits if_splits prod.splits)

lemma failed_delta_rolls_back_witness:
  "\<exists>sent. last sent = ''ROLLBACK'' \<and> hd sent = deltaScript [''BEGIN'', ''COMMIT'']"
proof -
  let ?ri = "demo_refresh ''2024-02-02T00:00:00.000Z'' ''2024-02-02'' False"
  let ?fl = "(riFaults ?ri)\<lparr>scriptFails := \<lambda>_. Some ''deadlock''\<rparr>"
  let ?sent = "[deltaScript [''BEGIN'', ''COMMIT''], ''ROLLBACK'']"
  have "applyIncrementalStep ?fl (riContext ?ri) demo_lineage
      (Delta (demo_day ''a'') (demo_day ''b'') (demo_day ''b'') [''BEGIN'', ''COMMIT'']) (riTarget ?ri) Map.empty
    = (Map.empty, ?sent, Inl (ScriptFailed ''deadlock''))"
    by (simp add: applyIncrementalStep_def applyDeltaScript_def transaction_rollback_def demo_refresh_def warehouseDeltaTarget_def)
  from failed_delta_rolls_back [OF this] show ?thesis
    by (intro exI [of _ ?sent]) simp
qed

subsection \<open>The ledger as a store of boundaries\<close>

text \<open>What a refresh relies on (\<open>IncrementalLedgerStore\<close>): one current boundary per table.\<close>

locale boundary_store =
  fixes get :: "'db \<Rightarrow> 'k \<Rightarrow> 'b option" and put :: "'k \<Rightarrow> 'b \<Rightarrow> 'db \<Rightarrow> 'db" and remove :: "'k \<Rightarrow> 'db \<Rightarrow> 'db"
  assumes get_put: "get (put k b db) k' = (if k' = k then Some b else get db k')"
    and get_remove: "get (remove k db) k' = (if k' = k then None else get db k')"
begin

lemma put_again: "get (put k b (put k b db)) = get (put k b db)"
  by (rule ext) (simp add: get_put)

lemma put_replaces: "get (put k b (put k b' db)) = get (put k b db)"
  by (rule ext) (simp add: get_put)

lemma put_other: "k' \<noteq> k \<Longrightarrow> get (put k b db) k' = get db k'"
  by (simp add: get_put)

lemma remove_forgets: "get (remove k (put k b db)) = get (remove k db)"
  by (rule ext) (simp add: get_put get_remove)

end

text \<open>The row of a boundary, and the boundary of a row: everything but who wrote it and when.\<close>

definition row_content :: "ledger_row \<Rightarrow> string \<times> string \<times> string \<times> string \<times> string list \<times> IncrementalStrategy" where
  "row_content r = (rowSource r, rowValue r, rowType r, rowWatermark r, rowMergeKeys r, rowStrategy r)"

definition content_row ::
  "string \<Rightarrow> string \<Rightarrow> string \<times> string \<times> string \<times> string \<times> string list \<times> IncrementalStrategy \<Rightarrow> ledger_row" where
  "content_row pkg writer content = (case content of (src, v, t, w, ks, strat) \<Rightarrow>
     \<lparr>rowPackage = pkg, rowSource = src, rowValue = v, rowType = t, rowWatermark = w, rowMergeKeys = ks,
      rowStrategy = strat, rowAdvancedBy = writer, rowAdvancedAt = [], rowCreatedAt = []\<rparr>)"

interpretation ledger_store: boundary_store
  "\<lambda>db key. map_option row_content (db key)"
  "\<lambda>key content. ledger_upsert clk key (content_row pkg writer content)"
  deleteEntry
  for clk pkg writer
  by unfold_locales (auto simp: ledger_upsert_def deleteEntry_def row_content_def content_row_def split: prod.splits)

definition lineage_content :: "IncrementalLineage \<Rightarrow> WatermarkBound
    \<Rightarrow> string \<times> string \<times> string \<times> string \<times> string list \<times> IncrementalStrategy" where
  "lineage_content lin b = (linSource lin, boundValue b, malloyType b, linWatermark lin, linMergeKeys lin, linStrategy lin)"

lemma advance_is_put:
  "ctxCallerLedger ctx = None \<Longrightarrow> \<not> upsertFails fl \<Longrightarrow> advanceLedger fl ctx lin b db
     = ledger_upsert (clock fl) (ledger_key (ctxEnvironment ctx) lin)
         (content_row (ctxPackage ctx) (ctxMaterialization ctx) (lineage_content lin b)) db"
  by (simp add: advanceLedger_def content_row_def lineage_content_def)

lemma ledger_get_content:
  "ledger_get db env lin = ledger_get db' env lin" if
  "map_option row_content (db (ledger_key env lin)) = map_option row_content (db' (ledger_key env lin))"
  using that unfolding ledger_get_def
  by (cases "db (ledger_key env lin)"; cases "db' (ledger_key env lin)")
    (auto simp: row_content_def mapRow_def split: prod.splits)

text \<open>
  A boundary that was advanced is the one the next refresh starts from: the entry read back belongs
  to this very lineage, so no rebuild is forced, and its value is the boundary that was covered. An
  advance that is repeated changes nothing that is read, and the boundary of no other table moves.
\<close>

theorem advanced_boundary_is_read_back:
  assumes "ctxCallerLedger ctx = None" and "\<not> upsertFails fl" and "linStorage lin \<noteq> Some []"
    and "malloyType b = linType lin"
  shows "\<exists>entry. ledger_get (advanceLedger fl ctx lin b db) (ctxEnvironment ctx) lin = Some entry
    \<and> ledgerLineageMismatch entry lin = None \<and> recorded_start entry = b
    \<and> ledger_get (advanceLedger fl ctx lin b (advanceLedger fl ctx lin b db)) (ctxEnvironment ctx) lin = Some entry
    \<and> (\<forall>env lin'. ledger_key env lin' \<noteq> ledger_key (ctxEnvironment ctx) lin \<longrightarrow>
          ledger_get (advanceLedger fl ctx lin b db) env lin' = ledger_get db env lin')"
proof -
  let ?key = "ledger_key (ctxEnvironment ctx) lin"
  let ?db = "advanceLedger fl ctx lin b db"
  note put = advance_is_put [OF assms(1,2)]
  obtain r where r: "?db ?key = Some r" "row_content r = lineage_content lin b"
    using ledger_store.get_put [of "clock fl" ?key "ctxPackage ctx" "ctxMaterialization ctx" "lineage_content lin b" db ?key]
    by (auto simp: put)
  have "ledger_get ?db (ctxEnvironment ctx) lin = Some (mapRow ?key r)" using r(1) by (simp add: ledger_get_def)
  moreover have "ledgerLineageMismatch (mapRow ?key r) lin = None \<and> recorded_start (mapRow ?key r) = b"
    using r(2) assms(3,4)
    by (cases b) (auto simp: lineage_matches mapRow_def ledger_key_def row_content_def lineage_content_def recorded_start_def
        store_text_def split: option.splits)
  moreover have "ledger_get (advanceLedger fl ctx lin b ?db) (ctxEnvironment ctx) lin = ledger_get ?db (ctxEnvironment ctx) lin"
    by (rule ledger_get_content) (simp add: put ledger_store.put_again [THEN fun_cong])
  moreover have "ledger_get ?db env lin' = ledger_get db env lin'" if "ledger_key env lin' \<noteq> ?key" for env lin'
    by (rule ledger_get_content) (simp add: put ledger_store.put_other [OF that])
  ultimately show ?thesis by auto
qed

lemma advanced_boundary_is_read_back_witness:
  "\<exists>entry. recorded_start entry = demo_day ''2024-02-02'' \<and> ledgerLineageMismatch entry demo_lineage = None"
proof -
  let ?ri = "demo_refresh ''2024-02-02T00:00:00.000Z'' ''2024-02-02'' False"
  have "ctxCallerLedger (riContext ?ri) = None" "\<not> upsertFails (riFaults ?ri)" "linStorage demo_lineage \<noteq> Some []"
    "malloyType (demo_day ''2024-02-02'') = linType demo_lineage"
    by (simp_all add: demo_refresh_def demo_lineage_def demo_day_def)
  from advanced_boundary_is_read_back [OF this, of Map.empty] show ?thesis by blast
qed

end
