(* ===== verification/Materialization.thy ===== *)
theory Materialization
  imports Prelude
begin

text \<open>
  The life of a materialization: its table and repository
  (\<open>storage/duckdb/MaterializationRepository.ts\<close>) and the run handling of
  \<open>service/materialization_service.ts\<close> (create, transition, stop, delete, commit, background run).

  The table is a list of rows in insertion order. DuckDB enforces the primary key and the unique
  index on \<open>active_key\<close> (\<open>NULL\<close>s are not compared): a statement that would break one fails and
  changes nothing. JSON columns hold the value they encode; times are milliseconds; the id of a
  new row is an argument. What a build does to its tables is not modelled: a run is the sequence
  of database statements it issues, and it may fail at any point before it has committed.
\<close>

subsection \<open>Rows\<close>

datatype MaterializationStatus =
  PENDING | MANIFEST_ROWS_READY | MANIFEST_FILE_READY | FAILED | CANCELLED

datatype Trigger = ON_DEMAND | SCHEDULER
datatype MaterializationMode = AutoRun | Orchestrated

record RunMetadata =
  md_forceRefresh :: bool
  md_reseed :: "bool option"
  md_sourceNames :: "string list option"
  md_mode :: MaterializationMode
  md_trigger :: Trigger
  md_counts :: "(nat \<times> nat \<times> int) option"

record 'm Row =
  row_id :: string
  environmentId :: string
  packageName :: string
  status :: MaterializationStatus
  active_key :: "string option"
  metadata :: "RunMetadata option"
  manifest :: "'m option"
  startedAt :: "int option"
  completedAt :: "int option"
  err :: "string option"
  createdAt :: int
  updatedAt :: int

record 'm Update =
  u_status :: "MaterializationStatus option"
  u_startedAt :: "int option"
  u_completedAt :: "int option"
  u_error :: "string option option"
  u_metadata :: "RunMetadata option option"
  u_manifest :: "'m option option"

definition no_update :: "'m Update" where
  "no_update = \<lparr>u_status = None, u_startedAt = None, u_completedAt = None, u_error = None,
     u_metadata = None, u_manifest = None\<rparr>"

datatype DbError = ActiveKeyTaken | IdTaken | NotFoundAfterUpdate string

definition TERMINAL_STATUSES :: "MaterializationStatus list" where
  "TERMINAL_STATUSES = [MANIFEST_FILE_READY, FAILED, CANCELLED]"

definition ACTIVE_STATUSES :: "MaterializationStatus list" where
  "ACTIVE_STATUSES = [PENDING, MANIFEST_ROWS_READY]"

definition activeKeyFor :: "string \<Rightarrow> string \<Rightarrow> string" where
  "activeKeyFor env pkg = env @ CHR ''|'' # pkg"

subsection \<open>The repository\<close>

definition getById :: "'m Row list \<Rightarrow> string \<Rightarrow> 'm Row option" where
  "getById db i = List.find (\<lambda>r. row_id r = i) db"

definition getActive :: "'m Row list \<Rightarrow> string \<Rightarrow> string \<Rightarrow> 'm Row option" where
  "getActive db env pkg = List.find (\<lambda>r. environmentId r = env \<and> packageName r = pkg
     \<and> status r \<in> set ACTIVE_STATUSES) db"

definition package_rows :: "'m Row list \<Rightarrow> string \<Rightarrow> string \<Rightarrow> 'm Row list" where
  "package_rows db env pkg = filter (\<lambda>r. environmentId r = env \<and> packageName r = pkg) db"

text \<open>Newest first; rows of one instant in any order, here as they were inserted.\<close>

definition list_rows ::
  "'m Row list \<Rightarrow> string \<Rightarrow> string \<Rightarrow> nat option \<Rightarrow> nat option \<Rightarrow> 'm Row list" where
  "list_rows db env pkg limit offset =
     (let rs = sort_key (\<lambda>r. - createdAt r) (package_rows db env pkg);
          rs' = (case offset of None \<Rightarrow> rs | Some k \<Rightarrow> drop k rs)
      in case limit of None \<Rightarrow> rs' | Some k \<Rightarrow> take k rs')"

definition is_scheduled :: "'m Row \<Rightarrow> bool" where
  "is_scheduled r = (case metadata r of None \<Rightarrow> False | Some m \<Rightarrow> md_trigger m = SCHEDULER)"

definition getLatestScheduledFireAt :: "'m Row list \<Rightarrow> string \<Rightarrow> string \<Rightarrow> int option" where
  "getLatestScheduledFireAt db env pkg =
     (case filter is_scheduled (list_rows db env pkg None None) of
        [] \<Rightarrow> None | r # _ \<Rightarrow> Some (createdAt r))"

definition key_free :: "'m Row list \<Rightarrow> string \<Rightarrow> string option \<Rightarrow> bool" where
  "key_free db i k = (k = None \<or> list_all (\<lambda>r. row_id r = i \<or> active_key r \<noteq> k) db)"

definition create ::
  "string \<Rightarrow> int \<Rightarrow> string \<Rightarrow> string \<Rightarrow> MaterializationStatus \<Rightarrow> RunMetadata option \<Rightarrow>
   'm Row list \<Rightarrow> DbError + ('m Row \<times> 'm Row list)" where
  "create newId now env pkg st md db =
     (let key = (if st \<in> set TERMINAL_STATUSES then None else Some (activeKeyFor env pkg));
          r = \<lparr>row_id = newId, environmentId = env, packageName = pkg, status = st,
               active_key = key, metadata = md, manifest = None, startedAt = None,
               completedAt = None, err = None, createdAt = now, updatedAt = now\<rparr>
      in if list_ex (\<lambda>x. row_id x = newId) db then Inl IdTaken
         else if \<not> key_free db newId key then Inl ActiveKeyTaken
         else Inr (r, db @ [r]))"

definition apply_update :: "int \<Rightarrow> 'm Update \<Rightarrow> 'm Row \<Rightarrow> 'm Row" where
  "apply_update now u r =
     (let r1 = (case u_status u of None \<Rightarrow> r
           | Some s \<Rightarrow> r\<lparr>status := s, active_key :=
               (if s \<in> set TERMINAL_STATUSES then None
                else Some (activeKeyFor (environmentId r) (packageName r)))\<rparr>);
          r2 = (case u_startedAt u of None \<Rightarrow> r1 | Some t \<Rightarrow> r1\<lparr>startedAt := Some t\<rparr>);
          r3 = (case u_completedAt u of None \<Rightarrow> r2 | Some t \<Rightarrow> r2\<lparr>completedAt := Some t\<rparr>);
          r4 = (case u_error u of None \<Rightarrow> r3 | Some e \<Rightarrow> r3\<lparr>err := e\<rparr>);
          r5 = (case u_metadata u of None \<Rightarrow> r4 | Some m \<Rightarrow> r4\<lparr>metadata := m\<rparr>);
          r6 = (case u_manifest u of None \<Rightarrow> r5 | Some m \<Rightarrow> r5\<lparr>manifest := m\<rparr>)
      in r6\<lparr>updatedAt := now\<rparr>)"

definition update ::
  "int \<Rightarrow> string \<Rightarrow> 'm Update \<Rightarrow> 'm Row list \<Rightarrow> DbError + ('m Row \<times> 'm Row list)" where
  "update now i u db =
     (case getById db i of
        None \<Rightarrow> Inl (NotFoundAfterUpdate i)
      | Some r \<Rightarrow>
          (let r' = apply_update now u r in
           if \<not> key_free db i (active_key r') then Inl ActiveKeyTaken
           else Inr (r', map (\<lambda>x. if row_id x = i then r' else x) db)))"

definition deleteById :: "string \<Rightarrow> 'm Row list \<Rightarrow> 'm Row list" where
  "deleteById i db = filter (\<lambda>r. row_id r \<noteq> i) db"

definition deleteByEnvironmentId :: "string \<Rightarrow> 'm Row list \<Rightarrow> 'm Row list" where
  "deleteByEnvironmentId env db = filter (\<lambda>r. environmentId r \<noteq> env) db"

definition deleteByPackage :: "string \<Rightarrow> string \<Rightarrow> 'm Row list \<Rightarrow> 'm Row list" where
  "deleteByPackage env pkg db = filter (\<lambda>r. \<not> (environmentId r = env \<and> packageName r = pkg)) db"

text \<open>What the table always satisfies.\<close>

definition key_of :: "'m Row \<Rightarrow> string option" where
  "key_of r = (if status r \<in> set TERMINAL_STATUSES then None
     else Some (activeKeyFor (environmentId r) (packageName r)))"

definition db_inv :: "'m Row list \<Rightarrow> bool" where
  "db_inv db \<longleftrightarrow> distinct (map row_id db) \<and> (\<forall>r \<in> set db. active_key r = key_of r)
     \<and> (\<forall>r \<in> set db. \<forall>x \<in> set db. active_key r \<noteq> None \<longrightarrow> active_key r = active_key x \<longrightarrow> r = x)"

lemma apply_update_sel [simp]:
  "row_id (apply_update now u r) = row_id r"
  "environmentId (apply_update now u r) = environmentId r"
  "packageName (apply_update now u r) = packageName r"
  "status (apply_update now u r) = (case u_status u of None \<Rightarrow> status r | Some s \<Rightarrow> s)"
  "createdAt (apply_update now u r) = createdAt r"
  "metadata (apply_update now u r) = (case u_metadata u of None \<Rightarrow> metadata r | Some m \<Rightarrow> m)"
  by (simp_all add: apply_update_def Let_def split: option.split)

lemma apply_update_key:
  "active_key r = key_of r \<Longrightarrow> active_key (apply_update now u r) = key_of (apply_update now u r)"
  by (simp add: apply_update_def Let_def key_of_def split: option.split)

lemma getById_Some:
  "getById db i = Some r \<Longrightarrow> r \<in> set db \<and> row_id r = i"
  by (auto simp: getById_def find_Some_iff)

lemma getById_None: "getById db i = None \<longleftrightarrow> i \<notin> row_id ` set db"
  by (auto simp: getById_def find_None_iff)

lemma getById_inv: "distinct (map row_id db) \<Longrightarrow> r \<in> set db \<Longrightarrow> getById db (row_id r) = Some r"
  by (induction db) (auto simp: getById_def)

lemma key_free_iff:
  "key_free db i (Some k) \<longleftrightarrow> (\<forall>r \<in> set db. active_key r = Some k \<longrightarrow> row_id r = i)"
  by (auto simp: key_free_def list_all_iff)

lemma create_inv:
  assumes inv: "db_inv db" and c: "create newId now env pkg st md db = Inr (r, db')"
  shows "db_inv db'"
proof -
  have db': "db' = db @ [r]" "row_id r = newId" "active_key r = key_of r"
    and fresh: "\<forall>x \<in> set db. row_id x \<noteq> newId" and free: "key_free db newId (active_key r)"
    using c by (auto simp: create_def Let_def key_of_def list_ex_iff split: if_splits)
  have "\<forall>x \<in> set db. active_key r \<noteq> None \<longrightarrow> active_key x \<noteq> active_key r"
    using free fresh by (auto simp: key_free_def list_all_iff)
  with inv db' fresh show ?thesis by (auto simp: db_inv_def)
qed

lemma update_row:
  assumes "update now i u db = Inr (r', db')"
  obtains r where "getById db i = Some r" "r' = apply_update now u r"
    "key_free db i (active_key r')" "db' = map (\<lambda>x. if row_id x = i then r' else x) db"
  using assms by (auto simp: update_def Let_def split: option.splits if_splits)

lemma update_inv:
  assumes inv: "db_inv db" and u: "update now i u db = Inr (r', db')"
  shows "db_inv db'"
  using u
proof (rule update_row)
  fix r
  assume r: "getById db i = Some r" "r' = apply_update now u r" "key_free db i (active_key r')"
    and db': "db' = map (\<lambda>x. if row_id x = i then r' else x) db"
  have rid: "row_id r' = i" "r \<in> set db" using r getById_Some by auto
  have key: "active_key r' = key_of r'"
    using apply_update_key inv rid(2) r(2) by (auto simp: db_inv_def)
  have ids: "map row_id db' = map row_id db" unfolding db' using rid by auto
  have el: "x \<in> set db' \<Longrightarrow> x = r' \<or> (x \<in> set db \<and> row_id x \<noteq> i)" for x
    unfolding db' by (auto split: if_splits)
  have "active_key r' \<noteq> None \<Longrightarrow> x \<in> set db \<Longrightarrow> row_id x \<noteq> i \<Longrightarrow> active_key x \<noteq> active_key r'" for x
    using r(3) by (auto simp: key_free_def list_all_iff)
  with el inv ids key show "db_inv db'"
    unfolding db_inv_def by (metis (no_types, lifting))
qed

lemma delete_inv: "db_inv db \<Longrightarrow> db_inv (filter p db)"
  by (auto simp: db_inv_def distinct_map_filter)

text \<open>Names of packages hold no bar, so an active key belongs to one package only.\<close>

lemma activeKeyFor_inj:
  assumes "activeKeyFor e p = activeKeyFor e' p'" and "CHR ''|'' \<notin> set p" and "CHR ''|'' \<notin> set p'"
  shows "e = e' \<and> p = p'"
proof -
  have "rev p @ CHR ''|'' # rev e = rev p' @ CHR ''|'' # rev e'"
    using arg_cong [OF assms(1), of rev] by (simp add: activeKeyFor_def)
  then have "split_on CHR ''|'' (rev p @ CHR ''|'' # rev e) = split_on CHR ''|'' (rev p' @ CHR ''|'' # rev e')"
    by simp
  with assms(2,3) have "rev p = rev p'" by (simp add: split_on_append_sep)
  with assms(1) show ?thesis by (simp add: activeKeyFor_def)
qed

subsection \<open>The service\<close>

definition VALID_TRANSITIONS :: "MaterializationStatus \<Rightarrow> MaterializationStatus list" where
  "VALID_TRANSITIONS s =
     (case s of
        PENDING \<Rightarrow> [MANIFEST_ROWS_READY, FAILED, CANCELLED]
      | MANIFEST_ROWS_READY \<Rightarrow> [MANIFEST_FILE_READY, FAILED, CANCELLED]
      | MANIFEST_FILE_READY \<Rightarrow> []
      | FAILED \<Rightarrow> []
      | CANCELLED \<Rightarrow> [])"

datatype ServiceError =
    NotFound string
  | NotFoundForPackage string string
  | InvalidTransition MaterializationStatus MaterializationStatus
  | CannotStop string MaterializationStatus
  | CannotDelete string MaterializationStatus
  | ActiveConflict string "string option"
  | BadInstructions string
  | Database DbError

fun status_text :: "MaterializationStatus \<Rightarrow> string" where
  "status_text PENDING = ''PENDING''"
| "status_text MANIFEST_ROWS_READY = ''MANIFEST_ROWS_READY''"
| "status_text MANIFEST_FILE_READY = ''MANIFEST_FILE_READY''"
| "status_text FAILED = ''FAILED''"
| "status_text CANCELLED = ''CANCELLED''"

text \<open>The message of an error of \<open>transition\<close>; \<open>db_text\<close> is the driver's for a constraint.\<close>

definition error_text :: "string \<Rightarrow> ServiceError \<Rightarrow> string" where
  "error_text db_text e =
     (case e of
        NotFound i \<Rightarrow> ''Materialization '' @ i @ '' not found''
      | InvalidTransition a b \<Rightarrow> ''Cannot transition from '' @ status_text a @ '' to '' @ status_text b
      | Database (NotFoundAfterUpdate i) \<Rightarrow> ''Materialization '' @ i @ '' not found after update''
      | _ \<Rightarrow> db_text)"

text \<open>A read, the check and one update, which nothing else writing the row comes between.\<close>

definition transition ::
  "int \<Rightarrow> string \<Rightarrow> MaterializationStatus \<Rightarrow> 'm Update \<Rightarrow> 'm Row list \<Rightarrow>
   ServiceError + ('m Row \<times> 'm Row list)" where
  "transition now i next_status extra db =
     (case getById db i of
        None \<Rightarrow> Inl (NotFound i)
      | Some current \<Rightarrow>
          if next_status \<notin> set (VALID_TRANSITIONS (status current))
          then Inl (InvalidTransition (status current) next_status)
          else (case update now i (extra\<lparr>u_status := Some next_status\<rparr>) db of
              Inl e \<Rightarrow> Inl (Database e)
            | Inr r \<Rightarrow> Inr r))"

definition getMaterialization ::
  "'m Row list \<Rightarrow> string \<Rightarrow> string \<Rightarrow> string \<Rightarrow> ServiceError + 'm Row" where
  "getMaterialization db env pkg i =
     (case getById db i of
        None \<Rightarrow> Inl (NotFoundForPackage i pkg)
      | Some m \<Rightarrow>
          if environmentId m \<noteq> env \<or> packageName m \<noteq> pkg then Inl (NotFoundForPackage i pkg)
          else Inr m)"

text \<open>
  A run in this process: its abort flag, and how far it has got. \<open>runs\<close> is
  \<open>runningAbortControllers\<close> with the progress of each run's own chain of statements.
\<close>

datatype Phase = Building | Committing | Committed

record Run =
  aborted :: bool
  phase :: Phase

record 'm Service =
  db :: "'m Row list"
  runs :: "string \<Rightarrow> Run option"

text \<open>
  \<open>createMaterialization\<close>: the check of the instructions is its outcome, and \<open>active\<close> is what the
  read of the active row saw, which may be out of date when the insert runs.
\<close>

definition run_metadata ::
  "bool \<Rightarrow> bool \<Rightarrow> string list option \<Rightarrow> bool \<Rightarrow> Trigger \<Rightarrow> RunMetadata" where
  "run_metadata forceRefresh reseed sourceNames orchestrated trigger =
     \<lparr>md_forceRefresh = forceRefresh, md_reseed = Some reseed, md_sourceNames = sourceNames,
      md_mode = (if orchestrated then Orchestrated else AutoRun), md_trigger = trigger,
      md_counts = None\<rparr>"

definition createMaterialization ::
  "string \<Rightarrow> int \<Rightarrow> string \<Rightarrow> string \<Rightarrow> RunMetadata \<Rightarrow> string option \<Rightarrow> 'm Row option \<Rightarrow>
   'm Service \<Rightarrow> (ServiceError + 'm Row) \<times> 'm Service" where
  "createMaterialization newId now env pkg md invalid active s =
     (case invalid of
        Some e \<Rightarrow> (Inl (BadInstructions e), s)
      | None \<Rightarrow> (case active of
          Some a \<Rightarrow> (Inl (ActiveConflict pkg (Some (row_id a))), s)
        | None \<Rightarrow> (case create newId now env pkg PENDING (Some md) (db s) of
            Inl ActiveKeyTaken \<Rightarrow>
              (Inl (ActiveConflict pkg (map_option row_id (getActive (db s) env pkg))), s)
          | Inl e \<Rightarrow> (Inl (Database e), s)
          | Inr (r, db') \<Rightarrow>
              (Inr r, s\<lparr>db := db', runs := (runs s)(newId \<mapsto> \<lparr>aborted = False, phase = Building\<rparr>)\<rparr>))))"

definition stopMaterialization ::
  "int \<Rightarrow> string \<Rightarrow> string \<Rightarrow> string \<Rightarrow> 'm Service \<Rightarrow> (ServiceError + 'm Row) \<times> 'm Service" where
  "stopMaterialization now env pkg i s =
     (case getMaterialization (db s) env pkg i of
        Inl e \<Rightarrow> (Inl e, s)
      | Inr m \<Rightarrow>
          if status m \<notin> set [PENDING, MANIFEST_ROWS_READY] then (Inl (CannotStop i (status m)), s)
          else (case runs s i of
              Some r \<Rightarrow> (Inr m, s\<lparr>runs := (runs s)(i \<mapsto> r\<lparr>aborted := True\<rparr>)\<rparr>)
            | None \<Rightarrow>
                (case transition now i CANCELLED
                        (no_update\<lparr>u_completedAt := Some now, u_error := Some (Some ''Cancelled'')\<rparr>) (db s) of
                   Inl e \<Rightarrow> (Inl e, s)
                 | Inr (r, db') \<Rightarrow> (Inr r, s\<lparr>db := db'\<rparr>))))"

definition deleteMaterialization ::
  "string \<Rightarrow> string \<Rightarrow> string \<Rightarrow> 'm Service \<Rightarrow> (ServiceError + unit) \<times> 'm Service" where
  "deleteMaterialization env pkg i s =
     (case getMaterialization (db s) env pkg i of
        Inl e \<Rightarrow> (Inl e, s)
      | Inr m \<Rightarrow>
          if status m \<notin> set [MANIFEST_FILE_READY, FAILED, CANCELLED]
          then (Inl (CannotDelete i (status m)), s)
          else (Inr (), s\<lparr>db := deleteById i (db s)\<rparr>))"

text \<open>The run: it records its start, builds, and commits in two transitions.\<close>

definition run_started :: "int \<Rightarrow> string \<Rightarrow> 'm Service \<Rightarrow> 'm Service" where
  "run_started now i s =
     (case update now i (no_update\<lparr>u_startedAt := Some now\<rparr>) (db s) of
        Inl _ \<Rightarrow> s | Inr (_, db') \<Rightarrow> s\<lparr>db := db'\<rparr>)"

text \<open>The catch of \<open>runInBackground\<close>, and its finally.\<close>

definition run_failed :: "int \<Rightarrow> string \<Rightarrow> string \<Rightarrow> 'm Service \<Rightarrow> 'm Service" where
  "run_failed now i message s =
     (case runs s i of
        None \<Rightarrow> s
      | Some r \<Rightarrow>
          (let u = no_update\<lparr>u_status := Some (if aborted r then CANCELLED else FAILED),
                     u_completedAt := Some now,
                     u_error := Some (Some (if aborted r then ''Cancelled'' else message))\<rparr>;
               db' = (case update now i u (db s) of Inl _ \<Rightarrow> db s | Inr (_, d) \<Rightarrow> d)
           in s\<lparr>db := db', runs := (runs s)(i := None)\<rparr>))"

definition commit_rows :: "string \<Rightarrow> int \<Rightarrow> string \<Rightarrow> 'm Service \<Rightarrow> 'm Service" where
  "commit_rows db_text now i s =
     (case transition now i MANIFEST_ROWS_READY no_update (db s) of
        Inl e \<Rightarrow> run_failed now i (error_text db_text e) s
      | Inr (_, db') \<Rightarrow> s\<lparr>db := db', runs := (runs s)(i := map_option (\<lambda>r. r\<lparr>phase := Committing\<rparr>) (runs s i))\<rparr>)"

text \<open>The metadata a finished run writes over that of its creation.\<close>

definition committed_metadata :: "RunMetadata \<Rightarrow> nat \<Rightarrow> nat \<Rightarrow> int \<Rightarrow> RunMetadata" where
  "committed_metadata md built reused durationMs =
     \<lparr>md_forceRefresh = md_forceRefresh md, md_reseed = None, md_sourceNames = md_sourceNames md,
      md_mode = md_mode md, md_trigger = md_trigger md, md_counts = Some (built, reused, durationMs)\<rparr>"

definition commit_file :: "string \<Rightarrow> int \<Rightarrow> string \<Rightarrow> 'm \<Rightarrow> RunMetadata \<Rightarrow> 'm Service \<Rightarrow> 'm Service" where
  "commit_file db_text now i man md s =
     (case transition now i MANIFEST_FILE_READY
             (no_update\<lparr>u_completedAt := Some now, u_manifest := Some (Some man),
                u_metadata := Some (Some md)\<rparr>) (db s) of
        Inl e \<Rightarrow> run_failed now i (error_text db_text e) s
      | Inr (_, db') \<Rightarrow> s\<lparr>db := db', runs := (runs s)(i := map_option (\<lambda>r. r\<lparr>phase := Committed\<rparr>) (runs s i))\<rparr>)"

definition run_finished :: "string \<Rightarrow> 'm Service \<Rightarrow> 'm Service" where
  "run_finished i s = s\<lparr>runs := (runs s)(i := None)\<rparr>"

definition has_phase :: "'m Service \<Rightarrow> string \<Rightarrow> Phase \<Rightarrow> bool" where
  "has_phase s i p = (case runs s i of None \<Rightarrow> False | Some r \<Rightarrow> phase r = p)"

text \<open>
  The steps of the service: requests at any time, in any state; the run's statements in its own
  order; a failure of the run at any point before it has committed; the cascades of a deleted
  package or environment; and a restart of the process, which forgets the runs.
\<close>

inductive step :: "'m Service \<Rightarrow> 'm Service \<Rightarrow> bool" where
  request_create: "runs s newId = None \<Longrightarrow>
    step s (snd (createMaterialization newId now env pkg md invalid active s))"
| request_stop: "step s (snd (stopMaterialization now env pkg i s))"
| request_delete: "step s (snd (deleteMaterialization env pkg i s))"
| run_begins: "has_phase s i Building \<Longrightarrow> step s (run_started now i s)"
| run_commits_rows: "has_phase s i Building \<Longrightarrow> step s (commit_rows db_text now i s)"
| run_commits_file: "has_phase s i Committing \<Longrightarrow> step s (commit_file db_text now i man md s)"
| run_throws: "has_phase s i Building \<or> has_phase s i Committing \<Longrightarrow> step s (run_failed now i message s)"
| run_ends: "has_phase s i Committed \<Longrightarrow> step s (run_finished i s)"
| drop_package: "step s (s\<lparr>db := deleteByPackage env pkg (db s)\<rparr>)"
| drop_environment: "step s (s\<lparr>db := deleteByEnvironmentId env (db s)\<rparr>)"
| restart: "step s (s\<lparr>runs := (\<lambda>_. None)\<rparr>)"

inductive reach :: "'m Service \<Rightarrow> bool" where
  init: "reach \<lparr>db = [], runs = (\<lambda>_. None)\<rparr>"
| next_step: "reach s \<Longrightarrow> step s s' \<Longrightarrow> reach s'"

inductive_cases step_cases: "step s s'"

subsection \<open>Invariant\<close>

definition phase_status :: "Phase \<Rightarrow> MaterializationStatus" where
  "phase_status p = (case p of Building \<Rightarrow> PENDING | Committing \<Rightarrow> MANIFEST_ROWS_READY
     | Committed \<Rightarrow> MANIFEST_FILE_READY)"

definition phases_ok :: "'m Row list \<Rightarrow> (string \<Rightarrow> Run option) \<Rightarrow> bool" where
  "phases_ok d rn \<longleftrightarrow>
     (\<forall>i r. rn i = Some r \<longrightarrow> (\<forall>x \<in> set d. row_id x = i \<longrightarrow> status x = phase_status (phase r)))"

definition service_inv :: "'m Service \<Rightarrow> bool" where
  "service_inv s \<longleftrightarrow> db_inv (db s) \<and> phases_ok (db s) (runs s)"

text \<open>What one step may do to the rows: keep them, remove some, or change or add one row.\<close>

definition row_moves :: "'m Row list \<Rightarrow> 'm Row list \<Rightarrow> bool" where
  "row_moves d d' \<longleftrightarrow> (\<forall>r \<in> set d. \<forall>r' \<in> set d'. row_id r = row_id r' \<longrightarrow>
     status r' = status r \<or> status r' \<in> set (VALID_TRANSITIONS (status r)))"

lemma row_moves_refl: "db_inv d \<Longrightarrow> set d' \<subseteq> set d \<Longrightarrow> row_moves d d'"
  unfolding row_moves_def db_inv_def by (metis distinct_map inj_on_contraD subsetD)

lemma update_effect:
  assumes inv: "db_inv d" and u: "update now i u d = Inr (r', d')"
    and ok: "\<And>r. r \<in> set d \<Longrightarrow> row_id r = i \<Longrightarrow>
      status r' = status r \<or> status r' \<in> set (VALID_TRANSITIONS (status r))"
  shows "row_moves d d'"
  using u
proof (rule update_row)
  fix r
  assume r: "getById d i = Some r" "r' = apply_update now u r"
    and d': "d' = map (\<lambda>x. if row_id x = i then r' else x) d"
  have "row_id r' = i" using r getById_Some by fastforce
  with ok row_moves_refl [OF inv, of d] show "row_moves d d'"
    unfolding d' row_moves_def by auto
qed

lemma update_phases:
  assumes p: "phases_ok d rn" and u: "update now i u d = Inr (r', d')"
    and new: "\<And>r. rn' i = Some r \<Longrightarrow> status r' = phase_status (phase r)"
    and rest: "\<And>j. j \<noteq> i \<Longrightarrow> rn' j = rn j"
  shows "phases_ok d' rn'"
  using u
proof (rule update_row)
  fix r
  assume r: "getById d i = Some r" "r' = apply_update now u r"
    and d': "d' = map (\<lambda>x. if row_id x = i then r' else x) d"
  have "row_id r' = i" using r getById_Some by fastforce
  with p new rest show "phases_ok d' rn'"
    unfolding phases_ok_def d' by (auto split: if_splits)
qed

lemma phases_subset: "phases_ok d rn \<Longrightarrow> set d' \<subseteq> set d \<Longrightarrow> phases_ok d' rn"
  by (auto simp: phases_ok_def)

lemma phases_fewer: "phases_ok d rn \<Longrightarrow> (\<And>j r. rn' j = Some r \<Longrightarrow> \<exists>q. rn j = Some q \<and> phase q = phase r)
    \<Longrightarrow> phases_ok d rn'"
  unfolding phases_ok_def by (metis)

definition step_ok :: "'m Service \<Rightarrow> 'm Service \<Rightarrow> bool" where
  "step_ok s s' \<longleftrightarrow> service_inv s' \<and> row_moves (db s) (db s')"

lemma step_ok_same: "service_inv s \<Longrightarrow> step_ok s s"
  by (simp add: step_ok_def service_inv_def row_moves_refl)

lemma step_ok_fewer:
  assumes "service_inv s" and "db s' = filter p (db s)" and "runs s' = runs s"
  shows "step_ok s s'"
  using assms delete_inv [of "db s" p] row_moves_refl [of "db s" "db s'"]
    phases_subset [of "db s" "runs s" "db s'"]
  by (auto simp: step_ok_def service_inv_def)

lemma step_ok_update:
  assumes "service_inv s" and "update now i u (db s) = Inr (r', d')"
    and "\<And>r. r \<in> set (db s) \<Longrightarrow> row_id r = i \<Longrightarrow>
      status r' = status r \<or> status r' \<in> set (VALID_TRANSITIONS (status r))"
    and "\<And>r. rn' i = Some r \<Longrightarrow> status r' = phase_status (phase r)"
    and "\<And>j. j \<noteq> i \<Longrightarrow> rn' j = runs s j"
  shows "step_ok s (s\<lparr>db := d', runs := rn'\<rparr>)"
proof -
  have i: "db_inv (db s)" "phases_ok (db s) (runs s)" using assms(1) by (simp_all add: service_inv_def)
  have "db_inv d'" by (rule update_inv [OF i(1) assms(2)])
  moreover have "row_moves (db s) d'" using update_effect [OF i(1) assms(2)] assms(3) by blast
  moreover have "phases_ok d' rn'" using update_phases [OF i(2) assms(2)] assms(4,5) by blast
  ultimately show ?thesis by (simp add: step_ok_def service_inv_def)
qed

lemma run_failed_ok:
  assumes inv: "service_inv s" and ph: "has_phase s i Building \<or> has_phase s i Committing"
  shows "step_ok s (run_failed now i message s)"
proof -
  obtain r where r: "runs s i = Some r" "phase r \<noteq> Committed"
    using ph by (auto simp: has_phase_def split: option.splits)
  let ?u = "no_update\<lparr>u_status := Some (if aborted r then CANCELLED else FAILED),
      u_completedAt := Some now, u_error := Some (Some (if aborted r then ''Cancelled'' else message))\<rparr>"
  show ?thesis
  proof (cases "update now i ?u (db s)")
    case (Inl e)
    have "phases_ok (db s) ((runs s)(i := None))"
      using inv by (auto simp: service_inv_def phases_ok_def)
    with inv r Inl show ?thesis
      by (simp add: run_failed_def step_ok_def service_inv_def row_moves_refl Let_def)
  next
    case (Inr a)
    obtain r' d' where a: "a = (r', d')" by (cases a)
    have st: "status r' = (if aborted r then CANCELLED else FAILED)"
      using Inr a by (auto elim!: update_row)
    have live: "status x \<in> {PENDING, MANIFEST_ROWS_READY}" if "x \<in> set (db s)" "row_id x = i" for x
      using inv r that by (cases "phase r") (auto simp: service_inv_def phases_ok_def phase_status_def)
    have "status r' \<in> set (VALID_TRANSITIONS (status x))" if "x \<in> set (db s)" "row_id x = i" for x
      using live [OF that] by (auto simp: st VALID_TRANSITIONS_def)
    then have "step_ok s (s\<lparr>db := d', runs := (runs s)(i := None)\<rparr>)"
      using Inr a by (intro step_ok_update [OF inv]) auto
    with r Inr a show ?thesis by (simp add: run_failed_def Let_def)
  qed
qed

lemma transition_ok:
  assumes inv: "service_inv s" and t: "transition now i nxt extra (db s) = Inr (r', d')"
    and new: "\<And>r. rn' i = Some r \<Longrightarrow> nxt = phase_status (phase r)"
    and rest: "\<And>j. j \<noteq> i \<Longrightarrow> rn' j = runs s j"
  shows "step_ok s (s\<lparr>db := d', runs := rn'\<rparr>)"
proof -
  obtain c where c: "getById (db s) i = Some c" "nxt \<in> set (VALID_TRANSITIONS (status c))"
    and u: "update now i (extra\<lparr>u_status := Some nxt\<rparr>) (db s) = Inr (r', d')"
    using t by (auto simp: transition_def split: option.splits if_splits sum.splits)
  have st: "status r' = nxt" using u by (auto elim!: update_row)
  have "x = c" if "x \<in> set (db s)" "row_id x = i" for x
    using getById_inv [of "db s" x] inv that c by (simp add: service_inv_def db_inv_def)
  then show ?thesis using u st c new rest by (intro step_ok_update [OF inv]) auto
qed

lemma create_ok:
  assumes inv: "service_inv s" and free: "runs s newId = None"
  shows "step_ok s (snd (createMaterialization newId now env pkg md invalid active s))"
proof (cases "invalid = None \<and> active = None")
  case False
  then show ?thesis
    by (auto simp: createMaterialization_def step_ok_same [OF inv] split: option.split)
next
  case True
  show ?thesis
  proof (cases "create newId now env pkg PENDING (Some md) (db s)")
    case (Inl e)
    with True show ?thesis
      by (cases e) (simp_all add: createMaterialization_def step_ok_same [OF inv])
  next
    case (Inr a)
    obtain r d' where a: "a = (r, d')" by (cases a)
    have d': "d' = db s @ [r]" "row_id r = newId" "status r = PENDING"
      and fresh: "\<forall>x \<in> set (db s). row_id x \<noteq> newId"
      using Inr a by (auto simp: create_def Let_def list_ex_iff split: if_splits)
    let ?s = "s\<lparr>db := d', runs := (runs s)(newId \<mapsto> \<lparr>aborted = False, phase = Building\<rparr>)\<rparr>"
    have "db_inv d'" using inv Inr a create_inv by (auto simp: service_inv_def)
    moreover have "phases_ok (db ?s) (runs ?s)"
      using inv d' fresh by (auto simp: service_inv_def phases_ok_def phase_status_def)
    moreover have "row_moves (db s) d'"
      using row_moves_refl [of "db s" "db s"] inv d' fresh
      by (force simp: row_moves_def service_inv_def)
    ultimately show ?thesis
      using True Inr a by (simp add: createMaterialization_def step_ok_def service_inv_def)
  qed
qed

lemma stop_ok:
  assumes inv: "service_inv s"
  shows "step_ok s (snd (stopMaterialization now env pkg i s))"
proof (cases "\<exists>m. getMaterialization (db s) env pkg i = Inr m \<and> status m \<in> set [PENDING, MANIFEST_ROWS_READY]")
  case False
  then show ?thesis
    by (auto simp: stopMaterialization_def step_ok_same [OF inv] split: sum.split)
next
  case True
  then obtain m where m: "getMaterialization (db s) env pkg i = Inr m"
    "status m \<in> set [PENDING, MANIFEST_ROWS_READY]" by blast
  show ?thesis
  proof (cases "runs s i")
    case (Some r)
    have "phases_ok (db s) ((runs s)(i \<mapsto> r\<lparr>aborted := True\<rparr>))"
      using inv Some by (auto simp: service_inv_def phases_ok_def)
    with inv m Some show ?thesis
      by (auto simp: stopMaterialization_def step_ok_def service_inv_def row_moves_refl)
  next
    case None
    show ?thesis
    proof (cases "transition now i CANCELLED
        (no_update\<lparr>u_completedAt := Some now, u_error := Some (Some ''Cancelled'')\<rparr>) (db s)")
      case (Inl e)
      with m None show ?thesis by (auto simp: stopMaterialization_def step_ok_same [OF inv])
    next
      case (Inr a)
      obtain r' d' where a: "a = (r', d')" by (cases a)
      have "step_ok s (s\<lparr>db := d', runs := runs s\<rparr>)"
        using Inr a None by (intro transition_ok [OF inv]) auto
      with m None Inr a show ?thesis by (auto simp: stopMaterialization_def)
    qed
  qed
qed

lemma commit_ok:
  assumes inv: "service_inv s" and r: "runs s i = Some r" and ph: "phase r \<noteq> Committed"
    and new: "nxt = phase_status p"
  shows "step_ok s (case transition now i nxt extra (db s) of
      Inl e \<Rightarrow> run_failed now i (error_text db_text e) s
    | Inr (_, db') \<Rightarrow> s\<lparr>db := db', runs := (runs s)(i := map_option (\<lambda>r. r\<lparr>phase := p\<rparr>) (runs s i))\<rparr>)"
proof (cases "transition now i nxt extra (db s)")
  case (Inl e)
  then show ?thesis
    using run_failed_ok [OF inv, of i] r ph by (cases "phase r") (simp_all add: has_phase_def)
next
  case (Inr a)
  obtain r' d' where a: "a = (r', d')" by (cases a)
  with Inr r new show ?thesis by (auto intro!: transition_ok [OF inv])
qed

lemma started_ok:
  assumes inv: "service_inv s" and ph: "has_phase s i Building"
  shows "step_ok s (run_started now i s)"
proof (cases "update now i (no_update\<lparr>u_startedAt := Some now\<rparr>) (db s)")
  case (Inl e)
  then show ?thesis by (simp add: run_started_def step_ok_same [OF inv])
next
  case (Inr a)
  obtain r' d' where a: "a = (r', d')" by (cases a)
  obtain c where c: "getById (db s) i = Some c" "status r' = status c"
    using Inr a by (auto simp: no_update_def elim!: update_row)
  have uniq: "x = c" if "x \<in> set (db s)" "row_id x = i" for x
    using getById_inv [of "db s" x] inv that c by (simp add: service_inv_def db_inv_def)
  have "status c = phase_status (phase q)" if "runs s i = Some q" for q
    using inv that c getById_Some [OF c(1)] by (auto simp: service_inv_def phases_ok_def)
  then have "step_ok s (s\<lparr>db := d', runs := runs s\<rparr>)"
    using Inr a uniq c by (intro step_ok_update [OF inv]) auto
  with Inr a show ?thesis by (simp add: run_started_def)
qed

lemma step_preserves: "step s s' \<Longrightarrow> service_inv s \<Longrightarrow> step_ok s s'"
proof (induction rule: step.induct)
  case (request_delete s env pkg i)
  then show ?case
    by (auto simp: deleteMaterialization_def deleteById_def step_ok_same split: sum.split
        intro!: step_ok_fewer)
next
  case (run_commits_rows s i db_text now)
  then obtain r where r: "runs s i = Some r" "phase r = Building"
    by (auto simp: has_phase_def split: option.splits)
  show ?case
    unfolding commit_rows_def
    by (rule commit_ok [OF run_commits_rows(2) r(1)]) (simp_all add: r phase_status_def)
next
  case (run_commits_file s i db_text now man md)
  then obtain r where r: "runs s i = Some r" "phase r = Committing"
    by (auto simp: has_phase_def split: option.splits)
  show ?case
    unfolding commit_file_def
    by (rule commit_ok [OF run_commits_file(2) r(1)]) (simp_all add: r phase_status_def)
next
  case (run_ends s i)
  then have "phases_ok (db s) ((runs s)(i := None))"
    by (auto simp: service_inv_def phases_ok_def)
  with run_ends show ?case by (simp add: step_ok_def run_finished_def service_inv_def row_moves_refl)
next
  case (drop_package s env pkg)
  then show ?case by (intro step_ok_fewer) (auto simp: deleteByPackage_def)
next
  case (drop_environment s env)
  then show ?case by (intro step_ok_fewer) (auto simp: deleteByEnvironmentId_def)
next
  case (restart s)
  then show ?case by (simp add: step_ok_def service_inv_def phases_ok_def row_moves_refl)
qed (simp_all add: create_ok stop_ok started_ok run_failed_ok)

lemma reach_inv: "reach s \<Longrightarrow> service_inv s"
proof (induction rule: reach.induct)
  case init
  show ?case by (simp add: service_inv_def db_inv_def phases_ok_def)
next
  case (next_step s s')
  then show ?case using step_preserves by (auto simp: step_ok_def)
qed

subsection \<open>A store with guarded writes\<close>

text \<open>
  The service relies on its store for two things: a write of a status changes the row it names,
  and no other. Under that contract a write guarded by \<open>VALID_TRANSITIONS\<close> never leaves a
  terminal status.
\<close>

locale status_store =
  fixes status_at :: "'s \<Rightarrow> string \<Rightarrow> MaterializationStatus option"
    and put_status :: "string \<Rightarrow> MaterializationStatus \<Rightarrow> 's \<Rightarrow> 'e + 's"
  assumes put_here: "put_status i x s = Inr s' \<Longrightarrow> status_at s' i = Some x"
    and put_there: "put_status i x s = Inr s' \<Longrightarrow> j \<noteq> i \<Longrightarrow> status_at s' j = status_at s j"
begin

lemma guarded_write_keeps_terminal:
  assumes "status_at s i = Some c" and "x \<in> set (VALID_TRANSITIONS c)" and "put_status i x s = Inr s'"
    and "status_at s j = Some t" and "t \<in> set TERMINAL_STATUSES"
  shows "status_at s' j = Some t"
  using assms put_there [OF assms(3), of j]
  by (cases "j = i") (auto simp: VALID_TRANSITIONS_def TERMINAL_STATUSES_def)

end

definition status_of :: "'m Row list \<Rightarrow> string \<Rightarrow> MaterializationStatus option" where
  "status_of d i = map_option status (getById d i)"

definition write_status :: "int \<Rightarrow> 'm Update \<Rightarrow> string \<Rightarrow> MaterializationStatus \<Rightarrow> 'm Row list \<Rightarrow> DbError + 'm Row list" where
  "write_status now extra i x d = (case update now i (extra\<lparr>u_status := Some x\<rparr>) d of
     Inl e \<Rightarrow> Inl e | Inr (_, d') \<Rightarrow> Inr d')"

lemma getById_map:
  "row_id r' = i \<Longrightarrow> getById (map (\<lambda>x. if row_id x = i then r' else x) d) j
     = (if j = i then (if i \<in> row_id ` set d then Some r' else None) else getById d j)"
  by (induction d) (auto simp: getById_def)

interpretation duckdb_store: status_store status_of "write_status now extra"
proof
  fix i :: string and x j
  fix d d' :: "'a Row list"
  assume "write_status now extra i x d = Inr d'"
  then obtain r' where u: "update now i (extra\<lparr>u_status := Some x\<rparr>) d = Inr (r', d')"
    by (auto simp: write_status_def split: sum.splits)
  then obtain r where r: "getById d i = Some r" "r' = apply_update now (extra\<lparr>u_status := Some x\<rparr>) r"
    and d': "d' = map (\<lambda>x. if row_id x = i then r' else x) d" by (rule update_row)
  have i: "row_id r' = i" "i \<in> row_id ` set d" using r getById_Some [OF r(1)] by auto
  show "status_of d' i = Some x" using i r by (simp add: status_of_def d' getById_map)
  show "j \<noteq> i \<Longrightarrow> status_of d' j = status_of d j" using i by (simp add: status_of_def d' getById_map)
qed

text \<open>So a successful transition leaves every run that has ended as it was.\<close>

lemma transition_keeps_ended_runs:
  assumes t: "transition now i x extra d = Inr (r', d')"
    and j: "status_of d j = Some st" "st \<in> set TERMINAL_STATUSES"
  shows "status_of d' j = Some st"
proof -
  obtain c where c: "getById d i = Some c" "x \<in> set (VALID_TRANSITIONS (status c))"
    and u: "update now i (extra\<lparr>u_status := Some x\<rparr>) d = Inr (r', d')"
    using t by (auto simp: transition_def split: option.splits if_splits sum.splits)
  show ?thesis
    by (rule duckdb_store.guarded_write_keeps_terminal [OF _ c(2), of d i now extra d'])
       (use c u j in \<open>simp_all add: status_of_def write_status_def\<close>)
qed

subsection \<open>Properties\<close>

text \<open>
  C19: At any moment a package has at most one active materialization, in every interleaving of
  creates, runs, stops, deletes, cascades and restarts, including creates whose check of the
  active run was out of date: the unique key makes the second insert fail.
\<close>

theorem one_active_materialization:
  assumes "reach s" and "r \<in> set (db s)" and "x \<in> set (db s)"
    and "environmentId r = environmentId x" and "packageName r = packageName x"
    and "status r \<in> set ACTIVE_STATUSES" and "status x \<in> set ACTIVE_STATUSES"
  shows "r = x"
proof -
  have "active_key r = Some (activeKeyFor (environmentId x) (packageName x))"
    "active_key x = Some (activeKeyFor (environmentId x) (packageName x))"
    using reach_inv [OF assms(1)] assms(2-)
    by (auto simp: service_inv_def db_inv_def key_of_def ACTIVE_STATUSES_def TERMINAL_STATUSES_def)
  then show ?thesis
    using reach_inv [OF assms(1)] assms(2,3) unfolding service_inv_def db_inv_def
    by (metis option.distinct(1))
qed

definition demo_md :: RunMetadata where
  "demo_md = run_metadata True True None False SCHEDULER"

definition demo_s1 :: "nat Service" where
  "demo_s1 = snd (createMaterialization ''m1'' 100 ''env'' ''pkg'' demo_md None None
     \<lparr>db = [], runs = (\<lambda>_. None)\<rparr>)"

lemma demo_s1_reach: "reach demo_s1"
  unfolding demo_s1_def by (rule reach.next_step [OF reach.init step.request_create]) simp

lemma demo_s1_db:
  "db demo_s1 = [\<lparr>row_id = ''m1'', environmentId = ''env'', packageName = ''pkg'', status = PENDING,
     active_key = Some ''env|pkg'', metadata = Some demo_md, manifest = None, startedAt = None,
     completedAt = None, err = None, createdAt = 100, updatedAt = 100\<rparr>]"
  by (simp add: demo_s1_def createMaterialization_def create_def key_free_def TERMINAL_STATUSES_def
      activeKeyFor_def Let_def)

lemma one_active_materialization_witness:
  "\<exists>r. r \<in> set (db demo_s1) \<and> status r \<in> set ACTIVE_STATUSES \<and>
     (\<forall>x \<in> set (db demo_s1). status x \<in> set ACTIVE_STATUSES \<and> environmentId x = ''env''
        \<and> packageName x = ''pkg'' \<longrightarrow> r = x)"
proof -
  let ?r = "hd (db demo_s1)"
  have r: "?r \<in> set (db demo_s1)" "environmentId ?r = ''env''" "packageName ?r = ''pkg''"
    "status ?r \<in> set ACTIVE_STATUSES"
    by (simp_all add: demo_s1_db ACTIVE_STATUSES_def)
  with one_active_materialization [OF demo_s1_reach r(1)] show ?thesis by metis
qed

text \<open>
  A run's status only moves along the allowed transitions, whatever happens: a run that has
  reached its file, failed or been cancelled never changes again, although the handler of a
  failed run writes its status without checking what it overwrites.
\<close>

theorem status_moves_are_valid:
  assumes "reach s" and "step s s'" and "r \<in> set (db s)" and "r' \<in> set (db s')"
    and "row_id r = row_id r'"
  shows "status r' = status r \<or> status r' \<in> set (VALID_TRANSITIONS (status r))"
  using step_preserves [OF assms(2) reach_inv [OF assms(1)]] assms(3-)
  by (auto simp: step_ok_def row_moves_def)

definition demo_s2 :: "nat Service" where
  "demo_s2 = commit_rows [] 110 ''m1'' demo_s1"

lemma demo_phase: "has_phase demo_s1 ''m1'' Building"
  by (simp add: demo_s1_def createMaterialization_def create_def key_free_def TERMINAL_STATUSES_def
      has_phase_def Let_def)

lemma demo_s2_db:
  "db demo_s2 = map (\<lambda>r. r\<lparr>status := MANIFEST_ROWS_READY, updatedAt := 110\<rparr>) (db demo_s1)"
  by (simp add: demo_s2_def commit_rows_def transition_def getById_def demo_s1_db VALID_TRANSITIONS_def
      update_def apply_update_def no_update_def TERMINAL_STATUSES_def activeKeyFor_def key_free_def
      Let_def)

lemma status_moves_are_valid_witness:
  "status (hd (db demo_s2)) \<in> set (VALID_TRANSITIONS (status (hd (db demo_s1))))"
proof -
  have st: "step demo_s1 demo_s2" unfolding demo_s2_def by (rule step.run_commits_rows [OF demo_phase])
  have "status (hd (db demo_s2)) = status (hd (db demo_s1))
      \<or> status (hd (db demo_s2)) \<in> set (VALID_TRANSITIONS (status (hd (db demo_s1))))"
    by (rule status_moves_are_valid [OF demo_s1_reach st]) (simp_all add: demo_s2_db demo_s1_db)
  then show ?thesis by (simp add: demo_s2_db demo_s1_db)
qed

text \<open>
  An insert is refused for the active key exactly when the package itself has an active run:
  another package of the environment, or of another one, is never in the way, since package
  names hold no bar. So the conflict that a create reports always names the winning run.
\<close>

theorem create_conflict_exact:
  assumes "reach s" and "newId \<notin> row_id ` set (db s)"
    and "CHR ''|'' \<notin> set pkg" and "\<forall>r \<in> set (db s). CHR ''|'' \<notin> set (packageName r)"
  shows "create newId now env pkg PENDING md (db s) = Inl ActiveKeyTaken
     \<longleftrightarrow> getActive (db s) env pkg \<noteq> None"
proof -
  have keys: "\<forall>r \<in> set (db s). active_key r = key_of r"
    using reach_inv [OF assms(1)] by (auto simp: service_inv_def db_inv_def)
  have act: "status r \<in> set ACTIVE_STATUSES \<longleftrightarrow> status r \<notin> set TERMINAL_STATUSES" for r :: "'a Row"
    by (cases "status r") (simp_all add: ACTIVE_STATUSES_def TERMINAL_STATUSES_def)
  have "active_key r = Some (activeKeyFor env pkg) \<longleftrightarrow>
      environmentId r = env \<and> packageName r = pkg \<and> status r \<in> set ACTIVE_STATUSES"
    if "r \<in> set (db s)" for r
  proof -
    have "activeKeyFor (environmentId r) (packageName r) = activeKeyFor env pkg
        \<longleftrightarrow> environmentId r = env \<and> packageName r = pkg"
      using activeKeyFor_inj [of "environmentId r" "packageName r" env pkg] assms(3,4) that by auto
    with keys that show ?thesis by (auto simp: key_of_def act)
  qed
  moreover have "row_id r \<noteq> newId" if "r \<in> set (db s)" for r using assms(2) that by auto
  ultimately have "key_free (db s) newId (Some (activeKeyFor env pkg)) \<longleftrightarrow> getActive (db s) env pkg = None"
    by (auto simp: key_free_iff getActive_def find_None_iff)
  moreover have "\<not> list_ex (\<lambda>x. row_id x = newId) (db s)"
    using assms(2) by (auto simp: list_ex_iff)
  ultimately show ?thesis by (simp add: create_def Let_def TERMINAL_STATUSES_def)
qed

lemma create_conflict_exact_witness:
  "create ''m2'' 120 ''env'' ''pkg'' PENDING None (db demo_s1) = Inl ActiveKeyTaken
   \<and> create ''m2'' 120 ''env'' ''pkg2'' PENDING None (db demo_s1) \<noteq> Inl ActiveKeyTaken"
  using create_conflict_exact [OF demo_s1_reach, of "''m2''" "''pkg''" 120 "''env''" None]
    create_conflict_exact [OF demo_s1_reach, of "''m2''" "''pkg2''" 120 "''env''" None]
  by (simp add: demo_s1_db getActive_def ACTIVE_STATUSES_def)

text \<open>
  The latest scheduled fire is the newest creation time among the package's runs that the
  scheduler started, and none exactly when it started none; committing a run keeps its trigger.
\<close>

theorem latest_scheduled_fire:
  "getLatestScheduledFireAt d env pkg =
     (let ts = createdAt ` {r \<in> set d. environmentId r = env \<and> packageName r = pkg \<and> is_scheduled r}
      in if ts = {} then None else Some (Max ts))
   \<and> md_trigger (committed_metadata md built reused ms) = md_trigger md"
proof -
  let ?rs = "filter is_scheduled (sort_key (\<lambda>r. - createdAt r) (package_rows d env pkg))"
  let ?ts = "createdAt ` {r \<in> set d. environmentId r = env \<and> packageName r = pkg \<and> is_scheduled r}"
  have ts: "?ts = createdAt ` set ?rs" by (auto simp: package_rows_def)
  have srt: "sorted (map (\<lambda>r. - createdAt r) ?rs)" by (rule sorted_filter) simp
  show ?thesis
  proof (cases ?rs)
    case Nil
    then have "?ts = {}" unfolding ts by (simp only: set_simps image_empty)
    with Nil show ?thesis
      by (simp add: getLatestScheduledFireAt_def list_rows_def committed_metadata_def)
  next
    case (Cons r rest)
    have "Max (createdAt ` set ?rs) = createdAt r"
      using srt unfolding Cons by (intro Max_eqI) auto
    moreover have "?ts \<noteq> {}" unfolding ts Cons by simp
    ultimately show ?thesis
      using Cons ts
      by (simp add: getLatestScheduledFireAt_def list_rows_def committed_metadata_def Let_def)
  qed
qed

text \<open>
  A finished run does not record whether it was a reseed, which its creation did.
\<close>

lemma committed_run_forgets_reseed:
  "md_reseed (run_metadata f reseed names orch trig) = Some reseed
   \<and> md_reseed (committed_metadata (run_metadata f reseed names orch trig) built reused ms) = None"
  by (simp add: run_metadata_def committed_metadata_def)

end
