(* ===== verification/Scheduler.thy ===== *)
theory Scheduler
  imports Materialization
begin

text \<open>
  The standalone materialization scheduler (\<open>service/materialization_scheduler.ts\<close>) and the cron
  policy it evaluates schedules with (\<open>service/cron_evaluator.ts\<close>). The cron parser is a package:
  whether it parses an expression, and the next instant it computes, are arguments. A tick takes
  the loaded packages in sweep order, the outcome of each look-up of the last scheduled fire, and
  returns the packages it fired, in order, and the new arming state.
\<close>

subsection \<open>Cron policy\<close>

record CronParser =
  cron_parses :: "string \<Rightarrow> bool"
  cron_next :: "string \<Rightarrow> int \<Rightarrow> int option"

definition UNIX_CRON_NAMES :: "string list" where
  "UNIX_CRON_NAMES = [''JAN'', ''FEB'', ''MAR'', ''APR'', ''MAY'', ''JUN'', ''JUL'', ''AUG'', ''SEP'',
     ''OCT'', ''NOV'', ''DEC'', ''SUN'', ''MON'', ''TUE'', ''WED'', ''THU'', ''FRI'', ''SAT'']"

text \<open>\<open>split (/\s+/)\<close> of a trimmed string, and the split of a field on comma, dash and slash.\<close>

function ws_split :: "string \<Rightarrow> string list" where
  "ws_split s =
     (let w = takeWhile (\<lambda>c. \<not> js_space c) s; r = dropWhile (\<lambda>c. \<not> js_space c) s
      in if r = [] then [w] else w # ws_split (dropWhile js_space r))"
  by pat_completeness auto
termination
proof (relation "measure length", goal_cases)
  case (2 s w r)
  have "length (dropWhile js_space r) < length r"
  proof (cases r)
    case (Cons c cs)
    then have "js_space c" using 2(2) by (metis hd_dropWhile list.distinct(1) list.sel(1))
    then show ?thesis using Cons length_dropWhile_le [of js_space cs] by simp
  qed (use 2 in simp)
  moreover have "length r \<le> length s" using 2(2) by (simp add: length_dropWhile_le)
  ultimately show ?case by simp
qed simp

declare ws_split.simps [simp del]

fun split_by :: "(char \<Rightarrow> bool) \<Rightarrow> string \<Rightarrow> string list" where
  "split_by p [] = [[]]"
| "split_by p (c # s) =
     (if p c then [] # split_by p s
      else (case split_by p s of [] \<Rightarrow> [[c]] | w # ws \<Rightarrow> (c # w) # ws))"

text \<open>\<open>toUpperCase\<close> as far as a comparison with an ASCII name can tell.\<close>

definition upper_char :: "char \<Rightarrow> char" where
  "upper_char c = (if is_lower c then char_of ((of_char c :: nat) - 32) else c)"

definition hasFiveFields :: "string \<Rightarrow> bool" where
  "hasFiveFields expr \<longleftrightarrow> length (ws_split (js_trim expr)) = 5"

definition token_ok :: "string \<Rightarrow> bool" where
  "token_ok token \<longleftrightarrow> token = [] \<or> token = ''*'' \<or>
     \<not> (list_ex (\<lambda>c. is_upper c \<or> is_lower c) token \<and> map upper_char token \<notin> set UNIX_CRON_NAMES)"

definition isPlainUnixGrammar :: "string \<Rightarrow> bool" where
  "isPlainUnixGrammar expr \<longleftrightarrow>
     list_all (\<lambda>field. CHR ''#'' \<notin> set field \<and> CHR ''?'' \<notin> set field \<and>
         list_all token_ok (split_by (\<lambda>c. c \<in> set '',-/'') field))
       (ws_split (js_trim expr))"

definition isValid :: "CronParser \<Rightarrow> string \<Rightarrow> bool" where
  "isValid cron expr \<longleftrightarrow> hasFiveFields expr \<and> isPlainUnixGrammar expr \<and> cron_parses cron expr"

text \<open>\<open>None\<close> is the exception.\<close>

definition nextAfter :: "CronParser \<Rightarrow> string \<Rightarrow> int \<Rightarrow> int option" where
  "nextAfter cron expr from =
     (if \<not> hasFiveFields expr \<or> \<not> isPlainUnixGrammar expr then None else cron_next cron expr from)"

subsection \<open>Arming\<close>

record ScheduleState =
  schedule :: string
  nextFireAtMs :: int
  lastFiredAtMs :: "int option"

record LoadedPackage =
  pk_env :: string
  pk_name :: string
  pk_schedule :: "string option"
  pk_manifestLocation :: "string option"
  pk_warnings :: "string list"

definition package_key :: "LoadedPackage \<Rightarrow> string" where
  "package_key p = pk_env p @ ''::'' @ pk_name p"

definition schedulableCron :: "CronParser \<Rightarrow> LoadedPackage \<Rightarrow> string option" where
  "schedulableCron cron p =
     (case pk_schedule p of
        None \<Rightarrow> None
      | Some sched \<Rightarrow>
          if sched = [] then None
          else if (case pk_manifestLocation p of None \<Rightarrow> False | Some l \<Rightarrow> l \<noteq> []) then None
          else if length (pk_warnings p) > 0 then None
          else if \<not> isValid cron sched then None
          else Some sched)"

text \<open>The look-up of the last scheduled fire may fail (\<open>Inl\<close>).\<close>

definition recoveryAnchor :: "unit + int option \<Rightarrow> int \<Rightarrow> int" where
  "recoveryAnchor found now = (case found of Inr (Some t) \<Rightarrow> t | _ \<Rightarrow> now)"

type_synonym arming = "(string \<times> ScheduleState) list"

definition arm ::
  "CronParser \<Rightarrow> unit + int option \<Rightarrow> string \<Rightarrow> string \<Rightarrow> int \<Rightarrow> arming \<Rightarrow> (ScheduleState \<times> arming) option" where
  "arm cron found key sched now st =
     (case map_of st key of
        Some existing \<Rightarrow>
          if schedule existing = sched then Some (existing, st)
          else (case nextAfter cron sched now of
              None \<Rightarrow> None
            | Some n \<Rightarrow>
                (let armed = \<lparr>schedule = sched, nextFireAtMs = n, lastFiredAtMs = lastFiredAtMs existing\<rparr>
                 in Some (armed, AList.update key armed st)))
      | None \<Rightarrow> (case nextAfter cron sched (recoveryAnchor found now) of
            None \<Rightarrow> None
          | Some n \<Rightarrow>
              (let armed = \<lparr>schedule = sched, nextFireAtMs = n, lastFiredAtMs = None\<rparr>
               in Some (armed, AList.update key armed st))))"

subsection \<open>The sweep\<close>

type_synonym sweep = "arming \<times> string list \<times> (string \<times> string) list"

definition sweep_package ::
  "CronParser \<Rightarrow> int \<Rightarrow> (string \<Rightarrow> string \<Rightarrow> unit + int option) \<Rightarrow> int \<Rightarrow> LoadedPackage \<Rightarrow> sweep \<Rightarrow> sweep" where
  "sweep_package cron maxFires lastFire now p sw =
     (case sw of (st, seen, fired) \<Rightarrow>
        (let key = package_key p in
         case schedulableCron cron p of
           None \<Rightarrow> (AList.delete key st, seen, fired)
         | Some sched \<Rightarrow>
             (case arm cron (lastFire (pk_env p) (pk_name p)) key sched now st of
                None \<Rightarrow> (st, seen @ [key], fired)
              | Some (armed, st') \<Rightarrow>
                  if now < nextFireAtMs armed then (st', seen @ [key], fired)
                  else if int (length fired) \<ge> maxFires then (st', seen @ [key], fired)
                  else (case nextAfter cron sched now of
                      None \<Rightarrow> (st', seen @ [key], fired @ [(pk_env p, pk_name p)])
                    | Some n \<Rightarrow>
                        (AList.update key (armed\<lparr>nextFireAtMs := n, lastFiredAtMs := Some now\<rparr>) st',
                         seen @ [key], fired @ [(pk_env p, pk_name p)])))))"

definition tick ::
  "CronParser \<Rightarrow> int \<Rightarrow> (string \<Rightarrow> string \<Rightarrow> unit + int option) \<Rightarrow> int \<Rightarrow> LoadedPackage list \<Rightarrow> arming \<Rightarrow>
   (string \<times> string) list \<times> arming" where
  "tick cron maxFires lastFire now pkgs st =
     (case fold (sweep_package cron maxFires lastFire now) pkgs (st, [], []) of
        (st', seen, fired) \<Rightarrow> (fired, filter (\<lambda>(k, _). k \<in> set seen) st'))"

text \<open>How a fire ended is only metered: a conflict and an error are not retried before the next occurrence.\<close>

datatype FireOutcome = Fired | FireConflict | FireError

definition fire :: "ServiceError + 'r \<Rightarrow> FireOutcome" where
  "fire created =
     (case created of
        Inr _ \<Rightarrow> Fired
      | Inl (ActiveConflict _ _) \<Rightarrow> FireConflict
      | Inl _ \<Rightarrow> FireError)"

subsection \<open>Lemmas\<close>

text \<open>The documented behaviour of the parser: the next instant is strictly later, and exists.\<close>

definition strictly_after :: "CronParser \<Rightarrow> bool" where
  "strictly_after cron \<longleftrightarrow> (\<forall>e t n. cron_next cron e t = Some n \<longrightarrow> t < n)
     \<and> (\<forall>e t. cron_parses cron e \<longrightarrow> cron_next cron e t \<noteq> None)"

lemma schedulable_next:
  assumes "strictly_after cron" and "schedulableCron cron p = Some sched"
  obtains n where "nextAfter cron sched t = Some n" "t < n"
proof -
  have v: "isValid cron sched"
    using assms(2) by (auto simp: schedulableCron_def split: option.splits if_splits)
  then obtain n where "cron_next cron sched t = Some n"
    using assms(1) unfolding isValid_def strictly_after_def by blast
  with v assms(1) that show thesis
    unfolding isValid_def strictly_after_def nextAfter_def by auto
qed

definition settled :: "CronParser \<Rightarrow> int \<Rightarrow> int \<Rightarrow> LoadedPackage \<Rightarrow> sweep \<Rightarrow> bool" where
  "settled cron maxFires now p sw =
     (case sw of (st, seen, fired) \<Rightarrow>
        (case schedulableCron cron p of
           None \<Rightarrow> map_of st (package_key p) = None \<and> (pk_env p, pk_name p) \<notin> set fired
         | Some sched \<Rightarrow> package_key p \<in> set seen \<and>
             (case map_of st (package_key p) of
                None \<Rightarrow> False
              | Some a \<Rightarrow> schedule a = sched \<and>
                  (if (pk_env p, pk_name p) \<in> set fired
                   then now < nextFireAtMs a \<and> lastFiredAtMs a = Some now
                   else now < nextFireAtMs a \<or> maxFires \<le> int (length fired)))))"

lemma arm_schedulable:
  assumes "strictly_after cron" and "schedulableCron cron p = Some sched"
  obtains armed st' where "arm cron found key sched now st = Some (armed, st')"
    "schedule armed = sched" "map_of st' key = Some armed"
    "\<And>k. k \<noteq> key \<Longrightarrow> map_of st' k = map_of st k"
proof -
  obtain n where n: "nextAfter cron sched now = Some n" using schedulable_next [OF assms] by blast
  obtain m where m: "nextAfter cron sched (recoveryAnchor found now) = Some m"
    using schedulable_next [OF assms] by blast
  show thesis
  proof (cases "map_of st key")
    case None
    then show thesis
      by (intro that [of "\<lparr>schedule = sched, nextFireAtMs = m, lastFiredAtMs = None\<rparr>"
            "AList.update key \<lparr>schedule = sched, nextFireAtMs = m, lastFiredAtMs = None\<rparr> st"])
         (simp_all add: arm_def Let_def update_conv m)
  next
    case (Some a)
    show thesis
    proof (cases "schedule a = sched")
      case True
      then show thesis by (intro that [of a st]) (simp_all add: arm_def Some)
    next
      case False
      then show thesis
        by (intro that [of "\<lparr>schedule = sched, nextFireAtMs = n, lastFiredAtMs = lastFiredAtMs a\<rparr>"
              "AList.update key \<lparr>schedule = sched, nextFireAtMs = n, lastFiredAtMs = lastFiredAtMs a\<rparr> st"])
           (simp_all add: arm_def Let_def update_conv n Some)
    qed
  qed
qed

lemma sweep_package_effect:
  assumes cron: "strictly_after cron" and new: "(pk_env p, pk_name p) \<notin> set fired"
    and sw: "sweep_package cron maxFires lastFire now p (st, seen, fired) = (st', seen', fired')"
  shows "settled cron maxFires now p (st', seen', fired')"
    and "k \<noteq> package_key p \<Longrightarrow> map_of st' k = map_of st k"
    and "k \<noteq> package_key p \<Longrightarrow> k \<in> set seen' \<longleftrightarrow> k \<in> set seen"
    and "fired' = fired \<or> (fired' = fired @ [(pk_env p, pk_name p)] \<and> int (length fired) < maxFires)"
proof -
  have "settled cron maxFires now p (st', seen', fired')
    \<and> (k \<noteq> package_key p \<longrightarrow> map_of st' k = map_of st k)
    \<and> (k \<noteq> package_key p \<longrightarrow> (k \<in> set seen' \<longleftrightarrow> k \<in> set seen))
    \<and> (fired' = fired \<or> (fired' = fired @ [(pk_env p, pk_name p)] \<and> int (length fired) < maxFires))"
  proof (cases "schedulableCron cron p")
    case None
    with sw new show ?thesis
      by (auto simp: sweep_package_def settled_def Let_def delete_conv)
  next
    case (Some sched)
    obtain armed st1 where a: "arm cron (lastFire (pk_env p) (pk_name p)) (package_key p) sched now st = Some (armed, st1)"
      "schedule armed = sched" "map_of st1 (package_key p) = Some armed"
      "\<And>k. k \<noteq> package_key p \<Longrightarrow> map_of st1 k = map_of st k"
      using arm_schedulable [OF cron Some] by blast
    obtain n where n: "nextAfter cron sched now = Some n" "now < n"
      using schedulable_next [OF cron Some] by blast
    from sw Some a n new show ?thesis
      by (auto simp: sweep_package_def settled_def Let_def update_conv split: if_splits)
  qed
  then show "settled cron maxFires now p (st', seen', fired')"
    "k \<noteq> package_key p \<Longrightarrow> map_of st' k = map_of st k"
    "k \<noteq> package_key p \<Longrightarrow> k \<in> set seen' \<longleftrightarrow> k \<in> set seen"
    "fired' = fired \<or> (fired' = fired @ [(pk_env p, pk_name p)] \<and> int (length fired) < maxFires)"
    by blast+
qed

lemma settled_frame:
  assumes s: "settled cron maxFires now q (st, seen, fired)" and ne: "package_key q \<noteq> package_key p"
    and np: "(pk_env q, pk_name q) \<noteq> (pk_env p, pk_name p)"
    and m: "\<And>k. k \<noteq> package_key p \<Longrightarrow> map_of st' k = map_of st k"
    and se: "\<And>k. k \<noteq> package_key p \<Longrightarrow> k \<in> set seen' \<longleftrightarrow> k \<in> set seen"
    and f: "fired' = fired \<or> fired' = fired @ [(pk_env p, pk_name p)]"
  shows "settled cron maxFires now q (st', seen', fired')"
  using s m [OF ne] se [OF ne] f np
  by (auto simp: settled_def split: option.splits if_splits)

lemma package_key_pair:
  "package_key p \<noteq> package_key q \<Longrightarrow> (pk_env p, pk_name p) \<noteq> (pk_env q, pk_name q)"
  by (auto simp: package_key_def)

lemma sweep_effect:
  assumes cron: "strictly_after cron"
  shows "distinct (map package_key pkgs) \<Longrightarrow> \<forall>p \<in> set pkgs. (pk_env p, pk_name p) \<notin> set fired \<Longrightarrow>
     int (length fired) \<le> max 0 maxFires \<Longrightarrow>
     fold (sweep_package cron maxFires lastFire now) pkgs (st, seen, fired) = (st', seen', fired') \<Longrightarrow>
     (\<forall>p \<in> set pkgs. settled cron maxFires now p (st', seen', fired'))
     \<and> (\<forall>k. k \<notin> package_key ` set pkgs \<longrightarrow> map_of st' k = map_of st k \<and> (k \<in> set seen' \<longleftrightarrow> k \<in> set seen))
     \<and> int (length fired') \<le> max 0 maxFires
     \<and> (\<exists>more. fired' = fired @ more \<and> set more \<subseteq> (\<lambda>p. (pk_env p, pk_name p)) ` set pkgs)"
proof (induction pkgs arbitrary: st' seen' fired' rule: rev_induct)
  case Nil
  then show ?case by simp
next
  case (snoc p pkgs)
  obtain st1 seen1 fired1 where run: "fold (sweep_package cron maxFires lastFire now) pkgs (st, seen, fired)
      = (st1, seen1, fired1)" by (metis prod_cases3)
  have IH: "\<forall>q \<in> set pkgs. settled cron maxFires now q (st1, seen1, fired1)"
    "\<forall>k. k \<notin> package_key ` set pkgs \<longrightarrow> map_of st1 k = map_of st k \<and> (k \<in> set seen1 \<longleftrightarrow> k \<in> set seen)"
    "int (length fired1) \<le> max 0 maxFires"
    "\<exists>more. fired1 = fired @ more \<and> set more \<subseteq> (\<lambda>p. (pk_env p, pk_name p)) ` set pkgs"
    using snoc.IH [OF _ _ _ run] snoc.prems by auto
  have sw: "sweep_package cron maxFires lastFire now p (st1, seen1, fired1) = (st', seen', fired')"
    using snoc.prems(4) run by simp
  have keys: "package_key q \<noteq> package_key p" if "q \<in> set pkgs" for q
    using snoc.prems(1) that by (metis distinct_append distinct.simps(2) image_eqI map_append
        list.simps(9) set_map disjoint_iff list.set_intros(1))
  have new: "(pk_env p, pk_name p) \<notin> set fired1"
    using IH(4) snoc.prems(2) keys package_key_pair by fastforce
  note E = sweep_package_effect [OF cron new sw]
  have "settled cron maxFires now q (st', seen', fired')" if q: "q \<in> set pkgs" for q
    using settled_frame [OF _ keys [OF q] package_key_pair [OF keys [OF q]] E(2) E(3)] IH(1) q E(4) by blast
  moreover have "map_of st' k = map_of st k \<and> (k \<in> set seen' \<longleftrightarrow> k \<in> set seen)"
    if "k \<notin> package_key ` set (pkgs @ [p])" for k
    using that E(2,3) [of k] IH(2) by auto
  moreover have "int (length fired') \<le> max 0 maxFires" using E(4) IH(3) by auto
  moreover have "\<exists>more. fired' = fired @ more \<and> set more \<subseteq> (\<lambda>p. (pk_env p, pk_name p)) ` set (pkgs @ [p])"
    using E(4) IH(4) by auto
  ultimately show ?case using E(1) by auto
qed

lemma map_of_seen: "map_of (filter (\<lambda>(k, _). k \<in> S) al) x = (if x \<in> S then map_of al x else None)"
  by (induction al) auto

subsection \<open>Properties\<close>

text \<open>
  A sweep fires at most the configured number of packages, each of them loaded and
  schedulable. Afterwards a package that fired is armed strictly after now, one that did not is
  either not due or was left out because the cap was reached (and is still due for the next
  sweep), and nothing is armed but the schedulable packages.
\<close>

theorem sweep_fires_due_packages:
  assumes "strictly_after cron" and "distinct (map package_key pkgs)"
    and "tick cron maxFires lastFire now pkgs st = (fired, st')"
  shows "int (length fired) \<le> max 0 maxFires
    \<and> set fired \<subseteq> (\<lambda>p. (pk_env p, pk_name p)) ` {p \<in> set pkgs. schedulableCron cron p \<noteq> None}
    \<and> (\<forall>p \<in> set pkgs. \<forall>sched. schedulableCron cron p = Some sched \<longrightarrow>
         (\<exists>a. map_of st' (package_key p) = Some a \<and> schedule a = sched \<and>
            (if (pk_env p, pk_name p) \<in> set fired
             then now < nextFireAtMs a \<and> lastFiredAtMs a = Some now
             else now < nextFireAtMs a \<or> maxFires \<le> int (length fired))))
    \<and> (\<forall>k. map_of st' k \<noteq> None \<longrightarrow> k \<in> package_key ` {p \<in> set pkgs. schedulableCron cron p \<noteq> None})"
proof -
  obtain st1 seen1 where run: "fold (sweep_package cron maxFires lastFire now) pkgs (st, [], [])
      = (st1, seen1, fired)" and st': "st' = filter (\<lambda>(k, _). k \<in> set seen1) st1"
    using assms(3) by (auto simp: tick_def split: prod.splits)
  from sweep_effect [OF assms(1,2) _ _ run]
  have S: "\<forall>p \<in> set pkgs. settled cron maxFires now p (st1, seen1, fired)"
    "\<forall>k. k \<notin> package_key ` set pkgs \<longrightarrow> k \<notin> set seen1"
    "int (length fired) \<le> max 0 maxFires" "set fired \<subseteq> (\<lambda>p. (pk_env p, pk_name p)) ` set pkgs"
    by auto
  have "p \<in> set pkgs \<Longrightarrow> (pk_env p, pk_name p) \<in> set fired \<Longrightarrow> schedulableCron cron p \<noteq> None" for p
    using S(1) by (auto simp: settled_def split: option.splits dest!: bspec)
  then have "set fired \<subseteq> (\<lambda>p. (pk_env p, pk_name p)) ` {p \<in> set pkgs. schedulableCron cron p \<noteq> None}"
    using S(4) by blast
  moreover have "\<exists>a. map_of st' (package_key p) = Some a \<and> schedule a = sched \<and>
            (if (pk_env p, pk_name p) \<in> set fired
             then now < nextFireAtMs a \<and> lastFiredAtMs a = Some now
             else now < nextFireAtMs a \<or> maxFires \<le> int (length fired))"
    if "p \<in> set pkgs" "schedulableCron cron p = Some sched" for p sched
  proof -
    have "settled cron maxFires now p (st1, seen1, fired)" using S(1) that(1) by blast
    then show ?thesis
      using that(2) by (cases "map_of st1 (package_key p)") (simp_all add: settled_def st' map_of_seen)
  qed
  moreover have "k \<in> package_key ` {p \<in> set pkgs. schedulableCron cron p \<noteq> None}"
    if "map_of st' k \<noteq> None" for k
  proof -
    have k: "k \<in> set seen1" "map_of st1 k \<noteq> None" using that by (auto simp: st' map_of_seen split: if_splits)
    then obtain p where "p \<in> set pkgs" "k = package_key p" using S(2) by blast
    moreover from this S(1) k(2) have "schedulableCron cron p \<noteq> None"
      by (auto simp: settled_def split: option.splits dest!: bspec)
    ultimately show ?thesis by blast
  qed
  ultimately show ?thesis using S(3) by blast
qed

text \<open>
  Recovery after a restart is one catch-up: the first sweep that sees a package fires it
  exactly when the occurrence after its last scheduled run has come (so never when it was never
  fired or the look-up fails), and no sweep before the occurrence that follows fires it again.
\<close>

theorem restart_catches_up_once:
  assumes "strictly_after cron" and "schedulableCron cron p = Some sched" and "1 \<le> maxFires"
    and "tick cron maxFires lastFire now [p] [] = (fired, st)"
  shows "(fired = [(pk_env p, pk_name p)] \<longleftrightarrow>
       (\<exists>t n. lastFire (pk_env p) (pk_name p) = Inr (Some t) \<and> cron_next cron sched t = Some n \<and> n \<le> now))
    \<and> (\<forall>later. now \<le> later \<and> (\<forall>n. cron_next cron sched now = Some n \<longrightarrow> later < n) \<and> fired \<noteq> [] \<longrightarrow>
         fst (tick cron maxFires lastFire later [p] st) = [])"
proof -
  let ?found = "lastFire (pk_env p) (pk_name p)"
  obtain n where n: "nextAfter cron sched (recoveryAnchor ?found now) = Some n"
    using schedulable_next [OF assms(1,2)] by blast
  obtain m where m: "nextAfter cron sched now = Some m" "now < m"
    using schedulable_next [OF assms(1,2)] by blast
  have nx: "nextAfter cron sched t = cron_next cron sched t" for t
    using assms(2) by (auto simp: schedulableCron_def nextAfter_def isValid_def split: option.splits if_splits)
  have due: "n \<le> now \<longleftrightarrow> (\<exists>t n. ?found = Inr (Some t) \<and> cron_next cron sched t = Some n \<and> n \<le> now)"
    using n m nx by (auto simp: recoveryAnchor_def split: sum.splits option.splits)
  have t1: "tick cron maxFires lastFire now [p] [] =
      (if now < n then ([], [(package_key p, \<lparr>schedule = sched, nextFireAtMs = n, lastFiredAtMs = None\<rparr>)])
       else ([(pk_env p, pk_name p)],
             [(package_key p, \<lparr>schedule = sched, nextFireAtMs = m, lastFiredAtMs = Some now\<rparr>)]))"
    using assms(2,3) n m by (simp add: tick_def sweep_package_def arm_def Let_def)
  have t2: "fst (tick cron maxFires lastFire later [p]
      [(package_key p, \<lparr>schedule = sched, nextFireAtMs = m, lastFiredAtMs = Some now\<rparr>)]) = []"
    if "later < m" for later
    using assms(2,3) that by (simp add: tick_def sweep_package_def arm_def Let_def)
  show ?thesis
    using assms(4) t1 t2 m nx due by (auto split: if_splits)
qed

definition hourly :: CronParser where
  "hourly = \<lparr>cron_parses = (\<lambda>_. True), cron_next = (\<lambda>_ t. Some ((t div 3600000 + 1) * 3600000))\<rparr>"

definition demo_pkg :: LoadedPackage where
  "demo_pkg = \<lparr>pk_env = ''e'', pk_name = ''p'', pk_schedule = Some ''0 * * * *'',
     pk_manifestLocation = None, pk_warnings = []\<rparr>"

lemma hourly_after: "strictly_after hourly"
proof -
  have "t < (t div 3600000 + 1) * 3600000" for t :: int by presburger
  then show ?thesis by (simp add: strictly_after_def hourly_def)
qed

lemma demo_schedulable: "schedulableCron hourly demo_pkg = Some ''0 * * * *''"
  by code_simp

definition demo_tick :: "(string \<times> string) list \<times> arming" where
  "demo_tick = tick hourly 10 (\<lambda>_ _. Inr (Some 100)) 3700000 [demo_pkg] []"

lemma sweep_fires_due_packages_witness:
  "\<exists>a. map_of (snd demo_tick) (package_key demo_pkg) = Some a \<and> 3700000 < nextFireAtMs a"
proof -
  have "tick hourly 10 (\<lambda>_ _. Inr (Some 100)) 3700000 [demo_pkg] [] = (fst demo_tick, snd demo_tick)"
    by (simp add: demo_tick_def)
  from sweep_fires_due_packages [OF hourly_after _ this] demo_schedulable
  have "\<exists>a. map_of (snd demo_tick) (package_key demo_pkg) = Some a \<and>
      (if (pk_env demo_pkg, pk_name demo_pkg) \<in> set (fst demo_tick)
       then 3700000 < nextFireAtMs a \<and> lastFiredAtMs a = Some 3700000
       else 3700000 < nextFireAtMs a \<or> 10 \<le> int (length (fst demo_tick)))
      \<and> int (length (fst demo_tick)) \<le> 10"
    by auto
  moreover have "length (fst demo_tick) = 1" by code_simp
  ultimately show ?thesis by (auto split: if_splits)
qed

lemma restart_catches_up_once_witness:
  "fst demo_tick = [(''e'', ''p'')] \<and> fst (tick hourly 10 (\<lambda>_ _. Inr (Some 100)) 7100000 [demo_pkg] (snd demo_tick)) = []"
proof -
  have t: "tick hourly 10 (\<lambda>_ _. Inr (Some 100)) 3700000 [demo_pkg] [] = (fst demo_tick, snd demo_tick)"
    by (simp add: demo_tick_def)
  note R = restart_catches_up_once [OF hourly_after demo_schedulable _ t]
  have f: "fst demo_tick = [(''e'', ''p'')]"
    using R by (simp add: hourly_def demo_pkg_def)
  moreover have "fst (tick hourly 10 (\<lambda>_ _. Inr (Some 100)) 7100000 [demo_pkg] (snd demo_tick)) = []"
    using R f by (simp add: hourly_def)
  ultimately show ?thesis by simp
qed

end
