(* ===== verification/Json.thy ===== *)
theory Json
  imports Prelude Complex_Main
begin

text \<open>
  JSON values as the server holds them after parsing: an object is its own properties in order,
  an array its elements. Numbers are exact rationals; no value is \<open>undefined\<close>, so a property that
  is absent is absent from the list. Two values are equal as JSON when they differ only in the
  order of properties.
\<close>

datatype json =
    JNull
  | JBool bool
  | JNum rat
  | JStr string
  | JArr "json list"
  | JObj "(string \<times> json) list"

type_synonym json_object = "(string \<times> json) list"

fun is_plain_object :: "json \<Rightarrow> bool" where
  "is_plain_object (JObj fields) = True"
| "is_plain_object v = False"

text \<open>\<open>typeof v === "object" && v !== null\<close>: objects and arrays.\<close>

fun is_object_type :: "json \<Rightarrow> bool" where
  "is_object_type (JObj fields) = True"
| "is_object_type (JArr items) = True"
| "is_object_type v = False"

text \<open>\<open>{...a, ...b}\<close>: the properties of \<open>b\<close> replace those of \<open>a\<close> in place, new ones come last.\<close>

definition spread :: "json_object \<Rightarrow> json_object \<Rightarrow> json_object" where
  "spread a b = foldl (\<lambda>acc (k, v). AList.update k v acc) a b"

lemma map_of_spread:
  "distinct (map fst b) \<Longrightarrow> map_of (spread a b) = map_of a ++ map_of b"
proof (induction b arbitrary: a)
  case Nil
  show ?case by (simp add: spread_def)
next
  case (Cons kv b)
  obtain k v where kv: "kv = (k, v)" by force
  have "map_of (spread (AList.update k v a) b) = map_of (AList.update k v a) ++ map_of b"
    using Cons by simp
  moreover have "map_of b k = None" using Cons.prems kv by (simp add: map_of_eq_None_iff)
  ultimately show ?case
    by (auto simp: spread_def kv update_conv' map_add_def fun_eq_iff split: option.splits)
qed

lemma keys_spread: "fst ` set (spread a b) = fst ` set a \<union> fst ` set b"
proof (induction b arbitrary: a)
  case Nil
  show ?case by (simp add: spread_def)
next
  case (Cons kv b)
  obtain k v where kv: "kv = (k, v)" by force
  have "fst ` set (spread (AList.update k v a) b) = insert k (fst ` set a) \<union> fst ` set b"
    using Cons [of "AList.update k v a"] by (simp add: dom_update)
  then show ?case by (simp add: spread_def kv)
qed

lemma distinct_spread: "distinct (map fst a) \<Longrightarrow> distinct (map fst (spread a b))"
  by (induction b arbitrary: a) (auto simp: spread_def distinct_update split: prod.splits)

lemma map_of_delete_key [simp]:
  "map_of (AList.delete k al) x = (if x = k then None else map_of al x)"
  by (simp add: delete_conv')

text \<open>Positions in a value, and the part of a value at a position.\<close>

datatype json_step = Key string | Item nat

fun json_at :: "json_step list \<Rightarrow> json \<Rightarrow> json option" where
  "json_at [] v = Some v"
| "json_at (Key k # p) (JObj fields) =
     (case map_of fields k of None \<Rightarrow> None | Some v \<Rightarrow> json_at p v)"
| "json_at (Item i # p) (JArr items) = (if i < length items then json_at p (items ! i) else None)"
| "json_at (s # p) v = None"

lemma json_at_append:
  "json_at (p @ q) v = (case json_at p v of None \<Rightarrow> None | Some w \<Rightarrow> json_at q w)"
  by (induction p v rule: json_at.induct) (simp_all split: option.splits)

text \<open>Equality up to the order of properties.\<close>

inductive json_eq :: "json \<Rightarrow> json \<Rightarrow> bool" where
  json_eq_same: "json_eq v v"
| json_eq_arr: "list_all2 json_eq xs ys \<Longrightarrow> json_eq (JArr xs) (JArr ys)"
| json_eq_obj: "(\<And>k. rel_option json_eq (map_of a k) (map_of b k)) \<Longrightarrow> json_eq (JObj a) (JObj b)"
  monos list.rel_mono_strong option.rel_mono_strong

text \<open>No object holds a property twice.\<close>

fun distinct_keys :: "json \<Rightarrow> bool" where
  "distinct_keys (JArr items) \<longleftrightarrow> list_all distinct_keys items"
| "distinct_keys (JObj fields) \<longleftrightarrow> distinct (map fst fields) \<and> list_all (\<lambda>(k, v). distinct_keys v) fields"
| "distinct_keys v \<longleftrightarrow> True"

lemma distinct_keys_obj [simp]:
  "distinct_keys (JObj fields) \<longleftrightarrow> distinct (map fst fields) \<and> (\<forall>kv \<in> set fields. distinct_keys (snd kv))"
  by (auto simp: list_all_iff)

lemma distinct_keys_arr [simp]:
  "distinct_keys (JArr items) \<longleftrightarrow> (\<forall>v \<in> set items. distinct_keys v)"
  by (auto simp: list_all_iff)

declare distinct_keys.simps(1,2) [simp del]

text \<open>A part is smaller than the value it is part of.\<close>

lemma size_object_field [termination_simp]:
  "(k, v) \<in> set fields \<Longrightarrow> size v < size (JObj fields)"
proof -
  assume "(k, v) \<in> set fields"
  then have "size_prod (\<lambda>_. 0) size (k, v) \<le> size_list (size_prod (\<lambda>_. 0) size) fields"
    by (rule size_list_estimation') simp
  then show ?thesis by simp
qed

lemma size_array_item [termination_simp]: "v \<in> set items \<Longrightarrow> size v < size (JArr items)"
  by (simp add: size_list_estimation' less_Suc_eq_le)

end
