(* ===== verification/ConnectionView.thy ===== *)
theory ConnectionView
  imports Json "HOL-Library.List_Lexorder" "HOL-Library.Char_ord"
begin

text \<open>
  The public view of a connection (\<open>service/connection_public_view.ts\<close>). A configuration holds
  credentials: what a response may carry is an allowlist of shapes, and the credentials that are
  set are listed by name. The view holds exactly the listed leaves and depends on nothing else.
\<close>

subsection \<open>The allowlist\<close>

datatype PublicField =
    Scalar
  | AnyValue
  | ListOf "(string \<times> PublicField) list"
  | Shape "(string \<times> PublicField) list"

type_synonym PublicShape = "(string \<times> PublicField) list"

definition scalars :: "string list \<Rightarrow> PublicShape" where
  "scalars fields = map (\<lambda>f. (f, Scalar)) fields"

definition CONNECTION_ATTRIBUTES :: PublicShape where
  "CONNECTION_ATTRIBUTES = scalars [''dialectName'', ''isPool'', ''canPersist'', ''canStream'']"

definition POSTGRES :: PublicShape where
  "POSTGRES = scalars [''host'', ''port'', ''databaseName'', ''userName'', ''sslmode'']"

definition BIGQUERY :: PublicShape where
  "BIGQUERY = scalars [''defaultProjectId'', ''billingProjectId'', ''location'',
     ''impersonateServiceAccount'', ''maximumBytesBilled'', ''queryTimeoutMilliseconds'']"

definition SNOWFLAKE :: PublicShape where
  "SNOWFLAKE = scalars [''account'', ''username'', ''warehouse'', ''database'', ''schema'', ''role'',
     ''responseTimeoutMilliseconds'']"

definition TRINO :: PublicShape where
  "TRINO = scalars [''server'', ''port'', ''catalog'', ''schema'', ''user'']"

definition DATABRICKS :: PublicShape where
  "DATABRICKS = scalars [''host'', ''path'', ''oauthClientId'', ''defaultCatalog'', ''defaultSchema'',
     ''setupSQL'']"

definition MYSQL :: PublicShape where
  "MYSQL = scalars [''host'', ''port'', ''database'', ''user'']"

definition MOTHERDUCK :: PublicShape where "MOTHERDUCK = scalars [''database'']"

definition PUBLISHER :: PublicShape where "PUBLISHER = scalars [''connectionUri'']"

definition S3 :: PublicShape where
  "S3 = scalars [''provider'', ''chain'', ''region'', ''endpoint'', ''accessKeyId'']"

definition GCS :: PublicShape where "GCS = scalars [''keyId'']"

definition AZURE :: PublicShape where
  "AZURE = scalars [''authType'', ''tenantId'', ''clientId'', ''accountName'', ''fileUrl'']"

definition SSH_PROXY :: PublicShape where
  "SSH_PROXY = scalars [''host'', ''port'', ''username'', ''hostKey'']"

definition PROXY :: PublicShape where
  "PROXY = [(''type'', Scalar), (''ssh'', Shape SSH_PROXY)]"

definition ATTACHED_DATABASE :: PublicShape where
  "ATTACHED_DATABASE =
     [(''name'', Scalar), (''type'', Scalar), (''attributes'', Shape CONNECTION_ATTRIBUTES),
      (''bigqueryConnection'', Shape BIGQUERY), (''snowflakeConnection'', Shape SNOWFLAKE),
      (''postgresConnection'', Shape POSTGRES), (''gcsConnection'', Shape GCS),
      (''s3Connection'', Shape S3), (''azureConnection'', Shape AZURE)]"

definition DUCKDB :: PublicShape where
  "DUCKDB = [(''attachedDatabases'', ListOf ATTACHED_DATABASE)]"

definition DUCKLAKE :: PublicShape where
  "DUCKLAKE =
     [(''storage'', Shape [(''bucketUrl'', Scalar), (''s3Connection'', Shape S3), (''gcsConnection'', Shape GCS)]),
      (''catalog'', Shape [(''postgresConnection'', Shape POSTGRES), (''metadataSchema'', Scalar)])]"

definition PUBLIC_CONNECTION :: PublicShape where
  "PUBLIC_CONNECTION =
     [(''resource'', Scalar), (''name'', Scalar), (''type'', Scalar), (''fingerprint'', Scalar),
      (''configEtag'', Scalar), (''queryMetadata'', AnyValue), (''queryMetadataEnforced'', AnyValue),
      (''attributes'', Shape CONNECTION_ATTRIBUTES), (''proxy'', Shape PROXY),
      (''postgresConnection'', Shape POSTGRES), (''bigqueryConnection'', Shape BIGQUERY),
      (''snowflakeConnection'', Shape SNOWFLAKE), (''trinoConnection'', Shape TRINO),
      (''databricksConnection'', Shape DATABRICKS), (''mysqlConnection'', Shape MYSQL),
      (''duckdbConnection'', Shape DUCKDB), (''motherduckConnection'', Shape MOTHERDUCK),
      (''ducklakeConnection'', Shape DUCKLAKE), (''publisherConnection'', Shape PUBLISHER)]"

lemmas shape_defs = PUBLIC_CONNECTION_def DUCKLAKE_def DUCKDB_def ATTACHED_DATABASE_def PROXY_def
  SSH_PROXY_def AZURE_def GCS_def S3_def PUBLISHER_def MOTHERDUCK_def MYSQL_def DATABRICKS_def
  TRINO_def SNOWFLAKE_def BIGQUERY_def POSTGRES_def CONNECTION_ATTRIBUTES_def scalars_def

subsection \<open>Projection\<close>

lemma shape_size [termination_simp]:
  "(f, spec) \<in> set shape \<Longrightarrow> size spec < Suc (size_list (size_prod (\<lambda>_. 0) size) shape)"
  using size_list_estimation' [of "(f, spec)" shape "size spec" "size_prod (\<lambda>_. 0) size"] by simp

text \<open>
  \<open>projectField\<close> and \<open>projectShape\<close>; \<open>None\<close> is \<open>undefined\<close>, which leaves the field out. The loop over
  the entries of the shape is \<open>project_entries\<close>.
\<close>

function projectField :: "json \<Rightarrow> PublicField \<Rightarrow> json option"
  and projectShape :: "json \<Rightarrow> PublicShape \<Rightarrow> json_object option"
  and project_entries :: "json_object \<Rightarrow> PublicShape \<Rightarrow> json_object" where
  "projectField v AnyValue = Some v"
| "projectField v Scalar = (if is_object_type v then None else Some v)"
| "projectField v (ListOf shape) =
     (case v of
        JArr items \<Rightarrow> Some (JArr (map (\<lambda>item. case projectShape item shape of
                                             None \<Rightarrow> JObj [] | Some out \<Rightarrow> JObj out) items))
      | _ \<Rightarrow> None)"
| "projectField v (Shape shape) = map_option JObj (projectShape v shape)"
| "projectShape v shape = (case v of JObj fields \<Rightarrow> Some (project_entries fields shape) | _ \<Rightarrow> None)"
| "project_entries fields [] = []"
| "project_entries fields ((field, spec) # shape) =
     (case map_of fields field of
        None \<Rightarrow> project_entries fields shape
      | Some v \<Rightarrow> (case projectField v spec of
            None \<Rightarrow> project_entries fields shape
          | Some projected \<Rightarrow> (field, projected) # project_entries fields shape))"
  by pat_completeness auto

termination
  by (relation "measure (\<lambda>x. case x of
        Inl (v, spec) \<Rightarrow> 2 * size spec
      | Inr (Inl (v, shape)) \<Rightarrow> 2 * size_list (size_prod (\<lambda>_. 0) size) shape + 1
      | Inr (Inr (fields, shape)) \<Rightarrow> 2 * size_list (size_prod (\<lambda>_. 0) size) shape)") auto

text \<open>\<open>UNSAFE_KEYS\<close>, \<open>isNamed\<close> (with the name) and \<open>withoutWithheldFields\<close>.\<close>

definition UNSAFE_KEYS :: "string set" where
  "UNSAFE_KEYS = {''__proto__'', ''constructor'', ''prototype''}"

fun named :: "json \<Rightarrow> string option" where
  "named (JObj fields) = (case map_of fields ''name'' of Some (JStr n) \<Rightarrow> Some n | _ \<Rightarrow> None)"
| "named v = None"

fun withoutWithheldFields :: "json \<Rightarrow> json_object" where
  "withoutWithheldFields (JObj fields) = AList.delete ''withheldFields'' fields"
| "withoutWithheldFields v = []"

text \<open>
  \<open>hiddenFields\<close> of an object: the fields the projection leaves out, as a sparse object. Entries
  of a listed array carry their name so that they can be matched again.
\<close>

function hidden_entries :: "json_object \<Rightarrow> PublicShape \<Rightarrow> json_object" where
  "hidden_entries [] shape = []"
| "hidden_entries ((field, v) # fields) shape =
     (let rest = hidden_entries fields shape in
      if field \<in> UNSAFE_KEYS then rest
      else case map_of shape field of
        None \<Rightarrow> (field, v) # rest
      | Some AnyValue \<Rightarrow> rest
      | Some Scalar \<Rightarrow> if is_object_type v then (field, v) # rest else rest
      | Some (ListOf items_shape) \<Rightarrow>
          (case v of
             JArr items \<Rightarrow>
               (let hidden_items = map (\<lambda>item.
                      (let item_hidden = (case item of JObj fs \<Rightarrow> hidden_entries fs items_shape | _ \<Rightarrow> []) in
                       if item_hidden = [] then []
                       else case named item of
                           Some n \<Rightarrow> spread [(''name'', JStr n)] item_hidden
                         | None \<Rightarrow> item_hidden)) items
                in if \<exists>i \<in> set hidden_items. i \<noteq> [] then (field, JArr (map JObj hidden_items)) # rest else rest)
           | _ \<Rightarrow> (field, v) # rest)
      | Some (Shape inner) \<Rightarrow>
          (case v of
             JObj fs \<Rightarrow> (let nested = hidden_entries fs inner in
                         if nested \<noteq> [] then (field, JObj nested) # rest else rest)
           | _ \<Rightarrow> rest))"
  by pat_completeness auto

termination
  by (relation "measure (\<lambda>(fields, shape). size_list (size_prod (\<lambda>_. 0) size) fields)")
     (auto dest!: size_array_item simp: less_Suc_eq)

definition hiddenFields :: "json \<Rightarrow> PublicShape \<Rightarrow> json_object option" where
  "hiddenFields v shape = (case v of JObj fields \<Rightarrow> Some (hidden_entries fields shape) | _ \<Rightarrow> None)"

text \<open>
  \<open>flattenWithheld\<close>: the dotted paths of the leaves of what is hidden. The label of an array entry
  is its name, which is taken out of the entry.
\<close>

definition withheld_path :: "string \<Rightarrow> string \<Rightarrow> string" where
  "withheld_path pre key = (if pre = [] then key else pre @ ''.'' @ key)"

lemma size_delete: "size_list f (AList.delete k al) \<le> size_list f al"
  by (induction al) auto

function flattenWithheld :: "json_object \<Rightarrow> string \<Rightarrow> string list" where
  "flattenWithheld [] pre = []"
| "flattenWithheld ((key, v) # hidden) pre =
     (let path = withheld_path pre key in
      (case v of
         JArr items \<Rightarrow> concat (map (\<lambda>item. case item of
             JObj fields \<Rightarrow> flattenWithheld (AList.delete ''name'' fields)
                              (case named item of Some n \<Rightarrow> path @ ''.'' @ n | None \<Rightarrow> path)
           | _ \<Rightarrow> []) items)
       | JObj fields \<Rightarrow> flattenWithheld fields path
       | JNull \<Rightarrow> []
       | JStr s \<Rightarrow> if s = [] then [] else [path]
       | _ \<Rightarrow> [path])
      @ flattenWithheld hidden pre)"
  by pat_completeness auto

termination
  by (relation "measure (\<lambda>(hidden, pre). size_list (size_prod (\<lambda>_. 0) size) hidden)")
     (auto dest!: size_array_item intro: le_less_trans [OF size_delete])

definition toPublicConnection :: "json \<Rightarrow> json" where
  "toPublicConnection connection =
     (let stored = withoutWithheldFields connection;
          view = (case projectShape (JObj stored) PUBLIC_CONNECTION of None \<Rightarrow> [] | Some o' \<Rightarrow> o');
          hidden = (case hiddenFields (JObj stored) PUBLIC_CONNECTION of None \<Rightarrow> [] | Some h \<Rightarrow> h);
          withheld = flattenWithheld hidden []
      in JObj (if withheld \<noteq> []
               then AList.update ''withheldFields'' (JArr (map JStr (sort withheld))) view
               else view))"

definition toPublicConnections :: "json list option \<Rightarrow> json list" where
  "toPublicConnections connections =
     (case connections of Some cs \<Rightarrow> map toPublicConnection cs | None \<Rightarrow> [])"

subsection \<open>What the view holds\<close>

text \<open>The shape at a position: everything below an \<open>AnyValue\<close> is published as it is.\<close>

fun spec_at :: "json_step list \<Rightarrow> PublicField \<Rightarrow> PublicField option" where
  "spec_at p AnyValue = Some AnyValue"
| "spec_at [] spec = Some spec"
| "spec_at (Key k # p) (Shape shape) =
     (case map_of shape k of None \<Rightarrow> None | Some spec \<Rightarrow> spec_at p spec)"
| "spec_at (Item i # p) (ListOf shape) = spec_at p (Shape shape)"
| "spec_at (s # p) spec = None"

definition published :: "json_step list \<Rightarrow> bool" where
  "published p \<longleftrightarrow> spec_at p (Shape PUBLIC_CONNECTION) \<in> {Some Scalar, Some AnyValue}"

text \<open>A shape lists no field twice, and the entries of its lists are published by their name.\<close>

fun shape_ok :: "PublicField \<Rightarrow> bool" where
  "shape_ok (Shape shape) \<longleftrightarrow> distinct (map fst shape) \<and> list_all (\<lambda>(f, spec). shape_ok spec) shape"
| "shape_ok (ListOf shape) \<longleftrightarrow> map_of shape ''name'' = Some Scalar
     \<and> distinct (map fst shape) \<and> list_all (\<lambda>(f, spec). shape_ok spec) shape"
| "shape_ok spec \<longleftrightarrow> True"

lemma shape_ok_field: "shape_ok (Shape shape) \<Longrightarrow> map_of shape f = Some spec \<Longrightarrow> shape_ok spec"
  by (auto simp: list_all_iff dest: map_of_SomeD)

lemma shape_ok_list: "shape_ok (ListOf shape) \<Longrightarrow> shape_ok (Shape shape)"
  by simp

lemma public_shape_ok: "shape_ok (Shape PUBLIC_CONNECTION)"
  by code_simp

lemma project_entries_None: "f \<notin> fst ` set shape \<Longrightarrow> map_of (project_entries fs shape) f = None"
  by (induction shape) (auto split: option.splits)

lemma map_of_project:
  "distinct (map fst shape) \<Longrightarrow>
   map_of (project_entries fs shape) f =
     Option.bind (map_of fs f) (\<lambda>v. Option.bind (map_of shape f) (projectField v))"
proof (induction shape)
  case Nil
  show ?case by (cases "map_of fs f") auto
next
  case (Cons a shape)
  obtain g spec where a: "a = (g, spec)" by force
  show ?case
  proof (cases "f = g")
    case True
    with Cons a have "map_of (project_entries fs shape) f = None"
      by (intro project_entries_None) auto
    with True a show ?thesis by (auto split: option.splits)
  next
    case False
    with Cons a show ?thesis by (auto split: option.splits)
  qed
qed

lemma projectField_Shape:
  "projectField v (Shape shape) =
     (case v of JObj fs \<Rightarrow> Some (JObj (project_entries fs shape)) | _ \<Rightarrow> None)"
  by (cases v) simp_all

lemma project_item:
  "(case projectShape item shape of None \<Rightarrow> JObj [] | Some out \<Rightarrow> JObj out) =
     (case projectField item (Shape shape) of None \<Rightarrow> JObj [] | Some out \<Rightarrow> out)"
  by (cases item) simp_all

declare projectShape.simps [simp del] projectField.simps(4) [simp del]

declare map_of_eq_Some_iff [simp del]

lemma json_at_empty: "json_at p (JObj []) = Some x \<Longrightarrow> p = []"
  by (cases "(p, JObj [])" rule: json_at.cases) auto

text \<open>A position of a projected value has a shape, and its leaf is that of the value.\<close>

lemma projected_position:
  "projectField v spec = Some w \<Longrightarrow> shape_ok spec \<Longrightarrow> json_at p w = Some x \<Longrightarrow> spec_at p spec \<noteq> None"
proof (induction p arbitrary: v spec w)
  case Nil
  then show ?case by (cases spec) auto
next
  case (Cons s p)
  show ?case
  proof (cases spec)
    case (Shape shape)
    with Cons.prems obtain fs where v: "v = JObj fs" "w = JObj (project_entries fs shape)"
      by (auto simp: projectField_Shape split: json.splits)
    with Cons.prems obtain k w' where k: "s = Key k" "map_of (project_entries fs shape) k = Some w'"
        "json_at p w' = Some x"
      by (cases s) (auto split: option.splits)
    with Cons.prems(2) Shape obtain v' spec' where "map_of shape k = Some spec'" "projectField v' spec' = Some w'"
      by (auto simp: map_of_project bind_eq_Some_conv)
    with Cons.IH [OF this(2) _ k(3)] Cons.prems(2) Shape k shape_ok_field show ?thesis by fastforce
  next
    case (ListOf shape)
    with Cons.prems obtain items where w: "v = JArr items"
        "w = JArr (map (\<lambda>item. case projectField item (Shape shape) of None \<Rightarrow> JObj [] | Some out \<Rightarrow> out) items)"
      by (auto simp: project_item split: json.splits)
    with Cons.prems(3) obtain i where i: "s = Item i" "i < length items"
        "json_at p (case projectField (items ! i) (Shape shape) of None \<Rightarrow> JObj [] | Some out \<Rightarrow> out) = Some x"
      by (cases s) (auto split: if_splits)
    show ?thesis
    proof (cases "projectField (items ! i) (Shape shape)")
      case None
      with i have "p = []" by (simp add: json_at_empty)
      with ListOf i show ?thesis by simp
    next
      case (Some out)
      with i have "json_at p out = Some x" by simp
      from Cons.IH [OF Some _ this] Cons.prems(2) ListOf i show ?thesis by auto
    qed
  qed (use Cons.prems in \<open>auto split: if_splits; cases v; cases s; auto\<close>)+
qed

text \<open>The leaves of a projected value are exactly the leaves of the value that are listed.\<close>

lemma projected_leaf:
  "shape_ok spec \<Longrightarrow> \<not> is_object_type leaf \<Longrightarrow>
   (\<exists>w. projectField v spec = Some w \<and> json_at p w = Some leaf)
     \<longleftrightarrow> spec_at p spec \<in> {Some Scalar, Some AnyValue} \<and> json_at p v = Some leaf"
proof (induction p arbitrary: v spec)
  case Nil
  then show ?case by (cases spec; cases v) (auto simp: projectField_Shape)
next
  case (Cons s p)
  show ?case
  proof (cases spec)
    case (Shape shape)
    show ?thesis
    proof (cases "\<exists>fs k. v = JObj fs \<and> s = Key k")
      case True
      then obtain fs k where v: "v = JObj fs" "s = Key k" by blast
      have dist: "distinct (map fst shape)" using Cons.prems(1) Shape by simp
      show ?thesis
      proof (cases "map_of fs k = None \<or> map_of shape k = None")
        case True
        with Shape v dist show ?thesis
          by (auto simp: projectField_Shape map_of_project split: option.splits)
      next
        case False
        then obtain v' spec' where l: "map_of fs k = Some v'" "map_of shape k = Some spec'" by auto
        with Cons.prems(1) Shape have "shape_ok spec'" using shape_ok_field by blast
        from Cons.IH [OF this Cons.prems(2), of v'] Shape v l dist show ?thesis
          by (cases "projectField v' spec'") (simp_all add: projectField_Shape map_of_project)
      qed
    next
      case False
      with Shape show ?thesis by (cases s; cases v) (auto simp: projectField_Shape)
    qed
  next
    case (ListOf shape)
    show ?thesis
    proof (cases "\<exists>items i. v = JArr items \<and> s = Item i \<and> i < length items")
      case True
      then obtain items i where v: "v = JArr items" "s = Item i" "i < length items" by blast
      have item: "(\<exists>w. projectField (items ! i) (Shape shape) = Some w \<and> json_at p w = Some leaf)
          \<longleftrightarrow> json_at p (case projectField (items ! i) (Shape shape) of None \<Rightarrow> JObj [] | Some out \<Rightarrow> out) = Some leaf"
        using Cons.prems(2) by (auto split: option.splits dest: json_at_empty)
          (metis json_at.simps(1) is_object_type.simps(1) json_at_empty option.inject)
      from Cons.IH [OF shape_ok_list Cons.prems(2), of shape "items ! i"] Cons.prems(1) ListOf v show ?thesis
        by (simp add: project_item item)
    next
      case False
      with ListOf show ?thesis by (cases s; cases v) (auto split: if_splits)
    qed
  next
    case Scalar
    then show ?thesis by (cases v; cases s) auto
  next
    case AnyValue
    then show ?thesis by auto
  qed
qed

lemma view_field:
  assumes "k \<noteq> ''withheldFields''"
  shows "json_at (Key k # p) (toPublicConnection c)
    = json_at (Key k # p) (JObj (project_entries (withoutWithheldFields c) PUBLIC_CONNECTION))"
  using assms by (simp add: toPublicConnection_def projectShape.simps Let_def update_conv')

lemma without_withheld_at:
  "k \<noteq> ''withheldFields'' \<Longrightarrow> json_at (Key k # p) (JObj (withoutWithheldFields c)) = json_at (Key k # p) c"
  by (cases c) simp_all

subsection \<open>Masking the credentials\<close>

text \<open>
  \<open>mask_fields\<close> replaces every value the view does not publish by a placeholder that keeps only
  its shape, whether it is set, and the names of array entries.
\<close>

fun blank :: "json \<Rightarrow> json"
  and blank_item :: "json \<Rightarrow> json" where
  "blank JNull = JNull"
| "blank (JStr s) = JStr (if s = [] then [] else ''set'')"
| "blank (JArr items) = JArr (map blank_item items)"
| "blank (JObj fs) = JObj (map (\<lambda>(k, v). (k, blank v)) fs)"
| "blank (JBool b) = JStr ''set''"
| "blank (JNum n) = JStr ''set''"
| "blank_item (JObj fs) =
     JObj (map (\<lambda>(k, v). (k, if k = ''name'' \<and> \<not> is_object_type v
         then (case v of JStr s \<Rightarrow> v | _ \<Rightarrow> JNull) else blank v)) fs)"
| "blank_item v = JNull"

fun mask_value :: "PublicField \<Rightarrow> json \<Rightarrow> json" where
  "mask_value AnyValue v = v"
| "mask_value Scalar v = (if is_object_type v then blank v else v)"
| "mask_value (ListOf shape) v =
     (case v of
        JArr items \<Rightarrow> JArr (map (\<lambda>item. mask_value (Shape shape) item) items)
      | _ \<Rightarrow> blank v)"
| "mask_value (Shape shape) v =
     (case v of
        JObj fs \<Rightarrow> JObj (map (\<lambda>(k, v). (k, case map_of shape k of
            None \<Rightarrow> if k \<in> UNSAFE_KEYS then JNull else blank v
          | Some spec \<Rightarrow> mask_value spec v)) fs)
      | _ \<Rightarrow> JNull)"

definition mask_credentials :: "json \<Rightarrow> json" where
  "mask_credentials c = mask_value (Shape PUBLIC_CONNECTION) (JObj (withoutWithheldFields c))"

lemma map_of_map_entries:
  "map_of (map (\<lambda>(k, v). (k, g k v)) fs) f = map_option (g f) (map_of fs f)"
  by (induction fs) auto

lemma map_update_entries:
  "map (\<lambda>(k, v). (k, g k v)) (AList.update f x fs) = AList.update f (g f x) (map (\<lambda>(k, v). (k, g k v)) fs)"
  by (induction fs) auto

lemma map_spread_entries:
  "map (\<lambda>(k, v). (k, g k v)) (spread a b) = spread (map (\<lambda>(k, v). (k, g k v)) a) (map (\<lambda>(k, v). (k, g k v)) b)"
  by (induction b arbitrary: a) (auto simp: spread_def map_update_entries split: prod.splits)

lemma map_delete_entries:
  "map (\<lambda>(k, v). (k, g k v)) (AList.delete f fs) = AList.delete f (map (\<lambda>(k, v). (k, g k v)) fs)"
  by (induction fs) auto

lemma project_entries_cong:
  assumes "\<And>f spec. (f, spec) \<in> set shape \<Longrightarrow>
      Option.bind (map_of fs f) (\<lambda>v. projectField v spec) = Option.bind (map_of fs' f) (\<lambda>v. projectField v spec)"
  shows "project_entries fs shape = project_entries fs' shape"
  using assms
proof (induction shape)
  case (Cons a shape)
  obtain f spec where a: "a = (f, spec)" by force
  from Cons.prems [of f spec] a
  have "Option.bind (map_of fs f) (\<lambda>v. projectField v spec) = Option.bind (map_of fs' f) (\<lambda>v. projectField v spec)"
    by simp
  moreover have "project_entries fs shape = project_entries fs' shape"
    using Cons by simp
  ultimately show ?case using a by (cases "map_of fs f"; cases "map_of fs' f") (auto split: option.splits)
qed simp

text \<open>Masking changes nothing the projection returns.\<close>

lemma projectField_mask: "shape_ok spec \<Longrightarrow> projectField (mask_value spec v) spec = projectField v spec"
proof (induction spec v rule: mask_value.induct)
  case (3 shape v)
  have "projectField (mask_value (Shape shape) item) (Shape shape) = projectField item (Shape shape)"
    if "v = JArr items" "item \<in> set items" for items item
    using 3 that shape_ok_list by blast
  then show ?case by (cases v) (auto simp: project_item)
next
  case (4 shape v)
  show ?case
  proof (cases v)
    case (JObj fs)
    let ?g = "\<lambda>k v. case map_of shape k of
        None \<Rightarrow> if k \<in> UNSAFE_KEYS then JNull else blank v | Some spec \<Rightarrow> mask_value spec v"
    have "Option.bind (map_of (map (\<lambda>(k, v). (k, ?g k v)) fs) f) (\<lambda>v. projectField v spec)
        = Option.bind (map_of fs f) (\<lambda>v. projectField v spec)" if "(f, spec) \<in> set shape" for f spec
    proof (cases "map_of fs f")
      case (Some x)
      have m: "map_of shape f = Some spec" using that 4(2) by simp
      then have "shape_ok spec" using 4(2) shape_ok_field by blast
      moreover have "(f, x) \<in> set fs" using Some by (rule map_of_SomeD)
      ultimately have "projectField (mask_value spec x) spec = projectField x spec"
        using 4(1) [OF JObj _ _ m] by blast
      with Some m show ?thesis by (simp add: map_of_map_entries [of ?g])
    qed (simp add: map_of_map_entries [of ?g])
    then have "project_entries (map (\<lambda>(k, v). (k, ?g k v)) fs) shape = project_entries fs shape"
      by (rule project_entries_cong)
    with JObj show ?thesis by (simp add: projectField_Shape)
  qed (simp_all add: projectField_Shape)
qed (auto split: if_splits elim: is_object_type.elims)

lemma is_object_type_blank [simp]: "is_object_type (blank v) = is_object_type v"
  by (cases v) auto

lemma hidden_entries_no_name:
  "map_of shape ''name'' = Some Scalar \<Longrightarrow> (''name'', v) \<in> set (hidden_entries fs shape) \<Longrightarrow> is_object_type v"
proof (induction fs)
  case (Cons a fs)
  obtain f w where a: "a = (f, w)" by force
  show ?case
  proof (cases "f = ''name''")
    case True
    with Cons.prems a Cons.IH show ?thesis by (auto simp: Let_def split: if_splits)
  next
    case False
    with Cons a show ?thesis
      by (auto simp: Let_def split: option.splits PublicField.splits json.splits if_splits)
  qed
qed simp

definition blank_entry :: "string \<times> json \<Rightarrow> string \<times> json" where
  "blank_entry kv = (fst kv, blank (snd kv))"

definition item_entry :: "string \<Rightarrow> json \<Rightarrow> json" where
  "item_entry k v = (if k = ''name'' \<and> \<not> is_object_type v then (case v of JStr s \<Rightarrow> v | _ \<Rightarrow> JNull) else blank v)"

lemma blank_item_obj: "blank_item (JObj fs) = JObj (map (\<lambda>(k, v). (k, item_entry k v)) fs)"
  by (simp add: item_entry_def [abs_def] cong: prod.case_cong)

lemma blank_obj: "blank (JObj fs) = JObj (map blank_entry fs)"
  by (simp add: blank_entry_def split_def)

lemma item_entry_name: "(case item_entry ''name'' v of JStr s \<Rightarrow> Some s | _ \<Rightarrow> None) = (case v of JStr s \<Rightarrow> Some s | _ \<Rightarrow> None)"
  by (cases v) (simp_all add: item_entry_def)

lemma named_obj:
  "named (JObj fs) = Option.bind (map_of fs ''name'') (\<lambda>v. case v of JStr s \<Rightarrow> Some s | _ \<Rightarrow> None)"
  by (simp split: option.splits)

lemma named_blank_item [simp]: "named (blank_item item) = named item"
proof (cases item)
  case (JObj fs)
  have "map_of (map (\<lambda>(k, v). (k, item_entry k v)) fs) ''name'' = map_option (item_entry ''name'') (map_of fs ''name'')"
    by (rule map_of_map_entries)
  then show ?thesis
    by (cases "map_of fs ''name''")
      (simp_all add: JObj blank_item_obj named_obj item_entry_name del: blank_item.simps(1) named.simps(1))
qed simp_all

lemma item_entries_blank:
  "(\<And>v. (''name'', v) \<in> set h \<Longrightarrow> is_object_type v) \<Longrightarrow>
   map (\<lambda>(k, v). (k, item_entry k v)) h = map blank_entry h"
  by (induction h) (force simp: item_entry_def blank_entry_def)+

text \<open>What flattening says of a masked value is what it says of the value.\<close>

definition withheld_item :: "string \<Rightarrow> json \<Rightarrow> string list" where
  "withheld_item path item = (case item of
      JObj fs \<Rightarrow> flattenWithheld (AList.delete ''name'' fs)
                       (case named item of Some n \<Rightarrow> path @ ''.'' @ n | None \<Rightarrow> path)
    | _ \<Rightarrow> [])"

lemma flatten_arr:
  "flattenWithheld ((key, JArr items) # hidden) pre
     = concat (map (withheld_item (withheld_path pre key)) items) @ flattenWithheld hidden pre"
  by (simp add: withheld_item_def [abs_def] Let_def)

lemma flatten_obj:
  "flattenWithheld ((key, JObj fs) # hidden) pre
     = flattenWithheld fs (withheld_path pre key) @ flattenWithheld hidden pre"
  by (simp add: Let_def)

lemma blank_entry_pair: "blank_entry (key, v) = (key, blank v)"
  by (simp add: blank_entry_def)

lemma delete_item_entries:
  "AList.delete ''name'' (map (\<lambda>(k, v). (k, item_entry k v)) fs) = map blank_entry (AList.delete ''name'' fs)"
proof -
  have "(''name'', w) \<notin> set (AList.delete ''name'' fs)" for w
    by (induction fs) auto
  then have "map (\<lambda>(k, v). (k, item_entry k v)) (AList.delete ''name'' fs) = map blank_entry (AList.delete ''name'' fs)"
    by (intro item_entries_blank) blast
  then show ?thesis by (simp only: map_delete_entries)
qed

lemma flatten_blank: "flattenWithheld (map blank_entry h) pre = flattenWithheld h pre"
proof (induction h pre rule: flattenWithheld.induct)
  case (2 key v hidden pre)
  let ?path = "withheld_path pre key"
  have item: "withheld_item ?path (blank_item item) = withheld_item ?path item"
    if "v = JArr items" "item \<in> set items" for items item
  proof (cases item)
    case (JObj fs)
    have "named (blank_item (JObj fs)) = named (JObj fs)" by (rule named_blank_item)
    with 2(1) [OF refl that JObj] JObj show ?thesis
      unfolding withheld_item_def blank_item_obj by (simp only: delete_item_entries blank_item_obj json.case)
  qed (simp_all add: withheld_item_def)
  have rest: "flattenWithheld (map blank_entry hidden) pre = flattenWithheld hidden pre"
    by (rule 2(3)) (rule refl)
  show ?case
  proof (cases v)
    case (JArr items)
    then show ?thesis
      by (simp add: rest blank_entry_pair flatten_arr comp_def item [OF JArr] cong: map_cong
          del: flattenWithheld.simps(2))
  next
    case (JObj fs)
    show ?thesis using 2(2) [OF refl JObj]
      by (simp add: JObj rest blank_entry_pair flatten_obj blank_obj del: flattenWithheld.simps(2) blank.simps(4))
  qed (simp_all add: rest blank_entry_pair Let_def)
qed simp

definition mask_entry :: "PublicShape \<Rightarrow> string \<Rightarrow> json \<Rightarrow> json" where
  "mask_entry shape k v = (case map_of shape k of
      None \<Rightarrow> if k \<in> UNSAFE_KEYS then JNull else blank v
    | Some spec \<Rightarrow> mask_value spec v)"

lemma mask_obj:
  "mask_value (Shape shape) (JObj fs) = JObj (map (\<lambda>(k, v). (k, mask_entry shape k v)) fs)"
  by (simp add: mask_entry_def [abs_def])

lemma mask_value_obj_type: "is_plain_object (mask_value (Shape shape) v) = is_plain_object v"
  by (cases v) simp_all

lemma named_mask:
  assumes "map_of shape ''name'' = Some Scalar"
  shows "named (mask_value (Shape shape) item) = named item"
proof (cases item)
  case (JObj fs)
  have "map_of (map (\<lambda>(k, v). (k, mask_entry shape k v)) fs) ''name'' = map_option (mask_entry shape ''name'') (map_of fs ''name'')"
    by (rule map_of_map_entries)
  moreover have "(case mask_entry shape ''name'' v of JStr s \<Rightarrow> Some s | _ \<Rightarrow> None) = (case v of JStr s \<Rightarrow> Some s | _ \<Rightarrow> None)" for v
    using assms by (cases v) (simp_all add: mask_entry_def)
  ultimately show ?thesis
    unfolding JObj mask_obj named_obj by (cases "map_of fs ''name''") simp_all
qed simp_all

text \<open>The entry of a listed array in what is hidden.\<close>

definition hidden_item :: "PublicShape \<Rightarrow> json \<Rightarrow> json_object" where
  "hidden_item shape item =
     (let item_hidden = (case item of JObj fs \<Rightarrow> hidden_entries fs shape | _ \<Rightarrow> []) in
      if item_hidden = [] then []
      else case named item of Some n \<Rightarrow> spread [(''name'', JStr n)] item_hidden | None \<Rightarrow> item_hidden)"

lemma hidden_list:
  "map_of shape field = Some (ListOf items_shape) \<Longrightarrow> field \<notin> UNSAFE_KEYS \<Longrightarrow>
   hidden_entries ((field, JArr items) # fs) shape =
     (if \<exists>i \<in> set items. hidden_item items_shape i \<noteq> []
      then [(field, JArr (map (\<lambda>i. JObj (hidden_item items_shape i)) items))] else []) @ hidden_entries fs shape"
  by (subst hidden_entries.simps(2), fold hidden_item_def)
    (simp add: Let_def comp_def del: hidden_entries.simps)

lemma hidden_item_mask:
  assumes "map_of shape ''name'' = Some Scalar"
    and "\<And>fs. item = JObj fs \<Longrightarrow>
      hidden_entries (map (\<lambda>(k, v). (k, mask_entry shape k v)) fs) shape = map blank_entry (hidden_entries fs shape)"
  shows "JObj (hidden_item shape (mask_value (Shape shape) item)) = blank_item (JObj (hidden_item shape item))"
proof (cases item)
  case (JObj fs)
  let ?h = "hidden_entries fs shape"
  have e: "map (\<lambda>(k, v). (k, item_entry k v)) ?h = map blank_entry ?h"
    using hidden_entries_no_name [OF assms(1)] by (rule item_entries_blank)
  have n: "named (mask_value (Shape shape) item) = named item" by (rule named_mask [OF assms(1)])
  have m: "mask_value (Shape shape) item = JObj (map (\<lambda>(k, v). (k, mask_entry shape k v)) fs)"
    unfolding JObj by (rule mask_obj)
  have h: "hidden_item shape (mask_value (Shape shape) item) =
      (if ?h = [] then [] else case named item of
          Some n \<Rightarrow> spread [(''name'', JStr n)] (map blank_entry ?h) | None \<Rightarrow> map blank_entry ?h)"
    unfolding hidden_item_def n unfolding m by (simp add: assms(2) [OF JObj] Let_def)
  have i: "hidden_item shape item =
      (if ?h = [] then [] else case named item of
          Some n \<Rightarrow> spread [(''name'', JStr n)] ?h | None \<Rightarrow> ?h)"
    unfolding hidden_item_def by (simp add: JObj Let_def)
  have s: "map (\<lambda>(k, v). (k, item_entry k v)) (spread [(''name'', JStr n)] ?h)
      = spread [(''name'', JStr n)] (map blank_entry ?h)" for n
    by (simp add: map_spread_entries e) (simp add: item_entry_def)
  show ?thesis
    unfolding h i by (cases "named item"; cases "?h = []") (simp_all only: blank_item_obj e s if_True if_False option.case list.map simp_thms)
qed (simp_all add: hidden_item_def)

lemma hidden_entries_mask:
  "shape_ok (Shape shape) \<Longrightarrow>
   hidden_entries (map (\<lambda>(k, v). (k, mask_entry shape k v)) fs) shape = map blank_entry (hidden_entries fs shape)"
proof (induction fs shape rule: hidden_entries.induct)
  case (2 field v fs shape)
  have rest: "hidden_entries (map (\<lambda>(k, v). (k, mask_entry shape k v)) fs) shape = map blank_entry (hidden_entries fs shape)"
    by (rule 2(1) [OF 2(4)])
  show ?case
  proof (cases "field \<in> UNSAFE_KEYS")
    case True
    with rest show ?thesis by (simp add: Let_def)
  next
    case safe: False
    show ?thesis
    proof (cases "map_of shape field")
      case None
      with safe rest show ?thesis by (simp add: Let_def mask_entry_def blank_entry_pair)
    next
      case (Some spec)
      have ok: "shape_ok spec" by (rule shape_ok_field [OF 2(4) Some])
      show ?thesis
      proof (cases spec)
        case (ListOf items_shape)
        show ?thesis
        proof (cases v)
          case (JArr items)
          have name: "map_of items_shape ''name'' = Some Scalar" and ok': "shape_ok (Shape items_shape)"
            using ok ListOf by simp_all
          have item: "JObj (hidden_item items_shape (mask_value (Shape items_shape) i)) = blank_item (JObj (hidden_item items_shape i))"
            if "i \<in> set items" for i
            using hidden_item_mask [OF name, of i]
              2(2) [OF refl safe Some ListOf JArr that _ ok'] by blast
          then have "hidden_item items_shape (mask_value (Shape items_shape) i) = [] \<longleftrightarrow> hidden_item items_shape i = []"
            if "i \<in> set items" for i
            using that by (fastforce simp: blank_item_obj simp del: blank_item.simps(1))
          with item show ?thesis unfolding JArr
            by (simp add: mask_entry_def [of shape field] Some ListOf hidden_list safe rest blank_entry_pair comp_def
                del: hidden_entries.simps(2) mask_value.simps(4) blank_item.simps(1) cong: map_cong)
        qed (use safe rest Some ListOf in \<open>simp_all add: Let_def mask_entry_def blank_entry_pair\<close>)
      next
        case (Shape inner)
        show ?thesis
        proof (cases v)
          case (JObj gs)
          from 2(3) [OF refl safe Some Shape JObj] ok Shape
          have "hidden_entries (map (\<lambda>(k, v). (k, mask_entry inner k v)) gs) inner = map blank_entry (hidden_entries gs inner)"
            by simp
          then show ?thesis using safe rest Some Shape JObj
            by (simp add: Let_def mask_entry_def [of shape] mask_obj blank_entry_pair blank_obj
                del: mask_value.simps(4) blank.simps(4))
        qed (use safe rest Some Shape in \<open>simp_all add: Let_def mask_entry_def\<close>)
      qed (use safe rest Some in \<open>simp_all add: Let_def mask_entry_def blank_entry_pair\<close>)
    qed
  qed
qed simp

lemma view_of_object:
  "toPublicConnection c =
     (let stored = withoutWithheldFields c;
          withheld = flattenWithheld (hidden_entries stored PUBLIC_CONNECTION) [];
          view = project_entries stored PUBLIC_CONNECTION
      in JObj (if withheld \<noteq> [] then AList.update ''withheldFields'' (JArr (map JStr (sort withheld))) view else view))"
  by (simp add: toPublicConnection_def projectShape.simps hiddenFields_def Let_def)

lemma without_withheld_idem: "withoutWithheldFields (JObj (withoutWithheldFields c)) = withoutWithheldFields c"
  by (cases c) (simp_all add: AList.delete_idem)

lemma view_of_stored: "toPublicConnection (JObj (withoutWithheldFields c)) = toPublicConnection c"
  unfolding view_of_object without_withheld_idem by (rule refl)

lemma view_of_mask: "toPublicConnection (mask_credentials c) = toPublicConnection c"
proof -
  let ?s = "withoutWithheldFields c"
  let ?m = "map (\<lambda>(k, v). (k, mask_entry PUBLIC_CONNECTION k v)) ?s"
  have m: "mask_credentials c = JObj ?m" by (simp only: mask_credentials_def mask_obj)
  have "AList.delete ''withheldFields'' ?s = ?s"
    using without_withheld_idem [of c] by simp
  then have w: "withoutWithheldFields (JObj ?m) = ?m"
    by (simp add: map_delete_entries [symmetric])
  have p: "project_entries ?m PUBLIC_CONNECTION = project_entries ?s PUBLIC_CONNECTION"
    using projectField_mask [OF public_shape_ok, of "JObj ?s"]
    by (simp add: mask_obj projectField_Shape del: mask_value.simps(4))
  have "flattenWithheld (hidden_entries ?m PUBLIC_CONNECTION) [] = flattenWithheld (hidden_entries ?s PUBLIC_CONNECTION) []"
    unfolding hidden_entries_mask [OF public_shape_ok] by (rule flatten_blank)
  then show ?thesis by (simp only: m view_of_object Let_def w p)
qed

subsection \<open>Properties of the view\<close>

text \<open>
  The response for a connection holds exactly the leaves the allowlist names, with their stored
  values; besides them it has only the list of withheld field names.
\<close>

theorem public_view_exact:
  assumes "k \<noteq> ''withheldFields''" and "\<not> is_object_type leaf"
  shows "json_at (Key k # p) (toPublicConnection c) = Some leaf
    \<longleftrightarrow> published (Key k # p) \<and> json_at (Key k # p) c = Some leaf"
proof -
  let ?s = "JObj (withoutWithheldFields c)"
  have "json_at (Key k # p) (toPublicConnection c) = Some leaf \<longleftrightarrow>
      (\<exists>w. projectField ?s (Shape PUBLIC_CONNECTION) = Some w \<and> json_at (Key k # p) w = Some leaf)"
    unfolding view_field [OF assms(1)] by (simp add: projectField_Shape)
  then show ?thesis
    unfolding projected_leaf [OF public_shape_ok assms(2)] published_def without_withheld_at [OF assms(1)] .
qed

text \<open>A Postgres connection with both credentials, and a DuckDB one with an attached database.\<close>

definition demo_postgres :: json where
  "demo_postgres = JObj [(''name'', JStr ''pg''), (''type'', JStr ''postgres''),
     (''postgresConnection'', JObj [(''host'', JStr ''db''), (''port'', JNum 5432), (''password'', JStr ''hunter2'')])]"

definition demo_duckdb :: json where
  "demo_duckdb = JObj [(''name'', JStr ''d''), (''duckdbConnection'', JObj [(''attachedDatabases'', JArr
     [JObj [(''name'', JStr ''lake''), (''s3Connection'', JObj [(''region'', JStr ''eu''), (''secretAccessKey'', JStr ''k'')])]])])]"

lemma public_view_exact_witness:
  "json_at [Key ''postgresConnection'', Key ''host''] (toPublicConnection demo_postgres) = Some (JStr ''db'')
   \<and> json_at [Key ''postgresConnection'', Key ''password''] (toPublicConnection demo_postgres) \<noteq> Some (JStr ''hunter2'')"
  using public_view_exact [of "''postgresConnection''" "JStr ''db''" "[Key ''host'']" demo_postgres]
    public_view_exact [of "''postgresConnection''" "JStr ''hunter2''" "[Key ''password'']" demo_postgres]
  by (simp add: published_def shape_defs demo_postgres_def)

text \<open>
  No credential is readable in the view: for every credential field of every connection type,
  in the connection itself or in an attached database, there is nothing at its position.
\<close>

definition CREDENTIALS :: "string list list" where
  "CREDENTIALS =
     [[''postgresConnection'', ''password''], [''postgresConnection'', ''connectionString''],
      [''bigqueryConnection'', ''serviceAccountKeyJson''],
      [''snowflakeConnection'', ''password''], [''snowflakeConnection'', ''privateKey''],
      [''snowflakeConnection'', ''privateKeyPass''],
      [''trinoConnection'', ''password''], [''trinoConnection'', ''peakaKey''],
      [''databricksConnection'', ''token''], [''databricksConnection'', ''oauthClientSecret''],
      [''mysqlConnection'', ''password''], [''motherduckConnection'', ''accessToken''],
      [''publisherConnection'', ''accessToken''],
      [''proxy'', ''ssh'', ''privateKey''], [''proxy'', ''ssh'', ''privateKeyPass''],
      [''ducklakeConnection'', ''storage'', ''s3Connection'', ''secretAccessKey''],
      [''ducklakeConnection'', ''storage'', ''s3Connection'', ''sessionToken''],
      [''ducklakeConnection'', ''storage'', ''gcsConnection'', ''secret''],
      [''ducklakeConnection'', ''catalog'', ''postgresConnection'', ''password''],
      [''ducklakeConnection'', ''catalog'', ''postgresConnection'', ''connectionString'']]"

definition ATTACHED_CREDENTIALS :: "string list list" where
  "ATTACHED_CREDENTIALS =
     [[''bigqueryConnection'', ''serviceAccountKeyJson''], [''snowflakeConnection'', ''password''],
       [''snowflakeConnection'', ''privateKey''], [''snowflakeConnection'', ''privateKeyPass''],
      [''postgresConnection'', ''password''],
      [''postgresConnection'', ''connectionString''], [''gcsConnection'', ''secret''],
      [''s3Connection'', ''secretAccessKey''], [''s3Connection'', ''sessionToken''],
      [''azureConnection'', ''sasUrl''], [''azureConnection'', ''clientSecret'']]"

definition credential_positions :: "json_step list set" where
  "credential_positions = map Key ` set CREDENTIALS
     \<union> {Key ''duckdbConnection'' # Key ''attachedDatabases'' # Item i # map Key c | i c. c \<in> set ATTACHED_CREDENTIALS}"

lemma credential_unlisted: "p \<in> credential_positions \<Longrightarrow> spec_at p (Shape PUBLIC_CONNECTION) = None"
proof -
  have top: "\<forall>c \<in> set CREDENTIALS. spec_at (map Key c) (Shape PUBLIC_CONNECTION) = None"
    and att: "\<forall>c \<in> set ATTACHED_CREDENTIALS. spec_at (map Key c) (Shape ATTACHED_DATABASE) = None"
    by code_simp+
  have "map_of PUBLIC_CONNECTION ''duckdbConnection'' = Some (Shape DUCKDB)"
    and "map_of DUCKDB ''attachedDatabases'' = Some (ListOf ATTACHED_DATABASE)"
    by (simp_all add: PUBLIC_CONNECTION_def DUCKDB_def)
  then have "spec_at (Key ''duckdbConnection'' # Key ''attachedDatabases'' # Item i # q) (Shape PUBLIC_CONNECTION)
      = spec_at q (Shape ATTACHED_DATABASE)" for i q
    by simp
  with top att show "p \<in> credential_positions \<Longrightarrow> spec_at p (Shape PUBLIC_CONNECTION) = None"
    unfolding credential_positions_def by auto
qed

theorem credentials_never_returned:
  assumes "p \<in> credential_positions"
  shows "json_at p (toPublicConnection c) = None"
proof -
  let ?w = "JObj (project_entries (withoutWithheldFields c) PUBLIC_CONNECTION)"
  have "projectField (JObj (withoutWithheldFields c)) (Shape PUBLIC_CONNECTION) = Some ?w"
    by (simp add: projectField_Shape)
  then have "json_at p ?w = None"
    using projected_position public_shape_ok credential_unlisted [OF assms] by (metis option.exhaust)
  moreover have "\<exists>k q. p = Key k # q \<and> k \<noteq> ''withheldFields''"
    using assms by (auto simp: credential_positions_def CREDENTIALS_def)
  ultimately show ?thesis using view_field by metis
qed

lemma credentials_never_returned_witness:
  "json_at [Key ''postgresConnection'', Key ''password''] demo_postgres = Some (JStr ''hunter2'')
   \<and> json_at [Key ''postgresConnection'', Key ''password''] (toPublicConnection demo_postgres) = None"
proof -
  have "[Key ''postgresConnection'', Key ''password''] \<in> credential_positions"
    by (simp add: credential_positions_def CREDENTIALS_def)
  from credentials_never_returned [OF this] show ?thesis by (simp add: demo_postgres_def)
qed

text \<open>
  The view does not depend on the value of anything it does not publish, only on which fields
  are set and on the names of array entries: two configurations that agree once their credentials
  are masked give the same response, withheld names included.
\<close>

theorem view_noninterference:
  assumes "mask_credentials c = mask_credentials c'"
  shows "toPublicConnection c = toPublicConnection c'"
  using view_of_mask [of c] view_of_mask [of c'] assms by simp

lemma view_noninterference_witness:
  "toPublicConnection demo_postgres = toPublicConnection (JObj [(''name'', JStr ''pg''), (''type'', JStr ''postgres''),
     (''postgresConnection'', JObj [(''host'', JStr ''db''), (''port'', JNum 5432), (''password'', JStr ''other'')])])"
  by (rule view_noninterference)
    (simp add: mask_credentials_def shape_defs demo_postgres_def UNSAFE_KEYS_def)

text \<open>
  The names of withheld fields are not only field names: in an array no shape lists, the \<open>name\<close> of
  an entry becomes part of the path that is published.
\<close>

lemma withheld_path_publishes_name:
  "json_at [Key ''withheldFields'', Item 0]
     (toPublicConnection (JObj [(''hidden'', JArr [JObj [(''name'', JStr ''value''), (''x'', JStr ''y'')]])]))
     = Some (JStr ''hidden.value.x'')"
  by code_simp

end
