(* ===== verification/ConnectionMerge.thy ===== *)
theory ConnectionMerge
  imports ConnectionView
begin

text \<open>
  The merge of a connection update over the stored configuration (\<open>mergeConnectionUpdate\<close> of
  \<open>service/connection_public_view.ts\<close>): what the view hides is put back where the update did not
  speak for itself, except for a credential whose alternative the update supplies. An update that
  echoes the view changes nothing.
\<close>

subsection \<open>Merging an update\<close>

record CredentialSlot =
  selects :: "string list"
  slot_fields :: "string list"

text \<open>A path is a field, or a field of a sub-object: \<open>(parent, leaf)\<close> is the source's \<open>parent.leaf\<close>.\<close>

definition slot :: "string list \<Rightarrow> string list \<Rightarrow> CredentialSlot" where
  "slot ss fs = \<lparr>selects = ss, slot_fields = fs\<rparr>"

definition EXCLUSIVE_SLOTS :: "CredentialSlot list list" where
  "EXCLUSIVE_SLOTS =
     [[slot [''connectionString''] [''connectionString''], slot [''password''] [''password'']],
      [slot [''privateKey''] [''privateKey'', ''privateKeyPass''], slot [''password''] [''password'']],
      [slot [''peakaKey''] [''peakaKey''], slot [''password''] [''password'']],
      [slot [''s3Connection.secretAccessKey''] [''s3Connection''],
       slot [''gcsConnection.secret''] [''gcsConnection''],
       slot [''azureConnection.sasUrl'', ''azureConnection.clientSecret''] [''azureConnection'']],
      [slot [''token''] [''token''],
       slot [''oauthClientSecret''] [''oauthClientId'', ''oauthClientSecret'']]]"

fun isSupplied :: "json \<Rightarrow> bool" where
  "isSupplied JNull = False"
| "isSupplied (JStr s) = (s \<noteq> [])"
| "isSupplied (JObj fs) = (fs \<noteq> [])"
| "isSupplied v = True"

definition supplied_field :: "json_object \<Rightarrow> string \<Rightarrow> bool" where
  "supplied_field patch path = (case map_of patch path of Some v \<Rightarrow> isSupplied v | None \<Rightarrow> False)"

definition suppliedAt :: "json_object \<Rightarrow> string \<Rightarrow> bool" where
  "suppliedAt patch path =
     (case index_of CHR ''.'' path of
        None \<Rightarrow> supplied_field patch path
      | Some dot \<Rightarrow> (case map_of patch (take dot path) of
            Some (JObj parent) \<Rightarrow> supplied_field parent (drop (Suc dot) path)
          | _ \<Rightarrow> False))"

text \<open>\<open>isPlainObject (patch[field])\<close>.\<close>

definition object_field :: "json_object \<Rightarrow> string \<Rightarrow> bool" where
  "object_field patch field = (case map_of patch field of Some v \<Rightarrow> is_plain_object v | None \<Rightarrow> False)"

text \<open>The slots of a group that the patch selects, by their index in the group.\<close>

definition selected_slots :: "json_object \<Rightarrow> CredentialSlot list \<Rightarrow> nat list" where
  "selected_slots patch slots =
     (let declared = List.filter (\<lambda>i. \<exists>f \<in> set (slot_fields (slots ! i)). object_field patch f) [0..<length slots]
      in if length declared = 1 then declared
         else List.filter (\<lambda>i. \<exists>p \<in> set (selects (slots ! i)). suppliedAt patch p) [0..<length slots])"

definition group_exclusions :: "json_object \<Rightarrow> CredentialSlot list \<Rightarrow> string list" where
  "group_exclusions patch slots =
     (let selected = selected_slots patch slots in
      if length selected \<noteq> 1 then []
      else concat (map (\<lambda>i. if i = hd selected then [] else slot_fields (slots ! i)) [0..<length slots]))"

definition exclusionsFor :: "json_object \<Rightarrow> string set" where
  "exclusionsFor patch = set (concat (map (group_exclusions patch) EXCLUSIVE_SLOTS))"

text \<open>
  \<open>reinstate\<close>: the loop over the hidden fields builds \<open>out\<close>; \<open>patch\<close> is what the update sent.
  \<open>reinstate_item\<close> is the callback of the array case.
\<close>

lemma size_nth: "i < length hs \<Longrightarrow> size (hs ! i) \<le> size_list size hs"
  by (rule size_list_estimation' [where x = "hs ! i"]) simp_all

function reinstate :: "json \<Rightarrow> json \<Rightarrow> json"
  and reinstate_fields :: "json_object \<Rightarrow> string set \<Rightarrow> json_object \<Rightarrow> json_object \<Rightarrow> json_object"
  and reinstate_item :: "json list \<Rightarrow> json \<Rightarrow> json" where
  "reinstate patch hidden =
     (case hidden of
        JObj hs \<Rightarrow> (case patch of
            JNull \<Rightarrow> JNull
          | JObj ps \<Rightarrow> JObj (reinstate_fields ps (exclusionsFor ps) hs ps)
          | _ \<Rightarrow> patch)
      | _ \<Rightarrow> patch)"
| "reinstate_fields patch skip [] out = out"
| "reinstate_fields patch skip ((field, hidden_value) # hidden) out =
     reinstate_fields patch skip hidden
       (if field \<in> UNSAFE_KEYS \<or> field \<in> skip then out
        else case map_of patch field of
          None \<Rightarrow> AList.update field hidden_value out
        | Some patch_value \<Rightarrow>
            AList.update field
              (case hidden_value of
                 JArr hs \<Rightarrow> (case patch_value of
                     JArr items \<Rightarrow> JArr (map (reinstate_item hs) items)
                   | _ \<Rightarrow> reinstate patch_value hidden_value)
               | _ \<Rightarrow> reinstate patch_value hidden_value) out)"
| "reinstate_item hs item =
     (case named item of
        None \<Rightarrow> item
      | Some n \<Rightarrow> (case List.find (\<lambda>candidate. named candidate = Some n) hs of
            None \<Rightarrow> item
          | Some m \<Rightarrow> reinstate item m))"
  by pat_completeness auto

termination
  by (relation "measure (\<lambda>x. case x of
        Inl (patch, hidden) \<Rightarrow> 2 * size hidden + 1
      | Inr (Inl (patch, skip, hidden, out)) \<Rightarrow> 2 * size_list (size_prod (\<lambda>_. 0) size) hidden + 2
      | Inr (Inr (hs, item)) \<Rightarrow> 2 * size_list size hs + 2)")
     (auto simp: find_Some_iff dest: size_nth)

text \<open>
  \<open>mergeConnectionUpdate\<close>. The patch may be \<open>null\<close> or no object at all, which is not a write and
  leaves the tag of the configuration alone.
\<close>

definition mergeConnectionUpdate :: "json \<Rightarrow> json \<Rightarrow> json" where
  "mergeConnectionUpdate stored patch =
     (let incoming = withoutWithheldFields patch;
          current = withoutWithheldFields stored;
          merged = spread current incoming;
          shallow = (case patch of
              JObj ps \<Rightarrow> if map_of ps ''configEtag'' = None then AList.delete ''configEtag'' merged else merged
            | _ \<Rightarrow> merged);
          hidden = hidden_entries current PUBLIC_CONNECTION
      in if hidden = [] then JObj shallow
         else reinstate (JObj shallow) (JObj hidden))"

subsection \<open>What the patch says stays\<close>

text \<open>The value \<open>reinstate_fields\<close> writes for a field the patch has.\<close>

definition reinstate_value :: "json \<Rightarrow> json \<Rightarrow> json" where
  "reinstate_value v hidden =
     (case hidden of
        JArr hs \<Rightarrow> (case v of JArr items \<Rightarrow> JArr (map (reinstate_item hs) items) | _ \<Rightarrow> reinstate v hidden)
      | _ \<Rightarrow> reinstate v hidden)"

lemma reinstate_fields_step:
  "reinstate_fields patch skip ((field, hidden_value) # hidden) out =
     reinstate_fields patch skip hidden
       (if field \<in> UNSAFE_KEYS \<or> field \<in> skip then out
        else case map_of patch field of
          None \<Rightarrow> AList.update field hidden_value out
        | Some v \<Rightarrow> AList.update field (reinstate_value v hidden_value) out)"
  by (cases "map_of patch field") (simp_all add: reinstate_value_def)

declare reinstate.simps [simp del] reinstate_fields.simps(2) [simp del] reinstate_item.simps [simp del]

lemma reinstate_leaf [simp]: "\<not> is_object_type v \<Longrightarrow> reinstate v hidden = v"
  by (cases v) (simp_all add: reinstate.simps split: json.splits)

lemma reinstate_value_leaf [simp]: "\<not> is_object_type v \<Longrightarrow> reinstate_value v hidden = v"
  by (cases v) (simp_all add: reinstate_value_def split: json.splits)

lemma reinstate_arr [simp]: "reinstate (JArr items) hidden = JArr items"
  by (simp add: reinstate.simps split: json.splits)

lemma reinstate_obj:
  "reinstate (JObj ps) hidden = (case hidden of
      JObj hs \<Rightarrow> JObj (reinstate_fields ps (exclusionsFor ps) hs ps) | _ \<Rightarrow> JObj ps)"
  by (simp add: reinstate.simps split: json.split)

lemma reinstate_value_obj: "reinstate_value (JObj ps) hidden = reinstate (JObj ps) hidden"
  by (simp add: reinstate_value_def split: json.splits)

lemma reinstate_fields_skip:
  "f \<in> skip \<Longrightarrow> map_of (reinstate_fields patch skip hidden out) f = map_of out f"
  by (induction hidden arbitrary: out)
    (auto simp: reinstate_fields_step update_conv' split: prod.splits option.splits)

lemma reinstate_fields_patched:
  assumes "map_of patch f = Some v" and "map_of out f = Some y" and "y = v \<or> (\<exists>h. y = reinstate_value v h)"
  shows "\<exists>y. map_of (reinstate_fields patch skip hidden out) f = Some y \<and> (y = v \<or> (\<exists>h. y = reinstate_value v h))"
  using assms(2,3)
proof (induction hidden arbitrary: out y)
  case (Cons a hidden)
  obtain g h where a: "a = (g, h)" by force
  define out' where "out' = (if g \<in> UNSAFE_KEYS \<or> g \<in> skip then out
        else case map_of patch g of
          None \<Rightarrow> AList.update g h out | Some v \<Rightarrow> AList.update g (reinstate_value v h) out)"
  have "\<exists>y'. map_of out' f = Some y' \<and> (y' = v \<or> (\<exists>h. y' = reinstate_value v h))"
    using Cons.prems assms(1) by (cases "g = f"; cases "map_of patch g") (auto simp: out'_def update_conv')
  with Cons.IH show ?case unfolding a reinstate_fields_step out'_def by blast
qed auto

lemma find_named:
  assumes "List.find (\<lambda>c. named c = Some n) hs = Some m"
  shows "\<exists>fs. m = JObj fs"
proof -
  have "named m = Some n" using assms unfolding find_Some_iff by metis
  then show ?thesis by (cases m) simp_all
qed

lemma reinstate_item_value:
  "reinstate_item hs item = item \<or> (\<exists>h. reinstate_item hs item = reinstate_value item h)"
proof (cases "\<exists>n m. named item = Some n \<and> List.find (\<lambda>c. named c = Some n) hs = Some m")
  case True
  then obtain n m where nm: "named item = Some n" "List.find (\<lambda>c. named c = Some n) hs = Some m" by blast
  then obtain fs where "m = JObj fs" using find_named by blast
  with nm have "reinstate_item hs item = reinstate_value item m"
    by (simp add: reinstate_item.simps reinstate_value_def)
  then show ?thesis by blast
qed (auto simp: reinstate_item.simps split: option.splits)

lemma reinstate_position:
  "json_at q p = Some x \<Longrightarrow>
   \<exists>y. json_at q (reinstate_value p h) = Some y \<and> (y = x \<or> (\<exists>h'. y = reinstate_value x h'))"
proof (induction q arbitrary: p h)
  case (Cons s q)
  show ?case
  proof (cases p)
    case (JObj ps)
    with Cons.prems obtain k v where k: "s = Key k" "map_of ps k = Some v" "json_at q v = Some x"
      by (cases s) (auto split: option.splits)
    show ?thesis
    proof (cases "\<exists>hs. h = JObj hs")
      case True
      then obtain hs where h: "h = JObj hs" by blast
      obtain y where y: "map_of (reinstate_fields ps (exclusionsFor ps) hs ps) k = Some y"
          "y = v \<or> (\<exists>h'. y = reinstate_value v h')"
        using reinstate_fields_patched [OF k(2,2)] by blast
      with k Cons.IH [OF k(3)] show ?thesis
        by (auto simp: JObj h reinstate_value_obj reinstate_obj)
    next
      case False
      then have "reinstate_value p h = p" by (cases h) (simp_all add: JObj reinstate_value_obj reinstate_obj)
      with Cons.prems show ?thesis by simp
    qed
  next
    case (JArr items)
    with Cons.prems obtain i where i: "s = Item i" "i < length items" "json_at q (items ! i) = Some x"
      by (cases s) (auto split: if_splits)
    show ?thesis
    proof (cases h)
      case (JArr hs)
      with reinstate_item_value [of hs "items ! i"] Cons.IH [OF i(3)] i \<open>p = JArr items\<close> show ?thesis
        by (auto simp: reinstate_value_def)
    qed (use Cons.prems JArr in \<open>simp_all add: reinstate_value_def\<close>)
  qed (use Cons.prems in \<open>cases s; simp\<close>)+
qed auto

text \<open>The part of \<open>mergeConnectionUpdate\<close> before anything is reinstated.\<close>

definition shallow_merge :: "json_object \<Rightarrow> json \<Rightarrow> json_object" where
  "shallow_merge current patch =
     (let merged = spread current (withoutWithheldFields patch)
      in case patch of
          JObj ps \<Rightarrow> if map_of ps ''configEtag'' = None then AList.delete ''configEtag'' merged else merged
        | _ \<Rightarrow> merged)"

lemma merge_eq:
  "mergeConnectionUpdate stored patch =
     reinstate_value (JObj (shallow_merge (withoutWithheldFields stored) patch))
       (JObj (hidden_entries (withoutWithheldFields stored) PUBLIC_CONNECTION))"
  by (simp add: mergeConnectionUpdate_def shallow_merge_def Let_def reinstate_value_obj reinstate_obj)

lemma shallow_merge_patched:
  assumes "distinct (map fst ps)" and "map_of ps k = Some v" and "k \<noteq> ''withheldFields''"
  shows "map_of (shallow_merge current (JObj ps)) k = Some v"
proof -
  have "distinct (map fst (AList.delete ''withheldFields'' ps))"
    using assms(1) by (rule AList.distinct_delete)
  then have "map_of (spread current (AList.delete ''withheldFields'' ps)) k = Some v"
    using assms(2,3) by (simp add: map_of_spread)
  then show ?thesis using assms(2) by (auto simp: shallow_merge_def Let_def)
qed

lemma merge_position:
  assumes "distinct_keys patch" and "k \<noteq> ''withheldFields''" and "json_at (Key k # q) patch = Some x"
  shows "\<exists>y. json_at (Key k # q) (mergeConnectionUpdate stored patch) = Some y
      \<and> (y = x \<or> (\<exists>h. y = reinstate_value x h))"
proof -
  obtain ps v where ps: "patch = JObj ps" "map_of ps k = Some v" "json_at q v = Some x"
    using assms(3) by (cases patch) (auto split: option.splits)
  with assms have "json_at (Key k # q) (JObj (shallow_merge (withoutWithheldFields stored) patch)) = Some x"
    by (simp add: shallow_merge_patched)
  then show ?thesis unfolding merge_eq by (rule reinstate_position)
qed

text \<open>
  A value the update supplies always wins: every leaf of the update is in the merged
  configuration at the same position, the empty string that clears a credential included.
\<close>

theorem supplied_value_wins:
  assumes "distinct_keys patch" and "k \<noteq> ''withheldFields''"
    and "json_at (Key k # q) patch = Some leaf" and "\<not> is_object_type leaf"
  shows "json_at (Key k # q) (mergeConnectionUpdate stored patch) = Some leaf"
  using merge_position [OF assms(1-3)] assms(4) by auto

text \<open>
  Supplying one of several alternative credentials drops the others: where a sub-object of the
  update selects one slot of a group, no field of a sibling slot survives from the stored
  configuration, in the sub-object itself or in any it is nested in.
\<close>

theorem exclusive_slot_drops_siblings:
  assumes "distinct_keys patch" and "k \<noteq> ''withheldFields''"
    and "json_at (Key k # q) patch = Some (JObj ps)" and "field \<in> exclusionsFor ps"
  shows "json_at ((Key k # q) @ [Key field]) (mergeConnectionUpdate stored patch) = map_of ps field"
proof -
  obtain y where y: "json_at (Key k # q) (mergeConnectionUpdate stored patch) = Some y"
      "y = JObj ps \<or> (\<exists>h. y = reinstate_value (JObj ps) h)"
    using merge_position [OF assms(1-3)] by blast
  have "\<exists>ms. y = JObj ms \<and> map_of ms field = map_of ps field"
    using y(2)
  proof (elim disjE exE)
    fix h assume "y = reinstate_value (JObj ps) h"
    then show ?thesis
      by (cases h) (simp_all add: reinstate_value_obj reinstate_obj reinstate_fields_skip [OF assms(4)])
  qed simp
  then obtain ms where "y = JObj ms" "map_of ms field = map_of ps field" by blast
  with y(1) show ?thesis unfolding json_at_append by (simp split: option.splits)
qed

definition demo_update :: json where
  "demo_update = JObj [(''postgresConnection'', JObj [(''connectionString'', JStr ''postgres://h'')])]"

lemma supplied_value_wins_witness:
  "json_at [Key ''postgresConnection'', Key ''connectionString''] (mergeConnectionUpdate demo_postgres demo_update)
     = Some (JStr ''postgres://h'')"
  using supplied_value_wins [of demo_update "''postgresConnection''" "[Key ''connectionString'']" "JStr ''postgres://h''" demo_postgres]
  by (simp add: demo_update_def)

lemma demo_update_excludes: "''password'' \<in> exclusionsFor [(''connectionString'', JStr ''postgres://h'')]"
  by code_simp

lemma exclusive_slot_drops_siblings_witness:
  "json_at [Key ''postgresConnection'', Key ''password''] (mergeConnectionUpdate demo_postgres demo_update) = None"
  using exclusive_slot_drops_siblings [of demo_update "''postgresConnection''" "[]" _ "''password''" demo_postgres]
    demo_update_excludes
  by (simp add: demo_update_def)


subsection \<open>An update that echoes the view\<close>

text \<open>
  Configurations for which nothing is lost: shaped fields hold objects and listed arrays named
  entries with distinct names, an object store that a shape does not list is not configured, no
  field has the name of a prototype key, and a connection has no unlisted container at its top.
\<close>

definition STORE_FIELDS :: "string set" where
  "STORE_FIELDS = {''s3Connection'', ''gcsConnection'', ''azureConnection''}"

fun storable :: "PublicField \<Rightarrow> json \<Rightarrow> bool" where
  "storable (Shape shape) v \<longleftrightarrow>
     (case v of
        JObj fs \<Rightarrow> distinct (map fst fs) \<and> list_all (\<lambda>(k, w). k \<notin> UNSAFE_KEYS \<and>
           (case map_of shape k of None \<Rightarrow> k \<notin> STORE_FIELDS | Some spec \<Rightarrow> storable spec w)) fs
      | _ \<Rightarrow> False)"
| "storable (ListOf shape) v \<longleftrightarrow>
     (case v of
        JArr items \<Rightarrow> list_all (\<lambda>item. storable (Shape shape) item \<and> named item \<noteq> None) items
          \<and> distinct (map named items)
      | _ \<Rightarrow> False)"
| "storable Scalar v \<longleftrightarrow> True"
| "storable AnyValue v \<longleftrightarrow> True"

definition storable_connection :: "json \<Rightarrow> bool" where
  "storable_connection c \<longleftrightarrow> storable (Shape PUBLIC_CONNECTION) (JObj (withoutWithheldFields c))
     \<and> list_all (\<lambda>(k, v). map_of PUBLIC_CONNECTION k \<in> {None, Some Scalar} \<longrightarrow> \<not> is_object_type v)
         (withoutWithheldFields c)"

text \<open>
  A shape lists a credential slot only where it may: no field that selects a slot, the fields of a
  slot as scalars, and an object store as a shape without its credentials.
\<close>

definition FLAT_SELECTS :: "string list" where
  "FLAT_SELECTS = [''connectionString'', ''password'', ''privateKey'', ''peakaKey'', ''token'', ''oauthClientSecret'']"

definition FLAT_FIELDS :: "string list" where
  "FLAT_FIELDS = FLAT_SELECTS @ [''privateKeyPass'', ''oauthClientId'']"

definition store_shape_ok :: "PublicShape \<Rightarrow> string \<Rightarrow> string list \<Rightarrow> bool" where
  "store_shape_ok shape store leaves \<longleftrightarrow>
     (case map_of shape store of
        None \<Rightarrow> True
      | Some (Shape inner) \<Rightarrow> list_all (\<lambda>leaf. map_of inner leaf = None) leaves
      | _ \<Rightarrow> False)"

definition level_ok :: "PublicShape \<Rightarrow> bool" where
  "level_ok shape \<longleftrightarrow>
     list_all (\<lambda>f. map_of shape f = None) FLAT_SELECTS
     \<and> list_all (\<lambda>f. map_of shape f \<in> {None, Some Scalar}) FLAT_FIELDS
     \<and> store_shape_ok shape ''s3Connection'' [''secretAccessKey'']
     \<and> store_shape_ok shape ''gcsConnection'' [''secret'']
     \<and> store_shape_ok shape ''azureConnection'' [''sasUrl'', ''clientSecret'']"

fun slots_ok :: "PublicField \<Rightarrow> bool" where
  "slots_ok (Shape shape) \<longleftrightarrow> level_ok shape \<and> list_all (\<lambda>(f, spec). slots_ok spec) shape"
| "slots_ok (ListOf shape) \<longleftrightarrow> level_ok shape \<and> list_all (\<lambda>(f, spec). slots_ok spec) shape"
| "slots_ok spec \<longleftrightarrow> True"

lemma public_slots_ok: "slots_ok (Shape PUBLIC_CONNECTION)"
  by code_simp

lemma slots_ok_field: "slots_ok (Shape shape) \<Longrightarrow> map_of shape f = Some spec \<Longrightarrow> slots_ok spec"
  by (auto simp: list_all_iff dest: map_of_SomeD)

text \<open>Lookups in what is hidden.\<close>

definition hidden_value :: "string \<Rightarrow> PublicField option \<Rightarrow> json \<Rightarrow> json option" where
  "hidden_value field spec v =
     (if field \<in> UNSAFE_KEYS then None
      else case spec of
        None \<Rightarrow> Some v
      | Some AnyValue \<Rightarrow> None
      | Some Scalar \<Rightarrow> if is_object_type v then Some v else None
      | Some (ListOf shape) \<Rightarrow>
          (case v of
             JArr items \<Rightarrow> if \<exists>i \<in> set items. hidden_item shape i \<noteq> []
                           then Some (JArr (map (\<lambda>i. JObj (hidden_item shape i)) items)) else None
           | _ \<Rightarrow> Some v)
      | Some (Shape inner) \<Rightarrow>
          (case v of
             JObj fs \<Rightarrow> if hidden_entries fs inner = [] then None else Some (JObj (hidden_entries fs inner))
           | _ \<Rightarrow> None))"

lemma hidden_entries_Cons:
  "hidden_entries ((field, v) # fs) shape =
     (case hidden_value field (map_of shape field) v of None \<Rightarrow> [] | Some h \<Rightarrow> [(field, h)]) @ hidden_entries fs shape"
proof (cases "field \<in> UNSAFE_KEYS")
  case True
  then show ?thesis by (simp add: hidden_value_def Let_def)
next
  case safe: False
  show ?thesis
  proof (cases "map_of shape field")
    case None
    with safe show ?thesis by (simp add: hidden_value_def Let_def)
  next
    case (Some spec)
    show ?thesis
    proof (cases spec)
      case (ListOf items_shape)
      with Some safe hidden_list [OF _ safe, of shape items_shape _ fs] show ?thesis
        by (cases v) (simp_all add: hidden_value_def Let_def)
    next
      case (Shape inner)
      with Some safe show ?thesis by (cases v) (simp_all add: hidden_value_def Let_def)
    qed (use Some safe in \<open>simp_all add: hidden_value_def Let_def\<close>)
  qed
qed

declare hidden_entries.simps(2) [simp del]

lemma keys_hidden: "k \<in> fst ` set (hidden_entries fs shape) \<Longrightarrow> k \<in> fst ` set fs"
proof (induction fs)
  case (Cons a fs)
  obtain f v where a: "a = (f, v)" by force
  with Cons show ?case
    by (cases "hidden_value f (map_of shape f) v") (auto simp: hidden_entries_Cons)
qed simp

lemma distinct_hidden: "distinct (map fst fs) \<Longrightarrow> distinct (map fst (hidden_entries fs shape))"
proof (induction fs)
  case (Cons a fs)
  obtain f v where a: "a = (f, v)" by force
  with Cons keys_hidden [of f fs shape] show ?case
    by (cases "hidden_value f (map_of shape f) v") (auto simp: hidden_entries_Cons)
qed simp

lemma map_of_hidden:
  "distinct (map fst fs) \<Longrightarrow>
   map_of (hidden_entries fs shape) k = Option.bind (map_of fs k) (hidden_value k (map_of shape k))"
proof (induction fs)
  case (Cons a fs)
  obtain f v where a: "a = (f, v)" by force
  have "map_of (hidden_entries fs shape) f = None"
    using Cons.prems keys_hidden [of f fs shape] a by (auto simp: map_of_eq_None_iff)
  with Cons a show ?case
    by (cases "hidden_value f (map_of shape f) v"; cases "k = f") (simp_all add: hidden_entries_Cons)
qed simp

lemma map_of_reinstate:
  "distinct (map fst hidden) \<Longrightarrow>
   map_of (reinstate_fields patch skip hidden out) k =
     (case map_of hidden k of
        None \<Rightarrow> map_of out k
      | Some h \<Rightarrow> if k \<in> UNSAFE_KEYS \<or> k \<in> skip then map_of out k
          else case map_of patch k of None \<Rightarrow> Some h | Some v \<Rightarrow> Some (reinstate_value v h))"
proof (induction hidden arbitrary: out)
  case (Cons a hidden)
  obtain g h where a: "a = (g, h)" by force
  with Cons.prems have "map_of hidden g = None" by (simp add: map_of_eq_None_iff)
  with Cons.IH Cons.prems show ?case
    unfolding a reinstate_fields_step
    by (cases "k = g"; cases "map_of patch g"; cases "g \<in> UNSAFE_KEYS \<or> g \<in> skip") (simp_all add: update_conv' split: option.split)
qed simp

text \<open>What the view of an object level selects and excludes.\<close>

lemma group_exclusion_origin:
  assumes "k \<in> set (group_exclusions patch slots)"
    and "\<And>s p. s \<in> set slots \<Longrightarrow> p \<in> set (selects s) \<Longrightarrow> \<not> suppliedAt patch p"
  shows "\<exists>s \<in> set slots. k \<in> set (slot_fields s) \<and> (\<forall>f \<in> set (slot_fields s). \<not> object_field patch f)"
    and "\<exists>s \<in> set slots. \<exists>f \<in> set (slot_fields s). object_field patch f"
proof -
  let ?d = "List.filter (\<lambda>i. \<exists>f \<in> set (slot_fields (slots ! i)). object_field patch f) [0..<length slots]"
  have none: "List.filter (\<lambda>i. \<exists>p \<in> set (selects (slots ! i)). suppliedAt patch p) [0..<length slots] = []"
    using assms(2) [OF nth_mem] by (auto simp: filter_empty_conv)
  have one: "length ?d = 1" and sel: "selected_slots patch slots = ?d"
    using assms(1) none by (auto simp: group_exclusions_def selected_slots_def Let_def split: if_splits)
  then obtain j where j: "?d = [j]" by (auto simp: length_Suc_conv)
  obtain i where i: "i < length slots" "i \<noteq> j" "k \<in> set (slot_fields (slots ! i))"
    using assms(1) by (auto simp: group_exclusions_def Let_def sel j split: if_splits)
  have "i \<notin> set ?d" using i(2) j by simp
  then have "\<forall>f \<in> set (slot_fields (slots ! i)). \<not> object_field patch f" using i(1) by simp
  with i show "\<exists>s \<in> set slots. k \<in> set (slot_fields s) \<and> (\<forall>f \<in> set (slot_fields s). \<not> object_field patch f)"
    by (meson nth_mem)
  have "j \<in> set ?d" using j by simp
  then show "\<exists>s \<in> set slots. \<exists>f \<in> set (slot_fields s). object_field patch f"
    by (auto dest: nth_mem)
qed

lemma level_ok_shape:
  assumes "level_ok shape" and "shape_ok (Shape shape)"
  shows "f \<in> set FLAT_FIELDS \<Longrightarrow> \<not> object_field (project_entries fs shape) f"
    and "f \<in> set FLAT_SELECTS \<Longrightarrow> \<not> suppliedAt (project_entries fs shape) f"
proof -
  have d: "distinct (map fst shape)" using assms(2) by simp
  show "\<not> object_field (project_entries fs shape) f" if "f \<in> set FLAT_FIELDS"
  proof -
    have "map_of shape f \<in> {None, Some Scalar}" using assms(1) that by (simp add: level_ok_def list_all_iff)
    then show ?thesis
      by (auto simp: object_field_def map_of_project [OF d] bind_eq_Some_conv
          split: option.splits if_splits elim: is_object_type.elims is_plain_object.elims)
  qed
  show "\<not> suppliedAt (project_entries fs shape) f" if "f \<in> set FLAT_SELECTS"
  proof -
    have "map_of shape f = None" using assms(1) that by (simp add: level_ok_def list_all_iff)
    moreover have "\<forall>g \<in> set FLAT_SELECTS. index_of CHR ''.'' g = None" by code_simp
    moreover have "index_of CHR ''.'' f = None" using calculation(2) that by blast
    ultimately show ?thesis
      by (simp only: suppliedAt_def supplied_field_def map_of_project [OF d] option.case)
        (cases "map_of fs f"; simp)
  qed
qed

lemma store_shape_supplied:
  assumes "store_shape_ok shape store leaves" and "leaf \<in> set leaves" and "shape_ok (Shape shape)"
    and "path = store @ ''.'' @ leaf" and "CHR ''.'' \<notin> set store"
  shows "\<not> suppliedAt (project_entries fs shape) path"
proof -
  have path: "index_of CHR ''.'' path = Some (length store)" "take (length store) path = store"
      "drop (Suc (length store)) path = leaf"
    using assms(4,5) by (simp_all add: index_of_append_hit)
  have d: "distinct (map fst shape)" using assms(3) by simp
  show ?thesis
  proof (cases "map_of shape store")
    case None
    then show ?thesis by (simp add: suppliedAt_def path map_of_project [OF d] bind_eq_None_conv split: option.splits)
  next
    case (Some spec)
    with assms(1,2) obtain inner where inner: "spec = Shape inner" "map_of inner leaf = None"
      by (auto simp: store_shape_ok_def list_all_iff split: PublicField.splits)
    have "distinct (map fst inner)" using shape_ok_field [OF assms(3) Some] inner(1) by simp
    then have "map_of (project_entries gs inner) leaf = None" for gs
      by (simp add: map_of_project inner(2) bind_eq_None_conv)
    then show ?thesis
      by (cases "map_of fs store")
        (auto simp: suppliedAt_def path map_of_project [OF d] Some inner(1) projectField_Shape supplied_field_def
          split: json.splits)
  qed
qed

lemma store_shape_listed:
  "store_shape_ok shape store leaves \<Longrightarrow> map_of shape store = Some spec \<Longrightarrow> \<exists>inner. spec = Shape inner"
  by (cases spec) (simp_all add: store_shape_ok_def)

text \<open>The groups: selects and fields are flat, or those of the object stores.\<close>

lemma slot_names:
  "\<forall>slots \<in> set EXCLUSIVE_SLOTS. \<forall>s \<in> set slots. \<forall>p \<in> set (selects s).
     p \<in> set FLAT_SELECTS \<or> p \<in> {''s3Connection.secretAccessKey'', ''gcsConnection.secret'',
       ''azureConnection.sasUrl'', ''azureConnection.clientSecret''}"
  "\<forall>slots \<in> set EXCLUSIVE_SLOTS. (\<forall>s \<in> set slots. \<forall>f \<in> set (slot_fields s). f \<in> set FLAT_FIELDS)
     \<or> (\<forall>s \<in> set slots. \<forall>f \<in> set (slot_fields s). f \<in> STORE_FIELDS)"
  by code_simp+

lemma view_excludes_nothing_stored:
  assumes "level_ok shape" and "shape_ok (Shape shape)" and "storable (Shape shape) (JObj fs)"
    and "k \<in> exclusionsFor (project_entries fs shape)"
  shows "map_of fs k = None"
proof -
  let ?po = "project_entries fs shape"
  note flat = level_ok_shape [OF assms(1,2), of _ fs]
  have stores: "store_shape_ok shape ''s3Connection'' [''secretAccessKey'']"
      "store_shape_ok shape ''gcsConnection'' [''secret'']"
      "store_shape_ok shape ''azureConnection'' [''sasUrl'', ''clientSecret'']"
    using assms(1) by (simp_all add: level_ok_def)
  have nested: "\<not> suppliedAt ?po ''s3Connection.secretAccessKey''" "\<not> suppliedAt ?po ''gcsConnection.secret''"
      "\<not> suppliedAt ?po ''azureConnection.sasUrl''" "\<not> suppliedAt ?po ''azureConnection.clientSecret''"
    using store_shape_supplied [OF stores(1) _ assms(2) refl, of "''secretAccessKey''" fs]
      store_shape_supplied [OF stores(2) _ assms(2) refl, of "''secret''" fs]
      store_shape_supplied [OF stores(3) _ assms(2) refl, of "''sasUrl''" fs]
      store_shape_supplied [OF stores(3) _ assms(2) refl, of "''clientSecret''" fs]
    by simp_all
  have origin: "k \<in> STORE_FIELDS \<and> \<not> object_field ?po k"
  proof -
    obtain slots where s: "slots \<in> set EXCLUSIVE_SLOTS" "k \<in> set (group_exclusions ?po slots)"
      using assms(4) by (auto simp: exclusionsFor_def)
    have unsupplied: "\<not> suppliedAt ?po p" if "s \<in> set slots" "p \<in> set (selects s)" for s p
      using slot_names(1) s(1) that nested flat(2) by blast
    have "\<exists>s \<in> set slots. \<exists>f \<in> set (slot_fields s). object_field ?po f"
      and found: "\<exists>s \<in> set slots. k \<in> set (slot_fields s) \<and> (\<forall>f \<in> set (slot_fields s). \<not> object_field ?po f)"
      using group_exclusion_origin [OF s(2)] unsupplied by blast+
    then have "\<not> (\<forall>s \<in> set slots. \<forall>f \<in> set (slot_fields s). f \<in> set FLAT_FIELDS)"
      using flat(1) by blast
    then have "\<forall>s \<in> set slots. \<forall>f \<in> set (slot_fields s). f \<in> STORE_FIELDS"
      using slot_names(2) s(1) by blast
    then show ?thesis using found by blast
  qed
  show ?thesis
  proof (rule ccontr)
    assume "map_of fs k \<noteq> None"
    then obtain w where w: "map_of fs k = Some w" by auto
    have st: "case map_of shape k of None \<Rightarrow> k \<notin> STORE_FIELDS | Some spec \<Rightarrow> storable spec w"
      using assms(3) map_of_SomeD [OF w] by (auto simp: list_all_iff)
    with origin obtain spec where spec: "map_of shape k = Some spec" "storable spec w"
      by (auto split: option.splits)
    have "\<exists>leaves. store_shape_ok shape k leaves" using origin stores unfolding STORE_FIELDS_def by blast
    with spec(1) obtain inner where "spec = Shape inner" using store_shape_listed by blast
    with spec obtain gs where "w = JObj gs" by (auto split: json.splits)
    with spec w \<open>spec = Shape inner\<close> assms(2) have "object_field ?po k"
      by (simp add: object_field_def map_of_project projectField_Shape)
    with origin show False by simp
  qed
qed

text \<open>A field is whole again after the echo: what it shows, with what it hides put back.\<close>

definition echo_ok :: "PublicField \<Rightarrow> json \<Rightarrow> bool" where
  "echo_ok spec v \<longleftrightarrow> (\<forall>k. k \<notin> UNSAFE_KEYS \<longrightarrow>
     (case projectField v spec of
        None \<Rightarrow> hidden_value k (Some spec) v = Some v
      | Some pv \<Rightarrow> (case hidden_value k (Some spec) v of
            None \<Rightarrow> json_eq pv v
          | Some h \<Rightarrow> json_eq (reinstate_value pv h) v)))"

lemma storable_field:
  assumes "storable (Shape shape) (JObj fs)" and "map_of fs k = Some v"
  shows "k \<notin> UNSAFE_KEYS" and "map_of shape k = Some spec \<Longrightarrow> storable spec v"
  using assms(1) map_of_SomeD [OF assms(2)] by (auto simp: list_all_iff split: option.splits)

lemma hidden_value_unlisted [simp]: "k \<notin> UNSAFE_KEYS \<Longrightarrow> hidden_value k None v = Some v"
  by (simp add: hidden_value_def)

text \<open>An object: what is put back may carry the name of the entry as well.\<close>

definition echo_whole :: "PublicShape \<Rightarrow> json_object \<Rightarrow> bool" where
  "echo_whole shape fs \<longleftrightarrow> (\<forall>h. distinct (map fst h) \<longrightarrow>
     (\<forall>k. map_of h k = map_of (hidden_entries fs shape) k
        \<or> (\<exists>n. map_of h k = Some (JStr n) \<and> map_of (project_entries fs shape) k = Some (JStr n)
             \<and> map_of fs k = Some (JStr n))) \<longrightarrow>
     json_eq (reinstate (JObj (project_entries fs shape)) (JObj h)) (JObj fs))"

lemma echo_level:
  assumes "level_ok shape" and "shape_ok (Shape shape)" and "storable (Shape shape) (JObj fs)"
    and fields: "\<And>k v spec. map_of fs k = Some v \<Longrightarrow> map_of shape k = Some spec \<Longrightarrow> echo_ok spec v"
    and "distinct (map fst h)"
    and h: "\<And>k. map_of h k = map_of (hidden_entries fs shape) k
        \<or> (\<exists>n. map_of h k = Some (JStr n) \<and> map_of (project_entries fs shape) k = Some (JStr n)
             \<and> map_of fs k = Some (JStr n))"
  shows "json_eq (reinstate (JObj (project_entries fs shape)) (JObj h)) (JObj fs)"
proof -
  let ?po = "project_entries fs shape"
  have d: "distinct (map fst shape)" "distinct (map fst fs)" using assms(2,3) by simp_all
  note po = map_of_project [OF d(1), of fs] and hid = map_of_hidden [OF d(2), of shape]
  have "rel_option json_eq (map_of (reinstate_fields ?po (exclusionsFor ?po) h ?po) k) (map_of fs k)" for k
  proof (cases "map_of fs k")
    case None
    with h [of k] have "map_of h k = None" by (auto simp: hid)
    with None show ?thesis by (simp add: map_of_reinstate [OF assms(5)] po)
  next
    case (Some v)
    have safe: "k \<notin> UNSAFE_KEYS" by (rule storable_field(1) [OF assms(3) Some])
    have kept: "k \<notin> exclusionsFor ?po"
      using view_excludes_nothing_stored [OF assms(1-3)] Some by auto
    from h [of k] show ?thesis
    proof (elim disjE exE conjE)
      fix n assume n: "map_of h k = Some (JStr n)" "map_of ?po k = Some (JStr n)" "map_of fs k = Some (JStr n)"
      with safe kept show ?thesis by (simp add: map_of_reinstate [OF assms(5)] json_eq_same)
    next
      assume hk: "map_of h k = map_of (hidden_entries fs shape) k"
      show ?thesis
      proof (cases "map_of shape k")
        case None
        with Some safe kept hk show ?thesis
          by (simp add: map_of_reinstate [OF assms(5)] hid po json_eq_same)
      next
        case spec: (Some spec)
        with fields [OF Some spec, unfolded echo_ok_def, rule_format, OF safe] Some safe kept hk show ?thesis
          by (cases "projectField v spec"; cases "hidden_value k (Some spec) v")
            (simp_all add: map_of_reinstate [OF assms(5)] hid po json_eq_same)
      qed
    qed
  qed
  then show ?thesis by (simp add: reinstate_obj json_eq_obj)
qed

lemma spread_single_Nil: "spread [(k, v)] b \<noteq> []"
  using keys_spread [of "[(k, v)]" b] by auto

lemma hidden_item_empty: "hidden_item shape (JObj fs) = [] \<longleftrightarrow> hidden_entries fs shape = []"
  by (simp add: hidden_item_def Let_def spread_single_Nil split: option.split)

lemma named_safe: "''name'' \<notin> UNSAFE_KEYS"
  by (simp add: UNSAFE_KEYS_def)

lemma named_hidden_item:
  assumes "map_of shape ''name'' = Some Scalar" and "distinct (map fst fs)"
    and "named (JObj fs) = Some n" and "hidden_entries fs shape \<noteq> []"
  shows "hidden_item shape (JObj fs) = spread [(''name'', JStr n)] (hidden_entries fs shape)"
    and "named (JObj (hidden_item shape (JObj fs))) = Some n"
    and "map_of (hidden_item shape (JObj fs)) k = map_of (hidden_entries fs shape) k
      \<or> k = ''name'' \<and> map_of (hidden_item shape (JObj fs)) k = Some (JStr n)"
proof -
  have name: "map_of fs ''name'' = Some (JStr n)"
    using assms(3) by (simp split: option.splits json.splits)
  then have none: "map_of (hidden_entries fs shape) ''name'' = None"
    by (simp add: map_of_hidden [OF assms(2)] assms(1) hidden_value_def)
  show i: "hidden_item shape (JObj fs) = spread [(''name'', JStr n)] (hidden_entries fs shape)"
    using assms(3,4) by (simp add: hidden_item_def Let_def del: named.simps)
  note m = map_of_spread [OF distinct_hidden [OF assms(2)], of "[(''name'', JStr n)]" shape]
  show "named (JObj (hidden_item shape (JObj fs))) = Some n"
    unfolding i by (simp add: m none map_add_def)
  show "map_of (hidden_item shape (JObj fs)) k = map_of (hidden_entries fs shape) k
      \<or> k = ''name'' \<and> map_of (hidden_item shape (JObj fs)) k = Some (JStr n)"
    unfolding i by (auto simp: m none map_add_def split: option.splits)
qed

lemma echo_empty: "reinstate (JObj ps) (JObj []) = JObj ps"
  by (simp add: reinstate_obj)

text \<open>An entry of a listed array is matched with itself.\<close>

lemma echo_item:
  assumes "map_of shape ''name'' = Some Scalar" and "shape_ok (Shape shape)"
    and items: "list_all (\<lambda>item. storable (Shape shape) item \<and> named item \<noteq> None) items" "distinct (map named items)"
    and item: "JObj fs \<in> set items"
    and whole: "echo_whole shape fs"
  shows "json_eq (reinstate_item (map (\<lambda>i. JObj (hidden_item shape i)) items) (JObj (project_entries fs shape))) (JObj fs)"
proof -
  let ?hs = "map (\<lambda>i. JObj (hidden_item shape i)) items" and ?po = "project_entries fs shape"
  note level = whole [unfolded echo_whole_def, rule_format]
  have st: "storable (Shape shape) (JObj fs)" and "named (JObj fs) \<noteq> None"
    using items(1) item unfolding list_all_iff by blast+
  then obtain n where n: "named (JObj fs) = Some n" by blast
  then have nm: "map_of fs ''name'' = Some (JStr n)" by (simp split: option.splits json.splits)
  have d: "distinct (map fst fs)" "distinct (map fst shape)" using st assms(2) by simp_all
  have po: "map_of ?po ''name'' = Some (JStr n)" by (simp add: map_of_project [OF d(2)] nm assms(1))
  then have np: "named (JObj ?po) = Some n" by simp
  have own: "i = JObj fs" if "i \<in> set items" "named (JObj (hidden_item shape i)) = Some n" for i
  proof -
    have "storable (Shape shape) i" "named i \<noteq> None" using items(1) that(1) unfolding list_all_iff by blast+
    then obtain gs m where i: "i = JObj gs" "named (JObj gs) = Some m" "distinct (map fst gs)"
      by (cases i) auto
    have "hidden_entries gs shape \<noteq> []"
      using that(2) i(1) hidden_item_empty [of shape gs] by auto
    from named_hidden_item(2) [OF assms(1) i(3,2) this] that(2) i(1) have "m = n" by simp
    with i(1,2) n have "named i = named (JObj fs)" by simp
    with items(2) that(1) item show ?thesis by (meson distinct_map inj_onD)
  qed
  show ?thesis
  proof (cases "hidden_entries fs shape = []")
    case True
    have "named (JObj (hidden_item shape (JObj fs))) = None"
      using True hidden_item_empty [of shape fs] by simp
    with own have "List.find (\<lambda>c. named c = Some n) ?hs = None"
      unfolding find_None_iff by fastforce
    moreover have "json_eq (JObj ?po) (JObj fs)" using level [of "[]"] True by (simp add: echo_empty)
    ultimately show ?thesis by (simp add: reinstate_item.simps np del: named.simps)
  next
    case False
    note own_hidden = named_hidden_item [OF assms(1) d(1) n False]
    have "JObj (hidden_item shape (JObj fs)) \<in> set ?hs" using item by simp
    with own_hidden(2) have "\<exists>c \<in> set ?hs. named c = Some n" by blast
    then have "List.find (\<lambda>c. named c = Some n) ?hs \<noteq> None" unfolding find_None_iff by blast
    then obtain c where c: "List.find (\<lambda>c. named c = Some n) ?hs = Some c" by blast
    then have "c \<in> set ?hs" "named c = Some n" unfolding find_Some_iff by auto
    then obtain i where "i \<in> set items" "c = JObj (hidden_item shape i)" "named (JObj (hidden_item shape i)) = Some n"
      unfolding set_map by blast
    with own have c_own: "c = JObj (hidden_item shape (JObj fs))" by blast
    have "json_eq (reinstate (JObj ?po) c) (JObj fs)"
      unfolding c_own
    proof (rule level)
      show "distinct (map fst (hidden_item shape (JObj fs)))"
        unfolding own_hidden(1) by (rule distinct_spread) simp
      show "map_of (hidden_item shape (JObj fs)) k = map_of (hidden_entries fs shape) k
        \<or> (\<exists>n. map_of (hidden_item shape (JObj fs)) k = Some (JStr n) \<and> map_of ?po k = Some (JStr n)
             \<and> map_of fs k = Some (JStr n))" for k
        using own_hidden(3) [of k] nm po by blast
    qed
    with c np show ?thesis by (simp add: reinstate_item.simps del: named.simps)
  qed
qed

lemma reinstate_value_arr:
  "reinstate_value (JArr items) (JArr hs) = JArr (map (reinstate_item hs) items)"
  by (simp add: reinstate_value_def)

lemma level_parts:
  "slots_ok (Shape shape) \<Longrightarrow> level_ok shape" "slots_ok (ListOf shape) \<Longrightarrow> slots_ok (Shape shape)"
  by simp_all

lemma echo_value:
  "shape_ok spec \<Longrightarrow> slots_ok spec \<Longrightarrow> storable spec v \<Longrightarrow>
   echo_ok spec v \<and> (\<forall>shape fs. spec = Shape shape \<longrightarrow> v = JObj fs \<longrightarrow> echo_whole shape fs)"
proof (induction spec v rule: storable.induct)
  case (1 shape v)
  then obtain fs where v: "v = JObj fs" by (auto split: json.splits)
  note st = 1(4) [unfolded v]
  have field: "echo_ok spec w" if "map_of fs k = Some w" "map_of shape k = Some spec" for k w spec
    using 1(1) [OF v map_of_SomeD [OF that(1)] refl that(2) shape_ok_field [OF 1(2) that(2)]
      slots_ok_field [OF 1(3) that(2)] storable_field(2) [OF st that]] by blast
  have whole: "echo_whole shape fs"
    unfolding echo_whole_def
    by (intro allI impI echo_level [OF level_parts(1) [OF 1(3)] 1(2) st field]) blast+
  have "distinct (map fst (hidden_entries fs shape))" using st distinct_hidden by simp
  then have "json_eq (reinstate (JObj (project_entries fs shape)) (JObj (hidden_entries fs shape))) (JObj fs)"
    using whole unfolding echo_whole_def by blast
  then have "echo_ok (Shape shape) v"
    by (cases "hidden_entries fs shape = []")
      (simp_all add: echo_ok_def v projectField_Shape hidden_value_def reinstate_value_obj echo_empty)
  with whole v show ?case by blast
next
  case (2 shape v)
  then obtain items where v: "v = JArr items"
      and items: "list_all (\<lambda>item. storable (Shape shape) item \<and> named item \<noteq> None) items" "distinct (map named items)"
    by (auto split: json.splits)
  have name: "map_of shape ''name'' = Some Scalar" using 2(2) by simp
  note ok = shape_ok_list [OF 2(2)] level_parts(2) [OF 2(3)]
  let ?hs = "map (\<lambda>i. JObj (hidden_item shape i)) items"
  let ?p = "\<lambda>item. case projectField item (Shape shape) of None \<Rightarrow> JObj [] | Some out \<Rightarrow> out"
  have entry: "json_eq (reinstate_item ?hs (?p item)) item \<and> (hidden_item shape item = [] \<longrightarrow> json_eq (?p item) item)"
    if "item \<in> set items" for item
  proof -
    have st: "storable (Shape shape) item" using items(1) that unfolding list_all_iff by blast
    then obtain fs where fs: "item = JObj fs" by (auto split: json.splits)
    have whole: "echo_whole shape fs" using 2(1) [OF v that ok st] fs by blast
    from echo_item [OF name ok(1) items that [unfolded fs] whole]
    have "json_eq (reinstate_item ?hs (?p item)) item" by (simp add: fs projectField_Shape)
    moreover have "json_eq (?p item) item" if "hidden_item shape item = []"
      using that whole [unfolded echo_whole_def, rule_format, of "[]"]
      by (simp add: fs hidden_item_empty echo_empty projectField_Shape)
    ultimately show ?thesis by blast
  qed
  have "json_eq (JArr (map (\<lambda>item. reinstate_item ?hs (?p item)) items)) (JArr items)"
    using entry by (intro json_eq_arr) (simp add: list.rel_map list.rel_refl_strong)
  moreover have "json_eq (JArr (map ?p items)) (JArr items)" if "\<forall>i \<in> set items. hidden_item shape i = []"
    using entry that by (intro json_eq_arr) (simp add: list.rel_map list.rel_refl_strong)
  ultimately show ?case
    by (auto simp: echo_ok_def v project_item hidden_value_def reinstate_value_arr comp_def)
qed (simp_all add: echo_ok_def hidden_value_def json_eq_same)

lemma keys_project: "k \<in> fst ` set (project_entries fs shape) \<Longrightarrow> k \<in> fst ` set shape"
proof (induction shape)
  case (Cons a shape)
  obtain f spec where a: "a = (f, spec)" by force
  with Cons show ?case
    by (cases "Option.bind (map_of fs f) (\<lambda>v. projectField v spec)")
      (auto simp: bind_eq_Some_conv bind_eq_None_conv split: option.splits)
qed simp

lemma distinct_project: "distinct (map fst shape) \<Longrightarrow> distinct (map fst (project_entries fs shape))"
proof (induction shape)
  case (Cons a shape)
  obtain f spec where a: "a = (f, spec)" by force
  have "f \<notin> fst ` set (project_entries fs shape)"
    using Cons.prems keys_project [of f fs shape] a by auto
  with Cons a show ?case by (auto split: option.splits)
qed simp

lemma exclusion_names: "k \<in> exclusionsFor patch \<Longrightarrow> k \<in> set FLAT_FIELDS \<or> k \<in> STORE_FIELDS"
proof -
  assume "k \<in> exclusionsFor patch"
  then obtain slots where s: "slots \<in> set EXCLUSIVE_SLOTS" "k \<in> set (group_exclusions patch slots)"
    by (auto simp: exclusionsFor_def)
  then obtain i where "i < length slots" "k \<in> set (slot_fields (slots ! i))"
    by (auto simp: group_exclusions_def Let_def split: if_splits)
  then obtain s where "s \<in> set slots" "k \<in> set (slot_fields s)" using nth_mem by blast
  with s(1) slot_names(2) show ?thesis by blast
qed

lemma slots_not_at_top: "k \<in> exclusionsFor patch \<Longrightarrow> map_of PUBLIC_CONNECTION k = None"
proof -
  have "\<forall>k \<in> set FLAT_FIELDS. map_of PUBLIC_CONNECTION k = None"
    "\<forall>k \<in> STORE_FIELDS. map_of PUBLIC_CONNECTION k = None" by code_simp+
  then show "k \<in> exclusionsFor patch \<Longrightarrow> map_of PUBLIC_CONNECTION k = None"
    using exclusion_names by blast
qed

lemma distinct_public: "distinct (map fst PUBLIC_CONNECTION)"
  using public_shape_ok by simp

lemma unlisted_withheld: "map_of PUBLIC_CONNECTION ''withheldFields'' = None"
  and listed_etag: "map_of PUBLIC_CONNECTION ''configEtag'' = Some Scalar"
  by code_simp+

text \<open>The update that echoes the view, before anything is put back.\<close>

lemma shallow_merge_view:
  fixes c
  defines "s \<equiv> withoutWithheldFields c"
  defines "po \<equiv> project_entries s PUBLIC_CONNECTION"
  shows "map_of (shallow_merge s (toPublicConnection c)) k =
    (case map_of po k of Some v \<Rightarrow> Some v | None \<Rightarrow> if k = ''configEtag'' then None else map_of s k)"
proof -
  have none: "map_of po ''withheldFields'' = None"
    by (simp add: po_def map_of_project [OF distinct_public] unlisted_withheld bind_eq_None_conv)
  then have del: "AList.delete ''withheldFields'' po = po"
    by (simp add: map_of_eq_None_iff)
  obtain vf where vf: "toPublicConnection c = JObj vf" "AList.delete ''withheldFields'' vf = po"
      "map_of vf ''configEtag'' = map_of po ''configEtag''"
    unfolding view_of_object Let_def s_def [symmetric] po_def [symmetric]
    using del by (auto simp: AList.delete_update_same update_conv')
  have "map_of (spread s po) = map_of s ++ map_of po"
    unfolding po_def by (rule map_of_spread [OF distinct_project [OF distinct_public]])
  then show ?thesis
    by (auto simp: shallow_merge_def vf Let_def map_add_def split: option.splits)
qed

lemma projectField_storable: "storable spec v \<Longrightarrow> spec \<noteq> Scalar \<Longrightarrow> projectField v spec \<noteq> None"
  by (cases spec; cases v) (auto simp: projectField_Shape)

text \<open>
  C28: For a connection configured as the API documents it, an update that sends back exactly what the view showed
  changes nothing: every credential is put back where it was, in attached databases too. Such a
  configuration (\<open>storable_connection\<close>) holds objects in its shaped fields and, in its listed arrays, objects
  with distinct names, configures no object store that the view's shape does not list, uses no name of a
  prototype key, and has no object or array in an unlisted field or a scalar one at its top. Where a shaped field holds a scalar or an
  attached database has no name, something is lost: \<open>echo_loses_scalar_in_shape\<close>, \<open>echo_loses_unnamed_database\<close>.
\<close>

theorem echoed_view_changes_nothing:
  assumes "storable_connection c"
  shows "json_eq (mergeConnectionUpdate c (toPublicConnection c)) (JObj (withoutWithheldFields c))"
proof -
  define s where "s = withoutWithheldFields c"
  let ?sh = "shallow_merge s (toPublicConnection c)" and ?h = "hidden_entries s PUBLIC_CONNECTION"
  note sh = shallow_merge_view [of c, folded s_def]
  have st: "storable (Shape PUBLIC_CONNECTION) (JObj s)"
    and "list_all (\<lambda>(k, v). map_of PUBLIC_CONNECTION k \<in> {None, Some Scalar} \<longrightarrow> \<not> is_object_type v) s"
    using assms unfolding storable_connection_def s_def by blast+
  then have top: "map_of PUBLIC_CONNECTION k \<in> {None, Some Scalar} \<Longrightarrow> \<not> is_object_type v"
    if "map_of s k = Some v" for k v
    using map_of_SomeD [OF that] unfolding list_all_iff by blast
  have ds: "distinct (map fst s)" using st by simp
  note hid = map_of_hidden [OF ds, of PUBLIC_CONNECTION]
    and res = map_of_reinstate [OF distinct_hidden [OF ds, of PUBLIC_CONNECTION],
        where patch = ?sh and skip = "exclusionsFor ?sh" and out = ?sh]
    and po = map_of_project [OF distinct_public, of s]
  have "rel_option json_eq (map_of (reinstate_fields ?sh (exclusionsFor ?sh) ?h ?sh) k) (map_of s k)" for k
  proof (cases "map_of s k")
    case None
    then show ?thesis by (simp add: res hid sh po)
  next
    case v: (Some v)
    have safe: "k \<notin> UNSAFE_KEYS" by (rule storable_field(1) [OF st v])
    show ?thesis
    proof (cases "map_of PUBLIC_CONNECTION k")
      case None
      moreover have "k \<noteq> ''configEtag''" using None listed_etag by auto
      ultimately show ?thesis using v safe top [OF v] by (simp add: res hid sh po json_eq_same)
    next
      case spec: (Some spec)
      have kept: "k \<notin> exclusionsFor ?sh" using slots_not_at_top spec by auto
      have echo: "echo_ok spec v"
        using echo_value [OF shape_ok_field [OF public_shape_ok spec] slots_ok_field [OF public_slots_ok spec]
          storable_field(2) [OF st v spec]] by blast
      have "projectField v spec \<noteq> None"
        using top [OF v] spec projectField_storable [OF storable_field(2) [OF st v spec]] by (cases spec) auto
      then obtain pv where "projectField v spec = Some pv" by blast
      with echo [unfolded echo_ok_def, rule_format, OF safe] v spec safe kept show ?thesis
        by (cases "hidden_value k (Some spec) v") (simp_all add: res hid sh po)
    qed
  qed
  then have "json_eq (JObj (reinstate_fields ?sh (exclusionsFor ?sh) ?h ?sh)) (JObj s)"
    by (rule json_eq_obj)
  then show ?thesis by (simp add: merge_eq s_def reinstate_value_obj reinstate_obj)
qed

lemma echoed_view_changes_nothing_witness:
  "json_eq (mergeConnectionUpdate demo_duckdb (toPublicConnection demo_duckdb)) demo_duckdb"
proof -
  have "storable_connection demo_duckdb" "JObj (withoutWithheldFields demo_duckdb) = demo_duckdb"
    by code_simp+
  from echoed_view_changes_nothing [OF this(1)] this(2) show ?thesis by simp
qed

text \<open>
  Outside those configurations an echo does lose something: a shaped field that holds a scalar is
  not published and not hidden either, so below the top level nothing carries it over.
\<close>

lemma echo_loses_scalar_in_shape:
  "json_at [Key ''proxy'', Key ''ssh''] (mergeConnectionUpdate c (toPublicConnection c)) = None
     \<and> json_at [Key ''proxy'', Key ''ssh''] c = Some (JStr ''tunnel'')"
  if "c = JObj [(''proxy'', JObj [(''type'', JStr ''ssh''), (''ssh'', JStr ''tunnel'')])]"
  unfolding that by code_simp

text \<open>The credentials of an attached database are found again by its name, those of one without a name by nothing.\<close>

lemma echo_loses_unnamed_database:
  "json_at [Key ''duckdbConnection'', Key ''attachedDatabases'', Item 0, Key ''postgresConnection'', Key ''password'']
       (mergeConnectionUpdate c (toPublicConnection c)) = None
     \<and> json_at [Key ''duckdbConnection'', Key ''attachedDatabases'', Item 0, Key ''postgresConnection'', Key ''password''] c
       = Some (JStr ''s'')"
  if "c = JObj [(''duckdbConnection'', JObj [(''attachedDatabases'', JArr
      [JObj [(''postgresConnection'', JObj [(''password'', JStr ''s'')])]])])]"
  unfolding that by code_simp

end
