(* ===== verification/Authorize.thy ===== *)
theory Authorize
  imports Prelude
begin

text \<open>
  The \<open>#(authorize)\<close> annotation (\<open>service/authorize.ts\<close>): which notes are gates, which spellings are
  refused, the text of a gate and of the probe that validates it, and the checks of a model load.
  The Malloy compiler is a parameter: \<open>routeOf\<close> and \<open>payloadOf\<close> classify a note, \<open>compile\<close> prepares
  the query of a probe and yields the filter list of its source.
\<close>

subsection \<open>The route of a note\<close>

definition AUTHORIZE_ROUTE :: string where "AUTHORIZE_ROUTE = ''authorize''"

definition noteRoute :: "(string \<Rightarrow> string option) \<Rightarrow> string \<Rightarrow> string option" where
  "noteRoute routeOf note_text = routeOf (js_trim_start note_text)"

definition notePayload :: "(string \<Rightarrow> string option) \<Rightarrow> string \<Rightarrow> string" where
  "notePayload payloadOf note_text =
     (case payloadOf (js_trim_start note_text) of Some p \<Rightarrow> p | None \<Rightarrow> [])"

definition authorizeNoteContent ::
  "(string \<Rightarrow> string option) \<Rightarrow> (string \<Rightarrow> string option) \<Rightarrow> string \<Rightarrow> string option" where
  "authorizeNoteContent routeOf payloadOf note_text =
     (if noteRoute routeOf note_text = Some AUTHORIZE_ROUTE then Some (notePayload payloadOf note_text) else None)"

subsection \<open>The patterns over text\<close>

definition blank_char :: "char \<Rightarrow> bool" where "blank_char c \<longleftrightarrow> c = CHR '' '' \<or> c = CHR 0x09"

definition open_bracket :: "char \<Rightarrow> bool" where
  "open_bracket c \<longleftrightarrow> c \<in> set ''([{<''"

definition close_bracket :: "char \<Rightarrow> bool" where
  "close_bracket c \<longleftrightarrow> c \<in> set '')]}>''"

definition drop_if :: "(char \<Rightarrow> bool) \<Rightarrow> string \<Rightarrow> string" where
  "drop_if p s = (case s of [] \<Rightarrow> [] | c # cs \<Rightarrow> if p c then cs else s)"

text \<open>The word \<open>authorize\<close> in any case at the start of a text, and what follows it.\<close>

definition authorize_word :: "string \<Rightarrow> string option" where
  "authorize_word s = (if js_lower (take 9 s) = ''authorize'' then Some (drop 9 s) else None)"

text \<open>
  \<open>##?\|?[ \t]*[([{<]?[ \t]*authorize\<close> at the start of a text: every part is consumed greedily and
  none may be given back, since no two neighbours accept the same character.
\<close>

definition authorize_tag :: "string \<Rightarrow> string option" where
  "authorize_tag s =
     (case s of
        [] \<Rightarrow> None
      | c # s1 \<Rightarrow>
          if c \<noteq> CHR ''#'' then None
          else authorize_word (dropWhile blank_char (drop_if open_bracket (dropWhile blank_char
                 (drop_if (\<lambda>c. c = CHR ''|'') (drop_if (\<lambda>c. c = CHR ''#'') s1))))))"

definition MALFORMED_AUTHORIZE_ATTEMPT :: "string \<Rightarrow> bool" where
  "MALFORMED_AUTHORIZE_ATTEMPT s \<longleftrightarrow> authorize_tag s \<noteq> None"

definition AUTHORIZE_TAG_LIKE :: "string \<Rightarrow> bool" where
  "AUTHORIZE_TAG_LIKE s \<longleftrightarrow>
     (case authorize_tag s of
        None \<Rightarrow> False
      | Some rest \<Rightarrow> rest = [] \<or> close_bracket (hd rest) \<or> blank_char (hd rest))"

fun AUTHORIZE_ANNOTATION_ANYWHERE :: "string \<Rightarrow> bool" where
  "AUTHORIZE_ANNOTATION_ANYWHERE [] = False"
| "AUTHORIZE_ANNOTATION_ANYWHERE (c # s) \<longleftrightarrow>
     AUTHORIZE_TAG_LIKE (c # s) \<or> AUTHORIZE_ANNOTATION_ANYWHERE s"

definition MOTLY_AUTHORIZE_PAYLOAD :: "string \<Rightarrow> bool" where
  "MOTLY_AUTHORIZE_PAYLOAD s \<longleftrightarrow>
     (case dropWhile blank_char s of
        [] \<Rightarrow> False
      | c # s1 \<Rightarrow> open_bracket c \<and>
          (case authorize_word (dropWhile blank_char s1) of
             None \<Rightarrow> False
           | Some rest \<Rightarrow> (case dropWhile blank_char rest of [] \<Rightarrow> False | d # s2 \<Rightarrow> close_bracket d)))"

subsection \<open>Refusals\<close>

datatype MisplacedAuthorizeAnnotation =
    MisplacedQuery string
  | MisplacedField string string
  | MisplacedFile

record MultipleAuthorizeGateFinding =
  multi_source :: string
  multi_texts :: "string list"

record LegacyStringGateFinding =
  legacy_source :: string
  legacy_exprs :: "string list"

text \<open>\<open>BadRequestError\<close> for a caller, \<open>ModelCompilationError\<close> with what its message quotes otherwise.\<close>

datatype AuthorizeError =
    CallerAnnotation
  | NearMisses "string list"
  | Misplaced "string list"
  | InvalidAnnotation string "string list" string
  | TooManyGates "(string \<times> string list) list"
  | LegacyStringGates "(string \<times> string \<times> string) list"
  | EmptyBody
  | RefusedByCaller string

definition assertNoCallerAuthorizeAnnotation :: "string \<Rightarrow> AuthorizeError + unit" where
  "assertNoCallerAuthorizeAnnotation caller_text =
     (if AUTHORIZE_ANNOTATION_ANYWHERE caller_text then Inl CallerAnnotation else Inr ())"

definition containsAuthorizeAnnotationTag ::
  "(string \<Rightarrow> string option) \<Rightarrow> (string \<Rightarrow> string option) \<Rightarrow> string list \<Rightarrow> bool" where
  "containsAuthorizeAnnotationTag routeOf payloadOf texts \<longleftrightarrow>
     (\<exists>t \<in> set texts. authorizeNoteContent routeOf payloadOf t \<noteq> None)"

text \<open>\<open>split(/[\r\n]/, 1)[0]\<close>.\<close>

definition first_line :: "string \<Rightarrow> string" where
  "first_line s = takeWhile (\<lambda>c. c \<noteq> CHR 0x0D \<and> c \<noteq> nl) s"

definition near_miss ::
  "(string \<Rightarrow> string option) \<Rightarrow> (string \<Rightarrow> string option) \<Rightarrow> string \<Rightarrow> bool" where
  "near_miss routeOf payloadOf note_text \<longleftrightarrow>
     (let trimmed = js_trim_start note_text in
      case noteRoute routeOf trimmed of
        None \<Rightarrow> MALFORMED_AUTHORIZE_ATTEMPT trimmed
      | Some route \<Rightarrow>
          route \<noteq> AUTHORIZE_ROUTE \<and>
          (if route = [] then MOTLY_AUTHORIZE_PAYLOAD (notePayload payloadOf trimmed)
           else js_lower route = AUTHORIZE_ROUTE))"

definition collectAuthorizeNearMisses ::
  "(string \<Rightarrow> string option) \<Rightarrow> (string \<Rightarrow> string option) \<Rightarrow> string list \<Rightarrow> string list" where
  "collectAuthorizeNearMisses routeOf payloadOf texts =
     map (\<lambda>t. first_line (js_trim_start t)) (List.filter (near_miss routeOf payloadOf) texts)"

text \<open>\<open>[...new Set(found)]\<close>: the first occurrence of each.\<close>

definition first_seen :: "'a list \<Rightarrow> 'a list" where
  "first_seen xs = foldl (\<lambda>seen x. if x \<in> set seen then seen else seen @ [x]) [] xs"

definition assertNoAuthorizeNearMisses :: "string list \<Rightarrow> AuthorizeError + unit" where
  "assertNoAuthorizeNearMisses found = (if found = [] then Inr () else Inl (NearMisses (first_seen found)))"

fun describeMisplacedAuthorizeAnnotation :: "MisplacedAuthorizeAnnotation \<Rightarrow> string" where
  "describeMisplacedAuthorizeAnnotation (MisplacedQuery n) = ''on query '' @ [dquote] @ n @ [dquote]"
| "describeMisplacedAuthorizeAnnotation MisplacedFile = ''at the file level (`##(authorize)`)''"
| "describeMisplacedAuthorizeAnnotation (MisplacedField n f) =
     ''on field '' @ [dquote] @ f @ [dquote] @ '' of source '' @ [dquote] @ n @ [dquote]"

definition assertNoMisplacedAuthorizeAnnotations ::
  "MisplacedAuthorizeAnnotation list \<Rightarrow> AuthorizeError + unit" where
  "assertNoMisplacedAuthorizeAnnotations found =
     (if found = [] then Inr () else Inl (Misplaced (map describeMisplacedAuthorizeAnnotation found)))"

subsection \<open>String literals and given references\<close>

text \<open>\<open>.\<close> matches no line terminator; CR and LF are those below 256.\<close>

definition line_end :: "char \<Rightarrow> bool" where "line_end c \<longleftrightarrow> c = CHR 0x0D \<or> c = nl"

text \<open>
  The rest of a string literal after its opening quote, up to and with the closing one:
  \<open>(?:\\.|[^'\\])*'\<close>. The result is what follows it.
\<close>

fun literal_rest :: "char \<Rightarrow> string \<Rightarrow> string option" where
  "literal_rest q [] = None"
| "literal_rest q (c # s) =
     (if c = backslash then (case s of [] \<Rightarrow> None | d # s' \<Rightarrow> if line_end d then None else literal_rest q s')
      else if c = q then Some s else literal_rest q s)"

lemma literal_rest_length: "literal_rest q s = Some r \<Longrightarrow> length r < length s"
  by (induction q s rule: literal_rest.induct) (auto split: if_splits list.splits)

definition quote_char :: "char \<Rightarrow> bool" where "quote_char c \<longleftrightarrow> c = squote \<or> c = dquote"

text \<open>\<open>expr.replace(STRING_LITERAL_PATTERN, "''")\<close>.\<close>

function strip_literals :: "string \<Rightarrow> string" where
  "strip_literals [] = []"
| "strip_literals (c # s) =
     (if quote_char c
      then (case literal_rest c s of
              Some rest \<Rightarrow> squote # squote # strip_literals rest
            | None \<Rightarrow> c # strip_literals s)
      else c # strip_literals s)"
  by pat_completeness auto

termination
  by (relation "measure length") (auto dest: literal_rest_length)

text \<open>The matches of \<open>/\$([A-Za-z_][A-Za-z0-9_]*)/g\<close>.\<close>

definition name_start :: "char \<Rightarrow> bool" where
  "name_start c \<longleftrightarrow> is_upper c \<or> is_lower c \<or> c = CHR ''_''"

function given_refs :: "string \<Rightarrow> string list" where
  "given_refs [] = []"
| "given_refs (c # s) =
     (if c = CHR ''$'' \<and> s \<noteq> [] \<and> name_start (hd s)
      then takeWhile is_word s # given_refs (dropWhile is_word s)
      else given_refs s)"
  by pat_completeness auto

termination
  by (relation "measure length") (auto intro: le_imp_less_Suc length_dropWhile_le)

definition referencedGivenNames :: "string \<Rightarrow> string list" where
  "referencedGivenNames expr = first_seen (given_refs (strip_literals expr))"

subsection \<open>Probes\<close>

datatype RowLevelGateRejectionCause =
    UnreachableGiven | EntryPointUnexpressible | NoGivenReference | NegatedMembership
  | LegacyStringGate | GivenUsageUnresolvable | UnclassifiableCondition

record CompiledGateCondition =
  code :: "string option"
  isSourceFilter :: bool

definition quoteMalloyIdentifier :: "string \<Rightarrow> string" where
  "quoteMalloyIdentifier name =
     [backtick] @ replace_all backtick [backslash, backtick] (replace_all backslash [backslash, backslash] name) @ [backtick]"

definition buildRowLevelProbe :: "string \<Rightarrow> string \<Rightarrow> string" where
  "buildRowLevelProbe graftTarget filterText =
     ''run: '' @ quoteMalloyIdentifier graftTarget @ '' extend { where: '' @ filterText
       @ '' } -> { select: __authorize_probe is 1; limit: 1 }''"

text \<open>The checks of \<open>liftProbeFilterCondition\<close>; \<open>None\<close> is a prepared query without a filter list.\<close>

datatype LiftError = NoCondition | WrongCondition | NotSourceFilter | CompileFailure string

definition liftProbeFilterCondition ::
  "'c CompiledGateCondition_scheme list option \<Rightarrow> string \<Rightarrow> LiftError + 'c CompiledGateCondition_scheme" where
  "liftProbeFilterCondition prepared filterText =
     (case prepared of
        None \<Rightarrow> Inl NoCondition
      | Some filterList \<Rightarrow>
          if filterList = [] then Inl NoCondition
          else if code (last filterList) \<noteq> Some filterText then Inl WrongCondition
          else if \<not> isSourceFilter (last filterList) then Inl NotSourceFilter
          else Inr (last filterList))"

definition gateFilterText :: "string list \<Rightarrow> string" where
  "gateFilterText exprs = join '' or '' (map (\<lambda>e. ''('' @ e @ '')'') exprs)"

type_synonym compiler = "string \<Rightarrow> string + CompiledGateCondition list option"

definition liftRowLevelCondition ::
  "compiler \<Rightarrow> string \<Rightarrow> string list \<Rightarrow> LiftError + CompiledGateCondition" where
  "liftRowLevelCondition compile sourceName exprs =
     (case compile (buildRowLevelProbe sourceName (gateFilterText exprs)) of
        Inl e \<Rightarrow> Inl (CompileFailure e)
      | Inr prepared \<Rightarrow> liftProbeFilterCondition prepared (gateFilterText exprs))"

text \<open>The callbacks of \<open>validateAuthorizeProbes\<close>, as the events it raises in order.\<close>

datatype ProbeEvent =
    RowLevelGateRejected RowLevelGateRejectionCause
  | RowLevelGateUnexpressible string LiftError
  | ConditionCompiled string CompiledGateCondition

fun lift_detail :: "LiftError \<Rightarrow> string" where
  "lift_detail NoCondition = ''carries no filter condition''"
| "lift_detail WrongCondition = ''carries the wrong condition''"
| "lift_detail NotSourceFilter = ''carries a condition that is not a source filter''"
| "lift_detail (CompileFailure e) = e"

text \<open>
  \<open>own\<close> is the number of notes of a source's own, \<open>check\<close> what the callback for a compiled condition
  does: it may throw, which ends the load. The pair is the events so far and the outcome.
\<close>

fun probe_groups ::
  "compiler \<Rightarrow> (string \<Rightarrow> nat) \<Rightarrow> (string \<Rightarrow> CompiledGateCondition \<Rightarrow> string option) \<Rightarrow> string
   \<Rightarrow> string list list \<Rightarrow> ProbeEvent list \<times> (AuthorizeError + unit)" where
  "probe_groups compile own check sourceName [] = ([], Inr ())"
| "probe_groups compile own check sourceName (exprs # groups) =
     (if exprs = [] then probe_groups compile own check sourceName groups
      else case liftRowLevelCondition compile sourceName exprs of
        Inl err \<Rightarrow>
          if own sourceName = 0
          then (let (events, r) = probe_groups compile own check sourceName groups
                in (RowLevelGateRejected EntryPointUnexpressible
                      # RowLevelGateUnexpressible sourceName err # events, r))
          else ([], Inl (InvalidAnnotation sourceName exprs (lift_detail err)))
      | Inr condition \<Rightarrow>
          (case check sourceName condition of
             Some refusal \<Rightarrow> ([ConditionCompiled sourceName condition], Inl (RefusedByCaller refusal))
           | None \<Rightarrow> (let (events, r) = probe_groups compile own check sourceName groups
                     in (ConditionCompiled sourceName condition # events, r))))"

fun validateAuthorizeProbes ::
  "compiler \<Rightarrow> (string \<Rightarrow> nat) \<Rightarrow> (string \<Rightarrow> CompiledGateCondition \<Rightarrow> string option)
   \<Rightarrow> (string \<times> string list list) list \<Rightarrow> ProbeEvent list \<times> (AuthorizeError + unit)" where
  "validateAuthorizeProbes compile own check [] = ([], Inr ())"
| "validateAuthorizeProbes compile own check ((sourceName, groups) # sources) =
     (let (events, r) = probe_groups compile own check sourceName groups in
      case r of
        Inl e \<Rightarrow> (events, Inl e)
      | Inr _ \<Rightarrow> (let (later, r') = validateAuthorizeProbes compile own check sources in (events @ later, r')))"

subsection \<open>The body of a gate\<close>

text \<open>\<open>WHOLE_BODY_QUOTED_STRING\<close> and its single-quoted counterpart.\<close>

definition whole_body_string :: "char \<Rightarrow> string \<Rightarrow> bool" where
  "whole_body_string q s = (case s of [] \<Rightarrow> False | c # s' \<Rightarrow> c = q \<and> literal_rest q s' = Some [])"

definition isLegacyQuotedPayload :: "string \<Rightarrow> bool" where
  "isLegacyQuotedPayload payload \<longleftrightarrow>
     whole_body_string dquote (js_trim payload) \<or> whole_body_string squote (js_trim payload)"

text \<open>\<open>s.replace(/\\(['\\])/g, "$1")\<close> for the quote \<open>q\<close>.\<close>

fun unescape :: "char \<Rightarrow> string \<Rightarrow> string" where
  "unescape q [] = []"
| "unescape q [c] = [c]"
| "unescape q (c # d # s) =
     (if c = backslash \<and> (d = q \<or> d = backslash) then d # unescape q s else c # unescape q (d # s))"

text \<open>\<open>trimmed.slice(1, -1)\<close> on a text of at least two characters.\<close>

definition unquoteLegacyGatePayload :: "string \<Rightarrow> string" where
  "unquoteLegacyGatePayload payload =
     (let trimmed = js_trim payload; inner = butlast (tl trimmed)
      in if trimmed \<noteq> [] \<and> hd trimmed = squote then unescape squote inner else unescape dquote inner)"

definition parseAuthorizeAnnotation ::
  "(string \<Rightarrow> string option) \<Rightarrow> (string \<Rightarrow> string option) \<Rightarrow> string \<Rightarrow> AuthorizeError + string option" where
  "parseAuthorizeAnnotation routeOf payloadOf annotation =
     (case authorizeNoteContent routeOf payloadOf annotation of
        None \<Rightarrow> Inr None
      | Some content \<Rightarrow> if js_trim content = [] then Inl EmptyBody else Inr (Some (js_trim content)))"

definition collectAuthorizeExprs ::
  "(string \<Rightarrow> string option) \<Rightarrow> (string \<Rightarrow> string option) \<Rightarrow> string list \<Rightarrow> AuthorizeError + string list" where
  "collectAuthorizeExprs routeOf payloadOf annotations =
     bind_r (mapM_r (parseAuthorizeAnnotation routeOf payloadOf) annotations) (\<lambda>parsed. Inr (somes parsed))"

subsection \<open>The checks of a load\<close>

definition findMultipleAuthorizeGates ::
  "(string \<times> string list) list \<Rightarrow> MultipleAuthorizeGateFinding list" where
  "findMultipleAuthorizeGates ownNotes =
     map (\<lambda>(n, texts). \<lparr>multi_source = n, multi_texts = texts\<rparr>) (List.filter (\<lambda>(n, texts). length texts > 1) ownNotes)"

definition assertAtMostOneAuthorizeGate :: "MultipleAuthorizeGateFinding list \<Rightarrow> AuthorizeError + unit" where
  "assertAtMostOneAuthorizeGate found =
     (if found = [] then Inr ()
      else Inl (TooManyGates (map (\<lambda>f. (multi_source f, map (\<lambda>t. first_line (js_trim t)) (multi_texts f))) found)))"

definition legacy_notes ::
  "(string \<Rightarrow> string option) \<Rightarrow> (string \<Rightarrow> string option) \<Rightarrow> string list \<Rightarrow> string list" where
  "legacy_notes routeOf payloadOf texts =
     List.filter (\<lambda>t. case authorizeNoteContent routeOf payloadOf t of
         None \<Rightarrow> False | Some content \<Rightarrow> isLegacyQuotedPayload content) texts"

fun findLegacyStringGates ::
  "(string \<Rightarrow> string option) \<Rightarrow> (string \<Rightarrow> string option) \<Rightarrow> (string \<times> string list) list
   \<Rightarrow> AuthorizeError + LegacyStringGateFinding list" where
  "findLegacyStringGates routeOf payloadOf [] = Inr []"
| "findLegacyStringGates routeOf payloadOf ((n, texts) # ownNotes) =
     (let legacy = legacy_notes routeOf payloadOf texts in
      if legacy = [] then findLegacyStringGates routeOf payloadOf ownNotes
      else bind_r (collectAuthorizeExprs routeOf payloadOf legacy) (\<lambda>exprs.
           bind_r (findLegacyStringGates routeOf payloadOf ownNotes) (\<lambda>found.
             Inr (if exprs \<noteq> [] then \<lparr>legacy_source = n, legacy_exprs = exprs\<rparr> # found else found))))"

text \<open>The refusal carries, per expression, the source, what it declares and the rewrite to paste in.\<close>

definition assertNoLegacyStringGate :: "LegacyStringGateFinding list \<Rightarrow> AuthorizeError + unit" where
  "assertNoLegacyStringGate found =
     (if found = [] then Inr ()
      else Inl (LegacyStringGates (concat (map (\<lambda>f.
             map (\<lambda>e. (legacy_source f, ''#(authorize) '' @ e, ''#(authorize) '' @ unquoteLegacyGatePayload e))
               (legacy_exprs f)) found))))"

subsection \<open>Lemmas\<close>

lemma first_seen_fold:
  "set (foldl (\<lambda>seen x. if x \<in> set seen then seen else seen @ [x]) acc xs) = set acc \<union> set xs
   \<and> (distinct acc \<longrightarrow> distinct (foldl (\<lambda>seen x. if x \<in> set seen then seen else seen @ [x]) acc xs))"
  by (induction xs arbitrary: acc) auto

lemma set_first_seen [simp]: "set (first_seen xs) = set xs"
  and distinct_first_seen [simp]: "distinct (first_seen xs)"
  using first_seen_fold [of "[]" xs] by (simp_all add: first_seen_def)

lemma annotation_anywhere:
  "AUTHORIZE_TAG_LIKE s \<Longrightarrow> AUTHORIZE_ANNOTATION_ANYWHERE (p @ s)"
proof (induction p)
  case Nil
  then show ?case by (cases s) (auto simp: AUTHORIZE_TAG_LIKE_def authorize_tag_def)
qed auto

text \<open>
  The spellings Malloy documents for the route: the sigil, the block bar, the name in one of the four
  bracket pairs.
\<close>

definition GATE_SPELLINGS :: "string list" where
  "GATE_SPELLINGS =
     concat (map (\<lambda>sigil. map (\<lambda>(left, right). sigil @ left # ''authorize'' @ [right])
       [(CHR ''('', CHR '')''), (CHR ''['', CHR '']''), (CHR ''{'', CHR ''}''), (CHR ''<'', CHR ''>'')])
       [''#'', ''##'', ''#|'', ''##|''])"

definition gate_spelling :: "string \<Rightarrow> bool" where
  "gate_spelling s \<longleftrightarrow> (\<exists>g \<in> set GATE_SPELLINGS. prefix g s)"

lemma gate_spelling_tag:
  assumes "gate_spelling s"
  shows "AUTHORIZE_TAG_LIKE (s @ r)"
proof -
  have "AUTHORIZE_TAG_LIKE (g @ r')" if "g \<in> set GATE_SPELLINGS" for g r'
    using that
    by (auto simp: GATE_SPELLINGS_def AUTHORIZE_TAG_LIKE_def authorize_tag_def authorize_word_def drop_if_def
        blank_char_def open_bracket_def close_bracket_def js_lower_def lower_char_def)
  with assms show ?thesis by (auto simp: gate_spelling_def prefix_def)
qed

lemma js_trim_start_split: "\<exists>sp. s = sp @ js_trim_start s"
  unfolding js_trim_start_def by (metis takeWhile_dropWhile_id)

subsection \<open>Properties\<close>

text \<open>
  C34: A request cannot forge a gate: if Malloy routes to \<open>authorize\<close> only what it documents, then any
  caller text that contains a note the server would read as a gate, wherever it stands and whatever
  surrounds it, is refused.
\<close>

theorem no_forged_gate:
  assumes "\<And>t. routeOf t = Some AUTHORIZE_ROUTE \<Longrightarrow> gate_spelling t"
    and "authorizeNoteContent routeOf payloadOf gate \<noteq> None"
  shows "assertNoCallerAuthorizeAnnotation (before @ gate @ after) = Inl CallerAnnotation"
proof -
  have "gate_spelling (js_trim_start gate)"
    using assms by (auto simp: authorizeNoteContent_def noteRoute_def split: if_splits)
  moreover obtain sp where "gate = sp @ js_trim_start gate" using js_trim_start_split by blast
  ultimately have "AUTHORIZE_ANNOTATION_ANYWHERE (before @ gate @ after)"
    using annotation_anywhere [OF gate_spelling_tag, of "js_trim_start gate" "before @ sp" after]
    by (metis append.assoc)
  then show ?thesis by (simp add: assertNoCallerAuthorizeAnnotation_def)
qed

lemma no_forged_gate_witness:
  "assertNoCallerAuthorizeAnnotation (''source: mine is '' @ ''#|(authorize) true'' @ '' locked extend {}'')
     = Inl CallerAnnotation"
proof (rule no_forged_gate [where routeOf = "\<lambda>t. if gate_spelling t then Some AUTHORIZE_ROUTE else None"
    and payloadOf = "\<lambda>t. Some []"])
  have "gate_spelling (js_trim_start ''#|(authorize) true'')" by code_simp
  then show "authorizeNoteContent (\<lambda>t. if gate_spelling t then Some AUTHORIZE_ROUTE else None) (\<lambda>t. Some [])
      ''#|(authorize) true'' \<noteq> None"
    by (simp add: authorizeNoteContent_def noteRoute_def)
qed (simp split: if_splits)

text \<open>The outcome of one group: its own text landed as a source filter, or nobody here wrote it.\<close>

definition group_settled ::
  "compiler \<Rightarrow> (string \<Rightarrow> nat) \<Rightarrow> (string \<Rightarrow> CompiledGateCondition \<Rightarrow> string option) \<Rightarrow> ProbeEvent list
   \<Rightarrow> string \<Rightarrow> string list \<Rightarrow> bool" where
  "group_settled compile own check events sourceName exprs \<longleftrightarrow>
     (\<exists>conditions condition.
         compile (buildRowLevelProbe sourceName (gateFilterText exprs)) = Inr (Some (conditions @ [condition]))
         \<and> code condition = Some (gateFilterText exprs) \<and> isSourceFilter condition
         \<and> check sourceName condition = None \<and> ConditionCompiled sourceName condition \<in> set events)
     \<or> (own sourceName = 0 \<and> (\<exists>err. liftRowLevelCondition compile sourceName exprs = Inl err
         \<and> RowLevelGateUnexpressible sourceName err \<in> set events))"

lemma group_settled_mono:
  "group_settled compile own check events s exprs \<Longrightarrow> set events \<subseteq> set events' \<Longrightarrow>
   group_settled compile own check events' s exprs"
  by (auto simp: group_settled_def)

lemma lifted_condition:
  assumes "liftRowLevelCondition compile sourceName exprs = Inr condition"
  shows "\<exists>conditions. compile (buildRowLevelProbe sourceName (gateFilterText exprs)) = Inr (Some (conditions @ [condition]))"
    and "code condition = Some (gateFilterText exprs)" and "isSourceFilter condition"
proof -
  obtain fs where fs: "compile (buildRowLevelProbe sourceName (gateFilterText exprs)) = Inr (Some fs)" "fs \<noteq> []"
      "condition = last fs" "code (last fs) = Some (gateFilterText exprs)" "isSourceFilter (last fs)"
    using assms by (auto simp: liftRowLevelCondition_def liftProbeFilterCondition_def
        split: sum.splits option.splits if_splits)
  from fs(1-3) show "\<exists>conditions. compile (buildRowLevelProbe sourceName (gateFilterText exprs))
      = Inr (Some (conditions @ [condition]))"
    by (metis append_butlast_last_id)
  show "code condition = Some (gateFilterText exprs)" "isSourceFilter condition" using fs(3-5) by simp_all
qed

lemma probe_groups_settled:
  "probe_groups compile own check s groups = (events, Inr ()) \<Longrightarrow> exprs \<in> set groups \<Longrightarrow> exprs \<noteq> [] \<Longrightarrow>
   group_settled compile own check events s exprs"
proof (induction groups arbitrary: events)
  case (Cons g groups)
  show ?case
  proof (cases "g = []")
    case True
    with Cons show ?thesis by simp
  next
    case ne: False
    show ?thesis
    proof (cases "liftRowLevelCondition compile s g")
      case (Inl err)
      with ne Cons.prems(1) obtain later where l: "own s = 0"
          "probe_groups compile own check s groups = (later, Inr ())"
          "events = RowLevelGateRejected EntryPointUnexpressible # RowLevelGateUnexpressible s err # later"
        by (auto split: if_splits prod.splits)
      show ?thesis
      proof (cases "exprs = g")
        case True
        with Inl l show ?thesis by (simp add: group_settled_def)
      next
        case False
        with Cons l(2,3) show ?thesis by (auto intro: group_settled_mono)
      qed
    next
      case (Inr condition)
      with ne Cons.prems(1) obtain later where l: "check s condition = None"
          "probe_groups compile own check s groups = (later, Inr ())"
          "events = ConditionCompiled s condition # later"
        by (auto split: if_splits prod.splits option.splits)
      show ?thesis
      proof (cases "exprs = g")
        case True
        with lifted_condition [OF Inr] l show ?thesis by (auto simp: group_settled_def)
      next
        case False
        with Cons l(2,3) show ?thesis by (auto intro: group_settled_mono)
      qed
    qed
  qed
qed simp

text \<open>
  C10: A load that passes validation has settled every gate on its own: the probe of each group, with
  that group's text and no other, compiled to a source filter that is exactly this text and that the
  load accepted, or the source only inherited it and its entry point was reported as unexpressible.
  Two groups of a source are never merged into one disjunction.
\<close>

theorem accepted_gates_landed:
  assumes "validateAuthorizeProbes compile own check authorizeMap = (events, Inr ())"
    and "(sourceName, groups) \<in> set authorizeMap" and "exprs \<in> set groups" and "exprs \<noteq> []"
  shows "group_settled compile own check events sourceName exprs"
  using assms(1,2)
proof (induction authorizeMap arbitrary: events)
  case (Cons a m)
  obtain n gs where a: "a = (n, gs)" by force
  from Cons.prems(1) a obtain e1 e2 where e: "probe_groups compile own check n gs = (e1, Inr ())"
      "validateAuthorizeProbes compile own check m = (e2, Inr ())" "events = e1 @ e2"
    by (auto split: prod.splits sum.splits)
  show ?case
  proof (cases "(sourceName, groups) = (n, gs)")
    case True
    with probe_groups_settled [OF e(1)] assms(3,4)
    have "group_settled compile own check e1 sourceName exprs" by simp
    then show ?thesis by (rule group_settled_mono) (simp add: e(3))
  next
    case False
    with Cons.IH [OF e(2)] Cons.prems(2) a
    have "group_settled compile own check e2 sourceName exprs" by auto
    then show ?thesis by (rule group_settled_mono) (simp add: e(3))
  qed
qed simp

text \<open>A compiler that resolves every field, and one that knows no source \<open>narrow\<close>.\<close>

definition demo_filter :: "string list \<Rightarrow> CompiledGateCondition" where
  "demo_filter exprs = \<lparr>code = Some (gateFilterText exprs), isSourceFilter = True\<rparr>"

definition demo_compile :: compiler where
  "demo_compile probe =
     (if probe = buildRowLevelProbe ''orders'' (gateFilterText [''a'']) then Inr (Some [demo_filter [''a'']])
      else if probe = buildRowLevelProbe ''orders'' (gateFilterText [''b'']) then Inr (Some [demo_filter [''b'']])
      else Inl ''not defined'')"

lemma demo_compile_validates:
  "validateAuthorizeProbes demo_compile (\<lambda>_. 0) (\<lambda>_ _. None)
     [(''orders'', [[''a''], [''b'']]), (''narrow'', [[''a'']])]
   = ([ConditionCompiled ''orders'' (demo_filter [''a'']), ConditionCompiled ''orders'' (demo_filter [''b'']),
       RowLevelGateRejected EntryPointUnexpressible,
       RowLevelGateUnexpressible ''narrow'' (CompileFailure ''not defined'')], Inr ())"
  by code_simp

lemma accepted_gates_landed_witness:
  "\<exists>events. group_settled demo_compile (\<lambda>_. 0) (\<lambda>_ _. None) events ''orders'' [''b'']"
  using accepted_gates_landed [OF demo_compile_validates, of "''orders''" "[[''a''], [''b'']]" "[''b'']"]
  by auto

text \<open>Reading a string literal: what precedes the closing quote does not depend on what follows it.\<close>

lemma literal_rest_append: "literal_rest q s = Some r \<Longrightarrow> literal_rest q (s @ t) = Some (r @ t)"
  by (induction q s rule: literal_rest.induct) (auto split: if_splits list.splits)

fun escape_for :: "char \<Rightarrow> string \<Rightarrow> string" where
  "escape_for q [] = []"
| "escape_for q (c # s) = (if c = q \<or> c = backslash then [backslash, c] else [c]) @ escape_for q s"

lemma literal_rest_escaped:
  "\<not> line_end q \<Longrightarrow> q \<noteq> backslash \<Longrightarrow> literal_rest q (escape_for q e @ q # r) = Some r"
  by (induction e) (auto simp: line_end_def char_defs)

lemma unescape_escaped: "q \<noteq> backslash \<Longrightarrow> unescape q (escape_for q e) = e"
proof (induction e)
  case (Cons c e)
  show ?case
  proof (cases "c = q \<or> c = backslash")
    case False
    with Cons show ?thesis by (cases "escape_for q e") (auto)
  qed (use Cons in auto)
qed simp

text \<open>
  The rewrite a load offers for a retired quoted gate is the expression the author meant: for any
  expression, in either quote, the quoted form is recognised as legacy and decodes to exactly that
  expression, so pasting the rewrite never reproduces what was refused.
\<close>

theorem legacy_rewrite_is_the_expression:
  assumes "quote_char q" and "payload = q # escape_for q expr @ [q]"
  shows "isLegacyQuotedPayload payload \<and> unquoteLegacyGatePayload payload = expr
    \<and> unquoteLegacyGatePayload payload \<noteq> payload"
proof -
  have q: "\<not> line_end q" "q \<noteq> backslash" "\<not> js_space q" "q = squote \<or> q = dquote"
    using assms(1) by (auto simp: quote_char_def line_end_def char_defs js_space_def)
  have trim: "js_trim payload = payload"
    unfolding assms(2) using q(3) by (intro js_trim_id) simp
  have "whole_body_string q payload"
    using literal_rest_escaped [OF q(1,2), of expr "[]"] by (simp add: assms(2) whole_body_string_def)
  then have l: "isLegacyQuotedPayload payload" using q(4) by (auto simp: isLegacyQuotedPayload_def trim)
  have "butlast (tl payload) = escape_for q expr" "hd payload = q" "payload \<noteq> []" by (simp_all add: assms(2))
  with q(2,4) have u: "unquoteLegacyGatePayload payload = expr"
    unfolding unquoteLegacyGatePayload_def trim Let_def
    using unescape_escaped [of squote expr] unescape_escaped [of dquote expr] by (auto simp: char_defs)
  have "length expr \<le> length (escape_for q expr)" by (induction expr) auto
  then have "length expr < length payload" by (simp add: assms(2))
  with l u show ?thesis by auto
qed

lemma legacy_rewrite_is_the_expression_witness:
  "isLegacyQuotedPayload (dquote # ''org_id = 999'' @ [dquote])
   \<and> unquoteLegacyGatePayload (dquote # ''org_id = 999'' @ [dquote]) = ''org_id = 999''"
  using legacy_rewrite_is_the_expression [of dquote _ "''org_id = 999''", OF _ refl]
  by (simp add: quote_char_def char_defs)

text \<open>A text as its code and its string literals; a body holds only what may stand in a literal.\<close>

definition literal_body :: "char \<Rightarrow> string \<Rightarrow> bool" where
  "literal_body q body \<longleftrightarrow> quote_char q \<and> literal_rest q (body @ [q]) = Some []"

definition plain_code :: "string \<Rightarrow> bool" where
  "plain_code s \<longleftrightarrow> (\<forall>c \<in> set s. \<not> quote_char c)"

fun segments_text :: "(string \<times> char \<times> string) list \<Rightarrow> string \<Rightarrow> string" where
  "segments_text [] tail = tail"
| "segments_text ((s, q, body) # segments) tail = s @ q # body @ q # segments_text segments tail"

lemma strip_gate_plain: "plain_code s \<Longrightarrow> strip_literals (s @ r) = s @ strip_literals r"
  by (induction s) (auto simp: plain_code_def)

lemma strip_gate_literal: "literal_body q body \<Longrightarrow> strip_literals (q # body @ q # r) = squote # squote # strip_literals r"
  using literal_rest_append [of q "body @ [q]" "[]" r] by (simp add: literal_body_def)

lemma given_refs_break:
  "\<not> is_word c \<Longrightarrow> c \<noteq> CHR ''$'' \<Longrightarrow> given_refs (s @ c # r) = given_refs s @ given_refs (c # r)"
proof (induction s rule: given_refs.induct)
  case (2 d s)
  have tail: "takeWhile is_word (s @ c # r) = takeWhile is_word s" "dropWhile is_word (s @ c # r) = dropWhile is_word s @ c # r"
    using 2(3) by (simp_all add: takeWhile_tail dropWhile_append3)
  have nw: "\<not> name_start c" using 2(3) by (auto simp: is_word_def name_start_def)
  show ?case
  proof (cases "d = CHR ''$'' \<and> s \<noteq> [] \<and> name_start (hd s)")
    case True
    then have "given_refs (d # s @ c # r) = takeWhile is_word s # given_refs (dropWhile is_word s @ c # r)"
      by (subst given_refs.simps) (simp add: tail)
    with True 2(1) [OF True 2(3,4)] show ?thesis by simp
  next
    case False
    then have "\<not> (d = CHR ''$'' \<and> s @ c # r \<noteq> [] \<and> name_start (hd (s @ c # r)))"
      using nw by (cases s) auto
    then have "given_refs (d # s @ c # r) = given_refs (s @ c # r)"
      by (subst given_refs.simps) auto
    moreover have "given_refs (d # s) = given_refs s" using False by (subst given_refs.simps) auto
    ultimately show ?thesis using 2(2) [OF False 2(3,4)] by simp
  qed
qed (simp add: name_start_def)

lemma squote_breaks: "\<not> is_word squote" "squote \<noteq> CHR ''$''" "given_refs (squote # r) = given_refs r"
  by (simp_all add: char_defs is_word_def is_digit_def is_upper_def is_lower_def)

text \<open>
  The givens a gate is taken to reference are exactly those of its code: a \<open>$NAME\<close> inside a string
  literal of either quote is never reported, every one outside is, each once and in order of first
  appearance.
\<close>

theorem referenced_givens_of_code:
  assumes "\<forall>(s, q, body) \<in> set segments. plain_code s \<and> literal_body q body" and "plain_code tail"
  shows "referencedGivenNames (segments_text segments tail)
    = first_seen (concat (map (\<lambda>seg. given_refs (fst seg)) segments) @ given_refs tail)"
proof -
  have "given_refs (strip_literals (segments_text segments tail))
      = concat (map (\<lambda>seg. given_refs (fst seg)) segments) @ given_refs tail"
    using assms(1)
  proof (induction segments)
    case Nil
    then show ?case using strip_gate_plain [OF assms(2), of "[]"] by simp
  next
    case (Cons a segments)
    obtain s q body where a: "a = (s, q, body)" by (cases a)
    have "strip_literals (segments_text (a # segments) tail)
        = s @ squote # squote # strip_literals (segments_text segments tail)"
      using Cons.prems a by (simp add: strip_gate_plain strip_gate_literal del: strip_literals.simps)
    then have "given_refs (strip_literals (segments_text (a # segments) tail))
        = given_refs s @ given_refs (strip_literals (segments_text segments tail))"
      by (simp only: given_refs_break [OF squote_breaks(1,2)] squote_breaks(3))
    also have "given_refs (strip_literals (segments_text segments tail))
        = concat (map (\<lambda>seg. given_refs (fst seg)) segments) @ given_refs tail"
      using Cons.prems by (intro Cons.IH) simp
    finally show ?case by (simp add: a)
  qed
  then show ?thesis by (simp add: referencedGivenNames_def)
qed

lemma referenced_givens_of_code_witness:
  "referencedGivenNames (segments_text [(''$ROLE = '', squote, ''the $BOSS role'')] '' and $ORG = $ROLE'')
     = [''ROLE'', ''ORG'']"
proof -
  have "\<forall>(s, q, body) \<in> set [(''$ROLE = '', squote, ''the $BOSS role'')]. plain_code s \<and> literal_body q body"
    "plain_code '' and $ORG = $ROLE''"
    "first_seen (concat (map (\<lambda>seg. given_refs (fst seg)) [(''$ROLE = '', squote, ''the $BOSS role'')])
      @ given_refs '' and $ORG = $ROLE'') = [''ROLE'', ''ORG'']"
    by code_simp+
  with referenced_givens_of_code [OF this(1,2)] show ?thesis by simp
qed

text \<open>Reading a quoted identifier back: the escapes are those of a literal in backticks.\<close>

fun read_identifier :: "string \<Rightarrow> (string \<times> string) option" where
  "read_identifier [] = None"
| "read_identifier (c # s) =
     (if c = backtick then Some ([], s)
      else if c = backslash then (case s of [] \<Rightarrow> None | d # s' \<Rightarrow> map_option (apfst ((#) d)) (read_identifier s'))
      else map_option (apfst ((#) c)) (read_identifier s))"

text \<open>
  The probe compiles against the source it names and no other: whatever the name, the quoted
  target reads back as that name and ends where the probe's own text goes on.
\<close>

theorem probe_target_reads_back:
  "\<exists>r. buildRowLevelProbe name filterText = ''run: '' @ backtick # r
     \<and> read_identifier r = Some (name, '' extend { where: '' @ filterText @ '' } -> { select: __authorize_probe is 1; limit: 1 }'')"
proof -
  have "read_identifier (replace_all backtick [backslash, backtick] (replace_all backslash [backslash, backslash] name)
      @ backtick # t) = Some (name, t)" for t
    by (induction name) (auto simp: char_defs replace_all_def)
  then show ?thesis by (simp add: buildRowLevelProbe_def quoteMalloyIdentifier_def)
qed

end
