(* ===== verification/IrGraph.thy ===== *)
theory IrGraph
  imports Prelude
begin

text \<open>
  The compiler's intermediate representation as the server sees it: a graph of JavaScript objects
  that may share nodes and contain cycles. The server never knows its types, so it walks it blindly:
  depth first, with a set of visited objects and a bound on the depth, past which it throws. This
  theory has the graph and that walk; the walks of the components are instances.
\<close>

subsection \<open>Objects\<close>

type_synonym address = nat

datatype ir_value =
    IrUndefined
  | IrNull
  | IrBool bool
  | IrNum int
  | IrStr string
  | IrRef address

datatype ir_object =
    IrArray "ir_value list"
  | IrRecord "(string \<times> ir_value) list"

type_synonym heap = "address \<Rightarrow> ir_object option"

definition refs :: "ir_value list \<Rightarrow> address set" where
  "refs vs = {a. IrRef a \<in> set vs}"

lemma refs_Nil [simp]: "refs [] = {}"
  and refs_Cons: "refs (v # vs) = refs [v] \<union> refs vs"
  and refs_single [simp]: "refs [IrRef a] = {a}"
  by (auto simp: refs_def)

lemma refs_leaf: "(\<And>a. v \<noteq> IrRef a) \<Longrightarrow> refs [v] = {}"
  by (auto simp: refs_def)

text \<open>\<open>Array.isArray\<close>, a property of a value, and the text of an annotation note.\<close>

definition array_items :: "heap \<Rightarrow> ir_value option \<Rightarrow> ir_value list option" where
  "array_items h v = (case v of
      Some (IrRef a) \<Rightarrow> (case h a of Some (IrArray items) \<Rightarrow> Some items | _ \<Rightarrow> None)
    | _ \<Rightarrow> None)"

definition record_of :: "heap \<Rightarrow> ir_value option \<Rightarrow> (string \<times> ir_value) list option" where
  "record_of h v = (case v of
      Some (IrRef a) \<Rightarrow> (case h a of Some (IrRecord fields) \<Rightarrow> Some fields | _ \<Rightarrow> None)
    | _ \<Rightarrow> None)"

definition note_text :: "heap \<Rightarrow> ir_value \<Rightarrow> string option" where
  "note_text h n = (case n of
      IrStr s \<Rightarrow> Some s
    | IrRef a \<Rightarrow> (case record_of h (Some n) of
          Some fields \<Rightarrow> (case map_of fields ''text'' of Some (IrStr s) \<Rightarrow> Some s | _ \<Rightarrow> None)
        | None \<Rightarrow> None)
    | _ \<Rightarrow> None)"

text \<open>The notes of a record: \<open>for (const key of ["blockNotes", "notes"])\<close>, arrays only.\<close>

definition note_entries :: "heap \<Rightarrow> (string \<times> ir_value) list \<Rightarrow> ir_value list" where
  "note_entries h fields =
     concat (map (\<lambda>key. case array_items h (map_of fields key) of Some items \<Rightarrow> items | None \<Rightarrow> [])
       [''blockNotes'', ''notes''])"

definition note_texts :: "heap \<Rightarrow> (string \<times> ir_value) list \<Rightarrow> string list" where
  "note_texts h fields = somes (map (note_text h) (note_entries h fields))"

subsection \<open>The walk\<close>

definition MAX_WALK_DEPTH :: nat where "MAX_WALK_DEPTH = 200"

text \<open>
  What a walk does at a record, by the depth it is at: whether it stops with \<open>true\<close>, the notes it
  collects, and the values it descends into. An array is descended into whole.
\<close>

type_synonym visit = "nat \<Rightarrow> (string \<times> ir_value) list \<Rightarrow> bool \<times> address set \<times> ir_value list"

definition node :: "heap \<Rightarrow> visit \<Rightarrow> nat \<Rightarrow> address \<Rightarrow> bool \<times> address set \<times> ir_value list" where
  "node h visit depth a = (case h a of
      None \<Rightarrow> (False, {}, [])
    | Some (IrArray items) \<Rightarrow> (False, {}, items)
    | Some (IrRecord fields) \<Rightarrow> visit depth fields)"

text \<open>\<open>Inl ()\<close> is the exception past the depth bound; the sets are the visited and the collected objects.\<close>

type_synonym walk_result = "(unit + bool) \<times> address set \<times> address set"

function walk :: "heap \<Rightarrow> visit \<Rightarrow> nat \<Rightarrow> ir_value \<Rightarrow> address set \<Rightarrow> address set \<Rightarrow> walk_result"
  and walk_list :: "heap \<Rightarrow> visit \<Rightarrow> nat \<Rightarrow> ir_value list \<Rightarrow> address set \<Rightarrow> address set \<Rightarrow> walk_result" where
  "walk h visit depth v seen found =
     (if depth > MAX_WALK_DEPTH then (Inl (), seen, found)
      else case v of
        IrRef a \<Rightarrow>
          if a \<in> seen then (Inr False, seen, found)
          else (case node h visit depth a of (stop, ns, kids) \<Rightarrow>
            if stop then (Inr True, insert a seen, found \<union> ns)
            else walk_list h visit (Suc depth) kids (insert a seen) (found \<union> ns))
      | _ \<Rightarrow> (Inr False, seen, found))"
| "walk_list h visit depth [] seen found = (Inr False, seen, found)"
| "walk_list h visit depth (v # vs) seen found =
     (case walk h visit depth v seen found of
        (Inr False, seen', found') \<Rightarrow> walk_list h visit depth vs seen' found'
      | r \<Rightarrow> r)"
  by pat_completeness auto

termination
  by (relation "measures [\<lambda>x. case x of Inl (h, visit, depth, _) \<Rightarrow> 202 - depth | Inr (h, visit, depth, _) \<Rightarrow> 202 - depth,
      \<lambda>x. case x of Inl _ \<Rightarrow> 0 | Inr (h, visit, depth, vs, _) \<Rightarrow> Suc (length vs)]")
    (auto simp: MAX_WALK_DEPTH_def)

declare walk.simps [simp del]

text \<open>A fresh record, such as the copy a rest pattern makes: nothing in the heap refers to it.\<close>

definition walk_record :: "heap \<Rightarrow> visit \<Rightarrow> (string \<times> ir_value) list \<Rightarrow> walk_result" where
  "walk_record h visit fields = (case visit 0 fields of (stop, ns, kids) \<Rightarrow>
     if stop then (Inr True, {}, ns) else walk_list h visit 1 kids {} ns)"

subsection \<open>What a walk that ends without stopping has seen\<close>

text \<open>Reachability along the values a walk descends into, at depths of one or more.\<close>

inductive reaches :: "heap \<Rightarrow> visit \<Rightarrow> ir_value \<Rightarrow> address \<Rightarrow> bool" for h visit v where
  reaches_root: "v = IrRef a \<Longrightarrow> reaches h visit v a"
| reaches_kid: "reaches h visit v a \<Longrightarrow> b \<in> refs (snd (snd (node h visit 0 a))) \<Longrightarrow> reaches h visit v b"

definition uniform :: "visit \<Rightarrow> bool" where
  "uniform visit \<longleftrightarrow> (\<forall>d fields. visit d fields = visit 0 fields)"

lemma node_uniform: "uniform visit \<Longrightarrow> node h visit d a = node h visit 0 a"
  by (auto simp: uniform_def node_def split: option.splits ir_object.splits)

text \<open>The objects a walk has newly visited are finished: none stops it, and their kids are visited.\<close>

definition finished :: "heap \<Rightarrow> visit \<Rightarrow> nat \<Rightarrow> address set \<Rightarrow> address set \<Rightarrow> bool" where
  "finished h visit depth new seen \<longleftrightarrow>
     (\<forall>a \<in> new. \<exists>d \<ge> depth. \<not> fst (node h visit d a) \<and> refs (snd (snd (node h visit d a))) \<subseteq> seen)"

lemma finished_mono:
  "finished h visit depth new seen \<Longrightarrow> seen \<subseteq> seen' \<Longrightarrow> depth' \<le> depth \<Longrightarrow> finished h visit depth' new seen'"
  unfolding finished_def by (meson order_trans)

lemma finished_Un: "finished h visit depth (A \<union> B) seen \<longleftrightarrow> finished h visit depth A seen \<and> finished h visit depth B seen"
  by (auto simp: finished_def)

lemma walk_finished:
  "walk h visit depth v seen found = (Inr False, seen', found') \<Longrightarrow>
     seen \<subseteq> seen' \<and> refs [v] \<subseteq> seen' \<and> finished h visit depth (seen' - seen) seen'"
  "walk_list h visit depth vs seen found = (Inr False, seen', found') \<Longrightarrow>
     seen \<subseteq> seen' \<and> refs vs \<subseteq> seen' \<and> finished h visit depth (seen' - seen) seen'"
proof (induction h visit depth v seen found and h visit depth vs seen found
    arbitrary: seen' found' and seen' found' rule: walk_walk_list.induct)
  case (1 h visit depth v seen found)
  show ?case
  proof (cases "\<exists>a. v = IrRef a \<and> a \<notin> seen")
    case True
    then obtain a where v: "v = IrRef a" "a \<notin> seen" by blast
    obtain stop ns kids where n: "node h visit depth a = (stop, ns, kids)" by (cases "node h visit depth a")
    from 1(2) v n have d: "\<not> depth > MAX_WALK_DEPTH" and "\<not> stop"
      and w: "walk_list h visit (Suc depth) kids (insert a seen) (found \<union> ns) = (Inr False, seen', found')"
      by (auto simp: walk.simps split: if_splits)
    from 1(1) [OF d v n [symmetric] refl \<open>\<not> stop\<close> w]
    have ih: "insert a seen \<subseteq> seen'" "refs kids \<subseteq> seen'" "finished h visit (Suc depth) (seen' - insert a seen) seen'"
      by auto
    have "finished h visit depth (seen' - insert a seen) seen'" using ih(3) by (rule finished_mono) simp_all
    moreover have "finished h visit depth {a} seen'"
      unfolding finished_def using n \<open>\<not> stop\<close> ih(2) by (auto intro!: exI [of _ depth])
    moreover have "seen' - seen = (seen' - insert a seen) \<union> {a}" using ih(1) v(2) by auto
    ultimately have "finished h visit depth (seen' - seen) seen'" by (simp only: finished_Un)
    then show ?thesis using ih(1) v by auto
  next
    case False
    with 1(2) have "seen' = seen" "refs [v] \<subseteq> seen"
      by (auto simp: walk.simps refs_def split: if_splits ir_value.splits)
    then show ?thesis by (simp add: finished_def)
  qed
next
  case (2 h visit depth seen found)
  then show ?case by (simp add: finished_def)
next
  case (3 h visit depth v vs seen found)
  obtain s1 f1 where w: "walk h visit depth v seen found = (Inr False, s1, f1)"
      "walk_list h visit depth vs s1 f1 = (Inr False, seen', found')"
    using 3(3) by (auto split: prod.splits sum.splits bool.splits)
  note a = 3(1) [OF w(1)] and b = 3(2) [OF w(1) [symmetric] refl refl refl w(2)]
  have "finished h visit depth (s1 - seen) seen'" using a b finished_mono by blast
  moreover have "seen' - seen = (s1 - seen) \<union> (seen' - s1)" using a b by auto
  ultimately have "finished h visit depth (seen' - seen) seen'" using b by (simp only: finished_Un)
  moreover have "refs (v # vs) \<subseteq> seen'" using a b by (auto simp: refs_def)
  ultimately show ?case using a b by blast
qed

subsection \<open>Uniform walks visit what is reachable\<close>

lemma reaches_trans:
  "reaches h visit (IrRef b) c \<Longrightarrow> reaches h visit v a \<Longrightarrow> b \<in> refs (snd (snd (node h visit 0 a))) \<Longrightarrow>
   reaches h visit v c"
  by (induction c rule: reaches.induct) (auto intro: reaches_kid)

lemma reaches_leaf: "(\<And>a. v \<noteq> IrRef a) \<Longrightarrow> \<not> reaches h visit v b"
proof
  assume leaf: "\<And>a. v \<noteq> IrRef a" and "reaches h visit v b"
  from this(2) show False by (induction b rule: reaches.induct) (use leaf in auto)
qed

text \<open>Whatever the outcome, a walk visits only what is reachable, and stops only at a node that does.\<close>

lemma walk_reaches:
  "walk h visit depth v seen found = (r, seen', found') \<Longrightarrow> uniform visit \<Longrightarrow>
     (\<forall>b \<in> seen' - seen. reaches h visit v b)
     \<and> (r = Inr True \<longrightarrow> (\<exists>b. reaches h visit v b \<and> fst (node h visit 0 b)))"
  "walk_list h visit depth vs seen found = (r, seen', found') \<Longrightarrow> uniform visit \<Longrightarrow>
     (\<forall>b \<in> seen' - seen. \<exists>v \<in> set vs. reaches h visit v b)
     \<and> (r = Inr True \<longrightarrow> (\<exists>v \<in> set vs. \<exists>b. reaches h visit v b \<and> fst (node h visit 0 b)))"
proof (induction h visit depth v seen found and h visit depth vs seen found
    arbitrary: r seen' found' and r seen' found' rule: walk_walk_list.induct)
  case (1 h visit depth v seen found)
  show ?case
  proof (cases "\<not> depth > MAX_WALK_DEPTH \<and> (\<exists>a. v = IrRef a \<and> a \<notin> seen)")
    case True
    then obtain a where v: "v = IrRef a" "a \<notin> seen" and d: "\<not> depth > MAX_WALK_DEPTH" by blast
    obtain stop ns kids where n: "node h visit depth a = (stop, ns, kids)" by (cases "node h visit depth a")
    with node_uniform [OF 1(3)] have n0: "node h visit 0 a = (stop, ns, kids)" by metis
    have root: "reaches h visit v a" using v by (intro reaches_root) simp
    have kid: "reaches h visit v c" if k: "w \<in> set kids" "reaches h visit w c" for w c
    proof -
      obtain b where b: "w = IrRef b" using k(2) reaches_leaf by blast
      then have "b \<in> refs kids" using k(1) by (auto simp: refs_def)
      with reaches_trans [OF k(2) [unfolded b] root] n0 show ?thesis by simp
    qed
    show ?thesis
    proof (cases stop)
      case True
      with 1(2) v d n have "seen' = insert a seen" by (auto simp: walk.simps)
      with True n0 root show ?thesis by auto
    next
      case False
      with 1(2) v d n have w: "walk_list h visit (Suc depth) kids (insert a seen) (found \<union> ns) = (r, seen', found')"
        by (auto simp: walk.simps)
      from 1(1) [OF d v n [symmetric] refl False w 1(3)] kid root show ?thesis by blast
    qed
  next
    case False
    with 1(2) have "seen' = seen \<and> r \<in> {Inl (), Inr False}"
      by (cases v; cases "depth > MAX_WALK_DEPTH") (simp_all add: walk.simps)
    then show ?thesis by auto
  qed
next
  case (2 h visit depth seen found)
  then show ?case by auto
next
  case (3 h visit depth v vs seen found)
  obtain r1 s1 f1 where w: "walk h visit depth v seen found = (r1, s1, f1)" by (cases "walk h visit depth v seen found")
  note a = 3(1) [OF w 3(4)]
  show ?case
  proof (cases "r1 = Inr False")
    case True
    with w 3(3) have w2: "walk_list h visit depth vs s1 f1 = (r, seen', found')" by simp
    from 3(2) [OF w [unfolded True, symmetric] refl refl refl w2 3(4)] a show ?thesis by fastforce
  next
    case False
    with w 3(3) have "r = r1" "seen' = s1" by (auto split: sum.splits bool.splits)
    with a show ?thesis by auto
  qed
qed

lemma walk_found:
  "walk h visit depth v seen found = (Inr False, seen', found') \<Longrightarrow> uniform visit \<Longrightarrow>
     found' = found \<union> (\<Union>a \<in> seen' - seen. fst (snd (node h visit 0 a)))"
  "walk_list h visit depth vs seen found = (Inr False, seen', found') \<Longrightarrow> uniform visit \<Longrightarrow>
     found' = found \<union> (\<Union>a \<in> seen' - seen. fst (snd (node h visit 0 a)))"
proof (induction h visit depth v seen found and h visit depth vs seen found
    arbitrary: seen' found' and seen' found' rule: walk_walk_list.induct)
  case (1 h visit depth v seen found)
  show ?case
  proof (cases "\<exists>a. v = IrRef a \<and> a \<notin> seen")
    case True
    then obtain a where v: "v = IrRef a" "a \<notin> seen" by blast
    obtain stop ns kids where n: "node h visit depth a = (stop, ns, kids)" by (cases "node h visit depth a")
    with node_uniform [OF 1(3)] have n0: "node h visit 0 a = (stop, ns, kids)" by metis
    from 1(2) v n have d: "\<not> depth > MAX_WALK_DEPTH" and "\<not> stop"
      and w: "walk_list h visit (Suc depth) kids (insert a seen) (found \<union> ns) = (Inr False, seen', found')"
      by (auto simp: walk.simps split: if_splits)
    have "insert a seen \<subseteq> seen'" using walk_finished(2) [OF w] by simp
    then have "seen' - seen = insert a (seen' - insert a seen)" using v(2) by auto
    with 1(1) [OF d v n [symmetric] refl \<open>\<not> stop\<close> w 1(3)] n0 show ?thesis by auto
  next
    case False
    with 1(2) have "seen' = seen" "found' = found"
      by (auto simp: walk.simps split: if_splits ir_value.splits)
    then show ?thesis by simp
  qed
next
  case (2 h visit depth seen found)
  then show ?case by simp
next
  case (3 h visit depth v vs seen found)
  obtain s1 f1 where w: "walk h visit depth v seen found = (Inr False, s1, f1)"
      "walk_list h visit depth vs s1 f1 = (Inr False, seen', found')"
    using 3(3) by (auto split: prod.splits sum.splits bool.splits)
  have "seen' - seen = (s1 - seen) \<union> (seen' - s1)"
    using walk_finished(1) [OF w(1)] walk_finished(2) [OF w(2)] by auto
  with 3(1) [OF w(1) 3(4)] 3(2) [OF w(1) [symmetric] refl refl refl w(2) 3(4)] show ?case by auto
qed

text \<open>A walk from nothing: what it has seen is the reachable part, cycles and sharing included.\<close>

theorem walk_exact:
  assumes "walk h visit 0 v {} {} = (Inr False, seen, found)" and "uniform visit"
  shows "seen = {a. reaches h visit v a}" and "\<And>a. reaches h visit v a \<Longrightarrow> \<not> fst (node h visit 0 a)"
    and "found = (\<Union>a \<in> {a. reaches h visit v a}. fst (snd (node h visit 0 a)))"
proof -
  have f: "refs [v] \<subseteq> seen" "finished h visit 0 seen seen"
    using walk_finished(1) [OF assms(1)] by simp_all
  have node: "\<not> fst (node h visit 0 a)" "refs (snd (snd (node h visit 0 a))) \<subseteq> seen" if "a \<in> seen" for a
    using f(2) that node_uniform [OF assms(2)] unfolding finished_def by metis+
  have reach: "a \<in> seen" if "reaches h visit v a" for a
    using that by (induction a rule: reaches.induct) (use f(1) node(2) in auto)
  with walk_reaches(1) [OF assms] show seen: "seen = {a. reaches h visit v a}" by auto
  show "\<not> fst (node h visit 0 a)" if "reaches h visit v a" for a
    using reach [OF that] node(1) by blast
  show "found = (\<Union>a \<in> {a. reaches h visit v a}. fst (snd (node h visit 0 a)))"
    using walk_found(1) [OF assms] seen by simp
qed

end
