(* ===== verification/Partition.thy ===== *)
theory Partition
  imports IrGraph
begin

text \<open>
  The \<open>#(partition)\<close> marker (\<open>service/partition_annotation.ts\<close>): its grammar, the pairs a source
  declares, and the walk that looks for a marker one level too low. Malloy's routing of a note is a
  parameter.
\<close>

subsection \<open>Routing\<close>

definition PARTITION_ROUTE :: string where "PARTITION_ROUTE = ''partition''"

definition partition_routed :: "(string \<Rightarrow> string option) \<Rightarrow> string \<Rightarrow> bool" where
  "partition_routed routeOf txt \<longleftrightarrow> routeOf (js_trim_start txt) = Some PARTITION_ROUTE"

definition containsPartitionAnnotationTag :: "(string \<Rightarrow> string option) \<Rightarrow> string list \<Rightarrow> bool" where
  "containsPartitionAnnotationTag routeOf texts \<longleftrightarrow> (\<exists>t \<in> set texts. partition_routed routeOf t)"

definition partition_payload :: "(string \<Rightarrow> string option) \<Rightarrow> string \<Rightarrow> string" where
  "partition_payload payloadOf txt =
     (case payloadOf (js_trim_start txt) of Some p \<Rightarrow> p | None \<Rightarrow> [])"

text \<open>
  \<open>reachesPartitionTagBelow\<close> as an instance of the walk: below the root a joined source is skipped
  and a note is looked at; at the root the declaration the resolver reads is skipped.
\<close>

definition partition_below_visit :: "(string \<Rightarrow> string option) \<Rightarrow> heap \<Rightarrow> visit" where
  "partition_below_visit routeOf h depth fields =
     (if depth > 0 \<and> (case map_of fields ''join'' of None \<Rightarrow> False | Some v \<Rightarrow> v \<noteq> IrUndefined)
      then (False, {}, [])
      else if depth > 0 \<and> containsPartitionAnnotationTag routeOf (note_texts h fields) then (True, {}, [])
      else (False, {}, map snd (if depth = 0 then List.filter (\<lambda>(k, v). k \<noteq> ''annotations'') fields else fields)))"

definition reachesPartitionTagBelow :: "(string \<Rightarrow> string option) \<Rightarrow> heap \<Rightarrow> ir_value \<Rightarrow> unit + bool" where
  "reachesPartitionTagBelow routeOf h v = fst (walk h (partition_below_visit routeOf h) 0 v {} {})"

subsection \<open>The grammar\<close>

datatype PartitionAnnotationRejectionCause =
    EmptyBody | CompoundBoolean | InOperator | NegatedOperator | ComparisonOperator
  | LeftNotFieldPath | MissingGivenReference | MalformedBody | DuplicateGiven
  | PartitionedComposite | AncestryUnresolvable | MarkerUnreachable

record PartitionPair =
  column :: string
  given :: string

definition ident_start :: "char \<Rightarrow> bool" where
  "ident_start c \<longleftrightarrow> is_upper c \<or> is_lower c \<or> c = CHR ''_''"

definition is_ident :: "string \<Rightarrow> bool" where
  "is_ident s \<longleftrightarrow> s \<noteq> [] \<and> ident_start (hd s) \<and> list_all is_word s"

text \<open>\<open>FIELD_PATH_RE\<close> and \<open>GIVEN_REF_RE\<close>.\<close>

definition is_field_path :: "string \<Rightarrow> bool" where
  "is_field_path s \<longleftrightarrow> list_all is_ident (split_on CHR ''.'' s)"

definition given_reference :: "string \<Rightarrow> string option" where
  "given_reference s = (case s of c # n \<Rightarrow> if c = CHR ''$'' \<and> is_ident n then Some n else None | [] \<Rightarrow> None)"

text \<open>
  \<open>/\bword\b/i\<close>: the word in any case at a place where it starts and ends a run of word characters.
  \<open>at_start\<close> says that the position is not preceded by a word character.
\<close>

fun word_in :: "string \<Rightarrow> bool \<Rightarrow> string \<Rightarrow> bool" where
  "word_in w at_start [] = False"
| "word_in w at_start (c # s) \<longleftrightarrow>
     (at_start \<and> js_lower (take (length w) (c # s)) = w
        \<and> (drop (length w) (c # s) = [] \<or> \<not> is_word (hd (drop (length w) (c # s)))))
     \<or> word_in w (\<not> is_word c) s"

definition COMPOUND_BOOLEAN :: "string \<Rightarrow> bool" where
  "COMPOUND_BOOLEAN body \<longleftrightarrow> (\<exists>w \<in> {''and'', ''or'', ''not''}. word_in w True body)"

definition IN_OPERATOR :: "string \<Rightarrow> bool" where
  "IN_OPERATOR body \<longleftrightarrow> word_in ''in'' True body"

definition NEGATED_OPERATOR :: "string \<Rightarrow> bool" where
  "NEGATED_OPERATOR body \<longleftrightarrow> sublist ''!='' body"

definition COMPARISON_OPERATOR :: "string \<Rightarrow> bool" where
  "COMPARISON_OPERATOR body \<longleftrightarrow> CHR ''<'' \<in> set body \<or> CHR ''>'' \<in> set body"

text \<open>
  \<open>parsePartitionAnnotation\<close>: \<open>Inr None\<close> for a note that is no marker. The checks come in the order
  of the source; the error carries its cause.
\<close>

definition parse_partition_body :: "string \<Rightarrow> PartitionAnnotationRejectionCause + PartitionPair" where
  "parse_partition_body body =
     (if body = [] then Inl EmptyBody
      else if COMPOUND_BOOLEAN body then Inl CompoundBoolean
      else if IN_OPERATOR body then Inl InOperator
      else if NEGATED_OPERATOR body then Inl NegatedOperator
      else if COMPARISON_OPERATOR body then Inl ComparisonOperator
      else (case index_of CHR ''='' body of
          None \<Rightarrow> Inl MalformedBody
        | Some eq \<Rightarrow>
            (let left = js_trim (take eq body); right = js_trim (drop (Suc eq) body) in
             if \<not> is_field_path left then Inl LeftNotFieldPath
             else case given_reference right of
                 None \<Rightarrow> Inl MissingGivenReference
               | Some g \<Rightarrow> Inr \<lparr>column = left, given = g\<rparr>)))"

definition parsePartitionAnnotation ::
  "(string \<Rightarrow> string option) \<Rightarrow> (string \<Rightarrow> string option) \<Rightarrow> string
   \<Rightarrow> PartitionAnnotationRejectionCause + PartitionPair option" where
  "parsePartitionAnnotation routeOf payloadOf annotationText =
     (if \<not> partition_routed routeOf annotationText then Inr None
      else bind_r (parse_partition_body (js_trim (partition_payload payloadOf annotationText)))
             (\<lambda>pair. Inr (Some pair)))"

text \<open>\<open>collectPartitionPairs\<close>; \<open>seen\<close> are the givens of the pairs so far.\<close>

fun collect_pairs ::
  "(string \<Rightarrow> string option) \<Rightarrow> (string \<Rightarrow> string option) \<Rightarrow> string list \<Rightarrow> PartitionPair list
   \<Rightarrow> PartitionAnnotationRejectionCause + PartitionPair list" where
  "collect_pairs routeOf payloadOf [] pairs = Inr pairs"
| "collect_pairs routeOf payloadOf (t # texts) pairs =
     (case parsePartitionAnnotation routeOf payloadOf t of
        Inl e \<Rightarrow> Inl e
      | Inr None \<Rightarrow> collect_pairs routeOf payloadOf texts pairs
      | Inr (Some pair) \<Rightarrow>
          if given pair \<in> given ` set pairs then Inl DuplicateGiven
          else collect_pairs routeOf payloadOf texts (pairs @ [pair]))"

definition collectPartitionPairs ::
  "(string \<Rightarrow> string option) \<Rightarrow> (string \<Rightarrow> string option) \<Rightarrow> string list
   \<Rightarrow> PartitionAnnotationRejectionCause + PartitionPair list" where
  "collectPartitionPairs routeOf payloadOf annotationTexts = collect_pairs routeOf payloadOf annotationTexts []"

subsection \<open>Properties\<close>

lemma js_trim_split: "\<exists>a b. s = a @ js_trim s @ b \<and> list_all js_space a \<and> list_all js_space b"
proof (intro exI conjI)
  let ?t = "js_trim_start s"
  let ?b = "rev (takeWhile js_space (rev ?t))"
  have "rev (dropWhile js_space (rev ?t)) @ ?b = ?t"
    unfolding rev_append [symmetric] takeWhile_dropWhile_id rev_rev_ident ..
  then show "s = takeWhile js_space s @ js_trim s @ ?b"
    by (simp add: js_trim_def js_trim_end_def js_trim_start_def)
  show "list_all js_space (takeWhile js_space s)" "list_all js_space ?b"
    by (auto simp: list_all_iff dest: set_takeWhileD)
qed

text \<open>
  A marker that is accepted says exactly what its pair says: the body is a field path, one equals
  sign and one given reference, with white space around them and nothing else.
\<close>

theorem accepted_marker_exact:
  assumes "parsePartitionAnnotation routeOf payloadOf txt = Inr (Some pair)"
  shows "partition_routed routeOf txt \<and> is_field_path (column pair) \<and> is_ident (given pair)
    \<and> (\<exists>a b c d. list_all js_space (a @ b @ c @ d)
        \<and> js_trim (partition_payload payloadOf txt) = a @ column pair @ b @ ''='' @ c @ ''$'' @ given pair @ d)"
proof -
  let ?body = "js_trim (partition_payload payloadOf txt)"
  have r: "partition_routed routeOf txt" "parse_partition_body ?body = Inr pair"
    using assms by (auto simp: parsePartitionAnnotation_def bind_r_eq_Inr split: if_splits)
  then obtain eq g where eq: "index_of CHR ''='' ?body = Some eq"
      and path: "is_field_path (js_trim (take eq ?body))"
      and g: "given_reference (js_trim (drop (Suc eq) ?body)) = Some g"
      and pair: "pair = \<lparr>column = js_trim (take eq ?body), given = g\<rparr>"
    by (auto simp: parse_partition_body_def Let_def split: if_splits option.splits)
  have right: "js_trim (drop (Suc eq) ?body) = ''$'' @ g" and "is_ident g"
    using g by (auto simp: given_reference_def split: list.splits if_splits)
  obtain a b where ab: "take eq ?body = a @ column pair @ b" "list_all js_space a" "list_all js_space b"
    using js_trim_split [of "take eq ?body"] pair by auto
  obtain c d where cd: "drop (Suc eq) ?body = c @ (''$'' @ given pair) @ d" "list_all js_space c" "list_all js_space d"
    using js_trim_split [of "drop (Suc eq) ?body"] pair right by auto
  have "?body = a @ column pair @ b @ ''='' @ c @ ''$'' @ given pair @ d"
    using index_of_Some [OF eq] ab(1) cd(1) by (metis append.assoc append_Cons append_Nil)
  then show ?thesis
    using r(1) path \<open>is_ident g\<close> pair ab(2,3) cd(2,3) by (intro conjI exI [of _ a] exI [of _ b] exI [of _ c] exI [of _ d]) simp_all
qed

lemma accepted_marker_exact_witness:
  "\<exists>a b c d. list_all js_space (a @ b @ c @ d)
     \<and> ''org.id  =  $ORG'' = a @ ''org.id'' @ b @ ''='' @ c @ ''$'' @ ''ORG'' @ d"
proof -
  have "parsePartitionAnnotation (\<lambda>_. Some PARTITION_ROUTE) (\<lambda>_. Some '' org.id  =  $ORG'') ''#(partition)''
      = Inr (Some \<lparr>column = ''org.id'', given = ''ORG''\<rparr>)"
    by code_simp
  from accepted_marker_exact [OF this] show ?thesis
    by (simp add: partition_payload_def js_trim_def js_trim_end_def js_trim_start_def js_space_def)
qed

text \<open>
  The pairs a source declares slice on distinct givens, and they are the pairs of its markers in
  order: a malformed marker or a given used twice refuses them all, none is dropped.
\<close>

lemma collect_pairs_result:
  "collect_pairs routeOf payloadOf texts pairs = Inr ps \<Longrightarrow> distinct (map given pairs) \<Longrightarrow>
   \<exists>rs. mapM_r (parsePartitionAnnotation routeOf payloadOf) texts = Inr rs \<and> ps = pairs @ somes rs
      \<and> distinct (map given ps)"
proof (induction texts arbitrary: pairs)
  case (Cons t texts)
  show ?case
  proof (cases "parsePartitionAnnotation routeOf payloadOf t")
    case (Inr r)
    show ?thesis
    proof (cases r)
      case None
      with Inr Cons.prems Cons.IH [of pairs] show ?thesis by auto
    next
      case (Some pair)
      with Inr Cons.prems have c: "collect_pairs routeOf payloadOf texts (pairs @ [pair]) = Inr ps"
        "distinct (map given (pairs @ [pair]))"
        by (auto split: if_splits)
      from Cons.IH [OF c] Inr Some show ?thesis by auto
    qed
  qed (use Cons.prems in simp)
qed simp

theorem collected_pairs_exact:
  assumes "collectPartitionPairs routeOf payloadOf texts = Inr pairs"
  shows "distinct (map given pairs)
    \<and> (\<exists>rs. mapM_r (parsePartitionAnnotation routeOf payloadOf) texts = Inr rs \<and> pairs = somes rs)"
  using collect_pairs_result [OF assms [unfolded collectPartitionPairs_def]] by auto

lemma collected_pairs_exact_witness:
  "distinct (map given [\<lparr>column = ''a'', given = ''A''\<rparr>, \<lparr>column = ''b'', given = ''B''\<rparr>])"
proof -
  have "collectPartitionPairs (\<lambda>t. if t = ''#(doc)'' then Some ''doc'' else Some PARTITION_ROUTE)
      (\<lambda>t. Some (drop 12 t)) [''#(partition) a = $A'', ''#(doc)'', ''#(partition) b = $B'']
    = Inr [\<lparr>column = ''a'', given = ''A''\<rparr>, \<lparr>column = ''b'', given = ''B''\<rparr>]"
    by code_simp
  from collected_pairs_exact [OF this] show ?thesis by blast
qed

end
