(* ===== verification/Eligibility.thy ===== *)
theory Eligibility
  imports Authorize Partition
begin

text \<open>
  Which persisted sources may be materialized (\<open>service/materialization_eligibility.ts\<close>): a table is
  built once and served to everyone, so a source whose rows depend on the caller is refused. The
  checks walk the compiled source and fail closed.
\<close>

subsection \<open>Signals\<close>

text \<open>\<open>x && x.length > 0\<close> for whatever \<open>x\<close> is; a \<open>length\<close> that is itself a string counts as none.\<close>

definition nonempty_length :: "heap \<Rightarrow> ir_value option \<Rightarrow> bool" where
  "nonempty_length h v = (case v of
      Some (IrStr s) \<Rightarrow> s \<noteq> []
    | _ \<Rightarrow> (case array_items h v of
          Some items \<Rightarrow> items \<noteq> []
        | None \<Rightarrow> (case record_of h v of
              Some flds \<Rightarrow> (case map_of flds ''length'' of
                    Some (IrNum n) \<Rightarrow> n > 0 | Some (IrBool b) \<Rightarrow> b | _ \<Rightarrow> False)
            | None \<Rightarrow> False)))"

definition nonempty_array :: "heap \<Rightarrow> ir_value option \<Rightarrow> bool" where
  "nonempty_array h v = (case array_items h v of Some items \<Rightarrow> items \<noteq> [] | None \<Rightarrow> False)"

definition given_signal :: "heap \<Rightarrow> (string \<times> ir_value) list \<Rightarrow> bool" where
  "given_signal h flds \<longleftrightarrow>
     map_of flds ''node'' \<in> {Some (IrStr ''given''), Some (IrStr ''givenReference'')}
     \<or> map_of flds ''givenRef'' \<notin> {None, Some IrUndefined}
     \<or> (case record_of h (map_of flds ''refSummary'') of
          Some summary \<Rightarrow> nonempty_length h (map_of summary ''givenUsage'') | None \<Rightarrow> False)
     \<or> nonempty_array h (map_of flds ''givenUsage'')"

definition isAuthorizeAnnotation ::
  "(string \<Rightarrow> string option) \<Rightarrow> (string \<Rightarrow> string option) \<Rightarrow> string \<Rightarrow> bool" where
  "isAuthorizeAnnotation routeOf payloadOf txt =
     (case parseAuthorizeAnnotation routeOf payloadOf txt of Inl _ \<Rightarrow> True | Inr r \<Rightarrow> r \<noteq> None)"

definition authorize_signal ::
  "(string \<Rightarrow> string option) \<Rightarrow> (string \<Rightarrow> string option) \<Rightarrow> heap \<Rightarrow> (string \<times> ir_value) list \<Rightarrow> bool" where
  "authorize_signal routeOf payloadOf h flds \<longleftrightarrow>
     (\<exists>t \<in> set (note_texts h flds). isAuthorizeAnnotation routeOf payloadOf t)"

definition partition_signal :: "(string \<Rightarrow> string option) \<Rightarrow> heap \<Rightarrow> (string \<times> ir_value) list \<Rightarrow> bool" where
  "partition_signal routeOf h flds \<longleftrightarrow> containsPartitionAnnotationTag routeOf (note_texts h flds)"

text \<open>The notes with an authorize text that are objects: a bare string has no identity.\<close>

definition authorize_notes ::
  "(string \<Rightarrow> string option) \<Rightarrow> (string \<Rightarrow> string option) \<Rightarrow> heap \<Rightarrow> (string \<times> ir_value) list \<Rightarrow> address set" where
  "authorize_notes routeOf payloadOf h flds =
     set (concat (map (\<lambda>n. case n of
         IrRef a \<Rightarrow> (case note_text h n of
             Some t \<Rightarrow> if isAuthorizeAnnotation routeOf payloadOf t then [a] else [] | None \<Rightarrow> [])
       | _ \<Rightarrow> []) (note_entries h flds)))"

subsection \<open>The walks\<close>

text \<open>A walk that stops at the first record with a signal, and descends into every property.\<close>

definition signal_visit :: "((string \<times> ir_value) list \<Rightarrow> bool) \<Rightarrow> visit" where
  "signal_visit signal depth flds = (signal flds, {}, map snd flds)"

definition walkForGiven :: "heap \<Rightarrow> ir_value \<Rightarrow> unit + bool" where
  "walkForGiven h v = fst (walk h (signal_visit (given_signal h)) 0 v {} {})"

definition walkForPartition :: "(string \<Rightarrow> string option) \<Rightarrow> heap \<Rightarrow> ir_value \<Rightarrow> unit + bool" where
  "walkForPartition routeOf h v = fst (walk h (signal_visit (partition_signal routeOf h)) 0 v {} {})"

definition walkForAuthorize ::
  "(string \<Rightarrow> string option) \<Rightarrow> (string \<Rightarrow> string option) \<Rightarrow> heap \<Rightarrow> ir_value \<Rightarrow> unit + bool" where
  "walkForAuthorize routeOf payloadOf h v =
     fst (walk h (signal_visit (authorize_signal routeOf payloadOf h)) 0 v {} {})"

text \<open>\<open>try \<dots> catch { return true; }\<close>.\<close>

definition or_refuse :: "unit + bool \<Rightarrow> bool" where
  "or_refuse r = (case r of Inl _ \<Rightarrow> True | Inr b \<Rightarrow> b)"

definition referencesGiven :: "heap \<Rightarrow> ir_value \<Rightarrow> bool" where
  "referencesGiven h v = or_refuse (walkForGiven h v)"

definition referencesPartition :: "(string \<Rightarrow> string option) \<Rightarrow> heap \<Rightarrow> ir_value \<Rightarrow> bool" where
  "referencesPartition routeOf h v = or_refuse (walkForPartition routeOf h v)"

definition referencesAuthorize ::
  "(string \<Rightarrow> string option) \<Rightarrow> (string \<Rightarrow> string option) \<Rightarrow> heap \<Rightarrow> ir_value \<Rightarrow> bool" where
  "referencesAuthorize routeOf payloadOf h v = or_refuse (walkForAuthorize routeOf payloadOf h v)"

text \<open>\<open>walkForAuthorizeNotes\<close> collects; without \<open>crossJoins\<close> it stops short at a record with \<open>join\<close>.\<close>

definition notes_visit ::
  "(string \<Rightarrow> string option) \<Rightarrow> (string \<Rightarrow> string option) \<Rightarrow> heap \<Rightarrow> bool \<Rightarrow> visit" where
  "notes_visit routeOf payloadOf h crossJoins depth flds =
     (if \<not> crossJoins \<and> map_of flds ''join'' \<noteq> None then (False, {}, [])
      else (False, authorize_notes routeOf payloadOf h flds, map snd flds))"

definition walkForAuthorizeNotes ::
  "(string \<Rightarrow> string option) \<Rightarrow> (string \<Rightarrow> string option) \<Rightarrow> heap \<Rightarrow> bool \<Rightarrow> ir_value \<Rightarrow> walk_result" where
  "walkForAuthorizeNotes routeOf payloadOf h crossJoins v =
     walk h (notes_visit routeOf payloadOf h crossJoins) 0 v {} {}"

definition isAuthorizeAttributedToEntryPoint ::
  "(string \<Rightarrow> string option) \<Rightarrow> (string \<Rightarrow> string option) \<Rightarrow> heap \<Rightarrow> ir_value \<Rightarrow> bool" where
  "isAuthorizeAttributedToEntryPoint routeOf payloadOf h v =
     (case walkForAuthorizeNotes routeOf payloadOf h True v of
        (Inl _, _, _) \<Rightarrow> False
      | (Inr _, _, deep) \<Rightarrow>
          (case walkForAuthorizeNotes routeOf payloadOf h False v of
             (Inl _, _, _) \<Rightarrow> False
           | (Inr _, _, noJoins) \<Rightarrow> deep \<subseteq> noJoins))"

subsection \<open>Parameters and build-time givens\<close>

text \<open>\<open>unboundParameterNames\<close>; \<open>None\<close> is the exception for an unreadable surface.\<close>

definition bound_parameter :: "heap \<Rightarrow> ir_value \<Rightarrow> bool" where
  "bound_parameter h param = (case param of
      IrRef a \<Rightarrow> (case h a of
          Some (IrRecord flds) \<Rightarrow> map_of flds ''value'' \<notin> {None, Some IrNull, Some IrUndefined}
        | _ \<Rightarrow> False)
    | _ \<Rightarrow> False)"

definition unboundParameterNames :: "heap \<Rightarrow> ir_value \<Rightarrow> string list option" where
  "unboundParameterNames h def =
     (case def of
        IrRef a \<Rightarrow>
          (case h a of
             Some (IrRecord flds) \<Rightarrow>
               (case map_of flds ''parameters'' of
                  None \<Rightarrow> Some []
                | Some IrUndefined \<Rightarrow> Some []
                | Some IrNull \<Rightarrow> Some []
                | parameters \<Rightarrow> (case record_of h parameters of
                      Some ps \<Rightarrow> Some (map fst (List.filter (\<lambda>(name, p). \<not> bound_parameter h p) ps))
                    | None \<Rightarrow> None))
           | _ \<Rightarrow> Some [])
      | _ \<Rightarrow> None)"

text \<open>
  \<open>argumentBindsAGiven\<close> has no visited set: the depth alone bounds it, and a cycle is an exception.
\<close>

function argument_binds :: "heap \<Rightarrow> nat \<Rightarrow> ir_value \<Rightarrow> unit + bool"
  and argument_binds_items :: "heap \<Rightarrow> nat \<Rightarrow> ir_value list \<Rightarrow> unit + bool"
  and argument_binds_fields :: "heap \<Rightarrow> nat \<Rightarrow> (string \<times> ir_value) list \<Rightarrow> unit + bool" where
  "argument_binds h depth v =
     (if depth > MAX_WALK_DEPTH then Inl ()
      else case v of
        IrRef a \<Rightarrow> (case h a of
            Some (IrArray items) \<Rightarrow> argument_binds_items h (Suc depth) items
          | Some (IrRecord flds) \<Rightarrow> argument_binds_fields h (Suc depth) flds
          | None \<Rightarrow> Inr False)
      | _ \<Rightarrow> Inr False)"
| "argument_binds_items h depth [] = Inr False"
| "argument_binds_items h depth (v # vs) =
     (case argument_binds h depth v of Inr False \<Rightarrow> argument_binds_items h depth vs | r \<Rightarrow> r)"
| "argument_binds_fields h depth [] = Inr False"
| "argument_binds_fields h depth ((key, v) # flds) =
     (case (if key = ''arguments'' \<or> key = ''sourceArguments'' then walkForGiven h v else Inr False) of
        Inr False \<Rightarrow>
          (case argument_binds h depth v of Inr False \<Rightarrow> argument_binds_fields h depth flds | r \<Rightarrow> r)
      | r \<Rightarrow> r)"
  by pat_completeness auto

termination
  by (relation "measures [\<lambda>x. case x of Inl (h, depth, _) \<Rightarrow> 202 - depth
        | Inr (Inl (h, depth, _)) \<Rightarrow> 202 - depth | Inr (Inr (h, depth, _)) \<Rightarrow> 202 - depth,
      \<lambda>x. case x of Inl _ \<Rightarrow> 0 | Inr (Inl (h, depth, vs)) \<Rightarrow> Suc (length vs)
        | Inr (Inr (h, depth, fs)) \<Rightarrow> Suc (length fs)]")
    (auto simp: MAX_WALK_DEPTH_def)

definition argumentBindsAGiven :: "heap \<Rightarrow> ir_value \<Rightarrow> unit + bool" where
  "argumentBindsAGiven h v = argument_binds h 0 v"

text \<open>
  \<open>buildSubstitutesAGiven\<close>. The last step walks a copy of the source without its filters and fields.
  A source definition that is an array has none of the properties read.
\<close>

definition relation_fields :: "(string \<times> ir_value) list \<Rightarrow> (string \<times> ir_value) list" where
  "relation_fields flds = List.filter (\<lambda>(k, v). k \<noteq> ''filterList'' \<and> k \<noteq> ''fields'') flds"

definition query_object :: "heap \<Rightarrow> (string \<times> ir_value) list \<Rightarrow> (string \<times> ir_value) list option" where
  "query_object h flds = (case map_of flds ''query'' of
      Some (IrRef a) \<Rightarrow> (case h a of Some (IrRecord q) \<Rightarrow> Some q | Some (IrArray _) \<Rightarrow> Some [] | None \<Rightarrow> None)
    | _ \<Rightarrow> None)"

definition walk_relation :: "heap \<Rightarrow> (string \<times> ir_value) list \<Rightarrow> bool" where
  "walk_relation h flds =
     or_refuse (fst (walk_record h (signal_visit (given_signal h)) (relation_fields flds)))"

definition buildSubstitutesAGiven :: "heap \<Rightarrow> ir_value \<Rightarrow> bool" where
  "buildSubstitutesAGiven h def =
     (case def of
        IrRef a \<Rightarrow>
          (let flds = (case h a of Some (IrRecord fs) \<Rightarrow> fs | _ \<Rightarrow> []) in
           case query_object h flds of
             None \<Rightarrow> walk_relation h flds
           | Some q \<Rightarrow>
               if nonempty_array h (map_of q ''givenUsage'') then True
               else (case argumentBindsAGiven h (case map_of flds ''query'' of Some v \<Rightarrow> v | None \<Rightarrow> IrNull) of
                       Inl _ \<Rightarrow> True
                     | Inr True \<Rightarrow> True
                     | Inr False \<Rightarrow>
                         if array_items h (map_of q ''givenUsage'') \<noteq> None then False
                         else walk_relation h flds))
      | _ \<Rightarrow> True)"

subsection \<open>The gates\<close>

datatype RefusalReason = FreeParameter | Given | AuthorizeGate | PartitionMarker | GivenInPersistedQuery

datatype Origin = Persist | Preaggregate

datatype GateClassification = RowLevel | Rejected

record PersistSourceGateOutcome =
  classification :: GateClassification
  attributed :: bool

definition assertMaterializationEligible ::
  "(string \<Rightarrow> string option) \<Rightarrow> (string \<Rightarrow> string option) \<Rightarrow> heap \<Rightarrow> ir_value \<Rightarrow> RefusalReason + unit" where
  "assertMaterializationEligible routeOf payloadOf h def =
     (case unboundParameterNames h def of
        None \<Rightarrow> Inl FreeParameter
      | Some unbound \<Rightarrow>
          if unbound \<noteq> [] then Inl FreeParameter
          else if referencesGiven h def then Inl Given
          else if referencesAuthorize routeOf payloadOf h def then Inl AuthorizeGate
          else if referencesPartition routeOf h def then Inl PartitionMarker
          else Inr ())"

definition assertColocatedPersistNotAuthorizeGated ::
  "(string \<Rightarrow> string option) \<Rightarrow> (string \<Rightarrow> string option) \<Rightarrow> heap \<Rightarrow> ir_value \<Rightarrow> Origin
   \<Rightarrow> PersistSourceGateOutcome option \<Rightarrow> RefusalReason + unit" where
  "assertColocatedPersistNotAuthorizeGated routeOf payloadOf h def origin gateOutcome =
     (if referencesPartition routeOf h def then Inl PartitionMarker
      else if buildSubstitutesAGiven h def then Inl GivenInPersistedQuery
      else if \<not> referencesAuthorize routeOf payloadOf h def then Inr ()
      else if origin = Persist
          \<and> (case gateOutcome of Some g \<Rightarrow> classification g = RowLevel \<and> attributed g | None \<Rightarrow> False)
        then Inr ()
      else Inl AuthorizeGate)"

subsection \<open>What the gates promise\<close>

text \<open>
  The objects beneath a value, not looking under a record that \<open>stop\<close> holds of. With \<open>stop\<close> nowhere
  true this is the whole compiled source, joins and derivation bases included; with \<open>is_join\<close> it is
  the part that belongs to the entry point itself.
\<close>

inductive below :: "heap \<Rightarrow> ((string \<times> ir_value) list \<Rightarrow> bool) \<Rightarrow> ir_value \<Rightarrow> address \<Rightarrow> bool" for h stop v where
  below_root: "v = IrRef a \<Longrightarrow> below h stop v a"
| below_item: "below h stop v a \<Longrightarrow> h a = Some (IrArray items) \<Longrightarrow> IrRef b \<in> set items \<Longrightarrow> below h stop v b"
| below_field: "below h stop v a \<Longrightarrow> h a = Some (IrRecord flds) \<Longrightarrow> \<not> stop flds \<Longrightarrow> (k, IrRef b) \<in> set flds
    \<Longrightarrow> below h stop v b"

definition nowhere :: "(string \<times> ir_value) list \<Rightarrow> bool" where "nowhere flds = False"

definition is_join :: "(string \<times> ir_value) list \<Rightarrow> bool" where
  "is_join flds \<longleftrightarrow> map_of flds ''join'' \<noteq> None"

lemma reaches_below:
  assumes kids: "\<And>a. snd (snd (node h visit 0 a)) = (case h a of
      None \<Rightarrow> [] | Some (IrArray items) \<Rightarrow> items | Some (IrRecord flds) \<Rightarrow> if stop flds then [] else map snd flds)"
  shows "reaches h visit v a \<longleftrightarrow> below h stop v a"
proof
  show "reaches h visit v a \<Longrightarrow> below h stop v a"
  proof (induction a rule: reaches.induct)
    case (reaches_kid a b)
    show ?case
    proof (cases "h a")
      case None
      with reaches_kid(2) show ?thesis by (simp add: kids)
    next
      case (Some x)
      with reaches_kid(2) reaches_kid.IH show ?thesis
        by (cases x) (auto simp: kids refs_def intro: below_item below_field split: if_splits)
    qed
  qed (rule below_root)
  show "below h stop v a \<Longrightarrow> reaches h visit v a"
  proof (induction a rule: below.induct)
    case (below_root a)
    then show ?case by (rule reaches_root)
  next
    case (below_item a items b)
    then show ?case by (auto intro!: reaches_kid [of h visit v a b] simp: kids refs_def)
  next
    case (below_field a flds k b)
    then have "IrRef b \<in> set (map snd flds)" by force
    with below_field have "b \<in> refs (snd (snd (node h visit 0 a)))" by (simp add: kids refs_def del: set_map)
    with below_field.IH show ?case by (rule reaches_kid)
  qed
qed

lemma uniform_signal: "uniform (signal_visit signal)"
  by (simp add: uniform_def signal_visit_def)

lemma uniform_notes: "uniform (notes_visit routeOf payloadOf h crossJoins)"
  by (simp add: uniform_def notes_visit_def)

lemma reaches_signal: "reaches h (signal_visit signal) v a \<longleftrightarrow> below h nowhere v a"
  by (rule reaches_below)
    (simp add: node_def signal_visit_def nowhere_def split: option.split ir_object.split)

lemma reaches_notes:
  "reaches h (notes_visit routeOf payloadOf h crossJoins) v a
     \<longleftrightarrow> below h (if crossJoins then nowhere else is_join) v a"
  by (rule reaches_below)
    (auto simp: node_def notes_visit_def nowhere_def is_join_def split: option.split ir_object.split)

text \<open>A walk for a signal that answers no has looked at every record beneath the source.\<close>

lemma signal_walk_complete:
  assumes "\<not> or_refuse (fst (walk h (signal_visit signal) 0 v {} {}))"
    and "below h nowhere v a" and "h a = Some (IrRecord flds)"
  shows "\<not> signal flds"
proof -
  obtain r seen found where w: "walk h (signal_visit signal) 0 v {} {} = (r, seen, found)"
    by (cases "walk h (signal_visit signal) 0 v {} {}")
  with assms(1) have "r = Inr False" by (cases r) (auto simp: or_refuse_def)
  from walk_exact(2) [OF w [unfolded this] uniform_signal] assms(2) have "\<not> fst (node h (signal_visit signal) 0 a)"
    by (simp add: reaches_signal)
  with assms(3) show ?thesis by (simp add: node_def signal_visit_def)
qed

text \<open>A walk that answers yes, and did not throw, has found a record with the signal.\<close>

lemma signal_walk_sound:
  assumes "fst (walk h (signal_visit signal) 0 v {} {}) = Inr True"
  shows "\<exists>a flds. below h nowhere v a \<and> h a = Some (IrRecord flds) \<and> signal flds"
proof -
  obtain r seen found where w: "walk h (signal_visit signal) 0 v {} {} = (r, seen, found)"
    by (cases "walk h (signal_visit signal) 0 v {} {}")
  with assms walk_reaches(1) [OF w uniform_signal] obtain b
    where "reaches h (signal_visit signal) v b" "fst (node h (signal_visit signal) 0 b)" by auto
  then show ?thesis
    by (auto simp: reaches_signal node_def signal_visit_def split: option.splits ir_object.splits)
qed

text \<open>
  C4: A source admitted to a storage destination has every parameter bound to a value, and nothing in
  its compiled definition, joins and cycles included, reads a given, carries an authorize gate or
  declares a partition marker: the frozen table holds the same rows for every caller.
\<close>

theorem storage_source_is_caller_free:
  assumes "assertMaterializationEligible routeOf payloadOf h def = Inr ()"
  shows "unboundParameterNames h def = Some []
    \<and> (\<forall>a flds. below h nowhere def a \<and> h a = Some (IrRecord flds) \<longrightarrow>
          \<not> given_signal h flds \<and> \<not> authorize_signal routeOf payloadOf h flds \<and> \<not> partition_signal routeOf h flds)"
proof -
  from assms have u: "unboundParameterNames h def = Some []"
    and n: "\<not> referencesGiven h def" "\<not> referencesAuthorize routeOf payloadOf h def" "\<not> referencesPartition routeOf h def"
    by (auto simp: assertMaterializationEligible_def split: option.splits if_splits)
  note w = n [unfolded referencesGiven_def walkForGiven_def referencesAuthorize_def walkForAuthorize_def
      referencesPartition_def walkForPartition_def]
  show ?thesis using u signal_walk_complete [OF w(1)] signal_walk_complete [OF w(2)] signal_walk_complete [OF w(3)]
    by blast
qed

text \<open>A source with a bound parameter and a cycle: its one field points back to it.\<close>

definition demo_ir :: heap where
  "demo_ir a = (if a = 0 then Some (IrRecord [(''parameters'', IrRef 1), (''fields'', IrRef 2)])
     else if a = 1 then Some (IrRecord [(''p'', IrRef 3)])
     else if a = 2 then Some (IrArray [IrRef 0])
     else if a = 3 then Some (IrRecord [(''value'', IrNum 7)])
     else None)"

lemma demo_ir_below: "below demo_ir nowhere (IrRef 0) 3"
proof -
  have "below demo_ir nowhere (IrRef 0) 0" by (rule below_root) simp
  then have "below demo_ir nowhere (IrRef 0) 1"
    by (rule below_field [where k = "''parameters''" and flds = "[(''parameters'', IrRef 1), (''fields'', IrRef 2)]"])
      (simp_all add: demo_ir_def nowhere_def del: One_nat_def)
  then show ?thesis
    by (rule below_field [where k = "''p''" and flds = "[(''p'', IrRef 3)]"]) (simp_all add: demo_ir_def nowhere_def)
qed

lemma storage_source_is_caller_free_witness:
  "unboundParameterNames demo_ir (IrRef 0) = Some [] \<and> \<not> given_signal demo_ir [(''value'', IrNum 7)]"
proof -
  have "assertMaterializationEligible (\<lambda>_. None) (\<lambda>_. None) demo_ir (IrRef 0) = Inr ()" by code_simp
  moreover have "below demo_ir nowhere (IrRef 0) 3"
    by (rule demo_ir_below)
  moreover have "demo_ir 3 = Some (IrRecord [(''value'', IrNum 7)])" by (simp add: demo_ir_def)
  ultimately show ?thesis using storage_source_is_caller_free by blast
qed

text \<open>
  A persisted source built in its own warehouse declares no partition marker, and its build
  substitutes no given. A gate beneath it is tolerated in one case only: the author wrote a plain
  persist, the entry point's gate is a row filter, and it is the only gate. A pre-aggregation over a
  gated source is always refused.
\<close>

theorem colocated_source_is_safe:
  assumes "assertColocatedPersistNotAuthorizeGated routeOf payloadOf h def origin gateOutcome = Inr ()"
  shows "(\<forall>a flds. below h nowhere def a \<and> h a = Some (IrRecord flds) \<longrightarrow> \<not> partition_signal routeOf h flds)
    \<and> \<not> buildSubstitutesAGiven h def
    \<and> ((\<exists>a flds. below h nowhere def a \<and> h a = Some (IrRecord flds) \<and> authorize_signal routeOf payloadOf h flds)
        \<longrightarrow> origin = Persist \<and> (\<exists>g. gateOutcome = Some g \<and> classification g = RowLevel \<and> attributed g))"
proof -
  from assms have n: "\<not> referencesPartition routeOf h def" "\<not> buildSubstitutesAGiven h def"
    and r: "referencesAuthorize routeOf payloadOf h def \<longrightarrow>
       origin = Persist \<and> (\<exists>g. gateOutcome = Some g \<and> classification g = RowLevel \<and> attributed g)"
    by (auto simp: assertColocatedPersistNotAuthorizeGated_def split: if_splits option.splits)
  note p = signal_walk_complete [OF n(1) [unfolded referencesPartition_def walkForPartition_def]]
  have "\<not> authorize_signal routeOf payloadOf h flds"
    if "\<not> referencesAuthorize routeOf payloadOf h def" "below h nowhere def a" "h a = Some (IrRecord flds)" for a flds
    by (rule signal_walk_complete [OF that(1) [unfolded referencesAuthorize_def walkForAuthorize_def] that(2,3)])
  with p n(2) r show ?thesis by blast
qed

lemma colocated_source_is_safe_witness:
  "\<not> buildSubstitutesAGiven demo_ir (IrRef 0) \<and> \<not> partition_signal (\<lambda>_. None) demo_ir [(''value'', IrNum 7)]"
proof -
  have "assertColocatedPersistNotAuthorizeGated (\<lambda>_. None) (\<lambda>_. None) demo_ir (IrRef 0) Preaggregate None = Inr ()"
    by code_simp
  moreover have "below demo_ir nowhere (IrRef 0) 3"
    by (rule demo_ir_below)
  moreover have "demo_ir 3 = Some (IrRecord [(''value'', IrNum 7)])" by (simp add: demo_ir_def)
  ultimately show ?thesis using colocated_source_is_safe by blast
qed

text \<open>
  The attribution a relaxed refusal rests on: every authorize note beneath the source is found
  without crossing a join, so no joined source brings a gate of its own.
\<close>

theorem attributed_gates_are_own:
  assumes "isAuthorizeAttributedToEntryPoint routeOf payloadOf h def"
    and "below h nowhere def a" and "h a = Some (IrRecord flds)" and "n \<in> authorize_notes routeOf payloadOf h flds"
  shows "\<exists>b flds'. below h is_join def b \<and> h b = Some (IrRecord flds') \<and> \<not> is_join flds'
    \<and> n \<in> authorize_notes routeOf payloadOf h flds'"
proof -
  let ?V = "notes_visit routeOf payloadOf h"
  have inr: "r = Inr False" if "walk h (?V c) 0 def {} {} = (r, s, f)" and "r \<noteq> Inl ()" for c r s f
  proof -
    have "\<not> fst (node h (?V c) 0 b)" for b
      by (simp add: node_def notes_visit_def split: option.split ir_object.split)
    with walk_reaches(1) [OF that(1) uniform_notes] have "r \<noteq> Inr True" by blast
    with that(2) show ?thesis by (cases r) auto
  qed
  obtain r1 s1 f1 r2 s2 f2
    where w: "walk h (?V True) 0 def {} {} = (r1, s1, f1)" "walk h (?V False) 0 def {} {} = (r2, s2, f2)"
    by (metis prod_cases3)
  with assms(1) have "r1 \<noteq> Inl ()" "r2 \<noteq> Inl ()" and sub: "f1 \<subseteq> f2"
    by (auto simp: isAuthorizeAttributedToEntryPoint_def walkForAuthorizeNotes_def split: sum.splits)
  with w inr have w': "walk h (?V True) 0 def {} {} = (Inr False, s1, f1)" "walk h (?V False) 0 def {} {} = (Inr False, s2, f2)"
    by metis+
  have "n \<in> f1" unfolding walk_exact(3) [OF w'(1) uniform_notes]
    using assms(2-4) by (auto simp: reaches_notes node_def notes_visit_def)
  with sub have "n \<in> f2" ..
  then obtain b where "below h is_join def b" "n \<in> fst (snd (node h (?V False) 0 b))"
    unfolding walk_exact(3) [OF w'(2) uniform_notes] by (auto simp: reaches_notes)
  then show ?thesis
    by (auto simp: node_def notes_visit_def is_join_def split: option.splits ir_object.splits if_splits)
qed

text \<open>The entry point's own gate, the joined source without one.\<close>

definition demo_gated :: heap where
  "demo_gated a = (if a = 0 then Some (IrRecord [(''blockNotes'', IrRef 1), (''fields'', IrRef 3)])
     else if a = 1 then Some (IrArray [IrRef 2])
     else if a = 2 then Some (IrRecord [(''text'', IrStr ''#(authorize)'')])
     else if a = 3 then Some (IrArray [IrRef 4])
     else if a = 4 then Some (IrRecord [(''join'', IrStr ''one'')])
     else None)"

lemma attributed_gates_are_own_witness:
  "\<exists>b flds'. below demo_gated is_join (IrRef 0) b \<and> demo_gated b = Some (IrRecord flds') \<and> \<not> is_join flds'
     \<and> 2 \<in> authorize_notes (\<lambda>_. Some ''authorize'') (\<lambda>_. None) demo_gated flds'"
proof (rule attributed_gates_are_own)
  show "isAuthorizeAttributedToEntryPoint (\<lambda>_. Some ''authorize'') (\<lambda>_. None) demo_gated (IrRef 0)" by code_simp
  show "below demo_gated nowhere (IrRef 0) 0" by (rule below_root) simp
  show "demo_gated 0 = Some (IrRecord [(''blockNotes'', IrRef 1), (''fields'', IrRef 3)])" by (simp add: demo_gated_def)
  show "2 \<in> authorize_notes (\<lambda>_. Some ''authorize'') (\<lambda>_. None) demo_gated [(''blockNotes'', IrRef 1), (''fields'', IrRef 3)]"
    by code_simp
qed

end
