(* ===== verification/GateWalk.thy ===== *)
theory GateWalk
  imports Authorize Partition
begin

text \<open>
  Which gates protect a source (\<open>service/gate_registry_walk.ts\<close>, the walks of
  \<open>service/gate_classification.ts\<close>, \<open>service/annotations.ts\<close>). A compiled source is a record at an
  address, since the code compares sources by identity; so is a note. The walks follow identity edges
  only: own annotations, the \<open>inherits\<close> chain, the source a registry entry declares, the base of a
  query source and its resolved composite.
\<close>

subsection \<open>Compiled sources\<close>

record Note =
  noteId :: nat
  noteText :: string

datatype AnnotationsDef =
  Annotations (blockNotes: "Note list") (itemNotes: "Note list") (inherits: "AnnotationsDef option")

datatype StructRef = RefName string | RefStruct nat

record RefSummary =
  fieldUsage :: "string list list"
  givenUsage :: "string list"

text \<open>
  A field by the name it is used under; \<open>joined\<close> is the struct it joins, where it is a join of a source,
  a record or an array.
\<close>

record FieldDef =
  fieldId :: nat
  usedAs :: string
  joined :: "nat option"
  refSummary :: "RefSummary option"

text \<open>\<open>structRef\<close> and \<open>resolved\<close> are those of the query of a query source.\<close>

record SourceDef =
  isSource :: bool
  sourceName :: string
  sourceAs :: "string option"
  sourceKind :: string
  annotations :: "AnnotationsDef option"
  referenceID :: "string option"
  sourceID :: "string option"
  structRef :: "StructRef option"
  resolved :: "nat option"
  members :: "nat list"
  fieldDefs :: "FieldDef list"

type_synonym sources = "SourceDef list"

datatype RegistryEntry = RegistryReference string | RegistryStruct nat

record GivenDef =
  givenName :: string
  hasDefault :: bool

record ModelDef =
  contents :: "(string \<times> nat) list"
  registry :: "string \<Rightarrow> RegistryEntry option"
  modelGivens :: "string \<Rightarrow> GivenDef option"

definition is_source :: "sources \<Rightarrow> nat \<Rightarrow> bool" where
  "is_source S a \<longleftrightarrow> a < length S \<and> isSource (S ! a)"

definition source_label :: "SourceDef \<Rightarrow> string" where
  "source_label s = (case sourceAs s of Some n \<Rightarrow> n | None \<Rightarrow> sourceName s)"

definition ownLevelNotes :: "AnnotationsDef option \<Rightarrow> Note list" where
  "ownLevelNotes annote = (case annote of Some a \<Rightarrow> blockNotes a @ itemNotes a | None \<Rightarrow> [])"

definition ownLevelNoteTexts :: "AnnotationsDef option \<Rightarrow> string list" where
  "ownLevelNoteTexts annote = map noteText (ownLevelNotes annote)"

subsection \<open>Registry and derivation\<close>

definition ANCESTOR_WALK_MAX_DEPTH :: nat where "ANCESTOR_WALK_MAX_DEPTH = 32"

datatype Declared = DeclaredBy nat | NotDeclared | Unresolvable

text \<open>One id of \<open>resolveDeclaredSource\<close>: nothing, a broken entry, or the source.\<close>

definition declared_by_id :: "sources \<Rightarrow> ModelDef \<Rightarrow> nat \<Rightarrow> string option \<Rightarrow> Declared" where
  "declared_by_id S md a ref =
     (case Option.bind ref (registry md) of
        None \<Rightarrow> NotDeclared
      | Some entry \<Rightarrow>
          (case (case entry of RegistryReference n \<Rightarrow> map_of (contents md) n | RegistryStruct b \<Rightarrow> Some b) of
             None \<Rightarrow> Unresolvable
           | Some b \<Rightarrow> if b = a then NotDeclared else if is_source S b then DeclaredBy b else Unresolvable))"

definition resolveDeclaredSource :: "sources \<Rightarrow> ModelDef \<Rightarrow> nat \<Rightarrow> Declared" where
  "resolveDeclaredSource S md a =
     (case declared_by_id S md a (referenceID (S ! a)) of
        DeclaredBy b \<Rightarrow> DeclaredBy b
      | first \<Rightarrow> (case declared_by_id S md a (sourceID (S ! a)) of
            DeclaredBy b \<Rightarrow> DeclaredBy b
          | second \<Rightarrow> if first = Unresolvable \<or> second = Unresolvable then Unresolvable else NotDeclared))"

definition resolveQuerySourceBase :: "sources \<Rightarrow> ModelDef \<Rightarrow> nat \<Rightarrow> nat option" where
  "resolveQuerySourceBase S md a =
     (if sourceKind (S ! a) \<noteq> ''query_source'' then None
      else (case (case structRef (S ! a) of
              None \<Rightarrow> None | Some (RefName n) \<Rightarrow> map_of (contents md) n | Some (RefStruct b) \<Rightarrow> Some b) of
          Some b \<Rightarrow> if is_source S b then Some b else None
        | None \<Rightarrow> None))"

definition resolveCompositeResolvedBase :: "sources \<Rightarrow> nat \<Rightarrow> nat option" where
  "resolveCompositeResolvedBase S a = (if sourceKind (S ! a) = ''query_source'' then resolved (S ! a) else None)"

text \<open>
  The \<open>inherits\<close> chain, read with \<open>look\<close> until it answers, for at most the bound: \<open>None\<close> says that the
  chain goes on past it. A chain is finite here; one that is a cycle in the program is past the bound.
\<close>

fun inherited_first ::
  "(string list \<Rightarrow> 'e + 'x list) \<Rightarrow> nat \<Rightarrow> AnnotationsDef option \<Rightarrow> 'e + 'x list option" where
  "inherited_first look n None = Inr (Some [])"
| "inherited_first look 0 (Some a) = Inr None"
| "inherited_first look (Suc n) (Some a) =
     (case look (ownLevelNoteTexts (Some a)) of
        Inl e \<Rightarrow> Inl e
      | Inr xs \<Rightarrow> if xs \<noteq> [] then Inr (Some xs) else inherited_first look n (inherits a))"

definition inherited_annotations :: "SourceDef \<Rightarrow> AnnotationsDef option" where
  "inherited_annotations s = Option.bind (annotations s) inherits"

text \<open>\<open>ancestorGateExprs\<close>; \<open>exprsOf\<close> is \<open>collectAuthorizeExprs\<close>.\<close>

type_synonym expr_reader = "string list \<Rightarrow> AuthorizeError + string list"

function ancestorGateExprs ::
  "sources \<Rightarrow> ModelDef \<Rightarrow> expr_reader \<Rightarrow> nat \<Rightarrow> nat list \<Rightarrow> AuthorizeError + string list" where
  "ancestorGateExprs S md exprsOf a seen =
     (case inherited_first exprsOf ANCESTOR_WALK_MAX_DEPTH (inherited_annotations (S ! a)) of
        Inl e \<Rightarrow> Inl e
      | Inr None \<Rightarrow> Inr [''false'']
      | Inr (Some exprs) \<Rightarrow>
          if exprs \<noteq> [] then Inr exprs
          else if length (List.insert a seen) > ANCESTOR_WALK_MAX_DEPTH then Inr [''false'']
          else (case resolveDeclaredSource S md a of
              Unresolvable \<Rightarrow> Inr [''false'']
            | NotDeclared \<Rightarrow> Inr []
            | DeclaredBy b \<Rightarrow>
                if b \<in> set (List.insert a seen) then Inr []
                else (case exprsOf (ownLevelNoteTexts (annotations (S ! b))) of
                    Inl e \<Rightarrow> Inl e
                  | Inr own \<Rightarrow> if own \<noteq> [] then Inr own
                      else ancestorGateExprs S md exprsOf b (List.insert a seen))))"
  by pat_completeness auto

termination
  by (relation "measure (\<lambda>(S, md, exprsOf, a, seen). 2 * (33 - length seen) + (if a \<in> set seen then 1 else 0))")
    (auto simp: ANCESTOR_WALK_MAX_DEPTH_def List.insert_def split: if_splits)

declare ancestorGateExprs.simps [simp del]

subsection \<open>The gates of an entry point\<close>

record GateEntry =
  gateLabel :: string
  gateExprs :: "string list"
  selfContained :: bool
  gateStruct :: "nat option"

definition gateExprsForOwnAnnotations ::
  "sources \<Rightarrow> ModelDef \<Rightarrow> expr_reader \<Rightarrow> nat \<Rightarrow> Note list \<Rightarrow> string list \<times> bool" where
  "gateExprsForOwnAnnotations S md exprsOf a excludeNotes =
     (let ownNotes = List.filter (\<lambda>n. n \<notin> set excludeNotes) (ownLevelNotes (annotations (S ! a))) in
      case exprsOf (map noteText ownNotes) of
        Inl _ \<Rightarrow> ([''false''], False)
      | Inr own \<Rightarrow>
          if own \<noteq> [] then (own, False)
          else (case ancestorGateExprs S md exprsOf a [] of
              Inl _ \<Rightarrow> ([''false''], False)
            | Inr ancestor \<Rightarrow> (ancestor, ancestor \<noteq> [])))"

definition own_gate ::
  "sources \<Rightarrow> ModelDef \<Rightarrow> expr_reader \<Rightarrow> nat \<Rightarrow> bool \<Rightarrow> nat \<Rightarrow> Note list \<Rightarrow> GateEntry list" where
  "own_gate S md exprsOf a treatAsOwnGate entry excludeNotes =
     (let (exprs, fromAncestor) = gateExprsForOwnAnnotations S md exprsOf a excludeNotes in
      if exprs \<noteq> [] then [\<lparr>gateLabel = source_label (S ! a), gateExprs = exprs,
        selfContained = (fromAncestor \<or> \<not> treatAsOwnGate), gateStruct = Some entry\<rparr>] else [])"

text \<open>The entry for a query source whose base cannot be resolved: a gate that no caller passes.\<close>

definition unresolved_base :: "sources \<Rightarrow> nat \<Rightarrow> GateEntry" where
  "unresolved_base S a =
     \<lparr>gateLabel = source_label (S ! a), gateExprs = [''false''], selfContained = True, gateStruct = None\<rparr>"

definition base_notes :: "sources \<Rightarrow> ModelDef \<Rightarrow> nat \<Rightarrow> Note list" where
  "base_notes S md a = (case resolveQuerySourceBase S md a of
     Some b \<Rightarrow> ownLevelNotes (annotations (S ! b)) | None \<Rightarrow> [])"

text \<open>
  \<open>collectEntryPointGates\<close>: the gates found and the structs seen. \<open>entry\<close> is the struct the request
  entered through. The first argument bounds the recursion: every call but those that return at once
  sees a new struct, so the number of structs is enough.
\<close>

fun collect_gates ::
  "nat \<Rightarrow> sources \<Rightarrow> ModelDef \<Rightarrow> expr_reader \<Rightarrow> nat \<Rightarrow> nat list \<Rightarrow> bool \<Rightarrow> nat \<Rightarrow> Note list
   \<Rightarrow> (GateEntry list \<times> nat list) option" where
  "collect_gates 0 S md exprsOf a seen treatAsOwnGate entry excludeNotes = None"
| "collect_gates (Suc n) S md exprsOf a seen treatAsOwnGate entry excludeNotes =
     (if a \<in> set seen \<or> length S \<le> a then Some ([], seen)
      else if sourceKind (S ! a) \<noteq> ''query_source''
        then Some (own_gate S md exprsOf a treatAsOwnGate entry excludeNotes, a # seen)
      else
        (case (case resolveQuerySourceBase S md a of
                 Some b \<Rightarrow> collect_gates n S md exprsOf b (a # seen) False entry []
               | None \<Rightarrow> Some ([unresolved_base S a], a # seen)) of
           None \<Rightarrow> None
         | Some (ofBase, seen') \<Rightarrow>
             (case resolveCompositeResolvedBase S a of
                None \<Rightarrow> Some (own_gate S md exprsOf a treatAsOwnGate entry excludeNotes @ ofBase, seen')
              | Some c \<Rightarrow>
                  map_option (\<lambda>(ofComposite, seen'').
                      (own_gate S md exprsOf a treatAsOwnGate entry excludeNotes @ ofBase @ ofComposite, seen''))
                    (collect_gates n S md exprsOf c seen' False entry (base_notes S md a)))))"

definition collectEntryPointGates ::
  "sources \<Rightarrow> ModelDef \<Rightarrow> expr_reader \<Rightarrow> nat option \<Rightarrow> nat list \<Rightarrow> bool \<Rightarrow> Note list \<Rightarrow> GateEntry list \<times> nat list" where
  "collectEntryPointGates S md exprsOf struct seen treatAsOwnGate excludeNotes =
     (case struct of
        None \<Rightarrow> ([], seen)
      | Some a \<Rightarrow> (case collect_gates (Suc (length S)) S md exprsOf a seen treatAsOwnGate a excludeNotes of
            Some r \<Rightarrow> r
          | None \<Rightarrow> ([], seen)))"

subsection \<open>The partition of an entry point\<close>

type_synonym pair_reader = "string list \<Rightarrow> PartitionAnnotationRejectionCause + PartitionPair list"

text \<open>\<open>resolveEntryPointPartitions\<close>, with the structs seen; the first argument bounds it as above.\<close>

fun entry_partitions ::
  "nat \<Rightarrow> sources \<Rightarrow> ModelDef \<Rightarrow> pair_reader \<Rightarrow> nat \<Rightarrow> nat list
   \<Rightarrow> (PartitionAnnotationRejectionCause + PartitionPair list \<times> nat list) option" where
  "entry_partitions 0 S md pairsOf a seen = None"
| "entry_partitions (Suc n) S md pairsOf a seen =
     (if a \<in> set seen \<or> length S \<le> a then Some (Inr ([], seen))
      else case pairsOf (ownLevelNoteTexts (annotations (S ! a))) of
        Inl e \<Rightarrow> Some (Inl e)
      | Inr own \<Rightarrow>
          if own \<noteq> [] then Some (Inr (own, a # seen))
          else (case inherited_first pairsOf ANCESTOR_WALK_MAX_DEPTH (inherited_annotations (S ! a)) of
              Inl e \<Rightarrow> Some (Inl e)
            | Inr None \<Rightarrow> Some (Inl AncestryUnresolvable)
            | Inr (Some pairs) \<Rightarrow>
                if pairs \<noteq> [] then Some (Inr (pairs, a # seen))
                else if resolveDeclaredSource S md a = Unresolvable then Some (Inl AncestryUnresolvable)
                else (case (case resolveDeclaredSource S md a of
                         DeclaredBy b \<Rightarrow> entry_partitions n S md pairsOf b (a # seen)
                       | _ \<Rightarrow> Some (Inr ([], a # seen))) of
                    None \<Rightarrow> None
                  | Some (Inl e) \<Rightarrow> Some (Inl e)
                  | Some (Inr (declared, seen')) \<Rightarrow>
                      if declared \<noteq> [] then Some (Inr (declared, seen'))
                      else (case resolveQuerySourceBase S md a of
                          None \<Rightarrow> Some (Inr ([], seen'))
                        | Some b \<Rightarrow> entry_partitions n S md pairsOf b seen'))))"

definition resolveEntryPointPartitions ::
  "sources \<Rightarrow> ModelDef \<Rightarrow> pair_reader \<Rightarrow> nat option \<Rightarrow> PartitionAnnotationRejectionCause + PartitionPair list" where
  "resolveEntryPointPartitions S md pairsOf struct =
     (case struct of
        None \<Rightarrow> Inr []
      | Some a \<Rightarrow> (case entry_partitions (Suc (length S)) S md pairsOf a [] of
            Some r \<Rightarrow> map_sum id fst r
          | None \<Rightarrow> Inl AncestryUnresolvable))"

text \<open>\<open>partitionedMemberLabel\<close>: the label of the first member that is partitioned, at any depth.\<close>

fun partitioned_member ::
  "nat \<Rightarrow> sources \<Rightarrow> ModelDef \<Rightarrow> pair_reader \<Rightarrow> nat \<Rightarrow> nat list
   \<Rightarrow> PartitionAnnotationRejectionCause + string option \<times> nat list"
  and partitioned_members ::
  "nat \<Rightarrow> sources \<Rightarrow> ModelDef \<Rightarrow> pair_reader \<Rightarrow> nat list \<Rightarrow> nat list
   \<Rightarrow> PartitionAnnotationRejectionCause + string option \<times> nat list" where
  "partitioned_member 0 S md pairsOf a seen = Inl AncestryUnresolvable"
| "partitioned_member (Suc n) S md pairsOf a seen =
     (if a \<in> set seen \<or> length S \<le> a then Inr (None, seen)
      else partitioned_members n S md pairsOf (members (S ! a)) (a # seen))"
| "partitioned_members n S md pairsOf [] seen = Inr (None, seen)"
| "partitioned_members n S md pairsOf (m # ms) seen =
     (if length S \<le> m then partitioned_members n S md pairsOf ms seen
      else case resolveEntryPointPartitions S md pairsOf (Some m) of
        Inl e \<Rightarrow> Inl e
      | Inr pairs \<Rightarrow>
          if pairs \<noteq> [] then Inr (Some (source_label (S ! m)), seen)
          else if sourceKind (S ! m) = ''composite''
            then (case partitioned_member n S md pairsOf m seen of
                Inl e \<Rightarrow> Inl e
              | Inr (Some label, seen') \<Rightarrow> Inr (Some label, seen')
              | Inr (None, seen') \<Rightarrow> partitioned_members n S md pairsOf ms seen')
          else partitioned_members n S md pairsOf ms seen)"

text \<open>
  One source of \<open>assertPartitionAnnotationsValid\<close>; \<open>reachesBelow\<close> is \<open>reachesPartitionTagBelow\<close> of the
  object at that address.
\<close>

definition partition_check ::
  "sources \<Rightarrow> ModelDef \<Rightarrow> pair_reader \<Rightarrow> (nat \<Rightarrow> unit + bool) \<Rightarrow> nat \<Rightarrow> PartitionAnnotationRejectionCause + unit" where
  "partition_check S md pairsOf reachesBelow a =
     (if sourceKind (S ! a) \<noteq> ''composite'' then
        (case resolveEntryPointPartitions S md pairsOf (Some a) of
           Inl e \<Rightarrow> if e = AncestryUnresolvable then Inr () else Inl e
         | Inr pairs \<Rightarrow> if pairs = [] \<and> reachesBelow a \<noteq> Inr False then Inl MarkerUnreachable else Inr ())
      else
        (case resolveEntryPointPartitions S md pairsOf (Some a) of
           Inl e \<Rightarrow> Inl e
         | Inr pairs \<Rightarrow>
             if pairs \<noteq> [] then Inl PartitionedComposite
             else (case partitioned_member (Suc (length S)) S md pairsOf a [] of
                 Inl e \<Rightarrow> Inl e
               | Inr (label, _) \<Rightarrow> if label \<noteq> None then Inl PartitionedComposite else Inr ())))"

definition assertPartitionAnnotationsValid ::
  "sources \<Rightarrow> ModelDef option \<Rightarrow> pair_reader \<Rightarrow> (nat \<Rightarrow> unit + bool) \<Rightarrow> PartitionAnnotationRejectionCause + unit" where
  "assertPartitionAnnotationsValid S model pairsOf reachesBelow =
     (case model of
        None \<Rightarrow> Inr ()
      | Some md \<Rightarrow> bind_r (mapM_r (partition_check S md pairsOf reachesBelow)
          (List.filter (is_source S) (map snd (contents md)))) (\<lambda>_. Inr ()))"

subsection \<open>The walks end\<close>

text \<open>The structs a walk has not seen yet.\<close>

definition unseen :: "sources \<Rightarrow> nat list \<Rightarrow> nat" where
  "unseen S seen = card ({..<length S} - set seen)"

lemma unseen_Cons: "a \<notin> set seen \<Longrightarrow> a < length S \<Longrightarrow> Suc (unseen S (a # seen)) = unseen S seen"
proof -
  assume a: "a \<notin> set seen" "a < length S"
  have "{..<length S} - set (a # seen) = ({..<length S} - set seen) - {a}" by auto
  then show ?thesis
    unfolding unseen_def using card_Suc_Diff1 [of "{..<length S} - set seen" a] a by simp
qed

lemma unseen_mono: "set seen \<subseteq> set seen' \<Longrightarrow> unseen S seen' \<le> unseen S seen"
  unfolding unseen_def by (rule card_mono) auto

lemma unseen_start: "unseen S seen < Suc (length S)"
  using card_mono [of "{..<length S}" "{..<length S} - set seen"] by (auto simp: unseen_def)

lemma collect_gates_ends:
  "unseen S seen < n \<Longrightarrow> \<exists>gs seen'. collect_gates n S md exprsOf a seen treat entry excl = Some (gs, seen')
     \<and> set seen \<subseteq> set seen'"
proof (induction n arbitrary: a seen treat entry excl)
  case (Suc n)
  show ?case
  proof (cases "a \<in> set seen \<or> length S \<le> a")
    case False
    then have u: "unseen S (a # seen) < n" using unseen_Cons [of a seen S] Suc.prems by simp
    define first where "first = (case resolveQuerySourceBase S md a of
          Some b \<Rightarrow> collect_gates n S md exprsOf b (a # seen) False entry []
        | None \<Rightarrow> Some ([unresolved_base S a], a # seen))"
    obtain gs1 seen1 where b: "first = Some (gs1, seen1)" "set (a # seen) \<subseteq> set seen1"
    proof (cases "resolveQuerySourceBase S md a")
      case (Some b)
      from Suc.IH [OF u, of b False entry "[]"] that Some show ?thesis by (auto simp: first_def)
    qed (use that in \<open>auto simp: first_def\<close>)
    have u1: "unseen S seen1 < n" using unseen_mono [OF b(2)] u by (meson le_less_trans)
    show ?thesis
    proof (cases "resolveCompositeResolvedBase S a")
      case None
      with False b show ?thesis unfolding collect_gates.simps first_def [symmetric] by auto
    next
      case (Some c)
      obtain gs2 seen2 where "collect_gates n S md exprsOf c seen1 False entry (base_notes S md a) = Some (gs2, seen2)"
          "set seen1 \<subseteq> set seen2"
        using Suc.IH [OF u1] by blast
      with False b Some show ?thesis unfolding collect_gates.simps first_def [symmetric] by auto
    qed
  qed auto
qed simp

lemma collectEntryPointGates_collect:
  assumes "collectEntryPointGates S md exprsOf (Some a) seen treat excl = (gs, seen')"
  shows "collect_gates (Suc (length S)) S md exprsOf a seen treat a excl = Some (gs, seen')"
proof -
  obtain r where "collect_gates (Suc (length S)) S md exprsOf a seen treat a excl = Some r"
    using collect_gates_ends [OF unseen_start] by blast
  with assms show ?thesis unfolding collectEntryPointGates_def by simp
qed

lemma entry_partitions_ends:
  "unseen S seen < n \<Longrightarrow> \<exists>r. entry_partitions n S md pairsOf a seen = Some r
     \<and> (\<forall>ps seen'. r = Inr (ps, seen') \<longrightarrow> set seen \<subseteq> set seen')"
proof (induction n arbitrary: a seen)
  case (Suc n)
  show ?case
  proof (cases "a \<in> set seen \<or> length S \<le> a")
    case False
    then have u: "unseen S (a # seen) < n" using unseen_Cons [of a seen S] Suc.prems by simp
    define d where "d = (case resolveDeclaredSource S md a of
        DeclaredBy b \<Rightarrow> entry_partitions n S md pairsOf b (a # seen) | _ \<Rightarrow> Some (Inr ([], a # seen)))"
    obtain r where r: "d = Some r" "\<And>ps seen'. r = Inr (ps, seen') \<Longrightarrow> set (a # seen) \<subseteq> set seen'"
    proof (cases "resolveDeclaredSource S md a")
      case (DeclaredBy b)
      from Suc.IH [OF u, of b] that DeclaredBy show ?thesis by (auto simp: d_def)
    qed (use that d_def in auto)
    have base: "\<exists>r'. (case resolveQuerySourceBase S md a of None \<Rightarrow> Some (Inr ([], seen1))
          | Some b \<Rightarrow> entry_partitions n S md pairsOf b seen1) = Some r'
        \<and> (\<forall>ps seen'. r' = Inr (ps, seen') \<longrightarrow> set seen \<subseteq> set seen')"
      if "r = Inr (ps1, seen1)" for ps1 seen1
    proof -
      have s: "set (a # seen) \<subseteq> set seen1" using r(2) that by blast
      then have u1: "unseen S seen1 < n" using unseen_mono u by (meson le_less_trans)
      show ?thesis
      proof (cases "resolveQuerySourceBase S md a")
        case (Some b)
        from Suc.IH [OF u1, of b] Some s show ?thesis by fastforce
      qed (use s in auto)
    qed
    show ?thesis
      using False base r unfolding entry_partitions.simps d_def [symmetric]
      by (cases r) (auto split: sum.split option.split)
  qed auto
qed simp

subsection \<open>No gate is lost\<close>

text \<open>What the rows of a query over \<open>a\<close> come from: query bases and resolved composites.\<close>

inductive derives :: "sources \<Rightarrow> ModelDef \<Rightarrow> nat \<Rightarrow> nat \<Rightarrow> bool" for S md a where
  derives_self: "derives S md a a"
| derives_base: "derives S md a x \<Longrightarrow> resolveQuerySourceBase S md x = Some b \<Longrightarrow> derives S md a b"
| derives_composite: "derives S md a x \<Longrightarrow> resolveCompositeResolvedBase S x = Some c \<Longrightarrow> c < length S \<Longrightarrow> derives S md a c"

definition denies :: "GateEntry list \<Rightarrow> bool" where
  "denies gates \<longleftrightarrow> (\<exists>g \<in> set gates. gateExprs g = [''false''])"

text \<open>A note that is a gate is enforced: its expression is one of a gate's, or no caller passes.\<close>

definition note_enforced :: "(string \<Rightarrow> AuthorizeError + string option) \<Rightarrow> GateEntry list \<Rightarrow> Note \<Rightarrow> bool" where
  "note_enforced parse gates n \<longleftrightarrow> parse (noteText n) = Inr None \<or> denies gates
     \<or> (\<exists>e. parse (noteText n) = Inr (Some e) \<and> (\<exists>g \<in> set gates. e \<in> set (gateExprs g)))"

definition reads_notes :: "(string \<Rightarrow> AuthorizeError + string option) \<Rightarrow> expr_reader" where
  "reads_notes parse texts = bind_r (mapM_r parse texts) (\<lambda>parsed. Inr (somes parsed))"

text \<open>
  The same structs, each with the notes on it that are not its own but copied there from the base it was
  resolved for: the compiler lays the notes of the base of a query source on the composite member.
\<close>

inductive enters :: "sources \<Rightarrow> ModelDef \<Rightarrow> nat \<Rightarrow> Note list \<Rightarrow> nat \<Rightarrow> Note list \<Rightarrow> bool" for S md a copied where
  enters_self: "enters S md a copied a copied"
| enters_base: "enters S md a copied x cs \<Longrightarrow> resolveQuerySourceBase S md x = Some b \<Longrightarrow> enters S md a copied b []"
| enters_composite: "enters S md a copied x cs \<Longrightarrow> resolveCompositeResolvedBase S x = Some c \<Longrightarrow> c < length S \<Longrightarrow>
    enters S md a copied c (base_notes S md x)"

lemma enters_derives: "enters S md a copied x cs \<Longrightarrow> derives S md a x"
  by (induction rule: enters.induct) (auto intro: derives.intros)

text \<open>
  The gate of one struct stands by itself: the expressions of its own notes, and no others, are the
  alternatives of one gate, so that the gate of another struct is required beside it and never instead of
  it. Where it has none, what its nearest ancestor declares is that gate; what cannot be read denies.
\<close>

definition gate_alone ::
  "sources \<Rightarrow> ModelDef \<Rightarrow> (string \<Rightarrow> AuthorizeError + string option) \<Rightarrow> GateEntry list \<Rightarrow> nat \<Rightarrow> Note list \<Rightarrow> bool" where
  "gate_alone S md parse gates x copied \<longleftrightarrow>
     (case reads_notes parse (map noteText (List.filter (\<lambda>n. n \<notin> set copied) (ownLevelNotes (annotations (S ! x))))) of
        Inl _ \<Rightarrow> denies gates
      | Inr own \<Rightarrow>
          if own \<noteq> [] then \<exists>g \<in> set gates. gateExprs g = own
          else (case ancestorGateExprs S md (reads_notes parse) x [] of
              Inl _ \<Rightarrow> denies gates
            | Inr exprs \<Rightarrow> exprs \<noteq> [] \<longrightarrow> (\<exists>g \<in> set gates. gateExprs g = exprs)))"

text \<open>
  What the gates owe one struct: its own gate, alone; every note on it, the copied ones included, is an
  alternative of some gate; a query source whose base is unreadable denies.
\<close>

definition struct_enforced ::
  "sources \<Rightarrow> ModelDef \<Rightarrow> (string \<Rightarrow> AuthorizeError + string option) \<Rightarrow> GateEntry list \<Rightarrow> nat \<Rightarrow> Note list \<Rightarrow> bool" where
  "struct_enforced S md parse gates x copied \<longleftrightarrow>
     gate_alone S md parse gates x copied
     \<and> (\<forall>n \<in> set (ownLevelNotes (annotations (S ! x))). note_enforced parse gates n)
     \<and> (sourceKind (S ! x) = ''query_source'' \<and> resolveQuerySourceBase S md x = None \<longrightarrow> denies gates)"

lemma note_enforced_mono: "note_enforced parse gates n \<Longrightarrow> set gates \<subseteq> set gates' \<Longrightarrow> note_enforced parse gates' n"
  unfolding note_enforced_def denies_def by blast

lemma gate_alone_mono:
  assumes "gate_alone S md parse gates x copied" and "set gates \<subseteq> set gates'"
  shows "gate_alone S md parse gates' x copied"
proof -
  have "denies gates \<Longrightarrow> denies gates'" and "\<And>es. \<exists>g \<in> set gates. gateExprs g = es \<Longrightarrow> \<exists>g \<in> set gates'. gateExprs g = es"
    using assms(2) unfolding denies_def by blast+
  with assms(1) show ?thesis unfolding gate_alone_def by (auto split: sum.splits if_splits)
qed

lemma struct_enforced_mono:
  assumes "struct_enforced S md parse gates x copied" and "set gates \<subseteq> set gates'"
  shows "struct_enforced S md parse gates' x copied"
  using assms gate_alone_mono [OF _ assms(2)] note_enforced_mono [OF _ assms(2), of parse]
  unfolding struct_enforced_def denies_def by blast

lemma reads_notes_Inr:
  "reads_notes parse texts = Inr es \<Longrightarrow> t \<in> set texts \<Longrightarrow>
   parse t = Inr None \<or> (\<exists>e. parse t = Inr (Some e) \<and> e \<in> set es)"
proof -
  assume r: "reads_notes parse texts = Inr es" and t: "t \<in> set texts"
  then obtain rs where rs: "list_all2 (\<lambda>x y. parse x = Inr y) texts rs" "es = somes rs"
    by (auto simp: reads_notes_def bind_r_eq_Inr mapM_r_Inr)
  then obtain i where i: "i < length texts" "t = texts ! i" "i < length rs" "parse t = Inr (rs ! i)"
    using t by (auto simp: in_set_conv_nth list_all2_conv_all_nth)
  show ?thesis
  proof (cases "rs ! i")
    case (Some e)
    then have "Some e \<in> set rs" using i(3) by (metis nth_mem)
    then have "e \<in> set (somes rs)" by (simp add: set_somes)
    with i(4) Some rs(2) show ?thesis by auto
  qed (use i in simp)
qed

text \<open>The gate of a struct itself, when the notes left out are enforced already.\<close>

lemma own_gate_alone: "gate_alone S md parse (acc @ own_gate S md (reads_notes parse) x treat entry excl) x excl"
  by (auto simp: gate_alone_def own_gate_def gateExprsForOwnAnnotations_def denies_def Let_def split: sum.split)

lemma own_gate_enforces:
  assumes "\<forall>n \<in> set excl. note_enforced parse acc n" and n: "n \<in> set (ownLevelNotes (annotations (S ! x)))"
  shows "note_enforced parse (acc @ own_gate S md (reads_notes parse) x treat entry excl) n"
proof (cases "n \<in> set excl")
  case True
  with assms note_enforced_mono [of parse acc n] show ?thesis by simp
next
  case False
  let ?own = "List.filter (\<lambda>n. n \<notin> set excl) (ownLevelNotes (annotations (S ! x)))"
  show ?thesis
  proof (cases "reads_notes parse (map noteText ?own)")
    case (Inl e)
    then show ?thesis
      by (auto simp: note_enforced_def denies_def own_gate_def gateExprsForOwnAnnotations_def Let_def)
  next
    case (Inr es)
    from reads_notes_Inr [OF Inr, of "noteText n"] n False
    consider "parse (noteText n) = Inr None" | e where "parse (noteText n) = Inr (Some e)" "e \<in> set es" by auto
    then show ?thesis
    proof cases
      case 2
      then have "es \<noteq> []" by auto
      with Inr 2 show ?thesis
        by (fastforce simp: note_enforced_def own_gate_def gateExprsForOwnAnnotations_def Let_def)
    qed (simp add: note_enforced_def)
  qed
qed

definition notes_enforced :: "sources \<Rightarrow> (string \<Rightarrow> AuthorizeError + string option) \<Rightarrow> GateEntry list \<Rightarrow> nat list \<Rightarrow> bool" where
  "notes_enforced S parse gates xs \<longleftrightarrow>
     (\<forall>x \<in> set xs. \<forall>n \<in> set (ownLevelNotes (annotations (S ! x))). note_enforced parse gates n)"

text \<open>A finished struct: enforced, and what it derives from has been seen.\<close>

definition gate_finished ::
  "(nat \<Rightarrow> Note list \<Rightarrow> bool) \<Rightarrow> sources \<Rightarrow> ModelDef \<Rightarrow> (string \<Rightarrow> AuthorizeError + string option) \<Rightarrow> GateEntry list \<Rightarrow> nat list
   \<Rightarrow> nat \<Rightarrow> bool" where
  "gate_finished ent S md parse gates seen x \<longleftrightarrow> (\<exists>copied. ent x copied \<and> struct_enforced S md parse gates x copied)
     \<and> (\<forall>b. resolveQuerySourceBase S md x = Some b \<longrightarrow> b \<in> set seen)
     \<and> (\<forall>c. resolveCompositeResolvedBase S x = Some c \<and> c < length S \<longrightarrow> c \<in> set seen)"

lemma gate_finished_mono:
  "gate_finished ent S md parse gates seen x \<Longrightarrow> set gates \<subseteq> set gates' \<Longrightarrow> set seen \<subseteq> set seen' \<Longrightarrow>
   gate_finished ent S md parse gates' seen' x"
  unfolding gate_finished_def using struct_enforced_mono by blast

lemma notes_enforced_mono:
  "notes_enforced S parse gates xs \<Longrightarrow> set gates \<subseteq> set gates' \<Longrightarrow> notes_enforced S parse gates' xs"
  unfolding notes_enforced_def using note_enforced_mono by blast

lemma base_is_struct: "resolveQuerySourceBase S md a = Some b \<Longrightarrow> b < length S"
  by (auto simp: resolveQuerySourceBase_def is_source_def split: if_splits option.splits StructRef.splits)

definition entry_steps :: "(nat \<Rightarrow> Note list \<Rightarrow> bool) \<Rightarrow> sources \<Rightarrow> ModelDef \<Rightarrow> bool" where
  "entry_steps ent S md \<longleftrightarrow> (\<forall>x cs. ent x cs \<longrightarrow>
     (\<forall>b. resolveQuerySourceBase S md x = Some b \<longrightarrow> ent b [])
     \<and> (\<forall>c. resolveCompositeResolvedBase S x = Some c \<and> c < length S \<longrightarrow> ent c (base_notes S md x)))"

lemma enters_steps: "entry_steps (enters S md a copied) S md"
  unfolding entry_steps_def by (blast intro: enters.intros)

lemma collect_gates_enforces:
  "collect_gates n S md (reads_notes parse) a seen treat entry excl = Some (gs, seen') \<Longrightarrow>
   entry_steps ent S md \<Longrightarrow> ent a excl \<Longrightarrow>
   \<forall>m \<in> set excl. note_enforced parse acc m \<Longrightarrow> notes_enforced S parse acc seen \<Longrightarrow>
     set seen \<subseteq> set seen' \<and> (a < length S \<longrightarrow> a \<in> set seen')
     \<and> (\<forall>x \<in> set seen' - set seen. gate_finished ent S md parse (acc @ gs) seen' x)"
proof (induction n arbitrary: a seen treat entry excl gs seen' acc)
  case (Suc n)
  show ?case
  proof (cases "a \<in> set seen \<or> length S \<le> a")
    case True
    with Suc.prems(1) show ?thesis by auto
  next
    case False
    define own where "own = own_gate S md (reads_notes parse) a treat entry excl"
    note en = own_gate_enforces [OF Suc.prems(4), of _ S a md treat entry, folded own_def]
    note al = own_gate_alone [of S md parse acc a treat entry excl, folded own_def]
    have seen1: "notes_enforced S parse (acc @ own) (a # seen)"
      using notes_enforced_mono [OF Suc.prems(5), of "acc @ own"] en by (simp add: notes_enforced_def)
    show ?thesis
    proof (cases "sourceKind (S ! a) = ''query_source''")
      case False
      with Suc.prems(1) \<open>\<not> (a \<in> set seen \<or> length S \<le> a)\<close> have "gs = own" "seen' = a # seen"
        by (auto simp: own_def)
      with en al False Suc.prems(3) show ?thesis
        by (auto simp: gate_finished_def struct_enforced_def resolveQuerySourceBase_def resolveCompositeResolvedBase_def)
    next
      case query: True
      define first where "first = (case resolveQuerySourceBase S md a of
            Some b \<Rightarrow> collect_gates n S md (reads_notes parse) b (a # seen) False entry []
          | None \<Rightarrow> Some ([unresolved_base S a], a # seen))"
      obtain gs1 seen2 where f: "first = Some (gs1, seen2)"
        using Suc.prems(1) \<open>\<not> (a \<in> set seen \<or> length S \<le> a)\<close> query
        unfolding collect_gates.simps first_def [symmetric] by (cases first) auto
      have base: "set (a # seen) \<subseteq> set seen2 \<and> (\<forall>b. resolveQuerySourceBase S md a = Some b \<longrightarrow> b \<in> set seen2)
          \<and> (resolveQuerySourceBase S md a = None \<longrightarrow> denies gs1)
          \<and> (\<forall>x \<in> set seen2 - set (a # seen). gate_finished ent S md parse (acc @ own @ gs1) seen2 x)"
      proof (cases "resolveQuerySourceBase S md a")
        case None
        with f show ?thesis by (auto simp: first_def denies_def unresolved_base_def)
      next
        case (Some b)
        with f have "collect_gates n S md (reads_notes parse) b (a # seen) False entry [] = Some (gs1, seen2)"
          by (simp add: first_def)
        moreover have "ent b []" using Suc.prems(2,3) Some unfolding entry_steps_def by blast
        ultimately have "collect_gates n S md (reads_notes parse) b (a # seen) False entry [] = Some (gs1, seen2)" "ent b []" .
        from Suc.IH [OF this(1) Suc.prems(2) this(2) _ seen1] base_is_struct [OF Some]
        have "set (a # seen) \<subseteq> set seen2" "b \<in> set seen2"
          "\<forall>x \<in> set seen2 - set (a # seen). gate_finished ent S md parse ((acc @ own) @ gs1) seen2 x" by simp_all
        with Some show ?thesis by (simp add: append_assoc)
      qed
      have seen2: "notes_enforced S parse (acc @ own @ gs1) seen2"
        unfolding notes_enforced_def
      proof (intro ballI)
        fix x m
        assume x: "x \<in> set seen2" "m \<in> set (ownLevelNotes (annotations (S ! x)))"
        show "note_enforced parse (acc @ own @ gs1) m"
        proof (cases "x \<in> set (a # seen)")
          case True
          with seen1 x(2) have "note_enforced parse (acc @ own) m" unfolding notes_enforced_def by blast
          then show ?thesis by (rule note_enforced_mono) auto
        next
          case False
          with base x(1) have "gate_finished ent S md parse (acc @ own @ gs1) seen2 x" by blast
          then show ?thesis using x(2) unfolding gate_finished_def struct_enforced_def by blast
        qed
      qed
      obtain gs2 where rest: "gs = own @ gs1 @ gs2" "set seen2 \<subseteq> set seen'"
          "\<forall>c. resolveCompositeResolvedBase S a = Some c \<and> c < length S \<longrightarrow> c \<in> set seen'"
          "\<forall>x \<in> set seen' - set seen2. gate_finished ent S md parse (acc @ own @ gs1 @ gs2) seen' x"
      proof (cases "resolveCompositeResolvedBase S a")
        case None
        with Suc.prems(1) \<open>\<not> (a \<in> set seen \<or> length S \<le> a)\<close> query f have "gs = own @ gs1 @ []" "seen' = seen2"
          unfolding collect_gates.simps first_def [symmetric] by (auto simp: own_def)
        with that [of "[]"] None show ?thesis by simp
      next
        case (Some c)
        with Suc.prems(1) \<open>\<not> (a \<in> set seen \<or> length S \<le> a)\<close> query f obtain gs2
          where c: "collect_gates n S md (reads_notes parse) c seen2 False entry (base_notes S md a) = Some (gs2, seen')"
            "gs = own @ gs1 @ gs2"
          unfolding collect_gates.simps first_def [symmetric] by (auto simp: own_def)
        have "\<forall>m \<in> set (base_notes S md a). note_enforced parse (acc @ own @ gs1) m"
          using base seen2 unfolding base_notes_def notes_enforced_def by (auto split: option.splits)
        note enforced = this
        have "set seen2 \<subseteq> set seen' \<and> (c < length S \<longrightarrow> c \<in> set seen')
            \<and> (\<forall>x \<in> set seen' - set seen2. gate_finished ent S md parse ((acc @ own @ gs1) @ gs2) seen' x)"
        proof (cases "c < length S")
          case True
          then have "ent c (base_notes S md a)" using Suc.prems(2,3) Some unfolding entry_steps_def by blast
          from Suc.IH [OF c(1) Suc.prems(2) this enforced seen2] show ?thesis .
        next
          case False
          then show ?thesis using c(1) by (cases n) auto
        qed
        with that [of gs2] c(2) Some show ?thesis by (simp add: append_assoc)
      qed
      have owes: "\<forall>m \<in> set (ownLevelNotes (annotations (S ! a))). note_enforced parse (acc @ own @ gs1) m"
        using en note_enforced_mono [of parse "acc @ own" _ "acc @ own @ gs1"] by auto
      have "denies (acc @ own @ gs1)" if "resolveQuerySourceBase S md a = None"
        using base that unfolding denies_def by auto
      moreover have "gate_alone S md parse (acc @ own @ gs1) a excl" by (rule gate_alone_mono [OF al]) auto
      ultimately have owed: "struct_enforced S md parse (acc @ own @ gs1) a excl"
        using owes unfolding struct_enforced_def by blast
      have self: "gate_finished ent S md parse (acc @ own @ gs1) seen' a"
        using owed Suc.prems(3) base rest(2,3) unfolding gate_finished_def by blast
      have "gate_finished ent S md parse (acc @ gs) seen' x" if x: "x \<in> set seen' - set seen" for x
      proof -
        consider "x = a" | "x \<in> set seen2 - set (a # seen)" | "x \<in> set seen' - set seen2" using x by auto
        then show ?thesis
        proof cases
          case 1
          have "gate_finished ent S md parse (acc @ gs) seen' a" by (rule gate_finished_mono [OF self]) (auto simp: rest(1))
          with 1 show ?thesis by simp
        next
          case 2
          with base have "gate_finished ent S md parse (acc @ own @ gs1) seen2 x" by blast
          then show ?thesis by (rule gate_finished_mono) (use rest in auto)
        next
          case 3
          with rest show ?thesis by auto
        qed
      qed
      then show ?thesis using base rest(2) by auto
    qed
  qed
qed simp

text \<open>
  C5: No gate of an entry point is lost or merged into another, however its source is derived: every
  struct its rows come from, through query bases and resolved composites, with cycles and sharing, has a
  collected gate whose alternatives are exactly the gates its own notes declare, without the notes copied
  onto it from the base it was resolved for; those are a gate of their own. The gate of the nearest ancestor
  is collected where there is no own one, and whatever cannot be read, a note, an ancestor or a base, is
  collected as a gate that nobody passes.
\<close>

theorem gates_are_complete:
  assumes "collectEntryPointGates S md (reads_notes parse) (Some a) [] treat [] = (gates, seen)"
    and "a < length S" and "derives S md a x"
  shows "\<exists>copied. enters S md a [] x copied \<and> struct_enforced S md parse gates x copied"
proof -
  have c: "collect_gates (Suc (length S)) S md (reads_notes parse) a [] treat a [] = Some (gates, seen)"
    by (rule collectEntryPointGates_collect [OF assms(1)])
  from collect_gates_enforces [OF c enters_steps enters_self, of "[]"] assms(2)
  have a: "a \<in> set seen" and fin: "\<And>y. y \<in> set seen \<Longrightarrow> gate_finished (enters S md a []) S md parse gates seen y"
    by (auto simp: notes_enforced_def)
  have closed: "b \<in> set seen" if "y \<in> set seen"
      "resolveQuerySourceBase S md y = Some b \<or> resolveCompositeResolvedBase S y = Some b \<and> b < length S" for y b
    using fin [OF that(1)] that(2) unfolding gate_finished_def by blast
  have "x \<in> set seen" using assms(3)
  proof (induction x rule: derives.induct)
    case derives_self
    show ?case by (rule a)
  next
    case (derives_base x b)
    then show ?case using closed by blast
  next
    case (derives_composite x c)
    then show ?case using closed by blast
  qed
  then show ?thesis using fin unfolding gate_finished_def by blast
qed

text \<open>
  A composite over a gated source: struct 1 is a query source over struct 0, whose note is a gate, and
  resolves to the member 2, which repeats the note and adds one.
\<close>

definition demo_note :: "nat \<Rightarrow> string \<Rightarrow> Note" where
  "demo_note i t = \<lparr>noteId = i, noteText = t\<rparr>"

definition demo_struct :: "string \<Rightarrow> string \<Rightarrow> Note list \<Rightarrow> SourceDef" where
  "demo_struct n k notes = \<lparr>isSource = True, sourceName = n, sourceAs = None, sourceKind = k,
     annotations = Some (Annotations notes [] None), referenceID = None, sourceID = None, structRef = None, resolved = None,
     members = [], fieldDefs = []\<rparr>"

definition demo_sources :: sources where
  "demo_sources = [demo_struct ''base'' ''table'' [demo_note 0 ''A''],
     (demo_struct ''top'' ''query_source'' [])\<lparr>structRef := Some (RefStruct 0), resolved := Some 2\<rparr>,
     demo_struct ''member'' ''table'' [demo_note 0 ''A'', demo_note 1 ''B'']]"

definition demo_model :: ModelDef where
  "demo_model = \<lparr>contents = [(''base'', 0), (''top'', 1)], registry = (\<lambda>_. None), modelGivens = (\<lambda>_. None)\<rparr>"

definition demo_parse :: "string \<Rightarrow> AuthorizeError + string option" where
  "demo_parse txt = Inr (Some txt)"

lemma gates_are_complete_witness:
  "(\<exists>copied. enters demo_sources demo_model 1 [] 2 copied \<and> struct_enforced demo_sources demo_model demo_parse
     (fst (collectEntryPointGates demo_sources demo_model (reads_notes demo_parse) (Some 1) [] True [])) 2 copied)
   \<and> map gateExprs (fst (collectEntryPointGates demo_sources demo_model (reads_notes demo_parse) (Some 1) [] True []))
     = [[''A''], [''B'']]"
proof
  obtain gates seen where c: "collectEntryPointGates demo_sources demo_model (reads_notes demo_parse) (Some 1) [] True [] = (gates, seen)"
    by fastforce
  have "derives demo_sources demo_model 1 2"
    by (rule derives_composite [OF derives_self])
      (simp_all add: demo_sources_def demo_struct_def resolveCompositeResolvedBase_def)
  moreover have "1 < length demo_sources" by (simp add: demo_sources_def)
  ultimately show "\<exists>copied. enters demo_sources demo_model 1 [] 2 copied \<and> struct_enforced demo_sources demo_model demo_parse
     (fst (collectEntryPointGates demo_sources demo_model (reads_notes demo_parse) (Some 1) [] True [])) 2 copied"
    using gates_are_complete [OF c] c by simp
  show "map gateExprs (fst (collectEntryPointGates demo_sources demo_model (reads_notes demo_parse) (Some 1) [] True []))
     = [[''A''], [''B'']]"
    by code_simp
qed

text \<open>
  C30: Both walks over derived sources end: the number of structs bounds the recursion from any struct
  and any set already seen, cyclic derivations included, so neither ever answers for lack of a bound.
\<close>

theorem entry_walks_terminate:
  "(\<exists>r. collect_gates (Suc (length S)) S md exprsOf a seen treat entry excl = Some r)
   \<and> (\<exists>r. entry_partitions (Suc (length S)) S md pairsOf a seen = Some r)"
  using collect_gates_ends [OF unseen_start] entry_partitions_ends [OF unseen_start] by blast

subsection \<open>No partition is lost\<close>

text \<open>What a partition is looked up along: declared sources and query bases.\<close>

inductive identity_edge :: "sources \<Rightarrow> ModelDef \<Rightarrow> nat \<Rightarrow> nat \<Rightarrow> bool" for S md a where
  edge_declared: "resolveDeclaredSource S md a = DeclaredBy b \<Longrightarrow> identity_edge S md a b"
| edge_base: "resolveQuerySourceBase S md a = Some b \<Longrightarrow> identity_edge S md a b"

inductive same_rows :: "sources \<Rightarrow> ModelDef \<Rightarrow> nat \<Rightarrow> nat \<Rightarrow> bool" for S md a where
  same_self: "same_rows S md a a"
| same_step: "same_rows S md a x \<Longrightarrow> identity_edge S md x b \<Longrightarrow> same_rows S md a b"

text \<open>A struct that declares no marker, nor anything it inherits.\<close>

definition unmarked :: "sources \<Rightarrow> ModelDef \<Rightarrow> pair_reader \<Rightarrow> nat \<Rightarrow> bool" where
  "unmarked S md pairsOf x \<longleftrightarrow> pairsOf (ownLevelNoteTexts (annotations (S ! x))) = Inr []
     \<and> inherited_first pairsOf ANCESTOR_WALK_MAX_DEPTH (inherited_annotations (S ! x)) = Inr (Some [])
     \<and> resolveDeclaredSource S md x \<noteq> Unresolvable"

lemma declared_by_id_struct: "declared_by_id S md a ref = DeclaredBy b \<Longrightarrow> b < length S"
  by (auto simp: declared_by_id_def is_source_def split: option.splits RegistryEntry.splits if_splits)

lemma declared_is_struct: "resolveDeclaredSource S md a = DeclaredBy b \<Longrightarrow> b < length S"
  using declared_by_id_struct
  by (auto simp: resolveDeclaredSource_def split: Declared.splits if_splits)

lemma entry_partitions_none:
  "entry_partitions n S md pairsOf a seen = Some (Inr ([], seen')) \<Longrightarrow>
     set seen \<subseteq> set seen' \<and> (a < length S \<longrightarrow> a \<in> set seen')
     \<and> (\<forall>x \<in> set seen' - set seen. unmarked S md pairsOf x \<and> (\<forall>b. identity_edge S md x b \<longrightarrow> b \<in> set seen'))"
proof (induction n arbitrary: a seen seen')
  case (Suc n)
  show ?case
  proof (cases "a \<in> set seen \<or> length S \<le> a")
    case True
    with Suc.prems show ?thesis by auto
  next
    case False
    define d where "d = (case resolveDeclaredSource S md a of
        DeclaredBy b \<Rightarrow> entry_partitions n S md pairsOf b (a # seen) | _ \<Rightarrow> Some (Inr ([], a # seen)))"
    from Suc.prems False obtain seen1 where
        own: "unmarked S md pairsOf a" and d: "d = Some (Inr ([], seen1))"
        and base: "(case resolveQuerySourceBase S md a of None \<Rightarrow> Some (Inr ([], seen1))
          | Some b \<Rightarrow> entry_partitions n S md pairsOf b seen1) = Some (Inr ([], seen'))"
      unfolding entry_partitions.simps d_def [symmetric] unmarked_def
      by (auto split: sum.splits option.splits if_splits)
    have one: "set (a # seen) \<subseteq> set seen1 \<and> (\<forall>b. resolveDeclaredSource S md a = DeclaredBy b \<longrightarrow> b \<in> set seen1)
        \<and> (\<forall>x \<in> set seen1 - set (a # seen). unmarked S md pairsOf x \<and> (\<forall>b. identity_edge S md x b \<longrightarrow> b \<in> set seen1))"
    proof (cases "resolveDeclaredSource S md a")
      case (DeclaredBy b)
      with d have "entry_partitions n S md pairsOf b (a # seen) = Some (Inr ([], seen1))" by (simp add: d_def)
      from Suc.IH [OF this] declared_is_struct [OF DeclaredBy] DeclaredBy show ?thesis by auto
    qed (use d in \<open>auto simp: d_def\<close>)
    have two: "set seen1 \<subseteq> set seen' \<and> (\<forall>b. resolveQuerySourceBase S md a = Some b \<longrightarrow> b \<in> set seen')
        \<and> (\<forall>x \<in> set seen' - set seen1. unmarked S md pairsOf x \<and> (\<forall>b. identity_edge S md x b \<longrightarrow> b \<in> set seen'))"
    proof (cases "resolveQuerySourceBase S md a")
      case (Some b)
      with base have "entry_partitions n S md pairsOf b seen1 = Some (Inr ([], seen'))" by simp
      from Suc.IH [OF this] base_is_struct [OF Some] Some show ?thesis by auto
    qed (use base in auto)
    have "unmarked S md pairsOf x \<and> (\<forall>b. identity_edge S md x b \<longrightarrow> b \<in> set seen')" if xs: "x \<in> set seen' - set seen" for x
    proof -
      consider "x = a" | "x \<in> set seen1 - set (a # seen)" | "x \<in> set seen' - set seen1" using xs by auto
      then show ?thesis
      proof cases
        case 1
        have "b \<in> set seen'" if "identity_edge S md a b" for b
          using that by cases (use one two in blast)+
        with own 1 show ?thesis by blast
      next
        case 2
        with one two show ?thesis by blast
      next
        case 3
        with two show ?thesis by blast
      qed
    qed
    moreover have "set seen \<subseteq> set seen'" "a \<in> set seen'" using one two by auto
    ultimately show ?thesis by blast
  qed
qed simp

text \<open>
  A source is served unpartitioned only if it is: when no pair is found, no struct its rows come
  from, through declared sources and query bases to any depth, carries or inherits a marker, and every
  ancestry was readable.
\<close>

theorem unpartitioned_has_no_marker:
  assumes "resolveEntryPointPartitions S md pairsOf (Some a) = Inr []" and "a < length S" and "same_rows S md a x"
  shows "unmarked S md pairsOf x"
proof -
  obtain r where r: "entry_partitions (Suc (length S)) S md pairsOf a [] = Some r"
    using entry_partitions_ends [OF unseen_start] by blast
  with assms(1) obtain seen where "r = Inr ([], seen)"
    by (cases r) (auto simp: resolveEntryPointPartitions_def)
  from entry_partitions_none [OF r [unfolded this]] assms(2)
  have a: "a \<in> set seen" and fin: "\<And>y. y \<in> set seen \<Longrightarrow> unmarked S md pairsOf y \<and> (\<forall>b. identity_edge S md y b \<longrightarrow> b \<in> set seen)"
    by auto
  have "x \<in> set seen" using assms(3)
  proof (induction x rule: same_rows.induct)
    case same_self
    show ?case by (rule a)
  next
    case (same_step x b)
    then show ?case using fin by blast
  qed
  with fin show ?thesis by blast
qed

definition demo_pairs :: pair_reader where
  "demo_pairs texts = (if ''P'' \<in> set texts then Inr [\<lparr>column = ''c'', given = ''G''\<rparr>] else Inr [])"

lemma unpartitioned_has_no_marker_witness: "unmarked demo_sources demo_model demo_pairs 0"
proof -
  have "resolveEntryPointPartitions demo_sources demo_model demo_pairs (Some 1) = Inr []" by code_simp
  moreover have "1 < length demo_sources" by (simp add: demo_sources_def)
  moreover have "resolveQuerySourceBase demo_sources demo_model 1 = Some 0" by code_simp
  ultimately show ?thesis
    using unpartitioned_has_no_marker same_step [OF same_self edge_base] by blast
qed

end
