(* ===== verification/GateShape.thy ===== *)
theory GateShape
  imports GateWalk
begin

text \<open>
  What a gate becomes (\<open>service/gate_dimension.ts\<close> and \<open>resolveGateShape\<close>,
  \<open>resolvePartitionGraftEntries\<close> of \<open>service/gate_classification.ts\<close>): the givens its compiled
  condition reads through other fields, the source it is grafted onto, and whether it is a row filter
  or is refused.
\<close>

subsection \<open>Givens read through fields\<close>

text \<open>\<open>resolveFieldUsagePath\<close>: joins on the way, a field at the end.\<close>

fun field_at :: "sources \<Rightarrow> nat \<Rightarrow> string list \<Rightarrow> (nat \<times> FieldDef) option" where
  "field_at S a [] = None"
| "field_at S a [leaf] =
     (if a < length S
      then map_option (\<lambda>f. (a, f)) (List.find (\<lambda>f. usedAs f = leaf) (fieldDefs (S ! a))) else None)"
| "field_at S a (seg # leaf # path) =
     (if a < length S
      then case List.find (\<lambda>f. usedAs f = seg \<and> joined f \<noteq> None) (fieldDefs (S ! a)) of
          Some f \<Rightarrow> field_at S (the (joined f)) (leaf # path)
        | None \<Rightarrow> None
      else None)"

definition given_usage :: "RefSummary option \<Rightarrow> string list" where
  "given_usage rs = (case rs of Some r \<Rightarrow> givenUsage r | None \<Rightarrow> [])"

definition field_usage :: "RefSummary option \<Rightarrow> string list list" where
  "field_usage rs = (case rs of Some r \<Rightarrow> fieldUsage r | None \<Rightarrow> [])"

text \<open>
  \<open>expandRefSummaryGivenIds\<close>: the ids and the fields seen, or the path that names no field. Every
  nested call has seen a new field, so the number of fields bounds the recursion.
\<close>

fun expand_given_ids ::
  "nat \<Rightarrow> sources \<Rightarrow> nat \<Rightarrow> RefSummary option \<Rightarrow> nat list \<Rightarrow> (string + string list \<times> nat list) option"
  and expand_usages ::
  "nat \<Rightarrow> sources \<Rightarrow> nat \<Rightarrow> string list list \<Rightarrow> nat list \<Rightarrow> (string + string list \<times> nat list) option" where
  "expand_given_ids 0 S a rs seen = None"
| "expand_given_ids (Suc n) S a rs seen =
     map_option (map_sum (\<lambda>p. p) (\<lambda>(ids, seen'). (given_usage rs @ ids, seen')))
       (expand_usages n S a (field_usage rs) seen)"
| "expand_usages n S a [] seen = Some (Inr ([], seen))"
| "expand_usages n S a (path # paths) seen =
     (if path = [] then expand_usages n S a paths seen
      else case field_at S a path of
        None \<Rightarrow> Some (Inl (join ''.'' path))
      | Some (t, f) \<Rightarrow>
          if fieldId f \<in> set seen then expand_usages n S a paths seen
          else (case expand_given_ids n S t (refSummary f) (fieldId f # seen) of
              None \<Rightarrow> None
            | Some (Inl p) \<Rightarrow> Some (Inl p)
            | Some (Inr (ids, seen')) \<Rightarrow>
                map_option (map_sum (\<lambda>p. p) (\<lambda>(ids', seen''). (ids @ ids', seen'')))
                  (expand_usages n S a paths seen')))"

definition all_fields :: "sources \<Rightarrow> FieldDef list" where
  "all_fields S = concat (map fieldDefs S)"

definition expandRefSummaryGivenIds :: "sources \<Rightarrow> nat \<Rightarrow> RefSummary option \<Rightarrow> string + string list" where
  "expandRefSummaryGivenIds S a rs =
     (case expand_given_ids (Suc (length (all_fields S))) S a rs [] of
        Some r \<Rightarrow> map_sum (\<lambda>p. p) (\<lambda>(ids, _). first_seen ids) r
      | None \<Rightarrow> Inl [])"

subsection \<open>The expansion ends\<close>

definition unseen_fields :: "sources \<Rightarrow> nat list \<Rightarrow> nat" where
  "unseen_fields S seen = card (fieldId ` set (all_fields S) - set seen)"

lemma field_at_field: "field_at S a path = Some (t, f) \<Longrightarrow> f \<in> set (all_fields S)"
proof (induction S a path rule: field_at.induct)
  case (2 S a leaf)
  then show ?case
    by (auto simp: all_fields_def find_Some_iff split: if_splits) (metis nth_mem)
qed (auto split: if_splits option.splits)

lemma unseen_fields_Cons:
  assumes "i \<in> fieldId ` set (all_fields S)" and "i \<notin> set seen"
  shows "Suc (unseen_fields S (i # seen)) = unseen_fields S seen"
proof -
  have "fieldId ` set (all_fields S) - set (i # seen) = (fieldId ` set (all_fields S) - set seen) - {i}" by auto
  with card_Suc_Diff1 [of "fieldId ` set (all_fields S) - set seen" i] assms show ?thesis
    by (simp only: unseen_fields_def) blast
qed

lemma unseen_fields_mono: "set seen \<subseteq> set seen' \<Longrightarrow> unseen_fields S seen' \<le> unseen_fields S seen"
  by (auto simp: unseen_fields_def intro: card_mono)

lemma expand_given_ids_Inr:
  assumes "expand_given_ids n S a rs seen = Some (Inr (ids, seen'))"
  obtains m below where "n = Suc m" and "expand_usages m S a (field_usage rs) seen = Some (Inr (below, seen'))"
    and "ids = given_usage rs @ below"
proof (cases n)
  case (Suc m)
  with assms obtain below where "expand_usages m S a (field_usage rs) seen = Some (Inr (below, seen'))"
      "ids = given_usage rs @ below"
    by (auto simp: map_sum_eq_Inr)
  with Suc that show ?thesis by blast
qed (use assms in simp)

text \<open>The four ways through one path of a reference summary.\<close>

lemma expand_usages_Cons_Inr:
  assumes "expand_usages n S a (path # paths) seen = Some (Inr (ids, seen'))"
  obtains
    (empty) "path = []" and "expand_usages n S a paths seen = Some (Inr (ids, seen'))"
  | (known) t f where "path \<noteq> []" and "field_at S a path = Some (t, f)" and "fieldId f \<in> set seen"
      and "expand_usages n S a paths seen = Some (Inr (ids, seen'))"
  | (new) t f here mid rest where "path \<noteq> []" and "field_at S a path = Some (t, f)" and "fieldId f \<notin> set seen"
      and "expand_given_ids n S t (refSummary f) (fieldId f # seen) = Some (Inr (here, mid))"
      and "expand_usages n S a paths mid = Some (Inr (rest, seen'))" and "ids = here @ rest"
proof (cases "path = []")
  case True
  with assms empty show ?thesis by simp
next
  case ne: False
  show ?thesis
  proof (cases "field_at S a path")
    case None
    with assms ne show ?thesis by simp
  next
    case (Some tf)
    obtain t f where tf: "tf = (t, f)" by force
    show ?thesis
    proof (cases "fieldId f \<in> set seen")
      case True
      with assms ne Some tf known show ?thesis by simp
    next
      case False
      show ?thesis
      proof (cases "expand_given_ids n S t (refSummary f) (fieldId f # seen)")
        case None
        with assms ne Some tf False show ?thesis by simp
      next
        case nested: (Some r)
        show ?thesis
        proof (cases r)
          case (Inl p)
          with nested assms ne Some tf False show ?thesis by simp
        next
          case (Inr q)
          obtain here mid where q: "q = (here, mid)" by force
          with Inr nested assms ne Some tf False obtain rest where
              "expand_usages n S a paths mid = Some (Inr (rest, seen'))" "ids = here @ rest"
            by (auto simp: map_sum_eq_Inr)
          with Inr q nested ne Some tf False new show ?thesis by blast
        qed
      qed
    qed
  qed
qed

lemma expand_seen:
  "expand_given_ids n S a rs seen = Some (Inr (ids, seen')) \<Longrightarrow> set seen \<subseteq> set seen'"
  "expand_usages n S a paths seen = Some (Inr (ids, seen')) \<Longrightarrow> set seen \<subseteq> set seen'"
proof (induction n S a rs seen and n S a paths seen arbitrary: ids seen' and ids seen'
    rule: expand_given_ids_expand_usages.induct)
  case (2 n S a rs seen)
  from 2(2) show ?case by (rule expand_given_ids_Inr) (use 2(1) in blast)
next
  case (4 n S a path paths seen)
  from 4(5) show ?case
  proof (cases rule: expand_usages_Cons_Inr)
    case empty
    with 4(1) show ?thesis by blast
  next
    case (known t f)
    with 4(2) show ?thesis by fastforce
  next
    case (new t f here mid rest)
    with 4(3) [of "(t, f)" t f here mid] 4(4) [of "(t, f)" t f "Inr (here, mid)" "(here, mid)" here mid] show ?thesis
      by fastforce
  qed
qed auto

lemma expand_ends:
  "unseen_fields S seen < n \<Longrightarrow> \<exists>r. expand_given_ids n S a rs seen = Some r"
  "unseen_fields S seen \<le> n \<Longrightarrow> \<exists>r. expand_usages n S a paths seen = Some r"
proof (induction n S a rs seen and n S a paths seen rule: expand_given_ids_expand_usages.induct)
  case (4 n S a path paths seen)
  show ?case
  proof (cases "path = [] \<or> field_at S a path = None")
    case True
    with 4 show ?thesis by auto
  next
    case False
    then obtain t f where f: "path \<noteq> []" "field_at S a path = Some (t, f)" by auto
    show ?thesis
    proof (cases "fieldId f \<in> set seen")
      case True
      with 4 f show ?thesis by simp
    next
      case new: False
      have "Suc (unseen_fields S (fieldId f # seen)) = unseen_fields S seen"
        by (rule unseen_fields_Cons [OF _ new]) (use field_at_field [OF f(2)] in simp)
      with 4 f new obtain r where r: "expand_given_ids n S t (refSummary f) (fieldId f # seen) = Some r" by fastforce
      show ?thesis
      proof (cases r)
        case (Inl p)
        with r f new show ?thesis by simp
      next
        case (Inr q)
        then obtain ids seen' where q: "r = Inr (ids, seen')" by (cases q) simp
        have "set seen \<subseteq> set seen'" using expand_seen(1) r q by fastforce
        then have "unseen_fields S seen' \<le> n" using unseen_fields_mono 4(5) le_trans by blast
        then obtain r' where "expand_usages n S a paths seen' = Some r'"
          using 4 f new r q by fastforce
        with r q f new show ?thesis by simp
      qed
    qed
  qed
qed auto

subsection \<open>The expansion is exact\<close>

text \<open>The fields a reference summary reads, directly and through the fields it reads.\<close>

inductive reads_field :: "sources \<Rightarrow> nat \<Rightarrow> RefSummary option \<Rightarrow> nat \<Rightarrow> FieldDef \<Rightarrow> bool" for S a rs where
  reads_own: "path \<in> set (field_usage rs) \<Longrightarrow> path \<noteq> [] \<Longrightarrow> field_at S a path = Some (t, f) \<Longrightarrow> reads_field S a rs t f"
| reads_through: "reads_field S a rs t f \<Longrightarrow> path \<in> set (field_usage (refSummary f)) \<Longrightarrow> path \<noteq> [] \<Longrightarrow>
    field_at S t path = Some (u, h) \<Longrightarrow> reads_field S a rs u h"

inductive_cases reads_fieldE: "reads_field S a rs t f"

definition uses_given :: "sources \<Rightarrow> nat \<Rightarrow> RefSummary option \<Rightarrow> string \<Rightarrow> bool" where
  "uses_given S a rs g \<longleftrightarrow> g \<in> set (given_usage rs)
     \<or> (\<exists>t f. reads_field S a rs t f \<and> g \<in> set (given_usage (refSummary f)))"

text \<open>
  One field object reached in two structs is one definition, and reads the same fields in both: so it is
  where a source shares fields with the source it extends and declares none of what they read anew. The
  code takes it for granted, since it follows a field object in the first struct only;
  \<open>shared_field_hides_given\<close> below shows what is missed otherwise.
\<close>

definition shared_fields_agree :: "sources \<Rightarrow> nat \<Rightarrow> RefSummary option \<Rightarrow> bool" where
  "shared_fields_agree S a rs \<longleftrightarrow> (\<forall>t f u h. reads_field S a rs t f \<longrightarrow> reads_field S a rs u h \<longrightarrow>
     fieldId f = fieldId h \<longrightarrow> f = h
       \<and> (\<forall>path \<in> set (field_usage (refSummary f)). map_option snd (field_at S t path) = map_option snd (field_at S u path)))"

text \<open>A field is expanded: its givens are among the ids, and what it reads has been seen.\<close>

definition paths_seen :: "sources \<Rightarrow> nat \<Rightarrow> string list list \<Rightarrow> nat list \<Rightarrow> bool" where
  "paths_seen S a paths seen \<longleftrightarrow>
     (\<forall>path \<in> set paths. path \<noteq> [] \<longrightarrow> (\<exists>t f. field_at S a path = Some (t, f) \<and> fieldId f \<in> set seen))"

definition expanded :: "sources \<Rightarrow> nat \<Rightarrow> RefSummary option \<Rightarrow> string list \<Rightarrow> nat list \<Rightarrow> nat \<Rightarrow> bool" where
  "expanded S a rs ids seen i \<longleftrightarrow> (\<exists>t f. reads_field S a rs t f \<and> fieldId f = i
     \<and> set (given_usage (refSummary f)) \<subseteq> set ids \<and> paths_seen S t (field_usage (refSummary f)) seen)"

lemma paths_seen_mono: "paths_seen S a paths seen \<Longrightarrow> set seen \<subseteq> set seen' \<Longrightarrow> paths_seen S a paths seen'"
  unfolding paths_seen_def by blast

lemma expanded_mono:
  "expanded S a rs ids seen i \<Longrightarrow> set ids \<subseteq> set ids' \<Longrightarrow> set seen \<subseteq> set seen' \<Longrightarrow> expanded S a rs ids' seen' i"
  unfolding expanded_def using paths_seen_mono by blast

lemma reads_field_lift:
  assumes "reads_field S t (refSummary f) u h" and "reads_field S a rs t f"
  shows "reads_field S a rs u h"
  using assms by (induction rule: reads_field.induct) (auto intro: reads_through)

lemma expanded_lift:
  "expanded S t (refSummary f) ids seen i \<Longrightarrow> reads_field S a rs t f \<Longrightarrow> expanded S a rs ids seen i"
  unfolding expanded_def using reads_field_lift by blast

text \<open>What a finished expansion knows; \<open>rs\<close> is the summary the paths are from.\<close>

lemma expansion_finished:
  "expand_given_ids n S a rs seen = Some (Inr (ids, seen')) \<Longrightarrow>
     set (given_usage rs) \<subseteq> set ids \<and> paths_seen S a (field_usage rs) seen'
     \<and> (\<forall>i \<in> set seen' - set seen. expanded S a rs ids seen' i)"
  "expand_usages n S a paths seen = Some (Inr (ids, seen')) \<Longrightarrow> set paths \<subseteq> set (field_usage rs') \<Longrightarrow>
     paths_seen S a paths seen' \<and> (\<forall>i \<in> set seen' - set seen. expanded S a rs' ids seen' i)"
proof (induction n S a rs seen and n S a paths seen arbitrary: ids seen' and ids seen' rs'
    rule: expand_given_ids_expand_usages.induct)
  case (2 n S a rs seen)
  from 2(2) show ?case
  proof (rule expand_given_ids_Inr)
    fix m below
    assume m: "Suc n = Suc m" "expand_usages m S a (field_usage rs) seen = Some (Inr (below, seen'))"
      and ids: "ids = given_usage rs @ below"
    from m 2(1) [of below seen' rs] have "paths_seen S a (field_usage rs) seen'"
        "\<And>i. i \<in> set seen' - set seen \<Longrightarrow> expanded S a rs below seen' i" by auto
    then show ?thesis using expanded_mono [of S a rs below seen' _ ids seen'] ids by auto
  qed
next
  case (4 n S a path paths seen)
  note seen_below = expand_seen
  from 4(5) show ?case
  proof (cases rule: expand_usages_Cons_Inr)
    case empty
    with 4(1) [OF empty(1,2), of rs'] 4(6) show ?thesis by (auto simp: paths_seen_def)
  next
    case (known t f)
    have "paths_seen S a paths seen' \<and> (\<forall>i \<in> set seen' - set seen. expanded S a rs' ids seen' i)"
      by (rule 4(2) [OF known(1,2) refl known(3,4)]) (use 4(6) in simp)
    moreover have "set seen \<subseteq> set seen'" by (rule expand_seen(2) [OF known(4)])
    ultimately show ?thesis using known(2,3) by (auto simp: paths_seen_def)
  next
    case (new t f here mid rest)
    have own: "reads_field S a rs' t f" by (rule reads_own [OF _ new(1,2)]) (use 4(6) in simp)
    have f: "set (given_usage (refSummary f)) \<subseteq> set here" "paths_seen S t (field_usage (refSummary f)) mid"
        "\<And>i. i \<in> set mid - set (fieldId f # seen) \<Longrightarrow> expanded S t (refSummary f) here mid i"
      using 4(3) [OF new(1,2) refl new(3,4)] by blast+
    have later: "paths_seen S a paths seen'" "\<And>i. i \<in> set seen' - set mid \<Longrightarrow> expanded S a rs' rest seen' i"
      using 4(4) [OF new(1,2) refl new(3,4) refl refl new(5), of rs'] 4(6) by auto
    have up: "set (fieldId f # seen) \<subseteq> set mid" "set mid \<subseteq> set seen'"
      by (rule expand_seen(1) [OF new(4)], rule expand_seen(2) [OF new(5)])
    have "expanded S a rs' ids seen' i" if i: "i \<in> set seen' - set seen" for i
    proof -
      consider "i = fieldId f" | "i \<in> set mid - set (fieldId f # seen)" | "i \<in> set seen' - set mid" using i by auto
      then show ?thesis
      proof cases
        case 1
        have "paths_seen S t (field_usage (refSummary f)) seen'" by (rule paths_seen_mono [OF f(2) up(2)])
        moreover have "set (given_usage (refSummary f)) \<subseteq> set ids" using f(1) new(6) by auto
        ultimately show ?thesis unfolding expanded_def using own 1 by blast
      next
        case 2
        from expanded_mono [OF expanded_lift [OF f(3) [OF 2] own] _ up(2)] new(6) show ?thesis by simp
      next
        case 3
        from expanded_mono [OF later(2) [OF 3]] new(6) show ?thesis by simp
      qed
    qed
    moreover have "paths_seen S a (path # paths) seen'"
      using later(1) new(2) up by (auto simp: paths_seen_def)
    ultimately show ?thesis by blast
  qed
qed (auto simp: paths_seen_def)

text \<open>Nothing is added that is not read.\<close>

lemma expansion_sound:
  "expand_given_ids n S a rs seen = Some (Inr (ids, seen')) \<Longrightarrow> g \<in> set ids \<Longrightarrow> uses_given S a rs g"
  "expand_usages n S a paths seen = Some (Inr (ids, seen')) \<Longrightarrow> g \<in> set ids \<Longrightarrow> set paths \<subseteq> set (field_usage rs') \<Longrightarrow>
     uses_given S a rs' g"
proof (induction n S a rs seen and n S a paths seen arbitrary: ids seen' and ids seen' rs'
    rule: expand_given_ids_expand_usages.induct)
  case (2 n S a rs seen)
  from 2(2) show ?case by (rule expand_given_ids_Inr) (use 2 in \<open>auto simp: uses_given_def\<close>)
next
  case (4 n S a path paths seen)
  from 4(5) show ?case
  proof (cases rule: expand_usages_Cons_Inr)
    case empty
    show ?thesis by (rule 4(1) [OF empty 4(6)]) (use 4(7) in simp)
  next
    case (known t f)
    show ?thesis by (rule 4(2) [OF known(1,2) refl known(3,4) 4(6)]) (use 4(7) in simp)
  next
    case (new t f here mid rest)
    have own: "reads_field S a rs' t f" by (rule reads_own [OF _ new(1,2)]) (use 4(7) in simp)
    show ?thesis
    proof (cases "g \<in> set here")
      case True
      then have "uses_given S t (refSummary f) g" by (rule 4(3) [OF new(1,2) refl new(3,4)])
      then show ?thesis unfolding uses_given_def using own reads_field_lift [OF _ own] by blast
    next
      case False
      with 4(6) new(6) have "g \<in> set rest" by simp
      then show ?thesis using 4(4) [OF new(1,2) refl new(3,4) refl refl new(5)] 4(7) by simp
    qed
  qed
qed auto

lemma given_ids_exact:
  assumes "expandRefSummaryGivenIds S a rs = Inr ids" and "shared_fields_agree S a rs"
  shows "set ids = {g. uses_given S a rs g}"
proof -
  obtain r where r: "expand_given_ids (Suc (length (all_fields S))) S a rs [] = Some r"
    and ends: "r = Inr (fst (projr r), snd (projr r)) \<and> ids = first_seen (fst (projr r))"
    using assms(1) by (auto simp: expandRefSummaryGivenIds_def map_sum_eq_Inr split: option.splits prod.splits)
  then obtain raw seen where fin: "expand_given_ids (Suc (length (all_fields S))) S a rs [] = Some (Inr (raw, seen))"
    and ids: "ids = first_seen raw" by metis
  have known: "set (given_usage rs) \<subseteq> set raw" "paths_seen S a (field_usage rs) seen"
      "\<And>i. i \<in> set seen \<Longrightarrow> expanded S a rs raw seen i"
    using expansion_finished(1) [OF fin] by auto
  have read: "fieldId f \<in> set seen" if "reads_field S a rs t f" for t f
    using that
  proof (induction rule: reads_field.induct)
    case (reads_own path t f)
    with known(2) show ?case by (force simp: paths_seen_def)
  next
    case (reads_through t f path u h)
    obtain t' f' where e: "reads_field S a rs t' f'" "fieldId f' = fieldId f"
        "paths_seen S t' (field_usage (refSummary f')) seen"
      using known(3) [OF reads_through.IH] unfolding expanded_def by blast
    have same: "f' = f" "\<forall>path \<in> set (field_usage (refSummary f')). map_option snd (field_at S t' path) = map_option snd (field_at S t path)"
      using assms(2) e(1,2) reads_through(1) unfolding shared_fields_agree_def by blast+
    with reads_through(2,4) have "map_option snd (field_at S t' path) = Some h" by fastforce
    then obtain y where "field_at S t' path = Some (y, h)" by auto
    with e(3) same(1) reads_through(2,3) show ?case by (force simp: paths_seen_def)
  qed
  have "g \<in> set raw" if "uses_given S a rs g" for g
    using that unfolding uses_given_def
  proof (elim disjE exE conjE)
    fix t f assume f: "reads_field S a rs t f" and g: "g \<in> set (given_usage (refSummary f))"
    obtain t' f' where e: "reads_field S a rs t' f'" "fieldId f' = fieldId f" "set (given_usage (refSummary f')) \<subseteq> set raw"
      using known(3) [OF read [OF f]] unfolding expanded_def by blast
    with assms(2) f have "f' = f" unfolding shared_fields_agree_def by blast
    with e(3) g show ?thesis by blast
  qed (use known(1) in blast)
  with expansion_sound(1) [OF fin] show ?thesis by (auto simp: ids)
qed

text \<open>
  The givens a compiled condition depends on are found exactly, through dimensions defined by
  other dimensions and through joins to any depth, cyclic references included: none is missed, none is
  added, none is listed twice, where a field that two structs share reads the same in both.
\<close>

theorem given_expansion_exact:
  assumes "expandRefSummaryGivenIds S a rs = Inr ids" and "shared_fields_agree S a rs"
  shows "set ids = {g. uses_given S a rs g} \<and> distinct ids"
  using given_ids_exact [OF assms] assms(1)
  by (auto simp: expandRefSummaryGivenIds_def map_sum_eq_Inr split: option.splits prod.splits)

text \<open>What a refused expansion refused: a path that names no field.\<close>

lemma expansion_refusal:
  "expand_given_ids n S a rs seen = Some (Inl p) \<Longrightarrow>
     \<exists>t rs' path. (t = a \<and> rs' = rs \<or> (\<exists>f. reads_field S a rs t f \<and> rs' = refSummary f))
       \<and> path \<in> set (field_usage rs') \<and> field_at S t path = None \<and> p = join ''.'' path"
  "expand_usages n S a paths seen = Some (Inl p) \<Longrightarrow> set paths \<subseteq> set (field_usage rs0) \<Longrightarrow>
     \<exists>t rs' path. (t = a \<and> rs' = rs0 \<or> (\<exists>f. reads_field S a rs0 t f \<and> rs' = refSummary f))
       \<and> path \<in> set (field_usage rs') \<and> field_at S t path = None \<and> p = join ''.'' path"
proof (induction n S a rs seen and n S a paths seen arbitrary: and rs0 rule: expand_given_ids_expand_usages.induct)
  case (2 n S a rs seen)
  from 2(2) have "expand_usages n S a (field_usage rs) seen = Some (Inl p)"
    by (auto simp: map_sum_eq_Inl)
  from 2(1) [OF this, of rs] show ?case by simp
next
  case (4 n S a path paths seen)
  have rest: "set paths \<subseteq> set (field_usage rs0)" and here: "path \<in> set (field_usage rs0)" using 4(6) by auto
  show ?case
  proof (cases "path = []")
    case True
    with 4(5) have "expand_usages n S a paths seen = Some (Inl p)" by simp
    from 4(1) [OF True this rest] show ?thesis .
  next
    case ne: False
    show ?thesis
    proof (cases "field_at S a path")
      case None
      with 4(5) ne here show ?thesis by auto
    next
      case (Some tf)
      obtain t f where tf: "tf = (t, f)" by force
      have own: "reads_field S a rs0 t f" by (rule reads_own [OF here ne]) (simp add: Some tf)
      show ?thesis
      proof (cases "fieldId f \<in> set seen")
        case True
        with 4(5) ne Some tf have "expand_usages n S a paths seen = Some (Inl p)" by simp
        from 4(2) [OF ne Some [unfolded tf] refl True this rest] show ?thesis .
      next
        case new: False
        show ?thesis
        proof (cases "expand_given_ids n S t (refSummary f) (fieldId f # seen)")
          case None
          with 4(5) ne Some tf new show ?thesis by simp
        next
          case nested: (Some r)
          show ?thesis
          proof (cases r)
            case (Inl q)
            with 4(5) ne Some tf new nested have q: "q = p" by simp
            from 4(3) [OF ne Some [unfolded tf] refl new] nested Inl q
            obtain u rs' pth where d: "u = t \<and> rs' = refSummary f \<or> (\<exists>h. reads_field S t (refSummary f) u h \<and> rs' = refSummary h)"
                "pth \<in> set (field_usage rs')" "field_at S u pth = None" "p = join ''.'' pth" by blast
            have "\<exists>h. reads_field S a rs0 u h \<and> rs' = refSummary h"
              using d(1) own reads_field_lift [OF _ own] by blast
            with d(2-4) show ?thesis by blast
          next
            case (Inr q)
            obtain ids mid where q: "q = (ids, mid)" by force
            with 4(5) ne Some tf new nested Inr have "expand_usages n S a paths mid = Some (Inl p)"
              by (auto simp: map_sum_eq_Inl)
            from 4(4) [OF ne Some [unfolded tf] refl new nested Inr q [symmetric] this rest] show ?thesis .
          qed
        qed
      qed
    qed
  qed
qed auto

text \<open>
  A gate on \<open>authorized\<close>, a dimension over \<open>rule\<close>, which reads \<open>ok\<close> of a join; \<open>ok\<close> reads the given
  \<open>G\<close> and itself.
\<close>

definition demo_field :: "nat \<Rightarrow> string \<Rightarrow> nat option \<Rightarrow> string list list \<Rightarrow> string list \<Rightarrow> FieldDef" where
  "demo_field i n j paths givens = \<lparr>fieldId = i, usedAs = n, joined = j,
     refSummary = Some \<lparr>fieldUsage = paths, givenUsage = givens\<rparr>\<rparr>"

definition demo_joined :: sources where
  "demo_joined =
     [(demo_struct ''orders'' ''table'' [])\<lparr>fieldDefs := [demo_field 0 ''authorized'' None [[''rule'']] [],
         demo_field 1 ''rule'' None [[], [''h'', ''ok'']] [], demo_field 2 ''h'' (Some 1) [] [], demo_field 3 ''ok'' None [] [''X'']]\<rparr>,
      (demo_struct ''h'' ''table'' [])\<lparr>fieldDefs := [demo_field 4 ''ok'' None [[''ok'']] [''G'']]\<rparr>]"

definition demo_usage :: "RefSummary option" where
  "demo_usage = Some \<lparr>fieldUsage = [[''authorized'']], givenUsage = []\<rparr>"

lemmas demo_joined_defs = demo_joined_def demo_usage_def demo_struct_def demo_field_def field_usage_def

lemma demo_reads:
  "reads_field demo_joined 0 demo_usage t f \<Longrightarrow>
   (t, f) \<in> {(0, demo_field 0 ''authorized'' None [[''rule'']] []), (0, demo_field 1 ''rule'' None [[], [''h'', ''ok'']] []),
     (1, demo_field 4 ''ok'' None [[''ok'']] [''G''])}"
proof (induction rule: reads_field.induct)
  case (reads_own path t f)
  then show ?case by (auto simp: demo_joined_defs)
next
  case (reads_through t f path u h)
  then show ?case by (auto simp: demo_joined_defs)
qed

lemma demo_joined_agrees: "shared_fields_agree demo_joined 0 demo_usage"
  unfolding shared_fields_agree_def
proof (intro allI impI)
  fix t f u h
  assume "reads_field demo_joined 0 demo_usage t f" "reads_field demo_joined 0 demo_usage u h" "fieldId f = fieldId h"
  from this(3) demo_reads [OF this(1)] demo_reads [OF this(2)]
  show "f = h \<and> (\<forall>path \<in> set (field_usage (refSummary f)).
      map_option snd (field_at demo_joined t path) = map_option snd (field_at demo_joined u path))"
    by (auto simp: demo_field_def)
qed

lemma demo_joined_expands: "expandRefSummaryGivenIds demo_joined 0 demo_usage = Inr [''G'']"
  by code_simp

text \<open>
  \<open>y\<close> reads \<open>x\<close>. The struct 0 shares the object \<open>y\<close> with the struct 1 that it joins, and has an \<open>x\<close> of its
  own: of a condition on \<open>y\<close> and \<open>h.y\<close> the given under the \<open>x\<close> of the join is not found.
\<close>

definition reshaped :: sources where
  "reshaped =
     [(demo_struct ''s'' ''table'' [])\<lparr>fieldDefs := [demo_field 0 ''y'' None [[''x'']] [], demo_field 1 ''x'' None [] [],
         demo_field 2 ''h'' (Some 1) [] []]\<rparr>,
      (demo_struct ''h'' ''table'' [])\<lparr>fieldDefs := [demo_field 0 ''y'' None [[''x'']] [], demo_field 3 ''x'' None [] [''G'']]\<rparr>]"

lemma shared_field_hides_given:
  "expandRefSummaryGivenIds reshaped 0 (Some \<lparr>fieldUsage = [[''y''], [''h'', ''y'']], givenUsage = []\<rparr>) = Inr []
   \<and> uses_given reshaped 0 (Some \<lparr>fieldUsage = [[''y''], [''h'', ''y'']], givenUsage = []\<rparr>) ''G''"
proof
  let ?rs = "Some \<lparr>fieldUsage = [[''y''], [''h'', ''y'']], givenUsage = []\<rparr>"
  show "expandRefSummaryGivenIds reshaped 0 ?rs = Inr []" by code_simp
  note reshaped = reshaped_def demo_struct_def demo_field_def field_usage_def given_usage_def
  have "reads_field reshaped 0 ?rs 1 (demo_field 0 ''y'' None [[''x'']] [])"
    by (rule reads_own [of "[''h'', ''y'']"]) (simp_all add: reshaped)
  then have "reads_field reshaped 0 ?rs 1 (demo_field 3 ''x'' None [] [''G''])"
    by (rule reads_through [of _ _ _ _ _ "[''x'']"]) (simp_all add: reshaped)
  then show "uses_given reshaped 0 ?rs ''G''" unfolding uses_given_def by (force simp: demo_field_def given_usage_def)
qed

lemma given_expansion_exact_witness: "{g. uses_given demo_joined 0 demo_usage g} = {''G''}"
  using given_expansion_exact [OF demo_joined_expands demo_joined_agrees] by simp

subsection \<open>Load-time checks of a condition\<close>

text \<open>
  A compiled expression, as much of it as is read: its kind, its \<open>not\<close> flag, its operand \<open>e\<close> and its
  \<open>kids\<close>.
\<close>

datatype CExpr = CExpr (nodeKind: string) (negated: bool) (operand: "CExpr option") (leftKid: "CExpr option") (rightKid: "CExpr option")

fun isBareFalseLiteral :: "CExpr \<Rightarrow> bool" where
  "isBareFalseLiteral (CExpr k neg None l r) \<longleftrightarrow> k = ''false''"
| "isBareFalseLiteral (CExpr k neg (Some e) l r) \<longleftrightarrow> (if k = ''()'' then isBareFalseLiteral e else k = ''false'')"

fun unwrap_parens :: "CExpr option \<Rightarrow> CExpr option" where
  "unwrap_parens (Some (CExpr k neg e l r)) = (if k = ''()'' then unwrap_parens e else Some (CExpr k neg e l r))"
| "unwrap_parens None = None"

fun containsNegatedMembership :: "CExpr option \<Rightarrow> nat \<Rightarrow> bool" where
  "containsNegatedMembership None depth \<longleftrightarrow> False"
| "containsNegatedMembership (Some (CExpr k neg e l r)) depth \<longleftrightarrow>
     (if depth > 64 then False
      else if k = ''inGiven'' \<and> neg then True
      else if k = ''not'' then
        (case unwrap_parens e of
           Some inner \<Rightarrow> nodeKind inner = ''inGiven'' \<or> containsNegatedMembership e (Suc depth)
         | None \<Rightarrow> containsNegatedMembership e (Suc depth))
      else if k = ''and'' \<or> k = ''or''
        then containsNegatedMembership l (Suc depth) \<or> containsNegatedMembership r (Suc depth)
      else if k = ''()'' then containsNegatedMembership e (Suc depth)
      else False)"

datatype SourceLineGateWarningCause = SourceLineGateNoGivenReference | SourceLineGateNegatedMembership

datatype GivenUsageError = UnresolvedPath string | GivenHasDefault string

text \<open>\<open>validateSourceLineGateGivenUsage\<close>: the error it throws, or the warnings it raises.\<close>

definition validateSourceLineGateGivenUsage ::
  "sources \<Rightarrow> ModelDef \<Rightarrow> nat \<Rightarrow> RefSummary option \<Rightarrow> CExpr option
   \<Rightarrow> GivenUsageError + SourceLineGateWarningCause list" where
  "validateSourceLineGateGivenUsage S md a rs conditionExpr =
     (case expandRefSummaryGivenIds S a rs of
        Inl p \<Rightarrow> Inl (UnresolvedPath p)
      | Inr ids \<Rightarrow>
          (case List.find hasDefault (somes (map (modelGivens md) ids)) of
             Some g \<Rightarrow> Inl (GivenHasDefault (givenName g))
           | None \<Rightarrow> Inr ((if ids = [] then [SourceLineGateNoGivenReference] else [])
               @ (if containsNegatedMembership conditionExpr 0 then [SourceLineGateNegatedMembership] else []))))"

text \<open>
  A gate accepted at load depends on no given with a default, however many dimensions and joins lie
  between; and it is reported as a fixed predicate exactly when it depends on no given at all.
\<close>

theorem accepted_gate_has_no_default:
  assumes "validateSourceLineGateGivenUsage S md a rs conditionExpr = Inr warnings" and "shared_fields_agree S a rs"
  shows "{g. uses_given S a rs g \<and> (\<exists>d. modelGivens md g = Some d \<and> hasDefault d)} = {}
    \<and> (SourceLineGateNoGivenReference \<in> set warnings \<longleftrightarrow> {g. uses_given S a rs g} = {})"
proof

  obtain ids where ids: "expandRefSummaryGivenIds S a rs = Inr ids"
    and none: "List.find hasDefault (somes (map (modelGivens md) ids)) = None"
    and w: "warnings = (if ids = [] then [SourceLineGateNoGivenReference] else [])
       @ (if containsNegatedMembership conditionExpr 0 then [SourceLineGateNegatedMembership] else [])"
    using assms(1) by (auto simp: validateSourceLineGateGivenUsage_def split: sum.splits option.splits)
  note exact = given_ids_exact [OF ids assms(2)]
  show "SourceLineGateNoGivenReference \<in> set warnings \<longleftrightarrow> {g. uses_given S a rs g} = {}"
    unfolding exact [symmetric] w by simp
  have "\<not> hasDefault d" if "g \<in> set ids" "modelGivens md g = Some d" for g d
    using none that by (force simp: find_None_iff set_somes)
  with exact show "{g. uses_given S a rs g \<and> (\<exists>d. modelGivens md g = Some d \<and> hasDefault d)} = {}" by blast
qed

lemma accepted_gate_has_no_default_witness:
  "validateSourceLineGateGivenUsage demo_joined (demo_model\<lparr>modelGivens := [''G'' \<mapsto> \<lparr>givenName = ''GROUPS'', hasDefault = False\<rparr>]\<rparr>)
     0 demo_usage (Some (CExpr ''inGiven'' True None None None)) = Inr [SourceLineGateNegatedMembership]
   \<and> {g. uses_given demo_joined 0 demo_usage g} \<noteq> {}
   \<and> validateSourceLineGateGivenUsage demo_joined (demo_model\<lparr>modelGivens := [''G'' \<mapsto> \<lparr>givenName = ''GROUPS'', hasDefault = True\<rparr>]\<rparr>)
     0 demo_usage None = Inl (GivenHasDefault ''GROUPS'')"
proof (intro conjI)
  show run: "validateSourceLineGateGivenUsage demo_joined (demo_model\<lparr>modelGivens := [''G'' \<mapsto> \<lparr>givenName = ''GROUPS'', hasDefault = False\<rparr>]\<rparr>)
     0 demo_usage (Some (CExpr ''inGiven'' True None None None)) = Inr [SourceLineGateNegatedMembership]"
    by (simp add: validateSourceLineGateGivenUsage_def demo_joined_expands)
  from accepted_gate_has_no_default [OF run demo_joined_agrees]
  show "{g. uses_given demo_joined 0 demo_usage g} \<noteq> {}" by simp
qed (simp add: validateSourceLineGateGivenUsage_def demo_joined_expands)

subsection \<open>The source a gate is grafted onto\<close>

definition findContentsKey :: "sources \<Rightarrow> nat \<Rightarrow> ModelDef \<Rightarrow> string option" where
  "findContentsKey S a md =
     (case List.find (\<lambda>(key, b). b = a) (contents md) of
        Some (key, _) \<Rightarrow> Some key
      | None \<Rightarrow>
          if sourceID (S ! a) = None \<or> sourceID (S ! a) = Some [] then None
          else map_option fst
            (List.find (\<lambda>(key, b). is_source S b \<and> sourceID (S ! b) = sourceID (S ! a)) (contents md)))"

definition findSourceByOwnAnnotationIdentity :: "sources \<Rightarrow> nat \<Rightarrow> ModelDef \<Rightarrow> nat list \<Rightarrow> nat option" where
  "findSourceByOwnAnnotationIdentity S a md exclude =
     (if ownLevelNotes (annotations (S ! a)) = [] then None
      else List.find (\<lambda>b. is_source S b \<and> b \<noteq> a \<and> b \<notin> set exclude
          \<and> (\<exists>n \<in> set (ownLevelNotes (annotations (S ! b))). n \<in> set (ownLevelNotes (annotations (S ! a)))))
        (map snd (contents md)))"

text \<open>A key that the code takes: an empty string is not one.\<close>

definition taken_key :: "string option \<Rightarrow> string option" where
  "taken_key key = (if key = Some [] then None else key)"

definition next_derived :: "sources \<Rightarrow> ModelDef \<Rightarrow> ModelDef \<Rightarrow> nat \<Rightarrow> nat list \<Rightarrow> nat option" where
  "next_derived S origin graft current seen =
     (case resolveDeclaredSource S origin current of
        DeclaredBy b \<Rightarrow> if b \<in> set seen then None else Some b
      | NotDeclared \<Rightarrow> findSourceByOwnAnnotationIdentity S current graft seen
      | Unresolvable \<Rightarrow> None)"

fun graft_walk :: "nat \<Rightarrow> sources \<Rightarrow> ModelDef \<Rightarrow> ModelDef \<Rightarrow> nat \<Rightarrow> nat list \<Rightarrow> string option" where
  "graft_walk 0 S origin graft current seen = None"
| "graft_walk (Suc n) S origin graft current seen =
     (case next_derived S origin graft current seen of
        None \<Rightarrow> None
      | Some b \<Rightarrow> (case taken_key (findContentsKey S b graft) of
            Some key \<Rightarrow> Some key
          | None \<Rightarrow> graft_walk n S origin graft b (b # seen)))"

definition resolveGraftTarget :: "sources \<Rightarrow> nat \<Rightarrow> ModelDef \<Rightarrow> ModelDef \<Rightarrow> string option" where
  "resolveGraftTarget S a origin graft =
     (case taken_key (findContentsKey S a graft) of
        Some key \<Rightarrow> Some key
      | None \<Rightarrow> graft_walk ANCESTOR_WALK_MAX_DEPTH S origin graft a [a])"

subsection \<open>The shape of a gate\<close>

text \<open>
  A lifted condition also has its expression, where it is one, and its reference summary. A graft scope
  compiles probes with its own model, so \<open>materializer\<close> is a parameter of the scope.
\<close>

record FilterCondition = CompiledGateCondition +
  condExpr :: "CExpr option"
  condRefs :: "RefSummary option"

type_synonym materializer = "string \<Rightarrow> string + FilterCondition list option"

record GraftScope =
  scopeModel :: ModelDef
  scopeLoad :: materializer
  cacheScope :: string

definition liftGateCondition :: "string \<Rightarrow> string \<Rightarrow> materializer \<Rightarrow> LiftError + FilterCondition" where
  "liftGateCondition graftTarget filterText load =
     (case load (buildRowLevelProbe graftTarget filterText) of
        Inl e \<Rightarrow> Inl (CompileFailure e)
      | Inr prepared \<Rightarrow> liftProbeFilterCondition prepared filterText)"

datatype Classification = AsRowFilter "string list" | AsRejected RowLevelGateRejectionCause

datatype GateShape =
    RowLevel string string FilterCondition "string list"
  | Rejected "RowLevelGateRejectionCause option"

definition given_names :: "ModelDef \<Rightarrow> string list \<Rightarrow> string list" where
  "given_names md ids = List.filter (\<lambda>n. n \<noteq> []) (map givenName (somes (map (modelGivens md) ids)))"

definition classify_condition :: "sources \<Rightarrow> ModelDef \<Rightarrow> string \<Rightarrow> string \<Rightarrow> FilterCondition \<Rightarrow> Classification" where
  "classify_condition S md graftTarget filterText condition =
     (case condExpr condition of
        None \<Rightarrow> AsRejected UnclassifiableCondition
      | Some e \<Rightarrow>
          if isBareFalseLiteral e then AsRowFilter []
          else case map_of (contents md) graftTarget of
            None \<Rightarrow> AsRejected GivenUsageUnresolvable
          | Some a \<Rightarrow>
              if \<not> is_source S a then AsRejected GivenUsageUnresolvable
              else case expandRefSummaryGivenIds S a (condRefs condition) of
                Inl _ \<Rightarrow> AsRejected GivenUsageUnresolvable
              | Inr ids \<Rightarrow>
                  if length (given_names md ids) \<noteq> length ids
                    \<or> \<not> set (referencedGivenNames filterText) \<subseteq> set (given_names md ids)
                  then AsRejected UnreachableGiven else AsRowFilter (given_names md ids))"

definition on_surface :: "string set \<Rightarrow> Classification \<Rightarrow> Classification" where
  "on_surface declared c =
     (case c of
        AsRowFilter names \<Rightarrow> if set names \<subseteq> declared then c else AsRejected UnreachableGiven
      | AsRejected _ \<Rightarrow> c)"

definition gate_cache_key :: "string \<Rightarrow> string \<Rightarrow> string \<Rightarrow> string" where
  "gate_cache_key scope graftTarget filterText = scope @ CHR 0x00 # graftTarget @ CHR 0x00 # filterText"

type_synonym shape_cache = "string \<Rightarrow> (Classification \<times> FilterCondition) option"

definition gate_shape_of :: "string \<Rightarrow> string \<Rightarrow> Classification \<times> FilterCondition \<Rightarrow> GateShape" where
  "gate_shape_of graftTarget filterText entry =
     (case entry of
        (AsRejected cause, _) \<Rightarrow> Rejected (Some cause)
      | (AsRowFilter names, condition) \<Rightarrow> RowLevel graftTarget filterText condition names)"

definition resolveGateShape ::
  "sources \<Rightarrow> GateEntry \<Rightarrow> ModelDef \<Rightarrow> GraftScope option \<Rightarrow> string set \<Rightarrow> shape_cache \<Rightarrow> GateShape \<times> shape_cache" where
  "resolveGateShape S entry origin graftScope declared cache =
     (case (gateStruct entry, graftScope) of
        (None, _) \<Rightarrow> (Rejected None, cache)
      | (_, None) \<Rightarrow> (Rejected None, cache)
      | (Some a, Some scope) \<Rightarrow>
          (case resolveGraftTarget S a origin (scopeModel scope) of
             None \<Rightarrow> (Rejected None, cache)
           | Some graftTarget \<Rightarrow>
               (let filterText = gateFilterText (gateExprs entry);
                    key = gate_cache_key (cacheScope scope) graftTarget filterText in
                case cache key of
                  Some found \<Rightarrow> (gate_shape_of graftTarget filterText found, cache)
                | None \<Rightarrow>
                    (case liftGateCondition graftTarget filterText (scopeLoad scope) of
                       Inl _ \<Rightarrow> (Rejected None, cache)
                     | Inr condition \<Rightarrow>
                         (let found = (on_surface declared (classify_condition S (scopeModel scope) graftTarget filterText condition),
                                condition) in
                          (gate_shape_of graftTarget filterText found, cache(key \<mapsto> found)))))))"

definition computeGivenDeclaredTypes :: "(string option \<times> string option) list \<Rightarrow> (string \<times> string) list" where
  "computeGivenDeclaredTypes givens = somes (map (\<lambda>(n, t). case (n, t) of (Some n', Some t') \<Rightarrow> Some (n', t') | _ \<Rightarrow> None) givens)"

subsection \<open>The row filters of a partition\<close>

record PartitionGraftEntry =
  partLabel :: string
  partTarget :: string
  partText :: string
  partCondition :: FilterCondition
  partGivens :: "string list"

datatype PartitionGraftError =
    PairsUnreadable PartitionAnnotationRejectionCause | NoGraftScope | NoGraftTarget
  | GivenOffSurface string | PartitionNotLifted LiftError

definition partition_entry ::
  "string \<Rightarrow> string \<Rightarrow> string set \<Rightarrow> materializer \<Rightarrow> PartitionPair \<Rightarrow> PartitionGraftError + PartitionGraftEntry" where
  "partition_entry label graftTarget declared load pair =
     (if given pair \<notin> declared then Inl (GivenOffSurface (given pair))
      else let filterText = column pair @ '' = $'' @ given pair in
        case liftGateCondition graftTarget filterText load of
          Inl e \<Rightarrow> Inl (PartitionNotLifted e)
        | Inr condition \<Rightarrow> Inr \<lparr>partLabel = label, partTarget = graftTarget, partText = filterText,
            partCondition = condition, partGivens = [given pair]\<rparr>)"

definition resolvePartitionGraftEntries ::
  "sources \<Rightarrow> pair_reader \<Rightarrow> nat option \<Rightarrow> ModelDef option \<Rightarrow> GraftScope option \<Rightarrow> string set
   \<Rightarrow> PartitionGraftError + PartitionGraftEntry list" where
  "resolvePartitionGraftEntries S pairsOf struct origin graftScope declared =
     (case (struct, origin) of
        (Some a, Some md) \<Rightarrow>
          (case resolveEntryPointPartitions S md pairsOf (Some a) of
             Inl e \<Rightarrow> Inl (PairsUnreadable e)
           | Inr pairs \<Rightarrow>
               if pairs = [] then Inr []
               else (case graftScope of
                   None \<Rightarrow> Inl NoGraftScope
                 | Some scope \<Rightarrow>
                     (case resolveGraftTarget S a md (scopeModel scope) of
                        None \<Rightarrow> Inl NoGraftTarget
                      | Some graftTarget \<Rightarrow>
                          mapM_r (partition_entry (source_label (S ! a)) graftTarget declared (scopeLoad scope)) pairs)))
      | _ \<Rightarrow> Inr [])"

subsection \<open>The cache is transparent\<close>

lemma contents_key_member: "findContentsKey S a md = Some key \<Longrightarrow> key \<in> fst ` set (contents md)"
  by (force simp: findContentsKey_def find_Some_iff image_iff split: option.splits if_splits dest: nth_mem)

lemma taken_key_Some: "taken_key k = Some key \<Longrightarrow> k = Some key"
  by (simp add: taken_key_def split: if_splits)

lemma graft_walk_member: "graft_walk n S origin graft a seen = Some key \<Longrightarrow> key \<in> fst ` set (contents graft)"
  by (induction n S origin graft a seen rule: graft_walk.induct)
    (auto split: option.splits dest!: taken_key_Some contents_key_member)

lemma graft_target_member: "resolveGraftTarget S a origin graft = Some key \<Longrightarrow> key \<in> fst ` set (contents graft)"
  by (auto simp: resolveGraftTarget_def split: option.splits dest!: taken_key_Some contents_key_member graft_walk_member)

lemma append_sep_inject:
  "c \<notin> set xs \<Longrightarrow> c \<notin> set ys \<Longrightarrow> xs @ c # us = ys @ c # vs \<longleftrightarrow> xs = ys \<and> us = vs"
proof (induction xs arbitrary: ys)
  case Nil
  then show ?case by (cases ys) auto
next
  case (Cons x xs)
  then show ?case by (cases ys) auto
qed

lemma gate_cache_key_inject:
  assumes "CHR 0x00 \<notin> set s" "CHR 0x00 \<notin> set s'" "CHR 0x00 \<notin> set t" "CHR 0x00 \<notin> set t'"
  shows "gate_cache_key s t f = gate_cache_key s' t' f' \<longleftrightarrow> s = s' \<and> t = t' \<and> f = f'"
  using append_sep_inject [OF assms(1,2)] append_sep_inject [OF assms(3,4)] by (simp add: gate_cache_key_def)

text \<open>
  The scopes of one model instance: their names tell them apart, and neither they nor the names of
  their sources hold the separator.
\<close>

definition separated_scopes :: "GraftScope set \<Rightarrow> bool" where
  "separated_scopes scopes \<longleftrightarrow> inj_on cacheScope scopes
     \<and> (\<forall>s \<in> scopes. CHR 0x00 \<notin> set (cacheScope s)
         \<and> (\<forall>key \<in> fst ` set (contents (scopeModel s)). CHR 0x00 \<notin> set key))"

text \<open>What the classification of one target and text is, with no cache.\<close>

definition lifted_shape :: "sources \<Rightarrow> string set \<Rightarrow> GraftScope \<Rightarrow> string \<Rightarrow> string \<Rightarrow> (Classification \<times> FilterCondition) option" where
  "lifted_shape S declared scope graftTarget filterText =
     (case liftGateCondition graftTarget filterText (scopeLoad scope) of
        Inl _ \<Rightarrow> None
      | Inr condition \<Rightarrow>
          Some (on_surface declared (classify_condition S (scopeModel scope) graftTarget filterText condition), condition))"

definition cache_agrees :: "sources \<Rightarrow> string set \<Rightarrow> GraftScope set \<Rightarrow> shape_cache \<Rightarrow> bool" where
  "cache_agrees S declared scopes cache \<longleftrightarrow> (\<forall>scope \<in> scopes. \<forall>graftTarget filterText found.
     CHR 0x00 \<notin> set graftTarget \<longrightarrow> cache (gate_cache_key (cacheScope scope) graftTarget filterText) = Some found
     \<longrightarrow> lifted_shape S declared scope graftTarget filterText = Some found)"

lemma resolveGateShape_cases:
  "resolveGateShape S entry origin graftScope declared cache =
     (case (gateStruct entry, graftScope) of
        (None, _) \<Rightarrow> (Rejected None, cache)
      | (_, None) \<Rightarrow> (Rejected None, cache)
      | (Some a, Some scope) \<Rightarrow>
          (case resolveGraftTarget S a origin (scopeModel scope) of
             None \<Rightarrow> (Rejected None, cache)
           | Some graftTarget \<Rightarrow>
               (let filterText = gateFilterText (gateExprs entry);
                    key = gate_cache_key (cacheScope scope) graftTarget filterText in
                case cache key of
                  Some found \<Rightarrow> (gate_shape_of graftTarget filterText found, cache)
                | None \<Rightarrow>
                    (case lifted_shape S declared scope graftTarget filterText of
                       None \<Rightarrow> (Rejected None, cache)
                     | Some found \<Rightarrow> (gate_shape_of graftTarget filterText found, cache(key \<mapsto> found))))))"
  by (auto simp: resolveGateShape_def lifted_shape_def Let_def split: option.splits sum.splits)

lemma resolveGateShape_transparent:
  assumes scopes: "separated_scopes scopes" and cache: "cache_agrees S declared scopes cache"
    and scope: "\<And>s. graftScope = Some s \<Longrightarrow> s \<in> scopes"
    and run: "resolveGateShape S entry origin graftScope declared cache = (shape, cache')"
  shows "shape = fst (resolveGateShape S entry origin graftScope declared Map.empty)
    \<and> cache_agrees S declared scopes cache'"
proof (cases "gateStruct entry = None \<or> graftScope = None")
  case True
  with run cache show ?thesis by (auto simp: resolveGateShape_cases split: option.splits)
next
  case False
  then obtain a s where a: "gateStruct entry = Some a" "graftScope = Some s" by auto
  with scope have s: "s \<in> scopes" by simp
  show ?thesis
  proof (cases "resolveGraftTarget S a origin (scopeModel s)")
    case None
    with run cache a show ?thesis by (auto simp: resolveGateShape_cases)
  next
    case target: (Some t)
    have sep: "CHR 0x00 \<notin> set t" "CHR 0x00 \<notin> set (cacheScope s)"
      using scopes s graft_target_member [OF target] by (auto simp: separated_scopes_def)
    define f where "f = gateFilterText (gateExprs entry)"
    show ?thesis
    proof (cases "cache (gate_cache_key (cacheScope s) t f)")
      case (Some found)
      with cache s sep have "lifted_shape S declared s t f = Some found" unfolding cache_agrees_def by blast
      with run cache a target Some show ?thesis by (simp add: resolveGateShape_cases f_def [symmetric] Let_def)
    next
      case miss: None
      show ?thesis
      proof (cases "lifted_shape S declared s t f")
        case None
        with run cache a target miss show ?thesis by (simp add: resolveGateShape_cases f_def [symmetric] Let_def)
      next
        case (Some found)
        with run a target miss have r: "shape = gate_shape_of t f found"
            "cache' = cache(gate_cache_key (cacheScope s) t f \<mapsto> found)"
          by (simp_all add: resolveGateShape_cases f_def [symmetric] Let_def)
        have "lifted_shape S declared s' t' f' = Some found'"
          if s': "s' \<in> scopes" and t': "CHR 0x00 \<notin> set t'"
            and hit: "cache' (gate_cache_key (cacheScope s') t' f') = Some found'" for s' t' f' found'
        proof (cases "gate_cache_key (cacheScope s') t' f' = gate_cache_key (cacheScope s) t f")
          case True
          have "CHR 0x00 \<notin> set (cacheScope s')" using scopes s' by (simp add: separated_scopes_def)
          with True gate_cache_key_inject sep t' have eq: "cacheScope s' = cacheScope s" "t' = t" "f' = f" by blast+
          with scopes s s' have "s' = s" by (auto simp: separated_scopes_def dest: inj_onD)
          with eq hit r Some show ?thesis by simp
        next
          case False
          with hit r have "cache (gate_cache_key (cacheScope s') t' f') = Some found'" by simp
          with cache s' t' show ?thesis unfolding cache_agrees_def by blast
        qed
        then have "cache_agrees S declared scopes cache'" unfolding cache_agrees_def by blast
        moreover have "shape = fst (resolveGateShape S entry origin graftScope declared Map.empty)"
          using a target Some r by (simp add: resolveGateShape_cases f_def [symmetric] Let_def)
        ultimately show ?thesis by blast
      qed
    qed
  qed
qed

text \<open>The calls that share one cache, in the order they are made.\<close>

fun resolve_shapes ::
  "sources \<Rightarrow> string set \<Rightarrow> (GateEntry \<times> ModelDef \<times> GraftScope option) list \<Rightarrow> shape_cache \<Rightarrow> GateShape list" where
  "resolve_shapes S declared [] cache = []"
| "resolve_shapes S declared ((entry, origin, scope) # calls) cache =
     (let (shape, cache') = resolveGateShape S entry origin scope declared cache
      in shape # resolve_shapes S declared calls cache')"

text \<open>
  C35: The cache of gate shapes changes no answer: whatever calls share it, in whatever order and over
  whichever scopes, each is answered as if it had classified its gate itself. In particular a gate that
  is refused in one scope is never admitted in another on the strength of a cached classification.
\<close>

theorem gate_cache_transparent:
  assumes "separated_scopes scopes"
    and "\<forall>(entry, origin, scope) \<in> set calls. \<forall>s. scope = Some s \<longrightarrow> s \<in> scopes"
  shows "resolve_shapes S declared calls Map.empty
    = map (\<lambda>(entry, origin, scope). fst (resolveGateShape S entry origin scope declared Map.empty)) calls"
proof -
  have "resolve_shapes S declared calls cache
      = map (\<lambda>(entry, origin, scope). fst (resolveGateShape S entry origin scope declared Map.empty)) calls"
    if "cache_agrees S declared scopes cache" for cache
    using assms(2) that
  proof (induction calls arbitrary: cache)
    case (Cons call calls)
    obtain entry origin scope where call: "call = (entry, origin, scope)" by (cases call) auto
    obtain shape cache' where run: "resolveGateShape S entry origin scope declared cache = (shape, cache')" by force
    have "s \<in> scopes" if "scope = Some s" for s using Cons.prems(1) call that by simp
    from resolveGateShape_transparent [OF assms(1) Cons.prems(2) this run] Cons call run show ?case by simp
  qed simp
  moreover have "cache_agrees S declared scopes Map.empty" by (simp add: cache_agrees_def)
  ultimately show ?thesis by blast
qed

text \<open>Two scopes over \<open>demo_joined\<close>: the second does not declare the given.\<close>

definition demo_gated :: "(string \<Rightarrow> GivenDef option) \<Rightarrow> ModelDef" where
  "demo_gated givens = \<lparr>contents = [(''orders'', 0)], registry = (\<lambda>_. None), modelGivens = givens\<rparr>"

definition demo_condition :: FilterCondition where
  "demo_condition = \<lparr>code = Some ''(authorized)'', isSourceFilter = True,
     condExpr = Some (CExpr ''field'' False None None None), condRefs = demo_usage\<rparr>"

definition demo_load :: materializer where
  "demo_load probe = (if probe = buildRowLevelProbe ''orders'' ''(authorized)'' then Inr (Some [demo_condition]) else Inl ''no field'')"

definition demo_scope :: "string \<Rightarrow> (string \<Rightarrow> GivenDef option) \<Rightarrow> GraftScope" where
  "demo_scope name givens = \<lparr>scopeModel = demo_gated givens, scopeLoad = demo_load, cacheScope = name\<rparr>"

definition demo_givens :: "string \<Rightarrow> GivenDef option" where
  "demo_givens = [''G'' \<mapsto> \<lparr>givenName = ''GROUPS'', hasDefault = False\<rparr>]"

definition demo_entry :: GateEntry where
  "demo_entry = \<lparr>gateLabel = ''orders'', gateExprs = [''authorized''], selfContained = False, gateStruct = Some 0\<rparr>"

lemma demo_separated:
  "separated_scopes {demo_scope ''model'' demo_givens, demo_scope ''cell:2'' Map.empty}"
  by (simp add: separated_scopes_def demo_scope_def demo_gated_def)

lemma demo_shape:
  "fst (resolveGateShape demo_joined demo_entry (demo_gated demo_givens) (Some (demo_scope ''model'' demo_givens)) {''GROUPS''} Map.empty)
   = RowLevel ''orders'' ''(authorized)'' demo_condition [''GROUPS'']"
  by code_simp

lemma gate_cache_transparent_witness:
  "resolve_shapes demo_joined {''GROUPS''}
     [(demo_entry, demo_gated demo_givens, Some (demo_scope ''model'' demo_givens)),
      (demo_entry, demo_gated Map.empty, Some (demo_scope ''cell:2'' Map.empty)),
      (demo_entry, demo_gated demo_givens, Some (demo_scope ''model'' demo_givens))] Map.empty
   = [RowLevel ''orders'' ''(authorized)'' demo_condition [''GROUPS''], Rejected (Some UnreachableGiven),
      RowLevel ''orders'' ''(authorized)'' demo_condition [''GROUPS'']]"
proof -
  have "fst (resolveGateShape demo_joined demo_entry (demo_gated Map.empty) (Some (demo_scope ''cell:2'' Map.empty)) {''GROUPS''} Map.empty)
      = Rejected (Some UnreachableGiven)" by code_simp
  then show ?thesis
    by (subst gate_cache_transparent [OF demo_separated]) (simp_all add: demo_shape)
qed

subsection \<open>An admitted gate\<close>

text \<open>
  A row filter that enforces its gate: it is what the scope's own compiler made of the gate's text on
  the graft target, every given it depends on, through other fields too, is declared to callers, and
  so is every given its text names.
\<close>

definition sound_row_filter ::
  "sources \<Rightarrow> GraftScope \<Rightarrow> string set \<Rightarrow> string \<Rightarrow> string \<Rightarrow> FilterCondition \<Rightarrow> string list \<Rightarrow> bool" where
  "sound_row_filter S scope declared t f cond names \<longleftrightarrow>
     (\<exists>conds. scopeLoad scope (buildRowLevelProbe t f) = Inr (Some (conds @ [cond])))
     \<and> code cond = Some f \<and> isSourceFilter cond \<and> set names \<subseteq> declared
     \<and> ((\<exists>e. condExpr cond = Some e \<and> isBareFalseLiteral e)
        \<or> (\<exists>b. map_of (contents (scopeModel scope)) t = Some b \<and> set (referencedGivenNames f) \<subseteq> set names
            \<and> (\<forall>g. uses_given S b (condRefs cond) g
                \<longrightarrow> (\<exists>d. modelGivens (scopeModel scope) g = Some d \<and> givenName d \<in> set names))))"

lemma liftGateCondition_Inr:
  assumes "liftGateCondition t f load = Inr cond"
  shows "\<exists>conds. load (buildRowLevelProbe t f) = Inr (Some (conds @ [cond]))" and "code cond = Some f" and "isSourceFilter cond"
proof -
  obtain fs where fs: "load (buildRowLevelProbe t f) = Inr (Some fs)" "fs \<noteq> []" "cond = last fs"
      "code (last fs) = Some f" "isSourceFilter (last fs)"
    using assms by (auto simp: liftGateCondition_def liftProbeFilterCondition_def split: sum.splits option.splits if_splits)
  from fs(1-3) show "\<exists>conds. load (buildRowLevelProbe t f) = Inr (Some (conds @ [cond]))"
    by (metis append_butlast_last_id)
  from fs(3-5) show "code cond = Some f" "isSourceFilter cond" by simp_all
qed

lemma length_somes: "length (somes xs) \<le> length xs"
  by (induction xs rule: somes.induct) auto

lemma somes_all: "length (somes xs) = length xs \<Longrightarrow> x \<in> set xs \<Longrightarrow> x \<noteq> None"
proof (induction xs rule: somes.induct)
  case (2 xs)
  then show ?case using length_somes [of xs] by simp
qed auto

lemma given_names_all:
  assumes "length (given_names md ids) = length ids" and "g \<in> set ids"
  shows "\<exists>d. modelGivens md g = Some d \<and> givenName d \<in> set (given_names md ids)"
proof -
  have "length (given_names md ids) \<le> length (somes (map (modelGivens md) ids))"
    unfolding given_names_def by (metis length_filter_le length_map)
  with assms(1) length_somes [of "map (modelGivens md) ids"]
  have full: "length (somes (map (modelGivens md) ids)) = length (map (modelGivens md) ids)"
    "length (given_names md ids) = length (map givenName (somes (map (modelGivens md) ids)))" by simp_all
  have "modelGivens md g \<noteq> None" by (rule somes_all [OF full(1)]) (use assms(2) in simp)
  then obtain d where d: "modelGivens md g = Some d" by auto
  have "d \<in> set (somes (map (modelGivens md) ids))" using d assms(2) by (force simp: set_somes)
  moreover have "\<forall>n \<in> set (map givenName (somes (map (modelGivens md) ids))). n \<noteq> []"
  proof (intro ballI notI)
    fix n assume "n \<in> set (map givenName (somes (map (modelGivens md) ids)))" "n = []"
    from length_filter_less [OF this(1), of "\<lambda>n. n \<noteq> []"] this(2) full(2) show False unfolding given_names_def by simp
  qed
  ultimately have "givenName d \<in> set (given_names md ids)" by (auto simp: given_names_def)
  with d show ?thesis by blast
qed

lemma classify_sound:
  assumes "on_surface declared (classify_condition S (scopeModel scope) t f cond) = AsRowFilter names"
    and "liftGateCondition t f (scopeLoad scope) = Inr cond"
    and agree: "\<And>b. map_of (contents (scopeModel scope)) t = Some b \<Longrightarrow> shared_fields_agree S b (condRefs cond)"
  shows "sound_row_filter S scope declared t f cond names"
proof -
  have c: "classify_condition S (scopeModel scope) t f cond = AsRowFilter names" "set names \<subseteq> declared"
    using assms(1) by (auto simp: on_surface_def split: Classification.splits if_splits)
  have "(\<exists>e. condExpr cond = Some e \<and> isBareFalseLiteral e)
      \<or> (\<exists>b. map_of (contents (scopeModel scope)) t = Some b \<and> set (referencedGivenNames f) \<subseteq> set names
          \<and> (\<forall>g. uses_given S b (condRefs cond) g
              \<longrightarrow> (\<exists>d. modelGivens (scopeModel scope) g = Some d \<and> givenName d \<in> set names)))"
  proof (cases "\<exists>e. condExpr cond = Some e \<and> isBareFalseLiteral e")
    case False
    with c(1) obtain b ids where b: "map_of (contents (scopeModel scope)) t = Some b" "b < length S"
        "expandRefSummaryGivenIds S b (condRefs cond) = Inr ids"
        "length (given_names (scopeModel scope) ids) = length ids"
        "set (referencedGivenNames f) \<subseteq> set (given_names (scopeModel scope) ids)"
        "names = given_names (scopeModel scope) ids"
      by (auto simp: classify_condition_def is_source_def split: option.splits sum.splits if_splits)
    from given_ids_exact [OF b(3) agree [OF b(1)]] given_names_all [OF b(4)] b(1,5,6) show ?thesis by auto
  qed blast
  with c(2) liftGateCondition_Inr [OF assms(2)] show ?thesis unfolding sound_row_filter_def by blast
qed

text \<open>
  C11: A gate that is admitted is enforceable: its row filter is what the grafted model's own compiler
  made of the whole disjunction of the gate on the graft target, as a source filter; every given it
  depends on, directly, through dimensions or through joins, is one callers can bind; every given its
  text names is counted. The only condition exempt is a bare \<open>false\<close>, which admits no row. It is assumed
  of the condition that a field object it reaches in two structs of the target reads the same fields in
  both, since the code follows such an object once (\<open>shared_field_hides_given\<close>).
\<close>

theorem admitted_gate_is_enforceable:
  assumes "fst (resolveGateShape S entry origin graftScope declared Map.empty) = RowLevel t f cond names"
    and "\<And>scope b. graftScope = Some scope \<Longrightarrow> map_of (contents (scopeModel scope)) t = Some b \<Longrightarrow>
      shared_fields_agree S b (condRefs cond)"
  shows "\<exists>a scope. gateStruct entry = Some a \<and> graftScope = Some scope \<and> f = gateFilterText (gateExprs entry)
    \<and> resolveGraftTarget S a origin (scopeModel scope) = Some t \<and> sound_row_filter S scope declared t f cond names"
proof -
  obtain a scope where a: "gateStruct entry = Some a" "graftScope = Some scope"
      "resolveGraftTarget S a origin (scopeModel scope) = Some t" "f = gateFilterText (gateExprs entry)"
    and lift: "liftGateCondition t f (scopeLoad scope) = Inr cond"
    and c: "on_surface declared (classify_condition S (scopeModel scope) t f cond) = AsRowFilter names"
    using assms(1)
    by (auto simp: resolveGateShape_def gate_shape_of_def Let_def split: option.splits sum.splits Classification.splits)
  from classify_sound [OF c lift] assms(2) a show ?thesis by blast
qed

lemma admitted_gate_is_enforceable_witness:
  "\<exists>scope. sound_row_filter demo_joined scope {''GROUPS''} ''orders'' ''(authorized)'' demo_condition [''GROUPS'']
    \<and> scopeLoad scope = demo_load"
proof -
  have agree: "shared_fields_agree demo_joined b (condRefs demo_condition)"
    if "Some (demo_scope ''model'' demo_givens) = Some scope" "map_of (contents (scopeModel scope)) ''orders'' = Some b" for scope b
    using that demo_joined_agrees by (auto simp: demo_scope_def demo_condition_def demo_gated_def)
  obtain scope where "Some (demo_scope ''model'' demo_givens) = Some scope"
      "sound_row_filter demo_joined scope {''GROUPS''} ''orders'' ''(authorized)'' demo_condition [''GROUPS'']"
    using admitted_gate_is_enforceable [OF demo_shape] agree by blast
  then show ?thesis by (auto simp: demo_scope_def)
qed

text \<open>
  How a source is linked to the one its gate is grafted onto: step by step, through what a source is
  declared from, or through a note object two sources share. Names play no part.
\<close>

inductive grafts_from :: "sources \<Rightarrow> ModelDef \<Rightarrow> ModelDef \<Rightarrow> nat \<Rightarrow> nat \<Rightarrow> bool" for S origin graft a where
  grafts_self: "grafts_from S origin graft a a"
| grafts_declared: "grafts_from S origin graft a b \<Longrightarrow> resolveDeclaredSource S origin b = DeclaredBy c \<Longrightarrow> grafts_from S origin graft a c"
| grafts_note: "grafts_from S origin graft a b \<Longrightarrow> n \<in> set (ownLevelNotes (annotations (S ! b))) \<Longrightarrow>
    n \<in> set (ownLevelNotes (annotations (S ! c))) \<Longrightarrow> c \<in> snd ` set (contents graft) \<Longrightarrow> grafts_from S origin graft a c"

definition same_source :: "sources \<Rightarrow> nat \<Rightarrow> nat \<Rightarrow> bool" where
  "same_source S b c \<longleftrightarrow> c = b \<or> sourceID (S ! c) = sourceID (S ! b) \<and> sourceID (S ! b) \<noteq> None"

lemma contents_key_same:
  "findContentsKey S b md = Some key \<Longrightarrow> \<exists>c. (key, c) \<in> set (contents md) \<and> same_source S b c"
  by (force simp: findContentsKey_def same_source_def find_Some_iff split: option.splits if_splits dest: nth_mem)

lemma next_derived_linked:
  assumes "next_derived S origin graft b seen = Some c" and "grafts_from S origin graft a b"
  shows "grafts_from S origin graft a c"
proof (cases "resolveDeclaredSource S origin b")
  case (DeclaredBy d)
  with assms show ?thesis by (auto simp: next_derived_def intro: grafts_declared split: if_splits)
next
  case NotDeclared
  with assms(1) have "findSourceByOwnAnnotationIdentity S b graft seen = Some c" by (simp add: next_derived_def)
  then have "List.find (\<lambda>d. is_source S d \<and> d \<noteq> b \<and> d \<notin> set seen
      \<and> (\<exists>n \<in> set (ownLevelNotes (annotations (S ! d))). n \<in> set (ownLevelNotes (annotations (S ! b)))))
    (map snd (contents graft)) = Some c"
    by (simp add: findSourceByOwnAnnotationIdentity_def split: if_splits)
  then obtain n where "n \<in> set (ownLevelNotes (annotations (S ! c)))" "n \<in> set (ownLevelNotes (annotations (S ! b)))"
      "c \<in> snd ` set (contents graft)"
    by (force simp: find_Some_iff dest: nth_mem)
  with assms(2) show ?thesis by (blast intro: grafts_note)
next
  case Unresolvable
  with assms(1) show ?thesis by (simp add: next_derived_def)
qed

lemma graft_walk_linked:
  "graft_walk n S origin graft b seen = Some key \<Longrightarrow> grafts_from S origin graft a b \<Longrightarrow>
   \<exists>d c. grafts_from S origin graft a d \<and> (key, c) \<in> set (contents graft) \<and> same_source S d c"
proof (induction n S origin graft b seen rule: graft_walk.induct)
  case (2 n S origin graft b seen)
  then obtain d where d: "next_derived S origin graft b seen = Some d" by (auto split: option.splits)
  have linked: "grafts_from S origin graft a d" by (rule next_derived_linked [OF d 2(3)])
  show ?case
  proof (cases "taken_key (findContentsKey S d graft)")
    case None
    with 2 d linked show ?thesis by simp
  next
    case (Some k)
    with 2(2) d have "findContentsKey S d graft = Some key" by (simp add: taken_key_Some)
    from contents_key_same [OF this] linked show ?thesis by blast
  qed
qed simp

text \<open>
  A gate is never grafted by name alone: the target is an entry of the grafted model that is the
  source itself, or a source it comes from by declaration or by a shared note, or has that source's id.
\<close>

theorem graft_target_is_ancestor:
  assumes "resolveGraftTarget S a origin graft = Some key"
  shows "\<exists>b c. grafts_from S origin graft a b \<and> (key, c) \<in> set (contents graft) \<and> same_source S b c"
proof (cases "taken_key (findContentsKey S a graft)")
  case None
  with assms graft_walk_linked [OF _ grafts_self] show ?thesis by (auto simp: resolveGraftTarget_def)
next
  case (Some k)
  with assms have "findContentsKey S a graft = Some key" by (simp add: resolveGraftTarget_def taken_key_Some)
  from contents_key_same [OF this] grafts_self show ?thesis by blast
qed

text \<open>
  Struct 1 is the caller's own \<open>mine is orders extend {}\<close>: the compiler copied the note of struct 0 by
  reference. Struct 2 is another source named \<open>mine\<close>.
\<close>

definition demo_adhoc :: sources where
  "demo_adhoc = [demo_struct ''orders'' ''table'' [demo_note 0 ''A''], demo_struct ''mine'' ''table'' [demo_note 0 ''A''],
     demo_struct ''mine'' ''table'' [demo_note 1 ''A'']]"

lemma graft_target_is_ancestor_witness:
  "resolveGraftTarget demo_adhoc 1 demo_model (demo_model\<lparr>contents := [(''mine'', 2), (''orders'', 0)]\<rparr>) = Some ''orders''
   \<and> (\<exists>b c. grafts_from demo_adhoc demo_model (demo_model\<lparr>contents := [(''mine'', 2), (''orders'', 0)]\<rparr>) 1 b
       \<and> (''orders'', c) \<in> {(''mine'', 2), (''orders'', 0)} \<and> same_source demo_adhoc b c)"
proof -
  have run: "resolveGraftTarget demo_adhoc 1 demo_model (demo_model\<lparr>contents := [(''mine'', 2), (''orders'', 0)]\<rparr>) = Some ''orders''"
    by code_simp
  from graft_target_is_ancestor [OF this] run show ?thesis by simp
qed

text \<open>What one pair of a partition owes: a row filter of its own, lifted on the target of the source.\<close>

definition partition_filter ::
  "string \<Rightarrow> string \<Rightarrow> string set \<Rightarrow> materializer \<Rightarrow> PartitionPair \<Rightarrow> PartitionGraftEntry \<Rightarrow> bool" where
  "partition_filter label t declared load pair e \<longleftrightarrow>
     given pair \<in> declared \<and> partText e = column pair @ '' = $'' @ given pair \<and> partTarget e = t \<and> partLabel e = label
     \<and> partGivens e = [given pair] \<and> code (partCondition e) = Some (partText e) \<and> isSourceFilter (partCondition e)
     \<and> (\<exists>conds. load (buildRowLevelProbe t (partText e)) = Inr (Some (conds @ [partCondition e])))"

text \<open>
  A partition is served whole or not at all: where the entries are resolved, there is one row filter
  for each declared pair, in order, comparing that column with that given, lifted on the source's own
  graft target; where one pair cannot be bound or lifted, nothing is served.
\<close>

theorem partition_filters_exact:
  assumes "resolvePartitionGraftEntries S pairsOf (Some a) (Some md) (Some scope) declared = Inr entries"
  shows "\<exists>pairs. resolveEntryPointPartitions S md pairsOf (Some a) = Inr pairs
    \<and> (pairs = [] \<and> entries = [] \<or> (\<exists>t. resolveGraftTarget S a md (scopeModel scope) = Some t
        \<and> list_all2 (partition_filter (source_label (S ! a)) t declared (scopeLoad scope)) pairs entries))"
proof -
  obtain pairs where pairs: "resolveEntryPointPartitions S md pairsOf (Some a) = Inr pairs"
    using assms by (auto simp: resolvePartitionGraftEntries_def split: sum.splits)
  show ?thesis
  proof (cases "pairs = []")
    case True
    with assms pairs show ?thesis by (auto simp: resolvePartitionGraftEntries_def)
  next
    case False
    with assms pairs obtain t where t: "resolveGraftTarget S a md (scopeModel scope) = Some t"
        "mapM_r (partition_entry (source_label (S ! a)) t declared (scopeLoad scope)) pairs = Inr entries"
      by (auto simp: resolvePartitionGraftEntries_def split: option.splits)
    have "partition_filter (source_label (S ! a)) t declared (scopeLoad scope) p e"
      if "partition_entry (source_label (S ! a)) t declared (scopeLoad scope) p = Inr e" for p e
    proof -
      from that obtain c where "given p \<in> declared"
          and c: "liftGateCondition t (column p @ '' = $'' @ given p) (scopeLoad scope) = Inr c"
          and "e = \<lparr>partLabel = source_label (S ! a), partTarget = t, partText = column p @ '' = $'' @ given p,
            partCondition = c, partGivens = [given p]\<rparr>"
        by (auto simp: partition_entry_def Let_def split: if_splits sum.splits)
      with liftGateCondition_Inr [OF c] show ?thesis by (simp add: partition_filter_def)
    qed
    with t(2) have "list_all2 (partition_filter (source_label (S ! a)) t declared (scopeLoad scope)) pairs entries"
      unfolding mapM_r_Inr by (rule list_all2_mono)
    with pairs t(1) show ?thesis by blast
  qed
qed

definition demo_parted :: sources where
  "demo_parted = [demo_struct ''orders'' ''table'' [demo_note 0 ''P'']]"

definition demo_part_load :: materializer where
  "demo_part_load probe = (if probe = buildRowLevelProbe ''orders'' ''c = $G''
     then Inr (Some [demo_condition\<lparr>code := Some ''c = $G''\<rparr>]) else Inl ''no field'')"

lemma partition_filters_exact_witness:
  "\<exists>entries. list_all2 (partition_filter ''orders'' ''orders'' {''G''} demo_part_load) [\<lparr>column = ''c'', given = ''G''\<rparr>] entries"
proof -
  define scope where "scope = (demo_scope ''model'' demo_givens)\<lparr>scopeLoad := demo_part_load\<rparr>"
  have run: "resolvePartitionGraftEntries demo_parted demo_pairs (Some 0) (Some (demo_gated demo_givens)) (Some scope) {''G''}
    = Inr [\<lparr>partLabel = ''orders'', partTarget = ''orders'', partText = ''c = $G'',
        partCondition = demo_condition\<lparr>code := Some ''c = $G''\<rparr>, partGivens = [''G'']\<rparr>]"
    unfolding scope_def by code_simp
  have pairs: "resolveEntryPointPartitions demo_parted (demo_gated demo_givens) demo_pairs (Some 0) = Inr [\<lparr>column = ''c'', given = ''G''\<rparr>]"
    by code_simp
  have target: "resolveGraftTarget demo_parted 0 (demo_gated demo_givens) (scopeModel scope) = Some ''orders''"
    unfolding scope_def by code_simp
  have label: "source_label (demo_parted ! 0) = ''orders''" by code_simp
  from partition_filters_exact [OF run] show ?thesis
    unfolding label pairs target by (auto simp: scope_def)
qed

text \<open>The expansion of givens ends on every reference graph, cyclic ones included.\<close>

theorem given_expansion_terminates:
  "\<exists>r. expand_given_ids (Suc (length (all_fields S))) S a rs seen = Some r"
proof (rule expand_ends(1))
  have "card (fieldId ` set (all_fields S) - set seen) \<le> card (fieldId ` set (all_fields S))"
    by (rule card_mono) auto
  also have "\<dots> \<le> card (set (all_fields S))" by (rule card_image_le) simp
  also have "\<dots> \<le> length (all_fields S)" by (rule card_length)
  finally show "unseen_fields S seen < Suc (length (all_fields S))" by (simp add: unseen_fields_def)
qed

text \<open>A negation of a disjunction of membership tests, which the scan for negated tests does not report.\<close>

lemma negated_disjunction_unreported:
  "containsNegatedMembership (Some (CExpr ''not'' False (Some (CExpr ''()'' False (Some (CExpr ''or'' False None
     (Some (CExpr ''inGiven'' False None None None)) (Some (CExpr ''inGiven'' False None None None)))) None None)) None None)) 0
   = False"
  by code_simp

end
