(* ===== verification/Grafting.thy ===== *)
theory Grafting
  imports GateShape "HOL-Library.List_Lexorder" "HOL-Library.Char_ord"
begin

text \<open>
  How a row filter is attached to a query (\<open>service/model.ts\<close>: \<open>buildGraftedMaterializer\<close>,
  \<open>graftIntoNamedQuerySnapshots\<close>, \<open>getOrBuildGraftedMaterializer\<close>, \<open>ownScopeQueryDefBinder\<close>,
  \<open>filterListContainsCode\<close>, \<open>assertGateLanded\<close>). Grafting writes only the filter lists of a deep copy
  of the model, so the filter lists are a map from addresses, passed on explicitly; a copy keeps the
  addresses and the sharing of the original. What a model compiles to is a parameter.
\<close>

type_synonym filter_lists = "nat \<Rightarrow> FilterCondition list"

record Graft =
  graftTarget :: string
  graftText :: string
  condition :: FilterCondition

subsection \<open>Writing the filters\<close>

definition has_code :: "filter_lists \<Rightarrow> nat \<Rightarrow> string option \<Rightarrow> bool" where
  "has_code F a c \<longleftrightarrow> (\<exists>f \<in> set (F a). code f = c)"

text \<open>The struct a named query was compiled over, a copy of the source with id \<open>sid\<close>.\<close>

definition query_snapshot :: "sources \<Rightarrow> string \<Rightarrow> string \<Rightarrow> string \<times> nat \<Rightarrow> nat option" where
  "query_snapshot S sid target content =
     (let (key, q) = content in
      if key = target \<or> length S \<le> q \<or> sourceKind (S ! q) \<noteq> ''query'' then None
      else case structRef (S ! q) of
        Some (RefStruct b) \<Rightarrow> if b < length S \<and> sourceID (S ! b) = Some sid then Some b else None
      | _ \<Rightarrow> None)"

definition add_to_snapshot :: "sources \<Rightarrow> string \<Rightarrow> string \<Rightarrow> FilterCondition \<Rightarrow> string \<times> nat \<Rightarrow> filter_lists \<Rightarrow> filter_lists" where
  "add_to_snapshot S sid target cond content F =
     (case query_snapshot S sid target content of
        None \<Rightarrow> F
      | Some b \<Rightarrow> if has_code F b (code cond) then F else F(b := F b @ [cond]))"

definition graftIntoNamedQuerySnapshots ::
  "sources \<Rightarrow> ModelDef \<Rightarrow> string \<Rightarrow> nat \<Rightarrow> FilterCondition \<Rightarrow> filter_lists \<Rightarrow> filter_lists" where
  "graftIntoNamedQuerySnapshots S md target a cond F =
     (case sourceID (S ! a) of
        None \<Rightarrow> F
      | Some sid \<Rightarrow> if sid = [] then F else fold (add_to_snapshot S sid target cond) (contents md) F)"

text \<open>\<open>buildGraftedMaterializer\<close>, up to the loading of the copy: the filters, or the bad target.\<close>

fun graft_all :: "sources \<Rightarrow> ModelDef \<Rightarrow> Graft list \<Rightarrow> filter_lists \<Rightarrow> string + filter_lists" where
  "graft_all S md [] F = Inr F"
| "graft_all S md (g # grafts) F =
     (case map_of (contents md) (graftTarget g) of
        None \<Rightarrow> Inl (graftTarget g)
      | Some a \<Rightarrow>
          if \<not> is_source S a then Inl (graftTarget g)
          else graft_all S md grafts
            (graftIntoNamedQuerySnapshots S md (graftTarget g) a (condition g) (F(a := F a @ [condition g]))))"

record GraftedModel =
  graftedModel :: ModelDef
  graftedFilters :: filter_lists

datatype GraftError = NoRuntime | BadGraftTarget string

definition buildGraftedMaterializer ::
  "sources \<Rightarrow> bool \<Rightarrow> ModelDef \<Rightarrow> filter_lists \<Rightarrow> Graft list \<Rightarrow> GraftError + GraftedModel" where
  "buildGraftedMaterializer S hasRuntime md F grafts =
     (if \<not> hasRuntime then Inl NoRuntime
      else map_sum BadGraftTarget (\<lambda>F'. \<lparr>graftedModel = md, graftedFilters = F'\<rparr>) (graft_all S md grafts F))"

subsection \<open>The cache of grafted models\<close>

definition GRAFTED_MATERIALIZER_CACHE_MAX :: nat where "GRAFTED_MATERIALIZER_CACHE_MAX = 32"

definition graft_key :: "string \<Rightarrow> Graft list \<Rightarrow> string" where
  "graft_key scope grafts =
     scope @ CHR 0x00 # join [CHR 0x01] (sort (map (\<lambda>g. graftTarget g @ CHR 0x00 # graftText g) grafts))"

type_synonym 'm graft_cache = "(string \<times> 'm) list"

text \<open>The cache in the order of its keys, oldest first: a hit moves its key to the end.\<close>

definition getOrBuildGraftedMaterializer ::
  "string \<Rightarrow> (unit \<Rightarrow> 'e + 'm) \<Rightarrow> 'm graft_cache \<Rightarrow> ('e + 'm) \<times> 'm graft_cache" where
  "getOrBuildGraftedMaterializer key build cache =
     (case map_of cache key of
        Some m \<Rightarrow> (Inr m, AList.delete key cache @ [(key, m)])
      | None \<Rightarrow>
          (case build () of
             Inl e \<Rightarrow> (Inl e, cache)
           | Inr m \<Rightarrow> (Inr m, drop (Suc (length cache) - GRAFTED_MATERIALIZER_CACHE_MAX) (cache @ [(key, m)]))))"

subsection \<open>Proving that a filter landed\<close>

text \<open>What a query compiles to: its struct, the branch a composite resolved to, the model, the filters.\<close>

record Prepared =
  preparedRef :: "StructRef option"
  preparedComposite :: "nat option"
  preparedModel :: "ModelDef option"
  preparedFilters :: filter_lists

text \<open>A query to run; \<open>None\<close> is one whose preparation throws.\<close>

type_synonym runnable = "Prepared option"

definition deref :: "ModelDef option \<Rightarrow> StructRef option \<Rightarrow> nat option" where
  "deref md ref =
     (case ref of
        None \<Rightarrow> None
      | Some (RefName n) \<Rightarrow> (case md of None \<Rightarrow> None | Some m \<Rightarrow> map_of (contents m) n)
      | Some (RefStruct b) \<Rightarrow> Some b)"

definition prefer_composite :: "nat option \<Rightarrow> StructRef option \<Rightarrow> StructRef option" where
  "prefer_composite composite ref = (case composite of Some c \<Rightarrow> Some (RefStruct c) | None \<Rightarrow> ref)"

definition MAX_GATE_PROOF_DEPTH :: nat where "MAX_GATE_PROOF_DEPTH = 8"

text \<open>\<open>filterListContainsCode\<close>; the first argument is the number of structs still looked at.\<close>

fun filter_list_contains :: "nat \<Rightarrow> sources \<Rightarrow> ModelDef option \<Rightarrow> filter_lists \<Rightarrow> nat \<Rightarrow> string \<Rightarrow> bool" where
  "filter_list_contains 0 S md F a c \<longleftrightarrow> False"
| "filter_list_contains (Suc n) S md F a c \<longleftrightarrow>
     has_code F a (Some c)
     \<or> (a < length S \<and> sourceKind (S ! a) = ''query_source'' \<and> md \<noteq> None
        \<and> (case deref md (prefer_composite (resolved (S ! a)) (structRef (S ! a))) of
             None \<Rightarrow> False
           | Some b \<Rightarrow> is_source S b \<and> filter_list_contains n S md F b c))"

definition filterListContainsCode :: "sources \<Rightarrow> ModelDef option \<Rightarrow> filter_lists \<Rightarrow> nat option \<Rightarrow> string \<Rightarrow> bool" where
  "filterListContainsCode S md F struct c =
     (case struct of None \<Rightarrow> False | Some a \<Rightarrow> filter_list_contains (Suc MAX_GATE_PROOF_DEPTH) S md F a c)"

definition prepared_model :: "ModelDef option \<Rightarrow> Prepared \<Rightarrow> ModelDef option" where
  "prepared_model own p = (case preparedModel p of Some md \<Rightarrow> Some md | None \<Rightarrow> own)"

definition assertGateLanded :: "sources \<Rightarrow> ModelDef option \<Rightarrow> runnable \<Rightarrow> Graft list \<Rightarrow> bool" where
  "assertGateLanded S own recompiled grafts =
     (case recompiled of
        None \<Rightarrow> False
      | Some p \<Rightarrow>
          (let md = prepared_model own p;
               struct = deref md (prefer_composite (preparedComposite p) (preparedRef p)) in
           list_all (\<lambda>g. case code (condition g) of
               None \<Rightarrow> False
             | Some c \<Rightarrow> c \<noteq> [] \<and> filterListContainsCode S md (preparedFilters p) struct c) grafts))"

subsection \<open>A query whose source is inlined\<close>

text \<open>
  \<open>ownScopeQueryDefBinder\<close>: the query of a notebook cell, over a source of the cell itself. Grafting into
  its own copy of the struct gives the struct, its filters and the codes to be found in it; \<open>None\<close> for the
  struct is a run target that is a name, whose proof is \<open>assertGateLanded\<close>.
\<close>

record OwnScopeBinding =
  ownStruct :: "nat option"
  ownFilters :: filter_lists
  expectedCodes :: "string list"
  appliedGrafts :: "Graft list"

fun graft_own_struct :: "sources \<Rightarrow> GraftScope \<Rightarrow> nat \<Rightarrow> Graft list \<Rightarrow> filter_lists \<Rightarrow> string + filter_lists" where
  "graft_own_struct S scope b [] F = Inr F"
| "graft_own_struct S scope b (g # grafts) F =
     (case map_of (contents (scopeModel scope)) (graftTarget g) of
        None \<Rightarrow> Inl (graftTarget g)
      | Some a \<Rightarrow>
          if \<not> is_source S a \<or> sourceID (S ! a) = None \<or> sourceID (S ! a) = Some [] \<or> sourceID (S ! b) \<noteq> sourceID (S ! a)
          then Inl (graftTarget g)
          else graft_own_struct S scope b grafts
            (if has_code F b (code (condition g)) then F else F(b := F b @ [condition g])))"

definition ownScopeRecompile ::
  "sources \<Rightarrow> GraftScope \<Rightarrow> StructRef option \<Rightarrow> filter_lists \<Rightarrow> Graft list \<Rightarrow> string + OwnScopeBinding" where
  "ownScopeRecompile S scope ref F grafts =
     (case ref of
        None \<Rightarrow> Inl ''own-scope run target is neither a named source nor an inlined struct''
      | Some (RefName _) \<Rightarrow>
          Inr \<lparr>ownStruct = None, ownFilters = F, expectedCodes = [], appliedGrafts = grafts\<rparr>
      | Some (RefStruct b) \<Rightarrow>
          map_sum (\<lambda>t. t)
            (\<lambda>F'. \<lparr>ownStruct = Some b, ownFilters = F',
               expectedCodes = map (\<lambda>g. case code (condition g) of Some c \<Rightarrow> c | None \<Rightarrow> []) grafts, appliedGrafts = grafts\<rparr>)
            (graft_own_struct S scope b grafts F))"

definition ownScopeProve :: "sources \<Rightarrow> ModelDef option \<Rightarrow> OwnScopeBinding \<Rightarrow> runnable \<Rightarrow> bool" where
  "ownScopeProve S own binding recompiled =
     (case ownStruct binding of
        None \<Rightarrow> assertGateLanded S own recompiled (appliedGrafts binding)
      | Some b \<Rightarrow>
          (case recompiled of
             None \<Rightarrow> False
           | Some p \<Rightarrow> preparedRef p = Some (RefStruct b)
               \<and> list_all (\<lambda>c. has_code (ownFilters binding) b (Some c)) (expectedCodes binding)))"

subsection \<open>What grafting changes\<close>

text \<open>The structs one graft is for: its target, and the snapshots of named queries over that source.\<close>

definition touches :: "sources \<Rightarrow> ModelDef \<Rightarrow> string \<Rightarrow> nat \<Rightarrow> bool" where
  "touches S md t b \<longleftrightarrow> (\<exists>a. map_of (contents md) t = Some a
     \<and> (b = a \<or> (\<exists>sid. sourceID (S ! a) = Some sid \<and> sid \<noteq> []
          \<and> (\<exists>content \<in> set (contents md). query_snapshot S sid t content = Some b))))"

definition codes :: "filter_lists \<Rightarrow> nat \<Rightarrow> string option set" where
  "codes F b = code ` set (F b)"

lemma has_code_codes: "has_code F a c \<longleftrightarrow> c \<in> codes F a"
  by (auto simp: has_code_def codes_def)

lemma add_to_snapshot_codes:
  "codes (add_to_snapshot S sid t cond content F) b
     = codes F b \<union> (if query_snapshot S sid t content = Some b then {code cond} else {})"
  by (auto simp: add_to_snapshot_def codes_def has_code_def split: option.splits) (metis imageI)+

lemma add_to_snapshot_prefix: "prefix (F b) (add_to_snapshot S sid t cond content F b)"
  by (simp add: add_to_snapshot_def split: option.splits)

lemma snapshots_codes:
  "codes (fold (add_to_snapshot S sid t cond) cs F) b
     = codes F b \<union> (if \<exists>content \<in> set cs. query_snapshot S sid t content = Some b then {code cond} else {})"
  by (induction cs arbitrary: F) (auto simp: add_to_snapshot_codes)

lemma snapshots_prefix: "prefix (F b) (fold (add_to_snapshot S sid t cond) cs F b)"
proof (induction cs arbitrary: F)
  case (Cons c cs)
  show ?case
    by (simp, rule prefix_order.trans [OF add_to_snapshot_prefix Cons.IH])
qed simp

lemma graft_one_codes:
  assumes "map_of (contents md) t = Some a"
  shows "codes (graftIntoNamedQuerySnapshots S md t a cond (F(a := F a @ [cond]))) b
    = codes F b \<union> (if touches S md t b then {code cond} else {})"
proof -
  define G where "G = F(a := F a @ [cond])"
  have here: "codes G b = codes F b \<union> (if b = a then {code cond} else {})"
    by (auto simp: codes_def G_def)
  show ?thesis
  proof (cases "sourceID (S ! a) = None \<or> sourceID (S ! a) = Some []")
    case True
    then have "graftIntoNamedQuerySnapshots S md t a cond G = G"
      by (auto simp: graftIntoNamedQuerySnapshots_def)
    moreover have "touches S md t b \<longleftrightarrow> b = a" using assms True by (auto simp: touches_def)
    ultimately show ?thesis unfolding G_def [symmetric] by (simp only: here)
  next
    case False
    then obtain sid where sid: "sourceID (S ! a) = Some sid" "sid \<noteq> []" by (cases "sourceID (S ! a)") auto
    then have "codes (graftIntoNamedQuerySnapshots S md t a cond G) b
        = codes G b \<union> (if \<exists>content \<in> set (contents md). query_snapshot S sid t content = Some b then {code cond} else {})"
      by (simp add: graftIntoNamedQuerySnapshots_def snapshots_codes)
    moreover have "touches S md t b \<longleftrightarrow> b = a \<or> (\<exists>content \<in> set (contents md). query_snapshot S sid t content = Some b)"
      using assms sid by (simp add: touches_def)
    ultimately show ?thesis unfolding G_def [symmetric] using here by (cases "b = a") simp_all
  qed
qed

lemma graft_one_prefix: "prefix (F b) (graftIntoNamedQuerySnapshots S md t a cond (F(a := F a @ [cond])) b)"
proof -
  define G where "G = F(a := F a @ [cond])"
  have "prefix (F b) (G b)" by (simp add: G_def)
  moreover have "prefix (G b) (graftIntoNamedQuerySnapshots S md t a cond G b)"
    by (simp add: graftIntoNamedQuerySnapshots_def snapshots_prefix split: option.splits)
  ultimately show ?thesis unfolding G_def by (rule prefix_order.trans)
qed

lemma graft_all_codes:
  "graft_all S md grafts F = Inr F' \<Longrightarrow>
   codes F' b = codes F b \<union> {code (condition g) |g. g \<in> set grafts \<and> touches S md (graftTarget g) b}"
proof (induction grafts arbitrary: F)
  case (Cons g grafts)
  from Cons.prems obtain a where a: "map_of (contents md) (graftTarget g) = Some a"
    and rest: "graft_all S md grafts
      (graftIntoNamedQuerySnapshots S md (graftTarget g) a (condition g) (F(a := F a @ [condition g]))) = Inr F'"
    by (auto split: option.splits if_splits)
  show ?case unfolding Cons.IH [OF rest] graft_one_codes [OF a] by auto
qed simp

lemma graft_all_prefix: "graft_all S md grafts F = Inr F' \<Longrightarrow> prefix (F b) (F' b)"
proof (induction grafts arbitrary: F)
  case (Cons g grafts)
  from Cons.prems obtain a where
    "graft_all S md grafts
      (graftIntoNamedQuerySnapshots S md (graftTarget g) a (condition g) (F(a := F a @ [condition g]))) = Inr F'"
    by (auto split: option.splits if_splits)
  from Cons.IH [OF this] show ?case by (rule prefix_order.trans [OF graft_one_prefix])
qed simp

lemma graft_all_targets:
  "graft_all S md grafts F = Inr F' \<Longrightarrow> g \<in> set grafts \<Longrightarrow>
   \<exists>a. map_of (contents md) (graftTarget g) = Some a \<and> is_source S a"
proof (induction grafts arbitrary: F)
  case (Cons h grafts)
  show ?case
  proof (cases "g = h")
    case True
    with Cons.prems(1) show ?thesis by (auto split: option.splits if_splits)
  next
    case False
    with Cons.prems have "g \<in> set grafts" by simp
    from Cons.IH [OF _ this] Cons.prems(1) show ?thesis by (auto split: option.splits if_splits)
  qed
qed simp

text \<open>
  Grafting puts every condition where its source is read and nowhere else: on the target and on the
  copies of it that named queries were compiled over, under the same code; every other struct keeps its
  filters, and no filter that was there is lost or moved.
\<close>

theorem grafting_exact:
  assumes "buildGraftedMaterializer S hasRuntime md F grafts = Inr m"
  shows "prefix (F b) (graftedFilters m b)
    \<and> code ` set (graftedFilters m b)
      = code ` set (F b) \<union> {code (condition g) |g. g \<in> set grafts \<and> touches S md (graftTarget g) b}"
proof -
  obtain F' where F': "graft_all S md grafts F = Inr F'" "m = \<lparr>graftedModel = md, graftedFilters = F'\<rparr>"
    using assms by (auto simp: buildGraftedMaterializer_def map_sum_eq_Inr split: if_splits)
  from graft_all_prefix [OF F'(1)] graft_all_codes [OF F'(1)] show ?thesis
    unfolding F'(2) codes_def by simp
qed

text \<open>
  Struct 1 is the named query \<open>top\<close>, compiled over its own copy of \<open>orders\<close>, struct 2, which already has
  a filter.
\<close>

definition demo_queries :: sources where
  "demo_queries = [(demo_struct ''orders'' ''table'' [])\<lparr>sourceID := Some ''o''\<rparr>,
     (demo_struct ''top'' ''query'' [])\<lparr>isSource := False, structRef := Some (RefStruct 2)\<rparr>,
     (demo_struct ''orders'' ''table'' [])\<lparr>sourceID := Some ''o''\<rparr>]"

definition demo_queries_model :: ModelDef where
  "demo_queries_model = \<lparr>contents = [(''orders'', 0), (''top'', 1)], registry = (\<lambda>_. None), modelGivens = (\<lambda>_. None)\<rparr>"

definition demo_graft :: Graft where
  "demo_graft = \<lparr>graftTarget = ''orders'', graftText = ''(authorized)'', condition = demo_condition\<rparr>"

definition demo_filters :: filter_lists where
  "demo_filters = (\<lambda>_. [])(2 := [demo_condition\<lparr>code := Some ''region = 1''\<rparr>])"

lemma grafting_exact_witness:
  "\<exists>m. buildGraftedMaterializer demo_queries True demo_queries_model demo_filters [demo_graft] = Inr m
     \<and> {Some ''region = 1'', Some ''(authorized)''} \<subseteq> code ` set (graftedFilters m 2)
     \<and> prefix (demo_filters 2) (graftedFilters m 2)"
proof -
  obtain m where m: "buildGraftedMaterializer demo_queries True demo_queries_model demo_filters [demo_graft] = Inr m"
    by (simp add: buildGraftedMaterializer_def demo_graft_def demo_queries_model_def is_source_def demo_queries_def demo_struct_def)
  have "touches demo_queries demo_queries_model ''orders'' 2" unfolding touches_def
    by (intro exI [of _ 0]) (simp add: demo_queries_def demo_queries_model_def demo_struct_def query_snapshot_def)
  with grafting_exact [OF m, of 2] m show ?thesis
    by (auto simp: demo_graft_def demo_condition_def demo_filters_def)
qed

subsection \<open>The cache of grafted models is bounded and transparent\<close>

lemma getOrBuild_books:
  assumes "getOrBuildGraftedMaterializer key build cache = (r, cache')"
    and "distinct (map fst cache)" and "length cache \<le> GRAFTED_MATERIALIZER_CACHE_MAX"
  shows "distinct (map fst cache') \<and> length cache' \<le> GRAFTED_MATERIALIZER_CACHE_MAX
    \<and> (\<forall>m. r = Inr m \<longrightarrow> cache' \<noteq> [] \<and> last cache' = (key, m))
    \<and> set cache' \<subseteq> set cache \<union> {(key, m) |m. map_of cache key = None \<and> build () = Inr m \<or> map_of cache key = Some m}"
proof (cases "map_of cache key")
  case (Some m)
  with assms(1) have r: "r = Inr m" "cache' = AList.delete key cache @ [(key, m)]"
    by (simp_all add: getOrBuildGraftedMaterializer_def)
  have d: "distinct (map fst (AList.delete key cache))" by (rule distinct_delete [OF assms(2)])
  have k: "key \<notin> fst ` set (AList.delete key cache)" by (auto simp: AList.delete_eq)
  have "length (AList.delete key cache) < length cache"
    using Some unfolding AList.delete_eq by (auto dest!: map_of_SomeD intro!: length_filter_less)
  moreover have "set (AList.delete key cache) \<subseteq> set cache" by (auto simp: AList.delete_eq)
  ultimately show ?thesis using r d k assms(3) Some by auto
next
  case miss: None
  show ?thesis
  proof (cases "build ()")
    case (Inl e)
    with miss assms show ?thesis by (auto simp: getOrBuildGraftedMaterializer_def)
  next
    case (Inr m)
    define n where "n = Suc (length cache) - GRAFTED_MATERIALIZER_CACHE_MAX"
    have r: "r = Inr m" "cache' = drop n (cache @ [(key, m)])"
      using assms(1) miss Inr by (simp_all add: getOrBuildGraftedMaterializer_def n_def)
    have le: "n \<le> length cache" using assms(3) by (simp add: n_def GRAFTED_MATERIALIZER_CACHE_MAX_def)
    have "distinct (map fst (cache @ [(key, m)]))" using assms(2) miss by (auto simp: map_of_eq_None_iff)
    then have "distinct (map fst cache')" unfolding r(2) drop_map [symmetric] by (rule distinct_drop)
    moreover have "length cache' \<le> GRAFTED_MATERIALIZER_CACHE_MAX" by (simp add: r(2) n_def)
    moreover have "set cache' \<subseteq> set cache \<union> {(key, m)}"
      using set_drop_subset [of n "cache @ [(key, m)]"] r(2) by auto
    ultimately show ?thesis using r le miss Inr by auto
  qed
qed

text \<open>The grafted models served, one request after another, over one cache.\<close>

fun serve_grafts ::
  "sources \<Rightarrow> bool \<Rightarrow> (GraftScope \<Rightarrow> filter_lists) \<Rightarrow> (GraftScope \<times> Graft list) list \<Rightarrow> GraftedModel graft_cache
   \<Rightarrow> (GraftError + GraftedModel) list \<times> GraftedModel graft_cache" where
  "serve_grafts S hasRuntime filtersOf [] cache = ([], cache)"
| "serve_grafts S hasRuntime filtersOf ((scope, grafts) # requests) cache =
     (let (r, cache') = getOrBuildGraftedMaterializer (graft_key (cacheScope scope) grafts)
            (\<lambda>_. buildGraftedMaterializer S hasRuntime (scopeModel scope) (filtersOf scope) grafts) cache;
          (rs, final) = serve_grafts S hasRuntime filtersOf requests cache'
      in (r # rs, final))"

text \<open>
  The cache of grafted models holds at most 32 models, one per key, whatever requests are served;
  a model that was just served is the last to be evicted.
\<close>

theorem graft_cache_bounded:
  assumes "serve_grafts S hasRuntime filtersOf requests [] = (answers, cache)"
  shows "length cache \<le> 32 \<and> distinct (map fst cache)
    \<and> (\<forall>m. requests \<noteq> [] \<longrightarrow> last answers = Inr m \<longrightarrow>
        last cache = (graft_key (cacheScope (fst (last requests))) (snd (last requests)), m))"
proof -
  have "distinct (map fst c') \<and> length c' \<le> GRAFTED_MATERIALIZER_CACHE_MAX \<and> (as = [] \<longleftrightarrow> reqs = [])
      \<and> (\<forall>m. reqs \<noteq> [] \<longrightarrow> last as = Inr m \<longrightarrow> last c' = (graft_key (cacheScope (fst (last reqs))) (snd (last reqs)), m))"
    if "serve_grafts S hasRuntime filtersOf reqs c = (as, c')"
      "distinct (map fst c)" "length c \<le> GRAFTED_MATERIALIZER_CACHE_MAX" for reqs c as c'
    using that
  proof (induction reqs arbitrary: c as c')
    case (Cons req reqs)
    obtain scope grafts where req: "req = (scope, grafts)" by force
    obtain r c1 where one: "getOrBuildGraftedMaterializer (graft_key (cacheScope scope) grafts)
        (\<lambda>_. buildGraftedMaterializer S hasRuntime (scopeModel scope) (filtersOf scope) grafts) c = (r, c1)" by force
    obtain rs where rest: "serve_grafts S hasRuntime filtersOf reqs c1 = (rs, c')" and as: "as = r # rs"
      using Cons.prems(1) req one by (auto split: prod.splits)
    note books = getOrBuild_books [OF one Cons.prems(2,3)]
    from Cons.IH [OF rest] books have ih: "distinct (map fst c') \<and> length c' \<le> GRAFTED_MATERIALIZER_CACHE_MAX
        \<and> (rs = [] \<longleftrightarrow> reqs = []) \<and> (\<forall>m. reqs \<noteq> [] \<longrightarrow> last rs = Inr m \<longrightarrow>
          last c' = (graft_key (cacheScope (fst (last reqs))) (snd (last reqs)), m))" by blast
    show ?case
    proof (cases "reqs = []")
      case True
      with rest books ih req as show ?thesis by simp
    next
      case False
      with ih req as show ?thesis by simp
    qed
  qed simp
  from this [OF assms] show ?thesis by (simp add: GRAFTED_MATERIALIZER_CACHE_MAX_def)
qed

text \<open>
  A request as the gates make it: of a known scope, each condition what that scope's model compiled from
  the target and the text, neither of which holds a separator.
\<close>

definition plain_name :: "string \<Rightarrow> bool" where
  "plain_name n \<longleftrightarrow> CHR 0x00 \<notin> set n \<and> CHR 0x01 \<notin> set n"

definition lifted_request :: "GraftScope set \<Rightarrow> GraftScope \<times> Graft list \<Rightarrow> bool" where
  "lifted_request scopes request \<longleftrightarrow> (let (scope, grafts) = request in scope \<in> scopes
     \<and> (\<forall>g \<in> set grafts. plain_name (graftTarget g) \<and> plain_name (graftText g)
         \<and> liftGateCondition (graftTarget g) (graftText g) (scopeLoad scope) = Inr (condition g)))"

lemma join_inject:
  assumes "join [c] xs = join [c] ys" and "\<forall>x \<in> set xs \<union> set ys. c \<notin> set x \<and> x \<noteq> []"
  shows "xs = ys"
proof (cases "xs = [] \<or> ys = []")
  case True
  then show ?thesis
  proof
    assume "xs = []"
    with assms show ?thesis by (cases ys rule: remdups_adj.cases) auto
  next
    assume "ys = []"
    with assms show ?thesis by (cases xs rule: remdups_adj.cases) auto
  qed
next
  case False
  then have xs: "split_on c (join [c] xs) = xs" and ys: "split_on c (join [c] ys) = ys"
    using assms(2) by (auto intro!: split_on_join)
  from arg_cong [OF assms(1), of "split_on c"] show ?thesis unfolding xs ys .
qed

lemma graft_key_grafts:
  assumes "graft_key (cacheScope s) gs = graft_key (cacheScope s') gs'"
    and "lifted_request scopes (s, gs)" and "lifted_request scopes (s', gs')" and "separated_scopes scopes"
  shows "s = s'" and "set gs = set gs'"
proof -
  let ?part = "\<lambda>g. graftTarget g @ CHR 0x00 # graftText g"
  have nul: "CHR 0x00 \<notin> set (cacheScope s)" "CHR 0x00 \<notin> set (cacheScope s')"
    using assms(2-4) by (auto simp: lifted_request_def separated_scopes_def)
  from assms(1) have scope: "cacheScope s = cacheScope s'"
    and parts: "join [CHR 0x01] (sort (map ?part gs)) = join [CHR 0x01] (sort (map ?part gs'))"
    by (simp_all only: graft_key_def append_sep_inject [OF nul])
  have "inj_on cacheScope scopes" "s \<in> scopes" "s' \<in> scopes"
    using assms(2-4) by (simp_all add: lifted_request_def separated_scopes_def)
  with scope show s: "s = s'" by (blast dest: inj_onD)
  have "\<forall>x \<in> set (sort (map ?part gs)) \<union> set (sort (map ?part gs')). CHR 0x01 \<notin> set x \<and> x \<noteq> []"
    using assms(2,3) by (auto simp: lifted_request_def plain_name_def)
  from arg_cong [OF join_inject [OF parts this], of set] have same: "?part ` set gs = ?part ` set gs'" by simp
  have "g = h" if "g \<in> set gs \<union> set gs'" "h \<in> set gs \<union> set gs'" "?part g = ?part h" for g h
  proof -
    have plain: "plain_name (graftTarget g)" "plain_name (graftTarget h)"
      and lift: "liftGateCondition (graftTarget g) (graftText g) (scopeLoad s) = Inr (condition g)"
        "liftGateCondition (graftTarget h) (graftText h) (scopeLoad s) = Inr (condition h)"
      using assms(2,3) that(1,2) s by (auto simp: lifted_request_def)
    have nul': "CHR 0x00 \<notin> set (graftTarget g)" "CHR 0x00 \<notin> set (graftTarget h)"
      using plain by (simp_all add: plain_name_def)
    from that(3) have "graftTarget g = graftTarget h" "graftText g = graftText h"
      by (simp_all add: append_sep_inject [OF nul'])
    with lift show "g = h" by (intro Graft.equality) auto
  qed
  then have "inj_on ?part (set gs \<union> set gs')" by (auto intro: inj_onI)
  with same show "set gs = set gs'" by (metis inj_on_image_eq_iff sup_ge1 sup_ge2)
qed

text \<open>Two models grafted alike: over one model, with the same conditions on every struct.\<close>

definition grafted_alike :: "GraftError + GraftedModel \<Rightarrow> GraftError + GraftedModel \<Rightarrow> bool" where
  "grafted_alike r r' \<longleftrightarrow> r = r' \<or> (\<exists>m m'. r = Inr m \<and> r' = Inr m' \<and> graftedModel m = graftedModel m'
     \<and> (\<forall>b. codes (graftedFilters m) b = codes (graftedFilters m') b))"

lemma graft_all_ok:
  "(\<forall>g \<in> set grafts. \<exists>a. map_of (contents md) (graftTarget g) = Some a \<and> is_source S a) \<Longrightarrow>
   \<exists>F'. graft_all S md grafts F = Inr F'"
  by (induction grafts arbitrary: F) force+

lemma built_alike:
  assumes "buildGraftedMaterializer S rt md F gs = Inr m" and "set gs = set gs'"
  shows "grafted_alike (Inr m) (buildGraftedMaterializer S rt md F gs')"
proof -
  obtain G where G: "rt" "graft_all S md gs F = Inr G" "m = \<lparr>graftedModel = md, graftedFilters = G\<rparr>"
    using assms(1) by (auto simp: buildGraftedMaterializer_def map_sum_eq_Inr split: if_splits)
  have "\<forall>g \<in> set gs'. \<exists>a. map_of (contents md) (graftTarget g) = Some a \<and> is_source S a"
    using graft_all_targets [OF G(2)] assms(2) by auto
  then obtain G' where G': "graft_all S md gs' F = Inr G'" using graft_all_ok by blast
  have "codes G b = codes G' b" for b
    using graft_all_codes [OF G(2), of b] graft_all_codes [OF G', of b] assms(2) by simp
  then have "grafted_alike (Inr m) (Inr \<lparr>graftedModel = md, graftedFilters = G'\<rparr>)"
    unfolding grafted_alike_def G(3) by simp
  moreover have "buildGraftedMaterializer S rt md F gs' = Inr \<lparr>graftedModel = md, graftedFilters = G'\<rparr>"
    using G(1) G' by (simp add: buildGraftedMaterializer_def)
  ultimately show ?thesis by simp
qed

definition honest_cache ::
  "sources \<Rightarrow> bool \<Rightarrow> (GraftScope \<Rightarrow> filter_lists) \<Rightarrow> GraftScope set \<Rightarrow> GraftedModel graft_cache \<Rightarrow> bool" where
  "honest_cache S rt filtersOf scopes cache \<longleftrightarrow> (\<forall>(key, m) \<in> set cache. \<exists>s gs. lifted_request scopes (s, gs)
     \<and> key = graft_key (cacheScope s) gs \<and> buildGraftedMaterializer S rt (scopeModel s) (filtersOf s) gs = Inr m)"

lemma one_graft_served:
  assumes "getOrBuildGraftedMaterializer (graft_key (cacheScope s) gs)
      (\<lambda>_. buildGraftedMaterializer S rt (scopeModel s) (filtersOf s) gs) cache = (r, cache')"
    and "honest_cache S rt filtersOf scopes cache" and "lifted_request scopes (s, gs)" and "separated_scopes scopes"
  shows "grafted_alike r (buildGraftedMaterializer S rt (scopeModel s) (filtersOf s) gs)"
proof (cases "map_of cache (graft_key (cacheScope s) gs)")
  case None
  with assms(1) show ?thesis
    by (auto simp: getOrBuildGraftedMaterializer_def grafted_alike_def split: sum.splits)
next
  case (Some m)
  with assms(1) have r: "r = Inr m" by (simp add: getOrBuildGraftedMaterializer_def)
  from map_of_SomeD [OF Some] assms(2) obtain s' gs' where built: "lifted_request scopes (s', gs')"
      "graft_key (cacheScope s) gs = graft_key (cacheScope s') gs'"
      "buildGraftedMaterializer S rt (scopeModel s') (filtersOf s') gs' = Inr m"
    unfolding honest_cache_def by fastforce
  note same = graft_key_grafts [OF built(2) assms(3) built(1) assms(4)]
  from built(3) have "buildGraftedMaterializer S rt (scopeModel s) (filtersOf s) gs' = Inr m" by (simp add: same(1))
  from built_alike [OF this same(2) [symmetric]] show ?thesis unfolding r .
qed

lemma honest_cache_step:
  assumes "getOrBuildGraftedMaterializer (graft_key (cacheScope s) gs)
      (\<lambda>_. buildGraftedMaterializer S rt (scopeModel s) (filtersOf s) gs) cache = (r, cache')"
    and "honest_cache S rt filtersOf scopes cache" and "lifted_request scopes (s, gs)"
    and "distinct (map fst cache)" and "length cache \<le> GRAFTED_MATERIALIZER_CACHE_MAX"
  shows "honest_cache S rt filtersOf scopes cache'"
  unfolding honest_cache_def
proof (intro ballI, clarify)
  fix key m assume "(key, m) \<in> set cache'"
  with getOrBuild_books [OF assms(1,4,5)] consider "(key, m) \<in> set cache"
    | "key = graft_key (cacheScope s) gs" "buildGraftedMaterializer S rt (scopeModel s) (filtersOf s) gs = Inr m"
    by (auto dest: map_of_SomeD)
  then show "\<exists>s gs. lifted_request scopes (s, gs) \<and> key = graft_key (cacheScope s) gs
      \<and> buildGraftedMaterializer S rt (scopeModel s) (filtersOf s) gs = Inr m"
  proof cases
    case 1
    with assms(2) show ?thesis unfolding honest_cache_def by fastforce
  next
    case 2
    with assms(3) show ?thesis by blast
  qed
qed

text \<open>
  C40: A cached grafted model is the model a request would have got: whatever requests share the cache,
  in whatever order, and whatever has been evicted, each is served a model over its own scope in which
  every struct has exactly the conditions that grafting its own gates puts there.
\<close>

theorem graft_cache_transparent:
  assumes "separated_scopes scopes" and "list_all (lifted_request scopes) requests"
  shows "list_all2 grafted_alike (fst (serve_grafts S rt filtersOf requests []))
    (map (\<lambda>(s, gs). buildGraftedMaterializer S rt (scopeModel s) (filtersOf s) gs) requests)"
proof -
  have "list_all2 grafted_alike (fst (serve_grafts S rt filtersOf requests cache))
      (map (\<lambda>(s, gs). buildGraftedMaterializer S rt (scopeModel s) (filtersOf s) gs) requests)"
    if "honest_cache S rt filtersOf scopes cache" "distinct (map fst cache)"
      "length cache \<le> GRAFTED_MATERIALIZER_CACHE_MAX" for cache
    using assms(2) that
  proof (induction requests arbitrary: cache)
    case (Cons req requests)
    obtain s gs where req: "req = (s, gs)" by force
    obtain r cache' where one: "getOrBuildGraftedMaterializer (graft_key (cacheScope s) gs)
      (\<lambda>_. buildGraftedMaterializer S rt (scopeModel s) (filtersOf s) gs) cache = (r, cache')" by force
    have lifted: "lifted_request scopes (s, gs)" using Cons.prems(1) req by simp
    have next_ok: "honest_cache S rt filtersOf scopes cache'" "distinct (map fst cache')"
        "length cache' \<le> GRAFTED_MATERIALIZER_CACHE_MAX"
      using honest_cache_step [OF one Cons.prems(2) lifted Cons.prems(3,4)] getOrBuild_books [OF one Cons.prems(3,4)] by auto
    from one_graft_served [OF one Cons.prems(2) lifted assms(1)] Cons.IH [OF _ next_ok] Cons.prems(1)
    show ?case by (simp add: req one split_def Let_def)
  qed simp
  from this [of "[]"] show ?thesis by (simp add: honest_cache_def)
qed

lemma demo_graft_lifted:
  "lifted_request {demo_scope ''model'' demo_givens} (demo_scope ''model'' demo_givens, [demo_graft])"
proof -
  have "liftGateCondition ''orders'' ''(authorized)'' demo_load = Inr demo_condition" by code_simp
  then show ?thesis by (simp add: lifted_request_def demo_graft_def demo_scope_def plain_name_def)
qed

lemma demo_one_separated: "separated_scopes {demo_scope ''model'' demo_givens}"
  by (simp add: separated_scopes_def demo_scope_def demo_gated_def)

lemma graft_cache_transparent_witness:
  "\<exists>r r'. fst (serve_grafts demo_joined True (\<lambda>_ _. []) [(demo_scope ''model'' demo_givens, [demo_graft]),
       (demo_scope ''model'' demo_givens, [demo_graft])] []) = [r, r']
     \<and> grafted_alike r' (buildGraftedMaterializer demo_joined True (demo_gated demo_givens) (\<lambda>_. []) [demo_graft])"
proof -
  have "list_all (lifted_request {demo_scope ''model'' demo_givens})
      [(demo_scope ''model'' demo_givens, [demo_graft]), (demo_scope ''model'' demo_givens, [demo_graft])]"
    by (simp add: demo_graft_lifted)
  from graft_cache_transparent [OF demo_one_separated this, of demo_joined True "\<lambda>_ _. []"]
  show ?thesis by (auto simp: list_all2_Cons2 demo_scope_def)
qed

lemma graft_cache_bounded_witness:
  "length (snd (serve_grafts demo_joined True (\<lambda>_ _. []) [(demo_scope ''model'' demo_givens, [demo_graft])] [])) \<le> 32"
  using graft_cache_bounded [OF surjective_pairing] by blast

subsection \<open>The proof that a filter landed is sound\<close>

text \<open>What a struct is compiled from: the base of a query source, its resolved branch before its name.\<close>

inductive compiled_from :: "sources \<Rightarrow> ModelDef option \<Rightarrow> nat \<Rightarrow> nat \<Rightarrow> bool" for S md a where
  compiled_self: "compiled_from S md a a"
| compiled_base: "compiled_from S md a b \<Longrightarrow> sourceKind (S ! b) = ''query_source'' \<Longrightarrow>
    deref md (prefer_composite (resolved (S ! b)) (structRef (S ! b))) = Some c \<Longrightarrow> compiled_from S md a c"

lemma compiled_from_step:
  assumes "compiled_from S md b x" and "sourceKind (S ! a) = ''query_source''"
    and "deref md (prefer_composite (resolved (S ! a)) (structRef (S ! a))) = Some b"
  shows "compiled_from S md a x"
  using assms(1)
proof (induction rule: compiled_from.induct)
  case compiled_self
  show ?case by (rule compiled_base [OF compiled_from.compiled_self assms(2,3)])
next
  case (compiled_base x c)
  from compiled_from.compiled_base [OF compiled_base.IH compiled_base.hyps(2,3)] show ?case .
qed

lemma filter_list_contains_sound:
  "filter_list_contains n S md F a c \<Longrightarrow> \<exists>x. compiled_from S md a x \<and> has_code F x (Some c)"
proof (induction n S md F a c rule: filter_list_contains.induct)
  case (2 n S md F a c)
  show ?case
  proof (cases "has_code F a (Some c)")
    case True
    then show ?thesis using compiled_self by blast
  next
    case False
    with 2(2) obtain b where b: "sourceKind (S ! a) = ''query_source''" "a < length S" "md \<noteq> None" "is_source S b"
        "deref md (prefer_composite (resolved (S ! a)) (structRef (S ! a))) = Some b" "filter_list_contains n S md F b c"
      by (auto split: option.splits)
    from 2(1) [OF b(5,6)] obtain x where "compiled_from S md b x" "has_code F x (Some c)" by blast
    with compiled_from_step [OF _ b(1,5)] show ?thesis by blast
  qed
qed simp

text \<open>The filter of a gate is in effect: it is on a struct the query runs over, by its exact text.\<close>

definition filter_in_effect :: "sources \<Rightarrow> ModelDef option \<Rightarrow> Prepared \<Rightarrow> string \<Rightarrow> bool" where
  "filter_in_effect S own p c \<longleftrightarrow>
     (\<exists>a x. deref (prepared_model own p) (prefer_composite (preparedComposite p) (preparedRef p)) = Some a
        \<and> compiled_from S (prepared_model own p) a x \<and> has_code (preparedFilters p) x (Some c))"

lemma assertGateLanded_sound:
  assumes "assertGateLanded S own recompiled grafts" and "g \<in> set grafts"
  shows "\<exists>p c. recompiled = Some p \<and> code (condition g) = Some c \<and> c \<noteq> [] \<and> filter_in_effect S own p c"
proof -
  obtain p where p: "recompiled = Some p" using assms(1) by (auto simp: assertGateLanded_def split: option.splits)
  define a where "a = deref (prepared_model own p) (prefer_composite (preparedComposite p) (preparedRef p))"
  from assms p obtain c where c: "code (condition g) = Some c" "c \<noteq> []"
      "filterListContainsCode S (prepared_model own p) (preparedFilters p) a c"
    by (auto simp: assertGateLanded_def list_all_iff Let_def a_def split: option.splits)
  then obtain b where b: "a = Some b" "filter_list_contains (Suc MAX_GATE_PROOF_DEPTH) S (prepared_model own p) (preparedFilters p) b c"
    by (auto simp: filterListContainsCode_def split: option.splits)
  from filter_list_contains_sound [OF b(2)] b(1) have "filter_in_effect S own p c"
    unfolding filter_in_effect_def a_def by blast
  with p c show ?thesis by blast
qed

lemma graft_own_struct_codes:
  "graft_own_struct S scope b grafts F = Inr F' \<Longrightarrow>
   codes F' b = codes F b \<union> (\<lambda>g. code (condition g)) ` set grafts"
proof (induction grafts arbitrary: F)
  case (Cons g grafts)
  from Cons.prems have rest: "graft_own_struct S scope b grafts
      (if has_code F b (code (condition g)) then F else F(b := F b @ [condition g])) = Inr F'"
    by (auto split: option.splits if_splits)
  have "codes (if has_code F b (code (condition g)) then F else F(b := F b @ [condition g])) b
      = insert (code (condition g)) (codes F b)"
    by (auto simp: has_code_codes) (auto simp: codes_def)
  with Cons.IH [OF rest] show ?case by auto
qed simp

lemma graft_own_struct_same:
  "graft_own_struct S scope b grafts F = Inr F' \<Longrightarrow> g \<in> set grafts \<Longrightarrow>
   \<exists>a. map_of (contents (scopeModel scope)) (graftTarget g) = Some a \<and> sourceID (S ! b) = sourceID (S ! a)"
proof (induction grafts arbitrary: F)
  case (Cons h grafts)
  from Cons.prems(1) obtain a F1 where "map_of (contents (scopeModel scope)) (graftTarget h) = Some a"
      "sourceID (S ! b) = sourceID (S ! a)" "graft_own_struct S scope b grafts F1 = Inr F'"
    by (auto split: option.splits if_splits)
  with Cons.IH Cons.prems(2) show ?case by auto
qed simp

text \<open>
  A notebook cell over a source of its own runs with its gates or not at all: where its binder
  accepts the compiled query, either the query runs over the very struct the binder wrote, which is a
  copy of every graft's target and has every condition, or the run target was a name and every condition
  was found on what that name compiled to.
\<close>

theorem own_scope_binder_gates:
  assumes "ownScopeRecompile S scope ref F grafts = Inr binding" and "ownScopeProve S own binding (Some p)"
  shows "(\<exists>b. preparedRef p = Some (RefStruct b) \<and> (\<forall>g \<in> set grafts.
        (\<exists>a. map_of (contents (scopeModel scope)) (graftTarget g) = Some a \<and> sourceID (S ! b) = sourceID (S ! a))
        \<and> has_code (ownFilters binding) b (code (condition g))))
    \<or> (\<forall>g \<in> set grafts. \<exists>c. code (condition g) = Some c \<and> filter_in_effect S own p c)"
proof (cases ref)
  case None
  with assms(1) show ?thesis by (simp add: ownScopeRecompile_def)
next
  case (Some r)
  show ?thesis
  proof (cases r)
    case (RefName n)
    with Some assms have "assertGateLanded S own (Some p) grafts"
      by (auto simp: ownScopeRecompile_def ownScopeProve_def)
    from assertGateLanded_sound [OF this] show ?thesis by (intro disjI2 ballI) fastforce
  next
    case (RefStruct b)
    with Some assms(1) obtain F' where F': "graft_own_struct S scope b grafts F = Inr F'"
        "ownStruct binding = Some b" "ownFilters binding = F'"
      by (auto simp: ownScopeRecompile_def map_sum_eq_Inr)
    with assms(2) have "preparedRef p = Some (RefStruct b)" by (simp add: ownScopeProve_def)
    with graft_own_struct_codes [OF F'(1)] graft_own_struct_same [OF F'(1)] F'(3) show ?thesis
      by (intro disjI1 exI [of _ b]) (auto simp: has_code_codes)
  qed
qed

definition demo_prepared :: "StructRef \<Rightarrow> filter_lists \<Rightarrow> Prepared" where
  "demo_prepared ref F = \<lparr>preparedRef = Some ref, preparedComposite = None, preparedModel = None, preparedFilters = F\<rparr>"

lemma own_scope_binder_gates_witness:
  "\<exists>binding. ownScopeRecompile demo_queries (demo_scope ''cell-self:0'' demo_givens) (Some (RefStruct 2)) demo_filters [demo_graft] = Inr binding
     \<and> has_code (ownFilters binding) 2 (Some ''(authorized)'')"
proof -
  obtain binding where b: "ownScopeRecompile demo_queries (demo_scope ''cell-self:0'' demo_givens) (Some (RefStruct 2)) demo_filters [demo_graft]
      = Inr binding" "ownStruct binding = Some 2" "expectedCodes binding = [''(authorized)'']"
      "has_code (ownFilters binding) 2 (Some ''(authorized)'')"
    by (simp add: ownScopeRecompile_def demo_graft_def demo_scope_def demo_gated_def demo_queries_def demo_struct_def
        is_source_def demo_condition_def demo_filters_def has_code_def)
  then have "ownScopeProve demo_queries None binding (Some (demo_prepared (RefStruct 2) (\<lambda>_. [])))"
    by (simp add: ownScopeProve_def demo_prepared_def)
  from own_scope_binder_gates [OF b(1) this] b(1,4) show ?thesis by blast
qed

end
