(* ===== verification/Enforcement.thy ===== *)
theory Enforcement
  imports Grafting QueryText
begin

text \<open>
  From a query to the query that is run (\<open>service/model.ts\<close>: the gates of the served model, the gates of
  the query's own struct, and \<open>authorizeAndBindRunnable\<close>, which binds the query to a model with all of
  them grafted or denies). The caches of gate shapes and of grafted models are left out here: \<open>GateShape\<close>
  and \<open>Grafting\<close> show that they change no answer. What recompiling a query gives is a parameter of the call.
\<close>

subsection \<open>The gates of a model\<close>

record GateModel =
  ownModel :: "ModelDef option"
  ownLoad :: "materializer option"
  hasRuntime :: bool
  baseFilters :: filter_lists
  surface :: "string set"
  entryPointGatesBySource :: "(string \<times> GateEntry list) list"

definition computeEntryPointGatesBySource ::
  "sources \<Rightarrow> expr_reader \<Rightarrow> ModelDef option \<Rightarrow> (string \<times> GateEntry list) list" where
  "computeEntryPointGatesBySource S exprsOf md =
     (case md of
        None \<Rightarrow> []
      | Some m \<Rightarrow> foldl (\<lambda>al (key, a).
            if is_source S a
            then AList.update (source_label (S ! a)) (fst (collectEntryPointGates S m exprsOf (Some a) [] True [])) al
            else al) [] (contents m))"

definition defaultGraftScope :: "GateModel \<Rightarrow> GraftScope option" where
  "defaultGraftScope m =
     (case (ownModel m, ownLoad m) of
        (Some md, Some load) \<Rightarrow> Some \<lparr>scopeModel = md, scopeLoad = load, cacheScope = ''model''\<rparr>
      | _ \<Rightarrow> None)"

text \<open>One gate: the row filter it is, or the source it denies.\<close>

definition admit_gate ::
  "sources \<Rightarrow> GateModel \<Rightarrow> ModelDef option \<Rightarrow> GraftScope option \<Rightarrow> GateEntry \<Rightarrow> string + PartitionGraftEntry" where
  "admit_gate S m origin scope entry =
     (case origin of
        None \<Rightarrow> Inl (gateLabel entry)
      | Some md \<Rightarrow>
          (case fst (resolveGateShape S entry md scope (surface m) Map.empty) of
             RowLevel t f cond names \<Rightarrow> Inr \<lparr>partLabel = gateLabel entry, partTarget = t, partText = f,
               partCondition = cond, partGivens = names\<rparr>
           | Rejected _ \<Rightarrow> Inl (gateLabel entry)))"

definition assertAuthorized ::
  "sources \<Rightarrow> GateModel \<Rightarrow> string option \<Rightarrow> bool \<Rightarrow> GraftScope option \<Rightarrow> string + unit" where
  "assertAuthorized S m name bypass scope =
     (if bypass then Inr ()
      else case name of
        None \<Rightarrow> Inr ()
      | Some n \<Rightarrow>
          (if n = [] then Inr ()
           else case map_of (entryPointGatesBySource m) n of
             None \<Rightarrow> Inr ()
           | Some gates \<Rightarrow> bind_r (mapM_r (admit_gate S m (ownModel m) scope) gates) (\<lambda>_. Inr ())))"

subsection \<open>The gates of a query\<close>

definition resolveAuthorizeSourceFromRunnable :: "sources \<Rightarrow> runnable \<Rightarrow> string option" where
  "resolveAuthorizeSourceFromRunnable S run =
     (case run of
        None \<Rightarrow> None
      | Some p \<Rightarrow>
          (case preparedRef p of
             None \<Rightarrow> None
           | Some (RefName n) \<Rightarrow> Some n
           | Some (RefStruct a) \<Rightarrow> Some (case sourceAs (S ! a) of
               Some n \<Rightarrow> if n = [] then sourceName (S ! a) else n | None \<Rightarrow> sourceName (S ! a))))"

text \<open>\<open>resolveRunTargetStruct\<close>: the struct, the model and the resolved branch of a composite.\<close>

definition resolveRunTargetStruct ::
  "ModelDef option \<Rightarrow> runnable \<Rightarrow> nat option \<times> ModelDef option \<times> nat option" where
  "resolveRunTargetStruct own run =
     (case run of
        None \<Rightarrow> (None, None, None)
      | Some p \<Rightarrow>
          (case prepared_model own p of
             None \<Rightarrow> (None, None, None)
           | Some md \<Rightarrow> (deref (Some md) (preparedRef p), Some md, preparedComposite p)))"

text \<open>The walk of the query's struct, then that of its resolved branch.\<close>

definition walk_gates ::
  "sources \<Rightarrow> expr_reader \<Rightarrow> nat option \<times> ModelDef option \<times> nat option \<Rightarrow> GateEntry list" where
  "walk_gates S exprsOf target =
     (case target of
        (struct, Some md, composite) \<Rightarrow>
          (let (gates, seen) = collectEntryPointGates S md exprsOf struct [] True [] in
           case composite of
             None \<Rightarrow> gates
           | Some c \<Rightarrow> gates @ fst (collectEntryPointGates S md exprsOf (Some c) seen True
               (case struct of Some a \<Rightarrow> ownLevelNotes (annotations (S ! a)) | None \<Rightarrow> [])))
      | _ \<Rightarrow> [])"

definition entry_key :: "GateEntry \<Rightarrow> string" where
  "entry_key e = gateLabel e @ CHR 0x1F # join [CHR 0x1F] (gateExprs e)
     @ CHR 0x1F # (if selfContained e then ''true'' else ''false'')"

definition fold_on_disk :: "GateEntry list \<Rightarrow> GateEntry list \<Rightarrow> GateEntry list" where
  "fold_on_disk walked onDisk = map snd (foldl (\<lambda>al e. AList.update (entry_key e) e al) [] (walked @ onDisk))"

definition collectAuthorizeEntryPointGates ::
  "sources \<Rightarrow> expr_reader \<Rightarrow> GateModel \<Rightarrow> runnable \<Rightarrow> GraftScope option \<Rightarrow> bool
   \<Rightarrow> string + GateEntry list \<times> ModelDef option \<times> nat option" where
  "collectAuthorizeEntryPointGates S exprsOf m run scope skipOwnSourceGate =
     (let name = resolveAuthorizeSourceFromRunnable S run;
          target = resolveRunTargetStruct (ownModel m) run;
          walked = walk_gates S exprsOf target in
      bind_r (if skipOwnSourceGate then Inr () else assertAuthorized S m name False scope)
        (\<lambda>_. Inr
          (case name of
             None \<Rightarrow> walked
           | Some n \<Rightarrow>
               if skipOwnSourceGate \<or> n = [] then walked
               else (case map_of (entryPointGatesBySource m) n of
                   None \<Rightarrow> walked | Some onDisk \<Rightarrow> fold_on_disk walked onDisk),
           fst (snd target), fst target)))"

text \<open>\<open>probeEntryPointGates\<close>: every row filter the query must carry, or the source it is denied for.\<close>

definition probeEntryPointGates ::
  "sources \<Rightarrow> expr_reader \<Rightarrow> pair_reader \<Rightarrow> GateModel \<Rightarrow> runnable \<Rightarrow> GraftScope option \<Rightarrow> bool
   \<Rightarrow> string + PartitionGraftEntry list" where
  "probeEntryPointGates S exprsOf pairsOf m run scope skipOwnSourceGate =
     bind_r (collectAuthorizeEntryPointGates S exprsOf m run scope skipOwnSourceGate)
       (\<lambda>(gates, md, struct).
          bind_r (mapM_r (admit_gate S m md scope) gates)
            (\<lambda>rowLevel. case resolvePartitionGraftEntries S pairsOf struct md scope (surface m) of
                Inl _ \<Rightarrow> Inl (case struct of Some a \<Rightarrow> source_label (S ! a) | None \<Rightarrow> ''unknown'')
              | Inr parts \<Rightarrow> Inr (rowLevel @ parts)))"

subsection \<open>A derivation a request declares\<close>

definition REQUEST_CHAIN_MAX_NAMES :: nat where "REQUEST_CHAIN_MAX_NAMES = 64"

datatype ChainProof = Proven | ReachesGatedSource string | ChainNotEstablished string

text \<open>The rest of the work list of \<open>requestChainProvesUngated\<close>, and the names seen.\<close>

function chain_walk ::
  "(string \<times> GateEntry list) list \<Rightarrow> (string \<times> string list) list \<Rightarrow> string list \<Rightarrow> string list \<Rightarrow> ChainProof" where
  "chain_walk gates basesOf [] seen = Proven"
| "chain_walk gates basesOf (name # names) seen =
     (if name \<in> set seen then chain_walk gates basesOf names seen
      else if length (name # seen) > REQUEST_CHAIN_MAX_NAMES then ChainNotEstablished name
      else case map_of gates name of
        Some g \<Rightarrow> if g \<noteq> [] then ReachesGatedSource name else chain_walk gates basesOf names (name # seen)
      | None \<Rightarrow>
          (case map_of basesOf name of
             None \<Rightarrow> ChainNotEstablished name
           | Some bases \<Rightarrow> if bases = [] then ChainNotEstablished name
               else chain_walk gates basesOf (names @ bases) (name # seen)))"
  by pat_completeness auto

termination
  by (relation "measures [\<lambda>(gates, basesOf, names, seen). REQUEST_CHAIN_MAX_NAMES - length seen,
      \<lambda>(gates, basesOf, names, seen). length names]") (auto simp: REQUEST_CHAIN_MAX_NAMES_def)

definition requestChainProvesUngated ::
  "(string \<times> GateEntry list) list \<Rightarrow> string \<Rightarrow> (string \<times> string list) list \<Rightarrow> ChainProof" where
  "requestChainProvesUngated gates entryPoint basesOf = chain_walk gates basesOf [entryPoint] []"

definition declaresAnyGate :: "GateModel \<Rightarrow> bool" where
  "declaresAnyGate m \<longleftrightarrow> (\<exists>(_, gates) \<in> set (entryPointGatesBySource m). gates \<noteq> [])"

definition assertRequestDeclaredEntryPointIsNotLaundered ::
  "sources \<Rightarrow> GateModel \<Rightarrow> runnable \<Rightarrow> string \<Rightarrow> string + unit" where
  "assertRequestDeclaredEntryPointIsNotLaundered S m run query =
     (if \<not> declaresAnyGate m then Inr ()
      else case resolveAuthorizeSourceFromRunnable S run of
        None \<Rightarrow> Inr ()
      | Some entryPoint \<Rightarrow>
          if entryPoint = [] \<or> map_of (entryPointGatesBySource m) entryPoint \<noteq> None then Inr ()
          else if requestChainProvesUngated (entryPointGatesBySource m) entryPoint
                 (buildDerivationBaseMap (stripMalloyCommentsAndLiterals query)) = Proven
          then Inr () else Inl entryPoint)"

subsection \<open>Binding a query\<close>

text \<open>
  \<open>recompile\<close> compiles the query against a grafted model, or throws; \<open>proveGraft\<close> says whether the
  caller's own proof that the grafts landed returns.
\<close>

record BindOptions =
  recompile :: "(GraftedModel \<Rightarrow> Graft list \<Rightarrow> string + runnable) option"
  proveGraft :: "(GraftedModel \<Rightarrow> Graft list \<Rightarrow> runnable \<Rightarrow> bool) option"
  bypassAuthorize :: bool
  graftScope :: "GraftScope option"
  skipOwn :: bool
  callerQueryText :: "string option"
  checkOnly :: bool

text \<open>The query that may be run, and whether it carries row filters; or the source it is denied for.\<close>

datatype Outcome = Denied string | Bound runnable bool

definition as_graft :: "PartitionGraftEntry \<Rightarrow> Graft" where
  "as_graft e = \<lparr>graftTarget = partTarget e, graftText = partText e, condition = partCondition e\<rparr>"

definition decidable_with :: "string set \<Rightarrow> PartitionGraftEntry \<Rightarrow> bool" where
  "decidable_with givens e \<longleftrightarrow> set (partGivens e) \<subseteq> givens"

definition bind_grafted ::
  "sources \<Rightarrow> GateModel \<Rightarrow> GraftScope option \<Rightarrow> BindOptions \<Rightarrow> (GraftedModel \<Rightarrow> Graft list \<Rightarrow> string + runnable)
   \<Rightarrow> Graft list \<Rightarrow> runnable option" where
  "bind_grafted S m scope opts rc grafts =
     (case scope of
        None \<Rightarrow> None
      | Some s \<Rightarrow>
          (case buildGraftedMaterializer S (hasRuntime m) (scopeModel s) (baseFilters m) grafts of
             Inl _ \<Rightarrow> None
           | Inr grafted \<Rightarrow>
               (case rc grafted grafts of
                  Inl _ \<Rightarrow> None
                | Inr recompiled \<Rightarrow>
                    if (case proveGraft opts of
                          Some prove \<Rightarrow> prove grafted grafts recompiled
                        | None \<Rightarrow> assertGateLanded S (ownModel m) recompiled grafts)
                    then Some recompiled else None)))"

definition bind_scope :: "GateModel \<Rightarrow> BindOptions \<Rightarrow> GraftScope option" where
  "bind_scope m opts = (case graftScope opts of Some s \<Rightarrow> Some s | None \<Rightarrow> defaultGraftScope m)"

definition authorizeAndBindRunnable ::
  "sources \<Rightarrow> expr_reader \<Rightarrow> pair_reader \<Rightarrow> GateModel \<Rightarrow> runnable \<Rightarrow> string set \<Rightarrow> BindOptions \<Rightarrow> Outcome" where
  "authorizeAndBindRunnable S exprsOf pairsOf m run givens opts =
     (if bypassAuthorize opts then Bound run False
      else case probeEntryPointGates S exprsOf pairsOf m run (bind_scope m opts) (skipOwn opts) of
          Inl label \<Rightarrow> Denied label
        | Inr [] \<Rightarrow>
            (case callerQueryText opts of
               None \<Rightarrow> Bound run False
             | Some q \<Rightarrow>
                 if q = [] \<or> skipOwn opts then Bound run False
                 else (case assertRequestDeclaredEntryPointIsNotLaundered S m run q of
                     Inl label \<Rightarrow> Denied label | Inr _ \<Rightarrow> Bound run False))
        | Inr (e # es) \<Rightarrow>
            (case recompile opts of
               None \<Rightarrow>
                 if checkOnly opts \<and> list_all (decidable_with givens) (e # es) then Bound run False
                 else Denied (partLabel e)
             | Some rc \<Rightarrow>
                 (case bind_grafted S m (bind_scope m opts) opts rc (map as_graft (e # es)) of
                    None \<Rightarrow> Denied (partLabel e)
                  | Some recompiled \<Rightarrow> Bound recompiled True)))"

text \<open>\<open>queryEntryPointHasRowLevelGate\<close>: whether the query may not be served from a shared copy.\<close>

definition queryEntryPointHasRowLevelGate ::
  "sources \<Rightarrow> expr_reader \<Rightarrow> pair_reader \<Rightarrow> ModelDef option \<Rightarrow> runnable \<Rightarrow> bool" where
  "queryEntryPointHasRowLevelGate S exprsOf pairsOf own run =
     (let target = resolveRunTargetStruct own run in
      case fst (snd target) of
        None \<Rightarrow> True
      | Some md \<Rightarrow> walk_gates S exprsOf target \<noteq> []
          \<or> (case resolveEntryPointPartitions S md pairsOf (fst target) of Inl _ \<Rightarrow> True | Inr pairs \<Rightarrow> pairs \<noteq> []))"

subsection \<open>The ways a query is bound\<close>

lemma bound_cases:
  assumes "authorizeAndBindRunnable S exprsOf pairsOf m run givens opts = Bound r filtered" and "\<not> bypassAuthorize opts"
  obtains
    (ungated) "probeEntryPointGates S exprsOf pairsOf m run (bind_scope m opts) (skipOwn opts) = Inr []"
      and "r = run" and "\<not> filtered"
      and "\<And>q. callerQueryText opts = Some q \<Longrightarrow> q \<noteq> [] \<Longrightarrow> \<not> skipOwn opts \<Longrightarrow>
        assertRequestDeclaredEntryPointIsNotLaundered S m run q = Inr ()"
  | (checked) rows where "probeEntryPointGates S exprsOf pairsOf m run (bind_scope m opts) (skipOwn opts) = Inr rows"
      and "rows \<noteq> []" and "recompile opts = None" and "checkOnly opts" and "list_all (decidable_with givens) rows"
      and "r = run" and "\<not> filtered"
  | (grafted) rows rc where "probeEntryPointGates S exprsOf pairsOf m run (bind_scope m opts) (skipOwn opts) = Inr rows"
      and "rows \<noteq> []" and "recompile opts = Some rc"
      and "bind_grafted S m (bind_scope m opts) opts rc (map as_graft rows) = Some r" and "filtered"
proof (cases "probeEntryPointGates S exprsOf pairsOf m run (bind_scope m opts) (skipOwn opts)")
  case (Inl label)
  with assms show ?thesis by (simp add: authorizeAndBindRunnable_def)
next
  case (Inr rows)
  show ?thesis
  proof (cases rows)
    case Nil
    with Inr assms have "r = run" "\<not> filtered"
      by (auto simp: authorizeAndBindRunnable_def split: option.splits sum.splits if_splits)
    moreover have "assertRequestDeclaredEntryPointIsNotLaundered S m run q = Inr ()"
      if "callerQueryText opts = Some q" "q \<noteq> []" "\<not> skipOwn opts" for q
      using Nil Inr assms that by (simp add: authorizeAndBindRunnable_def split: sum.splits)
    ultimately show ?thesis using ungated Inr Nil by blast
  next
    case (Cons e es)
    show ?thesis
    proof (cases "recompile opts")
      case None
      with Inr Cons assms have "checkOnly opts" "list_all (decidable_with givens) rows" "r = run" "\<not> filtered"
        by (auto simp: authorizeAndBindRunnable_def split: if_splits)
      with checked Inr Cons None show ?thesis by blast
    next
      case (Some rc)
      with Inr Cons assms have "bind_grafted S m (bind_scope m opts) opts rc (map as_graft rows) = Some r" "filtered"
        by (auto simp: authorizeAndBindRunnable_def split: option.splits)
      with grafted Inr Cons Some show ?thesis by blast
    qed
  qed
qed

subsection \<open>A proven chain is ungated\<close>

text \<open>The names a request's text leads to, stopping at the sources of the model.\<close>

inductive chain_reaches ::
  "(string \<times> GateEntry list) list \<Rightarrow> (string \<times> string list) list \<Rightarrow> string \<Rightarrow> string \<Rightarrow> bool" for gates basesOf entry where
  chain_entry: "chain_reaches gates basesOf entry entry"
| chain_base: "chain_reaches gates basesOf entry n \<Longrightarrow> map_of gates n = None \<Longrightarrow> b \<in> bases_of basesOf n \<Longrightarrow>
    chain_reaches gates basesOf entry b"

definition name_settled :: "(string \<times> GateEntry list) list \<Rightarrow> (string \<times> string list) list \<Rightarrow> string set \<Rightarrow> string \<Rightarrow> bool" where
  "name_settled gates basesOf known n \<longleftrightarrow> map_of gates n = Some []
     \<or> map_of gates n = None \<and> bases_of basesOf n \<noteq> {} \<and> bases_of basesOf n \<subseteq> known"

lemma chain_walk_settles:
  "chain_walk gates basesOf names seen = Proven \<Longrightarrow>
   \<exists>known. set names \<union> set seen \<subseteq> known \<and> (\<forall>n \<in> known - set seen. name_settled gates basesOf known n)"
proof (induction gates basesOf names seen rule: chain_walk.induct)
  case (1 gates basesOf seen)
  show ?case by (intro exI [of _ "set seen"]) simp
next
  case (2 gates basesOf name names seen)
  show ?case
  proof (cases "name \<in> set seen")
    case True
    with 2(4) have "chain_walk gates basesOf names seen = Proven" by simp
    from 2(1) [OF True this] obtain known where
        "set names \<union> set seen \<subseteq> known" "\<forall>n \<in> known - set seen. name_settled gates basesOf known n" by blast
    with True show ?thesis by (intro exI [of _ known]) auto
  next
    case new: False
    have small: "\<not> length (name # seen) > REQUEST_CHAIN_MAX_NAMES" using 2(4) new by (auto split: if_splits)
    show ?thesis
    proof (cases "map_of gates name")
      case (Some g)
      with 2(4) new small have g: "g = []" "chain_walk gates basesOf names (name # seen) = Proven"
        by (auto split: if_splits)
      from 2(3) [OF new small Some _ g(2)] g(1) obtain known where
          known: "set names \<union> set (name # seen) \<subseteq> known" "\<forall>n \<in> known - set (name # seen). name_settled gates basesOf known n" by blast
      have "name_settled gates basesOf known name" using Some g(1) by (simp add: name_settled_def)
      with known(2) have "\<forall>n \<in> known - set seen. name_settled gates basesOf known n" by auto
      moreover have "set (name # names) \<union> set seen \<subseteq> known" using known(1) by auto
      ultimately show ?thesis by blast
    next
      case None
      with 2(4) new small obtain bases where b: "map_of basesOf name = Some bases" "bases \<noteq> []"
          "chain_walk gates basesOf (names @ bases) (name # seen) = Proven"
        by (auto split: option.splits if_splits)
      from 2(2) [OF new small None b] obtain known where
          known: "set (names @ bases) \<union> set (name # seen) \<subseteq> known"
          "\<forall>n \<in> known - set (name # seen). name_settled gates basesOf known n" by blast
      have "name_settled gates basesOf known name"
        using None b known(1) by (simp add: name_settled_def bases_of_def)
      with known(2) have "\<forall>n \<in> known - set seen. name_settled gates basesOf known n" by auto
      moreover have "set (name # names) \<union> set seen \<subseteq> known" using known(1) by auto
      ultimately show ?thesis by blast
    qed
  qed
qed

lemma proven_chain:
  assumes "requestChainProvesUngated gates entry basesOf = Proven" and "chain_reaches gates basesOf entry n"
  shows "map_of gates n = Some [] \<or> map_of gates n = None \<and> bases_of basesOf n \<noteq> {}"
proof -
  obtain known where known: "entry \<in> known" "\<forall>n \<in> known. name_settled gates basesOf known n"
    using chain_walk_settles [OF assms(1) [unfolded requestChainProvesUngated_def]] by auto
  have "n \<in> known" using assms(2)
  proof (induction rule: chain_reaches.induct)
    case (chain_base n b)
    with known(2) show ?case by (auto simp: name_settled_def)
  qed (rule known(1))
  with known(2) show ?thesis by (auto simp: name_settled_def)
qed

text \<open>
  C6: What a caller declares in its own query cannot launder a gate: when such a query is bound without
  a row filter in a model that has gates, every name its text derives the run source from, over any
  number of declarations and through comments and literals, is a source of the model without a gate, or
  is itself declared in the text over such names. Anything the scan cannot place is denied.
\<close>

theorem laundered_gate_is_denied:
  assumes "authorizeAndBindRunnable S exprsOf pairsOf m run givens opts = Bound r False"
    and "\<not> bypassAuthorize opts" and "\<not> skipOwn opts" and "recompile opts \<noteq> None"
    and "callerQueryText opts = Some query" and "query \<noteq> []" and "declaresAnyGate m"
    and "resolveAuthorizeSourceFromRunnable S run = Some entry" and "entry \<noteq> []"
    and "map_of (entryPointGatesBySource m) entry = None"
    and "chain_reaches (entryPointGatesBySource m) (buildDerivationBaseMap (stripMalloyCommentsAndLiterals query)) entry n"
  shows "map_of (entryPointGatesBySource m) n = Some []
    \<or> map_of (entryPointGatesBySource m) n = None
      \<and> bases_of (buildDerivationBaseMap (stripMalloyCommentsAndLiterals query)) n \<noteq> {}"
proof -
  have "assertRequestDeclaredEntryPointIsNotLaundered S m run query = Inr ()"
    using assms(1,2) by (cases rule: bound_cases) (use assms(3-6) in auto)
  with assms(7-10) have "requestChainProvesUngated (entryPointGatesBySource m) entry
      (buildDerivationBaseMap (stripMalloyCommentsAndLiterals query)) = Proven"
    by (auto simp: assertRequestDeclaredEntryPointIsNotLaundered_def split: if_splits)
  from proven_chain [OF this assms(11)] show ?thesis .
qed

subsection \<open>The gates of a query are complete\<close>

lemma derives_seen:
  assumes "\<And>y. y \<in> set seen \<Longrightarrow> gate_finished ent S md parse gs seen y" and "a \<in> set seen" and "derives S md a x"
  shows "x \<in> set seen"
  using assms(3)
proof (induction rule: derives.induct)
  case derives_self
  show ?case by (rule assms(2))
next
  case (derives_base x b)
  with assms(1) show ?case unfolding gate_finished_def by blast
next
  case (derives_composite x c)
  with assms(1) show ?case unfolding gate_finished_def by blast
qed

text \<open>The structs the rows of a query come from: those of its struct, and of its resolved branch.\<close>

definition rows_from :: "sources \<Rightarrow> nat option \<times> ModelDef option \<times> nat option \<Rightarrow> nat \<Rightarrow> bool" where
  "rows_from S target x \<longleftrightarrow>
     (\<exists>a md composite. target = (Some a, Some md, composite) \<and> a < length S
        \<and> (derives S md a x \<or> (\<exists>c. composite = Some c \<and> c < length S \<and> derives S md c x)))"

text \<open>
  Each of them with the notes copied onto it from the base it was resolved for; onto the resolved branch,
  those of the struct of the query.
\<close>

definition rows_enter :: "sources \<Rightarrow> nat option \<times> ModelDef option \<times> nat option \<Rightarrow> nat \<Rightarrow> Note list \<Rightarrow> bool" where
  "rows_enter S target x copied \<longleftrightarrow>
     (\<exists>a md composite. target = (Some a, Some md, composite)
        \<and> (enters S md a [] x copied
           \<or> (\<exists>c. composite = Some c \<and> enters S md c (ownLevelNotes (annotations (S ! a))) x copied)))"

lemma walk_gates_complete:
  assumes "rows_from S (Some a, Some md, composite) x"
  shows "\<exists>copied. rows_enter S (Some a, Some md, composite) x copied
    \<and> struct_enforced S md parse (walk_gates S (reads_notes parse) (Some a, Some md, composite)) x copied"
proof -
  let ?ent = "rows_enter S (Some a, Some md, composite)"
  have steps: "entry_steps ?ent S md" and enter_a: "?ent a []"
    unfolding entry_steps_def rows_enter_def by (auto intro: enters.intros)
  obtain g1 seen1 where one: "collectEntryPointGates S md (reads_notes parse) (Some a) [] True [] = (g1, seen1)" by force
  have a: "a < length S" using assms by (simp add: rows_from_def)
  from collect_gates_enforces [OF collectEntryPointGates_collect [OF one] steps enter_a, of "[]"] a
  have a1: "a \<in> set seen1" and fin1: "\<And>y. y \<in> set seen1 \<Longrightarrow> gate_finished ?ent S md parse g1 seen1 y"
    by (auto simp: notes_enforced_def)
  show ?thesis
  proof (cases composite)
    case None
    with assms have "derives S md a x" by (simp add: rows_from_def)
    from fin1 [OF derives_seen [OF fin1 a1 this]] None one show ?thesis
      by (simp add: walk_gates_def gate_finished_def)
  next
    case (Some c)
    let ?excl = "ownLevelNotes (annotations (S ! a))"
    obtain g2 seen2 where two: "collectEntryPointGates S md (reads_notes parse) (Some c) seen1 True ?excl = (g2, seen2)" by force
    have gates: "walk_gates S (reads_notes parse) (Some a, Some md, composite) = g1 @ g2"
      using one two Some by (simp add: walk_gates_def)
    have enter_c: "?ent c ?excl" unfolding rows_enter_def Some by (auto intro: enters_self)
    have own: "\<forall>m \<in> set (ownLevelNotes (annotations (S ! y))). note_enforced parse g1 m" if "y \<in> set seen1" for y
      using fin1 [OF that] unfolding gate_finished_def struct_enforced_def by blast
    have excl: "\<forall>m \<in> set ?excl. note_enforced parse g1 m" by (rule own [OF a1])
    have "notes_enforced S parse g1 seen1" unfolding notes_enforced_def using own by blast
    from collect_gates_enforces [OF collectEntryPointGates_collect [OF two] steps enter_c excl this]
    have sub: "set seen1 \<subseteq> set seen2" and c2: "c < length S \<longrightarrow> c \<in> set seen2"
      and new: "\<forall>y \<in> set seen2 - set seen1. gate_finished ?ent S md parse (g1 @ g2) seen2 y" by blast+
    have fin2: "gate_finished ?ent S md parse (g1 @ g2) seen2 y" if "y \<in> set seen2" for y
    proof (cases "y \<in> set seen1")
      case True
      from gate_finished_mono [OF fin1 [OF True] _ sub] show ?thesis by simp
    next
      case False
      with that new show ?thesis by blast
    qed
    have "x \<in> set seen2" using assms Some a1 sub c2 derives_seen [OF fin2] by (auto simp: rows_from_def)
    from fin2 [OF this] show ?thesis unfolding gates gate_finished_def by blast
  qed
qed

subsection \<open>Folding in the gates of the model loses none\<close>

text \<open>Labels and expressions without the separator of the fold.\<close>

definition separable :: "sources \<Rightarrow> (string \<Rightarrow> AuthorizeError + string option) \<Rightarrow> bool" where
  "separable S parse \<longleftrightarrow> (\<forall>a < length S. CHR 0x1F \<notin> set (source_label (S ! a)))
     \<and> (\<forall>t e. parse t = Inr (Some e) \<longrightarrow> CHR 0x1F \<notin> set e)"

definition clean_gate :: "GateEntry \<Rightarrow> bool" where
  "clean_gate g \<longleftrightarrow> CHR 0x1F \<notin> set (gateLabel g) \<and> gateExprs g \<noteq> [] \<and> (\<forall>e \<in> set (gateExprs g). CHR 0x1F \<notin> set e)"

lemma reads_notes_clean:
  assumes "reads_notes parse texts = Inr es" and "e \<in> set es" and "separable S parse"
  shows "CHR 0x1F \<notin> set e"
proof -
  obtain rs where rs: "list_all2 (\<lambda>t r. parse t = Inr r) texts rs" "es = somes rs"
    using assms(1) by (auto simp: reads_notes_def bind_r_eq_Inr mapM_r_Inr)
  with assms(2) have "Some e \<in> set rs" by (simp add: set_somes)
  with rs(1) obtain t where "parse t = Inr (Some e)" by (auto simp: list_all2_conv_all_nth in_set_conv_nth)
  with assms(3) show ?thesis by (simp add: separable_def)
qed

lemma inherited_first_clean:
  "inherited_first (reads_notes parse) n annote = Inr (Some es) \<Longrightarrow> separable S parse \<Longrightarrow> e \<in> set es \<Longrightarrow> CHR 0x1F \<notin> set e"
proof (induction n arbitrary: annote)
  case 0
  then show ?case by (cases annote) auto
next
  case (Suc n)
  show ?case
  proof (cases annote)
    case None
    with Suc.prems show ?thesis by simp
  next
    case (Some a)
    show ?thesis
    proof (cases "reads_notes parse (ownLevelNoteTexts (Some a))")
      case (Inl err)
      with Some Suc.prems(1) show ?thesis by simp
    next
      case (Inr xs)
      show ?thesis
      proof (cases "xs = []")
        case True
        with Some Inr Suc.prems(1) have "inherited_first (reads_notes parse) n (inherits a) = Inr (Some es)" by simp
        from Suc.IH [OF this Suc.prems(2,3)] show ?thesis .
      next
        case False
        with Some Inr Suc.prems(1) have "es = xs" by simp
        with reads_notes_clean [OF Inr _ Suc.prems(2)] Suc.prems(3) show ?thesis by simp
      qed
    qed
  qed
qed

lemma ancestorGateExprs_clean:
  "ancestorGateExprs S md (reads_notes parse) a seen = Inr es \<Longrightarrow> separable S parse \<Longrightarrow> e \<in> set es \<Longrightarrow> CHR 0x1F \<notin> set e"
proof (induction S md "reads_notes parse" a seen arbitrary: es rule: ancestorGateExprs.induct)
  case (1 S md a seen)
  have false_clean: "CHR 0x1F \<notin> set x" if "x \<in> set [''false'']" for x :: string using that by simp
  obtain exprs where inh: "inherited_first (reads_notes parse) ANCESTOR_WALK_MAX_DEPTH (inherited_annotations (S ! a)) = Inr exprs"
    using 1(2) by (subst (asm) ancestorGateExprs.simps) (auto split: sum.splits)
  show ?case
  proof (cases exprs)
    case None
    with inh 1(2) have "es = [''false'']" by (simp add: ancestorGateExprs.simps)
    with 1(4) show ?thesis by simp
  next
    case found: (Some xs)
    show ?thesis
    proof (cases "xs = []")
      case False
      with inh found 1(2) have "es = xs" by (simp add: ancestorGateExprs.simps)
      with inherited_first_clean [OF inh [unfolded found] 1(3)] 1(4) show ?thesis by simp
    next
      case empty: True
      have step: "(if length (List.insert a seen) > ANCESTOR_WALK_MAX_DEPTH then Inr [''false'']
          else case resolveDeclaredSource S md a of
            Unresolvable \<Rightarrow> Inr [''false''] | NotDeclared \<Rightarrow> Inr []
          | DeclaredBy b \<Rightarrow> if b \<in> set (List.insert a seen) then Inr []
              else (case reads_notes parse (ownLevelNoteTexts (annotations (S ! b))) of
                  Inl e \<Rightarrow> Inl e
                | Inr own \<Rightarrow> if own \<noteq> [] then Inr own
                    else ancestorGateExprs S md (reads_notes parse) b (List.insert a seen))) = Inr es"
        using 1(2) inh found empty by (subst (asm) ancestorGateExprs.simps) simp
      show ?thesis
      proof (cases "length (List.insert a seen) > ANCESTOR_WALK_MAX_DEPTH")
        case True
        with step 1(4) show ?thesis by auto
      next
        case short: False
        show ?thesis
        proof (cases "resolveDeclaredSource S md a")
          case (DeclaredBy b)
          show ?thesis
          proof (cases "b \<in> set (List.insert a seen)")
            case True
            with step short DeclaredBy 1(4) show ?thesis by simp
          next
            case new: False
            obtain own where own: "reads_notes parse (ownLevelNoteTexts (annotations (S ! b))) = Inr own"
              using step short DeclaredBy new by (auto split: sum.splits)
            show ?thesis
            proof (cases "own = []")
              case True
              have "ancestorGateExprs S md (reads_notes parse) b (List.insert a seen) = Inr es"
                using step short DeclaredBy new own True by simp
              from 1(1) [OF inh found _ short DeclaredBy new own _ this 1(3,4)] empty True show ?thesis by simp
            next
              case False
              with step short DeclaredBy new own have "es = own" by simp
              with reads_notes_clean [OF own _ 1(3)] 1(4) show ?thesis by simp
            qed
          qed
        qed (use step short 1(4) in auto)
      qed
    qed
  qed
qed

lemma own_gate_clean:
  assumes "g \<in> set (own_gate S md (reads_notes parse) a treat entry excl)" and "separable S parse" and "a < length S"
  shows "clean_gate g"
proof -
  obtain exprs anc where e: "gateExprsForOwnAnnotations S md (reads_notes parse) a excl = (exprs, anc)" by force
  with assms(1) have g: "exprs \<noteq> []" "gateExprs g = exprs" "gateLabel g = source_label (S ! a)"
    by (auto simp: own_gate_def split: if_splits)
  have "CHR 0x1F \<notin> set x" if "x \<in> set exprs" for x
    using e that assms(2)
    by (auto simp: gateExprsForOwnAnnotations_def Let_def split: sum.splits if_splits
        dest: reads_notes_clean ancestorGateExprs_clean)
  with g assms(2,3) show ?thesis by (simp add: clean_gate_def separable_def)
qed

lemma collect_gates_clean:
  "collect_gates n S md (reads_notes parse) a seen treat entry excl = Some (gs, seen') \<Longrightarrow> separable S parse \<Longrightarrow>
   g \<in> set gs \<Longrightarrow> clean_gate g"
proof (induction n arbitrary: a seen treat entry excl gs seen' g)
  case (Suc n)
  define own where "own = own_gate S md (reads_notes parse) a treat entry excl"
  show ?case
  proof (cases "a \<in> set seen \<or> length S \<le> a")
    case True
    with Suc.prems show ?thesis by simp
  next
    case False
    then have a: "a < length S" by simp
    have own: "clean_gate g" if "g \<in> set own" for g
      using that own_gate_clean [OF _ Suc.prems(2) a] by (simp add: own_def)
    show ?thesis
    proof (cases "sourceKind (S ! a) = ''query_source''")
      case no: False
      with False Suc.prems(1,3) own show ?thesis by (simp add: own_def)
    next
      case query: True
      define first where "first = (case resolveQuerySourceBase S md a of
          Some b \<Rightarrow> collect_gates n S md (reads_notes parse) b (a # seen) False entry []
        | None \<Rightarrow> Some ([unresolved_base S a], a # seen))"
      from False query Suc.prems(1) obtain g1 s1 where one: "first = Some (g1, s1)"
        and rest: "(case resolveCompositeResolvedBase S a of None \<Rightarrow> Some (own @ g1, s1)
          | Some c \<Rightarrow> map_option (\<lambda>(g2, s2). (own @ g1 @ g2, s2))
              (collect_gates n S md (reads_notes parse) c s1 False entry (base_notes S md a))) = Some (gs, seen')"
        unfolding collect_gates.simps first_def [symmetric] own_def [symmetric] by (auto split: option.splits)
      have base: "clean_gate g" if "g \<in> set g1" for g
      proof (cases "resolveQuerySourceBase S md a")
        case None
        with one that a Suc.prems(2) show ?thesis
          by (auto simp: first_def unresolved_base_def clean_gate_def separable_def)
      next
        case (Some b)
        with one have "collect_gates n S md (reads_notes parse) b (a # seen) False entry [] = Some (g1, s1)"
          by (simp add: first_def)
        from Suc.IH [OF this Suc.prems(2) that] show ?thesis .
      qed
      show ?thesis
      proof (cases "resolveCompositeResolvedBase S a")
        case None
        with rest Suc.prems(3) own base show ?thesis by auto
      next
        case (Some c)
        with rest obtain g2 s2 where two:
            "collect_gates n S md (reads_notes parse) c s1 False entry (base_notes S md a) = Some (g2, s2)" "gs = own @ g1 @ g2"
          by auto
        from Suc.IH [OF two(1) Suc.prems(2)] two(2) Suc.prems(3) own base show ?thesis by auto
      qed
    qed
  qed
qed simp

lemma collected_clean:
  assumes "separable S parse" and "g \<in> set (fst (collectEntryPointGates S md (reads_notes parse) struct seen treat excl))"
  shows "clean_gate g"
proof (cases struct)
  case None
  with assms(2) show ?thesis by (simp add: collectEntryPointGates_def)
next
  case (Some a)
  obtain gs seen' where "collectEntryPointGates S md (reads_notes parse) (Some a) seen treat excl = (gs, seen')" by force
  with assms Some collect_gates_clean [OF collectEntryPointGates_collect] show ?thesis by simp
qed

lemma walk_gates_clean:
  assumes "separable S parse" and "g \<in> set (walk_gates S (reads_notes parse) target)"
  shows "clean_gate g"
proof -
  obtain struct md' composite where target: "target = (struct, md', composite)" by (cases target) auto
  with assms(2) obtain md where md: "md' = Some md" by (cases md') (simp_all add: walk_gates_def)
  obtain gates seen where one: "collectEntryPointGates S md (reads_notes parse) struct [] True [] = (gates, seen)" by force
  have "g \<in> set gates \<or> (\<exists>c excl. g \<in> set (fst (collectEntryPointGates S md (reads_notes parse) (Some c) seen True excl)))"
    using assms(2) by (cases composite) (auto simp: walk_gates_def target md one)
  then show ?thesis
  proof
    assume "g \<in> set gates"
    with collected_clean [OF assms(1), of g md struct "[]" True "[]"] one show ?thesis by simp
  next
    assume "\<exists>c excl. g \<in> set (fst (collectEntryPointGates S md (reads_notes parse) (Some c) seen True excl))"
    with collected_clean [OF assms(1)] show ?thesis by blast
  qed
qed

lemma join_inject_nonempty:
  assumes "join [c] xs = join [c] ys" and "xs \<noteq> []" and "ys \<noteq> []" and "\<forall>x \<in> set xs \<union> set ys. c \<notin> set x"
  shows "xs = ys"
proof -
  have xs: "split_on c (join [c] xs) = xs" and ys: "split_on c (join [c] ys) = ys"
    using assms(2-4) by (auto intro!: split_on_join)
  from arg_cong [OF assms(1), of "split_on c"] show ?thesis unfolding xs ys .
qed

lemma entry_key_exprs:
  assumes "clean_gate g" "clean_gate h" and "entry_key g = entry_key h"
  shows "gateExprs g = gateExprs h"
proof -
  have key: "entry_key x = gateLabel x @ CHR 0x1F # join [CHR 0x1F] (gateExprs x @ [if selfContained x then ''true'' else ''false''])"
    if "clean_gate x" for x
  proof -
    have "join [c] es @ c # b = join [c] (es @ [b])" if "es \<noteq> []" for c :: char and es b
      using that by (induction es rule: induct_list012) auto
    with that show ?thesis by (simp add: entry_key_def clean_gate_def)
  qed
  have "gateLabel g = gateLabel h \<and> join [CHR 0x1F] (gateExprs g @ [if selfContained g then ''true'' else ''false''])
      = join [CHR 0x1F] (gateExprs h @ [if selfContained h then ''true'' else ''false''])"
    using assms append_sep_inject [of "CHR 0x1F" "gateLabel g" "gateLabel h"] unfolding key [OF assms(1)] key [OF assms(2)]
    by (simp add: clean_gate_def)
  then have "gateExprs g @ [if selfContained g then ''true'' else ''false'']
      = gateExprs h @ [if selfContained h then ''true'' else ''false'']"
    by (intro join_inject_nonempty [OF conjunct2]) (use assms(1,2) in \<open>auto simp: clean_gate_def\<close>)
  then show ?thesis by simp
qed

definition keyed :: "(string \<times> GateEntry) list \<Rightarrow> bool" where
  "keyed al \<longleftrightarrow> (\<forall>(k, g) \<in> set al. entry_key g = k)"

lemma update_keyed: "keyed al \<Longrightarrow> keyed (AList.update (entry_key e) e al)"
  by (induction al) (auto simp: keyed_def)

lemma fold_keyed:
  "keyed al \<Longrightarrow> keyed (foldl (\<lambda>al e. AList.update (entry_key e) e al) al es)
     \<and> set (map fst al) \<union> entry_key ` set es \<subseteq> set (map fst (foldl (\<lambda>al e. AList.update (entry_key e) e al) al es))"
proof (induction es arbitrary: al)
  case (Cons e es)
  have keys: "set (map fst (AList.update (entry_key e) e al)) = insert (entry_key e) (set (map fst al))"
    by (auto simp: update_keys)
  from Cons.IH [OF update_keyed [OF Cons.prems], of e] show ?case unfolding keys by simp
qed simp

lemma fold_on_disk_keeps:
  assumes "g \<in> set walked"
  shows "\<exists>h \<in> set (fold_on_disk walked onDisk). entry_key h = entry_key g"
proof -
  define al where "al = foldl (\<lambda>al e. AList.update (entry_key e) e al) [] (walked @ onDisk)"
  have al: "keyed al" "entry_key ` set (walked @ onDisk) \<subseteq> set (map fst al)"
    using fold_keyed [of "[]" "walked @ onDisk"] by (simp_all add: al_def keyed_def)
  with assms have "entry_key g \<in> set (map fst al)" by auto
  then obtain h where "(entry_key g, h) \<in> set al" by auto
  with al(1) show ?thesis unfolding fold_on_disk_def al_def [symmetric] keyed_def by force
qed

lemma fold_on_disk_from: "h \<in> set (fold_on_disk walked onDisk) \<Longrightarrow> h \<in> set walked \<union> set onDisk"
proof -
  have from_al: "snd ` set (foldl (\<lambda>al e. AList.update (entry_key e) e al) al es) \<subseteq> snd ` set al \<union> set es" for al es
  proof (induction es arbitrary: al)
    case (Cons e es)
    have "snd ` set (AList.update (entry_key e) e al) \<subseteq> insert e (snd ` set al)" by (induction al) auto
    with Cons.IH [of "AList.update (entry_key e) e al"] show ?case by auto
  qed simp
  assume "h \<in> set (fold_on_disk walked onDisk)"
  with from_al [of "[]" "walked @ onDisk"] show ?thesis by (auto simp: fold_on_disk_def)
qed

definition all_clean :: "(string \<times> GateEntry list) list \<Rightarrow> bool" where
  "all_clean al \<longleftrightarrow> (\<forall>gs \<in> snd ` set al. \<forall>g \<in> set gs. clean_gate g)"

lemma all_clean_update:
  assumes "all_clean al" and "\<And>g. g \<in> set gs \<Longrightarrow> clean_gate g"
  shows "all_clean (AList.update k gs al)"
proof -
  have "snd ` set (AList.update k gs al) \<subseteq> insert gs (snd ` set al)" by (induction al) auto
  with assms show ?thesis unfolding all_clean_def by blast
qed

lemma computed_gates_clean:
  assumes "separable S parse" and "map_of (computeEntryPointGatesBySource S (reads_notes parse) md) n = Some gates"
    and "g \<in> set gates"
  shows "clean_gate g"
proof -
  have step: "all_clean (foldl (\<lambda>al (key, a). if is_source S a
        then AList.update (source_label (S ! a)) (fst (collectEntryPointGates S m (reads_notes parse) (Some a) [] True [])) al
        else al) al cs)" if "all_clean al" for al cs m
    using that
  proof (induction cs arbitrary: al)
    case (Cons c cs)
    obtain key a where c: "c = (key, a)" by force
    have "all_clean (AList.update (source_label (S ! a))
        (fst (collectEntryPointGates S m (reads_notes parse) (Some a) [] True [])) al)"
      by (rule all_clean_update [OF Cons.prems]) (rule collected_clean [OF assms(1)])
    from Cons.IH [OF this] Cons.IH [OF Cons.prems] show ?case by (simp add: c)
  qed simp
  have "all_clean []" by (simp add: all_clean_def)
  with step [of "[]"] have "all_clean (computeEntryPointGatesBySource S (reads_notes parse) md)"
    by (cases md) (simp_all add: computeEntryPointGatesBySource_def)
  moreover have "gates \<in> snd ` set (computeEntryPointGatesBySource S (reads_notes parse) md)"
    using map_of_SomeD [OF assms(2)] by force
  ultimately show ?thesis using assms(3) unfolding all_clean_def by blast
qed

lemma collected_cover_walk:
  assumes "collectAuthorizeEntryPointGates S (reads_notes parse) m run scope skip = Inr (gates, md, struct)"
    and "separable S parse"
    and "entryPointGatesBySource m = computeEntryPointGatesBySource S (reads_notes parse) (ownModel m)"
    and "g \<in> set (walk_gates S (reads_notes parse) (resolveRunTargetStruct (ownModel m) run))"
  shows "\<exists>h \<in> set gates. gateExprs h = gateExprs g"
proof -
  define walked where "walked = walk_gates S (reads_notes parse) (resolveRunTargetStruct (ownModel m) run)"
  consider "gates = walked"
    | n onDisk where "map_of (entryPointGatesBySource m) n = Some onDisk" "gates = fold_on_disk walked onDisk"
    using assms(1) by (auto simp: collectAuthorizeEntryPointGates_def bind_r_eq_Inr Let_def walked_def split: option.splits if_splits)
  then show ?thesis
  proof cases
    case 1
    with assms(4) show ?thesis by (auto simp: walked_def)
  next
    case (2 n onDisk)
    from fold_on_disk_keeps [of g walked onDisk] assms(4) obtain h where
        h: "h \<in> set gates" "entry_key h = entry_key g" unfolding walked_def 2(2) by blast
    have "clean_gate g" by (rule walk_gates_clean [OF assms(2,4)])
    moreover have "clean_gate h"
      using fold_on_disk_from [of h walked onDisk] h(1) walk_gates_clean [OF assms(2), of h]
        computed_gates_clean [OF assms(2) 2(1) [unfolded assms(3)], of h]
      unfolding 2(2) walked_def by blast
    ultimately have "gateExprs h = gateExprs g" using entry_key_exprs h(2) by blast
    with h(1) show ?thesis by blast
  qed
qed

subsection \<open>Every gate is in effect\<close>

lemma resolveGateShape_row:
  assumes "fst (resolveGateShape S entry origin gscope declared Map.empty) = RowLevel t f cond names"
  shows "f = gateFilterText (gateExprs entry)" and "code cond = Some f"
proof -
  obtain load where "f = gateFilterText (gateExprs entry)" "liftGateCondition t f load = Inr cond"
    using assms
    by (auto simp: resolveGateShape_def gate_shape_of_def Let_def split: option.splits sum.splits Classification.splits)
  with liftGateCondition_Inr(2) show "f = gateFilterText (gateExprs entry)" "code cond = Some f" by blast+
qed

lemma admit_gate_row:
  assumes "admit_gate S m md scope entry = Inr row"
  shows "code (partCondition row) = Some (gateFilterText (gateExprs entry))"
proof -
  obtain origin t f cond names where
      "fst (resolveGateShape S entry origin scope (surface m) Map.empty) = RowLevel t f cond names"
      "partCondition row = cond"
    using assms by (auto simp: admit_gate_def split: option.splits GateShape.GateShape.splits)
  with resolveGateShape_row show ?thesis by metis
qed

lemma mapM_r_row:
  "mapM_r f xs = Inr ys \<Longrightarrow> x \<in> set xs \<Longrightarrow> \<exists>y \<in> set ys. f x = Inr y"
  unfolding mapM_r_Inr by (auto simp: list_all2_conv_all_nth in_set_conv_nth)

lemma probe_rows:
  assumes "probeEntryPointGates S exprsOf pairsOf m run scope skip = Inr rows"
  obtains gates md struct rowLevel parts where "collectAuthorizeEntryPointGates S exprsOf m run scope skip = Inr (gates, md, struct)"
    and "mapM_r (admit_gate S m md scope) gates = Inr rowLevel"
    and "resolvePartitionGraftEntries S pairsOf struct md scope (surface m) = Inr parts" and "rows = rowLevel @ parts"
proof -
  obtain gates md struct rowLevel where c: "collectAuthorizeEntryPointGates S exprsOf m run scope skip = Inr (gates, md, struct)"
      "mapM_r (admit_gate S m md scope) gates = Inr rowLevel"
    and r: "(case resolvePartitionGraftEntries S pairsOf struct md scope (surface m) of
        Inl _ \<Rightarrow> Inl (case struct of Some a \<Rightarrow> source_label (S ! a) | None \<Rightarrow> ''unknown'')
      | Inr parts \<Rightarrow> Inr (rowLevel @ parts)) = Inr rows"
    using assms by (auto simp: probeEntryPointGates_def bind_r_eq_Inr)
  from r obtain parts where "resolvePartitionGraftEntries S pairsOf struct md scope (surface m) = Inr parts" "rows = rowLevel @ parts"
    by (cases "resolvePartitionGraftEntries S pairsOf struct md scope (surface m)") auto
  with c that show ?thesis by blast
qed

lemma collected_target:
  "collectAuthorizeEntryPointGates S exprsOf m run scope skip = Inr (gates, md, struct) \<Longrightarrow>
   md = fst (snd (resolveRunTargetStruct (ownModel m) run)) \<and> struct = fst (resolveRunTargetStruct (ownModel m) run)"
  by (auto simp: collectAuthorizeEntryPointGates_def bind_r_eq_Inr Let_def)

text \<open>The row filters of a probe hold one for every gate the walk of the query's struct finds.\<close>

lemma probe_covers_walk:
  assumes "probeEntryPointGates S (reads_notes parse) pairsOf m run scope skip = Inr rows" and "separable S parse"
    and "entryPointGatesBySource m = computeEntryPointGatesBySource S (reads_notes parse) (ownModel m)"
    and "g \<in> set (walk_gates S (reads_notes parse) (resolveRunTargetStruct (ownModel m) run))"
  shows "\<exists>row \<in> set rows. code (partCondition row) = Some (gateFilterText (gateExprs g))"
proof -
  from assms(1) obtain gates md struct rowLevel parts where
      c: "collectAuthorizeEntryPointGates S (reads_notes parse) m run scope skip = Inr (gates, md, struct)"
    and r: "mapM_r (admit_gate S m md scope) gates = Inr rowLevel" "rows = rowLevel @ parts"
    by (rule probe_rows)
  from collected_cover_walk [OF c assms(2-4)] obtain h where h: "h \<in> set gates" "gateExprs h = gateExprs g" by blast
  from mapM_r_row [OF r(1) h(1)] obtain row where "row \<in> set rowLevel" "admit_gate S m md scope h = Inr row" by blast
  with admit_gate_row h(2) r(2) show ?thesis by fastforce
qed

lemma bind_grafted_lands:
  assumes "bind_grafted S m scope opts rc grafts = Some r" and "proveGraft opts = None" and "g \<in> set grafts"
  shows "\<exists>p c. r = Some p \<and> code (condition g) = Some c \<and> filter_in_effect S (ownModel m) p c"
proof -
  have "assertGateLanded S (ownModel m) r grafts"
    using assms(1,2) by (auto simp: bind_grafted_def split: option.splits sum.splits if_splits)
  from assertGateLanded_sound [OF this assms(3)] show ?thesis by blast
qed

text \<open>
  C1: A query that is run is a query with all its gates in effect. Whatever struct it runs over and
  however that is derived, through query sources, composites and their resolved branches, shared or
  cyclic, every struct its rows come from has a gate whose alternatives are exactly those its own notes
  declare, without the ones copied onto it from its base, which are a gate beside it; or the gate it inherits,
  or one that nobody passes where something cannot be read. Each of these gates is the exact text of a
  filter on a struct that the recompiled query executes. Where one cannot be classified, grafted or found
  again, the query is denied.
\<close>

theorem bound_query_is_gated:
  assumes "authorizeAndBindRunnable S (reads_notes parse) pairsOf m run givens opts = Bound r filtered"
    and "\<not> bypassAuthorize opts" and "recompile opts \<noteq> None" and "proveGraft opts = None"
    and "entryPointGatesBySource m = computeEntryPointGatesBySource S (reads_notes parse) (ownModel m)"
    and "separable S parse" and "resolveRunTargetStruct (ownModel m) run = (Some a, Some md, composite)"
    and "rows_from S (Some a, Some md, composite) x"
  shows "\<exists>gates copied. rows_enter S (Some a, Some md, composite) x copied \<and> struct_enforced S md parse gates x copied
    \<and> (\<forall>g \<in> set gates. \<exists>p. r = Some p \<and> filter_in_effect S (ownModel m) p (gateFilterText (gateExprs g)))"
proof -
  let ?gates = "walk_gates S (reads_notes parse) (Some a, Some md, composite)"
  have "\<exists>p. r = Some p \<and> filter_in_effect S (ownModel m) p (gateFilterText (gateExprs g))" if g: "g \<in> set ?gates" for g
    using assms(1,2)
  proof (cases rule: bound_cases)
    case ungated
    with probe_covers_walk [OF ungated(1) assms(6,5)] g assms(7) show ?thesis by auto
  next
    case (checked rows)
    with assms(3) show ?thesis by simp
  next
    case (grafted rows rc)
    with probe_covers_walk [OF grafted(1) assms(6,5)] g assms(7) obtain row where
        row: "row \<in> set rows" "code (partCondition row) = Some (gateFilterText (gateExprs g))" by auto
    with bind_grafted_lands [OF grafted(4) assms(4), of "as_graft row"] show ?thesis by (auto simp: as_graft_def)
  qed
  with walk_gates_complete [OF assms(8), of parse] show ?thesis by blast
qed

text \<open>
  So is its partition: every declared pair of the source a query runs over, or of what that is
  derived from, is a filter in effect comparing that column with that given, and a query whose
  partition cannot be read or attached is denied.
\<close>

theorem bound_query_is_partitioned:
  assumes "authorizeAndBindRunnable S exprsOf pairsOf m run givens opts = Bound r filtered"
    and "\<not> bypassAuthorize opts" and "recompile opts \<noteq> None" and "proveGraft opts = None"
    and "resolveRunTargetStruct (ownModel m) run = (Some a, Some md, composite)"
  shows "\<exists>pairs. resolveEntryPointPartitions S md pairsOf (Some a) = Inr pairs
    \<and> (\<forall>pair \<in> set pairs. \<exists>p. r = Some p
        \<and> filter_in_effect S (ownModel m) p (column pair @ '' = $'' @ given pair))"
proof -
  obtain rows where probe: "probeEntryPointGates S exprsOf pairsOf m run (bind_scope m opts) (skipOwn opts) = Inr rows"
    using assms(1,2) by (cases rule: bound_cases) auto
  from probe obtain gates md' struct rowLevel parts where
      c: "collectAuthorizeEntryPointGates S exprsOf m run (bind_scope m opts) (skipOwn opts) = Inr (gates, md', struct)"
    and parts': "resolvePartitionGraftEntries S pairsOf struct md' (bind_scope m opts) (surface m) = Inr parts"
    and rows: "rows = rowLevel @ parts"
    by (rule probe_rows)
  from parts' collected_target [OF c] assms(5)
  have parts: "resolvePartitionGraftEntries S pairsOf (Some a) (Some md) (bind_scope m opts) (surface m) = Inr parts" by simp
  obtain pairs where pairs: "resolveEntryPointPartitions S md pairsOf (Some a) = Inr pairs"
    using parts by (auto simp: resolvePartitionGraftEntries_def split: sum.splits)
  have "\<exists>p. r = Some p \<and> filter_in_effect S (ownModel m) p (column pair @ '' = $'' @ given pair)"
    if pair: "pair \<in> set pairs" for pair
  proof -
    from pair pairs parts obtain t and scope :: GraftScope where
        "mapM_r (partition_entry (source_label (S ! a)) t (surface m) (scopeLoad scope)) pairs = Inr parts"
      by (auto simp: resolvePartitionGraftEntries_def split: option.splits if_splits)
    from mapM_r_row [OF this pair] obtain e where e: "e \<in> set parts"
        "partition_entry (source_label (S ! a)) t (surface m) (scopeLoad scope) pair = Inr e" by blast
    then obtain cond where "liftGateCondition t (column pair @ '' = $'' @ given pair) (scopeLoad scope) = Inr cond"
        "partCondition e = cond"
      by (auto simp: partition_entry_def Let_def split: if_splits sum.splits)
    with liftGateCondition_Inr(2) have code: "code (partCondition e) = Some (column pair @ '' = $'' @ given pair)" by metis
    show ?thesis using assms(1,2)
    proof (cases rule: bound_cases)
      case ungated
      with probe rows e(1) show ?thesis by simp
    next
      case (checked rs)
      with assms(3) show ?thesis by simp
    next
      case (grafted rs rc)
      with probe rows e(1) have "as_graft e \<in> set (map as_graft rs)" by auto
      from bind_grafted_lands [OF grafted(4) assms(4) this] code show ?thesis by (auto simp: as_graft_def)
    qed
  qed
  with pairs show ?thesis by blast
qed

text \<open>
  A query that is only checked, with no model to recompile it against, is let through only when it
  has no row filter or the caller supplied every given of every one of them.
\<close>

theorem check_only_is_decided:
  assumes "authorizeAndBindRunnable S exprsOf pairsOf m run givens opts = Bound r filtered"
    and "\<not> bypassAuthorize opts" and "recompile opts = None"
  shows "r = run \<and> (\<exists>rows. probeEntryPointGates S exprsOf pairsOf m run (bind_scope m opts) (skipOwn opts) = Inr rows
    \<and> (\<forall>row \<in> set rows. set (partGivens row) \<subseteq> givens \<and> checkOnly opts))"
  using assms(1,2)
proof (cases rule: bound_cases)
  case ungated
  then show ?thesis by simp
next
  case (checked rows)
  then show ?thesis by (auto simp: list_all_iff decidable_with_def)
next
  case (grafted rows rc)
  with assms(3) show ?thesis by simp
qed

subsection \<open>Instances\<close>

text \<open>\<open>orders\<close> is gated and has a partition on \<open>c\<close>; its compiler knows the gate and the partition.\<close>

definition demo_gate_parse :: "string \<Rightarrow> AuthorizeError + string option" where
  "demo_gate_parse t = (if t = ''authorized'' then Inr (Some t) else Inr None)"

definition demo_served :: sources where
  "demo_served = [(demo_struct ''orders'' ''table'' [demo_note 0 ''authorized'', demo_note 1 ''P''])\<lparr>fieldDefs := fieldDefs (demo_joined ! 0)\<rparr>,
     demo_joined ! 1]"

definition demo_served_load :: materializer where
  "demo_served_load probe =
     (if probe = buildRowLevelProbe ''orders'' ''c = $G'' then Inr (Some [demo_condition\<lparr>code := Some ''c = $G''\<rparr>])
      else demo_load probe)"

definition demo_gate_model :: GateModel where
  "demo_gate_model = \<lparr>ownModel = Some (demo_gated demo_givens), ownLoad = Some demo_served_load, hasRuntime = True,
     baseFilters = (\<lambda>_. []), surface = {''GROUPS'', ''G''},
     entryPointGatesBySource = computeEntryPointGatesBySource demo_served (reads_notes demo_gate_parse) (Some (demo_gated demo_givens))\<rparr>"

definition demo_opts :: BindOptions where
  "demo_opts = \<lparr>recompile = Some (\<lambda>m grafts. Inr (Some (demo_prepared (RefName ''orders'') (graftedFilters m)))),
     proveGraft = None, bypassAuthorize = False, graftScope = None, skipOwn = False, callerQueryText = None, checkOnly = False\<rparr>"

definition demo_run :: runnable where
  "demo_run = Some (demo_prepared (RefName ''orders'') (\<lambda>_. []))"

lemma demo_bound:
  obtains r where "authorizeAndBindRunnable demo_served (reads_notes demo_gate_parse) demo_pairs demo_gate_model demo_run {} demo_opts
    = Bound r True"
proof -
  have "(case authorizeAndBindRunnable demo_served (reads_notes demo_gate_parse) demo_pairs demo_gate_model demo_run {} demo_opts of
      Bound r filtered \<Rightarrow> filtered | Denied _ \<Rightarrow> False)" by code_simp
  then show ?thesis using that by (auto split: Outcome.splits)
qed

lemma demo_target: "resolveRunTargetStruct (ownModel demo_gate_model) demo_run = (Some 0, Some (demo_gated demo_givens), None)"
  by (simp add: resolveRunTargetStruct_def demo_gate_model_def demo_run_def demo_prepared_def prepared_model_def deref_def demo_gated_def)

lemma demo_separable: "separable demo_served demo_gate_parse"
  by (auto simp: separable_def demo_gate_parse_def demo_served_def demo_joined_def demo_struct_def source_label_def less_Suc_eq)

lemma bound_query_is_gated_witness:
  "\<exists>p exprs. filter_in_effect demo_served (Some (demo_gated demo_givens)) p (gateFilterText exprs)
     \<and> (''authorized'' \<in> set exprs \<or> exprs = [''false''])"
proof -
  obtain r where r: "authorizeAndBindRunnable demo_served (reads_notes demo_gate_parse) demo_pairs demo_gate_model demo_run {} demo_opts
    = Bound r True" by (rule demo_bound)
  have "rows_from demo_served (Some 0, Some (demo_gated demo_givens), None) 0"
    by (simp add: rows_from_def demo_served_def derives_self)
  from bound_query_is_gated [OF r _ _ _ _ demo_separable demo_target this] obtain gates copied where
      gates: "struct_enforced demo_served (demo_gated demo_givens) demo_gate_parse gates 0 copied"
      "\<forall>g \<in> set gates. \<exists>p. r = Some p \<and> filter_in_effect demo_served (ownModel demo_gate_model) p (gateFilterText (gateExprs g))"
    by (auto simp: demo_opts_def demo_gate_model_def)
  have "demo_note 0 ''authorized'' \<in> set (ownLevelNotes (annotations (demo_served ! 0)))"
    by (simp add: demo_served_def demo_struct_def ownLevelNotes_def)
  with gates(1) have "note_enforced demo_gate_parse gates (demo_note 0 ''authorized'')"
    unfolding struct_enforced_def by blast
  then have "\<exists>g \<in> set gates. ''authorized'' \<in> set (gateExprs g) \<or> gateExprs g = [''false'']"
    by (auto simp: note_enforced_def denies_def demo_gate_parse_def demo_note_def)
  with gates(2) show ?thesis by (fastforce simp: demo_gate_model_def)
qed

lemma bound_query_is_partitioned_witness:
  "\<exists>p. filter_in_effect demo_served (Some (demo_gated demo_givens)) p ''c = $G''"
proof -
  obtain r where r: "authorizeAndBindRunnable demo_served (reads_notes demo_gate_parse) demo_pairs demo_gate_model demo_run {} demo_opts
    = Bound r True" by (rule demo_bound)
  have "resolveEntryPointPartitions demo_served (demo_gated demo_givens) demo_pairs (Some 0) = Inr [\<lparr>column = ''c'', given = ''G''\<rparr>]"
    by code_simp
  with bound_query_is_partitioned [OF r _ _ _ demo_target] show ?thesis
    by (auto simp: demo_opts_def demo_gate_model_def)
qed

lemma check_only_is_decided_witness:
  "\<exists>rows. probeEntryPointGates demo_served (reads_notes demo_gate_parse) demo_pairs demo_gate_model demo_run
       (bind_scope demo_gate_model (demo_opts\<lparr>recompile := None, checkOnly := True\<rparr>)) False = Inr rows
     \<and> (\<Union>row \<in> set rows. set (partGivens row)) \<subseteq> {''GROUPS'', ''G''}"
proof -
  have "(case authorizeAndBindRunnable demo_served (reads_notes demo_gate_parse) demo_pairs demo_gate_model demo_run {''GROUPS'', ''G''}
      (demo_opts\<lparr>recompile := None, checkOnly := True\<rparr>) of Bound r filtered \<Rightarrow> True | Denied _ \<Rightarrow> False)" by code_simp
  then obtain r filtered where r: "authorizeAndBindRunnable demo_served (reads_notes demo_gate_parse) demo_pairs demo_gate_model demo_run
      {''GROUPS'', ''G''} (demo_opts\<lparr>recompile := None, checkOnly := True\<rparr>) = Bound r filtered"
    by (auto split: Outcome.splits)
  from check_only_is_decided [OF r] show ?thesis by (auto simp: demo_opts_def)
qed

text \<open>A caller's own \<open>mine\<close> over the ungated \<open>open\<close>, in a model that also has a gated source.\<close>

definition demo_open_model :: GateModel where
  "demo_open_model = demo_gate_model\<lparr>entryPointGatesBySource := [(''orders'', [demo_entry]), (''open'', [])]\<rparr>"

definition demo_query :: string where
  "demo_query = ''source: mine is open extend {} run: mine -> { select: a }''"

lemma laundered_gate_is_denied_witness:
  "map_of (entryPointGatesBySource demo_open_model) ''open'' = Some []
   \<and> authorizeAndBindRunnable demo_served (reads_notes demo_gate_parse) demo_pairs demo_open_model
       (Some (demo_prepared (RefName ''mine'') (\<lambda>_. []))) {}
       (demo_opts\<lparr>callerQueryText := Some ''source: mine is orders extend {} run: mine -> { select: a }''\<rparr>) = Denied ''mine''"
proof
  let ?bases = "buildDerivationBaseMap (stripMalloyCommentsAndLiterals demo_query)"
  let ?run = "Some (demo_prepared (RefName ''mine'') (\<lambda>_. []))"
  have "(case authorizeAndBindRunnable demo_served (reads_notes demo_gate_parse) demo_pairs demo_open_model ?run {}
      (demo_opts\<lparr>callerQueryText := Some demo_query\<rparr>) of Bound r filtered \<Rightarrow> \<not> filtered | Denied _ \<Rightarrow> False)" by code_simp
  then obtain r where r: "authorizeAndBindRunnable demo_served (reads_notes demo_gate_parse) demo_pairs demo_open_model ?run {}
      (demo_opts\<lparr>callerQueryText := Some demo_query\<rparr>) = Bound r False"
    by (auto split: Outcome.splits)
  have bases: "?bases = [(''mine'', [''open''])]" by code_simp
  have "chain_reaches (entryPointGatesBySource demo_open_model) ?bases ''mine'' ''open''"
    by (rule chain_base [OF chain_entry]) (simp_all add: bases bases_of_def demo_open_model_def)
  from laundered_gate_is_denied [OF r _ _ _ _ _ _ _ _ _ this]
  show "map_of (entryPointGatesBySource demo_open_model) ''open'' = Some []"
    by (simp add: demo_opts_def demo_query_def demo_open_model_def declaresAnyGate_def resolveAuthorizeSourceFromRunnable_def
        demo_prepared_def bases [unfolded demo_query_def] bases_of_def)
next
  show "authorizeAndBindRunnable demo_served (reads_notes demo_gate_parse) demo_pairs demo_open_model
       (Some (demo_prepared (RefName ''mine'') (\<lambda>_. []))) {}
       (demo_opts\<lparr>callerQueryText := Some ''source: mine is orders extend {} run: mine -> { select: a }''\<rparr>) = Denied ''mine''"
  proof -
    have "(case authorizeAndBindRunnable demo_served (reads_notes demo_gate_parse) demo_pairs demo_open_model
         (Some (demo_prepared (RefName ''mine'') (\<lambda>_. []))) {}
         (demo_opts\<lparr>callerQueryText := Some ''source: mine is orders extend {} run: mine -> { select: a }''\<rparr>) of
         Denied l \<Rightarrow> l = ''mine'' | Bound r f \<Rightarrow> False)" by code_simp
    then show ?thesis by (auto split: Outcome.splits)
  qed
qed

end
