(* ===== verification/Boundary.thy ===== *)
theory Boundary
  imports QueryText
begin

text \<open>
  What a package lets a caller discover and query (\<open>service/package.ts\<close>: the policies a package pushes to
  its models; \<open>service/model.ts\<close>: discovery curation and the two-step query boundary). Compiled definitions
  are known by their location, since that is their identity here.
\<close>

subsection \<open>Models and their discovery surface\<close>

record Location =
  locUrl :: "string option"
  locStart :: "(nat option \<times> nat option) option"

record QueryBoundary =
  allQueryable :: bool
  exploresDeclared :: bool
  isQueryEntryPoint :: bool
  packageCuratedSources :: "(string \<times> string list) list option"
  packageCuratedQueries :: "(string \<times> string list) list option"

text \<open>Sources and queries by name; \<open>exports\<close> is \<open>modelDef.exports\<close> where that is an array.\<close>

record ServedModel =
  modelPath :: string
  sourceNames :: "string option list option"
  queryNames :: "string option list option"
  exports :: "string list option"
  definitionAt :: "string \<Rightarrow> Location option"
  discoveryCuration :: bool
  queryBoundary :: QueryBoundary

definition curateForDiscovery :: "ServedModel \<Rightarrow> string option list option \<Rightarrow> string option list option" where
  "curateForDiscovery m items =
     (case items of
        None \<Rightarrow> None
      | Some names \<Rightarrow>
          if \<not> discoveryCuration m then Some names
          else (case exports m of
              None \<Rightarrow> Some names
            | Some ex \<Rightarrow> Some (List.filter (\<lambda>n. n \<noteq> None \<and> the n \<in> set ex) names)))"

definition getSources :: "ServedModel \<Rightarrow> string option list option" where
  "getSources m = curateForDiscovery m (sourceNames m)"

definition getQueries :: "ServedModel \<Rightarrow> string option list option" where
  "getQueries m = curateForDiscovery m (queryNames m)"

definition or_minus_one :: "nat option \<Rightarrow> string" where
  "or_minus_one n = (case n of Some k \<Rightarrow> digits_of k | None \<Rightarrow> ''-1'')"

definition definitionIdentity :: "ServedModel \<Rightarrow> string option \<Rightarrow> string option" where
  "definitionIdentity m name =
     (if name = None \<or> name = Some [] then None
      else case definitionAt m (the name) of
        None \<Rightarrow> None
      | Some loc \<Rightarrow>
          (if locUrl loc = None \<or> locUrl loc = Some [] then None
           else let (line, character) = (case locStart loc of Some p \<Rightarrow> p | None \<Rightarrow> (None, None)) in
             Some (the (locUrl loc) @ ''#'' @ or_minus_one line @ '':'' @ or_minus_one character)))"

subsection \<open>The policy of a package\<close>

record ServedPackage =
  explores :: "string list option"
  queryableSources :: "string option"
  packageModels :: "(string \<times> ServedModel) list"

definition MODEL_FILE_SUFFIX :: string where "MODEL_FILE_SUFFIX = ''.malloy''"
definition NOTEBOOK_FILE_SUFFIX :: string where "NOTEBOOK_FILE_SUFFIX = ''.malloynb''"

definition explores_declared :: "ServedPackage \<Rightarrow> bool" where
  "explores_declared p \<longleftrightarrow> explores p \<noteq> None \<and> explores p \<noteq> Some []"

definition exploreSet :: "ServedPackage \<Rightarrow> string set option" where
  "exploreSet p = (case explores p of Some es \<Rightarrow> if es = [] then None else Some (set es) | None \<Rightarrow> None)"

definition applyDiscoveryPolicyToModels :: "ServedPackage \<Rightarrow> ServedPackage" where
  "applyDiscoveryPolicyToModels p =
     p\<lparr>packageModels := map (\<lambda>(path, m). (path, m\<lparr>discoveryCuration := explores_declared p\<rparr>)) (packageModels p)\<rparr>"

text \<open>\<open>add\<close>: an identity under a name.\<close>

definition add_identity :: "string option \<Rightarrow> string option \<Rightarrow> (string \<times> string list) list \<Rightarrow> (string \<times> string list) list" where
  "add_identity name identity into =
     (case (name, identity) of
        (Some n, Some i) \<Rightarrow>
          (if n = [] \<or> i = [] then into
           else case map_of into n of
             Some ids \<Rightarrow> AList.update n (if i \<in> set ids then ids else ids @ [i]) into
           | None \<Rightarrow> AList.update n [i] into)
      | _ \<Rightarrow> into)"

definition listed_model :: "ServedPackage \<Rightarrow> string \<Rightarrow> bool" where
  "listed_model p path \<longleftrightarrow> suffix MODEL_FILE_SUFFIX path \<and> (case exploreSet p of Some es \<Rightarrow> path \<in> es | None \<Rightarrow> False)"

definition curated_map :: "(ServedModel \<Rightarrow> string option list option) \<Rightarrow> ServedPackage \<Rightarrow> (string \<times> string list) list" where
  "curated_map names p =
     foldl (\<lambda>into (path, m).
        if listed_model p path
        then foldl (\<lambda>into n. add_identity n (definitionIdentity m n) into) into
          (case names m of Some ns \<Rightarrow> ns | None \<Rightarrow> [])
        else into) [] (packageModels p)"

definition applyQueryBoundaryToModels :: "ServedPackage \<Rightarrow> ServedPackage" where
  "applyQueryBoundaryToModels p =
     (let allq = (queryableSources p = Some ''all'');
          active = (\<not> allq \<and> explores_declared p) in
      p\<lparr>packageModels := map (\<lambda>(path, m). (path, m\<lparr>queryBoundary :=
          \<lparr>allQueryable = allq, exploresDeclared = explores_declared p,
           isQueryEntryPoint = (case exploreSet p of Some es \<Rightarrow> path \<in> es | None \<Rightarrow> True),
           packageCuratedSources = (if active then Some (curated_map getSources p) else None),
           packageCuratedQueries = (if active then Some (curated_map getQueries p) else None)\<rparr>\<rparr>)) (packageModels p)\<rparr>)"

definition apply_policies :: "ServedPackage \<Rightarrow> ServedPackage" where
  "apply_policies p = applyQueryBoundaryToModels (applyDiscoveryPolicyToModels p)"

datatype ExploreProblem = NotebookExplore string | FileNotFound string

definition getInvalidExplores :: "ServedPackage \<Rightarrow> string list option \<Rightarrow> ExploreProblem list" where
  "getInvalidExplores p override =
     (case (case override of Some es \<Rightarrow> Some es | None \<Rightarrow> explores p) of
        None \<Rightarrow> []
      | Some declared \<Rightarrow>
          somes (map (\<lambda>entry.
            if suffix NOTEBOOK_FILE_SUFFIX entry then Some (NotebookExplore entry)
            else if entry \<notin> fst ` set (packageModels p) \<or> \<not> suffix MODEL_FILE_SUFFIX entry then Some (FileNotFound entry)
            else None) declared))"

definition listModels :: "ServedPackage \<Rightarrow> string list" where
  "listModels p = List.filter (\<lambda>path. suffix MODEL_FILE_SUFFIX path
     \<and> (case exploreSet p of Some es \<Rightarrow> path \<in> es | None \<Rightarrow> True)) (map fst (packageModels p))"

definition queryBoundaryActive :: "ServedPackage \<Rightarrow> bool" where
  "queryBoundaryActive p \<longleftrightarrow> queryableSources p \<noteq> Some ''all'' \<and> explores_declared p"

definition isQueryableEntryPoint :: "ServedPackage \<Rightarrow> string \<Rightarrow> bool" where
  "isQueryableEntryPoint p path \<longleftrightarrow>
     (if \<not> queryBoundaryActive p then True else case exploreSet p of Some es \<Rightarrow> path \<in> es | None \<Rightarrow> True)"

definition getCompileAuthorizationModel :: "ServedPackage \<Rightarrow> string \<Rightarrow> ServedModel option \<times> bool" where
  "getCompileAuthorizationModel p path =
     (case map_of (packageModels p) path of
        Some m \<Rightarrow> (Some m, True)
      | None \<Rightarrow> (case packageModels p of [] \<Rightarrow> None | (_, m) # _ \<Rightarrow> Some m, False))"

subsection \<open>The boundary\<close>

definition admittedByPackage :: "ServedModel \<Rightarrow> string \<Rightarrow> (string \<times> string list) list option \<Rightarrow> bool" where
  "admittedByPackage m name curated =
     (case Option.bind curated (\<lambda>al. map_of al name) of
        None \<Rightarrow> False
      | Some identities \<Rightarrow>
          (case definitionIdentity m (Some name) of None \<Rightarrow> False | Some mine \<Rightarrow> mine \<in> set identities))"

definition ownCuratedSourceNames :: "ServedModel \<Rightarrow> string list" where
  "ownCuratedSourceNames m = somes (case getSources m of Some ns \<Rightarrow> ns | None \<Rightarrow> [])"

definition isCuratedSource :: "ServedModel \<Rightarrow> string \<Rightarrow> bool" where
  "isCuratedSource m name \<longleftrightarrow> name \<in> set (ownCuratedSourceNames m)
     \<or> admittedByPackage m name (packageCuratedSources (queryBoundary m))"

definition isCuratedQuery :: "ServedModel \<Rightarrow> string \<Rightarrow> bool" where
  "isCuratedQuery m name \<longleftrightarrow> Some name \<in> set (case getQueries m of Some ns \<Rightarrow> ns | None \<Rightarrow> [])
     \<or> admittedByPackage m name (packageCuratedQueries (queryBoundary m))"

text \<open>
  \<open>proves\<close> of \<open>derivesFromCurated\<close>, with the names it has proven. The number is what is left of
  \<open>REQUEST_CHAIN_MAX_NAMES\<close> once the names in progress are taken off.
\<close>

fun proves :: "(string \<Rightarrow> bool) \<Rightarrow> (string \<times> string list) list \<Rightarrow> nat \<Rightarrow> string \<Rightarrow> string list \<Rightarrow> string list
    \<Rightarrow> bool \<times> string list"
  and proves_every :: "(string \<Rightarrow> bool) \<Rightarrow> (string \<times> string list) list \<Rightarrow> nat \<Rightarrow> string list \<Rightarrow> string list \<Rightarrow> string list
    \<Rightarrow> bool \<times> string list" where
  "proves curated basesOf n name inProgress proven =
     (if curated name then (True, proven)
      else if name \<in> set proven then (True, proven)
      else if name \<in> set inProgress then (False, proven)
      else case n of
        0 \<Rightarrow> (False, proven)
      | Suc k \<Rightarrow>
          (case map_of basesOf name of
             None \<Rightarrow> (False, proven)
           | Some bases \<Rightarrow>
               if bases = [] then (False, proven)
               else (case proves_every curated basesOf k bases (name # inProgress) proven of
                   (ok, proven') \<Rightarrow> (ok, if ok then name # proven' else proven'))))"
| "proves_every curated basesOf n [] inProgress proven = (True, proven)"
| "proves_every curated basesOf n (b # bs) inProgress proven =
     (case proves curated basesOf n b inProgress proven of
        (ok, proven') \<Rightarrow> if ok then proves_every curated basesOf n bs inProgress proven' else (False, proven'))"

definition DERIVATION_MAX_NAMES :: nat where "DERIVATION_MAX_NAMES = 64"

definition derivesFromCurated :: "ServedModel \<Rightarrow> string \<Rightarrow> string \<Rightarrow> bool" where
  "derivesFromCurated m name query = fst (proves (isCuratedSource m)
     (buildDerivationBaseMap (stripMalloyCommentsAndLiterals query)) DERIVATION_MAX_NAMES name [] [])"

datatype EarlyVerdict = Cleared | Deferred

datatype NotQueryable = NoModel string | NoQuery string | NoSource string | NoTarget

definition inert :: "QueryBoundary \<Rightarrow> bool" where
  "inert b \<longleftrightarrow> allQueryable b \<or> \<not> exploresDeclared b"

definition truthy :: "string option \<Rightarrow> bool" where
  "truthy s \<longleftrightarrow> s \<noteq> None \<and> s \<noteq> Some []"

definition assertQueryBoundaryEarly ::
  "ServedModel \<Rightarrow> string option \<Rightarrow> string option \<Rightarrow> string option \<Rightarrow> NotQueryable + EarlyVerdict" where
  "assertQueryBoundaryEarly m source queryName query =
     (if suffix NOTEBOOK_FILE_SUFFIX (modelPath m) then Inr Cleared
      else if inert (queryBoundary m) then Inr Cleared
      else if \<not> isQueryEntryPoint (queryBoundary m) then Inl (NoModel (modelPath m))
      else if truthy queryName \<and> \<not> truthy query then
        (if \<not> truthy source \<and> isCuratedQuery m (the queryName) then Inr Cleared
         else if truthy source \<and> isCuratedSource m (the source) then Inr Cleared
         else Inl (NoQuery (the queryName)))
      else if truthy source then (if isCuratedSource m (the source) then Inr Cleared else Inl (NoSource (the source)))
      else if truthy query then
        (case extractRunTargetSourceName query of
           None \<Rightarrow> Inr Deferred
         | Some target \<Rightarrow>
             if target \<noteq> [] \<and> \<not> isCuratedSource m target \<and> \<not> derivesFromCurated m target (the query)
                \<and> Some target \<in> set (case sourceNames m of Some ns \<Rightarrow> ns | None \<Rightarrow> [])
             then Inl (NoSource target) else Inr Deferred)
      else Inr Deferred)"

definition assertQueryBoundaryCompiled :: "ServedModel \<Rightarrow> string option \<Rightarrow> string option \<Rightarrow> NotQueryable + unit" where
  "assertQueryBoundaryCompiled m compiledSource query =
     (if suffix NOTEBOOK_FILE_SUFFIX (modelPath m) then Inr ()
      else if inert (queryBoundary m) then Inr ()
      else if \<not> isQueryEntryPoint (queryBoundary m) then Inl (NoModel (modelPath m))
      else if truthy compiledSource
         \<and> (isCuratedSource m (the compiledSource)
            \<or> truthy query \<and> derivesFromCurated m (the compiledSource) (the query))
      then Inr () else Inl NoTarget)"

text \<open>Both steps, as \<open>getQueryResults\<close> takes them: the second only settles what the first deferred.\<close>

definition query_boundary ::
  "ServedModel \<Rightarrow> string option \<Rightarrow> string option \<Rightarrow> string option \<Rightarrow> string option \<Rightarrow> NotQueryable + unit" where
  "query_boundary m source queryName query compiledSource =
     (case assertQueryBoundaryEarly m source queryName query of
        Inl e \<Rightarrow> Inl e
      | Inr Cleared \<Rightarrow> Inr ()
      | Inr Deferred \<Rightarrow> assertQueryBoundaryCompiled m compiledSource query)"

subsection \<open>A derivation is followed exactly\<close>

text \<open>A name rests on curated sources, through at most so many declarations, every one of its bases.\<close>

fun grounded :: "(string \<Rightarrow> bool) \<Rightarrow> (string \<times> string list) list \<Rightarrow> nat \<Rightarrow> string \<Rightarrow> bool" where
  "grounded curated basesOf 0 name \<longleftrightarrow> curated name"
| "grounded curated basesOf (Suc k) name \<longleftrightarrow> curated name
     \<or> (bases_of basesOf name \<noteq> {} \<and> (\<forall>b \<in> bases_of basesOf name. grounded curated basesOf k b))"

lemma grounded_Suc: "grounded curated basesOf k name \<Longrightarrow> grounded curated basesOf (Suc k) name"
  by (induction k arbitrary: name) auto

lemma grounded_mono: "grounded curated basesOf k name \<Longrightarrow> k \<le> n \<Longrightarrow> grounded curated basesOf n name"
  by (induction n) (use grounded_Suc in \<open>auto simp: le_Suc_eq simp del: grounded.simps\<close>)

definition rests_on_curated :: "(string \<Rightarrow> bool) \<Rightarrow> (string \<times> string list) list \<Rightarrow> string \<Rightarrow> bool" where
  "rests_on_curated curated basesOf name \<longleftrightarrow> (\<exists>k. grounded curated basesOf k name)"

lemma rests_on_bases:
  assumes "map_of basesOf name = Some bases" and "bases \<noteq> []"
    and "\<forall>b \<in> set bases. rests_on_curated curated basesOf b"
  shows "rests_on_curated curated basesOf name"
proof -
  from assms(3) obtain k where k: "\<forall>b \<in> set bases. grounded curated basesOf (k b) b"
    unfolding rests_on_curated_def by metis
  have "\<forall>b \<in> set bases. grounded curated basesOf (Max (k ` set bases)) b"
    using k grounded_mono by (metis Max_ge finite_imageI finite_set imageI)
  then have "grounded curated basesOf (Suc (Max (k ` set bases))) name"
    using assms(1,2) by (simp add: bases_of_def)
  then show ?thesis unfolding rests_on_curated_def by blast
qed

lemma proves_sound:
  "proves curated basesOf n name inProgress proven = (ok, proven') \<Longrightarrow> \<forall>x \<in> set proven. rests_on_curated curated basesOf x \<Longrightarrow>
     (ok \<longrightarrow> rests_on_curated curated basesOf name) \<and> (\<forall>x \<in> set proven'. rests_on_curated curated basesOf x)"
  "proves_every curated basesOf n bs inProgress proven = (ok, proven') \<Longrightarrow> \<forall>x \<in> set proven. rests_on_curated curated basesOf x \<Longrightarrow>
     (ok \<longrightarrow> (\<forall>b \<in> set bs. rests_on_curated curated basesOf b)) \<and> (\<forall>x \<in> set proven'. rests_on_curated curated basesOf x)"
proof (induction curated basesOf n name inProgress proven and curated basesOf n bs inProgress proven
    arbitrary: ok proven' and ok proven' rule: proves_proves_every.induct)
  case (1 curated basesOf n name inProgress proven)
  show ?case
  proof (cases "curated name \<or> name \<in> set proven")
    case True
    then have "rests_on_curated curated basesOf name"
      using 1(3) by (metis grounded.simps(1) rests_on_curated_def)
    with True 1(2,3) show ?thesis by (auto split: if_splits)
  next
    case False
    show ?thesis
    proof (cases "name \<in> set inProgress \<or> n = 0 \<or> map_of basesOf name = None \<or> map_of basesOf name = Some []")
      case True
      with False 1(2,3) show ?thesis by (auto split: nat.splits if_splits)
    next
      case rec: False
      then obtain k where n: "n = Suc k" by (cases n) auto
      from rec obtain bases where b: "map_of basesOf name = Some bases" "bases \<noteq> []" by (cases "map_of basesOf name") auto
      obtain ok1 p1 where every: "proves_every curated basesOf k bases (name # inProgress) proven = (ok1, p1)" by force
      from 1(2) False rec n b every have r: "ok = ok1" "proven' = (if ok1 then name # p1 else p1)" by auto
      from 1(1) [OF _ _ _ n b every 1(3)] False rec
      have ih: "(ok1 \<longrightarrow> (\<forall>b \<in> set bases. rests_on_curated curated basesOf b)) \<and> (\<forall>x \<in> set p1. rests_on_curated curated basesOf x)"
        by blast
      with rests_on_bases [OF b] r show ?thesis by auto
    qed
  qed
next
  case (3 curated basesOf n b bs inProgress proven)
  obtain ok1 p1 where one: "proves curated basesOf n b inProgress proven = (ok1, p1)" by force
  from 3(1) [OF one 3(4)] have ih: "ok1 \<longrightarrow> rests_on_curated curated basesOf b" "\<forall>x \<in> set p1. rests_on_curated curated basesOf x" by blast+
  show ?case
  proof (cases ok1)
    case True
    with 3(3) one have "proves_every curated basesOf n bs inProgress p1 = (ok, proven')" by simp
    from 3(2) [OF one [symmetric] True this ih(2)] ih True show ?thesis by simp
  next
    case False
    with 3(3) one ih show ?thesis by simp
  qed
qed auto

lemma proves_complete:
  "grounded curated basesOf k name \<Longrightarrow> k \<le> n \<Longrightarrow> \<forall>x \<in> set inProgress. \<not> grounded curated basesOf k x \<Longrightarrow>
     fst (proves curated basesOf n name inProgress proven)"
proof (induction k arbitrary: name n inProgress proven)
  case (Suc k)
  show ?case
  proof (cases "grounded curated basesOf k name")
    case True
    have "\<forall>x \<in> set inProgress. \<not> grounded curated basesOf k x" using Suc.prems(3) grounded_Suc by blast
    from Suc.IH [OF True _ this] Suc.prems(2) show ?thesis by simp
  next
    case False
    show ?thesis
    proof (cases "curated name \<or> name \<in> set proven")
      case True
      then show ?thesis by auto
    next
      case walk: False
      from Suc.prems(2) obtain m where n: "n = Suc m" "k \<le> m" by (cases n) auto
      have fresh: "name \<notin> set inProgress" using Suc.prems(1,3) by blast
      from Suc.prems(1) walk obtain bases where bases: "map_of basesOf name = Some bases" "bases \<noteq> []"
          "\<forall>b \<in> set bases. grounded curated basesOf k b"
        by (auto simp: bases_of_def split: option.splits)
      have every: "fst (proves_every curated basesOf m bs (name # inProgress) p)"
        if "set bs \<subseteq> set bases" for bs p
        using that
      proof (induction bs arbitrary: p)
        case (Cons b bs)
        have "\<forall>x \<in> set (name # inProgress). \<not> grounded curated basesOf k x"
          using False Suc.prems(3) by (auto simp del: grounded.simps dest: grounded_Suc)
        with Suc.IH [of b m "name # inProgress" p] Cons.prems bases(3) n(2)
        have "fst (proves curated basesOf m b (name # inProgress) p)" by auto
        then obtain p1 where "proves curated basesOf m b (name # inProgress) p = (True, p1)"
          by (cases "proves curated basesOf m b (name # inProgress) p") auto
        with Cons show ?case by simp
      qed simp
      from every [of bases proven] obtain p1 where "proves_every curated basesOf m bases (name # inProgress) proven = (True, p1)"
        by (cases "proves_every curated basesOf m bases (name # inProgress) proven") auto
      with fresh bases(1,2) walk n(1) show ?thesis by simp
    qed
  qed
qed simp

lemma derived_rests_on_curated:
  assumes "derivesFromCurated m name query"
  shows "rests_on_curated (isCuratedSource m) (buildDerivationBaseMap (stripMalloyCommentsAndLiterals query)) name"
proof -
  obtain ok p where run: "proves (isCuratedSource m) (buildDerivationBaseMap (stripMalloyCommentsAndLiterals query))
      DERIVATION_MAX_NAMES name [] [] = (ok, p)" by force
  with proves_sound(1) [OF run] assms show ?thesis by (simp add: derivesFromCurated_def)
qed

text \<open>
  A derivation a caller declares is admitted exactly on proof: a name is followed to curated sources
  only if every base it is given in the text rests on them in turn, a cycle or an unreadable name never
  does, and whatever does rest on them through at most 64 declarations is found to.
\<close>

theorem derivation_admitted_on_proof:
  "(derivesFromCurated m name query \<longrightarrow>
      rests_on_curated (isCuratedSource m) (buildDerivationBaseMap (stripMalloyCommentsAndLiterals query)) name)
   \<and> (grounded (isCuratedSource m) (buildDerivationBaseMap (stripMalloyCommentsAndLiterals query)) 64 name \<longrightarrow>
      derivesFromCurated m name query)"
proof
  let ?bases = "buildDerivationBaseMap (stripMalloyCommentsAndLiterals query)"
  show "derivesFromCurated m name query \<longrightarrow> rests_on_curated (isCuratedSource m) ?bases name"
    using derived_rests_on_curated by blast
  show "grounded (isCuratedSource m) ?bases 64 name \<longrightarrow> derivesFromCurated m name query"
    using proves_complete [of "isCuratedSource m" ?bases 64 name DERIVATION_MAX_NAMES "[]" "[]"]
    by (simp add: derivesFromCurated_def DERIVATION_MAX_NAMES_def del: grounded.simps)
qed

subsection \<open>What a package admits\<close>

text \<open>A name means, in \<open>m\<close>, the very declaration some listed model exports under it.\<close>

definition exported_by_listed ::
  "(ServedModel \<Rightarrow> string option list option) \<Rightarrow> ServedPackage \<Rightarrow> ServedModel \<Rightarrow> string \<Rightarrow> bool" where
  "exported_by_listed names p m n \<longleftrightarrow> (\<exists>path m' i. (path, m') \<in> set (packageModels p) \<and> listed_model p path
     \<and> Some n \<in> set (case names m' of Some ns \<Rightarrow> ns | None \<Rightarrow> [])
     \<and> definitionIdentity m' (Some n) = Some i \<and> definitionIdentity m (Some n) = Some i)"

definition identities :: "(string \<times> string list) list \<Rightarrow> string \<Rightarrow> string set" where
  "identities al n = (case map_of al n of Some ids \<Rightarrow> set ids | None \<Rightarrow> {})"

lemma identity_nonempty: "definitionIdentity m name = Some i \<Longrightarrow> i \<noteq> [] \<and> truthy name"
  by (auto simp: definitionIdentity_def truthy_def Let_def split: if_splits option.splits prod.splits)

lemma add_identity_identities:
  "identities (add_identity name (definitionIdentity m name) al) n
     = identities al n \<union> {i. name = Some n \<and> definitionIdentity m name = Some i}"
proof (cases "definitionIdentity m name")
  case None
  then show ?thesis by (simp add: add_identity_def split: option.split)
next
  case (Some i)
  with identity_nonempty obtain k where k: "name = Some k" "k \<noteq> []" "i \<noteq> []" by (fastforce simp: truthy_def)
  show ?thesis
  proof (cases "map_of al k")
    case None
    with Some k show ?thesis by (auto simp: add_identity_def identities_def update_conv' split: option.splits)
  next
    case (Some ids)
    with \<open>definitionIdentity m name = Some i\<close> k show ?thesis
      by (auto simp: add_identity_def identities_def update_conv' split: option.splits)
  qed
qed

lemma add_names_identities:
  "identities (foldl (\<lambda>into n. add_identity n (definitionIdentity m n) into) al ns) n
     = identities al n \<union> {i. Some n \<in> set ns \<and> definitionIdentity m (Some n) = Some i}"
  by (induction ns arbitrary: al) (auto simp: add_identity_identities)

lemma curated_map_identities:
  "identities (curated_map names p) n = {i. \<exists>path m. (path, m) \<in> set (packageModels p) \<and> listed_model p path
     \<and> Some n \<in> set (case names m of Some ns \<Rightarrow> ns | None \<Rightarrow> []) \<and> definitionIdentity m (Some n) = Some i}"
proof -
  have "identities (foldl (\<lambda>into (path, m). if listed_model p path
        then foldl (\<lambda>into n. add_identity n (definitionIdentity m n) into) into (case names m of Some ns \<Rightarrow> ns | None \<Rightarrow> [])
        else into) al ms) n
      = identities al n \<union> {i. \<exists>path m. (path, m) \<in> set ms \<and> listed_model p path
         \<and> Some n \<in> set (case names m of Some ns \<Rightarrow> ns | None \<Rightarrow> []) \<and> definitionIdentity m (Some n) = Some i}" for al ms
  proof (induction ms arbitrary: al)
    case (Cons pm ms)
    obtain path m where pm: "pm = (path, m)" by force
    show ?case
    proof (cases "listed_model p path")
      case True
      then show ?thesis unfolding pm by (simp add: Cons.IH add_names_identities) blast
    next
      case False
      then show ?thesis unfolding pm by (simp add: Cons.IH) blast
    qed
  qed simp
  from this [of "[]" "packageModels p"] show ?thesis by (simp add: curated_map_def identities_def [of "[]"])
qed

lemma admitted_by_curated_map:
  assumes "packageCuratedX = Some (curated_map names p)"
  shows "admittedByPackage m n packageCuratedX \<longleftrightarrow> exported_by_listed names p m n"
proof -
  have "admittedByPackage m n (Some (curated_map names p)) \<longleftrightarrow>
      (\<exists>i. i \<in> identities (curated_map names p) n \<and> definitionIdentity m (Some n) = Some i)"
    by (auto simp: admittedByPackage_def identities_def split: option.splits)
  then show ?thesis unfolding assms curated_map_identities exported_by_listed_def by blast
qed

text \<open>What pushing the boundary to a model does not change.\<close>

lemma boundary_keeps [simp]:
  "definitionIdentity (m\<lparr>queryBoundary := b\<rparr>) n = definitionIdentity m n"
  "getSources (m\<lparr>queryBoundary := b\<rparr>) = getSources m" "getQueries (m\<lparr>queryBoundary := b\<rparr>) = getQueries m"
  by (simp_all add: definitionIdentity_def getSources_def getQueries_def curateForDiscovery_def split: option.split)

definition declared_source :: "ServedPackage \<Rightarrow> ServedModel \<Rightarrow> string \<Rightarrow> bool" where
  "declared_source p m n \<longleftrightarrow> n \<in> set (ownCuratedSourceNames m) \<or> exported_by_listed getSources p m n"

definition declared_query :: "ServedPackage \<Rightarrow> ServedModel \<Rightarrow> string \<Rightarrow> bool" where
  "declared_query p m n \<longleftrightarrow> Some n \<in> set (case getQueries m of Some ns \<Rightarrow> ns | None \<Rightarrow> []) \<or> exported_by_listed getQueries p m n"

lemma pushed_boundary:
  assumes "(path, m) \<in> set (packageModels (apply_policies p))" and "queryBoundaryActive p"
  shows "\<not> inert (queryBoundary m)"
    and "isQueryEntryPoint (queryBoundary m) \<longleftrightarrow> path \<in> set (the (explores p))"
    and "isCuratedSource m n \<longleftrightarrow> declared_source (applyDiscoveryPolicyToModels p) m n"
    and "isCuratedQuery m n \<longleftrightarrow> declared_query (applyDiscoveryPolicyToModels p) m n"
proof -
  let ?d = "applyDiscoveryPolicyToModels p"
  have same [simp]: "explores ?d = explores p" "queryableSources ?d = queryableSources p"
    "explores_declared ?d = explores_declared p"
    by (simp_all add: applyDiscoveryPolicyToModels_def explores_declared_def)
  have active: "queryableSources p \<noteq> Some ''all''" "explores_declared p"
    using assms(2) by (auto simp: queryBoundaryActive_def)
  from assms(1) obtain m0 where m0: "(path, m0) \<in> set (packageModels ?d)" and m: "m = m0\<lparr>queryBoundary :=
      \<lparr>allQueryable = False, exploresDeclared = True,
       isQueryEntryPoint = (case exploreSet ?d of Some es \<Rightarrow> path \<in> es | None \<Rightarrow> True),
       packageCuratedSources = Some (curated_map getSources ?d), packageCuratedQueries = Some (curated_map getQueries ?d)\<rparr>\<rparr>"
    using active by (auto simp: apply_policies_def applyQueryBoundaryToModels_def Let_def)
  show "\<not> inert (queryBoundary m)" by (simp add: m inert_def)
  show "isQueryEntryPoint (queryBoundary m) \<longleftrightarrow> path \<in> set (the (explores p))"
    using active(2) by (auto simp: m exploreSet_def explores_declared_def split: option.splits)
  show "isCuratedSource m n \<longleftrightarrow> declared_source ?d m n" "isCuratedQuery m n \<longleftrightarrow> declared_query ?d m n"
    unfolding isCuratedSource_def isCuratedQuery_def declared_source_def declared_query_def
    by (simp_all add: m admitted_by_curated_map)
qed

text \<open>
  C12: Queryable is discoverable: under a declared boundary a query of a model that is no notebook is admitted
  only at a listed model file, and only for a declaration some listed model exports, found by its place in a
  file and not by its name. If the request names a source, that source is one, whatever query it names beside
  it; if it names only a query, that query is one; otherwise the source its compiled query runs over is one,
  or the caller's own declarations rest it on such.
\<close>

theorem admitted_is_declared:
  assumes "query_boundary m source queryName query compiledSource = Inr ()"
    and "(path, m) \<in> set (packageModels (apply_policies p))" and "queryBoundaryActive p"
    and "\<not> suffix NOTEBOOK_FILE_SUFFIX (modelPath m)"
  shows "path \<in> set (the (explores p))
    \<and> (if truthy source then declared_source (applyDiscoveryPolicyToModels p) m (the source)
       else if truthy queryName \<and> \<not> truthy query then declared_query (applyDiscoveryPolicyToModels p) m (the queryName)
       else \<exists>c. compiledSource = Some c \<and> (declared_source (applyDiscoveryPolicyToModels p) m c
            \<or> truthy query \<and> rests_on_curated (declared_source (applyDiscoveryPolicyToModels p) m)
                (buildDerivationBaseMap (stripMalloyCommentsAndLiterals (the query))) c))"
proof
  note pushed = pushed_boundary [OF assms(2,3)]
  have curated: "isCuratedSource m = declared_source (applyDiscoveryPolicyToModels p) m"
    and curatedQuery: "isCuratedQuery m = declared_query (applyDiscoveryPolicyToModels p) m"
    using pushed(3,4) by blast+
  have entry: "isQueryEntryPoint (queryBoundary m)"
    using assms(1,4) pushed(1)
    by (auto simp: query_boundary_def assertQueryBoundaryEarly_def split: sum.splits if_splits)
  then show "path \<in> set (the (explores p))" unfolding pushed(2) .
  let ?by_name = "if truthy source then isCuratedSource m (the source) else truthy queryName \<and> \<not> truthy query \<and> isCuratedQuery m (the queryName)"
  have settled: "?by_name \<or> \<not> truthy source \<and> \<not> (truthy queryName \<and> \<not> truthy query)
      \<and> assertQueryBoundaryCompiled m compiledSource query = Inr ()"
    using assms(1,4) pushed(1) entry
    by (auto simp: query_boundary_def assertQueryBoundaryEarly_def split: sum.splits if_splits option.splits EarlyVerdict.splits)
  show "if truthy source then declared_source (applyDiscoveryPolicyToModels p) m (the source)
       else if truthy queryName \<and> \<not> truthy query then declared_query (applyDiscoveryPolicyToModels p) m (the queryName)
       else \<exists>c. compiledSource = Some c \<and> (declared_source (applyDiscoveryPolicyToModels p) m c
            \<or> truthy query \<and> rests_on_curated (declared_source (applyDiscoveryPolicyToModels p) m)
                (buildDerivationBaseMap (stripMalloyCommentsAndLiterals (the query))) c)"
  proof (cases ?by_name)
    case True
    then show ?thesis unfolding curated curatedQuery by (simp split: if_splits)
  next
    case False
    with settled have named: "\<not> truthy source" "\<not> (truthy queryName \<and> \<not> truthy query)"
      and "assertQueryBoundaryCompiled m compiledSource query = Inr ()" by blast+
    with assms(4) pushed(1) entry obtain c where c: "compiledSource = Some c"
        "isCuratedSource m c \<or> truthy query \<and> derivesFromCurated m c (the query)"
      by (auto simp: assertQueryBoundaryCompiled_def truthy_def split: if_splits)
    with derived_rests_on_curated [of m c "the query"] named show ?thesis unfolding curated by auto
  qed
qed

text \<open>
  \<open>index.malloy\<close> exports \<open>orders\<close>, \<open>tools.malloy\<close> imports that declaration and has a source \<open>hidden\<close>;
  both are listed.
\<close>

definition demo_served_model :: "string \<Rightarrow> string list \<Rightarrow> string list \<Rightarrow> ServedModel" where
  "demo_served_model path names ex = \<lparr>modelPath = path, sourceNames = Some (map Some names), queryNames = Some [],
     exports = Some ex,
     definitionAt = [''orders'' \<mapsto> \<lparr>locUrl = Some ''file:///index.malloy'', locStart = Some (Some 3, Some 0)\<rparr>,
       ''hidden'' \<mapsto> \<lparr>locUrl = Some ''file:///tools.malloy'', locStart = None\<rparr>],
     discoveryCuration = False,
     queryBoundary = \<lparr>allQueryable = True, exploresDeclared = False, isQueryEntryPoint = True,
       packageCuratedSources = None, packageCuratedQueries = None\<rparr>\<rparr>"

definition demo_package :: ServedPackage where
  "demo_package = \<lparr>explores = Some [''index.malloy'', ''tools.malloy''], queryableSources = None,
     packageModels = [(''index.malloy'', demo_served_model ''index.malloy'' [''orders''] [''orders'']),
       (''tools.malloy'', demo_served_model ''tools.malloy'' [''orders'', ''hidden''] [])]\<rparr>"

definition demo_tools :: ServedModel where
  "demo_tools = snd (packageModels (apply_policies demo_package) ! 1)"

definition demo_request :: string where
  "demo_request = ''source: mine is orders extend {} run: mine -> { select: a }''"

lemma admitted_is_declared_witness:
  "declared_source (applyDiscoveryPolicyToModels demo_package) demo_tools ''orders''
   \<and> query_boundary demo_tools None None (Some ''run: hidden -> { select: a }'') (Some ''hidden'') = Inl (NoSource ''hidden'')"
proof
  have run: "query_boundary demo_tools None None (Some ''run: orders -> { select: a }'') (Some ''orders'') = Inr ()" by code_simp
  have m: "(''tools.malloy'', demo_tools) \<in> set (packageModels (apply_policies demo_package))"
    by (simp add: demo_tools_def apply_policies_def applyQueryBoundaryToModels_def applyDiscoveryPolicyToModels_def demo_package_def Let_def)
  have active: "queryBoundaryActive demo_package" "\<not> suffix NOTEBOOK_FILE_SUFFIX (modelPath demo_tools)" by code_simp+
  have bases: "buildDerivationBaseMap (stripMalloyCommentsAndLiterals ''run: orders -> { select: a }'') = []" by code_simp
  have "\<not> rests_on_curated c [] n \<or> c n" for c n
  proof -
    have "grounded c [] k n \<Longrightarrow> c n" for k by (cases k) (auto simp: bases_of_def)
    then show ?thesis unfolding rests_on_curated_def by blast
  qed
  then show "declared_source (applyDiscoveryPolicyToModels demo_package) demo_tools ''orders''"
    using admitted_is_declared [OF run m active] unfolding option.sel bases by (auto simp: truthy_def)
next
  show "query_boundary demo_tools None None (Some ''run: hidden -> { select: a }'') (Some ''hidden'') = Inl (NoSource ''hidden'')"
    by code_simp
qed

lemma derivation_admitted_on_proof_witness:
  "rests_on_curated (isCuratedSource demo_tools) (buildDerivationBaseMap (stripMalloyCommentsAndLiterals demo_request)) ''mine''
   \<and> \<not> derivesFromCurated demo_tools ''mine'' ''source: mine is hidden extend {} run: mine -> { select: a }''"
proof
  have "derivesFromCurated demo_tools ''mine'' demo_request" by code_simp
  with derivation_admitted_on_proof [of demo_tools "''mine''" demo_request]
  show "rests_on_curated (isCuratedSource demo_tools) (buildDerivationBaseMap (stripMalloyCommentsAndLiterals demo_request)) ''mine''"
    by blast
  show "\<not> derivesFromCurated demo_tools ''mine'' ''source: mine is hidden extend {} run: mine -> { select: a }''" by code_simp
qed

end
