(* ===== verification/ServeShape.thy ===== *)
theory ServeShape
  imports Quoting Filters Freshness "HOL-Library.List_Lexorder" "HOL-Library.Char_ord"
begin

text \<open>
  Serving a query from stored copies of its sources (\<open>service/materialization_serve_transform.ts\<close>,
  \<open>service/preaggregation_serve_bindings.ts\<close>, and of \<open>service/model.ts\<close> the compile ladder, the fresh
  bindings and the routed query). The model that is served is a text that declares each stored table as
  a virtual source of the author's name. What Malloy does with a text, the files it reads, and the
  locale's order of names are parameters.
\<close>

subsection \<open>Bindings\<close>

type_synonym column_list = "(string \<times> string) list"

datatype FieldKind = Dimension_field | Measure_field

datatype SourceRefinement =
    FieldRefinement FieldKind string string
  | JoinRefinement (joinName: string) (joinKeyword: string) (joinText: string) (dependsOn: string)
  | ViewRefinement string string
  | FilterRefinement string

datatype BindingOrigin = Persist_origin | Preaggregate_origin

record ServeBinding =
  boundSource :: string
  bindingOrigin :: BindingOrigin
  destinationName :: string
  virtualHandle :: string
  tablePath :: string
  boundSchema :: column_list
  refinements :: "SourceRefinement list"
  freshAsOf :: "string option"
  boundWindowSeconds :: "rat option"
  boundFallback :: "freshness_fallback option"

subsection \<open>Bindings of a build\<close>

definition add_name :: "(string \<times> string list) list \<Rightarrow> string option \<times> string option \<Rightarrow> (string \<times> string list) list" where
  "add_name groups source =
     (case source of
        (Some name, Some address) \<Rightarrow>
          (if name = [] \<or> address = [] then groups
           else case map_of groups address of
             None \<Rightarrow> groups @ [(address, [name])]
           | Some grp \<Rightarrow> if name \<in> set grp then groups else AList.update address (grp @ [name]) groups)
      | _ \<Rightarrow> groups)"

text \<open>Sources by the table they are built into, each with its name.\<close>

definition names_by_address :: "(string option \<times> string option) list \<Rightarrow> (string \<times> string list) list" where
  "names_by_address planSources = foldl add_name [] planSources"

definition addresses_of :: "(string \<times> string list) list \<Rightarrow> string \<Rightarrow> nat" where
  "addresses_of groups name = length (List.filter (\<lambda>(address, grp). name \<in> set grp) groups)"

definition unambiguous :: "(string \<times> string list) list \<Rightarrow> string list \<Rightarrow> string list" where
  "unambiguous groups grp = List.filter (\<lambda>name. addresses_of groups name = 1) grp"

definition groupAliasesByName :: "(string option \<times> string option) list \<Rightarrow> (string \<times> string list) list" where
  "groupAliasesByName planSources =
     (let groups = names_by_address planSources in
      foldl (\<lambda>byName (address, grp).
          foldl (\<lambda>al name. AList.update name (unambiguous groups grp) al) byName (unambiguous groups grp)) [] groups)"

record BuiltEntry =
  entrySource :: "string option"
  entryOrigin :: BindingOrigin
  storageDestination :: "string option"
  physicalTable :: "string option"
  entryAddress :: string
  entrySchema :: "(string option \<times> string option) list"
  entryAsOf :: "string option"
  entryWindow :: "rat option"
  entryFallback :: "freshness_fallback option"

definition is_set :: "string option \<Rightarrow> bool" where
  "is_set s \<longleftrightarrow> s \<noteq> None \<and> s \<noteq> Some []"

definition captured :: "(string option \<times> string option) list \<Rightarrow> column_list" where
  "captured cs = map (\<lambda>(n, t). (the n, the t)) (List.filter (\<lambda>(n, t). is_set n \<and> is_set t) cs)"

text \<open>\<open>filter((name, i, all) => all.indexOf(name) === i)\<close>.\<close>

fun first_occurrences :: "'a list \<Rightarrow> 'a list" where
  "first_occurrences [] = []"
| "first_occurrences (x # xs) = x # List.filter (\<lambda>y. y \<noteq> x) (first_occurrences xs)"

definition entry_names :: "string set \<Rightarrow> (string \<times> string list) list \<Rightarrow> string \<Rightarrow> string list" where
  "entry_names builders aliases source =
     first_occurrences (source # List.filter (\<lambda>n. n \<notin> builders)
       (case map_of aliases source of Some names \<Rightarrow> names | None \<Rightarrow> []))"

definition entry_bindings :: "string set \<Rightarrow> (string \<times> string list) list \<Rightarrow> BuiltEntry \<Rightarrow> ServeBinding list" where
  "entry_bindings builders aliases e =
     (if \<not> is_set (entrySource e) \<or> \<not> is_set (storageDestination e) \<or> \<not> is_set (physicalTable e) \<or> captured (entrySchema e) = []
      then []
      else map (\<lambda>name. \<lparr>boundSource = name, bindingOrigin = entryOrigin e, destinationName = the (storageDestination e),
          virtualHandle = entryAddress e, tablePath = the (storageDestination e) @ ''.'' @ the (physicalTable e),
          boundSchema = captured (entrySchema e), refinements = [], freshAsOf = entryAsOf e,
          boundWindowSeconds = entryWindow e, boundFallback = entryFallback e\<rparr>)
        (entry_names builders aliases (the (entrySource e))))"

definition deriveServeBindings :: "BuiltEntry list \<Rightarrow> (string \<times> string list) list \<Rightarrow> ServeBinding list" where
  "deriveServeBindings entries aliases =
     concat (map (entry_bindings (set (List.filter (\<lambda>n. n \<noteq> []) (somes (map entrySource entries)))) aliases) entries)"

text \<open>The physical tables a query may touch, by destination and handle: a later binding replaces an earlier.\<close>

definition buildVirtualMap :: "ServeBinding list \<Rightarrow> (string \<times> (string \<times> string) list) list" where
  "buildVirtualMap bindings = foldl (\<lambda>m b. AList.update (destinationName b)
       (AList.update (virtualHandle b) (quoteManifestTablePath (tablePath b) ''duckdb'')
         (case map_of m (destinationName b) of Some inner \<Rightarrow> inner | None \<Rightarrow> [])) m) [] bindings"

subsection \<open>The public surface of a source\<close>

text \<open>A compiled field: a member that is absent, or not of the type the code tests for, is \<open>None\<close>.\<close>

record SourceLocation =
  sliceUrl :: string
  startLine :: int
  startCharacter :: nat
  endLine :: int
  endCharacter :: nat

record CompiledField =
  fieldName :: "string option"
  accessModifier :: "string option"
  fieldCode :: "string option"
  expressionType :: "string option"
  fieldType :: "string option"
  joinRelation :: "string option"
  joinAs :: "string option"
  joinSourceID :: "string option"
  fieldLocation :: "SourceLocation option"

definition isAccessRestricted :: "CompiledField \<Rightarrow> bool" where
  "isAccessRestricted f \<longleftrightarrow> accessModifier f \<noteq> None \<and> accessModifier f \<noteq> Some ''public''"

definition public_names :: "CompiledField list \<Rightarrow> string list" where
  "public_names fs = somes (map fieldName (List.filter (\<lambda>f. \<not> isAccessRestricted f) fs))"

text \<open>The author's name for a captured column: the exact one, or the only one that folds onto it.\<close>

definition author_name :: "string list \<Rightarrow> string \<Rightarrow> string option" where
  "author_name names c =
     (if c \<in> set names then Some c
      else case List.filter (\<lambda>n. js_lower n = js_lower c) names of [n] \<Rightarrow> Some n | _ \<Rightarrow> None)"

fun narrow_loop :: "string list \<Rightarrow> column_list \<Rightarrow> string list \<Rightarrow> column_list" where
  "narrow_loop names [] emitted = []"
| "narrow_loop names ((c, t) # cs) emitted =
     (case author_name names c of
        None \<Rightarrow> narrow_loop names cs emitted
      | Some n \<Rightarrow> if n \<in> set emitted then narrow_loop names cs emitted else (n, t) # narrow_loop names cs (n # emitted))"

definition narrowSchemaToPublic :: "column_list \<Rightarrow> CompiledField list \<Rightarrow> column_list" where
  "narrowSchemaToPublic sch fs = narrow_loop (public_names fs) sch []"

subsection \<open>What an author's source adds to its stored columns\<close>

definition extractSourceFilters :: "string option list \<Rightarrow> SourceRefinement list" where
  "extractSourceFilters filterList = map (\<lambda>c. FilterRefinement (case c of Some s \<Rightarrow> s | None \<Rightarrow> ''__unreproducible_filter__'')) filterList"

definition field_refinement :: "CompiledField \<Rightarrow> SourceRefinement list" where
  "field_refinement f =
     (if isAccessRestricted f \<or> fieldName f = None \<or> \<not> is_set (fieldCode f) then []
      else if expressionType f = Some ''scalar'' then [FieldRefinement Dimension_field (the (fieldName f)) (the (fieldCode f))]
      else if expressionType f = Some ''aggregate'' then [FieldRefinement Measure_field (the (fieldName f)) (the (fieldCode f))]
      else [])"

definition extractRefinements :: "CompiledField list \<Rightarrow> SourceRefinement list" where
  "extractRefinements fs = concat (map field_refinement fs)"

definition js_slice :: "nat \<Rightarrow> nat \<Rightarrow> string \<Rightarrow> string" where
  "js_slice a b s = take (b - a) (drop a s)"

definition sliceSourceRange :: "string \<Rightarrow> SourceLocation \<Rightarrow> string option" where
  "sliceSourceRange txt loc =
     (let lines = split_on nl txt; a = nat (startLine loc); b = nat (endLine loc) in
      if startLine loc < 0 \<or> startLine loc > endLine loc \<or> endLine loc \<ge> int (length lines) then None
      else if startLine loc = endLine loc then Some (js_slice (startCharacter loc) (endCharacter loc) (lines ! a))
      else Some (join [nl] (drop (startCharacter loc) (lines ! a) # take (b - Suc a) (drop (Suc a) lines)
             @ [take (endCharacter loc) (lines ! b)])))"

text \<open>\<open>liftText\<close>: the declaration at a place in a file, where the file is there and is not empty.\<close>

definition liftText :: "(string \<Rightarrow> string option) \<Rightarrow> SourceLocation \<Rightarrow> string option" where
  "liftText readFile loc =
     (if \<not> prefix ''file:'' (sliceUrl loc) then None
      else case readFile (sliceUrl loc) of
        None \<Rightarrow> None
      | Some txt \<Rightarrow> if txt = [] then None else sliceSourceRange txt loc)"

definition join_keyword :: "string \<Rightarrow> string option" where
  "join_keyword j = (if j = ''one'' then Some ''join_one'' else if j = ''many'' then Some ''join_many''
     else if j = ''cross'' then Some ''join_cross'' else None)"

definition join_refinement ::
  "(string \<Rightarrow> string option) \<Rightarrow> string set \<Rightarrow> (SourceLocation \<Rightarrow> string option) \<Rightarrow> CompiledField \<Rightarrow> SourceRefinement list" where
  "join_refinement sourceNameById materialized lift f =
     (if isAccessRestricted f then []
      else case (Option.bind (joinRelation f) join_keyword, Option.bind (joinSourceID f) sourceNameById, fieldLocation f) of
        (Some keyword, Some target, Some loc) \<Rightarrow>
          if target = [] \<or> target \<notin> materialized \<or> \<not> is_set (lift loc) then []
          else [JoinRefinement (case joinAs f of Some a \<Rightarrow> a | None \<Rightarrow> (case fieldName f of Some n \<Rightarrow> n | None \<Rightarrow> target))
            keyword (the (lift loc)) target]
      | _ \<Rightarrow> [])"

definition extractJoins ::
  "(string \<Rightarrow> string option) \<Rightarrow> string set \<Rightarrow> (SourceLocation \<Rightarrow> string option) \<Rightarrow> CompiledField list \<Rightarrow> SourceRefinement list" where
  "extractJoins sourceNameById materialized lift fs = concat (map (join_refinement sourceNameById materialized lift) fs)"

definition view_refinement :: "(SourceLocation \<Rightarrow> string option) \<Rightarrow> CompiledField \<Rightarrow> SourceRefinement list" where
  "view_refinement lift f =
     (if isAccessRestricted f \<or> fieldType f \<noteq> Some ''turtle'' then []
      else case (fieldName f, fieldLocation f) of
        (Some n, Some loc) \<Rightarrow> if is_set (lift loc) then [ViewRefinement n (the (lift loc))] else []
      | _ \<Rightarrow> [])"

definition extractViews :: "(SourceLocation \<Rightarrow> string option) \<Rightarrow> CompiledField list \<Rightarrow> SourceRefinement list" where
  "extractViews lift fs = concat (map (view_refinement lift) fs)"

text \<open>A source of the author's model as this reads it.\<close>

record AuthorSource =
  authorSourceID :: "string option"
  authorFields :: "CompiledField list"
  authorFilters :: "string option list"

definition source_name_by_id :: "(string \<times> AuthorSource) list \<Rightarrow> string \<Rightarrow> string option" where
  "source_name_by_id model = map_of (rev (concat (map (\<lambda>(name, s). case authorSourceID s of Some i \<Rightarrow> [(i, name)] | None \<Rightarrow> []) model)))"

definition author_fields :: "(string \<times> AuthorSource) list \<Rightarrow> string \<Rightarrow> CompiledField list" where
  "author_fields model n = (case map_of model n of Some s \<Rightarrow> authorFields s | None \<Rightarrow> [])"

definition author_filters :: "(string \<times> AuthorSource) list \<Rightarrow> string \<Rightarrow> string option list" where
  "author_filters model n = (case map_of model n of Some s \<Rightarrow> authorFilters s | None \<Rightarrow> [])"

definition enrich ::
  "(string \<times> AuthorSource) list \<Rightarrow> (string \<Rightarrow> string option) \<Rightarrow> string set \<Rightarrow> ServeBinding \<Rightarrow> ServeBinding" where
  "enrich model readFile materialized b =
     b\<lparr>boundSchema := narrowSchemaToPublic (boundSchema b) (author_fields model (boundSource b)),
       refinements := extractJoins (source_name_by_id model) materialized (liftText readFile) (author_fields model (boundSource b))
         @ extractRefinements (author_fields model (boundSource b))
         @ extractSourceFilters (author_filters model (boundSource b))
         @ extractViews (liftText readFile) (author_fields model (boundSource b))\<rparr>"

definition serveBindingsWithRefinements ::
  "(string \<times> AuthorSource) list \<Rightarrow> (string \<Rightarrow> string option) \<Rightarrow> ServeBinding list \<Rightarrow> ServeBinding list" where
  "serveBindingsWithRefinements model readFile bindings =
     List.filter (\<lambda>b. boundSchema b \<noteq> []) (map (enrich model readFile (boundSource ` set bindings)) bindings)"

subsection \<open>The text of a serve shape\<close>

definition upper_char :: "char \<Rightarrow> char" where
  "upper_char c = (let n = (of_char c :: nat) in
     if (97 \<le> n \<and> n \<le> 122) \<or> (224 \<le> n \<and> n \<le> 254 \<and> n \<noteq> 247) then char_of (n - 32) else c)"

fun array_type :: "string \<Rightarrow> bool" where
  "array_type [] \<longleftrightarrow> False"
| "array_type (c # s) \<longleftrightarrow>
     c = CHR ''['' \<and> (case js_trim_start s of d # _ \<Rightarrow> d = CHR '']'' | [] \<Rightarrow> False) \<or> array_type s"

text \<open>\<open>raw.replace (/\(.*\)/, "")\<close>: from the first parenthesis that is closed on its line to the last such.\<close>

fun strip_parameters :: "string \<Rightarrow> string" where
  "strip_parameters [] = []"
| "strip_parameters (c # s) =
     (if c = CHR ''('' then
        (case last_index_of (CHR '')'') (takeWhile (\<lambda>d. d \<noteq> nl \<and> d \<noteq> CHR 0x0D) s) of
           Some i \<Rightarrow> drop (Suc i) s
         | None \<Rightarrow> c # strip_parameters s)
      else c # strip_parameters s)"

definition NUMBER_TYPES :: "string list" where
  "NUMBER_TYPES = [''TINYINT'', ''SMALLINT'', ''INTEGER'', ''INT'', ''INT4'', ''BIGINT'', ''INT8'', ''HUGEINT'', ''UTINYINT'',
     ''USMALLINT'', ''UINTEGER'', ''UBIGINT'', ''UHUGEINT'', ''DOUBLE'', ''FLOAT'', ''FLOAT4'', ''FLOAT8'', ''REAL'', ''DECIMAL'', ''NUMERIC'']"

definition duckdbTypeToMalloy :: "string \<Rightarrow> string" where
  "duckdbTypeToMalloy duckdbType =
     (let raw = js_trim duckdbType; base = map upper_char (js_trim (strip_parameters raw)) in
      if array_type raw then ''json''
      else if base = ''DATE'' then ''date''
      else if prefix ''TIMESTAMP'' base \<or> base = ''DATETIME'' then ''timestamp''
      else if base = ''TIME'' then ''string''
      else if base \<in> set NUMBER_TYPES then ''number''
      else if base \<in> {''VARCHAR'', ''TEXT'', ''CHAR'', ''BPCHAR'', ''STRING'', ''UUID''} then ''string''
      else if base \<in> {''BOOLEAN'', ''BOOL''} then ''boolean''
      else ''json'')"

definition BARE_IDENTIFIER :: "string \<Rightarrow> bool" where
  "BARE_IDENTIFIER s \<longleftrightarrow> s \<noteq> [] \<and> list_all is_word s \<and> \<not> is_digit (hd s)"

definition emitFieldName :: "string \<Rightarrow> string" where
  "emitFieldName n = (if BARE_IDENTIFIER n then n else [backtick] @ replace_all backtick [backtick, backtick] n @ [backtick])"

definition shape_fields :: "column_list \<Rightarrow> string" where
  "shape_fields cs = join (CHR '','' # [nl]) (map (\<lambda>(n, t). ''   '' @ emitFieldName n @ ''::'' @ duckdbTypeToMalloy t) cs)"

definition refinement_lines :: "SourceRefinement list \<Rightarrow> string list" where
  "refinement_lines rs =
     concat (map (\<lambda>r. case r of JoinRefinement n k t d \<Rightarrow> [''   '' @ k @ '': '' @ t] | _ \<Rightarrow> []) rs)
     @ concat (map (\<lambda>r. case r of FieldRefinement k n c \<Rightarrow>
           [''   '' @ (case k of Dimension_field \<Rightarrow> ''dimension'' | Measure_field \<Rightarrow> ''measure'') @ '': '' @ n @ '' is '' @ c] | _ \<Rightarrow> []) rs)
     @ concat (map (\<lambda>r. case r of FilterRefinement c \<Rightarrow> [''   where: '' @ c] | _ \<Rightarrow> []) rs)
     @ concat (map (\<lambda>r. case r of ViewRefinement n t \<Rightarrow> [''   view: '' @ t] | _ \<Rightarrow> []) rs)"

definition serveShapeFragment :: "ServeBinding \<Rightarrow> string" where
  "serveShapeFragment b =
     (let shapeTypeName = boundSource b @ ''__shape''; lines = refinement_lines (refinements b) in
      ''type: '' @ shapeTypeName @ '' is {'' @ [nl] @ shape_fields (boundSchema b) @ [nl] @ ''}'' @ [nl]
      @ ''source: '' @ boundSource b @ '' is '' @ destinationName b @ ''.virtual('' @ [squote] @ virtualHandle b @ [squote]
      @ '')::'' @ shapeTypeName
      @ (if lines = [] then [] else '' extend {'' @ [nl] @ join [nl] lines @ [nl] @ ''}''))"

subsection \<open>The order of the declarations\<close>

definition join_deps :: "string set \<Rightarrow> ServeBinding \<Rightarrow> string list" where
  "join_deps present b = concat (map (\<lambda>r. case r of
       JoinRefinement n k t d \<Rightarrow> if d \<noteq> boundSource b \<and> d \<in> present then [d] else [] | _ \<Rightarrow> []) (refinements b))"

definition deps_by_name :: "ServeBinding list \<Rightarrow> (string \<times> string list) list" where
  "deps_by_name bindings =
     foldl (\<lambda>al b. AList.update (boundSource b) (join_deps (boundSource ` set bindings) b) al) [] bindings"

text \<open>One pass over the bindings: those whose dependencies are emitted, and the names that remain.\<close>

fun order_pass ::
  "(string \<Rightarrow> string list option) \<Rightarrow> ServeBinding list \<Rightarrow> string list \<Rightarrow> string list \<Rightarrow> ServeBinding list \<times> string list \<times> string list" where
  "order_pass deps [] emitted remaining = ([], emitted, remaining)"
| "order_pass deps (b # bs) emitted remaining =
     (if boundSource b \<in> set remaining \<and> (case deps (boundSource b) of Some ds \<Rightarrow> set ds \<subseteq> set emitted | None \<Rightarrow> True)
      then (let (out, emitted', remaining') = order_pass deps bs (boundSource b # emitted) (removeAll (boundSource b) remaining)
            in (b # out, emitted', remaining'))
      else order_pass deps bs emitted remaining)"

fun order_rest :: "ServeBinding list \<Rightarrow> string list \<Rightarrow> ServeBinding list" where
  "order_rest [] remaining = []"
| "order_rest (b # bs) remaining =
     (if boundSource b \<in> set remaining then b # order_rest bs (removeAll (boundSource b) remaining) else order_rest bs remaining)"

lemma order_pass_remaining:
  "order_pass deps bs emitted remaining = (out, emitted', remaining') \<Longrightarrow>
   set remaining' \<subseteq> set remaining \<and> length remaining' \<le> length remaining \<and> (out = [] \<longrightarrow> remaining' = remaining \<and> emitted' = emitted)
   \<and> (out \<noteq> [] \<longrightarrow> length remaining' < length remaining)"
proof (induction deps bs emitted remaining arbitrary: out emitted' remaining' rule: order_pass.induct)
  case (2 deps b bs emitted remaining)
  show ?case
  proof (cases "boundSource b \<in> set remaining \<and> (case deps (boundSource b) of Some ds \<Rightarrow> set ds \<subseteq> set emitted | None \<Rightarrow> True)")
    case True
    obtain o' e r where p: "order_pass deps bs (boundSource b # emitted) (removeAll (boundSource b) remaining) = (o', e, r)"
      by (metis prod_cases3)
    have "length (removeAll (boundSource b) remaining) < length remaining" using True by (simp add: length_removeAll_less)
    with 2(1) [OF True p] 2(3) True p show ?thesis by auto
  next
    case False
    with 2(2) [OF False] 2(3) show ?thesis by auto
  qed
qed simp

text \<open>\<open>while (remaining.size > 0)\<close>: when no binding of a pass is ready, the rest is taken in order.\<close>

function order_loop ::
  "(string \<Rightarrow> string list option) \<Rightarrow> ServeBinding list \<Rightarrow> string list \<Rightarrow> string list \<Rightarrow> ServeBinding list" where
  "order_loop deps bindings emitted remaining =
     (if remaining = [] then []
      else case order_pass deps bindings emitted remaining of
        ([], emitted', remaining') \<Rightarrow> order_rest bindings remaining'
      | (b # out, emitted', remaining') \<Rightarrow> b # out @ order_loop deps bindings emitted' remaining')"
  by pat_completeness auto

termination
  by (relation "measure (\<lambda>(deps, bindings, emitted, remaining). length remaining)")
    (auto dest: order_pass_remaining [OF sym])

declare order_loop.simps [simp del]

definition orderBindingsByJoinDeps :: "ServeBinding list \<Rightarrow> ServeBinding list" where
  "orderBindingsByJoinDeps bindings =
     order_loop (map_of (deps_by_name bindings)) bindings [] (first_occurrences (map boundSource bindings))"

subsection \<open>The compile ladder\<close>

record RollupGroup =
  groupBase :: string
  groupMembers :: "ServeBinding list"

definition rollupServeShapeFragment :: "RollupGroup \<Rightarrow> string" where
  "rollupServeShapeFragment g =
     join [nl] (map serveShapeFragment (groupMembers g)) @ [nl] @ ''source: '' @ groupBase g @ '' is compose(''
     @ join '', '' (map boundSource (groupMembers g)) @ '')''"

type_synonym Shape = "ServeBinding list \<times> RollupGroup list"

definition buildServeShapeModelForBindings :: "Shape \<Rightarrow> string" where
  "buildServeShapeModelForBindings shape =
     (let (bindings, groups) = shape;
          fragments = join [nl] (map serveShapeFragment (orderBindingsByJoinDeps bindings));
          grouped = join [nl] (map rollupServeShapeFragment groups);
          flags = (if groups \<noteq> [] then ''##! experimental { virtual_source composite_sources }'' else ''##! experimental.virtual_source'')
      in if grouped \<noteq> [] then flags @ [nl] @ fragments @ [nl] @ grouped @ [nl] else flags @ [nl] @ fragments @ [nl])"

datatype RefinementKind = Kind_dimension | Kind_measure | Kind_join | Kind_view | Kind_filter

definition refinement_kind :: "SourceRefinement \<Rightarrow> RefinementKind" where
  "refinement_kind r = (case r of
       FieldRefinement k n c \<Rightarrow> (case k of Dimension_field \<Rightarrow> Kind_dimension | Measure_field \<Rightarrow> Kind_measure)
     | JoinRefinement n k t d \<Rightarrow> Kind_join | ViewRefinement n t \<Rightarrow> Kind_view | FilterRefinement c \<Rightarrow> Kind_filter)"

definition NEVER_THINNED :: "RefinementKind list" where "NEVER_THINNED = [Kind_filter]"

definition keep_kinds :: "RefinementKind list list" where
  "keep_kinds = [NEVER_THINNED @ [Kind_join, Kind_dimension, Kind_measure, Kind_view],
     NEVER_THINNED @ [Kind_join, Kind_dimension, Kind_measure], NEVER_THINNED @ [Kind_dimension, Kind_measure], NEVER_THINNED]"

definition buildServeShapeTiers :: "RollupGroup list \<Rightarrow> (RefinementKind list \<times> RollupGroup list) list" where
  "buildServeShapeTiers groups =
     (hd keep_kinds, groups) # (if groups \<noteq> [] then [(hd keep_kinds, [])] else [])
     @ map (\<lambda>k. (k, groups)) (tl keep_kinds)
     @ (if groups \<noteq> [] then [(NEVER_THINNED, [])] else [])"

definition thin :: "RefinementKind list \<Rightarrow> ServeBinding \<Rightarrow> ServeBinding" where
  "thin keep b = b\<lparr>refinements := List.filter (\<lambda>r. refinement_kind r \<in> set keep) (refinements b)\<rparr>"

text \<open>The tiers after the first, the last of which is the floor: the shape that compiles, or the floor's.\<close>

fun climb :: "(Shape \<Rightarrow> bool) \<Rightarrow> ServeBinding list \<Rightarrow> (RefinementKind list \<times> RollupGroup list) list \<Rightarrow> Shape + Shape" where
  "climb compiles enriched [] = Inl ([], [])"
| "climb compiles enriched ((keep, groups) # tiers) =
     (let shape = (map (thin keep) enriched, groups) in
      if compiles shape then Inr shape
      else if tiers = [] then Inl shape
      else climb compiles enriched tiers)"

definition bindingsWhoseFiltersCompile :: "(Shape \<Rightarrow> bool) \<Rightarrow> ServeBinding list \<Rightarrow> ServeBinding list" where
  "bindingsWhoseFiltersCompile compiles enriched = List.filter (\<lambda>b. compiles ([thin NEVER_THINNED b], [])) enriched"

text \<open>One run of the ladder: the first tier is not thinned, nor compiled where there is nothing to drop.\<close>

definition serve_ladder :: "(Shape \<Rightarrow> bool) \<Rightarrow> ServeBinding list \<Rightarrow> RollupGroup list \<Rightarrow> Shape + Shape" where
  "serve_ladder compiles enriched groups =
     (if groups = [] \<and> (\<forall>b \<in> set enriched. refinements b = []) \<or> compiles (enriched, groups) then Inr (enriched, groups)
      else climb compiles enriched (tl (buildServeShapeTiers groups)))"

definition compileServeShape :: "(Shape \<Rightarrow> bool) \<Rightarrow> ServeBinding list \<Rightarrow> RollupGroup list \<Rightarrow> Shape" where
  "compileServeShape compiles enriched groups =
     (case serve_ladder compiles enriched groups of
        Inr shape \<Rightarrow> shape
      | Inl lowest \<Rightarrow>
          (let servable = bindingsWhoseFiltersCompile compiles enriched in
           if servable = [] \<or> length servable = length enriched then lowest
           else (case serve_ladder compiles servable groups of Inr shape \<Rightarrow> shape | Inl lowest' \<Rightarrow> lowest')))"

subsection \<open>Rollups\<close>

record RollupPlan =
  baseSourceName :: string
  rollupSourceName :: string
  planNamespace :: "string option"
  planStorage :: "string option"
  grainDimensions :: "string list"
  rollupMeasures :: "(string \<times> string \<times> string) list"

text \<open>A measure is its name, the column of its partial aggregate, and the function that merges them.\<close>

definition rollupServeRefinements :: "RollupPlan \<Rightarrow> SourceRefinement list" where
  "rollupServeRefinements plan = map (\<lambda>(n, partial, agg). FieldRefinement Measure_field n (partial @ ''.'' @ agg @ ''()'')) (rollupMeasures plan)"

definition rollup_columns :: "RollupPlan \<Rightarrow> string list" where
  "rollup_columns plan = grainDimensions plan @ map (\<lambda>(n, partial, agg). partial) (rollupMeasures plan)"

definition plan_of :: "RollupPlan list \<Rightarrow> string \<Rightarrow> RollupPlan option" where
  "plan_of plans n = map_of (rev (map (\<lambda>p. (rollupSourceName p, p)) plans)) n"

text \<open>The plan of a rollup binding whose table has every column the plan reads.\<close>

definition usable_plan :: "RollupPlan list \<Rightarrow> ServeBinding \<Rightarrow> RollupPlan option" where
  "usable_plan plans b =
     (if bindingOrigin b \<noteq> Preaggregate_origin then None
      else case plan_of plans (boundSource b) of
        None \<Rightarrow> None
      | Some p \<Rightarrow> if set (rollup_columns p) \<subseteq> fst ` set (boundSchema b) then Some p else None)"

definition add_to_base :: "RollupPlan list \<Rightarrow> (string \<times> (RollupPlan \<times> ServeBinding) list) list \<Rightarrow> ServeBinding
    \<Rightarrow> (string \<times> (RollupPlan \<times> ServeBinding) list) list" where
  "add_to_base plans byBase b =
     (case usable_plan plans b of
        None \<Rightarrow> byBase
      | Some p \<Rightarrow> AList.update (baseSourceName p)
          ((case map_of byBase (baseSourceName p) of Some es \<Rightarrow> es | None \<Rightarrow> []) @ [(p, b)]) byBase)"

text \<open>A stable sort by a comparison; \<open>localeLe\<close> is the order of \<open>localeCompare\<close>.\<close>

fun insert_by :: "('a \<Rightarrow> 'a \<Rightarrow> bool) \<Rightarrow> 'a \<Rightarrow> 'a list \<Rightarrow> 'a list" where
  "insert_by le x [] = [x]"
| "insert_by le x (y # ys) = (if le x y then x # y # ys else y # insert_by le x ys)"

definition sort_by :: "('a \<Rightarrow> 'a \<Rightarrow> bool) \<Rightarrow> 'a list \<Rightarrow> 'a list" where
  "sort_by le xs = foldr (insert_by le) xs []"

definition narrower :: "(string \<Rightarrow> string \<Rightarrow> bool) \<Rightarrow> RollupPlan \<Rightarrow> RollupPlan \<Rightarrow> bool" where
  "narrower localeLe p q \<longleftrightarrow> length (grainDimensions p) < length (grainDimensions q)
     \<or> length (grainDimensions p) = length (grainDimensions q) \<and> localeLe (rollupSourceName p) (rollupSourceName q)"

datatype RollupConflict = SeveralDestinations string "string list" | NameClaimed string

definition rollup_group :: "(string \<Rightarrow> string \<Rightarrow> bool) \<Rightarrow> string set \<Rightarrow> string \<times> (RollupPlan \<times> ServeBinding) list
    \<Rightarrow> RollupConflict + RollupGroup" where
  "rollup_group localeLe claimed entry =
     (let (base, members) = entry; destinations = first_occurrences (map (destinationName \<circ> snd) members) in
      if length destinations > 1 then Inl (SeveralDestinations base (sort destinations))
      else if base \<in> claimed then Inl (NameClaimed base)
      else Inr \<lparr>groupBase = base,
        groupMembers = map (\<lambda>(p, b). b\<lparr>refinements := rollupServeRefinements p\<rparr>)
          (sort_by (\<lambda>x y. narrower localeLe (fst x) (fst y)) members)\<rparr>)"

definition ordinary_bindings :: "ServeBinding list \<Rightarrow> ServeBinding list" where
  "ordinary_bindings bindings = List.filter (\<lambda>b. bindingOrigin b \<noteq> Preaggregate_origin) bindings"

definition rollupServeBindings :: "(string \<Rightarrow> string \<Rightarrow> bool) \<Rightarrow> ServeBinding list \<Rightarrow> RollupPlan list
    \<Rightarrow> RollupGroup list \<times> RollupConflict list" where
  "rollupServeBindings localeLe bindings plans =
     (let rs = map (rollup_group localeLe (boundSource ` set (ordinary_bindings bindings)))
            (sort_by (\<lambda>x y. localeLe (fst x) (fst y)) (foldl (add_to_base plans) [] bindings))
      in (somes (map (\<lambda>r. case r of Inr g \<Rightarrow> Some g | Inl _ \<Rightarrow> None) rs),
          somes (map (\<lambda>r. case r of Inl c \<Rightarrow> Some c | Inr _ \<Rightarrow> None) rs)))"

subsection \<open>A routed query\<close>

definition binding_entry :: "ServeBinding \<Rightarrow> FreshnessAwareManifestEntry" where
  "binding_entry b = \<lparr>tableName = tablePath b, connectionName = None, dataAsOf = freshAsOf b,
     freshnessWindowSeconds = boundWindowSeconds b, freshnessFallback = boundFallback b\<rparr>"

definition freshServeBindings :: "(string \<Rightarrow> int option) \<Rightarrow> ServeBinding list \<Rightarrow> int \<Rightarrow> ServeBinding list" where
  "freshServeBindings parse serveBindings now =
     List.filter (\<lambda>b. evaluateManifestFreshness parse (binding_entry b) now = Serve_table) serveBindings"

definition serve_shape_key :: "nat \<Rightarrow> ServeBinding list \<Rightarrow> string" where
  "serve_shape_key version fresh =
     ''v'' @ digits_of version @ ''|'' @ join ''|'' (sort (map (\<lambda>b. boundSource b @ ''@'' @ destinationName b @ ''/'' @ virtualHandle b) fresh))"

definition bindingsAllowDegradeToLive :: "ServeBinding list \<Rightarrow> bool" where
  "bindingsAllowDegradeToLive bindings \<longleftrightarrow>
     bindings \<noteq> [] \<and> (\<forall>b \<in> set bindings. bindingOrigin b = Preaggregate_origin \<or> boundFallback b = Some Live)"

text \<open>What the shape of a query needs of its model and of the package.\<close>

record ShapeState =
  serveBindings :: "ServeBinding list"
  rollupPlans :: "RollupPlan list"
  plansVersion :: nat
  authorModel :: "(string \<times> AuthorSource) list"

text \<open>The shape that is compiled for the fresh bindings.\<close>

definition shape_for :: "(string \<Rightarrow> string \<Rightarrow> bool) \<Rightarrow> (string \<Rightarrow> string option) \<Rightarrow> (Shape \<Rightarrow> bool) \<Rightarrow> ShapeState \<Rightarrow> ServeBinding list \<Rightarrow> Shape" where
  "shape_for localeLe readFile compiles st fresh =
     compileServeShape compiles (serveBindingsWithRefinements (authorModel st) readFile (ordinary_bindings fresh))
       (fst (rollupServeBindings localeLe fresh (rollupPlans st)))"

definition virtual_map_for :: "(string \<Rightarrow> string \<Rightarrow> bool) \<Rightarrow> ShapeState \<Rightarrow> ServeBinding list \<Rightarrow> (string \<times> (string \<times> string) list) list" where
  "virtual_map_for localeLe st fresh =
     buildVirtualMap (ordinary_bindings fresh @ concat (map groupMembers (fst (rollupServeBindings localeLe fresh (rollupPlans st)))))"

text \<open>
  \<open>loadServeShapeQuery\<close>, up to loading the query against the shape: the shape and its map, and the cache
  after. \<open>None\<close> is the error that no binding is fresh.
\<close>

definition load_serve_shape ::
  "(string \<Rightarrow> string \<Rightarrow> bool) \<Rightarrow> (string \<Rightarrow> string option) \<Rightarrow> (Shape \<Rightarrow> bool) \<Rightarrow> (string \<Rightarrow> int option) \<Rightarrow> ShapeState \<Rightarrow> int
   \<Rightarrow> (string \<times> Shape) option
   \<Rightarrow> (Shape \<times> (string \<times> (string \<times> string) list) list \<times> ServeBinding list) option \<times> (string \<times> Shape) option" where
  "load_serve_shape localeLe readFile compiles parse st now cache =
     (let fresh = freshServeBindings parse (serveBindings st) now; key = serve_shape_key (plansVersion st) fresh in
      if fresh = [] then (None, cache)
      else case cache of
        Some (k, shape) \<Rightarrow>
          if k = key then (Some (shape, virtual_map_for localeLe st fresh, fresh), cache)
          else (Some (shape_for localeLe readFile compiles st fresh, virtual_map_for localeLe st fresh, fresh),
                Some (key, shape_for localeLe readFile compiles st fresh))
      | None \<Rightarrow> (Some (shape_for localeLe readFile compiles st fresh, virtual_map_for localeLe st fresh, fresh),
                Some (key, shape_for localeLe readFile compiles st fresh)))"

subsection \<open>A served source keeps its filters and its surface\<close>

definition source_filters :: "ServeBinding \<Rightarrow> string list" where
  "source_filters b = concat (map (\<lambda>r. case r of FilterRefinement c \<Rightarrow> [c] | _ \<Rightarrow> []) (refinements b))"

text \<open>A binding with refinements dropped, none of them a filter.\<close>

definition thinned_from :: "ServeBinding \<Rightarrow> ServeBinding \<Rightarrow> bool" where
  "thinned_from e b \<longleftrightarrow> (\<exists>keep. Kind_filter \<in> set keep \<and> b = thin keep e)"

lemma thin_filters: "Kind_filter \<in> set keep \<Longrightarrow> source_filters (thin keep b) = source_filters b"
proof -
  assume k: "Kind_filter \<in> set keep"
  have "concat (map (\<lambda>r. case r of FilterRefinement c \<Rightarrow> [c] | _ \<Rightarrow> []) (List.filter (\<lambda>r. refinement_kind r \<in> set keep) rs))
      = concat (map (\<lambda>r. case r of FilterRefinement c \<Rightarrow> [c] | _ \<Rightarrow> []) rs)" for rs
    by (induction rs) (use k in \<open>auto simp: refinement_kind_def split: SourceRefinement.splits\<close>)
  then show ?thesis by (simp add: source_filters_def thin_def)
qed

lemma thin_sel [simp]:
  "boundSource (thin keep b) = boundSource b" "boundSchema (thin keep b) = boundSchema b"
  "destinationName (thin keep b) = destinationName b" "virtualHandle (thin keep b) = virtualHandle b"
  "tablePath (thin keep b) = tablePath b" "set (refinements (thin keep b)) \<subseteq> set (refinements b)"
  by (auto simp: thin_def)

lemma thin_all: "thin (hd keep_kinds) b = b"
proof -
  have "refinement_kind r \<in> set (hd keep_kinds)" for r
    by (cases r) (auto simp: refinement_kind_def keep_kinds_def NEVER_THINNED_def split: FieldKind.splits)
  then show ?thesis by (simp add: thin_def)
qed

lemma climb_thins:
  "climb compiles enriched tiers = Inl (bs, gs) \<or> climb compiles enriched tiers = Inr (bs, gs) \<Longrightarrow>
   \<forall>(keep, g) \<in> set tiers. Kind_filter \<in> set keep \<and> (g = groups \<or> g = []) \<Longrightarrow> b \<in> set bs \<Longrightarrow>
   \<exists>e \<in> set enriched. thinned_from e b"
proof (induction compiles enriched tiers rule: climb.induct)
  case (2 compiles enriched keep groups' tiers)
  show ?case
  proof (cases "bs = map (thin keep) enriched")
    case True
    with 2(4) obtain e where "e \<in> set enriched" "b = thin keep e" by auto
    with 2(3) show ?thesis unfolding thinned_from_def by auto
  next
    case False
    with 2(2) have c: "\<not> compiles (map (thin keep) enriched, groups')" "tiers \<noteq> []"
        "climb compiles enriched tiers = Inl (bs, gs) \<or> climb compiles enriched tiers = Inr (bs, gs)"
      by (auto simp: Let_def split: if_splits)
    from 2(1) [OF refl c] 2(3,4) show ?thesis by auto
  qed
qed simp

lemma tiers_keep_filters: "\<forall>(keep, g) \<in> set (buildServeShapeTiers groups). Kind_filter \<in> set keep \<and> (g = groups \<or> g = [])"
  by (auto simp: buildServeShapeTiers_def keep_kinds_def NEVER_THINNED_def)

lemma serve_ladder_thins:
  assumes "serve_ladder compiles enriched groups = Inl (bs, gs) \<or> serve_ladder compiles enriched groups = Inr (bs, gs)" and "b \<in> set bs"
  shows "\<exists>e \<in> set enriched. thinned_from e b"
proof (cases "bs = enriched")
  case True
  have "thinned_from b b" unfolding thinned_from_def
    by (rule exI [of _ "hd keep_kinds"]) (rule conjI, simp add: keep_kinds_def NEVER_THINNED_def, simp only: thin_all)
  with True assms(2) show ?thesis by blast
next
  case False
  with assms(1) have "climb compiles enriched (tl (buildServeShapeTiers groups)) = Inl (bs, gs)
      \<or> climb compiles enriched (tl (buildServeShapeTiers groups)) = Inr (bs, gs)"
    by (auto simp: serve_ladder_def split: if_splits)
  moreover have "\<forall>(keep, g) \<in> set (tl (buildServeShapeTiers groups)). Kind_filter \<in> set keep \<and> (g = groups \<or> g = [])"
    using tiers_keep_filters [of groups] by (cases "buildServeShapeTiers groups") auto
  ultimately show ?thesis by (rule climb_thins) (rule assms(2))
qed

lemma compiled_shape_thins:
  assumes "compileServeShape compiles enriched groups = (bs, gs)" and "b \<in> set bs"
  shows "\<exists>e \<in> set enriched. thinned_from e b"
proof (cases "serve_ladder compiles enriched groups")
  case (Inr shape)
  with assms serve_ladder_thins show ?thesis by (metis compileServeShape_def sum.simps(6))
next
  case (Inl lowest)
  define servable where "servable = bindingsWhoseFiltersCompile compiles enriched"
  have sub: "set servable \<subseteq> set enriched" by (simp add: servable_def bindingsWhoseFiltersCompile_def)
  show ?thesis
  proof (cases "servable = [] \<or> length servable = length enriched")
    case True
    with assms(1) Inl have "lowest = (bs, gs)" by (simp add: compileServeShape_def servable_def Let_def)
    with Inl serve_ladder_thins assms(2) show ?thesis by blast
  next
    case False
    with assms(1) Inl have "serve_ladder compiles servable groups = Inl (bs, gs) \<or> serve_ladder compiles servable groups = Inr (bs, gs)"
      by (auto simp: compileServeShape_def servable_def [symmetric] Let_def split: sum.splits)
    from serve_ladder_thins [OF this assms(2)] sub show ?thesis by blast
  qed
qed

lemma author_name_public: "author_name names c = Some n \<Longrightarrow> n \<in> set names \<and> js_lower n = js_lower c"
proof -
  assume a: "author_name names c = Some n"
  show ?thesis
  proof (cases "c \<in> set names")
    case False
    with a have "List.filter (\<lambda>n. js_lower n = js_lower c) names = [n]"
      by (auto simp: author_name_def split: list.splits)
    then have "n \<in> set (List.filter (\<lambda>n. js_lower n = js_lower c) names)" by simp
    then show ?thesis by simp
  qed (use a in \<open>simp add: author_name_def\<close>)
qed

lemma narrow_loop_public:
  "distinct (map fst (narrow_loop names sch emitted)) \<and> fst ` set (narrow_loop names sch emitted) \<inter> set emitted = {}
   \<and> (\<forall>(n, t) \<in> set (narrow_loop names sch emitted). n \<in> set names \<and> (\<exists>c. (c, t) \<in> set sch \<and> author_name names c = Some n))"
proof (induction names sch emitted rule: narrow_loop.induct)
  case (2 names c t cs emitted)
  show ?case
  proof (cases "author_name names c")
    case None
    then have "narrow_loop names ((c, t) # cs) emitted = narrow_loop names cs emitted" by simp
    with 2(1) [OF None] show ?thesis by (auto simp del: narrow_loop.simps)
  next
    case (Some n)
    show ?thesis
    proof (cases "n \<in> set emitted")
      case True
      with Some have "narrow_loop names ((c, t) # cs) emitted = narrow_loop names cs emitted" by simp
      with 2(2) [OF Some True] show ?thesis by (auto simp del: narrow_loop.simps)
    next
      case False
      define R where "R = narrow_loop names cs (n # emitted)"
      have R: "narrow_loop names ((c, t) # cs) emitted = (n, t) # R" using Some False by (simp add: R_def)
      from 2(3) [OF Some False] have d: "distinct (map fst R)" and i: "fst ` set R \<inter> set (n # emitted) = {}"
        and p: "\<forall>(m, u) \<in> set R. m \<in> set names \<and> (\<exists>c'. (c', u) \<in> set cs \<and> author_name names c' = Some m)"
        unfolding R_def by blast+
      have "distinct (map fst ((n, t) # R))" using d i by auto
      moreover have "fst ` set ((n, t) # R) \<inter> set emitted = {}" using i False by auto
      moreover have "\<forall>(m, u) \<in> set ((n, t) # R). m \<in> set names \<and> (\<exists>c'. (c', u) \<in> set ((c, t) # cs) \<and> author_name names c' = Some m)"
        using p Some author_name_public [OF Some] by fastforce
      ultimately show ?thesis unfolding R by blast
    qed
  qed
qed simp

lemma restricted_refinement:
  "isAccessRestricted f \<Longrightarrow> field_refinement f = [] \<and> join_refinement ids ms lift f = [] \<and> view_refinement lift f = []"
  by (simp add: field_refinement_def join_refinement_def view_refinement_def)

lemma enriched_filters: "source_filters (enrich model readFile ms b) =
  map (\<lambda>c. case c of Some s \<Rightarrow> s | None \<Rightarrow> ''__unreproducible_filter__'') (author_filters model (boundSource b))"
proof -
  define codes where "codes = concat \<circ> map (\<lambda>r. case r of FilterRefinement c \<Rightarrow> [c] | _ \<Rightarrow> [])"
  have split: "codes (xs @ ys) = codes xs @ codes ys" for xs ys by (simp add: codes_def)
  have "codes (extractJoins ids m l fs) = []" for ids m l fs
    by (induction fs) (auto simp: codes_def extractJoins_def join_refinement_def split: option.splits)
  moreover have "codes (extractRefinements fs) = []" for fs
    by (induction fs) (auto simp: codes_def extractRefinements_def field_refinement_def)
  moreover have "codes (extractViews l fs) = []" for l fs
    by (induction fs) (auto simp: codes_def extractViews_def view_refinement_def split: option.splits)
  moreover have "codes (extractSourceFilters cs)
      = map (\<lambda>c. case c of Some s \<Rightarrow> s | None \<Rightarrow> ''__unreproducible_filter__'') cs" for cs
    by (induction cs) (auto simp: codes_def extractSourceFilters_def)
  ultimately have "codes (refinements (enrich model readFile ms b))
      = map (\<lambda>c. case c of Some s \<Rightarrow> s | None \<Rightarrow> ''__unreproducible_filter__'') (author_filters model (boundSource b))"
    by (simp add: enrich_def split)
  then show ?thesis by (simp add: codes_def source_filters_def)
qed

lemma filter_line: "c \<in> set (source_filters b) \<Longrightarrow> ''   where: '' @ c \<in> set (refinement_lines (refinements b))"
  by (auto simp: source_filters_def refinement_lines_def split: SourceRefinement.splits)

lemma served_columns:
  "(n, t) \<in> set (narrowSchemaToPublic sch fs) \<Longrightarrow> n \<in> set (public_names fs) \<and>
   (\<exists>c. (c, t) \<in> set sch \<and> (c = n \<or> c \<notin> set (public_names fs) \<and> List.filter (\<lambda>p. js_lower p = js_lower c) (public_names fs) = [n]))"
proof -
  assume "(n, t) \<in> set (narrowSchemaToPublic sch fs)"
  with narrow_loop_public [of "public_names fs" sch "[]"] obtain c where
    "n \<in> set (public_names fs)" "(c, t) \<in> set sch" and c: "author_name (public_names fs) c = Some n"
    unfolding narrowSchemaToPublic_def by blast
  moreover from c have "c = n \<or> c \<notin> set (public_names fs) \<and> List.filter (\<lambda>p. js_lower p = js_lower c) (public_names fs) = [n]"
    by (cases "List.filter (\<lambda>p. js_lower p = js_lower c) (public_names fs)" rule: remdups_adj.cases)
      (simp_all add: author_name_def split: if_splits)
  ultimately show "n \<in> set (public_names fs) \<and>
   (\<exists>c. (c, t) \<in> set sch \<and> (c = n \<or> c \<notin> set (public_names fs) \<and> List.filter (\<lambda>p. js_lower p = js_lower c) (public_names fs) = [n]))"
    by blast
qed

subsection \<open>Joined sources are declared first\<close>

lemma set_first_occurrences [simp]: "set (first_occurrences xs) = set xs"
  by (induction xs) auto

lemma distinct_first_occurrences [simp]: "distinct (first_occurrences xs)"
  by (induction xs) auto

definition ready :: "(string \<Rightarrow> string list option) \<Rightarrow> string set \<Rightarrow> ServeBinding \<Rightarrow> bool" where
  "ready deps known b \<longleftrightarrow> (case deps (boundSource b) of Some ds \<Rightarrow> set ds \<subseteq> known | None \<Rightarrow> True)"

text \<open>Each binding of the list is ready once the names before it are known.\<close>

fun declared_in_order :: "(string \<Rightarrow> string list option) \<Rightarrow> string set \<Rightarrow> ServeBinding list \<Rightarrow> bool" where
  "declared_in_order deps known [] = True"
| "declared_in_order deps known (b # bs) \<longleftrightarrow>
     ready deps known b \<and> declared_in_order deps (insert (boundSource b) known) bs"

lemma declared_in_order_append:
  "declared_in_order deps known (xs @ ys) \<longleftrightarrow>
   declared_in_order deps known xs \<and> declared_in_order deps (boundSource ` set xs \<union> known) ys"
  by (induction xs arbitrary: known) auto

lemma declared_in_order_nth:
  "declared_in_order deps known bs \<Longrightarrow> i < length bs \<Longrightarrow> ready deps (known \<union> boundSource ` set (take i bs)) (bs ! i)"
proof (induction bs arbitrary: known i)
  case (Cons b bs)
  show ?case
  proof (cases i)
    case (Suc j)
    with Cons.IH [of "insert (boundSource b) known" j] Cons.prems show ?thesis by (simp add: Un_commute)
  qed (use Cons.prems in simp)
qed simp

lemma order_pass_result:
  "order_pass deps bs emitted remaining = (out, emitted', remaining') \<Longrightarrow> distinct remaining \<Longrightarrow>
   declared_in_order deps (set emitted) out \<and> set emitted' = boundSource ` set out \<union> set emitted
   \<and> set remaining' = set remaining - boundSource ` set out \<and> distinct remaining'
   \<and> boundSource ` set out \<subseteq> set remaining \<and> distinct (map boundSource out) \<and> set out \<subseteq> set bs
   \<and> (out = [] \<longrightarrow> (\<forall>b \<in> set bs. boundSource b \<in> set remaining \<longrightarrow> \<not> ready deps (set emitted) b))"
proof (induction deps bs emitted remaining arbitrary: out emitted' remaining' rule: order_pass.induct)
  case (2 deps b bs emitted remaining)
  show ?case
  proof (cases "boundSource b \<in> set remaining \<and> (case deps (boundSource b) of Some ds \<Rightarrow> set ds \<subseteq> set emitted | None \<Rightarrow> True)")
    case True
    obtain o' e r where p: "order_pass deps bs (boundSource b # emitted) (removeAll (boundSource b) remaining) = (o', e, r)"
      by (metis prod_cases3)
    with True 2(3) have out: "out = b # o'" "emitted' = e" "remaining' = r" by auto
    from 2(1) [OF True p] 2(4) True show ?thesis unfolding out by (auto simp: ready_def distinct_removeAll)
  next
    case False
    with 2(3) have "order_pass deps bs emitted remaining = (out, emitted', remaining')" by auto
    from 2(2) [OF False this 2(4)] False show ?thesis by (auto simp: ready_def)
  qed
qed simp

lemma order_rest_result:
  "distinct remaining \<Longrightarrow> set remaining \<subseteq> boundSource ` set bs \<Longrightarrow>
   set (order_rest bs remaining) \<subseteq> set bs \<and> boundSource ` set (order_rest bs remaining) = set remaining
   \<and> distinct (map boundSource (order_rest bs remaining))"
proof (induction bs remaining rule: order_rest.induct)
  case (2 b bs remaining)
  show ?case
  proof (cases "boundSource b \<in> set remaining")
    case True
    have "set (removeAll (boundSource b) remaining) \<subseteq> boundSource ` set bs" using 2(4) by auto
    from 2(1) [OF True _ this] 2(3) True show ?thesis by (auto simp: distinct_removeAll)
  next
    case False
    with 2(2) [OF False 2(3)] 2(4) show ?thesis by auto
  qed
qed simp

definition ranked :: "(string \<Rightarrow> string list option) \<Rightarrow> (string \<Rightarrow> nat) \<Rightarrow> bool" where
  "ranked deps rank \<longleftrightarrow> (\<forall>n ds. deps n = Some ds \<longrightarrow> (\<forall>d \<in> set ds. rank d < rank n))"

lemma order_loop_result:
  assumes "\<And>n ds. deps n = Some ds \<Longrightarrow> set ds \<subseteq> boundSource ` set bindings"
  shows "distinct remaining \<Longrightarrow> set remaining \<union> set emitted = boundSource ` set bindings \<Longrightarrow>
    set (order_loop deps bindings emitted remaining) \<subseteq> set bindings
    \<and> boundSource ` set (order_loop deps bindings emitted remaining) = set remaining
    \<and> distinct (map boundSource (order_loop deps bindings emitted remaining))
    \<and> (ranked deps rank \<longrightarrow> declared_in_order deps (set emitted) (order_loop deps bindings emitted remaining))"
  using assms
proof (induction deps bindings emitted remaining rule: order_loop.induct)
  case (1 deps bindings emitted remaining)
  show ?case
  proof (cases "remaining = []")
    case True
    then show ?thesis by (simp add: order_loop.simps)
  next
    case False
    obtain out e r where p: "order_pass deps bindings emitted remaining = (out, e, r)" by (metis prod_cases3)
    note res = order_pass_result [OF p 1(2)]
    show ?thesis
    proof (cases out)
      case Nil
      have r: "r = remaining" using order_pass_remaining [OF p] Nil by simp
      have loop: "order_loop deps bindings emitted remaining = order_rest bindings remaining"
        using False p Nil r by (simp add: order_loop.simps)
      have "\<not> ranked deps rank"
      proof
        assume rk: "ranked deps rank"
        obtain n where n: "n \<in> set remaining" "\<And>m. m \<in> set remaining \<Longrightarrow> rank n \<le> rank m"
          using False ex_has_least_nat [of "\<lambda>n. n \<in> set remaining" _ rank] by (metis list.set_intros(1) neq_Nil_conv)
        from n(1) 1(3) have "n \<in> boundSource ` set bindings" by blast
        then obtain b where b: "b \<in> set bindings" "boundSource b = n" by auto
        have "d \<in> set emitted" if "deps n = Some ds" "d \<in> set ds" for ds d
        proof -
          have "rank d < rank n" using rk that by (auto simp: ranked_def)
          with n(2) have "d \<notin> set remaining" by (metis not_less)
          moreover have "d \<in> boundSource ` set bindings" using 1(4) that by blast
          ultimately show ?thesis using 1(3) by blast
        qed
        then have "ready deps (set emitted) b" by (auto simp: ready_def b(2) split: option.splits)
        with res Nil b n(1) show False by auto
      qed
      with order_rest_result [OF 1(2), of bindings] 1(3) loop show ?thesis by auto
    next
      case (Cons b bs)
      have loop: "order_loop deps bindings emitted remaining = out @ order_loop deps bindings e r"
        using False p Cons by (simp add: order_loop.simps)
      have u: "set r \<union> set e = boundSource ` set bindings" using res 1(3) by auto
      from 1(1) [OF False p [symmetric] Cons refl _ u 1(4)] res have ih: "set (order_loop deps bindings e r) \<subseteq> set bindings"
          "boundSource ` set (order_loop deps bindings e r) = set r" "distinct (map boundSource (order_loop deps bindings e r))"
          "ranked deps rank \<longrightarrow> declared_in_order deps (set e) (order_loop deps bindings e r)" by auto
      have names: "boundSource ` set out \<union> set r = set remaining" "boundSource ` set out \<inter> set r = {}" using res by auto
      have "set (order_loop deps bindings emitted remaining) \<subseteq> set bindings" using ih(1) res loop by auto
      moreover have "boundSource ` set (order_loop deps bindings emitted remaining) = set remaining"
        using ih(2) names(1) by (simp add: loop image_Un)
      moreover have "distinct (map boundSource (order_loop deps bindings emitted remaining))"
        using ih(2,3) names(2) res by (simp add: loop)
      moreover have "ranked deps rank \<longrightarrow> declared_in_order deps (set emitted) (order_loop deps bindings emitted remaining)"
        using ih(4) res by (simp add: loop declared_in_order_append)
      ultimately show ?thesis by blast
    qed
  qed
qed

lemma find_in: "List.find P xs = Some x \<Longrightarrow> x \<in> set xs \<and> P x"
  by (induction xs) (auto split: if_splits)

lemma deps_fold:
  "map_of (foldl (\<lambda>al b. AList.update (boundSource b) (join_deps present b) al) al bs) n =
     (case List.find (\<lambda>b. boundSource b = n) (rev bs) of Some b \<Rightarrow> Some (join_deps present b) | None \<Rightarrow> map_of al n)"
proof (induction bs arbitrary: al)
  case (Cons b bs)
  show ?case by (simp add: Cons find_append update_conv' split: option.splits)
qed simp

lemma deps_by_name_lookup:
  assumes "distinct (map boundSource bindings)" and "b \<in> set bindings"
  shows "map_of (deps_by_name bindings) (boundSource b) = Some (join_deps (boundSource ` set bindings) b)"
proof -
  have "List.find (\<lambda>c. boundSource c = boundSource b) (rev bindings) = Some b"
  proof (cases "List.find (\<lambda>c. boundSource c = boundSource b) (rev bindings)")
    case None
    with assms(2) show ?thesis by (auto simp: find_None_iff)
  next
    case (Some c)
    from find_in [OF this] have "c \<in> set bindings" "boundSource c = boundSource b" by simp_all
    with assms Some show ?thesis by (metis distinct_map inj_onD)
  qed
  then show ?thesis by (simp add: deps_by_name_def deps_fold)
qed

lemma deps_present: "map_of (deps_by_name bindings) n = Some ds \<Longrightarrow> set ds \<subseteq> boundSource ` set bindings"
proof -
  assume "map_of (deps_by_name bindings) n = Some ds"
  then obtain b where "ds = join_deps (boundSource ` set bindings) b"
    by (auto simp: deps_by_name_def deps_fold split: option.splits)
  then show ?thesis by (auto simp: join_deps_def split: SourceRefinement.splits if_splits)
qed

text \<open>
  The declarations of a serve shape are those of its bindings, each once, and when the joins between
  them are acyclic every source is declared after all the sources it joins.
\<close>

theorem joined_sources_declared_first:
  assumes "distinct (map boundSource bindings)"
  shows "set (orderBindingsByJoinDeps bindings) = set bindings
    \<and> distinct (map boundSource (orderBindingsByJoinDeps bindings))
    \<and> ((\<exists>rank :: string \<Rightarrow> nat. \<forall>b \<in> set bindings. \<forall>d \<in> set (join_deps (boundSource ` set bindings) b). rank d < rank (boundSource b))
       \<longrightarrow> (\<forall>i < length (orderBindingsByJoinDeps bindings).
             set (join_deps (boundSource ` set bindings) (orderBindingsByJoinDeps bindings ! i))
               \<subseteq> boundSource ` set (take i (orderBindingsByJoinDeps bindings))))"
proof -
  let ?deps = "map_of (deps_by_name bindings)" and ?out = "orderBindingsByJoinDeps bindings"
  have res: "set ?out \<subseteq> set bindings \<and> boundSource ` set ?out = boundSource ` set bindings \<and> distinct (map boundSource ?out)
      \<and> (ranked ?deps rank \<longrightarrow> declared_in_order ?deps {} ?out)" for rank
    using order_loop_result [of ?deps bindings "first_occurrences (map boundSource bindings)" "[]" rank] deps_present
    unfolding orderBindingsByJoinDeps_def by simp
  from res [of "\<lambda>_. 0"] have sub: "set ?out \<subseteq> set bindings" and names: "boundSource ` set ?out = boundSource ` set bindings"
    and d: "distinct (map boundSource ?out)" by auto
  have "set bindings \<subseteq> set ?out"
  proof
    fix b assume b: "b \<in> set bindings"
    with names obtain c where c: "c \<in> set ?out" "boundSource c = boundSource b" by (metis imageE imageI)
    with sub b assms have "c = b" by (metis distinct_map inj_onD subsetD)
    with c show "b \<in> set ?out" by simp
  qed
  with sub have set_eq: "set ?out = set bindings" by blast
  have "set (join_deps (boundSource ` set bindings) (?out ! i)) \<subseteq> boundSource ` set (take i ?out)"
    if rank: "\<forall>b \<in> set bindings. \<forall>d \<in> set (join_deps (boundSource ` set bindings) b). rank d < rank (boundSource b)"
      and i: "i < length ?out" for rank :: "string \<Rightarrow> nat" and i
  proof -
    have "ranked ?deps rank" unfolding ranked_def
    proof (intro allI impI ballI)
      fix n ds d assume ds: "?deps n = Some ds" and d: "d \<in> set ds"
      then obtain b where b: "b \<in> set bindings" "boundSource b = n"
        by (auto simp: deps_by_name_def deps_fold split: option.splits dest!: find_in)
      with ds deps_by_name_lookup [OF assms b(1)] d rank show "rank d < rank n" by auto
    qed
    with res [of rank] have "declared_in_order ?deps {} ?out" by blast
    from declared_in_order_nth [OF this i] have "ready ?deps (boundSource ` set (take i ?out)) (?out ! i)" by simp
    moreover have "?out ! i \<in> set bindings" using i set_eq nth_mem by blast
    ultimately show ?thesis using deps_by_name_lookup [OF assms] by (simp add: ready_def)
  qed
  with set_eq d show ?thesis by blast
qed

subsection \<open>A name is bound to one table\<close>

lemma single_in_filter:
  "length (List.filter P xs) = 1 \<Longrightarrow> x \<in> set xs \<Longrightarrow> P x \<Longrightarrow> y \<in> set xs \<Longrightarrow> P y \<Longrightarrow> x = y"
proof -
  assume one: "length (List.filter P xs) = 1" and x: "x \<in> set xs" "P x" and y: "y \<in> set xs" "P y"
  then obtain z where "List.filter P xs = [z]" by (auto simp: length_Suc_conv)
  then have "set (List.filter P xs) = {z}" by simp
  then have "v = z" if "v \<in> set xs" "P v" for v using that by auto
  from this [OF x] this [OF y] show ?thesis by simp
qed

text \<open>An alias of a name is in the one table group that holds the name.\<close>

definition grouped :: "(string \<times> string list) list \<Rightarrow> string \<Rightarrow> string list \<Rightarrow> bool" where
  "grouped groups n al \<longleftrightarrow> (\<exists>a grp. (a, grp) \<in> set groups \<and> n \<in> set (unambiguous groups grp) \<and> al = unambiguous groups grp)"

lemma alias_fold_one:
  "(\<And>n g. map_of al n = Some g \<Longrightarrow> grouped groups n g) \<Longrightarrow> (a, grp) \<in> set groups \<Longrightarrow>
   set ns \<subseteq> set (unambiguous groups grp) \<Longrightarrow>
   map_of (foldl (\<lambda>al name. AList.update name (unambiguous groups grp) al) al ns) n = Some g \<Longrightarrow> grouped groups n g"
proof (induction ns arbitrary: al)
  case (Cons m ns)
  show ?case
  proof (rule Cons.IH [of "AList.update m (unambiguous groups grp) al"])
    fix n' g' assume "map_of (AList.update m (unambiguous groups grp) al) n' = Some g'"
    with Cons.prems(1-3) show "grouped groups n' g'"
      by (auto simp: update_conv' grouped_def split: if_splits)
  qed (use Cons.prems in auto)
qed simp

lemma alias_grouped:
  assumes "map_of (groupAliasesByName planSources) n = Some g"
  shows "grouped (names_by_address planSources) n g"
proof -
  define groups where "groups = names_by_address planSources"
  have "map_of (foldl (\<lambda>byName (address, grp).
      foldl (\<lambda>al name. AList.update name (unambiguous groups grp) al) byName (unambiguous groups grp)) al gs) n = Some g
      \<Longrightarrow> grouped groups n g"
    if "\<And>n g. map_of al n = Some g \<Longrightarrow> grouped groups n g" "set gs \<subseteq> set groups" for al gs n g
    using that
  proof (induction gs arbitrary: al)
    case (Cons p gs)
    obtain a grp where p: "p = (a, grp)" by force
    show ?case
    proof (rule Cons.IH [of "foldl (\<lambda>al name. AList.update name (unambiguous groups grp) al) al (unambiguous groups grp)"])
      fix n' g'
      assume "map_of (foldl (\<lambda>al name. AList.update name (unambiguous groups grp) al) al (unambiguous groups grp)) n' = Some g'"
      with alias_fold_one [where a = a and ns = "unambiguous groups grp", OF Cons.prems(2)] Cons.prems(3) p
      show "grouped groups n' g'" by auto
    qed (use Cons.prems p in auto)
  qed simp
  from this [of "[]" groups] assms show ?thesis by (auto simp: groupAliasesByName_def groups_def [symmetric] Let_def)
qed

definition builders_of :: "BuiltEntry list \<Rightarrow> string list" where
  "builders_of entries = List.filter (\<lambda>n. n \<noteq> []) (somes (map entrySource entries))"

lemma is_set_Some: "is_set s \<longleftrightarrow> (\<exists>n. s = Some n \<and> n \<noteq> [])"
  by (cases s) (auto simp: is_set_def)

lemma bound_names:
  "map boundSource (entry_bindings builders aliases e) =
     (if is_set (entrySource e) \<and> is_set (storageDestination e) \<and> is_set (physicalTable e) \<and> captured (entrySchema e) \<noteq> []
      then entry_names builders aliases (the (entrySource e)) else [])"
  by (simp add: entry_bindings_def comp_def)

lemma entry_name_cases:
  assumes "n \<in> set (entry_names builders (groupAliasesByName planSources) s)"
  shows "n = s \<or> (\<exists>a grp. (a, grp) \<in> set (names_by_address planSources) \<and> s \<in> set grp \<and> n \<in> set grp
    \<and> addresses_of (names_by_address planSources) n = 1 \<and> n \<notin> builders)"
proof -
  consider "n = s"
    | al where "map_of (groupAliasesByName planSources) s = Some al" "n \<in> set al" "n \<notin> builders"
    using assms by (cases "map_of (groupAliasesByName planSources) s") (auto simp: entry_names_def)
  then show ?thesis
  proof cases
    case 2
    from alias_grouped [OF 2(1)] obtain a grp where "(a, grp) \<in> set (names_by_address planSources)"
        "s \<in> set (unambiguous (names_by_address planSources) grp)" "al = unambiguous (names_by_address planSources) grp"
      by (auto simp: grouped_def)
    with 2 show ?thesis by (auto simp: unambiguous_def)
  qed simp
qed

text \<open>
  The bindings derived from a build bind every name once, builders and the sources that share their
  tables alike, as long as no name built two entries and no two builders share a table: a name that is
  declared over two tables is left out of the sharing.
\<close>

theorem each_name_bound_once:
  assumes "distinct (builders_of entries)"
    and "\<forall>(a, grp) \<in> set (names_by_address planSources). \<forall>s \<in> set (builders_of entries). \<forall>t \<in> set (builders_of entries).
      s \<in> set grp \<and> t \<in> set grp \<longrightarrow> s = t"
  shows "distinct (map boundSource (deriveServeBindings entries (groupAliasesByName planSources)))"
proof -
  define B where "B = set (builders_of entries)"
  let ?al = "groupAliasesByName planSources" and ?groups = "names_by_address planSources"
  have apart: "set (entry_names B ?al s) \<inter> set (entry_names B ?al t) = {}" if "s \<in> B" "t \<in> B" "s \<noteq> t" for s t
  proof (rule ccontr)
    assume "set (entry_names B ?al s) \<inter> set (entry_names B ?al t) \<noteq> {}"
    then obtain n where n: "n \<in> set (entry_names B ?al s)" "n \<in> set (entry_names B ?al t)" by auto
    from entry_name_cases [OF n(1)] entry_name_cases [OF n(2)] that obtain a g a' g' where
        g: "(a, g) \<in> set ?groups" "s \<in> set g" "n \<in> set g" "addresses_of ?groups n = 1"
        "(a', g') \<in> set ?groups" "t \<in> set g'" "n \<in> set g'" by blast
    have "(a, g) = (a', g')"
      by (rule single_in_filter [OF g(4) [unfolded addresses_of_def]]) (use g in auto)
    with g that assms(2) show False unfolding B_def by blast
  qed
  have "distinct (concat (map (\<lambda>e. map boundSource (entry_bindings B ?al e)) es))"
    if "distinct (builders_of es)" "set (builders_of es) \<subseteq> B" for es
    using that
  proof (induction es)
    case (Cons e es)
    have ih: "distinct (concat (map (\<lambda>e. map boundSource (entry_bindings B ?al e)) es))"
      using Cons by (cases "entrySource e") (auto simp: builders_of_def split: if_splits)
    show ?case
    proof (cases "is_set (entrySource e)")
      case False
      with ih show ?thesis by (simp add: bound_names)
    next
      case True
      then obtain s where s: "entrySource e = Some s" "s \<noteq> []" by (auto simp: is_set_Some)
      with Cons.prems have b: "s \<in> B" "s \<notin> set (builders_of es)" "set (builders_of es) \<subseteq> B" by (auto simp: builders_of_def)
      have "set (map boundSource (entry_bindings B ?al e)) \<inter> set (map boundSource (entry_bindings B ?al f)) = {}"
        if f: "f \<in> set es" for f
      proof (cases "is_set (entrySource f)")
        case True
        then obtain t where t: "entrySource f = Some t" "t \<noteq> []" by (auto simp: is_set_Some)
        with f have "t \<in> set (builders_of es)" by (force simp: builders_of_def set_somes)
        with b have "set (entry_names B ?al s) \<inter> set (entry_names B ?al t) = {}" by (intro apart) auto
        then show ?thesis by (auto simp: bound_names s t simp del: set_map)
      qed (simp add: bound_names)
      then have "set (map boundSource (entry_bindings B ?al e))
          \<inter> set (concat (map (\<lambda>e. map boundSource (entry_bindings B ?al e)) es)) = {}" by auto
      moreover have "distinct (map boundSource (entry_bindings B ?al e))" by (simp add: bound_names entry_names_def)
      ultimately show ?thesis using ih by simp
    qed
  qed simp
  from this [of entries] assms(1) show ?thesis
    by (simp add: deriveServeBindings_def B_def builders_of_def map_concat comp_def)
qed

subsection \<open>Rollups that can be served\<close>

lemma insert_by_set [simp]: "set (insert_by le x ys) = insert x (set ys)"
  by (induction ys) auto

lemma sort_by_set [simp]: "set (sort_by le xs) = set xs"
  by (induction xs) (simp_all add: sort_by_def)

lemma insert_by_distinct: "distinct (map f (insert_by le x ys)) \<longleftrightarrow> distinct (map f (x # ys))"
proof (induction ys)
  case (Cons y ys)
  have "f ` set (insert_by le x ys) = insert (f x) (f ` set ys)" by simp
  with Cons show ?case by auto
qed simp

lemma sort_by_distinct: "distinct (map f (sort_by le xs)) \<longleftrightarrow> distinct (map f xs)"
  by (induction xs) (simp_all add: sort_by_def insert_by_distinct [unfolded list.map distinct.simps] del: list.map distinct.simps,
    simp add: image_def sort_by_set [unfolded sort_by_def])

lemma by_base_sound:
  "distinct (map fst al) \<Longrightarrow> (\<And>base ms p b. (base, ms) \<in> set al \<Longrightarrow> (p, b) \<in> set ms \<Longrightarrow> b \<in> B \<and> usable_plan plans b = Some p \<and> baseSourceName p = base) \<Longrightarrow>
   set bs \<subseteq> B \<Longrightarrow>
   distinct (map fst (foldl (add_to_base plans) al bs))
   \<and> (\<forall>(base, ms) \<in> set (foldl (add_to_base plans) al bs). \<forall>(p, b) \<in> set ms. b \<in> B \<and> usable_plan plans b = Some p \<and> baseSourceName p = base)"
proof (induction bs arbitrary: al)
  case Nil
  then show ?case by auto
next
  case (Cons c bs)
  show ?case
  proof (cases "usable_plan plans c")
    case None
    then have "add_to_base plans al c = al" by (simp add: add_to_base_def)
    with Cons show ?thesis by simp
  next
    case (Some p)
    let ?al = "add_to_base plans al c"
    have al: "?al = AList.update (baseSourceName p)
        ((case map_of al (baseSourceName p) of Some es \<Rightarrow> es | None \<Rightarrow> []) @ [(p, c)]) al"
      by (simp add: add_to_base_def Some)
    have d: "distinct (map fst ?al)" unfolding al using Cons.prems(1) by (rule distinct_update)
    have "b \<in> B \<and> usable_plan plans b = Some q \<and> baseSourceName q = base"
      if m: "(base, ms) \<in> set ?al" "(q, b) \<in> set ms" for base ms q b
    proof -
      from m(1) d have look: "map_of ?al base = Some ms" by simp
      show ?thesis
      proof (cases "base = baseSourceName p")
        case True
        with look have "ms = (case map_of al (baseSourceName p) of Some es \<Rightarrow> es | None \<Rightarrow> []) @ [(p, c)]"
          by (simp add: al update_conv')
        with m(2) Cons.prems(2,3) Some True show ?thesis by (auto split: option.splits dest: map_of_SomeD)
      next
        case False
        with look have "map_of al base = Some ms" by (simp add: al update_conv')
        with m(2) Cons.prems(2) show ?thesis by (meson map_of_SomeD)
      qed
    qed
    from Cons.IH [OF d this] Cons.prems(3) show ?thesis by simp
  qed
qed

text \<open>
  The rollups that are served: each base once, under a name no stored copy claims, all its tables in one
  destination and each with every column that its plan reads.
\<close>

theorem served_rollups_are_sound:
  assumes "rollupServeBindings localeLe bindings plans = (groups, conflicts)"
  shows "distinct (map groupBase groups)
    \<and> (\<forall>g \<in> set groups. groupBase g \<notin> boundSource ` set (ordinary_bindings bindings)
        \<and> (\<exists>d. \<forall>m \<in> set (groupMembers g). destinationName m = d)
        \<and> (\<forall>m \<in> set (groupMembers g). \<exists>b \<in> set bindings. \<exists>p. plan_of plans (boundSource b) = Some p \<and> bindingOrigin b = Preaggregate_origin
             \<and> baseSourceName p = groupBase g \<and> set (rollup_columns p) \<subseteq> fst ` set (boundSchema b)
             \<and> m = b\<lparr>refinements := rollupServeRefinements p\<rparr>))"
proof -
  define byBase where "byBase = foldl (add_to_base plans) [] bindings"
  define sorted where "sorted = sort_by (\<lambda>x y. localeLe (fst x) (fst y)) byBase"
  let ?claimed = "boundSource ` set (ordinary_bindings bindings)"
  from by_base_sound [of "[]" "set bindings" plans bindings] have base: "distinct (map fst sorted)"
    "\<forall>(base, ms) \<in> set sorted. \<forall>(p, b) \<in> set ms. b \<in> set bindings \<and> usable_plan plans b = Some p \<and> baseSourceName p = base"
    by (simp_all add: sorted_def byBase_def sort_by_distinct)
  from assms have groups: "groups = somes (map (\<lambda>e. case rollup_group localeLe ?claimed e of Inr g \<Rightarrow> Some g | Inl _ \<Rightarrow> None) sorted)"
    by (simp add: rollupServeBindings_def Let_def comp_def sorted_def byBase_def)
  have "distinct (map groupBase (somes (map (\<lambda>e. case rollup_group localeLe ?claimed e of Inr g \<Rightarrow> Some g | Inl _ \<Rightarrow> None) es)))
      \<and> groupBase ` set (somes (map (\<lambda>e. case rollup_group localeLe ?claimed e of Inr g \<Rightarrow> Some g | Inl _ \<Rightarrow> None) es)) \<subseteq> fst ` set es"
    if "distinct (map fst es)" for es
    using that
  proof (induction es)
    case (Cons e es)
    have "groupBase g = fst e" if "rollup_group localeLe ?claimed e = Inr g" for g
      using that by (auto simp: rollup_group_def Let_def split: prod.splits if_splits)
    with Cons show ?case by (auto split: sum.splits)
  qed simp
  with base(1) groups have d: "distinct (map groupBase groups)" by simp
  have "groupBase g \<notin> ?claimed \<and> (\<exists>d. \<forall>m \<in> set (groupMembers g). destinationName m = d)
      \<and> (\<forall>m \<in> set (groupMembers g). \<exists>b \<in> set bindings. \<exists>p. plan_of plans (boundSource b) = Some p \<and> bindingOrigin b = Preaggregate_origin
           \<and> baseSourceName p = groupBase g \<and> set (rollup_columns p) \<subseteq> fst ` set (boundSchema b)
           \<and> m = b\<lparr>refinements := rollupServeRefinements p\<rparr>)" if "g \<in> set groups" for g
  proof -
    from that groups obtain base ms where e: "(base, ms) \<in> set sorted" "rollup_group localeLe ?claimed (base, ms) = Inr g"
      by (auto simp: set_somes split: sum.splits)
    then have g: "base \<notin> ?claimed" "groupBase g = base" "\<not> length (first_occurrences (map (destinationName \<circ> snd) ms)) > 1"
        "set (groupMembers g) = (\<lambda>(p, b). b\<lparr>refinements := rollupServeRefinements p\<rparr>) ` set ms"
      by (auto simp: rollup_group_def Let_def split: if_splits)
    have one: "x = y" if "x \<in> destinationName ` snd ` set ms" "y \<in> destinationName ` snd ` set ms" for x y
    proof -
      let ?ds = "first_occurrences (map (destinationName \<circ> snd) ms)"
      have "x \<in> set ?ds" "y \<in> set ?ds" using that by auto
      with g(3) show ?thesis by (cases ?ds rule: remdups_adj.cases) auto
    qed
    have "\<exists>d. \<forall>m \<in> set (groupMembers g). destinationName m = d"
    proof (cases ms)
      case Nil
      with g(4) show ?thesis by simp
    next
      case (Cons q qs)
      show ?thesis
      proof (rule exI [of _ "destinationName (snd q)"], rule ballI)
        fix m assume "m \<in> set (groupMembers g)"
        with g(4) obtain p b where "(p, b) \<in> set ms" "destinationName m = destinationName b" by auto
        with one [of "destinationName b" "destinationName (snd q)"] Cons show "destinationName m = destinationName (snd q)" by force
      qed
    qed
    moreover have "\<exists>b \<in> set bindings. \<exists>p. plan_of plans (boundSource b) = Some p \<and> bindingOrigin b = Preaggregate_origin
        \<and> baseSourceName p = groupBase g \<and> set (rollup_columns p) \<subseteq> fst ` set (boundSchema b)
        \<and> m = b\<lparr>refinements := rollupServeRefinements p\<rparr>" if m: "m \<in> set (groupMembers g)" for m
    proof -
      from m g(4) obtain p b where pb: "(p, b) \<in> set ms" "m = b\<lparr>refinements := rollupServeRefinements p\<rparr>" by auto
      with base(2) e(1) have "b \<in> set bindings" "usable_plan plans b = Some p" "baseSourceName p = base" by blast+
      with pb(2) g(2) show ?thesis by (auto simp: usable_plan_def split: if_splits option.splits)
    qed
    ultimately show ?thesis using g(1,2) by blast
  qed
  with d show ?thesis by blast
qed

subsection \<open>Only fresh tables are reachable\<close>

lemma virtual_fold_sound:
  assumes "\<And>d inner h p. map_of m d = Some inner \<Longrightarrow> map_of inner h = Some p \<Longrightarrow>
      \<exists>b \<in> B. destinationName b = d \<and> virtualHandle b = h \<and> p = quoteManifestTablePath (tablePath b) ''duckdb''"
    and "set bs \<subseteq> B"
  shows "map_of (foldl (\<lambda>m b. AList.update (destinationName b)
       (AList.update (virtualHandle b) (quoteManifestTablePath (tablePath b) ''duckdb'')
         (case map_of m (destinationName b) of Some inner \<Rightarrow> inner | None \<Rightarrow> [])) m) m bs) d = Some inner \<Longrightarrow>
    map_of inner h = Some p \<Longrightarrow>
    \<exists>b \<in> B. destinationName b = d \<and> virtualHandle b = h \<and> p = quoteManifestTablePath (tablePath b) ''duckdb''"
  using assms
proof (induction bs arbitrary: m)
  case (Cons b bs)
  show ?case
  proof (rule Cons.IH)
    fix d inner h p
    assume look: "map_of (AList.update (destinationName b) (AList.update (virtualHandle b) (quoteManifestTablePath (tablePath b) ''duckdb'')
        (case map_of m (destinationName b) of Some inner \<Rightarrow> inner | None \<Rightarrow> [])) m) d = Some inner" and p: "map_of inner h = Some p"
    show "\<exists>b \<in> B. destinationName b = d \<and> virtualHandle b = h \<and> p = quoteManifestTablePath (tablePath b) ''duckdb''"
    proof (cases "d = destinationName b \<and> h = virtualHandle b")
      case True
      with look p Cons.prems(4) show ?thesis by (auto simp: update_conv')
    next
      case False
      with look p obtain inner' where "map_of m d = Some inner'" "map_of inner' h = Some p"
        by (cases "map_of m (destinationName b)") (auto simp: update_conv' split: if_splits)
      with Cons.prems(3) show ?thesis by blast
    qed
  qed (use Cons.prems in auto)
qed simp

lemma virtual_map_sound:
  assumes "map_of (buildVirtualMap bs) d = Some inner" and "map_of inner h = Some p"
  shows "\<exists>b \<in> set bs. destinationName b = d \<and> virtualHandle b = h \<and> p = quoteManifestTablePath (tablePath b) ''duckdb''"
  by (rule virtual_fold_sound [OF _ _ assms(1) [unfolded buildVirtualMap_def] assms(2)]) simp_all

text \<open>
  A routed query reaches no stale table: every physical table of its map is that of a binding whose
  table the freshness gate serves at that moment, under the destination and handle of that binding,
  whether the shape was compiled or cached.
\<close>

theorem only_fresh_tables_reachable:
  assumes "load_serve_shape localeLe readFile compiles parse st now cache = (Some (shape, vm, fresh), cache')"
    and "map_of vm d = Some inner" and "map_of inner h = Some p"
  shows "\<exists>b \<in> set (serveBindings st). evaluateManifestFreshness parse (binding_entry b) now = Serve_table
    \<and> destinationName b = d \<and> virtualHandle b = h \<and> p = quoteManifestTablePath (tablePath b) ''duckdb''"
proof -
  from assms(1) have fresh: "fresh = freshServeBindings parse (serveBindings st) now" and vm: "vm = virtual_map_for localeLe st fresh"
    by (auto simp: load_serve_shape_def Let_def split: if_splits option.splits prod.splits)
  obtain groups conflicts where g: "rollupServeBindings localeLe fresh (rollupPlans st) = (groups, conflicts)" by force
  from virtual_map_sound [OF assms(2) [unfolded vm virtual_map_for_def] assms(3)] obtain m where
      m: "m \<in> set (ordinary_bindings fresh) \<or> (\<exists>g \<in> set groups. m \<in> set (groupMembers g))"
        "destinationName m = d" "virtualHandle m = h" "p = quoteManifestTablePath (tablePath m) ''duckdb''"
    by (auto simp: g)
  from m(1) have "\<exists>b \<in> set fresh. destinationName m = destinationName b \<and> virtualHandle m = virtualHandle b \<and> tablePath m = tablePath b"
  proof
    assume "m \<in> set (ordinary_bindings fresh)"
    then show ?thesis by (auto simp: ordinary_bindings_def)
  next
    assume "\<exists>g \<in> set groups. m \<in> set (groupMembers g)"
    with served_rollups_are_sound [OF g] obtain b p' where "b \<in> set fresh" "m = b\<lparr>refinements := rollupServeRefinements p'\<rparr>" by blast
    then show ?thesis by auto
  qed
  with m(2-4) show ?thesis unfolding fresh freshServeBindings_def by auto
qed

subsection \<open>The cache of the shape is transparent\<close>

definition binding_key :: "ServeBinding \<Rightarrow> string" where
  "binding_key b = boundSource b @ ''@'' @ destinationName b @ ''/'' @ virtualHandle b"

text \<open>No two bindings of the package share a key, and no key holds the separator.\<close>

definition keys_separate :: "ServeBinding list \<Rightarrow> bool" where
  "keys_separate bindings \<longleftrightarrow> inj_on binding_key (set bindings) \<and> (\<forall>b \<in> set bindings. CHR ''|'' \<notin> set (binding_key b))"

lemma key_fresh:
  assumes "keys_separate bindings" and "serve_shape_key v (freshServeBindings parse bindings t) = serve_shape_key v (freshServeBindings parse bindings u)"
    and "freshServeBindings parse bindings t \<noteq> []" and "freshServeBindings parse bindings u \<noteq> []"
  shows "freshServeBindings parse bindings t = freshServeBindings parse bindings u"
proof -
  let ?k = "\<lambda>t. sort (map binding_key (freshServeBindings parse bindings t))"
  have sub: "set (freshServeBindings parse bindings t) \<subseteq> set bindings" for t by (auto simp: freshServeBindings_def)
  have clean: "\<forall>w \<in> set (?k t). CHR ''|'' \<notin> set w" for t using assms(1) sub [of t] by (auto simp: keys_separate_def)
  have ne: "?k t \<noteq> []" "?k u \<noteq> []" using assms(3,4) by (metis length_0_conv length_map length_sort)+
  have "join ''|'' (?k t) = join ''|'' (?k u)"
    using assms(2) by (simp add: serve_shape_key_def binding_key_def [abs_def])
  then have "split_on (CHR ''|'') (join [CHR ''|''] (?k t)) = split_on (CHR ''|'') (join [CHR ''|''] (?k u))" by simp
  then have "?k t = ?k u" using split_on_join clean ne by metis
  then have "set (?k t) = set (?k u)" by simp
  then have keys: "binding_key ` set (freshServeBindings parse bindings t) = binding_key ` set (freshServeBindings parse bindings u)" by simp
  have "b \<in> set (freshServeBindings parse bindings t) \<longleftrightarrow> b \<in> set (freshServeBindings parse bindings u)" if "b \<in> set bindings" for b
    using keys assms(1) that sub unfolding keys_separate_def by (metis (no_types, opaque_lifting) inj_on_image_mem_iff)
  then show ?thesis unfolding freshServeBindings_def by (intro filter_cong) auto
qed

text \<open>
  Whatever shape is kept from an earlier query of the same model and bindings, a query is served from
  the shape its own fresh bindings compile to: the key tells two sets of fresh bindings apart.
\<close>

theorem serve_shape_cache_transparent:
  assumes "keys_separate (serveBindings st)"
    and "load_serve_shape localeLe readFile compiles parse st earlier' None = (Some served, cache)"
  shows "fst (load_serve_shape localeLe readFile compiles parse st now cache)
    = fst (load_serve_shape localeLe readFile compiles parse st now None)"
proof -
  from assms(2) have earlier: "freshServeBindings parse (serveBindings st) earlier' \<noteq> []"
    "cache = Some (serve_shape_key (plansVersion st) (freshServeBindings parse (serveBindings st) earlier'),
       shape_for localeLe readFile compiles st (freshServeBindings parse (serveBindings st) earlier'))"
    by (auto simp: load_serve_shape_def Let_def split: if_splits)
  with key_fresh [OF assms(1), of "plansVersion st" parse earlier' now] show ?thesis
    by (auto simp: load_serve_shape_def Let_def)
qed

subsection \<open>A served source keeps its filters\<close>

text \<open>The shape a query is served from is the one of its own fresh bindings, also when it was kept by an earlier one.\<close>

lemma loaded_shape:
  assumes "load_serve_shape localeLe readFile compiles parse st now cache = (Some (shape, vm, fresh), cache')"
    and "cache = None \<or> keys_separate (serveBindings st)
      \<and> (\<exists>earlier'. cache = snd (load_serve_shape localeLe readFile compiles parse st earlier' None))"
  shows "fresh = freshServeBindings parse (serveBindings st) now \<and> shape = shape_for localeLe readFile compiles st fresh"
proof (cases cache)
  case None
  with assms(1) show ?thesis by (auto simp: load_serve_shape_def Let_def split: if_splits)
next
  case (Some c)
  with assms(2) obtain earlier' where keys: "keys_separate (serveBindings st)"
    and c: "cache = snd (load_serve_shape localeLe readFile compiles parse st earlier' None)" by blast
  from c Some have earlier: "freshServeBindings parse (serveBindings st) earlier' \<noteq> []"
    "cache = Some (serve_shape_key (plansVersion st) (freshServeBindings parse (serveBindings st) earlier'),
       shape_for localeLe readFile compiles st (freshServeBindings parse (serveBindings st) earlier'))"
    by (auto simp: load_serve_shape_def Let_def split: if_splits)
  with key_fresh [OF keys, of "plansVersion st" parse earlier' now] assms(1) show ?thesis
    by (auto simp: load_serve_shape_def Let_def split: if_splits)
qed

text \<open>
  C13: An ordinary source (not a rollup) that is served from a stored copy keeps its filters and the names of its public surface: whichever
  tier of the ladder compiles, whichever sources are withheld, and whether the shape is compiled now or
  was kept by an earlier query of the same model and bindings (whose keys are told apart), a source of the
  shape is a fresh binding's, each filter of its author's model is a \<open>where:\<close> line of its declaration, one
  that cannot be read as a text that does not compile, and its columns have distinct public names of the
  author's source. A column holds a stored column of that very name, or, where the stored name is not
  itself public, one that differs from this one public name and no other in the case of its letters alone; a
  hidden stored column can reach a public name in that second way (\<open>hidden_column_served_under_public_name\<close>).
\<close>

theorem served_source_keeps_its_filters:
  assumes "load_serve_shape localeLe readFile compiles parse st now cache = (Some ((bs, gs), vm, fresh), cache')" and "b \<in> set bs"
    and "cache = None \<or> keys_separate (serveBindings st)
      \<and> (\<exists>earlier'. cache = snd (load_serve_shape localeLe readFile compiles parse st earlier' None))"
  shows "(\<exists>e \<in> set (serveBindings st). boundSource e = boundSource b \<and> tablePath e = tablePath b
        \<and> evaluateManifestFreshness parse (binding_entry e) now = Serve_table
        \<and> (\<forall>(n, t) \<in> set (boundSchema b). \<exists>c. (c, t) \<in> set (boundSchema e)
             \<and> (c = n \<or> c \<notin> set (public_names (author_fields (authorModel st) (boundSource b)))
                 \<and> List.filter (\<lambda>p. js_lower p = js_lower c) (public_names (author_fields (authorModel st) (boundSource b))) = [n])))
    \<and> (\<forall>code \<in> set (author_filters (authorModel st) (boundSource b)).
         ''   where: '' @ (case code of Some c \<Rightarrow> c | None \<Rightarrow> ''__unreproducible_filter__'') \<in> set (refinement_lines (refinements b)))
    \<and> fst ` set (boundSchema b) \<subseteq> set (public_names (author_fields (authorModel st) (boundSource b)))
    \<and> distinct (map fst (boundSchema b))"
proof -
  from loaded_shape [OF assms(1,3)] have fresh: "fresh = freshServeBindings parse (serveBindings st) now"
    and shape: "compileServeShape compiles (serveBindingsWithRefinements (authorModel st) readFile (ordinary_bindings fresh))
       (fst (rollupServeBindings localeLe fresh (rollupPlans st))) = (bs, gs)"
    by (simp_all add: shape_for_def)
  from compiled_shape_thins [OF shape assms(2)] obtain e' where
      e': "e' \<in> set (serveBindingsWithRefinements (authorModel st) readFile (ordinary_bindings fresh))" "thinned_from e' b" by blast
  then obtain keep where keep: "Kind_filter \<in> set keep" "b = thin keep e'" by (auto simp: thinned_from_def)
  from e'(1) obtain e where e: "e \<in> set fresh"
      "e' = enrich (authorModel st) readFile (boundSource ` set (ordinary_bindings fresh)) e"
    by (auto simp: serveBindingsWithRefinements_def ordinary_bindings_def)
  have sel: "boundSource b = boundSource e" "tablePath b = tablePath e"
      "boundSchema b = narrowSchemaToPublic (boundSchema e) (author_fields (authorModel st) (boundSource e))"
    by (simp_all add: keep(2) e(2) enrich_def)
  have filters: "source_filters b = map (\<lambda>c. case c of Some s \<Rightarrow> s | None \<Rightarrow> ''__unreproducible_filter__'')
      (author_filters (authorModel st) (boundSource b))"
    using enriched_filters thin_filters [OF keep(1)] sel(1) by (simp add: keep(2) e(2))
  have lines: "\<forall>code \<in> set (author_filters (authorModel st) (boundSource b)).
      ''   where: '' @ (case code of Some c \<Rightarrow> c | None \<Rightarrow> ''__unreproducible_filter__'') \<in> set (refinement_lines (refinements b))"
    by (intro ballI filter_line) (use filters in auto)
  have "e \<in> set (serveBindings st) \<and> evaluateManifestFreshness parse (binding_entry e) now = Serve_table"
    using e(1) by (simp add: fresh freshServeBindings_def)
  moreover have "distinct (map fst (boundSchema b))"
    using narrow_loop_public [of "public_names (author_fields (authorModel st) (boundSource e))" "boundSchema e" "[]"]
    by (simp add: sel narrowSchemaToPublic_def)
  ultimately show ?thesis using lines served_columns unfolding sel by fastforce
qed

subsection \<open>A lifted declaration is a piece of its file\<close>

lemma js_slice_piece: "\<exists>x y. s = x @ js_slice a b s @ y"
proof (intro exI)
  show "s = take a s @ js_slice a b s @ drop (b - a) (drop a s)"
    by (simp add: js_slice_def del: drop_drop)
qed

lemma join_on_append: "xs \<noteq> [] \<Longrightarrow> ys \<noteq> [] \<Longrightarrow> join sep (xs @ ys) = join sep xs @ sep @ join sep ys"
proof (induction sep xs rule: join.induct)
  case (2 sep w)
  then show ?case by (cases ys) auto
qed auto

lemma join_piece:
  assumes "ys \<noteq> []"
  shows "\<exists>x y. join sep (xs @ ys @ zs) = x @ join sep ys @ y"
proof -
  have right: "\<exists>y. join sep (ys @ zs) = join sep ys @ y"
    using join_on_append [OF assms, of zs sep] by (cases zs) auto
  then obtain y where y: "join sep (ys @ zs) = join sep ys @ y" by blast
  show ?thesis
  proof (cases xs)
    case Nil
    with y show ?thesis by (metis append_Nil)
  next
    case (Cons x xs')
    have "join sep (xs @ ys @ zs) = join sep xs @ sep @ join sep (ys @ zs)" by (rule join_on_append) (use Cons assms in auto)
    with y show ?thesis by (metis append.assoc)
  qed
qed

lemma join_trim:
  "\<exists>x y. join sep (l # mid @ [r]) = x @ join sep (drop a l # mid @ [take b r]) @ y"
proof -
  have l: "join sep ((u @ v) # w # ws) = u @ join sep (v # w # ws)" for u v w ws by simp
  have r: "join sep (vs @ [u @ v]) = join sep (vs @ [u]) @ v" for vs u v
    using join_on_append [of vs "[u @ v]" sep] join_on_append [of vs "[u]" sep] by (cases "vs = []") simp_all
  have "join sep (l # mid @ [r]) = take a l @ join sep (drop a l # mid @ [r])"
    by (cases mid) (simp_all add: append_assoc [symmetric] del: append_assoc)
  also have "\<dots> = take a l @ join sep (drop a l # mid @ [take b r]) @ drop b r"
    using r [of "drop a l # mid" "take b r" "drop b r"] by simp
  finally show ?thesis by blast
qed

theorem lifted_declaration_is_verbatim:
  assumes "liftText readFile loc = Some txt"
  shows "\<exists>contents before after. readFile (sliceUrl loc) = Some contents \<and> contents = before @ txt @ after"
proof -
  from assms obtain contents where c: "readFile (sliceUrl loc) = Some contents" "sliceSourceRange contents loc = Some txt"
    by (auto simp: liftText_def split: if_splits option.splits)
  define ls where "ls = split_on nl contents"
  define a where "a = nat (startLine loc)" define b where "b = nat (endLine loc)"
  have whole: "contents = join [nl] ls" by (simp add: ls_def join_split_on)
  from c(2) have bounds: "0 \<le> startLine loc" "startLine loc \<le> endLine loc" "endLine loc < int (length ls)"
    by (auto simp: sliceSourceRange_def Let_def ls_def split: if_splits)
  then have ab: "a \<le> b" "b < length ls" by (simp_all add: a_def b_def)
  have "\<exists>x y. contents = x @ txt @ y"
  proof (cases "a = b")
    case True
    with bounds have "startLine loc = endLine loc" by (simp add: a_def b_def)
    with c(2) bounds have "txt = js_slice (startCharacter loc) (endCharacter loc) (ls ! a)"
      by (simp add: sliceSourceRange_def Let_def ls_def a_def)
    then obtain x y where xy: "ls ! a = x @ txt @ y" using js_slice_piece by metis
    have "ls = take a ls @ [ls ! a] @ drop (Suc a) ls" using ab by (simp add: id_take_nth_drop)
    with join_piece [of "[ls ! a]" "[nl]" "take a ls" "drop (Suc a) ls"] obtain u v where "join [nl] ls = u @ ls ! a @ v" by auto
    with whole xy have "contents = (u @ x) @ txt @ (y @ v)" by simp
    then show ?thesis by blast
  next
    case False
    let ?mid = "take (b - Suc a) (drop (Suc a) ls)"
    from False bounds have "startLine loc \<noteq> endLine loc" by (auto simp: a_def b_def)
    with c(2) bounds have lifted: "txt = join [nl] (drop (startCharacter loc) (ls ! a) # ?mid @ [take (endCharacter loc) (ls ! b)])"
      by (simp add: sliceSourceRange_def Let_def ls_def a_def b_def)
    have "drop (Suc a) ls = ?mid @ ls ! b # drop (Suc b) ls"
    proof -
      have "drop (Suc a) ls = ?mid @ drop (b - Suc a) (drop (Suc a) ls)" by (rule append_take_drop_id [symmetric])
      also have "drop (b - Suc a) (drop (Suc a) ls) = drop b ls" using ab False by simp
      also have "drop b ls = ls ! b # drop (Suc b) ls" using ab by (simp add: Cons_nth_drop_Suc)
      finally show ?thesis .
    qed
    then have "ls = take a ls @ (ls ! a # ?mid @ [ls ! b]) @ drop (Suc b) ls"
      using ab by (metis append.assoc append_Cons append_Nil id_take_nth_drop le_less_trans)
    with join_piece [of "ls ! a # ?mid @ [ls ! b]" "[nl]" "take a ls" "drop (Suc b) ls"] obtain u v where
        uv: "join [nl] ls = u @ join [nl] (ls ! a # ?mid @ [ls ! b]) @ v" by auto
    from join_trim [of "[nl]" "ls ! a" ?mid "ls ! b" "startCharacter loc" "endCharacter loc"] obtain x y where
        "join [nl] (ls ! a # ?mid @ [ls ! b]) = x @ txt @ y" unfolding lifted by blast
    with uv whole have "contents = (u @ x) @ txt @ (y @ v)" by simp
    then show ?thesis by blast
  qed
  with c(1) show ?thesis by blast
qed

subsection \<open>Instances and findings\<close>

definition demo_binding :: "string \<Rightarrow> SourceRefinement list \<Rightarrow> ServeBinding" where
  "demo_binding n rs = \<lparr>boundSource = n, bindingOrigin = Persist_origin, destinationName = ''lake'', virtualHandle = n,
     tablePath = ''lake.'' @ n, boundSchema = [(''ID'', ''INTEGER''), (''hidden'', ''TEXT'')], refinements = rs,
     freshAsOf = None, boundWindowSeconds = None, boundFallback = None\<rparr>"

definition demo_field :: "string \<Rightarrow> CompiledField" where
  "demo_field n = \<lparr>fieldName = Some n, accessModifier = None, fieldCode = None, expressionType = None, fieldType = None,
     joinRelation = None, joinAs = None, joinSourceID = None, fieldLocation = None\<rparr>"

definition demo_state :: ShapeState where
  "demo_state = \<lparr>serveBindings = [demo_binding ''orders'' []], rollupPlans = [], plansVersion = 0,
     authorModel = [(''orders'', \<lparr>authorSourceID = None, authorFields = [demo_field ''id''], authorFilters = [Some ''not deleted'']\<rparr>)]\<rparr>"

text \<open>No tier but the last compiles.\<close>

definition demo_compiles :: "Shape \<Rightarrow> bool" where
  "demo_compiles shape \<longleftrightarrow> False"

lemma demo_loaded:
  "load_serve_shape (\<le>) (\<lambda>_. None) demo_compiles (\<lambda>_. None) demo_state 0 None
   = (Some (([(demo_binding ''orders'' [FilterRefinement ''not deleted''])\<lparr>boundSchema := [(''id'', ''INTEGER'')]\<rparr>], []),
        [(''lake'', [(''orders'', ''\"lake\".\"orders\"'')])], [demo_binding ''orders'' []]),
      Some (''v0|orders@lake/orders'', ([(demo_binding ''orders'' [FilterRefinement ''not deleted''])\<lparr>boundSchema := [(''id'', ''INTEGER'')]\<rparr>], [])))"
  by code_simp

lemma served_source_keeps_its_filters_witness:
  "''   where: not deleted'' \<in> set (refinement_lines (refinements
     ((demo_binding ''orders'' [FilterRefinement ''not deleted''])\<lparr>boundSchema := [(''id'', ''INTEGER'')]\<rparr>)))
   \<and> (\<exists>c. (c, ''INTEGER'') \<in> set (boundSchema (demo_binding ''orders'' []))
        \<and> (c = ''id'' \<or> c \<notin> {''id''} \<and> List.filter (\<lambda>p. js_lower p = js_lower c) [''id''] = [''id'']))"
proof -
  have names: "public_names (author_fields (authorModel demo_state) ''orders'') = [''id'']" by code_simp
  note c = served_source_keeps_its_filters [OF demo_loaded, of "(demo_binding ''orders'' [FilterRefinement ''not deleted''])\<lparr>boundSchema := [(''id'', ''INTEGER'')]\<rparr>",
      OF list.set_intros(1) disjI1 [OF refl]]
  have "''   where: not deleted'' \<in> set (refinement_lines (refinements
     ((demo_binding ''orders'' [FilterRefinement ''not deleted''])\<lparr>boundSchema := [(''id'', ''INTEGER'')]\<rparr>)))"
    using conjunct1 [OF conjunct2 [OF c]] by (simp add: demo_state_def author_filters_def demo_binding_def)
  moreover have "\<exists>c. (c, ''INTEGER'') \<in> set (boundSchema (demo_binding ''orders'' []))
        \<and> (c = ''id'' \<or> c \<notin> {''id''} \<and> List.filter (\<lambda>p. js_lower p = js_lower c) [''id''] = [''id''])"
  proof -
    have o: "boundSource ((demo_binding ''orders'' [FilterRefinement ''not deleted''])\<lparr>boundSchema := [(''id'', ''INTEGER'')]\<rparr>) = ''orders''"
      "serveBindings demo_state = [demo_binding ''orders'' []]" by (simp_all add: demo_binding_def demo_state_def)
    from conjunct1 [OF c] show ?thesis unfolding o names by simp
  qed
  ultimately show ?thesis ..
qed

lemma only_fresh_tables_reachable_witness:
  "\<exists>b \<in> set (serveBindings demo_state). tablePath b = ''lake.orders''
     \<and> evaluateManifestFreshness (\<lambda>_. None) (binding_entry b) 0 = Serve_table"
proof -
  from only_fresh_tables_reachable [OF demo_loaded, of "''lake''" "[(''orders'', ''\"lake\".\"orders\"'')]" "''orders''" "''\"lake\".\"orders\"''"]
  show ?thesis by (simp add: demo_state_def demo_binding_def)
qed

lemma serve_shape_cache_transparent_witness:
  "fst (load_serve_shape (\<le>) (\<lambda>_. None) demo_compiles (\<lambda>_. None) demo_state 7
      (snd (load_serve_shape (\<le>) (\<lambda>_. None) demo_compiles (\<lambda>_. None) demo_state 0 None)))
   = fst (load_serve_shape (\<le>) (\<lambda>_. None) demo_compiles (\<lambda>_. None) demo_state 7 None)"
proof -
  have "keys_separate (serveBindings demo_state)"
    by (simp add: keys_separate_def demo_state_def demo_binding_def binding_key_def)
  from serve_shape_cache_transparent [OF this demo_loaded, of 7] show ?thesis by (simp add: demo_loaded)
qed

lemma joined_sources_declared_first_witness:
  "boundSource (orderBindingsByJoinDeps [demo_binding ''a'' [JoinRefinement ''b'' ''join_one'' ''b'' ''b''], demo_binding ''b'' []] ! 0) = ''b''"
proof -
  let ?bs = "[demo_binding ''a'' [JoinRefinement ''b'' ''join_one'' ''b'' ''b''], demo_binding ''b'' []]"
  let ?out = "orderBindingsByJoinDeps ?bs"
  have d: "distinct (map boundSource ?bs)" by (simp add: demo_binding_def)
  have "\<exists>rank :: string \<Rightarrow> nat. \<forall>b \<in> set ?bs. \<forall>d \<in> set (join_deps (boundSource ` set ?bs) b). rank d < rank (boundSource b)"
    by (rule exI [of _ "\<lambda>n. if n = ''a'' then 1 else 0"]) (simp add: join_deps_def demo_binding_def)
  with joined_sources_declared_first [OF d] have out: "set ?out = set ?bs"
    "\<forall>i < length ?out. set (join_deps (boundSource ` set ?bs) (?out ! i)) \<subseteq> boundSource ` set (take i ?out)"
    by (blast, metis)
  have ne: "?out \<noteq> []" using out(1) by (metis empty_set list.simps(15) insert_not_empty)
  then have "?out ! 0 \<in> set ?bs" using out(1) by (metis length_greater_0_conv nth_mem)
  moreover have "join_deps (boundSource ` set ?bs) (?out ! 0) = []" using out(2) ne by force
  ultimately show ?thesis by (auto simp: join_deps_def demo_binding_def)
qed

definition demo_entry_built :: "string \<Rightarrow> string \<Rightarrow> BuiltEntry" where
  "demo_entry_built n table = \<lparr>entrySource = Some n, entryOrigin = Persist_origin, storageDestination = Some ''lake'',
     physicalTable = Some table, entryAddress = table, entrySchema = [(Some ''id'', Some ''INTEGER'')], entryAsOf = None,
     entryWindow = None, entryFallback = None\<rparr>"

lemma each_name_bound_once_witness:
  "distinct (map boundSource (deriveServeBindings [demo_entry_built ''a'' ''t'', demo_entry_built ''c'' ''u'']
     (groupAliasesByName [(Some ''a'', Some ''t''), (Some ''b'', Some ''t''), (Some ''c'', Some ''u'')])))"
proof -
  have "builders_of [demo_entry_built ''a'' ''t'', demo_entry_built ''c'' ''u''] = [''a'', ''c'']"
    by (simp add: builders_of_def demo_entry_built_def)
  moreover have "names_by_address [(Some ''a'', Some ''t''), (Some ''b'', Some ''t''), (Some ''c'', Some ''u'')]
      = [(''t'', [''a'', ''b'']), (''u'', [''c''])]" by code_simp
  ultimately show ?thesis by (intro each_name_bound_once) simp_all
qed

lemma served_rollups_are_sound_witness:
  "distinct (map groupBase (fst (rollupServeBindings (\<le>)
     [(demo_binding ''r'' [])\<lparr>bindingOrigin := Preaggregate_origin\<rparr>]
     [\<lparr>baseSourceName = ''orders'', rollupSourceName = ''r'', planNamespace = None, planStorage = None, grainDimensions = [''ID''], rollupMeasures = []\<rparr>])))"
  using served_rollups_are_sound [OF prod.collapse [symmetric]] by blast

lemma lifted_declaration_is_verbatim_witness:
  "\<exists>before after. ''source: a is b extend {}'' = before @ ''b extend'' @ after"
proof -
  have "liftText (\<lambda>_. Some ''source: a is b extend {}'')
      \<lparr>sliceUrl = ''file:m'', startLine = 0, startCharacter = 13, endLine = 0, endCharacter = 21\<rparr> = Some ''b extend''"
    by code_simp
  from lifted_declaration_is_verbatim [OF this] show ?thesis by simp
qed

text \<open>
  The author's \<open>ssn\<close> masks a hidden column \<open>SSN\<close>: the hidden column folds onto the public name, so the
  floor of the ladder, which drops the dimension, serves the hidden column under it.
\<close>

definition demo_masked :: "CompiledField list" where
  "demo_masked = [(demo_field ''SSN'')\<lparr>accessModifier := Some ''private''\<rparr>,
     (demo_field ''ssn'')\<lparr>fieldCode := Some ''concat(1)'', expressionType := Some ''scalar''\<rparr>]"

lemma hidden_column_served_under_public_name:
  "narrowSchemaToPublic [(''SSN'', ''VARCHAR'')] demo_masked = [(''ssn'', ''VARCHAR'')]
   \<and> ''SSN'' \<notin> set (public_names demo_masked)
   \<and> extractRefinements demo_masked = [FieldRefinement Dimension_field ''ssn'' ''concat(1)'']"
  by code_simp

text \<open>Malloy escapes a backtick or a backslash in a quoted name with a backslash, as \<open>quoteMalloyIdentifier\<close> does.\<close>

lemma emitted_name_is_not_read_back:
  "read_literal backtick (tl (emitFieldName ''a`b'')) = Some (''a'', ''`b`'')
   \<and> read_literal backtick (tl (emitFieldName [CHR ''a'', backslash])) = None"
  by code_simp

end
