(* ===== verification/NoteSweep.thy ===== *)
theory NoteSweep
  imports Enforcement
begin

text \<open>
  Whether a model declares a gate or a partition anywhere (\<open>hasAnyAuthorizeNote\<close>, \<open>hasAnyPartitionNote\<close>,
  \<open>reachableStructsForNoteSweep\<close> of \<open>service/model.ts\<close>, \<open>derivedStructsReachable\<close> of
  \<open>service/gate_registry_walk.ts\<close>): the sweep that lets a query skip the walk of its gates before it is
  routed to a shared copy. The texts of an annotation chain, and the annotations of a field, are
  parameters.
\<close>

subsection \<open>The structs that are swept\<close>

definition derivation_hops :: "sources \<Rightarrow> ModelDef \<Rightarrow> nat \<Rightarrow> nat list" where
  "derivation_hops S md a = somes [resolveQuerySourceBase S md a, resolveCompositeResolvedBase S a]"

text \<open>What one struct of the work list adds: the hops not seen yet, each once.\<close>

definition new_hops :: "sources \<Rightarrow> ModelDef \<Rightarrow> nat \<Rightarrow> nat list \<Rightarrow> nat list" where
  "new_hops S md a seen = remdups (List.filter (\<lambda>b. b < length S \<and> b \<notin> set seen) (derivation_hops S md a))"

lemma unseen_less:
  assumes "b \<in> set new" and "b < length S" and "b \<notin> set seen"
  shows "unseen S (new @ seen) < unseen S seen"
proof -
  have "Suc (unseen S (b # seen)) = unseen S seen" by (rule unseen_Cons [OF assms(3,2)])
  moreover have "unseen S (new @ seen) \<le> unseen S (b # seen)" by (rule unseen_mono) (use assms(1) in auto)
  ultimately show ?thesis by simp
qed

function sweep_from :: "sources \<Rightarrow> ModelDef \<Rightarrow> nat list \<Rightarrow> nat list \<Rightarrow> nat list" where
  "sweep_from S md [] seen = []"
| "sweep_from S md (a # worklist) seen =
     new_hops S md a seen @ sweep_from S md (worklist @ new_hops S md a seen) (new_hops S md a seen @ seen)"
  by pat_completeness auto

termination
proof (relation "measures [\<lambda>(S, md, worklist, seen). unseen S seen, \<lambda>(S, md, worklist, seen). length worklist]")
  fix S md a and worklist seen :: "nat list"
  show "((S, md, worklist @ new_hops S md a seen, new_hops S md a seen @ seen), S, md, a # worklist, seen)
    \<in> measures [\<lambda>(S, md, worklist, seen). unseen S seen, \<lambda>(S, md, worklist, seen). length worklist]"
  proof (cases "new_hops S md a seen")
    case (Cons b bs)
    then have "b \<in> set (new_hops S md a seen)" by simp
    moreover from this have "b < length S" "b \<notin> set seen" by (simp_all add: new_hops_def)
    ultimately have "unseen S (new_hops S md a seen @ seen) < unseen S seen" by (rule unseen_less)
    then show ?thesis by simp
  qed simp
qed simp

definition derivedStructsReachable :: "sources \<Rightarrow> ModelDef \<Rightarrow> nat list \<Rightarrow> nat list" where
  "derivedStructsReachable S md roots = sweep_from S md roots roots"

text \<open>\<open>entries\<close> are the values of the registry.\<close>

definition sweep_roots :: "sources \<Rightarrow> ModelDef \<Rightarrow> RegistryEntry list \<Rightarrow> nat list" where
  "sweep_roots S md entries =
     List.filter (is_source S) (map snd (contents md))
     @ List.filter (is_source S) (concat (map (\<lambda>e. case e of RegistryReference _ \<Rightarrow> [] | RegistryStruct b \<Rightarrow> [b]) entries))"

definition reachableStructsForNoteSweep :: "sources \<Rightarrow> ModelDef \<Rightarrow> RegistryEntry list \<Rightarrow> nat list" where
  "reachableStructsForNoteSweep S md entries =
     sweep_roots S md entries @ derivedStructsReachable S md (sweep_roots S md entries)"

subsection \<open>The tags that are looked for\<close>

type_synonym chain_texts = "AnnotationsDef option \<Rightarrow> string list"

definition hasAnyAuthorizeNote ::
  "sources \<Rightarrow> (string \<Rightarrow> string option) \<Rightarrow> (string \<Rightarrow> string option) \<Rightarrow> chain_texts
   \<Rightarrow> (nat \<Rightarrow> AnnotationsDef option) \<Rightarrow> RegistryEntry list \<Rightarrow> ModelDef option \<Rightarrow> bool" where
  "hasAnyAuthorizeNote S routeOf payloadOf annotationTexts fieldNotes entries own =
     (case own of
        None \<Rightarrow> False
      | Some md \<Rightarrow> list_ex (\<lambda>a.
          containsAuthorizeAnnotationTag routeOf payloadOf (annotationTexts (annotations (S ! a)))
          \<or> list_ex (\<lambda>f. containsAuthorizeAnnotationTag routeOf payloadOf (annotationTexts (fieldNotes (fieldId f))))
              (fieldDefs (S ! a))) (reachableStructsForNoteSweep S md entries))"

definition hasAnyPartitionNote ::
  "sources \<Rightarrow> (string \<Rightarrow> string option) \<Rightarrow> chain_texts \<Rightarrow> RegistryEntry list \<Rightarrow> ModelDef option \<Rightarrow> bool" where
  "hasAnyPartitionNote S routeOf annotationTexts entries own =
     (case own of
        None \<Rightarrow> False
      | Some md \<Rightarrow> list_ex (\<lambda>a. containsPartitionAnnotationTag routeOf (annotationTexts (annotations (S ! a))))
          (reachableStructsForNoteSweep S md entries))"

subsection \<open>The sweep is complete\<close>

lemma sweep_closed:
  "x \<in> set worklist \<union> set (sweep_from S md worklist seen) \<Longrightarrow> y \<in> set (derivation_hops S md x) \<Longrightarrow> y < length S \<Longrightarrow>
   y \<in> set seen \<union> set (sweep_from S md worklist seen)"
proof (induction S md worklist seen rule: sweep_from.induct)
  case (2 S md a worklist seen)
  show ?case
  proof (cases "x = a")
    case True
    with 2(3,4) show ?thesis by (auto simp: new_hops_def)
  next
    case False
    with 2(2) have "x \<in> set (worklist @ new_hops S md a seen)
        \<union> set (sweep_from S md (worklist @ new_hops S md a seen) (new_hops S md a seen @ seen))" by auto
    from 2(1) [OF this 2(3,4)] show ?thesis by auto
  qed
qed simp

lemma swept_hop:
  assumes "x \<in> set (reachableStructsForNoteSweep S md entries)" and "y \<in> set (derivation_hops S md x)" and "y < length S"
  shows "y \<in> set (reachableStructsForNoteSweep S md entries)"
  using sweep_closed [of x "sweep_roots S md entries" S md "sweep_roots S md entries", OF _ assms(2,3)] assms(1)
  by (simp add: reachableStructsForNoteSweep_def derivedStructsReachable_def)

lemma swept_root: "x \<in> set (sweep_roots S md entries) \<Longrightarrow> x \<in> set (reachableStructsForNoteSweep S md entries)"
  by (simp add: reachableStructsForNoteSweep_def)

text \<open>A source that a registry entry declares is a root.\<close>

lemma swept_declared_by_id:
  assumes "declared_by_id S md a ref = DeclaredBy b" and "ran (registry md) \<subseteq> set entries"
  shows "b \<in> set (sweep_roots S md entries)"
proof -
  from assms(1) obtain r e where e: "ref = Some r" "registry md r = Some e" "is_source S b"
      "(case e of RegistryReference n \<Rightarrow> map_of (contents md) n | RegistryStruct b' \<Rightarrow> Some b') = Some b"
    by (auto simp: declared_by_id_def split: option.splits if_splits) (auto split: Option.bind_splits)
  from e(2) assms(2) have mem: "e \<in> set entries" by (auto simp: ran_def)
  show ?thesis
  proof (cases e)
    case (RegistryReference n)
    with e(3,4) show ?thesis by (force simp: sweep_roots_def dest: map_of_SomeD)
  next
    case (RegistryStruct b')
    with e(3,4) mem show ?thesis by (force simp: sweep_roots_def)
  qed
qed

lemma swept_declared:
  "resolveDeclaredSource S md a = DeclaredBy b \<Longrightarrow> ran (registry md) \<subseteq> set entries \<Longrightarrow>
   b \<in> set (reachableStructsForNoteSweep S md entries)"
  using swept_declared_by_id swept_root
  by (fastforce simp: resolveDeclaredSource_def split: Declared.splits if_splits)

text \<open>The texts of a chain, level by level; a reader of chains reads them all.\<close>

fun chain_note_texts :: "AnnotationsDef option \<Rightarrow> string list" where
  "chain_note_texts None = []"
| "chain_note_texts (Some (Annotations blocks items inh)) =
     ownLevelNoteTexts (Some (Annotations blocks items inh)) @ chain_note_texts inh"

lemma chain_note_texts_Some [simp]: "chain_note_texts (Some a) = ownLevelNoteTexts (Some a) @ chain_note_texts (inherits a)"
  by (cases a) simp

definition whole_chain :: "chain_texts \<Rightarrow> bool" where
  "whole_chain annotationTexts \<longleftrightarrow> (\<forall>a. set (chain_note_texts a) \<subseteq> set (annotationTexts a))"

text \<open>No level of the chain of a swept struct holds anything to read.\<close>

definition quiet :: "sources \<Rightarrow> (string list \<Rightarrow> 'e + 'x list) \<Rightarrow> nat \<Rightarrow> bool" where
  "quiet S look a \<longleftrightarrow> (\<forall>texts. set texts \<subseteq> set (chain_note_texts (annotations (S ! a))) \<longrightarrow> look texts = Inr [])"

lemma own_texts_in_chain: "set (ownLevelNoteTexts annote) \<subseteq> set (chain_note_texts annote)"
  by (cases annote) (auto simp: ownLevelNoteTexts_def ownLevelNotes_def)

lemma inherited_first_quiet:
  "\<forall>texts. set texts \<subseteq> set (chain_note_texts annote) \<longrightarrow> look texts = Inr [] \<Longrightarrow>
   inherited_first look n annote = Inr (Some []) \<or> inherited_first look n annote = Inr None"
proof (induction look n annote rule: inherited_first.induct)
  case (3 look n a)
  have "look (ownLevelNoteTexts (Some a)) = Inr []" using 3(2) by simp
  moreover have "\<forall>texts. set texts \<subseteq> set (chain_note_texts (inherits a)) \<longrightarrow> look texts = Inr []"
    using 3(2) by (simp add: le_supI2)
  ultimately show ?case using 3(1) by simp
qed simp_all

lemma inherited_chain: "set (chain_note_texts (inherited_annotations s)) \<subseteq> set (chain_note_texts (annotations s))"
  by (cases "annotations s") (simp_all add: inherited_annotations_def)

lemma quiet_own: "quiet S look a \<Longrightarrow> look (ownLevelNoteTexts (annotations (S ! a))) = Inr []"
  using own_texts_in_chain [of "annotations (S ! a)"] by (simp add: quiet_def)

lemma quiet_inherited:
  "quiet S look a \<Longrightarrow> inherited_first look n (inherited_annotations (S ! a)) = Inr (Some [])
    \<or> inherited_first look n (inherited_annotations (S ! a)) = Inr None"
  by (rule inherited_first_quiet) (use inherited_chain [of "S ! a"] in \<open>auto simp: quiet_def\<close>)

definition unreadable :: "GateEntry \<Rightarrow> bool" where
  "unreadable g \<longleftrightarrow> gateExprs g = [''false'']"

lemma ancestor_quiet:
  assumes "\<And>y. y \<in> set (reachableStructsForNoteSweep S md entries) \<Longrightarrow> quiet S exprsOf y"
    and "ran (registry md) \<subseteq> set entries" and "quiet S exprsOf a"
  shows "ancestorGateExprs S md exprsOf a seen = Inr [] \<or> ancestorGateExprs S md exprsOf a seen = Inr [''false'']"
  using assms
proof (induction S md exprsOf a seen rule: ancestorGateExprs.induct)
  case (1 S md exprsOf a seen)
  let ?swept = "set (reachableStructsForNoteSweep S md entries)"
  consider "inherited_first exprsOf ANCESTOR_WALK_MAX_DEPTH (inherited_annotations (S ! a)) = Inr None"
    | (none) "inherited_first exprsOf ANCESTOR_WALK_MAX_DEPTH (inherited_annotations (S ! a)) = Inr (Some [])"
    using quiet_inherited [OF 1(4)] by blast
  then show ?case
  proof cases
    case none
    show ?thesis
    proof (cases "length (List.insert a seen) \<le> ANCESTOR_WALK_MAX_DEPTH \<and>
        (\<exists>b. resolveDeclaredSource S md a = DeclaredBy b \<and> b \<notin> set (List.insert a seen))")
      case True
      then obtain b where b: "resolveDeclaredSource S md a = DeclaredBy b" "b \<notin> set (List.insert a seen)"
          "\<not> length (List.insert a seen) > ANCESTOR_WALK_MAX_DEPTH" by auto
      have q: "quiet S exprsOf b" by (rule 1(2) [OF swept_declared [OF b(1) 1(3)]])
      have own: "exprsOf (ownLevelNoteTexts (annotations (S ! b))) = Inr []" by (rule quiet_own [OF q])
      from 1(1) [OF none refl _ b(3,1,2) own] 1(2,3) q show ?thesis
        by (subst (1 2) ancestorGateExprs.simps) (simp add: none b own del: in_set_insert List.set_insert)
    next
      case False
      with none show ?thesis
        by (subst (1 2) ancestorGateExprs.simps) (auto split: Declared.splits)
    qed
  qed (simp add: ancestorGateExprs.simps)
qed

lemma own_gate_quiet:
  assumes "\<And>y. y \<in> set (reachableStructsForNoteSweep S md entries) \<Longrightarrow> quiet S exprsOf y"
    and "ran (registry md) \<subseteq> set entries" and "quiet S exprsOf a"
    and "g \<in> set (own_gate S md exprsOf a treat entry excl)"
  shows "unreadable g"
proof -
  have "set (map noteText (List.filter (\<lambda>n. n \<notin> set excl) (ownLevelNotes (annotations (S ! a)))))
      \<subseteq> set (ownLevelNoteTexts (annotations (S ! a)))"
    by (auto simp: ownLevelNoteTexts_def)
  with assms(3) own_texts_in_chain [of "annotations (S ! a)"]
  have "exprsOf (map noteText (List.filter (\<lambda>n. n \<notin> set excl) (ownLevelNotes (annotations (S ! a))))) = Inr []"
    unfolding quiet_def by blast
  with ancestor_quiet [OF assms(1-3), of "[]"] assms(4) show ?thesis
    by (auto simp: own_gate_def gateExprsForOwnAnnotations_def unreadable_def Let_def)
qed

lemma collect_gates_quiet:
  assumes "\<And>y. y \<in> set (reachableStructsForNoteSweep S md entries) \<Longrightarrow> quiet S exprsOf y"
    and "ran (registry md) \<subseteq> set entries"
  shows "collect_gates n S md exprsOf a seen treat entry excl = Some (gs, seen') \<Longrightarrow>
    a \<in> set (reachableStructsForNoteSweep S md entries) \<Longrightarrow> g \<in> set gs \<Longrightarrow> unreadable g"
proof (induction n arbitrary: a seen treat entry excl gs seen' g)
  case (Suc n)
  note own = own_gate_quiet [OF assms assms(1) [OF Suc.prems(2)]]
  show ?case
  proof (cases "a \<in> set seen \<or> length S \<le> a \<or> sourceKind (S ! a) \<noteq> ''query_source''")
    case True
    with Suc.prems(1,3) own show ?thesis by (auto split: if_splits)
  next
    case False
    then have kind: "a \<notin> set seen" "\<not> length S \<le> a" "sourceKind (S ! a) = ''query_source''" by auto
    define one where "one = (case resolveQuerySourceBase S md a of
        Some b \<Rightarrow> collect_gates n S md exprsOf b (a # seen) False entry []
      | None \<Rightarrow> Some ([unresolved_base S a], a # seen))"
    from Suc.prems(1) kind obtain ofBase s1 where o: "one = Some (ofBase, s1)"
      by (cases one) (auto simp: one_def)
    have base: "unreadable h" if "h \<in> set ofBase" for h
    proof (cases "resolveQuerySourceBase S md a")
      case None
      with o that show ?thesis by (auto simp: one_def unresolved_base_def unreadable_def)
    next
      case (Some b)
      have "b \<in> set (reachableStructsForNoteSweep S md entries)"
        by (rule swept_hop [OF Suc.prems(2) _ base_is_struct [OF Some]]) (simp add: derivation_hops_def Some set_somes)
      with Suc.IH o that Some show ?thesis by (simp add: one_def)
    qed
    show ?thesis
    proof (cases "resolveCompositeResolvedBase S a")
      case None
      with Suc.prems(1,3) kind o own base show ?thesis by (auto simp: one_def [symmetric])
    next
      case (Some c)
      with Suc.prems(1) kind o obtain ofComposite where
          two: "collect_gates n S md exprsOf c s1 False entry (base_notes S md a) = Some (ofComposite, seen')"
          "gs = own_gate S md exprsOf a treat entry excl @ ofBase @ ofComposite"
        by (auto simp: one_def [symmetric])
      have "unreadable h" if "h \<in> set ofComposite" for h
      proof (cases "length S \<le> c")
        case True
        with two(1) that show ?thesis by (cases n) auto
      next
        case False
        have "c \<in> set (reachableStructsForNoteSweep S md entries)"
          by (rule swept_hop [OF Suc.prems(2)]) (use False in \<open>simp_all add: derivation_hops_def Some set_somes\<close>)
        with Suc.IH two(1) that show ?thesis by blast
      qed
      with Suc.prems(3) two(2) own base show ?thesis by auto
    qed
  qed
qed simp

lemma entry_partitions_quiet:
  assumes "\<And>y. y \<in> set (reachableStructsForNoteSweep S md entries) \<Longrightarrow> quiet S pairsOf y"
    and "ran (registry md) \<subseteq> set entries"
  shows "entry_partitions n S md pairsOf a seen = Some r \<Longrightarrow> a \<in> set (reachableStructsForNoteSweep S md entries) \<Longrightarrow>
    r = Inl AncestryUnresolvable \<or> (\<exists>seen'. r = Inr ([], seen'))"
proof (induction n arbitrary: a seen r)
  case (Suc n)
  have q: "quiet S pairsOf a" by (rule assms(1) [OF Suc.prems(2)])
  have own: "pairsOf (ownLevelNoteTexts (annotations (S ! a))) = Inr []" by (rule quiet_own [OF q])
  show ?case
  proof (cases "a \<in> set seen \<or> length S \<le> a
      \<or> inherited_first pairsOf ANCESTOR_WALK_MAX_DEPTH (inherited_annotations (S ! a)) = Inr None
      \<or> resolveDeclaredSource S md a = Unresolvable")
    case True
    with Suc.prems(1) own quiet_inherited [OF q, of ANCESTOR_WALK_MAX_DEPTH] show ?thesis by (auto split: if_splits)
  next
    case False
    with quiet_inherited [OF q, of ANCESTOR_WALK_MAX_DEPTH] have
        inh: "inherited_first pairsOf ANCESTOR_WALK_MAX_DEPTH (inherited_annotations (S ! a)) = Inr (Some [])" by blast
    define d where "d = (case resolveDeclaredSource S md a of
        DeclaredBy b \<Rightarrow> entry_partitions n S md pairsOf b (a # seen) | _ \<Rightarrow> Some (Inr ([], a # seen)))"
    have d: "d = None \<or> d = Some (Inl AncestryUnresolvable) \<or> (\<exists>s. d = Some (Inr ([], s)))"
    proof (cases "resolveDeclaredSource S md a")
      case (DeclaredBy b)
      from Suc.IH [OF _ swept_declared [OF DeclaredBy assms(2)], of "a # seen"] show ?thesis
        by (cases "entry_partitions n S md pairsOf b (a # seen)") (auto simp: d_def DeclaredBy)
    qed (use False in \<open>simp_all add: d_def\<close>)
    have base: "r' = Inl AncestryUnresolvable \<or> (\<exists>s'. r' = Inr ([], s'))"
      if "(case resolveQuerySourceBase S md a of None \<Rightarrow> Some (Inr ([], s)) | Some b \<Rightarrow> entry_partitions n S md pairsOf b s) = Some r'"
      for s r'
    proof (cases "resolveQuerySourceBase S md a")
      case (Some b)
      have "b \<in> set (reachableStructsForNoteSweep S md entries)"
        by (rule swept_hop [OF Suc.prems(2) _ base_is_struct [OF Some]]) (simp add: derivation_hops_def Some set_somes)
      with Suc.IH that Some show ?thesis by simp
    qed (use that in auto)
    from Suc.prems(1) False own inh have e: "(case d of None \<Rightarrow> None | Some (Inl e) \<Rightarrow> Some (Inl e)
        | Some (Inr (declared, seen')) \<Rightarrow> if declared \<noteq> [] then Some (Inr (declared, seen'))
          else (case resolveQuerySourceBase S md a of
              None \<Rightarrow> Some (Inr ([], seen')) | Some b \<Rightarrow> entry_partitions n S md pairsOf b seen')) = Some r"
      unfolding entry_partitions.simps d_def [symmetric] by simp
    from d consider "d = None" | "d = Some (Inl AncestryUnresolvable)" | s where "d = Some (Inr ([], s))" by blast
    then show ?thesis
    proof cases
      case (3 s)
      with e have "(case resolveQuerySourceBase S md a of None \<Rightarrow> Some (Inr ([], s))
          | Some b \<Rightarrow> entry_partitions n S md pairsOf b s) = Some r" by simp
      from base [OF this] show ?thesis .
    qed (use e in auto)
  qed
qed simp

lemma quiet_untagged_gates:
  assumes "\<not> containsAuthorizeAnnotationTag routeOf payloadOf (annotationTexts (annotations (S ! a)))"
    and "whole_chain annotationTexts"
  shows "quiet S (collectAuthorizeExprs routeOf payloadOf) a"
proof -
  have "collectAuthorizeExprs routeOf payloadOf texts = Inr []"
    if "set texts \<subseteq> set (chain_note_texts (annotations (S ! a)))" for texts
    using that
  proof (induction texts)
    case (Cons t ts)
    then have "t \<in> set (annotationTexts (annotations (S ! a)))" using assms(2) by (auto simp: whole_chain_def)
    with assms(1) have "parseAuthorizeAnnotation routeOf payloadOf t = Inr None"
      by (auto simp: containsAuthorizeAnnotationTag_def parseAuthorizeAnnotation_def)
    with Cons show ?case by (auto simp: collectAuthorizeExprs_def bind_r_eq_Inr)
  qed (simp add: collectAuthorizeExprs_def)
  then show ?thesis by (simp add: quiet_def)
qed

lemma quiet_untagged_pairs:
  assumes "\<not> containsPartitionAnnotationTag routeOf (annotationTexts (annotations (S ! a)))"
    and "whole_chain annotationTexts"
  shows "quiet S (collectPartitionPairs routeOf payloadOf) a"
proof -
  have "collectPartitionPairs routeOf payloadOf texts = Inr []"
    if "set texts \<subseteq> set (chain_note_texts (annotations (S ! a)))" for texts
    using that
  proof (induction texts)
    case (Cons t ts)
    then have "t \<in> set (annotationTexts (annotations (S ! a)))" using assms(2) by (auto simp: whole_chain_def)
    with assms(1) have "parsePartitionAnnotation routeOf payloadOf t = Inr None"
      by (auto simp: containsPartitionAnnotationTag_def parsePartitionAnnotation_def)
    with Cons show ?case by (simp add: collectPartitionPairs_def)
  qed (simp add: collectPartitionPairs_def)
  then show ?thesis by (simp add: quiet_def)
qed

text \<open>
  C22: A query over a struct that the sweep looks at, or over a resolved branch that it looks at, has no gate
  and no partition that the sweep misses: where it finds no note, the walk finds no pair, and no gate but
  the denial of an ancestry that cannot be read.
\<close>

theorem sweep_finds_every_gate:
  assumes "whole_chain annotationTexts" and "ran (registry md) \<subseteq> set entries"
    and "a \<in> set (reachableStructsForNoteSweep S md entries)"
    and "set_option composite \<subseteq> set (reachableStructsForNoteSweep S md entries)"
  shows "(hasAnyAuthorizeNote S routeOf payloadOf annotationTexts fieldNotes entries (Some md)
      \<or> (\<forall>g \<in> set (walk_gates S (collectAuthorizeExprs routeOf payloadOf) (Some a, Some md, composite)). unreadable g))
    \<and> (hasAnyPartitionNote S routeOf annotationTexts entries (Some md)
      \<or> resolveEntryPointPartitions S md (collectPartitionPairs routeOf payloadOf) (Some a) \<in> {Inr [], Inl AncestryUnresolvable})"
proof
  let ?exprsOf = "collectAuthorizeExprs routeOf payloadOf"
  have "unreadable g" if none: "\<not> hasAnyAuthorizeNote S routeOf payloadOf annotationTexts fieldNotes entries (Some md)"
    and g: "g \<in> set (walk_gates S ?exprsOf (Some a, Some md, composite))" for g
  proof -
    have q: "quiet S ?exprsOf y" if "y \<in> set (reachableStructsForNoteSweep S md entries)" for y
      by (rule quiet_untagged_gates [OF _ assms(1)]) (use none that in \<open>auto simp: hasAnyAuthorizeNote_def list_ex_iff\<close>)
    have found: "unreadable h"
      if "h \<in> set (fst (collectEntryPointGates S md ?exprsOf (Some x) seen treat excl))"
        "x \<in> set (reachableStructsForNoteSweep S md entries)" for h x seen treat excl
    proof -
      obtain gs seen' where r: "collectEntryPointGates S md ?exprsOf (Some x) seen treat excl = (gs, seen')" by force
      from that(1) r have "h \<in> set gs" by simp
      from collect_gates_quiet [OF q assms(2) collectEntryPointGates_collect [OF r] that(2) this] show ?thesis .
    qed
    obtain gates seen where one: "collectEntryPointGates S md ?exprsOf (Some a) [] True [] = (gates, seen)" by force
    show ?thesis
    proof (cases "g \<in> set gates")
      case True
      with one found [OF _ assms(3), of g "[]" True "[]"] show ?thesis by simp
    next
      case False
      with g one obtain c excl where "composite = Some c"
          "g \<in> set (fst (collectEntryPointGates S md ?exprsOf (Some c) seen True excl))"
        by (auto simp: walk_gates_def split: option.splits)
      with found assms(4) show ?thesis by auto
    qed
  qed
  then show "hasAnyAuthorizeNote S routeOf payloadOf annotationTexts fieldNotes entries (Some md)
      \<or> (\<forall>g \<in> set (walk_gates S ?exprsOf (Some a, Some md, composite)). unreadable g)" by blast
next
  let ?pairsOf = "collectPartitionPairs routeOf payloadOf"
  have "resolveEntryPointPartitions S md ?pairsOf (Some a) \<in> {Inr [], Inl AncestryUnresolvable}"
    if none: "\<not> hasAnyPartitionNote S routeOf annotationTexts entries (Some md)"
  proof -
    have q: "quiet S ?pairsOf y" if "y \<in> set (reachableStructsForNoteSweep S md entries)" for y
      by (rule quiet_untagged_pairs [OF _ assms(1)]) (use none that in \<open>auto simp: hasAnyPartitionNote_def list_ex_iff\<close>)
    from entry_partitions_quiet [OF q assms(2) _ assms(3), of "Suc (length S)" "[]"] show ?thesis
      by (cases "entry_partitions (Suc (length S)) S md ?pairsOf a []") (auto simp: resolveEntryPointPartitions_def)
  qed
  then show "hasAnyPartitionNote S routeOf annotationTexts entries (Some md)
      \<or> resolveEntryPointPartitions S md ?pairsOf (Some a) \<in> {Inr [], Inl AncestryUnresolvable}" by blast
qed

subsection \<open>Instances\<close>

definition demo_route :: "string \<Rightarrow> string option" where
  "demo_route t = (if take 12 t = ''#(authorize)'' then Some AUTHORIZE_ROUTE else None)"

definition demo_payload :: "string \<Rightarrow> string option" where
  "demo_payload t = Some (drop 12 t)"

text \<open>A query source whose base came with an import: the base is inline, and only the query source is listed.\<close>

definition demo_imported :: sources where
  "demo_imported = [demo_struct ''gated'' ''table'' [demo_note 0 ''#(authorize) g''],
     (demo_struct ''qs'' ''query_source'' [])\<lparr>structRef := Some (RefStruct 0)\<rparr>]"

definition demo_import_model :: ModelDef where
  "demo_import_model = \<lparr>contents = [(''qs'', 1)], registry = (\<lambda>_. None), modelGivens = (\<lambda>_. None)\<rparr>"

lemma whole_chain_self: "whole_chain chain_note_texts"
  by (simp add: whole_chain_def)

lemma sweep_finds_every_gate_witness:
  "hasAnyAuthorizeNote demo_imported demo_route demo_payload chain_note_texts (\<lambda>_. None) [] (Some demo_import_model)"
proof (rule ccontr)
  assume none: "\<not> ?thesis"
  have swept: "1 \<in> set (reachableStructsForNoteSweep demo_imported demo_import_model [])"
    by (simp add: reachableStructsForNoteSweep_def sweep_roots_def demo_import_model_def is_source_def demo_imported_def demo_struct_def)
  have "ran (registry demo_import_model) \<subseteq> set []" by (simp add: demo_import_model_def)
  from sweep_finds_every_gate [OF whole_chain_self this swept, of None demo_route demo_payload "\<lambda>_. None"] none
  have "\<forall>g \<in> set (walk_gates demo_imported (collectAuthorizeExprs demo_route demo_payload) (Some 1, Some demo_import_model, None)).
      unreadable g" by simp
  moreover have "list_ex (\<lambda>g. gateExprs g = [''g''])
      (walk_gates demo_imported (collectAuthorizeExprs demo_route demo_payload) (Some 1, Some demo_import_model, None))"
    by code_simp
  ultimately show False by (auto simp: list_ex_iff unreadable_def)
qed

text \<open>
  The branch that the query itself resolved a composite to need not be one of those structs: a member
  of \<open>compose(\<dots>)\<close> that came with an import is inline in the composite, and the sweep follows the bases and
  resolved branches of query sources, not the members of a composite.
\<close>

definition demo_composed :: sources where
  "demo_composed = [(demo_struct ''c'' ''composite'' [])\<lparr>members := [1]\<rparr>,
     demo_struct ''gated'' ''table'' [demo_note 0 ''#(authorize) g'']]"

definition demo_composed_model :: ModelDef where
  "demo_composed_model = \<lparr>contents = [(''c'', 0)], registry = (\<lambda>_. None), modelGivens = (\<lambda>_. None)\<rparr>"

definition demo_composed_run :: runnable where
  "demo_composed_run = Some \<lparr>preparedRef = Some (RefName ''c''), preparedComposite = Some 1, preparedModel = None,
     preparedFilters = (\<lambda>_. [])\<rparr>"

lemma sweep_misses_composed_member:
  "\<not> hasAnyAuthorizeNote demo_composed demo_route demo_payload chain_note_texts (\<lambda>_. None) [] (Some demo_composed_model)
   \<and> \<not> hasAnyPartitionNote demo_composed demo_route chain_note_texts [] (Some demo_composed_model)
   \<and> queryEntryPointHasRowLevelGate demo_composed (collectAuthorizeExprs demo_route demo_payload)
       (collectPartitionPairs demo_route demo_payload) (Some demo_composed_model) demo_composed_run
   \<and> list_ex (\<lambda>g. gateExprs g = [''g'']) (walk_gates demo_composed (collectAuthorizeExprs demo_route demo_payload)
       (resolveRunTargetStruct (Some demo_composed_model) demo_composed_run))"
  by code_simp

end
