(* ===== verification/QueryRun.thy ===== *)
theory QueryRun
  imports ServeShape NoteSweep Boundary ResultCaps
begin

text \<open>
  The path of one query request (\<open>Model.getQueryResults\<close> of \<open>service/model.ts\<close>): the boundary and the early
  gate, the text that is compiled, the choice between the live sources, a stored copy and a rollup, the
  authorization that decides, the run and its limits, and the retry of a stored query on the live
  sources. Preparing and running a query, and what the models compile to, are parameters.
\<close>

subsection \<open>Requests and models\<close>

record QueryRequest =
  reqSource :: "string option"
  reqName :: "string option"
  reqQuery :: "string option"
  reqFilters :: "FilterParams option"
  bypassFilters :: bool
  reqGivens :: "(string \<times> string) list option"
  reqBypass :: bool
  reqAborted :: bool

text \<open>An error of the query engine, as the code reads it.\<close>

record Failure =
  errCode :: "string option"
  problemCodes :: "string option list option"
  fromMalloy :: bool
  errMessage :: string

datatype QueryError =
    ModelFailed string
  | NoEntities
  | OutsideBoundary NotQueryable
  | AccessDenied string
  | CallerGate
  | InvalidRequest
  | FilterInvalid filter_error
  | BadRequest string
  | MalloyFailure Failure
  | CapExceeded LimitError

record RunModel =
  gateModel :: GateModel
  servedModel :: ServedModel
  modelError :: "string option"
  runQueries :: "(string \<times> string option) list"
  filterMap :: "(string \<times> FilterDefinition list) list"
  shapeState :: ShapeState
  shapeCache :: "(string \<times> Shape) option"
  storageOn :: bool
  freshManifest :: "ManifestEntries option"
  preaggregateIds :: "string set"

type_synonym virtual_map = "(string \<times> (string \<times> string) list) list"

text \<open>
  What runs a query: the runnable, the givens, the manifest and the map of virtual tables it is given.
\<close>

record Execution =
  ranQuery :: runnable
  ranGivens :: "(string \<times> string) list option"
  ranManifest :: "ManifestEntries option"
  ranMap :: "virtual_map option"

record RunRows =
  totalRows :: int
  responseText :: StringifyOutcome

text \<open>
  The parameters: how notes are read, what texts compile to against the model, a shape and the rollup
  companion and whether they answer there, and preparing and running.
\<close>

record Engine =
  noteRouteOf :: "string \<Rightarrow> string option"
  notePayloadOf :: "string \<Rightarrow> string option"
  chainTexts :: chain_texts
  notesOfField :: "nat \<Rightarrow> AnnotationsDef option"
  registryEntries :: "RegistryEntry list"
  localeOrder :: "string \<Rightarrow> string \<Rightarrow> bool"
  readSource :: "string \<Rightarrow> string option"
  parseDate :: "string \<Rightarrow> int option"
  shapeCompiles :: "Shape \<Rightarrow> bool"
  loadRestricted :: "string \<Rightarrow> runnable"
  recompileOn :: "string \<Rightarrow> GraftedModel \<Rightarrow> Graft list \<Rightarrow> string + runnable"
  loadOnShape :: "Shape \<Rightarrow> string \<Rightarrow> runnable"
  answersOnShape :: "Shape \<Rightarrow> virtual_map \<Rightarrow> string \<Rightarrow> bool"
  loadOnRollups :: "(string \<Rightarrow> runnable) option"
  answersOnRollups :: "(string \<times> string) list option \<Rightarrow> ManifestEntries option \<Rightarrow> string \<Rightarrow> bool"
  prepare :: "Execution \<Rightarrow> Failure + int option"
  execute :: "Execution \<Rightarrow> int \<Rightarrow> Failure + RunRows"

record Limits =
  defaultRows :: int
  maxRows :: int
  maxBytes :: int

subsection \<open>Givens and manifests\<close>

definition computeAuthorizeReferencedGivenNames :: "GateModel \<Rightarrow> string set" where
  "computeAuthorizeReferencedGivenNames m =
     (\<Union>(_, gates) \<in> set (entryPointGatesBySource m). \<Union>e \<in> set gates. \<Union>x \<in> set (gateExprs e). set (referencedGivenNames x))"

definition filterGivensToModelSurface :: "GateModel \<Rightarrow> (string \<times> string) list option \<Rightarrow> (string \<times> string) list option" where
  "filterGivensToModelSurface m givens =
     map_option (List.filter (\<lambda>(n, v). n \<in> surface m \<or> n \<notin> computeAuthorizeReferencedGivenNames m)) givens"

definition withoutPreaggregateEntries :: "string set \<Rightarrow> ManifestEntries option \<Rightarrow> ManifestEntries option" where
  "withoutPreaggregateEntries ids entries0 =
     (case entries0 of
        None \<Rightarrow> None
      | Some entries \<Rightarrow>
          if ids = {} then Some entries
          else (let kept = List.filter (\<lambda>(i, t). i \<notin> ids) entries in if kept \<noteq> [] then Some kept else None))"

subsection \<open>The source a request names\<close>

text \<open>\<open>a || b\<close> on strings that may be undefined.\<close>

definition js_or :: "string option \<Rightarrow> string option \<Rightarrow> string option" where
  "js_or a b = (if truthy a then a else b)"

definition query_source :: "RunModel \<Rightarrow> string \<Rightarrow> string option" where
  "query_source m n = Option.bind (map_of (runQueries m) n) (\<lambda>s. s)"

definition early_source :: "RunModel \<Rightarrow> QueryRequest \<Rightarrow> string option" where
  "early_source m q =
     (let surfaceName = extractRunTargetSourceName (reqQuery q);
          declared = set (case sourceNames (servedModel m) of Some ns \<Rightarrow> ns | None \<Rightarrow> []) in
      js_or (reqSource q)
        (js_or (if truthy (reqName q) then query_source m (the (reqName q)) else None)
          (js_or (if truthy surfaceName \<and> surfaceName \<notin> declared then query_source m (the surfaceName) else None)
            surfaceName)))"

text \<open>
  \<open>resolveFilterSource\<close>: along the sources the request declares, to the first with filters. The names
  seen end a cycle.
\<close>

function filter_source_walk :: "(string \<times> string) list \<Rightarrow> string set \<Rightarrow> string option \<Rightarrow> string list \<Rightarrow> string option" where
  "filter_source_walk aliasOf filtered None seen = None"
| "filter_source_walk aliasOf filtered (Some current) seen =
     (if current = [] \<or> current \<in> set seen then None
      else if current \<in> filtered then Some current
      else filter_source_walk aliasOf filtered (map_of aliasOf current) (current # seen))"
  by pat_completeness auto

termination
proof (relation "measure (\<lambda>(aliasOf, filtered, current, seen).
    (case current of None \<Rightarrow> 0 | Some c \<Rightarrow> Suc (card (fst ` set aliasOf - set seen))))")
  fix aliasOf :: "(string \<times> string) list" and filtered :: "string set" and current :: string and seen :: "string list"
  assume new: "\<not> (current = [] \<or> current \<in> set seen)"
  show "((aliasOf, filtered, map_of aliasOf current, current # seen), aliasOf, filtered, Some current, seen)
    \<in> measure (\<lambda>(aliasOf, filtered, current, seen).
        (case current of None \<Rightarrow> 0 | Some c \<Rightarrow> Suc (card (fst ` set aliasOf - set seen))))"
  proof (cases "map_of aliasOf current")
    case (Some b)
    then have "current \<in> fst ` set aliasOf" by (force dest: map_of_SomeD)
    with new have "card (fst ` set aliasOf - insert current (set seen)) < card (fst ` set aliasOf - set seen)"
      by (intro psubset_card_mono) auto
    with Some show ?thesis by simp
  qed simp
qed simp

definition resolveFilterSource :: "RunModel \<Rightarrow> string option \<Rightarrow> string option" where
  "resolveFilterSource m query =
     (if \<not> truthy query then None
      else let scanned = stripMalloyCommentsAndLiterals (the query); target = extractRunTargetSourceName (Some scanned) in
        if \<not> truthy target then None
        else filter_source_walk (buildSourceAliasMap scanned) (fst ` set (filterMap m)) target [])"

subsection \<open>The text that is compiled\<close>

definition caller_guard :: "QueryRequest \<Rightarrow> QueryError + unit" where
  "caller_guard q =
     (if \<exists>t \<in> {reqQuery q, reqSource q, reqName q}. truthy t \<and> assertNoCallerAuthorizeAnnotation (the t) \<noteq> Inr ()
      then Inl CallerGate else Inr ())"

definition request_text :: "QueryRequest \<Rightarrow> QueryError + string" where
  "request_text q =
     (if \<not> truthy (reqSource q) \<and> \<not> truthy (reqName q) \<and> truthy (reqQuery q) then Inr (nl # the (reqQuery q))
      else if truthy (reqName q) \<and> \<not> truthy (reqQuery q)
        then Inr ([nl] @ ''run: '' @ (if truthy (reqSource q) then quoteMalloyIdentifier (the (reqSource q)) @ '' -> '' else [])
          @ quoteMalloyIdentifier (the (reqName q)))
      else Inl InvalidRequest)"

definition filtered_source :: "RunModel \<Rightarrow> QueryRequest \<Rightarrow> string option" where
  "filtered_source m q =
     (if \<not> truthy (reqSource q) \<and> \<not> truthy (reqName q) \<and> truthy (reqQuery q) then resolveFilterSource m (reqQuery q)
      else reqSource q)"

definition with_filters :: "RunModel \<Rightarrow> QueryRequest \<Rightarrow> string \<Rightarrow> QueryError + string" where
  "with_filters m q queryString =
     (if bypassFilters q \<or> \<not> truthy (filtered_source m q) then Inr queryString
      else case map_of (filterMap m) (the (filtered_source m q)) of
        None \<Rightarrow> Inr queryString
      | Some filters \<Rightarrow>
          if filters = [] then Inr queryString
          else (case buildFilterClause filters (case reqFilters q of Some p \<Rightarrow> p | None \<Rightarrow> (\<lambda>_. None)) of
              Inl e \<Rightarrow> Inl (FilterInvalid e)
            | Inr clause \<Rightarrow> Inr (injectFilterRefinement queryString clause)))"

definition compiled_text :: "RunModel \<Rightarrow> QueryRequest \<Rightarrow> QueryError + string" where
  "compiled_text m q = bind_r (caller_guard q) (\<lambda>_. bind_r (request_text q) (with_filters m q))"

subsection \<open>The choice of a route\<close>

datatype Route = RouteLive | RouteStorage virtual_map "ServeBinding list" | RouteRollup

definition gate_reader :: "Engine \<Rightarrow> expr_reader" where
  "gate_reader eng = collectAuthorizeExprs (noteRouteOf eng) (notePayloadOf eng)"

definition partition_reader :: "Engine \<Rightarrow> pair_reader" where
  "partition_reader eng = collectPartitionPairs (noteRouteOf eng) (notePayloadOf eng)"

definition any_note :: "sources \<Rightarrow> Engine \<Rightarrow> RunModel \<Rightarrow> bool" where
  "any_note S eng m \<longleftrightarrow>
     hasAnyAuthorizeNote S (noteRouteOf eng) (notePayloadOf eng) (chainTexts eng) (notesOfField eng) (registryEntries eng) (ownModel (gateModel m))
     \<or> hasAnyPartitionNote S (noteRouteOf eng) (chainTexts eng) (registryEntries eng) (ownModel (gateModel m))"

definition storage_possible :: "RunModel \<Rightarrow> bool" where
  "storage_possible m \<longleftrightarrow> storageOn m \<and> serveBindings (shapeState m) \<noteq> []"

definition routing_blocked :: "sources \<Rightarrow> Engine \<Rightarrow> RunModel \<Rightarrow> QueryRequest \<Rightarrow> runnable \<Rightarrow> bool" where
  "routing_blocked S eng m q live \<longleftrightarrow>
     (storage_possible m \<or> loadOnRollups eng \<noteq> None) \<and> \<not> reqBypass q \<and> any_note S eng m
     \<and> queryEntryPointHasRowLevelGate S (gate_reader eng) (partition_reader eng) (ownModel (gateModel m)) live"

text \<open>\<open>loadServeShapeQuery\<close>: the query on the shape of the fresh bindings, where it answers there.\<close>

definition storage_route :: "Engine \<Rightarrow> RunModel \<Rightarrow> int \<Rightarrow> string \<Rightarrow> (runnable \<times> Route) option" where
  "storage_route eng m now queryString =
     (case fst (load_serve_shape (localeOrder eng) (readSource eng) (shapeCompiles eng) (parseDate eng) (shapeState m) now (shapeCache m)) of
        None \<Rightarrow> None
      | Some (shape, vm, fresh) \<Rightarrow>
          if answersOnShape eng shape vm queryString then Some (loadOnShape eng shape queryString, RouteStorage vm fresh) else None)"

definition rollups_all_stored :: "RunModel \<Rightarrow> bool" where
  "rollups_all_stored m \<longleftrightarrow> rollupPlans (shapeState m) \<noteq> [] \<and> (\<forall>p \<in> set (rollupPlans (shapeState m)). truthy (planStorage p))"

definition rollup_route :: "Engine \<Rightarrow> RunModel \<Rightarrow> QueryRequest \<Rightarrow> string \<Rightarrow> (runnable \<times> Route) option" where
  "rollup_route eng m q queryString =
     (case loadOnRollups eng of
        None \<Rightarrow> None
      | Some load \<Rightarrow>
          if rollups_all_stored m then None
          else if answersOnRollups eng (filterGivensToModelSurface (gateModel m) (reqGivens q)) (freshManifest m) queryString
          then Some (load queryString, RouteRollup) else None)"

definition route_query :: "sources \<Rightarrow> Engine \<Rightarrow> RunModel \<Rightarrow> QueryRequest \<Rightarrow> int \<Rightarrow> string \<Rightarrow> runnable \<Rightarrow> runnable \<times> Route" where
  "route_query S eng m q now queryString live =
     (if routing_blocked S eng m q live then (live, RouteLive)
      else case (if storage_possible m then storage_route eng m now queryString else None) of
        Some r \<Rightarrow> r
      | None \<Rightarrow> (case rollup_route eng m q queryString of Some r \<Rightarrow> r | None \<Rightarrow> (live, RouteLive)))"

subsection \<open>The run\<close>

definition execution_for :: "RunModel \<Rightarrow> QueryRequest \<Rightarrow> Route \<Rightarrow> runnable \<Rightarrow> Execution" where
  "execution_for m q route run =
     (let givens = filterGivensToModelSurface (gateModel m) (reqGivens q) in
      case route of
        RouteStorage vm fresh \<Rightarrow> \<lparr>ranQuery = run, ranGivens = None, ranManifest = None, ranMap = Some vm\<rparr>
      | RouteRollup \<Rightarrow> \<lparr>ranQuery = run, ranGivens = givens, ranManifest = freshManifest m, ranMap = None\<rparr>
      | RouteLive \<Rightarrow> \<lparr>ranQuery = run, ranGivens = givens,
          ranManifest = withoutPreaggregateEntries (preaggregateIds m) (freshManifest m), ranMap = None\<rparr>)"

text \<open>One preparation and run: what is executed, and the failure or the limit and the rows.\<close>

definition run_once :: "Engine \<Rightarrow> Limits \<Rightarrow> Execution \<Rightarrow> Execution list \<times> (Failure + int \<times> QueryRowLimitSource \<times> RunRows)" where
  "run_once eng caps e =
     (case prepare eng e of
        Inl err \<Rightarrow> ([], Inl err)
      | Inr limit \<Rightarrow>
          (let rowLimit = resolveModelQueryRowLimit limit (defaultRows caps) (maxRows caps) in
           ([e], map_sum id (\<lambda>rows. (rowLimit, queryRowLimitSource limit, rows)) (execute eng e rowLimit))))"

definition given_code :: "string option \<Rightarrow> bool" where
  "given_code c = (case c of None \<Rightarrow> False | Some s \<Rightarrow> prefix ''runtime-given-'' s \<or> prefix ''compiler-given-'' s)"

definition isGivenBindingFailure :: "Failure \<Rightarrow> bool" where
  "isGivenBindingFailure err \<longleftrightarrow> given_code (errCode err)
     \<or> (case problemCodes err of None \<Rightarrow> False | Some cs \<Rightarrow> list_ex given_code cs)"

definition runtime_given :: "Failure \<Rightarrow> bool" where
  "runtime_given err \<longleftrightarrow> (case errCode err of None \<Rightarrow> False | Some s \<Rightarrow> prefix ''runtime-given-'' s)"

text \<open>\<open>failQuery\<close>; \<open>filtered\<close> says whether row filters were attached to the query.\<close>

definition fail_query :: "RunModel \<Rightarrow> QueryRequest \<Rightarrow> string option \<Rightarrow> bool \<Rightarrow> Failure \<Rightarrow> QueryError" where
  "fail_query m q compiledSource filtered err =
     (if isGivenBindingFailure err \<and> filtered
         \<and> \<not> computeAuthorizeReferencedGivenNames (gateModel m) \<subseteq> fst ` set (case reqGivens q of Some g \<Rightarrow> g | None \<Rightarrow> [])
      then AccessDenied (case compiledSource of Some s \<Rightarrow> s | None \<Rightarrow> (case reqSource q of Some s \<Rightarrow> s | None \<Rightarrow> ''unknown''))
      else if runtime_given err then BadRequest (errMessage err)
      else if fromMalloy err then MalloyFailure err
      else BadRequest (errMessage err))"

definition can_degrade :: "Route \<Rightarrow> QueryRequest \<Rightarrow> Failure \<Rightarrow> bool" where
  "can_degrade route q err =
     (case route of
        RouteStorage vm fresh \<Rightarrow> \<not> reqAborted q \<and> \<not> runtime_given err \<and> bindingsAllowDegradeToLive fresh
      | _ \<Rightarrow> False)"

datatype ServedFrom = From_storage | From_live_fallback

record QueryResult =
  resultRows :: int
  resultText :: string
  rowLimit :: int
  rowLimitSource :: QueryRowLimitSource
  servedFrom :: "ServedFrom option"

text \<open>The row limit, the serialization and the byte limit of what a run returned.\<close>

definition finish_run :: "Limits \<Rightarrow> ServedFrom option \<Rightarrow> int \<times> QueryRowLimitSource \<times> RunRows \<Rightarrow> QueryError + QueryResult" where
  "finish_run caps served executed =
     (case executed of (limit, source, rows) \<Rightarrow>
        (case snd (assertWithinModelRowLimit (totalRows rows) (maxRows caps) ModelQuery) of
           Inl e \<Rightarrow> Inl (CapExceeded e)
         | Inr _ \<Rightarrow>
             (case snd (stringifyQueryResponse (responseText rows) (totalRows rows) (maxBytes caps) ModelQuery) of
                Inl e \<Rightarrow> Inl (CapExceeded e)
              | Inr s \<Rightarrow>
                  (case snd (assertWithinModelByteLimit s (maxBytes caps) ModelQuery) of
                     Inl e \<Rightarrow> Inl (CapExceeded e)
                   | Inr _ \<Rightarrow> Inr \<lparr>resultRows = totalRows rows, resultText = s, rowLimit = limit, rowLimitSource = source,
                       servedFrom = served\<rparr>))))"

text \<open>
  The execution of a bound query, and of the live query in its place when the store fails; what is
  executed, in order, and the result.
\<close>

definition run_bound ::
  "Engine \<Rightarrow> Limits \<Rightarrow> RunModel \<Rightarrow> QueryRequest \<Rightarrow> string option \<Rightarrow> Route \<Rightarrow> runnable \<Rightarrow> runnable \<Rightarrow> bool
   \<Rightarrow> Execution list \<times> (QueryError + QueryResult)" where
  "run_bound eng caps m q compiledSource route live bound filtered =
     (let (executed, res) = run_once eng caps (execution_for m q route bound);
          served = (case route of RouteStorage _ _ \<Rightarrow> Some From_storage | _ \<Rightarrow> None) in
      case res of
        Inr rows \<Rightarrow> (executed, finish_run caps served rows)
      | Inl err \<Rightarrow>
          if can_degrade route q err
          then (let (executed', res') = run_once eng caps (execution_for m q RouteLive live) in
                (executed @ executed', case res' of Inr rows \<Rightarrow> finish_run caps (Some From_live_fallback) rows
                   | Inl err' \<Rightarrow> Inl (fail_query m q compiledSource filtered err')))
          else (executed, Inl (fail_query m q compiledSource filtered err)))"

definition bind_options :: "Engine \<Rightarrow> QueryRequest \<Rightarrow> string \<Rightarrow> BindOptions" where
  "bind_options eng q queryString =
     \<lparr>recompile = Some (recompileOn eng queryString), proveGraft = None, bypassAuthorize = reqBypass q, graftScope = None,
      skipOwn = False, callerQueryText = reqQuery q, checkOnly = False\<rparr>"

definition supplied_names :: "QueryRequest \<Rightarrow> string set" where
  "supplied_names q = fst ` set (case reqGivens q of Some g \<Rightarrow> g | None \<Rightarrow> [])"

definition authorize_query :: "sources \<Rightarrow> Engine \<Rightarrow> RunModel \<Rightarrow> QueryRequest \<Rightarrow> string \<Rightarrow> runnable \<Rightarrow> Outcome" where
  "authorize_query S eng m q queryString run =
     authorizeAndBindRunnable S (gate_reader eng) (partition_reader eng) (gateModel m) run (supplied_names q) (bind_options eng q queryString)"

text \<open>What runs once the text is compiled: the boundary's second step, the gates, the run.\<close>

definition run_compiled ::
  "sources \<Rightarrow> Engine \<Rightarrow> Limits \<Rightarrow> RunModel \<Rightarrow> QueryRequest \<Rightarrow> int \<Rightarrow> EarlyVerdict \<Rightarrow> string
   \<Rightarrow> Execution list \<times> (QueryError + QueryResult)" where
  "run_compiled S eng caps m q now verdict queryString =
     (let live = loadRestricted eng queryString;
          (routed, route) = route_query S eng m q now queryString live;
          compiledSource = resolveAuthorizeSourceFromRunnable S routed in
      case (if verdict = Deferred then assertQueryBoundaryCompiled (servedModel m) compiledSource (reqQuery q) else Inr ()) of
        Inl e \<Rightarrow> ([], Inl (OutsideBoundary e))
      | Inr _ \<Rightarrow>
          (case authorize_query S eng m q queryString routed of
             Denied label \<Rightarrow> ([], Inl (AccessDenied label))
           | Bound bound filtered \<Rightarrow> run_bound eng caps m q compiledSource route live bound filtered))"

definition getQueryResults ::
  "sources \<Rightarrow> Engine \<Rightarrow> Limits \<Rightarrow> RunModel \<Rightarrow> QueryRequest \<Rightarrow> int \<Rightarrow> Execution list \<times> (QueryError + QueryResult)" where
  "getQueryResults S eng caps m q now =
     (if modelError m \<noteq> None then ([], Inl (ModelFailed (the (modelError m))))
      else if ownModel (gateModel m) = None \<or> ownLoad (gateModel m) = None then ([], Inl NoEntities)
      else case assertQueryBoundaryEarly (servedModel m) (reqSource q) (reqName q) (reqQuery q) of
        Inl e \<Rightarrow> ([], Inl (OutsideBoundary e))
      | Inr verdict \<Rightarrow>
          (case (if truthy (early_source m q)
              then assertAuthorized S (gateModel m) (early_source m q) (reqBypass q) (defaultGraftScope (gateModel m)) else Inr ()) of
             Inl label \<Rightarrow> ([], Inl (AccessDenied label))
           | Inr _ \<Rightarrow>
               (case compiled_text m q of
                  Inl e \<Rightarrow> ([], Inl e)
                | Inr queryString \<Rightarrow> run_compiled S eng caps m q now verdict queryString)))"

subsection \<open>How a query comes to be executed\<close>

lemma run_once_cases:
  assumes "run_once eng caps e = (es, res)"
  shows "es = [] \<and> (\<exists>err. res = Inl err) \<or> es = [e]"
  using assms by (auto simp: run_once_def Let_def split: sum.splits)

lemma run_bound_executions:
  assumes "run_bound eng caps m q compiledSource route live bound filtered = (es, res)"
  shows "es = [] \<or> es = [execution_for m q route bound]
    \<or> (\<exists>vm fresh. route = RouteStorage vm fresh \<and> bindingsAllowDegradeToLive fresh \<and> \<not> reqAborted q
        \<and> (es = [execution_for m q RouteLive live] \<or> es = [execution_for m q route bound, execution_for m q RouteLive live]))"
proof -
  obtain es1 res1 where one: "run_once eng caps (execution_for m q route bound) = (es1, res1)" by force
  obtain es2 res2 where two: "run_once eng caps (execution_for m q RouteLive live) = (es2, res2)" by force
  from assms one two consider "es = es1"
    | err where "res1 = Inl err" "can_degrade route q err" "es = es1 @ es2"
    by (auto simp: run_bound_def Let_def split: sum.splits if_splits)
  then show ?thesis
  proof cases
    case 1
    with run_once_cases [OF one] show ?thesis by auto
  next
    case 2
    from 2(2) obtain vm fresh where "route = RouteStorage vm fresh" "bindingsAllowDegradeToLive fresh" "\<not> reqAborted q"
      by (auto simp: can_degrade_def split: Route.splits)
    with run_once_cases [OF one] run_once_cases [OF two] 2(3) show ?thesis by auto
  qed
qed

text \<open>The three ends of a run: the query as it was bound, a store that cannot be prepared, and one that fails.\<close>

lemma run_bound_cases:
  assumes "run_bound eng caps m q compiledSource route live bound filtered = (es, res)"
  obtains (first) "es = [] \<or> es = [execution_for m q route bound]" "es = [] \<Longrightarrow> \<forall>r. res \<noteq> Inr r"
      "\<forall>r. res = Inr r \<longrightarrow> servedFrom r \<noteq> Some From_live_fallback"
  | (unprepared) err where "can_degrade route q err" "es = [execution_for m q RouteLive live]"
  | (retried) err limit where "can_degrade route q err" "prepare eng (execution_for m q route bound) = Inr limit"
      "execute eng (execution_for m q route bound) (resolveModelQueryRowLimit limit (defaultRows caps) (maxRows caps)) = Inl err"
      "es = [execution_for m q route bound, execution_for m q RouteLive live]"
proof -
  let ?stored = "execution_for m q route bound" and ?retry = "execution_for m q RouteLive live"
  obtain es1 res1 where one: "run_once eng caps ?stored = (es1, res1)" by force
  obtain es2 res2 where two: "run_once eng caps ?retry = (es2, res2)" by force
  have served: "servedFrom r = served" if "finish_run caps served x = Inr r" for served x r
    using that by (auto simp: finish_run_def split: prod.splits sum.splits)
  have first': thesis if "es = es1" "\<forall>r. res = Inr r \<longrightarrow> servedFrom r \<noteq> Some From_live_fallback" "es1 = [] \<longrightarrow> (\<forall>r. res \<noteq> Inr r)"
    using first that run_once_cases [OF one] by blast
  show thesis
  proof (cases res1)
    case (Inr rows)
    with one run_once_cases [OF one] have "es1 \<noteq> []" by auto
    with assms one Inr show thesis
      by (intro first') (auto simp: run_bound_def Let_def split: Route.splits dest: served)
  next
    case (Inl err)
    show thesis
    proof (cases "can_degrade route q err")
      case False
      with assms one Inl show thesis by (intro first') (auto simp: run_bound_def Let_def)
    next
      case True
      with assms one two Inl have es: "es = es1 @ es2"
        and res: "res = (case res2 of Inr rows \<Rightarrow> finish_run caps (Some From_live_fallback) rows
            | Inl err' \<Rightarrow> Inl (fail_query m q compiledSource filtered err'))"
        by (auto simp: run_bound_def Let_def)
      from run_once_cases [OF two] show thesis
      proof (elim disjE conjE exE)
        fix err' assume "es2 = []" "res2 = Inl err'"
        with es res show thesis by (intro first') auto
      next
        assume es2: "es2 = [?retry]"
        show thesis
        proof (cases "prepare eng ?stored")
          case (Inl e)
          with one have "es1 = []" by (simp add: run_once_def)
          with unprepared True es es2 show thesis by simp
        next
          case (Inr limit)
          with one have "es1 = [?stored]"
            "map_sum id (\<lambda>rows. (resolveModelQueryRowLimit limit (defaultRows caps) (maxRows caps), queryRowLimitSource limit, rows))
               (execute eng ?stored (resolveModelQueryRowLimit limit (defaultRows caps) (maxRows caps))) = res1"
            by (auto simp: run_once_def Let_def)
          with \<open>res1 = Inl err\<close> retried [OF True Inr] es es2 show thesis by (auto simp: map_sum_eq_Inl)
        qed
      qed
    qed
  qed
qed

text \<open>
  What lies before a run: the text, the route, the boundary and the authorization.
\<close>

lemma executed_runs:
  assumes "getQueryResults S eng caps m q now = (es, res)" and "es \<noteq> [] \<or> (\<exists>r. res = Inr r)"
  obtains queryString routed route bound filtered where
    "compiled_text m q = Inr queryString"
    "route_query S eng m q now queryString (loadRestricted eng queryString) = (routed, route)"
    "query_boundary (servedModel m) (reqSource q) (reqName q) (reqQuery q) (resolveAuthorizeSourceFromRunnable S routed) = Inr ()"
    "authorize_query S eng m q queryString routed = Bound bound filtered"
    "run_bound eng caps m q (resolveAuthorizeSourceFromRunnable S routed) route (loadRestricted eng queryString) bound filtered = (es, res)"
proof -
  from assms obtain verdict where verdict: "assertQueryBoundaryEarly (servedModel m) (reqSource q) (reqName q) (reqQuery q) = Inr verdict"
    by (cases "assertQueryBoundaryEarly (servedModel m) (reqSource q) (reqName q) (reqQuery q)")
      (auto simp: getQueryResults_def split: if_splits)
  with assms obtain queryString where t: "compiled_text m q = Inr queryString"
      "run_compiled S eng caps m q now verdict queryString = (es, res)"
    by (cases "compiled_text m q") (auto simp: getQueryResults_def split: if_splits sum.splits)
  let ?live = "loadRestricted eng queryString"
  obtain routed route where r: "route_query S eng m q now queryString ?live = (routed, route)" by force
  let ?src = "resolveAuthorizeSourceFromRunnable S routed"
  from t(2) r assms(2) have second: "(if verdict = Deferred then assertQueryBoundaryCompiled (servedModel m) ?src (reqQuery q) else Inr ()) = Inr ()"
    by (cases "if verdict = Deferred then assertQueryBoundaryCompiled (servedModel m) ?src (reqQuery q) else Inr ()")
      (auto simp: run_compiled_def Let_def)
  then have boundary: "query_boundary (servedModel m) (reqSource q) (reqName q) (reqQuery q) ?src = Inr ()"
    using verdict by (cases verdict) (auto simp: query_boundary_def split: if_splits)
  from t(2) r second have out: "(case authorize_query S eng m q queryString routed of Denied label \<Rightarrow> ([], Inl (AccessDenied label))
         | Bound bound filtered \<Rightarrow> run_bound eng caps m q ?src route ?live bound filtered) = (es, res)"
    by (simp add: run_compiled_def Let_def)
  obtain bound filtered where b: "authorize_query S eng m q queryString routed = Bound bound filtered"
      "run_bound eng caps m q ?src route ?live bound filtered = (es, res)"
    using out assms(2) by (cases "authorize_query S eng m q queryString routed") auto
  with that t(1) r boundary show ?thesis by blast
qed

text \<open>An execution is that of the query that was bound, or of the live one in place of a store that failed.\<close>

lemma executed_cases:
  assumes "getQueryResults S eng caps m q now = (es, res)" and "e \<in> set es"
  obtains queryString routed route bound filtered where
    "compiled_text m q = Inr queryString"
    "route_query S eng m q now queryString (loadRestricted eng queryString) = (routed, route)"
    "query_boundary (servedModel m) (reqSource q) (reqName q) (reqQuery q) (resolveAuthorizeSourceFromRunnable S routed) = Inr ()"
    "authorize_query S eng m q queryString routed = Bound bound filtered"
    "e = execution_for m q route bound \<or> (\<exists>vm fresh. route = RouteStorage vm fresh \<and> e = execution_for m q RouteLive (loadRestricted eng queryString))"
proof -
  from assms(2) have "es \<noteq> [] \<or> (\<exists>r. res = Inr r)" by auto
  from executed_runs [OF assms(1) this] obtain queryString routed route bound filtered where
    r: "compiled_text m q = Inr queryString"
      "route_query S eng m q now queryString (loadRestricted eng queryString) = (routed, route)"
      "query_boundary (servedModel m) (reqSource q) (reqName q) (reqQuery q) (resolveAuthorizeSourceFromRunnable S routed) = Inr ()"
      "authorize_query S eng m q queryString routed = Bound bound filtered"
      "run_bound eng caps m q (resolveAuthorizeSourceFromRunnable S routed) route (loadRestricted eng queryString) bound filtered = (es, res)"
    by blast
  from run_bound_executions [OF r(5)] assms(2) have
    "e = execution_for m q route bound
      \<or> (\<exists>vm fresh. route = RouteStorage vm fresh \<and> e = execution_for m q RouteLive (loadRestricted eng queryString))" by auto
  with that r(1-4) show ?thesis by blast
qed

lemma execution_for_query [simp]: "ranQuery (execution_for m q route r) = r"
  by (simp add: execution_for_def Let_def split: Route.splits)

text \<open>A query that leaves the live sources, or may return to them unbound, was not vetoed.\<close>

lemma routed_not_blocked:
  assumes "route_query S eng m q now queryString live = (routed, route)"
  shows "routed = live \<and> route = RouteLive
    \<or> \<not> routing_blocked S eng m q live \<and> (storage_possible m \<or> loadOnRollups eng \<noteq> None)"
proof (cases "routing_blocked S eng m q live")
  case True
  with assms show ?thesis by (simp add: route_query_def)
next
  case False
  show ?thesis
  proof (cases "storage_possible m \<or> loadOnRollups eng \<noteq> None")
    case True
    with False show ?thesis by blast
  next
    case none: False
    with False assms show ?thesis by (simp add: route_query_def rollup_route_def)
  qed
qed

lemma gate_reader_notes: "gate_reader eng = reads_notes (parseAuthorizeAnnotation (noteRouteOf eng) (notePayloadOf eng))"
  by (rule ext) (simp add: gate_reader_def reads_notes_def collectAuthorizeExprs_def)

text \<open>How the model is served: its gates are those of its own text, its sources are those that are swept.\<close>

definition served_soundly :: "sources \<Rightarrow> Engine \<Rightarrow> RunModel \<Rightarrow> ModelDef \<Rightarrow> bool" where
  "served_soundly S eng m md \<longleftrightarrow> ownModel (gateModel m) = Some md
     \<and> entryPointGatesBySource (gateModel m) = computeEntryPointGatesBySource S (gate_reader eng) (Some md)
     \<and> separable S (parseAuthorizeAnnotation (noteRouteOf eng) (notePayloadOf eng))
     \<and> whole_chain (chainTexts eng) \<and> ran (registry md) \<subseteq> set (registryEntries eng)"

definition swept_target :: "sources \<Rightarrow> Engine \<Rightarrow> ModelDef \<Rightarrow> nat \<Rightarrow> nat option \<Rightarrow> bool" where
  "swept_target S eng md a composite \<longleftrightarrow> a \<in> set (reachableStructsForNoteSweep S md (registryEntries eng))
     \<and> set_option composite \<subseteq> set (reachableStructsForNoteSweep S md (registryEntries eng))"

text \<open>Not vetoed and not bypassed: the live query has no gate but a denial that no note declares.\<close>

lemma not_blocked_ungated:
  assumes "\<not> routing_blocked S eng m q live" and "storage_possible m \<or> loadOnRollups eng \<noteq> None" and "\<not> reqBypass q"
    and "served_soundly S eng m md" and "resolveRunTargetStruct (Some md) live = (Some a, Some md, composite)"
    and "any_note S eng m \<or> swept_target S eng md a composite"
  shows "(\<forall>g \<in> set (walk_gates S (gate_reader eng) (Some a, Some md, composite)). unreadable g \<and> \<not> any_note S eng m)
    \<and> (\<forall>pairs. resolveEntryPointPartitions S md (partition_reader eng) (Some a) = Inr pairs \<longrightarrow> pairs = [])"
proof (cases "any_note S eng m")
  case True
  with assms(1-3) have "\<not> queryEntryPointHasRowLevelGate S (gate_reader eng) (partition_reader eng) (ownModel (gateModel m)) live"
    by (auto simp: routing_blocked_def)
  with assms(4,5) show ?thesis by (auto simp: queryEntryPointHasRowLevelGate_def served_soundly_def split: sum.splits)
next
  case False
  have own: "ownModel (gateModel m) = Some md" using assms(4) by (simp add: served_soundly_def)
  have "swept_target S eng md a composite" using assms(6) False by blast
  with assms(4) sweep_finds_every_gate [of "chainTexts eng" md "registryEntries eng" a S composite "noteRouteOf eng" "notePayloadOf eng" "notesOfField eng"]
  have "(hasAnyAuthorizeNote S (noteRouteOf eng) (notePayloadOf eng) (chainTexts eng) (notesOfField eng) (registryEntries eng) (Some md)
      \<or> (\<forall>g \<in> set (walk_gates S (gate_reader eng) (Some a, Some md, composite)). unreadable g))
    \<and> (hasAnyPartitionNote S (noteRouteOf eng) (chainTexts eng) (registryEntries eng) (Some md)
      \<or> resolveEntryPointPartitions S md (partition_reader eng) (Some a) \<in> {Inr [], Inl AncestryUnresolvable})"
    by (simp add: served_soundly_def swept_target_def gate_reader_def partition_reader_def)
  with False own show ?thesis by (auto simp: any_note_def)
qed

text \<open>
  C2: Whatever tier answers a request, the rows of its live query are gated: every struct they come from has
  a gate of its own alternatives that is a filter in effect in the query that is executed, be it the bound
  query or the live one that takes over when a store fails. It is assumed that the live query is compiled against
  the served model, and, of a model in which the sweep finds no note at all, that the sweep reaches the target
  of the query: the gate of a member that only a composed query has is lost there
  (\<open>sweep_misses_composed_member\<close>). The one other gate that a tier can lose is the denial of an ancestry
  that cannot be read, in a model where the sweep finds no note.
\<close>

theorem executed_query_is_gated:
  assumes "getQueryResults S eng caps m q now = (es, res)" and "e \<in> set es" and "\<not> reqBypass q"
    and "compiled_text m q = Inr queryString" and "served_soundly S eng m md"
    and "resolveRunTargetStruct (Some md) (loadRestricted eng queryString) = (Some a, Some md, composite)"
    and "any_note S eng m \<or> swept_target S eng md a composite" and "rows_from S (Some a, Some md, composite) x"
  shows "\<exists>gates copied. rows_enter S (Some a, Some md, composite) x copied
    \<and> struct_enforced S md (parseAuthorizeAnnotation (noteRouteOf eng) (notePayloadOf eng)) gates x copied
    \<and> (\<forall>g \<in> set gates. (\<exists>p. ranQuery e = Some p \<and> filter_in_effect S (Some md) p (gateFilterText (gateExprs g)))
        \<or> unreadable g \<and> \<not> any_note S eng m)"
proof -
  let ?parse = "parseAuthorizeAnnotation (noteRouteOf eng) (notePayloadOf eng)" and ?live = "loadRestricted eng queryString"
  from executed_cases [OF assms(1,2)] assms(4) obtain routed route bound filtered where
      r: "route_query S eng m q now queryString ?live = (routed, route)"
    and b: "authorize_query S eng m q queryString routed = Bound bound filtered"
    and e: "e = execution_for m q route bound \<or> (\<exists>vm fresh. route = RouteStorage vm fresh \<and> e = execution_for m q RouteLive ?live)"
    by (metis sum.inject(2))
  have own: "ownModel (gateModel m) = Some md" using assms(5) by (simp add: served_soundly_def)
  consider (live) "routed = ?live" "route = RouteLive"
    | (other) "\<not> routing_blocked S eng m q ?live" "storage_possible m \<or> loadOnRollups eng \<noteq> None"
    using routed_not_blocked [OF r] by blast
  then show ?thesis
  proof cases
    case live
    with e have run: "ranQuery e = bound" by auto
    have "authorizeAndBindRunnable S (reads_notes ?parse) (partition_reader eng) (gateModel m) ?live (supplied_names q)
        (bind_options eng q queryString) = Bound bound filtered"
      using b live(1) by (simp add: authorize_query_def gate_reader_notes)
    from bound_query_is_gated [OF this, of a md composite x] assms(3,5,6,8) show ?thesis
      by (auto simp: bind_options_def served_soundly_def gate_reader_notes run)
  next
    case other
    have "\<exists>copied. rows_enter S (Some a, Some md, composite) x copied
        \<and> struct_enforced S md ?parse (walk_gates S (gate_reader eng) (Some a, Some md, composite)) x copied"
      unfolding gate_reader_notes by (rule walk_gates_complete [OF assms(8)])
    with not_blocked_ungated [OF other assms(3,5,6,7)] show ?thesis by blast
  qed
qed

text \<open>
  C7: So is the partition: every pair declared for the live query's source is a filter in effect in the query
  that is executed, on whichever tier, under the same assumptions: the live query is compiled against the
  served model, and in a model where the sweep finds no note it reaches the target of the query.
\<close>

theorem executed_query_is_partitioned:
  assumes "getQueryResults S eng caps m q now = (es, res)" and "e \<in> set es" and "\<not> reqBypass q"
    and "compiled_text m q = Inr queryString" and "served_soundly S eng m md"
    and "resolveRunTargetStruct (Some md) (loadRestricted eng queryString) = (Some a, Some md, composite)"
    and "any_note S eng m \<or> swept_target S eng md a composite"
    and "resolveEntryPointPartitions S md (partition_reader eng) (Some a) = Inr pairs" and "pair \<in> set pairs"
  shows "\<exists>p. ranQuery e = Some p \<and> filter_in_effect S (Some md) p (column pair @ '' = $'' @ given pair)"
proof -
  let ?live = "loadRestricted eng queryString"
  from executed_cases [OF assms(1,2)] assms(4) obtain routed route bound filtered where
      r: "route_query S eng m q now queryString ?live = (routed, route)"
    and b: "authorize_query S eng m q queryString routed = Bound bound filtered"
    and e: "e = execution_for m q route bound \<or> (\<exists>vm fresh. route = RouteStorage vm fresh \<and> e = execution_for m q RouteLive ?live)"
    by (metis sum.inject(2))
  have own: "ownModel (gateModel m) = Some md" using assms(5) by (simp add: served_soundly_def)
  consider (live) "routed = ?live" "route = RouteLive"
    | (other) "\<not> routing_blocked S eng m q ?live" "storage_possible m \<or> loadOnRollups eng \<noteq> None"
    using routed_not_blocked [OF r] by blast
  then show ?thesis
  proof cases
    case live
    with e have run: "ranQuery e = bound" by auto
    from b live(1) have "authorizeAndBindRunnable S (gate_reader eng) (partition_reader eng) (gateModel m) ?live (supplied_names q)
        (bind_options eng q queryString) = Bound bound filtered" by (simp add: authorize_query_def)
    from bound_query_is_partitioned [OF this, of a md composite] assms(3,6,8,9) own show ?thesis
      by (auto simp: bind_options_def run)
  next
    case other
    with not_blocked_ungated [OF other assms(3,5,6,7)] assms(8,9) show ?thesis by auto
  qed
qed

text \<open>
  Nothing is executed outside the boundary of the package: the request passed both its steps, the second
  on the source that the query to be run compiles to.
\<close>

theorem execution_is_within_boundary:
  assumes "getQueryResults S eng caps m q now = (es, res)" and "es \<noteq> []"
  shows "\<exists>compiledSource. query_boundary (servedModel m) (reqSource q) (reqName q) (reqQuery q) compiledSource = Inr ()
    \<and> (\<forall>t \<in> {reqQuery q, reqSource q, reqName q}. truthy t \<longrightarrow> \<not> AUTHORIZE_ANNOTATION_ANYWHERE (the t))"
proof -
  from assms(2) have "es \<noteq> [] \<or> (\<exists>r. res = Inr r)" by simp
  from executed_runs [OF assms(1) this] obtain queryString routed where
      t: "compiled_text m q = Inr queryString"
    and b: "query_boundary (servedModel m) (reqSource q) (reqName q) (reqQuery q) (resolveAuthorizeSourceFromRunnable S routed) = Inr ()"
    by metis
  have "caller_guard q = Inr ()" using t by (cases "caller_guard q") (auto simp: compiled_text_def)
  then have "\<forall>t \<in> {reqQuery q, reqSource q, reqName q}. truthy t \<longrightarrow> assertNoCallerAuthorizeAnnotation (the t) = Inr ()"
    by (auto simp: caller_guard_def split: if_splits)
  then have "\<forall>t \<in> {reqQuery q, reqSource q, reqName q}. truthy t \<longrightarrow> \<not> AUTHORIZE_ANNOTATION_ANYWHERE (the t)"
    by (auto simp: assertNoCallerAuthorizeAnnotation_def split: if_splits)
  with b show ?thesis by blast
qed

text \<open>
  C23: A request executes at most two queries, one if it is aborted. A stored execution carries no givens and
  no manifest, every other one the caller's givens. The second is the text of the request on the live
  sources, and runs only when the store was prepared and failed on its own account: the first execution
  returned an error, which is not one of a given. An answer that is reported as a live fallback is that of
  this live query, executed last.
\<close>

theorem store_failure_retried_once:
  assumes "getQueryResults S eng caps m q now = (es, res)"
  shows "length es \<le> (if reqAborted q then 1 else 2)
    \<and> (\<forall>e \<in> set es. if ranMap e \<noteq> None then ranGivens e = None \<and> ranManifest e = None
         else ranGivens e = filterGivensToModelSurface (gateModel m) (reqGivens q))
    \<and> (length es = 2 \<longrightarrow> ranMap (es ! 0) \<noteq> None
         \<and> (\<exists>limit err. prepare eng (es ! 0) = Inr limit \<and> \<not> runtime_given err
              \<and> execute eng (es ! 0) (resolveModelQueryRowLimit limit (defaultRows caps) (maxRows caps)) = Inl err)
         \<and> (\<exists>queryString. compiled_text m q = Inr queryString \<and> es ! 1 = execution_for m q RouteLive (loadRestricted eng queryString)))
    \<and> (\<forall>r. res = Inr r \<and> servedFrom r = Some From_live_fallback \<longrightarrow> es \<noteq> []
         \<and> (\<exists>queryString. compiled_text m q = Inr queryString \<and> List.last es = execution_for m q RouteLive (loadRestricted eng queryString)))"
proof (cases "es = [] \<and> \<not> (\<exists>r. res = Inr r)")
  case False
  then have "es \<noteq> [] \<or> (\<exists>r. res = Inr r)" by blast
  from executed_runs [OF assms this] obtain compiledSource route queryString bound filtered where
      r: "run_bound eng caps m q compiledSource route (loadRestricted eng queryString) bound filtered = (es, res)"
    and t: "compiled_text m q = Inr queryString" by metis
  let ?live = "loadRestricted eng queryString"
  let ?stored = "execution_for m q route bound" and ?retry = "execution_for m q RouteLive ?live"
  have shape: "if ranMap (execution_for m q rt x) \<noteq> None then ranGivens (execution_for m q rt x) = None \<and> ranManifest (execution_for m q rt x) = None
      else ranGivens (execution_for m q rt x) = filterGivensToModelSurface (gateModel m) (reqGivens q)" for rt x
    by (simp add: execution_for_def Let_def split: Route.splits)
  have stored: "ranMap (execution_for m q (RouteStorage vm fresh) x) \<noteq> None" for x vm fresh
    by (simp add: execution_for_def Let_def)
  from r show ?thesis
  proof (cases rule: run_bound_cases)
    case first
    with shape [of route bound] show ?thesis by auto
  next
    case (unprepared err)
    with shape [of RouteLive ?live] t show ?thesis by auto
  next
    case (retried err limit)
    from retried(1) obtain vm fresh where "route = RouteStorage vm fresh" "\<not> reqAborted q" "\<not> runtime_given err"
      by (auto simp: can_degrade_def split: Route.splits)
    with retried shape [of route bound] shape [of RouteLive ?live] stored t show ?thesis by auto
  qed
qed auto

text \<open>
  C36: An answer is what the last execution returned, whole and within the limits: under the row limit that was
  asked of it, with no more rows and no more bytes than the caps allow.
\<close>

theorem answer_within_limits:
  assumes "getQueryResults S eng caps m q now = (es, Inr r)"
  shows "es \<noteq> [] \<and> (\<exists>rows. execute eng (List.last es) (rowLimit r) = Inr rows \<and> totalRows rows = resultRows r
      \<and> responseText rows = Serialized (resultText r))
    \<and> (0 < maxRows caps \<longrightarrow> resultRows r \<le> maxRows caps \<and> rowLimit r \<le> maxRows caps + 1)
    \<and> (0 < maxBytes caps \<longrightarrow> utf8_length (resultText r) \<le> maxBytes caps)"
proof -
  have "es \<noteq> [] \<or> (\<exists>r'. Inr r = Inr r')" by simp
  from executed_runs [OF assms this] obtain compiledSource route live bound filtered where
      b: "run_bound eng caps m q compiledSource route live bound filtered = (es, Inr r)" by metis
  have once: "\<exists>limit. prepare eng e = Inr limit \<and> es' = [e] \<and> fst ok = resolveModelQueryRowLimit limit (defaultRows caps) (maxRows caps)
      \<and> execute eng e (fst ok) = Inr (snd (snd ok))" if "run_once eng caps e = (es', Inr ok)" for e es' ok
    using that by (auto simp: run_once_def Let_def map_sum_eq_Inr split: sum.splits)
  obtain es1 res1 where one: "run_once eng caps (execution_for m q route bound) = (es1, res1)" by force
  obtain es2 res2 where two: "run_once eng caps (execution_for m q RouteLive live) = (es2, res2)" by force
  obtain e es0 ok where ok: "es = es0 @ [e]" "execute eng e (fst ok) = Inr (snd (snd ok))"
      "\<exists>limit. fst ok = resolveModelQueryRowLimit limit (defaultRows caps) (maxRows caps)"
      "\<exists>served. finish_run caps served ok = Inr r"
  proof (cases res1)
    case (Inr rows)
    with b one have "es = es1" "\<exists>served. finish_run caps served rows = Inr r" by (auto simp: run_bound_def Let_def)
    with once [of _ es1 rows] one Inr that [of "[]" "execution_for m q route bound" rows] show ?thesis by force
  next
    case (Inl err)
    with b one two obtain rows where "res2 = Inr rows" "es = es1 @ es2" "\<exists>served. finish_run caps served rows = Inr r"
      by (auto simp: run_bound_def Let_def split: if_splits sum.splits)
    with once [of _ es2 rows] two that [of es1 "execution_for m q RouteLive live" rows] show ?thesis by force
  qed
  obtain limit source rows where r3: "ok = (limit, source, rows)" by (cases ok)
  with ok(4) have fin: "limit = rowLimit r" "totalRows rows = resultRows r" "responseText rows = Serialized (resultText r)"
      "0 < maxRows caps \<longrightarrow> resultRows r \<le> maxRows caps" "0 < maxBytes caps \<longrightarrow> utf8_length (resultText r) \<le> maxBytes caps"
    by (auto simp: finish_run_def assertWithinModelRowLimit_def assertWithinModelByteLimit_def stringifyQueryResponse_def Let_def
        split: sum.splits if_splits StringifyOutcome.splits)
  from ok(3) r3 have "0 < maxRows caps \<longrightarrow> limit \<le> maxRows caps + 1"
    by (auto simp: resolveModelQueryRowLimit_def Let_def split: option.splits)
  with ok(1,2) r3 fin show ?thesis by auto
qed

subsection \<open>The filters of a derived source\<close>

text \<open>The sources a request leads to from its run target, up to the first with filters.\<close>

inductive alias_reaches :: "(string \<times> string) list \<Rightarrow> string set \<Rightarrow> string \<Rightarrow> string \<Rightarrow> bool" for aliasOf filtered target where
  alias_target: "alias_reaches aliasOf filtered target target"
| alias_step: "alias_reaches aliasOf filtered target n \<Longrightarrow> n \<notin> filtered \<Longrightarrow> map_of aliasOf n = Some b \<Longrightarrow>
    alias_reaches aliasOf filtered target b"

lemma closed_reaches:
  assumes "alias_reaches aliasOf filtered target n" and "target \<in> K" and "\<And>s. s \<in> K \<Longrightarrow> set_option (map_of aliasOf s) \<subseteq> K"
  shows "n \<in> K"
  using assms(1)
proof (induction rule: alias_reaches.induct)
  case (alias_step n b)
  with assms(3) [of n] show ?case by auto
qed (rule assms(2))

lemma filter_walk_complete:
  "filter_source_walk aliasOf filtered cur seen = None \<Longrightarrow> [] \<notin> snd ` set aliasOf \<Longrightarrow> cur \<noteq> Some [] \<Longrightarrow>
   \<forall>s \<in> set seen. s \<notin> filtered \<and> set_option (map_of aliasOf s) \<subseteq> set seen \<union> set_option cur \<Longrightarrow>
   target \<in> set seen \<union> set_option cur \<Longrightarrow> alias_reaches aliasOf filtered target n \<Longrightarrow> n \<notin> filtered"
proof (induction aliasOf filtered cur seen rule: filter_source_walk.induct)
  case (1 aliasOf filtered seen)
  with closed_reaches [of aliasOf filtered target n "set seen"] show ?case by auto
next
  case (2 aliasOf filtered current seen)
  show ?case
  proof (cases "current \<in> set seen")
    case True
    with 2(5,6) have "n \<in> set seen" by (intro closed_reaches [OF 2(7)]) auto
    with 2(5) show ?thesis by blast
  next
    case False
    with 2(2,4) have c: "\<not> (current = [] \<or> current \<in> set seen)" "current \<notin> filtered"
        "filter_source_walk aliasOf filtered (map_of aliasOf current) (current # seen) = None"
      by (auto split: if_splits)
    have "map_of aliasOf current \<noteq> Some []" using 2(3) by (force dest: map_of_SomeD)
    moreover have "\<forall>s \<in> set (current # seen). s \<notin> filtered
        \<and> set_option (map_of aliasOf s) \<subseteq> set (current # seen) \<union> set_option (map_of aliasOf current)"
      using 2(5) c(2) by auto
    moreover have "target \<in> set (current # seen) \<union> set_option (map_of aliasOf current)" using 2(6) by auto
    ultimately show ?thesis using 2(1) [OF c(1,2,3) 2(3)] 2(7) by blast
  qed
qed

lemma filter_walk_sound:
  "filter_source_walk aliasOf filtered cur seen = Some n \<Longrightarrow>
   (\<forall>c. cur = Some c \<longrightarrow> alias_reaches aliasOf filtered target c) \<Longrightarrow> alias_reaches aliasOf filtered target n \<and> n \<in> filtered"
proof (induction aliasOf filtered cur seen rule: filter_source_walk.induct)
  case (2 aliasOf filtered current seen)
  show ?case
  proof (cases "current = [] \<or> current \<in> set seen \<or> current \<in> filtered")
    case True
    with 2(2,3) show ?thesis by (auto split: if_splits)
  next
    case False
    then have c: "\<not> (current = [] \<or> current \<in> set seen)" "current \<notin> filtered" by auto
    with 2(2) have "filter_source_walk aliasOf filtered (map_of aliasOf current) (current # seen) = Some n" by simp
    moreover have "\<forall>c. map_of aliasOf current = Some c \<longrightarrow> alias_reaches aliasOf filtered target c"
      using 2(3) c(2) by (auto intro: alias_step)
    ultimately show ?thesis using 2(1) [OF c] by blast
  qed
qed simp

text \<open>The chain has one end: each name has one base, and the first source with filters stops it.\<close>

fun alias_at :: "(string \<times> string) list \<Rightarrow> string set \<Rightarrow> string \<Rightarrow> nat \<Rightarrow> string option" where
  "alias_at aliasOf filtered target 0 = Some target"
| "alias_at aliasOf filtered target (Suc k) =
     (case alias_at aliasOf filtered target k of
        None \<Rightarrow> None | Some c \<Rightarrow> if c \<in> filtered then None else map_of aliasOf c)"

lemma alias_reaches_at: "alias_reaches aliasOf filtered target n \<Longrightarrow> \<exists>k. alias_at aliasOf filtered target k = Some n"
proof (induction rule: alias_reaches.induct)
  case alias_target
  show ?case by (rule exI [of _ 0]) simp
next
  case (alias_step n b)
  then obtain k where "alias_at aliasOf filtered target k = Some n" by blast
  with alias_step.hyps show ?case by (intro exI [of _ "Suc k"]) simp
qed

lemma alias_at_ends:
  "alias_at aliasOf filtered target j = Some x \<Longrightarrow> x \<in> filtered \<Longrightarrow> j < k \<Longrightarrow> alias_at aliasOf filtered target k = None"
proof (induction k)
  case (Suc k)
  then show ?case by (cases "j = k") auto
qed simp

lemma alias_reaches_one:
  assumes "alias_reaches aliasOf filtered target x" "x \<in> filtered" "alias_reaches aliasOf filtered target y" "y \<in> filtered"
  shows "x = y"
proof -
  obtain j k where jk: "alias_at aliasOf filtered target j = Some x" "alias_at aliasOf filtered target k = Some y"
    using alias_reaches_at assms by meson
  show ?thesis
  proof (cases j k rule: linorder_cases)
    case less
    with alias_at_ends [OF jk(1) assms(2)] jk(2) show ?thesis by simp
  next
    case equal
    with jk show ?thesis by simp
  next
    case greater
    with alias_at_ends [OF jk(2) assms(4)] jk(1) show ?thesis by simp
  qed
qed

text \<open>
  C24: A free-form request whose first \<open>run:\<close>, read without comments and literals, names a filtered source or
  a name that the \<open>source:\<close> declarations of its text lead from to one, over any number of them, is compiled
  with the refinement of that source's filters; a required filter without a value refuses it. A name that is
  declared by a \<open>query:\<close> and a later \<open>run:\<close> are not followed (\<open>later_run_is_not_filtered\<close>).
\<close>

theorem derived_query_is_filtered:
  assumes "compiled_text m q = Inr queryString" and "\<not> bypassFilters q"
    and "\<not> truthy (reqSource q)" and "\<not> truthy (reqName q)" and "reqQuery q = Some query"
    and "extractRunTargetSourceName (Some (stripMalloyCommentsAndLiterals query)) = Some target" and "target \<noteq> []"
    and "[] \<notin> snd ` set (buildSourceAliasMap (stripMalloyCommentsAndLiterals query))"
    and "alias_reaches (buildSourceAliasMap (stripMalloyCommentsAndLiterals query)) (fst ` set (filterMap m)) target n"
    and "n \<noteq> []" and "map_of (filterMap m) n = Some filters" and "filters \<noteq> []"
  shows "\<exists>clause. buildFilterClause filters (case reqFilters q of Some p \<Rightarrow> p | None \<Rightarrow> (\<lambda>_. None)) = Inr clause
    \<and> queryString = injectFilterRefinement (nl # query) clause"
proof -
  let ?al = "buildSourceAliasMap (stripMalloyCommentsAndLiterals query)" and ?F = "fst ` set (filterMap m)"
  have n: "n \<in> ?F" using assms(11) by (force dest: map_of_SomeD)
  have "filter_source_walk ?al ?F (Some target) [] \<noteq> None"
    using filter_walk_complete [of ?al ?F "Some target" "[]" target n] assms(7-9) n by auto
  then obtain n' where n': "filter_source_walk ?al ?F (Some target) [] = Some n'" by blast
  from filter_walk_sound [OF n', of target] have r': "alias_reaches ?al ?F target n'" "n' \<in> ?F" by (auto intro: alias_target)
  have eq: "n' = n" by (rule alias_reaches_one [OF r' assms(9) n])
  have "stripMalloyCommentsAndLiterals [] = []" by code_simp
  with assms(6) have ne: "query \<noteq> []" by (auto simp: extractRunTargetSourceName_def)
  have "resolveFilterSource m (Some query) = Some n"
    using assms(6,7) n' eq ne by (simp add: resolveFilterSource_def truthy_def Let_def)
  then have src: "filtered_source m q = Some n" using assms(3-5) ne by (simp add: filtered_source_def truthy_def)
  have "request_text q = Inr (nl # query)"
    using assms(3-5) ne by (auto simp: request_text_def truthy_def)
  with assms(1) have "with_filters m q (nl # query) = Inr queryString"
    by (cases "caller_guard q") (auto simp: compiled_text_def)
  with src assms(2,10-12) show ?thesis by (auto simp: with_filters_def truthy_def split: sum.splits)
qed

text \<open>A query that the request only names is compiled without filters, whatever source it reads.\<close>

lemma named_query_is_not_filtered:
  "\<not> truthy (reqSource q) \<Longrightarrow> truthy (reqName q) \<Longrightarrow> with_filters m q queryString = Inr queryString"
  by (simp add: with_filters_def filtered_source_def)

subsection \<open>Instances\<close>

text \<open>
  \<open>orders\<close> of \<open>Enforcement\<close>, gated and partitioned, in a package that could serve it from a stored copy.
\<close>

definition demo_engine :: Engine where
  "demo_engine = \<lparr>noteRouteOf = (\<lambda>t. if t = ''authorized'' then Some AUTHORIZE_ROUTE else if t = ''P'' then Some PARTITION_ROUTE else None),
     notePayloadOf = (\<lambda>t. if t = ''P'' then Some ''c = $G'' else Some ''authorized''), chainTexts = chain_note_texts,
     notesOfField = (\<lambda>_. None), registryEntries = [], localeOrder = (\<le>), readSource = (\<lambda>_. None), parseDate = (\<lambda>_. None),
     shapeCompiles = (\<lambda>_. True), loadRestricted = (\<lambda>_. demo_run),
     recompileOn = (\<lambda>_ m grafts. Inr (Some (demo_prepared (RefName ''orders'') (graftedFilters m)))),
     loadOnShape = (\<lambda>_ _. None), answersOnShape = (\<lambda>_ _ _. True), loadOnRollups = None, answersOnRollups = (\<lambda>_ _ _. False),
     prepare = (\<lambda>e. if ranMap e = None then Inr (Some 10) else Inl \<lparr>errCode = None, problemCodes = None, fromMalloy = False, errMessage = []\<rparr>),
     execute = (\<lambda>_ _. Inr \<lparr>totalRows = 1, responseText = Serialized ''rows''\<rparr>)\<rparr>"

definition demo_run_model :: RunModel where
  "demo_run_model = \<lparr>gateModel = demo_gate_model\<lparr>entryPointGatesBySource :=
       computeEntryPointGatesBySource demo_served (gate_reader demo_engine) (Some (demo_gated demo_givens))\<rparr>,
     servedModel = demo_served_model ''m.malloy'' [''orders''] [], modelError = None, runQueries = [], filterMap = [],
     shapeState = demo_state, shapeCache = None, storageOn = True, freshManifest = None, preaggregateIds = {}\<rparr>"

definition demo_run_request :: QueryRequest where
  "demo_run_request = \<lparr>reqSource = None, reqName = None, reqQuery = Some ''run: orders -> { select: a }'', reqFilters = None,
     bypassFilters = False, reqGivens = None, reqBypass = False, reqAborted = False\<rparr>"

definition demo_limits :: Limits where
  "demo_limits = \<lparr>defaultRows = 5, maxRows = 100, maxBytes = 1000\<rparr>"

lemma demo_results:
  obtains e r where "getQueryResults demo_served demo_engine demo_limits demo_run_model demo_run_request 0 = ([e], Inr r)"
    and "ranMap e = None" and "resultRows r = 1"
proof -
  have "(case getQueryResults demo_served demo_engine demo_limits demo_run_model demo_run_request 0 of
      (es, Inr r) \<Rightarrow> length es = 1 \<and> ranMap (hd es) = None \<and> resultRows r = 1 | _ \<Rightarrow> False)" by code_simp
  then show ?thesis using that by (auto split: prod.splits sum.splits simp: length_Suc_conv)
qed

lemma demo_served_soundly: "served_soundly demo_served demo_engine demo_run_model (demo_gated demo_givens)"
proof -
  have "CHR 0x1F \<notin> set e" if "parseAuthorizeAnnotation (noteRouteOf demo_engine) (notePayloadOf demo_engine) t = Inr (Some e)" for t e
  proof -
    have "js_trim ''authorized'' = ''authorized''" "js_trim ''c = $G'' = ''c = $G''" by code_simp+
    with that have "e = ''authorized'' \<or> e = ''c = $G''"
      by (auto simp: parseAuthorizeAnnotation_def authorizeNoteContent_def notePayload_def demo_engine_def split: if_splits)
    then show ?thesis by auto
  qed
  moreover have "\<forall>a < length demo_served. CHR 0x1F \<notin> set (source_label (demo_served ! a))"
    using demo_separable by (simp add: separable_def)
  ultimately have "separable demo_served (parseAuthorizeAnnotation (noteRouteOf demo_engine) (notePayloadOf demo_engine))"
    by (auto simp: separable_def)
  then show ?thesis
    by (simp add: served_soundly_def demo_run_model_def demo_gate_model_def whole_chain_self)
      (simp add: demo_engine_def whole_chain_self demo_gated_def)
qed

lemma demo_swept: "swept_target demo_served demo_engine (demo_gated demo_givens) 0 None"
  by code_simp

lemma demo_text: "compiled_text demo_run_model demo_run_request = Inr (nl # ''run: orders -> { select: a }'')"
  by code_simp

lemma demo_live: "resolveRunTargetStruct (Some (demo_gated demo_givens)) (loadRestricted demo_engine (nl # ''run: orders -> { select: a }''))
    = (Some 0, Some (demo_gated demo_givens), None)"
  using demo_target by (simp add: demo_engine_def demo_gate_model_def)

lemma executed_query_is_gated_witness:
  "\<exists>p exprs. filter_in_effect demo_served (Some (demo_gated demo_givens)) p (gateFilterText exprs)
     \<and> (''authorized'' \<in> set exprs \<or> exprs = [''false''])"
proof -
  let ?parse = "parseAuthorizeAnnotation (noteRouteOf demo_engine) (notePayloadOf demo_engine)"
  obtain e r where r: "getQueryResults demo_served demo_engine demo_limits demo_run_model demo_run_request 0 = ([e], Inr r)"
    by (rule demo_results)
  have rows: "rows_from demo_served (Some 0, Some (demo_gated demo_givens), None) 0"
    by (simp add: rows_from_def demo_served_def derives_self)
  have e: "e \<in> set [e]" and bypass: "\<not> reqBypass demo_run_request" by (simp_all add: demo_run_request_def)
  from executed_query_is_gated [OF r e bypass demo_text demo_served_soundly demo_live disjI2 [OF demo_swept] rows]
  obtain gates copied where gates: "struct_enforced demo_served (demo_gated demo_givens) ?parse gates 0 copied"
    "\<forall>g \<in> set gates. (\<exists>p. ranQuery e = Some p \<and> filter_in_effect demo_served (Some (demo_gated demo_givens)) p (gateFilterText (gateExprs g)))
      \<or> unreadable g \<and> \<not> any_note demo_served demo_engine demo_run_model" by blast
  have noted: "any_note demo_served demo_engine demo_run_model" by code_simp
  have parsed: "?parse ''authorized'' = Inr (Some ''authorized'')" by code_simp
  have "demo_note 0 ''authorized'' \<in> set (ownLevelNotes (annotations (demo_served ! 0)))"
    by (simp add: demo_served_def demo_struct_def ownLevelNotes_def)
  with gates(1) have "note_enforced ?parse gates (demo_note 0 ''authorized'')" unfolding struct_enforced_def by blast
  then have "\<exists>g \<in> set gates. ''authorized'' \<in> set (gateExprs g) \<or> gateExprs g = [''false'']"
    using parsed by (auto simp: note_enforced_def denies_def demo_note_def)
  with gates(2) noted show ?thesis by fastforce
qed

lemma executed_query_is_partitioned_witness:
  "\<exists>p. filter_in_effect demo_served (Some (demo_gated demo_givens)) p ''c = $G''"
proof -
  obtain e r where r: "getQueryResults demo_served demo_engine demo_limits demo_run_model demo_run_request 0 = ([e], Inr r)"
    by (rule demo_results)
  have e: "e \<in> set [e]" and bypass: "\<not> reqBypass demo_run_request" by (simp_all add: demo_run_request_def)
  have "resolveEntryPointPartitions demo_served (demo_gated demo_givens) (partition_reader demo_engine) (Some 0)
      = Inr [\<lparr>column = ''c'', given = ''G''\<rparr>]" by code_simp
  from executed_query_is_partitioned [OF r e bypass demo_text demo_served_soundly demo_live disjI2 [OF demo_swept] this, of "\<lparr>column = ''c'', given = ''G''\<rparr>"]
  show ?thesis by auto
qed

lemma execution_is_within_boundary_witness:
  "\<not> AUTHORIZE_ANNOTATION_ANYWHERE ''run: orders -> { select: a }''"
proof -
  obtain e r where r: "getQueryResults demo_served demo_engine demo_limits demo_run_model demo_run_request 0 = ([e], Inr r)"
    by (rule demo_results)
  from execution_is_within_boundary [OF r] show ?thesis by (simp add: demo_run_request_def truthy_def)
qed

text \<open>Served from the store, which fails, and then from the live source: the gates are bypassed.\<close>

definition demo_degrading :: RunModel where
  "demo_degrading = demo_run_model\<lparr>shapeState := demo_state\<lparr>serveBindings := [(demo_binding ''orders'' [])\<lparr>boundFallback := Some Live\<rparr>]\<rparr>\<rparr>"

definition demo_failing_store :: Engine where
  "demo_failing_store = demo_engine\<lparr>prepare := (\<lambda>_. Inr None),
     execute := (\<lambda>e _. if ranMap e = None then Inr \<lparr>totalRows = 1, responseText = Serialized ''rows''\<rparr>
       else Inl \<lparr>errCode = None, problemCodes = None, fromMalloy = True, errMessage = ''store''\<rparr>)\<rparr>"

lemma demo_degrades:
  obtains e e' r where "getQueryResults demo_served demo_failing_store demo_limits demo_degrading (demo_run_request\<lparr>reqBypass := True\<rparr>) 0
    = ([e, e'], Inr r)" and "servedFrom r = Some From_live_fallback"
proof -
  have "(case getQueryResults demo_served demo_failing_store demo_limits demo_degrading (demo_run_request\<lparr>reqBypass := True\<rparr>) 0 of
      (es, Inr r) \<Rightarrow> length es = 2 \<and> servedFrom r = Some From_live_fallback | _ \<Rightarrow> False)" by code_simp
  then show ?thesis using that by (auto split: prod.splits sum.splits simp: length_Suc_conv numeral_2_eq_2)
qed

lemma store_failure_retried_once_witness:
  "\<exists>(e :: Execution) (e' :: Execution). ranMap e \<noteq> None \<and> ranGivens e = None
     \<and> ranGivens e' = filterGivensToModelSurface (gateModel demo_degrading) None
     \<and> ranQuery e' = loadRestricted demo_failing_store (nl # ''run: orders -> { select: a }'')"
proof -
  obtain e e' r where r: "getQueryResults demo_served demo_failing_store demo_limits demo_degrading (demo_run_request\<lparr>reqBypass := True\<rparr>) 0
    = ([e, e'], Inr r)" by (rule demo_degrades)
  note c = store_failure_retried_once [OF r]
  have all: "ranGivens x = (if ranMap x \<noteq> None then None else filterGivensToModelSurface (gateModel demo_degrading) None)"
    if "x \<in> {e, e'}" for x
    using conjunct1 [OF conjunct2 [OF c]] that by (auto simp: demo_run_request_def split: if_splits)
  from conjunct1 [OF conjunct2 [OF conjunct2 [OF c]]] obtain queryString where
      two: "ranMap e \<noteq> None" "compiled_text demo_degrading (demo_run_request\<lparr>reqBypass := True\<rparr>) = Inr queryString"
      "e' = execution_for demo_degrading (demo_run_request\<lparr>reqBypass := True\<rparr>) RouteLive (loadRestricted demo_failing_store queryString)"
    by auto
  have "compiled_text demo_degrading (demo_run_request\<lparr>reqBypass := True\<rparr>) = Inr (nl # ''run: orders -> { select: a }'')" by code_simp
  with two all [of e] all [of e'] show ?thesis by (intro exI [of _ e] exI [of _ e']) (simp add: execution_for_def)
qed

lemma answer_within_limits_witness:
  "\<exists>es r. getQueryResults demo_served demo_engine demo_limits demo_run_model demo_run_request 0 = (es, Inr r)
     \<and> resultRows r \<le> 100 \<and> rowLimit r \<le> 101 \<and> utf8_length (resultText r) \<le> 1000"
proof -
  obtain e r where r: "getQueryResults demo_served demo_engine demo_limits demo_run_model demo_run_request 0 = ([e], Inr r)"
    by (rule demo_results)
  from answer_within_limits [OF r] have "resultRows r \<le> 100 \<and> rowLimit r \<le> 101 \<and> utf8_length (resultText r) \<le> 1000"
    by (simp add: demo_limits_def)
  with r show ?thesis by blast
qed

definition demo_alias_request :: QueryRequest where
  "demo_alias_request = demo_run_request\<lparr>reqQuery := Some ''source: mine is orders extend {} run: mine -> { select: a }'',
     reqFilters := Some [''region'' \<mapsto> Scalar ''EU'']\<rparr>"

definition demo_region :: FilterDefinition where
  "demo_region = \<lparr>fname = ''region'', dimension = ''region'', ftype = Equal, implicit = False, required = True\<rparr>"

definition demo_filtered_model :: RunModel where
  "demo_filtered_model = demo_run_model\<lparr>filterMap := [(''orders'', [demo_region])]\<rparr>"

text \<open>With an unfiltered source in a first \<open>run:\<close>, the second one is compiled without its required filter.\<close>

lemma later_run_is_not_filtered:
  "compiled_text demo_filtered_model (demo_run_request\<lparr>reqQuery := Some ''run: open -> { select: a } run: orders -> { select: a }''\<rparr>)
   = Inr (nl # ''run: open -> { select: a } run: orders -> { select: a }'')
   \<and> (\<exists>e. compiled_text demo_filtered_model (demo_run_request\<lparr>reqQuery := Some ''run: orders -> { select: a }''\<rparr>) = Inl e)"
proof
  show "compiled_text demo_filtered_model (demo_run_request\<lparr>reqQuery := Some ''run: open -> { select: a } run: orders -> { select: a }''\<rparr>)
   = Inr (nl # ''run: open -> { select: a } run: orders -> { select: a }'')" by code_simp
  have "isl (compiled_text demo_filtered_model (demo_run_request\<lparr>reqQuery := Some ''run: orders -> { select: a }''\<rparr>))" by code_simp
  then show "\<exists>e. compiled_text demo_filtered_model (demo_run_request\<lparr>reqQuery := Some ''run: orders -> { select: a }''\<rparr>) = Inl e"
    by (auto simp: isl_def)
qed

lemma derived_query_is_filtered_witness:
  "\<exists>clause queryString. buildFilterClause [demo_region] [''region'' \<mapsto> Scalar ''EU''] = Inr clause
     \<and> compiled_text demo_filtered_model demo_alias_request = Inr queryString
     \<and> queryString = injectFilterRefinement (nl # ''source: mine is orders extend {} run: mine -> { select: a }'') clause"
proof -
  let ?q = "''source: mine is orders extend {} run: mine -> { select: a }''"
  have "(case compiled_text demo_filtered_model demo_alias_request of Inr _ \<Rightarrow> True | Inl _ \<Rightarrow> False)" by code_simp
  then obtain t where t: "compiled_text demo_filtered_model demo_alias_request = Inr t" by (auto split: sum.splits)
  have al: "buildSourceAliasMap (stripMalloyCommentsAndLiterals ?q) = [(''mine'', ''orders'')]" by code_simp
  have target: "extractRunTargetSourceName (Some (stripMalloyCommentsAndLiterals ?q)) = Some ''mine''" by code_simp
  have reach: "alias_reaches [(''mine'', ''orders'')] (fst ` set (filterMap demo_filtered_model)) ''mine'' ''orders''"
    by (rule alias_step [OF alias_target]) (simp_all add: demo_filtered_model_def)
  from derived_query_is_filtered [OF t, of ?q "''mine''" "''orders''" "[demo_region]"] target reach al t show ?thesis
    by (simp add: demo_alias_request_def demo_run_request_def truthy_def demo_filtered_model_def)
qed

end
