(* ===== verification/Additivity.thy ===== *)
theory Additivity
  imports GateWalk
begin

text \<open>
  Whether the stored partials of a measure can be merged (\<open>service/preaggregation_classifier.ts\<close>): the
  compiled expression, the walk over it, the classification, and the meaning of an aggregate it is measured
  against. The detail of a refusal is a constructor with the values it quotes.
\<close>

subsection \<open>Can stored partials be merged\<close>

text \<open>
  A compiled expression: the tag of its node, the function it names, the join path it is computed at (empty
  on the source's own rows), its expression type, the expression under \<open>e\<close> and those under \<open>kids\<close>, each of
  which is one expression, an array, or absent.
\<close>

datatype Expr =
  Node (nodeTag: string) (nodeFunction: string) (structPath: "string list") (nodeType: "string option") (inner: "Expr option") (kids: "(string \<times> Kid) list")
and Kid = OneKid Expr | ManyKids "Expr list" | NoKid

record Findings =
  aggregates :: "string list"
  filtered :: nat
  ungrouped :: bool
  analytic :: bool

definition visit :: "Expr \<Rightarrow> Findings \<Rightarrow> Findings" where
  "visit n found =
     (if nodeTag n = ''aggregate'' then found\<lparr>aggregates := aggregates found @ [nodeFunction n]\<rparr>
      else if nodeTag n = ''filteredExpr'' then found\<lparr>filtered := filtered found + 1\<rparr>
      else if nodeTag n = ''all'' \<or> nodeTag n = ''exclude'' then found\<lparr>ungrouped := True\<rparr>
      else if nodeTag n = ''function_call''
        \<and> (nodeType n = Some ''scalar_analytic'' \<or> nodeType n = Some ''aggregate_analytic'') then found\<lparr>analytic := True\<rparr>
      else found)"

text \<open>The nodes in the order the walk visits them: a node, what is under \<open>e\<close>, then the kids in order.\<close>

primrec nodes :: "Expr \<Rightarrow> Expr list" and kid_nodes :: "Kid \<Rightarrow> Expr list" where
  "nodes (Node t f p ty e ks) = Node t f p ty e ks
     # (case map_option nodes e of Some ns \<Rightarrow> ns | None \<Rightarrow> [])
     @ concat (map snd (map (map_prod id kid_nodes) ks))"
| "kid_nodes (OneKid e) = nodes e"
| "kid_nodes (ManyKids es) = concat (map nodes es)"
| "kid_nodes NoKid = []"

definition walk_expr :: "Expr \<Rightarrow> Findings" where
  "walk_expr e = fold visit (nodes e) \<lparr>aggregates = [], filtered = 0, ungrouped = False, analytic = False\<rparr>"

datatype NonAdditiveReason =
  Not_an_aggregate | No_expression | Unsupported_aggregate string | No_aggregate_found | Multiple_aggregates nat
| Aggregate_not_at_root | Filtered_aggregate | Ungrouped_aggregate | Requires_group_by | Analytic

datatype AdditivityResult = Additive string string | NonAdditive NonAdditiveReason

definition REAGGREGATE :: "string \<Rightarrow> string" where
  "REAGGREGATE fn = (if fn = ''sum'' \<or> fn = ''count'' then ''sum'' else fn)"

definition isAdditiveAggregate :: "string \<Rightarrow> bool" where
  "isAdditiveAggregate fn \<longleftrightarrow> fn \<in> {''sum'', ''count'', ''min'', ''max''}"

text \<open>
  A field of a compiled source, as preaggregation reads it. \<open>requiresGroupBy\<close> and \<open>ungroupings\<close> are the
  lengths of those arrays, \<open>accessModifier\<close> is \<open>None\<close> for null and undefined.
\<close>

record FieldLike =
  fieldOwnName :: string
  fieldAs :: "string option"
  fieldType :: "string option"
  fieldJoin :: "string option"
  expressionType :: "string option"
  fieldNotes :: "AnnotationsDef option"
  accessModifier :: "string option"
  fieldExpr :: "Expr option"
  requiresGroupBy :: nat
  ungroupings :: nat

definition fieldName :: "FieldLike \<Rightarrow> string" where
  "fieldName f = (case fieldAs f of Some n \<Rightarrow> n | None \<Rightarrow> fieldOwnName f)"

text \<open>A filter is accepted at the expr only, directly over the aggregate, with scalar conditions.\<close>

definition filtered_root :: "Expr \<Rightarrow> (Expr \<times> Expr list) option" where
  "filtered_root expr =
     (if nodeTag expr = ''filteredExpr'' then
        (case (map_of (kids expr) ''e'', map_of (kids expr) ''filterList'') of
           (Some (OneKid a), Some (ManyKids cs)) \<Rightarrow>
             if nodeTag a = ''aggregate'' \<and> list_all (\<lambda>c. nodeType c = Some ''scalar'') cs then Some (a, cs) else None
         | _ \<Rightarrow> None)
      else None)"

definition aggregate_root :: "Findings \<Rightarrow> Expr \<Rightarrow> Expr option" where
  "aggregate_root found expr =
     (if 0 < filtered found then (if filtered found \<noteq> 1 then None else map_option fst (filtered_root expr))
      else Some expr)"

definition classify_expr :: "Expr \<Rightarrow> AdditivityResult" where
  "classify_expr e =
     (let found = walk_expr e in
      if ungrouped found then NonAdditive Ungrouped_aggregate
      else if analytic found then NonAdditive Analytic
      else case aggregate_root found e of
        None \<Rightarrow> NonAdditive Filtered_aggregate
      | Some expr \<Rightarrow>
          if aggregates found = [] then NonAdditive No_aggregate_found
          else if 1 < length (aggregates found) then NonAdditive (Multiple_aggregates (length (aggregates found)))
          else if nodeTag expr \<noteq> ''aggregate'' then NonAdditive Aggregate_not_at_root
          else if \<not> isAdditiveAggregate (nodeFunction expr) then NonAdditive (Unsupported_aggregate (nodeFunction expr))
          else Additive (nodeFunction expr) (REAGGREGATE (nodeFunction expr)))"

definition classifyMeasureAdditivity :: "FieldLike \<Rightarrow> AdditivityResult" where
  "classifyMeasureAdditivity m =
     (if expressionType m = Some ''ungrouped_aggregate'' then NonAdditive Ungrouped_aggregate
      else if expressionType m = Some ''scalar_analytic'' \<or> expressionType m = Some ''aggregate_analytic'' then NonAdditive Analytic
      else if expressionType m \<noteq> Some ''aggregate'' then NonAdditive Not_an_aggregate
      else if 0 < requiresGroupBy m then NonAdditive Requires_group_by
      else if 0 < ungroupings m then NonAdditive Ungrouped_aggregate
      else case fieldExpr m of None \<Rightarrow> NonAdditive No_expression | Some e \<Rightarrow> classify_expr e)"

subsection \<open>What an aggregate means\<close>

text \<open>
  The reference the classification is measured against: the value of an aggregate over a list of rows, as
  SQL computes it, \<open>sum\<close> wrapped in COALESCE. Nulls are \<open>None\<close>. The rows are those of the source with its
  joins: \<open>locate path r\<close> tells which record of the source at that join path the row stands on, \<open>None\<close> if the join
  found none. As Malloy documents of its aggregates, a record is counted once however many rows stand on it.
  The value of an expression and the truth of a condition in a row are arguments too.
\<close>

definition aggregate_of :: "string \<Rightarrow> 'v::linordered_idom option list \<Rightarrow> 'v option" where
  "aggregate_of fn vs =
     (if fn = ''sum'' then Some (sum_list (somes vs))
      else if fn = ''count'' then Some (of_nat (length vs))
      else if fn = ''min'' \<and> somes vs \<noteq> [] then Some (Min (set (somes vs)))
      else if fn = ''max'' \<and> somes vs \<noteq> [] then Some (Max (set (somes vs)))
      else None)"

fun each_once :: "('r \<Rightarrow> 'i option) \<Rightarrow> 'r list \<Rightarrow> 'r list" where
  "each_once key [] = []"
| "each_once key (r # rs) = (if key r = None \<or> key r \<in> key ` set rs then each_once key rs else r # each_once key rs)"

definition argument :: "(Expr \<Rightarrow> 'r \<Rightarrow> 'v option) \<Rightarrow> Expr \<Rightarrow> 'r \<Rightarrow> 'v option" where
  "argument value a r = (case inner a of Some x \<Rightarrow> value x r | None \<Rightarrow> None)"

definition direct_value :: "(string list \<Rightarrow> 'r \<Rightarrow> 'i option) \<Rightarrow> (Expr \<Rightarrow> 'r \<Rightarrow> 'v::linordered_idom option) \<Rightarrow> Expr \<Rightarrow> 'r list \<Rightarrow> 'v option" where
  "direct_value locate value a rows =
     aggregate_of (nodeFunction a) (map (argument value a) (each_once (locate (structPath a)) rows))"

definition measure_value :: "(string list \<Rightarrow> 'r \<Rightarrow> 'i option) \<Rightarrow> (Expr \<Rightarrow> 'r \<Rightarrow> 'v::linordered_idom option) \<Rightarrow> (Expr \<Rightarrow> 'r \<Rightarrow> bool)
    \<Rightarrow> Expr \<Rightarrow> 'r list \<Rightarrow> 'v option" where
  "measure_value locate value holds e rows =
     (case filtered_root e of
        Some (a, cs) \<Rightarrow> direct_value locate value a (List.filter (\<lambda>r. list_all (\<lambda>c. holds c r) cs) rows)
      | None \<Rightarrow> direct_value locate value e rows)"

text \<open>
  No record is counted twice by counting rows: no two rows stand on one record at the aggregate's path, or
  the aggregate is an extremum of something the record determines.
\<close>

definition counted_once :: "(string list \<Rightarrow> 'r \<Rightarrow> 'i option) \<Rightarrow> (Expr \<Rightarrow> 'r \<Rightarrow> 'v option) \<Rightarrow> Expr \<Rightarrow> 'r list \<Rightarrow> bool" where
  "counted_once locate value a rows \<longleftrightarrow> distinct (somes (map (locate (structPath a)) rows))
     \<or> nodeFunction a \<in> {''min'', ''max''} \<and> (\<forall>r \<in> set rows. \<forall>s \<in> set rows.
         locate (structPath a) r = locate (structPath a) s \<longrightarrow> argument value a r = argument value a s)"

lemma each_once_distinct:
  "distinct (somes (map key rs)) \<Longrightarrow> each_once key rs = List.filter (\<lambda>r. key r \<noteq> None) rs"
proof (induction rs)
  case (Cons r rs)
  show ?case
  proof (cases "key r")
    case (Some i)
    with Cons.prems have "Some i \<notin> key ` set rs" by (auto simp: set_somes image_iff)
    with Some Cons show ?thesis by simp
  qed (use Cons in simp)
qed simp

lemma each_once_keys: "key ` set (each_once key rs) = {k. k \<noteq> None \<and> k \<in> key ` set rs} \<and> set (each_once key rs) \<subseteq> set rs"
  by (induction rs) auto

lemma aggregate_of_set: "fn \<in> {''min'', ''max''} \<Longrightarrow> set vs = set ws \<Longrightarrow> aggregate_of fn vs = aggregate_of fn ws"
proof -
  assume fn: "fn \<in> {''min'', ''max''}" and "set vs = set ws"
  then have "set (somes vs) = set (somes ws)" by (simp add: set_somes)
  moreover from this have "somes vs = [] \<longleftrightarrow> somes ws = []" by (metis set_empty)
  ultimately show ?thesis using fn by (auto simp: aggregate_of_def)
qed

lemma distinct_somes_filter: "distinct (somes (map key rs)) \<Longrightarrow> distinct (somes (map key (List.filter q rs)))"
proof (induction rs)
  case (Cons r rs)
  then show ?case by (cases "key r") (auto simp: set_somes)
qed simp

lemma counted_once_filter: "counted_once locate value a rows \<Longrightarrow> counted_once locate value a (List.filter q rows)"
  unfolding counted_once_def using distinct_somes_filter by fastforce

text \<open>Then the aggregate is the one of the rows that stand on a record.\<close>

lemma direct_value_rows:
  assumes "counted_once locate value a rows"
  shows "direct_value locate value a rows
    = aggregate_of (nodeFunction a) (map (argument value a) (List.filter (\<lambda>r. locate (structPath a) r \<noteq> None) rows))"
proof (cases "distinct (somes (map (locate (structPath a)) rows))")
  case True
  then show ?thesis by (simp add: direct_value_def each_once_distinct)
next
  case False
  let ?key = "locate (structPath a)"
  from False assms have fn: "nodeFunction a \<in> {''min'', ''max''}"
    and same: "\<forall>r \<in> set rows. \<forall>s \<in> set rows. ?key r = ?key s \<longrightarrow> argument value a r = argument value a s"
    unfolding counted_once_def by blast+
  have "argument value a r \<in> argument value a ` set (each_once ?key rows)" if "r \<in> set rows" "?key r \<noteq> None" for r
  proof -
    from that each_once_keys [of ?key rows] have "?key r \<in> ?key ` set (each_once ?key rows)" by blast
    then obtain s where "s \<in> set (each_once ?key rows)" "?key s = ?key r" by force
    moreover from this each_once_keys [of ?key rows] have "s \<in> set rows" by blast
    ultimately show ?thesis using same that(1) by (metis image_eqI)
  qed
  moreover have "s \<in> set rows \<and> ?key s \<noteq> None" if "s \<in> set (each_once ?key rows)" for s
    using that each_once_keys [of ?key rows] by blast
  ultimately have "set (map (argument value a) (each_once ?key rows))
      = set (map (argument value a) (List.filter (\<lambda>r. ?key r \<noteq> None) rows))" by auto
  then show ?thesis unfolding direct_value_def by (rule aggregate_of_set [OF fn])
qed

text \<open>A rollup at a grain: one row per value of the grain, with the partial of the agg.\<close>

definition rollup_table :: "('r list \<Rightarrow> 'v option) \<Rightarrow> ('r \<Rightarrow> 'k) \<Rightarrow> 'r list \<Rightarrow> ('k \<times> 'v option) list" where
  "rollup_table agg grain rows =
     map (\<lambda>k. (k, agg (List.filter (\<lambda>r. grain r = k) rows))) (remdups (map grain rows))"

lemma sum_list_somes_append: "sum_list (somes (xs @ ys)) = sum_list (somes xs) + sum_list (somes (ys :: 'v::linordered_idom option list))"
  by (induction xs rule: somes.induct) (simp_all add: add.assoc)

lemma sum_list_parts:
  fixes h :: "'r \<Rightarrow> 'v::linordered_idom"
  assumes "distinct ks" and "\<And>r. r \<in> set rows \<Longrightarrow> g r \<in> set ks"
  shows "sum_list (map (\<lambda>k. sum_list (map h (List.filter (\<lambda>r. g r = k) rows))) ks) = sum_list (map h rows)"
  using assms(2)
proof (induction rows)
  case Nil
  show ?case by simp
next
  case (Cons r rows)
  have one: "sum_list (map (\<lambda>k. if g r = k then h r else 0) ks) = h r"
    using assms(1) Cons.prems [of r] by (simp add: sum_list_distinct_conv_sum_set)
  have "sum_list (map (\<lambda>k. sum_list (map h (List.filter (\<lambda>r. g r = k) (r # rows)))) ks)
      = sum_list (map (\<lambda>k. (if g r = k then h r else 0) + sum_list (map h (List.filter (\<lambda>r. g r = k) rows))) ks)"
    by (rule arg_cong [where f = sum_list]) simp
  also have "\<dots> = h r + sum_list (map h rows)"
    using Cons one by (simp add: sum_list_addf)
  finally show ?case by simp
qed

lemma sum_list_somes: "sum_list (somes vs) = sum_list (map (\<lambda>v. case v of Some x \<Rightarrow> x | None \<Rightarrow> 0) (vs :: 'v::linordered_idom option list))"
  by (induction vs rule: somes.induct) simp_all

lemma Min_of_parts:
  fixes V :: "'k \<Rightarrow> 'v::linorder set"
  assumes "finite K" and "\<And>k. finite (V k)" and "\<Union> (V ` K) \<noteq> {}"
  shows "Min (Min ` V ` {k \<in> K. V k \<noteq> {}}) = Min (\<Union> (V ` K))"
proof (rule Min_eqI)
  have U: "finite (\<Union> (V ` K))" using assms by simp
  show "finite (Min ` V ` {k \<in> K. V k \<noteq> {}})" using assms by simp
  show "Min (\<Union> (V ` K)) \<le> y" if "y \<in> Min ` V ` {k \<in> K. V k \<noteq> {}}" for y
  proof -
    from that obtain k where k: "k \<in> K" "V k \<noteq> {}" "y = Min (V k)" by auto
    then have "y \<in> V k" using assms(2) Min_in by simp
    with k(1) show ?thesis by (auto intro: Min_le [OF U])
  qed
  obtain k where k: "k \<in> K" "Min (\<Union> (V ` K)) \<in> V k" using Min_in [OF U assms(3)] by auto
  then have "Min (V k) = Min (\<Union> (V ` K))"
    by (intro Min_eqI assms(2)) (auto intro: Min_le [OF U])
  moreover have "k \<in> {k \<in> K. V k \<noteq> {}}" using k by auto
  ultimately show "Min (\<Union> (V ` K)) \<in> Min ` V ` {k \<in> K. V k \<noteq> {}}" by (metis image_eqI)
qed

lemma Max_of_parts:
  fixes V :: "'k \<Rightarrow> 'v::linorder set"
  assumes "finite K" and "\<And>k. finite (V k)" and "\<Union> (V ` K) \<noteq> {}"
  shows "Max (Max ` V ` {k \<in> K. V k \<noteq> {}}) = Max (\<Union> (V ` K))"
proof (rule Max_eqI)
  have U: "finite (\<Union> (V ` K))" using assms by simp
  show "finite (Max ` V ` {k \<in> K. V k \<noteq> {}})" using assms by simp
  show "y \<le> Max (\<Union> (V ` K))" if "y \<in> Max ` V ` {k \<in> K. V k \<noteq> {}}" for y
  proof -
    from that obtain k where k: "k \<in> K" "V k \<noteq> {}" "y = Max (V k)" by auto
    then have "y \<in> V k" using assms(2) Max_in by simp
    with k(1) show ?thesis by (auto intro: Max_ge [OF U])
  qed
  obtain k where k: "k \<in> K" "Max (\<Union> (V ` K)) \<in> V k" using Max_in [OF U assms(3)] by auto
  then have "Max (V k) = Max (\<Union> (V ` K))"
    by (intro Max_eqI assms(2)) (auto intro: Max_ge [OF U])
  moreover have "k \<in> {k \<in> K. V k \<noteq> {}}" using k by auto
  ultimately show "Max (\<Union> (V ` K)) \<in> Max ` V ` {k \<in> K. V k \<noteq> {}}" by (metis image_eqI)
qed

text \<open>
  Merging an extremum \<open>ext\<close> of non-empty sets: nulls are ignored, and a group without a value has none.
\<close>

lemma extremum_merge:
  fixes ext :: "'v set \<Rightarrow> 'v"
  assumes parts: "\<And>k. part k = (if V k = {} then None else Some (ext (V k)))"
    and union: "set (somes vs) = \<Union> (V ` set ks)"
    and ext: "\<Union> (V ` set ks) \<noteq> {} \<Longrightarrow> ext (ext ` V ` {k \<in> set ks. V k \<noteq> {}}) = ext (\<Union> (V ` set ks))"
  shows "(if somes (map part ks) = [] then None else Some (ext (set (somes (map part ks)))))
       = (if somes vs = [] then None else Some (ext (set (somes vs))))"
proof -
  have S: "set (somes (map part ks)) = ext ` V ` {k \<in> set ks. V k \<noteq> {}}"
    by (auto simp: set_somes parts image_iff)
  have "somes (map part ks) = [] \<longleftrightarrow> \<Union> (V ` set ks) = {}" by (simp flip: set_empty add: S) blast
  moreover have "somes vs = [] \<longleftrightarrow> \<Union> (V ` set ks) = {}" by (simp flip: set_empty add: union)
  ultimately show ?thesis using S union ext by auto
qed

text \<open>Grouping, then merging with the function the classifier answers, is aggregating once.\<close>

lemma partials_merge:
  fixes val :: "'r \<Rightarrow> 'v::linordered_idom option"
  assumes fn: "isAdditiveAggregate fn" and ks: "distinct ks" "\<And>r. r \<in> set rows \<Longrightarrow> g r \<in> set ks"
    and part: "\<And>k. part k = aggregate_of fn (map val (List.filter p (List.filter (\<lambda>r. g r = k) rows)))"
  shows "aggregate_of (REAGGREGATE fn) (map part ks) = aggregate_of fn (map val (List.filter p rows))"
proof -
  let ?R = "List.filter p rows"
  have swap: "List.filter p (List.filter (\<lambda>r. g r = k) rows) = List.filter (\<lambda>r. g r = k) ?R" for k
    by (simp add: conj_commute)
  have part: "part k = aggregate_of fn (map val (List.filter (\<lambda>r. g r = k) ?R))" for k
    by (simp only: part swap)
  have cover: "g r \<in> set ks" if "r \<in> set ?R" for r using that ks(2) by auto
  define V where "V k = set (somes (map val (List.filter (\<lambda>r. g r = k) ?R)))" for k
  have all: "set (somes (map val ?R)) = \<Union> (V ` set ks)"
    using cover by (force simp: V_def set_somes image_iff)
  consider "fn = ''sum''" | "fn = ''count''" | "fn = ''min''" | "fn = ''max''"
    using fn by (auto simp: isAdditiveAggregate_def)
  then show ?thesis
  proof cases
    case 1
    have "sum_list (map (\<lambda>k. sum_list (somes (map val (List.filter (\<lambda>r. g r = k) ?R)))) ks) = sum_list (somes (map val ?R))"
      using sum_list_parts [of ks ?R g "\<lambda>r. case val r of Some x \<Rightarrow> x | None \<Rightarrow> 0", OF ks(1) cover]
      by (simp add: sum_list_somes comp_def)
    then show ?thesis
      using 1 by (simp add: part aggregate_of_def REAGGREGATE_def sum_list_somes comp_def)
  next
    case 2
    have "sum_list (map (\<lambda>k. of_nat (length (List.filter (\<lambda>r. g r = k) ?R))) ks) = (of_nat (length ?R) :: 'v)"
      using sum_list_parts [of ks ?R g "\<lambda>r. (1::'v)", OF ks(1) cover] by (simp add: sum_list_triv)
    then show ?thesis
      using 2 by (simp add: part aggregate_of_def REAGGREGATE_def sum_list_somes comp_def)
  next
    case 3
    have "aggregate_of fn vs = (if somes vs = [] then None else Some (Min (set (somes vs))))" for vs :: "'v option list"
      using 3 by (simp add: aggregate_of_def)
    moreover have "REAGGREGATE fn = fn" using 3 by (simp add: REAGGREGATE_def)
    ultimately show ?thesis
      using extremum_merge [where ext = Min and part = part, OF _ all Min_of_parts] by (simp add: part V_def)
  next
    case 4
    have "aggregate_of fn vs = (if somes vs = [] then None else Some (Max (set (somes vs))))" for vs :: "'v option list"
      using 4 by (simp add: aggregate_of_def)
    moreover have "REAGGREGATE fn = fn" using 4 by (simp add: REAGGREGATE_def)
    ultimately show ?thesis
      using extremum_merge [where ext = Max and part = part, OF _ all Max_of_parts] by (simp add: part V_def)
  qed
qed

subsection \<open>What the classifier promises\<close>

definition analytic_call :: "Expr \<Rightarrow> bool" where
  "analytic_call n \<longleftrightarrow> nodeTag n = ''function_call'' \<and> nodeType n \<in> {Some ''scalar_analytic'', Some ''aggregate_analytic''}"

text \<open>A node that means the same in every grouping: no aggregate, filter, ungrouping or window.\<close>

definition row_level :: "Expr \<Rightarrow> bool" where
  "row_level n \<longleftrightarrow> nodeTag n \<notin> {''aggregate'', ''filteredExpr'', ''all'', ''exclude''} \<and> \<not> analytic_call n"

definition tagged :: "string \<Rightarrow> Expr list \<Rightarrow> Expr list" where
  "tagged t ns = List.filter (\<lambda>n. nodeTag n = t) ns"

lemma tagged_simps [simp]:
  "tagged t [] = []" "tagged t (n # ns) = (if nodeTag n = t then n # tagged t ns else tagged t ns)"
  "tagged t (ns @ ms) = tagged t ns @ tagged t ms"
  by (simp_all add: tagged_def)

lemma fold_visit:
  "aggregates (fold visit ns f) = aggregates f @ map nodeFunction (tagged ''aggregate'' ns)
   \<and> filtered (fold visit ns f) = filtered f + length (tagged ''filteredExpr'' ns)
   \<and> (ungrouped (fold visit ns f) \<longleftrightarrow> ungrouped f \<or> (\<exists>n \<in> set ns. nodeTag n \<in> {''all'', ''exclude''}))
   \<and> (analytic (fold visit ns f) \<longleftrightarrow> analytic f \<or> (\<exists>n \<in> set ns. analytic_call n))"
proof (induction ns arbitrary: f)
  case Nil
  show ?case by simp
next
  case (Cons n ns)
  show ?case using Cons.IH [of "visit n f"] by (auto simp: visit_def analytic_call_def)
qed

lemma walk_expr:
  "aggregates (walk_expr e) = map nodeFunction (tagged ''aggregate'' (nodes e))"
  "filtered (walk_expr e) = length (tagged ''filteredExpr'' (nodes e))"
  "ungrouped (walk_expr e) \<longleftrightarrow> (\<exists>n \<in> set (nodes e). nodeTag n \<in> {''all'', ''exclude''})"
  "analytic (walk_expr e) \<longleftrightarrow> (\<exists>n \<in> set (nodes e). analytic_call n)"
  using fold_visit [of "nodes e" "\<lparr>aggregates = [], filtered = 0, ungrouped = False, analytic = False\<rparr>"]
  by (simp_all add: walk_expr_def)

lemma nodes_unfold:
  "nodes e = e # (case inner e of Some x \<Rightarrow> nodes x | None \<Rightarrow> []) @ concat (map (kid_nodes \<circ> snd) (kids e))"
  by (cases e) (auto simp: comp_def split: option.split)

lemma nodes_Cons: "\<exists>ns. nodes e = e # ns"
  using nodes_unfold [of e] by blast

lemma nodes_inner: "inner e = Some x \<Longrightarrow> \<exists>ns. nodes e = e # nodes x @ ns"
  using nodes_unfold [of e] by simp

lemma nodes_kid: "(k, OneKid a) \<in> set (kids e) \<Longrightarrow> \<exists>ms ns. nodes e = e # ms @ nodes a @ ns"
proof -
  assume "(k, OneKid a) \<in> set (kids e)"
  then obtain us vs where "kids e = us @ (k, OneKid a) # vs" by (meson split_list)
  then have "nodes e = e # ((case inner e of Some x \<Rightarrow> nodes x | None \<Rightarrow> []) @ concat (map (kid_nodes \<circ> snd) us))
      @ nodes a @ concat (map (kid_nodes \<circ> snd) vs)"
    using nodes_unfold [of e] by simp
  then show ?thesis by blast
qed

definition aggregate_node :: "Expr \<Rightarrow> Expr" where
  "aggregate_node e = (case filtered_root e of Some (a, cs) \<Rightarrow> a | None \<Rightarrow> e)"

lemma filtered_root_Some:
  "filtered_root e = Some (a, cs) \<Longrightarrow> nodeTag e = ''filteredExpr'' \<and> (''e'', OneKid a) \<in> set (kids e) \<and> nodeTag a = ''aggregate''"
  by (auto simp: filtered_root_def split: if_splits option.splits Kid.splits dest: map_of_SomeD)

lemma classified_additive:
  assumes "classifyMeasureAdditivity m = Additive fn re" and e: "fieldExpr m = Some e"
  shows "isAdditiveAggregate fn \<and> re = REAGGREGATE fn \<and> nodeFunction (aggregate_node e) = fn
    \<and> nodeTag (aggregate_node e) = ''aggregate''
    \<and> length (tagged ''aggregate'' (nodes e)) = 1 \<and> length (tagged ''filteredExpr'' (nodes e)) = (if filtered_root e = None then 0 else 1)
    \<and> (\<forall>n \<in> set (nodes e). nodeTag n \<notin> {''all'', ''exclude''} \<and> \<not> analytic_call n)"
proof -
  have "classify_expr e = Additive fn re"
    using assms by (simp add: classifyMeasureAdditivity_def split: if_splits)
  then obtain r where r: "aggregate_root (walk_expr e) e = Some r" "\<not> ungrouped (walk_expr e)" "\<not> analytic (walk_expr e)"
      "length (aggregates (walk_expr e)) = 1" "nodeTag r = ''aggregate''" "isAdditiveAggregate (nodeFunction r)"
      "fn = nodeFunction r" "re = REAGGREGATE fn"
    by (auto simp: classify_expr_def Let_def split: if_splits option.splits) (metis One_nat_def Suc_lessI length_greater_0_conv)
  have "aggregate_node e = r \<and> filtered (walk_expr e) = (if filtered_root e = None then 0 else 1)"
  proof (cases "filtered (walk_expr e) = 0")
    case True
    with r(1) have "r = e" by (simp add: aggregate_root_def)
    moreover from this r(5) have "filtered_root e = None" by (simp add: filtered_root_def)
    ultimately show ?thesis using True by (simp add: aggregate_node_def)
  next
    case False
    with r(1) show ?thesis by (auto simp: aggregate_root_def aggregate_node_def split: if_splits)
  qed
  with r show ?thesis by (auto simp: walk_expr)
qed

lemma below_aggregate_row_level:
  assumes c: "classifyMeasureAdditivity m = Additive fn re" "fieldExpr m = Some e"
    and x: "inner (aggregate_node e) = Some x" and n: "n \<in> set (nodes x)"
  shows "row_level n"
proof -
  note cl = classified_additive [OF c]
  have *: "tagged t (nodes x) = [] \<Longrightarrow> nodeTag n \<noteq> t" for t
    using n by (auto simp: tagged_def filter_empty_conv)
  obtain ns where a: "nodes (aggregate_node e) = aggregate_node e # nodes x @ ns" using nodes_inner [OF x] by blast
  show ?thesis
  proof (cases "filtered_root e")
    case None
    then have "aggregate_node e = e" by (simp add: aggregate_node_def)
    with a cl None have "tagged ''aggregate'' (nodes x) = []" "tagged ''filteredExpr'' (nodes x) = []"
        "set (nodes x) \<subseteq> set (nodes e)"
      by auto
    with * cl n show ?thesis by (auto simp: row_level_def)
  next
    case (Some p)
    then obtain cs where p: "filtered_root e = Some (aggregate_node e, cs)" by (cases p) (simp add: aggregate_node_def)
    from nodes_kid [of "''e''" "aggregate_node e" e] filtered_root_Some [OF p] obtain ms vs where
      e: "nodes e = e # ms @ nodes (aggregate_node e) @ vs" by blast
    with a cl p filtered_root_Some [OF p] have "tagged ''aggregate'' (nodes x) = []" "tagged ''filteredExpr'' (nodes x) = []"
        "set (nodes x) \<subseteq> set (nodes e)"
      by auto
    with * cl n show ?thesis by (auto simp: row_level_def)
  qed
qed

lemma additive_merge:
  assumes "classifyMeasureAdditivity m = Additive fn re" and "fieldExpr m = Some e"
    and once: "counted_once locate value (aggregate_node e) rows"
  shows "aggregate_of re (map snd (List.filter (\<lambda>(k, v). coarse k = c) (rollup_table (measure_value locate value holds e) grain rows)))
       = measure_value locate value holds e (List.filter (\<lambda>r. coarse (grain r) = c) rows)"
proof -
  note cl = classified_additive [OF assms(1,2)]
  define val where "val = argument value (aggregate_node e)"
  define p where "p r \<longleftrightarrow> (case filtered_root e of Some (a, cs) \<Rightarrow> list_all (\<lambda>c. holds c r) cs | None \<Rightarrow> True)
    \<and> locate (structPath (aggregate_node e)) r \<noteq> None" for r
  have m: "measure_value locate value holds e (List.filter q rows) = aggregate_of fn (map val (List.filter p (List.filter q rows)))" for q
  proof (cases "filtered_root e")
    case None
    have "counted_once locate value e (List.filter q rows)"
      using counted_once_filter [OF once] None by (simp add: aggregate_node_def)
    then show ?thesis
      using cl None by (simp add: measure_value_def direct_value_rows val_def p_def [abs_def] aggregate_node_def)
  next
    case (Some acs)
    obtain a cs where a: "acs = (a, cs)" by force
    have "counted_once locate value a (List.filter (\<lambda>r. list_all (\<lambda>c. holds c r) cs) (List.filter q rows))"
      using counted_once_filter [OF counted_once_filter [OF once]] Some a by (simp add: aggregate_node_def)
    with direct_value_rows [OF this] show ?thesis
      using cl Some a by (simp add: measure_value_def val_def p_def [abs_def] aggregate_node_def conj_ac)
  qed
  define R where "R = List.filter (\<lambda>r. coarse (grain r) = c) rows"
  define ks where "ks = List.filter (\<lambda>k. coarse k = c) (remdups (map grain rows))"
  have group: "List.filter (\<lambda>r. grain r = k) R = List.filter (\<lambda>r. grain r = k) rows" if "k \<in> set ks" for k
    using that by (auto simp: R_def ks_def intro!: filter_cong)
  have "map snd (List.filter (\<lambda>(k, v). coarse k = c) (rollup_table (measure_value locate value holds e) grain rows))
      = map (\<lambda>k. measure_value locate value holds e (List.filter (\<lambda>r. grain r = k) rows)) ks"
    by (simp add: rollup_table_def ks_def filter_map comp_def)
  also have "\<dots> = map (\<lambda>k. aggregate_of fn (map val (List.filter p (List.filter (\<lambda>r. grain r = k) R)))) ks"
    by (rule map_cong [OF refl]) (simp only: m group)
  also have "aggregate_of re \<dots> = aggregate_of fn (map val (List.filter p R))"
  proof -
    have "aggregate_of (REAGGREGATE fn) (map (\<lambda>k. aggregate_of fn (map val (List.filter p (List.filter (\<lambda>r. grain r = k) R)))) ks)
        = aggregate_of fn (map val (List.filter p R))"
      by (rule partials_merge [where g = grain]) (use cl in \<open>auto simp: ks_def R_def\<close>)
    with cl show ?thesis by simp
  qed
  finally show ?thesis
    by (simp only: m R_def)
qed


subsection \<open>Witnesses\<close>

definition demo_sum :: Expr where
  "demo_sum = Node ''filteredExpr'' '''' [] (Some ''aggregate'') None
     [(''e'', OneKid (Node ''aggregate'' ''sum'' [] (Some ''aggregate'') (Some (Node ''field'' '''' [] (Some ''scalar'') None [])) [])),
      (''filterList'', ManyKids [Node ''field'' '''' [] (Some ''scalar'') None []])]"

definition demo_count :: Expr where
  "demo_count = Node ''aggregate'' ''count'' [] (Some ''aggregate'') None []"

definition demo_field :: "string \<Rightarrow> Expr option \<Rightarrow> FieldLike" where
  "demo_field n e = \<lparr>fieldOwnName = n, fieldAs = None, fieldType = Some ''string'', fieldJoin = None,
     expressionType = map_option (\<lambda>_. ''aggregate'') e,
     fieldNotes = map_option (\<lambda>_. Annotations [] [\<lparr>noteId = 0, noteText = ''region''\<rparr>] None) e,
     accessModifier = None, fieldExpr = e, requiresGroupBy = 0, ungroupings = 0\<rparr>"

definition demo_rows :: "(nat \<times> bool \<times> int) list" where
  "demo_rows = [(1, True, 5), (2, False, 7), (3, True, 11), (4, True, 2)]"

lemma demo_counted_once: "counted_once (\<lambda>_ (g, p, a). Some g) value e demo_rows"
  by (simp add: counted_once_def demo_rows_def)


text \<open>
  Two orders on two days, of one customer with a balance of ten: \<open>customer.balance.sum()\<close>, through a
  \<open>join_one\<close>, is ten, and each day's partial is ten, but the partials merge to twenty.
\<close>

definition demo_joined :: Expr where
  "demo_joined = Node ''aggregate'' ''sum'' [''customer''] (Some ''aggregate'') (Some (Node ''field'' '''' [] (Some ''scalar'') None [])) []"

definition demo_locate :: "string list \<Rightarrow> nat \<times> nat \<times> int \<Rightarrow> nat option" where
  "demo_locate path r = (case r of (day, customer, balance) \<Rightarrow> Some (if path = [] then day else customer))"

lemma joined_sum_overcounts:
  "classifyMeasureAdditivity (demo_field ''balance'' (Some demo_joined)) = Additive ''sum'' ''sum''
   \<and> measure_value demo_locate (\<lambda>_ (day, customer, balance). Some balance) (\<lambda>_ _. True) demo_joined [(1, 7, 10), (2, 7, 10)] = Some 10
   \<and> aggregate_of ''sum'' (map snd (rollup_table
        (measure_value demo_locate (\<lambda>_ (day, customer, balance). Some balance) (\<lambda>_ _. True) demo_joined) fst
        [(1, 7, 10), (2, 7, 10)])) = Some 20"
proof (intro conjI)
  show "classifyMeasureAdditivity (demo_field ''balance'' (Some demo_joined)) = Additive ''sum'' ''sum''" by code_simp
  have argument: "argument (\<lambda>_ p. Some (snd (snd p))) (Node t f q ty (Some x) ks) = Some \<circ> (\<lambda>p. snd (snd p))"
    for t f q ty x ks by (simp add: argument_def fun_eq_iff)
  have m: "measure_value demo_locate (\<lambda>_ (day, customer, balance). Some balance) (\<lambda>_ _. True) demo_joined rows
      = Some (sum_list (map (\<lambda>(day, customer, balance). balance) (each_once (\<lambda>(day, customer, balance). Some customer) rows)))" for rows
    by (simp add: measure_value_def filtered_root_def demo_joined_def direct_value_def aggregate_of_def argument map_map [symmetric]
        demo_locate_def [abs_def] case_prod_unfold del: map_map)
  show "measure_value demo_locate (\<lambda>_ (day, customer, balance). Some balance) (\<lambda>_ _. True) demo_joined [(1, 7, 10), (2, 7, 10)] = Some 10"
    by (simp add: m)
  show "aggregate_of ''sum'' (map snd (rollup_table
        (measure_value demo_locate (\<lambda>_ (day, customer, balance). Some balance) (\<lambda>_ _. True) demo_joined) fst
        [(1, 7, 10), (2, 7, 10)])) = Some 20"
    by (simp add: m [abs_def] rollup_table_def aggregate_of_def)
qed

end
