(* ===== verification/Rollups.thy ===== *)
theory Rollups
  imports ServeShape Additivity "HOL-Library.Multiset"
begin

text \<open>
  Preaggregation: the \<open>#@ preaggregate\<close> line of a measure (\<open>service/preaggregation_annotation.ts\<close>), the
  rules a declaration is refused by (\<open>service/preaggregation_validation.ts\<close>), and the plan and text of the
  rollups (\<open>service/preaggregation_synthesis.ts\<close>). Three predicates of the Malloy package on a field, the
  tag parser and the digest of a name are parameters; of the tag parser only its answers are used.
\<close>

subsection \<open>The annotation\<close>

definition NAMESPACE_SEGMENT :: "string \<Rightarrow> bool" where
  "NAMESPACE_SEGMENT s = (case s of [] \<Rightarrow> False
     | c # r \<Rightarrow> (is_upper c \<or> is_lower c \<or> c = CHR ''_'')
         \<and> list_all (\<lambda>d. is_word d \<or> d = CHR ''$'' \<or> d = CHR ''-'') r)"

definition isSpliceableNamespace :: "string \<Rightarrow> bool" where
  "isSpliceableNamespace ns = list_all NAMESPACE_SEGMENT (split_on CHR ''.'' ns)"

definition parseGrainDimensions :: "string \<Rightarrow> string list" where
  "parseGrainDimensions grainText =
     sort (first_occurrences (List.filter (\<lambda>p. p \<noteq> []) (map js_trim (split_on CHR '','' grainText))))"

text \<open>\<open>/#@\s*-\s*preaggregate\b/\<close>, at the start of the text and anywhere in it.\<close>

definition negation_here :: "string \<Rightarrow> bool" where
  "negation_here s =
     (take 2 s = ''#@'' \<and>
      (let r = js_trim_start (drop 2 s); q = js_trim_start (tl r) in
       r \<noteq> [] \<and> hd r = CHR ''-'' \<and> take 12 q = ''preaggregate''
         \<and> (drop 12 q = [] \<or> \<not> is_word (hd (drop 12 q)))))"

definition NEGATION :: "string \<Rightarrow> bool" where
  "NEGATION s = list_ex negation_here (suffixes s)"

text \<open>What the tag parser answers for one note.\<close>

record Tag =
  tagHas :: "string \<Rightarrow> bool"
  tagText :: "string list \<Rightarrow> string option"

datatype DeclarationError =
  Missing_grain | Empty_grain string | Invalid_namespace string | Empty_storage | Invalid_storage string

record PreaggregateGrain =
  grainDims :: "string list"
  grainText :: string
  grainNamespace :: "string option"
  grainStorage :: "string option"

definition if_given :: "('a \<Rightarrow> bool) \<Rightarrow> 'a option \<Rightarrow> bool" where
  "if_given P x = (case x of Some y \<Rightarrow> P y | None \<Rightarrow> True)"

definition preaggregate_text :: "Tag \<Rightarrow> string \<Rightarrow> string option" where
  "preaggregate_text tag k = (case tagText tag [''preaggregate'', k] of Some s \<Rightarrow> Some s | None \<Rightarrow> tagText tag [k])"

definition read_declaration :: "Tag \<Rightarrow> DeclarationError + PreaggregateGrain" where
  "read_declaration tag =
     (let namespace = map_option js_trim (preaggregate_text tag ''namespace'');
          storage = map_option js_trim (preaggregate_text tag ''storage'') in
      if \<not> if_given isSpliceableNamespace namespace then Inl (Invalid_namespace (the namespace))
      else if storage = Some [] then Inl Empty_storage
      else if \<not> if_given (\<lambda>s. dquote \<notin> set s \<and> backslash \<notin> set s) storage then Inl (Invalid_storage (the storage))
      else case preaggregate_text tag ''grain'' of
        None \<Rightarrow> Inl Missing_grain
      | Some t \<Rightarrow>
          (if parseGrainDimensions t = [] then Inl (Empty_grain t)
           else Inr \<lparr>grainDims = parseGrainDimensions t, grainText = t, grainNamespace = namespace, grainStorage = storage\<rparr>))"

definition orderedNotes :: "AnnotationsDef option \<Rightarrow> Note list" where
  "orderedNotes annote = List.filter (\<lambda>n. noteText n \<noteq> [])
     ((case annote of Some a \<Rightarrow> ownLevelNotes (inherits a) | None \<Rightarrow> []) @ ownLevelNotes annote)"

definition grain_key :: "string list \<Rightarrow> string" where
  "grain_key dims = join [CHR 0x00] dims"

record PreaggregateDeclaration =
  declared :: bool
  grains :: "(string \<times> PreaggregateGrain) list"
  declErrors :: "DeclarationError list"

text \<open>One note: a negation clears what came before it, an unreadable one is passed over.\<close>

definition read_note :: "(Note \<Rightarrow> Tag option) \<Rightarrow> Note \<Rightarrow> PreaggregateDeclaration \<Rightarrow> PreaggregateDeclaration" where
  "read_note parseTag note d =
     (if NEGATION (noteText note) then \<lparr>declared = False, grains = [], declErrors = []\<rparr>
      else case parseTag note of
        None \<Rightarrow> d
      | Some tag \<Rightarrow>
          if \<not> tagHas tag ''preaggregate'' then d
          else case read_declaration tag of
            Inl e \<Rightarrow> d\<lparr>declared := True, declErrors := declErrors d @ [e]\<rparr>
          | Inr g \<Rightarrow> d\<lparr>declared := True, grains := AList.update (grain_key (grainDims g)) g (grains d)\<rparr>)"

definition read_notes :: "(Note \<Rightarrow> Tag option) \<Rightarrow> AnnotationsDef option \<Rightarrow> PreaggregateDeclaration" where
  "read_notes parseTag annote = fold (read_note parseTag) (orderedNotes annote) \<lparr>declared = False, grains = [], declErrors = []\<rparr>"

definition sorted_grains :: "(string \<Rightarrow> string \<Rightarrow> bool) \<Rightarrow> PreaggregateDeclaration \<Rightarrow> PreaggregateGrain list" where
  "sorted_grains localeLe d =
     sort_by (\<lambda>g h. localeLe (grain_key (grainDims g)) (grain_key (grainDims h))) (map snd (grains d))"

subsection \<open>The rules of a declaration\<close>

text \<open>
  \<open>isJoined\<close>, \<open>expressionIsAggregate\<close> and \<open>expressionIsAnalytic\<close> are predicates of the Malloy package; the
  last two read the expression type.
\<close>

record MalloyTypes =
  isJoined :: "FieldLike \<Rightarrow> bool"
  expressionIsAggregate :: "string option \<Rightarrow> bool"
  expressionIsAnalytic :: "string option \<Rightarrow> bool"
  parseAsTag :: "Note \<Rightarrow> Tag option"
  collate :: "string \<Rightarrow> string \<Rightarrow> bool"
  shaDigest :: "string \<Rightarrow> string"

record PreaggSource =
  sourceNotes :: "AnnotationsDef option"
  sourceFields :: "FieldLike list"

definition readPreaggregateAnnotation :: "MalloyTypes \<Rightarrow> AnnotationsDef option \<Rightarrow> PreaggregateDeclaration" where
  "readPreaggregateAnnotation M annote = read_notes (parseAsTag M) annote"

definition isHidden :: "FieldLike \<Rightarrow> bool" where
  "isHidden f \<longleftrightarrow> (case accessModifier f of None \<Rightarrow> False | Some a \<Rightarrow> a \<noteq> ''public'')"

definition isTemporalType :: "string \<Rightarrow> bool" where
  "isTemporalType t \<longleftrightarrow> t \<in> {''date'', ''timestamp'', ''timestamptz''}"

definition isView :: "FieldLike \<Rightarrow> bool" where
  "isView f \<longleftrightarrow> fieldType f = Some ''turtle''"

definition isFanoutJoin :: "MalloyTypes \<Rightarrow> FieldLike \<Rightarrow> bool" where
  "isFanoutJoin M f \<longleftrightarrow> isJoined M f \<and> fieldJoin f \<noteq> Some ''one''"

definition isMeasure :: "MalloyTypes \<Rightarrow> FieldLike \<Rightarrow> bool" where
  "isMeasure M f \<longleftrightarrow> expressionIsAggregate M (expressionType f) \<and> \<not> expressionIsAnalytic M (expressionType f)"

definition isGroupableDimension :: "MalloyTypes \<Rightarrow> FieldLike \<Rightarrow> bool" where
  "isGroupableDimension M f =
     (if isJoined M f \<or> isView f then False
      else case expressionType f of None \<Rightarrow> True | Some t \<Rightarrow> t = ''scalar'')"

datatype PreaggregateViolationCode =
  Misplaced_on_source | Misplaced_on_dimension | Misplaced_on_join | Misplaced_on_view
| Bad_declaration DeclarationError
| Conflicting_namespace | Conflicting_storage | Namespace_with_storage
| Non_additive_measure NonAdditiveReason | Non_public_measure
| Unknown_grain_dimension | Grain_dimension_is_measure | Grain_dimension_is_view | Grain_dimension_not_public
| Grain_path_through_join | Grain_truncation_expression string | Truncation_on_non_temporal
| Base_source_has_fanout_join

text \<open>A violation: its code, and the field or grain it is about where there is one.\<close>

type_synonym PreaggregateViolation = "PreaggregateViolationCode \<times> string option"

definition field_named :: "PreaggSource \<Rightarrow> string \<Rightarrow> FieldLike option" where
  "field_named src n = List.find (\<lambda>f. fieldName f = n) (sourceFields src)"

definition validateGrainDimension :: "MalloyTypes \<Rightarrow> PreaggSource \<Rightarrow> string \<Rightarrow> PreaggregateViolationCode option" where
  "validateGrainDimension M src grainDim =
     (let parts = split_on CHR ''.'' grainDim; head = hd parts in
      case field_named src head of
        None \<Rightarrow> Some Unknown_grain_dimension
      | Some f \<Rightarrow>
          if isJoined M f then Some Grain_path_through_join
          else if 1 < length parts then
            (if \<not> isTemporalType (case fieldType f of Some t \<Rightarrow> t | None \<Rightarrow> []) then Some Truncation_on_non_temporal
             else Some (Grain_truncation_expression (head @ ''_'' @ last parts)))
          else if isHidden f then Some Grain_dimension_not_public
          else if isView f then Some Grain_dimension_is_view
          else if isMeasure M f then Some Grain_dimension_is_measure
          else if \<not> isGroupableDimension M f then Some Unknown_grain_dimension
          else None)"

text \<open>
  The state of the loop over fields: what was refused, whether a field was declared, and for each grain
  the namespaces and the destinations named at it, each with the first measure that named it.
\<close>

type_synonym choices = "(string \<times> (string \<times> string) list) list"

record Validation =
  refused :: "PreaggregateViolation list"
  anyDeclared :: bool
  namespacesByGrain :: choices
  storagesByGrain :: choices

definition note_choice :: "string \<Rightarrow> string option \<Rightarrow> string \<Rightarrow> choices \<Rightarrow> choices" where
  "note_choice key chosen measureName byGrain =
     (case chosen of
        None \<Rightarrow> byGrain
      | Some x \<Rightarrow>
          (let named = (case map_of byGrain key of Some xs \<Rightarrow> xs | None \<Rightarrow> []) in
           AList.update key (if x \<in> fst ` set named then named else AList.update x measureName named) byGrain))"

definition validate_grain :: "MalloyTypes \<Rightarrow> PreaggSource \<Rightarrow> string \<Rightarrow> bool \<Rightarrow> PreaggregateGrain \<Rightarrow> Validation \<Rightarrow> Validation" where
  "validate_grain M src n mergeable g v =
     (let v = v\<lparr>refused := refused v @ map (\<lambda>c. (c, Some n)) (somes (map (validateGrainDimension M src) (grainDims g)))\<rparr>;
          key = grain_key (grainDims g) in
      if mergeable then v\<lparr>namespacesByGrain := note_choice key (grainNamespace g) n (namespacesByGrain v),
          storagesByGrain := note_choice key (grainStorage g) n (storagesByGrain v)\<rparr>
      else v)"

definition refuse :: "PreaggregateViolationCode \<Rightarrow> string \<Rightarrow> Validation \<Rightarrow> Validation" where
  "refuse c n v = v\<lparr>refused := refused v @ [(c, Some n)]\<rparr>"

definition validate_field :: "MalloyTypes \<Rightarrow> PreaggSource \<Rightarrow> FieldLike \<Rightarrow> Validation \<Rightarrow> Validation" where
  "validate_field M src f v0 =
     (let d = readPreaggregateAnnotation M (fieldNotes f); n = fieldName f; v = v0\<lparr>anyDeclared := True\<rparr> in
      if \<not> declared d then v0
      else if isJoined M f then refuse Misplaced_on_join n v
      else if isView f then refuse Misplaced_on_view n v
      else if \<not> isMeasure M f then refuse Misplaced_on_dimension n v
      else if isHidden f then refuse Non_public_measure n v
      else if declErrors d \<noteq> [] then v\<lparr>refused := refused v @ map (\<lambda>e. (Bad_declaration e, Some n)) (declErrors d)\<rparr>
      else case classifyMeasureAdditivity f of
        Additive _ _ \<Rightarrow> fold (validate_grain M src n True) (sorted_grains (collate M) d) v
      | NonAdditive r \<Rightarrow> fold (validate_grain M src n False) (sorted_grains (collate M) d) (refuse (Non_additive_measure r) n v))"

definition conflicts :: "PreaggregateViolationCode \<Rightarrow> choices \<Rightarrow> PreaggregateViolation list" where
  "conflicts c byGrain = map (\<lambda>(k, _). (c, Some k)) (List.filter (\<lambda>(k, xs). 2 \<le> length xs) byGrain)"

definition validateSourcePreaggregation :: "MalloyTypes \<Rightarrow> PreaggSource \<Rightarrow> PreaggregateViolation list" where
  "validateSourcePreaggregation M src =
     (let v = fold (validate_field M src) (sourceFields src)
            \<lparr>refused = [], anyDeclared = False, namespacesByGrain = [], storagesByGrain = []\<rparr>;
          fanout = if anyDeclared v then List.filter (isFanoutJoin M) (sourceFields src) else []
      in (if declared (readPreaggregateAnnotation M (sourceNotes src)) then [(Misplaced_on_source, None)] else [])
         @ refused v
         @ conflicts Conflicting_namespace (namespacesByGrain v)
         @ conflicts Conflicting_storage (storagesByGrain v)
         @ map (\<lambda>(k, _). (Namespace_with_storage, Some k))
             (List.filter (\<lambda>(k, _). map_of (storagesByGrain v) k \<notin> {None, Some []}) (namespacesByGrain v))
         @ (if fanout \<noteq> [] then [(Base_source_has_fanout_join, None)] else []))"

definition validateModelPreaggregation :: "MalloyTypes \<Rightarrow> (string \<times> PreaggSource) list \<Rightarrow> (string \<times> PreaggregateViolation) list" where
  "validateModelPreaggregation M sources =
     concat (map (\<lambda>(n, src). map (\<lambda>v. (n, v)) (validateSourcePreaggregation M src)) sources)"

subsection \<open>The plan of the rollups\<close>

definition BASE_ALIAS_SUFFIX :: string where "BASE_ALIAS_SUFFIX = ''__preagg_base''"
definition PARTIAL_SUFFIX :: string where "PARTIAL_SUFFIX = ''__partial''"

definition grainDigest :: "(string \<Rightarrow> string) \<Rightarrow> string list \<Rightarrow> string" where
  "grainDigest sha dims = take 8 (sha (grain_key dims))"

definition NAME_SLUG_LIMIT :: nat where "NAME_SLUG_LIMIT = 40"

definition rollup_source_name :: "(string \<Rightarrow> string) \<Rightarrow> string \<Rightarrow> string list \<Rightarrow> string" where
  "rollup_source_name sha base dims =
     base @ ''__preagg__'' @ take NAME_SLUG_LIMIT (replace_all CHR ''.'' ''_'' (join ''_'' dims)) @ ''__'' @ grainDigest sha dims"

definition baseAlias :: "string \<Rightarrow> string" where
  "baseAlias base = base @ BASE_ALIAS_SUFFIX"

definition persistNamespace :: "string option \<Rightarrow> string option" where
  "persistNamespace persistName =
     (case persistName of None \<Rightarrow> None
      | Some n \<Rightarrow>
          (case last_index_of CHR ''.'' n of None \<Rightarrow> None
           | Some i \<Rightarrow>
               if i = 0 \<or> js_trim (drop (Suc i) n) = [] then None
               else if isSpliceableNamespace (take i n) then Some (take i n) else None))"

text \<open>\<open>parseTags\<close> answers for all the notes of a source at once, or fails.\<close>

definition basePersistNamespace :: "(AnnotationsDef \<Rightarrow> Tag option) \<Rightarrow> PreaggSource \<Rightarrow> string option" where
  "basePersistNamespace parseTags src =
     (case sourceNotes src of None \<Rightarrow> None
      | Some annote \<Rightarrow>
          (case parseTags annote of None \<Rightarrow> None
           | Some tag \<Rightarrow>
               (let storage = (case tagText tag [''persist'', ''storage''] of Some s \<Rightarrow> Some s | None \<Rightarrow> tagText tag [''storage'']) in
                if \<not> tagHas tag ''persist'' then None
                else if \<not> if_given (\<lambda>s. js_trim s = []) storage then None
                else persistNamespace
                  (case tagText tag [''persist'', ''name''] of Some s \<Rightarrow> Some s | None \<Rightarrow> tagText tag [''name'']))))"

record GrainEntry =
  entryDims :: "string list"
  entryMeasures :: "(string \<times> string \<times> string) list"
  entryNamespace :: "string option"
  entryStorage :: "string option"

definition or_else :: "'a option \<Rightarrow> 'a option \<Rightarrow> 'a option" where
  "or_else a b = (case a of Some x \<Rightarrow> Some x | None \<Rightarrow> b)"

definition add_grain :: "string \<Rightarrow> string \<Rightarrow> PreaggregateGrain \<Rightarrow> (string \<times> GrainEntry) list \<Rightarrow> (string \<times> GrainEntry) list" where
  "add_grain n re g byGrain =
     (let e = (case map_of byGrain (grain_key (grainDims g)) of Some e \<Rightarrow> e
               | None \<Rightarrow> \<lparr>entryDims = grainDims g, entryMeasures = [], entryNamespace = None, entryStorage = None\<rparr>) in
      AList.update (grain_key (grainDims g))
        \<lparr>entryDims = entryDims e, entryMeasures = entryMeasures e @ [(n, n @ PARTIAL_SUFFIX, re)],
         entryNamespace = or_else (entryNamespace e) (grainNamespace g),
         entryStorage = or_else (entryStorage e) (grainStorage g)\<rparr> byGrain)"

definition hidden_dimension :: "PreaggSource \<Rightarrow> string \<Rightarrow> bool" where
  "hidden_dimension src d = (case field_named src d of Some f \<Rightarrow> isHidden f | None \<Rightarrow> False)"

text \<open>The grains a field contributes to the plan, with the merge of its partial.\<close>

definition field_grains :: "MalloyTypes \<Rightarrow> PreaggSource \<Rightarrow> FieldLike \<Rightarrow> (string \<times> PreaggregateGrain) list" where
  "field_grains M src f =
     (let d = readPreaggregateAnnotation M (fieldNotes f) in
      if \<not> declared d \<or> declErrors d \<noteq> [] then []
      else if isHidden f then []
      else case classifyMeasureAdditivity f of
        NonAdditive _ \<Rightarrow> []
      | Additive fn re \<Rightarrow> map (\<lambda>g. (re, g))
          (List.filter (\<lambda>g. grainDims g \<noteq> [] \<and> \<not> list_ex (hidden_dimension src) (grainDims g)) (sorted_grains (collate M) d)))"

definition plan_field :: "MalloyTypes \<Rightarrow> PreaggSource \<Rightarrow> FieldLike \<Rightarrow> (string \<times> GrainEntry) list \<Rightarrow> (string \<times> GrainEntry) list" where
  "plan_field M src f = fold (\<lambda>(re, g). add_grain (fieldName f) re g) (field_grains M src f)"

definition plan_of_entry :: "MalloyTypes \<Rightarrow> string \<Rightarrow> string option \<Rightarrow> GrainEntry \<Rightarrow> RollupPlan" where
  "plan_of_entry M base inherited e =
     \<lparr>baseSourceName = base, rollupSourceName = rollup_source_name (shaDigest M) base (entryDims e),
      planNamespace = or_else (entryNamespace e) inherited, planStorage = entryStorage e,
      grainDimensions = entryDims e,
      rollupMeasures = sort_by (\<lambda>x y. collate M (fst x) (fst y)) (entryMeasures e)\<rparr>"

definition planSourcePreaggregation :: "MalloyTypes \<Rightarrow> (AnnotationsDef \<Rightarrow> Tag option) \<Rightarrow> string \<Rightarrow> PreaggSource \<Rightarrow> RollupPlan list" where
  "planSourcePreaggregation M parseTags base src =
     sort_by (narrower (collate M))
       (map (plan_of_entry M base (basePersistNamespace parseTags src) \<circ> snd)
          (fold (plan_field M src) (sourceFields src) []))"

definition planModelPreaggregation :: "MalloyTypes \<Rightarrow> (AnnotationsDef \<Rightarrow> Tag option) \<Rightarrow> (string \<times> PreaggSource) list \<Rightarrow> RollupPlan list" where
  "planModelPreaggregation M parseTags sources =
     concat (map (\<lambda>(n, src). planSourcePreaggregation M parseTags n src)
       (sort_by (\<lambda>x y. collate M (fst x) (fst y)) sources))"

subsection \<open>The text of the rollups\<close>

text \<open>\<open>JSON.stringify\<close> of a string, by its two-character escapes and the \<open>\u00XX\<close> form of other control characters.\<close>

definition hex_digit :: "nat \<Rightarrow> char" where
  "hex_digit n = (''0123456789abcdef'') ! n"

definition json_char :: "char \<Rightarrow> string" where
  "json_char c =
     (let n = (of_char c :: nat) in
      if c = dquote then [backslash, dquote] else if c = backslash then [backslash, backslash]
      else if n = 8 then [backslash, CHR ''b''] else if n = 9 then [backslash, CHR ''t'']
      else if n = 10 then [backslash, CHR ''n''] else if n = 12 then [backslash, CHR ''f'']
      else if n = 13 then [backslash, CHR ''r'']
      else if n < 32 then [backslash, CHR ''u'', CHR ''0'', CHR ''0'', hex_digit (n div 16), hex_digit (n mod 16)]
      else [c])"

definition json_string :: "string \<Rightarrow> string" where
  "json_string s = [dquote] @ concat (map json_char s) @ [dquote]"

text \<open>An empty string is not a choice.\<close>

definition chosen :: "string option \<Rightarrow> string option" where
  "chosen s = (if s = Some [] then None else s)"

definition persist_line :: "RollupPlan \<Rightarrow> string" where
  "persist_line p =
     (case chosen (planStorage p) of
        Some s \<Rightarrow> ''#@ persist storage='' @ json_string s
      | None \<Rightarrow> (case chosen (planNamespace p) of
          Some ns \<Rightarrow> ''#@ persist name='' @ [dquote] @ ns @ ''.'' @ rollupSourceName p @ [dquote]
        | None \<Rightarrow> ''#@ persist''))"

definition emitRollup :: "RollupPlan \<Rightarrow> string" where
  "emitRollup p = join [nl]
     ([persist_line p, ''source: '' @ rollupSourceName p @ '' is '' @ baseAlias (baseSourceName p) @ '' -> {'', ''  group_by:'',
       join [nl] (map (\<lambda>d. ''    '' @ d) (grainDimensions p)), ''  aggregate:'',
       join [nl] (map (\<lambda>(n, partial, re). ''    '' @ partial @ '' is '' @ n) (rollupMeasures p)), ''} extend {'', ''  measure:'',
       join [nl] (map (\<lambda>(n, partial, re). ''    '' @ n @ '' is '' @ partial @ ''.'' @ re @ ''()'') (rollupMeasures p)), ''}''])"

definition compose_members :: "RollupPlan list \<Rightarrow> string \<Rightarrow> string list" where
  "compose_members plans base =
     map rollupSourceName (List.filter (\<lambda>p. baseSourceName p = base \<and> chosen (planStorage p) = None) plans) @ [baseAlias base]"

definition synthesizePreaggregationModel :: "RollupPlan list \<Rightarrow> string \<Rightarrow> string \<Rightarrow> string option" where
  "synthesizePreaggregationModel plans importPath experimentalFlags =
     (if plans = [] then None
      else let bases = sort (first_occurrences (map baseSourceName plans)) in
        Some (join [nl]
          [''##! experimental { '' @ experimentalFlags @ '' }'',
           join [nl] (map (\<lambda>b. ''import { '' @ baseAlias b @ '' is '' @ b @ '' } from '' @ json_string importPath) bases),
           [], join [nl, nl] (map emitRollup plans), [],
           join [nl] (map (\<lambda>b. ''source: '' @ b @ '' is compose('' @ join '', '' (compose_members plans b) @ '')'') bases),
           []]))"

subsection \<open>The groups of a plan\<close>

text \<open>What the loop over the fields adds to the map of grains, in order: a measure, its merge, a grain.\<close>

type_synonym contribution = "string \<times> string \<times> PreaggregateGrain"

abbreviation contribution_key :: "contribution \<Rightarrow> string" where
  "contribution_key c \<equiv> grain_key (grainDims (snd (snd c)))"

definition contributions :: "MalloyTypes \<Rightarrow> PreaggSource \<Rightarrow> contribution list" where
  "contributions M src = concat (map (\<lambda>f. map (\<lambda>(re, g). (fieldName f, re, g)) (field_grains M src f)) (sourceFields src))"

definition add_all :: "contribution list \<Rightarrow> (string \<times> GrainEntry) list \<Rightarrow> (string \<times> GrainEntry) list" where
  "add_all cs = fold (\<lambda>(n, re, g). add_grain n re g) cs"

definition at_key :: "string \<Rightarrow> contribution list \<Rightarrow> contribution list" where
  "at_key k cs = List.filter (\<lambda>c. contribution_key c = k) cs"

definition first_some :: "'a option list \<Rightarrow> 'a option" where
  "first_some xs = (case somes xs of [] \<Rightarrow> None | x # _ \<Rightarrow> Some x)"

definition entry_of :: "contribution list \<Rightarrow> GrainEntry" where
  "entry_of cs = \<lparr>entryDims = grainDims (snd (snd (hd cs))), entryMeasures = map (\<lambda>(n, re, g). (n, n @ PARTIAL_SUFFIX, re)) cs,
     entryNamespace = first_some (map (grainNamespace \<circ> snd \<circ> snd) cs),
     entryStorage = first_some (map (grainStorage \<circ> snd \<circ> snd) cs)\<rparr>"

lemma first_some_snoc: "first_some (xs @ [x]) = or_else (first_some xs) x"
  by (cases x) (auto simp: first_some_def or_else_def somes_append split: list.split)

lemma first_some_Some: "first_some xs = Some x \<Longrightarrow> Some x \<in> set xs"
  by (auto simp: first_some_def set_somes [symmetric] split: list.splits)
    (metis list.set_intros(1) mem_Collect_eq set_somes)

lemma first_some_unique: "Some x \<in> set xs \<Longrightarrow> (\<And>y. Some y \<in> set xs \<Longrightarrow> y = x) \<Longrightarrow> first_some xs = Some x"
proof -
  assume x: "Some x \<in> set xs" and u: "\<And>y. Some y \<in> set xs \<Longrightarrow> y = x"
  from x have "x \<in> set (somes xs)" by (simp add: set_somes)
  then obtain y ys where s: "somes xs = y # ys" by (cases "somes xs") simp_all
  have "Some y \<in> set xs" using set_somes [of xs] s by auto
  from u [OF this] show ?thesis by (simp add: first_some_def s)
qed

lemma first_some_None: "(\<And>x. Some x \<notin> set xs) \<Longrightarrow> first_some xs = None"
  by (cases "first_some xs") (auto dest: first_some_Some)

lemma add_grain_lookup:
  "map_of (add_grain n re g al) k =
     (if k = grain_key (grainDims g) then
        (let e = (case map_of al k of Some e \<Rightarrow> e
               | None \<Rightarrow> \<lparr>entryDims = grainDims g, entryMeasures = [], entryNamespace = None, entryStorage = None\<rparr>) in
         Some \<lparr>entryDims = entryDims e, entryMeasures = entryMeasures e @ [(n, n @ PARTIAL_SUFFIX, re)],
           entryNamespace = or_else (entryNamespace e) (grainNamespace g), entryStorage = or_else (entryStorage e) (grainStorage g)\<rparr>)
      else map_of al k)"
  by (simp add: add_grain_def Let_def update_conv')

lemma add_all_lookup:
  "map_of (add_all cs []) k = (if at_key k cs = [] then None else Some (entry_of (at_key k cs)))"
proof (induction cs rule: rev_induct)
  case Nil
  show ?case by (simp add: add_all_def at_key_def)
next
  case (snoc c cs)
  obtain n re g where c: "c = (n, re, g)" by (metis prod_cases3)
  have "map_of (add_all (cs @ [c]) []) k = map_of (add_grain n re g (add_all cs [])) k"
    by (simp add: add_all_def c)
  then show ?case
    unfolding add_grain_lookup snoc.IH
    by (auto simp: at_key_def c Let_def entry_of_def first_some_snoc hd_append) (simp_all add: first_some_def or_else_def)
qed

lemma add_all_keys: "distinct (map fst (add_all cs []))"
  by (induction cs rule: rev_induct) (auto simp: add_all_def add_grain_def Let_def distinct_update)

lemma add_all_entries:
  "set (add_all cs []) = {(k, entry_of (at_key k cs)) | k. at_key k cs \<noteq> []}"
proof -
  have "(k, e) \<in> set (add_all cs []) \<longleftrightarrow> map_of (add_all cs []) k = Some e" for k e
    using add_all_keys by (metis map_of_eq_Some_iff)
  then show ?thesis by (auto simp: add_all_lookup split: if_splits)
qed

lemma plan_fields: "fold (plan_field M src) fs al
    = add_all (concat (map (\<lambda>f. map (\<lambda>(re, g). (fieldName f, re, g)) (field_grains M src f)) fs)) al"
proof (induction fs arbitrary: al)
  case Nil
  show ?case by (simp add: add_all_def)
next
  case (Cons f fs)
  have "plan_field M src f al = add_all (map (\<lambda>(re, g). (fieldName f, re, g)) (field_grains M src f)) al"
    by (simp add: plan_field_def add_all_def fold_map comp_def case_prod_unfold)
  with Cons show ?case by (simp add: add_all_def)
qed

lemma plans_of_source:
  "planSourcePreaggregation M parseTags base src = sort_by (narrower (collate M))
     (map (plan_of_entry M base (basePersistNamespace parseTags src) \<circ> snd) (add_all (contributions M src) []))"
  by (simp add: planSourcePreaggregation_def plan_fields contributions_def)

lemma plan_member:
  "p \<in> set (planSourcePreaggregation M parseTags base src) \<longleftrightarrow>
     (\<exists>k. at_key k (contributions M src) \<noteq> []
        \<and> p = plan_of_entry M base (basePersistNamespace parseTags src) (entry_of (at_key k (contributions M src))))"
  by (auto simp: plans_of_source add_all_entries image_iff)

lemma contribution_iff:
  "(n, re, g) \<in> set (contributions M src) \<longleftrightarrow>
     (\<exists>f \<in> set (sourceFields src). n = fieldName f \<and> (re, g) \<in> set (field_grains M src f))"
  by (auto simp: contributions_def)

lemma field_grains_iff:
  "(re, g) \<in> set (field_grains M src f) \<longleftrightarrow>
     (let d = readPreaggregateAnnotation M (fieldNotes f) in
      declared d \<and> declErrors d = [] \<and> \<not> isHidden f \<and> (\<exists>fn. classifyMeasureAdditivity f = Additive fn re)
      \<and> g \<in> snd ` set (grains d) \<and> grainDims g \<noteq> [] \<and> \<not> list_ex (hidden_dimension src) (grainDims g))"
  by (cases "classifyMeasureAdditivity f") (auto simp: field_grains_def Let_def sorted_grains_def)

subsection \<open>Planned measures answer as the base does\<close>

lemma additive_has_expression: "classifyMeasureAdditivity f = Additive fn re \<Longrightarrow> \<exists>e. fieldExpr f = Some e"
  by (cases "fieldExpr f") (simp_all add: classifyMeasureAdditivity_def split: if_splits)

lemma planned_measure:
  assumes p: "p \<in> set (planSourcePreaggregation M parseTags base src)" and m: "(n, partial, re) \<in> set (rollupMeasures p)"
  shows "\<exists>f g. f \<in> set (sourceFields src) \<and> fieldName f = n \<and> partial = n @ PARTIAL_SUFFIX \<and> (re, g) \<in> set (field_grains M src f)
    \<and> grain_key (grainDims g) = grain_key (grainDimensions p)"
proof -
  let ?C = "contributions M src"
  from p obtain k where k: "at_key k ?C \<noteq> []" "p = plan_of_entry M base (basePersistNamespace parseTags src) (entry_of (at_key k ?C))"
    by (auto simp: plan_member)
  from m k obtain g where g: "(n, re, g) \<in> set (at_key k ?C)" "partial = n @ PARTIAL_SUFFIX"
    by (auto simp: plan_of_entry_def entry_of_def)
  have "hd (at_key k ?C) \<in> set (at_key k ?C)" using k(1) by simp
  then have "grain_key (grainDimensions p) = k" using k(2) by (simp add: plan_of_entry_def entry_of_def at_key_def)
  with g show ?thesis by (auto simp: at_key_def contribution_iff)
qed

lemma planned_dimensions_public:
  assumes "p \<in> set (planSourcePreaggregation M parseTags base src)" and "d \<in> set (grainDimensions p)"
  shows "\<not> hidden_dimension src d"
proof -
  let ?C = "contributions M src"
  from assms(1) obtain k where k: "at_key k ?C \<noteq> []" "p = plan_of_entry M base (basePersistNamespace parseTags src) (entry_of (at_key k ?C))"
    by (auto simp: plan_member)
  obtain n re g where h: "hd (at_key k ?C) = (n, re, g)" by (metis prod_cases3)
  have "hd (at_key k ?C) \<in> set (at_key k ?C)" using k(1) by simp
  with h have "(n, re, g) \<in> set ?C" by (simp add: at_key_def)
  moreover have "d \<in> set (grainDims g)" using assms(2) k h by (simp add: plan_of_entry_def entry_of_def)
  ultimately show ?thesis by (auto simp: contribution_iff field_grains_iff Let_def list_ex_iff)
qed


subsection \<open>What the rules establish\<close>

lemma parseGrainDimensions_sorted: "sorted (parseGrainDimensions t) \<and> distinct (parseGrainDimensions t)"
  by (simp add: parseGrainDimensions_def)

text \<open>A grain that was read is filed under its own key, names something, and its placement is spliceable.\<close>

definition well_read :: "PreaggregateDeclaration \<Rightarrow> bool" where
  "well_read d \<longleftrightarrow> distinct (map fst (grains d))
     \<and> (\<forall>(k, g) \<in> set (grains d). k = grain_key (grainDims g) \<and> grainDims g \<noteq> [] \<and> distinct (grainDims g))
     \<and> (\<not> declared d \<longrightarrow> grains d = [])"

lemma read_declaration_grain: "read_declaration tag = Inr g \<Longrightarrow> grainDims g \<noteq> [] \<and> distinct (grainDims g)"
  by (auto simp: read_declaration_def Let_def parseGrainDimensions_sorted split: if_splits option.splits)

lemma set_update_sub: "set (AList.update k v al) \<subseteq> insert (k, v) (set al)"
  by (induction al) auto

lemma read_note_well: "well_read d \<Longrightarrow> well_read (read_note parseTag note d)"
proof -
  assume d: "well_read d"
  show ?thesis
  proof (cases "NEGATION (noteText note)")
    case True
    then show ?thesis by (simp add: read_note_def well_read_def)
  next
    case neg: False
    show ?thesis
    proof (cases "\<exists>tag. parseTag note = Some tag \<and> tagHas tag ''preaggregate''")
      case False
      with neg d show ?thesis by (auto simp: read_note_def split: option.splits)
    next
      case True
      then obtain tag where tag: "parseTag note = Some tag" "tagHas tag ''preaggregate''" by blast
      show ?thesis
      proof (cases "read_declaration tag")
        case (Inl e)
        with neg tag d show ?thesis by (auto simp: read_note_def well_read_def)
      next
        case (Inr g)
        with neg tag have r: "read_note parseTag note d
            = d\<lparr>declared := True, grains := AList.update (grain_key (grainDims g)) g (grains d)\<rparr>"
          by (simp add: read_note_def)
        show ?thesis
          using d read_declaration_grain [OF Inr] set_update_sub [of "grain_key (grainDims g)" g "grains d"]
          by (auto simp: r well_read_def distinct_update)
      qed
    qed
  qed
qed

lemma read_notes_well: "well_read (readPreaggregateAnnotation M annote)"
proof -
  have "well_read d \<Longrightarrow> well_read (fold (read_note parseTag) ns d)" for ns d parseTag
    by (induction ns arbitrary: d) (simp_all add: read_note_well)
  note fold = this
  have "well_read \<lparr>declared = False, grains = [], declErrors = []\<rparr>" by (simp add: well_read_def)
  from fold [OF this] show ?thesis by (simp add: readPreaggregateAnnotation_def read_notes_def)
qed

definition valid_grain :: "MalloyTypes \<Rightarrow> PreaggSource \<Rightarrow> PreaggregateGrain \<Rightarrow> bool" where
  "valid_grain M src g \<longleftrightarrow> (\<forall>d \<in> set (grainDims g). validateGrainDimension M src d = None)"

definition clean_field :: "MalloyTypes \<Rightarrow> PreaggSource \<Rightarrow> FieldLike \<Rightarrow> bool" where
  "clean_field M src f \<longleftrightarrow>
     (let d = readPreaggregateAnnotation M (fieldNotes f) in
      declared d \<longrightarrow> \<not> isJoined M f \<and> \<not> isView f \<and> isMeasure M f \<and> \<not> isHidden f \<and> declErrors d = []
        \<and> (\<exists>fn re. classifyMeasureAdditivity f = Additive fn re) \<and> (\<forall>g \<in> snd ` set (grains d). valid_grain M src g))"

lemma somes_Nil: "somes xs = [] \<longleftrightarrow> (\<forall>x \<in> set xs. x = None)"
  by (induction xs rule: somes.induct) auto

lemma validate_grain_refused:
  "refused (validate_grain M src n b g v) = [] \<longleftrightarrow> refused v = [] \<and> valid_grain M src g"
  by (auto simp: validate_grain_def Let_def valid_grain_def somes_Nil)

lemma validate_grains_refused:
  "refused (fold (validate_grain M src n b) gs v) = [] \<longleftrightarrow> refused v = [] \<and> (\<forall>g \<in> set gs. valid_grain M src g)"
  by (induction gs arbitrary: v) (auto simp: validate_grain_refused)

lemma validate_field_refused:
  "refused (validate_field M src f v) = [] \<longleftrightarrow> refused v = [] \<and> clean_field M src f"
  by (cases "classifyMeasureAdditivity f")
    (auto simp: validate_field_def clean_field_def Let_def refuse_def validate_grains_refused sorted_grains_def)

lemma validate_fields_refused:
  "refused (fold (validate_field M src) fs v) = [] \<longleftrightarrow> refused v = [] \<and> (\<forall>f \<in> set fs. clean_field M src f)"
  by (induction fs arbitrary: v) (auto simp: validate_field_refused)

text \<open>On a clean source the rules and the plan read the same grains.\<close>

lemma valid_dimension:
  assumes "validateGrainDimension M src d = None"
  shows "\<not> hidden_dimension src d \<and> (\<exists>f \<in> set (sourceFields src). fieldName f = d)"
proof -
  have one: "d = hd (split_on CHR ''.'' d)" if "length (split_on CHR ''.'' d) \<le> 1"
  proof -
    from that obtain w where "split_on CHR ''.'' d = [w]"
      using split_on_nonempty [of "CHR ''.''" d] by (cases "split_on CHR ''.'' d") auto
    with join_split_on [of "CHR ''.''" d] show ?thesis by simp
  qed
  from assms have "length (split_on CHR ''.'' d) \<le> 1"
    by (simp add: validateGrainDimension_def Let_def split: option.splits if_splits)
  with one assms obtain f where "field_named src d = Some f" "\<not> isHidden f"
    by (auto simp: validateGrainDimension_def Let_def split: option.splits if_splits)
  moreover from this(1) have "f \<in> set (sourceFields src) \<and> fieldName f = d"
    by (auto simp: field_named_def find_Some_iff)
  ultimately show ?thesis by (auto simp: hidden_dimension_def)
qed

lemma clean_field_grains:
  assumes "clean_field M src f" and "declared (readPreaggregateAnnotation M (fieldNotes f))"
  obtains fn re where "classifyMeasureAdditivity f = Additive fn re"
    and "field_grains M src f = map (Pair re) (sorted_grains (collate M) (readPreaggregateAnnotation M (fieldNotes f)))"
proof -
  let ?d = "readPreaggregateAnnotation M (fieldNotes f)"
  from assms obtain fn re where fr: "classifyMeasureAdditivity f = Additive fn re" by (auto simp: clean_field_def Let_def)
  have "grainDims g \<noteq> [] \<and> \<not> list_ex (hidden_dimension src) (grainDims g)" if "g \<in> set (sorted_grains (collate M) ?d)" for g
  proof -
    from that have g: "g \<in> snd ` set (grains ?d)" by (simp add: sorted_grains_def)
    moreover from g assms have "valid_grain M src g" by (auto simp: clean_field_def Let_def)
    ultimately show ?thesis
      using read_notes_well [of M "fieldNotes f"] valid_dimension [of M src]
      by (auto simp: well_read_def valid_grain_def list_ex_iff)
  qed
  then have "List.filter (\<lambda>g. grainDims g \<noteq> [] \<and> \<not> list_ex (hidden_dimension src) (grainDims g)) (sorted_grains (collate M) ?d)
      = sorted_grains (collate M) ?d"
    by (simp add: filter_id_conv)
  with assms fr show ?thesis
    by (intro that [of fn re]) (simp_all add: field_grains_def Let_def clean_field_def)
qed

definition note_all :: "(PreaggregateGrain \<Rightarrow> string option) \<Rightarrow> contribution list \<Rightarrow> choices \<Rightarrow> choices" where
  "note_all sel cs = fold (\<lambda>(n, re, g). note_choice (grain_key (grainDims g)) (sel g) n) cs"

lemma validate_grains_choices:
  "namespacesByGrain (fold (validate_grain M src n True) gs v) = note_all grainNamespace (map (\<lambda>g. (n, re, g)) gs) (namespacesByGrain v)
   \<and> storagesByGrain (fold (validate_grain M src n True) gs v) = note_all grainStorage (map (\<lambda>g. (n, re, g)) gs) (storagesByGrain v)
   \<and> anyDeclared (fold (validate_grain M src n True) gs v) = anyDeclared v"
proof (induction gs arbitrary: v)
  case Nil
  show ?case by (simp add: note_all_def)
next
  case (Cons g gs)
  show ?case using Cons [of "validate_grain M src n True g v"] by (simp add: note_all_def validate_grain_def Let_def)
qed

lemma validate_field_choices:
  assumes "clean_field M src f"
  shows "namespacesByGrain (validate_field M src f v)
        = note_all grainNamespace (map (\<lambda>(re, g). (fieldName f, re, g)) (field_grains M src f)) (namespacesByGrain v)
     \<and> storagesByGrain (validate_field M src f v)
        = note_all grainStorage (map (\<lambda>(re, g). (fieldName f, re, g)) (field_grains M src f)) (storagesByGrain v)
     \<and> (anyDeclared (validate_field M src f v) \<longleftrightarrow> anyDeclared v \<or> declared (readPreaggregateAnnotation M (fieldNotes f)))"
proof (cases "declared (readPreaggregateAnnotation M (fieldNotes f))")
  case False
  then show ?thesis by (simp add: validate_field_def field_grains_def note_all_def Let_def)
next
  case True
  then obtain fn re where fr: "classifyMeasureAdditivity f = Additive fn re"
      "field_grains M src f = map (Pair re) (sorted_grains (collate M) (readPreaggregateAnnotation M (fieldNotes f)))"
    using clean_field_grains [OF assms] by blast
  with True assms have "validate_field M src f v = fold (validate_grain M src (fieldName f) True)
      (sorted_grains (collate M) (readPreaggregateAnnotation M (fieldNotes f))) (v\<lparr>anyDeclared := True\<rparr>)"
    by (simp add: validate_field_def clean_field_def Let_def)
  with True fr show ?thesis
    using validate_grains_choices [of M src "fieldName f" "sorted_grains (collate M) (readPreaggregateAnnotation M (fieldNotes f))"
        "v\<lparr>anyDeclared := True\<rparr>" re]
    by (simp add: comp_def)
qed

lemma validate_fields_choices:
  assumes "\<forall>f \<in> set fs. clean_field M src f"
  shows "namespacesByGrain (fold (validate_field M src) fs v)
        = note_all grainNamespace (concat (map (\<lambda>f. map (\<lambda>(re, g). (fieldName f, re, g)) (field_grains M src f)) fs)) (namespacesByGrain v)
     \<and> storagesByGrain (fold (validate_field M src) fs v)
        = note_all grainStorage (concat (map (\<lambda>f. map (\<lambda>(re, g). (fieldName f, re, g)) (field_grains M src f)) fs)) (storagesByGrain v)
     \<and> (anyDeclared (fold (validate_field M src) fs v)
         \<longleftrightarrow> anyDeclared v \<or> (\<exists>f \<in> set fs. declared (readPreaggregateAnnotation M (fieldNotes f))))"
  using assms
proof (induction fs arbitrary: v)
  case Nil
  show ?case by (simp add: note_all_def)
next
  case (Cons f fs)
  then show ?case
    using Cons.IH [of "validate_field M src f v"] validate_field_choices [of M src f v] by (simp add: note_all_def)
qed

lemma note_all_lookup:
  "(case map_of (note_all sel cs []) k of None \<Rightarrow> {} | Some xs \<Rightarrow> fst ` set xs)
     = {x. \<exists>c \<in> set (at_key k cs). sel (snd (snd c)) = Some x}
   \<and> (\<forall>xs. map_of (note_all sel cs []) k = Some xs \<longrightarrow> distinct (map fst xs))"
proof (induction cs rule: rev_induct)
  case Nil
  show ?case by (simp add: note_all_def at_key_def)
next
  case (snoc c cs)
  obtain n re g where c: "c = (n, re, g)" by (metis prod_cases3)
  have step: "note_all sel (cs @ [c]) [] = note_choice (grain_key (grainDims g)) (sel g) n (note_all sel cs [])"
    by (simp add: note_all_def c)
  show ?case
  proof (cases "sel g")
    case None
    with snoc show ?thesis by (simp add: step [unfolded c] note_choice_def at_key_def c)
  next
    case (Some x)
    define named where "named = (case map_of (note_all sel cs []) (grain_key (grainDims g)) of Some xs \<Rightarrow> xs | None \<Rightarrow> [])"
    have lk: "map_of (note_all sel (cs @ [c]) []) k =
        (if k = grain_key (grainDims g) then Some (if x \<in> fst ` set named then named else AList.update x n named)
         else map_of (note_all sel cs []) k)"
      by (simp add: step note_choice_def Some Let_def named_def update_conv')
    have *: "distinct (map fst named)" "k = grain_key (grainDims g) \<Longrightarrow>
        fst ` set named = {x. \<exists>c \<in> set (at_key k cs). sel (snd (snd c)) = Some x}"
      if "k = grain_key (grainDims g)"
      using snoc that by (auto simp: named_def split: option.splits)
    have u: "fst ` set (AList.update x n named) = insert x (fst ` set named)"
      by (simp add: dom_update flip: image_set)
    show ?thesis
    proof (cases "k = grain_key (grainDims g)")
      case False
      with snoc lk show ?thesis by (simp add: at_key_def c)
    next
      case True
      have "at_key k (cs @ [c]) = at_key k cs @ [c]" using True by (simp add: at_key_def c)
      then show ?thesis
        using lk True Some *[OF True] u by (auto simp: c distinct_update)
    qed
  qed
qed

lemma one_choice:
  assumes "conflicts vc (note_all sel cs []) = []"
    and "c1 \<in> set (at_key k cs)" "sel (snd (snd c1)) = Some x" and "c2 \<in> set (at_key k cs)" "sel (snd (snd c2)) = Some y"
  shows "x = y"
proof -
  from note_all_lookup [of sel cs k] assms(2,3) obtain xs where xs: "map_of (note_all sel cs []) k = Some xs"
    by (cases "map_of (note_all sel cs []) k") auto
  then have "(k, xs) \<in> set (note_all sel cs [])" by (rule map_of_SomeD)
  with assms(1) have "length xs < 2" by (auto simp: conflicts_def filter_empty_conv)
  moreover from note_all_lookup [of sel cs k] xs assms(2-5) have "x \<in> fst ` set xs" "y \<in> fst ` set xs" by auto
  ultimately show ?thesis by (cases xs) (auto simp: less_Suc_eq)
qed

lemma accepted_source:
  assumes "validateSourcePreaggregation M src = []"
  shows "(\<forall>f \<in> set (sourceFields src). clean_field M src f)
    \<and> conflicts Conflicting_namespace (note_all grainNamespace (contributions M src) []) = []
    \<and> conflicts Conflicting_storage (note_all grainStorage (contributions M src) []) = []
    \<and> ((\<exists>f \<in> set (sourceFields src). declared (readPreaggregateAnnotation M (fieldNotes f)))
         \<longrightarrow> (\<forall>f \<in> set (sourceFields src). \<not> isFanoutJoin M f))"
proof -
  define v0 :: Validation where "v0 = \<lparr>refused = [], anyDeclared = False, namespacesByGrain = [], storagesByGrain = []\<rparr>"
  define v where "v = fold (validate_field M src) (sourceFields src) v0"
  from assms have a: "refused v = []" "conflicts Conflicting_namespace (namespacesByGrain v) = []"
      "conflicts Conflicting_storage (storagesByGrain v) = []"
      "anyDeclared v \<Longrightarrow> \<forall>f \<in> set (sourceFields src). \<not> isFanoutJoin M f"
    by (simp_all add: validateSourcePreaggregation_def Let_def v_def v0_def filter_empty_conv split: if_splits)
  from a(1) have clean: "\<forall>f \<in> set (sourceFields src). clean_field M src f"
    by (simp add: v_def validate_fields_refused v0_def)
  from validate_fields_choices [OF this, of v0] a clean show ?thesis
    by (simp add: v_def [symmetric] contributions_def) (simp add: v0_def)
qed

subsection \<open>Every accepted declaration is planned\<close>

definition nul_free :: "PreaggSource \<Rightarrow> bool" where
  "nul_free src \<longleftrightarrow> (\<forall>f \<in> set (sourceFields src). CHR 0x00 \<notin> set (fieldName f))"

lemma contribution_dims:
  assumes clean: "\<forall>f \<in> set (sourceFields src). clean_field M src f" and nf: "nul_free src"
    and c: "c \<in> set (contributions M src)"
  shows "grainDims (snd (snd c)) \<noteq> [] \<and> (\<forall>d \<in> set (grainDims (snd (snd c))). CHR 0x00 \<notin> set d)"
proof -
  obtain n re g where cg: "c = (n, re, g)" by (metis prod_cases3)
  with c obtain f where f: "f \<in> set (sourceFields src)" "(re, g) \<in> set (field_grains M src f)" by (auto simp: contribution_iff)
  then have d: "declared (readPreaggregateAnnotation M (fieldNotes f))"
      "g \<in> snd ` set (grains (readPreaggregateAnnotation M (fieldNotes f)))" "grainDims g \<noteq> []"
    by (auto simp: field_grains_iff Let_def)
  with clean f(1) have v: "valid_grain M src g" by (auto simp: clean_field_def Let_def)
  have "CHR 0x00 \<notin> set x" if "x \<in> set (grainDims g)" for x
  proof -
    from v that have "validateGrainDimension M src x = None" by (simp add: valid_grain_def)
    from valid_dimension [OF this] nf show ?thesis by (auto simp: nul_free_def)
  qed
  with d(3) show ?thesis by (simp add: cg)
qed

lemma same_key_same_dims:
  assumes "\<forall>f \<in> set (sourceFields src). clean_field M src f" and "nul_free src"
    and "c \<in> set (at_key k (contributions M src))" and "c' \<in> set (at_key k (contributions M src))"
  shows "grainDims (snd (snd c)) = grainDims (snd (snd c'))"
proof -
  have *: "split_on (CHR 0x00) (grain_key (grainDims (snd (snd c)))) = grainDims (snd (snd c))" if "c \<in> set (contributions M src)" for c
    unfolding grain_key_def using contribution_dims [OF assms(1,2) that] by (intro split_on_join) auto
  from assms(3,4) show ?thesis
    using * [of c] * [of c'] by (auto simp: at_key_def)
qed

lemma at_key_sub: "c \<in> set (at_key k cs) \<longleftrightarrow> c \<in> set cs \<and> contribution_key c = k"
  by (auto simp: at_key_def)

lemma chosen_namespace:
  assumes "conflicts vc (note_all sel cs []) = []" and "c \<in> set (at_key k cs)" and "sel (snd (snd c)) = Some x"
  shows "first_some (map (sel \<circ> snd \<circ> snd) (at_key k cs)) = Some x"
proof (rule first_some_unique)
  show "Some x \<in> set (map (sel \<circ> snd \<circ> snd) (at_key k cs))" using assms(2,3) by force
  show "y = x" if "Some y \<in> set (map (sel \<circ> snd \<circ> snd) (at_key k cs))" for y
  proof -
    from that obtain c' where "c' \<in> set (at_key k cs)" "sel (snd (snd c')) = Some y" by auto
    from one_choice [OF assms(1) this assms(2,3)] show ?thesis .
  qed
qed

lemma planned_contribution:
  fixes base :: string and parseTags :: "AnnotationsDef \<Rightarrow> Tag option"
  assumes ok: "validateSourcePreaggregation M src = []" "nul_free src" and c: "(n, re, g) \<in> set (contributions M src)"
  defines "p \<equiv> plan_of_entry M base (basePersistNamespace parseTags src) (entry_of (at_key (grain_key (grainDims g)) (contributions M src)))"
  shows "p \<in> set (planSourcePreaggregation M parseTags base src)" and "grainDimensions p = grainDims g"
    and "(n, n @ PARTIAL_SUFFIX, re) \<in> set (rollupMeasures p)"
    and "\<And>s. grainStorage g = Some s \<Longrightarrow> planStorage p = Some s"
    and "\<And>s. grainNamespace g = Some s \<Longrightarrow> planNamespace p = Some s"
proof -
  note a = accepted_source [OF ok(1)]
  let ?k = "grain_key (grainDims g)"
  have k: "(n, re, g) \<in> set (at_key ?k (contributions M src))" using c by (simp add: at_key_sub)
  then have ne: "at_key ?k (contributions M src) \<noteq> []" by auto
  then show "p \<in> set (planSourcePreaggregation M parseTags base src)" by (auto simp: plan_member p_def)
  show "grainDimensions p = grainDims g"
    using same_key_same_dims [OF conjunct1 [OF a] ok(2) hd_in_set [OF ne] k] by (simp add: p_def plan_of_entry_def entry_of_def)
  show "(n, n @ PARTIAL_SUFFIX, re) \<in> set (rollupMeasures p)"
    using k by (force simp: p_def plan_of_entry_def entry_of_def)
  show "planStorage p = Some s" if "grainStorage g = Some s" for s
    using chosen_namespace [of Conflicting_storage grainStorage, OF _ k] a that by (simp add: p_def plan_of_entry_def entry_of_def)
  show "planNamespace p = Some s" if "grainNamespace g = Some s" for s
    using chosen_namespace [of Conflicting_namespace grainNamespace, OF _ k] a that
    by (simp add: p_def plan_of_entry_def entry_of_def or_else_def)
qed

lemma plan_determined:
  assumes ok: "validateSourcePreaggregation M src = []" "nul_free src"
    and p: "p \<in> set (planSourcePreaggregation M parseTags base src)" and q: "q \<in> set (planSourcePreaggregation M parseTags base src)"
    and eq: "grainDimensions p = grainDimensions q"
  shows "p = q"
proof -
  have key: "grain_key (grainDimensions r) = k"
    if "at_key k (contributions M src) \<noteq> []" "r = plan_of_entry M base (basePersistNamespace parseTags src) (entry_of (at_key k (contributions M src)))" for r k
    using hd_in_set [OF that(1)] by (simp add: that(2) plan_of_entry_def entry_of_def at_key_sub)
  from p q eq show ?thesis unfolding plan_member using key by metis
qed

text \<open>
  What the rules accept is built: each grain of each declared measure of an accepted source is one rollup,
  no other rollup has that grain, it carries the measure's partial, and it is placed where the measure says,
  because two measures that disagree are refused. Field names hold no NUL, the separator of the grain key.
\<close>

theorem accepted_grains_are_planned:
  assumes "validateSourcePreaggregation M src = []" and "nul_free src"
    and "f \<in> set (sourceFields src)" and "declared (readPreaggregateAnnotation M (fieldNotes f))"
    and "g \<in> snd ` set (grains (readPreaggregateAnnotation M (fieldNotes f)))"
  shows "\<exists>p \<in> set (planSourcePreaggregation M parseTags base src).
      grainDimensions p = grainDims g
    \<and> (\<exists>re. (fieldName f, fieldName f @ PARTIAL_SUFFIX, re) \<in> set (rollupMeasures p))
    \<and> grainStorage g \<in> {None, planStorage p} \<and> grainNamespace g \<in> {None, planNamespace p}
    \<and> (\<forall>q \<in> set (planSourcePreaggregation M parseTags base src). grainDimensions q = grainDims g \<longrightarrow> q = p)"
proof -
  have "clean_field M src f" using accepted_source [OF assms(1)] assms(3) by blast
  from clean_field_grains [OF this assms(4)] obtain re where
    "field_grains M src f = map (Pair re) (sorted_grains (collate M) (readPreaggregateAnnotation M (fieldNotes f)))" by metis
  with assms(5) have "(re, g) \<in> set (field_grains M src f)" by (simp add: sorted_grains_def)
  with assms(3) have c: "(fieldName f, re, g) \<in> set (contributions M src)" by (auto simp: contribution_iff)
  note pc = planned_contribution [where base = base and parseTags = parseTags, OF assms(1,2) c]
  define p where "p = plan_of_entry M base (basePersistNamespace parseTags src)
      (entry_of (at_key (grain_key (grainDims g)) (contributions M src)))"
  note pc = pc [folded p_def]
  have "q = p" if "q \<in> set (planSourcePreaggregation M parseTags base src)" "grainDimensions q = grainDims g" for q
    by (rule plan_determined [OF assms(1,2) that(1) pc(1)]) (simp add: that(2) pc(2))
  moreover have "grainStorage g \<in> {None, planStorage p}" using pc(4) by (cases "grainStorage g") auto
  moreover have "grainNamespace g \<in> {None, planNamespace p}" using pc(5) by (cases "grainNamespace g") auto
  moreover have "\<exists>re. (fieldName f, fieldName f @ PARTIAL_SUFFIX, re) \<in> set (rollupMeasures p)" using pc(3) by blast
  ultimately show ?thesis by (intro bexI [OF _ pc(1)] conjI pc(2)) auto
qed

subsection \<open>The plan does not depend on the order of the fields\<close>

definition total_order :: "('a \<Rightarrow> 'a \<Rightarrow> bool) \<Rightarrow> bool" where
  "total_order le \<longleftrightarrow> (\<forall>x y. le x y \<or> le y x) \<and> (\<forall>x y z. le x y \<longrightarrow> le y z \<longrightarrow> le x z) \<and> (\<forall>x y. le x y \<longrightarrow> le y x \<longrightarrow> x = y)"

lemma mset_insert_by: "mset (insert_by le x ys) = add_mset x (mset ys)"
  by (induction ys) auto

lemma mset_sort_by [simp]: "mset (sort_by le xs) = mset xs"
  by (induction xs) (simp_all add: sort_by_def mset_insert_by)

lemma sorted_insert_by:
  assumes "\<And>x y. le x y \<or> le y x" and "\<And>x y z. le x y \<Longrightarrow> le y z \<Longrightarrow> le x z"
  shows "sorted_wrt le ys \<Longrightarrow> sorted_wrt le (insert_by le x ys)"
proof (induction ys)
  case Nil
  show ?case by simp
next
  case (Cons y ys)
  have "set (insert_by le x ys) = insert x (set ys)" by (metis mset_insert_by set_mset_add_mset_insert set_mset_mset)
  with Cons assms show ?case by (auto)
qed

lemma sorted_sort_by:
  assumes "\<And>x y. le x y \<or> le y x" and "\<And>x y z. le x y \<Longrightarrow> le y z \<Longrightarrow> le x z"
  shows "sorted_wrt le (sort_by le xs)"
proof (induction xs)
  case (Cons x xs)
  show ?case unfolding sort_by_def foldr_Cons comp_apply
    by (rule sorted_insert_by [OF assms]) (use Cons in \<open>simp_all add: sort_by_def\<close>)
qed (simp add: sort_by_def)

lemma sorted_unique:
  assumes "sorted_wrt le xs" "sorted_wrt le ys" "mset xs = mset ys"
    and "\<And>x y. x \<in> set xs \<Longrightarrow> y \<in> set xs \<Longrightarrow> le x y \<Longrightarrow> le y x \<Longrightarrow> x = y"
  shows "xs = ys"
  using assms
proof (induction xs arbitrary: ys)
  case Nil
  then show ?case by simp
next
  case (Cons x xs)
  then obtain y zs where ys: "ys = y # zs" by (cases ys) auto
  have st: "set (x # xs) = set ys" using Cons.prems(3) by (metis set_mset_mset)
  have "x = y"
  proof (rule ccontr)
    assume ne: "x \<noteq> y"
    with st ys have "y \<in> set xs" "x \<in> set zs" by auto
    with Cons.prems(1,2) ys have "le x y" "le y x" by auto
    with Cons.prems(4) st ys ne show False by (metis list.set_intros(1))
  qed
  moreover from this Cons.prems ys have "xs = zs" by (intro Cons.IH) auto
  ultimately show ?case by (simp add: ys)
qed

lemma sort_by_unique:
  assumes "\<And>x y. le x y \<or> le y x" and "\<And>x y z. le x y \<Longrightarrow> le y z \<Longrightarrow> le x z" and "mset xs = mset ys"
    and "\<And>x y. x \<in> set xs \<Longrightarrow> y \<in> set xs \<Longrightarrow> le x y \<Longrightarrow> le y x \<Longrightarrow> x = y"
  shows "sort_by le xs = sort_by le ys"
  by (rule sorted_unique [of le]) (use assms sorted_sort_by [OF assms(1,2)] in \<open>auto\<close>)

definition reordered :: "PreaggSource \<Rightarrow> PreaggSource \<Rightarrow> bool" where
  "reordered src src' \<longleftrightarrow> sourceNotes src' = sourceNotes src \<and> mset (sourceFields src') = mset (sourceFields src)"

lemma reordered_fields: "reordered src src' \<Longrightarrow> set (sourceFields src') = set (sourceFields src)"
  by (metis reordered_def set_mset_mset)

lemma field_named_reordered:
  assumes "reordered src src'" and "distinct (map fieldName (sourceFields src))"
  shows "field_named src' n = field_named src n"
proof -
  have uniq: "field_named s n = Some f \<longleftrightarrow> f \<in> set (sourceFields s) \<and> fieldName f = n"
    if "distinct (map fieldName (sourceFields s))" for s f
  proof
    assume "f \<in> set (sourceFields s) \<and> fieldName f = n"
    moreover from this have "field_named s n \<noteq> None" by (auto simp: field_named_def find_None_iff)
    then obtain g where "field_named s n = Some g" by blast
    moreover from this have "g \<in> set (sourceFields s) \<and> fieldName g = n" by (auto simp: field_named_def find_Some_iff)
    ultimately show "field_named s n = Some f" using that by (metis (no_types, lifting) distinct_map inj_on_def)
  qed (auto simp: field_named_def find_Some_iff)
  have "mset (map fieldName (sourceFields src')) = mset (map fieldName (sourceFields src))"
    using assms(1) by (simp add: reordered_def)
  then have "distinct (map fieldName (sourceFields src'))" using assms(2) by (metis mset_eq_imp_distinct_iff)
  from uniq [OF this] uniq [OF assms(2)] have "field_named src' n = Some f \<longleftrightarrow> field_named src n = Some f" for f
    by (simp add: reordered_fields [OF assms(1)])
  then show ?thesis by (cases "field_named src n"; cases "field_named src' n") auto
qed

lemma mset_concat_perm: "mset xs = mset ys \<Longrightarrow> mset (concat (map h xs)) = mset (concat (map h ys))"
proof -
  assume "mset xs = mset ys"
  then have "image_mset (mset \<circ> h) (mset xs) = image_mset (mset \<circ> h) (mset ys)" by simp
  then show ?thesis by (simp add: mset_concat comp_def image_mset.compositionality flip: sum_mset_sum_list mset_map)
qed

lemma contributions_reordered:
  assumes "reordered src src'" and "distinct (map fieldName (sourceFields src))"
  shows "mset (contributions M src') = mset (contributions M src)"
proof -
  have "hidden_dimension src' = hidden_dimension src"
    by (rule ext) (simp add: hidden_dimension_def field_named_reordered [OF assms])
  then have "field_grains M src' = field_grains M src" by (intro ext) (simp only: field_grains_def)
  then show ?thesis
    using assms(1) mset_concat_perm [of "sourceFields src'" "sourceFields src"] by (simp add: contributions_def reordered_def)
qed

lemma contribution_names:
  assumes "distinct (map fieldName (sourceFields src))"
  shows "distinct (map (\<lambda>c. (fst c, contribution_key c)) (contributions M src))"
proof -
  let ?key = "\<lambda>c :: contribution. (fst c, contribution_key c)"
  have one: "distinct (map ?key (map (\<lambda>(re, g). (fieldName f, re, g)) (field_grains M src f)))" for f
  proof -
    define d where "d = readPreaggregateAnnotation M (fieldNotes f)"
    have "map (grain_key \<circ> grainDims) (map snd (grains d)) = map fst (grains d)"
      using read_notes_well [of M "fieldNotes f"] by (auto simp: d_def [symmetric] well_read_def)
    moreover have "distinct (map fst (grains d))" using read_notes_well [of M "fieldNotes f"] by (simp add: d_def [symmetric] well_read_def)
    ultimately have "distinct (map (grain_key \<circ> grainDims) (map snd (grains d)))" by (simp only:)
    then have "distinct (map (grain_key \<circ> grainDims) (sorted_grains (collate M) d))"
      unfolding sorted_grains_def sort_by_distinct .
    then have "distinct (map (grain_key \<circ> grainDims) (map snd (field_grains M src f)))"
      by (auto simp: field_grains_def Let_def d_def [symmetric] comp_def distinct_map_filter split: AdditivityResult.split)
    then have "distinct (map (Pair (fieldName f)) (map (grain_key \<circ> grainDims) (map snd (field_grains M src f))))"
      by (subst distinct_map) (simp add: inj_on_def)
    then show ?thesis by (simp add: comp_def case_prod_unfold)
  qed
  have "distinct (map ?key (concat (map (\<lambda>f. map (\<lambda>(re, g). (fieldName f, re, g)) (field_grains M src f)) fs)))"
    if "distinct (map fieldName fs)" for fs
    using that
  proof (induction fs)
    case (Cons f fs)
    have "fieldName f \<notin> fst ` set (concat (map (\<lambda>f. map (\<lambda>(re, g). (fieldName f, re, g)) (field_grains M src f)) fs))"
      using Cons.prems by auto
    with Cons one [of f] show ?case by (auto simp: image_iff)
  qed simp
  with assms show ?thesis by (simp add: contributions_def)
qed

lemma at_key_names:
  assumes "distinct (map fieldName (sourceFields src))"
  shows "distinct (map fst (at_key k (contributions M src)))"
proof -
  have "distinct (map (\<lambda>c. (fst c, contribution_key c)) (at_key k (contributions M src)))"
    using contribution_names [OF assms, of M] by (simp add: at_key_def distinct_map_filter)
  then have "distinct (map (\<lambda>c. (fst c, k)) (at_key k (contributions M src)))"
    by (rule back_subst [where P = distinct]) (auto simp: at_key_def)
  then show ?thesis by (simp add: distinct_map inj_on_def)
qed

lemma narrower_total: "total_order le \<Longrightarrow> narrower le p q \<or> narrower le q p"
proof -
  assume "total_order le"
  then have "le (rollupSourceName p) (rollupSourceName q) \<or> le (rollupSourceName q) (rollupSourceName p)"
    by (simp add: total_order_def)
  then show ?thesis by (auto simp: narrower_def)
qed

lemma narrower_trans: "total_order le \<Longrightarrow> narrower le p q \<Longrightarrow> narrower le q r \<Longrightarrow> narrower le p r"
proof -
  assume "total_order le" and n: "narrower le p q" "narrower le q r"
  then have "le (rollupSourceName p) (rollupSourceName q) \<Longrightarrow> le (rollupSourceName q) (rollupSourceName r)
      \<Longrightarrow> le (rollupSourceName p) (rollupSourceName r)"
    unfolding total_order_def by blast
  with n show ?thesis by (auto simp: narrower_def)
qed

lemma narrower_antisym:
  "total_order le \<Longrightarrow> narrower le p q \<Longrightarrow> narrower le q p \<Longrightarrow> rollupSourceName p = rollupSourceName q"
proof -
  assume o: "total_order le" and n: "narrower le p q" "narrower le q p"
  then have "le (rollupSourceName p) (rollupSourceName q)" "le (rollupSourceName q) (rollupSourceName p)"
    by (auto simp: narrower_def)
  with o show ?thesis unfolding total_order_def by blast
qed

lemma first_some_perm:
  assumes "set xs = set ys" and "\<And>x y. Some x \<in> set xs \<Longrightarrow> Some y \<in> set xs \<Longrightarrow> x = y"
  shows "first_some xs = first_some ys"
proof (cases "first_some xs")
  case None
  have "first_some ys = None"
  proof (rule first_some_None)
    fix y
    show "Some y \<notin> set ys"
    proof
      assume "Some y \<in> set ys"
      then have "Some y \<in> set xs" by (simp add: assms(1))
      with assms(2) have "first_some xs = Some y" by (intro first_some_unique) auto
      with None show False by simp
    qed
  qed
  with None show ?thesis by simp
next
  case (Some x)
  then have x: "Some x \<in> set ys" using first_some_Some assms(1) by fastforce
  then have "first_some ys = Some x" by (rule first_some_unique) (use assms x in auto)
  with Some show ?thesis by simp
qed

lemma entry_reordered:
  assumes ok: "validateSourcePreaggregation M src = []" "nul_free src" "distinct (map fieldName (sourceFields src))"
    and perm: "mset cs' = mset (contributions M src)" and col: "total_order (collate M)"
    and ne: "at_key k (contributions M src) \<noteq> []"
  shows "plan_of_entry M base ns (entry_of (at_key k cs')) = plan_of_entry M base ns (entry_of (at_key k (contributions M src)))"
proof -
  let ?C = "at_key k (contributions M src)" and ?D = "at_key k cs'"
  note a = accepted_source [OF ok(1)]
  have m: "mset ?D = mset ?C" unfolding at_key_def mset_filter perm ..
  then have s: "set ?D = set ?C" by (metis set_mset_mset)
  with ne have ne': "?D \<noteq> []" by auto
  have dims: "grainDims (snd (snd (hd ?D))) = grainDims (snd (snd (hd ?C)))"
    using same_key_same_dims [OF conjunct1 [OF a] ok(2), of "hd ?D" k "hd ?C"] hd_in_set [OF ne] hd_in_set [OF ne'] s by simp
  have sel: "first_some (map (f \<circ> snd \<circ> snd) ?D) = first_some (map (f \<circ> snd \<circ> snd) ?C)"
    if "conflicts vc (note_all f (contributions M src) []) = []" for vc and f :: "PreaggregateGrain \<Rightarrow> string option"
  proof (rule first_some_perm)
    show "set (map (f \<circ> snd \<circ> snd) ?D) = set (map (f \<circ> snd \<circ> snd) ?C)" using s by simp
    show "x = y" if "Some x \<in> set (map (f \<circ> snd \<circ> snd) ?D)" "Some y \<in> set (map (f \<circ> snd \<circ> snd) ?D)" for x y
    proof -
      from that s obtain c d where "c \<in> set ?C" "f (snd (snd c)) = Some x" "d \<in> set ?C" "f (snd (snd d)) = Some y" by auto
      then show ?thesis by (rule one_choice [OF \<open>conflicts vc (note_all f (contributions M src) []) = []\<close>])
    qed
  qed
  define h where "h = (\<lambda>(n, re :: string, g :: PreaggregateGrain). (n :: string, n @ PARTIAL_SUFFIX, re))"
  have h: "fst (h c) = fst c" for c by (simp add: h_def split: prod.split)
  have "sort_by (\<lambda>x y. collate M (fst x) (fst y)) (map h ?D) = sort_by (\<lambda>x y. collate M (fst x) (fst y)) (map h ?C)"
  proof (rule sort_by_unique)
    show "mset (map h ?D) = mset (map h ?C)" using m by simp
    have "map fst (map h ?C) = map fst ?C" using h by simp
    then have "distinct (map fst (map h ?C))" using at_key_names [OF ok(3), of k M] by (simp only:)
    then have "inj_on fst (set (map h ?C))" by (metis distinct_map)
    then have inj: "inj_on fst (set (map h ?D))" using s by simp
    show "x = y" if "x \<in> set (map h ?D)" "y \<in> set (map h ?D)" "collate M (fst x) (fst y)" "collate M (fst y) (fst x)" for x y
    proof -
      from that col have "fst x = fst y" unfolding total_order_def by blast
      from inj_onD [OF inj this that(1,2)] show ?thesis .
    qed
    show "collate M (fst x) (fst y) \<or> collate M (fst y) (fst x)" for x y :: "string \<times> string \<times> string"
      using col unfolding total_order_def by blast
    show "collate M (fst x) (fst z)" if "collate M (fst x) (fst y)" "collate M (fst y) (fst z)" for x y z :: "string \<times> string \<times> string"
      using col that unfolding total_order_def by blast
  qed
  then show ?thesis
    using sel [of Conflicting_namespace grainNamespace] sel [of Conflicting_storage grainStorage] a dims
    by (simp add: plan_of_entry_def entry_of_def h_def)
qed

text \<open>
  The plan is a function of what is declared, not of the order in which the compiler reports the fields:
  a source with the same fields in any order has the same rollups, in the same order, with the same names,
  placement and measures, so the model that builds the tables and the model that serves them agree.
  Collation is a total order, and rollups of different grains have different names (no digest collides).
\<close>

theorem plan_ignores_field_order:
  assumes "validateSourcePreaggregation M src = []" and "nul_free src"
    and "distinct (map fieldName (sourceFields src))" and "reordered src src'" and "total_order (collate M)"
    and "distinct (map rollupSourceName (planSourcePreaggregation M parseTags base src))"
  shows "planSourcePreaggregation M parseTags base src' = planSourcePreaggregation M parseTags base src"
proof -
  let ?C = "contributions M src" and ?D = "contributions M src'"
  let ?pl = "\<lambda>cs k. plan_of_entry M base (basePersistNamespace parseTags src) (entry_of (at_key k cs))"
  have perm: "mset ?D = mset ?C" by (rule contributions_reordered [OF assms(4,3)])
  have inh: "basePersistNamespace parseTags src' = basePersistNamespace parseTags src"
    using assms(4) by (simp add: basePersistNamespace_def reordered_def)
  have as_keys: "map snd (add_all cs []) = map (\<lambda>k. entry_of (at_key k cs)) (map fst (add_all cs []))" for cs
    using add_all_entries [of cs] by auto
  have keys: "set (map fst (add_all cs [])) = contribution_key ` set cs" for cs
    by (force simp: add_all_entries at_key_def filter_empty_conv)
  have "set ?D = set ?C" using perm by (metis set_mset_mset)
  then have mk: "mset (map fst (add_all ?D [])) = mset (map fst (add_all ?C []))"
    using add_all_keys keys by (intro set_eq_iff_mset_eq_distinct [THEN iffD1]) auto
  have same: "?pl ?D k = ?pl ?C k" if "k \<in> set (map fst (add_all ?D []))" for k
  proof -
    from that keys [of ?D] \<open>set ?D = set ?C\<close> have "at_key k ?C \<noteq> []" by (auto simp: at_key_def filter_empty_conv)
    from entry_reordered [OF assms(1-3) perm assms(5) this] show ?thesis .
  qed
  have "map (plan_of_entry M base (basePersistNamespace parseTags src) \<circ> snd) (add_all cs []) = map (?pl cs) (map fst (add_all cs []))" for cs
  proof -
    have "map (plan_of_entry M base (basePersistNamespace parseTags src) \<circ> snd) (add_all cs [])
        = map (plan_of_entry M base (basePersistNamespace parseTags src)) (map snd (add_all cs []))" by simp
    also have "\<dots> = map (?pl cs) (map fst (add_all cs []))" unfolding as_keys by simp
    finally show ?thesis .
  qed
  then have mm: "mset (map (plan_of_entry M base (basePersistNamespace parseTags src) \<circ> snd) (add_all ?D []))
      = mset (map (plan_of_entry M base (basePersistNamespace parseTags src) \<circ> snd) (add_all ?C []))"
  proof -
    assume pl: "\<And>cs. map (plan_of_entry M base (basePersistNamespace parseTags src) \<circ> snd) (add_all cs []) = map (?pl cs) (map fst (add_all cs []))"
    have "mset (map (?pl ?D) (map fst (add_all ?D []))) = mset (map (?pl ?C) (map fst (add_all ?D [])))"
      by (rule arg_cong [where f = mset]) (rule map_cong [OF refl same])
    also have "\<dots> = image_mset (?pl ?C) (mset (map fst (add_all ?D [])))" by (rule mset_map)
    also have "\<dots> = mset (map (?pl ?C) (map fst (add_all ?C [])))" unfolding mk by (rule mset_map [symmetric])
    finally show ?thesis by (simp only: pl)
  qed
  have plans: "set (map (plan_of_entry M base (basePersistNamespace parseTags src) \<circ> snd) (add_all ?D []))
      = set (planSourcePreaggregation M parseTags base src)"
    using mm by (metis plans_of_source mset_eq_setD sort_by_set)
  have "sort_by (narrower (collate M)) (map (plan_of_entry M base (basePersistNamespace parseTags src) \<circ> snd) (add_all ?D []))
      = sort_by (narrower (collate M)) (map (plan_of_entry M base (basePersistNamespace parseTags src) \<circ> snd) (add_all ?C []))"
  proof (rule sort_by_unique)
    show "narrower (collate M) p q \<or> narrower (collate M) q p" for p q
      by (rule narrower_total [OF assms(5)])
    show "narrower (collate M) p r" if "narrower (collate M) p q" "narrower (collate M) q r" for p q r
      by (rule narrower_trans [OF assms(5) that])
    show "p = q" if pq: "p \<in> set (map (plan_of_entry M base (basePersistNamespace parseTags src) \<circ> snd) (add_all ?D []))"
      "q \<in> set (map (plan_of_entry M base (basePersistNamespace parseTags src) \<circ> snd) (add_all ?D []))"
      and n: "narrower (collate M) p q" "narrower (collate M) q p" for p q
    proof -
      have "rollupSourceName p = rollupSourceName q" by (rule narrower_antisym [OF assms(5) n])
      with pq plans assms(6) show ?thesis by (auto simp: distinct_map inj_on_def)
    qed
  qed (rule mm)
  then show ?thesis by (simp only: plans_of_source inh)
qed

text \<open>
  A namespace lent by a \<open>#@ persist name=\<close> is everything before the last dot, in plain segments, and a
  name made of one and a table name gives it back.
\<close>

lemma last_index_of_snoc: "c \<notin> set t \<Longrightarrow> last_index_of c (s @ c # t) = Some (length s)"
proof -
  assume t: "c \<notin> set t"
  then obtain N where N: "last_index_of c t = N" "N = None" by simp
  show ?thesis by (induction s) (simp_all add: N)
qed

lemma last_index_of_Some: "last_index_of c s = Some i \<Longrightarrow> i < length s \<and> s ! i = c \<and> s = take i s @ c # drop (Suc i) s"
proof (induction s arbitrary: i)
  case (Cons x xs)
  then show ?case by (cases "last_index_of c xs") (auto split: if_splits)
qed simp

theorem persist_namespace_round_trip:
  assumes "isSpliceableNamespace ns" and "CHR ''.'' \<notin> set t" and "js_trim t \<noteq> []"
  shows "persistNamespace (Some (ns @ ''.'' @ t)) = Some ns
    \<and> (\<forall>n m. persistNamespace (Some n) = Some m \<longrightarrow> isSpliceableNamespace m \<and> dquote \<notin> set m \<and> (\<exists>r. n = m @ ''.'' @ r))"
proof -
  have seg: "dquote \<notin> set w \<and> w \<noteq> []" if "NAMESPACE_SEGMENT w" for w
    using that by (auto simp: NAMESPACE_SEGMENT_def list_all_iff char_class_defs dquote_def split: list.splits)
  have nonempty: "ns \<noteq> []" using assms(1) by (auto simp: isSpliceableNamespace_def NAMESPACE_SEGMENT_def)
  have noquote: "dquote \<notin> set m" if "isSpliceableNamespace m" for m
  proof
    assume "dquote \<in> set m"
    moreover have "set (join sep ws) \<subseteq> set sep \<union> \<Union> (set (map set ws))" for sep :: string and ws
      by (induction sep ws rule: join.induct) auto
    from this [of "''.''" "split_on CHR ''.'' m"] have "set m \<subseteq> {CHR ''.''} \<union> \<Union> (set (map set (split_on CHR ''.'' m)))" by simp
    ultimately show False using that seg by (auto simp: isSpliceableNamespace_def list_all_iff dquote_def)
  qed
  have "isSpliceableNamespace m \<and> (\<exists>r. n = m @ ''.'' @ r)" if "persistNamespace (Some n) = Some m" for n m
    using that last_index_of_Some [of "CHR ''.''" n]
    by (auto simp: persistNamespace_def split: option.splits if_splits)
  with noquote have 2: "\<forall>n m. persistNamespace (Some n) = Some m \<longrightarrow> isSpliceableNamespace m \<and> dquote \<notin> set m \<and> (\<exists>r. n = m @ ''.'' @ r)"
    by blast
  have 1: "persistNamespace (Some (ns @ ''.'' @ t)) = Some ns"
    using assms nonempty last_index_of_snoc [OF assms(2), of ns] by (simp add: persistNamespace_def)
  from 1 2 show ?thesis by blast
qed

subsection \<open>Witnesses\<close>

definition demo_malloy :: MalloyTypes where
  "demo_malloy = \<lparr>isJoined = (\<lambda>f. fieldJoin f \<noteq> None), expressionIsAggregate = (\<lambda>t. t = Some ''aggregate''),
     expressionIsAnalytic = (\<lambda>_. False),
     parseAsTag = (\<lambda>n. Some \<lparr>tagHas = (\<lambda>k. k = ''preaggregate''),
       tagText = (\<lambda>p. if p = [''grain''] then Some (noteText n) else if p = [''storage''] then Some ''lake'' else None)\<rparr>),
     collate = (\<le>), shaDigest = id\<rparr>"

definition demo_preagg :: PreaggSource where
  "demo_preagg = \<lparr>sourceNotes = None,
     sourceFields = [demo_field ''region'' None, demo_field ''total'' (Some demo_sum), demo_field ''n'' (Some demo_count)]\<rparr>"

lemma demo_order: "total_order ((\<le>) :: string \<Rightarrow> string \<Rightarrow> bool)"
  by (auto simp: total_order_def)

lemma demo_rollup_planned:
  "map rollupMeasures (planSourcePreaggregation demo_malloy (\<lambda>_. None) ''orders'' demo_preagg)
     = [[(''n'', ''n__partial'', ''sum''), (''total'', ''total__partial'', ''sum'')]]"
  by code_simp


lemma demo_accepted: "validateSourcePreaggregation demo_malloy demo_preagg = []"
  by code_simp

text \<open>The sum through a \<open>join_one\<close> that \<open>joined_sum_overcounts\<close> measures is accepted at publish and planned.\<close>

definition demo_joined_source :: PreaggSource where
  "demo_joined_source = \<lparr>sourceNotes = None,
     sourceFields = [(demo_field ''customer'' None)\<lparr>fieldJoin := Some ''one''\<rparr>, demo_field ''region'' None,
       demo_field ''balance'' (Some demo_joined)]\<rparr>"

lemma joined_sum_is_planned:
  "validateSourcePreaggregation demo_malloy demo_joined_source = []
   \<and> map rollupMeasures (planSourcePreaggregation demo_malloy (\<lambda>_. None) ''orders'' demo_joined_source)
     = [[(''balance'', ''balance__partial'', ''sum'')]]"
  by (intro conjI) code_simp+

lemma demo_nul_free: "nul_free demo_preagg"
  by (simp add: nul_free_def demo_preagg_def demo_field_def fieldName_def)

lemma accepted_grains_are_planned_witness:
  "\<exists>p \<in> set (planSourcePreaggregation demo_malloy (\<lambda>_. None) ''orders'' demo_preagg).
      grainDimensions p = [''region''] \<and> planStorage p = Some ''lake''"
proof -
  let ?f = "demo_field ''total'' (Some demo_sum)"
  let ?g = "\<lparr>grainDims = [''region''], grainText = ''region'', grainNamespace = None, grainStorage = Some ''lake''\<rparr>"
  have g: "map snd (grains (readPreaggregateAnnotation demo_malloy (fieldNotes ?f))) = [?g]" by code_simp
  have "?f \<in> set (sourceFields demo_preagg)" by (simp add: demo_preagg_def)
  moreover have "declared (readPreaggregateAnnotation demo_malloy (fieldNotes ?f))" by code_simp
  moreover have "?g \<in> snd ` set (grains (readPreaggregateAnnotation demo_malloy (fieldNotes ?f)))"
    unfolding image_set g by simp
  ultimately obtain p where "p \<in> set (planSourcePreaggregation demo_malloy (\<lambda>_. None) ''orders'' demo_preagg)"
      "grainDimensions p = grainDims ?g" "grainStorage ?g \<in> {None, planStorage p}"
    using accepted_grains_are_planned [OF demo_accepted demo_nul_free, of ?f ?g "\<lambda>_. None" "''orders''"] by blast
  then show ?thesis by (intro bexI [of _ p]) simp_all
qed

lemma plan_ignores_field_order_witness:
  "planSourcePreaggregation demo_malloy (\<lambda>_. None) ''orders'' (demo_preagg\<lparr>sourceFields := rev (sourceFields demo_preagg)\<rparr>)
     = planSourcePreaggregation demo_malloy (\<lambda>_. None) ''orders'' demo_preagg"
proof (rule plan_ignores_field_order [OF demo_accepted demo_nul_free])
  show "distinct (map fieldName (sourceFields demo_preagg))" by code_simp
  show "reordered demo_preagg (demo_preagg\<lparr>sourceFields := rev (sourceFields demo_preagg)\<rparr>)" by (simp add: reordered_def)
  show "total_order (collate demo_malloy)" by (simp add: demo_malloy_def demo_order)
  show "distinct (map rollupSourceName (planSourcePreaggregation demo_malloy (\<lambda>_. None) ''orders'' demo_preagg))" by code_simp
qed

lemma persist_namespace_round_trip_witness:
  "persistNamespace (Some ''my-project.analytics.orders'') = Some ''my-project.analytics''"
proof -
  have "isSpliceableNamespace ''my-project.analytics''" "js_trim ''orders'' \<noteq> []" by code_simp+
  from persist_namespace_round_trip [OF this(1) _ this(2)] show ?thesis by simp
qed

end
