(* ===== verification/PackageLifecycle.thy ===== *)
theory PackageLifecycle
  imports Prelude
begin

text \<open>
  The life of one package of an environment (\<open>service/environment.ts\<close>): loading, listing, adding,
  installing, deleting, unloading and the transactional write of a model file. Every map of the
  environment is keyed by the package name and every operation touches the entry of one name, so the state
  is the entry of one package: its directories, what is in memory, and the tasks on it. A task is suspended
  at an \<open>await\<close> of these functions, one phase for each; one step runs it from the outcome of that await to the
  next one, and steps of different tasks interleave freely. What an awaited call (\<open>Package.create\<close>, the bind of
  a manifest, the rebind from the local store, the caller's download and check) awaits itself is one outcome. The mutex admits any waiting task. A tree is the texts of its files by path.
\<close>

subsection \<open>State\<close>

type_synonym Tree = "(string \<times> string) list"

record Pkg =
  generation :: nat
  builtFrom :: Tree

datatype PackageStatus = LOADING | SERVING | UNLOADING

text \<open>What a task waits for the lock to do; \<open>Get\<close> carries \<open>reload\<close> and whether a listing asked.\<close>

datatype Job = Get bool bool | Add | Install nat | Delete | Unload | Write string string

text \<open>
  Where a task is suspended, with the locals it holds: staging and retired directories by their number,
  the package it found loaded, the error to throw after a rollback, the text a write replaced.
\<close>

datatype Phase =
  Access | Stat | StageDir nat | Download nat | DropStaging nat string | Lock Job
| Creating bool bool "Pkg option"
| Binding bool bool "Pkg option" Pkg
| BindingServe bool bool "Pkg option" Pkg
| AddCreating
| InstAccess nat "Pkg option"
| InstRetireDir nat "Pkg option" nat
| InstRetire nat "Pkg option" nat
| InstSwap nat "Pkg option" "nat option"
| InstCreate nat "Pkg option" "nat option"
| InstBind Pkg "Pkg option" "nat option"
| InstBindServe Pkg "Pkg option" "nat option"
| RollbackRemove nat "Pkg option" "nat option" string
| RollbackRestore nat "Pkg option" nat string
| RollbackStaging nat "Pkg option" bool string
| DeleteDir nat
| DeleteRename nat
| WriteRead string string
| WriteDir string string "string option"
| WriteTemp string string "string option"
| WriteFile string string "string option"
| WriteCreate string "string option" "Pkg option"
| WriteBind string "string option" "Pkg option" Pkg
| WriteBindServe string "string option" "Pkg option" Pkg
| WriteVerify string "string option"
| RestoreDir string string
| RestoreTemp string string
| WriteRestore string "string option"
| WriteRecreate "Pkg option"
| WriteRebind "Pkg option" Pkg
| WriteRebindServe "Pkg option" Pkg

datatype Answer = Answered "Pkg option" | Failed string

text \<open>
  \<open>opened\<close> lists the generations of connections ever handed to a loaded package, \<open>draining\<close> those retired
  and not yet released, \<open>released\<close> the others.
\<close>

record PkgState =
  canonical :: "Tree option"
  staged :: "nat \<Rightarrow> Tree option"
  retired :: "nat \<Rightarrow> Tree option"
  cleaning :: "nat list"
  loaded :: "Pkg option"
  pkgStatus :: "PackageStatus option"
  failedPackage :: "string option"
  mountError :: "string option"
  staleError :: "string option"
  holder :: "nat option"
  tasks :: "nat \<Rightarrow> Phase option"
  answers :: "nat \<Rightarrow> Answer option"
  nextId :: nat
  opened :: "nat list"
  draining :: "nat list"
  released :: "nat list"

datatype Op = GetPackage bool | ListPackage | AddPackage | InstallPackage | DeletePackage | UnloadPackage | WriteModelFile string string

text \<open>How an await ended; \<open>Rejects\<close> is a package that was created and that the validator refused.\<close>

datatype Outcome = Ok | Content Tree | Fails string | Rejects string

text \<open>
  An operation is called (the flag is the back-pressure at that moment), a task's await ends, a retired
  directory is removed in the background, a generation of connections is released, the process restarts
  and sweeps, or somebody edits the directory.
\<close>

datatype Event = Call nat Op bool | Run nat Outcome | Clean nat | Drain nat | Restart | Edit Tree

subsection \<open>Steps\<close>

definition answer :: "nat \<Rightarrow> Answer \<Rightarrow> PkgState \<Rightarrow> PkgState" where
  "answer t a s = s\<lparr>tasks := (tasks s)(t := None), answers := (answers s)(t := Some a),
     holder := (if holder s = Some t then None else holder s)\<rparr>"

definition goto :: "nat \<Rightarrow> Phase \<Rightarrow> PkgState \<Rightarrow> PkgState" where
  "goto t ph s = s\<lparr>tasks := (tasks s)(t := Some ph)\<rparr>"

definition setPackageStatus :: "PackageStatus \<Rightarrow> PkgState \<Rightarrow> PkgState" where
  "setPackageStatus st s = s\<lparr>pkgStatus := Some st\<rparr>"

definition deletePackageStatus :: "PkgState \<Rightarrow> PkgState" where
  "deletePackageStatus s = s\<lparr>pkgStatus := None\<rparr>"

definition clearPackageLoadFailure :: "PkgState \<Rightarrow> PkgState" where
  "clearPackageLoadFailure s = s\<lparr>failedPackage := None, mountError := None, staleError := None\<rparr>"

definition retireConnectionGeneration :: "Pkg option \<Rightarrow> PkgState \<Rightarrow> PkgState" where
  "retireConnectionGeneration p s = (case p of None \<Rightarrow> s | Some q \<Rightarrow> s\<lparr>draining := generation q # draining s\<rparr>)"

text \<open>\<open>Package.create\<close> on the canonical directory, at the moment it ends.\<close>

definition create_package :: "Outcome \<Rightarrow> PkgState \<Rightarrow> string + Pkg" where
  "create_package out s =
     (case out of
        Fails e \<Rightarrow> Inl e
      | _ \<Rightarrow> (case canonical s of None \<Rightarrow> Inl ''manifest does not exist''
              | Some T \<Rightarrow> Inr \<lparr>generation = nextId s, builtFrom = T\<rparr>))"

definition hand_out :: "Pkg \<Rightarrow> PkgState \<Rightarrow> PkgState" where
  "hand_out p s = s\<lparr>nextId := Suc (nextId s), opened := generation p # opened s\<rparr>"

definition load_failed :: "bool \<Rightarrow> Pkg option \<Rightarrow> string \<Rightarrow> PkgState \<Rightarrow> PkgState" where
  "load_failed reload existing e s =
     (if existing \<noteq> None \<and> reload then (setPackageStatus SERVING s)\<lparr>staleError := Some e\<rparr>
      else (deletePackageStatus s)\<lparr>loaded := None\<rparr>)"

definition load_done :: "bool \<Rightarrow> Pkg option \<Rightarrow> Pkg \<Rightarrow> PkgState \<Rightarrow> PkgState" where
  "load_done reload existing p s =
     clearPackageLoadFailure (setPackageStatus SERVING
       ((if reload then retireConnectionGeneration existing s else s)\<lparr>loaded := Some p\<rparr>))"

text \<open>A listing records why the package it asked for did not load.\<close>

definition fail_get :: "nat \<Rightarrow> bool \<Rightarrow> string \<Rightarrow> PkgState \<Rightarrow> PkgState" where
  "fail_get t listing e s = answer t (Failed e) (if listing then s\<lparr>failedPackage := Some e\<rparr> else s)"

definition getPackage :: "nat \<Rightarrow> bool \<Rightarrow> bool \<Rightarrow> bool \<Rightarrow> PkgState \<Rightarrow> PkgState" where
  "getPackage t reload listing pressed s =
     (if loaded s \<noteq> None \<and> \<not> reload then answer t (Answered (loaded s)) s
      else if pressed then fail_get t listing ''under memory pressure'' s
      else goto t (Lock (Get reload listing)) s)"

definition listPackage :: "nat \<Rightarrow> bool \<Rightarrow> PkgState \<Rightarrow> PkgState" where
  "listPackage t pressed s =
     (if pkgStatus s = None \<or> pkgStatus s = Some LOADING then answer t (Answered None) s
      else getPackage t False True pressed s)"

definition call_op :: "nat \<Rightarrow> Op \<Rightarrow> bool \<Rightarrow> PkgState \<Rightarrow> PkgState" where
  "call_op t op pressed s =
     (case op of
        GetPackage reload \<Rightarrow> getPackage t reload False pressed s
      | ListPackage \<Rightarrow> listPackage t pressed s
      | AddPackage \<Rightarrow> goto t Access s
      | InstallPackage \<Rightarrow> goto t (StageDir (nextId s)) (s\<lparr>nextId := Suc (nextId s)\<rparr>)
      | DeletePackage \<Rightarrow> goto t (Lock Delete) s
      | UnloadPackage \<Rightarrow> goto t (Lock Unload) s
      | WriteModelFile p src \<Rightarrow> goto t (Lock (Write p src)) s)"

text \<open>The first stretch under the lock, up to the first await.\<close>

definition take_lock :: "nat \<Rightarrow> PkgState \<Rightarrow> PkgState" where
  "take_lock t s = s\<lparr>holder := Some t\<rparr>"

definition deletePackage :: "nat \<Rightarrow> PkgState \<Rightarrow> PkgState" where
  "deletePackage t s0 =
     (let s = clearPackageLoadFailure s0 in
      if loaded s = None then answer t (Answered None) s
      else if pkgStatus s = Some LOADING then answer t (Failed ''Package loading. Can't unload.'') s
      else let s' = (if pkgStatus s = Some SERVING then setPackageStatus UNLOADING s else s);
               s'' = retireConnectionGeneration (loaded s) s' in
           goto t (DeleteDir (nextId s)) (s''\<lparr>nextId := Suc (nextId s)\<rparr>))"

definition unloadPackage :: "nat \<Rightarrow> PkgState \<Rightarrow> PkgState" where
  "unloadPackage t s =
     (if loaded s = None then answer t (Answered None) s
      else answer t (Answered None)
        ((deletePackageStatus (clearPackageLoadFailure (retireConnectionGeneration (loaded s) s)))\<lparr>loaded := None\<rparr>))"

definition locked_start :: "nat \<Rightarrow> Job \<Rightarrow> PkgState \<Rightarrow> PkgState" where
  "locked_start t job s0 =
     (let s = take_lock t s0 in
      case job of
        Get reload listing \<Rightarrow>
          (if loaded s \<noteq> None \<and> \<not> reload then answer t (Answered (loaded s)) s
           else goto t (Creating reload listing (loaded s)) (setPackageStatus LOADING s))
      | Add \<Rightarrow>
          (if loaded s \<noteq> None then answer t (Answered (loaded s)) s
           else goto t AddCreating (setPackageStatus LOADING s))
      | Install u \<Rightarrow> goto t (InstAccess u (loaded s)) s
      | Delete \<Rightarrow> deletePackage t s
      | Unload \<Rightarrow> unloadPackage t s
      | Write p src \<Rightarrow> goto t (WriteRead p src) s)"

definition get_step :: "nat \<Rightarrow> bool \<Rightarrow> bool \<Rightarrow> Pkg option \<Rightarrow> Outcome \<Rightarrow> PkgState \<Rightarrow> PkgState" where
  "get_step t reload listing existing out s =
     (case create_package out s of
        Inl e \<Rightarrow> fail_get t listing e (load_failed reload existing e s)
      | Inr p \<Rightarrow> goto t (Binding reload listing existing p) (hand_out p s))"

definition add_step :: "nat \<Rightarrow> Outcome \<Rightarrow> PkgState \<Rightarrow> PkgState" where
  "add_step t out s =
     (case create_package out s of
        Inl e \<Rightarrow> answer t (Failed e) (deletePackageStatus s)
      | Inr p \<Rightarrow> answer t (Answered (Some p))
          (clearPackageLoadFailure (setPackageStatus SERVING ((hand_out p s)\<lparr>loaded := Some p\<rparr>))))"

text \<open>
  The install after the lock. A failed \<open>Package.create\<close> may already have removed the directory it was
  given; the rollback removes it in any case, best effort.
\<close>

definition install_retire :: "nat \<Rightarrow> nat \<Rightarrow> Pkg option \<Rightarrow> nat \<Rightarrow> Outcome \<Rightarrow> PkgState \<Rightarrow> PkgState" where
  "install_retire t u old r out s =
     (case out of
        Fails e \<Rightarrow> answer t (Failed e) s
      | _ \<Rightarrow> goto t (InstSwap u old (Some r)) (s\<lparr>retired := (retired s)(r := canonical s), canonical := None\<rparr>))"

definition install_swap :: "nat \<Rightarrow> nat \<Rightarrow> Pkg option \<Rightarrow> nat option \<Rightarrow> Outcome \<Rightarrow> PkgState \<Rightarrow> PkgState" where
  "install_swap t u old r out s =
     (case out of
        Fails e \<Rightarrow> goto t (RollbackRemove u old r e) s
      | _ \<Rightarrow> (case staged s u of
            None \<Rightarrow> goto t (RollbackRemove u old r ''nothing staged'') s
          | Some T \<Rightarrow> goto t (InstCreate u old r)
              (setPackageStatus LOADING (s\<lparr>canonical := Some T, staged := (staged s)(u := None)\<rparr>))))"

definition install_create :: "nat \<Rightarrow> nat \<Rightarrow> Pkg option \<Rightarrow> nat option \<Rightarrow> Outcome \<Rightarrow> PkgState \<Rightarrow> PkgState" where
  "install_create t u old r out s =
     (case create_package out s of
        Inl e \<Rightarrow> goto t (RollbackRemove u old r e) s
      | Inr p \<Rightarrow> (case out of
            Rejects e \<Rightarrow> goto t (RollbackRemove u old r e) (hand_out p s)
          | _ \<Rightarrow> goto t (InstBind p old r) (hand_out p s)))"

definition install_done :: "nat \<Rightarrow> Pkg \<Rightarrow> Pkg option \<Rightarrow> nat option \<Rightarrow> PkgState \<Rightarrow> PkgState" where
  "install_done t p old r s =
     answer t (Answered (Some p))
       (retireConnectionGeneration old (clearPackageLoadFailure (setPackageStatus SERVING
         (s\<lparr>loaded := Some p, cleaning := (case r of Some i \<Rightarrow> i # cleaning s | None \<Rightarrow> cleaning s)\<rparr>))))"

definition rollback_remove :: "nat \<Rightarrow> nat \<Rightarrow> Pkg option \<Rightarrow> nat option \<Rightarrow> string \<Rightarrow> Outcome \<Rightarrow> PkgState \<Rightarrow> PkgState" where
  "rollback_remove t u old r e out s =
     (let s' = (case out of Fails _ \<Rightarrow> s | _ \<Rightarrow> s\<lparr>canonical := None\<rparr>) in
      case r of Some i \<Rightarrow> goto t (RollbackRestore u old i e) s' | None \<Rightarrow> goto t (RollbackStaging u old False e) s')"

text \<open>A rename onto a directory that could not be removed fails.\<close>

definition rollback_restore :: "nat \<Rightarrow> nat \<Rightarrow> Pkg option \<Rightarrow> nat \<Rightarrow> string \<Rightarrow> Outcome \<Rightarrow> PkgState \<Rightarrow> PkgState" where
  "rollback_restore t u old i e out s =
     (case out of
        Fails _ \<Rightarrow> goto t (RollbackStaging u old False e) s
      | _ \<Rightarrow> (if canonical s \<noteq> None then goto t (RollbackStaging u old False e) s
              else goto t (RollbackStaging u old True e) (s\<lparr>canonical := retired s i, retired := (retired s)(i := None)\<rparr>)))"

definition rollback_done :: "nat \<Rightarrow> nat \<Rightarrow> Pkg option \<Rightarrow> bool \<Rightarrow> string \<Rightarrow> Outcome \<Rightarrow> PkgState \<Rightarrow> PkgState" where
  "rollback_done t u old restored e out s =
     (let s' = (case out of Fails _ \<Rightarrow> s | _ \<Rightarrow> s\<lparr>staged := (staged s)(u := None)\<rparr>) in
      answer t (Failed e)
        (if old \<noteq> None \<and> restored then setPackageStatus SERVING s'
         else (retireConnectionGeneration old (deletePackageStatus s'))\<lparr>loaded := None\<rparr>))"

definition delete_rename :: "nat \<Rightarrow> nat \<Rightarrow> Outcome \<Rightarrow> PkgState \<Rightarrow> PkgState" where
  "delete_rename t r out s =
     (let s' = (case out of
                  Fails _ \<Rightarrow> s
                | _ \<Rightarrow> s\<lparr>retired := (retired s)(r := canonical s), canonical := None, cleaning := r # cleaning s\<rparr>) in
      answer t (Answered None) ((deletePackageStatus s')\<lparr>loaded := None\<rparr>))"

text \<open>
  The transactional write: precondition, write, reload, check, and the way back. A file is put by creating its
  directory, writing a sibling and renaming it over the target; the text of a new file is removed.
\<close>

definition put_file :: "string \<Rightarrow> string option \<Rightarrow> Tree \<Rightarrow> Tree" where
  "put_file p x T = (case x of Some src \<Rightarrow> AList.update p src T | None \<Rightarrow> AList.delete p T)"

definition file_text :: "string \<Rightarrow> PkgState \<Rightarrow> string option" where
  "file_text p s = (case canonical s of Some T \<Rightarrow> map_of T p | None \<Rightarrow> None)"

definition write_text :: "string \<Rightarrow> string option \<Rightarrow> PkgState \<Rightarrow> PkgState" where
  "write_text p x s = s\<lparr>canonical := (case canonical s of
       Some T \<Rightarrow> Some (put_file p x T) | None \<Rightarrow> map_option (\<lambda>src. [(p, src)]) x)\<rparr>"

definition write_file :: "nat \<Rightarrow> string \<Rightarrow> string \<Rightarrow> string option \<Rightarrow> Outcome \<Rightarrow> PkgState \<Rightarrow> PkgState" where
  "write_file t p src prev out s =
     (case out of
        Fails e \<Rightarrow> answer t (Failed e) s
      | _ \<Rightarrow> goto t (WriteCreate p prev (loaded s)) (setPackageStatus LOADING (write_text p (Some src) s)))"

definition restore_phase :: "string \<Rightarrow> string option \<Rightarrow> Phase" where
  "restore_phase p prev = (case prev of Some src \<Rightarrow> RestoreDir p src | None \<Rightarrow> WriteRestore p None)"

text \<open>An await whose failure is the caller's.\<close>

definition or_fail :: "nat \<Rightarrow> Phase \<Rightarrow> Outcome \<Rightarrow> PkgState \<Rightarrow> PkgState" where
  "or_fail t ph out s = (case out of Fails e \<Rightarrow> answer t (Failed e) s | _ \<Rightarrow> goto t ph s)"

definition write_create :: "nat \<Rightarrow> string \<Rightarrow> string option \<Rightarrow> Pkg option \<Rightarrow> Outcome \<Rightarrow> PkgState \<Rightarrow> PkgState" where
  "write_create t p prev existing out s =
     (case create_package out s of
        Inl e \<Rightarrow> goto t (restore_phase p prev) (load_failed True existing e s)
      | Inr q \<Rightarrow> goto t (WriteBind p prev existing q) (hand_out q s))"

definition write_verify :: "nat \<Rightarrow> string \<Rightarrow> string option \<Rightarrow> Outcome \<Rightarrow> PkgState \<Rightarrow> PkgState" where
  "write_verify t p prev out s =
     (case out of
        Fails e \<Rightarrow> goto t (restore_phase p prev) s
      | _ \<Rightarrow> answer t (Answered (loaded s)) s)"

definition rolled_back :: string where "rolled_back = ''the previous text was put back''"

definition write_restore :: "nat \<Rightarrow> string \<Rightarrow> string option \<Rightarrow> Outcome \<Rightarrow> PkgState \<Rightarrow> PkgState" where
  "write_restore t p prev out s =
     (case out of
        Fails e \<Rightarrow> answer t (Failed e) s
      | _ \<Rightarrow> goto t (WriteRecreate (loaded s)) (setPackageStatus LOADING (write_text p prev s)))"

definition write_recreate :: "nat \<Rightarrow> Pkg option \<Rightarrow> Outcome \<Rightarrow> PkgState \<Rightarrow> PkgState" where
  "write_recreate t existing out s =
     (case create_package out s of
        Inl e \<Rightarrow> answer t (Failed rolled_back) (load_failed True existing e s)
      | Inr q \<Rightarrow> goto t (WriteRebind existing q) (hand_out q s))"

fun resume :: "nat \<Rightarrow> Phase \<Rightarrow> Outcome \<Rightarrow> PkgState \<Rightarrow> PkgState" where
  "resume t Access out s = (if canonical s = None then answer t (Failed ''not found'') s else goto t Stat s)"
| "resume t Stat out s =
     (if canonical s = None then answer t (Failed ''not found'') s
      else (case out of Fails e \<Rightarrow> answer t (Failed e) s | _ \<Rightarrow> goto t (Lock Add) s))"
| "resume t (StageDir u) out s = or_fail t (Download u) out s"
| "resume t (Download u) out s =
     (case out of
        Content T \<Rightarrow> goto t (Lock (Install u)) (s\<lparr>staged := (staged s)(u := Some T)\<rparr>)
      | Fails e \<Rightarrow> goto t (DropStaging u e) (s\<lparr>staged := (staged s)(u := Some [])\<rparr>)
      | _ \<Rightarrow> goto t (Lock (Install u)) s)"
| "resume t (DropStaging u e) out s =
     answer t (Failed e) (case out of Fails _ \<Rightarrow> s | _ \<Rightarrow> s\<lparr>staged := (staged s)(u := None)\<rparr>)"
| "resume t (Lock job) out s = (if holder s = None then locked_start t job s else s)"
| "resume t (Creating reload listing existing) out s = get_step t reload listing existing out s"
| "resume t (Binding reload listing existing p) out s = goto t (BindingServe reload listing existing p) s"
| "resume t (BindingServe reload listing existing p) out s = answer t (Answered (Some p)) (load_done reload existing p s)"
| "resume t AddCreating out s = add_step t out s"
| "resume t (InstAccess u old) out s =
     (if canonical s = None then goto t (InstSwap u old None) s
      else goto t (InstRetireDir u old (nextId s)) (s\<lparr>nextId := Suc (nextId s)\<rparr>))"
| "resume t (InstRetireDir u old r) out s = or_fail t (InstRetire u old r) out s"
| "resume t (InstRetire u old r) out s = install_retire t u old r out s"
| "resume t (InstSwap u old r) out s = install_swap t u old r out s"
| "resume t (InstCreate u old r) out s = install_create t u old r out s"
| "resume t (InstBind p old r) out s = goto t (InstBindServe p old r) s"
| "resume t (InstBindServe p old r) out s = install_done t p old r s"
| "resume t (RollbackRemove u old r e) out s = rollback_remove t u old r e out s"
| "resume t (RollbackRestore u old i e) out s = rollback_restore t u old i e out s"
| "resume t (RollbackStaging u old restored e) out s = rollback_done t u old restored e out s"
| "resume t (DeleteDir r) out s = (case out of Fails _ \<Rightarrow> delete_rename t r out s | _ \<Rightarrow> goto t (DeleteRename r) s)"
| "resume t (DeleteRename r) out s = delete_rename t r out s"
| "resume t (WriteRead p src) out s = or_fail t (WriteDir p src (file_text p s)) out s"
| "resume t (WriteDir p src prev) out s = or_fail t (WriteTemp p src prev) out s"
| "resume t (WriteTemp p src prev) out s = or_fail t (WriteFile p src prev) out s"
| "resume t (WriteFile p src prev) out s = write_file t p src prev out s"
| "resume t (WriteCreate p prev existing) out s = write_create t p prev existing out s"
| "resume t (WriteBind p prev existing q) out s = goto t (WriteBindServe p prev existing q) s"
| "resume t (WriteBindServe p prev existing q) out s = goto t (WriteVerify p prev) (load_done True existing q s)"
| "resume t (WriteVerify p prev) out s = write_verify t p prev out s"
| "resume t (RestoreDir p src) out s = or_fail t (RestoreTemp p src) out s"
| "resume t (RestoreTemp p src) out s = or_fail t (WriteRestore p (Some src)) out s"
| "resume t (WriteRestore p prev) out s = write_restore t p prev out s"
| "resume t (WriteRecreate existing) out s = write_recreate t existing out s"
| "resume t (WriteRebind existing q) out s = goto t (WriteRebindServe existing q) s"
| "resume t (WriteRebindServe existing q) out s = answer t (Failed rolled_back) (load_done True existing q s)"

definition restart :: "PkgState \<Rightarrow> PkgState" where
  "restart s = \<lparr>canonical = canonical s, staged = (\<lambda>_. None), retired = (\<lambda>_. None), cleaning = [], loaded = None,
     pkgStatus = (if canonical s = None then None else Some SERVING), failedPackage = None, mountError = None, staleError = None,
     holder = None, tasks = (\<lambda>_. None), answers = (\<lambda>_. None), nextId = nextId s, opened = [], draining = [], released = []\<rparr>"

fun step :: "Event \<Rightarrow> PkgState \<Rightarrow> PkgState" where
  "step (Call t op pressed) s = (if tasks s t = None then call_op t op pressed s else s)"
| "step (Run t out) s = (case tasks s t of None \<Rightarrow> s | Some ph \<Rightarrow> resume t ph out s)"
| "step (Clean r) s = (if r \<in> set (cleaning s) then s\<lparr>retired := (retired s)(r := None)\<rparr> else s)"
| "step (Drain g) s = (if g \<in> set (draining s)
     then s\<lparr>draining := removeAll g (draining s), released := g # released s\<rparr> else s)"
| "step Restart s = restart s"
| "step (Edit T) s = s\<lparr>canonical := Some T\<rparr>"

definition run :: "Event list \<Rightarrow> PkgState \<Rightarrow> PkgState" where
  "run es s = fold step es s"

text \<open>A fresh environment: the directory of the package, if its location could be mounted, nothing loaded.\<close>

definition fresh :: "Tree option \<Rightarrow> PkgState" where
  "fresh T = \<lparr>canonical = T, staged = (\<lambda>_. None), retired = (\<lambda>_. None), cleaning = [], loaded = None,
     pkgStatus = Some SERVING, failedPackage = None, mountError = None, staleError = None, holder = None,
     tasks = (\<lambda>_. None), answers = (\<lambda>_. None), nextId = 0, opened = [], draining = [], released = []\<rparr>"

subsection \<open>What holds between steps\<close>

fun locked :: "Phase \<Rightarrow> bool" where
  "locked Access = False"
| "locked Stat = False"
| "locked (StageDir u) = False"
| "locked (Download u) = False"
| "locked (DropStaging u e) = False"
| "locked (Lock job) = False"
| "locked ph = True"

text \<open>The loaded package is what is on disk, or the failure of its last reload is on record.\<close>

definition up_to_date :: "Tree option \<Rightarrow> PkgState \<Rightarrow> bool" where
  "up_to_date T s \<longleftrightarrow> (\<forall>p. loaded s = Some p \<longrightarrow> staleError s \<noteq> None \<or> T = Some (builtFrom p))"

definition settled :: "PkgState \<Rightarrow> bool" where
  "settled s \<longleftrightarrow> pkgStatus s \<in> {None, Some SERVING} \<and> (loaded s \<noteq> None \<longrightarrow> pkgStatus s = Some SERVING)
     \<and> up_to_date (canonical s) s"

text \<open>The tree a rollback can put back: the retired one, or none where nothing was on disk.\<close>

definition kept :: "nat option \<Rightarrow> PkgState \<Rightarrow> bool" where
  "kept r s \<longleftrightarrow> (case r of None \<Rightarrow> True
     | Some i \<Rightarrow> retired s i \<noteq> None \<and> i \<notin> set (cleaning s) \<and> i < nextId s \<and> up_to_date (retired s i) s)"

fun phase_ok :: "Phase \<Rightarrow> PkgState \<Rightarrow> bool" where
  "phase_ok (Creating reload listing ex) s \<longleftrightarrow> loaded s = ex \<and> (reload \<or> ex = None) \<and> up_to_date (canonical s) s"
| "phase_ok (Binding reload listing ex p) s \<longleftrightarrow> loaded s = ex \<and> (reload \<or> ex = None) \<and> canonical s = Some (builtFrom p)"
| "phase_ok (BindingServe reload listing ex p) s \<longleftrightarrow> loaded s = ex \<and> (reload \<or> ex = None) \<and> canonical s = Some (builtFrom p)"
| "phase_ok AddCreating s \<longleftrightarrow> loaded s = None"
| "phase_ok (InstAccess u old) s \<longleftrightarrow> loaded s = old \<and> settled s"
| "phase_ok (InstRetire u old r) s \<longleftrightarrow> loaded s = old \<and> settled s \<and> canonical s \<noteq> None \<and> r \<notin> set (cleaning s) \<and> r < nextId s"
| "phase_ok (InstRetireDir u old r) s \<longleftrightarrow> loaded s = old \<and> settled s \<and> canonical s \<noteq> None \<and> r \<notin> set (cleaning s) \<and> r < nextId s"
| "phase_ok (InstSwap u old r) s \<longleftrightarrow> loaded s = old \<and> kept r s"
| "phase_ok (InstCreate u old r) s \<longleftrightarrow> loaded s = old \<and> kept r s"
| "phase_ok (InstBind p old r) s \<longleftrightarrow> loaded s = old \<and> canonical s = Some (builtFrom p) \<and> (case r of None \<Rightarrow> True | Some i \<Rightarrow> i < nextId s)"
| "phase_ok (InstBindServe p old r) s \<longleftrightarrow> loaded s = old \<and> canonical s = Some (builtFrom p) \<and> (case r of None \<Rightarrow> True | Some i \<Rightarrow> i < nextId s)"
| "phase_ok (RollbackRemove u old r e) s \<longleftrightarrow> loaded s = old \<and> kept r s"
| "phase_ok (RollbackRestore u old i e) s \<longleftrightarrow> loaded s = old \<and> kept (Some i) s"
| "phase_ok (RollbackStaging u old restored e) s \<longleftrightarrow> loaded s = old \<and> (restored \<longrightarrow> up_to_date (canonical s) s)"
| "phase_ok (DeleteDir r) s \<longleftrightarrow> r < nextId s"
| "phase_ok (DeleteRename r) s \<longleftrightarrow> r < nextId s"
| "phase_ok (WriteRead p src) s \<longleftrightarrow> settled s"
| "phase_ok (WriteDir p src prev) s \<longleftrightarrow> settled s"
| "phase_ok (WriteTemp p src prev) s \<longleftrightarrow> settled s"
| "phase_ok (WriteFile p src prev) s \<longleftrightarrow> settled s"
| "phase_ok (WriteCreate p prev ex) s \<longleftrightarrow> loaded s = ex"
| "phase_ok (WriteBind p prev ex q) s \<longleftrightarrow> loaded s = ex \<and> canonical s = Some (builtFrom q)"
| "phase_ok (WriteBindServe p prev ex q) s \<longleftrightarrow> loaded s = ex \<and> canonical s = Some (builtFrom q)"
| "phase_ok (WriteVerify p prev) s \<longleftrightarrow> settled s"
| "phase_ok (RestoreDir p src) s \<longleftrightarrow> settled s"
| "phase_ok (RestoreTemp p src) s \<longleftrightarrow> settled s"
| "phase_ok (WriteRestore p prev) s \<longleftrightarrow> settled s"
| "phase_ok (WriteRecreate ex) s \<longleftrightarrow> loaded s = ex"
| "phase_ok (WriteRebind ex q) s \<longleftrightarrow> loaded s = ex \<and> canonical s = Some (builtFrom q)"
| "phase_ok (WriteRebindServe ex q) s \<longleftrightarrow> loaded s = ex \<and> canonical s = Some (builtFrom q)"
| "phase_ok _ s \<longleftrightarrow> True"

definition exclusive :: "PkgState \<Rightarrow> bool" where
  "exclusive s \<longleftrightarrow> (\<forall>t ph. tasks s t = Some ph \<longrightarrow> (locked ph \<longleftrightarrow> holder s = Some t))
     \<and> (\<forall>t. holder s = Some t \<longrightarrow> tasks s t \<noteq> None)"

definition bounded_ids :: "PkgState \<Rightarrow> bool" where
  "bounded_ids s \<longleftrightarrow> (\<forall>r \<in> set (cleaning s). r < nextId s)"

definition sound :: "PkgState \<Rightarrow> bool" where
  "sound s \<longleftrightarrow> (case holder s of None \<Rightarrow> settled s
     | Some t \<Rightarrow> (case tasks s t of None \<Rightarrow> False | Some ph \<Rightarrow> phase_ok ph s))"

definition good :: "PkgState \<Rightarrow> bool" where
  "good s \<longleftrightarrow> exclusive s \<and> bounded_ids s \<and> sound s"

lemmas state_defs = setPackageStatus_def deletePackageStatus_def clearPackageLoadFailure_def retireConnectionGeneration_def
  hand_out_def take_lock_def

lemma create_package_Inr: "create_package out s = Inr p \<Longrightarrow> canonical s = Some (builtFrom p)"
  by (auto simp: create_package_def split: Outcome.splits option.splits)

text \<open>The facts of a phase speak of the package, not of the tasks.\<close>

lemma goto_simps [simp]:
  "canonical (goto t ph s) = canonical s" "retired (goto t ph s) = retired s" "cleaning (goto t ph s) = cleaning s"
  "loaded (goto t ph s) = loaded s" "pkgStatus (goto t ph s) = pkgStatus s" "staleError (goto t ph s) = staleError s"
  "holder (goto t ph s) = holder s" "tasks (goto t ph s) = (tasks s)(t := Some ph)" "nextId (goto t ph s) = nextId s"
  by (simp_all add: goto_def)

lemma answer_simps [simp]:
  "canonical (answer t a s) = canonical s" "retired (answer t a s) = retired s" "cleaning (answer t a s) = cleaning s"
  "loaded (answer t a s) = loaded s" "pkgStatus (answer t a s) = pkgStatus s" "staleError (answer t a s) = staleError s"
  "holder (answer t a s) = (if holder s = Some t then None else holder s)"
  "tasks (answer t a s) = (tasks s)(t := None)" "nextId (answer t a s) = nextId s"
  "answers (answer t a s) = (answers s)(t := Some a)"
  by (simp_all add: answer_def)

lemma phase_ok_goto [simp]: "phase_ok ph (goto t ph' s) = phase_ok ph s"
  by (cases ph) (simp_all add: settled_def up_to_date_def kept_def split: option.split)

lemma settled_answer [simp]: "settled (answer t a s) = settled s"
  by (simp add: settled_def up_to_date_def)

lemma good_goto:
  assumes "exclusive s" "bounded_ids s" "holder s = Some t" "locked ph" "phase_ok ph s"
  shows "good (goto t ph s)"
proof -
  have "sound (goto t ph s)" using assms(3,5) by (simp add: sound_def)
  with assms(1-4) show ?thesis by (auto simp: good_def exclusive_def bounded_ids_def)
qed

lemma good_answer:
  assumes "exclusive s" "bounded_ids s" "holder s = Some t" "settled s"
  shows "good (answer t a s)"
proof -
  have "sound (answer t a s)" using assms(3,4) by (simp add: sound_def)
  with assms(1-3) show ?thesis by (auto simp: good_def exclusive_def bounded_ids_def)
qed

text \<open>A step that is not the holder's leaves the package alone.\<close>

definition same_package :: "PkgState \<Rightarrow> PkgState \<Rightarrow> bool" where
  "same_package s s' \<longleftrightarrow> canonical s' = canonical s \<and> retired s' = retired s \<and> cleaning s' = cleaning s
     \<and> loaded s' = loaded s \<and> pkgStatus s' = pkgStatus s \<and> staleError s' = staleError s \<and> holder s' = holder s
     \<and> nextId s \<le> nextId s'"

lemma same_package_ok: "same_package s s' \<Longrightarrow> phase_ok ph s \<Longrightarrow> phase_ok ph s'"
  by (cases ph) (auto simp: same_package_def settled_def up_to_date_def kept_def split: option.split)

lemma same_package_settled: "same_package s s' \<Longrightarrow> settled s' = settled s"
  by (simp add: same_package_def settled_def up_to_date_def)

lemma good_bystander:
  assumes g: "good s" and sp: "same_package s s'" and nh: "holder s \<noteq> Some t"
    and others: "\<And>x. x \<noteq> t \<Longrightarrow> tasks s' x = tasks s x" and mine: "\<And>ph. tasks s' t = Some ph \<Longrightarrow> \<not> locked ph"
  shows "good s'"
proof -
  have h: "holder s' = holder s" using sp by (simp add: same_package_def)
  have "exclusive s'" unfolding exclusive_def
  proof (intro conjI allI impI)
    fix x ph assume "tasks s' x = Some ph"
    then show "locked ph \<longleftrightarrow> holder s' = Some x"
      using g nh others [of x] mine [of ph] by (cases "x = t") (auto simp: h good_def exclusive_def)
  next
    fix x assume "holder s' = Some x"
    with g nh others [of x] show "tasks s' x \<noteq> None" by (auto simp: h good_def exclusive_def)
  qed
  moreover have "sound s'"
  proof (cases "holder s")
    case None
    with g sp show ?thesis by (simp add: good_def sound_def h same_package_settled)
  next
    case (Some x)
    with nh have "tasks s' x = tasks s x" by (intro others) auto
    with Some g sp show ?thesis by (simp add: good_def sound_def h same_package_ok split: option.splits)
  qed
  moreover have "bounded_ids s'" using g sp by (auto simp: good_def bounded_ids_def same_package_def)
  ultimately show ?thesis by (simp add: good_def)
qed

text \<open>The first stretch of a task that takes the lock, from a settled package.\<close>

lemma good_locked_start:
  assumes g: "good s" and h: "holder s = None" and j: "tasks s t = Some (Lock job)"
  shows "good (locked_start t job s)"
proof -
  let ?s = "take_lock t s"
  have st: "settled s" using g h by (simp add: good_def sound_def)
  have b: "bounded_ids s" using g by (simp add: good_def)
  have ans: "good (answer t a s')" if "settled s'" "tasks s' = tasks s" "holder s' = Some t" "bounded_ids s'" for s' a
  proof -
    have "sound (answer t a s')" using that by (simp add: sound_def)
    with g h that show ?thesis by (auto simp: good_def exclusive_def bounded_ids_def)
  qed
  have go: "good (goto t ph s')" if "phase_ok ph s'" "locked ph" "tasks s' = tasks s" "holder s' = Some t" "bounded_ids s'" for s' ph
  proof -
    have "sound (goto t ph s')" using that by (simp add: sound_def)
    with g h that show ?thesis by (auto simp: good_def exclusive_def bounded_ids_def)
  qed
  have [simp]: "bounded_ids ?s" "settled ?s" using b st by (simp_all add: take_lock_def bounded_ids_def settled_def up_to_date_def)
  show ?thesis
  proof (cases job)
    case (Get reload listing)
    have "up_to_date (canonical s) s" using st by (simp add: settled_def)
    then show ?thesis
      unfolding Get locked_start_def Let_def Job.case
      by (auto intro!: ans go simp: state_defs up_to_date_def bounded_ids_def) (use b st in \<open>simp_all add: bounded_ids_def settled_def up_to_date_def\<close>)
  next
    case Add
    show ?thesis unfolding Add locked_start_def Let_def Job.case
      by (auto intro!: ans go simp: state_defs) (use b st in \<open>simp_all add: bounded_ids_def settled_def up_to_date_def\<close>)
  next
    case (Install u)
    show ?thesis unfolding Install locked_start_def Let_def Job.case by (rule go) (simp_all add: take_lock_def, use b st in \<open>simp_all add: bounded_ids_def settled_def up_to_date_def\<close>)
  next
    case Delete
    have "settled (clearPackageLoadFailure ?s)" if "loaded s = None" using st that by (simp add: state_defs settled_def up_to_date_def)
    moreover have "pkgStatus s \<noteq> Some LOADING" using st by (auto simp: settled_def)
    ultimately show ?thesis unfolding Delete locked_start_def Let_def Job.case deletePackage_def
      by (auto intro!: ans go simp: state_defs bounded_ids_def split: option.splits) (use b in \<open>auto simp: bounded_ids_def dest: less_SucI\<close>)
  next
    case Unload
    show ?thesis unfolding Unload locked_start_def Let_def Job.case unloadPackage_def
      by (auto intro!: ans go simp: state_defs bounded_ids_def split: option.splits) (use b st in \<open>auto simp: bounded_ids_def settled_def up_to_date_def\<close>)
  next
    case (Write p src)
    show ?thesis unfolding Write locked_start_def Let_def Job.case by (rule go) (simp_all add: take_lock_def, use b st in \<open>simp_all add: bounded_ids_def settled_def up_to_date_def\<close>)
  qed
qed

subsection \<open>Every step keeps it\<close>

lemma good_held:
  assumes g: "good s" and h: "holder s = Some t" and ph: "tasks s t = Some ph" "locked ph"
  shows "good (resume t ph out s)"
proof -
  have ok: "phase_ok ph s" and ex: "exclusive s" and b: "bounded_ids s"
    using g h ph by (simp_all add: good_def sound_def)
  have A: "good (answer t a s')" if "settled s'" "tasks s' = tasks s" "holder s' = Some t" "bounded_ids s'" for s' a
    using good_answer [of s' t a] that ex h by (simp add: exclusive_def)
  have G: "good (goto t ph' s')" if "phase_ok ph' s'" "locked ph'" "tasks s' = tasks s" "holder s' = Some t" "bounded_ids s'" for s' ph'
    using good_goto [of s' t ph'] that ex h by (simp add: exclusive_def)
  note defs = state_defs settled_def up_to_date_def bounded_ids_def kept_def
  have L: "settled (load_failed True ex e s)" "tasks (load_failed True ex e s) = tasks s" "holder (load_failed True ex e s) = holder s"
      "bounded_ids (load_failed True ex e s)" if "loaded s = ex" for e ex
    using that b by (auto simp: load_failed_def defs)
  have D: "settled (load_done rl ex p s)" "tasks (load_done rl ex p s) = tasks s" "holder (load_done rl ex p s) = holder s"
      "bounded_ids (load_done rl ex p s)" if "canonical s = Some (builtFrom p)" for p ex rl
    using that b by (auto simp: load_done_def defs split: option.splits)
  have b': "r \<in> set (cleaning s) \<Longrightarrow> r < Suc (nextId s)" for r using b by (auto simp: bounded_ids_def dest: less_SucI)
  show ?thesis
  proof (cases ph)
    case (Creating reload listing e)
    show ?thesis
    proof (cases "create_package out s")
      case (Inl m)
      define s' where "s' = load_failed reload e m s"
      have s': "settled s'" "tasks s' = tasks s" "holder s' = Some t" "bounded_ids s'"
        using ok Creating b h by (auto simp: s'_def load_failed_def defs)
      have "settled (if listing then s'\<lparr>failedPackage := Some m\<rparr> else s')" using s'(1) by (simp add: settled_def up_to_date_def)
      then show ?thesis using s' Creating Inl
        by (auto simp: get_step_def fail_get_def s'_def [symmetric] bounded_ids_def intro!: A)
    next
      case (Inr p)
      then show ?thesis using ok Creating create_package_Inr [OF Inr] b h
        by (auto simp: get_step_def defs dest: b' intro!: G)
    qed
  next
    case (Binding reload listing e p)
    then show ?thesis using ok b h by (auto intro!: G)
  next
    case (BindingServe reload listing e p)
    then show ?thesis using ok D h by (simp add: A)
  next
    case AddCreating
    then show ?thesis using ok b h create_package_Inr [of out s]
      by (cases "create_package out s") (auto simp: add_step_def defs dest: b' intro!: A)
  next
    case (InstAccess u old)
    then show ?thesis using ok b h
      by (auto simp: defs dest: b' intro!: G)
  next
    case (InstRetireDir u old r)
    then show ?thesis using ok b h by (cases out) (auto simp: or_fail_def intro!: A G)
  next
    case (InstRetire u old r)
    then show ?thesis using ok b h
      by (cases out) (auto simp: install_retire_def defs intro!: A G)
  next
    case (InstSwap u old r)
    then show ?thesis using ok b h
      by (cases out; cases "staged s u") (auto simp: install_swap_def defs split: option.splits intro!: G)
  next
    case (InstCreate u old r)
    then show ?thesis using ok b h create_package_Inr [of out s]
      by (cases "create_package out s"; cases out) (auto simp: install_create_def defs split: option.splits dest: b' intro!: G)
  next
    case (InstBind p old r)
    then show ?thesis using ok b h by (auto intro!: G)
  next
    case (InstBindServe p old r)
    then show ?thesis using ok b h
      by (auto simp: install_done_def defs split: option.splits intro!: A)
  next
    case (RollbackRemove u old r e)
    then show ?thesis using ok b h
      by (cases out; cases r) (auto simp: rollback_remove_def defs Let_def intro!: G)
  next
    case (RollbackRestore u old i e)
    then show ?thesis using ok b h
      by (cases out) (auto simp: rollback_restore_def defs intro!: G)
  next
    case (RollbackStaging u old restored e)
    then show ?thesis using ok b h
      by (cases out) (auto simp: rollback_done_def defs Let_def split: option.splits intro!: A)
  next
    case (DeleteDir r)
    then show ?thesis using ok b h
      by (cases out) (auto simp: delete_rename_def defs Let_def intro!: A G)
  next
    case (DeleteRename r)
    then show ?thesis using ok b h
      by (cases out) (auto simp: delete_rename_def defs Let_def intro!: A)
  next
    case (WriteRead p src)
    then show ?thesis using ok b h by (cases out) (auto simp: or_fail_def intro!: A G)
  next
    case (WriteDir p src prev)
    then show ?thesis using ok b h by (cases out) (auto simp: or_fail_def intro!: A G)
  next
    case (WriteTemp p src prev)
    then show ?thesis using ok b h by (cases out) (auto simp: or_fail_def intro!: A G)
  next
    case (WriteFile p src prev)
    then show ?thesis using ok b h
      by (cases out) (auto simp: write_file_def write_text_def state_defs bounded_ids_def intro!: A G)
  next
    case (WriteCreate p prev e)
    then show ?thesis using ok b h L [of e]
      by (cases "create_package out s"; cases prev)
        (auto simp: write_create_def restore_phase_def state_defs bounded_ids_def dest: b' create_package_Inr intro!: G)
  next
    case (WriteBind p prev e q)
    then show ?thesis using ok b h by (auto intro!: G)
  next
    case (WriteBindServe p prev e q)
    then show ?thesis using ok D [of q] h by (auto intro!: G)
  next
    case (WriteVerify p prev)
    then show ?thesis using ok b h by (cases out; cases prev) (auto simp: write_verify_def restore_phase_def intro!: A G)
  next
    case (RestoreDir p src)
    then show ?thesis using ok b h by (cases out) (auto simp: or_fail_def intro!: A G)
  next
    case (RestoreTemp p src)
    then show ?thesis using ok b h by (cases out) (auto simp: or_fail_def intro!: A G)
  next
    case (WriteRestore p prev)
    then show ?thesis using ok b h
      by (cases out) (auto simp: write_restore_def write_text_def state_defs bounded_ids_def intro!: A G)
  next
    case (WriteRecreate e)
    then show ?thesis using ok b h L [of e]
      by (cases "create_package out s") (auto simp: write_recreate_def state_defs bounded_ids_def dest: b' create_package_Inr intro!: A G)
  next
    case (WriteRebind e q)
    then show ?thesis using ok b h by (auto intro!: G)
  next
    case (WriteRebindServe e q)
    then show ?thesis using ok D [of q] h by (auto intro!: A)
  qed (use ph(2) in simp_all)
qed

text \<open>A step of a task that does not hold the lock, and does not take it.\<close>

lemma bystander_resume:
  assumes "\<not> locked ph" and "(\<exists>job. ph = Lock job) \<longrightarrow> holder s \<noteq> None" and "holder s \<noteq> Some t" and "tasks s t = Some ph"
  shows "same_package s (resume t ph out s) \<and> (\<forall>x. x \<noteq> t \<longrightarrow> tasks (resume t ph out s) x = tasks s x)
    \<and> (\<forall>ph'. tasks (resume t ph out s) t = Some ph' \<longrightarrow> \<not> locked ph')"
proof (cases ph)
  case Access
  then show ?thesis using assms(3) by (cases out) (auto simp: same_package_def)
next
  case Stat
  then show ?thesis using assms(3) by (cases out) (auto simp: same_package_def)
next
  case (StageDir u)
  then show ?thesis using assms(3) by (cases out) (auto simp: same_package_def or_fail_def)
next
  case (Download u)
  then show ?thesis using assms(3) by (cases out) (auto simp: same_package_def)
next
  case (DropStaging u e)
  then show ?thesis using assms(3) by (cases out) (auto simp: same_package_def)
next
  case (Lock job)
  then show ?thesis using assms(2-4) by (auto simp: same_package_def)
qed (use assms(1) in simp_all)

lemma bystander_call:
  assumes "tasks s t = None" and "holder s \<noteq> Some t"
  shows "same_package s (call_op t op pressed s) \<and> (\<forall>x. x \<noteq> t \<longrightarrow> tasks (call_op t op pressed s) x = tasks s x)
    \<and> (\<forall>ph'. tasks (call_op t op pressed s) t = Some ph' \<longrightarrow> \<not> locked ph')"
  using assms(2)
  by (cases op) (auto simp: call_op_def getPackage_def listPackage_def fail_get_def same_package_def)

fun is_edit :: "Event \<Rightarrow> bool" where
  "is_edit (Edit T) = True"
| "is_edit e = False"

lemma good_step:
  assumes g: "good s" and e: "\<not> is_edit e"
  shows "good (step e s)"
proof (cases e)
  case (Call t op pressed)
  show ?thesis
  proof (cases "tasks s t = None")
    case True
    have nh: "holder s \<noteq> Some t" using g True by (auto simp: good_def exclusive_def)
    from bystander_call [OF True nh, of op pressed] have "good (call_op t op pressed s)"
      by (intro good_bystander [OF g _ nh]) auto
    with True show ?thesis by (simp add: Call)
  next
    case False
    then obtain ph where "tasks s t = Some ph" by blast
    with g show ?thesis by (simp add: Call)
  qed
next
  case (Run t out)
  show ?thesis
  proof (cases "tasks s t")
    case None
    with g show ?thesis by (simp add: Run)
  next
    case (Some ph)
    show ?thesis
    proof (cases "locked ph")
      case True
      with g Some have "holder s = Some t" by (simp add: good_def exclusive_def)
      from good_held [OF g this Some True] show ?thesis by (simp add: Run Some)
    next
      case False
      then have nh: "holder s \<noteq> Some t" using g Some by (auto simp: good_def exclusive_def)
      show ?thesis
      proof (cases "\<exists>job. ph = Lock job \<and> holder s = None")
        case True
        then obtain job where "ph = Lock job" "holder s = None" by blast
        with good_locked_start [OF g, of t job] Some show ?thesis by (simp add: Run)
      next
        case other: False
        then have o: "(\<exists>job. ph = Lock job) \<longrightarrow> holder s \<noteq> None" by auto
        from bystander_resume [OF False o nh Some, of out] have "good (resume t ph out s)"
          by (intro good_bystander [OF g _ nh]) auto
        then show ?thesis by (simp add: Run Some)
      qed
    qed
  qed
next
  case (Clean r)
  show ?thesis
  proof (cases "r \<in> set (cleaning s)")
    case True
    let ?s = "s\<lparr>retired := (retired s)(r := None)\<rparr>"
    have k: "kept q s \<Longrightarrow> kept q ?s" for q using True by (auto simp: kept_def up_to_date_def split: option.splits)
    have "phase_ok ph s \<Longrightarrow> phase_ok ph ?s" for ph
      using k by (cases ph) (auto simp: settled_def up_to_date_def split: option.splits)
    moreover have "settled s \<Longrightarrow> settled ?s" by (simp add: settled_def up_to_date_def)
    ultimately show ?thesis using g True
      by (auto simp: Clean good_def exclusive_def bounded_ids_def sound_def split: option.splits)
  next
    case False
    with g show ?thesis by (simp add: Clean)
  qed
next
  case (Drain n)
  have "phase_ok ph (s\<lparr>draining := d, released := r\<rparr>) = phase_ok ph s" for ph d r
    by (cases ph) (simp_all add: settled_def up_to_date_def kept_def split: option.split)
  moreover have "settled (s\<lparr>draining := d, released := r\<rparr>) = settled s" for d r by (simp add: settled_def up_to_date_def)
  ultimately show ?thesis using g
    by (auto simp: Drain good_def exclusive_def bounded_ids_def sound_def split: option.splits)
next
  case Restart
  show ?thesis
    by (auto simp: Restart restart_def good_def exclusive_def bounded_ids_def sound_def settled_def up_to_date_def)
next
  case (Edit T)
  with e show ?thesis by simp
qed

lemma good_fresh: "good (fresh T)"
  by (simp add: fresh_def good_def exclusive_def bounded_ids_def sound_def settled_def up_to_date_def)

lemma run_append: "run (es @ fs) s = run fs (run es s)"
  by (simp add: run_def)

lemma run_Cons [simp]: "run (e # es) s = run es (step e s)" and run_Nil [simp]: "run [] s = s"
  by (simp_all add: run_def)

lemma good_run: "good s \<Longrightarrow> list_all (\<lambda>e. \<not> is_edit e) es \<Longrightarrow> good (run es s)"
  by (induction es arbitrary: s) (simp_all add: good_step)

text \<open>
  C15: Between operations the package is in one of the documented states: whatever loads, installs, deletes,
  writes, restarts and failures came before and however they interleaved, when nobody holds the lock the
  status is \<open>serving\<close> or absent, a loaded package is \<open>serving\<close>, and it was built from what is on disk unless
  the failure of its last reload is on record. (Edits of the directory from outside are excluded.)
\<close>

theorem idle_package_is_consistent:
  assumes "list_all (\<lambda>e. \<not> is_edit e) es" and "holder (run es (fresh T)) = None"
  shows "pkgStatus (run es (fresh T)) \<in> {None, Some SERVING}
    \<and> (\<forall>p. loaded (run es (fresh T)) = Some p \<longrightarrow> pkgStatus (run es (fresh T)) = Some SERVING
         \<and> (staleError (run es (fresh T)) \<noteq> None \<or> canonical (run es (fresh T)) = Some (builtFrom p)))"
  using good_run [OF good_fresh assms(1), of T] assms(2) by (auto simp: good_def sound_def settled_def up_to_date_def)

subsection \<open>The lock is given back\<close>

fun steps_left :: "Phase \<Rightarrow> nat" where
  "steps_left (Creating reload listing ex) = 3"
| "steps_left (Binding reload listing ex p) = 2"
| "steps_left (BindingServe reload listing ex p) = 1"
| "steps_left AddCreating = 1"
| "steps_left (InstAccess u old) = 8"
| "steps_left (InstRetireDir u old r) = 7"
| "steps_left (InstRetire u old r) = 6"
| "steps_left (InstSwap u old r) = 5"
| "steps_left (InstCreate u old r) = 4"
| "steps_left (InstBind p old r) = 2"
| "steps_left (InstBindServe p old r) = 1"
| "steps_left (RollbackRemove u old r e) = 3"
| "steps_left (RollbackRestore u old i e) = 2"
| "steps_left (RollbackStaging u old restored e) = 1"
| "steps_left (DeleteDir r) = 2"
| "steps_left (DeleteRename r) = 1"
| "steps_left (WriteRead p src) = 14"
| "steps_left (WriteDir p src prev) = 13"
| "steps_left (WriteTemp p src prev) = 12"
| "steps_left (WriteFile p src prev) = 11"
| "steps_left (WriteCreate p prev ex) = 10"
| "steps_left (WriteBind p prev ex q) = 9"
| "steps_left (WriteBindServe p prev ex q) = 8"
| "steps_left (WriteVerify p prev) = 7"
| "steps_left (RestoreDir p src) = 6"
| "steps_left (RestoreTemp p src) = 5"
| "steps_left (WriteRestore p prev) = 4"
| "steps_left (WriteRecreate ex) = 3"
| "steps_left (WriteRebind ex q) = 2"
| "steps_left (WriteRebindServe ex q) = 1"
| "steps_left _ = 0"

lemma held_resume:
  assumes "holder s = Some t" and "locked ph"
  shows "(holder (resume t ph out s) = None \<and> answers (resume t ph out s) t \<noteq> None)
    \<or> (\<exists>ph'. tasks (resume t ph out s) t = Some ph' \<and> locked ph' \<and> steps_left ph' < steps_left ph \<and> holder (resume t ph out s) = Some t)"
  using assms
  by (cases ph; cases out; cases "create_package out s")
    (auto simp: get_step_def fail_get_def load_failed_def load_done_def add_step_def install_retire_def install_swap_def
       install_create_def install_done_def rollback_remove_def rollback_restore_def rollback_done_def delete_rename_def
       write_file_def write_create_def write_verify_def write_restore_def write_recreate_def write_text_def
       or_fail_def restore_phase_def state_defs Let_def split: option.splits)

lemma others_keep_the_lock:
  assumes g: "good s" and h: "holder s = Some t" and e: "\<And>out. e \<noteq> Run t out" "e \<noteq> Restart"
  shows "holder (step e s) = Some t \<and> tasks (step e s) t = tasks s t"
proof (cases e)
  case (Call x op pressed)
  show ?thesis
  proof (cases "tasks s x = None")
    case True
    with g h have "x \<noteq> t" by (auto simp: good_def exclusive_def)
    with h have nh: "holder s \<noteq> Some x" by simp
    from bystander_call [OF True nh, of op pressed] \<open>x \<noteq> t\<close> h show ?thesis by (simp add: Call True same_package_def)
  next
    case False
    then obtain ph where "tasks s x = Some ph" by blast
    with h show ?thesis by (simp add: Call)
  qed
next
  case (Run x out)
  with e(1) [of out] have "x \<noteq> t" by auto
  show ?thesis
  proof (cases "tasks s x")
    case (Some ph)
    with g h \<open>x \<noteq> t\<close> have nl: "\<not> locked ph" by (auto simp: good_def exclusive_def)
    have o: "(\<exists>job. ph = Lock job) \<longrightarrow> holder s \<noteq> None" using h by simp
    have nh: "holder s \<noteq> Some x" using h \<open>x \<noteq> t\<close> by simp
    from bystander_resume [OF nl o nh Some, of out] \<open>x \<noteq> t\<close> h show ?thesis
      by (auto simp: Run Some same_package_def)
  qed (simp add: Run h)
qed (use e h in auto)

definition runs_of :: "nat \<Rightarrow> Event list \<Rightarrow> nat" where
  "runs_of t es = length (List.filter (\<lambda>e. case e of Run x _ \<Rightarrow> x = t | _ \<Rightarrow> False) es)"

lemma released_by:
  assumes "good s" and "holder s = Some t" and "tasks s t = Some ph" and "locked ph"
    and "list_all (\<lambda>e. \<not> is_edit e \<and> e \<noteq> Restart) es" and "steps_left ph \<le> runs_of t es"
  shows "\<exists>k \<le> length es. holder (run (take k es) s) = None \<and> answers (run (take k es) s) t \<noteq> None"
  using assms
proof (induction es arbitrary: s ph)
  case Nil
  then show ?case by (cases ph) (simp_all add: runs_of_def)
next
  case (Cons e es)
  have gs: "good (step e s)" using Cons.prems(1,5) by (simp add: good_step)
  have more: ?case if "\<exists>k \<le> length es. holder (run (take k es) (step e s)) = None \<and> answers (run (take k es) (step e s)) t \<noteq> None"
  proof -
    from that obtain k where "k \<le> length es" "holder (run (take k es) (step e s)) = None" "answers (run (take k es) (step e s)) t \<noteq> None" by blast
    then show ?thesis by (intro exI [of _ "Suc k"]) simp
  qed
  show ?case
  proof (cases "\<exists>out. e = Run t out")
    case True
    then obtain out where e: "e = Run t out" by blast
    with Cons.prems(3) have st: "step e s = resume t ph out s" by simp
    from held_resume [OF Cons.prems(2,4), of out] show ?thesis
    proof (elim disjE exE conjE)
      assume "holder (resume t ph out s) = None" "answers (resume t ph out s) t \<noteq> None"
      then show ?thesis by (intro exI [of _ 1]) (simp add: st)
    next
      fix ph' assume p: "tasks (resume t ph out s) t = Some ph'" "locked ph'" "steps_left ph' < steps_left ph" "holder (resume t ph out s) = Some t"
      have "steps_left ph' \<le> runs_of t es" using Cons.prems(6) p(3) by (simp add: e runs_of_def)
      with Cons.IH [OF gs, unfolded st, OF p(4,1,2)] Cons.prems(5) more show ?thesis by (simp add: st)
    qed
  next
    case False
    then have o: "holder (step e s) = Some t \<and> tasks (step e s) t = tasks s t"
      using others_keep_the_lock [OF Cons.prems(1,2), of e] Cons.prems(5) by auto
    have "runs_of t (e # es) = runs_of t es" using False by (auto simp: runs_of_def split: Event.split)
    with Cons.prems o have "\<exists>k \<le> length es. holder (run (take k es) (step e s)) = None \<and> answers (run (take k es) (step e s)) t \<noteq> None"
      by (intro Cons.IH [OF gs, of ph]) auto
    then show ?thesis by (rule more)
  qed
qed

text \<open>
  C31: No operation keeps the lock: whatever its awaits answer and whatever other tasks do in between, a task
  that holds the lock has answered and given it back after at most fourteen of its own awaits, those of
  a write that is rolled back. (Awaits of \<open>service/environment.ts\<close>, a call it awaits counted once, each of which
  ends; a restart and edits of the directory from outside are excluded.)
\<close>

theorem lock_is_released:
  assumes "list_all (\<lambda>e. \<not> is_edit e) es" and "holder (run es (fresh T)) = Some t"
    and "list_all (\<lambda>e. \<not> is_edit e \<and> e \<noteq> Restart) fs" and "14 \<le> runs_of t fs"
  shows "\<exists>k \<le> length fs. holder (run (es @ take k fs) (fresh T)) = None \<and> answers (run (es @ take k fs) (fresh T)) t \<noteq> None"
proof -
  have g: "good (run es (fresh T))" by (rule good_run [OF good_fresh assms(1)])
  with assms(2) obtain ph where ph: "tasks (run es (fresh T)) t = Some ph" "locked ph"
    by (auto simp: good_def exclusive_def)
  have "steps_left ph \<le> 14" by (cases ph) simp_all
  with released_by [OF g assms(2) ph assms(3)] assms(4) show ?thesis by (simp add: run_append)
qed

subsection \<open>A failed install changes nothing\<close>

text \<open>The outcomes that end the locked part of an install in a rollback: the swap, the load or the validator failed.\<close>

definition failing_install :: "Outcome list \<Rightarrow> string \<Rightarrow> bool" where
  "failing_install outs e \<longleftrightarrow>
     outs = [Ok, Ok, Ok, Ok, Fails e, Ok, Ok, Ok]
   \<or> outs = [Ok, Ok, Ok, Ok, Ok, Fails e, Ok, Ok, Ok]
   \<or> outs = [Ok, Ok, Ok, Ok, Ok, Rejects e, Ok, Ok, Ok]"

text \<open>
  C26: An install over an existing package whose swap, load or validation fails restores it, where the rollback's
  own three awaits succeed and no step of another task falls between those of the install: the directory holds
  the old tree, the loaded package is the one before, a package that was loaded is serving, nothing of the
  new tree is left, the caller gets the error and the lock is free. (A package that was on disk and not loaded gets
  its tree back and loses its status: \<open>failed_install_hides_unloaded_package\<close>.)
\<close>

theorem failed_install_restores:
  assumes "holder s = None" and "tasks s t = Some (Lock (Install u))" and "staged s u = Some T'" and "canonical s = Some T"
    and "failing_install outs e"
  shows "let s' = run (map (Run t) outs) s in
      canonical s' = Some T \<and> loaded s' = loaded s \<and> staged s' u = None \<and> retired s' (nextId s) = None
    \<and> (loaded s \<noteq> None \<longrightarrow> pkgStatus s' = Some SERVING)
    \<and> answers s' t = Some (Failed e) \<and> holder s' = None \<and> tasks s' t = None"
proof -
  note defs = locked_start_def install_retire_def install_swap_def install_create_def create_package_def rollback_remove_def
    rollback_restore_def rollback_done_def or_fail_def state_defs Let_def goto_def answer_def
  consider "outs = [Ok, Ok, Ok, Ok, Fails e, Ok, Ok, Ok]" | "outs = [Ok, Ok, Ok, Ok, Ok, Fails e, Ok, Ok, Ok]"
    | "outs = [Ok, Ok, Ok, Ok, Ok, Rejects e, Ok, Ok, Ok]"
    using assms(5) unfolding failing_install_def by blast
  then show ?thesis
    by cases (use assms(1-4) in \<open>simp add: defs split: option.split\<close>)+
qed

text \<open>
  Where the package was on disk but not yet loaded, the rollback drops its status although the old tree is
  back: it is no longer listed.
\<close>

lemma failed_install_hides_unloaded_package:
  assumes "holder s = None" and "tasks s t = Some (Lock (Install u))" and "staged s u = Some T'" and "canonical s = Some T"
    and "loaded s = None" and "failing_install outs e"
  shows "canonical (run (map (Run t) outs) s) = Some T \<and> pkgStatus (run (map (Run t) outs) s) = None"
proof -
  note defs = locked_start_def install_retire_def install_swap_def install_create_def create_package_def rollback_remove_def
    rollback_restore_def rollback_done_def or_fail_def state_defs Let_def goto_def answer_def
  consider "outs = [Ok, Ok, Ok, Ok, Fails e, Ok, Ok, Ok]" | "outs = [Ok, Ok, Ok, Ok, Ok, Fails e, Ok, Ok, Ok]"
    | "outs = [Ok, Ok, Ok, Ok, Ok, Rejects e, Ok, Ok, Ok]"
    using assms(6) unfolding failing_install_def by blast
  then show ?thesis
    by cases (use assms(1-5) in \<open>simp add: defs\<close>)+
qed

text \<open>A write that is refused puts the previous text back, and the reload after it serves it.\<close>

lemma put_file_undo: "put_file p (map_of T p) (put_file p (Some src) T) = T"
proof (induction T)
  case Nil
  show ?case by (simp add: put_file_def)
next
  case (Cons x T)
  obtain q y where x: "x = (q, y)" by force
  show ?case
  proof (cases "map_of T p")
    case None
    with Cons x show ?thesis by (auto simp: put_file_def)
  next
    case (Some z)
    with Cons x show ?thesis by (auto simp: put_file_def)
  qed
qed

theorem refused_write_restores:
  assumes "holder s = None" and "tasks s t = Some (Lock (Write p src))" and "canonical s = Some T"
    and undo: "undo = (if map_of T p = None then [Ok] else [Ok, Ok, Ok]) @ [Ok, Ok, Ok]"
    and "outs = [Ok, Ok, Ok, Ok, Ok, Fails e1] @ undo \<or> outs = [Ok, Ok, Ok, Ok, Ok, Ok, Ok, Ok, Fails e1] @ undo"
  shows "let s' = run (map (Run t) outs) s in
      canonical s' = Some T \<and> answers s' t = Some (Failed rolled_back) \<and> holder s' = None
    \<and> (\<exists>q. loaded s' = Some q \<and> builtFrom q = T) \<and> pkgStatus s' = Some SERVING \<and> staleError s' = None"
proof -
  note defs = locked_start_def write_file_def write_create_def write_verify_def write_restore_def write_recreate_def or_fail_def
    restore_phase_def create_package_def load_failed_def load_done_def write_text_def file_text_def state_defs Let_def goto_def answer_def
  have undone: "put_file p (map_of T p) (put_file p (Some src) T) = T" by (rule put_file_undo)
  show ?thesis
  proof (cases "map_of T p")
    case None
    from assms(5) show ?thesis
      by (elim disjE) (use assms(1-3) None undone in \<open>simp add: undo defs split: option.split\<close>)+
  next
    case (Some x)
    from assms(5) show ?thesis
      by (elim disjE) (use assms(1-3) Some undone in \<open>simp add: undo defs split: option.split\<close>)+
  qed
qed

subsection \<open>Connections\<close>

text \<open>The package a task has created and not yet put in place.\<close>

fun pending :: "Phase \<Rightarrow> Pkg option" where
  "pending (Binding reload listing ex p) = Some p"
| "pending (BindingServe reload listing ex p) = Some p"
| "pending (InstBind p old r) = Some p"
| "pending (InstBindServe p old r) = Some p"
| "pending (WriteBind p prev ex q) = Some q"
| "pending (WriteBindServe p prev ex q) = Some q"
| "pending (WriteRebind ex q) = Some q"
| "pending (WriteRebindServe ex q) = Some q"
| "pending _ = None"

fun deleting :: "Phase \<Rightarrow> bool" where
  "deleting (DeleteDir r) = True"
| "deleting (DeleteRename r) = True"
| "deleting _ = False"

definition gone :: "PkgState \<Rightarrow> nat set" where
  "gone s = set (draining s) \<union> set (released s)"

text \<open>
  With \<open>p\<close> in hand: every generation was numbered before, the loaded package and \<open>p\<close> are not retired (a
  delete retires first), and every generation opened is retired, loaded or in hand, but those in \<open>X\<close>.
\<close>

definition accounts :: "nat set \<Rightarrow> bool \<Rightarrow> Pkg option \<Rightarrow> PkgState \<Rightarrow> bool" where
  "accounts X del p s \<longleftrightarrow>
     (\<forall>g \<in> set (opened s). g < nextId s) \<and> gone s \<subseteq> set (opened s)
   \<and> (\<forall>q. loaded s = Some q \<longrightarrow> generation q \<in> set (opened s) \<and> (generation q \<in> gone s \<longleftrightarrow> del))
   \<and> (\<forall>q. p = Some q \<longrightarrow> generation q \<in> set (opened s) \<and> generation q \<notin> gone s
        \<and> (\<forall>l. loaded s = Some l \<longrightarrow> generation l \<noteq> generation q))
   \<and> (\<forall>g \<in> set (opened s). g \<in> gone s \<or> (\<exists>q. loaded s = Some q \<and> g = generation q) \<or> (\<exists>q. p = Some q \<and> g = generation q) \<or> g \<in> X)"

definition accounted :: "nat set \<Rightarrow> PkgState \<Rightarrow> bool" where
  "accounted X s \<longleftrightarrow>
     (case holder s of None \<Rightarrow> accounts X False None s
      | Some t \<Rightarrow> (case tasks s t of None \<Rightarrow> False | Some ph \<Rightarrow> accounts X (deleting ph) (pending ph) s))"

lemma accounts_goto [simp]: "accounts X d p (goto t ph s) = accounts X d p s"
  and accounts_answer [simp]: "accounts X d p (answer t a s) = accounts X d p s"
  by (simp_all add: accounts_def gone_def goto_def answer_def)

lemma accounted_goto: "holder s = Some t \<Longrightarrow> accounts X (deleting ph) (pending ph) s \<Longrightarrow> accounted X (goto t ph s)"
  by (simp add: accounted_def)

lemma accounted_answer: "holder s = Some t \<Longrightarrow> accounts X False None s \<Longrightarrow> accounted X (answer t a s)"
  by (simp add: accounted_def)

text \<open>What a step does to the books: nothing, a new generation, or retiring the loaded one.\<close>

lemma accounts_same:
  "accounts X d p s \<Longrightarrow> loaded s' = loaded s \<Longrightarrow> opened s' = opened s \<Longrightarrow> draining s' = draining s \<Longrightarrow> released s' = released s
    \<Longrightarrow> nextId s \<le> nextId s' \<Longrightarrow> accounts X d p s'"
  by (fastforce simp: accounts_def gone_def)

lemma accounts_open:
  assumes "accounts X False None s" and "generation p = nextId s"
  shows "accounts X False (Some p) (hand_out p s)"
proof -
  have "generation p \<notin> set (opened s)" using assms by (auto simp: accounts_def)
  then have "generation p \<notin> gone s" "loaded s = Some l \<Longrightarrow> generation l \<noteq> generation p" for l
    using assms(1) by (auto simp: accounts_def)
  then show ?thesis using assms by (auto simp: accounts_def gone_def hand_out_def dest: less_SucI)
qed

lemma accounts_install:
  assumes "accounts X False (Some p) s" and "loaded s = old" and "loaded s' = Some p" and "opened s' = opened s"
    and "draining s' = (case old of None \<Rightarrow> draining s | Some q \<Rightarrow> generation q # draining s)" and "released s' = released s"
    and "nextId s' = nextId s"
  shows "accounts X False None s'"
  using assms by (cases old) (auto simp: accounts_def gone_def)

lemma accounts_drop:
  assumes "accounts X False None s" and "loaded s' = None" and "opened s' = opened s"
    and "draining s' = (case loaded s of None \<Rightarrow> draining s | Some q \<Rightarrow> generation q # draining s)" and "released s' = released s"
    and "nextId s' = nextId s"
  shows "accounts X False None s'"
  using assms by (cases "loaded s") (auto simp: accounts_def gone_def)

lemma create_package_generation: "create_package out s = Inr p \<Longrightarrow> generation p = nextId s"
  by (auto simp: create_package_def split: Outcome.splits option.splits)

lemmas book_defs = state_defs load_failed_def load_done_def fail_get_def

lemma accounted_held:
  assumes g: "good s" and h: "holder s = Some t" and ph: "tasks s t = Some ph" "locked ph"
    and acc: "accounted X s" and nr: "\<And>e. out \<noteq> Rejects e"
  shows "accounted X (resume t ph out s)"
proof -
  have ok: "phase_ok ph s" and a: "accounts X (deleting ph) (pending ph) s"
    using g h ph acc by (simp_all add: good_def sound_def accounted_def)
  have S: "accounts X d p s'" if "accounts X d p s" "loaded s' = loaded s" "opened s' = opened s" "draining s' = draining s"
      "released s' = released s" "nextId s \<le> nextId s'" for d p s'
    using accounts_same [OF that] .
  note O = accounts_open [OF _ create_package_generation]
  have DELETED: "accounts X False None ((deletePackageStatus s')\<lparr>loaded := None\<rparr>)"
    if "accounts X True None s" "opened s' = opened s" "draining s' = draining s" "released s' = released s" "nextId s' = nextId s" for s'
    using that by (auto simp: accounts_def gone_def state_defs)
  show ?thesis
  proof (cases ph)
    case (Creating reload listing e)
    then have l: "loaded s = e" "reload \<or> e = None" "accounts X False None s" using ok a by simp_all
    show ?thesis
    proof (cases "create_package out s")
      case (Inl m)
      have "accounts X False None (if listing then (load_failed reload e m s)\<lparr>failedPackage := Some m\<rparr> else load_failed reload e m s)"
        using l by (auto simp: book_defs intro!: S [OF l(3)])
      then show ?thesis using Inl Creating h by (auto simp: get_step_def fail_get_def book_defs intro!: accounted_answer)
    next
      case (Inr p)
      then show ?thesis using O [OF l(3) Inr] Creating h by (auto simp: get_step_def state_defs intro!: accounted_goto)
    qed
  next
    case (Binding reload listing e p)
    then show ?thesis using a h by (auto intro!: accounted_goto)
  next
    case (BindingServe reload listing e p)
    have "accounts X False None (load_done reload e p s)"
      by (rule accounts_install [of X p s e]) (use ok a BindingServe in \<open>auto simp: load_done_def state_defs split: option.split\<close>)
    moreover have "holder (load_done reload e p s) = Some t" using h by (simp add: load_done_def state_defs split: option.split)
    ultimately show ?thesis using BindingServe by (simp add: accounted_answer)
  next
    case AddCreating
    then have l: "loaded s = None" "accounts X False None s" using ok a by simp_all
    show ?thesis
    proof (cases "create_package out s")
      case (Inl m)
      then show ?thesis using AddCreating h l by (auto simp: add_step_def state_defs intro!: accounted_answer S [OF l(2)])
    next
      case (Inr p)
      have "accounts X False None (clearPackageLoadFailure (setPackageStatus SERVING ((hand_out p s)\<lparr>loaded := Some p\<rparr>)))"
        by (rule accounts_install [OF O [OF l(2) Inr], of None]) (use l in \<open>simp_all add: state_defs\<close>)
      then show ?thesis using Inr AddCreating h by (auto simp: add_step_def state_defs intro!: accounted_answer)
    qed
  next
    case (InstAccess u old)
    then have l: "accounts X False None s" using a by simp
    have "accounts X False None (s\<lparr>nextId := Suc (nextId s)\<rparr>)" by (rule S [OF l]) simp_all
    with l InstAccess h show ?thesis by (auto intro!: accounted_goto)
  next
    case (InstRetireDir u old r)
    then show ?thesis using a h by (cases out) (auto simp: or_fail_def intro!: accounted_goto accounted_answer)
  next
    case (InstRetire u old r)
    then have l: "accounts X False None s" using a by simp
    show ?thesis using l h InstRetire by (cases out) (auto simp: install_retire_def intro!: accounted_goto accounted_answer S [OF l])
  next
    case (InstSwap u old r)
    then have l: "accounts X False None s" using a by simp
    show ?thesis using l h InstSwap
      by (cases out; cases "staged s u") (auto simp: install_swap_def state_defs intro!: accounted_goto S [OF l])
  next
    case (InstCreate u old r)
    then have l: "accounts X False None s" using a by simp
    show ?thesis
    proof (cases "create_package out s")
      case (Inl m)
      then show ?thesis using InstCreate h l by (auto simp: install_create_def intro!: accounted_goto)
    next
      case (Inr p)
      then show ?thesis using O [OF l Inr] InstCreate h nr
        by (cases out) (auto simp: install_create_def state_defs intro!: accounted_goto)
    qed
  next
    case (InstBind p old r)
    then show ?thesis using a h by (auto intro!: accounted_goto)
  next
    case (InstBindServe p old r)
    have "accounts X False None (retireConnectionGeneration old (clearPackageLoadFailure (setPackageStatus SERVING
         (s\<lparr>loaded := Some p, cleaning := (case r of Some i \<Rightarrow> i # cleaning s | None \<Rightarrow> cleaning s)\<rparr>))))"
      by (rule accounts_install [of X p s old]) (use ok a InstBindServe in \<open>auto simp: state_defs split: option.split\<close>)
    then show ?thesis using h InstBindServe by (auto simp: install_done_def state_defs split: option.split intro!: accounted_answer)
  next
    case (RollbackRemove u old r e)
    then have l: "accounts X False None s" using a by simp
    show ?thesis using l h RollbackRemove by (cases out; cases r) (auto simp: rollback_remove_def Let_def intro!: accounted_goto S [OF l])
  next
    case (RollbackRestore u old i e)
    then have l: "accounts X False None s" using a by simp
    show ?thesis using l h RollbackRestore by (cases out) (auto simp: rollback_restore_def intro!: accounted_goto S [OF l])
  next
    case (RollbackStaging u old restored e)
    then have l: "loaded s = old" "accounts X False None s" using ok a by simp_all
    define s' where "s' = (case out of Fails _ \<Rightarrow> s | _ \<Rightarrow> s\<lparr>staged := (staged s)(u := None)\<rparr>)"
    have s': "loaded s' = old" "opened s' = opened s" "draining s' = draining s" "released s' = released s" "nextId s' = nextId s" "holder s' = Some t"
      using l h by (cases out; simp add: s'_def)+
    have "accounts X False None (setPackageStatus SERVING s')" using S [OF l(2)] s' l by (simp add: state_defs)
    moreover have "accounts X False None ((retireConnectionGeneration old (deletePackageStatus s'))\<lparr>loaded := None\<rparr>)"
      by (rule accounts_drop [OF l(2)]) (use s' l in \<open>simp_all add: state_defs split: option.split\<close>)
    ultimately show ?thesis using s'(6) RollbackStaging
      by (auto simp: rollback_done_def s'_def [symmetric] state_defs split: option.split intro!: accounted_answer)
  next
    case (DeleteDir r)
    then have d: "accounts X True None s" using a by simp
    show ?thesis using DELETED [OF d] d h DeleteDir
      by (cases out) (auto simp: delete_rename_def Let_def state_defs intro!: accounted_answer accounted_goto)
  next
    case (DeleteRename r)
    then have d: "accounts X True None s" using a by simp
    show ?thesis using DELETED [OF d] h DeleteRename
      by (cases out) (auto simp: delete_rename_def Let_def state_defs intro!: accounted_answer)
  next
    case (WriteRead p src)
    then show ?thesis using a h by (cases out) (auto simp: or_fail_def intro!: accounted_goto accounted_answer)
  next
    case (WriteDir p src prev)
    then show ?thesis using a h by (cases out) (auto simp: or_fail_def intro!: accounted_goto accounted_answer)
  next
    case (WriteTemp p src prev)
    then show ?thesis using a h by (cases out) (auto simp: or_fail_def intro!: accounted_goto accounted_answer)
  next
    case (WriteFile p src prev)
    then have l: "accounts X False None s" using a by simp
    show ?thesis using l h WriteFile
      by (cases out) (auto simp: write_file_def write_text_def state_defs intro!: accounted_goto accounted_answer S [OF l])
  next
    case (WriteCreate p prev e)
    then have l: "loaded s = e" "accounts X False None s" using ok a by simp_all
    show ?thesis
    proof (cases "create_package out s")
      case (Inl m)
      then show ?thesis using WriteCreate h l
        by (cases prev) (auto simp: write_create_def restore_phase_def book_defs intro!: accounted_goto S [OF l(2)])
    next
      case (Inr q)
      then show ?thesis using O [OF l(2) Inr] WriteCreate h by (auto simp: write_create_def state_defs intro!: accounted_goto)
    qed
  next
    case (WriteBind p prev e q)
    then show ?thesis using a h by (auto intro!: accounted_goto)
  next
    case (WriteBindServe p prev e q)
    have "accounts X False None (load_done True e q s)"
      by (rule accounts_install [of X q s e]) (use ok a WriteBindServe in \<open>auto simp: load_done_def state_defs split: option.split\<close>)
    moreover have "holder (load_done True e q s) = Some t" using h by (simp add: load_done_def state_defs split: option.split)
    ultimately show ?thesis using WriteBindServe by (simp add: accounted_goto)
  next
    case (WriteVerify p prev)
    then show ?thesis using a h
      by (cases out; cases prev) (auto simp: write_verify_def restore_phase_def intro!: accounted_goto accounted_answer)
  next
    case (RestoreDir p src)
    then show ?thesis using a h by (cases out) (auto simp: or_fail_def intro!: accounted_goto accounted_answer)
  next
    case (RestoreTemp p src)
    then show ?thesis using a h by (cases out) (auto simp: or_fail_def intro!: accounted_goto accounted_answer)
  next
    case (WriteRestore p prev)
    then have l: "accounts X False None s" using a by simp
    show ?thesis using l h WriteRestore
      by (cases out) (auto simp: write_restore_def write_text_def state_defs intro!: accounted_goto accounted_answer S [OF l])
  next
    case (WriteRecreate e)
    then have l: "loaded s = e" "accounts X False None s" using ok a by simp_all
    show ?thesis
    proof (cases "create_package out s")
      case (Inl m)
      then show ?thesis using WriteRecreate h l by (auto simp: write_recreate_def book_defs intro!: accounted_answer S [OF l(2)])
    next
      case (Inr q)
      then show ?thesis using O [OF l(2) Inr] WriteRecreate h by (auto simp: write_recreate_def state_defs intro!: accounted_goto)
    qed
  next
    case (WriteRebind e q)
    then show ?thesis using a h by (auto intro!: accounted_goto)
  next
    case (WriteRebindServe e q)
    have "accounts X False None (load_done True e q s)"
      by (rule accounts_install [of X q s e]) (use ok a WriteRebindServe in \<open>auto simp: load_done_def state_defs split: option.split\<close>)
    moreover have "holder (load_done True e q s) = Some t" using h by (simp add: load_done_def state_defs split: option.split)
    ultimately show ?thesis using WriteRebindServe by (simp add: accounted_answer)
  qed (use ph(2) in simp_all)
qed

text \<open>The other steps.\<close>

lemma books_bystander:
  assumes g: "good s" and acc: "accounted X s" and sp: "same_package s s'"
    and b: "opened s' = opened s" "draining s' = draining s" "released s' = released s"
    and nh: "holder s \<noteq> Some t" and others: "\<And>x. x \<noteq> t \<Longrightarrow> tasks s' x = tasks s x"
  shows "accounted X s'"
proof -
  have A: "accounts X d p s \<Longrightarrow> accounts X d p s'" for d p
    using accounts_same [of X d p s s'] sp b by (simp add: same_package_def)
  have h: "holder s' = holder s" using sp by (simp add: same_package_def)
  show ?thesis
  proof (cases "holder s")
    case None
    with acc A h show ?thesis by (simp add: accounted_def)
  next
    case (Some x)
    with nh others have "tasks s' x = tasks s x" by auto
    with Some acc A h show ?thesis by (simp add: accounted_def split: option.splits)
  qed
qed

lemma bystander_books:
  assumes "\<not> locked ph" and "(\<exists>job. ph = Lock job) \<longrightarrow> holder s \<noteq> None"
  shows "opened (resume t ph out s) = opened s \<and> draining (resume t ph out s) = draining s \<and> released (resume t ph out s) = released s"
  using assms by (cases ph; cases out) (auto simp: goto_def answer_def or_fail_def)

lemma call_books:
  "opened (call_op t op pressed s) = opened s \<and> draining (call_op t op pressed s) = draining s \<and> released (call_op t op pressed s) = released s"
  by (cases op) (auto simp: call_op_def getPackage_def listPackage_def fail_get_def goto_def answer_def)

lemma accounted_locked_start:
  assumes g: "good s" and h: "holder s = None" and acc: "accounted X s"
  shows "accounted X (locked_start t job s)"
proof -
  have st: "settled s" using g h by (simp add: good_def sound_def)
  have a: "accounts X False None s" using acc h by (simp add: accounted_def)
  have S: "accounts X False None s'" if "loaded s' = loaded s" "opened s' = opened s" "draining s' = draining s"
      "released s' = released s" "nextId s \<le> nextId s'" for s'
    using accounts_same [OF a that] .
  show ?thesis
  proof (cases job)
    case Delete
    show ?thesis
    proof (cases "loaded s")
      case None
      then show ?thesis unfolding Delete locked_start_def Let_def Job.case deletePackage_def
        by (simp add: state_defs) (rule accounted_answer, simp, rule S, simp_all)
    next
      case (Some q)
      have "pkgStatus s = Some SERVING" using st Some by (auto simp: settled_def)
      moreover have "accounts X True None (s\<lparr>holder := Some t, failedPackage := None, mountError := None, staleError := None,
          pkgStatus := Some UNLOADING, draining := generation q # draining s, nextId := Suc (nextId s)\<rparr>)"
        using a Some by (auto simp: accounts_def gone_def dest: less_SucI)
      ultimately show ?thesis unfolding Delete locked_start_def Let_def Job.case deletePackage_def
        by (simp add: state_defs Some) (rule accounted_goto, simp_all)
    qed
  next
    case Unload
    show ?thesis
    proof (cases "loaded s")
      case None
      then show ?thesis unfolding Unload locked_start_def Let_def Job.case unloadPackage_def
        by (simp add: state_defs) (rule accounted_answer, simp, rule S, simp_all)
    next
      case (Some q)
      show ?thesis unfolding Unload locked_start_def Let_def Job.case unloadPackage_def
        by (simp add: state_defs Some) (rule accounted_answer, simp, rule accounts_drop [OF a], simp_all add: Some)
    qed
  next
    case (Get reload listing)
    show ?thesis unfolding Get locked_start_def Let_def Job.case
      by (auto simp: state_defs intro!: accounted_answer accounted_goto S)
  next
    case Add
    show ?thesis unfolding Add locked_start_def Let_def Job.case
      by (auto simp: state_defs intro!: accounted_answer accounted_goto S)
  next
    case (Install u)
    show ?thesis unfolding Install locked_start_def Let_def Job.case
      by (auto simp: state_defs intro!: accounted_goto S)
  next
    case (Write p src)
    show ?thesis unfolding Write locked_start_def Let_def Job.case
      by (auto simp: state_defs intro!: accounted_goto S)
  qed
qed

fun rejects :: "Event \<Rightarrow> bool" where
  "rejects (Run t (Rejects e)) = True"
| "rejects e = False"

lemma accounted_step:
  assumes g: "good s" and acc: "accounted {} s" and e: "\<not> is_edit e" "\<not> rejects e"
  shows "accounted {} (step e s)"
proof (cases e)
  case (Call t op pressed)
  show ?thesis
  proof (cases "tasks s t")
    case None
    then have nh: "holder s \<noteq> Some t" using g by (auto simp: good_def exclusive_def)
    from bystander_call [OF None nh, of op pressed] call_books [of t op pressed s]
    have "accounted {} (call_op t op pressed s)" by (intro books_bystander [OF g acc _ _ _ _ nh]) auto
    with None show ?thesis by (simp add: Call)
  next
    case (Some ph)
    with acc show ?thesis by (simp add: Call)
  qed
next
  case (Run t out)
  show ?thesis
  proof (cases "tasks s t")
    case None
    with acc show ?thesis by (simp add: Run)
  next
    case (Some ph)
    have nr: "out \<noteq> Rejects m" for m using e(2) Run by auto
    show ?thesis
    proof (cases "locked ph")
      case True
      with g Some have "holder s = Some t" by (simp add: good_def exclusive_def)
      from accounted_held [OF g this Some True acc nr] show ?thesis by (simp add: Run Some)
    next
      case False
      then have nh: "holder s \<noteq> Some t" using g Some by (auto simp: good_def exclusive_def)
      show ?thesis
      proof (cases "(\<exists>job. ph = Lock job) \<longrightarrow> holder s \<noteq> None")
        case o: True
        from bystander_resume [OF False o nh Some, of out] bystander_books [OF False o, of t out]
        have "accounted {} (resume t ph out s)" by (intro books_bystander [OF g acc _ _ _ _ nh]) auto
        then show ?thesis by (simp add: Run Some)
      next
        case lock: False
        then obtain job where "ph = Lock job" "holder s = None" by auto
        with accounted_locked_start [OF g _ acc, of t job] Some show ?thesis by (simp add: Run)
      qed
    qed
  qed
next
  case (Clean r)
  have "accounts {} d p (s\<lparr>retired := R\<rparr>) = accounts {} d p s" for d p R by (simp add: accounts_def gone_def)
  with acc show ?thesis by (auto simp: Clean accounted_def split: option.splits)
next
  case (Drain n)
  have "accounts {} d p (s\<lparr>draining := removeAll n (draining s), released := n # released s\<rparr>) = accounts {} d p s"
    if "n \<in> set (draining s)" for d p
  proof -
    have "gone (s\<lparr>draining := removeAll n (draining s), released := n # released s\<rparr>) = gone s"
      using that by (auto simp: gone_def)
    then show ?thesis by (simp add: accounts_def)
  qed
  with acc show ?thesis by (auto simp: Drain accounted_def split: option.splits)
next
  case Restart
  show ?thesis by (simp add: Restart restart_def accounted_def accounts_def gone_def)
next
  case (Edit T)
  with e show ?thesis by simp
qed

lemma accounted_run:
  "good s \<Longrightarrow> accounted {} s \<Longrightarrow> list_all (\<lambda>e. \<not> is_edit e \<and> \<not> rejects e) es \<Longrightarrow> accounted {} (run es s)"
  by (induction es arbitrary: s) (simp_all add: good_step accounted_step)

text \<open>
  Connections are closed exactly when nobody uses them any more: between operations every generation of
  connections that was ever opened either belongs to the loaded package or was retired, and the loaded
  package's own is not retired. (Runs in which a validator refuses a package are excluded.)
\<close>

theorem connections_are_retired_once_replaced:
  assumes "list_all (\<lambda>e. \<not> is_edit e \<and> \<not> rejects e) es" and "holder (run es (fresh T)) = None"
  shows "set (opened (run es (fresh T))) =
      (case loaded (run es (fresh T)) of None \<Rightarrow> {} | Some p \<Rightarrow> {generation p}) \<union> gone (run es (fresh T))
    \<and> (\<forall>p. loaded (run es (fresh T)) = Some p \<longrightarrow> generation p \<notin> gone (run es (fresh T)))"
proof -
  have "accounted {} (fresh T)" by (simp add: fresh_def accounted_def accounts_def gone_def)
  from accounted_run [OF good_fresh this assms(1)] assms(2)
  have a: "accounts {} False None (run es (fresh T))" by (simp add: accounted_def)
  then have "set (opened (run es (fresh T))) \<subseteq>
      (case loaded (run es (fresh T)) of None \<Rightarrow> {} | Some p \<Rightarrow> {generation p}) \<union> gone (run es (fresh T))"
    by (auto simp: accounts_def split: option.split)
  moreover have "(case loaded (run es (fresh T)) of None \<Rightarrow> {} | Some p \<Rightarrow> {generation p}) \<union> gone (run es (fresh T))
      \<subseteq> set (opened (run es (fresh T)))"
    using a by (auto simp: accounts_def split: option.split)
  ultimately show ?thesis using a by (auto simp: accounts_def)
qed

subsection \<open>Witnesses and corner cases\<close>

definition v1 :: Tree where "v1 = [(''publisher.json'', ''{}''), (''m.malloy'', ''source: a'')]"
definition v2 :: Tree where "v2 = [(''publisher.json'', ''{}''), (''m.malloy'', ''source: b'')]"

text \<open>A load, an install that commits, and a reload that fails.\<close>

definition demo_events :: "Event list" where
  "demo_events = [Call 1 (GetPackage False) False, Run 1 Ok, Run 1 Ok, Run 1 Ok, Run 1 Ok,
     Call 2 InstallPackage False, Run 2 Ok, Run 2 (Content v2), Call 3 (GetPackage True) False, Run 2 Ok, Run 3 Ok, Run 2 Ok, Run 2 Ok, Run 2 Ok,
     Run 2 Ok, Run 2 Ok, Run 2 Ok, Run 2 Ok, Run 3 Ok, Run 3 (Fails ''compile error'')]"

lemma demo_events_plain: "list_all (\<lambda>e. \<not> is_edit e \<and> \<not> rejects e) demo_events"
  by (simp add: demo_events_def)

lemmas run_eval = demo_events_def fresh_def v1_def v2_def call_op_def getPackage_def locked_start_def get_step_def
  fail_get_def create_package_def load_failed_def load_done_def install_retire_def install_swap_def install_create_def
  install_done_def or_fail_def state_defs Let_def goto_def answer_def

definition demo_install :: "Event list" where
  "demo_install = [Call 1 (GetPackage False) False, Run 1 Ok, Run 1 Ok, Run 1 Ok, Run 1 Ok,
     Call 2 InstallPackage False, Run 2 Ok, Run 2 (Content v2), Run 2 Ok, Run 2 Ok, Run 2 Ok, Run 2 Ok, Run 2 Ok, Run 2 Ok, Run 2 Ok, Run 2 Ok]"

lemma idle_package_is_consistent_witness:
  "pkgStatus (run demo_install (fresh (Some v1))) = Some SERVING
     \<and> canonical (run demo_install (fresh (Some v1))) = Some v2"
proof -
  have "list_all (\<lambda>e. \<not> is_edit e) demo_install" by (simp add: demo_install_def)
  moreover have "holder (run demo_install (fresh (Some v1))) = None" by (simp add: demo_install_def run_eval)
  moreover have "\<exists>p. loaded (run demo_install (fresh (Some v1))) = Some p \<and> builtFrom p = v2"
    by (simp add: demo_install_def run_eval)
  moreover have "staleError (run demo_install (fresh (Some v1))) = None" by (simp add: demo_install_def run_eval)
  ultimately show ?thesis using idle_package_is_consistent [of demo_install "Some v1"] by auto
qed

lemma lock_is_released_witness:
  "\<exists>k \<le> 14. holder (run ([Call 1 (GetPackage False) False, Run 1 Ok] @ take k (replicate 14 (Run 1 (Fails ''timeout'')))) (fresh (Some v1))) = None"
proof -
  have "holder (run [Call 1 (GetPackage False) False, Run 1 Ok] (fresh (Some v1))) = Some 1" by (simp add: run_eval)
  moreover have "list_all (\<lambda>e. \<not> is_edit e) [Call 1 (GetPackage False) False, Run 1 Ok]"
    "list_all (\<lambda>e. \<not> is_edit e \<and> e \<noteq> Restart) (replicate 14 (Run 1 (Fails ''timeout'')))"
    "14 \<le> runs_of 1 (replicate 14 (Run 1 (Fails ''timeout'')))"
    by (simp_all add: runs_of_def list_all_iff)
  ultimately obtain k where "k \<le> length (replicate 14 (Run 1 (Fails ''timeout'')))"
    "holder (run ([Call 1 (GetPackage False) False, Run 1 Ok] @ take k (replicate 14 (Run 1 (Fails ''timeout'')))) (fresh (Some v1))) = None"
    using lock_is_released by blast
  then show ?thesis by (metis length_replicate)
qed

definition demo_installing :: PkgState where
  "demo_installing = run [Call 1 (GetPackage False) False, Run 1 Ok, Run 1 Ok, Run 1 Ok, Run 1 Ok, Call 2 InstallPackage False, Run 2 Ok, Run 2 (Content v2)] (fresh (Some v1))"

lemma failed_install_restores_witness:
  "canonical (run (map (Run 2) [Ok, Ok, Ok, Ok, Ok, Rejects ''bad explores'', Ok, Ok, Ok]) demo_installing) = Some v1"
proof -
  have "holder demo_installing = None" "tasks demo_installing 2 = Some (Lock (Install 1))" "staged demo_installing 1 = Some v2"
    "canonical demo_installing = Some v1"
    by (simp_all add: demo_installing_def run_eval)
  moreover have "failing_install [Ok, Ok, Ok, Ok, Ok, Rejects ''bad explores'', Ok, Ok, Ok] ''bad explores''" by (simp add: failing_install_def)
  ultimately show ?thesis using failed_install_restores [of demo_installing 2 1 v2 v1] unfolding Let_def by blast
qed

lemma refused_write_restores_witness:
  "canonical (run (map (Run 5) ([Ok, Ok, Ok, Ok, Ok, Fails ''does not compile''] @ [Ok, Ok, Ok, Ok, Ok, Ok]))
     (step (Call 5 (WriteModelFile ''m.malloy'' ''x'') False) (fresh (Some v1)))) = Some v1"
proof -
  let ?s = "step (Call 5 (WriteModelFile ''m.malloy'' ''x'') False) (fresh (Some v1))"
  have "holder ?s = None" "tasks ?s 5 = Some (Lock (Write ''m.malloy'' ''x''))" "canonical ?s = Some v1"
    "[Ok, Ok, Ok, Ok, Ok, Ok] = (if map_of v1 ''m.malloy'' = None then [Ok] else [Ok, Ok, Ok]) @ [Ok, Ok, Ok]"
    by (simp_all add: fresh_def call_op_def goto_def v1_def)
  from refused_write_restores [OF this disjI1 [OF refl], of "''does not compile''"] show ?thesis
    unfolding Let_def by blast
qed

lemma connections_are_retired_once_replaced_witness:
  "set (opened (run demo_events (fresh (Some v1)))) = {3} \<union> gone (run demo_events (fresh (Some v1)))"
proof -
  have "holder (run demo_events (fresh (Some v1))) = None" by (simp add: run_eval)
  moreover have "\<exists>p. loaded (run demo_events (fresh (Some v1))) = Some p \<and> generation p = 3" by (simp add: run_eval)
  ultimately show ?thesis using connections_are_retired_once_replaced [OF demo_events_plain, of "Some v1"] by auto
qed

text \<open>The connections of a package the validator refuses are neither in use nor retired.\<close>

lemma rejected_package_is_not_retired:
  "let s = run (map (Run 2) [Ok, Ok, Ok, Ok, Ok, Rejects ''bad explores'', Ok, Ok, Ok]) demo_installing in
     3 \<in> set (opened s) \<and> 3 \<notin> gone s \<and> map_option generation (loaded s) = Some 0"
  by (simp add: demo_installing_def run_eval rollback_remove_def rollback_restore_def rollback_done_def gone_def)

text \<open>A process that stops between the two renames of an install has lost the package when it comes back.\<close>

lemma restart_inside_swap_loses_package:
  "canonical (run ([Run 2 Ok, Run 2 Ok, Run 2 Ok, Run 2 Ok] @ [Restart]) demo_installing) = None
   \<and> retired (run ([Run 2 Ok, Run 2 Ok, Run 2 Ok, Run 2 Ok] @ [Restart]) demo_installing) 2 = None"
  by (simp add: demo_installing_def run_eval restart_def)

text \<open>A delete whose rename fails forgets the package and leaves its directory; the next request loads it again.\<close>

lemma failed_delete_comes_back:
  "(let s = run [Call 1 (GetPackage False) False, Run 1 Ok, Run 1 Ok, Run 1 Ok, Run 1 Ok, Call 2 DeletePackage False, Run 2 Ok, Run 2 Ok, Run 2 (Fails ''EBUSY'')] (fresh (Some v1)) in
      loaded s = None \<and> pkgStatus s = None \<and> answers s 2 = Some (Answered None)
    \<and> map_option builtFrom (loaded (run [Call 3 (GetPackage False) False, Run 3 Ok, Run 3 Ok, Run 3 Ok, Run 3 Ok] s)) = Some v1)"
  by (simp add: run_eval deletePackage_def delete_rename_def)

end
