(* ===== verification/BuildPlan.thy ===== *)
theory BuildPlan
  imports Eligibility IncrementalRun ServeShape GateShape
begin

text \<open>
  The build plan of a package (\<open>service/build_plan.ts\<close>): the layers a source's freshness and query
  metadata are resolved over, the order its persisted sources are built in, what is planned, what is
  refused, and which content addresses may be served from the source warehouse.

  The Malloy compiler answers for the compiled source: its tags, its SQL and its build graph are
  arguments. A call that throws is \<open>None\<close> where the caller only goes on without it.
\<close>

subsection \<open>Tags and their layers\<close>

text \<open>The reader over a tag: scalars by path, a subtree by name, its properties unless reading them fails.\<close>

datatype ReadableTag = ReadableTag
  (text_at: "string list \<Rightarrow> string option")
  (subtag: "string \<Rightarrow> ReadableTag option")
  (tag_properties: "(string \<times> string option) list option")

text \<open>
  What the plan reads of a persisted source: its tags (\<open>None\<close> where parsing them throws), the
  compiled definition the gates walk, the columns and the SQL (\<open>None\<close> where they throw).
\<close>

record PersistSource =
  ps_sourceID :: string
  ps_name :: string
  ps_connection :: string
  ps_dialect :: string
  ps_sourceTag :: "ReadableTag option"
  ps_modelTag :: "ReadableTag option"
  ps_definition :: ir_value
  ps_fields :: "(string option \<times> string) list option"
  ps_sql :: "string option"

record FreshnessLayer =
  layerWindow :: "string option"
  layerFallback :: "freshness_fallback option"

definition no_layer :: FreshnessLayer where
  "no_layer = \<lparr>layerWindow = None, layerFallback = None\<rparr>"

definition known_fallback :: "string option \<Rightarrow> freshness_fallback option" where
  "known_fallback s =
     (if s = Some ''live'' then Some Live else if s = Some ''stale_ok'' then Some Stale_ok
      else if s = Some ''fail'' then Some Fail else None)"

definition tagFreshnessLayer :: "ReadableTag option \<Rightarrow> FreshnessLayer" where
  "tagFreshnessLayer tag = (case tag of
     None \<Rightarrow> no_layer
   | Some t \<Rightarrow> \<lparr>layerWindow = text_at t [''freshness'', ''window''],
                layerFallback = known_fallback (text_at t [''freshness'', ''fallback''])\<rparr>)"

definition modelTagLayers :: "ReadableTag option \<Rightarrow> ReadableTag option list" where
  "modelTagLayers tag = [Option.bind tag (\<lambda>t. subtag t ''materialization''), tag]"

record PackageMaterialization =
  pm_freshness :: "(string option \<times> string option) option"
  pm_queryMetadata :: "(string \<times> string) list option"

definition packageFreshnessLayer :: "PackageMaterialization option \<Rightarrow> FreshnessLayer" where
  "packageFreshnessLayer cfg = (case Option.bind cfg pm_freshness of
     None \<Rightarrow> no_layer
   | Some (window, fallback) \<Rightarrow>
       \<lparr>layerWindow = (if is_set window then window else None), layerFallback = known_fallback fallback\<rparr>)"

definition first_of :: "('l \<Rightarrow> 'a option) \<Rightarrow> 'l list \<Rightarrow> 'a option" where
  "first_of part layers = Option.bind (List.find (\<lambda>l. part l \<noteq> None) layers) part"

definition resolveFreshness :: "PersistSource \<Rightarrow> PackageMaterialization option \<Rightarrow> FreshnessLayer option" where
  "resolveFreshness source cfg =
     (let layers = tagFreshnessLayer (ps_sourceTag source)
            # map tagFreshnessLayer (modelTagLayers (ps_modelTag source)) @ [packageFreshnessLayer cfg];
          window = first_of layerWindow layers;
          fallback = first_of layerFallback layers
      in if window = None \<and> fallback = None then None
         else Some \<lparr>layerWindow = window, layerFallback = fallback\<rparr>)"

type_synonym QueryMetadata = "(string \<times> string) list"

definition assign :: "('k \<times> 'v) list \<Rightarrow> ('k \<times> 'v) list \<Rightarrow> ('k \<times> 'v) list" where
  "assign out entries = fold (\<lambda>(k, v). AList.update k v) entries out"

definition text_entries :: "(string \<times> string option) list \<Rightarrow> (string \<times> string) list" where
  "text_entries props = assign [] (somes (map (\<lambda>(n, v). map_option (Pair n) v) props))"

definition tagQueryMetadataLayer :: "ReadableTag option \<Rightarrow> QueryMetadata" where
  "tagQueryMetadataLayer tag =
     (case Option.bind (Option.bind tag (\<lambda>t. subtag t ''queryMetadata'')) tag_properties of
        None \<Rightarrow> []
      | Some props \<Rightarrow> text_entries props)"

definition composeDeclaredQueryMetadata ::
  "QueryMetadata option \<Rightarrow> ReadableTag option \<Rightarrow> ReadableTag option \<Rightarrow> QueryMetadata option" where
  "composeDeclaredQueryMetadata packageDeclaration modelTag sourceTag =
     (let ordered = case_option [] id packageDeclaration
            # map tagQueryMetadataLayer (modelTagLayers modelTag) @ [tagQueryMetadataLayer sourceTag];
          resolved = fold (\<lambda>layer out. assign out layer) ordered []
      in if resolved \<noteq> [] then Some resolved else None)"

definition resolveQueryMetadata :: "PersistSource \<Rightarrow> PackageMaterialization option \<Rightarrow> QueryMetadata option" where
  "resolveQueryMetadata source cfg =
     composeDeclaredQueryMetadata (Option.bind cfg pm_queryMetadata) (ps_modelTag source) (ps_sourceTag source)"

text \<open>The scalar properties of the persist tag, none when the tag cannot be read.\<close>

definition deriveAnnotationFields :: "PersistSource \<Rightarrow> (string \<times> string) list" where
  "deriveAnnotationFields source =
     (case Option.bind (ps_sourceTag source) tag_properties of None \<Rightarrow> [] | Some props \<Rightarrow> text_entries props)"

text \<open>
  A later layer of query metadata overrides an earlier one key by key, so the two resolvers have the
  same precedence: the source, then the model's envelope, then the model, then the package.
\<close>

lemma map_of_assign: "map_of (assign out entries) = map_of out ++ map_of (rev entries)"
proof (induction entries arbitrary: out)
  case Nil
  then show ?case by (simp add: assign_def)
next
  case (Cons e entries)
  obtain k v where e: "e = (k, v)" by (cases e)
  have "assign out (e # entries) = assign (AList.update k v out) entries"
    by (simp add: assign_def e)
  with Cons.IH [of "AList.update k v out"] show ?case
    by (auto simp: e update_conv' map_add_def fun_eq_iff map_of_append split: option.splits)
qed

lemma distinct_assign: "distinct (map fst out) \<Longrightarrow> distinct (map fst (assign out entries))"
  by (induction entries arbitrary: out) (auto simp: assign_def distinct_update split: prod.splits)

lemma first_of_Nil: "first_of part [] = None"
  by (simp add: first_of_def)

lemma first_of_Cons: "first_of part (l # ls) = (case part l of Some x \<Rightarrow> Some x | None \<Rightarrow> first_of part ls)"
  by (auto simp: first_of_def split: option.splits)

lemma map_of_reversed: "distinct (map fst l) \<Longrightarrow> map_of (rev l) = map_of l"
proof (induction l)
  case (Cons e l)
  then have "fst e \<notin> dom (map_of l)" by (simp add: dom_map_of_conv_image_fst)
  then have "[fst e \<mapsto> snd e] ++ map_of l = map_of l ++ [fst e \<mapsto> snd e]"
    by (intro map_add_comm) auto
  with Cons show ?case by (cases e) (simp add: map_of_append)
qed simp

lemma first_of_append:
  "first_of part (ls @ ms) = (case first_of part ls of Some x \<Rightarrow> Some x | None \<Rightarrow> first_of part ms)"
  by (induction ls) (auto simp: first_of_Cons first_of_Nil split: option.splits)

lemma map_of_assign_all:
  assumes "\<forall>l \<in> set layers. distinct (map fst l)"
  shows "map_of (fold (\<lambda>layer out. assign out layer) layers out) k
    = (case first_of (\<lambda>l. map_of l k) (rev layers) of Some v \<Rightarrow> Some v | None \<Rightarrow> map_of out k)"
  using assms
proof (induction layers arbitrary: out)
  case Nil
  show ?case by (simp add: first_of_Nil)
next
  case (Cons l ls)
  have "map_of (rev l) = map_of l"
    using Cons.prems by (intro map_of_reversed) simp
  then show ?case
    using Cons.IH [of "assign out l"] Cons.prems
    by (auto simp: map_of_assign first_of_append first_of_Cons first_of_Nil map_add_def
        split: option.splits)
qed


subsection \<open>The order of a build\<close>

text \<open>
  A node of a build graph holds the nodes it depends on. A graph lists nodes by level; its sources
  are yielded depth first, dependencies before their dependents, each id once.
\<close>

datatype BuildNode = BuildNode (nodeSourceID: string) (dependsOn: "BuildNode list")

record BuildGraph =
  graphConnection :: string
  graphNodes :: "BuildNode list list"

definition flattenDependsOn :: "BuildNode \<Rightarrow> string list" where
  "flattenDependsOn n = map nodeSourceID (dependsOn n)"

fun visit_node :: "(string \<Rightarrow> 's option) \<Rightarrow> BuildNode \<Rightarrow> string list \<times> 's list \<Rightarrow> string list \<times> 's list" where
  "visit_node sources (BuildNode i deps) st =
     (if i \<in> set (fst st) then st
      else (let (seen, out) = fold (visit_node sources) deps st
            in (i # seen, case sources i of Some s \<Rightarrow> out @ [s] | None \<Rightarrow> out)))"

definition iterGraphSources :: "BuildGraph \<Rightarrow> (string \<Rightarrow> 's option) \<Rightarrow> 's list" where
  "iterGraphSources graph sources =
     snd (fold (\<lambda>level st. fold (visit_node sources) level st) (graphNodes graph) ([], []))"

fun node_parts :: "BuildNode \<Rightarrow> BuildNode list" where
  "node_parts (BuildNode i deps) = BuildNode i deps # concat (map node_parts deps)"

definition graph_parts :: "BuildGraph \<Rightarrow> BuildNode set" where
  "graph_parts graph = (\<Union>n \<in> set (concat (graphNodes graph)). set (node_parts n))"

text \<open>A compiled graph is of one mind: two nodes for one source depend on the same nodes.\<close>

definition one_mind :: "BuildNode set \<Rightarrow> bool" where
  "one_mind N \<longleftrightarrow> (\<forall>n \<in> N. \<forall>m \<in> N. nodeSourceID n = nodeSourceID m \<longrightarrow> n = m)"

lemma node_in_parts [simp]: "n \<in> set (node_parts n)"
  by (cases n) simp

lemma dependency_in_parts: "d \<in> set (dependsOn n) \<Longrightarrow> set (node_parts d) \<subseteq> set (node_parts n)"
  by (cases n) auto

lemma part_of_dependency: "m \<in> set (node_parts d) \<Longrightarrow> d \<in> set (dependsOn n) \<Longrightarrow> size m < size n"
proof -
  have smaller: "m \<in> set (node_parts d) \<Longrightarrow> size m \<le> size d" for m d
  proof (induction d rule: node_parts.induct)
    case (1 i deps)
    show ?case
    proof (cases "m = BuildNode i deps")
      case False
      then obtain e where e: "e \<in> set deps" "m \<in> set (node_parts e)" using "1.prems" by auto
      have "size e < size (BuildNode i deps)" using e(1) by (simp add: size_list_estimation' less_Suc_eq_le)
      with "1.IH" [OF e] show ?thesis by simp
    qed simp
  qed
  assume "m \<in> set (node_parts d)" "d \<in> set (dependsOn n)"
  moreover have "d \<in> set (dependsOn n) \<Longrightarrow> size d < size n"
    by (cases n) (simp add: size_list_estimation' less_Suc_eq_le)
  ultimately show ?thesis using smaller [of m d] by simp
qed

text \<open>
  What one visit leaves: the ids seen, newest first, of which those below a given one are what it
  depends on.
\<close>

definition ordered :: "BuildNode set \<Rightarrow> string list \<Rightarrow> bool" where
  "ordered N seen \<longleftrightarrow> distinct seen \<and> (\<forall>as i bs. seen = as @ i # bs \<longrightarrow>
     (\<exists>n \<in> N. nodeSourceID n = i \<and> nodeSourceID ` set (dependsOn n) \<subseteq> set bs))"

lemma ordered_Cons:
  "ordered N (i # seen) \<longleftrightarrow> i \<notin> set seen \<and> ordered N seen
     \<and> (\<exists>n \<in> N. nodeSourceID n = i \<and> nodeSourceID ` set (dependsOn n) \<subseteq> set seen)"
  unfolding ordered_def by (auto simp: Cons_eq_append_conv)

definition good_visit :: "BuildNode set \<Rightarrow> (string \<Rightarrow> 's option) \<Rightarrow> string list \<times> 's list \<Rightarrow> bool" where
  "good_visit N sources st \<longleftrightarrow> ordered N (fst st) \<and> snd st = somes (map sources (rev (fst st)))"

text \<open>A visit leads to a good state again, in which it has seen what it must and nothing but what it may.\<close>

definition extends ::
  "BuildNode set \<Rightarrow> (string \<Rightarrow> 's option) \<Rightarrow> string set \<Rightarrow> string set \<Rightarrow> string list \<times> 's list \<Rightarrow> string list \<times> 's list \<Rightarrow> bool" where
  "extends N sources must may st st' \<longleftrightarrow> good_visit N sources st' \<and> set (fst st) \<subseteq> set (fst st')
     \<and> must \<subseteq> set (fst st') \<and> set (fst st') \<subseteq> set (fst st) \<union> may"

definition node_ids :: "BuildNode \<Rightarrow> string set" where "node_ids n = nodeSourceID ` set (node_parts n)"

lemma node_ids_BuildNode: "node_ids (BuildNode i deps) = insert i (\<Union>d \<in> set deps. node_ids d)"
  by (simp add: node_ids_def image_UN)

lemma visit_fold:
  assumes each: "\<And>n st. n \<in> set ns \<Longrightarrow> good_visit N sources st \<Longrightarrow> extends N sources {nodeSourceID n} (node_ids n) st (visit_node sources n st)"
    and "good_visit N sources st"
  shows "extends N sources (nodeSourceID ` set ns) (\<Union>n \<in> set ns. node_ids n) st (fold (visit_node sources) ns st)"
  using assms
proof (induction ns arbitrary: st)
  case Nil
  then show ?case by (simp add: extends_def)
next
  case (Cons n ns)
  have n: "extends N sources {nodeSourceID n} (node_ids n) st (visit_node sources n st)"
    using Cons.prems by simp
  then have "extends N sources (nodeSourceID ` set ns) (\<Union>n \<in> set ns. node_ids n)
      (visit_node sources n st) (fold (visit_node sources) ns (visit_node sources n st))"
    using Cons.IH [of "visit_node sources n st"] Cons.prems(1) by (simp add: extends_def)
  with n show ?case unfolding extends_def by (simp add: subset_iff) blast
qed

lemma visit_good:
  assumes "one_mind N" and "set (node_parts n) \<subseteq> N" and "good_visit N sources st"
  shows "extends N sources {nodeSourceID n} (node_ids n) st (visit_node sources n st)"
  using assms(2,3)
proof (induction n arbitrary: st)
  case (BuildNode i deps)
  show ?case
  proof (cases "i \<in> set (fst st)")
    case True
    then show ?thesis using BuildNode.prems by (auto simp: extends_def)
  next
    case False
    define r where "r = fold (visit_node sources) deps st"
    have sub: "set (node_parts d) \<subseteq> N" if "d \<in> set deps" for d
      using BuildNode.prems(1) that by auto
    have r: "extends N sources (nodeSourceID ` set deps) (\<Union>d \<in> set deps. node_ids d) st r"
      unfolding r_def by (rule visit_fold [OF BuildNode.IH [OF _ sub] BuildNode.prems(2)])
    have here: "BuildNode i deps \<in> N" using BuildNode.prems(1) by auto
    have "i \<noteq> nodeSourceID m" if m: "d \<in> set deps" "m \<in> set (node_parts d)" for d m
    proof
      assume "i = nodeSourceID m"
      with here sub m have "m = BuildNode i deps" using assms(1) unfolding one_mind_def by fastforce
      with part_of_dependency [of m d "BuildNode i deps"] m show False by simp
    qed
    then have new: "i \<notin> set (fst r)" using r False unfolding extends_def node_ids_def by blast
    obtain seen out where ro: "r = (seen, out)" by (cases r)
    have v: "visit_node sources (BuildNode i deps) st = (i # seen, case sources i of Some s \<Rightarrow> out @ [s] | None \<Rightarrow> out)"
      using False ro by (simp add: r_def)
    have "\<exists>n \<in> N. nodeSourceID n = i \<and> nodeSourceID ` set (dependsOn n) \<subseteq> set seen"
      using here r by (intro bexI [of _ "BuildNode i deps"]) (simp_all add: ro extends_def)
    then have "good_visit N sources (visit_node sources (BuildNode i deps) st)"
      using r new unfolding v by (auto simp: ro extends_def good_visit_def ordered_Cons somes_append split: option.splits)
    then show ?thesis using r unfolding v extends_def node_ids_BuildNode by (auto simp: ro)
  qed
qed

lemma fold_levels: "fold (\<lambda>level st. fold f level st) levels st = fold f (concat levels) st"
  by (induction levels arbitrary: st) simp_all

lemma ordered_dependencies:
  assumes "one_mind N" and "ordered N seen" and "n \<in> N" and "nodeSourceID n \<in> set seen"
  obtains as bs where "seen = as @ nodeSourceID n # bs" and "nodeSourceID ` set (dependsOn n) \<subseteq> set bs"
proof -
  obtain as bs where s: "seen = as @ nodeSourceID n # bs" using assms(4) by (meson split_list)
  with assms(2) obtain m where "m \<in> N" "nodeSourceID m = nodeSourceID n" "nodeSourceID ` set (dependsOn m) \<subseteq> set bs"
    unfolding ordered_def by blast
  with assms(1,3) have "nodeSourceID ` set (dependsOn n) \<subseteq> set bs" unfolding one_mind_def by metis
  with s that show thesis by blast
qed

lemma seen_parts:
  assumes "one_mind N" and "ordered N seen"
  shows "set (node_parts n) \<subseteq> N \<Longrightarrow> nodeSourceID n \<in> set seen \<Longrightarrow> nodeSourceID ` set (node_parts n) \<subseteq> set seen"
proof (induction n)
  case (BuildNode i deps)
  have here: "BuildNode i deps \<in> N" using BuildNode.prems(1) by auto
  obtain as bs where "seen = as @ nodeSourceID (BuildNode i deps) # bs" "nodeSourceID ` set deps \<subseteq> set bs"
    using ordered_dependencies [OF assms here BuildNode.prems(2)] by auto
  then have "nodeSourceID d \<in> set seen" if "d \<in> set deps" for d using that by auto
  moreover have "set (node_parts d) \<subseteq> N" if "d \<in> set deps" for d using BuildNode.prems(1) that by auto
  ultimately have "nodeSourceID ` set (node_parts d) \<subseteq> set seen" if "d \<in> set deps" for d
    using BuildNode.IH that by blast
  then have "(\<Union>d \<in> set deps. nodeSourceID ` set (node_parts d)) \<subseteq> set seen" by (rule UN_least)
  then show ?case using BuildNode.prems(2) by (simp add: image_UN)
qed

lemma iterGraphSources_seen:
  assumes "one_mind (graph_parts graph)"
  obtains seen where "iterGraphSources graph sources = somes (map sources (rev seen))"
    and "ordered (graph_parts graph) seen" and "set seen = nodeSourceID ` graph_parts graph"
proof -
  let ?N = "graph_parts graph" and ?ns = "concat (graphNodes graph)"
  define r where "r = fold (visit_node sources) ?ns ([], [])"
  have sub: "set (node_parts n) \<subseteq> ?N" if "n \<in> set ?ns" for n
    using that unfolding graph_parts_def by blast
  have start: "good_visit ?N sources ([], [])" by (simp add: good_visit_def ordered_def)
  have "extends ?N sources (nodeSourceID ` set ?ns) (\<Union>n \<in> set ?ns. node_ids n) ([], []) r"
    unfolding r_def by (rule visit_fold [OF visit_good [OF assms sub] start])
  moreover have "(\<Union>n \<in> set ?ns. node_ids n) = nodeSourceID ` ?N"
    unfolding graph_parts_def node_ids_def by blast
  ultimately have r: "good_visit ?N sources r" "nodeSourceID ` set ?ns \<subseteq> set (fst r)" "set (fst r) \<subseteq> nodeSourceID ` ?N"
    unfolding extends_def by simp_all
  have "nodeSourceID ` ?N \<subseteq> set (fst r)"
  proof -
    have "nodeSourceID ` set (node_parts n) \<subseteq> set (fst r)" if "n \<in> set ?ns" for n
      using seen_parts [OF assms _ sub [OF that], of "fst r"] r(1,2) that unfolding good_visit_def by blast
    then show ?thesis unfolding graph_parts_def by blast
  qed
  moreover have "iterGraphSources graph sources = snd r"
    by (simp add: iterGraphSources_def fold_levels r_def)
  ultimately show thesis using r that [of "fst r"] unfolding good_visit_def by auto
qed

lemma somes_keys:
  assumes "\<And>i s. sources i = Some s \<Longrightarrow> key s = i"
  shows "map key (somes (map sources is)) = List.filter (\<lambda>i. sources i \<noteq> None) is"
proof (induction "is")
  case (Cons i "is")
  then show ?case using assms [of i] by (cases "sources i") auto
qed simp

text \<open>
  C37: The sources of a graph come out each once, every dependency before what depends on it, and every
  source of a node is among them.
\<close>

theorem sources_in_dependency_order:
  assumes "one_mind (graph_parts graph)" and keyed: "\<And>i s. sources i = Some s \<Longrightarrow> key s = i"
  shows "distinct (map key (iterGraphSources graph sources))
    \<and> set (iterGraphSources graph sources) = {s. \<exists>n \<in> graph_parts graph. sources (nodeSourceID n) = Some s}
    \<and> (\<forall>xs s ys n d t. iterGraphSources graph sources = xs @ s # ys \<and> n \<in> graph_parts graph \<and> nodeSourceID n = key s
        \<and> d \<in> set (dependsOn n) \<and> sources (nodeSourceID d) = Some t \<longrightarrow> t \<in> set xs)"
proof -
  obtain seen where out: "iterGraphSources graph sources = somes (map sources (rev seen))"
    and o: "ordered (graph_parts graph) seen" and all: "set seen = nodeSourceID ` graph_parts graph"
    using iterGraphSources_seen [OF assms(1)] by metis
  have d: "distinct (map key (iterGraphSources graph sources))"
    using o by (simp add: out somes_keys [OF keyed] ordered_def)
  have s: "set (iterGraphSources graph sources) = {s. \<exists>n \<in> graph_parts graph. sources (nodeSourceID n) = Some s}"
    by (auto simp: out set_somes all image_iff) (metis)+
  have "t \<in> set xs" if split: "iterGraphSources graph sources = xs @ s # ys" and n: "n \<in> graph_parts graph" "nodeSourceID n = key s"
    and dep: "d \<in> set (dependsOn n)" "sources (nodeSourceID d) = Some t" for xs s ys n d t
  proof -
    have "nodeSourceID n \<in> set seen" unfolding all using n(1) by (rule imageI)
    then obtain as bs where ab: "seen = as @ nodeSourceID n # bs" "nodeSourceID ` set (dependsOn n) \<subseteq> set bs"
      using ordered_dependencies [OF assms(1) o n(1)] by metis
    have "s \<in> set (iterGraphSources graph sources)" using split by simp
    then obtain i where "sources i = Some s" by (auto simp: out set_somes)
    then have "sources (nodeSourceID n) = Some s" using keyed [of i s] n(2) by simp
    then have "iterGraphSources graph sources = somes (map sources (rev bs)) @ s # somes (map sources (rev as))"
      by (simp add: out ab(1) somes_append)
    moreover have "distinct (iterGraphSources graph sources)" using d by (simp add: distinct_map)
    ultimately have "xs = somes (map sources (rev bs))"
      using split by (metis append_Cons_eq_iff distinct.simps(2) distinct_append disjoint_iff list.set_intros(1) not_distinct_conv_prefix)
    moreover have "nodeSourceID d \<in> set bs" using ab(2) dep(1) by auto
    ultimately show ?thesis using dep(2) by (auto simp: set_somes image_iff) (metis)
  qed
  with d s show ?thesis by blast
qed


subsection \<open>Content addresses and connections\<close>

text \<open>
  The gates walk the compiled definition in the heap of the compiler; \<open>bc_makeBuildId\<close> is the
  compiler's hash of a connection's digest and the SQL.
\<close>

record BuildCompiler =
  bc_heap :: heap
  bc_routeOf :: "string \<Rightarrow> string option"
  bc_payloadOf :: "string \<Rightarrow> string option"
  bc_makeBuildId :: "PersistSource \<Rightarrow> string option \<Rightarrow> string \<Rightarrow> string"

type_synonym digests = "(string \<times> string) list"

definition storage_gate :: "BuildCompiler \<Rightarrow> PersistSource \<Rightarrow> RefusalReason + unit" where
  "storage_gate C source =
     assertMaterializationEligible (bc_routeOf C) (bc_payloadOf C) (bc_heap C) (ps_definition source)"

definition colocated_gate ::
  "BuildCompiler \<Rightarrow> PersistSource \<Rightarrow> Origin \<Rightarrow> PersistSourceGateOutcome option \<Rightarrow> RefusalReason + unit" where
  "colocated_gate C source origin gateOutcome =
     assertColocatedPersistNotAuthorizeGated (bc_routeOf C) (bc_payloadOf C) (bc_heap C) (ps_definition source)
       origin gateOutcome"

definition computeSourceEntityId :: "BuildCompiler \<Rightarrow> PersistSource \<Rightarrow> digests \<Rightarrow> string option" where
  "computeSourceEntityId C source connectionDigests =
     map_option (bc_makeBuildId C source (map_of connectionDigests (ps_connection source))) (ps_sql source)"

definition deriveColumns :: "PersistSource \<Rightarrow> (string option \<times> string) list" where
  "deriveColumns source = (case ps_fields source of None \<Rightarrow> [] | Some flds \<Rightarrow> flds)"

definition publicColumnNames :: "PersistSource \<Rightarrow> string list option" where
  "publicColumnNames source = (case ps_fields source of
     None \<Rightarrow> None
   | Some flds \<Rightarrow> (let names = List.filter (\<lambda>n. n \<noteq> []) (somes (map fst flds))
                   in if names = [] then None else Some names))"

text \<open>The refusal is \<open>None\<close>; it counts as \<open>public_surface_unknown\<close>.\<close>

definition projectToPublicColumns :: "PersistSource \<Rightarrow> string \<Rightarrow> string option" where
  "projectToPublicColumns source buildSQL = map_option
     (\<lambda>cols. ''SELECT '' @ join '', '' (map (\<lambda>n. quoteIdentifier n (ps_dialect source)) cols)
        @ '' FROM ('' @ buildSQL @ '') AS __public'') (publicColumnNames source)"

definition resolvePackageConnections :: "(string \<Rightarrow> 'c option) \<Rightarrow> string list \<Rightarrow> (string \<times> 'c) list" where
  "resolvePackageConnections getMalloyConnection names =
     fst (fold (\<lambda>name (resolved, seen).
        if name = [] \<or> name \<in> set seen then (resolved, seen)
        else (case getMalloyConnection name of
            Some c \<Rightarrow> (AList.update name c resolved, name # seen)
          | None \<Rightarrow> (resolved, name # seen))) names ([], []))"

definition collect_digests :: "(string \<times> 'c) list \<Rightarrow> ('c \<Rightarrow> string) \<Rightarrow> BuildGraph list \<Rightarrow> digests" where
  "collect_digests connections getDigest graphs =
     fold (\<lambda>graph digests. case map_of connections (graphConnection graph) of
         None \<Rightarrow> digests
       | Some conn \<Rightarrow> if is_set (map_of digests (graphConnection graph)) then digests
                      else AList.update (graphConnection graph) (getDigest conn) digests) graphs []"

subsection \<open>Compiling a package\<close>

text \<open>
  What compiling one model file answers: the rollups synthesized for it, the persistence flag, its
  build plan, and its contents, each with what its annotations say of \<open>persist\<close> (\<open>None\<close> without
  annotations, \<open>Some None\<close> where parsing them throws).
\<close>

record ModelPlan =
  mp_graphs :: "BuildGraph list"
  mp_sources :: "(string \<times> PersistSource) list"

record CompiledModel =
  cm_synthesized :: "(ModelPlan \<times> RollupPlan list) option"
  cm_persistence :: bool
  cm_plan :: ModelPlan
  cm_contents :: "(string \<times> bool option option) list option"

record CompiledBuildPlan =
  cp_graphs :: "BuildGraph list"
  cp_sources :: "(string \<times> PersistSource) list"
  cp_connections :: "(string \<times> string) list"
  cp_digests :: digests
  cp_modelPaths :: "(string \<times> string) list"
  cp_dropped :: "(string \<times> string) list"
  cp_rollups :: "(string \<times> RollupPlan) list"
  cp_outcomes :: "(string \<times> PersistSourceGateOutcome) list"

definition detectDroppedPersistSources :: "(string \<times> bool option option) list option \<Rightarrow> string set \<Rightarrow> string list" where
  "detectDroppedPersistSources model_contents recognized = (case model_contents of
     None \<Rightarrow> []
   | Some entries \<Rightarrow> map fst (List.filter (\<lambda>(n, persist). n \<notin> recognized \<and> persist = Some (Some True)) entries))"

definition MODEL_FILE_SUFFIX :: string where "MODEL_FILE_SUFFIX = ''.malloy''"

definition endsWith :: "string \<Rightarrow> string \<Rightarrow> bool" where
  "endsWith s ending \<longleftrightarrow> length ending \<le> length s \<and> drop (length s - length ending) s = ending"

text \<open>The gate of a source is classified in the scope it was compiled in: the model, or its rollups.\<close>

type_synonym classifier = "string \<Rightarrow> PersistSource \<Rightarrow> PersistSourceGateOutcome"

definition empty_plan :: CompiledBuildPlan where
  "empty_plan = \<lparr>cp_graphs = [], cp_sources = [], cp_connections = [], cp_digests = [], cp_modelPaths = [],
     cp_dropped = [], cp_rollups = [], cp_outcomes = []\<rparr>"

definition add_source :: "classifier \<Rightarrow> string \<Rightarrow> string \<Rightarrow> string \<times> PersistSource \<Rightarrow> CompiledBuildPlan \<Rightarrow> CompiledBuildPlan" where
  "add_source classify path scope entry p = (case entry of (i, source) \<Rightarrow>
     p\<lparr>cp_sources := AList.update i source (cp_sources p),
       cp_modelPaths := AList.update i path (cp_modelPaths p),
       cp_outcomes := AList.update i (classify scope source) (cp_outcomes p)\<rparr>)"

definition add_rollups :: "classifier \<Rightarrow> string \<Rightarrow> ModelPlan \<Rightarrow> RollupPlan list \<Rightarrow> CompiledBuildPlan \<Rightarrow> CompiledBuildPlan" where
  "add_rollups classify path synthesized plans p =
     fold (\<lambda>(i, source) q.
         case List.find (\<lambda>r. rollupSourceName r = ps_name source) (rev plans) of
           None \<Rightarrow> q
         | Some rollup \<Rightarrow>
             add_source classify path (path @ ''#preaggregate'') (i, source)
               (q\<lparr>cp_rollups := AList.update i rollup (cp_rollups q)\<rparr>))
       (mp_sources synthesized) (p\<lparr>cp_graphs := cp_graphs p @ mp_graphs synthesized\<rparr>)"

definition add_model :: "classifier \<Rightarrow> string \<Rightarrow> CompiledModel \<Rightarrow> CompiledBuildPlan \<Rightarrow> CompiledBuildPlan" where
  "add_model classify path model p =
     (let p1 = (case cm_synthesized model of None \<Rightarrow> p
                | Some (synthesized, plans) \<Rightarrow> add_rollups classify path synthesized plans p)
      in if \<not> cm_persistence model then p1
         else
           (let recognized = ps_name ` snd ` set (mp_sources (cm_plan model));
                p2 = p1\<lparr>cp_dropped := cp_dropped p1
                    @ map (\<lambda>n. (n, path)) (detectDroppedPersistSources (cm_contents model) recognized)\<rparr>
            in if mp_graphs (cm_plan model) = [] then p2
               else fold (add_source classify path path) (mp_sources (cm_plan model))
                      (p2\<lparr>cp_graphs := cp_graphs p2 @ mp_graphs (cm_plan model)\<rparr>)))"

datatype PlanError = BuildCancelled | ModelFailed string

fun compile_models ::
  "(string \<Rightarrow> bool) \<Rightarrow> (string \<Rightarrow> CompiledModel option) \<Rightarrow> classifier \<Rightarrow> string list \<Rightarrow> CompiledBuildPlan
   \<Rightarrow> PlanError + CompiledBuildPlan" where
  "compile_models aborted compile_of classify [] p = Inr p"
| "compile_models aborted compile_of classify (path # paths) p =
     (if \<not> endsWith path MODEL_FILE_SUFFIX then compile_models aborted compile_of classify paths p
      else if aborted path then Inl BuildCancelled
      else (case compile_of path of
          None \<Rightarrow> Inl (ModelFailed path)
        | Some model \<Rightarrow> compile_models aborted compile_of classify paths (add_model classify path model p)))"

text \<open>A connection is named by its own name here; \<open>getDigest\<close> is the driver's.\<close>

definition compilePackageBuildPlan ::
  "(string \<Rightarrow> bool) \<Rightarrow> (string \<Rightarrow> CompiledModel option) \<Rightarrow> classifier \<Rightarrow> (string \<Rightarrow> string option) \<Rightarrow> (string \<Rightarrow> string)
   \<Rightarrow> string list \<Rightarrow> PlanError + CompiledBuildPlan" where
  "compilePackageBuildPlan aborted compile_of classify getMalloyConnection getDigest modelPaths =
     (case compile_models aborted compile_of classify modelPaths empty_plan of
        Inl e \<Rightarrow> Inl e
      | Inr p \<Rightarrow>
          (let connections = resolvePackageConnections getMalloyConnection (map graphConnection (cp_graphs p))
           in Inr (p\<lparr>cp_connections := connections, cp_digests := collect_digests connections getDigest (cp_graphs p)\<rparr>)))"

subsection \<open>The plan on the wire\<close>

datatype Tier = Storage_tier | Colocated_tier | Preaggregate_tier

record RefusedSource =
  ref_name :: string
  ref_sourceID :: string
  ref_modelPath :: "string option"
  ref_tier :: Tier
  ref_reason :: RefusalReason

record PersistSourcePlan =
  wp_name :: string
  wp_sourceID :: string
  wp_connection :: string
  wp_dialect :: string
  wp_origin :: Origin
  wp_preaggregate :: "(string \<times> string list \<times> string list) option"
  wp_sourceEntityId :: string
  wp_sql :: string
  wp_refresh :: "string option"
  wp_freshness :: "FreshnessLayer option"
  wp_queryMetadata :: "QueryMetadata option"
  wp_columns :: "(string option \<times> string) list"
  wp_annotationFields :: "(string \<times> string) list"
  wp_modelPath :: "string option"

record BuildPlan =
  bp_graphs :: "(string \<times> (string \<times> string list) list list) list"
  bp_sources :: "(string \<times> PersistSourcePlan) list"
  bp_refused :: "(string \<times> RefusedSource) list"

definition wire_graph :: "BuildGraph \<Rightarrow> string \<times> (string \<times> string list) list list" where
  "wire_graph graph = (graphConnection graph,
     map (map (\<lambda>n. (nodeSourceID n, flattenDependsOn n))) (graphNodes graph))"

text \<open>
  The gates of one source of the plan: its refusal, with the tier it is reported under, and whether
  it is still planned. A rollup refused for its base's gate is reported and planned; one its
  destination refuses is not.
\<close>

definition plan_gates ::
  "BuildCompiler \<Rightarrow> PersistSource \<Rightarrow> bool \<Rightarrow> PersistSourceGateOutcome option \<Rightarrow> (Tier \<times> RefusalReason) option \<times> bool" where
  "plan_gates C source isRollup gateOutcome =
     (let declaresStorage = is_set (map_of (deriveAnnotationFields source) ''storage'')
      in if \<not> isRollup
         then (if declaresStorage
               then (case storage_gate C source of Inl e \<Rightarrow> (Some (Storage_tier, e), False) | Inr _ \<Rightarrow> (None, True))
               else (case colocated_gate C source Persist gateOutcome of
                       Inl e \<Rightarrow> (Some (Colocated_tier, e), False) | Inr _ \<Rightarrow> (None, True)))
         else (case colocated_gate C source Preaggregate gateOutcome of
                 Inl e \<Rightarrow> (Some (Preaggregate_tier, e), True)
               | Inr _ \<Rightarrow>
                   if declaresStorage
                   then (case storage_gate C source of
                           Inl e \<Rightarrow> (Some (Preaggregate_tier, e), False) | Inr _ \<Rightarrow> (None, True))
                   else (None, True)))"

definition wire_source ::
  "BuildCompiler \<Rightarrow> CompiledBuildPlan \<Rightarrow> PackageMaterialization option \<Rightarrow> string \<Rightarrow> PersistSource \<Rightarrow> PersistSourcePlan option" where
  "wire_source C p cfg i source =
     (case (computeSourceEntityId C source (cp_digests p), ps_sql source) of
        (Some entity, Some sql) \<Rightarrow>
          (let annotationFields = deriveAnnotationFields source;
               rollup = map_of (cp_rollups p) i
           in Some \<lparr>wp_name = ps_name source, wp_sourceID = ps_sourceID source, wp_connection = ps_connection source,
             wp_dialect = ps_dialect source, wp_origin = (if rollup = None then Persist else Preaggregate),
             wp_preaggregate = map_option (\<lambda>r. (baseSourceName r, grainDimensions r, map fst (rollupMeasures r))) rollup,
             wp_sourceEntityId = entity, wp_sql = sql, wp_refresh = map_of annotationFields ''refresh'',
             wp_freshness = resolveFreshness source cfg, wp_queryMetadata = resolveQueryMetadata source cfg,
             wp_columns = deriveColumns source, wp_annotationFields = annotationFields,
             wp_modelPath = map_of (cp_modelPaths p) i\<rparr>)
      | _ \<Rightarrow> None)"

definition plan_source ::
  "BuildCompiler \<Rightarrow> CompiledBuildPlan \<Rightarrow> PackageMaterialization option \<Rightarrow> string \<Rightarrow> PersistSource
   \<Rightarrow> RefusedSource option \<times> PersistSourcePlan option" where
  "plan_source C p cfg i source =
     (case plan_gates C source (map_of (cp_rollups p) i \<noteq> None) (map_of (cp_outcomes p) i) of
        (refusal, planned) \<Rightarrow>
          (map_option (\<lambda>(tier, reason). \<lparr>ref_name = ps_name source, ref_sourceID = ps_sourceID source,
              ref_modelPath = map_of (cp_modelPaths p) i, ref_tier = tier, ref_reason = reason\<rparr>) refusal,
           if planned then wire_source C p cfg i source else None))"

definition deriveBuildPlan ::
  "BuildCompiler \<Rightarrow> CompiledBuildPlan \<Rightarrow> string list option \<Rightarrow> PackageMaterialization option \<Rightarrow> BuildPlan" where
  "deriveBuildPlan C p sourceNames cfg =
     (let included = List.filter (\<lambda>(i, source). case sourceNames of None \<Rightarrow> True | Some ns \<Rightarrow> ps_name source \<in> set ns) (cp_sources p)
      in \<lparr>bp_graphs = map wire_graph (cp_graphs p),
          bp_sources = somes (map (\<lambda>(i, source). map_option (Pair i) (snd (plan_source C p cfg i source))) included),
          bp_refused = somes (map (\<lambda>(i, source). map_option (Pair i) (fst (plan_source C p cfg i source))) included)\<rparr>)"

subsection \<open>Eligibility for serving\<close>

text \<open>By name: the sources the storage gate admits, and those it refuses.\<close>

definition collectSourceEligibility ::
  "BuildCompiler \<Rightarrow> (string \<times> PersistSource) list \<Rightarrow> string list \<times> (string \<times> RefusalReason) list" where
  "collectSourceEligibility C sources =
     fold (\<lambda>(i, source) (eligible, refused). case storage_gate C source of
         Inr _ \<Rightarrow> (eligible @ [ps_name source], refused)
       | Inl e \<Rightarrow> (eligible, AList.update (ps_name source) e refused)) sources ([], [])"

record ColocatedEligibility =
  eligibleEntityIds :: "string list"
  refusedEntityIds :: "(string \<times> RefusalReason) list"

definition colocated_step ::
  "BuildCompiler \<Rightarrow> CompiledBuildPlan \<Rightarrow> string \<times> PersistSource \<Rightarrow> ColocatedEligibility \<Rightarrow> ColocatedEligibility" where
  "colocated_step C p entry acc = (case entry of (i, source) \<Rightarrow>
     (let origin = (if map_of (cp_rollups p) i = None then Persist else Preaggregate)
      in case colocated_gate C source origin (map_of (cp_outcomes p) i) of
           Inl e \<Rightarrow>
             (case computeSourceEntityId C source (cp_digests p) of
                None \<Rightarrow> acc
              | Some entity \<Rightarrow>
                  acc\<lparr>refusedEntityIds := AList.update entity e (refusedEntityIds acc),
                      eligibleEntityIds := removeAll entity (eligibleEntityIds acc)\<rparr>)
         | Inr _ \<Rightarrow>
             (case computeSourceEntityId C source (cp_digests p) of
                None \<Rightarrow> acc
              | Some entity \<Rightarrow>
                  if entity \<in> fst ` set (refusedEntityIds acc) then acc
                  else acc\<lparr>eligibleEntityIds := List.insert entity (eligibleEntityIds acc)\<rparr>)))"

definition collectColocatedSourceEligibility :: "BuildCompiler \<Rightarrow> CompiledBuildPlan \<Rightarrow> ColocatedEligibility" where
  "collectColocatedSourceEligibility C p =
     fold (colocated_step C p) (cp_sources p) \<lparr>eligibleEntityIds = [], refusedEntityIds = []\<rparr>"

definition collectIncrementalDeclarations ::
  "(PersistSource \<Rightarrow> IncrementalDeclaration option) \<Rightarrow> (string \<times> PersistSource) list \<Rightarrow> (string \<times> IncrementalDeclaration) list" where
  "collectIncrementalDeclarations declare_of sources =
     somes (map (\<lambda>(i, source). map_option (Pair i) (declare_of source)) sources)"

record ComputedPlan =
  computedPlan :: "BuildPlan option"
  computedDropped :: "(string \<times> string) list"
  computedStorage :: "string list \<times> (string \<times> RefusalReason) list"
  computedColocated :: ColocatedEligibility
  computedIncremental :: "(string \<times> IncrementalDeclaration) list"

definition computePackageBuildPlan ::
  "BuildCompiler \<Rightarrow> (PersistSource \<Rightarrow> IncrementalDeclaration option) \<Rightarrow> PackageMaterialization option
   \<Rightarrow> CompiledBuildPlan \<Rightarrow> ComputedPlan" where
  "computePackageBuildPlan C declare_of cfg p =
     \<lparr>computedPlan = (if cp_graphs p = [] then None else Some (deriveBuildPlan C p None cfg)),
      computedDropped = cp_dropped p,
      computedStorage = collectSourceEligibility C (cp_sources p),
      computedColocated = collectColocatedSourceEligibility C p,
      computedIncremental = collectIncrementalDeclarations declare_of (cp_sources p)\<rparr>"

subsection \<open>The classification of a source's gate\<close>

text \<open>
  The entry-point gates of the source in its model's registry, each resolved in turn until one is
  rejected; what the deep walk says of the notes comes from the compiled definition. Reading the
  source may throw (\<open>None\<close>), which refuses.
\<close>

fun any_rejected ::
  "sources \<Rightarrow> ModelDef \<Rightarrow> GraftScope \<Rightarrow> string set \<Rightarrow> GateEntry list \<Rightarrow> shape_cache \<Rightarrow> bool \<times> shape_cache" where
  "any_rejected S md scope declared [] cache = (False, cache)"
| "any_rejected S md scope declared (g # gates) cache =
     (case resolveGateShape S g md (Some scope) declared cache of
        (GateShape.Rejected _, cache') \<Rightarrow> (True, cache')
      | (_, cache') \<Rightarrow> any_rejected S md scope declared gates cache')"

definition classifyPersistSourceGate ::
  "BuildCompiler \<Rightarrow> sources \<Rightarrow> ModelDef \<Rightarrow> expr_reader \<Rightarrow> nat option \<Rightarrow> GraftScope \<Rightarrow> string set \<Rightarrow> shape_cache
   \<Rightarrow> PersistSource \<Rightarrow> PersistSourceGateOutcome \<times> shape_cache" where
  "classifyPersistSourceGate C S md exprsOf entryStruct scope declared cache source =
     (case entryStruct of
        None \<Rightarrow> (\<lparr>classification = Eligibility.Rejected, attributed = False\<rparr>, cache)
      | Some a \<Rightarrow>
          (case any_rejected S md scope declared (fst (collectEntryPointGates S md exprsOf (Some a) [] True [])) cache of
             (rejected, cache') \<Rightarrow>
               (\<lparr>classification = (if rejected then Eligibility.Rejected else Eligibility.RowLevel),
                 attributed = isAuthorizeAttributedToEntryPoint (bc_routeOf C) (bc_payloadOf C) (bc_heap C) (ps_definition source)\<rparr>,
                cache')))"

subsection \<open>What the plan promises\<close>

lemma distinct_text_entries [simp]: "distinct (map fst (text_entries props))"
  by (simp add: text_entries_def distinct_assign)

lemma distinct_metadata_layer [simp]: "distinct (map fst (tagQueryMetadataLayer tag))"
  by (simp add: tagQueryMetadataLayer_def split: option.split)

text \<open>
  Query metadata resolves key by key to the first layer that declares the key: the source, the
  model's bare tag, the model's materialization envelope, the package. Freshness resolves its two
  fields over the same layers, but with the envelope before the bare tag.
\<close>

theorem metadata_takes_most_specific:
  assumes "distinct (map fst (case_option [] id (Option.bind cfg pm_queryMetadata)))"
  shows "map_of (case_option [] id (resolveQueryMetadata source cfg)) k =
    first_of (\<lambda>layer. map_of layer k)
      (tagQueryMetadataLayer (ps_sourceTag source)
        # map tagQueryMetadataLayer (rev (modelTagLayers (ps_modelTag source)))
        @ [case_option [] id (Option.bind cfg pm_queryMetadata)])"
proof -
  let ?layers = "case_option [] id (Option.bind cfg pm_queryMetadata)
    # map tagQueryMetadataLayer (modelTagLayers (ps_modelTag source)) @ [tagQueryMetadataLayer (ps_sourceTag source)]"
  have "map_of (fold (\<lambda>layer out. assign out layer) ?layers []) k
    = (case first_of (\<lambda>l. map_of l k) (rev ?layers) of Some v \<Rightarrow> Some v | None \<Rightarrow> map_of [] k)"
    using assms by (intro map_of_assign_all) (auto simp: modelTagLayers_def)
  also have "\<dots> = first_of (\<lambda>l. map_of l k) (rev ?layers)" by (simp split: option.split)
  also have "rev ?layers = tagQueryMetadataLayer (ps_sourceTag source)
      # map tagQueryMetadataLayer (rev (modelTagLayers (ps_modelTag source)))
      @ [case_option [] id (Option.bind cfg pm_queryMetadata)]" by (simp add: rev_map)
  finally have r: "map_of (fold (\<lambda>layer out. assign out layer) ?layers []) k = first_of (\<lambda>layer. map_of layer k)
      (tagQueryMetadataLayer (ps_sourceTag source)
        # map tagQueryMetadataLayer (rev (modelTagLayers (ps_modelTag source)))
        @ [case_option [] id (Option.bind cfg pm_queryMetadata)])" .
  have "case_option [] id (if r \<noteq> [] then Some r else None) = r" for r :: QueryMetadata by simp
  then have "case_option [] id (resolveQueryMetadata source cfg) = fold (\<lambda>layer out. assign out layer) ?layers []"
    unfolding resolveQueryMetadata_def composeDeclaredQueryMetadata_def Let_def by this
  with r show ?thesis by simp
qed

definition colocated_passes :: "BuildCompiler \<Rightarrow> CompiledBuildPlan \<Rightarrow> string \<times> PersistSource \<Rightarrow> bool" where
  "colocated_passes C p entry = (case entry of (i, source) \<Rightarrow>
     colocated_gate C source (if map_of (cp_rollups p) i = None then Persist else Preaggregate) (map_of (cp_outcomes p) i) = Inr ())"

definition has_address :: "BuildCompiler \<Rightarrow> CompiledBuildPlan \<Rightarrow> string \<Rightarrow> string \<times> PersistSource \<Rightarrow> bool" where
  "has_address C p a entry \<longleftrightarrow> computeSourceEntityId C (snd entry) (cp_digests p) = Some a"

lemma colocated_fold:
  "(a \<in> fst ` set (refusedEntityIds (fold (colocated_step C p) es acc)) \<longleftrightarrow>
      a \<in> fst ` set (refusedEntityIds acc) \<or> (\<exists>e \<in> set es. has_address C p a e \<and> \<not> colocated_passes C p e))
    \<and> (a \<in> set (eligibleEntityIds (fold (colocated_step C p) es acc)) \<longleftrightarrow>
      (a \<in> set (eligibleEntityIds acc) \<or> a \<notin> fst ` set (refusedEntityIds acc) \<and> (\<exists>e \<in> set es. has_address C p a e))
      \<and> (\<forall>e \<in> set es. has_address C p a e \<longrightarrow> colocated_passes C p e))"
  if "\<forall>a \<in> set (eligibleEntityIds acc). a \<notin> fst ` set (refusedEntityIds acc)"
  using that
proof (induction es arbitrary: acc)
  case Nil
  then show ?case by simp
next
  case (Cons e es)
  obtain i source where e: "e = (i, source)" by (cases e)
  have keys: "fst ` set (AList.update k v al) = insert k (fst ` set al)" for k :: string and v :: RefusalReason and al
    by (induction al) auto
  let ?acc = "colocated_step C p e acc"
  have inv: "\<forall>a \<in> set (eligibleEntityIds ?acc). a \<notin> fst ` set (refusedEntityIds ?acc)"
    using Cons.prems by (auto simp: colocated_step_def e Let_def keys split: sum.splits option.splits)
  have step: "(a \<in> fst ` set (refusedEntityIds ?acc) \<longleftrightarrow>
        a \<in> fst ` set (refusedEntityIds acc) \<or> has_address C p a e \<and> \<not> colocated_passes C p e)
      \<and> (a \<in> set (eligibleEntityIds ?acc) \<longleftrightarrow>
        (a \<in> set (eligibleEntityIds acc) \<or> a \<notin> fst ` set (refusedEntityIds acc) \<and> has_address C p a e)
        \<and> (has_address C p a e \<longrightarrow> colocated_passes C p e))"
    by (auto simp: colocated_step_def e Let_def keys has_address_def colocated_passes_def split: sum.splits option.splits)
  show ?case
    using Cons.IH [OF inv] step by auto
qed

text \<open>
  C16: A content address may be served from the source warehouse exactly when it is some source's address
  and every source it is the address of passes the gate: one refusal outweighs any number of
  approvals, in whatever order the sources come.
\<close>

theorem colocated_refusal_dominates:
  "a \<in> set (eligibleEntityIds (collectColocatedSourceEligibility C p)) \<longleftrightarrow>
     (\<exists>e \<in> set (cp_sources p). has_address C p a e)
     \<and> (\<forall>e \<in> set (cp_sources p). has_address C p a e \<longrightarrow> colocated_passes C p e)"
  using colocated_fold [of "\<lparr>eligibleEntityIds = [], refusedEntityIds = []\<rparr>" a C p "cp_sources p"]
  by (simp add: collectColocatedSourceEligibility_def)

definition declares_storage :: "PersistSource \<Rightarrow> bool" where
  "declares_storage source \<longleftrightarrow> is_set (map_of (deriveAnnotationFields source) ''storage'')"

lemma set_somes_map: "set (somes (map f xs)) = {y. \<exists>x \<in> set xs. f x = Some y}"
  by (induction xs) (auto split: option.splits, (case_tac "f a"; auto)+)

lemma planned_entry:
  assumes "distinct (map fst (cp_sources p))" and "(i, w) \<in> set (bp_sources (deriveBuildPlan C p ns cfg))"
  obtains source where "map_of (cp_sources p) i = Some source" and "snd (plan_source C p cfg i source) = Some w"
    and "(i, source) \<in> set (List.filter (\<lambda>(i, source). case ns of None \<Rightarrow> True | Some ns \<Rightarrow> ps_name source \<in> set ns) (cp_sources p))"
proof -
  from assms(2) obtain source
    where "(i, source) \<in> set (List.filter (\<lambda>(i, source). case ns of None \<Rightarrow> True | Some ns \<Rightarrow> ps_name source \<in> set ns) (cp_sources p))"
      "snd (plan_source C p cfg i source) = Some w"
    unfolding deriveBuildPlan_def Let_def by (auto simp: set_somes_map)
  with assms(1) show thesis by (intro that [of source]) simp_all
qed

lemma refused_entry:
  assumes "distinct (map fst (cp_sources p))" and "(i, r) \<in> set (bp_refused (deriveBuildPlan C p ns cfg))"
  obtains source where "map_of (cp_sources p) i = Some source" and "fst (plan_source C p cfg i source) = Some r"
  using assms by (auto simp: deriveBuildPlan_def Let_def set_somes_map split: prod.splits)

lemma plan_source_Some:
  assumes "snd (plan_source C p cfg i source) = Some w"
  shows "computeSourceEntityId C source (cp_digests p) = Some (wp_sourceEntityId w)"
    and "snd (plan_gates C source (map_of (cp_rollups p) i \<noteq> None) (map_of (cp_outcomes p) i))"
  using assms by (auto simp: plan_source_def wire_source_def Let_def split: prod.splits if_splits option.splits)

lemma plan_source_refusal:
  "fst (plan_source C p cfg i source) \<noteq> None \<longleftrightarrow>
     fst (plan_gates C source (map_of (cp_rollups p) i \<noteq> None) (map_of (cp_outcomes p) i)) \<noteq> None"
  by (simp add: plan_source_def split: prod.split)

text \<open>
  A planned source passed the gate of the tier it declares, and only a rollup refused for its base's
  gate is both planned and refused.
\<close>

theorem planned_source_passed_its_gate:
  assumes "distinct (map fst (cp_sources p))" and "(i, w) \<in> set (bp_sources (deriveBuildPlan C p ns cfg))"
  shows "\<exists>source. map_of (cp_sources p) i = Some source
     \<and> computeSourceEntityId C source (cp_digests p) = Some (wp_sourceEntityId w)
     \<and> (if map_of (cp_rollups p) i = None
        then (if declares_storage source then storage_gate C source = Inr ()
              else colocated_gate C source Persist (map_of (cp_outcomes p) i) = Inr ())
           \<and> i \<notin> fst ` set (bp_refused (deriveBuildPlan C p ns cfg))
        else if colocated_gate C source Preaggregate (map_of (cp_outcomes p) i) = Inr ()
        then (if declares_storage source then storage_gate C source = Inr () else True)
           \<and> i \<notin> fst ` set (bp_refused (deriveBuildPlan C p ns cfg))
        else i \<in> fst ` set (bp_refused (deriveBuildPlan C p ns cfg)))"
proof -
  obtain source where s: "map_of (cp_sources p) i = Some source" "snd (plan_source C p cfg i source) = Some w"
    and inc: "(i, source) \<in> set (List.filter (\<lambda>(i, source). case ns of None \<Rightarrow> True | Some ns \<Rightarrow> ps_name source \<in> set ns) (cp_sources p))"
    using planned_entry [OF assms] .
  note g = plan_source_Some [OF s(2)]
  have r: "i \<in> fst ` set (bp_refused (deriveBuildPlan C p ns cfg)) \<longleftrightarrow>
      fst (plan_gates C source (map_of (cp_rollups p) i \<noteq> None) (map_of (cp_outcomes p) i)) \<noteq> None" (is "?L \<longleftrightarrow> ?R")
  proof
    assume ?L
    then obtain r where "(i, r) \<in> set (bp_refused (deriveBuildPlan C p ns cfg))" by auto
    from refused_entry [OF assms(1) this] obtain source' where "map_of (cp_sources p) i = Some source'"
      "fst (plan_source C p cfg i source') = Some r" .
    with s(1) have "fst (plan_source C p cfg i source) \<noteq> None" by simp
    then show ?R unfolding plan_source_refusal .
  next
    assume ?R
    then have "fst (plan_source C p cfg i source) \<noteq> None" unfolding plan_source_refusal .
    then obtain r where "fst (plan_source C p cfg i source) = Some r" by blast
    then have "(i, r) \<in> set (bp_refused (deriveBuildPlan C p ns cfg))"
      using inc by (auto simp: deriveBuildPlan_def Let_def set_somes_map intro!: bexI [of _ "(i, source)"])
    then show ?L by force
  qed
  show ?thesis
    using s(1) g r
    by (intro exI [of _ source])
      (auto simp: plan_gates_def Let_def declares_storage_def split: sum.splits if_splits)
qed

definition books_agree :: "CompiledBuildPlan \<Rightarrow> bool" where
  "books_agree p \<longleftrightarrow> map fst (cp_modelPaths p) = map fst (cp_sources p) \<and> map fst (cp_outcomes p) = map fst (cp_sources p)
     \<and> distinct (map fst (cp_sources p)) \<and> fst ` set (cp_rollups p) \<subseteq> fst ` set (cp_sources p)"

lemma update_fst [simp]: "fst ` set (AList.update k v al) = insert k (fst ` set al)"
  by (induction al) auto

lemma books_keys:
  "books_agree p \<Longrightarrow> fst ` set (cp_modelPaths p) = fst ` set (cp_sources p) \<and> fst ` set (cp_outcomes p) = fst ` set (cp_sources p)"
  unfolding books_agree_def by (metis list.set_map)

lemma books_add_source: "books_agree p \<Longrightarrow> books_agree (add_source classify path scope e p)"
  using books_keys [of p] by (cases e) (auto simp: books_agree_def add_source_def update_keys distinct_update)

lemma books_add_rollup:
  "books_agree p \<Longrightarrow> books_agree (add_source classify path scope (i, source) (p\<lparr>cp_rollups := AList.update i r (cp_rollups p)\<rparr>))"
  using books_keys [of p] by (auto simp: books_agree_def add_source_def update_keys distinct_update)

lemma books_fold: "(\<And>e p. books_agree p \<Longrightarrow> books_agree (f e p)) \<Longrightarrow> books_agree p \<Longrightarrow> books_agree (fold f es p)"
  by (induction es arbitrary: p) simp_all

lemma books_add_rollups: "books_agree p \<Longrightarrow> books_agree (add_rollups classify path synthesized plans p)"
  unfolding add_rollups_def
proof (rule books_fold, goal_cases)
  case (1 e p)
  then show ?case
    using books_add_rollup by (cases e) (simp split: option.split)
next
  case 2
  then show ?case by (simp add: books_agree_def)
qed

lemma books_add_model: "books_agree p \<Longrightarrow> books_agree (add_model classify path m p)"
proof -
  assume b: "books_agree p"
  define p1 where "p1 = (case cm_synthesized m of None \<Rightarrow> p | Some (synthesized, plans) \<Rightarrow> add_rollups classify path synthesized plans p)"
  have "books_agree p1" using b books_add_rollups by (auto simp: p1_def split: option.split)
  then have "books_agree (p1\<lparr>cp_dropped := d\<rparr>)" "books_agree (p1\<lparr>cp_dropped := d, cp_graphs := gs\<rparr>)" for d gs
    by (simp_all add: books_agree_def)
  moreover have "books_agree q \<Longrightarrow> books_agree (fold (add_source classify path path) es q)" for es q
    by (rule books_fold [OF books_add_source])
  ultimately show ?thesis
    using \<open>books_agree p1\<close>
    by (auto simp: add_model_def Let_def p1_def [symmetric])
qed

lemma books_compile: "compile_models ab compiled_of classify paths p = Inr q \<Longrightarrow> books_agree p \<Longrightarrow> books_agree q"
proof (induction ab compiled_of classify paths p rule: compile_models.induct)
  case (2 ab compiled_of classify path paths p)
  then show ?case using books_add_model by (auto split: if_splits option.splits)
qed simp

lemma resolved_connections:
  "fst ` set (resolvePackageConnections getConn names) \<subseteq> {n. getConn n \<noteq> None}"
proof -
  define f where "f = (\<lambda>name (resolved, seen). if name = [] \<or> name \<in> set seen then (resolved, seen)
      else (case getConn name of Some c \<Rightarrow> (AList.update name c resolved, name # seen) | None \<Rightarrow> (resolved, name # seen)))"
  have step: "fst ` set (fst (f n st)) \<subseteq> fst ` set (fst st) \<union> {n. getConn n \<noteq> None}" for n st
    by (cases st) (auto simp: f_def split: option.split)
  have "fst ` set (fst (fold f ns st)) \<subseteq> fst ` set (fst st) \<union> {n. getConn n \<noteq> None}" for ns st
  proof (induction ns arbitrary: st)
    case (Cons n ns)
    from Cons.IH [of "f n st"] step [of n st] show ?case by auto
  qed simp
  from this [of names "([], [])"] show ?thesis by (simp add: resolvePackageConnections_def f_def)
qed

lemma digested_connections:
  "fst ` set (collect_digests cs getDigest gs) \<subseteq> graphConnection ` set gs \<inter> fst ` set cs"
proof -
  define f where "f = (\<lambda>(graph :: BuildGraph) digests. case map_of cs (graphConnection graph) of None \<Rightarrow> digests
       | Some conn \<Rightarrow> if is_set (map_of digests (graphConnection graph)) then digests
                      else AList.update (graphConnection graph) (getDigest conn) digests)"
  have step: "fst ` set (f g d) \<subseteq> fst ` set d \<union> {graphConnection g} \<inter> fst ` set cs" for g d
    using map_of_eq_None_iff [of cs "graphConnection g"] by (auto simp: f_def split: option.split)
  have "fst ` set (fold f gs d) \<subseteq> fst ` set d \<union> graphConnection ` set gs \<inter> fst ` set cs" for d
  proof (induction gs arbitrary: d)
    case (Cons g gs)
    from Cons.IH [of "f g d"] step [of g d] show ?case by auto
  qed simp
  from this [of "[]"] show ?thesis by (simp add: collect_digests_def f_def)
qed

text \<open>
  Every compiled source is classified and has its model; a rollup is recorded for a source only, and
  a digest for the connection of a graph that resolves.
\<close>

theorem compiled_sources_are_classified:
  assumes "compilePackageBuildPlan aborted compiled_of classify getConn getDigest paths = Inr p"
  shows "books_agree p \<and> (\<forall>c \<in> fst ` set (cp_digests p). c \<in> graphConnection ` set (cp_graphs p) \<and> getConn c \<noteq> None)"
proof -
  obtain q where q: "compile_models aborted compiled_of classify paths empty_plan = Inr q"
    and p: "p = q\<lparr>cp_connections := resolvePackageConnections getConn (map graphConnection (cp_graphs q)),
      cp_digests := collect_digests (resolvePackageConnections getConn (map graphConnection (cp_graphs q))) getDigest (cp_graphs q)\<rparr>"
    using assms by (auto simp: compilePackageBuildPlan_def Let_def split: sum.splits)
  have "books_agree q" using books_compile [OF q] by (simp add: books_agree_def empty_plan_def)
  then show ?thesis
    using resolved_connections [of getConn "map graphConnection (cp_graphs q)"]
      digested_connections [of "resolvePackageConnections getConn (map graphConnection (cp_graphs q))" getDigest "cp_graphs q"]
    by (simp add: p books_agree_def) blast
qed

subsection \<open>Witnesses\<close>

definition graph_abc :: BuildGraph where
  "graph_abc = \<lparr>graphConnection = ''pg'',
     graphNodes = [[BuildNode ''c'' [BuildNode ''b'' [BuildNode ''a'' []], BuildNode ''a'' []]], [BuildNode ''a'' []]]\<rparr>"

definition but_b :: "string \<Rightarrow> string option" where "but_b i = (if i = ''b'' then None else Some i)"

lemma graph_abc_parts: "graph_parts graph_abc =
    {BuildNode ''c'' [BuildNode ''b'' [BuildNode ''a'' []], BuildNode ''a'' []], BuildNode ''b'' [BuildNode ''a'' []], BuildNode ''a'' []}"
  by (auto simp: graph_parts_def graph_abc_def)

lemma sources_in_dependency_order_witness:
  "iterGraphSources graph_abc but_b = [''a'', ''c''] \<and> distinct (map id (iterGraphSources graph_abc but_b))"
proof -
  have "one_mind (graph_parts graph_abc)" by (simp add: graph_abc_parts one_mind_def)
  moreover have "id s = i" if "but_b i = Some s" for i s using that by (simp add: but_b_def split: if_splits)
  ultimately have "distinct (map id (iterGraphSources graph_abc but_b))"
    using sources_in_dependency_order [of graph_abc but_b id] by blast
  moreover have "iterGraphSources graph_abc but_b = [''a'', ''c'']" by code_simp
  ultimately show ?thesis by simp
qed

definition tag_of :: "(string \<times> string) list \<Rightarrow> ReadableTag" where
  "tag_of props = ReadableTag (\<lambda>path. None)
     (\<lambda>n. if n = ''queryMetadata'' then Some (ReadableTag (\<lambda>path. None) (\<lambda>n. None) (Some (map (\<lambda>(k, v). (k, Some v)) props))) else None)
     (Some [])"

text \<open>Two sources with one address, of which the second is gated, and a third with its own.\<close>

definition gated_heap :: heap where
  "gated_heap a = (if a = 4 then Some (IrRecord [(''blockNotes'', IrRef 5)])
     else if a = 5 then Some (IrArray [IrRef 6])
     else if a = 6 then Some (IrRecord [(''text'', IrStr ''#(authorize)'')])
     else demo_ir a)"

definition demo_compiler :: BuildCompiler where
  "demo_compiler = \<lparr>bc_heap = gated_heap, bc_routeOf = (\<lambda>t. if t = ''#(authorize)'' then Some ''authorize'' else None),
     bc_payloadOf = (\<lambda>_. None), bc_makeBuildId = (\<lambda>s d q. q)\<rparr>"

definition demo_source :: "string \<Rightarrow> nat \<Rightarrow> string \<Rightarrow> PersistSource" where
  "demo_source n root_at q = \<lparr>ps_sourceID = ''m@'' @ n, ps_name = n, ps_connection = ''pg'', ps_dialect = ''postgres'',
     ps_sourceTag = Some (tag_of [(''team'', ''core'')]), ps_modelTag = Some (tag_of [(''team'', ''data''), (''tier'', ''gold'')]),
     ps_definition = IrRef root_at, ps_fields = Some [(Some ''x'', ''number'')], ps_sql = Some q\<rparr>"

definition demo_model :: CompiledModel where
  "demo_model = \<lparr>cm_synthesized = None, cm_persistence = True,
     cm_plan = \<lparr>mp_graphs = [\<lparr>graphConnection = ''pg'', graphNodes = [[BuildNode ''m@a'' [], BuildNode ''m@b'' [], BuildNode ''m@c'' []]]\<rparr>],
       mp_sources = [(''m@a'', demo_source ''a'' 0 ''q''), (''m@b'', demo_source ''b'' 4 ''q''), (''m@c'', demo_source ''c'' 0 ''r'')]\<rparr>,
     cm_contents = Some []\<rparr>"

definition demo_classify :: classifier where
  "demo_classify scope source = \<lparr>classification = Eligibility.Rejected, attributed = True\<rparr>"

definition demo_compiled :: CompiledBuildPlan where
  "demo_compiled = projr (compilePackageBuildPlan (\<lambda>_. False) (\<lambda>_. Some demo_model) demo_classify Some (\<lambda>c. ''d'') [''m.malloy''])"

lemma demo_compiled:
  "compilePackageBuildPlan (\<lambda>_. False) (\<lambda>_. Some demo_model) demo_classify Some (\<lambda>c. ''d'') [''m.malloy''] = Inr demo_compiled"
proof -
  have "isl (compilePackageBuildPlan (\<lambda>_. False) (\<lambda>_. Some demo_model) demo_classify Some (\<lambda>c. ''d'') [''m.malloy'']) = False"
    by code_simp
  then show ?thesis unfolding demo_compiled_def by (simp add: sum.expand split: sum.split_asm)
qed

lemma demo_compiled_sources:
  "cp_sources demo_compiled = [(''m@a'', demo_source ''a'' 0 ''q''), (''m@b'', demo_source ''b'' 4 ''q''), (''m@c'', demo_source ''c'' 0 ''r'')]
     \<and> cp_rollups demo_compiled = [] \<and> cp_digests demo_compiled = [(''pg'', ''d'')]"
  by (simp add: demo_compiled_def compilePackageBuildPlan_def demo_model_def add_model_def endsWith_def MODEL_FILE_SUFFIX_def
      add_source_def empty_plan_def Let_def resolvePackageConnections_def collect_digests_def is_set_def)

lemma compiled_sources_are_classified_witness:
  "books_agree demo_compiled \<and> cp_digests demo_compiled = [(''pg'', ''d'')]"
  using compiled_sources_are_classified [OF demo_compiled] demo_compiled_sources by simp

lemma colocated_refusal_dominates_witness:
  "''q'' \<notin> set (eligibleEntityIds (collectColocatedSourceEligibility demo_compiler demo_compiled))
     \<and> ''r'' \<in> set (eligibleEntityIds (collectColocatedSourceEligibility demo_compiler demo_compiled))"
proof -
  have "colocated_gate demo_compiler (demo_source ''b'' 4 ''q'') Persist (map_of (cp_outcomes demo_compiled) ''m@b'') \<noteq> Inr ()"
    "colocated_gate demo_compiler (demo_source ''c'' 0 ''r'') Persist (map_of (cp_outcomes demo_compiled) ''m@c'') = Inr ()"
    by code_simp+
  then show ?thesis
    unfolding colocated_refusal_dominates
    by (auto simp: demo_compiled_sources has_address_def colocated_passes_def computeSourceEntityId_def demo_source_def demo_compiler_def)
qed

lemma planned_source_passed_its_gate_witness:
  "colocated_gate demo_compiler (demo_source ''c'' 0 ''r'') Persist (map_of (cp_outcomes demo_compiled) ''m@c'') = Inr ()
     \<and> ''m@c'' \<notin> fst ` set (bp_refused (deriveBuildPlan demo_compiler demo_compiled None None))"
proof -
  have "''m@c'' \<in> fst ` set (bp_sources (deriveBuildPlan demo_compiler demo_compiled None None))" by code_simp
  then obtain w where "(''m@c'', w) \<in> set (bp_sources (deriveBuildPlan demo_compiler demo_compiled None None))" by auto
  moreover have "distinct (map fst (cp_sources demo_compiled))" by (simp add: demo_compiled_sources)
  moreover have "\<not> declares_storage (demo_source ''c'' 0 ''r'')" by code_simp
  ultimately show ?thesis
    using planned_source_passed_its_gate [of demo_compiled "''m@c''" w demo_compiler None None] by (simp add: demo_compiled_sources)
qed

lemma metadata_takes_most_specific_witness:
  "map_of (case_option [] id (resolveQueryMetadata (demo_source ''c'' 0 ''r'') None)) ''team'' = Some ''core''
     \<and> map_of (case_option [] id (resolveQueryMetadata (demo_source ''c'' 0 ''r'') None)) ''tier'' = Some ''gold''"
proof -
  have "distinct (map fst (case_option [] id (Option.bind (None :: PackageMaterialization option) pm_queryMetadata)))" by simp
  from metadata_takes_most_specific [OF this, of "demo_source ''c'' 0 ''r''"] show ?thesis
    by (simp add: demo_source_def tag_of_def tagQueryMetadataLayer_def text_entries_def assign_def modelTagLayers_def first_of_Cons first_of_Nil)
qed

end
