(* ===== verification/BuildRun.thy ===== *)
theory BuildRun
  imports BuildPlan Materialization
begin

text \<open>
  One materialization run (\<open>service/materialization_service.ts\<close>): the instructions a run derives for
  itself or is given, the entries it starts from, the build loop over the sources of the plan with
  its gates, its collisions and its failures, what a failed run reclaims, and what a deletion drops.

  Building one source is an argument of the loop: it answers with an error or a manifest entry, and
  leaves the build manifest and the world changed. A thrown error is a constructor. Of a manifest
  entry the run reads the fields below; the others are written for reports.
\<close>

subsection \<open>Instructions and entries\<close>

datatype RefreshDone = Refresh_delta | Refresh_full | Refresh_none

record ManifestEntry =
  me_sourceEntityId :: string
  me_sourceName :: "string option"
  me_materializedTableId :: "string option"
  me_physicalTableName :: "string option"
  me_connectionName :: "string option"
  me_storageDestinationName :: "string option"
  me_schema :: "(string \<times> string) list option"
  me_origin :: "Origin option"
  me_refresh :: "RefreshDone option"
  me_error :: "string option"

type_synonym Entries = "(string \<times> ManifestEntry) list"

record BuildInstruction =
  bi_sourceID :: "string option"
  bi_sourceEntityId :: string
  bi_materializedTableId :: string
  bi_physicalTableName :: string
  bi_snapshot :: bool
  bi_destination :: "string option"
  bi_reseed :: bool

record ManifestReference =
  mr_sourceEntityId :: string
  mr_physicalTableName :: string
  mr_connectionName :: "string option"

definition isLegacyFailedEntry :: "ManifestEntry \<Rightarrow> bool" where
  "isLegacyFailedEntry e \<longleftrightarrow> is_set (me_error e)"

definition truthy :: "string option \<Rightarrow> string option" where
  "truthy s = (if is_set s then s else None)"

lemma truthy_Some: "truthy s = Some x \<longleftrightarrow> s = Some x \<and> x \<noteq> []"
  by (auto simp: truthy_def is_set_def)

text \<open>The table an instruction writes; the code compares the JSON text of the same three parts.\<close>

datatype Target = InDestination string string | OnConnection string string

definition physicalTargetKey :: "BuildInstruction \<Rightarrow> string \<Rightarrow> Target" where
  "physicalTargetKey i connection = (case truthy (bi_destination i) of
     Some d \<Rightarrow> InDestination d (bi_physicalTableName i)
   | None \<Rightarrow> OnConnection connection (bi_physicalTableName i))"

definition STAGING_ID_LEN :: nat where "STAGING_ID_LEN = 12"

definition stagingSuffix :: "string \<Rightarrow> string" where
  "stagingSuffix address = ''_'' @ take STAGING_ID_LEN (List.filter (\<lambda>c. c \<noteq> CHR ''-'') address)"

definition selfAssignTableName :: "PersistSource \<Rightarrow> string" where
  "selfAssignTableName source = (case truthy (map_of (deriveAnnotationFields source) ''name'') of
     Some n \<Rightarrow> n | None \<Rightarrow> ps_name source)"

definition declaredStorage :: "PersistSource \<Rightarrow> string option" where
  "declaredStorage source = truthy (map_option js_trim (map_of (deriveAnnotationFields source) ''storage''))"

text \<open>The settings of a run: whether \<open>PERSIST_STORAGE_MODE\<close> is off, and \<open>PERSIST_COLLISION_ENFORCE\<close>.\<close>

record RunSettings =
  storageOff :: bool
  collisionEnforce :: bool

definition resolveStorageDestination :: "RunSettings \<Rightarrow> PersistSource \<Rightarrow> string option" where
  "resolveStorageDestination settings source = (if storageOff settings then None else declaredStorage source)"

definition STORAGE_TARGET_DIALECT :: string where "STORAGE_TARGET_DIALECT = ''duckdb''"

text \<open>The sources of the plan in build order, each with the connection of its graph.\<close>

definition plan_visits :: "CompiledBuildPlan \<Rightarrow> (string \<times> PersistSource) list" where
  "plan_visits p = concat (map (\<lambda>graph. map (Pair (graphConnection graph)) (iterGraphSources graph (map_of (cp_sources p)))) (cp_graphs p))"

definition origin_of :: "CompiledBuildPlan \<Rightarrow> PersistSource \<Rightarrow> Origin" where
  "origin_of p source = (if map_of (cp_rollups p) (ps_sourceID source) = None then Persist else Preaggregate)"

definition outcome_of :: "CompiledBuildPlan \<Rightarrow> PersistSource \<Rightarrow> PersistSourceGateOutcome option" where
  "outcome_of p source = map_of (cp_outcomes p) (ps_sourceID source)"

datatype BuildError =
    Refused string RefusalReason
  | Unreadable string
  | Collision "(string \<times> string \<times> string) list"
  | ConnectionNotFound string
  | Cancelled
  | AllFailed "(string \<times> string) list"
  | NotRecognized "string list"

subsection \<open>The instructions of an auto-run\<close>

record SelfPlan =
  sp_instructions :: "BuildInstruction list"
  sp_carried :: Entries
  sp_seen :: "string list"

text \<open>
  A source on the delta path is always instructed; another is carried when a prior entry has its
  table in the same place. The declarations are those of the incremental sources, if there are any.
\<close>

definition deltaEligible ::
  "(string \<times> IncrementalDeclaration) list option \<Rightarrow> PersistSource \<Rightarrow> string option \<Rightarrow> string \<Rightarrow> bool" where
  "deltaEligible declarations source destination address = (case declarations of
     None \<Rightarrow> False
   | Some ds \<Rightarrow>
       incrementalLineage (map_of ds (ps_sourceID source)) (ps_dialect source)
         (if destination \<noteq> None then STORAGE_TARGET_DIALECT else ps_dialect source)
         (selfAssignTableName source) (ps_connection source) destination address \<noteq> None)"

definition reusable :: "ManifestEntry option \<Rightarrow> string option \<Rightarrow> ManifestEntry option" where
  "reusable prior destination = (case prior of
     Some e \<Rightarrow> if is_set (me_physicalTableName e) \<and> me_storageDestinationName e = destination then Some e else None
   | None \<Rightarrow> None)"

definition self_instruction :: "PersistSource \<Rightarrow> string option \<Rightarrow> string \<Rightarrow> BuildInstruction" where
  "self_instruction source destination address =
     \<lparr>bi_sourceID = None, bi_sourceEntityId = address,
      bi_materializedTableId = ''local-'' @ take STAGING_ID_LEN address,
      bi_physicalTableName = selfAssignTableName source, bi_snapshot = False,
      bi_destination = destination, bi_reseed = False\<rparr>"

definition self_gate ::
  "BuildCompiler \<Rightarrow> CompiledBuildPlan \<Rightarrow> PersistSource \<Rightarrow> string option \<Rightarrow> BuildError + bool" where
  "self_gate C p source destination =
     (if destination \<noteq> None
      then (case storage_gate C source of
              Inr _ \<Rightarrow> Inr True
            | Inl e \<Rightarrow> if origin_of p source = Preaggregate then Inr False else Inl (Refused (ps_name source) e))
      else (case colocated_gate C source (origin_of p source) (outcome_of p source) of
              Inr _ \<Rightarrow> Inr True
            | Inl e \<Rightarrow> Inl (Refused (ps_name source) e)))"

definition self_step ::
  "RunSettings \<Rightarrow> BuildCompiler \<Rightarrow> CompiledBuildPlan \<Rightarrow> string list option \<Rightarrow> Entries
   \<Rightarrow> (string \<times> IncrementalDeclaration) list option \<Rightarrow> PersistSource \<Rightarrow> SelfPlan \<Rightarrow> BuildError + SelfPlan" where
  "self_step settings C p sourceNames priorEntries declarations source sp =
     (if (case sourceNames of None \<Rightarrow> False | Some ns \<Rightarrow> ps_name source \<notin> set ns) then Inr sp
      else if storageOff settings \<and> declaredStorage source \<noteq> None then Inr sp
      else
        (let destination = resolveStorageDestination settings source in
         case self_gate C p source destination of
           Inl e \<Rightarrow> Inl e
         | Inr False \<Rightarrow> Inr sp
         | Inr True \<Rightarrow>
             (case computeSourceEntityId C source (cp_digests p) of
                None \<Rightarrow> Inl (Unreadable (ps_name source))
              | Some address \<Rightarrow>
                  if address \<in> set (sp_seen sp) then Inr sp
                  else
                    (let sp1 = sp\<lparr>sp_seen := address # sp_seen sp\<rparr> in
                     case (if deltaEligible declarations source destination address then None
                           else reusable (map_of priorEntries address) destination) of
                       Some prior \<Rightarrow> Inr (sp1\<lparr>sp_carried := AList.update address prior (sp_carried sp)\<rparr>)
                     | None \<Rightarrow> Inr (sp1\<lparr>sp_instructions := sp_instructions sp @ [self_instruction source destination address]\<rparr>)))))"

fun self_steps ::
  "RunSettings \<Rightarrow> BuildCompiler \<Rightarrow> CompiledBuildPlan \<Rightarrow> string list option \<Rightarrow> Entries
   \<Rightarrow> (string \<times> IncrementalDeclaration) list option \<Rightarrow> PersistSource list \<Rightarrow> SelfPlan \<Rightarrow> BuildError + SelfPlan" where
  "self_steps settings C p sourceNames priorEntries declarations [] sp = Inr sp"
| "self_steps settings C p sourceNames priorEntries declarations (source # sources) sp =
     (case self_step settings C p sourceNames priorEntries declarations source sp of
        Inl e \<Rightarrow> Inl e
      | Inr sp' \<Rightarrow> self_steps settings C p sourceNames priorEntries declarations sources sp')"

definition deriveSelfInstructions ::
  "RunSettings \<Rightarrow> BuildCompiler \<Rightarrow> CompiledBuildPlan \<Rightarrow> string list option \<Rightarrow> Entries
   \<Rightarrow> (string \<times> IncrementalDeclaration) list option \<Rightarrow> BuildError + BuildInstruction list \<times> Entries" where
  "deriveSelfInstructions settings C p sourceNames priorEntries declarations =
     (case self_steps settings C p sourceNames priorEntries declarations (map snd (plan_visits p))
        \<lparr>sp_instructions = [], sp_carried = [], sp_seen = []\<rparr> of
        Inl e \<Rightarrow> Inl e
      | Inr sp \<Rightarrow> Inr (sp_instructions sp, sp_carried sp))"

subsection \<open>Where a run's entries come from\<close>

definition referenceManifestToEntries :: "ManifestReference list option \<Rightarrow> Entries" where
  "referenceManifestToEntries references =
     fold (\<lambda>r entries. AList.update (mr_sourceEntityId r)
         \<lparr>me_sourceEntityId = mr_sourceEntityId r, me_sourceName = None, me_materializedTableId = None,
          me_physicalTableName = Some (mr_physicalTableName r), me_connectionName = mr_connectionName r,
          me_storageDestinationName = None, me_schema = None, me_origin = None, me_refresh = None, me_error = None\<rparr> entries)
       (case_option [] id references) []"

definition coalesce :: "'a option \<Rightarrow> 'a option \<Rightarrow> 'a option" where
  "coalesce a b = (case a of None \<Rightarrow> b | Some x \<Rightarrow> Some x)"

text \<open>The first entry laid over the second, field by field where it has one.\<close>

definition merge_entry :: "ManifestEntry \<Rightarrow> ManifestEntry \<Rightarrow> ManifestEntry" where
  "merge_entry over lower =
     \<lparr>me_sourceEntityId = me_sourceEntityId over, me_sourceName = coalesce (me_sourceName over) (me_sourceName lower),
      me_materializedTableId = coalesce (me_materializedTableId over) (me_materializedTableId lower),
      me_physicalTableName = coalesce (me_physicalTableName over) (me_physicalTableName lower),
      me_connectionName = coalesce (me_connectionName over) (me_connectionName lower),
      me_storageDestinationName = coalesce (me_storageDestinationName over) (me_storageDestinationName lower),
      me_schema = coalesce (me_schema over) (me_schema lower), me_origin = coalesce (me_origin over) (me_origin lower),
      me_refresh = coalesce (me_refresh over) (me_refresh lower), me_error = coalesce (me_error over) (me_error lower)\<rparr>"

text \<open>The entries of the latest finished run of the package, without its failed sources.\<close>

definition live_entries :: "Entries \<Rightarrow> Entries" where
  "live_entries entries = List.filter (\<lambda>(a, e). \<not> isLegacyFailedEntry e) entries"

definition getMostRecentManifestEntries :: "Entries Row list \<Rightarrow> string \<Rightarrow> Entries" where
  "getMostRecentManifestEntries rows excludeId =
     (case List.find (\<lambda>m. row_id m \<noteq> excludeId \<and> status m = MANIFEST_FILE_READY \<and> manifest m \<noteq> None) rows of
        None \<Rightarrow> []
      | Some m \<Rightarrow> live_entries (the (manifest m)))"

text \<open>\<open>None\<close> is a store that cannot be read; the references stay as supplied.\<close>

definition resolveReferencesFromStore :: "Entries option \<Rightarrow> Entries \<Rightarrow> Entries" where
  "resolveReferencesFromStore cached carried = (case cached of
     None \<Rightarrow> carried
   | Some stored \<Rightarrow>
       map (\<lambda>(address, ref). (address, case map_of stored address of None \<Rightarrow> ref | Some l \<Rightarrow> merge_entry ref l)) carried)"

text \<open>The split of a manifest by tier, and the bound manifest a build resolves its upstreams from.\<close>

definition splitManifestEntries :: "Entries \<Rightarrow> (string \<times> ManifestEntry) list \<times> Entries" where
  "splitManifestEntries entries =
     (let usable = List.filter (\<lambda>(a, e). \<not> isLegacyFailedEntry e \<and> is_set (me_physicalTableName e)) entries
      in (List.filter (\<lambda>(a, e). \<not> is_set (me_storageDestinationName e)) usable,
          List.filter (\<lambda>(a, e). is_set (me_storageDestinationName e)) usable))"

definition bound_entries :: "Entries \<Rightarrow> Entries" where
  "bound_entries entries = (case splitManifestEntries entries of (colocated, stored) \<Rightarrow>
     fold (\<lambda>(a, e) bound. if map_of bound a = None
         then bound @ [(a, \<lparr>me_sourceEntityId = a, me_sourceName = None, me_materializedTableId = None,
            me_physicalTableName = me_physicalTableName e, me_connectionName = me_connectionName e,
            me_storageDestinationName = None, me_schema = None, me_origin = None, me_refresh = None, me_error = None\<rparr>)]
         else bound) colocated stored)"

definition seedFromBoundManifest :: "Entries option \<Rightarrow> BuildInstruction list \<Rightarrow> Entries \<Rightarrow> Entries" where
  "seedFromBoundManifest fetched instructions carried = (case fetched of
     None \<Rightarrow> carried
   | Some entries \<Rightarrow>
       fold (\<lambda>(a, e) acc. if a \<in> bi_sourceEntityId ` set instructions then acc
           else (case map_of acc a of
               None \<Rightarrow> AList.update a e acc
             | Some existing \<Rightarrow> AList.update a (merge_entry existing e) acc)) (bound_entries entries) carried)"

subsection \<open>Checking a caller's instructions\<close>

datatype InstructionError =
    NoPersistSources
  | UnknownAddress string
  | SnapshotUnsupported
  | LedgerTwice string
  | LedgerTableNotBuilt string
  | LedgerNotIncremental string
  | LedgerOtherDefinition string

text \<open>A table by its three coordinates; the code joins them with the null character.\<close>

type_synonym table_key = "string \<times> string option \<times> string"

record InstructedTable =
  it_address :: string
  it_refresh :: "string option"
  it_reseed :: bool

definition find_plan_source :: "BuildPlan \<Rightarrow> BuildInstruction \<Rightarrow> PersistSourcePlan option" where
  "find_plan_source plan i =
     coalesce (Option.bind (truthy (bi_sourceID i)) (map_of (bp_sources plan)))
       (map_option snd (List.find (\<lambda>(k, s). wp_sourceEntityId s = bi_sourceEntityId i) (rev (bp_sources plan))))"

definition index_instruction ::
  "BuildPlan \<Rightarrow> bool \<Rightarrow> BuildInstruction \<Rightarrow> (table_key \<times> InstructedTable) list \<times> table_key list
   \<Rightarrow> (table_key \<times> InstructedTable) list \<times> table_key list" where
  "index_instruction plan runReseed i acc = (case find_plan_source plan i of
     None \<Rightarrow> acc
   | Some s \<Rightarrow>
       (AList.update (wp_connection s, truthy (bi_destination i), bi_physicalTableName i)
          \<lparr>it_address = wp_sourceEntityId s, it_refresh = wp_refresh s, it_reseed = runReseed \<or> bi_reseed i\<rparr> (fst acc),
        if is_set (bi_destination i) then (wp_connection s, None, bi_physicalTableName i) # snd acc else snd acc))"

definition ledger_table :: "RecordedBoundary \<Rightarrow> table_key" where
  "ledger_table entry = (recConnection entry, truthy (recStorage entry), recTable entry)"

fun check_ledger ::
  "(table_key \<times> InstructedTable) list \<Rightarrow> table_key list \<Rightarrow> table_key set \<Rightarrow> RecordedBoundary list \<Rightarrow> InstructionError + unit" where
  "check_ledger instructed stored seen [] = Inr ()"
| "check_ledger instructed stored seen (entry # entries) =
     (let key = ledger_table entry in
      if key \<in> seen then Inl (LedgerTwice (recTable entry))
      else (case map_of instructed key of
          None \<Rightarrow>
            if recStorage entry = None \<and> (recConnection entry, None, recTable entry) \<in> set stored
            then check_ledger instructed stored (insert key seen) entries
            else Inl (LedgerTableNotBuilt (recTable entry))
        | Some target \<Rightarrow>
            if it_reseed target then check_ledger instructed stored (insert key seen) entries
            else if it_refresh target \<noteq> Some ''incremental'' then Inl (LedgerNotIncremental (recTable entry))
            else if recSource entry \<noteq> it_address target then Inl (LedgerOtherDefinition (recTable entry))
            else check_ledger instructed stored (insert key seen) entries))"

fun check_instructions :: "BuildPlan \<Rightarrow> BuildInstruction list \<Rightarrow> InstructionError + unit" where
  "check_instructions plan [] = Inr ()"
| "check_instructions plan (i # is) =
     (if bi_sourceEntityId i \<notin> (wp_sourceEntityId \<circ> snd) ` set (bp_sources plan) then Inl (UnknownAddress (bi_sourceEntityId i))
      else if bi_snapshot i then Inl SnapshotUnsupported
      else check_instructions plan is)"

definition validateInstructions ::
  "BuildPlan option \<Rightarrow> BuildInstruction list \<Rightarrow> RecordedBoundary list option \<Rightarrow> bool \<Rightarrow> InstructionError + unit" where
  "validateInstructions plan instructions ledgerEntries runReseed = (case plan of
     None \<Rightarrow> Inl NoPersistSources
   | Some p \<Rightarrow> bind_r (check_instructions p instructions) (\<lambda>_. case ledgerEntries of
         None \<Rightarrow> Inr ()
       | Some entries \<Rightarrow>
           (case fold (index_instruction p runReseed) instructions ([], []) of
              (instructed, stored) \<Rightarrow> check_ledger instructed stored {} entries)))"

subsection \<open>The build loop\<close>

record SourceFailure =
  sf_sourceEntityId :: string
  sf_sourceName :: string
  sf_materializedTableId :: string
  sf_physicalTableName :: string
  sf_reason :: string
  sf_connectionName :: string
  sf_storageDestinationName :: "string option"

text \<open>
  The state of the loop. \<open>rs_attempts\<close> is not kept by the code: it records each attempt on a source with
  its answer, and whether it came to a call of the builder, for the properties to speak of.
\<close>

record Attempt =
  at_source :: PersistSource
  at_instruction :: BuildInstruction
  at_address :: string
  at_target :: Target
  at_called :: bool
  at_answer :: "string + ManifestEntry"

record 'w RunState =
  rs_manifest :: "(string \<times> string) list"
  rs_entries :: Entries
  rs_failures :: "(string \<times> SourceFailure) list"
  rs_failedReasons :: "(string \<times> string) list"
  rs_builtSources :: "string list"
  rs_written :: "(Target \<times> string) list"
  rs_builtThisRun :: "ManifestEntry list"
  rs_retained :: "ManifestEntry list"
  rs_world :: 'w
  rs_attempts :: "Attempt list"

text \<open>
  What a run is given. \<open>re_build\<close> builds one source under an address; \<open>re_aborted\<close> reads the abort
  signal; \<open>re_redact\<close> removes the secrets of a source's connection from a message.
\<close>

record 'w RunEnv =
  re_settings :: RunSettings
  re_compiler :: BuildCompiler
  re_plan :: CompiledBuildPlan
  re_instructions :: "BuildInstruction list"
  re_build :: "PersistSource \<Rightarrow> BuildInstruction \<Rightarrow> string \<Rightarrow> (string \<times> string) list \<Rightarrow> Entries \<Rightarrow> 'w
    \<Rightarrow> (string + ManifestEntry) \<times> (string \<times> string) list \<times> 'w"
  re_aborted :: "'w \<Rightarrow> bool"
  re_redact :: "PersistSource \<Rightarrow> string \<Rightarrow> string"

definition bySourceID :: "BuildInstruction list \<Rightarrow> string \<Rightarrow> BuildInstruction option" where
  "bySourceID instructions i = List.find (\<lambda>b. truthy (bi_sourceID b) = Some i) (rev instructions)"

definition bySourceEntityId :: "BuildInstruction list \<Rightarrow> string \<Rightarrow> BuildInstruction option" where
  "bySourceEntityId instructions a = List.find (\<lambda>b. bi_sourceEntityId b = a) (rev instructions)"

definition address_of :: "'w RunEnv \<Rightarrow> PersistSource \<Rightarrow> string option" where
  "address_of env source = computeSourceEntityId (re_compiler env) source (cp_digests (re_plan env))"

text \<open>The pre-pass: who claims which table, and the pairs of definitions that claim the same one.\<close>

definition claim_step ::
  "'w RunEnv \<Rightarrow> string \<times> PersistSource \<Rightarrow> (Target \<times> string \<times> string) list \<times> (string \<times> string \<times> string) list
   \<Rightarrow> (Target \<times> string \<times> string) list \<times> (string \<times> string \<times> string) list" where
  "claim_step env visit acc = (case visit of (connection, source) \<Rightarrow>
     (case address_of env source of
        None \<Rightarrow> acc
      | Some address \<Rightarrow>
          (case coalesce (bySourceID (re_instructions env) (ps_sourceID source)) (bySourceEntityId (re_instructions env) address) of
             None \<Rightarrow> acc
           | Some i \<Rightarrow>
               (let target = physicalTargetKey i connection in
                case map_of (fst acc) target of
                  None \<Rightarrow> ((target, ps_name source, address) # fst acc, snd acc)
                | Some (first, claimed) \<Rightarrow>
                    if claimed \<noteq> address then (fst acc, snd acc @ [(first, ps_name source, bi_physicalTableName i)]) else acc))))"

definition collisions :: "'w RunEnv \<Rightarrow> (string \<times> string \<times> string) list" where
  "collisions env = snd (fold (claim_step env) (plan_visits (re_plan env)) ([], []))"

text \<open>The instruction of a source: its own, or the one for its address when that can be computed.\<close>

definition instruction_for :: "'w RunEnv \<Rightarrow> PersistSource \<Rightarrow> (BuildInstruction \<times> bool) option" where
  "instruction_for env source = (case bySourceID (re_instructions env) (ps_sourceID source) of
     Some i \<Rightarrow> Some (i, True)
   | None \<Rightarrow>
       (case address_of env source of
          None \<Rightarrow> None
        | Some address \<Rightarrow> map_option (\<lambda>i. (i, False)) (bySourceEntityId (re_instructions env) address)))"

definition first_gate :: "'w RunEnv \<Rightarrow> PersistSource \<Rightarrow> BuildInstruction \<Rightarrow> bool \<Rightarrow> RefusalReason + unit" where
  "first_gate env source i orchestrated =
     (if orchestrated \<and> is_set (bi_destination i) \<and> \<not> storageOff (re_settings env)
      then storage_gate (re_compiler env) source
      else colocated_gate (re_compiler env) source (origin_of (re_plan env) source) (outcome_of (re_plan env) source))"

definition second_gate :: "'w RunEnv \<Rightarrow> PersistSource \<Rightarrow> BuildInstruction \<Rightarrow> bool \<Rightarrow> RefusalReason + unit" where
  "second_gate env source i orchestrated =
     (if \<not> orchestrated \<and> is_set (bi_destination i) \<and> \<not> storageOff (re_settings env)
      then storage_gate (re_compiler env) source else Inr ())"

definition isReclaimableStorageTable :: "ManifestEntry \<Rightarrow> bool" where
  "isReclaimableStorageTable e \<longleftrightarrow> is_set (me_storageDestinationName e) \<and> me_refresh e = None"

text \<open>A destination the mode forbids, or a declared one the instruction lacks, fails before any call.\<close>

definition misdirected :: "'w RunEnv \<Rightarrow> PersistSource \<Rightarrow> BuildInstruction \<Rightarrow> string option" where
  "misdirected env source i =
     (if is_set (bi_destination i) \<and> storageOff (re_settings env) then Some ''PERSIST_STORAGE_MODE is off''
      else if declaredStorage source \<noteq> None \<and> \<not> is_set (bi_destination i) then Some ''instructed with no storage destination''
      else None)"

definition failed_entry :: "PersistSource \<Rightarrow> BuildInstruction \<Rightarrow> string \<Rightarrow> string \<Rightarrow> ManifestEntry" where
  "failed_entry source i address reason =
     \<lparr>me_sourceEntityId = address, me_sourceName = Some (ps_name source),
      me_materializedTableId = Some (bi_materializedTableId i), me_physicalTableName = Some (bi_physicalTableName i),
      me_connectionName = None, me_storageDestinationName = None, me_schema = None, me_origin = None,
      me_refresh = None, me_error = Some reason\<rparr>"

definition record_failure :: "'w RunEnv \<Rightarrow> PersistSource \<Rightarrow> BuildInstruction \<Rightarrow> string \<Rightarrow> string \<Rightarrow> 'w RunState \<Rightarrow> 'w RunState" where
  "record_failure env source i address message st =
     (let reason = re_redact env source message in
      st\<lparr>rs_failedReasons := rs_failedReasons st @ [(ps_name source, reason)],
         rs_failures := AList.update address
           \<lparr>sf_sourceEntityId = address, sf_sourceName = ps_name source,
            sf_materializedTableId = bi_materializedTableId i, sf_physicalTableName = bi_physicalTableName i,
            sf_reason = reason, sf_connectionName = ps_connection source,
            sf_storageDestinationName = truthy (bi_destination i)\<rparr> (rs_failures st),
         rs_entries := AList.update address (failed_entry source i address reason) (rs_entries st)\<rparr>)"

definition record_built :: "'w RunEnv \<Rightarrow> PersistSource \<Rightarrow> Target \<Rightarrow> string \<Rightarrow> ManifestEntry \<Rightarrow> 'w RunState \<Rightarrow> 'w RunState" where
  "record_built env source target address e st =
     (let st1 = st\<lparr>rs_builtSources := rs_builtSources st @ [ps_name source],
            rs_entries := AList.update address e (rs_entries st),
            rs_written := AList.update target address (rs_written st)\<rparr>
      in if isReclaimableStorageTable e then st1\<lparr>rs_builtThisRun := rs_builtThisRun st @ [e]\<rparr>
         else if is_set (me_storageDestinationName e) then st1\<lparr>rs_retained := rs_retained st @ [e]\<rparr>
         else st1)"

text \<open>The answer of an attempt, with whether the builder was called for it.\<close>

definition call_builder ::
  "'w RunEnv \<Rightarrow> PersistSource \<Rightarrow> BuildInstruction \<Rightarrow> string \<Rightarrow> 'w RunState
   \<Rightarrow> bool \<times> (string + ManifestEntry) \<times> (string \<times> string) list \<times> 'w" where
  "call_builder env source i address st = (case misdirected env source i of
     Some message \<Rightarrow> (False, Inl message, rs_manifest st, rs_world st)
   | None \<Rightarrow>
       (case re_build env source i address (rs_manifest st) (rs_entries st) (rs_world st) of
          (answer, rest) \<Rightarrow>
            (True, map_sum id (\<lambda>e. if origin_of (re_plan env) source = Preaggregate
               then e\<lparr>me_origin := Some Preaggregate\<rparr> else e) answer, rest)))"

definition attempt ::
  "'w RunEnv \<Rightarrow> PersistSource \<Rightarrow> BuildInstruction \<Rightarrow> Target \<Rightarrow> string \<Rightarrow> 'w RunState \<Rightarrow> 'w RunState" where
  "attempt env source i target address st = (case call_builder env source i address st of
     (called, answer, man, world) \<Rightarrow>
       (let st1 = st\<lparr>rs_manifest := man, rs_world := world,
              rs_attempts := rs_attempts st @ [\<lparr>at_source = source, at_instruction = i, at_address = address,
                at_target = target, at_called = called, at_answer = answer\<rparr>]\<rparr>
        in case answer of
             Inl message \<Rightarrow> record_failure env source i address message st1
           | Inr e \<Rightarrow> record_built env source target address e st1))"

definition build_step ::
  "'w RunEnv \<Rightarrow> string \<times> PersistSource \<Rightarrow> 'w RunState \<Rightarrow> BuildError option \<times> 'w RunState" where
  "build_step env visit st = (case visit of (connection, source) \<Rightarrow>
     if re_aborted env (rs_world st) then (Some Cancelled, st)
     else (case instruction_for env source of
         None \<Rightarrow> (None, st)
       | Some (i, orchestrated) \<Rightarrow>
           (case first_gate env source i orchestrated of
              Inl e \<Rightarrow> (Some (Refused (ps_name source) e), st)
            | Inr _ \<Rightarrow>
                (case address_of env source of
                   None \<Rightarrow> (Some (Unreadable (ps_name source)), st)
                 | Some address \<Rightarrow>
                     (case second_gate env source i orchestrated of
                        Inl e \<Rightarrow> (Some (Refused (ps_name source) e), st)
                      | Inr _ \<Rightarrow>
                          (let target = physicalTargetKey i connection in
                           if map_of (rs_written st) target = Some address then (None, st)
                           else (None, attempt env source i target address st)))))))"

fun build_sources ::
  "'w RunEnv \<Rightarrow> (string \<times> PersistSource) list \<Rightarrow> 'w RunState \<Rightarrow> BuildError option \<times> 'w RunState" where
  "build_sources env [] st = (None, st)"
| "build_sources env (visit # visits) st = (case build_step env visit st of
     (Some e, st') \<Rightarrow> (Some e, st')
   | (None, st') \<Rightarrow> build_sources env visits st')"

fun build_graphs :: "'w RunEnv \<Rightarrow> BuildGraph list \<Rightarrow> 'w RunState \<Rightarrow> BuildError option \<times> 'w RunState" where
  "build_graphs env [] st = (None, st)"
| "build_graphs env (graph # graphs) st =
     (if map_of (cp_connections (re_plan env)) (graphConnection graph) = None
      then (Some (ConnectionNotFound (graphConnection graph)), st)
      else (case build_sources env (map (Pair (graphConnection graph))
                 (iterGraphSources graph (map_of (cp_sources (re_plan env))))) st of
          (Some e, st') \<Rightarrow> (Some e, st')
        | (None, st') \<Rightarrow> build_graphs env graphs st'))"

subsection \<open>The end of a run\<close>

text \<open>The manifest a run starts from: the seeded tables, quoted for the dialect of their connection.\<close>

definition quoteSeedTablePath :: "(string \<Rightarrow> string option) \<Rightarrow> string \<Rightarrow> string option \<Rightarrow> string" where
  "quoteSeedTablePath dialect_of table connection =
     (case Option.bind (truthy connection) dialect_of of
        None \<Rightarrow> table
      | Some dl \<Rightarrow> quoteManifestTablePath table dl)"

definition seeded_manifest :: "(string \<Rightarrow> string option) \<Rightarrow> Entries \<Rightarrow> (string \<times> string) list" where
  "seeded_manifest dialect_of entries =
     fold (\<lambda>(a, e) man. case truthy (me_physicalTableName e) of
         None \<Rightarrow> man
       | Some table \<Rightarrow> AList.update a (quoteSeedTablePath dialect_of table (me_connectionName e)) man) entries []"

text \<open>
  The tables a failed run drops: stored tables it built, that no finished run of the package names
  (\<open>None\<close> when the runs cannot be listed) and whose destination is still configured.
\<close>

definition names_table :: "Entries \<Rightarrow> string \<Rightarrow> string \<Rightarrow> bool" where
  "names_table entries d t = list_ex (\<lambda>(a, e).
     (case (truthy (coalesce (me_storageDestinationName e) (me_connectionName e)), truthy (me_physicalTableName e)) of
        (Some d', Some t') \<Rightarrow> d' @ '':'' @ t' = d @ '':'' @ t
      | _ \<Rightarrow> False)) entries"

definition stillReferenced :: "Entries Row list \<Rightarrow> string option \<Rightarrow> string \<Rightarrow> string \<Rightarrow> bool" where
  "stillReferenced rows self d t = list_ex (\<lambda>m. self \<noteq> Some (row_id m) \<and> status m = MANIFEST_FILE_READY
     \<and> names_table (case_option [] id (manifest m)) d t) rows"

definition reclaim_one :: "Entries Row list \<Rightarrow> (string \<Rightarrow> bool) \<Rightarrow> ManifestEntry \<Rightarrow> (string \<times> string) option" where
  "reclaim_one others configured e = (case (truthy (me_storageDestinationName e), truthy (me_physicalTableName e)) of
     (Some d, Some t) \<Rightarrow> if stillReferenced others None d t \<or> \<not> configured d then None else Some (d, t)
   | _ \<Rightarrow> None)"

definition reclaim_tables :: "Entries Row list option \<Rightarrow> (string \<Rightarrow> bool) \<Rightarrow> ManifestEntry list \<Rightarrow> (string \<times> string) list" where
  "reclaim_tables rows configured builtThisRun = (case rows of
     None \<Rightarrow> []
   | Some others \<Rightarrow> somes (map (reclaim_one others configured) builtThisRun))"

record 'w RunResult =
  rr_outcome :: "BuildError + Entries \<times> (string \<times> SourceFailure) list"
  rr_state :: "'w RunState"
  rr_dropped :: "(string \<times> string) list"

definition start_state :: "(string \<Rightarrow> string option) \<Rightarrow> Entries \<Rightarrow> 'w \<Rightarrow> 'w RunState" where
  "start_state dialect_of seedEntries w =
     \<lparr>rs_manifest = seeded_manifest dialect_of seedEntries, rs_entries = fold (\<lambda>(a, e) out. AList.update a e out) seedEntries [],
      rs_failures = [], rs_failedReasons = [], rs_builtSources = [], rs_written = [], rs_builtThisRun = [],
      rs_retained = [], rs_world = w, rs_attempts = []\<rparr>"

text \<open>
  The owner is given for an orchestrated run only; \<open>listed\<close> lists the runs of its package at the end.
\<close>

definition executeInstructedBuild ::
  "'w RunEnv \<Rightarrow> (string \<Rightarrow> string option) \<Rightarrow> Entries \<Rightarrow> bool \<Rightarrow> ('w \<Rightarrow> Entries Row list option) \<Rightarrow> (string \<Rightarrow> bool) \<Rightarrow> 'w
   \<Rightarrow> 'w RunResult" where
  "executeInstructedBuild env dialect_of seedEntries owner listed configured w =
     (let st = start_state dialect_of seedEntries w in
      if collisions env \<noteq> [] \<and> collisionEnforce (re_settings env)
      then \<lparr>rr_outcome = Inl (Collision (collisions env)), rr_state = st, rr_dropped = []\<rparr>
      else
        (case build_graphs env (cp_graphs (re_plan env)) st of (thrown, st') \<Rightarrow>
           (let failed = (case thrown of
                  Some e \<Rightarrow> Some e
                | None \<Rightarrow> if rs_builtSources st' = [] \<and> rs_failedReasons st' \<noteq> []
                          then Some (AllFailed (rs_failedReasons st')) else None)
            in case failed of
                 Some e \<Rightarrow> \<lparr>rr_outcome = Inl e, rr_state = st',
                   rr_dropped = (if owner then reclaim_tables (if rs_builtThisRun st' = [] then None else listed (rs_world st'))
                                                 configured (rs_builtThisRun st') else [])\<rparr>
               | None \<Rightarrow> \<lparr>rr_outcome = Inr (rs_entries st', rs_failures st'), rr_state = st', rr_dropped = []\<rparr>)))"

record Tally =
  sourcesBuilt :: nat
  sourcesFailed :: nat
  sourcesReused :: nat

definition tallySources :: "Entries \<Rightarrow> (string \<times> SourceFailure) list \<Rightarrow> Entries \<Rightarrow> Tally" where
  "tallySources entries failures carried =
     \<lparr>sourcesBuilt = length (List.filter (\<lambda>(a, e). \<not> isLegacyFailedEntry e \<and> map_of carried (me_sourceEntityId e) = None) entries),
      sourcesFailed = length failures,
      sourcesReused = length (List.filter (\<lambda>(a, e). map_of failures a = None) carried)\<rparr>"

text \<open>What an auto-run binds at its end: the table of every entry that names no destination.\<close>

definition auto_load_entries :: "Entries \<Rightarrow> FreshnessManifest" where
  "auto_load_entries entries = somes (map (\<lambda>(a, e).
     case truthy (me_physicalTableName e) of
       Some table \<Rightarrow> if is_set (me_storageDestinationName e) then None
           else Some (a, \<lparr>tableName = table, connectionName = me_connectionName e, dataAsOf = None,
                          freshnessWindowSeconds = None, freshnessFallback = None\<rparr>)
     | None \<Rightarrow> None) entries)"

text \<open>The build manifest without the stored tables: what a source is compiled against.\<close>

definition manifestExcludingStorage :: "(string \<times> string) list \<Rightarrow> Entries \<Rightarrow> (string \<times> string) list" where
  "manifestExcludingStorage paths builtEntries = somes (map (\<lambda>(a, e).
     if is_set (me_storageDestinationName e) then None
     else map_option (Pair a) (truthy (map_of paths a))) builtEntries)"

text \<open>
  Dropping the tables of a deleted run. A stored table is dropped in its destination, if that is
  configured; another on its connection, with its staging table. \<open>None\<close> skips the entry.
\<close>

datatype Drop = DropStored string string | DropColocated string "string list"

definition drop_entry :: "Entries Row list \<Rightarrow> string \<Rightarrow> (string \<Rightarrow> bool) \<Rightarrow> (string \<Rightarrow> string option) \<Rightarrow> ManifestEntry \<Rightarrow> Drop option" where
  "drop_entry rows self configured dialect_of e =
     (case (truthy (me_connectionName e), truthy (me_physicalTableName e)) of
        (Some connection, Some table) \<Rightarrow>
          if stillReferenced rows (Some self) (case me_storageDestinationName e of Some d \<Rightarrow> d | None \<Rightarrow> connection) table then None
          else (case truthy (me_storageDestinationName e) of
              Some d \<Rightarrow> if configured d then Some (DropStored d table) else None
            | None \<Rightarrow>
                map_option (\<lambda>dialect. DropColocated connection
                    [''DROP TABLE IF EXISTS '' @ quoteTablePath table dialect,
                     ''DROP TABLE IF EXISTS '' @ quoteTablePath (table @ stagingSuffix (me_sourceEntityId e)) dialect])
                  (dialect_of connection))
      | _ \<Rightarrow> None)"

definition dropMaterializedTables :: "Entries Row list \<Rightarrow> Entries Row \<Rightarrow> (string \<Rightarrow> bool) \<Rightarrow> (string \<Rightarrow> string option) \<Rightarrow> Drop list" where
  "dropMaterializedTables rows m configured dialect_of =
     somes (map (drop_entry rows (row_id m) configured dialect_of \<circ> snd) (case_option [] id (manifest m)))"

subsection \<open>Invariants of the loop\<close>

text \<open>What holds of a source when an attempt is made on it.\<close>

definition admitted :: "'w RunEnv \<Rightarrow> string \<Rightarrow> PersistSource \<Rightarrow> BuildInstruction \<Rightarrow> bool \<Rightarrow> string \<Rightarrow> bool" where
  "admitted env connection source i orchestrated address \<longleftrightarrow>
     (connection, source) \<in> set (plan_visits (re_plan env))
     \<and> instruction_for env source = Some (i, orchestrated) \<and> address_of env source = Some address
     \<and> first_gate env source i orchestrated = Inr () \<and> second_gate env source i orchestrated = Inr ()"

lemma build_step_cases:
  assumes "(connection, source) \<in> set (plan_visits (re_plan env))" and "build_step env (connection, source) st = (thrown, st')"
  obtains (same) "st' = st"
  | (tried) i orchestrated address where "thrown = None" "admitted env connection source i orchestrated address"
      "map_of (rs_written st) (physicalTargetKey i connection) \<noteq> Some address"
      "st' = attempt env source i (physicalTargetKey i connection) address st"
proof (cases "st' = st")
  case False
  with assms(2) obtain i orchestrated address where
    "instruction_for env source = Some (i, orchestrated)" "first_gate env source i orchestrated = Inr ()"
    "address_of env source = Some address" "second_gate env source i orchestrated = Inr ()"
    "map_of (rs_written st) (physicalTargetKey i connection) \<noteq> Some address"
    "thrown = None" "st' = attempt env source i (physicalTargetKey i connection) address st"
    by (auto simp: build_step_def Let_def split: if_splits option.splits sum.splits)
  with assms(1) that(2) show thesis by (simp add: admitted_def)
qed (rule same)

lemma run_invariant:
  assumes step: "\<And>connection source i orchestrated address st. admitted env connection source i orchestrated address \<Longrightarrow>
      map_of (rs_written st) (physicalTargetKey i connection) \<noteq> Some address \<Longrightarrow> P st \<Longrightarrow>
      P (attempt env source i (physicalTargetKey i connection) address st)"
    and start: "P st"
  shows "P (snd (build_graphs env (cp_graphs (re_plan env)) st))"
proof -
  have one: "P (snd (build_step env v st))" if "v \<in> set (plan_visits (re_plan env))" "P st" for v st
  proof (cases v)
    case (Pair connection source)
    with that(1) have "(connection, source) \<in> set (plan_visits (re_plan env))" by simp
    then show ?thesis
      using build_step_cases [of connection source env st "fst (build_step env v st)" "snd (build_step env v st)"] step that(2) Pair
      by (metis prod.collapse)
  qed
  have many: "set vs \<subseteq> set (plan_visits (re_plan env)) \<Longrightarrow> P st \<Longrightarrow> P (snd (build_sources env vs st))" for vs st
  proof (induction vs arbitrary: st)
    case (Cons v vs)
    then show ?case using one [of v st] by (auto split: prod.splits option.splits)
  qed simp
  have graphs: "set gs \<subseteq> set (cp_graphs (re_plan env)) \<Longrightarrow> P st \<Longrightarrow> P (snd (build_graphs env gs st))" for gs st
  proof (induction gs arbitrary: st)
    case (Cons g gs)
    let ?vs = "map (Pair (graphConnection g)) (iterGraphSources g (map_of (cp_sources (re_plan env))))"
    have "set ?vs \<subseteq> set (plan_visits (re_plan env))" using Cons.prems(1) by (auto simp: plan_visits_def)
    then have "P (snd (build_sources env ?vs st))" using many Cons.prems(2) by blast
    then show ?case using Cons.IH Cons.prems by (auto split: prod.splits option.splits)
  qed simp
  show ?thesis using graphs [of "cp_graphs (re_plan env)" st] start by simp
qed

lemma attempt_attempts:
  "rs_attempts (attempt env source i target address st) = rs_attempts st
     @ [\<lparr>at_source = source, at_instruction = i, at_address = address, at_target = target,
         at_called = fst (call_builder env source i address st), at_answer = fst (snd (call_builder env source i address st))\<rparr>]"
  by (simp add: attempt_def record_failure_def record_built_def Let_def split: prod.splits sum.splits)

lemma attempt_written:
  "rs_written (attempt env source i target address st) =
     (if isl (fst (snd (call_builder env source i address st))) then rs_written st else AList.update target address (rs_written st))"
  by (auto simp: attempt_def record_failure_def record_built_def Let_def split: prod.splits sum.splits)

lemma run_attempts:
  "rs_attempts (rr_state (executeInstructedBuild env dl seed owner listed configured w)) =
     (if collisions env \<noteq> [] \<and> collisionEnforce (re_settings env) then []
      else rs_attempts (snd (build_graphs env (cp_graphs (re_plan env)) (start_state dl seed w))))"
  by (simp add: executeInstructedBuild_def Let_def start_state_def split: prod.split option.split)

subsection \<open>Only admitted sources are built\<close>

definition attempts_admitted :: "'w RunEnv \<Rightarrow> 'w RunState \<Rightarrow> bool" where
  "attempts_admitted env st \<longleftrightarrow> (\<forall>t \<in> set (rs_attempts st). (at_called t \<longrightarrow> misdirected env (at_source t) (at_instruction t) = None)
     \<and> (\<exists>connection orchestrated. admitted env connection (at_source t) (at_instruction t) orchestrated (at_address t)
          \<and> at_target t = physicalTargetKey (at_instruction t) connection))"

lemma called_directed: "fst (call_builder env source i a st) \<Longrightarrow> misdirected env source i = None"
  by (cases "misdirected env source i") (simp_all add: call_builder_def)

lemma all_attempts_admitted: "attempts_admitted env (snd (build_graphs env (cp_graphs (re_plan env)) (start_state dl seed w)))"
proof (rule run_invariant)
  fix connection source i orchestrated address and st :: "'a RunState"
  assume "admitted env connection source i orchestrated address" "attempts_admitted env st"
  then show "attempts_admitted env (attempt env source i (physicalTargetKey i connection) address st)"
    unfolding attempts_admitted_def attempt_attempts using called_directed [of env source i address st] by auto
qed (simp add: attempts_admitted_def start_state_def)

text \<open>
  C8: The builder is called to build a source into a destination only when the storage gate admits the source
  and the mode is on, and into its own warehouse only when the colocated gate admits it and it declares no
  destination.
\<close>

theorem only_admitted_sources_are_built:
  assumes "t \<in> set (rs_attempts (rr_state (executeInstructedBuild env dl seed owner listed configured w)))" and "at_called t"
  shows "case truthy (bi_destination (at_instruction t)) of
      Some d \<Rightarrow> storage_gate (re_compiler env) (at_source t) = Inr () \<and> \<not> storageOff (re_settings env)
    | None \<Rightarrow> declaredStorage (at_source t) = None
        \<and> colocated_gate (re_compiler env) (at_source t) (origin_of (re_plan env) (at_source t))
            (outcome_of (re_plan env) (at_source t)) = Inr ()"
proof -
  have "t \<in> set (rs_attempts (snd (build_graphs env (cp_graphs (re_plan env)) (start_state dl seed w))))"
    using assms(1) by (simp add: run_attempts split: if_splits)
  with all_attempts_admitted [of env dl seed w] assms(2) obtain connection orchestrated
    where "admitted env connection (at_source t) (at_instruction t) orchestrated (at_address t)"
      "misdirected env (at_source t) (at_instruction t) = None"
    unfolding attempts_admitted_def by blast
  then show ?thesis
    by (auto simp: admitted_def first_gate_def second_gate_def misdirected_def truthy_def is_set_def split: if_splits option.splits)
qed

subsection \<open>A table is written once\<close>

definition claim_of :: "'w RunEnv \<Rightarrow> string \<times> PersistSource \<Rightarrow> (Target \<times> string) option" where
  "claim_of env visit = (case (instruction_for env (snd visit), address_of env (snd visit)) of
     (Some (i, _), Some a) \<Rightarrow> Some (physicalTargetKey i (fst visit), a) | _ \<Rightarrow> None)"

lemma claim_step_cases:
  "claim_step env v acc = (case claim_of env v of
     None \<Rightarrow> acc
   | Some (t, a) \<Rightarrow> (case map_of (fst acc) t of
        None \<Rightarrow> ((t, ps_name (snd v), a) # fst acc, snd acc)
      | Some (n, b) \<Rightarrow> if b = a then acc else claim_step env v acc))"
  by (cases v) (auto simp: claim_step_def claim_of_def instruction_for_def coalesce_def Let_def split: option.splits)

lemma claim_step_conflict:
  assumes "claim_of env v = Some (t, a)" and "map_of (fst acc) t = Some (n, b)" and "b \<noteq> a"
  shows "snd (claim_step env v acc) \<noteq> []"
  using assms
  by (cases v) (auto simp: claim_step_def claim_of_def instruction_for_def coalesce_def Let_def split: option.splits)

lemma claim_step_grows: "snd (claim_step env v acc) = [] \<Longrightarrow> snd acc = []"
  by (cases v) (simp add: claim_step_def Let_def split: option.splits prod.splits if_splits)

lemma claims_of_visits:
  assumes "snd (fold (claim_step env) vs ([], [])) = []"
  shows "\<forall>v \<in> set vs. \<forall>t a. claim_of env v = Some (t, a) \<longrightarrow> (\<exists>n. map_of (fst (fold (claim_step env) vs ([], []))) t = Some (n, a))"
  using assms
proof (induction vs rule: rev_induct)
  case (snoc v vs)
  let ?acc = "fold (claim_step env) vs ([], [])"
  have none: "snd ?acc = []"
    using snoc.prems claim_step_grows by simp
  note IH = snoc.IH [OF none]
  show ?case
  proof (cases "claim_of env v")
    case None
    then have "claim_step env v ?acc = ?acc" by (subst claim_step_cases) simp
    with IH None show ?thesis by simp
  next
    case (Some ta)
    obtain t a where ta: "ta = (t, a)" by (cases ta)
    show ?thesis
    proof (cases "map_of (fst ?acc) t")
      case None
      then have "claim_step env v ?acc = ((t, ps_name (snd v), a) # fst ?acc, snd ?acc)"
        using Some ta by (subst claim_step_cases) simp
      moreover have "u \<noteq> t" if "x \<in> set vs" "claim_of env x = Some (u, b)" for x u b
        using IH that None by fastforce
      ultimately show ?thesis using IH Some ta by fastforce
    next
      case (Some nb)
      obtain n b where nb: "nb = (n, b)" by (cases nb)
      have "b = a"
        using claim_step_conflict [of env v t a ?acc n b] \<open>claim_of env v = Some ta\<close> ta Some nb snoc.prems by auto
      then have "claim_step env v ?acc = ?acc"
        using \<open>claim_of env v = Some ta\<close> ta Some nb by (subst claim_step_cases) simp
      then show ?thesis using IH \<open>claim_of env v = Some ta\<close> ta Some nb \<open>b = a\<close> by auto
    qed
  qed
qed simp

lemma same_table_same_address:
  assumes "collisions env = []" and "claim_of env v = Some (t, a)" and "claim_of env u = Some (t, b)"
    and "v \<in> set (plan_visits (re_plan env))" and "u \<in> set (plan_visits (re_plan env))"
  shows "a = b"
proof -
  have "\<exists>n. map_of (fst (fold (claim_step env) (plan_visits (re_plan env)) ([], []))) t = Some (n, c)"
    if "w \<in> set (plan_visits (re_plan env))" "claim_of env w = Some (t, c)" for w c
    using claims_of_visits [of env "plan_visits (re_plan env)"] assms(1) that unfolding collisions_def by blast
  from this [OF assms(4,2)] this [OF assms(5,3)] show ?thesis by auto
qed

lemma admitted_claim: "admitted env connection source i orchestrated a \<Longrightarrow>
   claim_of env (connection, source) = Some (physicalTargetKey i connection, a) \<and> (connection, source) \<in> set (plan_visits (re_plan env))"
  by (simp add: admitted_def claim_of_def)

text \<open>C38: Each written table is recorded for the address it was built from, and nothing is attempted on it later.\<close>

fun never_rewritten :: "Attempt list \<Rightarrow> bool" where
  "never_rewritten [] = True"
| "never_rewritten (t # ts) = ((isl (at_answer t) \<or> at_target t \<notin> at_target ` set ts) \<and> never_rewritten ts)"

lemma never_rewritten_snoc:
  "never_rewritten (ts @ [t]) \<longleftrightarrow> never_rewritten ts \<and> (\<forall>s \<in> set ts. isl (at_answer s) \<or> at_target s \<noteq> at_target t)"
  by (induction ts) auto

definition written_once :: "'w RunEnv \<Rightarrow> 'w RunState \<Rightarrow> bool" where
  "written_once env st \<longleftrightarrow> never_rewritten (rs_attempts st)
     \<and> (\<forall>t \<in> set (rs_attempts st). (\<exists>v \<in> set (plan_visits (re_plan env)). claim_of env v = Some (at_target t, at_address t))
          \<and> (isl (at_answer t) \<or> map_of (rs_written st) (at_target t) = Some (at_address t)))"

theorem table_written_once:
  assumes "collisionEnforce (re_settings env) \<or> collisions env = []"
  shows "never_rewritten (rs_attempts (rr_state (executeInstructedBuild env dl seed owner listed configured w)))"
proof (cases "collisions env = []")
  case False
  with assms show ?thesis by (simp add: run_attempts)
next
  case True
  have "written_once env (snd (build_graphs env (cp_graphs (re_plan env)) (start_state dl seed w)))"
  proof (rule run_invariant)
    fix connection source i orchestrated a and st :: "'a RunState"
    let ?target = "physicalTargetKey i connection"
    assume ad: "admitted env connection source i orchestrated a"
      and new: "map_of (rs_written st) ?target \<noteq> Some a" and inv: "written_once env st"
    note claim = admitted_claim [OF ad]
    have old: "isl (at_answer t) \<or> at_target t \<noteq> ?target" if t: "t \<in> set (rs_attempts st)" for t
    proof (rule ccontr)
      assume "\<not> ?thesis"
      with inv t obtain v where "v \<in> set (plan_visits (re_plan env))" "claim_of env v = Some (?target, at_address t)"
        "map_of (rs_written st) ?target = Some (at_address t)" unfolding written_once_def by auto
      with same_table_same_address [OF True _ conjunct1 [OF claim]] claim new show False by blast
    qed
    then have nr: "never_rewritten (rs_attempts (attempt env source i ?target a st))"
      using inv by (simp add: attempt_attempts never_rewritten_snoc written_once_def)
    have "(\<exists>v \<in> set (plan_visits (re_plan env)). claim_of env v = Some (at_target t, at_address t))
        \<and> (isl (at_answer t) \<or> map_of (rs_written (attempt env source i ?target a st)) (at_target t) = Some (at_address t))"
      if t: "t \<in> set (rs_attempts (attempt env source i ?target a st))" for t
    proof (cases "t \<in> set (rs_attempts st)")
      case True
      then show ?thesis using inv old [OF True] by (auto simp: written_once_def attempt_written update_conv')
    next
      case False
      with t claim show ?thesis by (auto simp: attempt_attempts attempt_written update_conv')
    qed
    with nr show "written_once env (attempt env source i ?target a st)" unfolding written_once_def by blast
  qed (simp add: written_once_def start_state_def)
  then show ?thesis by (simp add: run_attempts written_once_def start_state_def)
qed

subsection \<open>What a failed run drops\<close>

definition built_from_attempts :: "'w RunState \<Rightarrow> bool" where
  "built_from_attempts st \<longleftrightarrow> (\<forall>e \<in> set (rs_builtThisRun st). isReclaimableStorageTable e
     \<and> Inr e \<in> at_answer ` set (rs_attempts st))"

lemma all_built_from_attempts:
  "built_from_attempts (snd (build_graphs env (cp_graphs (re_plan env)) (start_state dl seed w)))"
proof (rule run_invariant)
  fix connection source i orchestrated a and st :: "'a RunState"
  assume "built_from_attempts st"
  then show "built_from_attempts (attempt env source i (physicalTargetKey i connection) a st)"
    by (auto simp: built_from_attempts_def attempt_def record_failure_def record_built_def Let_def split: prod.splits sum.splits if_splits)
qed (simp add: built_from_attempts_def start_state_def)

lemma names_tableI:
  assumes "(a, e) \<in> set entries" and "truthy (coalesce (me_storageDestinationName e) (me_connectionName e)) = Some d"
    and "truthy (me_physicalTableName e) = Some t"
  shows "names_table entries d t"
  using assms unfolding names_table_def list_ex_iff by (intro bexI [of _ "(a, e)"]) simp_all

lemma reclaim_one_Some: "reclaim_one others configured e = Some (d, t) \<longleftrightarrow>
    truthy (me_storageDestinationName e) = Some d \<and> truthy (me_physicalTableName e) = Some t
    \<and> \<not> stillReferenced others None d t \<and> configured d"
  by (auto simp: reclaim_one_def split: option.split)

text \<open>
  C17: A run drops tables only when it fails and was orchestrated; each of them is a stored table it built
  itself, of a source that is not refreshed incrementally, in a configured destination, and no
  finished run of the package has it in its manifest.
\<close>

theorem failed_run_drops_only_its_own:
  fixes env :: "'w RunEnv"
  assumes "(d, t) \<in> set (rr_dropped (executeInstructedBuild env dl seed owner listed configured w))"
  shows "let r = executeInstructedBuild env dl seed owner listed configured w in
     owner \<and> isl (rr_outcome r) \<and> configured d
     \<and> (\<exists>e. Inr e \<in> at_answer ` set (rs_attempts (rr_state r)) \<and> me_storageDestinationName e = Some d
          \<and> me_physicalTableName e = Some t \<and> me_refresh e = None)
     \<and> (\<exists>rows. listed (rs_world (rr_state r)) = Some rows \<and> (\<forall>m \<in> set rows. status m = MANIFEST_FILE_READY \<longrightarrow>
          (\<forall>(a, e) \<in> set (case_option [] id (manifest m)).
             truthy (coalesce (me_storageDestinationName e) (me_connectionName e)) = Some d \<longrightarrow> me_physicalTableName e \<noteq> Some t)))"
proof -
  define st where "st = snd (build_graphs env (cp_graphs (re_plan env)) (start_state dl seed w))"
  let ?r = "executeInstructedBuild env dl seed owner listed configured w"
  have r: "owner" "isl (rr_outcome ?r)" "rr_state ?r = st"
    and d: "(d, t) \<in> set (reclaim_tables (if rs_builtThisRun st = [] then None else listed (rs_world st)) configured (rs_builtThisRun st))"
    using assms by (auto simp: executeInstructedBuild_def Let_def st_def split: prod.splits option.splits if_splits)
  obtain rows where rows: "listed (rs_world st) = Some rows" "rs_builtThisRun st \<noteq> []"
    using d by (cases "listed (rs_world st)") (auto simp: reclaim_tables_def split: if_splits)
  with d obtain e where e: "e \<in> set (rs_builtThisRun st)"
    "truthy (me_storageDestinationName e) = Some d" "truthy (me_physicalTableName e) = Some t"
    "\<not> stillReferenced rows None d t" "configured d"
    by (auto simp: reclaim_tables_def set_somes_map reclaim_one_Some)
  have b: "isReclaimableStorageTable e" "Inr e \<in> at_answer ` set (rs_attempts st)"
    using all_built_from_attempts [of env dl seed w] e(1) unfolding built_from_attempts_def st_def by blast+
  have "\<forall>m \<in> set rows. status m = MANIFEST_FILE_READY \<longrightarrow> (\<forall>(a, e) \<in> set (case_option [] id (manifest m)).
      truthy (coalesce (me_storageDestinationName e) (me_connectionName e)) = Some d \<longrightarrow> me_physicalTableName e \<noteq> Some t)"
  proof (intro ballI impI, clarify)
    fix m a e'
    assume "m \<in> set rows" "status m = MANIFEST_FILE_READY" "(a, e') \<in> set (case_option [] id (manifest m))"
      "truthy (coalesce (me_storageDestinationName e') (me_connectionName e')) = Some d" "me_physicalTableName e' = Some t"
    moreover have "t \<noteq> []" using e(3) by (simp add: truthy_Some)
    ultimately have "names_table (case_option [] id (manifest m)) d t"
      using names_tableI [of a e' "case_option [] id (manifest m)" d t] by (simp add: truthy_Some)
    with \<open>m \<in> set rows\<close> \<open>status m = MANIFEST_FILE_READY\<close> e(4) show False
      unfolding stillReferenced_def list_ex_iff by auto
  qed
  then show ?thesis
    using r rows e b unfolding Let_def by (auto simp: truthy_Some isReclaimableStorageTable_def)
qed

subsection \<open>What a run records\<close>

text \<open>The entry an attempt leaves, and the last attempt on an address.\<close>

definition recorded :: "'w RunEnv \<Rightarrow> Attempt \<Rightarrow> ManifestEntry" where
  "recorded env t = (case at_answer t of
     Inl message \<Rightarrow> failed_entry (at_source t) (at_instruction t) (at_address t) (re_redact env (at_source t) message)
   | Inr e \<Rightarrow> e)"

definition last_on :: "Attempt list \<Rightarrow> string \<Rightarrow> Attempt option" where
  "last_on ts a = List.find (\<lambda>t. at_address t = a) (rev ts)"

lemma last_on_snoc: "last_on (ts @ [t]) a = (if at_address t = a then Some t else last_on ts a)"
  by (simp add: last_on_def)

lemma last_on_Some: "last_on ts a = Some t \<Longrightarrow> t \<in> set ts \<and> at_address t = a"
  by (induction ts rule: rev_induct) (auto simp: last_on_snoc last_on_def split: if_splits)

lemma last_on_None: "last_on ts a = None \<longleftrightarrow> (\<forall>t \<in> set ts. at_address t \<noteq> a)"
  by (auto simp: last_on_def find_None_iff)

definition books :: "'w RunEnv \<Rightarrow> Entries \<Rightarrow> 'w RunState \<Rightarrow> bool" where
  "books env seed st \<longleftrightarrow>
     (\<forall>a. map_of (rs_entries st) a = (case last_on (rs_attempts st) a of
         Some t \<Rightarrow> Some (recorded env t) | None \<Rightarrow> map_of (fold (\<lambda>(a, e) out. AList.update a e out) seed []) a))
     \<and> (\<forall>a. map_of (rs_failures st) a \<noteq> None \<longleftrightarrow> (\<exists>t \<in> set (rs_attempts st). at_address t = a \<and> isl (at_answer t)))
     \<and> (rs_builtSources st = [] \<longleftrightarrow> (\<forall>t \<in> set (rs_attempts st). isl (at_answer t)))
     \<and> (rs_failedReasons st = [] \<longleftrightarrow> (\<forall>t \<in> set (rs_attempts st). \<not> isl (at_answer t)))
     \<and> (\<forall>target a. map_of (rs_written st) target = Some a \<longrightarrow>
          (\<exists>t \<in> set (rs_attempts st). at_target t = target \<and> at_address t = a \<and> \<not> isl (at_answer t)))"

lemma attempt_fields:
  fixes st :: "'w RunState"
  defines "answer \<equiv> \<lambda>env source i a (st :: 'w RunState). fst (snd (call_builder env source i a st))"
  shows "rs_entries (attempt env source i target a st) = AList.update a
       (case answer env source i a st of Inl m \<Rightarrow> failed_entry source i a (re_redact env source m) | Inr e \<Rightarrow> e) (rs_entries st)"
    and "map_of (rs_failures (attempt env source i target a st)) b \<noteq> None \<longleftrightarrow>
       map_of (rs_failures st) b \<noteq> None \<or> b = a \<and> isl (answer env source i a st)"
    and "rs_builtSources (attempt env source i target a st) = (if isl (answer env source i a st) then rs_builtSources st
       else rs_builtSources st @ [ps_name source])"
    and "rs_failedReasons (attempt env source i target a st) = [] \<longleftrightarrow>
       rs_failedReasons st = [] \<and> \<not> isl (answer env source i a st)"
  by (auto simp: answer_def attempt_def record_failure_def record_built_def Let_def update_conv' split: prod.splits sum.splits)

lemma all_books: "books env seed (snd (build_graphs env (cp_graphs (re_plan env)) (start_state dl seed w)))"
proof (rule run_invariant)
  fix connection source i orchestrated a and st :: "'a RunState"
  assume b: "books env seed st"
  let ?st = "attempt env source i (physicalTargetKey i connection) a st"
  have "map_of (rs_entries ?st) b = (case last_on (rs_attempts ?st) b of
      Some t \<Rightarrow> Some (recorded env t) | None \<Rightarrow> map_of (fold (\<lambda>(a, e) out. AList.update a e out) seed []) b)" for b
    using b by (simp add: books_def attempt_fields(1) attempt_attempts last_on_snoc recorded_def update_conv' cong: sum.case_cong)
  moreover have "map_of (rs_failures ?st) b \<noteq> None \<longleftrightarrow> (\<exists>t \<in> set (rs_attempts ?st). at_address t = b \<and> isl (at_answer t))" for b
    unfolding attempt_fields(2) attempt_attempts using b by (auto simp: books_def)
  moreover have "rs_builtSources ?st = [] \<longleftrightarrow> (\<forall>t \<in> set (rs_attempts ?st). isl (at_answer t))"
    unfolding attempt_fields(3) attempt_attempts using b by (auto simp: books_def)
  moreover have "rs_failedReasons ?st = [] \<longleftrightarrow> (\<forall>t \<in> set (rs_attempts ?st). \<not> isl (at_answer t))"
    unfolding attempt_fields(4) attempt_attempts using b by (auto simp: books_def)
  moreover have "\<exists>t \<in> set (rs_attempts ?st). at_target t = target \<and> at_address t = c \<and> \<not> isl (at_answer t)"
    if "map_of (rs_written ?st) target = Some c" for target c
    using that b by (auto simp: attempt_written attempt_attempts update_conv' books_def split: if_splits)
  ultimately show "books env seed ?st" unfolding books_def by blast
qed (simp add: books_def start_state_def last_on_def)

lemma execute_done:
  assumes "rr_outcome (executeInstructedBuild env dl seed owner listed configured w) = Inr (entries, failures)"
  obtains st where "build_graphs env (cp_graphs (re_plan env)) (start_state dl seed w) = (None, st)"
    and "rr_state (executeInstructedBuild env dl seed owner listed configured w) = st"
    and "rs_entries st = entries" and "rs_failures st = failures"
  using assms by (auto simp: executeInstructedBuild_def Let_def split: prod.splits option.splits if_splits)

text \<open>
  When the loop ends without a throw, each source with an instruction was attempted, or skipped for its table
  that had been written under its address.
\<close>

definition settled_visit :: "'w RunEnv \<Rightarrow> 'w RunState \<Rightarrow> string \<times> PersistSource \<Rightarrow> bool" where
  "settled_visit env st visit \<longleftrightarrow> (case instruction_for env (snd visit) of
     None \<Rightarrow> True
   | Some (i, _) \<Rightarrow> (\<exists>a. address_of env (snd visit) = Some a
       \<and> (\<exists>t \<in> set (rs_attempts st). at_address t = a \<and> at_target t = physicalTargetKey i (fst visit)
            \<and> (at_source t = snd visit \<and> at_instruction t = i \<or> \<not> isl (at_answer t)))))"

lemma settled_mono: "set (rs_attempts st) \<subseteq> set (rs_attempts st') \<Longrightarrow> settled_visit env st v \<Longrightarrow> settled_visit env st' v"
  unfolding settled_visit_def by (auto split: option.splits)

definition written_attempted :: "'w RunState \<Rightarrow> bool" where
  "written_attempted st \<longleftrightarrow> (\<forall>target a. map_of (rs_written st) target = Some a \<longrightarrow>
     (\<exists>t \<in> set (rs_attempts st). at_target t = target \<and> at_address t = a \<and> \<not> isl (at_answer t)))"

lemma written_attempted_attempt: "written_attempted st \<Longrightarrow> written_attempted (attempt env source i target a st)"
  by (auto simp: written_attempted_def attempt_written attempt_attempts update_conv')

lemma build_step_settles:
  assumes "build_step env v st = (None, st')" and "written_attempted st"
  shows "settled_visit env st' v \<and> set (rs_attempts st) \<subseteq> set (rs_attempts st') \<and> written_attempted st'"
  using assms written_attempted_attempt [of st]
  by (cases v) (fastforce simp: build_step_def settled_visit_def Let_def attempt_attempts written_attempted_def
      split: if_splits option.splits sum.splits prod.splits)

lemma build_sources_settle:
  "build_sources env vs st = (None, st') \<Longrightarrow> written_attempted st \<Longrightarrow>
     (\<forall>v \<in> set vs. settled_visit env st' v) \<and> set (rs_attempts st) \<subseteq> set (rs_attempts st') \<and> written_attempted st'"
proof (induction vs arbitrary: st)
  case (Cons v vs)
  then obtain st1 where s: "build_step env v st = (None, st1)" "build_sources env vs st1 = (None, st')"
    by (auto split: prod.splits option.splits)
  note one = build_step_settles [OF s(1) Cons.prems(2)]
  with Cons.IH [OF s(2)] settled_mono [of st1 st' env v] show ?case by auto
qed simp

lemma build_graphs_settle:
  "build_graphs env gs st = (None, st') \<Longrightarrow> written_attempted st \<Longrightarrow>
     (\<forall>g \<in> set gs. \<forall>v \<in> set (map (Pair (graphConnection g)) (iterGraphSources g (map_of (cp_sources (re_plan env))))). settled_visit env st' v)
     \<and> set (rs_attempts st) \<subseteq> set (rs_attempts st')"
proof (induction gs arbitrary: st)
  case (Cons g gs)
  let ?vs = "map (Pair (graphConnection g)) (iterGraphSources g (map_of (cp_sources (re_plan env))))"
  from Cons.prems(1) obtain st1 where s: "build_sources env ?vs st = (None, st1)" "build_graphs env gs st1 = (None, st')"
    by (auto split: prod.splits option.splits if_splits)
  note one = build_sources_settle [OF s(1) Cons.prems(2)]
  with Cons.IH [OF s(2)] settled_mono [of st1 st' env] show ?case by auto
qed simp

text \<open>
  C27: A run that returns has settled every source it was instructed to build: its address is computed, and
  either an attempt was made on the source itself with its instruction, or the run had built its table under
  that address already, for another name of it; the manifest holds what the last attempt on the address left,
  and the address is among the failures exactly when some attempt on it failed.
\<close>

theorem run_settles_every_instruction:
  assumes "rr_outcome (executeInstructedBuild env dl seed owner listed configured w) = Inr (entries, failures)"
    and "(connection, source) \<in> set (plan_visits (re_plan env))" and "instruction_for env source = Some (i, orchestrated)"
  shows "let ts = rs_attempts (rr_state (executeInstructedBuild env dl seed owner listed configured w)) in
     \<exists>a t. address_of env source = Some a
        \<and> (\<exists>s \<in> set ts. at_address s = a \<and> at_target s = physicalTargetKey i connection
             \<and> (at_source s = source \<and> at_instruction s = i \<or> \<not> isl (at_answer s)))
        \<and> last_on ts a = Some t \<and> map_of entries a = Some (recorded env t)
        \<and> (map_of failures a \<noteq> None \<longleftrightarrow> (\<exists>s \<in> set ts. at_address s = a \<and> isl (at_answer s)))"
proof -
  obtain st where st: "build_graphs env (cp_graphs (re_plan env)) (start_state dl seed w) = (None, st)"
    "rr_state (executeInstructedBuild env dl seed owner listed configured w) = st" "rs_entries st = entries" "rs_failures st = failures"
    using execute_done [OF assms(1)] .
  have "written_attempted (start_state dl seed w)" by (simp add: written_attempted_def start_state_def)
  from build_graphs_settle [OF st(1) this] assms(2) have "settled_visit env st (connection, source)"
    by (auto simp: plan_visits_def)
  then obtain a t where a: "address_of env source = Some a" "t \<in> set (rs_attempts st)" "at_address t = a"
    "at_target t = physicalTargetKey i connection" "at_source t = source \<and> at_instruction t = i \<or> \<not> isl (at_answer t)"
    using assms(3) by (auto simp: settled_visit_def)
  then obtain u where u: "last_on (rs_attempts st) a = Some u" using last_on_None by fastforce
  have "books env seed st" using all_books [of env seed dl w] st(1) by simp
  then have "map_of entries a = Some (recorded env u)"
    "map_of failures a \<noteq> None \<longleftrightarrow> (\<exists>s \<in> set (rs_attempts st). at_address s = a \<and> isl (at_answer s))"
    using u st(3,4) by (auto simp: books_def)
  with a u st(2) show ?thesis unfolding Let_def by (intro exI [of _ a] exI [of _ u]) blast
qed

subsection \<open>What an auto-run binds\<close>

text \<open>
  The entry a failure mirrors into the manifest names a table and no destination, so the end of an
  auto-run binds it: the source is served from the table of an earlier run, or from none.
\<close>

lemma failed_source_is_bound:
  assumes "rr_outcome (executeInstructedBuild env dl seed owner listed configured w) = Inr (entries, failures)"
    and "last_on (rs_attempts (rr_state (executeInstructedBuild env dl seed owner listed configured w))) a = Some t"
    and "isl (at_answer t)" and "bi_physicalTableName (at_instruction t) \<noteq> []"
  shows "\<exists>e. (a, e) \<in> set (auto_load_entries entries) \<and> tableName e = bi_physicalTableName (at_instruction t)"
proof -
  obtain st where st: "build_graphs env (cp_graphs (re_plan env)) (start_state dl seed w) = (None, st)"
    "rr_state (executeInstructedBuild env dl seed owner listed configured w) = st" "rs_entries st = entries" "rs_failures st = failures"
    using execute_done [OF assms(1)] .
  have "books env seed st" using all_books [of env seed dl w] st(1) by simp
  then have "map_of entries a = Some (recorded env t)" using assms(2) st(2,3) by (simp add: books_def)
  then have "(a, recorded env t) \<in> set entries" by (rule map_of_SomeD)
  with assms(3,4) show ?thesis
    by (auto simp: auto_load_entries_def set_somes_map recorded_def failed_entry_def truthy_def is_set_def split: sum.splits
        intro!: bexI [of _ "(a, recorded env t)"])
qed

subsection \<open>What a deletion drops\<close>

definition drop_names :: "Drop \<Rightarrow> ManifestEntry \<Rightarrow> bool" where
  "drop_names drp e = (case drp of
     DropStored d t \<Rightarrow> me_storageDestinationName e = Some d \<and> me_physicalTableName e = Some t
   | DropColocated c stmts \<Rightarrow> truthy (me_storageDestinationName e) = None \<and> me_connectionName e = Some c
       \<and> (\<exists>dl t. me_physicalTableName e = Some t \<and> stmts = [''DROP TABLE IF EXISTS '' @ quoteTablePath t dl,
            ''DROP TABLE IF EXISTS '' @ quoteTablePath (t @ stagingSuffix (me_sourceEntityId e)) dl]))"

definition place_of :: "ManifestEntry \<Rightarrow> string option" where
  "place_of e = truthy (coalesce (me_storageDestinationName e) (me_connectionName e))"

text \<open>
  Deleting a run drops only tables its own manifest names, and none that another finished run of the
  package names in the same place.
\<close>

theorem deletion_spares_live_tables:
  assumes "drp \<in> set (dropMaterializedTables rows m configured dialect_of)"
  shows "\<exists>(a, e) \<in> set (case_option [] id (manifest m)). drop_names drp e
     \<and> (\<forall>m' \<in> set rows. row_id m' \<noteq> row_id m \<and> status m' = MANIFEST_FILE_READY \<longrightarrow>
          (\<forall>(b, e') \<in> set (case_option [] id (manifest m')).
             me_physicalTableName e' = me_physicalTableName e \<and> place_of e' \<noteq> None \<longrightarrow> place_of e' \<noteq> place_of e))"
proof -
  from assms obtain a e where e: "(a, e) \<in> set (case_option [] id (manifest m))"
    "drop_entry rows (row_id m) configured dialect_of e = Some drp"
    by (auto simp: dropMaterializedTables_def set_somes_map)
  from e(2) obtain c t where ct: "truthy (me_connectionName e) = Some c" "truthy (me_physicalTableName e) = Some t"
    and live: "\<not> stillReferenced rows (Some (row_id m)) (case me_storageDestinationName e of Some d \<Rightarrow> d | None \<Rightarrow> c) t"
    by (auto simp: drop_entry_def split: option.splits if_splits)
  have names: "drop_names drp e"
    using e(2) ct by (auto simp: drop_entry_def drop_names_def truthy_Some split: option.splits if_splits)
  have at: "(case me_storageDestinationName e of Some d \<Rightarrow> d | None \<Rightarrow> c) = d" if "place_of e = Some d" for d
    using that ct(1) by (auto simp: place_of_def coalesce_def truthy_Some split: option.splits)
  have "place_of e' \<noteq> place_of e"
    if m': "m' \<in> set rows" "row_id m' \<noteq> row_id m" "status m' = MANIFEST_FILE_READY" "(b, e') \<in> set (case_option [] id (manifest m'))"
      and same: "me_physicalTableName e' = me_physicalTableName e" "place_of e' \<noteq> None" for m' b e'
  proof
    assume p: "place_of e' = place_of e"
    with same(2) obtain d where d: "place_of e' = Some d" "place_of e = Some d" by auto
    have "names_table (case_option [] id (manifest m')) d t"
      using names_tableI [OF m'(4), of d t] d(1) same(1) ct(2) by (simp add: place_of_def)
    then have "stillReferenced rows (Some (row_id m)) d t"
      unfolding stillReferenced_def list_ex_iff using m'(1-3) by (intro bexI [of _ m']) simp_all
    with live at [OF d(2)] show False by simp
  qed
  then show ?thesis using e(1) names by (intro bexI [of _ "(a, e)"]) auto
qed

subsection \<open>Running again\<close>

lemma reusable_Some: "reusable prior d = Some e \<longleftrightarrow> prior = Some e \<and> is_set (me_physicalTableName e) \<and> me_storageDestinationName e = d"
  by (auto simp: reusable_def split: option.splits)

text \<open>What a step does with a source it selects: carry the entry it can reuse, or instruct the source.\<close>

definition advance :: "PersistSource \<Rightarrow> string option \<Rightarrow> string \<Rightarrow> ManifestEntry option \<Rightarrow> SelfPlan \<Rightarrow> SelfPlan" where
  "advance source d a prior sp = (case prior of
     Some e \<Rightarrow> sp\<lparr>sp_seen := a # sp_seen sp, sp_carried := AList.update a e (sp_carried sp)\<rparr>
   | None \<Rightarrow> sp\<lparr>sp_seen := a # sp_seen sp, sp_instructions := sp_instructions sp @ [self_instruction source d a]\<rparr>)"

lemma self_step_uniform:
  assumes "self_step settings C p names prior None source sp = Inr sp'"
  shows "sp' = sp \<and> (\<forall>prior' sq. sp_seen sq = sp_seen sp \<longrightarrow> self_step settings C p names prior' None source sq = Inr sq)
    \<or> (\<exists>a. a \<notin> set (sp_seen sp)
         \<and> sp' = advance source (resolveStorageDestination settings source) a
              (reusable (map_of prior a) (resolveStorageDestination settings source)) sp
         \<and> (\<forall>prior' sq. sp_seen sq = sp_seen sp \<longrightarrow> self_step settings C p names prior' None source sq =
              Inr (advance source (resolveStorageDestination settings source) a
                 (reusable (map_of prior' a) (resolveStorageDestination settings source)) sq)))"
proof -
  let ?d = "resolveStorageDestination settings source"
  show ?thesis
  proof (cases "(case names of None \<Rightarrow> False | Some ns \<Rightarrow> ps_name source \<notin> set ns)
      \<or> storageOff settings \<and> declaredStorage source \<noteq> None \<or> self_gate C p source ?d = Inr False")
    case True
    then have "self_step settings C p names prior' None source sq = Inr sq" for prior' sq
      by (auto simp: self_step_def Let_def)
    with assms show ?thesis by (intro disjI1) auto
  next
    case False
    have "self_gate C p source ?d = Inr True"
    proof (cases "self_gate C p source ?d")
      case (Inl e)
      with assms False show ?thesis by (auto simp: self_step_def Let_def)
    next
      case (Inr b)
      with False show ?thesis by (cases b) auto
    qed
    with False have s: "self_step settings C p names prior' None source sq = (case computeSourceEntityId C source (cp_digests p) of
        None \<Rightarrow> Inl (Unreadable (ps_name source))
      | Some a \<Rightarrow> if a \<in> set (sp_seen sq) then Inr sq else Inr (advance source ?d a (reusable (map_of prior' a) ?d) sq))" for prior' sq
      by (auto simp: self_step_def Let_def advance_def deltaEligible_def split: option.split)
    from assms obtain a where a: "computeSourceEntityId C source (cp_digests p) = Some a"
      unfolding s by (auto split: option.splits)
    show ?thesis
    proof (cases "a \<in> set (sp_seen sp)")
      case True
      with assms show ?thesis unfolding s a by (intro disjI1) simp
    next
      case False
      with assms show ?thesis unfolding s a by (intro disjI2 exI [of _ a]) simp
    qed
  qed
qed

definition carried_seen :: "SelfPlan \<Rightarrow> bool" where
  "carried_seen sp \<longleftrightarrow> fst ` set (sp_carried sp) \<subseteq> set (sp_seen sp)"

lemma advance_grows:
  assumes "a \<notin> set (sp_seen sp)" and "carried_seen sp"
  shows "carried_seen (advance source d a prior sp) \<and> set (sp_instructions sp) \<subseteq> set (sp_instructions (advance source d a prior sp))
     \<and> map_of (sp_carried sp) \<subseteq>\<^sub>m map_of (sp_carried (advance source d a prior sp))"
proof -
  have "map_of (sp_carried sp) a = None"
    using assms by (auto simp: carried_seen_def map_of_eq_None_iff)
  then show ?thesis
    using assms by (auto simp: advance_def carried_seen_def map_le_def update_conv' split: option.split)
qed

lemma self_steps_grow:
  "self_steps settings C p names prior None sources sp = Inr sp' \<Longrightarrow> carried_seen sp \<Longrightarrow>
     set (sp_instructions sp) \<subseteq> set (sp_instructions sp') \<and> map_of (sp_carried sp) \<subseteq>\<^sub>m map_of (sp_carried sp')"
proof (induction sources arbitrary: sp)
  case (Cons source sources)
  then obtain s1 where s1: "self_step settings C p names prior None source sp = Inr s1"
    and rest: "self_steps settings C p names prior None sources s1 = Inr sp'" by (auto split: sum.splits)
  have "carried_seen s1 \<and> set (sp_instructions sp) \<subseteq> set (sp_instructions s1) \<and> map_of (sp_carried sp) \<subseteq>\<^sub>m map_of (sp_carried s1)"
  proof (cases "s1 = sp")
    case True
    then show ?thesis using Cons.prems(2) by simp
  next
    case False
    then obtain a where "a \<notin> set (sp_seen sp)" "s1 = advance source (resolveStorageDestination settings source) a
        (reusable (map_of prior a) (resolveStorageDestination settings source)) sp"
      using self_step_uniform [OF s1] by metis
    then show ?thesis using advance_grows [OF _ Cons.prems(2)] by metis
  qed
  with Cons.IH [OF rest] show ?case using map_le_trans by blast
qed simp

lemma self_steps_again:
  assumes "self_steps settings C p names prior None sources sp = Inr sp'" and "carried_seen sp"
    and "sp_seen sq = sp_seen sp" and "sp_instructions sq = []"
    and "\<forall>i \<in> set (sp_instructions sp'). reusable (map_of entries (bi_sourceEntityId i)) (bi_destination i) \<noteq> None"
    and "map_of (sp_carried sp') \<subseteq>\<^sub>m map_of entries"
  shows "\<exists>sq'. self_steps settings C p names entries None sources sq = Inr sq' \<and> sp_instructions sq' = []"
  using assms
proof (induction sources arbitrary: sp sq)
  case (Cons source sources)
  let ?d = "resolveStorageDestination settings source"
  from Cons.prems(1) obtain s1 where s1: "self_step settings C p names prior None source sp = Inr s1"
    and rest: "self_steps settings C p names prior None sources s1 = Inr sp'" by (auto split: sum.splits)
  consider (skip) "s1 = sp" "self_step settings C p names entries None source sq = Inr sq"
    | (take) a where "a \<notin> set (sp_seen sp)" "s1 = advance source ?d a (reusable (map_of prior a) ?d) sp"
        "self_step settings C p names entries None source sq = Inr (advance source ?d a (reusable (map_of entries a) ?d) sq)"
    using self_step_uniform [OF s1] Cons.prems(3) by metis
  then show ?case
  proof cases
    case skip
    then show ?thesis using Cons.IH [OF rest _ _ Cons.prems(4-6)] Cons.prems(2,3) by simp
  next
    case (take a)
    have c1: "carried_seen s1" using advance_grows [OF take(1) Cons.prems(2)] take(2) by simp
    note g = self_steps_grow [OF rest c1]
    have "\<exists>e. reusable (map_of entries a) ?d = Some e"
    proof (cases "reusable (map_of prior a) ?d")
      case None
      then have "self_instruction source ?d a \<in> set (sp_instructions s1)" by (simp add: take(2) advance_def)
      with g Cons.prems(5) have "reusable (map_of entries (bi_sourceEntityId (self_instruction source ?d a)))
          (bi_destination (self_instruction source ?d a)) \<noteq> None" by blast
      then show ?thesis by (simp add: self_instruction_def)
    next
      case (Some e)
      then have "map_of (sp_carried s1) a = Some e" by (simp add: take(2) advance_def update_conv')
      then have "map_of (sp_carried sp') a = Some e" using g by (metis domI map_le_def)
      then have "map_of entries a = Some e" using Cons.prems(6) by (metis domI map_le_def)
      with Some show ?thesis by (auto simp: reusable_Some)
    qed
    then obtain e where e: "reusable (map_of entries a) ?d = Some e" by blast
    let ?sq = "advance source ?d a (Some e) sq"
    have "sp_seen ?sq = sp_seen s1" using Cons.prems(3) by (simp add: take(2) advance_def split: option.split)
    moreover have "sp_instructions ?sq = []" using Cons.prems(4) by (simp add: advance_def)
    ultimately have "\<exists>sq'. self_steps settings C p names entries None sources ?sq = Inr sq' \<and> sp_instructions sq' = []"
      using Cons.IH [OF rest c1] Cons.prems(5,6) by blast
    then show ?thesis using take(3) e by simp
  qed
qed simp

text \<open>
  An auto-run over a package without incremental sources, after a run that left every instructed
  table in the place it was instructed into and kept what it carried: nothing is instructed again.
\<close>

theorem second_run_builds_nothing:
  assumes "deriveSelfInstructions settings C p names prior None = Inr (instructions, carried)"
    and "\<forall>i \<in> set instructions. reusable (map_of entries (bi_sourceEntityId i)) (bi_destination i) \<noteq> None"
    and "map_of carried \<subseteq>\<^sub>m map_of entries"
  shows "\<exists>carried'. deriveSelfInstructions settings C p names entries None = Inr ([], carried')"
proof -
  let ?sp = "\<lparr>sp_instructions = [], sp_carried = [], sp_seen = []\<rparr>"
  from assms(1) obtain sp' where s: "self_steps settings C p names prior None (map snd (plan_visits p)) ?sp = Inr sp'"
    "sp_instructions sp' = instructions" "sp_carried sp' = carried"
    by (auto simp: deriveSelfInstructions_def split: sum.splits)
  have "\<exists>sq'. self_steps settings C p names entries None (map snd (plan_visits p)) ?sp = Inr sq' \<and> sp_instructions sq' = []"
    using self_steps_again [OF s(1), of ?sp entries] assms(2,3) s(2,3) by (simp add: carried_seen_def)
  then show ?thesis by (auto simp: deriveSelfInstructions_def)
qed

subsection \<open>The ledger a caller returns\<close>

definition instructed_keys :: "BuildPlan \<Rightarrow> BuildInstruction list \<Rightarrow> table_key set" where
  "instructed_keys plan ins = {k. \<exists>i \<in> set ins. \<exists>s. find_plan_source plan i = Some s
     \<and> k = (wp_connection s, truthy (bi_destination i), bi_physicalTableName i)}"

definition stored_keys :: "BuildPlan \<Rightarrow> BuildInstruction list \<Rightarrow> table_key set" where
  "stored_keys plan ins = {k. \<exists>i \<in> set ins. \<exists>s. find_plan_source plan i = Some s \<and> k = (wp_connection s, None, bi_physicalTableName i)}"

lemma index_one:
  "fst ` set (fst (index_instruction plan reseed i acc)) \<subseteq> fst ` set (fst acc) \<union> instructed_keys plan [i]"
  "set (snd (index_instruction plan reseed i acc)) \<subseteq> set (snd acc) \<union> stored_keys plan [i]"
  by (auto simp: index_instruction_def instructed_keys_def stored_keys_def split: option.split)

lemma index_keys:
  "fst ` set (fst (fold (index_instruction plan reseed) ins acc)) \<subseteq> fst ` set (fst acc) \<union> instructed_keys plan ins
    \<and> set (snd (fold (index_instruction plan reseed) ins acc)) \<subseteq> set (snd acc) \<union> stored_keys plan ins"
proof (induction ins arbitrary: acc)
  case (Cons i ins)
  have "instructed_keys plan (i # ins) = instructed_keys plan [i] \<union> instructed_keys plan ins"
    "stored_keys plan (i # ins) = stored_keys plan [i] \<union> stored_keys plan ins"
    by (auto simp: instructed_keys_def stored_keys_def)
  with Cons.IH [of "index_instruction plan reseed i acc"] index_one [where i = i and acc = acc and plan = plan and reseed = reseed]
  show ?case by (simp add: subset_iff) blast
qed simp

lemma check_ledger_ok:
  "check_ledger instructed stored seen entries = Inr () \<Longrightarrow> distinct (map ledger_table entries) \<and> ledger_table ` set entries \<inter> seen = {}
     \<and> (\<forall>e \<in> set entries. (\<exists>t. map_of instructed (ledger_table e) = Some t
           \<and> (it_reseed t \<or> it_refresh t = Some ''incremental'' \<and> recSource e = it_address t))
         \<or> recStorage e = None \<and> (recConnection e, None, recTable e) \<in> set stored)"
proof (induction instructed stored seen entries rule: check_ledger.induct)
  case (2 instructed stored seen e entries)
  show ?case
  proof (cases "map_of instructed (ledger_table e)")
    case None
    with "2.prems" have "ledger_table e \<notin> seen" "recStorage e = None" "(recConnection e, None, recTable e) \<in> set stored"
      "check_ledger instructed stored (insert (ledger_table e) seen) entries = Inr ()"
      by (auto simp: Let_def split: if_splits)
    with "2.IH"(1) [OF refl this(1) None] None show ?thesis by auto
  next
    case (Some t)
    show ?thesis
    proof (cases "it_reseed t")
      case True
      with "2.prems" Some have r: "ledger_table e \<notin> seen"
        "check_ledger instructed stored (insert (ledger_table e) seen) entries = Inr ()"
        by (auto simp: Let_def split: if_splits)
      from "2.IH"(2) [OF refl r(1) Some True r(2)] r(1) Some True show ?thesis by auto
    next
      case False
      with "2.prems" Some have r: "ledger_table e \<notin> seen" "it_refresh t = Some ''incremental''" "recSource e = it_address t"
        "check_ledger instructed stored (insert (ledger_table e) seen) entries = Inr ()"
        by (auto simp: Let_def split: if_splits)
      from "2.IH"(3) [OF refl r(1) Some False _ _ r(4)] r Some show ?thesis by auto
    qed
  qed
qed simp

text \<open>
  A ledger the service accepts names each table once, and only tables its instructions build: the
  table of an instruction, or the warehouse table a stored one of the same name replaces.
\<close>

theorem accepted_ledger_names_built_tables:
  assumes "validateInstructions (Some plan) instructions (Some entries) reseed = Inr ()"
  shows "distinct (map ledger_table entries)
    \<and> (\<forall>e \<in> set entries. \<exists>i \<in> set instructions. \<exists>s. find_plan_source plan i = Some s
         \<and> recConnection e = wp_connection s \<and> recTable e = bi_physicalTableName i
         \<and> (truthy (recStorage e) = truthy (bi_destination i) \<or> recStorage e = None))"
proof -
  obtain instructed stored where ix: "fold (index_instruction plan reseed) instructions ([], []) = (instructed, stored)"
    by (cases "fold (index_instruction plan reseed) instructions ([], [])")
  with assms have c: "check_ledger instructed stored {} entries = Inr ()"
    by (auto simp: validateInstructions_def bind_r_eq_Inr)
  note ok = check_ledger_ok [OF c]
  have keys: "fst ` set instructed \<subseteq> instructed_keys plan instructions" "set stored \<subseteq> stored_keys plan instructions"
    using index_keys [of plan reseed instructions "([], [])"] ix by simp_all
  have k: "key \<in> instructed_keys plan instructions" if "map_of instructed key = Some t" for key t
  proof -
    have "key \<in> fst ` set instructed" using imageI [OF map_of_SomeD [OF that], of fst] by simp
    with keys(1) show ?thesis by blast
  qed
  have "\<exists>i \<in> set instructions. \<exists>s. find_plan_source plan i = Some s
         \<and> recConnection e = wp_connection s \<and> recTable e = bi_physicalTableName i
         \<and> (truthy (recStorage e) = truthy (bi_destination i) \<or> recStorage e = None)" if e: "e \<in> set entries" for e
  proof -
    from bspec [OF conjunct2 [OF conjunct2 [OF ok]] e] consider (built) t where "map_of instructed (ledger_table e) = Some t"
      | (stored) "recStorage e = None" "(recConnection e, None, recTable e) \<in> set stored" by (elim disjE exE conjE)
    then show ?thesis
    proof cases
      case built
      from k [OF built] show ?thesis by (auto simp: ledger_table_def instructed_keys_def)
    next
      case stored
      from stored(2) keys(2) have "(recConnection e, None, recTable e) \<in> stored_keys plan instructions" by blast
      with stored(1) show ?thesis by (auto simp: stored_keys_def)
    qed
  qed
  with ok show ?thesis by blast
qed

text \<open>A blank \<open>storage=\<close> is a destination to the plan and none to the build.\<close>

lemma blank_storage_plans_as_stored:
  assumes "map_of (deriveAnnotationFields source) ''storage'' = Some '' ''"
  shows "declares_storage source \<and> declaredStorage source = None"
  using assms by (simp add: declares_storage_def declaredStorage_def truthy_def is_set_def js_trim_def js_trim_start_def
      js_trim_end_def js_space_def)

subsection \<open>Witnesses\<close>

text \<open>
  A source stored in a lake, and two names of one table in the warehouse, of which the first fails to
  build. The world counts the tables built.
\<close>

definition run_source :: "string \<Rightarrow> string option \<Rightarrow> string \<Rightarrow> PersistSource" where
  "run_source n storage q = \<lparr>ps_sourceID = ''m@'' @ n, ps_name = n, ps_connection = ''pg'', ps_dialect = ''postgres'',
     ps_sourceTag = Some (ReadableTag (\<lambda>_. None) (\<lambda>_. None) (Some [(''storage'', storage)])), ps_modelTag = None,
     ps_definition = IrRef 0, ps_fields = Some [(Some ''x'', ''number'')], ps_sql = Some q\<rparr>"

definition run_plan :: CompiledBuildPlan where
  "run_plan = \<lparr>cp_graphs = [\<lparr>graphConnection = ''pg'',
       graphNodes = [[BuildNode ''m@x'' [], BuildNode ''m@y'' []], [BuildNode ''m@z'' [BuildNode ''m@y'' []]]]\<rparr>],
     cp_sources = [(''m@x'', run_source ''x'' (Some ''lake'') ''qx''), (''m@y'', run_source ''y'' None ''qy''), (''m@z'', run_source ''z'' None ''qy'')],
     cp_connections = [(''pg'', ''pg'')], cp_digests = [(''pg'', ''d'')], cp_modelPaths = [], cp_dropped = [], cp_rollups = [], cp_outcomes = []\<rparr>"

definition run_instruction :: "string \<Rightarrow> string \<Rightarrow> string option \<Rightarrow> BuildInstruction" where
  "run_instruction a table dest = \<lparr>bi_sourceID = None, bi_sourceEntityId = a, bi_materializedTableId = ''id-'' @ a,
     bi_physicalTableName = table, bi_snapshot = False, bi_destination = dest, bi_reseed = False\<rparr>"

definition run_entry :: "PersistSource \<Rightarrow> BuildInstruction \<Rightarrow> ManifestEntry" where
  "run_entry source i = \<lparr>me_sourceEntityId = bi_sourceEntityId i, me_sourceName = Some (ps_name source),
     me_materializedTableId = Some (bi_materializedTableId i), me_physicalTableName = Some (bi_physicalTableName i),
     me_connectionName = Some (ps_connection source), me_storageDestinationName = bi_destination i, me_schema = None,
     me_origin = None, me_refresh = None, me_error = None\<rparr>"

definition run_env :: "nat \<Rightarrow> nat RunEnv" where
  "run_env limit = \<lparr>re_settings = \<lparr>storageOff = False, collisionEnforce = True\<rparr>, re_compiler = demo_compiler, re_plan = run_plan,
     re_instructions = [run_instruction ''qx'' ''tx'' (Some ''lake''), run_instruction ''qy'' ''ty'' None],
     re_build = (\<lambda>source i a man entries w.
        if ps_name source = ''y'' then (Inl ''boom'', man, w) else (Inr (run_entry source i), man, Suc w)),
     re_aborted = (\<lambda>w. limit \<le> w), re_redact = (\<lambda>_ m. m)\<rparr>"

definition demo_run :: "nat \<Rightarrow> nat RunResult" where
  "demo_run limit = executeInstructedBuild (run_env limit) Some [] True (\<lambda>_. Some []) (\<lambda>_. True) 0"

text \<open>The table of \<open>y\<close> and \<open>z\<close> is built in the end, and stays recorded as failed.\<close>

lemma demo_visits: "plan_visits run_plan =
    [(''pg'', run_source ''x'' (Some ''lake'') ''qx''), (''pg'', run_source ''y'' None ''qy''), (''pg'', run_source ''z'' None ''qy'')]"
  by (simp add: plan_visits_def run_plan_def iterGraphSources_def)

lemma run_gates:
  "storage_gate demo_compiler (run_source n s q) = Inr ()" "colocated_gate demo_compiler (run_source n s q) origin g = Inr ()"
proof -
  have "assertMaterializationEligible (bc_routeOf demo_compiler) (bc_payloadOf demo_compiler) (bc_heap demo_compiler) (IrRef 0) = Inr ()"
    by code_simp
  then show "storage_gate demo_compiler (run_source n s q) = Inr ()" by (simp add: storage_gate_def run_source_def)
  have "referencesPartition (bc_routeOf demo_compiler) (bc_heap demo_compiler) (IrRef 0) = False"
    "buildSubstitutesAGiven (bc_heap demo_compiler) (IrRef 0) = False"
    "referencesAuthorize (bc_routeOf demo_compiler) (bc_payloadOf demo_compiler) (bc_heap demo_compiler) (IrRef 0) = False" by code_simp+
  then show "colocated_gate demo_compiler (run_source n s q) origin g = Inr ()"
    by (simp add: colocated_gate_def run_source_def assertColocatedPersistNotAuthorizeGated_def)
qed

lemma run_env_simps [simp]:
  "re_aborted (run_env l) w = (l \<le> w)" "re_compiler (run_env l) = demo_compiler" "re_plan (run_env l) = run_plan"
  "storageOff (re_settings (run_env l)) = False" "collisionEnforce (re_settings (run_env l)) = True"
  "re_instructions (run_env l) = [run_instruction ''qx'' ''tx'' (Some ''lake''), run_instruction ''qy'' ''ty'' None]"
  "re_redact (run_env l) source m = m"
  "re_build (run_env l) source i a man es w =
     (if ps_name source = ''y'' then (Inl ''boom'', man, w) else (Inr (run_entry source i), man, Suc w))"
  by (simp_all add: run_env_def)

lemma run_instruction_simps [simp]:
  "bi_sourceID (run_instruction a t d) = None" "bi_sourceEntityId (run_instruction a t d) = a"
  "bi_physicalTableName (run_instruction a t d) = t" "bi_destination (run_instruction a t d) = d"
  "physicalTargetKey (run_instruction a t (Some ''lake'')) c = InDestination ''lake'' t"
  "physicalTargetKey (run_instruction a t None) c = OnConnection c t"
  by (simp_all add: run_instruction_def physicalTargetKey_def truthy_def is_set_def)

lemma run_lookups:
  "address_of (run_env l) (run_source n s q) = Some q"
  "instruction_for (run_env l) (run_source n s ''qx'') = Some (run_instruction ''qx'' ''tx'' (Some ''lake''), False)"
  "instruction_for (run_env l) (run_source n s ''qy'') = Some (run_instruction ''qy'' ''ty'' None, False)"
proof -
  show a: "address_of (run_env l) (run_source n s q) = Some q" for q
    by (simp add: address_of_def computeSourceEntityId_def run_source_def demo_compiler_def)
  show "instruction_for (run_env l) (run_source n s ''qx'') = Some (run_instruction ''qx'' ''tx'' (Some ''lake''), False)"
    "instruction_for (run_env l) (run_source n s ''qy'') = Some (run_instruction ''qy'' ''ty'' None, False)"
    by (simp_all add: instruction_for_def a bySourceID_def bySourceEntityId_def truthy_def is_set_def)
qed

lemma run_gates_pass:
  "first_gate (run_env l) (run_source n s q) i o' = Inr ()" "second_gate (run_env l) (run_source n s q) i o' = Inr ()"
  by (simp_all add: first_gate_def second_gate_def run_gates)

lemma run_step:
  "build_step (run_env l) (''pg'', run_source n s ''qx'') st =
     (if l \<le> rs_world st then (Some Cancelled, st)
      else if map_of (rs_written st) (InDestination ''lake'' ''tx'') = Some ''qx'' then (None, st)
      else (None, attempt (run_env l) (run_source n s ''qx'') (run_instruction ''qx'' ''tx'' (Some ''lake'')) (InDestination ''lake'' ''tx'') ''qx'' st))"
  "build_step (run_env l) (''pg'', run_source n s ''qy'') st =
     (if l \<le> rs_world st then (Some Cancelled, st)
      else if map_of (rs_written st) (OnConnection ''pg'' ''ty'') = Some ''qy'' then (None, st)
      else (None, attempt (run_env l) (run_source n s ''qy'') (run_instruction ''qy'' ''ty'' None) (OnConnection ''pg'' ''ty'') ''qy'' st))"
  by (simp_all add: build_step_def run_lookups run_gates_pass Let_def)

lemma run_no_collisions: "collisions (run_env l) = []"
  by (simp add: collisions_def demo_visits claim_step_cases claim_of_def run_lookups)

lemma run_misdirected:
  "misdirected (run_env l) (run_source n (Some ''lake'') q) (run_instruction a t (Some ''lake'')) = None"
  "misdirected (run_env l) (run_source n None q) (run_instruction a t None) = None"
  by (simp_all add: misdirected_def is_set_def declaredStorage_def run_source_def truthy_def
      deriveAnnotationFields_def text_entries_def assign_def)

lemma run_call:
  "misdirected (run_env l) (run_source n s q) i = None \<Longrightarrow> call_builder (run_env l) (run_source n s q) i a st =
     (if n = ''y'' then (True, Inl ''boom'', rs_manifest st, rs_world st)
      else (True, Inr (run_entry (run_source n s q) i), rs_manifest st, Suc (rs_world st)))"
  by (simp add: call_builder_def origin_of_def run_plan_def) (simp add: run_source_def)

lemma run_tries:
  "attempt (run_env l) (run_source ''x'' (Some ''lake'') ''qx'') (run_instruction ''qx'' ''tx'' (Some ''lake'')) t a st =
     record_built (run_env l) (run_source ''x'' (Some ''lake'') ''qx'') t a (run_entry (run_source ''x'' (Some ''lake'') ''qx'') (run_instruction ''qx'' ''tx'' (Some ''lake'')))
       (st\<lparr>rs_world := Suc (rs_world st), rs_attempts := rs_attempts st @ [\<lparr>at_source = run_source ''x'' (Some ''lake'') ''qx'',
          at_instruction = run_instruction ''qx'' ''tx'' (Some ''lake''), at_address = a, at_target = t, at_called = True,
          at_answer = Inr (run_entry (run_source ''x'' (Some ''lake'') ''qx'') (run_instruction ''qx'' ''tx'' (Some ''lake'')))\<rparr>]\<rparr>)"
  "attempt (run_env l) (run_source ''y'' None ''qy'') (run_instruction ''qy'' ''ty'' None) t a st =
     record_failure (run_env l) (run_source ''y'' None ''qy'') (run_instruction ''qy'' ''ty'' None) a ''boom''
       (st\<lparr>rs_attempts := rs_attempts st @ [\<lparr>at_source = run_source ''y'' None ''qy'',
          at_instruction = run_instruction ''qy'' ''ty'' None, at_address = a, at_target = t, at_called = True, at_answer = Inl ''boom''\<rparr>]\<rparr>)"
  "attempt (run_env l) (run_source ''z'' None ''qy'') (run_instruction ''qy'' ''ty'' None) t a st =
     record_built (run_env l) (run_source ''z'' None ''qy'') t a (run_entry (run_source ''z'' None ''qy'') (run_instruction ''qy'' ''ty'' None))
       (st\<lparr>rs_world := Suc (rs_world st), rs_attempts := rs_attempts st @ [\<lparr>at_source = run_source ''z'' None ''qy'',
          at_instruction = run_instruction ''qy'' ''ty'' None, at_address = a, at_target = t, at_called = True,
          at_answer = Inr (run_entry (run_source ''z'' None ''qy'') (run_instruction ''qy'' ''ty'' None))\<rparr>]\<rparr>)"
  by (simp_all add: attempt_def run_misdirected run_call Let_def)

lemma run_graphs:
  "build_graphs (run_env l) (cp_graphs run_plan) st = build_sources (run_env l)
     [(''pg'', run_source ''x'' (Some ''lake'') ''qx''), (''pg'', run_source ''y'' None ''qy''), (''pg'', run_source ''z'' None ''qy'')] st"
  by (simp add: run_plan_def iterGraphSources_def split: prod.split option.split)

lemma run_entry_simps [simp]:
  "me_storageDestinationName (run_entry s i) = bi_destination i" "me_refresh (run_entry s i) = None"
  "me_physicalTableName (run_entry s i) = Some (bi_physicalTableName i)"
  by (simp_all add: run_entry_def)

lemmas demo_run_eval = demo_run_def executeInstructedBuild_def run_no_collisions run_graphs run_step run_tries start_state_def
  record_failure_def record_built_def isReclaimableStorageTable_def is_set_def Let_def

lemma only_admitted_sources_are_built_witness:
  "storage_gate demo_compiler (at_source (hd (rs_attempts (rr_state (demo_run 9))))) = Inr ()"
proof -
  have a: "rs_attempts (rr_state (demo_run 9)) \<noteq> []" "at_called (hd (rs_attempts (rr_state (demo_run 9))))"
    "bi_destination (at_instruction (hd (rs_attempts (rr_state (demo_run 9))))) = Some ''lake''"
    by (simp_all add: demo_run_eval seeded_manifest_def)
  from only_admitted_sources_are_built [OF hd_in_set [OF a(1) [unfolded demo_run_def]] a(2) [unfolded demo_run_def]] a(3) show ?thesis
    by (simp add: demo_run_def truthy_def is_set_def)
qed

lemma table_written_once_witness: "never_rewritten (rs_attempts (rr_state (demo_run 9)))"
  unfolding demo_run_def by (rule table_written_once) simp

lemma failed_run_drops_only_its_own_witness: "isl (rr_outcome (demo_run 1))"
proof -
  have "(''lake'', ''tx'') \<in> set (rr_dropped (demo_run 1))"
    by (simp add: demo_run_eval seeded_manifest_def reclaim_tables_def reclaim_one_def truthy_def stillReferenced_def)
  from failed_run_drops_only_its_own [OF this [unfolded demo_run_def]] show ?thesis
    by (simp add: Let_def demo_run_def)
qed

lemma run_settles_every_instruction_witness:
  "\<exists>entries failures. rr_outcome (demo_run 9) = Inr (entries, failures)
     \<and> map_of entries ''qy'' \<noteq> None \<and> map_of failures ''qy'' \<noteq> None"
proof -
  have "\<not> isl (rr_outcome (demo_run 9))" by (simp add: demo_run_eval seeded_manifest_def)
  then obtain entries failures where o: "rr_outcome (demo_run 9) = Inr (entries, failures)"
    by (metis isl_def sum.exhaust surj_pair)
  have failing: "\<exists>s \<in> set (rs_attempts (rr_state (demo_run 9))). at_address s = ''qy'' \<and> isl (at_answer s)"
    by (simp add: demo_run_eval seeded_manifest_def)
  have visit: "(''pg'', run_source ''z'' None ''qy'') \<in> set (plan_visits (re_plan (run_env 9)))"
    by (simp add: demo_visits)
  note r = run_settles_every_instruction [OF o [unfolded demo_run_def] visit run_lookups(3), unfolded Let_def, folded demo_run_def]
  then obtain a t where a: "address_of (run_env 9) (run_source ''z'' None ''qy'') = Some a"
    and e: "map_of entries a = Some (recorded (run_env 9) t)"
    and f: "map_of failures a \<noteq> None \<longleftrightarrow> (\<exists>s \<in> set (rs_attempts (rr_state (demo_run 9))). at_address s = a \<and> isl (at_answer s))"
    by (elim exE conjE)
  have "a = ''qy''" using a run_lookups(1) by simp
  with e f failing have "map_of entries ''qy'' \<noteq> None" "map_of failures ''qy'' \<noteq> None" by auto
  with o show ?thesis by blast
qed

text \<open>
  A source that fails and is then built under another name of its table: the manifest has the table,
  and the failure stays recorded beside it.
\<close>

lemma built_table_stays_failed:
  "\<exists>entries failures. rr_outcome (demo_run 9) = Inr (entries, failures)
     \<and> map_option me_error (map_of entries ''qy'') = Some None \<and> map_of failures ''qy'' \<noteq> None"
  by (simp add: demo_run_eval seeded_manifest_def) (simp add: run_entry_def)

lemma second_run_builds_nothing_witness:
  "\<exists>carried. deriveSelfInstructions (re_settings (run_env 9)) demo_compiler run_plan (Some [''x'']) 
      [(''qx'', run_entry (run_source ''x'' (Some ''lake'') ''qx'') (run_instruction ''qx'' ''x'' (Some ''lake'')))] None = Inr ([], carried)"
proof (rule second_run_builds_nothing)
  let ?i = "self_instruction (run_source ''x'' (Some ''lake'') ''qx'') (Some ''lake'') ''qx''"
  have d: "resolveStorageDestination (re_settings (run_env 9)) (run_source ''x'' (Some ''lake'') ''qx'') = Some ''lake''"
    by (simp add: resolveStorageDestination_def) code_simp
  have a: "computeSourceEntityId demo_compiler (run_source ''x'' (Some ''lake'') ''qx'') (cp_digests run_plan) = Some ''qx''" by code_simp
  show "deriveSelfInstructions (re_settings (run_env 9)) demo_compiler run_plan (Some [''x'']) [] None = Inr ([?i], [])"
    by (simp add: deriveSelfInstructions_def demo_visits self_step_def d a Let_def self_gate_def run_gates deltaEligible_def reusable_def)
      (simp add: run_source_def)
  show "\<forall>i \<in> set [?i]. reusable (map_of [(''qx'', run_entry (run_source ''x'' (Some ''lake'') ''qx'') (run_instruction ''qx'' ''x'' (Some ''lake'')))]
      (bi_sourceEntityId i)) (bi_destination i) \<noteq> None"
    by (simp add: self_instruction_def reusable_def is_set_def)
  show "map_of [] \<subseteq>\<^sub>m map_of [(''qx'', run_entry (run_source ''x'' (Some ''lake'') ''qx'') (run_instruction ''qx'' ''x'' (Some ''lake'')))]"
    by (simp add: map_le_def)
qed

end
