(* ===== verification/Spec2Isabelle.thy ===== *)
theory Spec2Isabelle
  imports Quoting QueryText Filters PathSafety Freshness LoadPool Admission ResultCaps IncrementalRun Scheduler ConnectionMerge Eligibility Enforcement Boundary QueryRun Rollups PackageLifecycle BuildPlan BuildRun
begin

text \<open>
  Verification development of Malloy Publisher, the server that loads packages of Malloy models,
  serves queries over them and materializes their persisted sources
  (\<open>packages/server/src\<close>; the paths below are relative to it).

  \<^bold>\<open>The program.\<close> A request names an environment, a package and a model. The package is loaded
  by a pool of worker threads, which ask the main thread for schemas. A query is screened and
  rewritten as text (filters are injected into it), its tables are quoted for the dialect or
  replaced by materialized ones that are fresh enough, and its result is capped. Settings come
  from the environment; admission control refuses loads and queries under pressure. A persisted
  source is materialized by a run recorded in a DuckDB table, on demand or by a scheduler; its
  declaration is gated when the package is published, its compiled form when a table is built, and
  its table is advanced by deltas between rebuilds. A source may carry an \<open>authorize\<close> or a \<open>partition\<close>
  annotation. Connections hold credentials, of which an API client sees a projection.

  \<^bold>\<open>Theories.\<close>
    \<^item> \<open>Prelude\<close>: JavaScript strings and maps, results that may be errors, shared lemmas.
    \<^item> \<open>Quoting\<close> (\<open>service/quoting.ts\<close>): SQL identifiers and table paths. The locale of a delimited
      identifier is interpreted for both quote characters; quoted paths read back exactly.
    \<^item> \<open>QueryText\<close> (\<open>service/query_text.ts\<close>): blanking of comments and literals, run targets, source
      aliases and derivation edges. Blanking is an idempotent mask; comments hide no edge.
    \<^item> \<open>Filters\<close> (\<open>service/filter.ts\<close>): filter annotations, literals, predicates and the injected
      refinement. A filter value is inert text and an injected filter is syntax.
    \<^item> \<open>PathSafety\<close> (\<open>path_safety.ts\<close>): name and path allowlists and the join under a root.
    \<^item> \<open>Freshness\<close> (\<open>service/freshness.ts\<close>, the memo of \<open>service/package.ts\<close>): freshness windows, the
      filtered manifest and its memo, as the instance of a locale of memos with a deadline.
    \<^item> \<open>LoadPool\<close> (\<open>package_load/package_load_pool.ts\<close>): the worker pool as a state machine over
      events: one step is a callback run to the point where the event loop takes the next one.
      Its invariants say where every load is and that the pool's books agree.
    \<^item> \<open>Config\<close> (\<open>config.ts\<close>): the settings and their parsers, substitution in the configuration.
    \<^item> \<open>Admission\<close> (\<open>service/package_memory_governor.ts\<close>, \<open>query_concurrency.ts\<close>): the memory governor's
      hysteresis and the query slots.
    \<^item> \<open>ResultCaps\<close> (\<open>service/model_limits.ts\<close>, \<open>stream_helpers.ts\<close>,
      \<open>package_load/rpc_wait_accountant.ts\<close>): row and byte caps, budgeted streams, wait accounting.
    \<^item> \<open>Incremental\<close> (\<open>service/incremental_declaration.ts\<close>, \<open>service/incremental_policy.ts\<close>): the
      resolution of an incremental declaration and the publish gate over it.
    \<^item> \<open>Watermark\<close>, \<open>DeltaStep\<close> (\<open>service/incremental_apply.ts\<close>): boundaries as text, literals and an order;
      the probes, statements and plan of one delta. A literal reads back; a delta starts at the
      recorded boundary of its own lineage and replaces the range it reads.
    \<^item> \<open>IncrementalRun\<close> (\<open>service/incremental_build.ts\<close>, \<open>service/incremental_storage.ts\<close>,
      \<open>storage/duckdb/IncrementalLedgerRepository.ts\<close>): the ledger of boundaries, as an instance of a
      locale of stores, and refreshes composed as \<open>service/materialization_service.ts\<close> composes them.
      Over any history of refreshes and failures no watermark value is skipped, unless a rebuild
      can neither clear the old boundary nor record its own (\<open>lost_clear_leaves_gap\<close>).
    \<^item> \<open>Authorize\<close> (\<open>service/authorize.ts\<close>): the spellings, text and validation of gates.
    \<^item> \<open>IrGraph\<close>, \<open>Partition\<close>, \<open>Eligibility\<close> (\<open>service/partition_annotation.ts\<close>,
      \<open>service/materialization_eligibility.ts\<close>): the compiled source as a graph of objects, the bounded walk
      over it, and the refusals that rest on it. A walk that answers no has seen every reachable object.
    \<^item> \<open>Json\<close>, \<open>ConnectionView\<close>, \<open>ConnectionMerge\<close> (\<open>service/connection_public_view.ts\<close>): the public view of
      a connection and the merge of an update into the stored one.
    \<^item> \<open>Materialization\<close> (\<open>storage/duckdb/MaterializationRepository.ts\<close>, the run handling of
      \<open>service/materialization_service.ts\<close>): the table with its unique index and the inductive step
      relation of requests, runs, cascades and restarts. The service's view of the store is a
      locale, interpreted on the repository.
    \<^item> \<open>Scheduler\<close> (\<open>service/materialization_scheduler.ts\<close>, \<open>service/cron_evaluator.ts\<close>): the sweep.
    \<^item> \<open>GateWalk\<close> (\<open>service/gate_registry_walk.ts\<close>, \<open>service/annotations.ts\<close>): the gates and partition
      markers of a source from everything it is derived from. The walk misses no ancestor, and the
      notes copied onto a resolved source stay a gate of their own beside it.
    \<^item> \<open>GateShape\<close> (\<open>service/gate_dimension.ts\<close>, \<open>service/gate_classification.ts\<close>): what a gate's
      condition compiles to and reads, and whether it can be enforced as a row filter.
    \<^item> \<open>Grafting\<close>, \<open>Enforcement\<close> (\<open>service/model.ts\<close>): row filters written into a copy of the compiled
      model, the proof that they landed, and \<open>authorizeAndBindRunnable\<close>. What it binds carries the
      filter of every row-level gate and partition, and passed every other gate.
    \<^item> \<open>NoteSweep\<close> (\<open>service/model.ts\<close>): the sweep that decides whether a model has any gate at all.
    \<^item> \<open>Boundary\<close> (\<open>service/model.ts\<close>, \<open>service/package.ts\<close>): which sources a package lets a caller query.
    \<^item> \<open>ServeShape\<close> (\<open>service/materialization_serve_transform.ts\<close>,
      \<open>service/preaggregation_serve_bindings.ts\<close>, \<open>service/model.ts\<close>): the model that is emitted over
      materialized tables, the tiers it is thinned by, and its cache.
    \<^item> \<open>QueryRun\<close> (\<open>Model.getQueryResults\<close> of \<open>service/model.ts\<close>): one query request from its text to its
      rows, over Boundary, Filters, NoteSweep, ServeShape, Enforcement and ResultCaps.
    \<^item> \<open>Additivity\<close>, \<open>Rollups\<close> (\<open>service/preaggregation_classifier.ts\<close> and the annotation, validation
      and synthesis beside it): which measures a rollup may store as partials, and the plan of the
      rollups a source declares. Partials regrouped merge into the measure where no record is
      counted on two rows, so a rollup of a source without a fan-out join answers as its base does for the measures
      over the source's own rows; a sum or count through a \<open>join_one\<close> does not (\<open>joined_sum_overcounts\<close>).
    \<^item> \<open>PackageLifecycle\<close> (\<open>service/environment.ts\<close>): the life of one package in its environment, as a
      step relation over the points where the requests on it await, one phase for each await. Between
      requests the package is consistent and unlocked, and the lock is given back after at most fourteen awaits; a
      failed install or a refused write restores what was there.
    \<^item> \<open>BuildPlan\<close> (\<open>service/build_plan.ts\<close>): the layers freshness and query metadata are resolved over,
      the order sources are built in, what is planned or refused, and which content addresses may be
      served. The order is one of dependencies; a refusal of an address outweighs any approval of it.
    \<^item> \<open>BuildRun\<close> (\<open>service/materialization_service.ts\<close>): one materialization run over such a plan: its
      instructions, the loop with its gates, collisions and failures, and what is dropped after a
      failure. Building one source is an argument of the loop.

  \<^bold>\<open>Conventions.\<close> A record field or constructor keeps the name of the source where Isabelle allows
  it. An exception is the left side of a sum; a message is a constructor with the values it
  quotes, or its text where another definition reads it. Strings are Latin-1. Code of other
  packages (the Malloy compiler, DuckDB, cron-parser, the drivers) is an argument, with what is
  documented of it as a named hypothesis; log lines and metrics are left out except where a
  property counts them. The event loop of the pool ends by the
  number of loads not yet dispatched, substitution and splitting by the length of the text, the walks
  over a compiled source by the depth bound of 200 that the source sets itself, past which they throw.
  The walks over a model's registry recurse on fuel: the number of its structs or fields, which is
  proved enough (\<open>GateWalk.entry_walks_terminate\<close>, \<open>GateShape.given_expansion_terminates\<close>). The proof of
  a filter (8) and the chain of sources (64) have the bounds of the source. Enforcement calls the
  gate classification and the grafting without their caches, which \<open>GateShape.gate_cache_transparent\<close> and
  \<open>Grafting.graft_cache_transparent\<close> justify.

  \<^bold>\<open>Limits of what is shown.\<close> Where the code itself is narrower than its intent, the property says so
  and a lemma shows the case left out: the gate of a member that only a composed query has, in a model without any
  note the sweep finds (\<open>NoteSweep.sweep_misses_composed_member\<close>); a given behind a field that two structs share
  (\<open>GateShape.shared_field_hides_given\<close>); the filters of a source in a second \<open>run:\<close> or behind a named query
  (\<open>QueryRun.later_run_is_not_filtered\<close>, \<open>named_query_is_not_filtered\<close>); a hidden stored column under a public
  name (\<open>ServeShape.hidden_column_served_under_public_name\<close>); the status of a package that was not loaded
  (\<open>PackageLifecycle.failed_install_hides_unloaded_package\<close>); what an echoed connection loses
  (\<open>ConnectionMerge.echo_loses_scalar_in_shape\<close>, \<open>echo_loses_unnamed_database\<close>).

  \<^bold>\<open>Numbers.\<close> Integers are exact (JavaScript agrees up to 2^53) and the fractions of the memory
  governor are the exact values of their numerals.

  \<^bold>\<open>Not modelled.\<close> The SQL that builds materialized tables, the HTTP and MCP surfaces, the drivers
  behind connections, the loading of environments from disk and git, and the client packages. The
  manifest lists them.

  The properties of this theory span components.
\<close>

text \<open>
  A memory budget that the configuration accepts is enforced: the marks lie in order below it,
  so from any history of samples a sample at the budget or above leaves back-pressure on, unless
  the operator turned back-pressure off.
\<close>

theorem accepted_budget_is_enforced:
  assumes "getMemoryGovernorConfig env = Inr (Some c)" and "backpressureEnabled c"
    and "maxMemoryBytes c \<le> rss"
  shows "0 \<le> lowWaterBytes (new_governor c) \<and> lowWaterBytes (new_governor c) \<le> highWaterBytes (new_governor c)
    \<and> (lowWaterBytes (new_governor c) < highWaterBytes (new_governor c) \<longrightarrow>
         isBackpressured (Admission.tick (Some rss) now (ticks samples (new_governor c))))"
proof -
  let ?g = "new_governor c"
  have c: "0 < maxMemoryBytes c" "0 < lowWaterFraction c" "lowWaterFraction c < highWaterFraction c"
    "highWaterFraction c < 1"
    using accepted_governor [OF assms(1)] by simp_all
  note m = marks_ordered [OF c]
  have "config ?g = c" by (simp add: new_governor_def)
  then have "backpressured (ticks (samples @ [(Some rss, now)]) ?g)"
    if "lowWaterBytes ?g < highWaterBytes ?g"
    using ticks_flag [of ?g "samples @ [(Some rss, now)]"] that assms(2,3) m(3)
    by (simp add: decisive_def)
  then show ?thesis using m by (simp add: isBackpressured_def ticks_def)
qed

lemma accepted_budget_is_enforced_witness:
  "\<exists>c. getMemoryGovernorConfig demo_env = Inr (Some c)
     \<and> isBackpressured (Admission.tick (Some 1000) 5 (ticks [(Some 10, 1)] (new_governor c)))"
proof -
  obtain c where c: "getMemoryGovernorConfig demo_env = Inr (Some c)" "maxMemoryBytes c = 1000"
      "backpressureEnabled c" "highWaterFraction c = 8 / 10" "lowWaterFraction c = 7 / 10"
    using demo_env_config by auto
  have "lowWaterBytes (new_governor c) < highWaterBytes (new_governor c)"
    by (simp add: new_governor_def c)
  with accepted_budget_is_enforced [OF c(1,3), of 1000] c(2) show ?thesis using c(1) by auto
qed

text \<open>
  Whatever the environment says, as long as the server accepts it: with the row limits it
  configures a model query returns all the rows that were asked for, or an error that the cap was
  exceeded, and the error comes exactly when more rows than the cap were there to return.
\<close>

theorem configured_cap_never_truncates:
  fixes available :: int
  assumes "getDefaultQueryRowLimit env = Inr dflt" and "getMaxQueryRows env = Inr row_cap"
  shows "let requested = resolveModelQueryRowLimit userLimit dflt 0;
       fetched = min available (resolveModelQueryRowLimit userLimit dflt row_cap)
     in snd (assertWithinModelRowLimit fetched row_cap src) =
          (if 0 < row_cap \<and> row_cap < min available requested then Inl (TooManyRows row_cap) else Inr ())
        \<and> (snd (assertWithinModelRowLimit fetched row_cap src) = Inr () \<longrightarrow> fetched = min available requested)"
proof -
  have "0 < dflt" "0 \<le> row_cap"
    using assms by (simp_all add: default_row_limit_pos max_query_rows_ge)
  then show ?thesis
    by (auto simp: Let_def resolveModelQueryRowLimit_def assertWithinModelRowLimit_def)
qed

lemma configured_cap_never_truncates_witness:
  "snd (assertWithinModelRowLimit (min 500000 (resolveModelQueryRowLimit (Some 300000) 1000 100000)) 100000 ModelQuery)
     = Inl (TooManyRows 100000)"
proof -
  have "getDefaultQueryRowLimit demo_env = Inr 1000" "getMaxQueryRows demo_env = Inr 100000"
    by code_simp+
  from configured_cap_never_truncates [OF this, of "Some 300000" 500000 ModelQuery] show ?thesis
    by (simp add: Let_def resolveModelQueryRowLimit_def)
qed

end
